(* ===== verification/Prelude.thy ===== *)
theory Prelude
  imports Complex_Main "HOL-Library.Word" "HOL-Library.Product_Lexorder" "HOL-Library.Option_ord"
    "HOL-Library.Code_Target_Numeral"
begin

text \<open>
  Shared vocabulary of the development: bytes and fixed-width integers, results with errors and
  panics, big-endian codecs, chunking of slices, and the lemma collections the component theories
  use.
  \<^item> \<open>res_simps\<close> collects the equations of the result type;
  \<^item> \<open>codec_simps\<close> collects the facts about big-endian encodings and slices.
\<close>

unbundle bit_operations_syntax

named_theorems res_simps "equations of the result type and its sequencing operator"
named_theorems codec_simps "round trips and lengths of the byte codecs"

section \<open>Machine integers and bytes\<close>

type_synonym byte = "8 word"
type_synonym u8 = "8 word"
type_synonym u16 = "16 word"
type_synonym u32 = "32 word"
type_synonym u64 = "64 word"
type_synonym u128 = "128 word"
type_synonym u256 = "256 word"
type_synonym bytes = "8 word list"

section \<open>Results, errors and panics\<close>

text \<open>
  A fallible Rust function returns \<open>Result<T, E>\<close> or panics (an index out of range, an
  \<open>unwrap\<close> of \<open>None\<close>, a failed assertion). Both are values here, so that no failure is hidden.
\<close>

datatype 'e failure = Fail 'e | Panic

type_synonym ('e, 'a) result = "'e failure + 'a"

abbreviation Ok :: "'a \<Rightarrow> ('e, 'a) result" where
  "Ok x \<equiv> Inr x"

abbreviation Err :: "'e \<Rightarrow> ('e, 'a) result" where
  "Err e \<equiv> Inl (Fail e)"

abbreviation Panicked :: "('e, 'a) result" where
  "Panicked \<equiv> Inl Panic"

text \<open>Sequencing of fallible steps: the \<open>?\<close> operator of the source.\<close>

fun and_then :: "('e, 'a) result \<Rightarrow> ('a \<Rightarrow> ('e, 'b) result) \<Rightarrow> ('e, 'b) result" where
  "and_then (Inl e) k = Inl e"
| "and_then (Inr x) k = k x"

fun map_res :: "('a \<Rightarrow> 'b) \<Rightarrow> ('e, 'a) result \<Rightarrow> ('e, 'b) result" where
  "map_res f (Inl e) = Inl e"
| "map_res f (Inr x) = Inr (f x)"

fun map_fail :: "('e \<Rightarrow> 'f) \<Rightarrow> ('e, 'a) result \<Rightarrow> ('f, 'a) result" where
  "map_fail f (Inl (Fail e)) = Inl (Fail (f e))"
| "map_fail f (Inl Panic) = Inl Panic"
| "map_fail f (Inr x) = Inr x"

definition ok_or :: "'e \<Rightarrow> 'a option \<Rightarrow> ('e, 'a) result" where
  "ok_or e m = (case m of None \<Rightarrow> Err e | Some x \<Rightarrow> Ok x)"

fun res_get :: "'a \<Rightarrow> ('e, 'a) result \<Rightarrow> 'a" where
  "res_get d (Inl e) = d"
| "res_get d (Inr x) = x"

lemma and_then_Inr_iff [res_simps]:
  "and_then m k = Inr y \<longleftrightarrow> (\<exists>x. m = Inr x \<and> k x = Inr y)"
  by (cases m) auto

lemma map_res_Inr_iff [res_simps]: "map_res f m = Inr y \<longleftrightarrow> (\<exists>x. m = Inr x \<and> y = f x)"
  by (cases m) auto

lemma map_fail_Inr_iff [res_simps]: "map_fail f m = Inr y \<longleftrightarrow> m = Inr y"
  by (cases "(f, m)" rule: map_fail.cases) auto

lemma map_fail_Panic_iff [res_simps]: "map_fail f m = Panicked \<longleftrightarrow> m = Panicked"
  by (cases "(f, m)" rule: map_fail.cases) auto

lemma ok_or_simps [res_simps, simp]: "ok_or e None = Err e" "ok_or e (Some x) = Ok x"
  by (simp_all add: ok_or_def)

lemma ok_or_Inr_iff [res_simps]: "ok_or e m = Inr x \<longleftrightarrow> m = Some x"
  by (cases m) auto

lemma and_then_cong [fundef_cong]:
  "m = m' \<Longrightarrow> (\<And>x. m' = Inr x \<Longrightarrow> k x = k' x) \<Longrightarrow> and_then m k = and_then m' k'"
  by (cases m') auto

lemma option_eq_by_Some: "(\<And>x. a = Some x \<longleftrightarrow> b = Some x) \<Longrightarrow> a = b"
  by (cases a; cases b) auto

text \<open>Collecting an iterator of results stops at the first failure.\<close>

fun collect_res :: "('e, 'a) result list \<Rightarrow> ('e, 'a list) result" where
  "collect_res [] = Ok []"
| "collect_res (m # ms) = and_then m (\<lambda>x. and_then (collect_res ms) (\<lambda>xs. Ok (x # xs)))"

lemma collect_res_Ok:
  "(\<And>x. x \<in> set xs \<Longrightarrow> f x = Ok (g x)) \<Longrightarrow> collect_res (map f xs) = Ok (map g xs)"
  by (induction xs) auto

section \<open>Comparison results\<close>

text \<open>\<open>std::cmp::Ordering\<close>, with \<open>cmp\<close> on a linear order and \<open>Ordering::reverse\<close>.\<close>

datatype ordering = Less | Equal | Greater

definition ord_cmp :: "'a::linorder \<Rightarrow> 'a \<Rightarrow> ordering" where
  "ord_cmp x y = (if x < y then Less else if x = y then Equal else Greater)"

fun ord_reverse :: "ordering \<Rightarrow> ordering" where
  "ord_reverse Less = Greater"
| "ord_reverse Equal = Equal"
| "ord_reverse Greater = Less"

lemma ord_cmp_simps [simp]:
  "ord_cmp x y = Less \<longleftrightarrow> x < y" "ord_cmp x y = Equal \<longleftrightarrow> x = y" "ord_cmp x y = Greater \<longleftrightarrow> y < x"
  by (auto simp: ord_cmp_def)

lemma ord_cmp_refl [simp]: "ord_cmp x x = Equal"
  by simp

lemma ord_reverse_cmp: "ord_reverse (ord_cmp x y) = ord_cmp y x"
  by (auto simp: ord_cmp_def)

section \<open>Big-endian encodings\<close>

lemma unat_bound: "unat (x :: 'a::len word) < 2 ^ LENGTH('a)"
  by (rule unsigned_less)


text \<open>\<open>be_encode n v\<close> is \<open>v.to_be_bytes()\<close> for an \<open>n\<close>-byte integer (the value modulo \<open>256 ^ n\<close>).\<close>

fun be_encode :: "nat \<Rightarrow> nat \<Rightarrow> bytes" where
  "be_encode 0 v = []"
| "be_encode (Suc n) v = be_encode n (v div 256) @ [of_nat v]"

definition be_decode :: "bytes \<Rightarrow> nat" where
  "be_decode bs = foldl (\<lambda>a b. a * 256 + unat b) 0 bs"

lemma length_be_encode [simp, codec_simps]: "length (be_encode n v) = n"
  by (induction n arbitrary: v) auto

lemma be_decode_Nil [simp]: "be_decode [] = 0"
  by (simp add: be_decode_def)

lemma be_decode_snoc [simp]: "be_decode (bs @ [b]) = be_decode bs * 256 + unat b"
  by (simp add: be_decode_def)

lemma byte_256: "(256 :: byte) = 0"
  by simp

lemma word_unat_eq: "x * 0 + of_nat (unat b) = (b :: byte)"
  by simp

lemma unat_of_nat_byte: "unat (of_nat v :: byte) = v mod 256"
  by (simp add: unat_of_nat)

lemma be_decode_encode [codec_simps]: "be_decode (be_encode n v) = v mod 256 ^ n"
proof (induction n arbitrary: v)
  case (Suc n)
  have "v mod 256 ^ Suc n = (v div 256 mod 256 ^ n) * 256 + v mod 256"
    by (simp add: mod_mult2_eq mult.commute)
  with Suc show ?case by (simp add: unat_of_nat_byte)
qed simp

lemma be_decode_bound: "be_decode bs < 256 ^ length bs"
proof (induction bs rule: rev_induct)
  case (snoc b bs)
  have "unat b < 256" using unat_bound [of b] by simp
  with snoc have "be_decode bs * 256 + unat b < (be_decode bs + 1) * 256" by simp
  also have "\<dots> \<le> 256 ^ length bs * 256" using snoc by (simp add: mult_le_mono1 Suc_leI)
  finally show ?case by (simp add: mult.commute)
qed simp

lemma be_encode_decode [codec_simps]: "n = length bs \<Longrightarrow> be_encode n (be_decode bs) = bs"
proof (induction bs arbitrary: n rule: rev_induct)
  case (snoc b bs)
  have "unat b < 256" using unat_bound [of b] by simp
  then have "(be_decode bs * 256 + unat b) div 256 = be_decode bs" by simp
  moreover have "(of_nat (be_decode bs * 256 + unat b) :: byte) = b"
    by (simp only: of_nat_add of_nat_mult of_nat_numeral byte_256 word_unat_eq)
  ultimately show ?case using snoc by simp
qed simp

definition u16_to_be :: "u16 \<Rightarrow> bytes" where "u16_to_be x = be_encode 2 (unat x)"
definition u32_to_be :: "u32 \<Rightarrow> bytes" where "u32_to_be x = be_encode 4 (unat x)"
definition u64_to_be :: "u64 \<Rightarrow> bytes" where "u64_to_be x = be_encode 8 (unat x)"
definition u256_to_be :: "u256 \<Rightarrow> bytes" where "u256_to_be x = be_encode 32 (unat x)"

definition u16_from_be :: "bytes \<Rightarrow> u16" where "u16_from_be bs = of_nat (be_decode bs)"
definition u32_from_be :: "bytes \<Rightarrow> u32" where "u32_from_be bs = of_nat (be_decode bs)"
definition u64_from_be :: "bytes \<Rightarrow> u64" where "u64_from_be bs = of_nat (be_decode bs)"
definition u256_from_be :: "bytes \<Rightarrow> u256" where "u256_from_be bs = of_nat (be_decode bs)"

lemma length_to_be [simp, codec_simps]:
  "length (u16_to_be a) = 2" "length (u32_to_be b) = 4"
  "length (u64_to_be c) = 8" "length (u256_to_be d) = 32"
  by (simp_all add: u16_to_be_def u32_to_be_def u64_to_be_def u256_to_be_def)

lemma u16_from_to_be [simp, codec_simps]: "u16_from_be (u16_to_be x) = x"
  using unat_bound [of x] by (simp add: u16_from_be_def u16_to_be_def be_decode_encode)

lemma u32_from_to_be [simp, codec_simps]: "u32_from_be (u32_to_be x) = x"
  using unat_bound [of x] by (simp add: u32_from_be_def u32_to_be_def be_decode_encode)

lemma u64_from_to_be [simp, codec_simps]: "u64_from_be (u64_to_be x) = x"
  using unat_bound [of x] by (simp add: u64_from_be_def u64_to_be_def be_decode_encode)

lemma u256_from_to_be [simp, codec_simps]: "u256_from_be (u256_to_be x) = x"
  using unat_bound [of x] by (simp add: u256_from_be_def u256_to_be_def be_decode_encode)


lemma be_decode_less: "length bs = n \<Longrightarrow> 256 ^ n \<le> m \<Longrightarrow> be_decode bs < m"
  using be_decode_bound [of bs] by simp

lemma u32_to_from_be [codec_simps]: "length bs = 4 \<Longrightarrow> u32_to_be (u32_from_be bs) = bs"
  using be_decode_less [of bs 4 "2 ^ 32"]
  by (simp add: u32_to_be_def u32_from_be_def unat_of_nat be_encode_decode)

lemma u16_to_from_be [codec_simps]: "length bs = 2 \<Longrightarrow> u16_to_be (u16_from_be bs) = bs"
  using be_decode_less [of bs 2 "2 ^ 16"]
  by (simp add: u16_to_be_def u16_from_be_def unat_of_nat be_encode_decode)

section \<open>Slices\<close>

text \<open>
  \<open>slice_range xs i j\<close> is the slice expression \<open>xs[i..j]\<close>: a panic when \<open>i > j\<close> or \<open>j\<close> is past
  the end. \<open>split_at_res\<close> is \<open>slice::split_at\<close>.
\<close>

definition slice_range :: "'a list \<Rightarrow> nat \<Rightarrow> nat \<Rightarrow> ('e, 'a list) result" where
  "slice_range xs i j =
     (if i \<le> j \<and> j \<le> length xs then Ok (take (j - i) (drop i xs)) else Panicked)"

definition index_res :: "'a list \<Rightarrow> nat \<Rightarrow> ('e, 'a) result" where
  "index_res xs i = (if i < length xs then Ok (xs ! i) else Panicked)"

definition split_at_res :: "'a list \<Rightarrow> nat \<Rightarrow> ('e, 'a list \<times> 'a list) result" where
  "split_at_res xs n = (if n \<le> length xs then Ok (take n xs, drop n xs) else Panicked)"

text \<open>\<open>copy_into dst off src\<close> is \<open>dst[off..off + src.len()].copy_from_slice(src)\<close>.\<close>

definition copy_into :: "'a list \<Rightarrow> nat \<Rightarrow> 'a list \<Rightarrow> ('e, 'a list) result" where
  "copy_into dst off src =
     (if off + length src \<le> length dst
      then Ok (take off dst @ src @ drop (off + length src) dst) else Panicked)"

text \<open>\<open>slice::chunks\<close> and \<open>slice::chunks_exact\<close> (a zero size panics; every caller guards it).\<close>

function chunks :: "nat \<Rightarrow> 'a list \<Rightarrow> 'a list list" where
  "chunks n xs = (if n = 0 \<or> xs = [] then [] else take n xs # chunks n (drop n xs))"
  by pat_completeness auto
termination
  by (relation "measure (\<lambda>(n, xs). length xs)") auto

declare chunks.simps [simp del]

definition chunks_exact :: "nat \<Rightarrow> 'a list \<Rightarrow> 'a list list" where
  "chunks_exact n xs = filter (\<lambda>c. length c = n) (chunks n xs)"

lemma chunks_Nil [simp]: "chunks n [] = []"
  by (simp add: chunks.simps)

lemma chunks_Cons:
  "0 < n \<Longrightarrow> xs \<noteq> [] \<Longrightarrow> chunks n xs = take n xs # chunks n (drop n xs)"
  by (simp add: chunks.simps)

lemma concat_chunks [simp]: "0 < n \<Longrightarrow> concat (chunks n xs) = xs"
proof (induction n xs rule: chunks.induct)
  case (1 n xs)
  then show ?case by (cases "xs = []") (simp_all add: chunks.simps [of n xs])
qed

lemma length_chunks: "0 < n \<Longrightarrow> length (chunks n xs) = (length xs + n - 1) div n"
proof (induction n xs rule: chunks.induct)
  case (1 n xs)
  show ?case
  proof (cases "xs = []")
    case True
    then show ?thesis using 1(2) by simp
  next
    case False
    then have l: "0 < length xs" by simp
    have IH: "length (chunks n (drop n xs)) = (length xs - n + n - 1) div n"
      using 1 False by simp
    have "(length xs - n + n - 1) div n = (length xs - 1) div n"
    proof (cases "n \<le> length xs")
      case False
      then have "length xs - n = 0" and "length xs - 1 < n" by simp_all
      then show ?thesis using 1(2) by (simp only: add_0 div_less diff_less zero_less_one)
    qed simp
    moreover have "(length xs + n - 1) div n = Suc ((length xs - 1) div n)"
    proof -
      have "length xs + n - 1 = (length xs - 1) + n" using l by arith
      then show ?thesis using 1(2) by (simp only: div_add_self2 neq0_conv)
    qed
    ultimately have "Suc ((length xs - n + n - 1) div n) = (length xs + n - 1) div n" by simp
    with IH False 1(2) show ?thesis by (simp add: chunks_Cons)
  qed
qed

lemma chunks_sizes: "c \<in> set (chunks n xs) \<Longrightarrow> c \<noteq> [] \<and> length c \<le> n"
proof (induction n xs rule: chunks.induct)
  case (1 n xs)
  then show ?case by (cases "n = 0 \<or> xs = []") (auto simp: chunks.simps [of n xs])
qed

lemma chunks_append_exact:
  "0 < n \<Longrightarrow> length x = n \<Longrightarrow> chunks n (x @ ys) = x # chunks n ys"
  by (subst chunks.simps) auto

lemma chunks_concat:
  assumes "0 < n" and "\<forall>x \<in> set xs. length x = n"
  shows "chunks n (concat xs @ ys) = xs @ chunks n ys"
  using assms(2) by (induction xs) (auto simp: chunks_append_exact [OF assms(1)])

lemma chunks_exact_concat:
  assumes "0 < n" and "\<forall>x \<in> set xs. length x = n" and "length ys < n"
  shows "chunks_exact n (concat xs @ ys) = xs"
proof -
  have "chunks n ys = (if ys = [] then [] else [ys])"
    using assms(1,3) by (auto simp: chunks_Cons)
  with assms show ?thesis by (auto simp: chunks_exact_def chunks_concat)
qed


lemma chunks_exact_append_exact:
  "0 < n \<Longrightarrow> \<forall>x \<in> set xs. length x = n \<Longrightarrow> chunks_exact n (concat xs @ ys) = xs @ chunks_exact n ys"
  by (simp add: chunks_exact_def chunks_concat filter_id_conv)

lemma chunks_exact_replicate:
  assumes "0 < n"
  shows "chunks_exact n (replicate m x) = replicate (m div n) (replicate n x)"
proof -
  have rep: "concat (replicate q (replicate n x)) = replicate (q * n) x" for q
    by (induction q) (auto simp: replicate_add)
  have "replicate m x = concat (replicate (m div n) (replicate n x)) @ replicate (m mod n) x"
    unfolding rep by (metis div_mult_mod_eq replicate_add)
  then show ?thesis using assms by (simp add: chunks_exact_concat)
qed

lemma length_chunks_exact: "0 < n \<Longrightarrow> length (chunks_exact n xs) = length xs div n"
proof (induction n xs rule: chunks.induct)
  case (1 n xs)
  show ?case
  proof (cases "length xs < n")
    case True
    then have "chunks n xs = (if xs = [] then [] else [xs])" by (auto simp: chunks.simps [of n xs])
    with True show ?thesis by (simp add: chunks_exact_def)
  next
    case False
    then have "xs \<noteq> []" using 1(2) by auto
    then have "chunks n xs = take n xs # chunks n (drop n xs)" using 1(2) by (simp add: chunks_Cons)
    moreover have "length (chunks_exact n (drop n xs)) = (length xs - n) div n" using 1 \<open>xs \<noteq> []\<close> by simp
    ultimately show ?thesis using False 1(2) by (simp add: chunks_exact_def le_div_geq)
  qed
qed

lemma chunks_exact_lengths: "ch \<in> set (chunks_exact n xs) \<Longrightarrow> length ch = n"
  by (simp add: chunks_exact_def)

lemma filter_map_fold_or_bit:
  fixes f :: "'a \<Rightarrow> 'b::len word"
  shows "bit (foldl (\<lambda>acc n. acc OR n) a (map f xs)) i \<longleftrightarrow> bit a i \<or> (\<exists>x \<in> set xs. bit (f x) i)"
  by (induction xs arbitrary: a) (auto simp: bit_or_iff)

end
