(* ===== verification/Ord_Map.thy ===== *)
theory Ord_Map
  imports Prelude
begin

text \<open>
  Keyed collections of the program. \<open>BTreeMap\<close> (and the ordered skip map and the hash maps, whose
  iteration order the program never relies on) are association lists in ascending key order:
  \<open>om_get\<close>, \<open>om_insert\<close>, \<open>om_remove\<close> and \<open>om_retain\<close> are the operations the program calls, and
  \<open>om_ok\<close> says that the keys are strictly ascending, so each key occurs once. The laws of lookup hold
  for any list; the laws about size and order need \<open>om_ok\<close>.

  The locale \<open>kv_store\<close> is the contract the stateful components rely on; it is interpreted on the
  operations below.
\<close>

type_synonym ('k, 'v) omap = "('k \<times> 'v) list"

section \<open>Operations\<close>

abbreviation om_get :: "('k, 'v) omap \<Rightarrow> 'k \<Rightarrow> 'v option" where
  "om_get m k \<equiv> map_of m k"

fun om_insert :: "'k::linorder \<Rightarrow> 'v \<Rightarrow> ('k, 'v) omap \<Rightarrow> ('k, 'v) omap" where
  "om_insert k v [] = [(k, v)]"
| "om_insert k v ((k', v') # m) =
     (if k < k' then (k, v) # (k', v') # m
      else if k = k' then (k, v) # m
      else (k', v') # om_insert k v m)"

definition om_remove :: "'k \<Rightarrow> ('k, 'v) omap \<Rightarrow> ('k, 'v) omap" where
  "om_remove k m = filter (\<lambda>(k', _). k' \<noteq> k) m"

definition om_retain :: "('k \<Rightarrow> 'v \<Rightarrow> bool) \<Rightarrow> ('k, 'v) omap \<Rightarrow> ('k, 'v) omap" where
  "om_retain p m = filter (\<lambda>(k, v). p k v) m"

definition om_keys :: "('k, 'v) omap \<Rightarrow> 'k list" where
  "om_keys m = map fst m"

definition om_ok :: "('k::linorder, 'v) omap \<Rightarrow> bool" where
  "om_ok m \<longleftrightarrow> sorted_wrt (<) (map fst m)"

section \<open>Lookup laws\<close>

lemma om_get_insert [simp]: "om_get (om_insert k v m) = (om_get m)(k \<mapsto> v)"
  by (induction k v m rule: om_insert.induct) (auto simp: fun_eq_iff)

lemma om_get_remove [simp]: "om_get (om_remove k m) = (om_get m)(k := None)"
  by (induction m) (auto simp: om_remove_def fun_eq_iff)

lemma om_get_filter_key:
  "om_get (filter (\<lambda>(k, v). p k) m) k = (if p k then om_get m k else None)"
  by (induction m) auto

lemma dom_om_get: "dom (om_get m) = fst ` set m"
  by (rule dom_map_of_conv_image_fst)

lemma om_get_None_iff: "om_get m k = None \<longleftrightarrow> k \<notin> fst ` set m"
  by (rule map_of_eq_None_iff)

section \<open>The key order is kept\<close>

lemma om_ok_Nil [simp]: "om_ok []"
  by (simp add: om_ok_def)

lemma set_keys_insert [simp]: "fst ` set (om_insert k v m) = insert k (fst ` set m)"
  by (induction k v m rule: om_insert.induct) auto

lemma om_ok_Cons: "om_ok ((k, v) # m) \<longleftrightarrow> (\<forall>k' \<in> fst ` set m. k < k') \<and> om_ok m"
  by (auto simp: om_ok_def)

lemma om_ok_insert [simp, intro]: "om_ok m \<Longrightarrow> om_ok (om_insert k v m)"
  by (induction k v m rule: om_insert.induct) (auto simp: om_ok_Cons simp del: set_keys_insert
      simp: set_keys_insert)

lemma om_ok_filter [simp, intro]: "om_ok m \<Longrightarrow> om_ok (filter p m)"
  unfolding om_ok_def by (induction m) auto

lemma om_ok_remove [simp, intro]: "om_ok m \<Longrightarrow> om_ok (om_remove k m)"
  by (simp add: om_remove_def)

lemma om_ok_retain [simp, intro]: "om_ok m \<Longrightarrow> om_ok (om_retain p m)"
  by (simp add: om_retain_def)

lemma om_ok_tl [simp, intro]: "om_ok m \<Longrightarrow> om_ok (tl m)"
  by (cases m) (auto simp: om_ok_Cons)

lemma om_ok_distinct: "om_ok m \<Longrightarrow> distinct (map fst m)"
  unfolding om_ok_def using strict_sorted_iff by blast

lemma om_get_Some_iff: "om_ok m \<Longrightarrow> om_get m k = Some v \<longleftrightarrow> (k, v) \<in> set m"
  by (rule map_of_eq_Some_iff) (rule om_ok_distinct)

lemma om_get_SomeD: "om_get m k = Some v \<Longrightarrow> (k, v) \<in> set m"
  by (rule map_of_SomeD)

lemma om_get_retain:
  "om_ok m \<Longrightarrow> om_get (om_retain p m) k =
     (case om_get m k of None \<Rightarrow> None | Some v \<Rightarrow> if p k v then Some v else None)"
  unfolding om_retain_def
proof (induction m)
  case (Cons e m)
  obtain k' v' where e: "e = (k', v')" by (cases e)
  from Cons.prems have "om_ok m" and "k' \<notin> fst ` set m" by (auto simp: e om_ok_Cons)
  then have "om_get (filter (\<lambda>(k, v). p k v) m) k' = None" and "om_get m k' = None"
    by (auto simp: map_of_eq_None_iff)
  with Cons.IH [OF \<open>om_ok m\<close>] show ?case by (auto simp: e)
qed simp

lemma length_om_remove: "om_get m k \<noteq> None \<Longrightarrow> length (om_remove k m) < length m"
proof -
  assume "om_get m k \<noteq> None"
  then obtain v where "(k, v) \<in> set m" by (auto dest: map_of_SomeD)
  then show ?thesis unfolding om_remove_def by (rule length_filter_less) simp
qed

lemma length_om_insert_le: "length (om_insert k v m) \<le> Suc (length m)"
  by (induction k v m rule: om_insert.induct) auto

lemma om_remove_absent: "om_get m k = None \<Longrightarrow> om_remove k m = m"
  by (force simp: om_remove_def map_of_eq_None_iff intro: filter_True)

lemma om_remove_insert [simp]: "om_remove k (om_insert k v m) = om_remove k m"
  by (induction k v m rule: om_insert.induct) (auto simp: om_remove_def)

lemma set_om_remove: "set (om_remove k m) = {e \<in> set m. fst e \<noteq> k}"
  by (auto simp: om_remove_def)

lemma set_om_insert:
  "om_ok m \<Longrightarrow> set (om_insert k v m) = insert (k, v) {e \<in> set m. fst e \<noteq> k}"
  by (induction k v m rule: om_insert.induct) (auto simp: om_ok_Cons)

lemma om_insert_append_max:
  "\<forall>k' \<in> fst ` set m. k' < k \<Longrightarrow> om_insert k v m = m @ [(k, v)]"
  by (induction k v m rule: om_insert.induct) auto

text \<open>Ascending insertion rebuilds a well-formed map: the way the decoders fill one.\<close>

lemma foldl_om_insert:
  "sorted_wrt (<) (map fst xs) \<Longrightarrow> \<forall>a \<in> fst ` set m. \<forall>b \<in> fst ` set xs. a < b \<Longrightarrow>
   foldl (\<lambda>m (k, v). om_insert k v m) m xs = m @ xs"
proof (induction xs arbitrary: m)
  case (Cons x xs)
  obtain k v where x: "x = (k, v)" by (cases x)
  from Cons.prems have "om_insert k v m = m @ [(k, v)]"
    by (intro om_insert_append_max) (auto simp: x)
  moreover have "foldl (\<lambda>m (k, v). om_insert k v m) (m @ [(k, v)]) xs = (m @ [(k, v)]) @ xs"
    using Cons.prems by (intro Cons.IH) (auto simp: x)
  ultimately show ?case by (simp add: x)
qed simp

section \<open>The store contract\<close>

text \<open>
  What a stateful component relies on in its keyed stores: lookup after insertion and removal, and
  a representation invariant that the operations keep.
\<close>

locale kv_store =
  fixes get :: "'m \<Rightarrow> 'k \<Rightarrow> 'v option"
    and ins :: "'k \<Rightarrow> 'v \<Rightarrow> 'm \<Rightarrow> 'm"
    and del :: "'k \<Rightarrow> 'm \<Rightarrow> 'm"
    and ok :: "'m \<Rightarrow> bool"
  assumes get_ins: "get (ins k v m) = (get m)(k \<mapsto> v)"
    and get_del: "get (del k m) = (get m)(k := None)"
    and ok_ins: "ok m \<Longrightarrow> ok (ins k v m)"
    and ok_del: "ok m \<Longrightarrow> ok (del k m)"
begin

lemma get_ins_same: "get (ins k v m) k = Some v"
  by (simp add: get_ins)

lemma get_ins_other: "k \<noteq> k' \<Longrightarrow> get (ins k v m) k' = get m k'"
  by (simp add: get_ins)

lemma get_foldl_del:
  "get (foldl (\<lambda>m k. del k m) m ks) k = (if k \<in> set ks then None else get m k)"
  by (induction ks arbitrary: m) (auto simp: get_del)

lemma ok_foldl_del: "ok m \<Longrightarrow> ok (foldl (\<lambda>m k. del k m) m ks)"
  by (induction ks arbitrary: m) (auto intro: ok_del)

lemma get_foldl_ins_notin:
  "k \<notin> fst ` set xs \<Longrightarrow> get (foldl (\<lambda>m (k, v). ins k v m) m xs) k = get m k"
  by (induction xs arbitrary: m) (auto simp: get_ins)

lemma ok_foldl_ins: "ok m \<Longrightarrow> ok (foldl (\<lambda>m (k, v). ins k v m) m xs)"
  by (induction xs arbitrary: m) (auto intro: ok_ins)

lemma dom_ins: "dom (get (ins k v m)) = insert k (dom (get m))"
  by (simp add: get_ins)

lemma dom_del: "dom (get (del k m)) = dom (get m) - {k}"
  by (simp add: get_del)

end

interpretation om: kv_store om_get om_insert om_remove om_ok
  by unfold_locales auto

end
