(* ===== verification/Wire_Codec.thy ===== *)
theory Wire_Codec
  imports Prelude
begin

text \<open>
  The contract of a wire format: encoding a valid value and decoding it gives the value back, and a
  decoder only returns valid values. \<open>exact_codec\<close> adds that the decoder accepts nothing but encodings,
  \<open>fixed_codec\<close> that every encoding has the same length. Each message type of the program interprets one
  of them; the lemmas here are proved once.
\<close>

locale wire_codec =
  fixes enc :: "'a \<Rightarrow> bytes"
    and dec :: "bytes \<Rightarrow> ('e, 'a) result"
    and valid :: "'a \<Rightarrow> bool"
  assumes dec_enc: "valid x \<Longrightarrow> dec (enc x) = Ok x"
    and dec_valid: "dec bs = Ok x \<Longrightarrow> valid x"
begin

lemma enc_inj: "valid x \<Longrightarrow> valid y \<Longrightarrow> enc x = enc y \<Longrightarrow> x = y"
  by (metis dec_enc sum.inject(2))

lemma dec_enc_dec: "dec bs = Ok x \<Longrightarrow> dec (enc x) = Ok x"
  by (intro dec_enc dec_valid)

lemma dec_enc_iff: "dec (enc x) = Ok x \<longleftrightarrow> valid x"
  using dec_enc dec_valid by blast

end

locale exact_codec = wire_codec +
  assumes enc_dec: "dec bs = Ok x \<Longrightarrow> enc x = bs"
begin

lemma dec_Ok_iff: "dec bs = Ok x \<longleftrightarrow> valid x \<and> bs = enc x"
  using dec_enc dec_valid enc_dec by blast

lemma dec_inj: "dec bs = Ok x \<Longrightarrow> dec bs' = Ok x \<Longrightarrow> bs = bs'"
  by (simp add: dec_Ok_iff)

end

locale fixed_codec = wire_codec +
  fixes size :: nat
  assumes enc_size: "valid x \<Longrightarrow> length (enc x) = size"
    and dec_size: "dec bs = Ok x \<Longrightarrow> length bs = size"
begin

lemma dec_wrong_size: "length bs \<noteq> size \<Longrightarrow> dec bs \<noteq> Ok x"
  using dec_size by blast

text \<open>Fixed-size encodings can be concatenated and cut apart again.\<close>

lemma take_enc_append: "valid x \<Longrightarrow> take size (enc x @ rest) = enc x"
  by (simp add: enc_size)

lemma drop_enc_append: "valid x \<Longrightarrow> drop size (enc x @ rest) = rest"
  by (simp add: enc_size)

lemma dec_take_enc: "valid x \<Longrightarrow> dec (take size (enc x @ rest)) = Ok x"
  by (simp only: take_enc_append dec_enc)

end

end
