(* ===== verification/Session_Frame.thy ===== *)
theory Session_Frame
  imports Ord_Map Wire_Codec
begin

text \<open>
  Frames of the Session protocol (\<open>common/network-types/src/session/frame.rs\<close>): segmentation of a
  frame into segments, the wire format of a segment, the frame builder, and the information about a
  frame under construction.
\<close>

section \<open>Errors\<close>

datatype session_error =
    ProcessingError string
  | ParseError
  | WrongVersion
  | IncorrectMessageLength
  | UnknownMessageTag
  | SessionClosed
  | InvalidFrameId
  | DataTooLong
  | IncompleteFrame u32
  | InvalidSegment
  | OldSegment u32
  | FrameDiscarded u32
  | ReassemblerClosed
  | InvalidSegmentSize

section \<open>Frames and segments\<close>

type_synonym frame_id = u32
type_synonym seq_num = u8
type_synonym segment_id = "frame_id \<times> seq_num"

record frame =
  frm_id :: frame_id
  frm_data :: bytes

record segment =
  seg_frame_id :: frame_id
  seg_seq_idx :: seq_num
  seg_seq_len :: seq_num
  seg_data :: bytes

definition segment_id :: "segment \<Rightarrow> segment_id" where
  "segment_id s = (seg_frame_id s, seg_seq_idx s)"

definition segment_cmp :: "segment \<Rightarrow> segment \<Rightarrow> ordering" where
  "segment_cmp a b =
     (case ord_cmp (seg_frame_id a) (seg_frame_id b) of
        Equal \<Rightarrow> ord_cmp (seg_seq_idx a) (seg_seq_idx b)
      | c \<Rightarrow> c)"

definition segment_into :: "bytes \<Rightarrow> nat \<Rightarrow> frame_id \<Rightarrow> (session_error, segment list) result" where
  "segment_into data max_segment_size fid =
     (if fid = 0 then Err InvalidFrameId
      else if max_segment_size = 0 then Err InvalidSegmentSize
      else
        let num_chunks = (length data + max_segment_size - 1) div max_segment_size in
        if num_chunks > 255 then Err DataTooLong
        else
          let cs = chunks max_segment_size data; seq_len = of_nat (length cs)
          in Ok (map (\<lambda>(idx, d).
               \<lparr>seg_frame_id = fid, seg_seq_idx = of_nat idx, seg_seq_len = seq_len, seg_data = d\<rparr>)
               (List.enumerate 0 cs)))"

definition frame_segment :: "frame \<Rightarrow> nat \<Rightarrow> (session_error, segment list) result" where
  "frame_segment f max_segment_size = segment_into (frm_data f) max_segment_size (frm_id f)"

subsection \<open>Wire format of a segment\<close>

definition segment_header_size :: nat where
  "segment_header_size = 4 + 2 * 1"

definition segment_minimum_size :: nat where
  "segment_minimum_size = segment_header_size + 1"

definition segment_encode :: "segment \<Rightarrow> bytes" where
  "segment_encode s = u32_to_be (seg_frame_id s) @ [seg_seq_idx s] @ [seg_seq_len s] @ seg_data s"

definition segment_decode :: "bytes \<Rightarrow> (session_error, segment) result" where
  "segment_decode value =
     and_then (split_at_res value segment_header_size) (\<lambda>(header, data).
       let s = \<lparr>seg_frame_id = u32_from_be (take 4 header),
                seg_seq_idx = header ! 4, seg_seq_len = header ! 5, seg_data = data\<rparr>
       in if seg_frame_id s > 0 \<and> seg_seq_idx s < seg_seq_len s then Ok s else Err InvalidSegment)"

section \<open>Frame builder\<close>

text \<open>A slot of \<open>fb_segments\<close> is \<open>OnceLock\<close>: empty, or set once.\<close>

record frame_builder =
  fb_frame_id :: frame_id
  fb_segments :: "bytes option list"
  fb_remaining :: seq_num
  fb_last_ts :: u64

definition fb_empty :: "frame_id \<Rightarrow> seq_num \<Rightarrow> frame_builder" where
  "fb_empty fid seq_len =
     \<lparr>fb_frame_id = fid, fb_segments = replicate (unat seq_len) None, fb_remaining = seq_len,
      fb_last_ts = 0\<rparr>"

definition fb_is_complete :: "frame_builder \<Rightarrow> bool" where
  "fb_is_complete b \<longleftrightarrow> fb_remaining b = 0"

definition fb_is_expired :: "frame_builder \<Rightarrow> u64 \<Rightarrow> bool" where
  "fb_is_expired b cutoff \<longleftrightarrow> fb_last_ts b < cutoff"

definition fb_put ::
  "frame_builder \<Rightarrow> segment \<Rightarrow> u64 \<Rightarrow> (session_error, frame_builder \<times> seq_num) result" where
  "fb_put b s ts =
     (if fb_frame_id b = seg_frame_id s then
        if \<not> fb_is_complete b then
          and_then (index_res (fb_segments b) (unat (seg_seq_idx s))) (\<lambda>slot.
            case slot of
              None \<Rightarrow>
                let b' = b\<lparr>fb_segments := (fb_segments b)[unat (seg_seq_idx s) := Some (seg_data s)],
                           fb_remaining := fb_remaining b - 1,
                           fb_last_ts := max (fb_last_ts b) ts\<rparr>
                in Ok (b', fb_remaining b')
            | Some _ \<Rightarrow> Ok (b, fb_remaining b))
        else Ok (b, 0)
      else Err InvalidFrameId)"

definition fb_new :: "segment \<Rightarrow> u64 \<Rightarrow> (session_error, frame_builder) result" where
  "fb_new initial ts =
     (case fb_put (fb_empty (seg_frame_id initial) (seg_seq_len initial)) initial ts of
        Inr (b, _) \<Rightarrow> Ok b
      | Inl _ \<Rightarrow> Panicked)"

definition fb_reassemble :: "frame_builder \<Rightarrow> (session_error, frame) result" where
  "fb_reassemble b =
     (if fb_is_complete b then
        if list_all (\<lambda>s. s \<noteq> None) (fb_segments b)
        then Ok \<lparr>frm_id = fb_frame_id b, frm_data = concat (map the (fb_segments b))\<rparr>
        else Panicked
      else Err (IncompleteFrame (fb_frame_id b)))"

subsection \<open>Information about an incomplete frame\<close>

record frame_info =
  fi_frame_id :: frame_id
  fi_missing_segments :: "bool list"  \<comment> \<open>256 bits\<close>
  fi_total_segments :: seq_num
  fi_last_update :: u64

definition fb_info :: "frame_builder \<Rightarrow> frame_info" where
  "fb_info b =
     \<lparr>fi_frame_id = fb_frame_id b,
      fi_missing_segments =
        map (\<lambda>i. i < length (fb_segments b) \<and> fb_segments b ! i = None) [0..<256],
      fi_total_segments = of_nat (length (fb_segments b)),
      fi_last_update = fb_last_ts b\<rparr>"

definition iter_missing_sequence_indices :: "frame_info \<Rightarrow> seq_num list" where
  "iter_missing_sequence_indices fi =
     map (\<lambda>(i, _). of_nat i)
       (filter (\<lambda>(i, s). s \<and> i \<le> 255) (List.enumerate 0 (fi_missing_segments fi)))"

definition into_missing_segments :: "frame_info \<Rightarrow> segment_id list" where
  "into_missing_segments fi =
     map (\<lambda>(i, _). (fi_frame_id fi, of_nat i))
       (filter (\<lambda>(i, s). s \<and> i \<le> 255) (List.enumerate 0 (fi_missing_segments fi)))"

text \<open>The source compares \<open>self.frame_id\<close> with itself when the update times are equal.\<close>

definition frame_info_cmp :: "frame_info \<Rightarrow> frame_info \<Rightarrow> ordering" where
  "frame_info_cmp a b =
     ord_reverse
       (case ord_cmp (fi_last_update a) (fi_last_update b) of
          Equal \<Rightarrow> ord_cmp (fi_frame_id a) (fi_frame_id a)
        | c \<Rightarrow> c)"

section \<open>Segmentation\<close>

lemma segment_Ok:
  assumes "segment_into data mss fid = Ok segs"
  shows "fid \<noteq> 0" and "0 < mss" and "length (chunks mss data) \<le> 255"
    and "segs = map (\<lambda>(idx, d). \<lparr>seg_frame_id = fid, seg_seq_idx = of_nat idx,
                 seg_seq_len = of_nat (length (chunks mss data)), seg_data = d\<rparr>)
               (List.enumerate 0 (chunks mss data))"
  using assms by (auto simp: segment_into_def Let_def length_chunks split: if_splits)

lemma segment_nth:
  assumes "segment_into data mss fid = Ok segs" and "i < length segs"
  shows "segs ! i = \<lparr>seg_frame_id = fid, seg_seq_idx = of_nat i,
           seg_seq_len = of_nat (length segs), seg_data = chunks mss data ! i\<rparr>"
  using assms(2) segment_Ok(4) [OF assms(1)] by (simp add: nth_enumerate_eq)

lemma segment_length:
  assumes "segment_into data mss fid = Ok segs"
  shows "length segs = length (chunks mss data)" and "length segs \<le> 255"
  using segment_Ok [OF assms] by auto

lemma segment_data:
  assumes "segment_into data mss fid = Ok segs"
  shows "map seg_data segs = chunks mss data"
  using segment_length(1) [OF assms] segment_nth [OF assms]
  by (intro nth_equalityI) auto

lemma unat_of_nat_u8: "n \<le> 255 \<Longrightarrow> unat (of_nat n :: u8) = n"
  by (simp add: unat_of_nat)

lemma segment_fields:
  assumes "segment_into data mss fid = Ok segs" and "i < length segs"
  shows "seg_frame_id (segs ! i) = fid" and "unat (seg_seq_idx (segs ! i)) = i"
    and "unat (seg_seq_len (segs ! i)) = length segs"
  using segment_nth [OF assms] segment_length [OF assms(1)] assms(2)
  by (simp_all add: unat_of_nat_u8)

text \<open>Segmenting loses nothing: the data of the segments concatenates to the data of the frame, there
are as many segments as the size asks for and at most 255, and segment \<open>i\<close> carries the frame ID, index \<open>i\<close>,
the number of segments, and between 1 and \<open>mss\<close> bytes.\<close>
lemma segment_correct:
  assumes "segment_into data mss fid = Ok segs"
  shows "concat (map seg_data segs) = data
     \<and> length segs = (length data + mss - 1) div mss \<and> length segs \<le> 255
     \<and> (\<forall>i < length segs. seg_frame_id (segs ! i) = fid
          \<and> unat (seg_seq_idx (segs ! i)) = i \<and> unat (seg_seq_len (segs ! i)) = length segs
          \<and> seg_data (segs ! i) \<noteq> [] \<and> length (seg_data (segs ! i)) \<le> mss)"
proof -
  note l = segment_length [OF assms] and m = segment_Ok(2) [OF assms] and d = segment_data [OF assms]
  have "seg_data (segs ! i) \<noteq> [] \<and> length (seg_data (segs ! i)) \<le> mss" if "i < length segs" for i
    using chunks_sizes [of "seg_data (segs ! i)" mss data] that d
    by (metis in_set_conv_nth length_map nth_map)
  then show ?thesis using l m d segment_fields [OF assms] by (simp add: length_chunks)
qed

lemma segment_correct_witness:
  "\<exists>segs. segment_into [1, 2, 3] 2 7 = Ok segs \<and> concat (map seg_data segs) = [1, 2, 3] \<and> length segs = 2"
proof -
  have "segment_into [1, 2, 3] 2 7 = Ok
     [\<lparr>seg_frame_id = 7, seg_seq_idx = 0, seg_seq_len = 2, seg_data = [1, 2]\<rparr>,
      \<lparr>seg_frame_id = 7, seg_seq_idx = 1, seg_seq_len = 2, seg_data = [3]\<rparr>]"
    by code_simp
  from segment_correct [OF this] this show ?thesis by simp
qed

lemma segment_total:
  "fid \<noteq> 0 \<Longrightarrow> 0 < mss \<Longrightarrow> (length data + mss - 1) div mss \<le> 255 \<Longrightarrow>
   \<exists>segs. segment_into data mss fid = Ok segs"
  by (simp add: segment_into_def Let_def)

lemma segment_never_panics: "segment_into data mss fid \<noteq> Panicked"
  by (simp add: segment_into_def Let_def)

section \<open>Segment codec\<close>

definition segment_valid :: "segment \<Rightarrow> bool" where
  "segment_valid s \<longleftrightarrow> seg_frame_id s > 0 \<and> seg_seq_idx s < seg_seq_len s"

lemma segment_decode_split:
  "segment_decode bs =
     (if length bs < 6 then Panicked
      else let s = \<lparr>seg_frame_id = u32_from_be (take 4 bs), seg_seq_idx = bs ! 4,
                    seg_seq_len = bs ! 5, seg_data = drop 6 bs\<rparr>
           in if segment_valid s then Ok s else Err InvalidSegment)"
  by (simp add: segment_decode_def split_at_res_def segment_header_size_def segment_valid_def
      min_def Let_def)

lemma segment_decode_Panic_iff: "segment_decode bs = Panicked \<longleftrightarrow> length bs < 6"
  by (simp add: segment_decode_split Let_def)

lemma segment_encode_nth:
  "take 4 (segment_encode s) = u32_to_be (seg_frame_id s)"
  "segment_encode s ! 4 = seg_seq_idx s" "segment_encode s ! 5 = seg_seq_len s"
  "drop 6 (segment_encode s) = seg_data s"
  by (simp_all add: segment_encode_def nth_append)

lemma length_segment_encode [simp]: "length (segment_encode s) = 6 + length (seg_data s)"
  by (simp add: segment_encode_def)

lemma segment_decode_encode: "segment_valid s \<Longrightarrow> segment_decode (segment_encode s) = Ok s"
  by (cases s) (simp add: segment_decode_split segment_encode_nth Let_def)

lemma segment_encode_decode:
  assumes "segment_decode bs = Ok s"
  shows "segment_encode s = bs"
proof -
  from assms have l: "6 \<le> length bs"
    and s: "s = \<lparr>seg_frame_id = u32_from_be (take 4 bs), seg_seq_idx = bs ! 4,
                  seg_seq_len = bs ! 5, seg_data = drop 6 bs\<rparr>"
    by (auto simp: segment_decode_split Let_def split: if_splits)
  have "drop 4 bs = bs ! 4 # bs ! 5 # drop 6 bs"
    using l Cons_nth_drop_Suc [of 4 bs] Cons_nth_drop_Suc [of 5 bs] by simp
  then show ?thesis
    using l append_take_drop_id [of 4 bs]
    by (simp add: s segment_encode_def u32_to_from_be)
qed

interpretation segment_codec: exact_codec segment_encode segment_decode segment_valid
proof unfold_locales
  show "segment_valid x" if "segment_decode bs = Ok x" for bs x
    using that by (auto simp: segment_decode_split Let_def split: if_splits)
qed (simp_all add: segment_decode_encode segment_encode_decode)

text \<open>The wire format of a segment is exact: the decoder returns a segment precisely on the
encoding of that segment, when its frame ID is not zero and its index is below its length.\<close>
lemma segment_codec_exact:
  "segment_decode bs = Ok s \<longleftrightarrow>
     (0 < seg_frame_id s \<and> seg_seq_idx s < seg_seq_len s) \<and> bs = segment_encode s"
  using segment_codec.dec_Ok_iff by (simp add: segment_valid_def)

section \<open>The frame builder\<close>

text \<open>
  \<open>fb_remaining\<close> counts the empty slots; it is the builder's invariant. The number of slots fits a
  sequence number.
\<close>

definition fb_missing :: "frame_builder \<Rightarrow> nat" where
  "fb_missing b = length (filter (\<lambda>s. s = None) (fb_segments b))"

definition fb_inv :: "frame_builder \<Rightarrow> bool" where
  "fb_inv b \<longleftrightarrow> unat (fb_remaining b) = fb_missing b \<and> length (fb_segments b) \<le> 255"

lemma fb_inv_empty: "fb_inv (fb_empty fid n)"
  using unat_bound [of n] by (auto simp: fb_inv_def fb_empty_def fb_missing_def filter_replicate)

lemma length_filter_update:
  assumes "i < length xs" and "P (xs ! i)" and "\<not> P y"
  shows "Suc (length (filter P (xs[i := y]))) = length (filter P xs)"
  using assms
proof (induction xs arbitrary: i)
  case (Cons x xs)
  then show ?case by (cases i) auto
qed simp

lemma fb_put_cases:
  assumes "fb_put b s ts = Ok (b', rem)"
  obtains (complete) "fb_is_complete b" "b' = b" "rem = 0"
  | (duplicate) "\<not> fb_is_complete b" "unat (seg_seq_idx s) < length (fb_segments b)"
      "fb_segments b ! unat (seg_seq_idx s) \<noteq> None" "b' = b" "rem = fb_remaining b"
  | (stored) "\<not> fb_is_complete b" "unat (seg_seq_idx s) < length (fb_segments b)"
      "fb_segments b ! unat (seg_seq_idx s) = None"
      "b' = b\<lparr>fb_segments := (fb_segments b)[unat (seg_seq_idx s) := Some (seg_data s)],
             fb_remaining := fb_remaining b - 1, fb_last_ts := max (fb_last_ts b) ts\<rparr>"
      "rem = fb_remaining b'"
proof (cases "fb_is_complete b")
  case True
  with assms complete show ?thesis by (auto simp: fb_put_def split: if_splits)
next
  case False
  with assms have i: "unat (seg_seq_idx s) < length (fb_segments b)"
    by (auto simp: fb_put_def index_res_def split: if_splits)
  show ?thesis
  proof (cases "fb_segments b ! unat (seg_seq_idx s)")
    case None
    with assms False i show ?thesis
      by (intro stored) (auto simp: fb_put_def index_res_def Let_def split: if_splits)
  next
    case (Some d)
    with assms False i show ?thesis
      by (intro duplicate) (auto simp: fb_put_def index_res_def Let_def split: if_splits)
  qed
qed

lemma fb_put_keeps:
  assumes "fb_put b s ts = Ok (b', rem)"
  shows "fb_frame_id b' = fb_frame_id b" and "length (fb_segments b') = length (fb_segments b)"
    and "rem = fb_remaining b'"
  using assms by (cases rule: fb_put_cases; simp add: fb_is_complete_def)+

lemma unat_dec: "0 < (x :: 'a::len word) \<Longrightarrow> unat (x - 1) = unat x - 1"
  by (metis unat_minus_one word_gt_0)

lemma fb_inv_put:
  assumes "fb_put b s ts = Ok (b', rem)" and inv: "fb_inv b"
  shows "fb_inv b'"
  using assms(1)
proof (cases rule: fb_put_cases)
  case stored
  have "unat (fb_remaining b - 1) = unat (fb_remaining b) - 1"
    using stored(1) by (intro unat_dec) (simp add: fb_is_complete_def word_gt_0)
  moreover have "Suc (length (filter (\<lambda>s. s = None)
        ((fb_segments b)[unat (seg_seq_idx s) := Some (seg_data s)]))) = fb_missing b"
    unfolding fb_missing_def using stored(2,3) by (intro length_filter_update) auto
  ultimately show ?thesis using inv stored(4) by (simp add: fb_inv_def fb_missing_def)
qed (simp_all add: inv)

lemma fb_new_inv: "fb_new s ts = Ok b \<Longrightarrow> fb_inv b \<and> fb_frame_id b = seg_frame_id s"
  using fb_inv_put [OF _ fb_inv_empty] fb_put_keeps(1)
  by (fastforce simp: fb_new_def fb_empty_def split: sum.splits)

lemma fb_complete_iff: "fb_inv b \<Longrightarrow> fb_is_complete b \<longleftrightarrow> list_all (\<lambda>s. s \<noteq> None) (fb_segments b)"
  unfolding fb_inv_def fb_is_complete_def fb_missing_def
  by (metis (mono_tags, lifting) filter_False filter_empty_conv length_0_conv list_all_iff
      unat_eq_zero)

text \<open>A builder whose invariant holds always reassembles when it says it is complete, and its
frame is the concatenation of its slots; otherwise it reports the frame as incomplete. Reassembly never
panics.\<close>
lemma fb_reassemble_correct:
  assumes "fb_inv b"
  shows "fb_reassemble b =
     (if None \<in> set (fb_segments b) then Err (IncompleteFrame (fb_frame_id b))
      else Ok \<lparr>frm_id = fb_frame_id b, frm_data = concat (map the (fb_segments b))\<rparr>)"
  using fb_complete_iff [OF assms] by (auto simp: fb_reassemble_def list_all_iff)

lemma fb_reassemble_correct_witness:
  "fb_reassemble (fb_empty 7 2) = Err (IncompleteFrame 7)"
proof -
  have "fb_inv (fb_empty 7 2)" by (rule fb_inv_empty)
  from fb_reassemble_correct [OF this] show ?thesis
    by (simp add: fb_empty_def)
qed

text \<open>Adding a segment fails in exactly two ways: with an error when the segment belongs to another
frame, and with a panic (an index out of range) when the builder is still incomplete and the index
is not below the number of segments announced by the first segment of the frame.\<close>
lemma fb_put_outcome:
  "fb_put b s ts =
     (if fb_frame_id b \<noteq> seg_frame_id s then Err InvalidFrameId
      else if fb_is_complete b then Ok (b, 0)
      else if length (fb_segments b) \<le> unat (seg_seq_idx s) then Panicked
      else if fb_segments b ! unat (seg_seq_idx s) \<noteq> None then Ok (b, fb_remaining b)
      else Ok (b\<lparr>fb_segments := (fb_segments b)[unat (seg_seq_idx s) := Some (seg_data s)],
                 fb_remaining := fb_remaining b - 1, fb_last_ts := max (fb_last_ts b) ts\<rparr>,
               fb_remaining b - 1))"
  by (auto simp: fb_put_def index_res_def Let_def split: option.splits)

text \<open>The order of frame infos ignores the frame ID: infos with equal update times compare as equal,
whatever frames they describe, so the order does not separate different infos.\<close>
lemma frame_info_cmp_ignores_id:
  "frame_info_cmp a b = ord_cmp (fi_last_update b) (fi_last_update a)"
  by (auto simp: frame_info_cmp_def ord_cmp_def)

text \<open>The missing segments of a builder are the indices of its empty slots.\<close>

lemma filter_enumerate:
  "map fst (filter (\<lambda>(i, b). b \<and> P i) (List.enumerate 0 bs)) = filter (\<lambda>i. bs ! i \<and> P i) [0..<length bs]"
proof (induction bs rule: rev_induct)
  case (snoc b bs)
  have "filter (\<lambda>i. (bs @ [b]) ! i \<and> P i) [0..<length bs] = filter (\<lambda>i. bs ! i \<and> P i) [0..<length bs]"
    by (intro filter_cong) (auto simp: nth_append)
  with snoc show ?case by (simp add: enumerate_append_eq)
qed simp

lemma iter_missing_indices:
  assumes "length (fb_segments b) \<le> 256"
  shows "iter_missing_sequence_indices (fb_info b) =
     map of_nat (filter (\<lambda>i. fb_segments b ! i = None) [0..<length (fb_segments b)])"
proof -
  let ?m = "fi_missing_segments (fb_info b)" and ?n = "length (fb_segments b)"
  have l: "length ?m = 256" by (simp add: fb_info_def)
  have "map fst (filter (\<lambda>(i, s). s \<and> i \<le> 255) (List.enumerate 0 ?m))
      = filter (\<lambda>i. ?m ! i \<and> i \<le> 255) [0..<256]"
    using filter_enumerate [of "\<lambda>i. i \<le> 255" ?m] l by simp
  also have "\<dots> = filter (\<lambda>i. i < ?n \<and> fb_segments b ! i = None) [0..<256]"
    by (intro filter_cong) (auto simp: fb_info_def)
  also have "[0..<256] = [0..<?n] @ [?n..<256]"
    using assms upt_add_eq_append [of 0 ?n "256 - ?n"] by simp
  also have "filter (\<lambda>i. i < ?n \<and> fb_segments b ! i = None) ([0..<?n] @ [?n..<256])
      = filter (\<lambda>i. fb_segments b ! i = None) [0..<?n]"
    by (auto intro: filter_cong simp: filter_empty_conv)
  finally have "map of_nat (map fst (filter (\<lambda>(i, s). s \<and> i \<le> 255) (List.enumerate 0 ?m)))
      = (map of_nat (filter (\<lambda>i. fb_segments b ! i = None) [0..<?n]) :: seq_num list)"
    by (rule arg_cong)
  then show ?thesis by (simp add: iter_missing_sequence_indices_def case_prod_beta' comp_def)
qed

end
