(* ===== verification/Session_Protocol.thy ===== *)
theory Session_Protocol
  imports Session_Frame
begin

text \<open>
  Messages of the Session protocol (\<open>common/network-types/src/session/protocol.rs\<close>): retransmission
  requests, frame acknowledgements, the message encoding and the iterator that parses a run of
  messages. The const generic \<open>C\<close> (the MTU) is the argument \<open>c\<close> of the definitions.
\<close>

unbundle bit_operations_syntax

section \<open>Sizes\<close>

definition msg_header_size :: nat where
  "msg_header_size = 1 + 1 + 2"

definition segment_overhead :: nat where
  "segment_overhead = msg_header_size + segment_header_size"

definition max_message_size :: nat where
  "max_message_size = 1492 - segment_overhead"

definition protocol_version :: byte where
  "protocol_version = 1"

definition sr_entry_size :: nat where
  "sr_entry_size = 4 + 1"

definition sr_size :: "nat \<Rightarrow> nat" where
  "sr_size c = c - msg_header_size"

definition sr_max_entries :: "nat \<Rightarrow> nat" where
  "sr_max_entries c = sr_size c div sr_entry_size"

definition sr_max_missing_segments_per_frame :: nat where
  "sr_max_missing_segments_per_frame = 1 * 8"

definition fa_size :: "nat \<Rightarrow> nat" where
  "fa_size c = c - msg_header_size"

definition fa_max_ack_frames :: "nat \<Rightarrow> nat" where
  "fa_max_ack_frames c = fa_size c div 4"

definition minimum_message_size :: "nat \<Rightarrow> nat" where
  "minimum_message_size c =
     msg_header_size + min (min segment_minimum_size (sr_size c)) (fa_size c)"

lemmas size_defs = msg_header_size_def segment_overhead_def max_message_size_def sr_entry_size_def
  sr_size_def sr_max_entries_def sr_max_missing_segments_per_frame_def fa_size_def
  fa_max_ack_frames_def minimum_message_size_def segment_header_size_def segment_minimum_size_def

section \<open>Retransmission request\<close>

type_synonym segment_request = "(frame_id, seq_num) omap"

definition count_ones :: "seq_num \<Rightarrow> nat" where
  "count_ones x = length (filter (\<lambda>i. bit x i) [0..<8])"

definition sr_len :: "nat \<Rightarrow> segment_request \<Rightarrow> nat" where
  "sr_len c req = sum_list (map (\<lambda>(_, e). count_ones e) (take (sr_max_entries c) req))"

definition sr_is_empty :: "segment_request \<Rightarrow> bool" where
  "sr_is_empty req \<longleftrightarrow> req = []"

text \<open>
  \<open>into_iter\<close> pushes the IDs of the requested segments, frame by frame and from the highest index
  down, and the iterator pops from the end.
\<close>

definition sr_pushed :: "segment_request \<Rightarrow> segment_id list" where
  "sr_pushed req =
     concat (map (\<lambda>(fid, missing).
       map (\<lambda>i. (fid, of_nat i))
         (filter (\<lambda>i. (push_bit i 1 :: seq_num) AND missing \<noteq> 0) (rev [0..<8]))) req)"

definition sr_into_iter :: "segment_request \<Rightarrow> segment_id list" where
  "sr_into_iter req = rev (sr_pushed req)"

definition sr_missing_bitmap :: "frame_info \<Rightarrow> seq_num" where
  "sr_missing_bitmap fi =
     foldl (\<lambda>acc n. acc OR n) 0
       (map (\<lambda>idx. push_bit (unat idx) 1)
         (filter (\<lambda>s. s < of_nat sr_max_missing_segments_per_frame)
           (iter_missing_sequence_indices fi)))"

definition sr_from_iter :: "nat \<Rightarrow> frame_info list \<Rightarrow> segment_request" where
  "sr_from_iter c infos =
     foldl (\<lambda>ret fi. om_insert (fi_frame_id fi) (sr_missing_bitmap fi) ret) []
       (take (sr_max_entries c) infos)"

definition sr_decode :: "nat \<Rightarrow> bytes \<Rightarrow> (session_error, segment_request) result" where
  "sr_decode c value =
     (if length value = sr_size c then
        Ok (foldl (\<lambda>ret ch.
              let fid = u32_from_be (take 4 ch) in
              if fid > 0 then om_insert fid (ch ! 4) ret else ret)
            [] (chunks_exact sr_entry_size value))
      else Err ParseError)"

fun sr_encode_loop ::
  "nat \<Rightarrow> bytes \<Rightarrow> nat \<Rightarrow> segment_request \<Rightarrow> (session_error, bytes) result" where
  "sr_encode_loop c ret offset [] = Ok ret"
| "sr_encode_loop c ret offset ((fid, seq_num) # rest) =
     (if offset + 4 + 1 < c then
        and_then (copy_into ret offset (u32_to_be fid)) (\<lambda>ret.
        and_then (copy_into ret (offset + 4) [seq_num]) (\<lambda>ret.
          sr_encode_loop c ret (offset + 4 + 1) rest))
      else Ok ret)"

definition sr_encode :: "nat \<Rightarrow> segment_request \<Rightarrow> (session_error, bytes) result" where
  "sr_encode c req = sr_encode_loop c (replicate (sr_size c) 0) 0 req"

section \<open>Frame acknowledgement\<close>

type_synonym frame_acks = "frame_id list"  \<comment> \<open>an ordered set: ascending, without duplicates\<close>

definition fa_is_full :: "nat \<Rightarrow> frame_acks \<Rightarrow> bool" where
  "fa_is_full c a \<longleftrightarrow> length a = fa_max_ack_frames c"

definition fa_push :: "nat \<Rightarrow> frame_id \<Rightarrow> frame_acks \<Rightarrow> frame_acks \<times> bool" where
  "fa_push c fid a =
     (if \<not> fa_is_full c a then
        if fid \<in> set a then (a, False) else (insort fid a, True)
      else (a, False))"

definition fa_collect :: "frame_id list \<Rightarrow> frame_acks" where
  "fa_collect xs = foldl (\<lambda>a x. if x \<in> set a then a else insort x a) [] xs"

definition fa_from_vec :: "nat \<Rightarrow> frame_id list \<Rightarrow> frame_acks" where
  "fa_from_vec c value = fa_collect (filter (\<lambda>v. v > 0) (take (fa_max_ack_frames c) value))"

definition fa_decode :: "nat \<Rightarrow> bytes \<Rightarrow> (session_error, frame_acks) result" where
  "fa_decode c value =
     (if length value = fa_size c then
        Ok (fa_collect (filter (\<lambda>f. f > 0) (map u32_from_be (chunks_exact 4 value))))
      else Err ParseError)"

definition fa_encode :: "nat \<Rightarrow> frame_acks \<Rightarrow> bytes" where
  "fa_encode c a = take (fa_size c) (concat (map u32_to_be a) @ replicate (fa_size c) 0)"

section \<open>Session messages\<close>

datatype session_message =
    SegmentMsg segment
  | RequestMsg segment_request
  | AcknowledgeMsg frame_acks

fun msg_discriminant :: "session_message \<Rightarrow> byte" where
  "msg_discriminant (SegmentMsg _) = 0"
| "msg_discriminant (RequestMsg _) = 1"
| "msg_discriminant (AcknowledgeMsg _) = 2"

definition msg_encode :: "nat \<Rightarrow> session_message \<Rightarrow> (session_error, bytes) result" where
  "msg_encode c value =
     and_then (case value of
         SegmentMsg s \<Rightarrow> Ok (segment_encode s)
       | RequestMsg r \<Rightarrow> sr_encode c r
       | AcknowledgeMsg a \<Rightarrow> Ok (fa_encode c a))
       (\<lambda>msg. Ok ([protocol_version] @ [msg_discriminant value]
                   @ u16_to_be (of_nat (length msg)) @ msg))"

section \<open>Parsing a run of messages\<close>

record msg_iter =
  mi_data :: bytes
  mi_offset :: nat
  mi_last_err :: "session_error option"

definition mi_from :: "bytes \<Rightarrow> msg_iter" where
  "mi_from value = \<lparr>mi_data = value, mi_offset = 0, mi_last_err = None\<rparr>"

definition mi_is_done :: "nat \<Rightarrow> msg_iter \<Rightarrow> bool" where
  "mi_is_done c it \<longleftrightarrow>
     mi_last_err it \<noteq> None \<or> length (mi_data it) - mi_offset it < minimum_message_size c"

definition mi_decode_body ::
  "nat \<Rightarrow> byte \<Rightarrow> bytes \<Rightarrow> nat \<Rightarrow> nat \<Rightarrow> (session_error, session_message) result" where
  "mi_decode_body c disc data offset len =
     (if disc = 0 then
        and_then (slice_range data offset (offset + len)) (\<lambda>b. map_res SegmentMsg (segment_decode b))
      else if disc = 1 then
        and_then (slice_range data offset (offset + len)) (\<lambda>b. map_res RequestMsg (sr_decode c b))
      else if disc = 2 then
        and_then (slice_range data offset (offset + len)) (\<lambda>b. map_res AcknowledgeMsg (fa_decode c b))
      else Err UnknownMessageTag)"

definition mi_try_next :: "nat \<Rightarrow> msg_iter \<Rightarrow> (session_error, session_message \<times> msg_iter) result" where
  "mi_try_next c it =
     (let data = mi_data it; offset = mi_offset it in
      and_then (index_res data offset) (\<lambda>version.
      if version \<noteq> protocol_version then Err WrongVersion
      else
        and_then (index_res data (offset + 1)) (\<lambda>disc.
        and_then (slice_range data (offset + 2) (offset + 4)) (\<lambda>lb.
        let len = u16_from_be lb in
        if unat len > max_message_size then Err IncorrectMessageLength
        else if len AND 0xFC00 \<noteq> 0 then Err ParseError
        else
          and_then (mi_decode_body c disc data (offset + 4) (unat len)) (\<lambda>res.
            Ok (res, it\<lparr>mi_offset := offset + 4 + unat len\<rparr>))))))"

definition msg_decode :: "nat \<Rightarrow> bytes \<Rightarrow> (session_error, session_message) result" where
  "msg_decode c value = map_res fst (mi_try_next c (mi_from value))"

definition mi_next ::
  "nat \<Rightarrow> msg_iter \<Rightarrow> (session_error, session_message) result option \<times> msg_iter" where
  "mi_next c it =
     (if \<not> mi_is_done c it then
        (case mi_try_next c it of
           Inr (m, it') \<Rightarrow> (Some (Ok m), it')
         | Inl (Fail e) \<Rightarrow> (Some (Err e), it\<lparr>mi_last_err := Some e\<rparr>)
         | Inl Panic \<Rightarrow> (Some Panicked, it))
      else (None, it))"

section \<open>Codec of the retransmission request\<close>

definition sr_valid :: "nat \<Rightarrow> segment_request \<Rightarrow> bool" where
  "sr_valid c req \<longleftrightarrow> om_ok req \<and> (\<forall>k \<in> fst ` set req. 0 < k) \<and> length req \<le> sr_max_entries c"

abbreviation sr_entry :: "frame_id \<times> seq_num \<Rightarrow> bytes" where
  "sr_entry e \<equiv> u32_to_be (fst e) @ [snd e]"

lemma length_sr_entries: "length (concat (map sr_entry req)) = 5 * length req"
  by (induction req) auto

lemma copy_into_prefix:
  "length pre = off \<Longrightarrow> length src \<le> length rest \<Longrightarrow>
   copy_into (pre @ rest) off src = Ok (pre @ src @ drop (length src) rest)"
  by (auto simp: copy_into_def)

lemma sr_encode_loop_eq:
  assumes "5 * length req + length pre \<le> sr_size c"
  shows "sr_encode_loop c (pre @ replicate (sr_size c - length pre) 0) (length pre) req
     = Ok (pre @ concat (map sr_entry req) @ replicate (sr_size c - length pre - 5 * length req) 0)"
  using assms
proof (induction req arbitrary: pre)
  case (Cons e req)
  obtain fid m where e: "e = (fid, m)" by (cases e)
  let ?z = "replicate (sr_size c - length pre) (0 :: byte)"
  have sz: "5 + length pre \<le> sr_size c" using Cons.prems by simp
  then have lt: "length pre + 4 + 1 < c" by (simp add: size_defs)
  have c1: "copy_into (pre @ ?z) (length pre) (u32_to_be fid)
      = (Ok (pre @ u32_to_be fid @ drop 4 ?z) :: (session_error, _) result)"
    using sz by (subst copy_into_prefix) auto
  have c2: "copy_into ((pre @ u32_to_be fid) @ drop 4 ?z) (length pre + 4) [m]
      = (Ok ((pre @ u32_to_be fid) @ [m] @ drop 5 ?z) :: (session_error, _) result)"
    using sz by (subst copy_into_prefix) auto
  have d: "drop 5 ?z = replicate (sr_size c - length (pre @ sr_entry e)) 0"
    by (simp add: e)
  have "sr_encode_loop c (pre @ ?z) (length pre) (e # req)
      = sr_encode_loop c ((pre @ sr_entry e) @ drop 5 ?z) (length (pre @ sr_entry e)) req"
    using lt c1 c2 by (simp add: e add.commute [of 5])
  also have "\<dots> = Ok ((pre @ sr_entry e) @ concat (map sr_entry req)
      @ replicate (sr_size c - length (pre @ sr_entry e) - 5 * length req) 0)"
    unfolding d using Cons.prems by (intro Cons.IH) (simp add: e)
  finally show ?case by (simp add: e diff_diff_add)
qed simp

lemma sr_encode_eq:
  assumes "length req \<le> sr_max_entries c"
  shows "sr_encode c req = Ok (concat (map sr_entry req) @ replicate (sr_size c - 5 * length req) 0)"
proof -
  have "5 * length req \<le> sr_size c" using assms by (simp add: size_defs)
  with sr_encode_loop_eq [of req "[]" c] show ?thesis by (simp add: sr_encode_def)
qed

lemma sr_decode_entries:
  assumes "\<forall>k \<in> fst ` set req. 0 < k"
  shows "foldl (\<lambda>ret ch. let fid = u32_from_be (take 4 ch)
                        in if fid > 0 then om_insert fid (ch ! 4) ret else ret) m (map sr_entry req)
     = foldl (\<lambda>m (k, v). om_insert k v m) m req"
  using assms by (induction req arbitrary: m) (auto simp: nth_append Let_def)

lemma sr_decode_zeros:
  "foldl (\<lambda>ret ch. let fid = u32_from_be (take 4 ch)
                  in if fid > 0 then om_insert fid (ch ! 4) ret else ret) m (replicate q (replicate 5 0)) = m"
proof -
  have "u32_from_be (replicate 4 0) = 0" by code_simp
  then show ?thesis by (induction q) (auto simp: Let_def)
qed

lemma sr_decode_encode:
  assumes "sr_valid c req"
  shows "and_then (sr_encode c req) (sr_decode c) = Ok req"
proof -
  let ?z = "replicate (sr_size c - 5 * length req) (0 :: byte)"
  have len: "5 * length req \<le> sr_size c" and enc: "sr_encode c req = Ok (concat (map sr_entry req) @ ?z)"
    using assms sr_encode_eq [of req c] by (auto simp: sr_valid_def size_defs)
  have ch: "chunks_exact 5 (concat (map sr_entry req) @ ?z)
      = map sr_entry req @ replicate ((sr_size c - 5 * length req) div 5) (replicate 5 0)"
    by (subst chunks_exact_append_exact) (auto simp: chunks_exact_replicate)
  have "foldl (\<lambda>m (k, v). om_insert k v m) [] req = req"
    using assms foldl_om_insert [of req "[]"] by (simp add: sr_valid_def om_ok_def)
  then show ?thesis
    using enc len ch assms length_sr_entries [of req]
    by (simp add: sr_decode_def sr_entry_size_def sr_decode_entries sr_decode_zeros sr_valid_def)
qed

lemma foldl_om_insert_ok:
  "om_ok m \<Longrightarrow> om_ok (foldl (\<lambda>ret x. if p x then om_insert (f x) (g x) ret else ret) m xs)"
  by (induction xs arbitrary: m) auto

lemma foldl_om_insert_length:
  "length (foldl (\<lambda>ret x. if p x then om_insert (f x) (g x) ret else ret) m xs) \<le> length m + length xs"
proof (induction xs arbitrary: m)
  case (Cons x xs)
  have "length (if p x then om_insert (f x) (g x) m else m) \<le> Suc (length m)"
    by (simp add: length_om_insert_le)
  with Cons [of "if p x then om_insert (f x) (g x) m else m"] show ?case by simp
qed simp

lemma foldl_om_insert_keys:
  "fst ` set (foldl (\<lambda>ret x. if p x then om_insert (f x) (g x) ret else ret) m xs)
     = fst ` set m \<union> f ` {x \<in> set xs. p x}"
  by (induction xs arbitrary: m) auto

lemma sr_decode_valid:
  assumes "sr_decode c bs = Ok req"
  shows "sr_valid c req"
proof -
  let ?f = "\<lambda>ret ch. if 0 < u32_from_be (take 4 ch) then om_insert (u32_from_be (take 4 ch)) (ch ! 4) ret else ret"
  have req: "req = foldl ?f [] (chunks_exact 5 bs)" and l: "length bs = sr_size c"
    using assms by (auto simp: sr_decode_def Let_def sr_entry_size_def split: if_splits)
  have "length (chunks_exact 5 bs) = sr_max_entries c"
    using l by (simp add: length_chunks_exact size_defs)
  then show ?thesis
    using foldl_om_insert_length [where xs = "chunks_exact 5 bs" and m = "[]"] l
    by (auto simp: sr_valid_def req foldl_om_insert_ok foldl_om_insert_keys size_defs
        intro: order_trans)
qed

interpretation sr_codec: fixed_codec "\<lambda>req. res_get [] (sr_encode c req)" "sr_decode c" "sr_valid c" "sr_size c" for c
proof unfold_locales
  fix req :: segment_request and bs :: bytes
  assume v: "sr_valid c req"
  then have enc: "sr_encode c req = Ok (concat (map sr_entry req) @ replicate (sr_size c - 5 * length req) 0)"
    by (intro sr_encode_eq) (simp add: sr_valid_def)
  with sr_decode_encode [OF v] show "sr_decode c (res_get [] (sr_encode c req)) = Ok req" by simp
  have "length req \<le> sr_max_entries c" using v by (simp add: sr_valid_def)
  then have "5 * length req \<le> sr_size c" by (simp add: size_defs)
  with enc length_sr_entries [of req] show "length (res_get [] (sr_encode c req)) = sr_size c" by simp
next
  fix req :: segment_request and bs :: bytes
  assume "sr_decode c bs = Ok req"
  then show "sr_valid c req" "length bs = sr_size c"
    by (auto simp: sr_decode_valid) (auto simp: sr_decode_def split: if_splits)
qed

section \<open>Codec of the acknowledgement\<close>

definition fa_valid :: "nat \<Rightarrow> frame_acks \<Rightarrow> bool" where
  "fa_valid c a \<longleftrightarrow> sorted_wrt (<) a \<and> (\<forall>f \<in> set a. 0 < f) \<and> length a \<le> fa_max_ack_frames c"

lemma fa_collect_step:
  "sorted_wrt (<) a \<Longrightarrow> sorted_wrt (<) (if x \<in> set a then a else insort (x :: 'a::linorder) a)"
  by (auto simp: strict_sorted_iff distinct_insort sorted_insort)

lemma fa_foldl:
  fixes a :: "'a::linorder list"
  assumes "sorted_wrt (<) a"
  shows "sorted_wrt (<) (foldl (\<lambda>a x. if x \<in> set a then a else insort x a) a xs)
    \<and> set (foldl (\<lambda>a x. if x \<in> set a then a else insort x a) a xs) = set a \<union> set xs
    \<and> length (foldl (\<lambda>a x. if x \<in> set a then a else insort x a) a xs) \<le> length a + length xs"
  using assms
proof (induction xs arbitrary: a)
  case (Cons x xs)
  let ?a = "if x \<in> set a then a else insort x a"
  have "sorted_wrt (<) ?a" using Cons.prems by (rule fa_collect_step)
  from Cons.IH [OF this] show ?case by (auto simp: set_insort_key insert_absorb)
qed simp

lemma fa_collect_sorted: "sorted_wrt (<) (fa_collect xs)"
  and set_fa_collect [simp]: "set (fa_collect xs) = set xs"
  and length_fa_collect: "length (fa_collect xs) \<le> length xs"
  using fa_foldl [of "[]" xs] by (auto simp: fa_collect_def)

lemma fa_collect_id: "sorted_wrt (<) xs \<Longrightarrow> fa_collect xs = xs"
  using fa_collect_sorted [of xs] set_fa_collect [of xs]
  by (metis sorted_distinct_set_unique strict_sorted_iff)

lemma length_fa_entries: "length (concat (map u32_to_be a)) = 4 * length a"
  by (induction a) auto

lemma fa_encode_eq:
  assumes "length a \<le> fa_max_ack_frames c"
  shows "fa_encode c a = concat (map u32_to_be a) @ replicate (fa_size c - 4 * length a) 0"
proof -
  have "4 * length a \<le> fa_size c" using assms by (simp add: size_defs)
  then show ?thesis using length_fa_entries [of a] by (simp add: fa_encode_def min_def)
qed

lemma map_u32_chunks:
  "map u32_from_be (chunks_exact 4 (concat (map u32_to_be a) @ replicate m 0)) = a @ replicate (m div 4) 0"
proof -
  have "u32_from_be (replicate 4 0) = 0" by code_simp
  then show ?thesis
    by (subst chunks_exact_append_exact) (auto simp: chunks_exact_replicate comp_def)
qed

lemma fa_decode_encode:
  assumes "fa_valid c a"
  shows "fa_decode c (fa_encode c a) = Ok a" and "length (fa_encode c a) = fa_size c"
proof -
  have l: "length a \<le> fa_max_ack_frames c" and l4: "4 * length a \<le> fa_size c"
    using assms by (auto simp: fa_valid_def size_defs)
  show len: "length (fa_encode c a) = fa_size c"
    using l4 length_fa_entries [of a] by (simp add: fa_encode_eq [OF l])
  have "filter (\<lambda>f. 0 < f) (a @ replicate m 0) = a" for m
    using assms by (auto simp: fa_valid_def filter_id_conv)
  then show "fa_decode c (fa_encode c a) = Ok a"
    using len assms unfolding fa_decode_def fa_encode_eq [OF l] map_u32_chunks
    by (simp add: fa_collect_id fa_valid_def)
qed

lemma fa_decode_valid: "fa_decode c bs = Ok a \<Longrightarrow> fa_valid c a \<and> length bs = fa_size c"
proof -
  assume "fa_decode c bs = Ok a"
  then have a: "a = fa_collect (filter (\<lambda>f. f > 0) (map u32_from_be (chunks_exact 4 bs)))"
    and l: "length bs = fa_size c"
    by (auto simp: fa_decode_def split: if_splits)
  have "length a \<le> length (filter (\<lambda>f. f > 0) (map u32_from_be (chunks_exact 4 bs)))"
    unfolding a by (rule length_fa_collect)
  also have "\<dots> \<le> length (chunks_exact 4 bs)" by (metis length_filter_le length_map)
  also have "\<dots> = fa_max_ack_frames c" using l by (simp add: length_chunks_exact size_defs)
  finally show ?thesis using l fa_collect_sorted by (auto simp: fa_valid_def a)
qed

interpretation fa_codec: fixed_codec "fa_encode c" "fa_decode c" "fa_valid c" "fa_size c" for c
  by unfold_locales (auto simp: fa_decode_encode dest: fa_decode_valid)

lemma fa_push_valid:
  "fa_valid c a \<Longrightarrow> 0 < fid \<Longrightarrow> fa_valid c (fst (fa_push c fid a))"
  using fa_collect_step [of a fid]
  by (auto simp: fa_push_def fa_valid_def fa_is_full_def set_insort_key split: if_splits)

lemma fa_from_vec_valid: "fa_valid c (fa_from_vec c xs)"
proof -
  have "length (fa_from_vec c xs) \<le> length (filter (\<lambda>v. v > 0) (take (fa_max_ack_frames c) xs))"
    unfolding fa_from_vec_def by (rule length_fa_collect)
  also have "\<dots> \<le> fa_max_ack_frames c" by (rule order_trans [OF length_filter_le]) simp
  finally show ?thesis using fa_collect_sorted by (auto simp: fa_valid_def fa_from_vec_def)
qed

section \<open>Codec of the messages\<close>

text \<open>
  A message that is encoded and parsed back: its parts are well formed and its body is not empty and
  fits the 10 bits of the length that the parser accepts.
\<close>

fun msg_valid :: "nat \<Rightarrow> session_message \<Rightarrow> bool" where
  "msg_valid c (SegmentMsg s) \<longleftrightarrow>
     segment_valid s \<and> seg_data s \<noteq> [] \<and> length (seg_data s) + segment_header_size < 1024"
| "msg_valid c (RequestMsg r) \<longleftrightarrow> sr_valid c r \<and> sr_size c < 1024"
| "msg_valid c (AcknowledgeMsg a) \<longleftrightarrow> fa_valid c a \<and> fa_size c < 1024"

definition msg_body :: "nat \<Rightarrow> session_message \<Rightarrow> bytes" where
  "msg_body c m = (case m of SegmentMsg s \<Rightarrow> segment_encode s
     | RequestMsg r \<Rightarrow> res_get [] (sr_encode c r) | AcknowledgeMsg a \<Rightarrow> fa_encode c a)"

lemma msg_encode_eq:
  assumes "msg_valid c m"
  shows "msg_encode c m = Ok ([1] @ [msg_discriminant m]
     @ u16_to_be (of_nat (length (msg_body c m))) @ msg_body c m)"
proof (cases m)
  case (RequestMsg r)
  with assms obtain b where "sr_encode c r = Ok b"
    using sr_encode_eq [of r c] by (auto simp: sr_valid_def)
  with RequestMsg show ?thesis by (simp add: msg_encode_def msg_body_def protocol_version_def)
qed (simp_all add: msg_encode_def msg_body_def protocol_version_def)

lemma msg_body_decode:
  assumes "msg_valid c m"
  shows "mi_decode_body c (msg_discriminant m) (pre @ msg_body c m @ rest) (length pre) (length (msg_body c m))
     = Ok m"
  using assms sr_codec.dec_enc [of c] fa_codec.dec_enc [of c] segment_codec.dec_enc
  by (cases m) (auto simp: mi_decode_body_def slice_range_def msg_body_def)

lemma msg_body_length:
  assumes "msg_valid c m"
  shows "length (msg_body c m) < 1024"
    and "minimum_message_size c \<le> 4 + length (msg_body c m)"
proof -
  show "length (msg_body c m) < 1024"
    using assms sr_codec.enc_size [of c] fa_codec.enc_size [of c]
    by (cases m) (auto simp: msg_body_def segment_header_size_def)
  show "minimum_message_size c \<le> 4 + length (msg_body c m)"
  proof (cases m)
    case (SegmentMsg s)
    with assms have "1 \<le> length (seg_data s)" by (simp add: Suc_le_eq)
    then show ?thesis using SegmentMsg by (simp add: msg_body_def size_defs)
  qed (use assms sr_codec.enc_size [of c] fa_codec.enc_size [of c] in
      \<open>auto simp: msg_body_def size_defs\<close>)
qed

section \<open>Parsing what was encoded\<close>

text \<open>The upper six bits of the length are reserved: they are clear exactly below 1024.\<close>

lemma reserved_bits: "(x :: u16) AND 0xFC00 = 0 \<longleftrightarrow> unat x < 1024"
proof -
  have "(0xFC00 :: u16) = NOT (mask 10)" by (simp add: mask_eq_exp_minus_1)
  then have "x AND 0xFC00 = 0 \<longleftrightarrow> take_bit 10 x = x"
    by (simp add: bit_eq_iff bit_simps) blast
  also have "\<dots> \<longleftrightarrow> unat (take_bit 10 x) = unat x" by (rule word_unat_eq_iff)
  also have "unat (take_bit 10 x) = unat x mod 1024"
    by (simp only: unsigned_take_bit_eq take_bit_nat_def) simp
  finally show ?thesis by (auto simp: mod_eq_self_iff_div_eq_0 div_eq_0_iff)
qed

lemma slice_range_mid: "slice_range (a @ b @ d) (length a) (length a + length b) = Ok b"
  by (simp add: slice_range_def)

lemma mi_try_next_encoded:
  assumes v: "msg_valid c m" and d: "mi_data it = pre @ ([1] @ [msg_discriminant m]
      @ u16_to_be (of_nat (length (msg_body c m))) @ msg_body c m) @ rest"
    and o: "mi_offset it = length pre"
  shows "mi_try_next c it = Ok (m, it\<lparr>mi_offset := length pre + 4 + length (msg_body c m)\<rparr>)"
proof -
  let ?l = "of_nat (length (msg_body c m)) :: u16"
  have l: "unat ?l = length (msg_body c m)" and lt: "length (msg_body c m) < 1024"
    using msg_body_length(1) [OF v] by (simp_all add: unat_of_nat)
  have i0: "index_res (mi_data it) (length pre) = (Ok 1 :: (session_error, _) result)"
    and i1: "index_res (mi_data it) (length pre + 1) = (Ok (msg_discriminant m) :: (session_error, _) result)"
    by (simp_all add: d index_res_def nth_append)
  have sl: "slice_range (mi_data it) (length pre + 2) (length pre + 4) = (Ok (u16_to_be ?l) :: (session_error, _) result)"
    using slice_range_mid [of "pre @ [1, msg_discriminant m]" "u16_to_be ?l" "msg_body c m @ rest"]
    by (simp add: d numeral_eq_Suc)
  have body: "mi_decode_body c (msg_discriminant m) (mi_data it) (length pre + 4) (length (msg_body c m)) = Ok m"
    using msg_body_decode [OF v, of "pre @ [1, msg_discriminant m] @ u16_to_be ?l" rest] by (simp add: d)
  have "?l AND 0xFC00 = 0" using l lt by (simp add: reserved_bits)
  with i0 i1 sl body l lt show ?thesis
    by (simp add: mi_try_next_def o protocol_version_def size_defs)
qed

lemma mi_try_next_Inr:
  assumes "mi_try_next c it = Ok (m, it')"
  shows "mi_data it' = mi_data it" and "mi_last_err it' = mi_last_err it"
    and "mi_offset it + 4 \<le> mi_offset it'" and "mi_offset it' \<le> length (mi_data it)"
  using assms
  by (auto simp: mi_try_next_def Let_def and_then_Inr_iff map_res_Inr_iff mi_decode_body_def
      slice_range_def split: if_splits)

definition mi_left :: "msg_iter \<Rightarrow> nat" where
  "mi_left it = (if mi_last_err it = None then Suc (length (mi_data it) - mi_offset it) else 0)"

lemma mi_next_decreases:
  assumes "mi_next c it = (Some r, it')" and "r \<noteq> Panicked"
  shows "mi_left it' < mi_left it"
proof -
  have nd: "\<not> mi_is_done c it" using assms by (auto simp: mi_next_def split: if_splits)
  then have le: "mi_last_err it = None" by (simp add: mi_is_done_def)
  show ?thesis
  proof (cases "mi_try_next c it")
    case (Inl f)
    with assms nd le show ?thesis by (cases f) (auto simp: mi_next_def mi_left_def)
  next
    case (Inr p)
    obtain m i where p: "p = (m, i)" by (cases p)
    with Inr assms nd have "it' = i" by (auto simp: mi_next_def)
    with mi_try_next_Inr [of c it m i] Inr p le show ?thesis by (auto simp: mi_left_def)
  qed
qed

text \<open>The iterator run to its end: parsed messages, then an error if there is one, then nothing.\<close>

function mi_collect :: "nat \<Rightarrow> msg_iter \<Rightarrow> (session_error, session_message) result list" where
  "mi_collect c it =
     (case mi_next c it of
        (None, _) \<Rightarrow> []
      | (Some (Inr m), it') \<Rightarrow> Ok m # mi_collect c it'
      | (Some (Inl (Fail e)), it') \<Rightarrow> Err e # mi_collect c it'
      | (Some (Inl Panic), _) \<Rightarrow> [Panicked])"
  by pat_completeness auto
termination
  by (relation "measure (\<lambda>(c, it). mi_left it)") (auto dest!: mi_next_decreases [OF sym])

declare mi_collect.simps [simp del]

lemma mi_collect_encoded:
  assumes "\<forall>m \<in> set ms. msg_valid c m" and "0 < minimum_message_size c"
  shows "mi_collect c \<lparr>mi_data = pre @ concat (map (\<lambda>m. res_get [] (msg_encode c m)) ms),
                      mi_offset = length pre, mi_last_err = None\<rparr> = map Ok ms"
  using assms(1)
proof (induction ms arbitrary: pre)
  case Nil
  then show ?case using assms(2) by (subst mi_collect.simps) (simp add: mi_next_def mi_is_done_def)
next
  case (Cons m ms)
  then have v: "msg_valid c m" by simp
  let ?e = "[1] @ [msg_discriminant m] @ u16_to_be (of_nat (length (msg_body c m))) @ msg_body c m"
  let ?rest = "concat (map (\<lambda>m. res_get [] (msg_encode c m)) ms)"
  let ?it = "\<lparr>mi_data = pre @ ?e @ ?rest, mi_offset = length pre, mi_last_err = None\<rparr>"
  have "mi_try_next c ?it = Ok (m, ?it\<lparr>mi_offset := length pre + 4 + length (msg_body c m)\<rparr>)"
    by (rule mi_try_next_encoded [OF v]) simp_all
  moreover have "\<not> mi_is_done c ?it" using msg_body_length(2) [OF v] by (simp add: mi_is_done_def)
  ultimately have "mi_collect c ?it
      = Ok m # mi_collect c (?it\<lparr>mi_offset := length pre + 4 + length (msg_body c m)\<rparr>)"
    by (subst mi_collect.simps) (simp add: mi_next_def)
  also have "?it\<lparr>mi_offset := length pre + 4 + length (msg_body c m)\<rparr>
      = \<lparr>mi_data = (pre @ ?e) @ ?rest, mi_offset = length (pre @ ?e), mi_last_err = None\<rparr>"
    by simp
  also have "mi_collect c \<dots> = map Ok ms" using Cons by (intro Cons.IH) simp
  finally show ?case by (simp add: msg_encode_eq [OF v])
qed

text \<open>C30: every run of well-formed messages is encoded without a failure, and parsing the concatenation
of their encodings gives exactly those messages, in order and with no error.\<close>
theorem session_messages_roundtrip:
  assumes "\<forall>m \<in> set ms. msg_valid c m" and "4 < c"
  shows "(\<forall>m \<in> set ms. \<exists>b. msg_encode c m = Ok b)
     \<and> mi_collect c (mi_from (concat (map (\<lambda>m. res_get [] (msg_encode c m)) ms))) = map Ok ms"
proof
  show "\<forall>m \<in> set ms. \<exists>b. msg_encode c m = Ok b" using assms(1) msg_encode_eq by blast
  have "0 < minimum_message_size c" by (simp add: size_defs)
  from mi_collect_encoded [OF assms(1) this, of "[]"]
  show "mi_collect c (mi_from (concat (map (\<lambda>m. res_get [] (msg_encode c m)) ms))) = map Ok ms"
    by (simp add: mi_from_def)
qed

theorem session_messages_roundtrip_witness:
  "mi_collect 466 (mi_from (concat (map (\<lambda>m. res_get [] (msg_encode 466 m))
     [SegmentMsg \<lparr>seg_frame_id = 3, seg_seq_idx = 0, seg_seq_len = 1, seg_data = [9]\<rparr>,
      RequestMsg [(3, 5), (4, 1)], AcknowledgeMsg [1, 2, 7]])))
   = map Ok [SegmentMsg \<lparr>seg_frame_id = 3, seg_seq_idx = 0, seg_seq_len = 1, seg_data = [9]\<rparr>,
      RequestMsg [(3, 5), (4, 1)], AcknowledgeMsg [1, 2, 7]]"
proof -
  have "\<forall>m \<in> set [SegmentMsg \<lparr>seg_frame_id = 3, seg_seq_idx = 0, seg_seq_len = 1, seg_data = [9]\<rparr>,
      RequestMsg [(3, 5), (4, 1)], AcknowledgeMsg [1, 2, 7]]. msg_valid 466 m"
    by (simp add: segment_valid_def sr_valid_def fa_valid_def size_defs om_ok_def)
  from session_messages_roundtrip [OF this] show ?thesis by simp
qed

section \<open>What the parser rejects, and where it panics\<close>

text \<open>The fields of the header at the current offset.\<close>

definition mi_len :: "msg_iter \<Rightarrow> nat" where
  "mi_len it = unat (u16_from_be (take 2 (drop (mi_offset it + 2) (mi_data it))))"

lemma mi_try_next_header:
  assumes "mi_offset it + 4 \<le> length (mi_data it)"
  shows "mi_try_next c it =
     (if mi_data it ! mi_offset it \<noteq> protocol_version then Err WrongVersion
      else if mi_len it > max_message_size then Err IncorrectMessageLength
      else if 1024 \<le> mi_len it then Err ParseError
      else and_then (mi_decode_body c (mi_data it ! (mi_offset it + 1)) (mi_data it)
                       (mi_offset it + 4) (mi_len it))
             (\<lambda>res. Ok (res, it\<lparr>mi_offset := mi_offset it + 4 + mi_len it\<rparr>)))"
  using assms
  by (auto simp: mi_try_next_def Let_def index_res_def slice_range_def mi_len_def reserved_bits not_less)

lemma mi_decode_body_Panic:
  "mi_decode_body c disc data offset len = Panicked \<longleftrightarrow>
     disc \<in> {0, 1, 2} \<and> (length data < offset + len \<or> disc = 0 \<and> len < 6)"
proof (cases "length data < offset + len")
  case True
  then show ?thesis by (simp add: mi_decode_body_def slice_range_def)
next
  case False
  have sr: "sr_decode c b \<noteq> Panicked" for b by (simp add: sr_decode_def)
  have fa: "fa_decode c b \<noteq> Panicked" for b by (simp add: fa_decode_def)
  have mr: "map_res f x = Panicked \<longleftrightarrow> x = Panicked" for f :: "'a \<Rightarrow> session_message" and x :: "(session_error, 'a) result"
    by (cases x) auto
  show ?thesis using False sr fa
    by (simp add: mi_decode_body_def slice_range_def mr segment_decode_Panic_iff)
qed

lemma mi_try_next_Panic_header:
  assumes "mi_offset it + 4 \<le> length (mi_data it)"
  shows "mi_try_next c it = Panicked \<longleftrightarrow>
     mi_data it ! mi_offset it = 1 \<and> mi_data it ! (mi_offset it + 1) \<in> {0, 1, 2} \<and> mi_len it < 1024
     \<and> (length (mi_data it) < mi_offset it + 4 + mi_len it
         \<or> mi_data it ! (mi_offset it + 1) = 0 \<and> mi_len it < 6)"
proof -
  have k: "and_then x (\<lambda>res. Ok (f res)) = Panicked \<longleftrightarrow> x = Panicked"
    for x :: "(session_error, session_message) result" and f :: "session_message \<Rightarrow> session_message \<times> msg_iter"
    by (cases x) auto
  have "max_message_size = 1482" by (simp add: size_defs)
  then show ?thesis
    unfolding mi_try_next_header [OF assms] protocol_version_def
    using mi_decode_body_Panic [of c "mi_data it ! (mi_offset it + 1)" "mi_data it" "mi_offset it + 4" "mi_len it"]
    by (auto simp: k)
qed

lemma mi_try_next_Panic_short:
  assumes "length (mi_data it) < mi_offset it + 4"
  shows "mi_try_next c it = Panicked \<longleftrightarrow> length (mi_data it) \<le> mi_offset it \<or> mi_data it ! mi_offset it = protocol_version"
  using assms by (auto simp: mi_try_next_def Let_def index_res_def slice_range_def)

text \<open>The inputs from which no message can be read without a panic.\<close>

definition parse_panics :: "bytes \<Rightarrow> bool" where
  "parse_panics d \<longleftrightarrow>
     d = [] \<or> d ! 0 = 1 \<and>
       (length d < 4
        \<or> (let len = unat (u16_from_be (take 2 (drop 2 d))) in
            d ! 1 \<in> {0, 1, 2} \<and> len < 1024 \<and> (length d < 4 + len \<or> d ! 1 = 0 \<and> len < 6)))"


lemma parser_panics_examples:
  "msg_decode 466 [] = Panicked" "msg_decode 466 [1] = Panicked" "msg_decode 466 [1, 0, 0, 3, 7, 7, 7, 7, 7, 7, 7] = Panicked"
  "msg_decode 466 [0] = Err WrongVersion"
  by code_simp+

text \<open>Messages between 1024 bytes and the documented maximum message size are encoded but never
parsed: the parser takes the upper bits of their length for reserved bits and reports a parse error.\<close>
lemma long_messages_not_parsed:
  assumes "1024 \<le> length (segment_encode s)" and "length (segment_encode s) \<le> max_message_size"
  shows "and_then (msg_encode c (SegmentMsg s)) (msg_decode c) = Err ParseError"
proof -
  let ?b = "segment_encode s"
  let ?l = "of_nat (length ?b) :: u16"
  let ?e = "[protocol_version, 0] @ u16_to_be ?l @ ?b"
  have le: "length ?b \<le> 1482" using assms(2) by (simp add: size_defs)
  then have "length ?b mod 65536 = length ?b" by (intro mod_less) linarith
  then have "length ?b mod 2 ^ LENGTH(16) = length ?b" by (simp only: len_num1 len_bit0) simp
  then have "unat ?l = length ?b" by (simp only: unat_of_nat)
  then have len: "mi_len (mi_from ?e) = length ?b" by (simp add: mi_len_def mi_from_def)
  have h: "mi_offset (mi_from ?e) + 4 \<le> length (mi_data (mi_from ?e))" by (simp add: mi_from_def)
  have "mi_try_next c (mi_from ?e) = Err ParseError"
    unfolding mi_try_next_header [OF h] len using assms by (simp add: mi_from_def)
  then show ?thesis by (simp add: msg_encode_def msg_decode_def)
qed

lemma long_messages_not_parsed_witness:
  "and_then (msg_encode 1492 (SegmentMsg \<lparr>seg_frame_id = 1, seg_seq_idx = 0, seg_seq_len = 1,
      seg_data = replicate 1200 0\<rparr>)) (msg_decode 1492) = Err ParseError"
  by (rule long_messages_not_parsed) (simp_all add: size_defs)

section \<open>What a request asks for\<close>

lemma bit_bitmap:
  fixes xs :: "nat list"
  assumes "\<forall>i \<in> set xs. i < 256" and "i < 8"
  shows "bit (foldl (\<lambda>acc n. acc OR n) 0 (map (\<lambda>idx. push_bit (unat idx) 1)
      (filter (\<lambda>s. s < (8 :: u8)) (map of_nat xs))) :: u8) i \<longleftrightarrow> i \<in> set xs"
proof -
  have "bit (push_bit (unat (of_nat j :: u8)) 1 :: u8) i \<longleftrightarrow> j = i" if "j \<in> set xs" "(of_nat j :: u8) < 8" for j
  proof -
    have "unat (of_nat j :: u8) = j" using assms(1) that(1) by (simp add: unat_of_nat)
    then show ?thesis using assms(2) by (auto simp: bit_simps)
  qed
  moreover have "(of_nat i :: u8) < 8" using assms(2) by (simp add: word_less_nat_alt unat_of_nat)
  ultimately show ?thesis by (auto simp: filter_map_fold_or_bit)
qed

lemma sr_missing_bitmap_bit:
  assumes "length (fb_segments b) \<le> 255" and "i < 8"
  shows "bit (sr_missing_bitmap (fb_info b)) i \<longleftrightarrow> i < length (fb_segments b) \<and> fb_segments b ! i = None"
proof -
  let ?xs = "filter (\<lambda>i. fb_segments b ! i = None) [0..<length (fb_segments b)]"
  have "iter_missing_sequence_indices (fb_info b) = map of_nat ?xs"
    using assms(1) by (intro iter_missing_indices) simp
  moreover have "\<forall>i \<in> set ?xs. i < 256" using assms(1) by auto
  ultimately show ?thesis
    using bit_bitmap [of ?xs i] assms(2)
    by (simp add: sr_missing_bitmap_def sr_max_missing_segments_per_frame_def)
qed

lemma set_sr_into_iter:
  "set (sr_into_iter req) = {(fid, of_nat i) | fid m i. (fid, m) \<in> set req \<and> i < 8 \<and> bit m i}"
  by (force simp: sr_into_iter_def sr_pushed_def bit_iff_and_push_bit_not_eq_0 and.commute)

lemma sr_from_iter_entries:
  assumes "distinct (map fi_frame_id (take (sr_max_entries c) infos))"
  shows "set (sr_from_iter c infos)
     = (\<lambda>fi. (fi_frame_id fi, sr_missing_bitmap fi)) ` set (take (sr_max_entries c) infos)"
proof -
  have "om_ok m \<Longrightarrow> distinct (map fi_frame_id xs) \<Longrightarrow> fst ` set m \<inter> fi_frame_id ` set xs = {} \<Longrightarrow>
    set (foldl (\<lambda>ret fi. om_insert (fi_frame_id fi) (sr_missing_bitmap fi) ret) m xs)
      = set m \<union> (\<lambda>fi. (fi_frame_id fi, sr_missing_bitmap fi)) ` set xs" for m xs
  proof (induction xs arbitrary: m)
    case (Cons x xs)
    let ?m = "om_insert (fi_frame_id x) (sr_missing_bitmap x) m"
    have "set ?m = insert (fi_frame_id x, sr_missing_bitmap x) (set m)"
      using Cons.prems by (force simp: set_om_insert)
    moreover have "fst ` set ?m \<inter> fi_frame_id ` set xs = {}" using Cons.prems by auto
    ultimately show ?case using Cons.IH [of ?m] Cons.prems by simp
  qed simp
  from this [OF om_ok_Nil assms] show ?thesis by (simp add: sr_from_iter_def)
qed

text \<open>A retransmission request built from the builders of incomplete frames asks for exactly the
segments that are missing among the first eight of each frame, and for nothing else.\<close>
lemma request_asks_for_missing:
  assumes "distinct (map fb_frame_id bs)" and "length bs \<le> sr_max_entries c"
    and "\<forall>b \<in> set bs. length (fb_segments b) \<le> 255"
  shows "set (sr_into_iter (sr_from_iter c (map fb_info bs)))
     = {(fb_frame_id b, of_nat i) | b i. b \<in> set bs \<and> i < 8 \<and> i < length (fb_segments b)
          \<and> fb_segments b ! i = None}"
proof -
  have id: "map fi_frame_id (map fb_info bs) = map fb_frame_id bs" by (simp add: fb_info_def)
  have "distinct (map fi_frame_id (take (sr_max_entries c) (map fb_info bs)))"
  proof -
    have "take (sr_max_entries c) (map fb_info bs) = map fb_info bs" using assms(2) by simp
    then show ?thesis using assms(1) id by (simp only:)
  qed
  then have "set (sr_from_iter c (map fb_info bs))
      = (\<lambda>b. (fb_frame_id b, sr_missing_bitmap (fb_info b))) ` set bs"
    using assms(2) by (subst sr_from_iter_entries) (auto simp: fb_info_def image_image)
  then have mem: "(fid, m) \<in> set (sr_from_iter c (map fb_info bs)) \<longleftrightarrow>
      (\<exists>b \<in> set bs. fid = fb_frame_id b \<and> m = sr_missing_bitmap (fb_info b))" for fid m
    by auto
  show ?thesis
  proof (rule set_eqI)
    fix x
    have "x \<in> set (sr_into_iter (sr_from_iter c (map fb_info bs))) \<longleftrightarrow>
        (\<exists>b \<in> set bs. \<exists>i < 8. x = (fb_frame_id b, of_nat i) \<and> bit (sr_missing_bitmap (fb_info b)) i)"
      unfolding set_sr_into_iter mem by blast
    also have "\<dots> \<longleftrightarrow> (\<exists>b \<in> set bs. \<exists>i < 8. x = (fb_frame_id b, of_nat i)
        \<and> i < length (fb_segments b) \<and> fb_segments b ! i = None)"
      using assms(3) sr_missing_bitmap_bit by blast
    finally show "x \<in> set (sr_into_iter (sr_from_iter c (map fb_info bs))) \<longleftrightarrow>
        x \<in> {(fb_frame_id b, of_nat i) | b i. b \<in> set bs \<and> i < 8 \<and> i < length (fb_segments b)
          \<and> fb_segments b ! i = None}"
      by blast
  qed
qed

lemma request_asks_for_missing_witness:
  "set (sr_into_iter (sr_from_iter 466 (map fb_info [fb_empty 4 2])))
     = {(fb_frame_id b, of_nat i) | b i. b \<in> set [fb_empty 4 2] \<and> i < 8 \<and> i < length (fb_segments b)
          \<and> fb_segments b ! i = None}"
  by (rule request_asks_for_missing) (simp_all add: fb_empty_def size_defs)

end
