(* ===== verification/Session_Reassembler.thy ===== *)
theory Session_Reassembler
  imports Session_Frame Transition
begin

text \<open>
  The frame reassembler (\<open>FrameReassembler\<close> in \<open>common/network-types/src/session/frame.rs\<close>): in-order
  emission of reassembled frames and eviction of stale ones.

  Atomics and concurrent maps are read and written by one operation at a time, so an operation is
  a function from the state before it to the state after it. A clock reading is an argument of the
  operation that makes it, in milliseconds since the epoch: \<open>ts\<close> and \<open>now\<close> are the reading on entry,
  \<open>em\<close> the reading after an emission. When an operation fails, the state is the one before it: the
  early returns of the code come before any write, and the sends that come later cannot fail, since
  they are guarded by the \<open>is_closed\<close> test on entry.
\<close>

section \<open>Frame reassembler\<close>

text \<open>
  \<open>fr_out\<close> is everything sent so far on the channel of reassembled frames; each item is a frame or
  the error sent in its place.
\<close>

record reassembler =
  fr_sequences :: "(frame_id, frame_builder) omap"
  fr_highest_buffered :: frame_id
  fr_next :: frame_id
  fr_last_emission :: u64
  fr_out :: "(session_error, frame) result list"
  fr_closed :: bool
  fr_max_age :: u64

definition fr_new :: "u64 \<Rightarrow> reassembler" where
  "fr_new max_age =
     \<lparr>fr_sequences = [], fr_highest_buffered = 0, fr_next = 1, fr_last_emission = - 1,
      fr_out = [], fr_closed = False, fr_max_age = max_age\<rparr>"

definition fr_send ::
  "reassembler \<Rightarrow> (session_error, frame) result \<Rightarrow> (session_error, reassembler) result" where
  "fr_send r item =
     (if item = Panicked then Panicked
      else if fr_closed r then Err ReassemblerClosed
      else Ok (r\<lparr>fr_out := fr_out r @ [item]\<rparr>))"

definition fr_emit_if_complete_discard_otherwise ::
  "reassembler \<Rightarrow> frame_builder \<Rightarrow> u64 \<Rightarrow> (session_error, reassembler) result" where
  "fr_emit_if_complete_discard_otherwise r b em =
     (let next = fr_next r; r1 = r\<lparr>fr_next := next + 1\<rparr> in
      and_then
        (if next = fb_frame_id b \<and> fb_is_complete b then fr_send r1 (fb_reassemble b)
         else fr_send r1 (Err (FrameDiscarded (fb_frame_id b))))
        (\<lambda>r2. Ok (r2\<lparr>fr_last_emission := em\<rparr>)))"

lemma fr_send_Inr [res_simps]:
  "fr_send r item = Inr r' \<longleftrightarrow>
     item \<noteq> Panicked \<and> \<not> fr_closed r \<and> r' = r\<lparr>fr_out := fr_out r @ [item]\<rparr>"
  by (auto simp: fr_send_def)

lemma fr_emit_frame [res_simps]:
  assumes "fr_emit_if_complete_discard_otherwise r b em = Inr r'"
  shows "fr_sequences r' = fr_sequences r" and "fr_next r' = fr_next r + 1"
    and "fr_closed r' = fr_closed r" and "fr_max_age r' = fr_max_age r"
    and "fr_highest_buffered r' = fr_highest_buffered r" and "fr_last_emission r' = em"
    and "\<exists>item. fr_out r' = fr_out r @ [item]"
  using assms by (auto simp: fr_emit_if_complete_discard_otherwise_def Let_def and_then_Inr_iff
      fr_send_Inr split: if_splits)

text \<open>The loop that emits the following frames as long as they are complete.\<close>

function fr_cascade :: "reassembler \<Rightarrow> u64 \<Rightarrow> (session_error, reassembler) result" where
  "fr_cascade r em =
     (case om_get (fr_sequences r) (fr_next r) of
        Some b \<Rightarrow>
          if fb_is_complete b then
            and_then
              (fr_emit_if_complete_discard_otherwise
                 (r\<lparr>fr_sequences := om_remove (fr_next r) (fr_sequences r)\<rparr>) b em)
              (\<lambda>r'. fr_cascade r' em)
          else Ok r
      | None \<Rightarrow> Ok r)"
  by pat_completeness auto
termination
  by (relation "measure (\<lambda>(r, em). length (fr_sequences r))")
    (auto simp: fr_emit_frame intro!: length_om_remove)

declare fr_cascade.simps [simp del]

definition fr_push_segment ::
  "reassembler \<Rightarrow> segment \<Rightarrow> u64 \<Rightarrow> u64 \<Rightarrow> (session_error, reassembler) result" where
  "fr_push_segment r s ts em =
     (if fr_closed r then Err ReassemblerClosed
      else
        let fid = seg_frame_id s in
        if fid < fr_next r then Err (OldSegment fid)
        else
          and_then
            (case om_get (fr_sequences r) fid of
               Some b \<Rightarrow>
                 and_then (fb_put b s ts) (\<lambda>(b', remaining).
                   if remaining = 0 \<and> fr_next r = fid then
                     and_then
                       (fr_send (r\<lparr>fr_next := fid + 1,
                                   fr_sequences := om_remove fid (fr_sequences r)\<rparr>)
                          (fb_reassemble b'))
                       (\<lambda>r1. Ok (r1\<lparr>fr_last_emission := em\<rparr>, True))
                   else Ok (r\<lparr>fr_sequences := om_insert fid b' (fr_sequences r)\<rparr>, False))
             | None \<Rightarrow>
                 and_then (fb_new s ts) (\<lambda>b.
                   if fb_is_complete b \<and> fr_next r = fid then
                     and_then (fr_send (r\<lparr>fr_next := fid + 1\<rparr>) (fb_reassemble b))
                       (\<lambda>r1. Ok (r1\<lparr>fr_last_emission := em\<rparr>, True))
                   else
                     Ok (r\<lparr>fr_sequences := om_insert fid b (fr_sequences r),
                            fr_highest_buffered := max (fr_highest_buffered r) fid\<rparr>, False)))
            (\<lambda>(r', cascade). if cascade then fr_cascade r' em else Ok r'))"

definition fr_incomplete_frames :: "reassembler \<Rightarrow> frame_info list" where
  "fr_incomplete_frames r =
     List.map_filter (\<lambda>i. let fid = of_nat i in
         case om_get (fr_sequences r) fid of
           Some b \<Rightarrow> if fb_is_complete b then None else Some (fb_info b)
         | None \<Rightarrow> Some \<lparr>fi_frame_id = fid, fi_missing_segments = True # replicate 255 False,
                         fi_total_segments = 1, fi_last_update = 0\<rparr>)
       [unat (fr_next r)..<Suc (unat (fr_highest_buffered r))]"

text \<open>
  The eviction loop. It re-reads the clock after each step it takes, so nothing in its text bounds
  it: it is a partial function, \<open>None\<close> where it does not return.
\<close>

partial_function (option) fr_evict_loop ::
  "reassembler \<Rightarrow> u64 \<Rightarrow> u64 \<Rightarrow> nat \<Rightarrow> (session_error, reassembler \<times> nat) result option" where
  "fr_evict_loop r cutoff em count =
     (case om_get (fr_sequences r) (fr_next r) of
        Some b \<Rightarrow>
          if fb_is_complete b \<or> fb_is_expired b cutoff then
            (case fr_emit_if_complete_discard_otherwise
                    (r\<lparr>fr_sequences := om_remove (fr_next r) (fr_sequences r)\<rparr>) b em of
               Inl e \<Rightarrow> Some (Inl e)
             | Inr r' \<Rightarrow> fr_evict_loop r' cutoff em (count + 1))
          else Some (Ok (r, count))
      | None \<Rightarrow>
          if fr_last_emission r < cutoff then
            fr_evict_loop (r\<lparr>fr_next := fr_next r + 1, fr_last_emission := em\<rparr>) cutoff em (count + 1)
          else Some (Ok (r, count)))"

definition fr_cutoff :: "reassembler \<Rightarrow> u64 \<Rightarrow> u64" where
  "fr_cutoff r now = (if fr_max_age r \<le> now then now - fr_max_age r else 0)"

definition fr_evict ::
  "reassembler \<Rightarrow> u64 \<Rightarrow> u64 \<Rightarrow> (session_error, reassembler \<times> nat) result option" where
  "fr_evict r now em =
     (if fr_closed r then Some (Err ReassemblerClosed)
      else if fr_sequences r = [] then Some (Ok (r, 0))
      else fr_evict_loop r (fr_cutoff r now) em 0)"

definition fr_close :: "reassembler \<Rightarrow> reassembler" where
  "fr_close r = r\<lparr>fr_closed := True\<rparr>"

text \<open>The sink of segments: a segment is pushed, a flush evicts.\<close>

definition fr_start_send ::
  "reassembler \<Rightarrow> segment \<Rightarrow> u64 \<Rightarrow> u64 \<Rightarrow> (session_error, reassembler) result" where
  "fr_start_send r item ts em = fr_push_segment r item ts em"

definition fr_poll_flush ::
  "reassembler \<Rightarrow> u64 \<Rightarrow> u64 \<Rightarrow> (session_error, reassembler) result option" where
  "fr_poll_flush r now em = map_option (map_res fst) (fr_evict r now em)"

section \<open>Invariant: in-order emission\<close>

fun item_id :: "(session_error, frame) result \<Rightarrow> frame_id" where
  "item_id (Inr f) = frm_id f"
| "item_id (Inl (Fail (FrameDiscarded i))) = i"
| "item_id _ = 0"

definition item_ok :: "(session_error, frame) result \<Rightarrow> bool" where
  "item_ok x \<longleftrightarrow> (case x of Inr f \<Rightarrow> True | Inl (Fail (FrameDiscarded i)) \<Rightarrow> True | _ \<Rightarrow> False)"

text \<open>
  The frame under construction is never older than the next frame to emit, its builder is
  consistent, and the emitted items (frames, or the report that a frame was discarded) have
  strictly increasing IDs, all below the next one. The 32-bit counter of the next frame wraps to 0
  after the last frame ID; the order of the output is claimed while it has not.
\<close>

definition fr_inv :: "reassembler \<Rightarrow> bool" where
  "fr_inv r \<longleftrightarrow>
     om_ok (fr_sequences r)
     \<and> (\<forall>(fid, b) \<in> set (fr_sequences r).
          fb_frame_id b = fid \<and> fb_inv b \<and> fr_next r \<le> fid \<and> fid \<noteq> 0)
     \<and> (\<forall>x \<in> set (fr_out r). item_ok x)
     \<and> (fr_next r \<noteq> 0 \<longrightarrow>
          sorted_wrt (<) (map item_id (fr_out r)) \<and> (\<forall>x \<in> set (fr_out r). item_id x < fr_next r))"

definition fr_drained :: "reassembler \<Rightarrow> bool" where
  "fr_drained r \<longleftrightarrow>
     (case om_get (fr_sequences r) (fr_next r) of Some b \<Rightarrow> \<not> fb_is_complete b | None \<Rightarrow> True)"

lemma fr_inv_new: "fr_inv (fr_new a)"
  by (simp add: fr_inv_def fr_new_def)

lemma fr_inv_get:
  "fr_inv r \<Longrightarrow> om_get (fr_sequences r) fid = Some b \<Longrightarrow>
   fb_frame_id b = fid \<and> fb_inv b \<and> fr_next r \<le> fid \<and> fid \<noteq> 0"
  unfolding fr_inv_def using om_get_SomeD by fastforce

lemma word_Suc_le: "(x :: 'a::len word) < y \<Longrightarrow> x + 1 \<le> y"
  by (metis inc_le)

lemma word_less_Suc: "(x :: 'a::len word) + 1 \<noteq> 0 \<Longrightarrow> x < x + 1"
  using inc_less_eq_iff by force

text \<open>Moving the counter past the next frame, with or without an item for it.\<close>

lemma fr_inv_advance:
  assumes inv: "fr_inv r" and next0: "fr_next r \<noteq> 0"
    and sq: "fr_sequences r' = om_remove (fr_next r) (fr_sequences r)"
    and nx: "fr_next r' = fr_next r + 1"
    and out: "fr_out r' = fr_out r \<or> (\<exists>x. fr_out r' = fr_out r @ [x] \<and> item_ok x \<and> item_id x = fr_next r)"
  shows "fr_inv r'"
proof -
  have keys: "fr_next r' \<le> fid" if "(fid, b) \<in> set (fr_sequences r')" for fid b
  proof -
    from that inv have "fid \<noteq> fr_next r" and "fr_next r \<le> fid"
      by (auto simp: sq set_om_remove fr_inv_def)
    then show ?thesis unfolding nx by (intro word_Suc_le) simp
  qed
  have "sorted_wrt (<) (map item_id (fr_out r'))" and "\<forall>x \<in> set (fr_out r'). item_id x < fr_next r'"
    if "fr_next r' \<noteq> 0"
  proof -
    have lt: "y < fr_next r \<Longrightarrow> y < fr_next r + 1" for y
      using word_less_Suc [of "fr_next r"] that by (simp add: nx)
    show "sorted_wrt (<) (map item_id (fr_out r'))"
      "\<forall>x \<in> set (fr_out r'). item_id x < fr_next r'"
      using that out inv next0 word_less_Suc [of "fr_next r"] lt
      by (auto simp: fr_inv_def nx sorted_wrt_append)
  qed
  with keys inv out show ?thesis
    by (auto simp: fr_inv_def sq set_om_remove)
qed

lemma fb_reassemble_ok:
  "fb_inv b \<Longrightarrow> fb_is_complete b \<Longrightarrow>
   fb_reassemble b = Ok \<lparr>frm_id = fb_frame_id b, frm_data = concat (map the (fb_segments b))\<rparr>"
  using fb_complete_iff by (simp add: fb_reassemble_def)

lemma fr_emit_inv:
  assumes inv: "fr_inv r" and next0: "fr_next r \<noteq> 0"
    and b: "om_get (fr_sequences r) (fr_next r) = Some b"
    and em: "fr_emit_if_complete_discard_otherwise
               (r\<lparr>fr_sequences := om_remove (fr_next r) (fr_sequences r)\<rparr>) b em = Ok r'"
  shows "fr_inv r'"
proof (rule fr_inv_advance [OF inv next0])
  have fb: "fb_frame_id b = fr_next r" "fb_inv b" using fr_inv_get [OF inv b] by auto
  show "fr_sequences r' = om_remove (fr_next r) (fr_sequences r)" "fr_next r' = fr_next r + 1"
    using fr_emit_frame [OF em] by simp_all
  show "fr_out r' = fr_out r \<or>
        (\<exists>x. fr_out r' = fr_out r @ [x] \<and> item_ok x \<and> item_id x = fr_next r)"
    using em fb fb_reassemble_ok [OF fb(2)]
    by (auto simp: fr_emit_if_complete_discard_otherwise_def Let_def and_then_Inr_iff fr_send_Inr
        item_ok_def split: if_splits)
qed

lemma fr_cascade_inv:
  "fr_cascade r em = Ok r' \<Longrightarrow> fr_inv r \<Longrightarrow> fr_inv r' \<and> fr_drained r'"
proof (induction r em arbitrary: r' rule: fr_cascade.induct)
  case (1 r em)
  show ?case
  proof (cases "om_get (fr_sequences r) (fr_next r)")
    case None
    with 1 show ?thesis by (simp add: fr_cascade.simps [of r em] fr_drained_def)
  next
    case (Some b)
    show ?thesis
    proof (cases "fb_is_complete b")
      case False
      with Some 1 show ?thesis by (simp add: fr_cascade.simps [of r em] fr_drained_def)
    next
      case True
      with Some 1(2) obtain r1 where e: "fr_emit_if_complete_discard_otherwise
          (r\<lparr>fr_sequences := om_remove (fr_next r) (fr_sequences r)\<rparr>) b em = Ok r1"
        and c: "fr_cascade r1 em = Ok r'"
        by (auto simp: fr_cascade.simps [of r em] and_then_Inr_iff)
      have "fr_next r \<noteq> 0" using fr_inv_get [OF 1(3) Some] by auto
      from fr_emit_inv [OF 1(3) this Some e] show ?thesis
        using 1(1) [OF Some True e c] by simp
    qed
  qed
qed

lemma fr_inv_insert:
  assumes "fr_inv r" and "fb_frame_id b = fid" and "fb_inv b" and "fr_next r \<le> fid" and "fid \<noteq> 0"
  shows "fr_inv (r\<lparr>fr_sequences := om_insert fid b (fr_sequences r), fr_highest_buffered := h\<rparr>)"
  using assms by (auto simp: fr_inv_def set_om_insert)

lemma fr_drained_insert:
  assumes "fr_drained r" and "\<not> (fb_is_complete b \<and> fr_next r = fid)"
  shows "fr_drained (r\<lparr>fr_sequences := om_insert fid b (fr_sequences r), fr_highest_buffered := h\<rparr>)"
  using assms by (auto simp: fr_drained_def)

lemma fr_send_complete:
  assumes "fr_send r (fb_reassemble b) = Ok r'" and "fb_inv b" and "fb_is_complete b"
  shows "r' = r\<lparr>fr_out := fr_out r @ [Ok \<lparr>frm_id = fb_frame_id b,
           frm_data = concat (map the (fb_segments b))\<rparr>]\<rparr>"
  using assms fb_reassemble_ok by (simp add: fr_send_Inr)

lemma fr_push_inv:
  assumes push: "fr_push_segment r s ts em = Ok r'" and inv: "fr_inv r" and dr: "fr_drained r"
    and next0: "fr_next r \<noteq> 0"
  shows "fr_inv r' \<and> fr_drained r'"
proof -
  define fid where "fid = seg_frame_id s"
  have le: "fr_next r \<le> fid"
    using push by (auto simp: fr_push_segment_def fid_def Let_def split: if_splits)
  then have f0: "fid \<noteq> 0" using next0 by auto
  have done_one: "fr_inv r' \<and> fr_drained r'"
    if b: "fb_inv b" "fb_is_complete b" "fb_frame_id b = fid" "fr_next r = fid"
      and send: "fr_send (r\<lparr>fr_next := fid + 1, fr_sequences := om_remove fid (fr_sequences r)\<rparr>)
              (fb_reassemble b) = Ok r1"
      and casc: "fr_cascade (r1\<lparr>fr_last_emission := em\<rparr>) em = Ok r'" for b r1
  proof (rule fr_cascade_inv [OF casc])
    show "fr_inv (r1\<lparr>fr_last_emission := em\<rparr>)"
      using fr_send_complete [OF send b(1,2)] b(3,4)
      by (intro fr_inv_advance [OF inv next0]) (auto simp: item_ok_def)
  qed
  have later: "fr_inv r' \<and> fr_drained r'"
    if b: "fb_inv b" "fb_frame_id b = fid" "\<not> (fb_is_complete b \<and> fr_next r = fid)"
      and r': "r' = r\<lparr>fr_sequences := om_insert fid b (fr_sequences r), fr_highest_buffered := h\<rparr>"
    for b h
    unfolding r' using fr_inv_insert [OF inv b(2,1) le f0] fr_drained_insert [OF dr b(3)] by blast
  show ?thesis
  proof (cases "om_get (fr_sequences r) fid")
    case None
    with push obtain b where new: "fb_new s ts = Ok b"
      by (auto simp: fr_push_segment_def fid_def Let_def and_then_Inr_iff split: if_splits)
    have b: "fb_inv b" "fb_frame_id b = fid" using fb_new_inv [OF new] by (simp_all add: fid_def)
    show ?thesis
    proof (cases "fb_is_complete b \<and> fr_next r = fid")
      case True
      with push None new obtain r1
        where "fr_send (r\<lparr>fr_next := fid + 1\<rparr>) (fb_reassemble b) = Ok r1"
          and "fr_cascade (r1\<lparr>fr_last_emission := em\<rparr>) em = Ok r'"
        by (auto simp: fr_push_segment_def fid_def Let_def and_then_Inr_iff split: if_splits)
      with True b show ?thesis
        by (intro done_one [of b r1]) (simp_all add: om_remove_absent [OF None])
    next
      case False
      with push None new show ?thesis
        by (intro later [OF b False]) (auto simp: fr_push_segment_def fid_def Let_def split: if_splits)
    qed
  next
    case (Some b0)
    with push obtain b rem where put: "fb_put b0 s ts = Ok (b, rem)"
      by (auto simp: fr_push_segment_def fid_def Let_def and_then_Inr_iff split: if_splits)
    have b: "fb_inv b" "fb_frame_id b = fid" and rem: "rem = 0 \<longleftrightarrow> fb_is_complete b"
      using fr_inv_get [OF inv Some] fb_inv_put [OF put] fb_put_keeps [OF put]
      by (auto simp: fb_is_complete_def)
    show ?thesis
    proof (cases "fb_is_complete b \<and> fr_next r = fid")
      case True
      with push Some put rem obtain r1
        where "fr_send (r\<lparr>fr_next := fid + 1, fr_sequences := om_remove fid (fr_sequences r)\<rparr>)
              (fb_reassemble b) = Ok r1"
          and "fr_cascade (r1\<lparr>fr_last_emission := em\<rparr>) em = Ok r'"
        by (auto simp: fr_push_segment_def fid_def Let_def and_then_Inr_iff split: if_splits)
      with True b show ?thesis by (intro done_one [of b r1]) simp_all
    next
      case False
      with push Some put rem show ?thesis
        by (intro later [OF b False, of "fr_highest_buffered r"])
          (auto simp: fr_push_segment_def fid_def Let_def split: if_splits)
    qed
  qed
qed

section \<open>Eviction returns, and leaves the reassembler settled\<close>

lemma fr_emit_open:
  assumes "fb_inv b" and "\<not> fr_closed r"
  shows "\<exists>r'. fr_emit_if_complete_discard_otherwise r b em = Ok r'"
  using assms(2) fb_reassemble_ok [OF assms(1)]
  by (auto simp: fr_emit_if_complete_discard_otherwise_def Let_def fr_send_def)

text \<open>
  What the loop leaves: the next frame is under construction and fresh, or it has not been seen at
  all and the last emission is not stale.
\<close>

definition fr_settled :: "reassembler \<Rightarrow> u64 \<Rightarrow> bool" where
  "fr_settled r cutoff \<longleftrightarrow>
     (case om_get (fr_sequences r) (fr_next r) of
        Some b \<Rightarrow> \<not> fb_is_complete b \<and> \<not> fb_is_expired b cutoff
      | None \<Rightarrow> \<not> fr_last_emission r < cutoff)"

lemma fr_settled_drained: "fr_settled r cutoff \<Longrightarrow> fr_drained r"
  by (auto simp: fr_settled_def fr_drained_def split: option.splits)

text \<open>One step of the loop, on a well-formed open reassembler.\<close>

lemma fr_evict_loop_step:
  assumes inv: "fr_inv r" and opn: "\<not> fr_closed r" and wrap: "fr_next r = 0 \<longrightarrow> cutoff \<le> fr_last_emission r"
    and em: "cutoff \<le> em"
  obtains (stop) "fr_evict_loop r cutoff em n = Some (Ok (r, n))" "fr_settled r cutoff"
  | (go) r1 where "fr_evict_loop r cutoff em n = fr_evict_loop r1 cutoff em (n + 1)"
      "fr_inv r1" "\<not> fr_closed r1" "fr_last_emission r1 = em" "fr_next r1 = fr_next r + 1"
      "length (fr_sequences r1) < length (fr_sequences r) \<or>
       fr_sequences r1 = fr_sequences r \<and> fr_last_emission r < cutoff"
proof (cases "om_get (fr_sequences r) (fr_next r)")
  case None
  show ?thesis
  proof (cases "fr_last_emission r < cutoff")
    case True
    let ?r1 = "r\<lparr>fr_next := fr_next r + 1, fr_last_emission := em\<rparr>"
    have "fr_next r \<noteq> 0" using wrap True by auto
    from inv this have "fr_inv ?r1"
      by (rule fr_inv_advance) (simp_all add: om_remove_absent [OF None])
    moreover have "fr_evict_loop r cutoff em n = fr_evict_loop ?r1 cutoff em (n + 1)"
      using None True by (subst fr_evict_loop.simps) simp
    ultimately show ?thesis using True opn by (intro go [of ?r1]) simp_all
  next
    case False
    with None show ?thesis
      by (intro stop) (subst fr_evict_loop.simps, simp_all add: fr_settled_def)
  qed
next
  case (Some b)
  let ?r0 = "r\<lparr>fr_sequences := om_remove (fr_next r) (fr_sequences r)\<rparr>"
  show ?thesis
  proof (cases "fb_is_complete b \<or> fb_is_expired b cutoff")
    case True
    obtain r1 where e: "fr_emit_if_complete_discard_otherwise ?r0 b em = Ok r1"
      using fr_emit_open [of b ?r0 em] fr_inv_get [OF inv Some] opn by auto
    have n0: "fr_next r \<noteq> 0" using fr_inv_get [OF inv Some] by auto
    have "length (om_remove (fr_next r) (fr_sequences r)) < length (fr_sequences r)"
      using Some by (intro length_om_remove) simp
    moreover have "fr_evict_loop r cutoff em n = fr_evict_loop r1 cutoff em (n + 1)"
      using Some True e by (subst fr_evict_loop.simps) simp
    ultimately show ?thesis
      using fr_emit_inv [OF inv n0 Some e] fr_emit_frame [OF e] opn by (intro go [of r1]) simp_all
  next
    case False
    with Some show ?thesis
      by (intro stop) (subst fr_evict_loop.simps, simp_all add: fr_settled_def)
  qed
qed

lemma fr_evict_loop_total:
  assumes "fr_inv r" and "\<not> fr_closed r" and "fr_next r = 0 \<longrightarrow> cutoff \<le> fr_last_emission r"
    and em: "cutoff \<le> em"
  shows "\<exists>r' n'. fr_evict_loop r cutoff em n = Some (Ok (r', n')) \<and> fr_inv r' \<and> \<not> fr_closed r'
           \<and> fr_settled r' cutoff \<and> n \<le> n' \<and> fr_next r' = fr_next r + of_nat (n' - n)"
  using assms(1-3)
proof (induction "2 * length (fr_sequences r) + (if fr_last_emission r < cutoff then 1 else 0)"
    arbitrary: r n rule: less_induct)
  case less
  from less.prems em show ?case
  proof (cases rule: fr_evict_loop_step [where n = n])
    case stop
    with less.prems show ?thesis by (intro exI [of _ r] exI [of _ n]) simp
  next
    case (go r1)
    have m: "2 * length (fr_sequences r1) + (if fr_last_emission r1 < cutoff then 1 else 0)
          < 2 * length (fr_sequences r) + (if fr_last_emission r < cutoff then 1 else 0)"
      using go(4,6) em by auto
    obtain r' n' where "fr_evict_loop r1 cutoff em (n + 1) = Some (Ok (r', n'))"
      and "fr_inv r'" "\<not> fr_closed r'" "fr_settled r' cutoff" "n + 1 \<le> n'"
      and nx: "fr_next r' = fr_next r1 + of_nat (n' - (n + 1))"
      using less.hyps [OF m go(2,3)] go(4) em by blast
    moreover have "fr_next r' = fr_next r + of_nat (n' - n)"
    proof -
      have "n' - n = Suc (n' - (n + 1))" using \<open>n + 1 \<le> n'\<close> by simp
      then show ?thesis unfolding nx go(5) by (simp add: add.assoc)
    qed
    ultimately show ?thesis using go(1) by (intro exI [of _ r'] exI [of _ n']) simp
  qed
qed

lemma fr_evict_settles:
  assumes "fr_inv r" and "\<not> fr_closed r" and "fr_next r \<noteq> 0" and "fr_cutoff r now \<le> em"
  shows "\<exists>r' n. fr_evict r now em = Some (Ok (r', n)) \<and> fr_inv r'
     \<and> (if fr_sequences r = [] then r' = r \<and> n = 0 else fr_settled r' (fr_cutoff r now))
     \<and> fr_next r' = fr_next r + of_nat n"
proof (cases "fr_sequences r = []")
  case True
  with assms show ?thesis by (simp add: fr_evict_def)
next
  case False
  then show ?thesis
    using fr_evict_loop_total [OF assms(1,2) _ assms(4), of 0] assms(2,3)
    by (auto simp: fr_evict_def)
qed

text \<open>Eviction always returns: on an open reassembler whose invariant holds, with a clock that has
not run back by more than the maximum age, it returns the number of frames it moved past, the
invariant holds again, and unless there was nothing to look at, the next frame is afterwards either
under construction and fresh, or unseen with a recent last emission.\<close>
lemma fr_evict_returns:
  assumes "fr_inv r" and "\<not> fr_closed r" and "fr_next r \<noteq> 0" and "fr_cutoff r now \<le> em"
  shows "\<exists>r' n. fr_evict r now em = Some (Ok (r', n)) \<and> fr_inv r'
     \<and> (if fr_sequences r = [] then r' = r \<and> n = 0 else fr_settled r' (fr_cutoff r now))
     \<and> fr_next r' = fr_next r + of_nat n"
  using assms by (rule fr_evict_settles)

section \<open>Reachable states\<close>

text \<open>
  A run of the reassembler: segments are pushed, stale frames are evicted, the channel is closed, in
  any order. The run ends when the 32-bit counter of frames has wrapped.
\<close>

definition fr_init :: "reassembler \<Rightarrow> bool" where
  "fr_init r \<longleftrightarrow> r = fr_new (fr_max_age r)"

inductive fr_step :: "reassembler \<Rightarrow> reassembler \<Rightarrow> bool" where
  fr_step_push: "fr_next r \<noteq> 0 \<Longrightarrow> fr_push_segment r s ts em = Ok r' \<Longrightarrow> fr_step r r'"
| fr_step_evict: "fr_next r \<noteq> 0 \<Longrightarrow> fr_cutoff r now \<le> em \<Longrightarrow> fr_evict r now em = Some (Ok (r', n)) \<Longrightarrow>
    fr_step r r'"
| fr_step_close: "fr_step r (fr_close r)"

lemma fr_evict_keeps:
  assumes "fr_inv r" and "fr_drained r" and "fr_next r \<noteq> 0" and "fr_cutoff r now \<le> em"
    and ev: "fr_evict r now em = Some (Ok (r', n))"
  shows "fr_inv r' \<and> fr_drained r'"
proof -
  have "\<not> fr_closed r" using ev by (auto simp: fr_evict_def)
  from fr_evict_settles [OF assms(1) this assms(3,4)] ev assms(2) show ?thesis
    by (auto split: if_splits dest: fr_settled_drained)
qed

interpretation fr_sys: inductive_invariant fr_init fr_step "\<lambda>r. fr_inv r \<and> fr_drained r"
proof unfold_locales
  show "fr_inv r \<and> fr_drained r" if "fr_init r" for r
  proof -
    have "r = fr_new (fr_max_age r)" using that by (simp add: fr_init_def)
    then show ?thesis using fr_inv_new by (metis fr_drained_def fr_new_def map_of.simps(1)
        option.simps(4) reassembler.select_convs(1))
  qed
  show "fr_inv r' \<and> fr_drained r'" if "fr_step r r'" and "fr_inv r \<and> fr_drained r" for r r'
    using that
  proof (cases rule: fr_step.cases)
    case fr_step_close
    with that(2) show ?thesis by (simp add: fr_close_def fr_inv_def fr_drained_def)
  qed (auto dest: fr_push_inv fr_evict_keeps)
qed

text \<open>C36: whatever segments arrive in whatever order, and whenever eviction runs, the reassembler
emits frames (or the report of a discarded frame) with strictly increasing IDs, nothing it emits and nothing
it still builds is out of place with respect to the next frame, and the next frame is not held back once it is
complete.\<close>
theorem reassembler_emits_in_order:
  assumes "reachable fr_init fr_step r" and "fr_next r \<noteq> 0"
  shows "sorted_wrt (<) (map item_id (fr_out r))
     \<and> (\<forall>x \<in> set (fr_out r). item_ok x \<and> item_id x < fr_next r)
     \<and> (\<forall>fid b. om_get (fr_sequences r) fid = Some b \<longrightarrow> fr_next r \<le> fid \<and> fb_frame_id b = fid)
     \<and> fr_drained r"
proof -
  from assms(1) have inv: "fr_inv r \<and> fr_drained r" by (rule fr_sys.inv_reachable)
  then have "fr_next r \<le> fid \<and> fb_frame_id b = fid" if "om_get (fr_sequences r) fid = Some b" for fid b
    using fr_inv_get that by blast
  with inv assms(2) show ?thesis by (simp add: fr_inv_def)
qed

lemma fr_push_example:
  "fr_push_segment (fr_new 1000) \<lparr>seg_frame_id = 1, seg_seq_idx = 0, seg_seq_len = 1, seg_data = [42]\<rparr> 5 6
   = Ok \<lparr>fr_sequences = [], fr_highest_buffered = 0, fr_next = 2, fr_last_emission = 6,
         fr_out = [Ok \<lparr>frm_id = 1, frm_data = [42]\<rparr>], fr_closed = False, fr_max_age = 1000\<rparr>"
  by code_simp

theorem reassembler_emits_in_order_witness:
  "fr_drained \<lparr>fr_sequences = [], fr_highest_buffered = 0, fr_next = 2, fr_last_emission = 6,
         fr_out = [Ok \<lparr>frm_id = 1, frm_data = [42]\<rparr>], fr_closed = False, fr_max_age = 1000\<rparr>"
    (is "fr_drained ?r")
proof -
  have "reachable fr_init fr_step (fr_new 1000)"
    by (rule reachable_init) (simp add: fr_init_def fr_new_def)
  moreover have "fr_step (fr_new 1000) ?r"
    by (rule fr_step_push [OF _ fr_push_example]) (simp add: fr_new_def)
  ultimately have "reachable fr_init fr_step ?r" by (rule reachable_step)
  from reassembler_emits_in_order [OF this] show ?thesis by simp
qed

lemma fr_evict_returns_witness:
  "\<exists>r' n. fr_evict (fr_new 10) 20 15 = Some (Ok (r', n)) \<and> fr_inv r'"
proof -
  have "fr_inv (fr_new 10)" "\<not> fr_closed (fr_new 10)" "fr_next (fr_new 10) \<noteq> 0"
    "fr_cutoff (fr_new 10) 20 \<le> 15"
    using fr_inv_new by (simp_all add: fr_new_def fr_cutoff_def)
  from fr_evict_returns [OF this] show ?thesis by blast
qed

end
