(* ===== verification/Session_Delivery.thy ===== *)
theory Session_Delivery
  imports Session_Reassembler
begin

text \<open>
  End-to-end delivery: what the receiver's reassembler outputs when it is fed the segments of the
  frames a sender produced, in any order, with any losses and any number of duplicates (the sender
  retransmits). The abstract state is the set of segments delivered so far; the relation \<open>fr_rep\<close>
  ties it to the concrete reassembler, and each delivery is a step of the simulation.
\<close>

section \<open>The ingress loop\<close>

text \<open>
  \<open>consume_segment\<close> pushes a segment and drops the error of a segment that is not accepted, leaving
  the reassembler as it was; a panic would end the program.
\<close>

definition fr_deliver :: "reassembler \<Rightarrow> segment \<times> u64 \<times> u64 \<Rightarrow> (session_error, reassembler) result" where
  "fr_deliver r d =
     (case d of (s, ts, em) \<Rightarrow>
        case fr_push_segment r s ts em of
          Inr r' \<Rightarrow> Ok r'
        | Inl (Fail _) \<Rightarrow> Ok r
        | Inl Panic \<Rightarrow> Panicked)"

fun fr_deliver_all ::
  "reassembler \<Rightarrow> (segment \<times> u64 \<times> u64) list \<Rightarrow> (session_error, reassembler) result" where
  "fr_deliver_all r [] = Ok r"
| "fr_deliver_all r (d # ds) = and_then (fr_deliver r d) (\<lambda>r'. fr_deliver_all r' ds)"

section \<open>What the sender produced\<close>

text \<open>The \<open>i\<close>-th frame (from 0) has ID \<open>i + 1\<close>, as \<open>send_frame_data\<close> numbers them, and is not empty.\<close>

abbreviation fid_of :: "nat \<Rightarrow> frame_id" where
  "fid_of i \<equiv> of_nat (Suc i)"

definition sent :: "nat \<Rightarrow> frame list \<Rightarrow> segment list list \<Rightarrow> bool" where
  "sent mss fs sg \<longleftrightarrow>
     length fs < 2 ^ 32 - 1 \<and> length sg = length fs
     \<and> (\<forall>i < length fs. frm_id (fs ! i) = fid_of i \<and> frm_data (fs ! i) \<noteq> []
          \<and> frame_segment (fs ! i) mss = Ok (sg ! i))"

definition lead :: "segment set \<Rightarrow> segment list list \<Rightarrow> nat" where
  "lead D sg = length (takeWhile (\<lambda>ss. set ss \<subseteq> D) sg)"

lemma lead_eq:
  assumes "k \<le> length sg" and "\<And>i. i < k \<Longrightarrow> set (sg ! i) \<subseteq> D"
    and "k < length sg \<Longrightarrow> \<not> set (sg ! k) \<subseteq> D"
  shows "lead D sg = k"
proof -
  have "takeWhile (\<lambda>ss. set ss \<subseteq> D) sg = take k sg"
    using assms by (intro takeWhile_eq_take_P_nth) auto
  with assms(1) show ?thesis by (simp add: lead_def)
qed

lemma lead_le: "lead D sg \<le> length sg"
  by (simp add: lead_def length_takeWhile_le)

lemma lead_below: "i < lead D sg \<Longrightarrow> set (sg ! i) \<subseteq> D"
  unfolding lead_def by (metis nth_mem set_takeWhileD takeWhile_nth)

lemma lead_at: "lead D sg < length sg \<Longrightarrow> \<not> set (sg ! lead D sg) \<subseteq> D"
  unfolding lead_def using nth_length_takeWhile by blast

lemma unat_fid: "i < 2 ^ 32 - 1 \<Longrightarrow> unat (fid_of i) = Suc i"
  by (simp add: unat_of_nat del: of_nat_Suc)

lemma fid_inj: "i < 2 ^ 32 - 1 \<Longrightarrow> j < 2 ^ 32 - 1 \<Longrightarrow> fid_of i = fid_of j \<longleftrightarrow> i = j"
  by (metis unat_fid nat.inject)

lemma fid_less: "i < 2 ^ 32 - 1 \<Longrightarrow> j < 2 ^ 32 - 1 \<Longrightarrow> fid_of i < fid_of j \<longleftrightarrow> i < j"
  by (simp add: word_less_nat_alt unat_fid del: of_nat_Suc)

lemma sent_segments:
  assumes "sent mss fs sg" and "i < length fs"
  shows "sg ! i \<noteq> []" and "length (sg ! i) \<le> 255"
    and "concat (map seg_data (sg ! i)) = frm_data (fs ! i)"
    and "j < length (sg ! i) \<Longrightarrow> seg_frame_id (sg ! i ! j) = fid_of i
           \<and> unat (seg_seq_idx (sg ! i ! j)) = j \<and> unat (seg_seq_len (sg ! i ! j)) = length (sg ! i)"
proof -
  have seg: "segment_into (frm_data (fs ! i)) mss (fid_of i) = Ok (sg ! i)" "frm_data (fs ! i) \<noteq> []"
    using assms by (auto simp: sent_def frame_segment_def)
  show "length (sg ! i) \<le> 255" "concat (map seg_data (sg ! i)) = frm_data (fs ! i)"
    using segment_length [OF seg(1)] segment_data [OF seg(1)] segment_Ok(2) [OF seg(1)] by simp_all
  then show "sg ! i \<noteq> []" using seg(2) by auto
  show "j < length (sg ! i) \<Longrightarrow> seg_frame_id (sg ! i ! j) = fid_of i
     \<and> unat (seg_seq_idx (sg ! i ! j)) = j \<and> unat (seg_seq_len (sg ! i ! j)) = length (sg ! i)"
    using segment_fields [OF seg(1)] by simp
qed

section \<open>One builder against the delivered segments\<close>

definition builds :: "segment list \<Rightarrow> frame_id \<Rightarrow> segment set \<Rightarrow> frame_builder \<Rightarrow> bool" where
  "builds ss f D b \<longleftrightarrow>
     fb_frame_id b = f
     \<and> fb_segments b = map (\<lambda>s. if s \<in> D then Some (seg_data s) else None) ss
     \<and> fb_inv b"

lemma builds_complete: "builds ss f D b \<Longrightarrow> fb_is_complete b \<longleftrightarrow> set ss \<subseteq> D"
  by (auto simp: builds_def fb_complete_iff list_all_iff)

lemma builds_reassemble:
  "builds ss f D b \<Longrightarrow> set ss \<subseteq> D \<Longrightarrow>
   fb_reassemble b = Ok \<lparr>frm_id = f, frm_data = concat (map seg_data ss)\<rparr>"
proof -
  assume b: "builds ss f D b" and D: "set ss \<subseteq> D"
  then have "map the (fb_segments b) = map seg_data ss" by (auto simp: builds_def)
  moreover have "fb_is_complete b" "fb_inv b" "fb_frame_id b = f"
    using builds_complete [OF b] b D by (simp_all add: builds_def)
  ultimately show ?thesis using fb_reassemble_ok [of b] by simp
qed

lemma builds_put:
  assumes b: "builds ss f D b" and j: "j < length ss" and s: "s = ss ! j"
    and f: "seg_frame_id s = f" and idx: "\<And>i. i < length ss \<Longrightarrow> unat (seg_seq_idx (ss ! i)) = i"
  shows "\<exists>b'. fb_put b s ts = Ok (b', fb_remaining b') \<and> builds ss f (insert s D) b'"
proof -
  have uj: "unat (seg_seq_idx s) = j" using idx j s by simp
  have len: "length (fb_segments b) = length ss" and f': "fb_frame_id b = seg_frame_id s"
    using b f by (simp_all add: builds_def)
  have "\<exists>b'. fb_put b s ts = Ok (b', fb_remaining b')
      \<and> fb_segments b' = map (\<lambda>s. if s \<in> insert (ss ! j) D then Some (seg_data s) else None) ss"
  proof (cases "s \<in> D")
    case True
    then have "insert (ss ! j) D = D" by (auto simp: s)
    moreover have "fb_segments b ! j \<noteq> None" using True b j by (simp add: builds_def s)
    moreover have "fb_is_complete b \<Longrightarrow> fb_remaining b = 0" by (simp add: fb_is_complete_def)
    ultimately show ?thesis
      using b j len f' uj by (auto simp: fb_put_def index_res_def builds_def)
  next
    case False
    then have "\<not> fb_is_complete b" using builds_complete [OF b] j s nth_mem by blast
    moreover have "fb_segments b ! j = None" using False b j by (simp add: builds_def s)
    moreover have "(map (\<lambda>s. if s \<in> D then Some (seg_data s) else None) ss)[j := Some (seg_data s)]
        = map (\<lambda>s. if s \<in> insert (ss ! j) D then Some (seg_data s) else None) ss"
    proof (rule nth_equalityI)
      fix i assume i: "i < length ((map (\<lambda>s. if s \<in> D then Some (seg_data s) else None) ss)[j := Some (seg_data s)])"
      have "ss ! i = ss ! j \<longleftrightarrow> i = j" using idx i j by (metis length_list_update length_map)
      with i show "(map (\<lambda>s. if s \<in> D then Some (seg_data s) else None) ss)[j := Some (seg_data s)] ! i
          = map (\<lambda>s. if s \<in> insert (ss ! j) D then Some (seg_data s) else None) ss ! i"
        by (auto simp: nth_list_update s)
    qed simp
    ultimately show ?thesis
      using b j len f' uj by (auto simp: fb_put_def index_res_def builds_def Let_def)
  qed
  then obtain b' where put: "fb_put b s ts = Ok (b', fb_remaining b')"
    and sg: "fb_segments b' = map (\<lambda>s'. if s' \<in> insert s D then Some (seg_data s') else None) ss"
    by (auto simp: s)
  have "fb_inv b'" using fb_inv_put [OF put] b by (simp add: builds_def)
  with put sg fb_put_keeps(1) [OF put] b show ?thesis by (auto simp: builds_def)
qed

lemma builds_new:
  assumes j: "j < length ss" and s: "s = ss ! j" and f: "seg_frame_id s = f"
    and idx: "\<And>i. i < length ss \<Longrightarrow> unat (seg_seq_idx (ss ! i)) = i"
    and len: "unat (seg_seq_len s) = length ss" and D: "set ss \<inter> D = {}"
  shows "\<exists>b. fb_new s ts = Ok b \<and> builds ss f (insert s D) b"
proof -
  have "replicate (length ss) None = map (\<lambda>s. if s \<in> D then Some (seg_data s) else None) ss"
    using D by (intro nth_equalityI) (auto dest: nth_mem)
  then have "builds ss f D (fb_empty f (seg_seq_len s))"
    using fb_inv_empty [of f "seg_seq_len s"] by (auto simp: builds_def fb_empty_def len)
  then obtain b where "fb_put (fb_empty f (seg_seq_len s)) s ts = Ok (b, fb_remaining b)"
    and "builds ss f (insert s D) b"
    using builds_put [OF _ j s f idx] by blast
  then show ?thesis by (auto simp: fb_new_def f)
qed

lemma builds_other:
  "builds ss f D b \<Longrightarrow> s \<notin> set ss \<Longrightarrow> builds ss f (insert s D) b"
  by (auto simp: builds_def)

section \<open>The simulation\<close>

definition fr_rep :: "frame list \<Rightarrow> segment list list \<Rightarrow> nat \<Rightarrow> segment set \<Rightarrow> reassembler \<Rightarrow> bool" where
  "fr_rep fs sg k D r \<longleftrightarrow>
     k \<le> length fs \<and> (\<forall>i < k. set (sg ! i) \<subseteq> D)
     \<and> fr_next r = fid_of k \<and> fr_out r = map Ok (take k fs) \<and> \<not> fr_closed r
     \<and> (\<forall>i. k \<le> i \<and> i < length fs \<and> set (sg ! i) \<inter> D \<noteq> {} \<longrightarrow>
          (\<exists>b. om_get (fr_sequences r) (fid_of i) = Some b \<and> builds (sg ! i) (fid_of i) D b))
     \<and> (\<forall>f. om_get (fr_sequences r) f \<noteq> None \<longrightarrow>
          (\<exists>i. k \<le> i \<and> i < length fs \<and> f = fid_of i \<and> set (sg ! i) \<inter> D \<noteq> {}))"

lemma fr_rep_new: "fr_rep fs sg 0 {} (fr_new a)"
  by (simp add: fr_rep_def fr_new_def)

lemma fr_rep_get:
  assumes sent: "sent mss fs sg" and rep: "fr_rep fs sg k D r" and i: "k \<le> i" "i < length fs"
  shows "(case om_get (fr_sequences r) (fid_of i) of
            Some b \<Rightarrow> builds (sg ! i) (fid_of i) D b \<and> set (sg ! i) \<inter> D \<noteq> {}
          | None \<Rightarrow> set (sg ! i) \<inter> D = {})"
proof (cases "set (sg ! i) \<inter> D = {}")
  case True
  have "om_get (fr_sequences r) (fid_of i) = None"
  proof (rule ccontr)
    assume "om_get (fr_sequences r) (fid_of i) \<noteq> None"
    with rep obtain i' where i': "i' < length fs" "fid_of i = fid_of i'" "set (sg ! i') \<inter> D \<noteq> {}"
      unfolding fr_rep_def by blast
    with sent i have "i = i'" using fid_inj [of i i'] by (simp add: sent_def del: of_nat_Suc)
    with i' True show False by simp
  qed
  with True show ?thesis by simp
next
  case False
  with rep i obtain b where "om_get (fr_sequences r) (fid_of i) = Some b" "builds (sg ! i) (fid_of i) D b"
    unfolding fr_rep_def by blast
  with False show ?thesis by simp
qed

lemma fr_rep_emit:
  assumes sent: "sent mss fs sg" and rep: "fr_rep fs sg k D r" and k: "k < length fs"
    and D: "set (sg ! k) \<subseteq> D"
    and r': "fr_sequences r' = om_remove (fid_of k) (fr_sequences r)" "fr_next r' = fid_of k + 1"
      "fr_out r' = fr_out r @ [Ok (fs ! k)]" "fr_closed r' = fr_closed r"
  shows "fr_rep fs sg (Suc k) D r'"
proof -
  have n: "length fs < 2 ^ 32 - 1" using sent by (simp add: sent_def)
  have ne: "fid_of i \<noteq> fid_of k" if "Suc k \<le> i" "i < length fs" for i
    using that n k fid_inj [of i k] by (simp del: of_nat_Suc)
  have "fr_next r' = fid_of (Suc k)" by (simp add: r'(2))
  moreover have "fr_out r' = map Ok (take (Suc k) fs)"
    using rep k by (simp add: fr_rep_def r'(3) take_Suc_conv_app_nth)
  moreover have "\<forall>i < Suc k. set (sg ! i) \<subseteq> D" using rep D by (auto simp: fr_rep_def less_Suc_eq)
  moreover have "\<exists>i. Suc k \<le> i \<and> i < length fs \<and> f = fid_of i \<and> set (sg ! i) \<inter> D \<noteq> {}"
    if f: "om_get (fr_sequences r') f \<noteq> None" for f
  proof -
    have "f \<noteq> fid_of k" and "om_get (fr_sequences r) f \<noteq> None"
      using f unfolding r'(1) om_get_remove by (auto split: if_splits simp del: of_nat_Suc)
    with rep obtain i where "k \<le> i" "i < length fs" "f = fid_of i" "set (sg ! i) \<inter> D \<noteq> {}"
      unfolding fr_rep_def by blast
    with \<open>f \<noteq> fid_of k\<close> show ?thesis by (intro exI [of _ i]) (auto simp: le_less Suc_le_eq)
  qed
  moreover have "\<exists>b. om_get (fr_sequences r') (fid_of i) = Some b \<and> builds (sg ! i) (fid_of i) D b"
    if "Suc k \<le> i" "i < length fs" "set (sg ! i) \<inter> D \<noteq> {}" for i
  proof -
    have "k \<le> i" using that(1) by simp
    with rep that obtain b where "om_get (fr_sequences r) (fid_of i) = Some b" "builds (sg ! i) (fid_of i) D b"
      unfolding fr_rep_def by blast
    with ne [OF that(1,2)] show ?thesis by (simp add: r'(1) del: of_nat_Suc)
  qed
  ultimately show ?thesis using rep k r'(4) unfolding fr_rep_def by (simp del: of_nat_Suc)
qed

lemma sent_frame:
  assumes "sent mss fs sg" and "i < length fs"
  shows "\<lparr>frm_id = fid_of i, frm_data = concat (map seg_data (sg ! i))\<rparr> = fs ! i"
proof -
  have "frm_id (fs ! i) = fid_of i" using assms by (simp add: sent_def)
  then show ?thesis using sent_segments(3) [OF assms] by (cases "fs ! i") (simp del: of_nat_Suc)
qed

lemma fr_rep_cascade:
  assumes sent: "sent mss fs sg"
  shows "fr_rep fs sg k D r \<Longrightarrow> \<exists>r'. fr_cascade r em = Ok r' \<and> fr_rep fs sg (lead D sg) D r'"
proof (induction "length fs - k" arbitrary: k r)
  case 0
  then have k: "k = length fs" by (simp add: fr_rep_def)
  have "om_get (fr_sequences r) (fr_next r) = None"
    using 0(2) k unfolding fr_rep_def by (metis leD)
  moreover have "lead D sg = k"
    using 0(2) k sent by (intro lead_eq) (auto simp: fr_rep_def sent_def)
  ultimately show ?case using 0(2) by (simp add: fr_cascade.simps [of r em])
next
  case (Suc m)
  then have k: "k < length fs" by simp
  have next_k: "fr_next r = fid_of k" using Suc.prems by (simp add: fr_rep_def)
  have stay: "lead D sg = k" if "\<not> set (sg ! k) \<subseteq> D"
    using Suc.prems k sent that by (intro lead_eq) (auto simp: fr_rep_def sent_def)
  have get: "case om_get (fr_sequences r) (fid_of k) of
        Some b \<Rightarrow> builds (sg ! k) (fid_of k) D b \<and> set (sg ! k) \<inter> D \<noteq> {}
      | None \<Rightarrow> set (sg ! k) \<inter> D = {}"
    using fr_rep_get [OF sent Suc.prems _ k] by simp
  show ?case
  proof (cases "set (sg ! k) \<subseteq> D")
    case False
    have "fr_cascade r em = Ok r"
      using get False builds_complete by (subst fr_cascade.simps) (auto simp: next_k split: option.splits)
    with stay [OF False] Suc.prems show ?thesis by simp
  next
    case True
    with sent_segments(1) [OF sent k] have "set (sg ! k) \<inter> D \<noteq> {}" by (cases "sg ! k") auto
    with get obtain b where b: "om_get (fr_sequences r) (fid_of k) = Some b" "builds (sg ! k) (fid_of k) D b"
      by (auto split: option.splits)
    let ?r1 = "r\<lparr>fr_sequences := om_remove (fid_of k) (fr_sequences r), fr_next := fid_of k + 1,
                fr_out := fr_out r @ [Ok (fs ! k)], fr_last_emission := em\<rparr>"
    have "fr_emit_if_complete_discard_otherwise (r\<lparr>fr_sequences := om_remove (fid_of k) (fr_sequences r)\<rparr>) b em
        = Ok ?r1"
      using b(2) builds_reassemble [OF b(2) True] builds_complete [OF b(2)] True Suc.prems
        sent_frame [OF sent k]
      by (simp add: fr_emit_if_complete_discard_otherwise_def Let_def fr_send_def builds_def fr_rep_def
          del: of_nat_Suc)
    then have "fr_cascade r em = fr_cascade ?r1 em"
      using b(1) builds_complete [OF b(2)] True
      by (subst fr_cascade.simps) (simp add: next_k del: of_nat_Suc)
    moreover have "fr_rep fs sg (Suc k) D ?r1"
      by (rule fr_rep_emit [OF sent Suc.prems k True]) simp_all
    moreover have "m = length fs - Suc k" using Suc.hyps(2) by simp
    ultimately show ?thesis using Suc.hyps(1) by simp
  qed
qed

lemma fr_rep_insert:
  assumes sent: "sent mss fs sg" and rep: "fr_rep fs sg k D r" and i: "k \<le> i" "i < length fs"
    and s: "s \<in> set (sg ! i)" and b: "builds (sg ! i) (fid_of i) (insert s D) b"
    and other: "\<And>i'. i' < length fs \<Longrightarrow> i' \<noteq> i \<Longrightarrow> s \<notin> set (sg ! i')"
    and r': "fr_sequences r' = om_insert (fid_of i) b (fr_sequences r)"
      "fr_next r' = fr_next r" "fr_out r' = fr_out r" "fr_closed r' = fr_closed r"
  shows "fr_rep fs sg k (insert s D) r'"
proof -
  have n: "length fs < 2 ^ 32 - 1" using sent by (simp add: sent_def)
  have "\<exists>b. om_get (fr_sequences r') (fid_of i') = Some b \<and> builds (sg ! i') (fid_of i') (insert s D) b"
    if i': "k \<le> i'" "i' < length fs" "set (sg ! i') \<inter> insert s D \<noteq> {}" for i'
  proof (cases "i' = i")
    case True
    with b show ?thesis by (simp add: r'(1) del: of_nat_Suc)
  next
    case False
    then have "s \<notin> set (sg ! i')" using other i' by blast
    with i' rep obtain b' where "om_get (fr_sequences r) (fid_of i') = Some b'"
      and "builds (sg ! i') (fid_of i') D b'"
      unfolding fr_rep_def by blast
    moreover have "fid_of i' \<noteq> fid_of i" using False i' i n fid_inj [of i' i] by (simp del: of_nat_Suc)
    ultimately show ?thesis
      using builds_other \<open>s \<notin> set (sg ! i')\<close> by (simp add: r'(1) del: of_nat_Suc)
  qed
  moreover have "\<exists>i. k \<le> i \<and> i < length fs \<and> f = fid_of i \<and> set (sg ! i) \<inter> insert s D \<noteq> {}"
    if "om_get (fr_sequences r') f \<noteq> None" for f
  proof (cases "f = fid_of i")
    case True
    with i s show ?thesis by blast
  next
    case False
    with that have "om_get (fr_sequences r) f \<noteq> None" by (simp add: r'(1) del: of_nat_Suc)
    with rep obtain i' where "k \<le> i'" "i' < length fs" "f = fid_of i'" "set (sg ! i') \<inter> D \<noteq> {}"
      unfolding fr_rep_def by blast
    then show ?thesis by blast
  qed
  ultimately show ?thesis using rep r'(2-4) unfolding fr_rep_def by (auto simp del: of_nat_Suc)
qed

text \<open>The builder that a delivery leaves for its frame.\<close>

lemma fr_rep_builder:
  assumes sent: "sent mss fs sg" and rep: "fr_rep fs sg k D r" and i: "k \<le> i" "i < length fs"
    and s: "s \<in> set (sg ! i)"
  shows "\<exists>b. builds (sg ! i) (fid_of i) (insert s D) b \<and>
    (case om_get (fr_sequences r) (fid_of i) of
       Some b0 \<Rightarrow> fb_put b0 s ts = Ok (b, fb_remaining b)
     | None \<Rightarrow> fb_new s ts = Ok b)"
proof -
  obtain j where j: "j < length (sg ! i)" "s = sg ! i ! j" using s by (auto simp: in_set_conv_nth)
  note seg = sent_segments(4) [OF sent i(2)]
  show ?thesis
  proof (cases "om_get (fr_sequences r) (fid_of i)")
    case None
    with fr_rep_get [OF sent rep i] have "set (sg ! i) \<inter> D = {}" by simp
    with builds_new [OF j, of "fid_of i" D ts] seg j None show ?thesis by (auto simp del: of_nat_Suc)
  next
    case (Some b0)
    with fr_rep_get [OF sent rep i] have "builds (sg ! i) (fid_of i) D b0" by simp
    from builds_put [OF this j, of ts] seg j Some show ?thesis by (auto simp del: of_nat_Suc)
  qed
qed

lemma fr_rep_deliver:
  assumes sent: "sent mss fs sg" and rep: "fr_rep fs sg (lead D sg) D r"
    and i: "i < length fs" and s: "s \<in> set (sg ! i)"
  shows "\<exists>r'. fr_deliver r (s, ts, em) = Ok r' \<and> fr_rep fs sg (lead (insert s D) sg) (insert s D) r'"
proof -
  let ?k = "lead D sg" and ?D = "insert s D"
  have n: "length fs < 2 ^ 32 - 1" and l: "length sg = length fs" using sent by (simp_all add: sent_def)
  have kn: "?k \<le> length fs" using lead_le [of D sg] l by simp
  have fid: "seg_frame_id s = fid_of i"
    using s sent_segments(4) [OF sent i] by (metis in_set_conv_nth)
  have nx: "fr_next r = fid_of ?k" and opn: "\<not> fr_closed r" using rep by (simp_all add: fr_rep_def)
  have other: "s \<notin> set (sg ! i')" if "i' < length fs" "i' \<noteq> i" for i'
    using that sent_segments(4) [OF sent that(1)] fid fid_inj [of i i'] n i
    by (metis in_set_conv_nth less_trans)
  show ?thesis
  proof (cases "i < ?k")
    case True
    then have "s \<in> D" using lead_below s by blast
    then have "?D = D" by auto
    moreover have "fid_of i < fid_of ?k" using True n kn i fid_less [of i ?k] by (simp del: of_nat_Suc)
    ultimately show ?thesis
      using rep opn by (simp add: fr_deliver_def fr_push_segment_def Let_def nx fid del: of_nat_Suc)
  next
    case False
    then have ki: "?k \<le> i" by simp
    then have nlt: "\<not> fid_of i < fid_of ?k" using n kn i fid_less [of i ?k] by (simp del: of_nat_Suc)
    have next_i: "fr_next r = fid_of i \<longleftrightarrow> i = ?k" using n kn i fid_inj [of ?k i] by (auto simp: nx simp del: of_nat_Suc)
    obtain b where b: "builds (sg ! i) (fid_of i) ?D b" and
      step: "case om_get (fr_sequences r) (fid_of i) of
               Some b0 \<Rightarrow> fb_put b0 s ts = Ok (b, fb_remaining b)
             | None \<Rightarrow> fb_new s ts = Ok b"
      using fr_rep_builder [OF sent rep ki i s] by blast
    have remz: "fb_remaining b = 0 \<longleftrightarrow> set (sg ! i) \<subseteq> ?D"
      using builds_complete [OF b] by (simp add: fb_is_complete_def)
    show ?thesis
    proof (cases "set (sg ! i) \<subseteq> ?D \<and> i = ?k")
      case True
      let ?r1 = "r\<lparr>fr_next := fid_of i + 1, fr_sequences := om_remove (fid_of i) (fr_sequences r),
                  fr_out := fr_out r @ [Ok (fs ! i)], fr_last_emission := em\<rparr>"
      have re: "fb_reassemble b = Ok (fs ! i)"
        using builds_reassemble [OF b conjunct1 [OF True]] sent_frame [OF sent i] by (simp only:)
      have push: "fr_push_segment r s ts em = fr_cascade ?r1 em"
        using step True remz re opn nlt next_i om_remove_absent [of "fr_sequences r" "fid_of i"]
        by (auto simp: fr_push_segment_def Let_def fid fr_send_def fb_is_complete_def nx
            split: option.splits simp del: of_nat_Suc)
      have rep2: "fr_rep fs sg ?k ?D (r\<lparr>fr_sequences := om_insert (fid_of i) b (fr_sequences r)\<rparr>)"
        by (rule fr_rep_insert [OF sent rep ki i s b other]) simp_all
      have "fr_rep fs sg (Suc ?k) ?D ?r1"
        using True i by (intro fr_rep_emit [OF sent rep2]) (auto simp del: of_nat_Suc)
      from fr_rep_cascade [OF sent this] obtain r' where "fr_cascade ?r1 em = Ok r'"
        and "fr_rep fs sg (lead ?D sg) ?D r'" by blast
      with push show ?thesis by (intro exI [of _ r']) (simp add: fr_deliver_def)
    next
      case False
      have nc: "(fb_remaining b = 0 \<and> fid_of ?k = fid_of i) = False"
        using False remz next_i by (auto simp: nx simp del: of_nat_Suc)
      obtain h where push: "fr_push_segment r s ts em
          = Ok (r\<lparr>fr_sequences := om_insert (fid_of i) b (fr_sequences r), fr_highest_buffered := h\<rparr>)"
      proof (cases "om_get (fr_sequences r) (fid_of i)")
        case None
        with step nc opn nlt that [of "max (fr_highest_buffered r) (fid_of i)"] show ?thesis
          by (cases "fb_remaining b = 0")
            (simp_all add: fr_push_segment_def Let_def fid fb_is_complete_def nx del: of_nat_Suc)
      next
        case (Some b0)
        with step nc opn nlt that [of "fr_highest_buffered r"] show ?thesis
          by (cases "fb_remaining b = 0")
            (simp_all add: fr_push_segment_def Let_def fid fb_is_complete_def nx del: of_nat_Suc)
      qed
      have "lead ?D sg = ?k"
      proof (rule lead_eq)
        show "?k \<le> length sg" by (rule lead_le)
        show "set (sg ! j) \<subseteq> ?D" if "j < ?k" for j using lead_below [OF that] by blast
        show "\<not> set (sg ! ?k) \<subseteq> ?D" if "?k < length sg"
        proof (cases "i = ?k")
          case True
          with False show ?thesis by blast
        next
          case neq: False
          then have "s \<notin> set (sg ! ?k)" using other that l by auto
          with lead_at [OF that] show ?thesis by blast
        qed
      qed
      moreover have "fr_rep fs sg ?k ?D
          (r\<lparr>fr_sequences := om_insert (fid_of i) b (fr_sequences r), fr_highest_buffered := h\<rparr>)"
        by (rule fr_rep_insert [OF sent rep ki i s b other]) simp_all
      ultimately show ?thesis using push by (simp add: fr_deliver_def del: of_nat_Suc)
    qed
  qed
qed

lemma fr_deliver_all_rep:
  assumes sent: "sent mss fs sg"
  shows "fr_rep fs sg (lead D sg) D r \<Longrightarrow> \<forall>d \<in> set ds. \<exists>ss \<in> set sg. fst d \<in> set ss \<Longrightarrow>
    \<exists>r'. fr_deliver_all r ds = Ok r'
       \<and> fr_rep fs sg (lead (D \<union> fst ` set ds) sg) (D \<union> fst ` set ds) r'"
proof (induction ds arbitrary: D r)
  case (Cons d ds)
  obtain s ts em where d: "d = (s, ts, em)" by (cases d)
  obtain i where i: "i < length fs" "s \<in> set (sg ! i)"
  proof -
    obtain ss where "ss \<in> set sg" "s \<in> set ss" using Cons.prems(2) by (auto simp: d)
    then obtain i where "i < length sg" "s \<in> set (sg ! i)" by (metis in_set_conv_nth)
    with sent that show thesis by (simp add: sent_def)
  qed
  obtain r1 where r1: "fr_deliver r d = Ok r1"
    and rep1: "fr_rep fs sg (lead (insert s D) sg) (insert s D) r1"
    using fr_rep_deliver [OF sent Cons.prems(1) i] by (auto simp: d)
  have "insert s D \<union> fst ` set ds = D \<union> fst ` set (d # ds)" by (auto simp: d)
  then show ?case
    using Cons.IH [OF rep1] Cons.prems(2) r1 by simp
qed simp

lemma reassembly_delivery:
  assumes "sent mss fs sg" and "\<forall>d \<in> set ds. \<exists>ss \<in> set sg. fst d \<in> set ss"
  shows "\<exists>r. fr_deliver_all (fr_new a) ds = Ok r
     \<and> fr_out r = map Ok (take (lead (fst ` set ds) sg) fs)
     \<and> (fst ` set ds = (\<Union>ss \<in> set sg. set ss) \<longrightarrow> fr_out r = map Ok fs)"
proof -
  have "lead {} sg = 0"
    using assms(1) sent_segments(1) [OF assms(1), of 0] by (intro lead_eq) (auto simp: sent_def)
  then have "fr_rep fs sg (lead {} sg) {} (fr_new a)" using fr_rep_new by simp
  from fr_deliver_all_rep [OF assms(1) this assms(2)] obtain r
    where r: "fr_deliver_all (fr_new a) ds = Ok r"
      and out: "fr_out r = map Ok (take (lead (fst ` set ds) sg) fs)"
    by (auto simp: fr_rep_def)
  have "lead (fst ` set ds) sg = length fs" if "fst ` set ds = (\<Union>ss \<in> set sg. set ss)"
    using assms(1) that by (intro lead_eq) (auto simp: sent_def)
  with r out show ?thesis by auto
qed

text \<open>C12: reliable, in-order delivery over a network that reorders and duplicates: feeding a fresh
reassembler any list of the sender's segments, in any order and with any repetitions, never fails, and it
outputs exactly the leading frames all of whose segments have arrived, in order and with the data that was sent.
In particular it outputs every frame once all segments have arrived.\<close>
theorem reassembly_delivers:
  assumes "sent mss fs sg" and "\<forall>d \<in> set ds. \<exists>ss \<in> set sg. fst d \<in> set ss"
  shows "\<exists>r. fr_deliver_all (fr_new a) ds = Ok r
     \<and> fr_out r = map Ok (take (lead (fst ` set ds) sg) fs)
     \<and> (fst ` set ds = (\<Union>ss \<in> set sg. set ss) \<longrightarrow> fr_out r = map Ok fs)"
  using assms by (rule reassembly_delivery)

text \<open>Two frames of two and one segments, delivered out of order and with a duplicate.\<close>

lemma sent_example:
  "sent 2 [\<lparr>frm_id = 1, frm_data = [10, 20, 30]\<rparr>, \<lparr>frm_id = 2, frm_data = [40]\<rparr>]
     [[\<lparr>seg_frame_id = 1, seg_seq_idx = 0, seg_seq_len = 2, seg_data = [10, 20]\<rparr>,
       \<lparr>seg_frame_id = 1, seg_seq_idx = 1, seg_seq_len = 2, seg_data = [30]\<rparr>],
      [\<lparr>seg_frame_id = 2, seg_seq_idx = 0, seg_seq_len = 1, seg_data = [40]\<rparr>]]"
proof -
  have a: "segment_into [10, 20, 30] 2 1 = Ok
     [\<lparr>seg_frame_id = 1, seg_seq_idx = 0, seg_seq_len = 2, seg_data = [10, 20]\<rparr>,
      \<lparr>seg_frame_id = 1, seg_seq_idx = 1, seg_seq_len = 2, seg_data = [30]\<rparr>]"
    "segment_into [40] 2 2 = Ok [\<lparr>seg_frame_id = 2, seg_seq_idx = 0, seg_seq_len = 1, seg_data = [40]\<rparr>]"
    by code_simp+
  then show ?thesis by (auto simp: sent_def frame_segment_def less_Suc_eq)
qed

theorem reassembly_delivers_witness:
  "\<exists>r. fr_deliver_all (fr_new 1000)
     [(\<lparr>seg_frame_id = 2, seg_seq_idx = 0, seg_seq_len = 1, seg_data = [40]\<rparr>, 1, 1),
      (\<lparr>seg_frame_id = 1, seg_seq_idx = 1, seg_seq_len = 2, seg_data = [30]\<rparr>, 2, 2),
      (\<lparr>seg_frame_id = 1, seg_seq_idx = 1, seg_seq_len = 2, seg_data = [30]\<rparr>, 3, 3),
      (\<lparr>seg_frame_id = 1, seg_seq_idx = 0, seg_seq_len = 2, seg_data = [10, 20]\<rparr>, 4, 4)] = Ok r
   \<and> fr_out r = [Ok \<lparr>frm_id = 1, frm_data = [10, 20, 30]\<rparr>, Ok \<lparr>frm_id = 2, frm_data = [40]\<rparr>]"
  using reassembly_delivers [OF sent_example, of
     "[(\<lparr>seg_frame_id = 2, seg_seq_idx = 0, seg_seq_len = 1, seg_data = [40]\<rparr>, 1, 1),
      (\<lparr>seg_frame_id = 1, seg_seq_idx = 1, seg_seq_len = 2, seg_data = [30]\<rparr>, 2, 2),
      (\<lparr>seg_frame_id = 1, seg_seq_idx = 1, seg_seq_len = 2, seg_data = [30]\<rparr>, 3, 3),
      (\<lparr>seg_frame_id = 1, seg_seq_idx = 0, seg_seq_len = 2, seg_data = [10, 20]\<rparr>, 4, 4)]" 1000]
  by auto

end
