(* ===== verification/Session_State.thy ===== *)
theory Session_State
  imports Session_Protocol Session_Delivery
begin

text \<open>
  The Session protocol state machine (\<open>common/network-types/src/session/state.rs\<close>) and its retry
  tokens (\<open>session/utils.rs\<close>): sending a frame, consuming segments, requests and acknowledgements,
  and the periodic actions of the state loop.

  An operation returns the new state together with its result, so the state after an error is
  visible. \<open>ss_egress\<close> is everything put on the channel to the lower layer; \<open>ss_consumed\<close> counts the
  items of the reassembler's channel that the reader has taken. Times are natural numbers of one
  clock. The random jitter and the floating-point product of the back-off are the argument \<open>delay\<close>:
  \<open>delay fid base b n\<close> is the period \<open>base.mul_f64(jitter * b ^ n)\<close> computed for the token of frame
  \<open>fid\<close>. The rate limiters of the loop are the readiness flags of one iteration.
\<close>

datatype network_error = SessionProtocolError session_error | IoError string | SealedTarget | OtherError string

section \<open>Retry tokens\<close>

record retry_token =
  rt_num_retry :: nat
  rt_started_at :: nat
  rt_backoff_base :: rat
  rt_created_at :: nat

datatype retry_result = RetryWait nat | RetryNow retry_token | RetryExpired

definition rt_new :: "nat \<Rightarrow> rat \<Rightarrow> retry_token" where
  "rt_new now backoff_base =
     \<lparr>rt_num_retry = 0, rt_started_at = now, rt_backoff_base = backoff_base, rt_created_at = now\<rparr>"

definition rt_replenish :: "retry_token \<Rightarrow> nat \<Rightarrow> rat \<Rightarrow> retry_token" where
  "rt_replenish t now backoff_base =
     \<lparr>rt_num_retry = 0, rt_started_at = now, rt_backoff_base = backoff_base,
      rt_created_at = rt_created_at t\<rparr>"

definition rt_retry_in ::
  "(nat \<Rightarrow> rat \<Rightarrow> nat \<Rightarrow> nat) \<Rightarrow> retry_token \<Rightarrow> nat \<Rightarrow> nat \<Rightarrow> nat option" where
  "rt_retry_in delay t base max_duration =
     (let duration = delay base (rt_backoff_base t) (rt_num_retry t) in
      if duration < max_duration then Some duration else None)"

definition rt_check ::
  "(nat \<Rightarrow> rat \<Rightarrow> nat \<Rightarrow> nat) \<Rightarrow> retry_token \<Rightarrow> nat \<Rightarrow> nat \<Rightarrow> nat \<Rightarrow> retry_result" where
  "rt_check delay t now base max_duration =
     (case rt_retry_in delay t base max_duration of
        None \<Rightarrow> RetryExpired
      | Some retry_in \<Rightarrow>
          if rt_started_at t + retry_in \<ge> now then RetryWait (rt_started_at t + retry_in - now)
          else RetryNow (t\<lparr>rt_num_retry := rt_num_retry t + 1\<rparr>))"

section \<open>Configuration and state\<close>

datatype session_feature = RequestIncompleteFrames | RetransmitFrames | AcknowledgeFrames | NoDelay

definition default_features :: "session_feature list" where
  "default_features = [AcknowledgeFrames, RequestIncompleteFrames, RetransmitFrames]"

record session_config =
  cfg_max_buffered_segments :: nat
  cfg_acknowledged_frames_buffer :: nat
  cfg_frame_expiration_age :: nat
  cfg_rto_base_receiver :: nat
  cfg_rto_base_sender :: nat
  cfg_backoff_base :: rat
  cfg_enabled_features :: "session_feature list"

record session_state =
  ss_lookbehind :: "(segment_id, segment) omap"
  ss_to_acknowledge :: "frame_id list"
  ss_incoming_frame_retries :: "(frame_id, retry_token) omap"
  ss_outgoing_frame_resends :: "(frame_id, retry_token) omap"
  ss_outgoing_frame_id :: frame_id
  ss_frame_reassembler :: reassembler
  ss_consumed :: nat
  ss_cfg :: session_config
  ss_egress :: "session_message list"
  ss_egress_closed :: bool

type_synonym 'a session_step = "session_state \<times> (network_error, 'a) result"

definition ack_capacity :: "session_config \<Rightarrow> nat" where
  "ack_capacity cfg = max (cfg_acknowledged_frames_buffer cfg) 1"

definition ss_new :: "nat \<Rightarrow> session_config \<Rightarrow> u64 \<Rightarrow> (session_error, session_state) result" where
  "ss_new c cfg max_age =
     (if c \<ge> minimum_message_size c then
        Ok \<lparr>ss_lookbehind = [], ss_to_acknowledge = [], ss_incoming_frame_retries = [],
            ss_outgoing_frame_resends = [], ss_outgoing_frame_id = 1,
            ss_frame_reassembler = fr_new max_age, ss_consumed = 0, ss_cfg = cfg,
            ss_egress = [], ss_egress_closed = False\<rparr>
      else Panicked)"

definition payload_capacity :: "nat \<Rightarrow> nat" where
  "payload_capacity c = c - segment_overhead"

definition max_write_size :: "nat \<Rightarrow> nat" where
  "max_write_size c = sr_max_missing_segments_per_frame * payload_capacity c"

text \<open>Sending on the channel to the lower layer.\<close>

definition egress_send :: "session_state \<Rightarrow> session_message \<Rightarrow> unit session_step" where
  "egress_send st m =
     (if ss_egress_closed st then (st, Err (SessionProtocolError (ProcessingError ''send failed because receiver is gone'')))
      else (st\<lparr>ss_egress := ss_egress st @ [m]\<rparr>, Ok ()))"

definition egress_send_all :: "session_state \<Rightarrow> session_message list \<Rightarrow> unit session_step" where
  "egress_send_all st ms =
     (if ms \<noteq> [] \<and> ss_egress_closed st
      then (st, Err (SessionProtocolError (ProcessingError ''send failed because receiver is gone'')))
      else (st\<lparr>ss_egress := ss_egress st @ ms\<rparr>, Ok ()))"

section \<open>Messages from the peer\<close>

definition ss_consume_segment ::
  "session_state \<Rightarrow> segment \<Rightarrow> u64 \<Rightarrow> u64 \<Rightarrow> nat \<Rightarrow> unit session_step" where
  "ss_consume_segment st s ts em now =
     (case fr_push_segment (ss_frame_reassembler st) s ts em of
        Inr r \<Rightarrow>
          (let fid = seg_frame_id s;
               token = (case om_get (ss_incoming_frame_retries st) fid of
                          Some rt \<Rightarrow> rt_replenish rt now (cfg_backoff_base (ss_cfg st))
                        | None \<Rightarrow> rt_new now (cfg_backoff_base (ss_cfg st)))
           in (st\<lparr>ss_frame_reassembler := r,
                  ss_incoming_frame_retries := om_insert fid token (ss_incoming_frame_retries st)\<rparr>,
               Ok ()))
      | Inl (Fail _) \<Rightarrow> (st, Ok ())
      | Inl Panic \<Rightarrow> (st, Panicked))"

fun ss_retransmit_loop :: "session_state \<Rightarrow> segment_id list \<Rightarrow> unit session_step" where
  "ss_retransmit_loop st [] = (st, Ok ())"
| "ss_retransmit_loop st (sid # sids) =
     (let st1 = st\<lparr>ss_outgoing_frame_resends :=
                    om_remove (fst sid) (ss_outgoing_frame_resends st)\<rparr> in
      case om_get (ss_lookbehind st1) sid of
        None \<Rightarrow> ss_retransmit_loop st1 sids
      | Some s \<Rightarrow>
          (case egress_send st1 (SegmentMsg s) of
             (st2, Inr _) \<Rightarrow> ss_retransmit_loop st2 sids
           | (st2, Inl e) \<Rightarrow> (st2, Inl e)))"

definition ss_retransmit_segments :: "session_state \<Rightarrow> segment_request \<Rightarrow> unit session_step" where
  "ss_retransmit_segments st req = ss_retransmit_loop st (sr_into_iter req)"

fun ss_acknowledge_loop :: "session_state \<Rightarrow> frame_id list \<Rightarrow> session_state" where
  "ss_acknowledge_loop st [] = st"
| "ss_acknowledge_loop st (fid # fids) =
     ss_acknowledge_loop
       (st\<lparr>ss_outgoing_frame_resends := om_remove fid (ss_outgoing_frame_resends st),
           ss_lookbehind := om_retain (\<lambda>k _. fid \<noteq> fst k) (ss_lookbehind st)\<rparr>) fids"

definition ss_acknowledged_frames :: "session_state \<Rightarrow> frame_acks \<Rightarrow> unit session_step" where
  "ss_acknowledged_frames st acked = (ss_acknowledge_loop st acked, Ok ())"

definition ss_start_send ::
  "session_state \<Rightarrow> session_message \<Rightarrow> u64 \<Rightarrow> u64 \<Rightarrow> nat \<Rightarrow> unit session_step" where
  "ss_start_send st item ts em now =
     (case item of
        SegmentMsg s \<Rightarrow> ss_consume_segment st s ts em now
      | RequestMsg r \<Rightarrow> ss_retransmit_segments st r
      | AcknowledgeMsg f \<Rightarrow> ss_acknowledged_frames st f)"

section \<open>Frames to the upper layer\<close>

text \<open>
  One item is taken from the reassembler's channel: a frame is passed on, its retry record is
  removed and its ID is queued for acknowledgement (the queue is a ring buffer); a discarded frame
  is skipped. The result is \<open>None\<close> when the item is skipped or nothing is there.
\<close>

definition ack_force_push :: "session_config \<Rightarrow> frame_id list \<Rightarrow> frame_id \<Rightarrow> frame_id list" where
  "ack_force_push cfg q fid =
     (if length q < ack_capacity cfg then q @ [fid] else tl q @ [fid])"

definition ss_poll_frame ::
  "session_state \<Rightarrow> session_state \<times> (session_error, frame) result option" where
  "ss_poll_frame st =
     (let out = fr_out (ss_frame_reassembler st); k = ss_consumed st in
      if length out \<le> k then (st, None)
      else
        let st1 = st\<lparr>ss_consumed := k + 1\<rparr> in
        case out ! k of
          Inr f \<Rightarrow>
            (st1\<lparr>ss_incoming_frame_retries := om_remove (frm_id f) (ss_incoming_frame_retries st),
                 ss_to_acknowledge :=
                   (if AcknowledgeFrames \<in> set (cfg_enabled_features (ss_cfg st))
                    then ack_force_push (ss_cfg st) (ss_to_acknowledge st) (frm_id f)
                    else ss_to_acknowledge st)\<rparr>,
             Some (Ok f))
        | Inl (Fail (FrameDiscarded fid)) \<Rightarrow>
            (st1\<lparr>ss_incoming_frame_retries := om_remove fid (ss_incoming_frame_retries st)\<rparr>, None)
        | Inl (Fail (IncompleteFrame fid)) \<Rightarrow>
            (st1\<lparr>ss_incoming_frame_retries := om_remove fid (ss_incoming_frame_retries st)\<rparr>, None)
        | Inl e \<Rightarrow> (st1, Some (Inl e)))"

section \<open>Periodic actions\<close>

fun ss_filter_retries ::
  "session_state \<Rightarrow> (frame_id \<Rightarrow> nat \<Rightarrow> rat \<Rightarrow> nat \<Rightarrow> nat) \<Rightarrow> nat \<Rightarrow> frame_info list
     \<Rightarrow> session_state \<times> frame_info list" where
  "ss_filter_retries st delay now [] = (st, [])"
| "ss_filter_retries st delay now (info # infos) =
     (let fid = fi_frame_id info; cfg = ss_cfg st; retries = ss_incoming_frame_retries st in
      case om_get retries fid of
        Some rt \<Rightarrow>
          (case rt_check (delay fid) rt now (cfg_rto_base_receiver cfg)
                  (cfg_frame_expiration_age cfg) of
             RetryNow next_rto \<Rightarrow>
               (let (st', rest) = ss_filter_retries
                      (st\<lparr>ss_incoming_frame_retries := om_insert fid next_rto retries\<rparr>) delay now infos
                in (st', info # rest))
           | RetryExpired \<Rightarrow>
               ss_filter_retries
                 (st\<lparr>ss_incoming_frame_retries := om_remove fid retries\<rparr>) delay now infos
           | RetryWait _ \<Rightarrow> ss_filter_retries st delay now infos)
      | None \<Rightarrow>
          (let (st', rest) = ss_filter_retries
                 (st\<lparr>ss_incoming_frame_retries :=
                      om_insert fid (rt_new now (cfg_backoff_base cfg)) retries\<rparr>) delay now infos
           in (st', info # rest)))"

definition ss_request_missing_segments ::
  "nat \<Rightarrow> session_state \<Rightarrow> (frame_id \<Rightarrow> nat \<Rightarrow> rat \<Rightarrow> nat \<Rightarrow> nat) \<Rightarrow> nat \<Rightarrow> nat session_step" where
  "ss_request_missing_segments c st delay now =
     (let tracked_incomplete = fr_incomplete_frames (ss_frame_reassembler st);
          (st1, to_retry) = ss_filter_retries st delay now tracked_incomplete
      in if sr_max_entries c = 0 then (st1, Panicked)
         else
           let msgs = map (\<lambda>chunk. RequestMsg (sr_from_iter c chunk)) (chunks (sr_max_entries c) to_retry);
               (st2, res) = egress_send_all st1 msgs
           in (st2, map_res (\<lambda>_. length msgs) res))"

text \<open>
  \<open>acknowledge_segments\<close>: the queue is drained into as many messages as needed. One message takes
  IDs until it is full or the queue is empty; when a message cannot hold any ID (an MTU below 8)
  the outer loop makes no progress, so the loop is a partial function.
\<close>

fun ack_fill :: "nat \<Rightarrow> frame_acks \<Rightarrow> frame_id list \<Rightarrow> frame_acks \<times> frame_id list" where
  "ack_fill c acks [] = (acks, [])"
| "ack_fill c acks (fid # q) =
     (if fa_is_full c acks then (acks, fid # q) else ack_fill c (fst (fa_push c fid acks)) q)"

partial_function (option) ss_acknowledge_batches ::
  "nat \<Rightarrow> session_state \<Rightarrow> nat \<Rightarrow> nat session_step option" where
  "ss_acknowledge_batches c st len =
     (if ss_to_acknowledge st = [] then Some (st, Ok len)
      else
        (case ack_fill c [] (ss_to_acknowledge st) of (acks, q) \<Rightarrow>
          (case egress_send (st\<lparr>ss_to_acknowledge := q\<rparr>) (AcknowledgeMsg acks) of (st1, res) \<Rightarrow>
            (case res of
               Inl e \<Rightarrow> Some (st1, Inl e)
             | Inr _ \<Rightarrow>
                 ss_acknowledge_batches c st1
                   (len + (length (ss_to_acknowledge st) - length q))))))"

definition ss_acknowledge_segments :: "nat \<Rightarrow> session_state \<Rightarrow> nat session_step option" where
  "ss_acknowledge_segments c st = ss_acknowledge_batches c st 0"

text \<open>Whole frames that were not acknowledged in time are sent again from the lookbehind buffer.\<close>

definition ss_retained_resends ::
  "session_state \<Rightarrow> (frame_id \<Rightarrow> nat \<Rightarrow> rat \<Rightarrow> nat \<Rightarrow> nat) \<Rightarrow> nat
     \<Rightarrow> (frame_id, retry_token) omap \<times> frame_id list" where
  "ss_retained_resends st delay now =
     (let check = (\<lambda>fid rt. rt_check (delay fid) rt now (cfg_rto_base_sender (ss_cfg st))
                              (cfg_frame_expiration_age (ss_cfg st)));
          resends = ss_outgoing_frame_resends st
      in (List.map_filter (\<lambda>(fid, rt). case check fid rt of
              RetryWait _ \<Rightarrow> Some (fid, rt) | RetryNow next \<Rightarrow> Some (fid, next) | RetryExpired \<Rightarrow> None) resends,
          List.map_filter (\<lambda>(fid, rt). case check fid rt of
              RetryNow _ \<Rightarrow> Some fid | _ \<Rightarrow> None) resends))"

definition ss_retransmit_unacknowledged_frames ::
  "session_state \<Rightarrow> (frame_id \<Rightarrow> nat \<Rightarrow> rat \<Rightarrow> nat \<Rightarrow> nat) \<Rightarrow> nat \<Rightarrow> nat session_step" where
  "ss_retransmit_unacknowledged_frames st delay now =
     (if cfg_acknowledged_frames_buffer (ss_cfg st) = 0 then (st, Ok 0)
      else
        let (resends, frames_to_resend) = ss_retained_resends st delay now;
            st1 = st\<lparr>ss_outgoing_frame_resends := resends\<rparr>;
            msgs = concat (map (\<lambda>f. map (\<lambda>(_, s). SegmentMsg s)
                      (filter (\<lambda>(k, _). fst k = f) (ss_lookbehind st))) frames_to_resend);
            (st2, res) = egress_send_all st1 msgs
        in (st2, map_res (\<lambda>_. length msgs) res))"

section \<open>Sending a frame\<close>

definition lookbehind_insert ::
  "nat \<Rightarrow> segment \<Rightarrow> (segment_id, segment) omap \<Rightarrow> (segment_id, segment) omap" where
  "lookbehind_insert max_buffered s lb =
     (let lb1 = om_insert (segment_id s) s lb in drop (length lb1 - max_buffered) lb1)"

fun ss_send_segments :: "session_state \<Rightarrow> segment list \<Rightarrow> unit session_step" where
  "ss_send_segments st [] = (st, Ok ())"
| "ss_send_segments st (s # ss) =
     (case egress_send st (SegmentMsg s) of
        (st1, Inl e) \<Rightarrow> (st1, Inl e)
      | (st1, Inr _) \<Rightarrow>
          ss_send_segments
            (st1\<lparr>ss_lookbehind :=
                 lookbehind_insert (cfg_max_buffered_segments (ss_cfg st)) s (ss_lookbehind st1)\<rparr>) ss)"

definition ss_send_frame_data :: "nat \<Rightarrow> session_state \<Rightarrow> bytes \<Rightarrow> nat \<Rightarrow> unit session_step" where
  "ss_send_frame_data c st data now =
     (if \<not> (1 \<le> length data \<and> length data \<le> max_write_size c) then (st, Err (SessionProtocolError IncorrectMessageLength))
      else
        let fid = ss_outgoing_frame_id st; st0 = st\<lparr>ss_outgoing_frame_id := fid + 1\<rparr> in
        case map_fail SessionProtocolError (segment_into data (payload_capacity c) fid) of
          Inl e \<Rightarrow> (st0, Inl e)
        | Inr segments \<Rightarrow>
            (case ss_send_segments st0 segments of
               (st1, Inl e) \<Rightarrow> (st1, Inl e)
             | (st1, Inr _) \<Rightarrow>
                 (st1\<lparr>ss_outgoing_frame_resends :=
                      om_insert fid (rt_new now (cfg_backoff_base (ss_cfg st)))
                        (ss_outgoing_frame_resends st1)\<rparr>, Ok ())))"

text \<open>\<open>poll_write\<close> and \<open>poll_close\<close> of the socket.\<close>

definition ss_poll_write :: "nat \<Rightarrow> session_state \<Rightarrow> bytes \<Rightarrow> nat \<Rightarrow> nat session_step" where
  "ss_poll_write c st buf now =
     (let len_to_write = min (max_write_size c) (length buf) in
      if len_to_write = 0 then (st, Ok 0)
      else case ss_send_frame_data c st (take len_to_write buf) now of
             (st', res) \<Rightarrow> (st', map_res (\<lambda>_. len_to_write) res))"

definition ss_poll_close :: "session_state \<Rightarrow> session_state" where
  "ss_poll_close st = st\<lparr>ss_egress_closed := True\<rparr>"

section \<open>The state loop\<close>

text \<open>
  One iteration of the biased select: the first ready future in the order of the source runs, and an
  error ends the loop. The flags say which rate limiters let an action through. The result says
  whether the loop goes on; \<open>None\<close> means that the chosen action does not return.
\<close>

record loop_ready =
  rdy_receiver :: bool
  rdy_sender :: bool
  rdy_ack :: bool
  rdy_evict :: bool

definition ss_state_loop_step ::
  "nat \<Rightarrow> session_state \<Rightarrow> loop_ready \<Rightarrow> (frame_id \<Rightarrow> nat \<Rightarrow> rat \<Rightarrow> nat \<Rightarrow> nat) \<Rightarrow> nat \<Rightarrow> u64 \<Rightarrow> u64
     \<Rightarrow> nat session_step option" where
  "ss_state_loop_step c st rdy delay now now_ms em =
     (let enabled = (\<lambda>f. f \<in> set (cfg_enabled_features (ss_cfg st))) in
      if ss_egress_closed st then Some (st, Err (OtherError ''session writer has been closed''))
      else if enabled RequestIncompleteFrames \<and> rdy_receiver rdy then
        Some (ss_request_missing_segments c st delay now)
      else if enabled RetransmitFrames \<and> rdy_sender rdy then
        Some (ss_retransmit_unacknowledged_frames st delay now)
      else if enabled AcknowledgeFrames \<and> rdy_ack rdy then
        ss_acknowledge_segments c st
      else if rdy_evict rdy then
        map_option (\<lambda>res. case map_fail SessionProtocolError res of
            Inr (r, n) \<Rightarrow> (st\<lparr>ss_frame_reassembler := r\<rparr>, Ok n)
          | Inl e \<Rightarrow> (st, Inl e)) (fr_evict (ss_frame_reassembler st) now_ms em)
      else Some (st, Ok 0))"

section \<open>Frame rules of the helpers\<close>

lemma egress_send_simps [simp]:
  "\<not> ss_egress_closed st \<Longrightarrow> egress_send st m = (st\<lparr>ss_egress := ss_egress st @ [m]\<rparr>, Ok ())"
  by (simp add: egress_send_def)

lemma egress_send_all_simps [simp]:
  "\<not> ss_egress_closed st \<Longrightarrow> egress_send_all st ms = (st\<lparr>ss_egress := ss_egress st @ ms\<rparr>, Ok ())"
  by (simp add: egress_send_all_def)

lemma ss_acknowledge_loop_eq:
  "ss_acknowledge_loop st fids =
     st\<lparr>ss_outgoing_frame_resends := filter (\<lambda>e. fst e \<notin> set fids) (ss_outgoing_frame_resends st),
        ss_lookbehind := filter (\<lambda>e. fst (fst e) \<notin> set fids) (ss_lookbehind st)\<rparr>"
proof (induction fids arbitrary: st)
  case (Cons fid fids)
  have a: "filter (\<lambda>e. fst e \<notin> set fids) (om_remove fid m) = filter (\<lambda>e. fst e \<notin> set (fid # fids)) m"
    for m :: "(frame_id, retry_token) omap"
    by (auto simp: om_remove_def intro: filter_cong)
  have b: "filter (\<lambda>e. fst (fst e) \<notin> set fids) (om_retain (\<lambda>k _. fid \<noteq> fst k) m)
      = filter (\<lambda>e. fst (fst e) \<notin> set (fid # fids)) m" for m :: "(segment_id, segment) omap"
    by (auto simp: om_retain_def intro: filter_cong)
  show ?case by (simp only: ss_acknowledge_loop.simps Cons.IH) (simp add: a b)
qed simp

lemma ss_retransmit_loop_open:
  "\<not> ss_egress_closed st \<Longrightarrow>
   ss_retransmit_loop st sids =
     (st\<lparr>ss_outgoing_frame_resends := filter (\<lambda>e. fst e \<notin> fst ` set sids) (ss_outgoing_frame_resends st),
         ss_egress := ss_egress st @ map SegmentMsg (List.map_filter (om_get (ss_lookbehind st)) sids)\<rparr>,
      Ok ())"
proof (induction sids arbitrary: st)
  case (Cons sid sids)
  have a: "filter (\<lambda>e. fst e \<notin> fst ` set sids) (om_remove (fst sid) m)
      = filter (\<lambda>e. fst e \<notin> fst ` set (sid # sids)) m" for m :: "(frame_id, retry_token) omap"
    by (auto simp: om_remove_def intro: filter_cong)
  show ?case
  proof (cases "om_get (ss_lookbehind st) sid")
    case None
    with Cons show ?thesis
      by (simp add: Let_def a map_filter_simps del: set_simps)
  next
    case (Some s)
    with Cons show ?thesis
      by (simp add: Let_def a map_filter_simps del: set_simps)
  qed
qed (simp add: map_filter_simps)

section \<open>Requests and acknowledgements from the peer\<close>

text \<open>A retransmission request is answered with exactly the requested segments that the lookbehind
buffer still holds, in the order of the request, and the frames it names are no longer resent on the sender's
own initiative.\<close>
lemma retransmit_answers_request:
  assumes "\<not> ss_egress_closed st"
  shows "ss_retransmit_segments st req =
     (st\<lparr>ss_outgoing_frame_resends :=
           filter (\<lambda>e. fst e \<notin> fst ` set (sr_into_iter req)) (ss_outgoing_frame_resends st),
         ss_egress := ss_egress st @ map SegmentMsg
           (List.map_filter (om_get (ss_lookbehind st)) (sr_into_iter req))\<rparr>, Ok ())"
  using ss_retransmit_loop_open [OF assms] by (simp add: ss_retransmit_segments_def)

definition example_config :: session_config where
  "example_config = \<lparr>cfg_max_buffered_segments = 10, cfg_acknowledged_frames_buffer = 4,
     cfg_frame_expiration_age = 30, cfg_rto_base_receiver = 1, cfg_rto_base_sender = 2,
     cfg_backoff_base = 2, cfg_enabled_features = default_features\<rparr>"

definition example_session :: session_state where
  "example_session = \<lparr>ss_lookbehind = [], ss_to_acknowledge = [], ss_incoming_frame_retries = [],
     ss_outgoing_frame_resends = [], ss_outgoing_frame_id = 1, ss_frame_reassembler = fr_new 30,
     ss_consumed = 0, ss_cfg = example_config, ss_egress = [], ss_egress_closed = False\<rparr>"

lemma example_session_new: "ss_new 466 example_config 30 = Ok example_session"
  by (simp add: ss_new_def example_session_def size_defs)

lemma retransmit_answers_request_witness:
  "ss_egress (fst (ss_retransmit_segments
     (example_session\<lparr>ss_lookbehind := [((1, 0), \<lparr>seg_frame_id = 1, seg_seq_idx = 0,
        seg_seq_len = 1, seg_data = [5]\<rparr>)]\<rparr>) [(1, 1)]))
   = [SegmentMsg \<lparr>seg_frame_id = 1, seg_seq_idx = 0, seg_seq_len = 1, seg_data = [5]\<rparr>]"
proof -
  have "\<not> ss_egress_closed (example_session\<lparr>ss_lookbehind := [((1, 0), \<lparr>seg_frame_id = 1,
        seg_seq_idx = 0, seg_seq_len = 1, seg_data = [5]\<rparr>)]\<rparr>)" by (simp add: example_session_def)
  moreover have "sr_into_iter [(1, 1)] = [(1, 0)]" by code_simp
  ultimately show ?thesis
    by (simp add: retransmit_answers_request example_session_def map_filter_simps)
qed

text \<open>An acknowledgement drops every segment of the acknowledged frames from the lookbehind buffer and
their resend tokens, keeps everything of the other frames, and changes nothing else.\<close>
lemma acknowledgement_clears_frames:
  "ss_acknowledged_frames st acked =
     (st\<lparr>ss_outgoing_frame_resends := filter (\<lambda>e. fst e \<notin> set acked) (ss_outgoing_frame_resends st),
         ss_lookbehind := filter (\<lambda>e. fst (fst e) \<notin> set acked) (ss_lookbehind st)\<rparr>, Ok ())"
  by (simp add: ss_acknowledged_frames_def ss_acknowledge_loop_eq)

section \<open>Sending acknowledgements\<close>

lemma ack_fill_spec:
  assumes "fa_valid c acks" and "\<forall>f \<in> set q. 0 < f" and "ack_fill c acks q = (acks', q')"
  shows "fa_valid c acks' \<and> length q' \<le> length q \<and> set acks' \<union> set q' = set acks \<union> set q
     \<and> set q' \<subseteq> set q \<and> (q \<noteq> [] \<and> \<not> fa_is_full c acks \<longrightarrow> length q' < length q)"
  using assms
proof (induction c acks q rule: ack_fill.induct)
  case (2 c acks fid q)
  show ?case
  proof (cases "fa_is_full c acks")
    case False
    let ?a = "fst (fa_push c fid acks)"
    have v: "fa_valid c ?a" using 2 by (intro fa_push_valid) auto
    have s: "set ?a = insert fid (set acks)"
      using False by (auto simp: fa_push_def set_insort_key)
    have r: "ack_fill c ?a q = (acks', q')" using False 2 by simp
    from "2.IH" [OF False v _ r] 2 s show ?thesis by auto
  qed (use 2 in auto)
qed auto

lemma ack_batches_spec:
  assumes "8 \<le> c" and "\<not> ss_egress_closed st" and "\<forall>f \<in> set (ss_to_acknowledge st). 0 < f"
  shows "\<exists>batches. ss_acknowledge_batches c st n =
       Some (st\<lparr>ss_to_acknowledge := [], ss_egress := ss_egress st @ map AcknowledgeMsg batches\<rparr>,
             Ok (n + length (ss_to_acknowledge st)))
     \<and> (\<forall>b \<in> set batches. fa_valid c b) \<and> (\<Union>b \<in> set batches. set b) = set (ss_to_acknowledge st)"
  using assms(2,3)
proof (induction "length (ss_to_acknowledge st)" arbitrary: st n rule: less_induct)
  case less
  show ?case
  proof (cases "ss_to_acknowledge st = []")
    case True
    then show ?thesis
      by (subst ss_acknowledge_batches.simps) (auto intro!: exI [of _ "[]"])
  next
    case False
    obtain acks q where fill: "ack_fill c [] (ss_to_acknowledge st) = (acks, q)" by fastforce
    have "fa_valid c []" "\<not> fa_is_full c []"
      using assms(1) by (simp_all add: fa_valid_def fa_is_full_def size_defs)
    from ack_fill_spec [OF this(1) less.prems(2) fill] False this(2)
    have acks: "fa_valid c acks" "set acks \<union> set q = set (ss_to_acknowledge st)"
      "set q \<subseteq> set (ss_to_acknowledge st)" and lt: "length q < length (ss_to_acknowledge st)" by auto
    let ?st1 = "st\<lparr>ss_to_acknowledge := q, ss_egress := ss_egress st @ [AcknowledgeMsg acks]\<rparr>"
    have "ss_acknowledge_batches c st n
        = ss_acknowledge_batches c ?st1 (n + (length (ss_to_acknowledge st) - length q))"
      using False fill less.prems(1) by (subst ss_acknowledge_batches.simps) simp
    moreover have "\<exists>batches. ss_acknowledge_batches c ?st1 (n + (length (ss_to_acknowledge st) - length q)) =
       Some (?st1\<lparr>ss_to_acknowledge := [], ss_egress := ss_egress ?st1 @ map AcknowledgeMsg batches\<rparr>,
             Ok (n + (length (ss_to_acknowledge st) - length q) + length (ss_to_acknowledge ?st1)))
     \<and> (\<forall>b \<in> set batches. fa_valid c b) \<and> (\<Union>b \<in> set batches. set b) = set (ss_to_acknowledge ?st1)"
      using lt less.prems acks(3) by (intro less.hyps) auto
    then obtain batches where
      "ss_acknowledge_batches c ?st1 (n + (length (ss_to_acknowledge st) - length q)) =
         Some (st\<lparr>ss_to_acknowledge := [], ss_egress := ss_egress st @ map AcknowledgeMsg (acks # batches)\<rparr>,
             Ok (n + length (ss_to_acknowledge st)))"
      and "\<forall>b \<in> set batches. fa_valid c b" "(\<Union>b \<in> set batches. set b) = set q"
      using lt by auto
    ultimately show ?thesis using acks by (intro exI [of _ "acks # batches"]) auto
  qed
qed

text \<open>Sending acknowledgements terminates (with an MTU that holds at least one ID), reports how many
IDs were queued, empties the queue, and sends well-formed acknowledgement messages that together carry exactly
the queued frame IDs.\<close>
lemma acknowledge_segments_drains:
  assumes "8 \<le> c" and "\<not> ss_egress_closed st" and "\<forall>f \<in> set (ss_to_acknowledge st). 0 < f"
  shows "\<exists>batches. ss_acknowledge_segments c st =
       Some (st\<lparr>ss_to_acknowledge := [], ss_egress := ss_egress st @ map AcknowledgeMsg batches\<rparr>,
             Ok (length (ss_to_acknowledge st)))
     \<and> (\<forall>b \<in> set batches. fa_valid c b) \<and> (\<Union>b \<in> set batches. set b) = set (ss_to_acknowledge st)"
  using ack_batches_spec [OF assms, of 0] by (simp add: ss_acknowledge_segments_def)

lemma acknowledge_segments_drains_witness:
  "\<exists>batches. (\<Union>b \<in> set batches. set b) = {3, 5 :: frame_id} \<and>
     (\<exists>st. ss_acknowledge_segments 466 (example_session\<lparr>ss_to_acknowledge := [3, 5, 3]\<rparr>) = Some (st, Ok 3)
       \<and> ss_egress st = map AcknowledgeMsg batches)"
proof -
  have "(8 :: nat) \<le> 466" "\<not> ss_egress_closed (example_session\<lparr>ss_to_acknowledge := [3, 5, 3]\<rparr>)"
    "\<forall>f \<in> set (ss_to_acknowledge (example_session\<lparr>ss_to_acknowledge := [3, 5, 3]\<rparr>)). 0 < f"
    by (simp_all add: example_session_def)
  from acknowledge_segments_drains [OF this] obtain batches where
    "ss_acknowledge_segments 466 (example_session\<lparr>ss_to_acknowledge := [3, 5, 3]\<rparr>) =
       Some (example_session\<lparr>ss_egress := map AcknowledgeMsg batches\<rparr>, Ok 3)"
    "(\<Union>b \<in> set batches. set b) = {3, 5, 3}"
    by (auto simp: example_session_def)
  then show ?thesis by (intro exI [of _ batches]) auto
qed

section \<open>The socket as a state machine\<close>

text \<open>
  The steps of a socket: a write of the application, a message of the peer, a read of the
  application, an action of the state loop, and closing.
\<close>

inductive ss_step :: "nat \<Rightarrow> session_state \<Rightarrow> session_state \<Rightarrow> bool" for c :: nat where
  ss_step_write: "ss_poll_write c st buf now = (st', res) \<Longrightarrow> ss_step c st st'"
| ss_step_receive: "ss_start_send st item ts em now = (st', res) \<Longrightarrow> ss_step c st st'"
| ss_step_read: "ss_poll_frame st = (st', res') \<Longrightarrow> ss_step c st st'"
| ss_step_loop: "ss_state_loop_step c st rdy delay now now_ms em = Some (st', res'') \<Longrightarrow> ss_step c st st'"
| ss_step_close: "ss_step c st (ss_poll_close st)"

definition ss_init :: "nat \<Rightarrow> session_state \<Rightarrow> bool" where
  "ss_init c st \<longleftrightarrow> ss_new c (ss_cfg st) (fr_max_age (ss_frame_reassembler st)) = Ok st"

text \<open>
  What every step does to the lookbehind buffer, the channel to the lower layer and the frame
  counter. \<open>ss_effect st st' new\<close> says that the step sent \<open>new\<close>, that each segment it sent was in the
  buffer before or belongs to the frame that was just numbered, and so does every segment in the
  buffer afterwards.
\<close>

definition lb_ok :: "nat \<Rightarrow> (segment_id, segment) omap \<Rightarrow> bool" where
  "lb_ok n lb \<longleftrightarrow> om_ok lb \<and> length lb \<le> n \<and> (\<forall>(k, s) \<in> set lb. k = segment_id s)"

definition ss_inv :: "session_state \<Rightarrow> bool" where
  "ss_inv st \<longleftrightarrow>
     lb_ok (cfg_max_buffered_segments (ss_cfg st)) (ss_lookbehind st)
     \<and> om_ok (ss_incoming_frame_retries st) \<and> om_ok (ss_outgoing_frame_resends st)
     \<and> length (ss_to_acknowledge st) \<le> ack_capacity (ss_cfg st)"

definition ss_effect :: "session_state \<Rightarrow> session_state \<Rightarrow> bool" where
  "ss_effect st st' \<longleftrightarrow>
     ss_cfg st' = ss_cfg st
     \<and> (ss_outgoing_frame_id st' = ss_outgoing_frame_id st
        \<or> ss_outgoing_frame_id st' = ss_outgoing_frame_id st + 1)
     \<and> (\<exists>new. ss_egress st' = ss_egress st @ new
          \<and> (\<forall>s. SegmentMsg s \<in> set new \<longrightarrow>
               s \<in> snd ` set (ss_lookbehind st)
               \<or> ss_outgoing_frame_id st' = ss_outgoing_frame_id st + 1 \<and> seg_frame_id s = ss_outgoing_frame_id st))
     \<and> (\<forall>s \<in> snd ` set (ss_lookbehind st').
          s \<in> snd ` set (ss_lookbehind st)
          \<or> ss_outgoing_frame_id st' = ss_outgoing_frame_id st + 1 \<and> seg_frame_id s = ss_outgoing_frame_id st)"

lemma om_ok_drop [simp, intro]: "om_ok m \<Longrightarrow> om_ok (drop n m)"
  unfolding om_ok_def by (simp add: drop_map [symmetric] sorted_wrt_drop)

lemma lb_ok_filter: "lb_ok n lb \<Longrightarrow> lb_ok n (filter p lb)"
  by (auto simp: lb_ok_def intro: order_trans [OF length_filter_le])

lemma lb_ok_insert:
  assumes "lb_ok n lb"
  shows "lb_ok n (lookbehind_insert n s lb)"
    and "snd ` set (lookbehind_insert n s lb) \<subseteq> insert s (snd ` set lb)"
  using assms
  by (auto simp: lb_ok_def lookbehind_insert_def Let_def set_om_insert dest!: in_set_dropD split: if_splits)

lemma om_ok_map_filter:
  assumes "om_ok m" and "\<And>k v k' v'. f (k, v) = Some (k', v') \<Longrightarrow> k' = k"
  shows "om_ok (List.map_filter f m) \<and> fst ` set (List.map_filter f m) \<subseteq> fst ` set m"
  using assms(1)
proof (induction m)
  case (Cons e m)
  obtain k v where e: "e = (k, v)" by (cases e)
  from Cons have "om_ok m" by (simp add: e om_ok_Cons)
  with Cons.IH have IH: "om_ok (List.map_filter f m)"
    "fst ` set (List.map_filter f m) \<subseteq> fst ` set m" by auto
  show ?case
  proof (cases "f (k, v)")
    case None
    with IH show ?thesis by (auto simp: e map_filter_simps)
  next
    case (Some p)
    then obtain v' where "f (k, v) = Some (k, v')" using assms(2) by (cases p) blast
    moreover have "\<forall>x \<in> fst ` set (List.map_filter f m). k < x"
      using IH(2) Cons.prems by (auto simp only: e om_ok_Cons dest: subsetD)
    ultimately show ?thesis using IH by (auto simp: e map_filter_simps om_ok_Cons)
  qed
qed (simp add: map_filter_simps)

text \<open>Sending the segments of one frame.\<close>

lemma ss_send_segments_keeps:
  "ss_send_segments st segs = (st', res) \<Longrightarrow>
   lb_ok (cfg_max_buffered_segments (ss_cfg st)) (ss_lookbehind st) \<Longrightarrow>
   \<exists>sent lb. st' = st\<lparr>ss_lookbehind := lb, ss_egress := ss_egress st @ map SegmentMsg sent\<rparr>
     \<and> set sent \<subseteq> set segs
     \<and> lb_ok (cfg_max_buffered_segments (ss_cfg st)) lb
     \<and> snd ` set lb \<subseteq> snd ` set (ss_lookbehind st) \<union> set segs
     \<and> (res = Ok () \<longrightarrow> sent = segs)"
proof (induction segs arbitrary: st)
  case Nil
  then show ?case by (intro exI [of _ "[]"] exI [of _ "ss_lookbehind st"]) auto
next
  case (Cons s segs)
  show ?case
  proof (cases "ss_egress_closed st")
    case True
    with Cons.prems show ?thesis
      by (intro exI [of _ "[]"] exI [of _ "ss_lookbehind st"]) (auto simp: egress_send_def)
  next
    case False
    let ?lb = "lookbehind_insert (cfg_max_buffered_segments (ss_cfg st)) s (ss_lookbehind st)"
    let ?st = "st\<lparr>ss_egress := ss_egress st @ [SegmentMsg s], ss_lookbehind := ?lb\<rparr>"
    have "ss_send_segments ?st segs = (st', res)" using False Cons.prems(1) by simp
    from Cons.IH [OF this] obtain sent lb where
      "st' = ?st\<lparr>ss_lookbehind := lb, ss_egress := ss_egress ?st @ map SegmentMsg sent\<rparr>"
      "set sent \<subseteq> set segs" "lb_ok (cfg_max_buffered_segments (ss_cfg st)) lb"
      "snd ` set lb \<subseteq> snd ` set ?lb \<union> set segs" "res = Ok () \<longrightarrow> sent = segs"
      using lb_ok_insert(1) [OF Cons.prems(2)] by auto
    moreover from this(4) have "snd ` set lb \<subseteq> snd ` set (ss_lookbehind st) \<union> set (s # segs)"
      using lb_ok_insert(2) [OF Cons.prems(2), of s] by (auto dest!: subsetD)
    ultimately show ?thesis
      by (intro exI [of _ "s # sent"] exI [of _ lb]) (auto simp del: set_append)
  qed
qed

lemma segment_frame_id: "segment_into data mss fid = Ok segs \<Longrightarrow> s \<in> set segs \<Longrightarrow> seg_frame_id s = fid"
  using segment_Ok(4) by fastforce

text \<open>A step that keeps the invariant and has a proper effect.\<close>

definition ss_keeps :: "session_state \<Rightarrow> session_state \<Rightarrow> bool" where
  "ss_keeps st st' \<longleftrightarrow> ss_effect st st' \<and> ss_inv st'"

lemma ss_keeps_refl: "ss_inv st \<Longrightarrow> ss_keeps st st"
  by (simp add: ss_keeps_def ss_effect_def)

lemma ss_send_frame_keeps:
  assumes "ss_send_frame_data c st data now = (st', res)" and inv: "ss_inv st"
  shows "ss_keeps st st'"
proof -
  let ?st0 = "st\<lparr>ss_outgoing_frame_id := ss_outgoing_frame_id st + 1\<rparr>"
  consider "st' = st" | "st' = ?st0"
    | (sent) segs st1 r where "segment_into data (payload_capacity c) (ss_outgoing_frame_id st) = Ok segs"
        "ss_send_segments ?st0 segs = (st1, r)"
        "st' = st1 \<or> (\<exists>t. st' = st1\<lparr>ss_outgoing_frame_resends :=
             om_insert (ss_outgoing_frame_id st) t (ss_outgoing_frame_resends st1)\<rparr>)"
    using assms(1)
    by (auto simp: ss_send_frame_data_def Let_def map_fail_Inr_iff split: if_splits sum.splits prod.splits)
  then show ?thesis
  proof cases
    case sent
    have "lb_ok (cfg_max_buffered_segments (ss_cfg ?st0)) (ss_lookbehind ?st0)"
      using inv by (simp add: ss_inv_def)
    from ss_send_segments_keeps [OF sent(2) this] obtain ss lb where
      st1: "st1 = ?st0\<lparr>ss_lookbehind := lb, ss_egress := ss_egress st @ map SegmentMsg ss\<rparr>"
      and ss: "set ss \<subseteq> set segs" "lb_ok (cfg_max_buffered_segments (ss_cfg st)) lb"
      "snd ` set lb \<subseteq> snd ` set (ss_lookbehind st) \<union> set segs" by auto
    have fid: "\<forall>s \<in> set segs. seg_frame_id s = ss_outgoing_frame_id st"
      using segment_frame_id [OF sent(1)] by blast
    have "ss_effect st st1"
      using fid ss by (auto simp: ss_effect_def st1)
    moreover have "ss_inv st1" using inv ss by (simp add: ss_inv_def st1)
    ultimately have "ss_keeps st st1" by (simp add: ss_keeps_def)
    with sent(3) show ?thesis by (auto simp: ss_keeps_def ss_effect_def ss_inv_def)
  qed (use inv in \<open>auto simp: ss_keeps_def ss_effect_def ss_inv_def\<close>)
qed

lemma ss_poll_write_keeps:
  "ss_poll_write c st buf now = (st', res) \<Longrightarrow> ss_inv st \<Longrightarrow> ss_keeps st st'"
  by (auto simp: ss_poll_write_def Let_def ss_keeps_refl split: if_splits prod.splits
      intro: ss_send_frame_keeps)

lemma ss_retransmit_loop_keeps:
  "ss_retransmit_loop st sids = (st', res) \<Longrightarrow>
   \<exists>toks ss. st' = st\<lparr>ss_outgoing_frame_resends := toks, ss_egress := ss_egress st @ map SegmentMsg ss\<rparr>
      \<and> set ss \<subseteq> snd ` set (ss_lookbehind st) \<and> (om_ok (ss_outgoing_frame_resends st) \<longrightarrow> om_ok toks)"
proof (induction sids arbitrary: st)
  case Nil
  then show ?case
    by (intro exI [of _ "ss_outgoing_frame_resends st"] exI [of _ "[]"]) auto
next
  case (Cons sid sids)
  let ?t = "om_remove (fst sid) (ss_outgoing_frame_resends st)"
  consider (stop) "st' = st\<lparr>ss_outgoing_frame_resends := ?t\<rparr>"
    | (skip) "ss_retransmit_loop (st\<lparr>ss_outgoing_frame_resends := ?t\<rparr>) sids = (st', res)"
    | (go) s where "om_get (ss_lookbehind st) sid = Some s"
        "ss_retransmit_loop (st\<lparr>ss_outgoing_frame_resends := ?t, ss_egress := ss_egress st @ [SegmentMsg s]\<rparr>) sids
           = (st', res)"
    using Cons.prems by (auto simp: Let_def egress_send_def split: option.splits if_splits)
  then show ?case
  proof cases
    case stop
    then show ?thesis by (intro exI [of _ ?t] exI [of _ "[]"]) auto
  next
    case skip
    from Cons.IH [OF this] show ?thesis by auto
  next
    case go
    then have "s \<in> snd ` set (ss_lookbehind st)" by (force dest: map_of_SomeD)
    moreover from Cons.IH [OF go(2)] obtain toks ss where
      "st' = st\<lparr>ss_outgoing_frame_resends := toks, ss_egress := ss_egress st @ map SegmentMsg (s # ss)\<rparr>"
      "set ss \<subseteq> snd ` set (ss_lookbehind st)" "om_ok (ss_outgoing_frame_resends st) \<longrightarrow> om_ok toks"
      by auto
    ultimately show ?thesis by (intro exI [of _ toks] exI [of _ "s # ss"]) auto
  qed
qed

lemma ss_start_send_keeps:
  assumes "ss_start_send st item ts em now = (st', res)" and inv: "ss_inv st"
  shows "ss_keeps st st'"
proof (cases item)
  case (SegmentMsg s)
  with assms show ?thesis
    by (auto simp: ss_start_send_def ss_consume_segment_def Let_def ss_keeps_def ss_effect_def ss_inv_def
        split: sum.splits failure.splits)
next
  case (RequestMsg r)
  then have "ss_retransmit_loop st (sr_into_iter r) = (st', res)"
    using assms(1) by (simp add: ss_start_send_def ss_retransmit_segments_def)
  from ss_retransmit_loop_keeps [OF this] inv show ?thesis
    by (auto simp: ss_keeps_def ss_effect_def ss_inv_def)
next
  case (AcknowledgeMsg f)
  then have "st' = ss_acknowledge_loop st f"
    using assms(1) by (simp add: ss_start_send_def ss_acknowledged_frames_def)
  then show ?thesis using inv lb_ok_filter
    by (force simp: ss_acknowledge_loop_eq ss_keeps_def ss_effect_def ss_inv_def)
qed

lemma ack_force_push_length:
  "length q \<le> ack_capacity cfg \<Longrightarrow> length (ack_force_push cfg q fid) \<le> ack_capacity cfg"
  by (auto simp: ack_force_push_def ack_capacity_def)

lemma ss_poll_frame_keeps:
  assumes "ss_poll_frame st = (st', res)" and "ss_inv st"
  shows "ss_keeps st st'"
  using assms ack_force_push_length
  by (auto simp: ss_poll_frame_def Let_def ss_keeps_def ss_effect_def ss_inv_def
      split: if_splits sum.splits failure.splits session_error.splits)

lemma ss_filter_retries_keeps:
  "ss_filter_retries st delay now infos = (st', out) \<Longrightarrow>
   \<exists>r. st' = st\<lparr>ss_incoming_frame_retries := r\<rparr>
     \<and> (om_ok (ss_incoming_frame_retries st) \<longrightarrow> om_ok r) \<and> set out \<subseteq> set infos"
proof (induction infos arbitrary: st out)
  case Nil
  then show ?case by (intro exI [of _ "ss_incoming_frame_retries st"]) auto
next
  case (Cons info infos)
  obtain r0 out0 where *: "ss_filter_retries (st\<lparr>ss_incoming_frame_retries := r0\<rparr>) delay now infos = (st', out0)"
    "om_ok (ss_incoming_frame_retries st) \<longrightarrow> om_ok r0" "out = out0 \<or> out = info # out0"
  proof (cases "om_get (ss_incoming_frame_retries st) (fi_frame_id info)")
    case None
    with Cons.prems that show thesis by (fastforce simp: Let_def split: prod.splits)
  next
    case (Some rt)
    show thesis
    proof (cases "rt_check (delay (fi_frame_id info)) rt now (cfg_rto_base_receiver (ss_cfg st))
        (cfg_frame_expiration_age (ss_cfg st))")
      case (RetryWait x1)
      with Some Cons.prems that [of "ss_incoming_frame_retries st"] show thesis by (simp add: Let_def)
    next
      case (RetryNow x2)
      with Some Cons.prems that show thesis by (fastforce simp: Let_def split: prod.splits)
    next
      case RetryExpired
      with Some Cons.prems that show thesis by (fastforce simp: Let_def)
    qed
  qed
  from Cons.IH [OF *(1)] obtain r where "st' = st\<lparr>ss_incoming_frame_retries := r\<rparr>"
    "om_ok r0 \<longrightarrow> om_ok r" "set out0 \<subseteq> set infos" by auto
  with *(2,3) show ?case by (intro exI [of _ r]) auto
qed

lemma ss_request_keeps:
  assumes "ss_request_missing_segments c st delay now = (st', res)" and "ss_inv st"
  shows "ss_keeps st st'"
proof -
  obtain st1 out where f: "ss_filter_retries st delay now (fr_incomplete_frames (ss_frame_reassembler st)) = (st1, out)"
    by fastforce
  from ss_filter_retries_keeps [OF this] obtain r where st1: "st1 = st\<lparr>ss_incoming_frame_retries := r\<rparr>"
    and r: "om_ok (ss_incoming_frame_retries st) \<longrightarrow> om_ok r" by blast
  show ?thesis using assms r
    by (auto simp: ss_request_missing_segments_def Let_def f st1 egress_send_all_def ss_keeps_def
        ss_effect_def ss_inv_def split: if_splits)
qed

lemma ack_fill_length: "ack_fill c acks q = (acks', q') \<Longrightarrow> length q' \<le> length q"
  by (induction c acks q rule: ack_fill.induct) (auto split: if_splits)

lemma ss_acknowledge_batches_keeps:
  assumes "ss_acknowledge_batches c st n = Some y"
  shows "\<exists>q acks. fst y = st\<lparr>ss_to_acknowledge := q, ss_egress := ss_egress st @ map AcknowledgeMsg acks\<rparr>
     \<and> length q \<le> length (ss_to_acknowledge st)"
proof (rule ss_acknowledge_batches.raw_induct [OF _ assms], goal_cases)
  case (1 self c st n y)
  show ?case
  proof (cases "ss_to_acknowledge st = []")
    case True
    with 1(2) show ?thesis by (intro exI [of _ "[]"]) auto
  next
    case False
    obtain acks q where f: "ack_fill c [] (ss_to_acknowledge st) = (acks, q)" by fastforce
    note le = ack_fill_length [OF f]
    show ?thesis
    proof (cases "ss_egress_closed st")
      case True
      with False 1(2) f le show ?thesis
        by (intro exI [of _ q] exI [of _ "[]"]) (auto simp: egress_send_def)
    next
      case False_open: False
      with \<open>ss_to_acknowledge st \<noteq> []\<close> 1(2) f have "self c (st\<lparr>ss_to_acknowledge := q, ss_egress := ss_egress st @ [AcknowledgeMsg acks]\<rparr>)
          (n + (length (ss_to_acknowledge st) - length q)) = Some y" by simp
      from 1(1) [OF this] obtain q' as where
        "fst y = st\<lparr>ss_to_acknowledge := q', ss_egress := ss_egress st @ map AcknowledgeMsg (acks # as)\<rparr>"
        "length q' \<le> length q" by auto
      with le show ?thesis by (intro exI [of _ q'] exI [of _ "acks # as"]) auto
    qed
  qed
qed

lemma ss_resend_keeps:
  assumes "ss_retransmit_unacknowledged_frames st delay now = (st', res)" and inv: "ss_inv st"
  shows "ss_keeps st st'"
proof (cases "cfg_acknowledged_frames_buffer (ss_cfg st) = 0")
  case True
  with assms show ?thesis
    by (simp add: ss_retransmit_unacknowledged_frames_def ss_keeps_refl)
next
  case False
  obtain toks fids where r: "ss_retained_resends st delay now = (toks, fids)" by fastforce
  let ?f = "\<lambda>(fid, rt). case rt_check (delay fid) rt now (cfg_rto_base_sender (ss_cfg st))
            (cfg_frame_expiration_age (ss_cfg st)) of
              RetryWait _ \<Rightarrow> Some (fid, rt) | RetryNow next \<Rightarrow> Some (fid, next) | RetryExpired \<Rightarrow> None"
  have "toks = List.map_filter ?f (ss_outgoing_frame_resends st)"
    using r by (simp add: ss_retained_resends_def Let_def)
  moreover have "om_ok (List.map_filter ?f (ss_outgoing_frame_resends st))
     \<and> fst ` set (List.map_filter ?f (ss_outgoing_frame_resends st)) \<subseteq> fst ` set (ss_outgoing_frame_resends st)"
    using inv by (intro om_ok_map_filter) (auto simp: ss_inv_def split: retry_result.splits)
  ultimately have ok: "om_ok toks" by simp
  define msgs where "msgs = concat (map (\<lambda>f. map (\<lambda>(_, s). SegmentMsg s)
                      (filter (\<lambda>(k, _). fst k = f) (ss_lookbehind st))) fids)"
  have m: "SegmentMsg s \<in> set msgs \<Longrightarrow> s \<in> snd ` set (ss_lookbehind st)" for s
    by (force simp: msgs_def)
  have "st' = st\<lparr>ss_outgoing_frame_resends := toks\<rparr> \<or>
      st' = st\<lparr>ss_outgoing_frame_resends := toks, ss_egress := ss_egress st @ msgs\<rparr>"
    using assms(1) False r
    by (auto simp: ss_retransmit_unacknowledged_frames_def Let_def egress_send_all_def msgs_def
        split: if_splits)
  with m ok inv show ?thesis by (auto simp: ss_keeps_def ss_effect_def ss_inv_def)
qed

lemma ss_loop_keeps:
  assumes "ss_state_loop_step c st rdy delay now now_ms em = Some (st', res)" and inv: "ss_inv st"
  shows "ss_keeps st st'"
proof -
  consider "st' = st" | "ss_request_missing_segments c st delay now = (st', res)"
    | "ss_retransmit_unacknowledged_frames st delay now = (st', res)"
    | "ss_acknowledge_batches c st 0 = Some (st', res)"
    | r where "st' = st\<lparr>ss_frame_reassembler := r\<rparr>"
    using assms(1)
    by (auto simp: ss_state_loop_step_def Let_def ss_acknowledge_segments_def split: if_splits)
       (auto split: sum.splits)
  then show ?thesis
  proof cases
    case 4
    from ss_acknowledge_batches_keeps [OF this] inv show ?thesis
      by (auto simp: ss_keeps_def ss_effect_def ss_inv_def)
  qed (use inv in \<open>auto simp: ss_keeps_refl ss_request_keeps ss_resend_keeps\<close>,
       auto simp: ss_keeps_def ss_effect_def ss_inv_def)
qed

lemma ss_step_keeps: "ss_step c st st' \<Longrightarrow> ss_inv st \<Longrightarrow> ss_keeps st st'"
proof (induction rule: ss_step.induct)
  case (ss_step_close st)
  then show ?case by (auto simp: ss_poll_close_def ss_keeps_def ss_effect_def ss_inv_def)
qed (auto intro: ss_poll_write_keeps ss_start_send_keeps ss_poll_frame_keeps ss_loop_keeps)

lemma ss_new_inv: "ss_new c cfg a = Ok st \<Longrightarrow> ss_inv st"
  by (auto simp: ss_new_def ss_inv_def lb_ok_def ack_capacity_def split: if_splits)

lemma ss_inv_init: "ss_init c st \<Longrightarrow> ss_inv st"
  unfolding ss_init_def by (rule ss_new_inv)


interpretation ss_sys: inductive_invariant "ss_init c" "ss_step c" ss_inv for c
  by unfold_locales (auto intro: ss_inv_init dest: ss_step_keeps simp: ss_keeps_def)

text \<open>C40: in every state a socket can reach, the lookbehind buffer holds at most the configured number of
segments, each under its own ID, and the queue of frame IDs to acknowledge never outgrows its ring buffer.\<close>
theorem session_buffers_bounded:
  assumes "reachable (ss_init c) (ss_step c) st"
  shows "length (ss_lookbehind st) \<le> cfg_max_buffered_segments (ss_cfg st)
     \<and> length (ss_to_acknowledge st) \<le> max (cfg_acknowledged_frames_buffer (ss_cfg st)) 1
     \<and> (\<forall>k s. om_get (ss_lookbehind st) k = Some s \<longrightarrow> k = (seg_frame_id s, seg_seq_idx s))
     \<and> distinct (map fst (ss_lookbehind st))"
  using ss_sys.inv_reachable [OF assms]
  by (auto simp: ss_inv_def lb_ok_def ack_capacity_def segment_id_def om_ok_distinct dest!: map_of_SomeD)

theorem session_buffers_bounded_witness:
  "length (ss_lookbehind (fst (ss_poll_write 466 example_session [1, 2, 3] 5))) \<le> 10"
proof -
  have "ss_init 466 example_session"
    using example_session_new by (simp add: ss_init_def example_session_def fr_new_def)
  then have "reachable (ss_init 466) (ss_step 466) example_session" by (rule reachable_init)
  moreover have "ss_step 466 example_session (fst (ss_poll_write 466 example_session [1, 2, 3] 5))"
    by (rule ss_step_write) (rule prod.collapse [symmetric])
  ultimately have r: "reachable (ss_init 466) (ss_step 466) (fst (ss_poll_write 466 example_session [1, 2, 3] 5))"
    by (rule reachable_step)
  have "cfg_max_buffered_segments (ss_cfg (fst (ss_poll_write 466 example_session [1, 2, 3] 5))) = 10"
    by code_simp
  with session_buffers_bounded [OF r] show ?thesis by simp
qed

section \<open>Acknowledged frames are not sent again\<close>

text \<open>
  The steps in which the 32-bit frame counter does not wrap (after a wrap an ID names a new frame).
\<close>

definition ss_step_nowrap :: "nat \<Rightarrow> session_state \<Rightarrow> session_state \<Rightarrow> bool" where
  "ss_step_nowrap c st st' \<longleftrightarrow> ss_step c st st' \<and> ss_outgoing_frame_id st \<le> ss_outgoing_frame_id st'"

fun is_segment_of :: "frame_id \<Rightarrow> session_message \<Rightarrow> bool" where
  "is_segment_of fid (SegmentMsg s) = (seg_frame_id s = fid)"
| "is_segment_of fid _ = False"

definition ss_quiet :: "frame_id \<Rightarrow> session_message list \<Rightarrow> session_state \<Rightarrow> bool" where
  "ss_quiet fid old st \<longleftrightarrow> ss_inv st \<and> fid < ss_outgoing_frame_id st
     \<and> (\<forall>s \<in> snd ` set (ss_lookbehind st). seg_frame_id s \<noteq> fid)
     \<and> filter (is_segment_of fid) (ss_egress st) = old"

lemma ss_quiet_step:
  assumes "ss_step_nowrap c st st'" and q: "ss_quiet fid old st"
  shows "ss_quiet fid old st'"
proof -
  have le: "ss_outgoing_frame_id st \<le> ss_outgoing_frame_id st'"
    and k: "ss_effect st st'" "ss_inv st'"
    using assms ss_step_keeps by (auto simp: ss_step_nowrap_def ss_quiet_def ss_keeps_def)
  from k(1) obtain new where new: "ss_egress st' = ss_egress st @ new"
    "\<forall>s. SegmentMsg s \<in> set new \<longrightarrow> s \<in> snd ` set (ss_lookbehind st)
               \<or> ss_outgoing_frame_id st' = ss_outgoing_frame_id st + 1 \<and> seg_frame_id s = ss_outgoing_frame_id st"
    by (auto simp: ss_effect_def)
  have "\<not> is_segment_of fid m" if "m \<in> set new" for m
  proof
    assume "is_segment_of fid m"
    then obtain s where s: "m = SegmentMsg s" "seg_frame_id s = fid" by (cases m) auto
    with that new(2) have "s \<in> snd ` set (ss_lookbehind st) \<or> seg_frame_id s = ss_outgoing_frame_id st"
      by blast
    with s q show False by (auto simp: ss_quiet_def)
  qed
  then have "filter (is_segment_of fid) new = []" by (simp add: filter_empty_conv)
  moreover have "\<forall>s \<in> snd ` set (ss_lookbehind st'). seg_frame_id s \<noteq> fid"
  proof
    fix s assume "s \<in> snd ` set (ss_lookbehind st')"
    with k(1) have "s \<in> snd ` set (ss_lookbehind st) \<or> seg_frame_id s = ss_outgoing_frame_id st"
      unfolding ss_effect_def by blast
    with q show "seg_frame_id s \<noteq> fid" by (auto simp: ss_quiet_def)
  qed
  ultimately show ?thesis using q k(2) new(1) le by (auto simp: ss_quiet_def)
qed

interpretation ss_quiet_sys: inductive_invariant "\<lambda>_. False" "ss_step_nowrap c" "ss_quiet fid old" for c fid old
  by unfold_locales (auto intro: ss_quiet_step)

text \<open>C11: once the peer has acknowledged a frame, no segment of it is ever put on the wire again: not by a
later retransmission request, not by the sender's own timer, whatever else happens on the socket (as long as
the 32-bit frame counter does not wrap).\<close>
theorem acknowledged_never_resent:
  assumes "reachable (ss_init c) (ss_step c) st" and "fid \<in> set acked" and "fid < ss_outgoing_frame_id st"
    and "(ss_step_nowrap c)\<^sup>*\<^sup>* (fst (ss_acknowledged_frames st acked)) st'"
  shows "filter (is_segment_of fid) (ss_egress st') = filter (is_segment_of fid) (ss_egress st)"
proof -
  let ?st0 = "fst (ss_acknowledged_frames st acked)"
  have inv: "ss_inv st" by (rule ss_sys.inv_reachable [OF assms(1)])
  then have "\<forall>(k, s) \<in> set (ss_lookbehind st). k = segment_id s" by (simp add: ss_inv_def lb_ok_def)
  moreover have "ss_inv ?st0"
    using inv lb_ok_filter by (auto simp: ss_acknowledged_frames_def ss_acknowledge_loop_eq ss_inv_def)
  ultimately have "ss_quiet fid (filter (is_segment_of fid) (ss_egress st)) ?st0"
    using assms(2,3) by (auto simp: ss_acknowledged_frames_def ss_acknowledge_loop_eq ss_quiet_def segment_id_def)
  from ss_quiet_sys.inv_rtranclp [OF assms(4) this] show ?thesis by (simp add: ss_quiet_def)
qed

theorem acknowledged_never_resent_witness:
  "\<exists>st st'. ss_egress st = [SegmentMsg \<lparr>seg_frame_id = 1, seg_seq_idx = 0, seg_seq_len = 1, seg_data = [7]\<rparr>]
     \<and> st' = fst (ss_retransmit_segments (fst (ss_acknowledged_frames st [1])) [(1, 1)])
     \<and> filter (is_segment_of 1) (ss_egress st') = filter (is_segment_of 1) (ss_egress st)"
proof -
  let ?st = "fst (ss_poll_write 466 example_session [7] 5)"
  let ?ack = "fst (ss_acknowledged_frames ?st [1])"
  let ?st' = "fst (ss_retransmit_segments ?ack [(1, 1)])"
  have "ss_init 466 example_session"
    using example_session_new by (simp add: ss_init_def example_session_def fr_new_def)
  then have "reachable (ss_init 466) (ss_step 466) example_session" by (rule reachable_init)
  moreover have "ss_step 466 example_session ?st" by (rule ss_step_write) (rule prod.collapse [symmetric])
  ultimately have r: "reachable (ss_init 466) (ss_step 466) ?st" by (rule reachable_step)
  have o: "ss_outgoing_frame_id ?st = 2"
    "ss_egress ?st = [SegmentMsg \<lparr>seg_frame_id = 1, seg_seq_idx = 0, seg_seq_len = 1, seg_data = [7]\<rparr>]"
    "ss_outgoing_frame_id ?ack = 2" "ss_outgoing_frame_id ?st' = 2" by code_simp+
  have "ss_step 466 ?ack ?st'"
    by (rule ss_step_receive [where item = "RequestMsg [(1, 1)]" and res = "snd (ss_retransmit_segments ?ack [(1, 1)])"])
      (simp add: ss_start_send_def)
  then have "ss_step_nowrap 466 ?ack ?st'" by (simp add: ss_step_nowrap_def o)
  then have "(ss_step_nowrap 466)\<^sup>*\<^sup>* ?ack ?st'" by (rule r_into_rtranclp)
  with acknowledged_never_resent [OF r, of 1 "[1]"] o show ?thesis
    by (intro exI [of _ ?st] exI [of _ ?st']) simp
qed

section \<open>From one socket to the other\<close>

text \<open>
  The application of one side writes a list of buffers, one frame each; the other side is handed a
  list of messages, each with the clock readings of its arrival.
\<close>

fun ss_write_all :: "nat \<Rightarrow> session_state \<Rightarrow> (bytes \<times> nat) list \<Rightarrow> unit session_step" where
  "ss_write_all c st [] = (st, Ok ())"
| "ss_write_all c st ((data, now) # ws) =
     (case ss_send_frame_data c st data now of
        (st1, Inl e) \<Rightarrow> (st1, Inl e)
      | (st1, Inr _) \<Rightarrow> ss_write_all c st1 ws)"

fun ss_receive_all :: "session_state \<Rightarrow> (session_message \<times> u64 \<times> u64 \<times> nat) list \<Rightarrow> unit session_step" where
  "ss_receive_all st [] = (st, Ok ())"
| "ss_receive_all st ((m, ts, em, now) # ms) =
     (case ss_start_send st m ts em now of
        (st1, Inl e) \<Rightarrow> (st1, Inl e)
      | (st1, Inr _) \<Rightarrow> ss_receive_all st1 ms)"

definition frames_of :: "(bytes \<times> nat) list \<Rightarrow> frame list" where
  "frames_of ws = map (\<lambda>(i, data, _). \<lparr>frm_id = fid_of i, frm_data = data\<rparr>) (List.enumerate 0 ws)"

lemma frames_of_snoc: "frames_of (ws @ [w]) = frames_of ws @ [\<lparr>frm_id = fid_of (length ws), frm_data = fst w\<rparr>]"
  by (cases w) (simp add: frames_of_def enumerate_append_eq)

lemma length_frames_of [simp]: "length (frames_of ws) = length ws"
  by (simp add: frames_of_def)

lemma sent_snoc:
  assumes "sent mss fs sg" and "length fs + 1 < 2 ^ 32 - 1" and "data \<noteq> []"
    and "segment_into data mss (fid_of (length fs)) = Ok ss"
  shows "sent mss (fs @ [\<lparr>frm_id = fid_of (length fs), frm_data = data\<rparr>]) (sg @ [ss])"
  using assms unfolding sent_def frame_segment_def
  by (auto simp: nth_append less_Suc_eq simp del: of_nat_Suc)

text \<open>Segments written one after the other come after all those in the lookbehind buffer.\<close>

definition follows :: "(segment_id, segment) omap \<Rightarrow> segment list \<Rightarrow> bool" where
  "follows lb segs \<longleftrightarrow> sorted_wrt (<) (map segment_id segs) \<and> (\<forall>k \<in> fst ` set lb. \<forall>s \<in> set segs. k < segment_id s)"

abbreviation keyed :: "segment list \<Rightarrow> (segment_id, segment) omap" where
  "keyed \<equiv> map (\<lambda>s. (segment_id s, s))"

lemma ss_send_segments_open:
  "\<not> ss_egress_closed st \<Longrightarrow>
   \<exists>lb. ss_send_segments st segs = (st\<lparr>ss_lookbehind := lb, ss_egress := ss_egress st @ map SegmentMsg segs\<rparr>, Ok ())
     \<and> (follows (ss_lookbehind st) segs \<and> length (ss_lookbehind st) + length segs \<le> cfg_max_buffered_segments (ss_cfg st)
          \<longrightarrow> lb = ss_lookbehind st @ keyed segs)"
proof (induction segs arbitrary: st)
  case Nil
  then show ?case by (intro exI [of _ "ss_lookbehind st"]) simp
next
  case (Cons s segs)
  let ?lb = "lookbehind_insert (cfg_max_buffered_segments (ss_cfg st)) s (ss_lookbehind st)"
  let ?st = "st\<lparr>ss_egress := ss_egress st @ [SegmentMsg s], ss_lookbehind := ?lb\<rparr>"
  obtain lb where lb: "ss_send_segments ?st segs = (?st\<lparr>ss_lookbehind := lb, ss_egress := ss_egress ?st @ map SegmentMsg segs\<rparr>, Ok ())"
    and keeps: "follows ?lb segs \<and> length ?lb + length segs \<le> cfg_max_buffered_segments (ss_cfg st) \<longrightarrow> lb = ?lb @ keyed segs"
    using Cons.IH [of ?st] Cons.prems by auto
  have "lb = ss_lookbehind st @ keyed (s # segs)"
    if f: "follows (ss_lookbehind st) (s # segs)" and n: "length (ss_lookbehind st) + length (s # segs) \<le> cfg_max_buffered_segments (ss_cfg st)"
  proof -
    have "om_insert (segment_id s) s (ss_lookbehind st) = ss_lookbehind st @ [(segment_id s, s)]"
      by (rule om_insert_append_max) (use f in \<open>auto simp: follows_def\<close>)
    then have l: "?lb = ss_lookbehind st @ [(segment_id s, s)]" using n by (simp add: lookbehind_insert_def)
    have "follows (ss_lookbehind st @ [(segment_id s, s)]) segs" using f unfolding follows_def by auto
    then show ?thesis using keeps n unfolding l by simp
  qed
  then show ?case using lb Cons.prems by (intro exI [of _ lb]) simp
qed

lemma segment_ids_ascending:
  assumes "segment_into data mss fid = Ok segs"
  shows "sorted_wrt (<) (map segment_id segs)" and "\<forall>s \<in> set segs. seg_frame_id s = fid"
proof -
  have "unat (seg_seq_idx (segs ! i)) = i \<and> seg_frame_id (segs ! i) = fid" if "i < length segs" for i
    using segment_fields [OF assms that] by simp
  then show "sorted_wrt (<) (map segment_id segs)" "\<forall>s \<in> set segs. seg_frame_id s = fid"
    by (auto simp: sorted_wrt_iff_nth_less segment_id_def word_less_nat_alt in_set_conv_nth less_prod_def)
qed

lemma max_write_segments:
  assumes "11 \<le> c" and "length data \<le> max_write_size c" and "fid \<noteq> 0"
  shows "\<exists>segs. segment_into data (payload_capacity c) fid = Ok segs"
proof (rule segment_total [OF assms(3)])
  show p: "0 < payload_capacity c" using assms(1) by (simp add: payload_capacity_def size_defs)
  have "length data + payload_capacity c - 1 < 9 * payload_capacity c"
    using assms(2) p by (simp add: max_write_size_def size_defs)
  then have "(length data + payload_capacity c - 1) div payload_capacity c < 9"
    using p by (simp add: less_mult_imp_div_less)
  then show "(length data + payload_capacity c - 1) div payload_capacity c \<le> 255" by simp
qed

lemma ss_send_frame_open:
  assumes "\<not> ss_egress_closed st" and "11 \<le> c" and "1 \<le> length data" and "length data \<le> max_write_size c"
    and "ss_outgoing_frame_id st \<noteq> 0"
  shows "\<exists>segs lb. segment_into data (payload_capacity c) (ss_outgoing_frame_id st) = Ok segs
     \<and> ss_send_frame_data c st data now =
         (st\<lparr>ss_outgoing_frame_id := ss_outgoing_frame_id st + 1, ss_lookbehind := lb,
             ss_egress := ss_egress st @ map SegmentMsg segs,
             ss_outgoing_frame_resends := om_insert (ss_outgoing_frame_id st)
               (rt_new now (cfg_backoff_base (ss_cfg st))) (ss_outgoing_frame_resends st)\<rparr>, Ok ())
     \<and> (follows (ss_lookbehind st) segs \<and> length (ss_lookbehind st) + length segs \<le> cfg_max_buffered_segments (ss_cfg st)
          \<longrightarrow> lb = ss_lookbehind st @ keyed segs)"
proof -
  obtain segs where s: "segment_into data (payload_capacity c) (ss_outgoing_frame_id st) = Ok segs"
    using max_write_segments [OF assms(2,4,5)] by blast
  let ?st = "st\<lparr>ss_outgoing_frame_id := ss_outgoing_frame_id st + 1\<rparr>"
  obtain lb where "ss_send_segments ?st segs = (?st\<lparr>ss_lookbehind := lb, ss_egress := ss_egress st @ map SegmentMsg segs\<rparr>, Ok ())"
    "follows (ss_lookbehind st) segs \<and> length (ss_lookbehind st) + length segs \<le> cfg_max_buffered_segments (ss_cfg st)
       \<longrightarrow> lb = ss_lookbehind st @ keyed segs"
    using ss_send_segments_open [of ?st segs] assms(1) by auto
  with s assms show ?thesis by (intro exI [of _ segs] exI [of _ lb]) (simp add: ss_send_frame_data_def Let_def)
qed

text \<open>
  What the sender has put on the wire after writing \<open>ws\<close>, and what it keeps for retransmission: a token for each
  frame, and all the segments as long as the lookbehind buffer holds them.
\<close>

definition resend_tokens :: "rat \<Rightarrow> (bytes \<times> nat) list \<Rightarrow> (frame_id, retry_token) omap" where
  "resend_tokens base ws = map (\<lambda>(i, w). (fid_of i, rt_new (snd w) base)) (List.enumerate 0 ws)"

definition ss_wrote :: "nat \<Rightarrow> (bytes \<times> nat) list \<Rightarrow> segment list list \<Rightarrow> session_state \<Rightarrow> bool" where
  "ss_wrote c ws sg st \<longleftrightarrow> \<not> ss_egress_closed st \<and> ss_outgoing_frame_id st = fid_of (length ws)
     \<and> ss_egress st = map SegmentMsg (concat sg) \<and> sent (payload_capacity c) (frames_of ws) sg
     \<and> ss_outgoing_frame_resends st = resend_tokens (cfg_backoff_base (ss_cfg st)) ws
     \<and> (length (concat sg) \<le> cfg_max_buffered_segments (ss_cfg st) \<longrightarrow> ss_lookbehind st = keyed (concat sg))"

lemma sent_ids:
  assumes "sent mss fs sg" and "ss \<in> set sg" and "s \<in> set ss"
  shows "\<exists>i < length fs. ss = sg ! i \<and> seg_frame_id s = fid_of i"
proof -
  obtain i where i: "i < length sg" "ss = sg ! i" using assms(2) by (auto simp: in_set_conv_nth)
  then have "i < length fs" using assms(1) by (simp add: sent_def)
  moreover obtain j where "j < length ss" "s = ss ! j" using assms(3) by (auto simp: in_set_conv_nth)
  ultimately show ?thesis using sent_segments(4) [OF assms(1), of i j] i by (intro exI [of _ i]) simp
qed

lemma ss_write_all_wrote:
  "ss_wrote c pre sg st \<Longrightarrow> 11 \<le> c \<Longrightarrow> length pre + length ws < 2 ^ 32 - 1 \<Longrightarrow>
   \<forall>w \<in> set ws. 1 \<le> length (fst w) \<and> length (fst w) \<le> max_write_size c \<Longrightarrow>
   \<exists>st' sg'. ss_write_all c st ws = (st', Ok ()) \<and> ss_wrote c (pre @ ws) sg' st' \<and> ss_cfg st' = ss_cfg st"
proof (induction ws arbitrary: pre sg st)
  case (Cons w ws)
  obtain data now where w: "w = (data, now)" by (cases w)
  have n: "length pre < 2 ^ 32 - 1" using Cons.prems(3) by simp
  have st: "ss_outgoing_frame_id st = fid_of (length pre)" "\<not> ss_egress_closed st" "ss_egress st = map SegmentMsg (concat sg)"
    "sent (payload_capacity c) (frames_of pre) sg" "ss_outgoing_frame_resends st = resend_tokens (cfg_backoff_base (ss_cfg st)) pre"
    and lbs: "length (concat sg) \<le> cfg_max_buffered_segments (ss_cfg st) \<longrightarrow> ss_lookbehind st = keyed (concat sg)"
    using Cons.prems(1) by (simp_all add: ss_wrote_def del: of_nat_Suc)
  have nz': "ss_outgoing_frame_id st \<noteq> 0" using unat_fid [OF n] unfolding st(1) by auto
  have data: "1 \<le> length data" "length data \<le> max_write_size c" using Cons.prems(4) by (simp_all add: w)
  obtain segs lb where seg: "segment_into data (payload_capacity c) (fid_of (length pre)) = Ok segs"
    and send: "ss_send_frame_data c st data now =
         (st\<lparr>ss_outgoing_frame_id := fid_of (length pre) + 1, ss_lookbehind := lb,
             ss_egress := ss_egress st @ map SegmentMsg segs,
             ss_outgoing_frame_resends := om_insert (fid_of (length pre))
               (rt_new now (cfg_backoff_base (ss_cfg st))) (ss_outgoing_frame_resends st)\<rparr>, Ok ())"
    (is "_ = (?st1, _)")
    and lb: "follows (ss_lookbehind st) segs \<and> length (ss_lookbehind st) + length segs \<le> cfg_max_buffered_segments (ss_cfg st)
          \<longrightarrow> lb = ss_lookbehind st @ keyed segs"
    using ss_send_frame_open [OF st(2) Cons.prems(2) data nz', of now] unfolding st(1) by (elim exE conjE) (rule that)
  have snt: "sent (payload_capacity c) (frames_of (pre @ [w])) (sg @ [segs])"
    using Cons.prems(3,4) sent_snoc [OF st(4), of data segs] seg data
    by (cases "data = []") (auto simp: frames_of_snoc w simp del: of_nat_Suc)
  have later: "fid_of i < fid_of (length pre)" if "i < length pre" for i using fid_less [of i "length pre"] n that by simp
  have toks: "om_insert (fid_of (length pre)) (rt_new now (cfg_backoff_base (ss_cfg st))) (ss_outgoing_frame_resends st)
      = resend_tokens (cfg_backoff_base (ss_cfg st)) (pre @ [w])"
  proof -
    have "\<forall>k \<in> fst ` set (ss_outgoing_frame_resends st). k < fid_of (length pre)"
      unfolding st(5) resend_tokens_def using later by (auto simp: in_set_enumerate_eq simp del: of_nat_Suc)
    from om_insert_append_max [OF this] show ?thesis
      unfolding st(5) by (simp add: resend_tokens_def enumerate_append_eq w)
  qed
  have kept: "lb = keyed (concat (sg @ [segs]))" if len: "length (concat (sg @ [segs])) \<le> cfg_max_buffered_segments (ss_cfg st)"
  proof -
    have old: "ss_lookbehind st = keyed (concat sg)" using lbs len by simp
    have "k < segment_id s" if k: "k \<in> fst ` set (ss_lookbehind st)" and s: "s \<in> set segs" for k s
    proof -
      obtain ss t where t: "ss \<in> set sg" "t \<in> set ss" "k = segment_id t" using k unfolding old by auto
      from sent_ids [OF st(4) t(1,2)] obtain i where "i < length pre" "seg_frame_id t = fid_of i" by auto
      then have "seg_frame_id t < seg_frame_id s" using later segment_ids_ascending(2) [OF seg] s by simp
      then show ?thesis unfolding t(3) segment_id_def by (simp add: less_prod_def)
    qed
    then have "follows (ss_lookbehind st) segs" using segment_ids_ascending(1) [OF seg] unfolding follows_def by blast
    then show ?thesis using lb len by (simp add: old)
  qed
  have "ss_wrote c (pre @ [w]) (sg @ [segs]) ?st1"
    using snt toks kept st(2,3) by (simp add: ss_wrote_def ac_simps)
  from Cons.IH [OF this Cons.prems(2)] Cons.prems(3,4) send show ?case by (simp add: w)
qed auto

lemma map_filter_all: "(\<And>x. x \<in> set xs \<Longrightarrow> f x = Some (g x)) \<Longrightarrow> List.map_filter f xs = map g xs"
  by (induction xs) (simp_all add: List.map_filter_simps)

text \<open>When every token is due, the sender puts all the segments on the wire again.\<close>

lemma retransmits_all:
  assumes w: "ss_wrote c ws sg st" and fits: "length (concat sg) \<le> cfg_max_buffered_segments (ss_cfg st)"
    and on: "cfg_acknowledged_frames_buffer (ss_cfg st) \<noteq> 0"
    and due: "\<And>fid w. w \<in> set ws \<Longrightarrow> \<exists>d. d < cfg_frame_expiration_age (ss_cfg st) \<and> snd w + d < now
       \<and> d = delay fid (cfg_rto_base_sender (ss_cfg st)) (cfg_backoff_base (ss_cfg st)) 0"
  shows "\<exists>st' rs. ss_retransmit_unacknowledged_frames st delay now = (st', Ok (length rs))
     \<and> ss_egress st' = ss_egress st @ rs \<and> set rs = set (ss_egress st)"
proof -
  have st: "\<not> ss_egress_closed st" "ss_egress st = map SegmentMsg (concat sg)" "sent (payload_capacity c) (frames_of ws) sg"
    "ss_outgoing_frame_resends st = resend_tokens (cfg_backoff_base (ss_cfg st)) ws" "ss_lookbehind st = keyed (concat sg)"
    using w fits by (simp_all add: ss_wrote_def)
  define fids where "fids = snd (ss_retained_resends st delay now)"
  have fids: "set fids = fid_of ` {..< length ws}"
  proof -
    have check: "rt_check (delay f) (rt_new (snd x) (cfg_backoff_base (ss_cfg st))) now (cfg_rto_base_sender (ss_cfg st))
        (cfg_frame_expiration_age (ss_cfg st)) = RetryNow ((rt_new (snd x) (cfg_backoff_base (ss_cfg st)))\<lparr>rt_num_retry := 1\<rparr>)"
      if "x \<in> set ws" for x f
      using due [OF that, of f] by (auto simp: rt_check_def rt_retry_in_def rt_new_def Let_def)
    have "fids = map fst (resend_tokens (cfg_backoff_base (ss_cfg st)) ws)"
      unfolding fids_def ss_retained_resends_def Let_def st(4) snd_conv
    proof (rule map_filter_all)
      fix x assume "x \<in> set (resend_tokens (cfg_backoff_base (ss_cfg st)) ws)"
      then obtain i where i: "i < length ws" "x = (fid_of i, rt_new (snd (ws ! i)) (cfg_backoff_base (ss_cfg st)))"
        by (auto simp: resend_tokens_def in_set_enumerate_eq simp del: of_nat_Suc)
      from check [OF nth_mem [OF i(1)], of "fid_of i"]
      show "(case x of (fid, rt) \<Rightarrow> case rt_check (delay fid) rt now (cfg_rto_base_sender (ss_cfg st)) (cfg_frame_expiration_age (ss_cfg st)) of
          RetryNow _ \<Rightarrow> Some fid | _ \<Rightarrow> None) = Some (fst x)" by (simp add: i(2) del: of_nat_Suc)
    qed
    then have "set fids = fid_of ` fst ` set (List.enumerate 0 ws)" by (force simp: resend_tokens_def simp del: of_nat_Suc)
    also have "fst ` set (List.enumerate 0 ws) = {..< length ws}" by (simp flip: set_map add: atLeast0LessThan)
    finally show ?thesis .
  qed
  define rs where "rs = concat (map (\<lambda>f. map (\<lambda>(_, s). SegmentMsg s) (filter (\<lambda>(k, _). fst k = f) (ss_lookbehind st))) fids)"
  have "set rs = {SegmentMsg s | s. s \<in> set (concat sg) \<and> seg_frame_id s \<in> set fids}"
  proof -
    have "set rs = (\<Union>f \<in> set fids. {SegmentMsg s | s. s \<in> set (concat sg) \<and> seg_frame_id s = f})"
      unfolding rs_def st(5) by (simp add: filter_map comp_def segment_id_def) (intro SUP_cong refl, blast)
    then show ?thesis by blast
  qed
  also have "\<dots> = set (ss_egress st)"
    using sent_ids [OF st(3)] unfolding fids st(2) by (fastforce simp del: of_nat_Suc)
  finally have rs: "set rs = set (ss_egress st)" .
  obtain resends where "ss_retained_resends st delay now = (resends, fids)" unfolding fids_def by (metis prod.collapse)
  then have "ss_retransmit_unacknowledged_frames st delay now
      = (st\<lparr>ss_outgoing_frame_resends := resends, ss_egress := ss_egress st @ rs\<rparr>, Ok (length rs))"
    using on st(1) by (simp add: ss_retransmit_unacknowledged_frames_def egress_send_all_def rs_def [symmetric])
  then show ?thesis using rs by (intro exI [of _ "st\<lparr>ss_outgoing_frame_resends := resends, ss_egress := ss_egress st @ rs\<rparr>"] exI [of _ rs]) simp
qed

text \<open>Receiving segments is what the delivery model does to the reassembler.\<close>

lemma ss_receive_all_deliver:
  "\<forall>m \<in> set ms. \<exists>s. fst m = SegmentMsg s \<Longrightarrow>
   fr_deliver_all (ss_frame_reassembler st)
     (map (\<lambda>(m, ts, em, now). (case m of SegmentMsg s \<Rightarrow> s, ts, em)) ms) = Ok r \<Longrightarrow>
   \<exists>st'. ss_receive_all st ms = (st', Ok ()) \<and> ss_frame_reassembler st' = r"
proof (induction ms arbitrary: st)
  case (Cons m ms)
  obtain s ts em now where m: "m = (SegmentMsg s, ts, em, now)" using Cons.prems(1) by (cases m) auto
  from Cons.prems(2) obtain r1 where r1: "fr_deliver (ss_frame_reassembler st) (s, ts, em) = Ok r1"
    and rest: "fr_deliver_all r1 (map (\<lambda>(m, ts, em, now). (case m of SegmentMsg s \<Rightarrow> s, ts, em)) ms) = Ok r"
    by (auto simp: m and_then_Inr_iff)
  obtain st1 where "ss_consume_segment st s ts em now = (st1, Ok ())" "ss_frame_reassembler st1 = r1"
    using r1 by (auto simp: fr_deliver_def ss_consume_segment_def Let_def split: sum.splits failure.splits)
  with Cons.IH [of st1] rest Cons.prems(1) show ?case by (simp add: m ss_start_send_def)
qed simp


lemma ss_receive_all_append:
  "ss_receive_all st (ms @ ms') = (case ss_receive_all st ms of (st', Inr _) \<Rightarrow> ss_receive_all st' ms' | (st', Inl e) \<Rightarrow> (st', Inl e))"
  by (induction st ms rule: ss_receive_all.induct) (auto split: prod.split sum.split)

text \<open>The frames whose segments are all among the messages \<open>got\<close>, up to the first one that is not complete.\<close>

definition arrived_frames :: "(bytes \<times> nat) list \<Rightarrow> session_message list \<Rightarrow> session_message set \<Rightarrow> frame list" where
  "arrived_frames ws wire got =
     takeWhile (\<lambda>f. \<forall>m \<in> set wire. case m of SegmentMsg s \<Rightarrow> seg_frame_id s = frm_id f \<longrightarrow> m \<in> got | _ \<Rightarrow> True) (frames_of ws)"

lemma arrived_frames_lead:
  assumes snt: "sent mss (frames_of ws) sg"
  shows "arrived_frames ws (map SegmentMsg (concat sg)) (SegmentMsg ` D) = take (lead D sg) (frames_of ws)"
  unfolding arrived_frames_def
proof (rule takeWhile_eq_take_P_nth)
  have l: "length sg = length (frames_of ws)" and lw: "length ws < 2 ^ 32 - 1" using snt by (simp_all add: sent_def)
  have own: "(\<forall>m \<in> set (map SegmentMsg (concat sg)). case m of SegmentMsg s \<Rightarrow> seg_frame_id s = frm_id (frames_of ws ! i) \<longrightarrow> m \<in> SegmentMsg ` D | _ \<Rightarrow> True)
      \<longleftrightarrow> set (sg ! i) \<subseteq> D" if i: "i < length ws" for i
  proof -
    have f: "frm_id (frames_of ws ! i) = fid_of i" using snt i by (simp add: sent_def del: of_nat_Suc)
    have "s \<in> set (sg ! i) \<longleftrightarrow> s \<in> set (concat sg) \<and> seg_frame_id s = fid_of i" for s
    proof
      assume s: "s \<in> set (sg ! i)"
      then obtain j where "j < length (sg ! i)" "s = sg ! i ! j" by (auto simp: in_set_conv_nth)
      then show "s \<in> set (concat sg) \<and> seg_frame_id s = fid_of i"
        using sent_segments(4) [OF snt, of i j] i l s by (auto intro!: bexI [of _ "sg ! i"] simp del: of_nat_Suc)
    next
      assume s: "s \<in> set (concat sg) \<and> seg_frame_id s = fid_of i"
      then obtain ss where ss: "ss \<in> set sg" "s \<in> set ss" by auto
      from sent_ids [OF snt ss] obtain k where k: "k < length ws" "ss = sg ! k" "seg_frame_id s = fid_of k" by auto
      then have "k = i" using s fid_inj [of k i] i lw by simp
      then show "s \<in> set (sg ! i)" using k ss by simp
    qed
    then show ?thesis unfolding f by (auto simp del: of_nat_Suc)
  qed
  show "\<forall>m \<in> set (map SegmentMsg (concat sg)). case m of SegmentMsg s \<Rightarrow> seg_frame_id s = frm_id (frames_of ws ! i) \<longrightarrow> m \<in> SegmentMsg ` D | _ \<Rightarrow> True"
    if "i < lead D sg" "i < length (frames_of ws)" for i using own [of i] lead_below [OF that(1)] that(2) by simp
  show "\<not> (\<forall>m \<in> set (map SegmentMsg (concat sg)). case m of SegmentMsg s \<Rightarrow> seg_frame_id s = frm_id (frames_of ws ! lead D sg) \<longrightarrow> m \<in> SegmentMsg ` D | _ \<Rightarrow> True)"
    if "lead D sg < length (frames_of ws)" using own [of "lead D sg"] lead_at [of D sg] that l by simp
qed

lemma receive_arrived:
  assumes w: "ss_wrote c ws sg alice" and new: "ss_new c cfg age = Ok bob" and ms: "set (map fst ms) \<subseteq> set (ss_egress alice)"
  shows "\<exists>bob'. ss_receive_all bob ms = (bob', Ok ())
     \<and> fr_out (ss_frame_reassembler bob') = map Ok (arrived_frames ws (ss_egress alice) (set (map fst ms)))"
proof -
  have snt: "sent (payload_capacity c) (frames_of ws) sg" and wire: "ss_egress alice = map SegmentMsg (concat sg)"
    using w by (simp_all add: ss_wrote_def)
  have seg: "\<forall>m \<in> set ms. \<exists>s. fst m = SegmentMsg s \<and> s \<in> set (concat sg)" using ms unfolding wire by fastforce
  define ds where "ds = map (\<lambda>(m, ts :: u64, em :: u64, now :: nat). (case m of SegmentMsg s \<Rightarrow> s, ts, em)) ms"
  have dsg: "\<forall>d \<in> set ds. \<exists>ss \<in> set sg. fst d \<in> set ss" using seg by (fastforce simp: ds_def)
  obtain r where r: "fr_deliver_all (fr_new age) ds = Ok r" "fr_out r = map Ok (take (lead (fst ` set ds) sg) (frames_of ws))"
    using reassembly_delivery [OF snt dsg, of age] by (elim exE conjE) (rule that)
  have "ss_frame_reassembler bob = fr_new age" using new by (auto simp: ss_new_def split: if_splits)
  then obtain bob' where b: "ss_receive_all bob ms = (bob', Ok ())" "ss_frame_reassembler bob' = r"
    using ss_receive_all_deliver [of ms bob r] r(1) seg by (auto simp: ds_def)
  have "SegmentMsg ` fst ` set ds = set (map fst ms)"
    unfolding ds_def using seg by (force simp: image_iff)
  then show ?thesis using b r(2) arrived_frames_lead [OF snt, of "fst ` set ds"] wire by simp
qed

lemma arrived_all: "set wire \<subseteq> got \<Longrightarrow> arrived_frames ws wire got = frames_of ws"
  unfolding arrived_frames_def by (auto simp: takeWhile_eq_all_conv split: session_message.split)

text \<open>C2: a Session is a reliable byte-frame transport over a lossy, reordering, duplicating lower layer, as long as the receiver
evicts nothing. Whatever messages of the sender reach a fresh peer, in whatever order and however often, nothing fails, and the
peer puts out exactly the leading written frames whose segments have all arrived, with the data written. What was lost is made
up for by the sender: when the frames are due for a retransmission and its buffer still holds them, the sender puts every
segment on the wire again, and once the peer has each segment from the first transmission or from this one, it has put out
all the frames.\<close>
theorem session_transfer_reliable:
  assumes "11 \<le> c" and "length ws < 2 ^ 32 - 1"
    and "\<forall>w \<in> set ws. 1 \<le> length (fst w) \<and> length (fst w) \<le> max_write_size c"
    and "ss_new c cfg age = Ok alice" and "ss_new c cfg' age' = Ok bob"
    and "set (map fst ms) \<subseteq> set (ss_egress (fst (ss_write_all c alice ws)))"
  shows "\<exists>alice' bob'. ss_write_all c alice ws = (alice', Ok ())
     \<and> ss_receive_all bob ms = (bob', Ok ())
     \<and> fr_out (ss_frame_reassembler bob') = map Ok (arrived_frames ws (ss_egress alice') (set (map fst ms)))
     \<and> (length (ss_egress alice') \<le> cfg_max_buffered_segments cfg \<and> cfg_acknowledged_frames_buffer cfg \<noteq> 0
          \<and> (\<forall>w \<in> set ws. \<forall>fid. delay fid (cfg_rto_base_sender cfg) (cfg_backoff_base cfg) 0 < cfg_frame_expiration_age cfg
               \<and> snd w + delay fid (cfg_rto_base_sender cfg) (cfg_backoff_base cfg) 0 < now)
        \<longrightarrow> (\<exists>alice'' rs. ss_retransmit_unacknowledged_frames alice' delay now = (alice'', Ok (length rs))
              \<and> ss_egress alice'' = ss_egress alice' @ rs \<and> set rs = set (ss_egress alice')
              \<and> (\<forall>ms'. set (map fst ms') \<subseteq> set rs \<and> set (ss_egress alice') \<subseteq> set (map fst ms) \<union> set (map fst ms')
                   \<longrightarrow> (\<exists>bob''. ss_receive_all bob' ms' = (bob'', Ok ())
                         \<and> fr_out (ss_frame_reassembler bob'') = map Ok (frames_of ws)))))"
proof -
  have cfg: "ss_cfg alice = cfg" using assms(4) by (auto simp: ss_new_def split: if_splits)
  have "ss_wrote c [] [] alice"
    using assms(4) by (auto simp: ss_new_def ss_wrote_def sent_def frames_of_def resend_tokens_def split: if_splits)
  from ss_write_all_wrote [OF this assms(1), of ws] assms(2,3) obtain alice' sg
    where a: "ss_write_all c alice ws = (alice', Ok ())" and w: "ss_wrote c ws sg alice'" and cfg': "ss_cfg alice' = cfg"
    by (auto simp: cfg)
  have sub: "set (map fst ms) \<subseteq> set (ss_egress alice')" using assms(6) a by simp
  obtain bob' where b: "ss_receive_all bob ms = (bob', Ok ())"
    "fr_out (ss_frame_reassembler bob') = map Ok (arrived_frames ws (ss_egress alice') (set (map fst ms)))"
    using receive_arrived [OF w assms(5) sub] by (elim exE conjE)
  have wire: "length (ss_egress alice') = length (concat sg)" using w by (simp add: ss_wrote_def)
  have rest: "\<exists>bob''. ss_receive_all bob' ms' = (bob'', Ok ()) \<and> fr_out (ss_frame_reassembler bob'') = map Ok (frames_of ws)"
    if ms': "set (map fst ms') \<subseteq> set (ss_egress alice')" "set (ss_egress alice') \<subseteq> set (map fst ms) \<union> set (map fst ms')" for ms'
  proof -
    have "set (map fst (ms @ ms')) \<subseteq> set (ss_egress alice')" using sub ms'(1) by simp
    from receive_arrived [OF w assms(5) this] obtain bob'' where b'': "ss_receive_all bob (ms @ ms') = (bob'', Ok ())"
      "fr_out (ss_frame_reassembler bob'') = map Ok (arrived_frames ws (ss_egress alice') (set (map fst (ms @ ms'))))"
      by (elim exE conjE)
    moreover have "arrived_frames ws (ss_egress alice') (set (map fst (ms @ ms'))) = frames_of ws"
      by (rule arrived_all) (use ms'(2) in simp)
    ultimately show ?thesis using b(1) by (simp add: ss_receive_all_append)
  qed
  show ?thesis
  proof (rule exI [of _ alice'], rule exI [of _ bob'], intro conjI impI)
    show "ss_write_all c alice ws = (alice', Ok ())" by (rule a)
    show "ss_receive_all bob ms = (bob', Ok ())" by (rule b(1))
    show "fr_out (ss_frame_reassembler bob') = map Ok (arrived_frames ws (ss_egress alice') (set (map fst ms)))" by (rule b(2))
    assume h: "length (ss_egress alice') \<le> cfg_max_buffered_segments cfg \<and> cfg_acknowledged_frames_buffer cfg \<noteq> 0
          \<and> (\<forall>w \<in> set ws. \<forall>fid. delay fid (cfg_rto_base_sender cfg) (cfg_backoff_base cfg) 0 < cfg_frame_expiration_age cfg
               \<and> snd w + delay fid (cfg_rto_base_sender cfg) (cfg_backoff_base cfg) 0 < now)"
    obtain alice'' rs where "ss_retransmit_unacknowledged_frames alice' delay now = (alice'', Ok (length rs))"
      "ss_egress alice'' = ss_egress alice' @ rs" "set rs = set (ss_egress alice')"
      using retransmits_all [OF w, of now delay] h unfolding cfg' wire by auto
    then show "\<exists>alice'' rs. ss_retransmit_unacknowledged_frames alice' delay now = (alice'', Ok (length rs))
              \<and> ss_egress alice'' = ss_egress alice' @ rs \<and> set rs = set (ss_egress alice')
              \<and> (\<forall>ms'. set (map fst ms') \<subseteq> set rs \<and> set (ss_egress alice') \<subseteq> set (map fst ms) \<union> set (map fst ms')
                   \<longrightarrow> (\<exists>bob''. ss_receive_all bob' ms' = (bob'', Ok ())
                         \<and> fr_out (ss_frame_reassembler bob'') = map Ok (frames_of ws)))"
      using rest by (intro exI [of _ alice''] exI [of _ rs]) simp
  qed
qed

theorem session_transfer_reliable_witness:
  "\<exists>bob' bob''. ss_receive_all example_session
       [(SegmentMsg \<lparr>seg_frame_id = 2, seg_seq_idx = 0, seg_seq_len = 1, seg_data = [8]\<rparr>, 1, 1, 1)] = (bob', Ok ())
   \<and> fr_out (ss_frame_reassembler bob') = []
   \<and> ss_receive_all bob'
       [(SegmentMsg \<lparr>seg_frame_id = 1, seg_seq_idx = 0, seg_seq_len = 1, seg_data = [7]\<rparr>, 12, 12, 12)] = (bob'', Ok ())
   \<and> fr_out (ss_frame_reassembler bob'') = [Ok \<lparr>frm_id = 1, frm_data = [7]\<rparr>, Ok \<lparr>frm_id = 2, frm_data = [8]\<rparr>]"
proof -
  let ?one = "SegmentMsg \<lparr>seg_frame_id = 1, seg_seq_idx = 0, seg_seq_len = 1, seg_data = [7]\<rparr>"
  let ?two = "SegmentMsg \<lparr>seg_frame_id = 2, seg_seq_idx = 0, seg_seq_len = 1, seg_data = [8]\<rparr>"
  let ?ws = "[([7 :: byte], 0 :: nat), ([8], 0)]" and ?ms = "[(?two, 1 :: u64, 1 :: u64, 1 :: nat)]"
  have e: "ss_egress (fst (ss_write_all 466 example_session ?ws)) = [?one, ?two]" by code_simp
  have f: "frames_of ?ws = [\<lparr>frm_id = 1, frm_data = [7]\<rparr>, \<lparr>frm_id = 2, frm_data = [8]\<rparr>]"
    and none: "arrived_frames ?ws [?one, ?two] {?two} = []" by code_simp+
  have h: "(11 :: nat) \<le> 466" "length ?ws < 2 ^ 32 - 1"
    "\<forall>w \<in> set ?ws. 1 \<le> length (fst w) \<and> length (fst w) \<le> max_write_size 466"
    "set (map fst ?ms) \<subseteq> set (ss_egress (fst (ss_write_all 466 example_session ?ws)))"
    unfolding e by (simp_all add: max_write_size_def payload_capacity_def size_defs)
  from session_transfer_reliable [OF h(1,2,3) example_session_new example_session_new h(4), of "\<lambda>_ _ _ _. 1" 10]
  obtain alice' bob' where a: "ss_write_all 466 example_session ?ws = (alice', Ok ())" and b: "ss_receive_all example_session ?ms = (bob', Ok ())"
    and out: "fr_out (ss_frame_reassembler bob') = map Ok (arrived_frames ?ws (ss_egress alice') (set (map fst ?ms)))"
    and resend: "length (ss_egress alice') \<le> cfg_max_buffered_segments example_config \<and> cfg_acknowledged_frames_buffer example_config \<noteq> 0
          \<and> (\<forall>w \<in> set ?ws. \<forall>fid :: frame_id. 1 < cfg_frame_expiration_age example_config \<and> snd w + 1 < 10)
        \<longrightarrow> (\<exists>alice'' rs. ss_retransmit_unacknowledged_frames alice' (\<lambda>_ _ _ _. 1) 10 = (alice'', Ok (length rs))
              \<and> ss_egress alice'' = ss_egress alice' @ rs \<and> set rs = set (ss_egress alice')
              \<and> (\<forall>ms'. set (map fst ms') \<subseteq> set rs \<and> set (ss_egress alice') \<subseteq> set (map fst ?ms) \<union> set (map fst ms')
                   \<longrightarrow> (\<exists>bob''. ss_receive_all bob' ms' = (bob'', Ok ())
                         \<and> fr_out (ss_frame_reassembler bob'') = map Ok (frames_of ?ws))))" by (elim exE conjE) (rule that)
  have wire: "ss_egress alice' = [?one, ?two]" using e a by simp
  have "\<exists>bob''. ss_receive_all bob' [(?one, 12, 12, 12)] = (bob'', Ok ()) \<and> fr_out (ss_frame_reassembler bob'') = map Ok (frames_of ?ws)"
  proof -
    obtain rs where rs: "set rs = {?one, ?two}"
      "\<forall>ms'. set (map fst ms') \<subseteq> set rs \<and> {?one, ?two} \<subseteq> set (map fst ?ms) \<union> set (map fst ms')
         \<longrightarrow> (\<exists>bob''. ss_receive_all bob' ms' = (bob'', Ok ()) \<and> fr_out (ss_frame_reassembler bob'') = map Ok (frames_of ?ws))"
      using resend unfolding wire by (auto simp: example_config_def)
    show ?thesis by (rule spec [OF rs(2), of "[(?one, 12, 12, 12)]", THEN mp]) (simp add: rs(1))
  qed
  then show ?thesis using b out none f by (auto simp: wire)
qed

end
