(* ===== verification/Primitives.thy ===== *)
theory Primitives
  imports Prelude
begin

text \<open>
  Primitive types of the node (\<open>common/primitive-types/src\<close>): balances with saturating arithmetic on
  256-bit words (\<open>balance.rs\<close>), their products and quotients with a float of the unit interval
  (\<open>primitives.rs\<close>), bounded sizes and vectors (\<open>bounded.rs\<close>) and the two moving averages (\<open>sma.rs\<close>).

  A finite \<open>f64\<close> is the rational number it stands for. \<open>f64_plus_one\<close> is the floating-point sum with 1
  of a number of the unit interval: in [1, 2] the doubles are the multiples of \<open>2 ^ -52\<close>, and the
  sum is the nearest of them (ties to even). The bits of such a double are computed as the source
  reads them.
\<close>

datatype general_error = ParseErr string | InvalidInput | NonSpecificError string

section \<open>Balances\<close>

type_synonym hopr_balance = u256

definition u256_max :: u256 where
  "u256_max = - 1"

definition bal_add :: "u256 \<Rightarrow> u256 \<Rightarrow> u256" where
  "bal_add a b = (if unat a + unat b < 2 ^ 256 then a + b else u256_max)"

definition bal_sub :: "u256 \<Rightarrow> u256 \<Rightarrow> u256" where
  "bal_sub a b = (if b \<le> a then a - b else 0)"

definition bal_mul :: "u256 \<Rightarrow> u256 \<Rightarrow> u256" where
  "bal_mul a b = (if unat a * unat b < 2 ^ 256 then a * b else u256_max)"

definition bal_sum :: "u256 list \<Rightarrow> u256" where
  "bal_sum xs = foldl bal_add 0 xs"

definition bal_is_zero :: "u256 \<Rightarrow> bool" where
  "bal_is_zero b \<longleftrightarrow> b = 0"

definition bal_to_be :: "u256 \<Rightarrow> bytes" where
  "bal_to_be b = u256_to_be b"

definition bal_from_be :: "bytes \<Rightarrow> u256" where
  "bal_from_be bs = u256_from_be bs"

text \<open>\<open>new_base\<close>: the value times \<open>10 ^ 18\<close>; the product of \<open>U256\<close> panics when it overflows.\<close>

definition bal_new_base :: "u256 \<Rightarrow> ('e, u256) result" where
  "bal_new_base v = (if unat v * 10 ^ 18 < 2 ^ 256 then Ok (v * 10 ^ 18) else Panicked)"

lemma unat_less_u256: "unat (a :: u256) < 2 ^ 256"
  using unat_bound [of a] by simp

lemma unat_u256_max: "unat u256_max = 2 ^ 256 - 1"
  by (simp add: u256_max_def unsigned_minus_1_eq_mask mask_eq_exp_minus_1)

lemma unat_bal_add [simp]: "unat (bal_add a b) = min (unat a + unat b) (2 ^ 256 - 1)"
  by (simp add: bal_add_def unat_u256_max unat_word_ariths)

lemma unat_bal_sub [simp]: "unat (bal_sub a b) = unat a - unat b"
  by (auto simp: bal_sub_def unat_sub word_le_nat_alt)

lemma unat_bal_mul [simp]: "unat (bal_mul a b) = min (unat a * unat b) (2 ^ 256 - 1)"
  by (simp add: bal_mul_def unat_u256_max unat_word_ariths)

lemma unat_foldl_bal_add:
  "unat (foldl bal_add a xs) = min (unat a + sum_list (map unat xs)) (2 ^ 256 - 1)"
proof (induction xs arbitrary: a)
  case Nil
  then show ?case using unat_less_u256 [of a] by simp
next
  case (Cons x xs)
  show ?case by (simp add: Cons.IH min_def)
qed

lemma u256_eq_iff: "(a :: u256) = b \<longleftrightarrow> unat a = unat b"
  by (simp add: word_unat_eq_iff)

text \<open>Balances behave like natural numbers clipped to the range of 256 bits: sums, differences and
products saturate instead of wrapping, a list of balances sums to the clipped exact sum in whatever order, and
adding and then subtracting never creates value.\<close>
lemma balance_saturates:
  "unat (bal_add a b) = min (unat a + unat b) (2 ^ 256 - 1)
   \<and> unat (bal_sub a b) = unat a - unat b
   \<and> unat (bal_mul a b) = min (unat a * unat b) (2 ^ 256 - 1)
   \<and> unat (bal_sum xs) = min (sum_list (map unat xs)) (2 ^ 256 - 1)
   \<and> bal_sub (bal_add a b) b \<le> a"
  by (simp add: bal_sum_def unat_foldl_bal_add word_le_nat_alt)

section \<open>Products and quotients with a float of the unit interval\<close>

text \<open>Rounding to the nearest integer, ties to even.\<close>

definition round_half_even :: "rat \<Rightarrow> int" where
  "round_half_even x =
     (let k = \<lfloor>x\<rfloor>; r = x - of_int k in
      if r < 1 / 2 then k else if r > 1 / 2 then k + 1 else if even k then k else k + 1)"

text \<open>
  The double \<open>1 + k / 2 ^ 52\<close> for \<open>k \<le> 2 ^ 52\<close> and its bits: exponent field 1023 below 2, and 1024 with a zero
  fraction at 2.
\<close>

definition f64_one_plus :: "rat \<Rightarrow> nat" where
  "f64_one_plus r = nat (round_half_even (r * 2 ^ 52))"

definition f64_next_one_plus :: "nat \<Rightarrow> nat" where
  "f64_next_one_plus k = (if k < 2 ^ 52 then k + 1 else k)"

definition f64_bits_one_plus :: "nat \<Rightarrow> u64" where
  "f64_bits_one_plus k = (if k < 2 ^ 52 then push_bit 52 1023 OR of_nat k else push_bit 52 1024)"

definition f64_fraction :: "u64 \<Rightarrow> u64" where
  "f64_fraction bits = bits AND 0x000FFFFFFFFFFFFF"

text \<open>
  The factor is \<open>None\<close> for a NaN, which \<open>mul_f64\<close> rejects (it is in no range) and \<open>div_f64\<close>
  does not (both comparisons are false): the sum with 1 is again the quiet NaN, whose fraction bits are \<open>2 ^ 51\<close>. The
  infinities are rejected by both, like every other float outside the interval.
\<close>

definition u256_mul_f64 :: "u256 \<Rightarrow> rat option \<Rightarrow> (general_error, u256) result" where
  "u256_mul_f64 v rhs =
     (case rhs of
        None \<Rightarrow> Err InvalidInput
      | Some r \<Rightarrow>
          if \<not> (0 \<le> r \<and> r \<le> 1) then Err InvalidInput
          else if r = 1 then Ok v
          else if r = 0 then Ok 0
          else
            let m = f64_fraction (f64_bits_one_plus (f64_next_one_plus (f64_one_plus r))) in
            if unat v * unat m < 2 ^ 256 then Ok (drop_bit 52 (v * ucast m)) else Panicked)"

definition u256_div_f64 :: "u256 \<Rightarrow> rat option \<Rightarrow> (general_error, u256) result" where
  "u256_div_f64 v rhs =
     (case rhs of
        None \<Rightarrow> Ok (push_bit 52 v div 2 ^ 51)
      | Some r \<Rightarrow>
          if r \<le> 0 \<or> r > 1 then Err InvalidInput
          else if r = 1 then Ok v
          else
            let nom = push_bit 52 v; denom = ucast (f64_fraction (f64_bits_one_plus (f64_one_plus r))) in
            if denom = 0 then Panicked else Ok (nom div denom))"

lemma round_half_even_bounds: "of_int (round_half_even x) - 1 / 2 \<le> x \<and> x \<le> of_int (round_half_even x) + 1 / 2"
proof -
  have "of_int \<lfloor>x\<rfloor> \<le> x" "x < of_int \<lfloor>x\<rfloor> + 1" by linarith+
  then show ?thesis unfolding round_half_even_def Let_def by (simp split: if_split) linarith
qed

lemma round_half_even_of_int [simp]: "round_half_even (of_int k) = k"
  by (simp add: round_half_even_def)

lemma fraction_mask: "f64_fraction w = take_bit 52 w"
proof -
  have "(0x000FFFFFFFFFFFFF :: u64) = mask 52" by (simp add: mask_eq_exp_minus_1)
  then show ?thesis by (simp add: f64_fraction_def take_bit_eq_mask)
qed

lemma fraction_bits: "f64_fraction (f64_bits_one_plus k) = (if k < 2 ^ 52 then of_nat k else 0)"
proof -
  have "take_bit 52 (push_bit 52 w :: u64) = 0" for w
    by (simp add: take_bit_push_bit)
  moreover have "take_bit 52 (of_nat k :: u64) = of_nat k" if "k < 2 ^ 52"
    using that by (simp add: take_bit_of_nat take_bit_nat_eq_self)
  ultimately show ?thesis
    by (simp add: fraction_mask f64_bits_one_plus_def take_bit_or)
qed

lemma f64_one_plus_le: "0 \<le> r \<Longrightarrow> r \<le> 1 \<Longrightarrow> f64_one_plus r \<le> 2 ^ 52"
proof -
  assume r: "0 \<le> r" "r \<le> 1"
  have "of_int (round_half_even (r * 2 ^ 52)) \<le> r * 2 ^ 52 + 1 / 2"
    using round_half_even_bounds [of "r * 2 ^ 52"] by linarith
  also have "\<dots> < of_int (2 ^ 52 + 1)" using r by simp
  finally have "round_half_even (r * 2 ^ 52) < 2 ^ 52 + 1" by (simp only: of_int_less_iff)
  then show ?thesis by (simp add: f64_one_plus_def)
qed

lemma f64_one_plus_bounds:
  assumes "0 \<le> r"
  shows "of_nat (f64_one_plus r) \<le> r * 2 ^ 52 + 1 / 2" and "r * 2 ^ 52 - 1 / 2 \<le> of_nat (f64_one_plus r)"
proof -
  let ?k = "round_half_even (r * 2 ^ 52)"
  have b: "of_int ?k - 1 / 2 \<le> r * 2 ^ 52" "r * 2 ^ 52 \<le> of_int ?k + 1 / 2"
    using round_half_even_bounds [of "r * 2 ^ 52"] by simp_all
  have "0 \<le> r * 2 ^ 52" using assms by simp
  with b(2) have "- 1 < (of_int ?k :: rat)" by linarith
  then have "0 \<le> ?k" by linarith
  then have "(of_nat (f64_one_plus r) :: rat) = of_int ?k" by (simp add: f64_one_plus_def)
  with b show "of_nat (f64_one_plus r) \<le> r * 2 ^ 52 + 1 / 2" "r * 2 ^ 52 - 1 / 2 \<le> of_nat (f64_one_plus r)"
    by linarith+
qed

lemma of_nat_unat_id: "of_nat (unat w) = (w :: 'a::len word)"
  by simp

text \<open>The factor of \<open>mul_f64\<close>: the rounded float plus one unit in the last place, and 0 from \<open>1 - 2 ^ -52\<close> on.\<close>

definition mul_factor :: "rat \<Rightarrow> nat" where
  "mul_factor r = (if f64_one_plus r + 1 < 2 ^ 52 then f64_one_plus r + 1 else 0)"

lemma unat_mul_fraction:
  assumes "0 \<le> r" and "r \<le> 1"
  shows "unat (f64_fraction (f64_bits_one_plus (f64_next_one_plus (f64_one_plus r)))) = mul_factor r"
proof -
  have "unat (of_nat k :: u64) = k" if "k < 2 ^ 52" for k
    using that by (simp add: unat_of_nat)
  then show ?thesis using f64_one_plus_le [OF assms]
    by (auto simp: fraction_bits mul_factor_def f64_next_one_plus_def simp del: of_nat_Suc of_nat_add)
qed

lemma u256_mul_f64_eq:
  assumes "0 < r" and "r < 1"
  shows "u256_mul_f64 v (Some r) =
     (if unat v * mul_factor r < 2 ^ 256 then Ok (of_nat (unat v * mul_factor r div 2 ^ 52)) else Panicked)"
proof -
  let ?m = "f64_fraction (f64_bits_one_plus (f64_next_one_plus (f64_one_plus r)))"
  have m: "unat ?m = mul_factor r" using unat_mul_fraction assms by simp
  have um: "unat (ucast ?m :: u256) = mul_factor r"
    using unat_bound [of ?m] by (simp add: unsigned_ucast_eq m [symmetric] take_bit_nat_eq_self)
  have "drop_bit 52 (v * ucast ?m) = (of_nat (unat v * mul_factor r div 2 ^ 52) :: u256)"
    if "unat v * mul_factor r < 2 ^ 256"
  proof -
    have "unat (v * ucast ?m) = unat v * mul_factor r"
      using that by (simp add: unat_word_ariths um)
    then have "unat (drop_bit 52 (v * ucast ?m)) = unat v * mul_factor r div 2 ^ 52"
      using unat_drop_bit_eq [of 52 "v * ucast ?m"] by (simp only: drop_bit_eq_div [of _ "unat v * mul_factor r"])
    then show ?thesis by (metis of_nat_unat_id)
  qed
  then show ?thesis using assms by (simp add: u256_mul_f64_def Let_def m)
qed

lemma mul_factor_bounds:
  assumes "0 < r" and "r \<le> 1 - 2 / 2 ^ 52"
  shows "r * 2 ^ 52 \<le> of_nat (mul_factor r)" and "of_nat (mul_factor r) \<le> r * 2 ^ 52 + 3 / 2"
    and "mul_factor r < 2 ^ 52"
proof -
  have b: "of_nat (f64_one_plus r) \<le> r * 2 ^ 52 + 1 / 2" "r * 2 ^ 52 - 1 / 2 \<le> of_nat (f64_one_plus r)"
    using f64_one_plus_bounds assms by simp_all
  have "r * 2 ^ 52 \<le> 2 ^ 52 - 2" using assms(2) by simp
  with b(1) have "(of_nat (f64_one_plus r + 1) :: rat) < of_nat (2 ^ 52)" by simp
  then have "f64_one_plus r + 1 < 2 ^ 52" by (simp only: of_nat_less_iff)
  then have "mul_factor r = f64_one_plus r + 1" by (simp add: mul_factor_def)
  with b \<open>f64_one_plus r + 1 < 2 ^ 52\<close> show "r * 2 ^ 52 \<le> of_nat (mul_factor r)"
    "of_nat (mul_factor r) \<le> r * 2 ^ 52 + 3 / 2" "mul_factor r < 2 ^ 52" by simp_all
qed

lemma div_floor_bounds:
  assumes "0 < (d :: nat)"
  shows "(of_nat (n div d) :: rat) \<le> of_nat n / of_nat d" and "(of_nat n :: rat) / of_nat d < of_nat (n div d) + 1"
proof -
  have "n div d * d \<le> n" "n < (n div d + 1) * d"
    using assms by (auto simp: div_times_less_eq_dividend dividend_less_div_times)
  then have "(of_nat (n div d) :: rat) * of_nat d \<le> of_nat n" "(of_nat n :: rat) < (of_nat (n div d) + 1) * of_nat d"
    by (metis of_nat_le_iff of_nat_mult, metis of_nat_1 of_nat_add of_nat_less_iff of_nat_mult)
  then show "(of_nat (n div d) :: rat) \<le> of_nat n / of_nat d" "(of_nat n :: rat) / of_nat d < of_nat (n div d) + 1"
    using assms by (simp_all add: field_simps)
qed

text \<open>Multiplying an amount with a float that is not within two units in the last place of 1 never gives
more than the amount, is at most one below the exact product, and exceeds it by at most the amount times 3 / 2 ^ 53;
it panics exactly when the integer product of the implementation does not fit in 256 bits.\<close>
lemma mul_f64_accurate:
  assumes "0 < r" and "r \<le> 1 - 2 / 2 ^ 52"
  shows "(u256_mul_f64 v (Some r) = Panicked \<longleftrightarrow> 2 ^ 256 \<le> unat v * mul_factor r)
     \<and> (\<forall>y. u256_mul_f64 v (Some r) = Ok y \<longrightarrow>
          y \<le> v \<and> of_nat (unat v) * r - 1 < of_nat (unat y)
          \<and> of_nat (unat y) \<le> of_nat (unat v) * (r + 3 / 2 ^ 53))"
proof -
  have "0 < (2 / 2 ^ 52 :: rat)" by simp
  with assms(2) have r1: "r < 1" by linarith
  note eq = u256_mul_f64_eq [OF assms(1) r1] and f = mul_factor_bounds [OF assms]
  have "y \<le> v \<and> of_nat (unat v) * r - 1 < of_nat (unat y) \<and> of_nat (unat y) \<le> of_nat (unat v) * (r + 3 / 2 ^ 53)"
    if y: "u256_mul_f64 v (Some r) = Ok y" for y
  proof -
    let ?p = "unat v * mul_factor r"
    have "?p \<le> unat v * 2 ^ 52" using f(3) by simp
    then have le: "?p div 2 ^ 52 \<le> unat v" by (metis div_le_mono nonzero_mult_div_cancel_right power_not_zero zero_neq_numeral)
    then have uy: "unat y = ?p div 2 ^ 52"
      using y eq unat_less_u256 [of v] by (auto simp: unat_of_nat split: if_splits)
    have p: "(of_nat ?p :: rat) / 2 ^ 52 = of_nat (unat v) * (of_nat (mul_factor r) / 2 ^ 52)" by simp
    have b: "of_nat (unat y) \<le> (of_nat ?p :: rat) / 2 ^ 52" "(of_nat ?p :: rat) / 2 ^ 52 < of_nat (unat y) + 1"
      using div_floor_bounds [of "2 ^ 52" ?p] uy by simp_all
    have q: "r \<le> of_nat (mul_factor r) / 2 ^ 52" "of_nat (mul_factor r) / 2 ^ 52 \<le> r + 3 / 2 ^ 53"
      using f(1,2) by (simp_all add: field_simps)
    have "of_nat (unat v) * r \<le> (of_nat ?p :: rat) / 2 ^ 52" "(of_nat ?p :: rat) / 2 ^ 52 \<le> of_nat (unat v) * (r + 3 / 2 ^ 53)"
      unfolding p using q by (simp_all only: mult_left_mono of_nat_0_le_iff)
    with b le uy show ?thesis unfolding word_le_nat_alt by linarith
  qed
  then show ?thesis using eq by auto
qed

lemma mul_f64_accurate_witness:
  "\<exists>y. u256_mul_f64 1000 (Some (1 / 4)) = Ok y \<and> y \<le> 1000 \<and> 249 < unat y"
proof -
  have e: "f64_one_plus (1 / 4) = 2 ^ 50" by (simp add: f64_one_plus_def round_half_even_def Let_def)
  have "u256_mul_f64 1000 (Some (1 / 4)) = Ok 250"
    by (subst u256_mul_f64_eq) (simp_all add: mul_factor_def e)
  moreover have "(0 :: rat) < 1 / 4" "(1 / 4 :: rat) \<le> 1 - 2 / 2 ^ 52" by simp_all
  from mul_f64_accurate [OF this, of 1000] calculation have "(250 :: u256) \<le> 1000" by blast
  ultimately show ?thesis by simp
qed

text \<open>For a float strictly between \<open>1 - 2 ^ -52\<close> (inclusive) and 1, the added epsilon carries the sum to 2, whose
fraction bits are zero: the product is 0 instead of almost the whole amount.\<close>
lemma mul_f64_collapses_near_one:
  assumes "1 - 1 / 2 ^ 52 \<le> r" and "r < 1"
  shows "u256_mul_f64 v (Some r) = Ok 0"
proof -
  have "(0 :: rat) < 1 - 1 / 2 ^ 52" by simp
  with assms(1) have r0: "0 < r" by linarith
  have "2 ^ 52 - 1 \<le> r * 2 ^ 52" using assms(1) by (simp add: field_simps)
  with f64_one_plus_bounds(2) [of r] r0 have "(of_nat (2 ^ 52 - 2) :: rat) < of_nat (f64_one_plus r)"
    by simp
  then have "2 ^ 52 - 2 < f64_one_plus r" by (simp only: of_nat_less_iff)
  then have "mul_factor r = 0" by (simp add: mul_factor_def)
  with r0 assms(2) show ?thesis by (simp add: u256_mul_f64_eq)
qed

lemma mul_f64_collapses_near_one_witness:
  "u256_mul_f64 1000 (Some (1 - 1 / 2 ^ 52)) = Ok 0"
  by (rule mul_f64_collapses_near_one) simp_all

lemma unat_div_fraction:
  assumes "0 \<le> r" and "r \<le> 1"
  shows "unat (ucast (f64_fraction (f64_bits_one_plus (f64_one_plus r))) :: u256) = f64_one_plus r mod 2 ^ 52"
proof -
  have u: "unat (of_nat k :: u64) = k" if "k < 2 ^ 52" for k
    using that by (simp add: unat_of_nat)
  have "unat (f64_fraction (f64_bits_one_plus (f64_one_plus r))) = f64_one_plus r mod 2 ^ 52"
  proof (cases "f64_one_plus r < 2 ^ 52")
    case True
    then show ?thesis by (simp add: fraction_bits u del: of_nat_Suc)
  next
    case False
    then have "f64_one_plus r = 2 ^ 52" using f64_one_plus_le [OF assms] by simp
    then show ?thesis by (simp add: fraction_bits)
  qed
  then show ?thesis
    using unat_bound [of "f64_fraction (f64_bits_one_plus (f64_one_plus r))"]
    by (simp add: unsigned_ucast_eq take_bit_nat_eq_self)
qed

lemma f64_one_plus_zero_iff: "0 \<le> r \<Longrightarrow> f64_one_plus r = 0 \<longleftrightarrow> r \<le> 1 / 2 ^ 53"
proof
  assume r: "0 \<le> r" and "f64_one_plus r = 0"
  with f64_one_plus_bounds(2) [of r] show "r \<le> 1 / 2 ^ 53" by (simp add: field_simps)
next
  assume r: "0 \<le> r" and s: "r \<le> 1 / 2 ^ 53"
  then have "r * 2 ^ 52 \<le> 1 / 2" "0 \<le> r * 2 ^ 52" by (simp_all add: field_simps)
  then have "\<lfloor>r * 2 ^ 52\<rfloor> = 0" by linarith
  with \<open>r * 2 ^ 52 \<le> 1 / 2\<close> show "f64_one_plus r = 0"
    by (auto simp: f64_one_plus_def round_half_even_def Let_def)
qed

text \<open>Dividing an amount by a float of the interval (0, 1) panics exactly for the floats that vanish
when 1 is added to them (at most \<open>2 ^ -53\<close>) or round up to 2; for every other float it gives the amount shifted by 52
bits (modulo \<open>2 ^ 256\<close>) divided by the fraction bits.\<close>
lemma div_f64_outcome:
  assumes "0 < r" and "r < 1"
  shows "u256_div_f64 v (Some r) =
     (if r \<le> 1 / 2 ^ 53 \<or> f64_one_plus r = 2 ^ 52 then Panicked
      else Ok (of_nat (unat v * 2 ^ 52 mod 2 ^ 256 div f64_one_plus r)))"
proof -
  let ?d = "ucast (f64_fraction (f64_bits_one_plus (f64_one_plus r))) :: u256"
  have d: "unat ?d = f64_one_plus r mod 2 ^ 52" using assms by (intro unat_div_fraction) simp_all
  have le: "f64_one_plus r \<le> 2 ^ 52" using assms by (intro f64_one_plus_le) simp_all
  then have "f64_one_plus r mod 2 ^ 52 = 0 \<longleftrightarrow> f64_one_plus r = 0 \<or> f64_one_plus r = 2 ^ 52"
    by (cases "f64_one_plus r = 2 ^ 52") auto
  moreover have "?d = 0 \<longleftrightarrow> f64_one_plus r mod 2 ^ 52 = 0" unfolding d [symmetric] by (simp only: unat_eq_0)
  ultimately have "?d = 0 \<longleftrightarrow> f64_one_plus r = 0 \<or> f64_one_plus r = 2 ^ 52" by simp
  then have z: "?d = 0 \<longleftrightarrow> r \<le> 1 / 2 ^ 53 \<or> f64_one_plus r = 2 ^ 52"
    using assms by (simp add: f64_one_plus_zero_iff)
  have "push_bit 52 v div ?d = of_nat (unat v * 2 ^ 52 mod 2 ^ 256 div f64_one_plus r)"
    if "f64_one_plus r \<noteq> 2 ^ 52"
  proof -
    have "unat (push_bit 52 v) = unat v * 2 ^ 52 mod 2 ^ 256"
      by (simp add: push_bit_eq_mult unat_word_ariths)
    moreover have "unat ?d = f64_one_plus r" using d le that by simp
    ultimately have "unat (push_bit 52 v div ?d) = unat v * 2 ^ 52 mod 2 ^ 256 div f64_one_plus r"
      by (simp only: unat_div_distrib)
    then show ?thesis by (metis of_nat_unat_id)
  qed
  then show ?thesis using assms z by (simp add: u256_div_f64_def Let_def)
qed

lemma div_f64_outcome_witness:
  "u256_div_f64 100 (Some (1 / 4)) = Ok 400 \<and> u256_div_f64 100 (Some (1 / 2 ^ 60)) = Panicked"
proof -
  have e: "f64_one_plus (1 / 4) = 2 ^ 50" by (simp add: f64_one_plus_def round_half_even_def Let_def)
  have "u256_div_f64 100 (Some (1 / 4)) = Ok 400" by (subst div_f64_outcome) (simp_all add: e)
  moreover have "u256_div_f64 100 (Some (1 / 2 ^ 60)) = Panicked" by (subst div_f64_outcome) simp_all
  ultimately show ?thesis by simp
qed

section \<open>Bounded sizes and vectors\<close>

type_synonym bounded_size = nat

definition bs_try_from_usize :: "nat \<Rightarrow> nat \<Rightarrow> (general_error, bounded_size) result" where
  "bs_try_from_usize B value = (if value \<le> B then Ok value else Err InvalidInput)"

definition bs_try_from_isize :: "nat \<Rightarrow> int \<Rightarrow> (general_error, bounded_size) result" where
  "bs_try_from_isize B value = (if value \<ge> 0 then bs_try_from_usize B (nat value) else Err InvalidInput)"

definition bs_into_u8 :: "bounded_size \<Rightarrow> u8" where
  "bs_into_u8 v = of_nat v"

type_synonym 'a bounded_vec = "'a list"

definition bv_try_from :: "nat \<Rightarrow> 'a list \<Rightarrow> (general_error, 'a bounded_vec) result" where
  "bv_try_from N value = (if length value \<le> N then Ok value else Err InvalidInput)"

definition bv_from_iter :: "nat \<Rightarrow> 'a list \<Rightarrow> 'a bounded_vec" where
  "bv_from_iter N xs = take N xs"

text \<open>Into an array of the full size: the missing elements are the default.\<close>

definition bv_into_array :: "nat \<Rightarrow> 'a \<Rightarrow> 'a bounded_vec \<Rightarrow> ('e, 'a list) result" where
  "bv_into_array N d v =
     foldl (\<lambda>out (i, e). and_then out (\<lambda>out. if i < length out then Ok (out[i := e]) else Panicked))
       (Ok (replicate N d)) (List.enumerate 0 v)"

lemma bv_into_array_loop:
  "length done + length v \<le> N \<Longrightarrow>
   foldl (\<lambda>out (i, e). and_then out (\<lambda>out. if i < length out then Ok (out[i := e]) else Panicked))
     (Ok (done @ replicate (N - length done) d)) (List.enumerate (length done) v)
   = Ok (done @ v @ replicate (N - length done - length v) d)"
proof (induction v arbitrary: "done")
  case (Cons e v)
  have "N - length done = Suc (N - Suc (length done))" using Cons.prems by simp
  then have "(done @ replicate (N - length done) d)[length done := e]
      = (done @ [e]) @ replicate (N - Suc (length done)) d" by simp
  with Cons.IH [of "done @ [e]"] Cons.prems show ?case by simp
qed simp

text \<open>Bounded sizes and vectors never exceed their bound, whichever way they are made, and a bounded
vector becomes a full array without panic, its elements first and defaults after them.\<close>
lemma bounded_types_respect_bound:
  "(\<forall>x y. bs_try_from_usize B x = Ok y \<longleftrightarrow> y = x \<and> x \<le> B)
   \<and> (\<forall>i y. bs_try_from_isize B i = Ok y \<longleftrightarrow> int y = i \<and> y \<le> B)
   \<and> (\<forall>xs v. bv_try_from N xs = Ok v \<longleftrightarrow> v = xs \<and> length v \<le> N)
   \<and> length (bv_from_iter N xs) \<le> N
   \<and> bv_into_array N d (bv_from_iter N xs) = Ok (take N xs @ replicate (N - length xs) d)"
proof -
  have "bv_into_array N d (bv_from_iter N xs) = Ok (take N xs @ replicate (N - length xs) d)"
    using bv_into_array_loop [of "[]" "take N xs" N d]
    by (cases "length xs \<le> N") (simp_all add: bv_into_array_def bv_from_iter_def)
  then show ?thesis
    by (auto simp: bs_try_from_usize_def bs_try_from_isize_def bv_try_from_def bv_from_iter_def)
qed

section \<open>Moving averages\<close>

text \<open>
  The samples are of any type with cancelling addition (durations, integers, exact fractions); \<open>dv\<close> is the
  division of a sum by the number of samples.
\<close>

record 'a no_sum_sma =
  ns_window :: "'a list"
  ns_window_size :: nat

record 'a single_sum_sma =
  sma_window :: "'a list"
  sma_window_size :: nat
  sma_sum :: 'a

definition ns_new :: "nat \<Rightarrow> ('e, 'a no_sum_sma) result" where
  "ns_new n = (if n > 1 then Ok \<lparr>ns_window = [], ns_window_size = n\<rparr> else Panicked)"

definition ns_is_window_full :: "'a no_sum_sma \<Rightarrow> bool" where
  "ns_is_window_full s \<longleftrightarrow> length (ns_window s) = ns_window_size s"

definition ns_push :: "'a no_sum_sma \<Rightarrow> 'a \<Rightarrow> 'a no_sum_sma" where
  "ns_push s x =
     s\<lparr>ns_window := (if ns_is_window_full s then tl (ns_window s) else ns_window s) @ [x]\<rparr>"

definition ns_average :: "('a \<Rightarrow> u32 \<Rightarrow> 'a) \<Rightarrow> 'a::comm_monoid_add no_sum_sma \<Rightarrow> 'a option" where
  "ns_average dv s =
     (if ns_window s \<noteq> [] then Some (dv (sum_list (ns_window s)) (of_nat (length (ns_window s)))) else None)"

definition ns_clear :: "'a no_sum_sma \<Rightarrow> 'a no_sum_sma" where
  "ns_clear s = s\<lparr>ns_window := []\<rparr>"

definition sma_new :: "nat \<Rightarrow> ('e, 'a::zero single_sum_sma) result" where
  "sma_new n =
     (if n > 1 then Ok \<lparr>sma_window = [], sma_window_size = n, sma_sum = 0\<rparr> else Panicked)"

definition sma_is_window_full :: "'a single_sum_sma \<Rightarrow> bool" where
  "sma_is_window_full s \<longleftrightarrow> length (sma_window s) = sma_window_size s"

definition sma_push :: "'a::{plus, minus} single_sum_sma \<Rightarrow> 'a \<Rightarrow> 'a single_sum_sma" where
  "sma_push s x =
     (let sum1 = sma_sum s + x in
      if sma_is_window_full s then
        (case sma_window s of
           y # w \<Rightarrow> s\<lparr>sma_sum := sum1 - y, sma_window := w @ [x]\<rparr>
         | [] \<Rightarrow> s\<lparr>sma_sum := sum1, sma_window := [x]\<rparr>)
      else s\<lparr>sma_sum := sum1, sma_window := sma_window s @ [x]\<rparr>)"

definition sma_average :: "('a \<Rightarrow> u32 \<Rightarrow> 'a) \<Rightarrow> 'a single_sum_sma \<Rightarrow> 'a option" where
  "sma_average dv s =
     (if sma_window s \<noteq> [] then Some (dv (sma_sum s) (of_nat (length (sma_window s)))) else None)"

definition sma_clear :: "'a::minus single_sum_sma \<Rightarrow> 'a single_sum_sma" where
  "sma_clear s = s\<lparr>sma_sum := sma_sum s - sma_sum s, sma_window := []\<rparr>"

definition sma_new_with_samples ::
  "nat \<Rightarrow> 'a::{zero, plus, minus} list \<Rightarrow> ('e, 'a single_sum_sma) result" where
  "sma_new_with_samples n xs = map_res (\<lambda>s. foldl sma_push s xs) (sma_new n)"

text \<open>The abstract average: the last \<open>n\<close> samples.\<close>

definition sma_of :: "nat \<Rightarrow> 'a list \<Rightarrow> 'a::cancel_comm_monoid_add single_sum_sma" where
  "sma_of n xs =
     (let w = drop (length xs - n) xs in \<lparr>sma_window = w, sma_window_size = n, sma_sum = sum_list w\<rparr>)"

definition ns_of :: "nat \<Rightarrow> 'a list \<Rightarrow> 'a no_sum_sma" where
  "ns_of n xs = \<lparr>ns_window = drop (length xs - n) xs, ns_window_size = n\<rparr>"

lemma sma_push_of:
  assumes "0 < n"
  shows "sma_push (sma_of n xs) x = sma_of n (xs @ [x])"
proof (cases "n \<le> length xs")
  case True
  then have l: "length (drop (length xs - n) xs) = n" by simp
  then obtain y w where w: "drop (length xs - n) xs = y # w" using assms by (cases "drop (length xs - n) xs") auto
  have "drop (Suc (length xs) - n) (xs @ [x]) = w @ [x]"
  proof -
    have "Suc (length xs) - n = Suc (length xs - n)" using True by simp
    then have "drop (Suc (length xs) - n) xs = w" using w by (metis drop_Suc list.sel(3) tl_drop)
    then show ?thesis using assms by simp
  qed
  with True w l show ?thesis
    by (simp add: sma_push_def sma_of_def sma_is_window_full_def Let_def add.assoc)
next
  case False
  then show ?thesis by (simp add: sma_push_def sma_of_def sma_is_window_full_def Let_def)
qed

lemma ns_push_of: "0 < n \<Longrightarrow> ns_push (ns_of n xs) x = ns_of n (xs @ [x])"
  by (auto simp: ns_push_def ns_of_def ns_is_window_full_def Suc_diff_le drop_Suc tl_drop)

lemma foldl_push_of:
  assumes "0 < n"
  shows "foldl sma_push (sma_of n ys) xs = sma_of n (ys @ xs)" "foldl ns_push (ns_of n ys) xs = ns_of n (ys @ xs)"
  by (induction xs arbitrary: ys) (simp_all add: sma_push_of [OF assms] ns_push_of [OF assms])

text \<open>The constant-time moving average keeps exactly the sum of its window: after any sequence of
samples its average is that of the last \<open>n\<close> samples, and equals the one the summing implementation computes.\<close>
lemma sma_averages_agree:
  fixes xs :: "'a::cancel_comm_monoid_add list"
  assumes "1 < n" and "xs \<noteq> []"
  shows "\<exists>s t. sma_new_with_samples n xs = Ok s \<and> ns_new n = Ok t
     \<and> length (sma_window s) \<le> n
     \<and> sma_average dv s = Some (dv (sum_list (drop (length xs - n) xs)) (of_nat (min n (length xs))))
     \<and> sma_average dv s = ns_average dv (foldl ns_push t xs)"
proof -
  have n: "sma_new_with_samples n xs = Ok (sma_of n xs)"
    using foldl_push_of(1) [of n "[]" xs] assms(1) by (simp add: sma_new_with_samples_def sma_new_def sma_of_def)
  moreover have "ns_new n = Ok (ns_of n [])" using assms(1) by (simp add: ns_new_def ns_of_def)
  moreover have "foldl ns_push (ns_of n []) xs = ns_of n xs"
    using foldl_push_of(2) [of n "[]" xs] assms(1) by simp
  moreover have "length xs - (length xs - n) = min n (length xs)" by simp
  moreover have "\<not> length xs \<le> length xs - n" using assms by (cases xs) auto
  ultimately show ?thesis using assms
    by (intro exI [of _ "sma_of n xs"] exI [of _ "ns_of n []"])
      (auto simp: sma_of_def [of n xs] ns_of_def [of n xs] sma_average_def ns_average_def Let_def)
qed

lemma sma_averages_agree_witness:
  "\<exists>s. sma_new_with_samples 2 [3, 5, 9 :: nat] = Ok s \<and> sma_average (\<lambda>s n. s div unat n) s = Some 7"
  using sma_averages_agree [of 2 "[3, 5, 9 :: nat]" "\<lambda>s n. s div unat n"] by auto

end
