(* ===== verification/Channels.thy ===== *)
theory Channels
  imports Primitives
begin

text \<open>
  Payment channels (\<open>common/internal-types/src/channels.rs\<close>): the status of a channel and its equality,
  the channel entry, and the changes between two entries of the same channel. A point in time is a
  number of nanoseconds since the epoch. The hash function is the argument \<open>keccak\<close>.
\<close>

type_synonym hash = bytes
type_synonym address = bytes

definition nanos_per_sec :: nat where
  "nanos_per_sec = 10 ^ 9"

text \<open>The longest path (\<open>protocol.rs\<close>) has this many relays.\<close>

definition intermediate_hops :: nat where
  "intermediate_hops = 3"

datatype channel_status = Closed | Open | PendingToClose nat

fun status_to_i8 :: "channel_status \<Rightarrow> int" where
  "status_to_i8 Closed = 0"
| "status_to_i8 Open = 1"
| "status_to_i8 (PendingToClose _) = 2"

fun status_eq :: "channel_status \<Rightarrow> channel_status \<Rightarrow> bool" where
  "status_eq Open Open = True"
| "status_eq Closed Closed = True"
| "status_eq (PendingToClose ct_1) (PendingToClose ct_2) =
     ((max ct_1 ct_2 - min ct_1 ct_2) div nanos_per_sec = 0)"
| "status_eq _ _ = False"

datatype channel_direction = Incoming | Outgoing

record channel_entry =
  ce_source :: address
  ce_destination :: address
  ce_balance :: hopr_balance
  ce_ticket_index :: u256
  ce_status :: channel_status
  ce_channel_epoch :: u256
  ce_id :: hash

definition max_channel_balance :: u128 where
  "max_channel_balance = 10 ^ 25"

definition generate_channel_id :: "(bytes list \<Rightarrow> hash) \<Rightarrow> address \<Rightarrow> address \<Rightarrow> hash" where
  "generate_channel_id keccak source destination = keccak [source, destination]"

definition ce_new ::
  "(bytes list \<Rightarrow> hash) \<Rightarrow> address \<Rightarrow> address \<Rightarrow> hopr_balance \<Rightarrow> u256 \<Rightarrow> channel_status \<Rightarrow> u256 \<Rightarrow> channel_entry"
where
  "ce_new keccak source destination balance ticket_index status channel_epoch =
     \<lparr>ce_source = source, ce_destination = destination, ce_balance = balance,
      ce_ticket_index = ticket_index, ce_status = status, ce_channel_epoch = channel_epoch,
      ce_id = generate_channel_id keccak source destination\<rparr>"

definition ce_get_id :: "channel_entry \<Rightarrow> hash" where
  "ce_get_id c = ce_id c"

definition closure_time_passed :: "channel_entry \<Rightarrow> nat \<Rightarrow> bool" where
  "closure_time_passed c current_time =
     (case ce_status c of
        Open \<Rightarrow> False
      | PendingToClose closure_time \<Rightarrow> closure_time \<le> current_time
      | Closed \<Rightarrow> True)"

definition remaining_closure_time :: "channel_entry \<Rightarrow> nat \<Rightarrow> nat option" where
  "remaining_closure_time c current_time =
     (case ce_status c of
        Open \<Rightarrow> None
      | PendingToClose closure_time \<Rightarrow> Some (closure_time - current_time)
      | Closed \<Rightarrow> Some 0)"

definition closure_time_at :: "channel_entry \<Rightarrow> nat option" where
  "closure_time_at c = (case ce_status c of PendingToClose ct \<Rightarrow> Some ct | _ \<Rightarrow> None)"

definition ce_direction :: "channel_entry \<Rightarrow> address \<Rightarrow> channel_direction option" where
  "ce_direction c me =
     (if ce_source c = me then Some Outgoing
      else if ce_destination c = me then Some Incoming
      else None)"

definition ce_orientation :: "channel_entry \<Rightarrow> address \<Rightarrow> (channel_direction \<times> address) option" where
  "ce_orientation c me =
     (if ce_source c = me then Some (Outgoing, ce_destination c)
      else if ce_destination c = me then Some (Incoming, ce_source c)
      else None)"

section \<open>Changes of a channel\<close>

datatype channel_change =
    StatusChange channel_status channel_status
  | CurrentBalance hopr_balance hopr_balance
  | Epoch u32 u32
  | TicketIndex u64 u64

text \<open>\<open>U256::as_u32\<close> and \<open>U256::as_u64\<close> panic when the value does not fit.\<close>

definition u256_as_u32 :: "u256 \<Rightarrow> ('e, u32) result" where
  "u256_as_u32 x = (if unat x < 2 ^ 32 then Ok (ucast x) else Panicked)"

definition u256_as_u64 :: "u256 \<Rightarrow> ('e, u64) result" where
  "u256_as_u64 x = (if unat x < 2 ^ 64 then Ok (ucast x) else Panicked)"

definition diff_channels :: "channel_entry \<Rightarrow> channel_entry \<Rightarrow> ('e, channel_change list) result" where
  "diff_channels left right =
     (if ce_id left \<noteq> ce_id right then Panicked
      else
        let ret = (if \<not> status_eq (ce_status left) (ce_status right)
                   then [StatusChange (ce_status left) (ce_status right)] else []);
            ret = ret @ (if ce_balance left \<noteq> ce_balance right
                   then [CurrentBalance (ce_balance left) (ce_balance right)] else [])
        in
        and_then
          (if ce_channel_epoch left \<noteq> ce_channel_epoch right then
             and_then (u256_as_u32 (ce_channel_epoch left)) (\<lambda>l.
             and_then (u256_as_u32 (ce_channel_epoch right)) (\<lambda>r. Ok (ret @ [Epoch l r])))
           else Ok ret) (\<lambda>ret.
        if ce_ticket_index left \<noteq> ce_ticket_index right then
          and_then (u256_as_u64 (ce_ticket_index left)) (\<lambda>l.
          and_then (u256_as_u64 (ce_ticket_index right)) (\<lambda>r. Ok (ret @ [TicketIndex l r])))
        else Ok ret))"

section \<open>Properties\<close>

lemma status_eq_refl [simp]: "status_eq s s"
  by (cases s) (auto simp: nanos_per_sec_def)

lemma status_eq_pending:
  "status_eq (PendingToClose a) (PendingToClose b) \<longleftrightarrow> a < b + nanos_per_sec \<and> b < a + nanos_per_sec"
  by (auto simp: nanos_per_sec_def div_eq_0_iff max_def min_def)

text \<open>The equality of channel statuses is reflexive and symmetric and compares closing times up to less
than a second, but it is not transitive, although the type declares a full equivalence.\<close>
lemma status_eq_is_tolerance:
  "status_eq s s
   \<and> (status_eq s t \<longleftrightarrow> status_eq t s)
   \<and> (status_eq (PendingToClose a) (PendingToClose b) \<longleftrightarrow> a < b + nanos_per_sec \<and> b < a + nanos_per_sec)
   \<and> (\<exists>x y z. status_eq x y \<and> status_eq y z \<and> \<not> status_eq x z)"
proof -
  have "status_eq (PendingToClose 0) (PendingToClose (600 * 10 ^ 6))"
    "status_eq (PendingToClose (600 * 10 ^ 6)) (PendingToClose (1200 * 10 ^ 6))"
    "\<not> status_eq (PendingToClose 0) (PendingToClose (1200 * 10 ^ 6))"
    unfolding status_eq_pending by (simp_all add: nanos_per_sec_def)
  moreover have "status_eq s t \<longleftrightarrow> status_eq t s"
    by (cases s; cases t) (auto simp: max.commute min.commute)
  ultimately show ?thesis using status_eq_pending status_eq_refl by blast
qed

text \<open>A pending channel can be closed exactly when its remaining closure time is over; an open channel has no
closure time and can never be closed directly; a closed channel has none left.\<close>
lemma closure_time_consistent:
  "(closure_time_passed c now \<longleftrightarrow> remaining_closure_time c now = Some 0)
   \<and> (ce_status c = Open \<longleftrightarrow> remaining_closure_time c now = None)
   \<and> (\<forall>t. closure_time_at c = Some t \<longrightarrow> remaining_closure_time c now = Some (t - now)
        \<and> closure_time_passed c t \<and> (now < t \<longrightarrow> \<not> closure_time_passed c now))"
  by (auto simp: closure_time_passed_def remaining_closure_time_def closure_time_at_def
      split: channel_status.splits)

lemma closure_time_consistent_witness:
  "closure_time_passed (ce_new (\<lambda>_. []) [] [] 0 0 (PendingToClose 5) 0) 5
   \<and> \<not> closure_time_passed (ce_new (\<lambda>_. []) [] [] 0 0 (PendingToClose 5) 0) 4"
proof -
  have "closure_time_at (ce_new (\<lambda>_. []) [] [] 0 0 (PendingToClose 5) 0) = Some 5"
    by (simp add: closure_time_at_def ce_new_def)
  with closure_time_consistent [of "ce_new (\<lambda>_. []) [] [] 0 0 (PendingToClose 5) 0" 4]
  show ?thesis by auto
qed

subsection \<open>Applying the changes\<close>

fun apply_change :: "channel_entry \<Rightarrow> channel_change \<Rightarrow> channel_entry" where
  "apply_change c (StatusChange _ s) = c\<lparr>ce_status := s\<rparr>"
| "apply_change c (CurrentBalance _ b) = c\<lparr>ce_balance := b\<rparr>"
| "apply_change c (Epoch _ e) = c\<lparr>ce_channel_epoch := ucast e\<rparr>"
| "apply_change c (TicketIndex _ i) = c\<lparr>ce_ticket_index := ucast i\<rparr>"

lemma ucast_u32_u256: "unat (x :: u256) < 2 ^ 32 \<Longrightarrow> ucast (ucast x :: u32) = x"
  by (simp add: word_unat_eq_iff unsigned_ucast_eq unsigned_take_bit_eq take_bit_nat_eq_self)

lemma ucast_u64_u256: "unat (x :: u256) < 2 ^ 64 \<Longrightarrow> ucast (ucast x :: u64) = x"
  by (simp add: word_unat_eq_iff unsigned_ucast_eq unsigned_take_bit_eq take_bit_nat_eq_self)

text \<open>What \<open>diff_channels\<close> needs: the same channel, and epochs and indices that fit where they differ.\<close>

definition comparable :: "channel_entry \<Rightarrow> channel_entry \<Rightarrow> bool" where
  "comparable l r \<longleftrightarrow> ce_id l = ce_id r
     \<and> (ce_channel_epoch l \<noteq> ce_channel_epoch r \<longrightarrow>
          unat (ce_channel_epoch l) < 2 ^ 32 \<and> unat (ce_channel_epoch r) < 2 ^ 32)
     \<and> (ce_ticket_index l \<noteq> ce_ticket_index r \<longrightarrow>
          unat (ce_ticket_index l) < 2 ^ 64 \<and> unat (ce_ticket_index r) < 2 ^ 64)"

lemma diff_channels_eq:
  "diff_channels l r =
     (if comparable l r then
        Ok ((if \<not> status_eq (ce_status l) (ce_status r) then [StatusChange (ce_status l) (ce_status r)] else [])
          @ (if ce_balance l \<noteq> ce_balance r then [CurrentBalance (ce_balance l) (ce_balance r)] else [])
          @ (if ce_channel_epoch l \<noteq> ce_channel_epoch r
             then [Epoch (ucast (ce_channel_epoch l)) (ucast (ce_channel_epoch r))] else [])
          @ (if ce_ticket_index l \<noteq> ce_ticket_index r
             then [TicketIndex (ucast (ce_ticket_index l)) (ucast (ce_ticket_index r))] else []))
      else Panicked)"
  by (auto simp: diff_channels_def comparable_def u256_as_u32_def u256_as_u64_def Let_def)

text \<open>Comparing two entries panics exactly when they are different channels or a changed epoch or
ticket index does not fit its type; otherwise the reported changes are complete: applied to the first entry
they give the status (up to a second), balance, epoch and ticket index of the second, and they are empty exactly when these agree.\<close>
lemma diff_channels_complete:
  "(diff_channels l r = Panicked \<longleftrightarrow> \<not> comparable l r)
   \<and> (\<forall>chs. diff_channels l r = Ok chs \<longrightarrow>
        (let c = foldl apply_change l chs in
           status_eq (ce_status c) (ce_status r) \<and> ce_balance c = ce_balance r
           \<and> ce_channel_epoch c = ce_channel_epoch r \<and> ce_ticket_index c = ce_ticket_index r
           \<and> ce_source c = ce_source l \<and> ce_destination c = ce_destination l \<and> ce_id c = ce_id r)
        \<and> (chs = [] \<longleftrightarrow> status_eq (ce_status l) (ce_status r) \<and> ce_balance l = ce_balance r
             \<and> ce_channel_epoch l = ce_channel_epoch r \<and> ce_ticket_index l = ce_ticket_index r))"
  unfolding diff_channels_eq comparable_def Let_def
  by (auto simp: ucast_u32_u256 ucast_u64_u256)

lemma diff_channels_complete_witness:
  "\<exists>chs. diff_channels (ce_new (\<lambda>_. []) [1] [2] 7 0 Open 1) (ce_new (\<lambda>_. []) [1] [2] 9 0 Open 2)
        = (Ok chs :: (unit, _) result)
     \<and> ce_balance (foldl apply_change (ce_new (\<lambda>_. []) [1] [2] 7 0 Open 1) chs) = 9"
proof -
  let ?l = "ce_new (\<lambda>_. []) [1] [2] 7 0 Open 1" and ?r = "ce_new (\<lambda>_. []) [1] [2] 9 0 Open 2"
  have "comparable ?l ?r" by (simp add: comparable_def ce_new_def generate_channel_id_def)
  then obtain chs where chs: "diff_channels ?l ?r = (Ok chs :: (unit, _) result)"
    by (simp add: diff_channels_eq)
  with diff_channels_complete [where 'b = unit and l = ?l and r = ?r]
  have "ce_balance (foldl apply_change ?l chs) = ce_balance ?r" unfolding Let_def by blast
  with chs show ?thesis by (auto simp: ce_new_def)
qed

text \<open>The orientation of a channel agrees with its direction and names the other party; a channel whose
two ends are the same address is always outgoing.\<close>
lemma orientation_agrees:
  "map_option fst (ce_orientation c me) = ce_direction c me
   \<and> (\<forall>d p. ce_orientation c me = Some (d, p) \<longrightarrow>
        (d = Outgoing \<and> ce_source c = me \<and> ce_destination c = p)
        \<or> (d = Incoming \<and> ce_destination c = me \<and> ce_source c = p \<and> p \<noteq> me))
   \<and> (ce_direction c me = None \<longleftrightarrow> me \<notin> {ce_source c, ce_destination c})"
  by (auto simp: ce_orientation_def ce_direction_def)

lemma orientation_agrees_witness:
  "ce_orientation (ce_new (\<lambda>_. []) [1] [2] 7 0 Open 1) [2] = Some (Incoming, [1])
   \<and> ce_direction (ce_new (\<lambda>_. []) [1] [2] 7 0 Open 1) [2] = Some Incoming"
proof -
  have "ce_orientation (ce_new (\<lambda>_. []) [1] [2] 7 0 Open 1) [2] = Some (Incoming, [1])"
    by (simp add: ce_orientation_def ce_new_def)
  with orientation_agrees [of "ce_new (\<lambda>_. []) [1] [2] 7 0 Open 1" "[2]"] show ?thesis by auto
qed

end
