(* ===== verification/Tickets.thy ===== *)
theory Tickets
  imports Channels Wire_Codec Transition
begin

text \<open>
  Tickets (\<open>common/internal-types/src/tickets.rs\<close>): the winning probability, the builder and its checks,
  the wire format and the hash of a ticket, signing and verification, and the states a ticket goes
  through until it can be redeemed.

  The cryptography the code calls is a record of functions: the hash \<open>cr_keccak\<close>, signing and recovery of
  the signer, the derivation of the VRF parameters (from a random seed) and the group operations
  behind the Proof-of-Relay response. What a theorem relies on of it is a hypothesis of the theorem.
  \<open>approx\<close> is the approximate comparison of floats of the \<open>float_cmp\<close> crate at the tolerance of the
  source.
\<close>

section \<open>Errors\<close>

datatype crypto_error =
    InvalidParameterSize string nat
  | InvalidInputValue string
  | InvalidSecretScalar
  | InvalidPublicKey
  | TagMismatch
  | EllipticCurveError
  | CalculationError
  | SignatureVerification
  | SealingError
  | InvalidChallenge
  | InvalidVrfValues
  | OtherCryptoError general_error

datatype core_types_error =
    InvalidInputData string
  | CoreParseError string
  | ArithmeticError string
  | InvalidTicketRecipient
  | InvalidAcknowledgement
  | InvalidWinningProbability
  | LoopbackTicket
  | InvalidMultiaddr string
  | CryptoErr crypto_error
  | GeneralErr general_error

section \<open>Winning probability\<close>

type_synonym win_prob = bytes  \<comment> \<open>seven bytes\<close>

definition encoded_win_prob_length :: nat where
  "encoded_win_prob_length = 7"

definition wp_always :: win_prob where
  "wp_always = replicate encoded_win_prob_length 0xFF"

definition wp_never :: win_prob where
  "wp_never = replicate encoded_win_prob_length 0"

definition wp_as_luck :: "win_prob \<Rightarrow> u64" where
  "wp_as_luck w = u64_from_be (0 # w)"

text \<open>
  The value of a finite double from its bits. The subtraction of 1 in \<open>as_f64\<close> is exact: the result is a
  multiple of \<open>2 ^ -52\<close> below 1.
\<close>

definition f64_from_bits :: "u64 \<Rightarrow> rat" where
  "f64_from_bits b =
     (let e = unat (take_bit 11 (drop_bit 52 b)); m = of_nat (unat (f64_fraction b)) / 2 ^ 52;
          v = (if e = 0 then m / 2 ^ 1022
               else if 1023 \<le> e then (1 + m) * 2 ^ (e - 1023) else (1 + m) / 2 ^ (1023 - e))
      in if bit b 63 then - v else v)"

definition wp_as_f64 :: "win_prob \<Rightarrow> rat" where
  "wp_as_f64 w =
     (if w = wp_never then 0
      else if w = wp_always then 1
      else
        let tmp = u64_from_be (0 # w); significand = tmp + 1
        in f64_from_bits (push_bit 52 1023 OR drop_bit 4 significand) - 1)"

definition wp_try_from_f64 :: "(rat \<Rightarrow> rat \<Rightarrow> bool) \<Rightarrow> rat option \<Rightarrow> (core_types_error, win_prob) result" where
  "wp_try_from_f64 approx win_prob =
     (case win_prob of
        None \<Rightarrow> Err (InvalidInputData ''winning probability must be in [0.0, 1.0]'')
      | Some p \<Rightarrow>
          if \<not> (0 \<le> p \<and> p \<le> 1) then Err (InvalidInputData ''winning probability must be in [0.0, 1.0]'')
          else if approx 0 p then Ok wp_never
          else if approx 1 p then Ok wp_always
          else
            let tmp = f64_bits_one_plus (f64_one_plus p);
                significand = tmp AND 0x000FFFFFFFFFFFFF;
                encoded = push_bit 4 (significand - 1) OR 0xF
            in Ok (drop 1 (u64_to_be encoded)))"

definition wp_from_u64 :: "u64 \<Rightarrow> win_prob" where
  "wp_from_u64 v = drop 1 (u64_to_be v)"

definition wp_approx_cmp :: "(rat \<Rightarrow> rat \<Rightarrow> bool) \<Rightarrow> win_prob \<Rightarrow> win_prob \<Rightarrow> ordering" where
  "wp_approx_cmp approx x y =
     (let a = wp_as_f64 x; b = wp_as_f64 y in if \<not> approx a b then ord_cmp a b else Equal)"

definition wp_approx_eq :: "(rat \<Rightarrow> rat \<Rightarrow> bool) \<Rightarrow> win_prob \<Rightarrow> win_prob \<Rightarrow> bool" where
  "wp_approx_eq approx x y \<longleftrightarrow> wp_approx_cmp approx x y = Equal"

definition wp_min :: "(rat \<Rightarrow> rat \<Rightarrow> bool) \<Rightarrow> win_prob \<Rightarrow> win_prob \<Rightarrow> win_prob" where
  "wp_min approx x y = (if wp_approx_cmp approx x y = Less then x else y)"

definition wp_max :: "(rat \<Rightarrow> rat \<Rightarrow> bool) \<Rightarrow> win_prob \<Rightarrow> win_prob \<Rightarrow> win_prob" where
  "wp_max approx x y = (if wp_approx_cmp approx x y = Greater then x else y)"

definition wp_try_from :: "bytes \<Rightarrow> (general_error, win_prob) result" where
  "wp_try_from value =
     (if length value = encoded_win_prob_length then Ok value else Err (ParseErr ''WinningProbability''))"

section \<open>Cryptography\<close>

type_synonym signature = bytes  \<comment> \<open>64 bytes\<close>
type_synonym eth_challenge = bytes  \<comment> \<open>20 bytes\<close>
type_synonym half_key = bytes  \<comment> \<open>32 bytes\<close>
type_synonym response = bytes  \<comment> \<open>32 bytes\<close>

record ('sk, 'vrf, 'rnd) crypto =
  cr_keccak :: "bytes list \<Rightarrow> hash"
  cr_sign_hash :: "hash \<Rightarrow> 'sk \<Rightarrow> signature"
  cr_address :: "'sk \<Rightarrow> address"
  cr_recover :: "hash \<Rightarrow> signature \<Rightarrow> (crypto_error, address) result"
  cr_derive_vrf :: "'rnd \<Rightarrow> hash \<Rightarrow> 'sk \<Rightarrow> hash \<Rightarrow> (crypto_error, 'vrf) result"
  cr_vrf_v :: "'vrf \<Rightarrow> bytes"
  cr_order :: nat
  cr_point_address :: "nat \<Rightarrow> eth_challenge"

definition hash_size :: nat where "hash_size = 32"
definition signature_size :: nat where "signature_size = 64"
definition eth_challenge_size :: nat where "eth_challenge_size = 20"

text \<open>
  \<open>Response::from_half_keys\<close>: the sum of two non-zero scalars. \<open>Response::to_challenge\<close> takes it to a
  curve point and panics on the zero scalar; the challenge of a ticket is the Ethereum address of the
  point.
\<close>

definition nonzero_scalar :: "nat \<Rightarrow> bytes \<Rightarrow> nat option" where
  "nonzero_scalar n bs =
     (if length bs = 32 \<and> 0 < be_decode bs \<and> be_decode bs < n then Some (be_decode bs) else None)"

definition response_from_half_keys ::
  "('sk, 'vrf, 'rnd) crypto \<Rightarrow> half_key \<Rightarrow> half_key \<Rightarrow> (crypto_error, response) result" where
  "response_from_half_keys cr first second =
     (case (nonzero_scalar (cr_order cr) first, nonzero_scalar (cr_order cr) second) of
        (Some s1, Some s2) \<Rightarrow> Ok (be_encode 32 ((s1 + s2) mod cr_order cr))
      | _ \<Rightarrow> Err CalculationError)"

definition response_to_challenge ::
  "('sk, 'vrf, 'rnd) crypto \<Rightarrow> response \<Rightarrow> ('e, eth_challenge) result" where
  "response_to_challenge cr r =
     (case nonzero_scalar (cr_order cr) r of
        Some s \<Rightarrow> Ok (cr_point_address cr s)
      | None \<Rightarrow> Panicked)"

definition check_ticket_win ::
  "('sk, 'vrf, 'rnd) crypto \<Rightarrow> hash \<Rightarrow> signature \<Rightarrow> win_prob \<Rightarrow> response \<Rightarrow> 'vrf \<Rightarrow> bool" where
  "check_ticket_win cr ticket_hash ticket_signature wp response vrf_params \<longleftrightarrow>
     u64_from_be (0 # take 7 (cr_keccak cr
        [ticket_hash, drop 1 (cr_vrf_v cr vrf_params), response, ticket_signature]))
     \<le> wp_as_luck wp"

section \<open>Tickets and their builder\<close>

record ticket =
  tk_channel_id :: hash
  tk_amount :: hopr_balance
  tk_index :: u64
  tk_index_offset :: u32
  tk_encoded_win_prob :: win_prob
  tk_channel_epoch :: u32
  tk_challenge :: eth_challenge
  tk_signature :: "signature option"

record ticket_builder =
  tb_channel_id :: "hash option"
  tb_amount :: "u256 option"
  tb_balance :: "hopr_balance option"
  tb_index :: u64
  tb_index_offset :: u32
  tb_channel_epoch :: u32
  tb_win_prob :: win_prob
  tb_challenge :: "eth_challenge option"
  tb_signature :: "signature option"

definition tb_default :: ticket_builder where
  "tb_default =
     \<lparr>tb_channel_id = None, tb_amount = None, tb_balance = None, tb_index = 0, tb_index_offset = 1,
      tb_channel_epoch = 1, tb_win_prob = wp_always, tb_challenge = None, tb_signature = None\<rparr>"

definition tb_zero_hop :: ticket_builder where
  "tb_zero_hop =
     tb_default\<lparr>tb_index := 0, tb_amount := Some 0, tb_index_offset := 1, tb_win_prob := wp_never,
                tb_channel_epoch := 0\<rparr>"

definition tb_set_direction ::
  "('sk, 'vrf, 'rnd) crypto \<Rightarrow> address \<Rightarrow> address \<Rightarrow> ticket_builder \<Rightarrow> ticket_builder" where
  "tb_set_direction cr source destination b =
     b\<lparr>tb_channel_id := Some (generate_channel_id (cr_keccak cr) source destination)\<rparr>"

definition tb_set_channel_id :: "hash \<Rightarrow> ticket_builder \<Rightarrow> ticket_builder" where
  "tb_set_channel_id channel_id b = b\<lparr>tb_channel_id := Some channel_id\<rparr>"

definition tb_set_amount :: "u256 \<Rightarrow> ticket_builder \<Rightarrow> ticket_builder" where
  "tb_set_amount amount b = b\<lparr>tb_amount := Some amount, tb_balance := None\<rparr>"

definition tb_set_balance :: "hopr_balance \<Rightarrow> ticket_builder \<Rightarrow> ticket_builder" where
  "tb_set_balance balance b = b\<lparr>tb_balance := Some balance, tb_amount := None\<rparr>"

definition tb_set_index :: "u64 \<Rightarrow> ticket_builder \<Rightarrow> ticket_builder" where
  "tb_set_index index b = b\<lparr>tb_index := index\<rparr>"

definition tb_set_index_offset :: "u32 \<Rightarrow> ticket_builder \<Rightarrow> ticket_builder" where
  "tb_set_index_offset index_offset b = b\<lparr>tb_index_offset := index_offset\<rparr>"

definition tb_set_channel_epoch :: "u32 \<Rightarrow> ticket_builder \<Rightarrow> ticket_builder" where
  "tb_set_channel_epoch channel_epoch b = b\<lparr>tb_channel_epoch := channel_epoch\<rparr>"

definition tb_set_win_prob :: "win_prob \<Rightarrow> ticket_builder \<Rightarrow> ticket_builder" where
  "tb_set_win_prob wp b = b\<lparr>tb_win_prob := wp\<rparr>"

definition tb_set_challenge :: "eth_challenge \<Rightarrow> ticket_builder \<Rightarrow> ticket_builder" where
  "tb_set_challenge challenge b = b\<lparr>tb_challenge := Some challenge\<rparr>"

definition tb_set_signature :: "signature \<Rightarrow> ticket_builder \<Rightarrow> ticket_builder" where
  "tb_set_signature signature b = b\<lparr>tb_signature := Some signature\<rparr>"

definition max_ticket_amount :: u256 where
  "max_ticket_amount = 10 ^ 25"

definition tb_build :: "ticket_builder \<Rightarrow> (core_types_error, ticket) result" where
  "tb_build b =
     and_then
       (case (tb_amount b, tb_balance b) of
          (Some amount, None) \<Rightarrow>
            if amount < max_ticket_amount then Ok amount
            else Err (InvalidInputData ''tickets may not have more than 1% of total supply'')
        | (None, Some balance) \<Rightarrow>
            if balance < max_ticket_amount then Ok balance
            else Err (InvalidInputData ''tickets may not have more than 1% of total supply'')
        | (None, None) \<Rightarrow> Err (InvalidInputData ''missing ticket amount'')
        | (Some _, Some _) \<Rightarrow> Err (InvalidInputData ''either amount or balance must be set but not both''))
       (\<lambda>amount.
         if tb_index b > push_bit 48 1 then
           Err (InvalidInputData ''cannot hold ticket indices larger than 2^48'')
         else if tb_channel_epoch b > push_bit 24 1 then
           Err (InvalidInputData ''cannot hold channel epoch larger than 2^24'')
         else if tb_index_offset b < 1 then
           Err (InvalidInputData ''ticket index offset must be greater or equal to 1'')
         else
           and_then (ok_or (InvalidInputData ''missing channel id'') (tb_channel_id b)) (\<lambda>channel_id.
           and_then (ok_or (InvalidInputData ''missing ticket challenge'') (tb_challenge b)) (\<lambda>challenge.
             Ok \<lparr>tk_channel_id = channel_id, tk_amount = amount, tk_index = tb_index b,
                 tk_index_offset = tb_index_offset b, tk_encoded_win_prob = tb_win_prob b,
                 tk_channel_epoch = tb_channel_epoch b, tk_challenge = challenge,
                 tk_signature = tb_signature b\<rparr>)))"

definition tb_from_ticket :: "ticket \<Rightarrow> ticket_builder" where
  "tb_from_ticket t =
     \<lparr>tb_channel_id = Some (tk_channel_id t), tb_amount = None, tb_balance = Some (tk_amount t),
      tb_index = tk_index t, tb_index_offset = tk_index_offset t,
      tb_channel_epoch = tk_channel_epoch t, tb_win_prob = tk_encoded_win_prob t,
      tb_challenge = Some (tk_challenge t), tb_signature = None\<rparr>"

definition ticket_cmp :: "ticket \<Rightarrow> ticket \<Rightarrow> ordering" where
  "ticket_cmp a b =
     (case ord_cmp (be_decode (tk_channel_id a)) (be_decode (tk_channel_id b)) of
        Equal \<Rightarrow>
          (case ord_cmp (tk_channel_epoch a) (tk_channel_epoch b) of
             Equal \<Rightarrow> ord_cmp (tk_index a) (tk_index b)
           | Greater \<Rightarrow> Greater
           | Less \<Rightarrow> Less)
      | Greater \<Rightarrow> Greater
      | Less \<Rightarrow> Less)"

section \<open>Wire format and hash\<close>

definition encoded_ticket_length :: nat where
  "encoded_ticket_length = 64"

definition ticket_size :: nat where
  "ticket_size = encoded_ticket_length + eth_challenge_size + signature_size"

definition encode_without_signature :: "ticket \<Rightarrow> bytes" where
  "encode_without_signature t =
     tk_channel_id t
     @ drop 20 (u256_to_be (tk_amount t))
     @ drop 2 (u64_to_be (tk_index t))
     @ u32_to_be (tk_index_offset t)
     @ drop 1 (u32_to_be (tk_channel_epoch t))
     @ tk_encoded_win_prob t
     @ tk_challenge t"

definition redeem_call_selector :: bytes where
  "redeem_call_selector = [252, 183, 121, 111]"

definition ticket_get_hash :: "('sk, 'vrf, 'rnd) crypto \<Rightarrow> ticket \<Rightarrow> hash \<Rightarrow> hash" where
  "ticket_get_hash cr t domain_separator =
     (let ticket_hash = cr_keccak cr [encode_without_signature t];
          hash_struct = cr_keccak cr [redeem_call_selector, replicate 28 0, ticket_hash]
      in cr_keccak cr [[0x19, 0x01], domain_separator, hash_struct])"

definition ticket_encode :: "ticket \<Rightarrow> ('e, bytes) result" where
  "ticket_encode t =
     (case tk_signature t of
        Some signature \<Rightarrow> Ok (encode_without_signature t @ signature)
      | None \<Rightarrow> Panicked)"

definition fixed_bytes :: "nat \<Rightarrow> string \<Rightarrow> bytes \<Rightarrow> (general_error, bytes) result" where
  "fixed_bytes n name value = (if length value = n then Ok value else Err (ParseErr name))"

definition ticket_decode :: "bytes \<Rightarrow> (general_error, ticket) result" where
  "ticket_decode value =
     (if length value = ticket_size then
        and_then (and_then (slice_range value 0 32) (fixed_bytes hash_size ''Hash'')) (\<lambda>channel_id.
        and_then (slice_range value 32 44) (\<lambda>am.
        and_then (slice_range value 44 50) (\<lambda>ix.
        and_then (slice_range value 50 54) (\<lambda>off.
        and_then (slice_range value 54 57) (\<lambda>ep.
        and_then (and_then (slice_range value 57 64) wp_try_from) (\<lambda>wp.
        and_then (and_then (slice_range value 64 84) (fixed_bytes eth_challenge_size ''EthereumChallenge'')) (\<lambda>challenge.
        and_then (and_then (slice_range value 84 148) (fixed_bytes signature_size ''Signature'')) (\<lambda>signature.
          map_fail (\<lambda>_. ParseErr ''ticket build failed'')
            (tb_build (tb_set_signature signature (tb_set_challenge challenge (tb_set_win_prob wp
              (tb_set_channel_epoch (u32_from_be (0 # ep)) (tb_set_index_offset (u32_from_be off)
              (tb_set_index (u64_from_be (replicate 2 0 @ ix)) (tb_set_amount (u256_from_be (replicate 20 0 @ am))
              (tb_set_channel_id channel_id tb_default)))))))))))))))))
      else Err (ParseErr ''Ticket''))"

section \<open>Signing and verification\<close>

record verified_ticket =
  vt_ticket :: ticket
  vt_hash :: hash
  vt_issuer :: address

definition ticket_sign ::
  "('sk, 'vrf, 'rnd) crypto \<Rightarrow> ticket \<Rightarrow> 'sk \<Rightarrow> hash \<Rightarrow> verified_ticket" where
  "ticket_sign cr t signing_key domain_separator =
     (let ticket_hash = ticket_get_hash cr t domain_separator
      in \<lparr>vt_ticket = t\<lparr>tk_signature := Some (cr_sign_hash cr ticket_hash signing_key)\<rparr>,
          vt_hash = ticket_hash, vt_issuer = cr_address cr signing_key\<rparr>)"

definition ticket_verify ::
  "('sk, 'vrf, 'rnd) crypto \<Rightarrow> ticket \<Rightarrow> address \<Rightarrow> hash \<Rightarrow> (ticket, verified_ticket) result" where
  "ticket_verify cr t issuer domain_separator =
     (let ticket_hash = ticket_get_hash cr t domain_separator in
      case tk_signature t of
        Some signature \<Rightarrow>
          (case cr_recover cr ticket_hash signature of
             Inr a \<Rightarrow> if a = issuer then Ok \<lparr>vt_ticket = t, vt_hash = ticket_hash, vt_issuer = issuer\<rparr>
                     else Err t
           | Inl (Fail _) \<Rightarrow> Err t
           | Inl Panic \<Rightarrow> Panicked)
      | None \<Rightarrow> Err t)"

definition ticket_is_aggregated :: "ticket \<Rightarrow> bool" where
  "ticket_is_aggregated t \<longleftrightarrow> tk_index_offset t > 1"

definition tb_build_signed ::
  "('sk, 'vrf, 'rnd) crypto \<Rightarrow> ticket_builder \<Rightarrow> 'sk \<Rightarrow> hash \<Rightarrow> (core_types_error, verified_ticket) result" where
  "tb_build_signed cr b signer domain_separator =
     (if tb_signature b = None then map_res (\<lambda>t. ticket_sign cr t signer domain_separator) (tb_build b)
      else Err (InvalidInputData ''signature already set''))"

definition tb_build_verified ::
  "('sk, 'vrf, 'rnd) crypto \<Rightarrow> ticket_builder \<Rightarrow> hash \<Rightarrow> (core_types_error, verified_ticket) result" where
  "tb_build_verified cr b h =
     (case tb_signature b of
        Some signature \<Rightarrow>
          and_then (map_fail CryptoErr (cr_recover cr h signature)) (\<lambda>issuer.
          and_then (tb_build b) (\<lambda>t. Ok \<lparr>vt_ticket = t, vt_hash = h, vt_issuer = issuer\<rparr>))
      | None \<Rightarrow> Err (InvalidInputData ''signature is missing''))"

section \<open>The life of a ticket\<close>

record unacknowledged_ticket =
  ut_ticket :: verified_ticket
  ut_own_key :: half_key

datatype acknowledged_ticket_status = Untouched | BeingRedeemed | BeingAggregated

record acknowledged_ticket =
  at_status :: acknowledged_ticket_status
  at_ticket :: verified_ticket
  at_response :: response

record 'vrf redeemable_ticket =
  rd_ticket :: verified_ticket
  rd_response :: response
  rd_vrf_params :: 'vrf
  rd_channel_dst :: hash

record 'vrf transferable_ticket =
  tr_ticket :: ticket
  tr_response :: response
  tr_vrf_params :: 'vrf
  tr_signer :: address

definition vt_verified_signature :: "verified_ticket \<Rightarrow> ('e, signature) result" where
  "vt_verified_signature vt =
     (case tk_signature (vt_ticket vt) of Some s \<Rightarrow> Ok s | None \<Rightarrow> Panicked)"

definition vt_is_winning ::
  "('sk, 'vrf, 'rnd) crypto \<Rightarrow> 'rnd \<Rightarrow> verified_ticket \<Rightarrow> response \<Rightarrow> 'sk \<Rightarrow> hash \<Rightarrow> ('e, bool) result" where
  "vt_is_winning cr rnd vt response chain_keypair domain_separator =
     (case cr_derive_vrf cr rnd (vt_hash vt) chain_keypair domain_separator of
        Inr vrf_params \<Rightarrow>
          and_then (vt_verified_signature vt) (\<lambda>signature.
            Ok (check_ticket_win cr (vt_hash vt) signature (tk_encoded_win_prob (vt_ticket vt)) response vrf_params))
      | Inl (Fail _) \<Rightarrow> Ok False
      | Inl Panic \<Rightarrow> Panicked)"

definition vt_leak :: "verified_ticket \<Rightarrow> ticket" where
  "vt_leak vt = vt_ticket vt"

definition vt_into_unacknowledged :: "verified_ticket \<Rightarrow> half_key \<Rightarrow> unacknowledged_ticket" where
  "vt_into_unacknowledged vt own_key = \<lparr>ut_ticket = vt, ut_own_key = own_key\<rparr>"

definition vt_into_acknowledged :: "verified_ticket \<Rightarrow> response \<Rightarrow> acknowledged_ticket" where
  "vt_into_acknowledged vt response = \<lparr>at_status = Untouched, at_ticket = vt, at_response = response\<rparr>"

definition ut_acknowledge ::
  "('sk, 'vrf, 'rnd) crypto \<Rightarrow> unacknowledged_ticket \<Rightarrow> half_key \<Rightarrow> (core_types_error, acknowledged_ticket) result" where
  "ut_acknowledge cr ut acknowledgement =
     and_then (map_fail CryptoErr (response_from_half_keys cr (ut_own_key ut) acknowledgement)) (\<lambda>response.
     and_then (response_to_challenge cr response) (\<lambda>challenge.
       if tk_challenge (vt_ticket (ut_ticket ut)) = challenge
       then Ok (vt_into_acknowledged (ut_ticket ut) response)
       else Err (CryptoErr InvalidChallenge)))"

definition at_is_winning ::
  "('sk, 'vrf, 'rnd) crypto \<Rightarrow> 'rnd \<Rightarrow> acknowledged_ticket \<Rightarrow> 'sk \<Rightarrow> hash \<Rightarrow> ('e, bool) result" where
  "at_is_winning cr rnd tkt chain_keypair domain_separator =
     vt_is_winning cr rnd (at_ticket tkt) (at_response tkt) chain_keypair domain_separator"

definition at_into_redeemable ::
  "('sk, 'vrf, 'rnd) crypto \<Rightarrow> 'rnd \<Rightarrow> acknowledged_ticket \<Rightarrow> 'sk \<Rightarrow> hash
     \<Rightarrow> (core_types_error, 'vrf redeemable_ticket) result" where
  "at_into_redeemable cr rnd tkt chain_keypair domain_separator =
     (if cr_address cr chain_keypair = vt_issuer (at_ticket tkt) then Err LoopbackTicket
      else
        and_then (map_fail CryptoErr
            (cr_derive_vrf cr rnd (vt_hash (at_ticket tkt)) chain_keypair domain_separator)) (\<lambda>vrf_params.
          Ok \<lparr>rd_ticket = at_ticket tkt, rd_response = at_response tkt, rd_vrf_params = vrf_params,
              rd_channel_dst = domain_separator\<rparr>))"

definition tr_from_redeemable :: "'vrf redeemable_ticket \<Rightarrow> 'vrf transferable_ticket" where
  "tr_from_redeemable r =
     \<lparr>tr_ticket = vt_leak (rd_ticket r), tr_response = rd_response r,
      tr_vrf_params = rd_vrf_params r, tr_signer = vt_issuer (rd_ticket r)\<rparr>"

definition at_into_transferable ::
  "('sk, 'vrf, 'rnd) crypto \<Rightarrow> 'rnd \<Rightarrow> acknowledged_ticket \<Rightarrow> 'sk \<Rightarrow> hash
     \<Rightarrow> (core_types_error, 'vrf transferable_ticket) result" where
  "at_into_transferable cr rnd tkt chain_keypair domain_separator =
     map_res tr_from_redeemable (at_into_redeemable cr rnd tkt chain_keypair domain_separator)"

definition at_from_redeemable :: "'vrf redeemable_ticket \<Rightarrow> acknowledged_ticket" where
  "at_from_redeemable r =
     \<lparr>at_status = Untouched, at_ticket = rd_ticket r, at_response = rd_response r\<rparr>"

definition rd_eq :: "'vrf redeemable_ticket \<Rightarrow> 'vrf redeemable_ticket \<Rightarrow> bool" where
  "rd_eq a b \<longleftrightarrow>
     rd_ticket a = rd_ticket b \<and> rd_channel_dst a = rd_channel_dst b \<and> rd_response a = rd_response b"

definition tr_into_redeemable ::
  "('sk, 'vrf, 'rnd) crypto \<Rightarrow> 'vrf transferable_ticket \<Rightarrow> address \<Rightarrow> hash
     \<Rightarrow> (core_types_error, 'vrf redeemable_ticket) result" where
  "tr_into_redeemable cr tr expected_issuer domain_separator =
     (if tr_signer tr \<noteq> expected_issuer then Err (InvalidInputData ''invalid ticket issuer'')
      else
        and_then (map_fail (\<lambda>_. CryptoErr SignatureVerification)
            (ticket_verify cr (tr_ticket tr) (tr_signer tr) domain_separator)) (\<lambda>vt.
        and_then (vt_verified_signature vt) (\<lambda>signature.
          if check_ticket_win cr (vt_hash vt) signature (tk_encoded_win_prob (vt_ticket vt))
               (tr_response tr) (tr_vrf_params tr)
          then Ok \<lparr>rd_ticket = vt, rd_response = tr_response tr, rd_vrf_params = tr_vrf_params tr,
                   rd_channel_dst = domain_separator\<rparr>
          else Err (InvalidInputData ''ticket is not a win''))))"

section \<open>The winning probability as a number\<close>

lemma be_decode_append: "be_decode (xs @ ys) = be_decode xs * 256 ^ length ys + be_decode ys"
proof (induction ys rule: rev_induct)
  case (snoc y ys)
  have "be_decode (xs @ ys @ [y]) = be_decode (xs @ ys) * 256 + unat y"
    using be_decode_snoc [of "xs @ ys" y] by simp
  with snoc show ?case by (simp add: algebra_simps)
qed simp

lemma be_decode_zeros [simp]: "be_decode (replicate n 0) = 0"
proof (induction n)
  case (Suc n)
  then show ?case by (simp only: replicate_Suc replicate_append_same [symmetric] be_decode_snoc) simp
qed simp

lemma be_decode_zeros_append [simp]: "be_decode (replicate n 0 @ bs) = be_decode bs"
  by (simp add: be_decode_append)

lemma be_decode_Cons0 [simp]: "be_decode (0 # bs) = be_decode bs"
  using be_decode_zeros_append [of 1 bs] by simp

lemma be_decode_ones: "be_decode (replicate n 0xFF) = 256 ^ n - 1"
proof (induction n)
  case (Suc n)
  have "be_decode (replicate (Suc n) 0xFF) = be_decode (replicate n 0xFF) * 256 + 255"
    by (simp only: replicate_Suc replicate_append_same [symmetric] be_decode_snoc) simp
  with Suc show ?case by (simp add: algebra_simps)
qed simp

lemma be_decode_inj: "length xs = length ys \<Longrightarrow> be_decode xs = be_decode ys \<Longrightarrow> xs = ys"
  by (metis be_encode_decode)

lemma wp_luck:
  assumes "length w = 7"
  shows "unat (wp_as_luck w) = be_decode w" and "be_decode w < 2 ^ 56"
proof -
  show lt: "be_decode w < 2 ^ 56" using be_decode_bound [of w] assms by simp
  then show "unat (wp_as_luck w) = be_decode w"
    by (simp add: wp_as_luck_def u64_from_be_def unat_of_nat)
qed

lemma wp_special: "be_decode wp_never = 0" "be_decode wp_always = 2 ^ 56 - 1" "length wp_never = 7" "length wp_always = 7"
  by (simp_all add: wp_never_def wp_always_def encoded_win_prob_length_def be_decode_ones)

lemma wp_eq_iff:
  assumes "length w = 7"
  shows "w = wp_never \<longleftrightarrow> be_decode w = 0" and "w = wp_always \<longleftrightarrow> be_decode w = 2 ^ 56 - 1"
  using be_decode_inj [of w] assms wp_special by metis+

lemma f64_from_bits_12:
  assumes "m < 2 ^ 52"
  shows "f64_from_bits (push_bit 52 1023 OR of_nat m) = 1 + of_nat m / 2 ^ 52"
proof -
  let ?b = "push_bit 52 1023 OR of_nat m :: u64"
  have m: "take_bit 52 (of_nat m :: u64) = of_nat m" using assms by (simp add: take_bit_of_nat take_bit_nat_eq_self)
  have fr: "f64_fraction ?b = of_nat m"
    using fraction_bits [of m] assms by (simp add: f64_bits_one_plus_def)
  have "drop_bit 52 (of_nat m :: u64) = drop_bit 52 (take_bit 52 (of_nat m))" by (simp only: m)
  also have "\<dots> = 0" by (simp add: drop_bit_take_bit)
  finally have d: "drop_bit 52 ?b = 1023" by (simp add: drop_bit_or)
  have "\<not> bit ?b 63"
  proof -
    have "bit ?b 63 = bit (drop_bit 52 ?b) 11" using bit_drop_bit_eq [of 52 ?b] by (simp only: comp_def) simp
    also have "\<dots> = False" unfolding d by simp
    finally show ?thesis by simp
  qed
  moreover have "unat (of_nat m :: u64) = m" using assms by (simp add: unat_of_nat)
  moreover have "unat (take_bit 11 (1023 :: u64)) = 1023" by simp
  ultimately show ?thesis unfolding f64_from_bits_def Let_def fr d by simp
qed

lemma wp_f64:
  assumes "length w = 7"
  shows "wp_as_f64 w = (if be_decode w = 0 then 0 else of_nat ((be_decode w + 1) div 16) / 2 ^ 52)"
proof (cases "be_decode w = 0 \<or> be_decode w = 2 ^ 56 - 1")
  case True
  then show ?thesis using wp_eq_iff [OF assms] by (auto simp: wp_as_f64_def)
next
  case False
  let ?n = "be_decode w + 1"
  have lt: "?n < 2 ^ 56" using False wp_luck(2) [OF assms] by simp
  have n: "u64_from_be (0 # w) + 1 = of_nat ?n" by (simp add: u64_from_be_def)
  have "unat (of_nat ?n :: u64) = ?n" using lt by (simp only: unat_of_nat) simp
  then have "unat (drop_bit 4 (of_nat ?n) :: u64) = ?n div 16"
    by (simp only: unat_drop_bit_eq) (simp add: drop_bit_eq_div)
  then have d: "drop_bit 4 (u64_from_be (0 # w) + 1) = of_nat (?n div 16)"
    unfolding n by (metis of_nat_unat_id)
  have "?n div 16 < 2 ^ 52" using lt by simp
  from f64_from_bits_12 [OF this] False show ?thesis using wp_eq_iff [OF assms]
    unfolding wp_as_f64_def Let_def d by simp
qed

text \<open>C29: the float a winning probability is shown as is, within \<open>2 ^ -52\<close>, the chance that a uniformly
distributed 56-bit luck value wins (luck values up to the encoded one win); it is monotone in the encoded
value and lies in the unit interval.\<close>
theorem win_prob_is_winning_chance:
  assumes "length w = 7" and "length w' = 7"
  shows "\<bar>wp_as_f64 w - of_nat (card {l. l < 2 ^ 56 \<and> l \<le> unat (wp_as_luck w)}) / 2 ^ 56\<bar> < 1 / 2 ^ 52
     \<and> (wp_as_luck w \<le> wp_as_luck w' \<longrightarrow> wp_as_f64 w \<le> wp_as_f64 w')
     \<and> 0 \<le> wp_as_f64 w \<and> wp_as_f64 w \<le> 1"
proof -
  have lt: "be_decode w < 2 ^ 56" "be_decode w' < 2 ^ 56" using wp_luck(2) assms by blast+
  have "{l. l < 2 ^ 56 \<and> l \<le> unat (wp_as_luck w)} = {..be_decode w}"
    using lt wp_luck(1) [OF assms(1)] by auto
  then have card: "card {l. l < 2 ^ 56 \<and> l \<le> unat (wp_as_luck w)} = be_decode w + 1" by simp
  let ?n = "be_decode w + 1"
  have b: "(of_nat (?n div 16) :: rat) \<le> of_nat ?n / 16" "(of_nat ?n :: rat) / 16 < of_nat (?n div 16) + 1"
    using div_floor_bounds [of 16 ?n] by simp_all
  have "\<bar>wp_as_f64 w - of_nat ?n / 2 ^ 56\<bar> < 1 / 2 ^ 52"
  proof (cases "be_decode w = 0")
    case False
    then have "wp_as_f64 w - of_nat ?n / 2 ^ 56 = (of_nat (?n div 16) - of_nat ?n / 16) / 2 ^ 52"
      by (simp add: wp_f64 [OF assms(1)] field_simps)
    moreover have "\<bar>of_nat (?n div 16) - of_nat ?n / 16 :: rat\<bar> < 1" using b by linarith
    ultimately show ?thesis
      by (simp only: abs_divide) (simp only: abs_numeral power_abs divide_strict_right_mono zero_less_power zero_less_numeral)
  qed (simp add: wp_f64 [OF assms(1)])
  moreover have "wp_as_f64 w \<le> wp_as_f64 w'" if "wp_as_luck w \<le> wp_as_luck w'"
  proof -
    have "be_decode w \<le> be_decode w'" using that assms wp_luck(1) by (simp add: word_le_nat_alt)
    then have "(be_decode w + 1) div 16 \<le> (be_decode w' + 1) div 16" by (intro div_le_mono) simp
    then show ?thesis using \<open>be_decode w \<le> be_decode w'\<close>
      by (auto simp: wp_f64 [OF assms(1)] wp_f64 [OF assms(2)] divide_right_mono simp del: of_nat_Suc)
  qed
  moreover have "(of_nat (?n div 16) :: rat) \<le> of_nat (2 ^ 52)"
    using lt(1) by (simp only: of_nat_le_iff) simp
  ultimately show ?thesis unfolding card by (auto simp: wp_f64 [OF assms(1)])
qed

theorem win_prob_is_winning_chance_witness:
  "\<bar>wp_as_f64 wp_always - of_nat (card {l. l < 2 ^ 56 \<and> l \<le> unat (wp_as_luck wp_always)}) / 2 ^ 56\<bar> < 1 / 2 ^ 52"
  using win_prob_is_winning_chance [of wp_always wp_always] wp_special by blast


lemma wp_from_u64_luck: "wp_as_luck (wp_from_u64 v) = v AND mask 56" "length (wp_from_u64 v) = 7"
proof -
  obtain b w where bw: "u64_to_be v = b # w" using length_to_be(3) [of v] by (cases "u64_to_be v") auto
  have lw: "length w = 7" using length_to_be(3) [of v] by (simp add: bw)
  have "be_decode (u64_to_be v) = unat v"
    using unat_bound [of v] by (simp add: u64_to_be_def be_decode_encode)
  moreover have "be_decode (u64_to_be v) = unat b * 2 ^ 56 + be_decode w"
    using be_decode_append [of "[b]" w] lw be_decode_snoc [of "[]" b] by (simp add: bw)
  ultimately have "unat v = unat b * 2 ^ 56 + be_decode w" by simp
  then have "be_decode w = unat v mod 2 ^ 56" using wp_luck(2) [OF lw] by (simp only: mod_mult_self3 mod_less)
  then have "unat (wp_as_luck w) = unat (v AND mask 56)"
    using wp_luck(1) [OF lw] by (simp only: take_bit_eq_mask [symmetric] unsigned_take_bit_eq take_bit_eq_mod [of 56 "unat v"])
  then show "wp_as_luck (wp_from_u64 v) = v AND mask 56" "length (wp_from_u64 v) = 7"
    using lw by (simp_all add: wp_from_u64_def bw word_unat_eq_iff)
qed

text \<open>What the code relies on of the approximate comparison, whose tolerance is \<open>10 ^ -8\<close>.\<close>

definition approx_ok :: "(rat \<Rightarrow> rat \<Rightarrow> bool) \<Rightarrow> bool" where
  "approx_ok approx \<longleftrightarrow>
     (\<forall>a b. \<bar>a - b\<bar> < 1 / 2 ^ 30 \<longrightarrow> approx a b) \<and> (\<forall>a b. approx a b \<longrightarrow> \<bar>a - b\<bar> \<le> 1 / 2 ^ 26)"

lemma wp_try_from_regular:
  assumes "approx_ok approx" and "0 \<le> p" and "p \<le> 1" and "\<not> approx 0 p" and "\<not> approx 1 p"
  shows "\<exists>w. wp_try_from_f64 approx (Some p) = Ok w \<and> length w = 7
     \<and> wp_as_f64 w = of_nat (f64_one_plus p) / 2 ^ 52"
proof -
  let ?k = "f64_one_plus p"
  have lo: "1 / 2 ^ 30 \<le> p" using assms by (force simp: approx_ok_def)
  have hi: "p \<le> 1 - 1 / 2 ^ 30" using assms by (force simp: approx_ok_def)
  have b: "of_nat ?k \<le> p * 2 ^ 52 + 1 / 2" "p * 2 ^ 52 - 1 / 2 \<le> of_nat ?k"
    using f64_one_plus_bounds assms(2) by blast+
  have "(1 :: rat) < of_nat ?k" using b(2) lo by simp
  then have k1: "1 < ?k" by simp
  have "(of_nat ?k :: rat) < of_nat (2 ^ 52)" using b(1) hi by simp
  then have k2: "?k < 2 ^ 52" by (simp only: of_nat_less_iff)
  define enc where "enc = push_bit 4 (of_nat ?k - 1 :: u64) OR 0xF"
  have km: "of_nat ?k - 1 = (of_nat (?k - 1) :: u64)" using k1 by (simp add: of_nat_diff)
  have ue: "unat enc = (?k - 1) * 16 + 15"
  proof -
    have "push_bit 4 (of_nat (?k - 1) :: u64) AND 0xF = 0"
    proof -
      have "(0xF :: u64) = mask 4" by (simp add: mask_eq_exp_minus_1)
      then show ?thesis by (simp only: take_bit_eq_mask [symmetric] take_bit_push_bit) simp
    qed
    then have "enc = push_bit 4 (of_nat (?k - 1)) + 0xF"
      unfolding enc_def km by (simp only: disjunctive_add_eq_or)
    also have "\<dots> = of_nat ((?k - 1) * 16 + 15)" by (simp add: push_bit_eq_mult)
    finally show ?thesis using k2 by (simp only: unat_of_nat) simp
  qed
  define w where "w = drop 1 (u64_to_be enc)"
  have wl: "length w = 7" by (simp add: w_def)
  have "wp_try_from_f64 approx (Some p) = Ok w"
    using assms fraction_bits [of ?k] k2
    by (simp add: wp_try_from_f64_def Let_def w_def enc_def f64_fraction_def)
  moreover have "be_decode w = (?k - 1) * 16 + 15"
  proof -
    have "w = wp_from_u64 enc" by (simp add: w_def wp_from_u64_def)
    then have "be_decode w = unat (enc AND mask 56)" using wp_from_u64_luck(1) [of enc] wp_luck(1) [OF wl] by simp
    also have "\<dots> = unat enc" using ue k2 k1
      by (simp add: unsigned_take_bit_eq take_bit_nat_eq_self flip: take_bit_eq_mask)
    finally show ?thesis by (simp add: ue)
  qed
  then have "wp_as_f64 w = of_nat ?k / 2 ^ 52" using k1 wp_f64 [OF wl] by (simp add: algebra_simps)
  ultimately show ?thesis using wl by blast
qed

text \<open>Every probability of the unit interval is encoded, values outside are refused, and reading the
encoded probability back gives the original: within half a unit in the last place, or within the tolerance
of the comparison when it was taken for 0 or 1.\<close>
lemma win_prob_roundtrip:
  assumes "approx_ok approx"
  shows "(0 \<le> p \<and> p \<le> 1 \<longrightarrow>
       (\<exists>w. wp_try_from_f64 approx (Some p) = Ok w \<and> length w = 7 \<and> \<bar>wp_as_f64 w - p\<bar> \<le> 1 / 2 ^ 26
          \<and> (\<not> approx 0 p \<and> \<not> approx 1 p \<longrightarrow> \<bar>wp_as_f64 w - p\<bar> \<le> 1 / 2 ^ 53)))
     \<and> (\<not> (0 \<le> p \<and> p \<le> 1) \<longrightarrow> (\<exists>m. wp_try_from_f64 approx (Some p) = Err (InvalidInputData m)))"
proof -
  have "\<exists>w. wp_try_from_f64 approx (Some p) = Ok w \<and> length w = 7 \<and> \<bar>wp_as_f64 w - p\<bar> \<le> 1 / 2 ^ 26
          \<and> (\<not> approx 0 p \<and> \<not> approx 1 p \<longrightarrow> \<bar>wp_as_f64 w - p\<bar> \<le> 1 / 2 ^ 53)" if p: "0 \<le> p" "p \<le> 1"
  proof (cases "approx 0 p \<or> approx 1 p")
    case True
    have "wp_as_f64 wp_never = 0" "wp_as_f64 wp_always = 1" by (simp_all add: wp_f64 wp_special)
    moreover have "approx 0 p \<Longrightarrow> \<bar>0 - p\<bar> \<le> 1 / 2 ^ 26" "approx 1 p \<Longrightarrow> \<bar>1 - p\<bar> \<le> 1 / 2 ^ 26"
      using assms by (simp_all only: approx_ok_def)
    ultimately show ?thesis using True p wp_special
      by (cases "approx 0 p") (auto simp: wp_try_from_f64_def)
  next
    case False
    then obtain w where w: "wp_try_from_f64 approx (Some p) = Ok w" "length w = 7"
      "wp_as_f64 w = of_nat (f64_one_plus p) / 2 ^ 52" using wp_try_from_regular [OF assms p] by blast
    have "\<bar>of_nat (f64_one_plus p) - p * 2 ^ 52\<bar> \<le> 1 / 2"
      using f64_one_plus_bounds [OF p(1)] by linarith
    moreover have "wp_as_f64 w - p = (of_nat (f64_one_plus p) - p * 2 ^ 52) / 2 ^ 52"
      unfolding w(3) by (simp add: field_simps)
    ultimately have "\<bar>wp_as_f64 w - p\<bar> \<le> (1 / 2) / 2 ^ 52"
      by (simp only: abs_divide) (simp only: abs_numeral power_abs divide_right_mono zero_le_power zero_le_numeral)
    then have "\<bar>wp_as_f64 w - p\<bar> \<le> 1 / 2 ^ 53" by simp
    moreover have "(1 / 2 ^ 53 :: rat) \<le> 1 / 2 ^ 26" by simp
    ultimately show ?thesis using w by (intro exI [of _ w]) linarith
  qed
  then show ?thesis by (auto simp: wp_try_from_f64_def)
qed

lemma win_prob_roundtrip_witness:
  "\<exists>w. wp_try_from_f64 (\<lambda>a b. \<bar>a - b\<bar> \<le> 1 / 10 ^ 8) (Some (1 / 2)) = Ok w \<and> \<bar>wp_as_f64 w - 1 / 2\<bar> \<le> 1 / 2 ^ 53"
proof -
  have "approx_ok (\<lambda>a b. \<bar>a - b\<bar> \<le> 1 / 10 ^ 8)" by (auto simp: approx_ok_def)
  from win_prob_roundtrip [OF this, of "1 / 2"] show ?thesis by auto
qed

section \<open>Winning\<close>

text \<open>A ticket wins exactly when the first seven bytes of its luck hash, as a number, do not exceed the
encoded probability. So a ticket with probability 1 always wins, a larger probability wins whenever a
smaller one does, and a ticket with probability 0 still wins when these bytes are all zero.\<close>
lemma ticket_win_characterised:
  assumes "\<And>xs. length (cr_keccak cr xs) = 32" and "length wp = 7" and "length wp' = 7"
    and luck_def: "luck = take 7 (cr_keccak cr [h, drop 1 (cr_vrf_v cr vrf), resp, sig])"
  shows "(check_ticket_win cr h sig wp resp vrf \<longleftrightarrow> be_decode luck \<le> be_decode wp)
     \<and> check_ticket_win cr h sig wp_always resp vrf
     \<and> (check_ticket_win cr h sig wp_never resp vrf \<longleftrightarrow> luck = replicate 7 0)
     \<and> (check_ticket_win cr h sig wp resp vrf \<and> wp_as_luck wp \<le> wp_as_luck wp' \<longrightarrow>
          check_ticket_win cr h sig wp' resp vrf)"
proof -
  have l: "length luck = 7" using assms(1) by (simp add: luck_def)
  have win: "check_ticket_win cr h sig w resp vrf \<longleftrightarrow> be_decode luck \<le> be_decode w" if "length w = 7" for w
    using wp_luck(1) [OF l] wp_luck(1) [OF that]
    by (simp add: check_ticket_win_def luck_def wp_as_luck_def word_le_nat_alt)
  have "be_decode luck \<le> 2 ^ 56 - 1" using wp_luck(2) [OF l] by simp
  then have "check_ticket_win cr h sig wp_always resp vrf" by (simp add: win wp_special)
  moreover have "check_ticket_win cr h sig wp_never resp vrf \<longleftrightarrow> luck = replicate 7 0"
    using wp_eq_iff(1) [OF l] by (simp add: win wp_special wp_never_def encoded_win_prob_length_def)
  moreover have "wp_as_luck wp \<le> wp_as_luck wp' \<longleftrightarrow> be_decode wp \<le> be_decode wp'"
    using wp_luck(1) assms(2,3) by (simp add: word_le_nat_alt)
  ultimately show ?thesis using win assms(2,3) by auto
qed

text \<open>A crypto record for the witnesses: a key signs with its address and the last bytes of the hash, which recovery reads back.\<close>

definition example_crypto :: "(byte, byte, unit) crypto" where
  "example_crypto =
     \<lparr>cr_keccak = (\<lambda>xs. take 32 (concat xs @ replicate 32 0)),
      cr_sign_hash = (\<lambda>h sk. replicate 64 sk),
      cr_address = (\<lambda>sk. replicate 20 sk),
      cr_recover = (\<lambda>h s. Ok (replicate 20 (hd s))),
      cr_derive_vrf = (\<lambda>_ h sk dst. Ok sk),
      cr_vrf_v = (\<lambda>v. replicate 65 v),
      cr_order = 101,
      cr_point_address = (\<lambda>s. replicate 20 (of_nat s))\<rparr>"

lemma ticket_win_characterised_witness:
  "check_ticket_win example_crypto (replicate 32 5) (replicate 64 1) wp_always (replicate 32 0) 3
   \<and> \<not> check_ticket_win example_crypto (replicate 32 5) (replicate 64 1) wp_never (replicate 32 0) 3"
proof -
  have k: "length (cr_keccak example_crypto xs) = 32" for xs by (simp add: example_crypto_def)
  have l: "replicate 7 5 = take 7 (cr_keccak example_crypto
      [replicate 32 5, drop 1 (cr_vrf_v example_crypto 3), replicate 32 0, replicate 64 1])"
    by (simp add: example_crypto_def)
  have "(replicate 7 5 :: bytes) \<noteq> replicate 7 0" by simp
  with ticket_win_characterised [OF k wp_special(3) wp_special(4) l] show ?thesis by (elim conjE) (simp only: simp_thms)
qed

section \<open>The builder\<close>

definition tb_wanted_amount :: "ticket_builder \<Rightarrow> u256 option" where
  "tb_wanted_amount b =
     (case (tb_amount b, tb_balance b) of (Some a, None) \<Rightarrow> Some a | (None, Some a) \<Rightarrow> Some a | _ \<Rightarrow> None)"

lemma tb_build_Ok_iff:
  "tb_build b = Ok t \<longleftrightarrow>
     (\<exists>a cid ch. tb_wanted_amount b = Some a \<and> a < max_ticket_amount
        \<and> tb_index b \<le> push_bit 48 1 \<and> tb_channel_epoch b \<le> push_bit 24 1 \<and> tb_index_offset b \<noteq> 0
        \<and> tb_channel_id b = Some cid \<and> tb_challenge b = Some ch
        \<and> t = \<lparr>tk_channel_id = cid, tk_amount = a, tk_index = tb_index b, tk_index_offset = tb_index_offset b,
             tk_encoded_win_prob = tb_win_prob b, tk_channel_epoch = tb_channel_epoch b, tk_challenge = ch,
             tk_signature = tb_signature b\<rparr>)"
  unfolding tb_build_def tb_wanted_amount_def
  by (cases "tb_amount b"; cases "tb_balance b")
     (auto simp: and_then_Inr_iff ok_or_Inr_iff not_less simp del: push_bit_numeral push_bit_of_1 split: if_splits)

lemma tb_build_never_panics: "tb_build b \<noteq> Panicked"
  by (cases "tb_amount b"; cases "tb_balance b"; cases "tb_channel_id b"; cases "tb_challenge b")
     (auto simp: tb_build_def)

text \<open>The builder accepts exactly the inputs with one amount below \<open>10 ^ 25\<close>, an index up to \<open>2 ^ 48\<close>, an epoch up
to \<open>2 ^ 24\<close>, a positive offset, a channel and a challenge; it copies them into the ticket; it never panics; and
rebuilding an accepted ticket from its fields gives the ticket without its signature.\<close>
lemma ticket_builder_checks:
  "((\<exists>t. tb_build b = Ok t) \<longleftrightarrow>
     ((tb_amount b = None) \<noteq> (tb_balance b = None)
      \<and> (\<forall>a. tb_amount b = Some a \<or> tb_balance b = Some a \<longrightarrow> a < max_ticket_amount)
      \<and> unat (tb_index b) \<le> 2 ^ 48 \<and> unat (tb_channel_epoch b) \<le> 2 ^ 24 \<and> 0 < tb_index_offset b
      \<and> tb_channel_id b \<noteq> None \<and> tb_challenge b \<noteq> None))
   \<and> tb_build b \<noteq> Panicked
   \<and> (\<forall>t. tb_build b = Ok t \<longrightarrow> tb_build (tb_from_ticket t) = Ok (t\<lparr>tk_signature := None\<rparr>))"
proof -
  have w: "(x :: u64) \<le> push_bit 48 1 \<longleftrightarrow> unat x \<le> 2 ^ 48" "(y :: u32) \<le> push_bit 24 1 \<longleftrightarrow> unat y \<le> 2 ^ 24"
    "y \<noteq> 0 \<longleftrightarrow> 0 < y" for x y
    by (simp_all add: word_le_nat_alt word_less_nat_alt unat_gt_0)
  have "(\<exists>t. tb_build b = Ok t) \<longleftrightarrow>
     ((tb_amount b = None) \<noteq> (tb_balance b = None)
      \<and> (\<forall>a. tb_amount b = Some a \<or> tb_balance b = Some a \<longrightarrow> a < max_ticket_amount)
      \<and> unat (tb_index b) \<le> 2 ^ 48 \<and> unat (tb_channel_epoch b) \<le> 2 ^ 24 \<and> 0 < tb_index_offset b
      \<and> tb_channel_id b \<noteq> None \<and> tb_challenge b \<noteq> None)"
    unfolding tb_build_Ok_iff w tb_wanted_amount_def
    by (cases "tb_amount b"; cases "tb_balance b"; cases "tb_channel_id b"; cases "tb_challenge b") auto
  moreover have "tb_build b = Ok t \<Longrightarrow> tb_build (tb_from_ticket t) = Ok (t\<lparr>tk_signature := None\<rparr>)" for t
    unfolding tb_build_Ok_iff tb_wanted_amount_def by (auto simp: tb_from_ticket_def)
  ultimately show ?thesis using tb_build_never_panics by blast
qed

lemma ticket_builder_checks_witness:
  "\<exists>t. tb_build (tb_set_challenge (replicate 20 1) (tb_set_channel_id (replicate 32 2) (tb_set_amount 100 tb_default))) = Ok t
     \<and> tb_build (tb_from_ticket t) = Ok (t\<lparr>tk_signature := None\<rparr>)"
proof -
  let ?b = "tb_set_challenge (replicate 20 1) (tb_set_channel_id (replicate 32 2) (tb_set_amount 100 tb_default))"
  have "\<exists>t. tb_build ?b = Ok t"
    using ticket_builder_checks [of ?b]
    by (simp add: tb_set_challenge_def tb_set_channel_id_def tb_set_amount_def tb_default_def max_ticket_amount_def)
  with ticket_builder_checks [of ?b] show ?thesis by blast
qed

section \<open>Wire format\<close>

definition ticket_wf :: "ticket \<Rightarrow> bool" where
  "ticket_wf t \<longleftrightarrow>
     length (tk_channel_id t) = hash_size \<and> length (tk_encoded_win_prob t) = encoded_win_prob_length
     \<and> length (tk_challenge t) = eth_challenge_size \<and> (\<forall>s. tk_signature t = Some s \<longrightarrow> length s = signature_size)
     \<and> tk_amount t < max_ticket_amount \<and> 0 < tk_index_offset t"

lemma length_encode_without_signature: "ticket_wf t \<Longrightarrow> length (encode_without_signature t) = 84"
  by (simp add: ticket_wf_def encode_without_signature_def hash_size_def encoded_win_prob_length_def eth_challenge_size_def)

lemmas ticket_sizes = hash_size_def signature_size_def eth_challenge_size_def encoded_ticket_length_def
  ticket_size_def encoded_win_prob_length_def

lemma be_encode_split: "be_encode (m + n) v = be_encode m (v div 256 ^ n) @ be_encode n v"
proof (induction n arbitrary: v)
  case (Suc n)
  have "v div 256 div 256 ^ n = v div 256 ^ Suc n" by (simp add: div_mult2_eq)
  then show ?case by (simp add: Suc.IH)
qed simp

lemma drop_be_encode: "drop m (be_encode (m + n) v) = be_encode n v"
  by (simp add: be_encode_split)

lemma encoded_fields:
  "drop 20 (u256_to_be a) = be_encode 12 (unat a)" "drop 2 (u64_to_be i) = be_encode 6 (unat i)"
  "drop 1 (u32_to_be e) = be_encode 3 (unat e)"
  using drop_be_encode [of 20 12 "unat a"] drop_be_encode [of 2 6 "unat i"] drop_be_encode [of 1 3 "unat e"]
  by (simp_all add: u256_to_be_def u64_to_be_def u32_to_be_def)

lemma decoded_fields:
  "u256_from_be (replicate 20 0 @ be_encode 12 n) = of_nat (n mod 2 ^ 96)"
  "u64_from_be (replicate 2 0 @ be_encode 6 n) = of_nat (n mod 2 ^ 48)"
  "u32_from_be (0 # be_encode 3 n) = of_nat (n mod 2 ^ 24)"
  by (simp_all only: u256_from_be_def u64_from_be_def u32_from_be_def be_decode_zeros_append be_decode_Cons0 be_decode_encode)
     simp_all

text \<open>Decoding what was encoded, in terms of the fields: an index or epoch past its width is cut off.\<close>

lemma slice_range_at:
  "i = length a \<Longrightarrow> j = i + length b \<Longrightarrow> slice_range (a @ b @ c) i j = Ok b"
  by (simp add: slice_range_def)

lemma ticket_decode_encode:
  assumes wf: "ticket_wf t" and s: "tk_signature t = Some s"
  shows "ticket_decode (encode_without_signature t @ s) =
     Ok (t\<lparr>tk_index := of_nat (unat (tk_index t) mod 2 ^ 48),
           tk_channel_epoch := of_nat (unat (tk_channel_epoch t) mod 2 ^ 24)\<rparr>)"
proof -
  note d = wf [unfolded ticket_wf_def ticket_sizes]
  let ?a = "be_encode 12 (unat (tk_amount t))" and ?i = "be_encode 6 (unat (tk_index t))"
    and ?o = "u32_to_be (tk_index_offset t)" and ?e = "be_encode 3 (unat (tk_channel_epoch t))"
  let ?v = "encode_without_signature t @ s"
  have v: "?v = tk_channel_id t @ ?a @ ?i @ ?o @ ?e @ tk_encoded_win_prob t @ tk_challenge t @ s"
    by (simp only: encode_without_signature_def encoded_fields append_assoc)
  have ls: "length s = 64" using d s by simp
  have sl: "slice_range ?v 0 32 = (Ok (tk_channel_id t) :: (general_error, bytes) result)" "slice_range ?v 32 44 = (Ok ?a :: (general_error, bytes) result)"
    "slice_range ?v 44 50 = (Ok ?i :: (general_error, bytes) result)" "slice_range ?v 50 54 = (Ok ?o :: (general_error, bytes) result)" "slice_range ?v 54 57 = (Ok ?e :: (general_error, bytes) result)"
    "slice_range ?v 57 64 = (Ok (tk_encoded_win_prob t) :: (general_error, bytes) result)" "slice_range ?v 64 84 = (Ok (tk_challenge t) :: (general_error, bytes) result)"
    "slice_range ?v 84 148 = (Ok s :: (general_error, bytes) result)"
    using d ls by (simp_all add: v slice_range_def)
  have "unat (tk_amount t) < 10 ^ 25"
    using d by (simp add: word_less_nat_alt max_ticket_amount_def)
  then have am: "of_nat (unat (tk_amount t) mod 2 ^ 96) = tk_amount t" by simp
  have ix: "(of_nat (unat (tk_index t) mod 2 ^ 48) :: u64) \<le> push_bit 48 1"
    by (simp add: word_le_nat_alt unat_of_nat less_imp_le order_trans [OF mod_le_divisor])
  have ep: "(of_nat (unat (tk_channel_epoch t) mod 2 ^ 24) :: u32) \<le> push_bit 24 1"
    by (simp add: word_le_nat_alt unat_of_nat order_trans [OF mod_le_divisor])
  have "length ?v = ticket_size" using d ls by (simp add: v ticket_sizes)
  moreover have "tk_index_offset t \<noteq> 0" using d by auto
  ultimately show ?thesis
    unfolding ticket_decode_def using sl am ix ep d ls s
    by (simp add: fixed_bytes_def wp_try_from_def ticket_sizes decoded_fields map_fail_Inr_iff tb_build_Ok_iff
        tb_wanted_amount_def tb_set_signature_def tb_set_challenge_def tb_set_win_prob_def tb_set_channel_epoch_def
        tb_set_index_offset_def tb_set_index_def tb_set_amount_def tb_set_channel_id_def tb_default_def
        del: push_bit_of_1)
qed

text \<open>Cutting a list of the full size into the fields.\<close>

lemma cut_field:
  "n \<le> length xs \<Longrightarrow> \<exists>a b. xs = a @ b \<and> length a = n \<and> length b = length xs - n"
  by (rule exI [of _ "take n xs"], rule exI [of _ "drop n xs"]) simp

definition ticket_valid :: "ticket \<Rightarrow> bool" where
  "ticket_valid t \<longleftrightarrow> ticket_wf t \<and> tk_signature t \<noteq> None
     \<and> unat (tk_index t) < 2 ^ 48 \<and> unat (tk_channel_epoch t) < 2 ^ 24"

definition ticket_bytes :: "ticket \<Rightarrow> bytes" where
  "ticket_bytes t = encode_without_signature t @ the (tk_signature t)"

lemma ticket_decode_bytes:
  assumes "ticket_valid t"
  shows "ticket_decode (ticket_bytes t) = Ok t"
proof -
  obtain s where s: "tk_signature t = Some s" using assms by (auto simp: ticket_valid_def)
  have "ticket_wf t" using assms by (simp add: ticket_valid_def)
  from ticket_decode_encode [OF this s] assms show ?thesis
    by (simp add: ticket_bytes_def s ticket_valid_def)
qed

lemma ticket_decode_Ok:
  assumes "ticket_decode bs = Ok t"
  shows "ticket_valid t \<and> ticket_bytes t = bs"
proof -
  have len: "length bs = 148" using assms by (auto simp: ticket_decode_def ticket_sizes split: if_splits)
  obtain c r1 where 1: "bs = c @ r1" "length c = 32" "length r1 = 116" using len cut_field [of 32 bs] by auto
  obtain a r2 where 2: "r1 = a @ r2" "length a = 12" "length r2 = 104" using 1 cut_field [of 12 r1] by auto
  obtain i r3 where 3: "r2 = i @ r3" "length i = 6" "length r3 = 98" using 2 cut_field [of 6 r2] by auto
  obtain f r4 where 4: "r3 = f @ r4" "length f = 4" "length r4 = 94" using 3 cut_field [of 4 r3] by auto
  obtain e r5 where 5: "r4 = e @ r5" "length e = 3" "length r5 = 91" using 4 cut_field [of 3 r4] by auto
  obtain w r6 where 6: "r5 = w @ r6" "length w = 7" "length r6 = 84" using 5 cut_field [of 7 r5] by auto
  obtain ch s where 7: "r6 = ch @ s" "length ch = 20" "length s = 64" using 6 cut_field [of 20 r6] by auto
  note L = 1(2) 2(2) 3(2) 4(2) 5(2) 6(2) 7(2,3)
  have bs: "bs = c @ a @ i @ f @ e @ w @ ch @ s" using 1 2 3 4 5 6 7 by simp
  have sl: "slice_range bs 0 32 = (Ok c :: (general_error, bytes) result)"
    "slice_range bs 32 44 = (Ok a :: (general_error, bytes) result)"
    "slice_range bs 44 50 = (Ok i :: (general_error, bytes) result)"
    "slice_range bs 50 54 = (Ok f :: (general_error, bytes) result)"
    "slice_range bs 54 57 = (Ok e :: (general_error, bytes) result)"
    "slice_range bs 57 64 = (Ok w :: (general_error, bytes) result)"
    "slice_range bs 64 84 = (Ok ch :: (general_error, bytes) result)"
    "slice_range bs 84 148 = (Ok s :: (general_error, bytes) result)"
    using L by (simp_all add: bs slice_range_def)
  have t: "t = \<lparr>tk_channel_id = c, tk_amount = u256_from_be (replicate 20 0 @ a),
       tk_index = u64_from_be (replicate 2 0 @ i), tk_index_offset = u32_from_be f, tk_encoded_win_prob = w,
       tk_channel_epoch = u32_from_be (0 # e), tk_challenge = ch, tk_signature = Some s\<rparr>"
    and g: "u256_from_be (replicate 20 0 @ a) < max_ticket_amount" "u32_from_be f \<noteq> 0"
    using assms sl L len unfolding ticket_decode_def
    by (auto simp: fixed_bytes_def wp_try_from_def ticket_sizes map_fail_Inr_iff tb_build_Ok_iff
        tb_wanted_amount_def tb_set_signature_def tb_set_challenge_def tb_set_win_prob_def tb_set_channel_epoch_def
        tb_set_index_offset_def tb_set_index_def tb_set_amount_def tb_set_channel_id_def tb_default_def)
  have u: "unat (u256_from_be (replicate 20 0 @ a)) = be_decode a" "unat (u64_from_be (replicate 2 0 @ i)) = be_decode i"
    "unat (u32_from_be (0 # e)) = be_decode e"
    and b: "be_decode i < 2 ^ 48" "be_decode e < 2 ^ 24"
    using be_decode_bound [of a] be_decode_bound [of i] be_decode_bound [of e] L
    by (simp_all only: u256_from_be_def u64_from_be_def u32_from_be_def be_decode_zeros_append be_decode_Cons0 unat_of_nat)
       simp_all
  have "ticket_valid t" using g b u L by (auto simp: ticket_valid_def ticket_wf_def t ticket_sizes word_gt_0)
  moreover have "ticket_bytes t = bs"
    using L u by (simp add: ticket_bytes_def encode_without_signature_def t encoded_fields be_encode_decode
        u32_to_from_be bs del: append_assoc)
  ultimately show ?thesis by simp
qed

interpretation ticket_exact: exact_codec ticket_bytes ticket_decode ticket_valid
  by unfold_locales (auto simp: ticket_decode_bytes dest: ticket_decode_Ok)

interpretation ticket_fixed: fixed_codec ticket_bytes ticket_decode ticket_valid 148
proof unfold_locales
  show "length (ticket_bytes t) = 148" if "ticket_valid t" for t
    using that length_encode_without_signature
    by (auto simp: ticket_bytes_def ticket_valid_def ticket_wf_def ticket_sizes)
  show "length bs = 148" if "ticket_decode bs = Ok t" for bs t
    using that by (auto simp: ticket_decode_def ticket_sizes split: if_splits)
qed

text \<open>C33: the wire format of tickets is exact: 148 bytes decode to a ticket exactly when they are the encoding of
that ticket, and what is decoded has a signature, an index below \<open>2 ^ 48\<close>, an epoch below \<open>2 ^ 24\<close>, a
positive offset and an amount below \<open>10 ^ 25\<close>.\<close>
theorem ticket_codec_exact:
  "ticket_decode bs = Ok t \<longleftrightarrow>
     (ticket_wf t \<and> unat (tk_index t) < 2 ^ 48 \<and> unat (tk_channel_epoch t) < 2 ^ 24)
     \<and> ticket_encode t = (Ok bs :: (unit, bytes) result)"
  using ticket_exact.dec_Ok_iff [of bs t]
  by (auto simp: ticket_valid_def ticket_bytes_def ticket_encode_def split: option.splits)

text \<open>The builder accepts the index \<open>2 ^ 48\<close> and the epoch \<open>2 ^ 24\<close>, which do not fit their fields: such a ticket
is encoded (and hashed, and so signed) like the one with index or epoch 0 and comes back from the wire as that one.\<close>
lemma ticket_boundary_truncated:
  assumes "ticket_wf t" and "tk_signature t = Some s"
    and "tk_index t = 2 ^ 48 \<or> tk_channel_epoch t = 2 ^ 24"
    and "unat (tk_index t) \<le> 2 ^ 48" and "unat (tk_channel_epoch t) \<le> 2 ^ 24"
  shows "\<exists>t'. t' \<noteq> t \<and> (\<exists>b. tb_build b = Ok t) \<and> encode_without_signature t' = encode_without_signature t
     \<and> ticket_get_hash cr t' ds = ticket_get_hash cr t ds
     \<and> ticket_decode (encode_without_signature t @ s) = Ok t'"
proof -
  let ?t = "t\<lparr>tk_index := of_nat (unat (tk_index t) mod 2 ^ 48),
             tk_channel_epoch := of_nat (unat (tk_channel_epoch t) mod 2 ^ 24)\<rparr>"
  have dec: "ticket_decode (encode_without_signature t @ s) = Ok ?t" by (rule ticket_decode_encode [OF assms(1,2)])
  have "unat (tk_index ?t) < 2 ^ 48" "unat (tk_channel_epoch ?t) < 2 ^ 24" by (simp_all add: unat_of_nat)
  moreover have "unat (tk_index t) = 2 ^ 48 \<or> unat (tk_channel_epoch t) = 2 ^ 24" using assms(3) by auto
  ultimately have "?t \<noteq> t" by (metis less_irrefl)
  moreover have "encode_without_signature ?t = encode_without_signature t"
    using ticket_decode_Ok [OF dec] assms(2) by (simp add: ticket_bytes_def)
  moreover have "tb_build (tb_set_signature s (tb_from_ticket t)) = Ok t"
    using assms by (auto simp: tb_build_Ok_iff tb_wanted_amount_def tb_from_ticket_def tb_set_signature_def
        ticket_wf_def word_le_nat_alt)
  ultimately show ?thesis using dec by (intro exI [of _ ?t]) (auto simp: ticket_get_hash_def)
qed

definition example_ticket :: ticket where
  "example_ticket = \<lparr>tk_channel_id = replicate 32 1, tk_amount = 100, tk_index = 2 ^ 48, tk_index_offset = 1,
     tk_encoded_win_prob = replicate 7 255, tk_channel_epoch = 1, tk_challenge = replicate 20 3,
     tk_signature = Some (replicate 64 4)\<rparr>"

lemma ticket_boundary_truncated_witness:
  "\<exists>t'. t' \<noteq> example_ticket \<and> encode_without_signature t' = encode_without_signature example_ticket"
proof -
  have "ticket_wf example_ticket" "tk_signature example_ticket = Some (replicate 64 4)"
    "tk_index example_ticket = 2 ^ 48 \<or> tk_channel_epoch example_ticket = 2 ^ 24"
    "unat (tk_index example_ticket) \<le> 2 ^ 48" "unat (tk_channel_epoch example_ticket) \<le> 2 ^ 24"
    by (simp_all add: example_ticket_def ticket_wf_def ticket_sizes max_ticket_amount_def)
  from ticket_boundary_truncated [OF this] show ?thesis by blast
qed

section \<open>Signatures\<close>

text \<open>What the code relies on of the signature scheme: recovery returns the address of the signer.\<close>

definition crypto_ok :: "('sk, 'vrf, 'rnd) crypto \<Rightarrow> bool" where
  "crypto_ok cr \<longleftrightarrow>
     (\<forall>h sk. cr_recover cr h (cr_sign_hash cr h sk) = Ok (cr_address cr sk) \<and> length (cr_sign_hash cr h sk) = 64)
     \<and> (\<forall>xs. length (cr_keccak cr xs) = 32)"

text \<open>What a verified ticket guarantees, for the domain separator it was verified with.\<close>

definition vt_inv :: "('sk, 'vrf, 'rnd) crypto \<Rightarrow> hash \<Rightarrow> verified_ticket \<Rightarrow> bool" where
  "vt_inv cr ds vt \<longleftrightarrow>
     vt_hash vt = ticket_get_hash cr (vt_ticket vt) ds
     \<and> (\<exists>s. tk_signature (vt_ticket vt) = Some s \<and> cr_recover cr (vt_hash vt) s = Ok (vt_issuer vt))"

lemma hash_ignores_signature [simp]: "ticket_get_hash cr (t\<lparr>tk_signature := s\<rparr>) ds = ticket_get_hash cr t ds"
  by (simp add: ticket_get_hash_def encode_without_signature_def)

lemma ticket_sign_inv: "crypto_ok cr \<Longrightarrow> vt_inv cr ds (ticket_sign cr t sk ds)"
  by (simp add: vt_inv_def ticket_sign_def Let_def crypto_ok_def)

lemma ticket_verify_Ok_iff:
  "ticket_verify cr t issuer ds = Ok vt \<longleftrightarrow> vt_inv cr ds vt \<and> vt_ticket vt = t \<and> vt_issuer vt = issuer"
  by (auto simp: ticket_verify_def vt_inv_def Let_def split: option.splits sum.splits failure.splits)

text \<open>C37: verification accepts a ticket exactly when its signature recovers the claimed issuer over the
ticket's hash, and then the verified ticket carries that ticket, hash and issuer; a ticket that was signed
always verifies for its signer and gives back the same verified ticket, also after a trip over the wire.\<close>
theorem ticket_sign_verify:
  assumes "crypto_ok cr"
  shows "(\<forall>vt. ticket_verify cr t issuer ds = Ok vt \<longleftrightarrow> vt_inv cr ds vt \<and> vt_ticket vt = t \<and> vt_issuer vt = issuer)
     \<and> ticket_verify cr (vt_ticket (ticket_sign cr t sk ds)) (cr_address cr sk) ds = Ok (ticket_sign cr t sk ds)
     \<and> (ticket_wf t \<and> unat (tk_index t) < 2 ^ 48 \<and> unat (tk_channel_epoch t) < 2 ^ 24 \<longrightarrow>
          ticket_decode (ticket_bytes (vt_ticket (ticket_sign cr t sk ds))) = Ok (vt_ticket (ticket_sign cr t sk ds)))"
proof -
  have "ticket_valid (vt_ticket (ticket_sign cr t sk ds))"
    if "ticket_wf t \<and> unat (tk_index t) < 2 ^ 48 \<and> unat (tk_channel_epoch t) < 2 ^ 24"
    using that assms by (simp add: ticket_valid_def ticket_wf_def ticket_sign_def Let_def crypto_ok_def ticket_sizes)
  then show ?thesis
    using ticket_sign_inv [OF assms, of ds t sk] ticket_exact.dec_enc
    by (auto simp: ticket_verify_Ok_iff ticket_sign_def Let_def)
qed

lemma example_crypto_ok: "crypto_ok example_crypto"
  by (auto simp: crypto_ok_def example_crypto_def min_def)

theorem ticket_sign_verify_witness:
  "ticket_verify example_crypto (vt_ticket (ticket_sign example_crypto example_ticket 9 [])) (replicate 20 9) []
     = Ok (ticket_sign example_crypto example_ticket 9 [])"
proof -
  have "cr_address example_crypto 9 = replicate 20 9" by (simp add: example_crypto_def)
  with ticket_sign_verify [OF example_crypto_ok, of example_ticket "[]" "[]" 9] show ?thesis by simp
qed

section \<open>Acknowledgement\<close>

lemma nonzero_scalar_Some: "nonzero_scalar n bs = Some s \<longleftrightarrow> length bs = 32 \<and> s = be_decode bs \<and> 0 < s \<and> s < n"
  by (auto simp: nonzero_scalar_def)

lemma nonzero_scalar_encode:
  "n \<le> 2 ^ 256 \<Longrightarrow> s < n \<Longrightarrow> nonzero_scalar n (be_encode 32 s) = (if s = 0 then None else Some s)"
  by (simp add: nonzero_scalar_def be_decode_encode)

text \<open>C38: acknowledging a ticket with a half-key succeeds exactly when the sum of the two secret scalars solves
the ticket's challenge; it fails with a crypto error for invalid scalars and for a wrong solution; and it
panics exactly when the two scalars cancel.\<close>
theorem acknowledge_outcome:
  assumes "0 < cr_order cr" and "cr_order cr \<le> 2 ^ 256"
    and "n = cr_order cr" and "own = ut_own_key ut" and "ssum = (be_decode own + be_decode ack) mod n"
  shows "ut_acknowledge cr ut ack =
     (if nonzero_scalar n own = None \<or> nonzero_scalar n ack = None then Err (CryptoErr CalculationError)
      else if ssum = 0 then Panicked
      else if tk_challenge (vt_ticket (ut_ticket ut)) = cr_point_address cr ssum
        then Ok \<lparr>at_status = Untouched, at_ticket = ut_ticket ut, at_response = be_encode 32 ssum\<rparr>
      else Err (CryptoErr InvalidChallenge))"
proof (cases "nonzero_scalar n own = None \<or> nonzero_scalar n ack = None")
  case True
  then show ?thesis using assms
    by (auto simp: ut_acknowledge_def response_from_half_keys_def split: option.splits)
next
  case False
  then have r: "response_from_half_keys cr own ack = Ok (be_encode 32 ssum)"
    using assms by (auto simp: response_from_half_keys_def nonzero_scalar_Some split: option.splits)
  have "nonzero_scalar n (be_encode 32 ssum) = (if ssum = 0 then None else Some ssum)"
    using assms by (intro nonzero_scalar_encode) auto
  with False r assms(3,4) show ?thesis
    by (auto simp: ut_acknowledge_def response_to_challenge_def vt_into_acknowledged_def)
qed

theorem acknowledge_outcome_witness:
  "ut_acknowledge example_crypto (vt_into_unacknowledged (ticket_sign example_crypto
       (example_ticket\<lparr>tk_challenge := replicate 20 5\<rparr>) 9 []) (be_encode 32 2)) (be_encode 32 3)
     = Ok \<lparr>at_status = Untouched, at_ticket = ticket_sign example_crypto
       (example_ticket\<lparr>tk_challenge := replicate 20 5\<rparr>) 9 [], at_response = be_encode 32 5\<rparr>
   \<and> ut_acknowledge example_crypto (vt_into_unacknowledged (ticket_sign example_crypto example_ticket 9 [])
       (be_encode 32 2)) (be_encode 32 99) = Panicked"
proof -
  have o: "0 < cr_order example_crypto" "cr_order example_crypto \<le> 2 ^ 256" "cr_order example_crypto = 101"
    "cr_point_address example_crypto 5 = replicate 20 5" by (simp_all add: example_crypto_def)
  have d: "be_decode (be_encode 32 k) = k" "nonzero_scalar 101 (be_encode 32 k) = (if k = 0 then None else Some k)"
    if "k < 101" for k :: nat
    using that by (simp_all add: be_decode_encode nonzero_scalar_encode)
  show ?thesis
    by (simp add: acknowledge_outcome [OF o(1,2) refl refl refl] o d vt_into_unacknowledged_def ticket_sign_def Let_def)
qed

section \<open>The states of a ticket\<close>

datatype 'vrf ticket_state =
    TsTicket ticket
  | TsVerified verified_ticket
  | TsUnacknowledged unacknowledged_ticket
  | TsAcknowledged acknowledged_ticket
  | TsRedeemable "'vrf redeemable_ticket"
  | TsTransferable "'vrf transferable_ticket"

text \<open>The transitions between the types of tickets, at one node and for one domain separator.\<close>

inductive ticket_step ::
  "('sk, 'vrf, 'rnd) crypto \<Rightarrow> hash \<Rightarrow> 'vrf ticket_state \<Rightarrow> 'vrf ticket_state \<Rightarrow> bool"
  for cr :: "('sk, 'vrf, 'rnd) crypto" and ds :: hash where
  step_verify: "ticket_verify cr t issuer ds = Ok vt \<Longrightarrow> ticket_step cr ds (TsTicket t) (TsVerified vt)"
| step_sign: "ticket_step cr ds (TsTicket t) (TsVerified (ticket_sign cr t sk ds))"
| step_leak: "ticket_step cr ds (TsVerified vt) (TsTicket (vt_leak vt))"
| step_unacknowledged: "ticket_step cr ds (TsVerified vt) (TsUnacknowledged (vt_into_unacknowledged vt own_key))"
| step_acknowledged: "ticket_step cr ds (TsVerified vt) (TsAcknowledged (vt_into_acknowledged vt response))"
| step_acknowledge: "ut_acknowledge cr ut ack = Ok tkt \<Longrightarrow> ticket_step cr ds (TsUnacknowledged ut) (TsAcknowledged tkt)"
| step_redeemable: "at_into_redeemable cr rnd tkt sk ds = Ok r \<Longrightarrow> ticket_step cr ds (TsAcknowledged tkt) (TsRedeemable r)"
| step_transferable:
    "at_into_transferable cr rnd tkt sk ds = Ok tr \<Longrightarrow> ticket_step cr ds (TsAcknowledged tkt) (TsTransferable tr)"
| step_redeemable_transferable: "ticket_step cr ds (TsRedeemable r) (TsTransferable (tr_from_redeemable r))"
| step_redeemable_acknowledged: "ticket_step cr ds (TsRedeemable r) (TsAcknowledged (at_from_redeemable r))"
| step_transferable_redeemable:
    "tr_into_redeemable cr tr issuer ds = Ok r \<Longrightarrow> ticket_step cr ds (TsTransferable tr) (TsRedeemable r)"

text \<open>A ticket or a transferable ticket may come from anywhere; the other types only from their operations.\<close>

fun ticket_init :: "'vrf ticket_state \<Rightarrow> bool" where
  "ticket_init (TsTicket t) = True"
| "ticket_init (TsTransferable tr) = True"
| "ticket_init _ = False"

fun ticket_state_inv :: "('sk, 'vrf, 'rnd) crypto \<Rightarrow> hash \<Rightarrow> 'vrf ticket_state \<Rightarrow> bool" where
  "ticket_state_inv cr ds (TsVerified vt) = vt_inv cr ds vt"
| "ticket_state_inv cr ds (TsUnacknowledged ut) = vt_inv cr ds (ut_ticket ut)"
| "ticket_state_inv cr ds (TsAcknowledged tkt) = vt_inv cr ds (at_ticket tkt)"
| "ticket_state_inv cr ds (TsRedeemable r) = (vt_inv cr ds (rd_ticket r) \<and> rd_channel_dst r = ds)"
| "ticket_state_inv cr ds _ = True"

lemma ut_acknowledge_ticket: "ut_acknowledge cr ut ack = Ok tkt \<Longrightarrow> at_ticket tkt = ut_ticket ut"
  by (auto simp: ut_acknowledge_def and_then_Inr_iff vt_into_acknowledged_def split: if_splits)

lemma at_into_redeemable_Ok:
  "at_into_redeemable cr rnd tkt sk ds = Ok r \<Longrightarrow>
   rd_ticket r = at_ticket tkt \<and> rd_channel_dst r = ds \<and> rd_response r = at_response tkt
   \<and> cr_address cr sk \<noteq> vt_issuer (at_ticket tkt)"
  by (auto simp: at_into_redeemable_def and_then_Inr_iff split: if_splits)

lemma tr_into_redeemable_Ok_iff:
  "tr_into_redeemable cr tr issuer ds = Ok r \<longleftrightarrow>
     tr_signer tr = issuer \<and> vt_inv cr ds (rd_ticket r) \<and> vt_ticket (rd_ticket r) = tr_ticket tr
     \<and> vt_issuer (rd_ticket r) = issuer \<and> rd_channel_dst r = ds \<and> rd_response r = tr_response tr
     \<and> rd_vrf_params r = tr_vrf_params tr
     \<and> check_ticket_win cr (vt_hash (rd_ticket r)) (the (tk_signature (tr_ticket tr)))
          (tk_encoded_win_prob (tr_ticket tr)) (tr_response tr) (tr_vrf_params tr)"
proof -
  have "tr_into_redeemable cr tr issuer ds = Ok r \<longleftrightarrow> tr_signer tr = issuer \<and>
     (\<exists>vt. ticket_verify cr (tr_ticket tr) issuer ds = Ok vt
        \<and> check_ticket_win cr (vt_hash vt) (the (tk_signature (vt_ticket vt)))
            (tk_encoded_win_prob (vt_ticket vt)) (tr_response tr) (tr_vrf_params tr)
        \<and> r = \<lparr>rd_ticket = vt, rd_response = tr_response tr, rd_vrf_params = tr_vrf_params tr, rd_channel_dst = ds\<rparr>)"
  proof (cases "ticket_verify cr (tr_ticket tr) issuer ds")
    case (Inl e)
    then show ?thesis by (cases e) (auto simp: tr_into_redeemable_def)
  next
    case (Inr vt)
    then obtain s where "tk_signature (vt_ticket vt) = Some s" by (auto simp: ticket_verify_Ok_iff vt_inv_def)
    with Inr show ?thesis by (auto simp: tr_into_redeemable_def vt_verified_signature_def)
  qed
  also have "\<dots> \<longleftrightarrow> tr_signer tr = issuer \<and> vt_inv cr ds (rd_ticket r) \<and> vt_ticket (rd_ticket r) = tr_ticket tr
     \<and> vt_issuer (rd_ticket r) = issuer \<and> rd_channel_dst r = ds \<and> rd_response r = tr_response tr
     \<and> rd_vrf_params r = tr_vrf_params tr
     \<and> check_ticket_win cr (vt_hash (rd_ticket r)) (the (tk_signature (tr_ticket tr)))
          (tk_encoded_win_prob (tr_ticket tr)) (tr_response tr) (tr_vrf_params tr)"
    by (cases r) (auto simp: ticket_verify_Ok_iff)
  finally show ?thesis .
qed

lemma ticket_step_inv:
  "ticket_step cr ds s s' \<Longrightarrow> crypto_ok cr \<Longrightarrow> ticket_state_inv cr ds s \<Longrightarrow> ticket_state_inv cr ds s'"
  by (induction rule: ticket_step.induct)
    (auto simp: ticket_verify_Ok_iff ticket_sign_inv vt_into_unacknowledged_def vt_into_acknowledged_def
      ut_acknowledge_ticket at_from_redeemable_def tr_into_redeemable_Ok_iff dest: at_into_redeemable_Ok)

interpretation ticket_sys: inductive_invariant ticket_init "\<lambda>s s'. crypto_ok cr \<and> ticket_step cr ds s s'"
  "ticket_state_inv cr ds" for cr ds
proof unfold_locales
  show "ticket_state_inv cr ds s" if "ticket_init s" for s using that by (cases s) auto
qed (auto intro: ticket_step_inv)

text \<open>Whatever path of transitions a ticket takes, starting from data of unknown origin, a ticket that has
reached the redeemable state was verified for the domain separator it will be redeemed under: its signature
recovers the recorded issuer over the hash of the ticket it carries. Nothing is said of the response, which
is any one when the acknowledged ticket was made without \<open>ut_acknowledge\<close>.\<close>
lemma redeemable_is_verified:
  assumes "reachable ticket_init (\<lambda>s s'. crypto_ok cr \<and> ticket_step cr ds s s') (TsRedeemable r)"
  shows "rd_channel_dst r = ds
     \<and> ticket_verify cr (vt_ticket (rd_ticket r)) (vt_issuer (rd_ticket r)) ds = Ok (rd_ticket r)"
  using ticket_sys.inv_reachable [OF assms] by (auto simp: ticket_verify_Ok_iff)

lemma redeemable_is_verified_witness:
  "\<exists>r. at_into_redeemable example_crypto () (vt_into_acknowledged (ticket_sign example_crypto example_ticket 9 []) []) 8 []
       = Ok r
     \<and> ticket_verify example_crypto (vt_ticket (rd_ticket r)) (vt_issuer (rd_ticket r)) [] = Ok (rd_ticket r)"
proof -
  let ?step = "\<lambda>s s'. crypto_ok example_crypto \<and> ticket_step example_crypto [] s s'"
  let ?vt = "ticket_sign example_crypto example_ticket 9 []"
  obtain r where r: "at_into_redeemable example_crypto () (vt_into_acknowledged ?vt []) 8 [] = Ok r"
    by (simp add: at_into_redeemable_def example_crypto_def vt_into_acknowledged_def ticket_sign_def Let_def)
  have "reachable ticket_init ?step (TsTicket example_ticket)" by (rule reachable_init) simp
  then have "reachable ticket_init ?step (TsVerified ?vt)"
    by (rule reachable_step) (simp add: example_crypto_ok step_sign)
  then have "reachable ticket_init ?step (TsAcknowledged (vt_into_acknowledged ?vt []))"
    by (rule reachable_step) (simp add: example_crypto_ok step_acknowledged)
  then have "reachable ticket_init ?step (TsRedeemable r)"
    by (rule reachable_step) (use r in \<open>auto simp: example_crypto_ok intro: step_redeemable\<close>)
  from redeemable_is_verified [OF this] r show ?thesis by auto
qed

text \<open>Handing a redeemable ticket over to another party loses nothing: the receiver, who verifies
everything again, gets the same redeemable ticket exactly when the ticket wins, and an error otherwise.\<close>
lemma transfer_roundtrip:
  assumes "vt_inv cr ds (rd_ticket r)" and "rd_channel_dst r = ds"
    and "tk_signature (vt_ticket (rd_ticket r)) = Some sig"
  shows "tr_into_redeemable cr (tr_from_redeemable r) (vt_issuer (rd_ticket r)) ds =
     (if check_ticket_win cr (vt_hash (rd_ticket r)) sig (tk_encoded_win_prob (vt_ticket (rd_ticket r)))
           (rd_response r) (rd_vrf_params r)
      then Ok r else Err (InvalidInputData ''ticket is not a win''))"
proof -
  have v: "ticket_verify cr (vt_ticket (rd_ticket r)) (vt_issuer (rd_ticket r)) ds = Ok (rd_ticket r)"
    using assms(1) by (simp add: ticket_verify_Ok_iff)
  show ?thesis using assms(2,3) v
    by (simp add: tr_into_redeemable_def tr_from_redeemable_def vt_leak_def vt_verified_signature_def)
qed

lemma transfer_roundtrip_witness:
  "\<exists>r. tr_into_redeemable example_crypto (tr_from_redeemable r) (replicate 20 9) [] = Ok r"
proof -
  let ?vt = "ticket_sign example_crypto example_ticket 9 []"
  let ?r = "\<lparr>rd_ticket = ?vt, rd_response = [], rd_vrf_params = 3, rd_channel_dst = []\<rparr>"
  have i: "vt_inv example_crypto [] (rd_ticket ?r)" using ticket_sign_inv [OF example_crypto_ok] by simp
  have s: "rd_channel_dst ?r = []" "tk_signature (vt_ticket (rd_ticket ?r)) = Some (replicate 64 9)"
    "vt_issuer (rd_ticket ?r) = replicate 20 9" "tk_encoded_win_prob (vt_ticket (rd_ticket ?r)) = wp_always"
    by (simp_all add: ticket_sign_def Let_def example_crypto_def example_ticket_def wp_always_def encoded_win_prob_length_def)
  have k: "length (cr_keccak example_crypto xs) = 32" for xs using example_crypto_ok by (simp add: crypto_ok_def)
  have "length (take 7 (cr_keccak example_crypto xs)) = 7" for xs by (simp add: k)
  then have "check_ticket_win example_crypto h (replicate 64 9) wp_always [] 3" for h
    using wp_luck [of "take 7 (cr_keccak example_crypto [h, drop 1 (cr_vrf_v example_crypto 3), [], replicate 64 9])"]
      wp_luck(1) [of wp_always]
    by (simp add: check_ticket_win_def wp_as_luck_def word_le_nat_alt wp_special)
  with transfer_roundtrip [OF i s(1,2)] s(3,4) show ?thesis by (intro exI [of _ ?r]) simp
qed

end
