(* ===== verification/Sphinx_Keys.thy ===== *)
theory Sphinx_Keys
  imports Tickets
begin

text \<open>
  The keys of a Sphinx packet (\<open>crypto/sphinx/src/shared_keys.rs\<close>, \<open>derivation.rs\<close>, \<open>ec_groups.rs\<close>, \<open>errors.rs\<close>): the
  derivation of keys from secrets, the secrets a sender shares with the nodes of a path, and the transformation of the
  alpha value by which each node finds its own.

  The traits of the source are records of functions: \<open>group\<close> is \<open>GroupElement\<close> with its \<open>Scalar\<close>, \<open>suite\<close> adds the
  conversions of key pairs (\<open>SphinxSuite\<close>) and the primitives of other crates: the key derivation in extendable output
  mode (Blake3), the key stream of ChaCha20 for a key and an initialisation vector, and Poly1305. A stream is a function
  from positions to bytes. Random scalars are arguments.
\<close>

section \<open>Errors\<close>

datatype sphinx_error =
    SphinxDecodingError string
  | SphinxConstructionError string
  | SphinxPaddingError
  | SphinxCryptoError crypto_error
  | SphinxGeneralError general_error

section \<open>Streams\<close>

type_synonym stream = "nat \<Rightarrow> byte"

text \<open>
  \<open>stream_fill n s\<close> is a buffer of \<open>n\<close> bytes filled from the start of a stream; \<open>xor_stream s pos data\<close> is
  \<open>apply_keystream\<close> of a cipher at position \<open>pos\<close> (\<open>seek\<close>).
\<close>

definition stream_fill :: "nat \<Rightarrow> stream \<Rightarrow> bytes" where
  "stream_fill n s = map s [0..<n]"

fun xor_stream :: "stream \<Rightarrow> nat \<Rightarrow> bytes \<Rightarrow> bytes" where
  "xor_stream s pos [] = []"
| "xor_stream s pos (b # bs) = (b XOR s pos) # xor_stream s (pos + 1) bs"

lemma length_stream_fill [simp]: "length (stream_fill n s) = n"
  by (simp add: stream_fill_def)

lemma length_xor_stream [simp]: "length (xor_stream s pos bs) = length bs"
  by (induction bs arbitrary: pos) auto

lemma xor_stream_append: "xor_stream s pos (xs @ ys) = xor_stream s pos xs @ xor_stream s (pos + length xs) ys"
  by (induction xs arbitrary: pos) auto

lemma take_xor_stream: "take n (xor_stream s pos xs) = xor_stream s pos (take n xs)"
  by (induction xs arbitrary: pos n) (auto simp: take_Cons split: nat.splits)

lemma drop_xor_stream: "drop n (xor_stream s pos xs) = xor_stream s (pos + n) (drop n xs)"
  by (induction xs arbitrary: pos n) (auto simp: drop_Cons split: nat.splits)

text \<open>
  Layers of encryption: applying a layer twice removes it, and layers may be removed in any order. A stack of layers is
  removed by applying all of them again.
\<close>

locale layered_cipher =
  fixes crypt :: "'k \<Rightarrow> 'd \<Rightarrow> 'd"
  assumes crypt_crypt: "crypt k (crypt k d) = d"
    and crypt_commute: "crypt k (crypt l d) = crypt l (crypt k d)"
begin

lemma fold_crypt: "fold crypt ks (crypt k d) = crypt k (fold crypt ks d)"
proof (induction ks arbitrary: d)
  case (Cons a ks)
  have "fold crypt (a # ks) (crypt k d) = fold crypt ks (crypt k (crypt a d))"
    by (simp add: crypt_commute [of a k])
  then show ?case by (simp only: Cons.IH fold_simps)
qed simp

lemma fold_crypt_rev: "fold crypt (rev ks) d = fold crypt ks d"
  by (induction ks arbitrary: d) (simp_all add: fold_crypt)

lemma fold_crypt_twice: "fold crypt ks (fold crypt ks d) = d"
  by (induction ks arbitrary: d) (simp_all add: fold_crypt [symmetric] crypt_crypt)

lemma fold_crypt_undo: "fold crypt ks (fold crypt (rev ks) d) = d"
  by (simp only: fold_crypt_rev fold_crypt_twice)

lemma peel_layer: "crypt k (fold crypt (rev (k # ks)) d) = fold crypt (rev ks) d"
  by (simp add: crypt_crypt)

end

lemma xor_stream_twice: "xor_stream s pos (xor_stream s pos bs) = bs"
  by (induction bs arbitrary: pos) (auto simp: xor.assoc)

lemma xor_stream_commute: "xor_stream s p (xor_stream t q bs) = xor_stream t q (xor_stream s p bs)"
  by (induction bs arbitrary: p q) (auto simp: xor.assoc xor.commute xor.left_commute)

interpretation xs: layered_cipher "\<lambda>(s, p). xor_stream s p"
  by unfold_locales (auto simp: xor_stream_twice xor_stream_commute)

section \<open>Groups, suites and key derivation\<close>

record ('g, 's) group =
  gr_alpha_len :: nat
  gr_to_alpha :: "'g \<Rightarrow> bytes"
  gr_from_alpha :: "bytes \<Rightarrow> (crypto_error, 'g) result"
  gr_generate :: "'s \<Rightarrow> 'g"
  gr_is_valid :: "'g \<Rightarrow> bool"
  gr_mul :: "'g \<Rightarrow> 's \<Rightarrow> 'g"
  gr_scalar_mul :: "'s \<Rightarrow> 's \<Rightarrow> 's"
  gr_scalar_from_bytes :: "bytes \<Rightarrow> (crypto_error, 's) result"

record ('g, 's, 'kp) suite =
  su_group :: "('g, 's) group"
  su_scalar_of :: "'kp \<Rightarrow> 's"
  su_public :: "'kp \<Rightarrow> bytes"
  su_element_of :: "bytes \<Rightarrow> 'g"
  su_kdf :: "string \<Rightarrow> bytes \<Rightarrow> stream"
  su_key_stream :: "bytes \<Rightarrow> bytes \<Rightarrow> stream"
  su_key_size :: nat
  su_iv_size :: nat
  su_mac :: "bytes \<Rightarrow> bytes \<Rightarrow> bytes"
  su_mac_key_size :: nat

definition create_kdf_instance ::
  "('g, 's, 'kp) suite \<Rightarrow> bytes \<Rightarrow> string \<Rightarrow> bytes option \<Rightarrow> (crypto_error, stream) result" where
  "create_kdf_instance su secret ctx salt =
     (if length secret < 16 then Err (InvalidInputValue ''secret must have at least 128-bits'')
      else case salt of
        Some salt \<Rightarrow> Ok (su_kdf su ctx (salt @ secret))
      | None \<Rightarrow> Ok (su_kdf su ctx secret))"

definition packet_tag_length :: nat where
  "packet_tag_length = 16"

definition derive_packet_tag :: "('g, 's, 'kp) suite \<Rightarrow> bytes \<Rightarrow> (crypto_error, bytes) result" where
  "derive_packet_tag su secret =
     map_res (stream_fill packet_tag_length) (create_kdf_instance su secret ''HASH_KEY_PACKET_TAG'' None)"

definition generate_key :: "('g, 's, 'kp) suite \<Rightarrow> bytes \<Rightarrow> string \<Rightarrow> bytes option \<Rightarrow> (crypto_error, bytes) result" where
  "generate_key su secret ctx with_salt =
     map_res (stream_fill (su_mac_key_size su)) (create_kdf_instance su secret ctx with_salt)"

text \<open>The derived bytes are the initialisation vector followed by the key; \<open>IvKey\<close> keeps them in this order.\<close>

type_synonym iv_key = "bytes \<times> bytes"

definition generate_key_iv :: "('g, 's, 'kp) suite \<Rightarrow> bytes \<Rightarrow> string \<Rightarrow> bytes option \<Rightarrow> (crypto_error, iv_key) result" where
  "generate_key_iv su secret ctx with_salt =
     map_res (\<lambda>output. let out = stream_fill (su_key_size su + su_iv_size su) output
                       in (take (su_iv_size su) out, drop (su_iv_size su) out))
       (create_kdf_instance su secret ctx with_salt)"

definition into_init :: "('g, 's, 'kp) suite \<Rightarrow> iv_key \<Rightarrow> stream" where
  "into_init su iv_key = su_key_stream su (snd iv_key) (fst iv_key)"

definition new_prp_init :: "('g, 's, 'kp) suite \<Rightarrow> bytes \<Rightarrow> (crypto_error, iv_key) result" where
  "new_prp_init su secret = generate_key_iv su secret ''HASH_KEY_PRP'' None"

definition new_reply_prp_init :: "('g, 's, 'kp) suite \<Rightarrow> bytes \<Rightarrow> bytes \<Rightarrow> (crypto_error, iv_key) result" where
  "new_reply_prp_init su secret salt = generate_key_iv su secret ''HASH_KEY_REPLY_PRP'' (Some salt)"

section \<open>Shared keys\<close>

definition shared_secret_size :: nat where
  "shared_secret_size = 32"

text \<open>\<open>GroupElement::extract_key\<close> panics when the alpha value is shorter than 16 bytes.\<close>

definition extract_key :: "('g, 's, 'kp) suite \<Rightarrow> 'g \<Rightarrow> string \<Rightarrow> bytes \<Rightarrow> (crypto_error, bytes) result" where
  "extract_key su g ctx salt =
     (case create_kdf_instance su (gr_to_alpha (su_group su) g) ctx (Some salt) of
        Inr output \<Rightarrow> Ok (stream_fill shared_secret_size output)
      | Inl _ \<Rightarrow> Panicked)"

record shared_keys =
  sk_alpha :: bytes
  sk_secrets :: "bytes list"

fun shared_keys_loop ::
  "('g, 's, 'kp) suite \<Rightarrow> 'g \<Rightarrow> 's \<Rightarrow> 'g list \<Rightarrow> (crypto_error, bytes list) result" where
  "shared_keys_loop su alpha_prev coeff_prev [] = Ok []"
| "shared_keys_loop su alpha_prev coeff_prev (group_element # rest) =
     (let gr = su_group su; salt = gr_to_alpha gr group_element;
          shared_secret = gr_mul gr group_element coeff_prev in
      and_then (extract_key su shared_secret ''HASH_KEY_SPHINX_SECRET'' salt) (\<lambda>secret.
        if rest = [] then Ok [secret]
        else
          and_then (extract_key su shared_secret ''HASH_KEY_SPHINX_BLINDING'' (gr_to_alpha gr alpha_prev)) (\<lambda>b_k.
          and_then (gr_scalar_from_bytes gr b_k) (\<lambda>b_k_checked.
            let alpha = gr_mul gr alpha_prev b_k_checked; coeff = gr_scalar_mul gr coeff_prev b_k_checked in
            if \<not> gr_is_valid gr alpha then Err CalculationError
            else and_then (shared_keys_loop su alpha coeff rest) (\<lambda>secrets. Ok (secret # secrets))))))"

definition shared_keys_generate ::
  "('g, 's, 'kp) suite \<Rightarrow> 's \<Rightarrow> 'g list \<Rightarrow> (crypto_error, shared_keys) result" where
  "shared_keys_generate su random_scalar peer_group_elements =
     (let alpha_prev = gr_generate (su_group su) random_scalar in
      and_then (shared_keys_loop su alpha_prev random_scalar peer_group_elements) (\<lambda>secrets.
        Ok \<lparr>sk_alpha = gr_to_alpha (su_group su) alpha_prev, sk_secrets = secrets\<rparr>))"

definition new_shared_keys ::
  "('g, 's, 'kp) suite \<Rightarrow> 's \<Rightarrow> bytes list \<Rightarrow> (crypto_error, shared_keys) result" where
  "new_shared_keys su random_scalar public_keys =
     shared_keys_generate su random_scalar (map (su_element_of su) public_keys)"

definition forward_transform ::
  "('g, 's, 'kp) suite \<Rightarrow> bytes \<Rightarrow> 's \<Rightarrow> 'g \<Rightarrow> (crypto_error, bytes \<times> bytes) result" where
  "forward_transform su alpha private_scalar public_group_element =
     (let gr = su_group su in
      and_then (gr_from_alpha gr alpha) (\<lambda>alpha_point.
        let s_k = gr_mul gr alpha_point private_scalar in
        and_then (extract_key su s_k ''HASH_KEY_SPHINX_SECRET'' (gr_to_alpha gr public_group_element)) (\<lambda>secret.
        and_then (extract_key su s_k ''HASH_KEY_SPHINX_BLINDING'' alpha) (\<lambda>b_k.
        and_then (gr_scalar_from_bytes gr b_k) (\<lambda>b_k_checked.
          Ok (gr_to_alpha gr (gr_mul gr alpha_point b_k_checked), secret))))))"

section \<open>X25519\<close>

text \<open>
  The suite in use: Curve25519 in Montgomery form. The arithmetic is that of the \<open>curve25519-dalek\<close> crate; scalars are
  clamped before they are reduced.
\<close>

record 's curve25519 =
  c25_mul :: "bytes \<Rightarrow> 's \<Rightarrow> bytes"
  c25_basepoint :: bytes
  c25_identity :: bytes
  c25_scalar_mul :: "'s \<Rightarrow> 's \<Rightarrow> 's"
  c25_from_bytes_mod_order :: "bytes \<Rightarrow> 's"

definition x25519_scalar_from_bytes :: "'s curve25519 \<Rightarrow> bytes \<Rightarrow> (crypto_error, 's) result" where
  "x25519_scalar_from_bytes c bs =
     (if length bs = 32 then
        let clamped = bs[0 := bs ! 0 AND 0xF8];
            clamped = clamped[31 := clamped ! 31 AND 0x7F];
            clamped = clamped[31 := clamped ! 31 OR 0x40] in
        Ok (c25_from_bytes_mod_order c clamped)
      else Err (InvalidInputValue ''bytes''))"

definition x25519_group :: "'s curve25519 \<Rightarrow> (bytes, 's) group" where
  "x25519_group c =
     \<lparr>gr_alpha_len = 32, gr_to_alpha = (\<lambda>g. g), gr_from_alpha = (\<lambda>alpha. Ok alpha),
      gr_generate = (\<lambda>scalar. c25_mul c (c25_basepoint c) scalar), gr_is_valid = (\<lambda>g. g \<noteq> c25_identity c),
      gr_mul = c25_mul c, gr_scalar_mul = c25_scalar_mul c, gr_scalar_from_bytes = x25519_scalar_from_bytes c\<rparr>"

lemma x25519_scalar_ok: "length bs = 32 \<Longrightarrow> \<exists>s. gr_scalar_from_bytes (x25519_group c) bs = Ok s"
  by (simp add: x25519_group_def x25519_scalar_from_bytes_def Let_def)

section \<open>Both sides derive the same secrets\<close>

text \<open>
  What the key exchange relies on: multiples of the generator can be multiplied in either order, their encoding can be
  decoded, 32 bytes always give a scalar, and the public key of a pair is the multiple of the generator by its scalar.
\<close>

definition suite_ok :: "('g, 's, 'kp) suite \<Rightarrow> bool" where
  "suite_ok su \<longleftrightarrow>
     (let gr = su_group su in
      (\<forall>a b. gr_mul gr (gr_generate gr a) b = gr_generate gr (gr_scalar_mul gr a b))
      \<and> (\<forall>a b. gr_scalar_mul gr a b = gr_scalar_mul gr b a)
      \<and> (\<forall>a. gr_from_alpha gr (gr_to_alpha gr (gr_generate gr a)) = Ok (gr_generate gr a))
      \<and> (\<forall>g. length (gr_to_alpha gr g) = gr_alpha_len gr) \<and> 16 \<le> gr_alpha_len gr
      \<and> (\<forall>bs. length bs = 32 \<longrightarrow> (\<exists>s. gr_scalar_from_bytes gr bs = Ok s))
      \<and> (\<forall>kp. su_element_of su (su_public su kp) = gr_generate gr (su_scalar_of su kp)))"

lemma suite_okD:
  assumes "suite_ok su"
  shows "gr_mul (su_group su) (gr_generate (su_group su) a) b = gr_generate (su_group su) (gr_scalar_mul (su_group su) a b)"
    and "gr_scalar_mul (su_group su) a b = gr_scalar_mul (su_group su) b a"
    and "gr_from_alpha (su_group su) (gr_to_alpha (su_group su) (gr_generate (su_group su) a)) = Ok (gr_generate (su_group su) a)"
    and "length (gr_to_alpha (su_group su) g) = gr_alpha_len (su_group su)"
    and "16 \<le> gr_alpha_len (su_group su)"
    and "length bs = 32 \<Longrightarrow> \<exists>s. gr_scalar_from_bytes (su_group su) bs = Ok s"
    and "su_element_of su (su_public su kp) = gr_generate (su_group su) (su_scalar_of su kp)"
  using assms unfolding suite_ok_def Let_def by (blast+)

lemma extract_key_Ok:
  assumes "suite_ok su"
  obtains k where "extract_key su g ctx salt = Ok k" and "length k = shared_secret_size"
  using suite_okD(4,5) [OF assms] by (auto simp: extract_key_def create_kdf_instance_def)

text \<open>Each node on a path finds its secret from the alpha value that the previous node leaves.\<close>

fun shares_secrets :: "('g, 's, 'kp) suite \<Rightarrow> bytes \<Rightarrow> 'kp list \<Rightarrow> bytes list \<Rightarrow> bool" where
  "shares_secrets su alpha [] secrets \<longleftrightarrow> secrets = []"
| "shares_secrets su alpha (kp # kps) secrets \<longleftrightarrow>
     (\<exists>alpha' s ss. secrets = s # ss \<and> length s = shared_secret_size \<and> length alpha' = gr_alpha_len (su_group su)
        \<and> forward_transform su alpha (su_scalar_of su kp) (su_element_of su (su_public su kp)) = Ok (alpha', s)
        \<and> shares_secrets su alpha' kps ss)"

lemma shared_keys_loop_agree:
  assumes su: "suite_ok su"
  shows "shared_keys_loop su (gr_generate (su_group su) c) c (map (\<lambda>kp. su_element_of su (su_public su kp)) kps) = Ok secrets \<Longrightarrow>
    shares_secrets su (gr_to_alpha (su_group su) (gr_generate (su_group su) c)) kps secrets"
proof (induction kps arbitrary: c secrets)
  case (Cons kp kps)
  let ?gr = "su_group su"
  let ?g = "gr_generate ?gr" and ?e = "su_element_of su (su_public su kp)"
  let ?shared = "gr_mul ?gr ?e c"
  note ok = suite_okD [OF su]
  have sym: "gr_mul ?gr (?g c) (su_scalar_of su kp) = ?shared"
    by (simp add: ok(1,7) ok(2) [of c])
  obtain secret where secret: "extract_key su ?shared ''HASH_KEY_SPHINX_SECRET'' (gr_to_alpha ?gr ?e) = Ok secret"
    "length secret = shared_secret_size" by (rule extract_key_Ok [OF su])
  obtain b_k where b_k: "extract_key su ?shared ''HASH_KEY_SPHINX_BLINDING'' (gr_to_alpha ?gr (?g c)) = Ok b_k"
    "length b_k = shared_secret_size" by (rule extract_key_Ok [OF su])
  obtain b where b: "gr_scalar_from_bytes ?gr b_k = Ok b"
    using ok(6) [of b_k] b_k(2) by (auto simp: shared_secret_size_def)
  have step: "forward_transform su (gr_to_alpha ?gr (?g c)) (su_scalar_of su kp) ?e
      = Ok (gr_to_alpha ?gr (?g (gr_scalar_mul ?gr c b)), secret)"
    by (simp add: forward_transform_def Let_def ok(3) sym secret b_k b ok(1) [of c b])
  show ?case
  proof (cases "kps = []")
    case True
    with Cons.prems secret step show ?thesis by (auto simp: Let_def ok(4))
  next
    case False
    with Cons.prems secret b_k b obtain ss where ss: "secrets = secret # ss"
      "shared_keys_loop su (?g (gr_scalar_mul ?gr c b)) (gr_scalar_mul ?gr c b) (map (\<lambda>kp. su_element_of su (su_public su kp)) kps) = Ok ss"
      by (auto simp: Let_def and_then_Inr_iff ok(1) split: if_splits)
    with Cons.IH [OF ss(2)] secret(2) step show ?thesis by (auto simp: ok(4))
  qed
qed simp

lemma shared_keys_agree:
  assumes "suite_ok su" and "new_shared_keys su x (map (su_public su) kps) = Ok keys"
  shows "shares_secrets su (sk_alpha keys) kps (sk_secrets keys)" "length (sk_secrets keys) = length kps"
    "length (sk_alpha keys) = gr_alpha_len (su_group su)" "\<forall>s \<in> set (sk_secrets keys). length s = shared_secret_size"
proof -
  from assms(2) obtain secrets where keys: "keys = \<lparr>sk_alpha = gr_to_alpha (su_group su) (gr_generate (su_group su) x), sk_secrets = secrets\<rparr>"
    and loop: "shared_keys_loop su (gr_generate (su_group su) x) x (map (\<lambda>kp. su_element_of su (su_public su kp)) kps) = Ok secrets"
    by (auto simp: new_shared_keys_def shared_keys_generate_def Let_def and_then_Inr_iff o_def)
  show s: "shares_secrets su (sk_alpha keys) kps (sk_secrets keys)"
    using shared_keys_loop_agree [OF assms(1) loop] by (simp add: keys)
  have "shares_secrets su a kps ss \<Longrightarrow> length ss = length kps \<and> (\<forall>s \<in> set ss. length s = shared_secret_size)" for a ss
    by (induction kps arbitrary: a ss) auto
  from this [OF s] show "length (sk_secrets keys) = length kps" "\<forall>s \<in> set (sk_secrets keys). length s = shared_secret_size"
    by auto
  show "length (sk_alpha keys) = gr_alpha_len (su_group su)" by (simp add: keys suite_okD(4) [OF assms(1)])
qed

end
