(* ===== verification/Sphinx_Header.thy ===== *)
theory Sphinx_Header
  imports Sphinx_Keys
begin

text \<open>
  The routing header of a Sphinx packet (\<open>crypto/sphinx/src/routing.rs\<close>): its layout, its construction from the last hop
  to the first, and the transformation by which a relay checks it, reads its own part and restores the header for the
  next hop. \<open>header_spec\<close> is the trait \<open>SphinxHeaderSpec\<close> with its sizes; the random padding is an argument.
\<close>

section \<open>Layout\<close>

record header_spec =
  hs_max_hops :: nat
  hs_key_id_size :: nat
  hs_tag_size :: nat
  hs_relayer_data_size :: nat
  hs_receiver_data_size :: nat
  hs_pseudonym_size :: nat
  hs_surb_receiver_data_size :: nat

definition header_prefix_size :: nat where
  "header_prefix_size = 1"

definition routing_info_len :: "header_spec \<Rightarrow> nat" where
  "routing_info_len hs = header_prefix_size + hs_key_id_size hs + hs_tag_size hs + hs_relayer_data_size hs"

definition header_len :: "header_spec \<Rightarrow> nat" where
  "header_len hs = header_prefix_size + hs_receiver_data_size hs + (hs_max_hops hs - 1) * routing_info_len hs"

definition ext_header_len :: "header_spec \<Rightarrow> nat" where
  "ext_header_len hs = header_prefix_size + hs_receiver_data_size hs + hs_max_hops hs * routing_info_len hs"

definition routing_info_size :: "header_spec \<Rightarrow> nat" where
  "routing_info_size hs = header_len hs + hs_tag_size hs"

section \<open>Buffers\<close>

text \<open>
  \<open>copy_from_slice dst off n src\<close> is \<open>dst[off..off + n].copy_from_slice(src)\<close>, which panics when the slice is out of
  range or the sizes differ; \<open>copy_within xs i j d\<close> is \<open>xs.copy_within(i..j, d)\<close>.
\<close>

definition copy_from_slice :: "bytes \<Rightarrow> nat \<Rightarrow> nat \<Rightarrow> bytes \<Rightarrow> ('e, bytes) result" where
  "copy_from_slice dst off n src = (if length src = n then copy_into dst off src else Panicked)"

definition copy_within :: "bytes \<Rightarrow> nat \<Rightarrow> nat \<Rightarrow> nat \<Rightarrow> ('e, bytes) result" where
  "copy_within xs i j d =
     (if i \<le> j \<and> j \<le> length xs \<and> d + (j - i) \<le> length xs
      then Ok (take d xs @ take (j - i) (drop i xs) @ drop (d + (j - i)) xs) else Panicked)"

section \<open>The prefix byte\<close>

definition sphinx_header_version :: u8 where
  "sphinx_header_version = 1"

definition header_prefix_new :: "bool \<Rightarrow> bool \<Rightarrow> u8 \<Rightarrow> (general_error, u8) result" where
  "header_prefix_new is_reply no_ack path_pos =
     (if path_pos > 7 then Err (ParseErr ''HeaderPrefixByte'')
      else Ok (push_bit 5 (sphinx_header_version AND 7) OR push_bit 4 (of_bool no_ack)
        OR push_bit 3 (of_bool is_reply) OR (path_pos AND 7)))"

definition prefix_is_reply :: "u8 \<Rightarrow> bool" where
  "prefix_is_reply p \<longleftrightarrow> p AND 0x08 \<noteq> 0"

definition prefix_is_no_ack :: "u8 \<Rightarrow> bool" where
  "prefix_is_no_ack p \<longleftrightarrow> p AND 0x10 \<noteq> 0"

definition prefix_path_position :: "u8 \<Rightarrow> u8" where
  "prefix_path_position p = p AND 7"

definition prefix_is_final_hop :: "u8 \<Rightarrow> bool" where
  "prefix_is_final_hop p \<longleftrightarrow> prefix_path_position p = 0"

definition header_prefix_try_from :: "u8 \<Rightarrow> (general_error, u8) result" where
  "header_prefix_try_from value =
     (if drop_bit 5 (value AND 0xe0) = sphinx_header_version then Ok value
      else Err (ParseErr ''invalid header version''))"

lemma header_prefix_roundtrip:
  assumes "n \<le> 7"
  obtains p where "header_prefix_new is_reply no_ack (of_nat n) = Ok p" and "header_prefix_try_from p = Ok p"
    and "prefix_is_reply p = is_reply" and "prefix_is_no_ack p = no_ack"
    and "prefix_path_position p = of_nat n" and "prefix_is_final_hop p \<longleftrightarrow> n = 0"
proof -
  have "n \<in> {0, 1, 2, 3, 4, 5, 6, 7}" using assms by auto
  then have "\<exists>p. header_prefix_new is_reply no_ack (of_nat n) = Ok p \<and> header_prefix_try_from p = Ok p
      \<and> prefix_is_reply p = is_reply \<and> prefix_is_no_ack p = no_ack
      \<and> prefix_path_position p = of_nat n \<and> (prefix_is_final_hop p \<longleftrightarrow> n = 0)"
    by (cases is_reply; cases no_ack)
      (auto simp: header_prefix_new_def header_prefix_try_from_def prefix_is_reply_def prefix_is_no_ack_def
        prefix_path_position_def prefix_is_final_hop_def sphinx_header_version_def)
  with that show thesis by blast
qed

section \<open>Construction\<close>

definition new_prg :: "('g, 's, 'kp) suite \<Rightarrow> bytes \<Rightarrow> (crypto_error, stream) result" where
  "new_prg su secret = map_res (into_init su) (generate_key_iv su secret ''HASH_KEY_PRG'' None)"

fun filler_loop ::
  "('g, 's, 'kp) suite \<Rightarrow> header_spec \<Rightarrow> nat \<Rightarrow> nat \<Rightarrow> bytes list \<Rightarrow> bytes \<Rightarrow> (crypto_error, bytes) result" where
  "filler_loop su hs len start [] ret = Ok ret"
| "filler_loop su hs len start (secret # rest) ret =
     and_then (new_prg su secret) (\<lambda>prg.
     and_then (slice_range ret 0 len) (\<lambda>seg.
       filler_loop su hs (len + routing_info_len hs) (start - routing_info_len hs) rest
         (xor_stream prg start seg @ drop len ret)))"

definition generate_filler :: "('g, 's, 'kp) suite \<Rightarrow> header_spec \<Rightarrow> bytes list \<Rightarrow> (crypto_error, bytes) result" where
  "generate_filler su hs secrets =
     (if length secrets < 2 then Ok []
      else if length secrets > hs_max_hops hs then Err (InvalidInputValue ''secrets.len'')
      else
        let padding_len = (hs_max_hops hs - length secrets) * routing_info_len hs in
        if header_len hs < padding_len + hs_pseudonym_size hs + 1 then Panicked
        else filler_loop su hs (routing_info_len hs) (header_len hs) (butlast secrets)
          (replicate (header_len hs - padding_len - hs_pseudonym_size hs - 1) 0))"

definition header_tag :: "('g, 's, 'kp) suite \<Rightarrow> header_spec \<Rightarrow> bytes \<Rightarrow> bytes \<Rightarrow> (crypto_error, bytes) result" where
  "header_tag su hs secret header =
     and_then (map_fail (\<lambda>_. InvalidInputValue ''mac_key'') (generate_key su secret ''HASH_KEY_TAG'' None)) (\<lambda>uh.
       Ok (su_mac su uh (take (header_len hs) header)))"

text \<open>The two branches of the loop of \<open>RoutingInfo::new\<close>: the layer of the last hop, and the layer of a relay.\<close>

definition last_hop_layer ::
  "('g, 's, 'kp) suite \<Rightarrow> header_spec \<Rightarrow> bytes list \<Rightarrow> bytes \<Rightarrow> stream \<Rightarrow> u8 \<Rightarrow> stream \<Rightarrow> bytes \<Rightarrow> (crypto_error, bytes) result" where
  "last_hop_layer su hs secrets receiver_data random prefix prg extended_header =
     (let data_end = header_prefix_size + hs_receiver_data_size hs;
          padding_len = (hs_max_hops hs - length secrets) * routing_info_len hs;
          layer_end = data_end + padding_len in
      and_then (copy_from_slice (extended_header[0 := prefix]) header_prefix_size (hs_receiver_data_size hs) receiver_data) (\<lambda>eh.
      and_then (if padding_len > 0 then copy_from_slice eh data_end padding_len (stream_fill padding_len random) else Ok eh) (\<lambda>eh.
        let eh = xor_stream prg 0 (take layer_end eh) @ drop layer_end eh in
        if length secrets > 1 then
          and_then (generate_filler su hs secrets) (\<lambda>filler. copy_from_slice eh layer_end (length filler) filler)
        else Ok eh)))"

definition relay_layer ::
  "header_spec \<Rightarrow> bytes \<Rightarrow> bytes \<Rightarrow> bytes option \<Rightarrow> u8 \<Rightarrow> stream \<Rightarrow> bytes \<Rightarrow> (crypto_error, bytes) result" where
  "relay_layer hs key_ident mac relayer_data prefix prg extended_header =
     and_then (copy_within extended_header 0 (header_len hs) (routing_info_len hs)) (\<lambda>eh.
       let eh = eh[0 := prefix]; key_end = header_prefix_size + hs_key_id_size hs in
       if length key_ident \<noteq> hs_key_id_size hs then Err (InvalidParameterSize ''path[..]'' (hs_key_id_size hs))
       else
         and_then (copy_from_slice eh header_prefix_size (hs_key_id_size hs) key_ident) (\<lambda>eh.
         and_then (copy_from_slice eh key_end (hs_tag_size hs) mac) (\<lambda>eh.
         and_then
           (if hs_relayer_data_size hs > 0 then
              case relayer_data of
                Some d \<Rightarrow>
                  if length d \<noteq> hs_relayer_data_size hs
                  then Err (InvalidParameterSize ''additional_data_relayer[..]'' (hs_relayer_data_size hs))
                  else copy_from_slice eh (key_end + hs_tag_size hs) (hs_relayer_data_size hs) d
              | None \<Rightarrow> Ok eh
            else Ok eh) (\<lambda>eh.
           Ok (xor_stream prg 0 (take (header_len hs) eh) @ drop (header_len hs) eh)))))"

fun routing_loop ::
  "('g, 's, 'kp) suite \<Rightarrow> header_spec \<Rightarrow> bytes list \<Rightarrow> bytes list \<Rightarrow> bytes list \<Rightarrow> bytes \<Rightarrow> bool \<Rightarrow> bool \<Rightarrow> stream
     \<Rightarrow> nat list \<Rightarrow> bytes \<times> bytes \<Rightarrow> (crypto_error, bytes \<times> bytes) result" where
  "routing_loop su hs path secrets additional_data_relayer receiver_data is_reply no_ack random [] (extended_header, mac) =
     Ok (extended_header, mac)"
| "routing_loop su hs path secrets additional_data_relayer receiver_data is_reply no_ack random (idx # idxs) (extended_header, mac) =
     (let inverted_idx = length secrets - idx - 1 in
      and_then (map_fail OtherCryptoError (header_prefix_new is_reply no_ack (of_nat idx))) (\<lambda>prefix.
      and_then (new_prg su (secrets ! inverted_idx)) (\<lambda>prg.
      and_then
        (if idx = 0 then last_hop_layer su hs secrets receiver_data random prefix prg extended_header
         else relay_layer hs (path ! (inverted_idx + 1)) mac
           (if inverted_idx < length additional_data_relayer then Some (additional_data_relayer ! inverted_idx) else None)
           prefix prg extended_header) (\<lambda>extended_header.
      and_then (header_tag su hs (secrets ! inverted_idx) extended_header) (\<lambda>mac.
        routing_loop su hs path secrets additional_data_relayer receiver_data is_reply no_ack random idxs
          (extended_header, mac))))))"

definition routing_info_new ::
  "('g, 's, 'kp) suite \<Rightarrow> header_spec \<Rightarrow> stream \<Rightarrow> bytes list \<Rightarrow> bytes list \<Rightarrow> bytes list \<Rightarrow> bytes \<Rightarrow> bool \<Rightarrow> bool
     \<Rightarrow> (crypto_error, bytes) result" where
  "routing_info_new su hs random path secrets additional_data_relayer receiver_data is_reply no_ack =
     (if \<not> hs_max_hops hs \<le> 7 then Panicked
      else if length path \<noteq> length secrets then Err (InvalidParameterSize ''path'' (length secrets))
      else if length secrets > hs_max_hops hs then Err (InvalidInputValue ''secrets.len'')
      else
        and_then (routing_loop su hs path secrets additional_data_relayer receiver_data is_reply no_ack random
            [0..<length secrets] (replicate (ext_header_len hs) 0, replicate (hs_tag_size hs) 0)) (\<lambda>(extended_header, mac).
          Ok (take (header_len hs) extended_header @ mac)))"

definition routing_info_try_from :: "header_spec \<Rightarrow> bytes \<Rightarrow> (general_error, bytes) result" where
  "routing_info_try_from hs value =
     (if length value = routing_info_size hs then Ok value else Err (ParseErr ''RoutingInfo''))"

section \<open>Forwarding\<close>

datatype forwarded_header =
    HeaderRelayed (fh_next_header: bytes) (fh_path_pos: u8) (fh_next_node: bytes) (fh_additional_info: bytes)
  | HeaderFinal (fh_receiver_data: bytes) (fh_is_reply: bool) (fh_no_ack: bool)

definition forward_header ::
  "('g, 's, 'kp) suite \<Rightarrow> header_spec \<Rightarrow> bytes \<Rightarrow> bytes \<Rightarrow> (crypto_error, forwarded_header) result" where
  "forward_header su hs secret header =
     (if length header \<noteq> routing_info_size hs then Err (InvalidParameterSize ''header'' (header_len hs))
      else
        and_then (header_tag su hs secret header) (\<lambda>tag.
          if take (hs_tag_size hs) (drop (header_len hs) header) \<noteq> tag then Err TagMismatch
          else
            and_then (new_prg su secret) (\<lambda>prg.
              let header = xor_stream prg 0 (take (header_len hs) header) @ drop (header_len hs) header in
              and_then (map_fail OtherCryptoError (header_prefix_try_from (header ! 0))) (\<lambda>prefix.
                if \<not> prefix_is_final_hop prefix then
                  let key_end = header_prefix_size + hs_key_id_size hs; tag_end = key_end + hs_tag_size hs in
                  and_then (slice_range header header_prefix_size key_end) (\<lambda>next_node.
                  and_then (slice_range header key_end tag_end) (\<lambda>next_mac.
                  and_then (slice_range header tag_end (tag_end + hs_relayer_data_size hs)) (\<lambda>additional_info.
                  and_then (copy_within header (routing_info_len hs) (header_len hs) 0) (\<lambda>header.
                    let keep = header_len hs - routing_info_len hs;
                        next_routing = take keep header @ xor_stream prg (header_len hs) (replicate (routing_info_len hs) 0) in
                    Ok (HeaderRelayed (next_routing @ next_mac) (prefix_path_position prefix) next_node additional_info)))))
                else
                  and_then (slice_range header header_prefix_size (header_prefix_size + hs_receiver_data_size hs)) (\<lambda>receiver_data.
                    Ok (HeaderFinal receiver_data (prefix_is_reply prefix) (prefix_is_no_ack prefix)))))))"

section \<open>The filler\<close>

definition header_spec_ok :: "header_spec \<Rightarrow> bool" where
  "header_spec_ok hs \<longleftrightarrow> 1 \<le> hs_max_hops hs \<and> hs_max_hops hs \<le> 7 \<and> hs_pseudonym_size hs \<le> hs_receiver_data_size hs
     \<and> hs_receiver_data_size hs \<le> hs_pseudonym_size hs + routing_info_len hs"

definition mac_ok :: "('g, 's, 'kp) suite \<Rightarrow> header_spec \<Rightarrow> bool" where
  "mac_ok su hs \<longleftrightarrow> (\<forall>k m. length (su_mac su k m) = hs_tag_size hs)"

definition secret_prg :: "('g, 's, 'kp) suite \<Rightarrow> bytes \<Rightarrow> stream" where
  "secret_prg su secret = res_get (\<lambda>_. 0) (new_prg su secret)"

definition secret_tag :: "('g, 's, 'kp) suite \<Rightarrow> header_spec \<Rightarrow> bytes \<Rightarrow> bytes \<Rightarrow> bytes" where
  "secret_tag su hs secret header = res_get [] (header_tag su hs secret header)"

lemma new_prg_Ok: "length secret = shared_secret_size \<Longrightarrow> new_prg su secret = Ok (secret_prg su secret)"
  by (simp add: secret_prg_def new_prg_def generate_key_iv_def create_kdf_instance_def shared_secret_size_def)

lemma header_tag_Ok: "length secret = shared_secret_size \<Longrightarrow> header_tag su hs secret header = Ok (secret_tag su hs secret header)"
  by (simp add: secret_tag_def header_tag_def generate_key_def create_kdf_instance_def shared_secret_size_def)

lemma length_secret_tag:
  "mac_ok su hs \<Longrightarrow> length secret = shared_secret_size \<Longrightarrow> length (secret_tag su hs secret header) = hs_tag_size hs"
  by (simp add: secret_tag_def header_tag_def generate_key_def create_kdf_instance_def shared_secret_size_def mac_ok_def)

text \<open>What the first \<open>k\<close> nodes append to the end of the header, as each of them shifts in zeros and decrypts.\<close>

fun filler_at :: "('g, 's, 'kp) suite \<Rightarrow> header_spec \<Rightarrow> bytes list \<Rightarrow> nat \<Rightarrow> bytes" where
  "filler_at su hs secrets 0 = []"
| "filler_at su hs secrets (Suc k) =
     xor_stream (secret_prg su (secrets ! k)) (header_len hs - k * routing_info_len hs)
       (filler_at su hs secrets k @ replicate (routing_info_len hs) 0)"

lemma length_filler_at [simp]: "length (filler_at su hs secrets k) = k * routing_info_len hs"
  by (induction k) auto

lemma filler_loop_eq:
  assumes "\<forall>s \<in> set secrets. length s = shared_secret_size"
  shows "k \<le> m \<Longrightarrow> m \<le> length secrets \<Longrightarrow> (m - k) * routing_info_len hs \<le> r \<Longrightarrow>
    filler_loop su hs (Suc k * routing_info_len hs) (header_len hs - k * routing_info_len hs) (drop k (take m secrets))
      (filler_at su hs secrets k @ replicate r 0)
    = Ok (filler_at su hs secrets m @ replicate (r - (m - k) * routing_info_len hs) 0)"
proof (induction "m - k" arbitrary: k r)
  case 0
  then show ?case by simp
next
  case (Suc d)
  let ?L = "routing_info_len hs"
  have k: "k < m" "k < length secrets" using Suc.hyps(2) Suc.prems(2) by linarith+
  have mk: "m - k = Suc (m - Suc k)" using k by simp
  have r: "?L \<le> r" "(m - Suc k) * ?L \<le> r - ?L" using Suc.prems(3) by (simp_all add: mk)
  have d: "drop k (take m secrets) = secrets ! k # drop (Suc k) (take m secrets)"
    using k by (simp add: Cons_nth_drop_Suc [symmetric])
  have l: "length (secrets ! k) = shared_secret_size" using assms k by simp
  have rep: "replicate r (0 :: byte) = replicate ?L 0 @ replicate (r - ?L) 0"
    using r by (simp add: replicate_add [symmetric])
  have seg: "slice_range (filler_at su hs secrets k @ replicate r 0) 0 (Suc k * ?L) = Ok (filler_at su hs secrets k @ replicate ?L 0)"
    using r by (simp add: slice_range_def rep)
  have rest: "drop (Suc k * ?L) (filler_at su hs secrets k @ replicate r 0) = replicate (r - ?L) 0"
    by (simp add: rep)
  have "filler_loop su hs (Suc (Suc k) * ?L) (header_len hs - Suc k * ?L) (drop (Suc k) (take m secrets))
      (filler_at su hs secrets (Suc k) @ replicate (r - ?L) 0)
    = Ok (filler_at su hs secrets m @ replicate (r - ?L - (m - Suc k) * ?L) 0)"
    using Suc.hyps(2) k r(2) Suc.prems(2) by (intro Suc.hyps(1)) simp_all
  then show ?case
    by (simp add: d new_prg_Ok [OF l] seg rest mk diff_diff_left add.commute del: mult_Suc) (simp add: algebra_simps)
qed

lemma header_len_eq:
  assumes "header_spec_ok hs" and "1 \<le> n" and "n \<le> hs_max_hops hs"
  shows "header_len hs = header_prefix_size + hs_receiver_data_size hs + (hs_max_hops hs - n) * routing_info_len hs
      + (n - 1) * routing_info_len hs"
    and "ext_header_len hs = header_len hs + routing_info_len hs"
proof -
  have "hs_max_hops hs - 1 = (hs_max_hops hs - n) + (n - 1)" using assms by simp
  then show "header_len hs = header_prefix_size + hs_receiver_data_size hs + (hs_max_hops hs - n) * routing_info_len hs
      + (n - 1) * routing_info_len hs"
    by (simp add: header_len_def add_mult_distrib)
  have "hs_max_hops hs = Suc (hs_max_hops hs - 1)" using assms by (simp add: header_spec_ok_def)
  then have "hs_max_hops hs * routing_info_len hs = routing_info_len hs + (hs_max_hops hs - 1) * routing_info_len hs"
    by (metis mult_Suc)
  then show "ext_header_len hs = header_len hs + routing_info_len hs" by (simp add: ext_header_len_def header_len_def)
qed

lemma generate_filler_eq:
  assumes hs: "header_spec_ok hs" and s: "\<forall>s \<in> set secrets. length s = shared_secret_size"
    and n: "1 < length secrets" "length secrets \<le> hs_max_hops hs"
  shows "generate_filler su hs secrets =
    Ok (filler_at su hs secrets (length secrets - 1) @ replicate (hs_receiver_data_size hs - hs_pseudonym_size hs) 0)"
proof -
  let ?n = "length secrets" and ?L = "routing_info_len hs"
  have hl: "header_len hs = header_prefix_size + hs_receiver_data_size hs + (hs_max_hops hs - ?n) * ?L + (?n - 1) * ?L"
    using n by (intro header_len_eq(1) [OF hs]) auto
  have ps: "hs_pseudonym_size hs \<le> hs_receiver_data_size hs" using hs by (simp add: header_spec_ok_def)
  then have size: "header_len hs - (hs_max_hops hs - ?n) * ?L - hs_pseudonym_size hs - 1
      = (?n - 1) * ?L + (hs_receiver_data_size hs - hs_pseudonym_size hs)"
    by (simp add: hl header_prefix_size_def)
  have bl: "butlast secrets = drop 0 (take (?n - 1) secrets)" by (simp add: butlast_conv_take)
  have "filler_loop su hs ?L (header_len hs) (butlast secrets) (replicate ((?n - 1) * ?L + (hs_receiver_data_size hs - hs_pseudonym_size hs)) 0)
      = Ok (filler_at su hs secrets (?n - 1) @ replicate (hs_receiver_data_size hs - hs_pseudonym_size hs) 0)"
    using filler_loop_eq [OF s, of 0 "?n - 1" hs "(?n - 1) * ?L + (hs_receiver_data_size hs - hs_pseudonym_size hs)" su]
    by (simp add: bl)
  moreover have "\<not> header_len hs < (hs_max_hops hs - ?n) * ?L + hs_pseudonym_size hs + 1"
    using ps by (simp add: hl header_prefix_size_def)
  ultimately show ?thesis using n unfolding generate_filler_def Let_def size by simp
qed

section \<open>The layers of a header\<close>

definition header_inputs_ok :: "header_spec \<Rightarrow> bytes list \<Rightarrow> bytes list \<Rightarrow> bytes list \<Rightarrow> bytes \<Rightarrow> bool" where
  "header_inputs_ok hs path secrets relayer_data receiver_data \<longleftrightarrow>
     secrets \<noteq> [] \<and> length path = length secrets \<and> length secrets \<le> hs_max_hops hs
     \<and> (\<forall>s \<in> set secrets. length s = shared_secret_size)
     \<and> (\<forall>p \<in> set path. length p = hs_key_id_size hs)
     \<and> length receiver_data = hs_receiver_data_size hs
     \<and> length secrets - 1 \<le> length relayer_data
     \<and> (\<forall>d \<in> set relayer_data. length d = hs_relayer_data_size hs)"

definition prefix_at :: "bool \<Rightarrow> bool \<Rightarrow> nat \<Rightarrow> u8" where
  "prefix_at is_reply no_ack idx = res_get 0 (header_prefix_new is_reply no_ack (of_nat idx))"

definition innermost :: "('g, 's, 'kp) suite \<Rightarrow> header_spec \<Rightarrow> stream \<Rightarrow> bytes list \<Rightarrow> bytes \<Rightarrow> u8 \<Rightarrow> bytes" where
  "innermost su hs random secrets receiver_data prefix =
     xor_stream (secret_prg su (last secrets)) 0
       (prefix # receiver_data @ stream_fill ((hs_max_hops hs - length secrets) * routing_info_len hs) random)"

fun header_at ::
  "('g, 's, 'kp) suite \<Rightarrow> header_spec \<Rightarrow> (nat \<Rightarrow> u8) \<Rightarrow> bytes list \<Rightarrow> bytes list \<Rightarrow> bytes list \<Rightarrow> bytes \<Rightarrow> nat \<Rightarrow> bytes" where
  "header_at su hs prefix path secrets relayer_data layer 0 = layer @ filler_at su hs secrets (length secrets - 1)"
| "header_at su hs prefix path secrets relayer_data layer (Suc idx) =
     (let i = length secrets - Suc idx - 1; inner = header_at su hs prefix path secrets relayer_data layer idx in
      xor_stream (secret_prg su (secrets ! i)) 0
        (prefix (Suc idx) # path ! (i + 1) @ secret_tag su hs (secrets ! (i + 1)) inner @ relayer_data ! i
          @ take (header_len hs - routing_info_len hs) inner))"

lemma copy_at_end:
  assumes "length a = off" and "length b = n" and "length src = n"
  shows "copy_from_slice (a @ b @ c) off n src = Ok (a @ src @ c)"
  using assms by (simp add: copy_from_slice_def copy_into_def)

lemma last_hop_layer_eq:
  assumes hs: "header_spec_ok hs" and inp: "header_inputs_ok hs path secrets relayer_data receiver_data"
  obtains eh where "last_hop_layer su hs secrets receiver_data random prefix (secret_prg su (last secrets)) (replicate (ext_header_len hs) 0) = Ok eh"
    and "length eh = ext_header_len hs"
    and "take (header_len hs) eh = innermost su hs random secrets receiver_data prefix @ filler_at su hs secrets (length secrets - 1)"
proof -
  let ?n = "length secrets" and ?L = "routing_info_len hs" and ?R = "hs_receiver_data_size hs" and ?P = "hs_pseudonym_size hs"
  let ?pad = "(hs_max_hops hs - ?n) * ?L"
  let ?in = "innermost su hs random secrets receiver_data prefix"
  have n: "1 \<le> ?n" "?n \<le> hs_max_hops hs" and sec: "\<forall>s \<in> set secrets. length s = shared_secret_size"
    and recv: "length receiver_data = ?R"
    using inp by (auto simp: header_inputs_ok_def Suc_le_eq)
  have psize: "?P \<le> ?R" using hs by (simp add: header_spec_ok_def)
  note hl = header_len_eq [OF hs n]
  have ext: "ext_header_len hs = 1 + (?R + (?pad + ((?n - 1) * ?L + ?L)))" by (simp add: hl header_prefix_size_def)
  define z where "z = (\<lambda>n. replicate n (0 :: byte))"
  have eh0: "(replicate (ext_header_len hs) 0)[0 := prefix] = [prefix] @ z ?R @ z ?pad @ z ((?n - 1) * ?L + ?L)"
    unfolding ext z_def by (simp add: replicate_add)
  have c1: "copy_from_slice ([prefix] @ z ?R @ z ?pad @ z ((?n - 1) * ?L + ?L)) header_prefix_size ?R receiver_data
      = Ok ([prefix] @ receiver_data @ z ?pad @ z ((?n - 1) * ?L + ?L))"
    by (rule copy_at_end) (simp_all add: recv header_prefix_size_def z_def)
  have c2: "(if ?pad > 0 then copy_from_slice ([prefix] @ receiver_data @ z ?pad @ z ((?n - 1) * ?L + ?L)) (header_prefix_size + ?R) ?pad (stream_fill ?pad random)
      else Ok ([prefix] @ receiver_data @ z ?pad @ z ((?n - 1) * ?L + ?L)))
      = Ok (([prefix] @ receiver_data @ stream_fill ?pad random) @ z ((?n - 1) * ?L + ?L))"
    using copy_at_end [of "[prefix] @ receiver_data" "header_prefix_size + ?R" "z ?pad" ?pad "stream_fill ?pad random" "z ((?n - 1) * ?L + ?L)"]
    by (auto simp: recv header_prefix_size_def z_def stream_fill_def)
  define b where "b = [prefix] @ receiver_data @ stream_fill ?pad random"
  have lb: "take (header_prefix_size + ?R + ?pad) (b @ c) = b" "drop (header_prefix_size + ?R + ?pad) (b @ c) = c" for c
    by (simp_all add: b_def recv header_prefix_size_def)
  have xb: "xor_stream (secret_prg su (last secrets)) 0 b = ?in" by (simp add: innermost_def b_def)
  have lin: "length ?in = header_prefix_size + ?R + ?pad" by (simp add: innermost_def recv header_prefix_size_def)
  show thesis
  proof (cases "1 < ?n")
    case True
    let ?F = "filler_at su hs secrets (?n - 1)"
    have fits: "?R - ?P \<le> ?L" using hs unfolding header_spec_ok_def by linarith
    have "generate_filler su hs secrets = Ok (?F @ z (?R - ?P))"
      using generate_filler_eq [OF hs sec True n(2)] by (simp add: z_def)
    moreover have "copy_from_slice (?in @ z ((?n - 1) * ?L + ?L)) (header_prefix_size + ?R + ?pad) (length (?F @ z (?R - ?P))) (?F @ z (?R - ?P))
        = Ok (?in @ (?F @ z (?R - ?P)) @ z (?L - (?R - ?P)))"
    proof -
      have "z ((?n - 1) * ?L + ?L) = z (length (?F @ z (?R - ?P))) @ z (?L - (?R - ?P))"
        unfolding z_def replicate_add [symmetric] using fits by simp
      then show ?thesis by (simp only:) (rule copy_at_end, simp_all add: lin z_def)
    qed
    ultimately have "last_hop_layer su hs secrets receiver_data random prefix (secret_prg su (last secrets)) (replicate (ext_header_len hs) 0)
        = Ok (?in @ (?F @ z (?R - ?P)) @ z (?L - (?R - ?P)))"
      unfolding last_hop_layer_def Let_def eh0 c1 and_then.simps c2 b_def [symmetric] lb xb
      using True by simp
    then show thesis by (rule that) (use fits in \<open>simp_all add: lin ext hl z_def header_prefix_size_def\<close>)
  next
    case False
    then have n1: "?n = 1" using n by simp
    have "last_hop_layer su hs secrets receiver_data random prefix (secret_prg su (last secrets)) (replicate (ext_header_len hs) 0)
        = Ok (?in @ z ((?n - 1) * ?L + ?L))"
      unfolding last_hop_layer_def Let_def eh0 c1 and_then.simps c2 b_def [symmetric] lb xb
      by (simp add: n1)
    then show thesis by (rule that) (simp_all add: lin n1 ext hl z_def header_prefix_size_def)
  qed
qed

lemma routing_info_len_pos: "0 < routing_info_len hs"
  by (simp add: routing_info_len_def header_prefix_size_def)

lemma relay_layer_eq:
  assumes eh: "length eh = ext_header_len hs" "ext_header_len hs = header_len hs + routing_info_len hs"
    and L: "routing_info_len hs \<le> header_len hs"
    and key: "length key_ident = hs_key_id_size hs" and mac: "length mac = hs_tag_size hs"
    and d: "length d = hs_relayer_data_size hs"
  obtains eh' where "relay_layer hs key_ident mac (Some d) prefix prg eh = Ok eh'"
    and "length eh' = ext_header_len hs"
    and "take (header_len hs) eh' = xor_stream prg 0 (prefix # key_ident @ mac @ d @ take (header_len hs - routing_info_len hs) eh)"
proof -
  let ?L = "routing_info_len hs" and ?H = "header_len hs"
  let ?K = "hs_key_id_size hs" and ?T = "hs_tag_size hs" and ?D = "hs_relayer_data_size hs"
  define body where "body = take ?H eh"
  have lb: "length body = ?H" using eh by (simp add: body_def)
  obtain p0 k0 t0 d0 where old: "take ?L eh = [p0] @ k0 @ t0 @ d0" "length k0 = ?K" "length t0 = ?T" "length d0 = ?D"
  proof -
    have len: "length (take ?L eh) = 1 + (?K + (?T + ?D))"
      using eh by (simp add: routing_info_len_def header_prefix_size_def)
    let ?x = "take ?L eh"
    have split: "?x = [hd ?x] @ take ?K (tl ?x) @ take ?T (drop ?K (tl ?x)) @ drop ?T (drop ?K (tl ?x))"
      using len by (cases ?x) (simp_all del: drop_drop)
    show thesis by (rule that [OF split]) (use len in auto)
  qed
  have cw: "copy_within eh 0 ?H ?L = Ok ([p0] @ k0 @ t0 @ d0 @ body)"
    using eh by (simp add: copy_within_def old(1) body_def)
  have c1: "copy_from_slice ([prefix] @ k0 @ t0 @ d0 @ body) header_prefix_size ?K key_ident = Ok ([prefix] @ key_ident @ t0 @ d0 @ body)"
    by (rule copy_at_end) (simp_all add: header_prefix_size_def old key)
  have c2: "copy_from_slice ([prefix] @ key_ident @ t0 @ d0 @ body) (header_prefix_size + ?K) ?T mac = Ok ([prefix] @ key_ident @ mac @ d0 @ body)"
    using copy_at_end [of "[prefix] @ key_ident" "header_prefix_size + ?K" t0 ?T mac "d0 @ body"]
    by (simp add: header_prefix_size_def old key mac)
  have c3: "(if ?D > 0 then if length d \<noteq> ?D then Err (InvalidParameterSize ''additional_data_relayer[..]'' ?D)
        else copy_from_slice ([prefix] @ key_ident @ mac @ d0 @ body) (header_prefix_size + ?K + ?T) ?D d
      else Ok ([prefix] @ key_ident @ mac @ d0 @ body)) = Ok ([prefix] @ key_ident @ mac @ d @ body)"
    using copy_at_end [of "[prefix] @ key_ident @ mac" "header_prefix_size + ?K + ?T" d0 ?D d body] old(4) d
    by (auto simp: header_prefix_size_def key mac)
  have up: "([p0] @ k0 @ t0 @ d0 @ body)[0 := prefix] = [prefix] @ k0 @ t0 @ d0 @ body" by simp
  let ?all = "[prefix] @ key_ident @ mac @ d @ body"
  have "relay_layer hs key_ident mac (Some d) prefix prg eh = Ok (xor_stream prg 0 (take ?H ?all) @ drop ?H ?all)"
    by (simp only: relay_layer_def cw and_then.simps Let_def up key c1 c2 c3 option.case refl not_True_eq_False if_False)
  then show thesis
  proof (rule that)
    show "length (xor_stream prg 0 (take ?H ?all) @ drop ?H ?all) = ext_header_len hs"
      using lb by (simp add: eh key mac d routing_info_len_def header_prefix_size_def)
    have la: "length (prefix # key_ident @ mac @ d) = ?L" by (simp add: routing_info_len_def header_prefix_size_def key mac d)
    have ta: "take ?H (prefix # key_ident @ mac @ d) = prefix # key_ident @ mac @ d"
      by (rule take_all, subst la, rule L)
    have "take ?H ?all = (prefix # key_ident @ mac @ d) @ take (?H - ?L) body"
      using take_append [of ?H "prefix # key_ident @ mac @ d" body] unfolding la ta by simp
    moreover have "take (?H - ?L) body = take (?H - ?L) eh" by (simp add: body_def)
    moreover have "length (take ?H ?all) = ?H" using lb by simp
    ultimately show "take ?H (xor_stream prg 0 (take ?H ?all) @ drop ?H ?all)
        = xor_stream prg 0 (prefix # key_ident @ mac @ d @ take (?H - ?L) eh)"
      by (metis append.assoc append_Cons append_eq_conv_conj length_xor_stream)
  qed
qed

lemma length_innermost:
  assumes "header_inputs_ok hs path secrets relayer_data receiver_data"
  shows "length (innermost su hs random secrets receiver_data prefix)
    = header_prefix_size + hs_receiver_data_size hs + (hs_max_hops hs - length secrets) * routing_info_len hs"
  using assms by (simp add: innermost_def header_inputs_ok_def header_prefix_size_def)

lemma header_inputs_len:
  assumes "header_spec_ok hs" and inp: "header_inputs_ok hs path secrets relayer_data receiver_data" and "i + 1 < length secrets"
  shows "header_len hs - i * routing_info_len hs = routing_info_len hs + (header_len hs - (i + 1) * routing_info_len hs)"
    and "routing_info_len hs \<le> header_len hs" and "(i + 1) * routing_info_len hs \<le> header_len hs"
proof -
  let ?L = "routing_info_len hs"
  have "i + 1 \<le> hs_max_hops hs - 1" using assms by (auto simp: header_inputs_ok_def)
  then have le: "(i + 1) * ?L \<le> (hs_max_hops hs - 1) * ?L" by (rule mult_le_mono1)
  then show "(i + 1) * ?L \<le> header_len hs" by (simp add: header_len_def)
  then show "header_len hs - i * ?L = ?L + (header_len hs - (i + 1) * ?L)" and "?L \<le> header_len hs" by simp_all
qed

lemma header_inputs_nth:
  assumes "header_inputs_ok hs path secrets relayer_data receiver_data" and "i + 1 < length secrets"
  shows "length (secrets ! i) = shared_secret_size" "length (secrets ! (i + 1)) = shared_secret_size"
    "length (path ! (i + 1)) = hs_key_id_size hs" "length (relayer_data ! i) = hs_relayer_data_size hs" "i < length relayer_data"
  using assms by (auto simp: header_inputs_ok_def)

text \<open>The part of the header a relay reads, in front of what it forwards.\<close>

definition hop_part ::
  "('g, 's, 'kp) suite \<Rightarrow> header_spec \<Rightarrow> u8 \<Rightarrow> bytes list \<Rightarrow> bytes list \<Rightarrow> bytes list \<Rightarrow> nat \<Rightarrow> bytes \<Rightarrow> bytes" where
  "hop_part su hs p path secrets relayer_data i inner =
     p # path ! (i + 1) @ secret_tag su hs (secrets ! (i + 1)) inner @ relayer_data ! i"

lemma length_hop_part:
  assumes "mac_ok su hs" and "header_inputs_ok hs path secrets relayer_data receiver_data" and "i + 1 < length secrets"
  shows "length (hop_part su hs p path secrets relayer_data i inner) = routing_info_len hs"
  using header_inputs_nth [OF assms(2,3)] length_secret_tag [OF assms(1)]
  by (simp add: routing_info_len_def header_prefix_size_def hop_part_def)

lemma header_at_Suc:
  assumes "i = length secrets - Suc idx - 1"
  shows "header_at su hs prefix path secrets relayer_data layer (Suc idx) =
    xor_stream (secret_prg su (secrets ! i)) 0
      (hop_part su hs (prefix (Suc idx)) path secrets relayer_data i (header_at su hs prefix path secrets relayer_data layer idx)
       @ take (header_len hs - routing_info_len hs) (header_at su hs prefix path secrets relayer_data layer idx))"
  unfolding header_at.simps Let_def assms [symmetric] hop_part_def by simp

declare header_at.simps(2) [simp del]

lemma length_header_at:
  assumes hs: "header_spec_ok hs" "mac_ok su hs" and inp: "header_inputs_ok hs path secrets relayer_data receiver_data"
  shows "idx < length secrets \<Longrightarrow>
    length (header_at su hs prefix path secrets relayer_data (innermost su hs random secrets receiver_data p) idx) = header_len hs"
proof (induction idx)
  case 0
  have n: "1 \<le> length secrets" "length secrets \<le> hs_max_hops hs" using inp by (auto simp: header_inputs_ok_def Suc_le_eq)
  show ?case using header_len_eq(1) [OF hs(1) n] by (simp add: length_innermost [OF inp])
next
  case (Suc idx)
  let ?i = "length secrets - Suc idx - 1"
  have i: "?i + 1 < length secrets" using Suc.prems by simp
  show ?case using Suc length_hop_part [OF hs(2) inp i] header_inputs_len(2) [OF hs(1) inp i]
    by (simp add: header_at_Suc [OF refl])
qed

lemma header_tail:
  assumes hs: "header_spec_ok hs" "mac_ok su hs" and inp: "header_inputs_ok hs path secrets relayer_data receiver_data"
  shows "idx < length secrets \<Longrightarrow> i = length secrets - idx - 1 \<Longrightarrow>
    drop (header_len hs - i * routing_info_len hs)
      (header_at su hs prefix path secrets relayer_data (innermost su hs random secrets receiver_data p) idx)
    = filler_at su hs secrets i"
proof (induction idx arbitrary: i)
  case 0
  have n: "1 \<le> length secrets" "length secrets \<le> hs_max_hops hs" using inp by (auto simp: header_inputs_ok_def Suc_le_eq)
  have "header_len hs - i * routing_info_len hs = length (innermost su hs random secrets receiver_data p)"
    using header_len_eq(1) [OF hs(1) n] 0 by (simp add: length_innermost [OF inp])
  then show ?case using 0 by simp
next
  case (Suc idx)
  let ?L = "routing_info_len hs" and ?H = "header_len hs"
  have i: "i + 1 < length secrets" and i1: "i + 1 = length secrets - idx - 1" and idx: "idx < length secrets"
    and ieq: "length secrets - Suc idx - 1 = i"
    using Suc.prems by simp_all
  define inner where "inner = header_at su hs prefix path secrets relayer_data (innermost su hs random secrets receiver_data p) idx"
  define part where "part = hop_part su hs (prefix (Suc idx)) path secrets relayer_data i inner"
  note len = header_inputs_len [OF hs(1) inp i]
  have lpart: "length part = ?L" unfolding part_def by (rule length_hop_part [OF hs(2) inp i])
  have linner: "length inner = ?H" unfolding inner_def by (rule length_header_at [OF hs inp idx])
  have tail: "drop (?H - (i + 1) * ?L) inner = filler_at su hs secrets (i + 1)"
    unfolding inner_def using idx i1 by (rule Suc.IH)
  have hdr: "header_at su hs prefix path secrets relayer_data (innermost su hs random secrets receiver_data p) (Suc idx)
      = xor_stream (secret_prg su (secrets ! i)) 0 (part @ take (?H - ?L) inner)"
    unfolding header_at_Suc [OF ieq [symmetric]] inner_def [symmetric] part_def ..
  have "drop (?H - i * ?L) (part @ take (?H - ?L) inner) = drop (?H - (i + 1) * ?L) (take (?H - ?L) inner)"
    unfolding len(1) by (simp add: lpart)
  also have "\<dots> = take (i * ?L) (filler_at su hs secrets (i + 1))"
  proof -
    have "?H - ?L - (?H - (i + 1) * ?L) = i * ?L" using len(3) by simp
    then show ?thesis using tail by (simp add: drop_take)
  qed
  also have "\<dots> = xor_stream (secret_prg su (secrets ! i)) (?H - i * ?L) (filler_at su hs secrets i)"
    by (simp add: take_xor_stream)
  finally show ?case unfolding hdr by (simp add: drop_xor_stream xor_stream_twice)
qed

lemma header_last_part:
  assumes hs: "header_spec_ok hs" "mac_ok su hs" and inp: "header_inputs_ok hs path secrets relayer_data receiver_data"
    and i: "i + 1 < length secrets" "idx = length secrets - (i + 1) - 1"
  shows "header_at su hs prefix path secrets relayer_data (innermost su hs random secrets receiver_data p) idx
    = take (header_len hs - routing_info_len hs)
        (header_at su hs prefix path secrets relayer_data (innermost su hs random secrets receiver_data p) idx)
      @ xor_stream (secret_prg su (secrets ! i)) (header_len hs) (replicate (routing_info_len hs) 0)"
proof -
  let ?L = "routing_info_len hs" and ?H = "header_len hs"
  let ?h = "header_at su hs prefix path secrets relayer_data (innermost su hs random secrets receiver_data p) idx"
  note len = header_inputs_len [OF hs(1) inp i(1)]
  have "drop (?H - (i + 1) * ?L) ?h = filler_at su hs secrets (i + 1)"
    by (rule header_tail [OF hs inp]) (use i in simp_all)
  then have "drop (i * ?L) (drop (?H - (i + 1) * ?L) ?h) = xor_stream (secret_prg su (secrets ! i)) ?H (replicate ?L 0)"
    using len(3) by (simp add: xor_stream_append)
  moreover have "i * ?L + (?H - (i + 1) * ?L) = ?H - ?L" using len(3) by simp
  ultimately have "drop (?H - ?L) ?h = xor_stream (secret_prg su (secrets ! i)) ?H (replicate ?L 0)"
    by (simp add: add.commute)
  then show ?thesis by (metis append_take_drop_id)
qed

section \<open>The header travels along the path\<close>

definition hop_header ::
  "('g, 's, 'kp) suite \<Rightarrow> header_spec \<Rightarrow> stream \<Rightarrow> bytes list \<Rightarrow> bytes list \<Rightarrow> bytes list \<Rightarrow> bytes \<Rightarrow> bool \<Rightarrow> bool \<Rightarrow> nat \<Rightarrow> bytes" where
  "hop_header su hs random path secrets relayer_data receiver_data is_reply no_ack idx =
     header_at su hs (prefix_at is_reply no_ack) path secrets relayer_data
       (innermost su hs random secrets receiver_data (prefix_at is_reply no_ack 0)) idx"

definition hop_tag ::
  "('g, 's, 'kp) suite \<Rightarrow> header_spec \<Rightarrow> stream \<Rightarrow> bytes list \<Rightarrow> bytes list \<Rightarrow> bytes list \<Rightarrow> bytes \<Rightarrow> bool \<Rightarrow> bool \<Rightarrow> nat \<Rightarrow> bytes" where
  "hop_tag su hs random path secrets relayer_data receiver_data is_reply no_ack idx =
     secret_tag su hs (secrets ! (length secrets - idx - 1))
       (hop_header su hs random path secrets relayer_data receiver_data is_reply no_ack idx)"

lemma secret_tag_take:
  "length secret = shared_secret_size \<Longrightarrow> take (header_len hs) h = take (header_len hs) h' \<Longrightarrow>
    secret_tag su hs secret h = secret_tag su hs secret h'"
  by (simp add: secret_tag_def header_tag_def)

lemma prefix_at_facts:
  assumes "n \<le> 7"
  shows "header_prefix_new r na (of_nat n) = Ok (prefix_at r na n)" "header_prefix_try_from (prefix_at r na n) = Ok (prefix_at r na n)"
    "prefix_is_reply (prefix_at r na n) = r" "prefix_is_no_ack (prefix_at r na n) = na"
    "prefix_path_position (prefix_at r na n) = of_nat n" "prefix_is_final_hop (prefix_at r na n) \<longleftrightarrow> n = 0"
  by (rule header_prefix_roundtrip [OF assms, of r na]; simp add: prefix_at_def)+

lemma routing_loop_eq:
  fixes su :: "('g, 's, 'kp) suite" and hs random path secrets relayer_data receiver_data r na
  assumes hs: "header_spec_ok hs" "mac_ok su hs" and inp: "header_inputs_ok hs path secrets relayer_data receiver_data"
  defines "H \<equiv> hop_header su hs random path secrets relayer_data receiver_data r na"
    and "T \<equiv> hop_tag su hs random path secrets relayer_data receiver_data r na"
  shows "Suc k \<le> length secrets \<Longrightarrow> length eh = ext_header_len hs \<Longrightarrow> take (header_len hs) eh = H k \<Longrightarrow>
    \<exists>eh'. routing_loop su hs path secrets relayer_data receiver_data r na random [Suc k..<length secrets] (eh, T k)
        = Ok (eh', T (length secrets - 1)) \<and> take (header_len hs) eh' = H (length secrets - 1)"
proof (induction "length secrets - Suc k" arbitrary: k eh)
  case 0
  then have "k = length secrets - 1" by simp
  with 0 show ?case by simp
next
  case (Suc d)
  let ?n = "length secrets" and ?L = "routing_info_len hs"
  define i where "i = ?n - Suc k - 1"
  have k: "Suc k < ?n" and i: "i + 1 < ?n" "?n - k - 1 = i + 1" using Suc.hyps(2) by (simp_all add: i_def)
  have n: "1 \<le> ?n" "?n \<le> hs_max_hops hs" "hs_max_hops hs \<le> 7"
    using inp hs(1) by (auto simp: header_inputs_ok_def header_spec_ok_def Suc_le_eq)
  note nth = header_inputs_nth [OF inp i(1)] and len = header_inputs_len [OF hs(1) inp i(1)]
  have lT: "length (T k) = hs_tag_size hs"
    unfolding T_def hop_tag_def i(2) by (rule length_secret_tag [OF hs(2) nth(2)])
  have lH: "length (H k) = header_len hs"
    unfolding H_def hop_header_def by (rule length_header_at [OF hs inp]) (use k in simp)
  obtain eh' where eh': "relay_layer hs (path ! (i + 1)) (T k) (Some (relayer_data ! i)) (prefix_at r na (Suc k)) (secret_prg su (secrets ! i)) eh = Ok eh'"
    "length eh' = ext_header_len hs"
    "take (header_len hs) eh' = xor_stream (secret_prg su (secrets ! i)) 0
        (prefix_at r na (Suc k) # path ! (i + 1) @ T k @ relayer_data ! i @ take (header_len hs - ?L) eh)"
    by (rule relay_layer_eq [OF Suc.prems(2) header_len_eq(2) [OF hs(1) n(1,2)] len(2) nth(3) lT nth(4)])
  have "take (header_len hs - ?L) eh = take (header_len hs - ?L) (H k)"
    by (simp add: Suc.prems(3) [symmetric])
  then have HS: "take (header_len hs) eh' = H (Suc k)"
    unfolding eh'(3) H_def T_def hop_tag_def i(2) hop_header_def header_at_Suc [OF i_def] hop_part_def by simp
  have lHS: "length (H (Suc k)) = header_len hs"
    unfolding H_def hop_header_def by (rule length_header_at [OF hs inp k])
  have tag: "header_tag su hs (secrets ! i) eh' = Ok (T (Suc k))"
    unfolding header_tag_Ok [OF nth(1)] T_def hop_tag_def i_def [symmetric] H_def [symmetric]
    using HS lHS secret_tag_take [OF nth(1), of hs eh' "H (Suc k)"] by simp
  have "[Suc k..<?n] = Suc k # [Suc (Suc k)..<?n]" using k by (rule upt_conv_Cons)
  moreover obtain eh'' where "routing_loop su hs path secrets relayer_data receiver_data r na random [Suc (Suc k)..<?n] (eh', T (Suc k))
        = Ok (eh'', T (?n - 1)) \<and> take (header_len hs) eh'' = H (?n - 1)"
  proof -
    have d: "d = ?n - Suc (Suc k)" "Suc (Suc k) \<le> ?n" using Suc.hyps(2) k by simp_all
    from that Suc.hyps(1) [OF d eh'(2) HS] show thesis by blast
  qed
  moreover have "routing_loop su hs path secrets relayer_data receiver_data r na random (Suc k # [Suc (Suc k)..<?n]) (eh, T k)
      = routing_loop su hs path secrets relayer_data receiver_data r na random [Suc (Suc k)..<?n] (eh', T (Suc k))"
  proof -
    have "header_prefix_new r na (of_nat (Suc k)) = Ok (prefix_at r na (Suc k))"
      by (rule prefix_at_facts) (use k n in simp)
    then show ?thesis
      unfolding routing_loop.simps Let_def i_def [symmetric] using eh'(1) tag nth by (simp add: new_prg_Ok del: of_nat_Suc)
  qed
  ultimately show ?case by metis
qed

lemma routing_info_new_eq:
  assumes hs: "header_spec_ok hs" "mac_ok su hs" and inp: "header_inputs_ok hs path secrets relayer_data receiver_data"
  shows "routing_info_new su hs random path secrets relayer_data receiver_data r na
    = Ok (hop_header su hs random path secrets relayer_data receiver_data r na (length secrets - 1)
        @ hop_tag su hs random path secrets relayer_data receiver_data r na (length secrets - 1))"
proof -
  let ?n = "length secrets" and ?H = "hop_header su hs random path secrets relayer_data receiver_data r na"
  let ?T = "hop_tag su hs random path secrets relayer_data receiver_data r na"
  have n: "1 \<le> ?n" "?n \<le> hs_max_hops hs" "hs_max_hops hs \<le> 7" and lp: "length path = ?n"
    using inp hs(1) by (auto simp: header_inputs_ok_def header_spec_ok_def Suc_le_eq)
  have lst: "secrets ! (?n - 0 - 1) = last secrets" using n by (subst last_conv_nth) auto
  have ls: "length (last secrets) = shared_secret_size" using inp by (simp add: header_inputs_ok_def)
  obtain eh where eh: "last_hop_layer su hs secrets receiver_data random (prefix_at r na 0) (secret_prg su (last secrets)) (replicate (ext_header_len hs) 0) = Ok eh"
    "length eh = ext_header_len hs"
    "take (header_len hs) eh = innermost su hs random secrets receiver_data (prefix_at r na 0) @ filler_at su hs secrets (?n - 1)"
    by (rule last_hop_layer_eq [OF hs(1) inp])
  have H0: "take (header_len hs) eh = ?H 0" by (simp add: eh(3) hop_header_def)
  have lH: "length (?H k) = header_len hs" if "k < ?n" for k
    unfolding hop_header_def by (rule length_header_at [OF hs inp that])
  have lH0: "length (?H 0) = header_len hs" by (rule lH) (use n in linarith)
  have tag: "header_tag su hs (last secrets) eh = Ok (?T 0)"
    unfolding header_tag_Ok [OF ls] hop_tag_def lst
    using H0 lH0 secret_tag_take [OF ls, of hs eh "?H 0"] by simp
  obtain eh' where eh': "routing_loop su hs path secrets relayer_data receiver_data r na random [1..<?n] (eh, ?T 0) = Ok (eh', ?T (?n - 1))"
    "take (header_len hs) eh' = ?H (?n - 1)"
    using routing_loop_eq [OF hs inp, of 0 eh random r na] n eh(2) H0 by auto
  have p0: "header_prefix_new r na (of_nat 0) = Ok (prefix_at r na 0)" by (rule prefix_at_facts) simp
  have "0 < ?n" using n by linarith
  then have "[0..<?n] = 0 # [1..<?n]" by (simp add: upt_conv_Cons del: upt_Suc)
  then have "routing_loop su hs path secrets relayer_data receiver_data r na random [0..<?n] (replicate (ext_header_len hs) 0, replicate (hs_tag_size hs) 0)
      = Ok (eh', ?T (?n - 1))"
    by (simp only: routing_loop.simps Let_def lst p0 map_fail.simps and_then.simps new_prg_Ok [OF ls] eh(1) tag eh'(1) refl if_True)
  then show ?thesis using n lp by (simp add: routing_info_new_def eh'(2))
qed

lemma forward_header_decrypts:
  assumes s: "length secret = shared_secret_size" and h: "length h = header_len hs" "length t = hs_tag_size hs"
    and t: "t = secret_tag su hs secret h" and pre: "xor_stream (secret_prg su secret) 0 h = p # body"
    and p: "header_prefix_try_from p = Ok p"
  shows "forward_header su hs secret (h @ t) =
    (if \<not> prefix_is_final_hop p then
       let header = (p # body) @ t; key_end = header_prefix_size + hs_key_id_size hs; tag_end = key_end + hs_tag_size hs in
       and_then (slice_range header header_prefix_size key_end) (\<lambda>next_node.
       and_then (slice_range header key_end tag_end) (\<lambda>next_mac.
       and_then (slice_range header tag_end (tag_end + hs_relayer_data_size hs)) (\<lambda>additional_info.
       and_then (copy_within header (routing_info_len hs) (header_len hs) 0) (\<lambda>header.
         Ok (HeaderRelayed ((take (header_len hs - routing_info_len hs) header
             @ xor_stream (secret_prg su secret) (header_len hs) (replicate (routing_info_len hs) 0)) @ next_mac)
           (prefix_path_position p) next_node additional_info)))))
     else
       and_then (slice_range ((p # body) @ t) header_prefix_size (header_prefix_size + hs_receiver_data_size hs)) (\<lambda>receiver_data.
         Ok (HeaderFinal receiver_data (prefix_is_reply p) (prefix_is_no_ack p))))"
proof -
  have tt: "secret_tag su hs secret (h @ t) = t" unfolding t by (rule secret_tag_take [OF s]) (simp add: h)
  have sz: "length (h @ t) = routing_info_size hs" by (simp add: h routing_info_size_def)
  have parts: "take (hs_tag_size hs) (drop (header_len hs) (h @ t)) = t" "take (header_len hs) (h @ t) = h"
    "drop (header_len hs) (h @ t) = t"
    by (simp_all add: h)
  show ?thesis
    unfolding forward_header_def header_tag_Ok [OF s] new_prg_Ok [OF s] and_then.simps tt parts Let_def pre
    using sz h(2) by (simp add: p)
qed

lemma forward_relayed:
  assumes hs: "header_spec_ok hs" "mac_ok su hs" and inp: "header_inputs_ok hs path secrets relayer_data receiver_data"
    and i: "i + 1 < length secrets" "length secrets - i - 1 = Suc k"
  shows "forward_header su hs (secrets ! i)
      (hop_header su hs random path secrets relayer_data receiver_data r na (Suc k)
       @ hop_tag su hs random path secrets relayer_data receiver_data r na (Suc k))
    = Ok (HeaderRelayed
        (hop_header su hs random path secrets relayer_data receiver_data r na k
         @ hop_tag su hs random path secrets relayer_data receiver_data r na k)
        (of_nat (Suc k)) (path ! (i + 1)) (relayer_data ! i))"
proof -
  let ?n = "length secrets" and ?L = "routing_info_len hs" and ?HL = "header_len hs"
  let ?H = "hop_header su hs random path secrets relayer_data receiver_data r na"
  let ?T = "hop_tag su hs random path secrets relayer_data receiver_data r na"
  let ?p = "prefix_at r na (Suc k)"
  have n: "Suc k \<le> 7" "Suc k < ?n" using inp hs(1) i by (auto simp: header_inputs_ok_def header_spec_ok_def)
  have ieq: "i = ?n - Suc k - 1" and i1: "?n - k - 1 = i + 1" using i by simp_all
  note nth = header_inputs_nth [OF inp i(1)] and len = header_inputs_len [OF hs(1) inp i(1)] and p = prefix_at_facts [OF n(1), of r na]
  have lH: "length (?H j) = ?HL" if "j < ?n" for j unfolding hop_header_def by (rule length_header_at [OF hs inp that])
  have T: "?T (Suc k) = secret_tag su hs (secrets ! i) (?H (Suc k))" "?T k = secret_tag su hs (secrets ! (i + 1)) (?H k)"
    by (simp_all only: hop_tag_def ieq [symmetric] i1)
  have lT: "length (?T (Suc k)) = hs_tag_size hs" "length (?T k) = hs_tag_size hs"
    unfolding T using nth by (simp_all add: length_secret_tag [OF hs(2)])
  define body where "body = path ! (i + 1) @ ?T k @ relayer_data ! i @ take (?HL - ?L) (?H k)"
  have pre: "xor_stream (secret_prg su (secrets ! i)) 0 (?H (Suc k)) = ?p # body"
    unfolding body_def T(2) hop_header_def header_at_Suc [OF ieq] xor_stream_twice hop_part_def by simp
  have lb: "length body = ?HL - 1"
    using nth lT len(2) lH [of k] n by (simp add: body_def routing_info_len_def header_prefix_size_def)
  have s1: "slice_range ((?p # body) @ ?T (Suc k)) header_prefix_size (header_prefix_size + hs_key_id_size hs) = Ok (path ! (i + 1))"
    using nth lT by (simp add: slice_range_def header_prefix_size_def body_def)
  have s2: "slice_range ((?p # body) @ ?T (Suc k)) (header_prefix_size + hs_key_id_size hs) (header_prefix_size + hs_key_id_size hs + hs_tag_size hs) = Ok (?T k)"
    using nth lT by (simp add: slice_range_def header_prefix_size_def body_def)
  have s3: "slice_range ((?p # body) @ ?T (Suc k)) (header_prefix_size + hs_key_id_size hs + hs_tag_size hs)
      (header_prefix_size + hs_key_id_size hs + hs_tag_size hs + hs_relayer_data_size hs) = Ok (relayer_data ! i)"
    using nth lT by (simp add: slice_range_def header_prefix_size_def body_def)
  have tail: "take (?HL - ?L) (drop ?L ((?p # body) @ ?T (Suc k))) = take (?HL - ?L) (?H k)"
  proof -
    have "drop ?L ((?p # body) @ ?T (Suc k)) = take (?HL - ?L) (?H k) @ ?T (Suc k)"
      using nth lT by (simp add: body_def routing_info_len_def header_prefix_size_def)
    then show ?thesis using lH [of k] n by simp
  qed
  have cw: "\<exists>rest. copy_within ((?p # body) @ ?T (Suc k)) ?L ?HL 0 = (Ok (take (?HL - ?L) (?H k) @ rest) :: (crypto_error, _) result)"
    unfolding copy_within_def using tail len(2) lb by (simp add: header_len_def header_prefix_size_def)
  then obtain rest where cw: "copy_within ((?p # body) @ ?T (Suc k)) ?L ?HL 0 = (Ok (take (?HL - ?L) (?H k) @ rest) :: (crypto_error, _) result)" ..
  have lt: "take (?HL - ?L) (take (?HL - ?L) (?H k) @ rest) = take (?HL - ?L) (?H k)" using lH [of k] n by simp
  have join: "take (?HL - ?L) (?H k) @ xor_stream (secret_prg su (secrets ! i)) ?HL (replicate ?L 0) = ?H k"
    unfolding hop_header_def by (rule header_last_part [OF hs inp i(1), symmetric]) (use i in simp)
  show ?thesis
    unfolding forward_header_decrypts [OF nth(1) lH [OF n(2)] lT(1) T(1) pre p(2)] p(5,6) Let_def s1 s2 s3 cw and_then.simps lt join
    by simp
qed

lemma forward_final:
  assumes hs: "header_spec_ok hs" "mac_ok su hs" and inp: "header_inputs_ok hs path secrets relayer_data receiver_data"
  shows "forward_header su hs (last secrets)
      (hop_header su hs random path secrets relayer_data receiver_data r na 0
       @ hop_tag su hs random path secrets relayer_data receiver_data r na 0)
    = Ok (HeaderFinal receiver_data r na)"
proof -
  let ?n = "length secrets"
  let ?H = "hop_header su hs random path secrets relayer_data receiver_data r na 0"
  let ?T = "hop_tag su hs random path secrets relayer_data receiver_data r na 0"
  have n: "0 < ?n" and ls: "length (last secrets) = shared_secret_size" and recv: "length receiver_data = hs_receiver_data_size hs"
    using inp by (auto simp: header_inputs_ok_def)
  have T: "?T = secret_tag su hs (last secrets) ?H" using n by (simp add: hop_tag_def last_conv_nth)
  have lH: "length ?H = header_len hs" unfolding hop_header_def by (rule length_header_at [OF hs inp n])
  have lT: "length ?T = hs_tag_size hs" unfolding T by (rule length_secret_tag [OF hs(2) ls])
  obtain rest where "?H = innermost su hs random secrets receiver_data (prefix_at r na 0) @ rest" by (simp add: hop_header_def)
  then obtain body where pre: "xor_stream (secret_prg su (last secrets)) 0 ?H = prefix_at r na 0 # receiver_data @ body"
    using that by (simp only: xor_stream_append innermost_def xor_stream_twice append_Cons append_assoc)
  note p = prefix_at_facts [of 0 r na, simplified]
  show ?thesis
    unfolding forward_header_decrypts [OF ls lH lT T pre p(2)]
    using recv by (simp add: slice_range_def header_prefix_size_def p)
qed

text \<open>The headers that the nodes of the path see, the first one as the sender builds it.\<close>

lemma header_travels:
  assumes hs: "header_spec_ok hs" "mac_ok su hs" and inp: "header_inputs_ok hs path secrets relayer_data receiver_data"
  obtains hdr where "routing_info_new su hs random path secrets relayer_data receiver_data r na = Ok (hdr 0)"
    and "\<And>i. i + 1 < length secrets \<Longrightarrow> forward_header su hs (secrets ! i) (hdr i)
        = Ok (HeaderRelayed (hdr (i + 1)) (of_nat (length secrets - i - 1)) (path ! (i + 1)) (relayer_data ! i))"
    and "forward_header su hs (last secrets) (hdr (length secrets - 1)) = Ok (HeaderFinal receiver_data r na)"
    and "\<And>i. i < length secrets \<Longrightarrow> length (hdr i) = routing_info_size hs"
proof -
  let ?n = "length secrets"
  let ?H = "hop_header su hs random path secrets relayer_data receiver_data r na"
  let ?T = "hop_tag su hs random path secrets relayer_data receiver_data r na"
  define hdr where "hdr = (\<lambda>i. ?H (?n - 1 - i) @ ?T (?n - 1 - i))"
  show thesis
  proof (rule that [of hdr])
    show "routing_info_new su hs random path secrets relayer_data receiver_data r na = Ok (hdr 0)"
      using routing_info_new_eq [OF hs inp] by (simp add: hdr_def)
    show "forward_header su hs (last secrets) (hdr (?n - 1)) = Ok (HeaderFinal receiver_data r na)"
      using forward_final [OF hs inp] by (simp add: hdr_def)
    fix i
    show "forward_header su hs (secrets ! i) (hdr i)
        = Ok (HeaderRelayed (hdr (i + 1)) (of_nat (?n - i - 1)) (path ! (i + 1)) (relayer_data ! i))" if "i + 1 < ?n"
    proof -
      define k where "k = ?n - i - 2"
      have k: "?n - i - 1 = Suc k" using that unfolding k_def by linarith
      then have "?n - 1 - i = Suc k" "?n - 1 - (i + 1) = k" by linarith+
      then show ?thesis using forward_relayed [OF hs inp that k, of random r na] k unfolding hdr_def by (simp only:)
    qed
    show "length (hdr i) = routing_info_size hs" if "i < ?n"
    proof -
      have j: "?n - 1 - i < ?n" and s: "length (secrets ! (?n - (?n - 1 - i) - 1)) = shared_secret_size"
        using that inp by (auto simp: header_inputs_ok_def)
      then show ?thesis
        using length_header_at [OF hs inp j] length_secret_tag [OF hs(2) s]
        by (simp add: hdr_def hop_header_def hop_tag_def routing_info_size_def)
    qed
  qed
qed

end
