(* ===== verification/Sphinx_Packet.thy ===== *)
theory Sphinx_Packet
  imports Sphinx_Header Wire_Codec
begin

text \<open>
  Sphinx packets (\<open>crypto/sphinx/src/packet.rs\<close>, \<open>surb.rs\<close>): the padding of a payload, single-use reply blocks with
  their openers, packets routed over an explicit path or a reply block, and the removal of one layer by each node.

  A packet is the bytes of its alpha value, its routing header and its payload. The openers of replies are looked up by
  the caller's closure, which may change the state \<open>'st\<close> it captures (it removes the opener it finds); it is an
  argument that returns what it found and the new state.
\<close>

section \<open>Padded payloads\<close>

definition padding_tag :: byte where
  "padding_tag = 0xaa"

definition padded_size :: "nat \<Rightarrow> nat" where
  "padded_size P = P + 1"

definition padded_new :: "nat \<Rightarrow> bytes \<Rightarrow> (sphinx_error, bytes) result" where
  "padded_new P msg =
     (if length msg < padded_size P then
        let ret = (replicate (padded_size P) 0)[padded_size P - length msg - 1 := padding_tag] in
        copy_from_slice ret (padded_size P - length msg) (length msg) msg
      else Err SphinxPaddingError)"

definition padded_new_from_vec :: "nat \<Rightarrow> bytes \<Rightarrow> (sphinx_error, bytes) result" where
  "padded_new_from_vec P msg =
     (let len = length msg in
      if len \<ge> padded_size P then Err SphinxPaddingError
      else
        and_then (copy_within (msg @ replicate (padded_size P - len) 0) 0 len (padded_size P - len)) (\<lambda>msg.
          let msg = replicate (padded_size P - len) 0 @ drop (padded_size P - len) msg in
          Ok (msg[padded_size P - len - 1 := padding_tag])))"

definition padded_from_padded :: "nat \<Rightarrow> bytes \<Rightarrow> (sphinx_error, bytes) result" where
  "padded_from_padded P msg = (if length msg = padded_size P then Ok msg else Err SphinxPaddingError)"

definition into_unpadded :: "bytes \<Rightarrow> (sphinx_error, bytes) result" where
  "into_unpadded payload =
     (case dropWhile (\<lambda>x. x \<noteq> padding_tag) payload of
        _ # rest \<Rightarrow> Ok rest
      | [] \<Rightarrow> Err SphinxPaddingError)"

lemma set_after_replicate: "(replicate k a @ y # ys)[k := x] = replicate k a @ x # ys"
  using list_update_length [of "replicate k a" y ys x] by simp

lemma padded_new_eq:
  "length msg \<le> P \<Longrightarrow> padded_new P msg = Ok (replicate (P - length msg) 0 @ padding_tag # msg)"
proof -
  assume l: "length msg \<le> P"
  then have "replicate (padded_size P) (0 :: byte) = replicate (P - length msg) 0 @ 0 # replicate (length msg) 0"
    using replicate_add [of "P - length msg" "Suc (length msg)" "0 :: byte"] by (simp add: padded_size_def)
  then show ?thesis using l
    by (simp add: padded_new_def padded_size_def copy_from_slice_def copy_into_def Let_def set_after_replicate Suc_diff_le)
qed

lemma padded_new_from_vec_eq: "padded_new_from_vec P msg = padded_new P msg"
proof (cases "length msg \<le> P")
  case True
  have "drop (padded_size P - length msg) (take (padded_size P - length msg) (msg @ replicate (padded_size P - length msg) 0) @ msg) = msg"
    using True by (simp add: padded_size_def)
  then have "padded_new_from_vec P msg = Ok ((replicate (padded_size P - length msg) 0 @ msg)[padded_size P - length msg - 1 := padding_tag])"
    using True by (simp add: padded_new_from_vec_def padded_size_def copy_within_def Let_def)
  moreover have "replicate (padded_size P - length msg) (0 :: byte) = replicate (P - length msg) 0 @ [0]"
    using True replicate_add [of "P - length msg" 1 "0 :: byte"] by (simp add: padded_size_def Suc_diff_le)
  ultimately show ?thesis using True by (simp add: padded_new_eq padded_size_def set_after_replicate)
next
  case False
  then show ?thesis by (simp add: padded_new_from_vec_def padded_new_def padded_size_def)
qed

lemma into_unpadded_new:
  assumes "padded_new P msg = Ok p"
  shows "into_unpadded p = Ok msg" "length p = padded_size P" "length msg \<le> P"
proof -
  show l: "length msg \<le> P" using assms by (auto simp: padded_new_def padded_size_def split: if_splits)
  have p: "p = replicate (P - length msg) 0 @ padding_tag # msg" using assms padded_new_eq [OF l] by simp
  have "dropWhile (\<lambda>x. x \<noteq> padding_tag) (replicate n 0 @ padding_tag # msg) = padding_tag # msg" for n
    by (induction n) (simp_all add: padding_tag_def)
  then show "into_unpadded p = Ok msg" by (simp add: into_unpadded_def p)
  show "length p = padded_size P" using l by (simp add: p padded_size_def)
qed

section \<open>Reply blocks\<close>

record surb =
  sb_first_relayer :: bytes
  sb_alpha :: bytes
  sb_header :: bytes
  sb_sender_key :: bytes
  sb_additional_data_receiver :: bytes

record reply_opener =
  ro_sender_key :: bytes
  ro_shared_secrets :: "bytes list"

definition secret_key16_size :: nat where
  "secret_key16_size = 16"

definition surb_size :: "('g, 's, 'kp) suite \<Rightarrow> header_spec \<Rightarrow> nat" where
  "surb_size su hs = hs_key_id_size hs + gr_alpha_len (su_group su) + routing_info_size hs + secret_key16_size
     + hs_surb_receiver_data_size hs"

definition surb_encode :: "surb \<Rightarrow> bytes" where
  "surb_encode s = sb_first_relayer s @ sb_alpha s @ sb_header s @ sb_sender_key s @ sb_additional_data_receiver s"

definition surb_decode :: "('g, 's, 'kp) suite \<Rightarrow> header_spec \<Rightarrow> bytes \<Rightarrow> (general_error, surb) result" where
  "surb_decode su hs value =
     (let k = hs_key_id_size hs; a = gr_alpha_len (su_group su); r = routing_info_size hs; s = secret_key16_size in
      if length value = surb_size su hs then
        and_then (slice_range value 0 k) (\<lambda>first_relayer.
        and_then (slice_range value k (k + a)) (\<lambda>alpha.
        and_then (and_then (slice_range value (k + a) (k + a + r)) (routing_info_try_from hs)) (\<lambda>header.
        and_then (slice_range value (k + a + r) (k + a + r + s)) (\<lambda>sender_key.
        and_then (slice_range value (k + a + r + s) (length value)) (\<lambda>additional_data_receiver.
          Ok \<lparr>sb_first_relayer = first_relayer, sb_alpha = alpha, sb_header = header, sb_sender_key = sender_key,
              sb_additional_data_receiver = additional_data_receiver\<rparr>)))))
      else Err (ParseErr ''SURB::SIZE''))"

definition surb_get_hash :: "(bytes list \<Rightarrow> bytes) \<Rightarrow> surb \<Rightarrow> bytes \<Rightarrow> bytes" where
  "surb_get_hash hash_create s ctx =
     hash_create [sb_first_relayer s, sb_alpha s, sb_sender_key s, sb_header s, ctx]"

definition create_surb ::
  "('g, 's, 'kp) suite \<Rightarrow> header_spec \<Rightarrow> stream \<Rightarrow> bytes \<Rightarrow> shared_keys \<Rightarrow> bytes list \<Rightarrow> bytes list \<Rightarrow> bytes \<Rightarrow> bytes
     \<Rightarrow> (crypto_error, surb \<times> reply_opener) result" where
  "create_surb su hs random sender_key shared_keys path additional_data_relayer receiver_data additional_data_receiver =
     and_then (routing_info_new su hs random path (sk_secrets shared_keys) additional_data_relayer receiver_data True False) (\<lambda>header.
     and_then (case path of p # _ \<Rightarrow> Ok p | [] \<Rightarrow> Err (InvalidInputValue ''path is empty'')) (\<lambda>first_relayer.
       Ok (\<lparr>sb_first_relayer = first_relayer, sb_alpha = sk_alpha shared_keys, sb_header = header,
            sb_sender_key = sender_key, sb_additional_data_receiver = additional_data_receiver\<rparr>,
           \<lparr>ro_sender_key = sender_key, ro_shared_secrets = sk_secrets shared_keys\<rparr>)))"

definition surb_valid :: "('g, 's, 'kp) suite \<Rightarrow> header_spec \<Rightarrow> surb \<Rightarrow> bool" where
  "surb_valid su hs s \<longleftrightarrow> length (sb_first_relayer s) = hs_key_id_size hs
     \<and> length (sb_alpha s) = gr_alpha_len (su_group su) \<and> length (sb_header s) = routing_info_size hs
     \<and> length (sb_sender_key s) = secret_key16_size
     \<and> length (sb_additional_data_receiver s) = hs_surb_receiver_data_size hs"

lemma take_drop_five:
  "take a bs @ take b (drop a bs) @ take c (drop (a + b) bs) @ take d (drop (a + b + c) bs) @ drop (a + b + c + d) bs = bs"
proof -
  have step: "take n (drop m bs) @ drop (m + n) bs = drop m bs" for m n
    by (metis append_take_drop_id drop_drop add.commute)
  show ?thesis by (simp only: step append_take_drop_id)
qed

interpretation surb_exact: exact_codec surb_encode "surb_decode su hs" "surb_valid su hs" for su hs
proof
  show "surb_decode su hs (surb_encode s) = Ok s" if "surb_valid su hs s" for s :: surb
    using that by (simp add: surb_decode_def surb_encode_def surb_valid_def surb_size_def Let_def slice_range_def routing_info_try_from_def)
  fix bs s
  assume dec: "surb_decode su hs bs = Ok s"
  then show "surb_valid su hs s"
    by (auto simp: surb_decode_def surb_valid_def surb_size_def Let_def slice_range_def routing_info_try_from_def and_then_Inr_iff split: if_splits)
  from dec show "surb_encode s = bs"
    by (auto simp: surb_decode_def surb_encode_def Let_def slice_range_def routing_info_try_from_def and_then_Inr_iff
        take_drop_five split: if_splits)
qed

section \<open>Packets\<close>

text \<open>The mapping between the public keys of nodes and their short identifiers in the header (\<open>KeyIdMapper\<close>).\<close>

record key_mapper =
  km_key_to_id :: "bytes \<Rightarrow> bytes option"
  km_id_to_public :: "bytes \<Rightarrow> bytes option"

datatype meta_packet_routing =
    ForwardPathRouting (mr_shared_keys: shared_keys) (mr_forward_path: "bytes list") (mr_additional_data_relayer: "bytes list")
      (mr_receiver_data: bytes) (mr_no_ack: bool)
  | SurbRouting (mr_surb: surb) (mr_receiver_data: bytes)

record partial_packet =
  pp_alpha :: bytes
  pp_routing_info :: bytes
  pp_prp_inits :: "iv_key list"

definition partial_packet_new ::
  "('g, 's, 'kp) suite \<Rightarrow> header_spec \<Rightarrow> stream \<Rightarrow> meta_packet_routing \<Rightarrow> key_mapper \<Rightarrow> (sphinx_error, partial_packet) result" where
  "partial_packet_new su hs random routing key_mapper =
     (case routing of
        ForwardPathRouting shared_keys forward_path additional_data_relayer receiver_data no_ack \<Rightarrow>
          and_then (collect_res (map (\<lambda>key. ok_or (SphinxConstructionError ''key id not found'') (km_key_to_id key_mapper key))
              forward_path)) (\<lambda>path.
          and_then (map_fail SphinxCryptoError (routing_info_new su hs random path (sk_secrets shared_keys)
              additional_data_relayer receiver_data False no_ack)) (\<lambda>routing_info.
          and_then (map_fail SphinxCryptoError (collect_res (map (new_prp_init su) (rev (sk_secrets shared_keys))))) (\<lambda>prp_inits.
            Ok \<lparr>pp_alpha = sk_alpha shared_keys, pp_routing_info = routing_info, pp_prp_inits = prp_inits\<rparr>)))
      | SurbRouting surb receiver_data \<Rightarrow>
          and_then (map_fail SphinxCryptoError (new_reply_prp_init su (sb_sender_key surb) receiver_data)) (\<lambda>prp_init.
            Ok \<lparr>pp_alpha = sb_alpha surb, pp_routing_info = sb_header surb, pp_prp_inits = [prp_init]\<rparr>))"

definition apply_prp :: "('g, 's, 'kp) suite \<Rightarrow> iv_key \<Rightarrow> bytes \<Rightarrow> bytes" where
  "apply_prp su iv_key payload = xor_stream (into_init su iv_key) 0 payload"

definition meta_packet_from_parts :: "nat \<Rightarrow> bytes \<Rightarrow> bytes \<Rightarrow> bytes \<Rightarrow> bytes" where
  "meta_packet_from_parts P alpha routing_info payload = alpha @ routing_info @ take (padded_size P) payload"

definition into_meta_packet :: "('g, 's, 'kp) suite \<Rightarrow> nat \<Rightarrow> partial_packet \<Rightarrow> bytes \<Rightarrow> bytes" where
  "into_meta_packet su P pp payload =
     meta_packet_from_parts P (pp_alpha pp) (pp_routing_info pp) (fold (apply_prp su) (pp_prp_inits pp) payload)"

definition meta_packet_new ::
  "('g, 's, 'kp) suite \<Rightarrow> header_spec \<Rightarrow> nat \<Rightarrow> stream \<Rightarrow> bytes \<Rightarrow> meta_packet_routing \<Rightarrow> key_mapper \<Rightarrow> (sphinx_error, bytes) result" where
  "meta_packet_new su hs P random payload routing key_mapper =
     map_res (\<lambda>pp. into_meta_packet su P pp payload) (partial_packet_new su hs random routing key_mapper)"

definition meta_packet_size :: "('g, 's, 'kp) suite \<Rightarrow> header_spec \<Rightarrow> nat \<Rightarrow> nat" where
  "meta_packet_size su hs P = gr_alpha_len (su_group su) + routing_info_size hs + padded_size P"

definition meta_packet_try_from :: "('g, 's, 'kp) suite \<Rightarrow> header_spec \<Rightarrow> nat \<Rightarrow> bytes \<Rightarrow> (general_error, bytes) result" where
  "meta_packet_try_from su hs P value =
     (if length value = meta_packet_size su hs P then Ok value else Err (ParseErr ''MetaPacket''))"

section \<open>Removing a layer\<close>

datatype forwarded_meta_packet =
    MetaRelayed (fm_packet: bytes) (fm_next_node: bytes) (fm_path_pos: u8) (fm_additional_info: bytes)
      (fm_derived_secret: bytes) (fm_packet_tag: bytes)
  | MetaFinal (fm_plain_text: bytes) (fm_receiver_data: bytes) (fm_derived_secret: bytes) (fm_packet_tag: bytes) (fm_no_ack: bool)

text \<open>The decryption of a reply: the layers that the relays removed are put back, then that of the sender is removed.\<close>

fun reapply_layers :: "('g, 's, 'kp) suite \<Rightarrow> bytes list \<Rightarrow> bytes \<Rightarrow> (crypto_error, bytes) result" where
  "reapply_layers su [] payload = Ok payload"
| "reapply_layers su (secret # secrets) payload =
     and_then (new_prp_init su secret) (\<lambda>prp. reapply_layers su secrets (apply_prp su prp payload))"

definition open_reply :: "('g, 's, 'kp) suite \<Rightarrow> reply_opener \<Rightarrow> bytes \<Rightarrow> bytes \<Rightarrow> (crypto_error, bytes) result" where
  "open_reply su local_surb receiver_data payload =
     and_then (reapply_layers su (rev (ro_shared_secrets local_surb)) payload) (\<lambda>payload.
     and_then (new_reply_prp_init su (ro_sender_key local_surb) receiver_data) (\<lambda>prp.
       Ok (apply_prp su prp payload)))"

definition into_forwarded ::
  "('g, 's, 'kp) suite \<Rightarrow> header_spec \<Rightarrow> nat \<Rightarrow> 'kp \<Rightarrow> key_mapper \<Rightarrow> (bytes \<Rightarrow> 'st \<Rightarrow> reply_opener option \<times> 'st) \<Rightarrow> bytes \<Rightarrow> 'st
     \<Rightarrow> 'st \<times> (sphinx_error, forwarded_meta_packet) result" where
  "into_forwarded su hs P node_keypair key_mapper reply_openers packet st =
     (let alpha_len = gr_alpha_len (su_group su);
          routing_info = take (routing_info_size hs) (drop alpha_len packet);
          payload = take (padded_size P) (drop (alpha_len + routing_info_size hs) packet);
          opened =
            and_then (forward_transform su (take alpha_len packet) (su_scalar_of su node_keypair)
                (su_element_of su (su_public su node_keypair))) (\<lambda>(alpha, secret).
            and_then (forward_header su hs secret routing_info) (\<lambda>fwd_header.
            and_then (new_prp_init su secret) (\<lambda>prp.
              Ok (alpha, secret, fwd_header, apply_prp su prp payload)))) in
      case opened of
        Inl e \<Rightarrow> (st, map_fail SphinxCryptoError (Inl e))
      | Inr (alpha, secret, HeaderRelayed next_header path_pos next_node additional_info, decrypted) \<Rightarrow>
          (st,
           and_then (map_fail SphinxCryptoError (derive_packet_tag su secret)) (\<lambda>packet_tag.
           and_then (ok_or (SphinxDecodingError ''couldn't map id to public key'') (km_id_to_public key_mapper next_node)) (\<lambda>next_node.
             Ok (MetaRelayed (meta_packet_from_parts P alpha next_header decrypted) next_node path_pos additional_info
                secret packet_tag))))
      | Inr (alpha, secret, HeaderFinal receiver_data is_reply no_ack, decrypted) \<Rightarrow>
          (let (opener, st) = (if is_reply then reply_openers receiver_data st else (None, st)) in
           (st,
            and_then
              (if is_reply then
                 and_then (ok_or (SphinxDecodingError ''couldn't find reply opener for pseudonym'') opener) (\<lambda>local_surb.
                   map_fail SphinxCryptoError (open_reply su local_surb receiver_data decrypted))
               else Ok decrypted) (\<lambda>payload.
            and_then (map_fail SphinxCryptoError (derive_packet_tag su secret)) (\<lambda>packet_tag.
            and_then (padded_from_padded P payload) (\<lambda>plain_text.
              Ok (MetaFinal plain_text receiver_data secret packet_tag no_ack)))))))"

section \<open>Packets travel along their path\<close>

interpretation prp: layered_cipher "apply_prp su" for su
  by unfold_locales (simp_all add: apply_prp_def xor_stream_twice xor_stream_commute)

definition secret_prp :: "('g, 's, 'kp) suite \<Rightarrow> bytes \<Rightarrow> iv_key" where
  "secret_prp su secret = res_get ([], []) (new_prp_init su secret)"

definition secret_packet_tag :: "('g, 's, 'kp) suite \<Rightarrow> bytes \<Rightarrow> bytes" where
  "secret_packet_tag su secret = res_get [] (derive_packet_tag su secret)"

lemma new_prp_init_Ok: "length secret = shared_secret_size \<Longrightarrow> new_prp_init su secret = Ok (secret_prp su secret)"
  by (simp add: secret_prp_def new_prp_init_def generate_key_iv_def create_kdf_instance_def shared_secret_size_def)

lemma derive_packet_tag_Ok:
  "length secret = shared_secret_size \<Longrightarrow> derive_packet_tag su secret = Ok (secret_packet_tag su secret)"
  by (simp add: secret_packet_tag_def derive_packet_tag_def create_kdf_instance_def shared_secret_size_def)

lemma length_apply_prp [simp]: "length (apply_prp su k payload) = length payload"
  by (simp add: apply_prp_def)

lemma length_fold_apply_prp [simp]: "length (fold (apply_prp su) ks payload) = length payload"
  by (induction ks arbitrary: payload) auto

lemma reapply_layers_eq:
  "\<forall>s \<in> set secrets. length s = shared_secret_size \<Longrightarrow>
    reapply_layers su secrets payload = Ok (fold (apply_prp su) (map (secret_prp su) secrets) payload)"
  by (induction secrets arbitrary: payload) (auto simp: new_prp_init_Ok)

text \<open>The alpha values along a path.\<close>

lemma shares_secrets_path:
  assumes "shares_secrets su alpha kps secrets"
  obtains a where "a 0 = alpha"
    and "\<And>i. i < length kps \<Longrightarrow> forward_transform su (a i) (su_scalar_of su (kps ! i)) (su_element_of su (su_public su (kps ! i)))
        = Ok (a (Suc i), secrets ! i)"
    and "\<And>i. 0 < i \<Longrightarrow> i \<le> length kps \<Longrightarrow> length (a i) = gr_alpha_len (su_group su)"
  using assms
proof (induction kps arbitrary: alpha secrets thesis)
  case Nil
  show ?case by (rule Nil(1) [of "\<lambda>_. alpha"]) simp_all
next
  case (Cons kp kps)
  from Cons.prems(2) obtain alpha' s ss where s: "secrets = s # ss" "length alpha' = gr_alpha_len (su_group su)"
    "forward_transform su alpha (su_scalar_of su kp) (su_element_of su (su_public su kp)) = Ok (alpha', s)"
    "shares_secrets su alpha' kps ss" by auto
  obtain a where a: "a 0 = alpha'"
    "\<And>i. i < length kps \<Longrightarrow> forward_transform su (a i) (su_scalar_of su (kps ! i)) (su_element_of su (su_public su (kps ! i)))
        = Ok (a (Suc i), ss ! i)"
    "\<And>i. 0 < i \<Longrightarrow> i \<le> length kps \<Longrightarrow> length (a i) = gr_alpha_len (su_group su)"
    using Cons.IH s(4) by blast
  show ?case
  proof (rule Cons.prems(1) [of "\<lambda>i. case i of 0 \<Rightarrow> alpha | Suc i \<Rightarrow> a i"])
    show "length (case i of 0 \<Rightarrow> alpha | Suc i \<Rightarrow> a i) = gr_alpha_len (su_group su)" if "0 < i" "i \<le> length (kp # kps)" for i
    proof -
      obtain j where j: "i = Suc j" "j \<le> length kps" using \<open>0 < i\<close> \<open>i \<le> _\<close> by (cases i) auto
      then show ?thesis using a(1) a(3) [of j] s(2) by (cases "j = 0") simp_all
    qed
    show "forward_transform su (case i of 0 \<Rightarrow> alpha | Suc i \<Rightarrow> a i) (su_scalar_of su ((kp # kps) ! i))
        (su_element_of su (su_public su ((kp # kps) ! i))) = Ok (case Suc i of 0 \<Rightarrow> alpha | Suc i \<Rightarrow> a i, secrets ! i)"
      if "i < length (kp # kps)" for i
    proof (cases i)
      case 0
      then show ?thesis using s(1,3) a(1) by simp
    next
      case (Suc j)
      then show ?thesis using that a(2) [of j] s(1) by simp
    qed
  qed simp
qed

lemma packet_parts:
  assumes "length alpha = gr_alpha_len (su_group su)" and "length hdr = routing_info_size hs" and "length pay = padded_size P"
  shows "take (gr_alpha_len (su_group su)) (alpha @ hdr @ pay) = alpha"
    and "take (routing_info_size hs) (drop (gr_alpha_len (su_group su)) (alpha @ hdr @ pay)) = hdr"
    and "take (padded_size P) (drop (gr_alpha_len (su_group su) + routing_info_size hs) (alpha @ hdr @ pay)) = pay"
  using assms by simp_all

lemma into_forwarded_relayed:
  assumes len: "length alpha = gr_alpha_len (su_group su)" "length hdr = routing_info_size hs" "length pay = padded_size P"
    and ft: "forward_transform su alpha (su_scalar_of su kp) (su_element_of su (su_public su kp)) = Ok (alpha', s)"
    and s: "length s = shared_secret_size"
    and fh: "forward_header su hs s hdr = Ok (HeaderRelayed hdr' pos nid info)"
    and km: "km_id_to_public mapper nid = Some next_pub"
  shows "into_forwarded su hs P kp mapper openers (alpha @ hdr @ pay) st
    = (st, Ok (MetaRelayed (alpha' @ hdr' @ apply_prp su (secret_prp su s) pay) next_pub pos info s (secret_packet_tag su s)))"
  unfolding into_forwarded_def Let_def packet_parts [OF len]
  by (simp add: ft fh km new_prp_init_Ok [OF s] derive_packet_tag_Ok [OF s] meta_packet_from_parts_def len(3))

lemma into_forwarded_final:
  assumes len: "length alpha = gr_alpha_len (su_group su)" "length hdr = routing_info_size hs" "length pay = padded_size P"
    and ft: "forward_transform su alpha (su_scalar_of su kp) (su_element_of su (su_public su kp)) = Ok (alpha', s)"
    and s: "length s = shared_secret_size"
    and fh: "forward_header su hs s hdr = Ok (HeaderFinal recv is_reply na)"
    and op: "if is_reply then openers recv st = (Some opener, st') \<and> open_reply su opener recv (apply_prp su (secret_prp su s) pay) = Ok plain
        \<and> length plain = padded_size P
      else st' = st \<and> plain = apply_prp su (secret_prp su s) pay"
  shows "into_forwarded su hs P kp mapper openers (alpha @ hdr @ pay) st
    = (st', Ok (MetaFinal plain recv s (secret_packet_tag su s) na))"
  unfolding into_forwarded_def Let_def packet_parts [OF len]
  using op len(3)
  by (simp add: ft fh new_prp_init_Ok [OF s] derive_packet_tag_Ok [OF s] padded_from_padded_def split: if_splits)

text \<open>Every relay passes the packet on to its successor, at the right position and with its own data.\<close>

definition relayed_along ::
  "('g, 's, 'kp) suite \<Rightarrow> header_spec \<Rightarrow> nat \<Rightarrow> key_mapper \<Rightarrow> (bytes \<Rightarrow> 'st \<Rightarrow> reply_opener option \<times> 'st) \<Rightarrow> 'kp list
     \<Rightarrow> bytes list \<Rightarrow> bytes list \<Rightarrow> (nat \<Rightarrow> bytes) \<Rightarrow> bool" where
  "relayed_along su hs P mapper openers kps secrets relayer_data pkts \<longleftrightarrow>
     (\<forall>i < length kps. length (pkts i) = meta_packet_size su hs P)
     \<and> (\<forall>i st. i + 1 < length kps \<longrightarrow>
        into_forwarded su hs P (kps ! i) mapper openers (pkts i) st
          = (st, Ok (MetaRelayed (pkts (i + 1)) (su_public su (kps ! (i + 1))) (of_nat (length kps - i - 1)) (relayer_data ! i)
              (secrets ! i) (secret_packet_tag su (secrets ! i)))))"

definition mapper_knows :: "('g, 's, 'kp) suite \<Rightarrow> header_spec \<Rightarrow> key_mapper \<Rightarrow> 'kp list \<Rightarrow> bytes list \<Rightarrow> bool" where
  "mapper_knows su hs mapper kps ids \<longleftrightarrow> length ids = length kps \<and>
     (\<forall>i < length kps. km_key_to_id mapper (su_public su (kps ! i)) = Some (ids ! i)
        \<and> km_id_to_public mapper (ids ! i) = Some (su_public su (kps ! i)) \<and> length (ids ! i) = hs_key_id_size hs)"

text \<open>What a sender needs for a packet: as many nodes as the header has room for, and data of the right sizes.\<close>

definition route_ok ::
  "('g, 's, 'kp) suite \<Rightarrow> header_spec \<Rightarrow> key_mapper \<Rightarrow> 'kp list \<Rightarrow> bytes list \<Rightarrow> bytes list \<Rightarrow> bytes \<Rightarrow> bool" where
  "route_ok su hs mapper kps ids relayer_data receiver_data \<longleftrightarrow>
     suite_ok su \<and> header_spec_ok hs \<and> mac_ok su hs \<and> mapper_knows su hs mapper kps ids
     \<and> kps \<noteq> [] \<and> length kps \<le> hs_max_hops hs
     \<and> length kps - 1 \<le> length relayer_data \<and> (\<forall>d \<in> set relayer_data. length d = hs_relayer_data_size hs)
     \<and> length receiver_data = hs_receiver_data_size hs"

lemma route_keys:
  assumes "route_ok su hs mapper kps ids relayer_data receiver_data"
    and "new_shared_keys su x (map (su_public su) kps) = Ok keys"
  shows "header_inputs_ok hs ids (sk_secrets keys) relayer_data receiver_data"
    and "shares_secrets su (sk_alpha keys) kps (sk_secrets keys)" "length (sk_secrets keys) = length kps"
    and "length (sk_alpha keys) = gr_alpha_len (su_group su)" "\<forall>s \<in> set (sk_secrets keys). length s = shared_secret_size"
  using shared_keys_agree [of su x kps keys] assms
  by (auto simp: route_ok_def header_inputs_ok_def mapper_knows_def in_set_conv_nth)

text \<open>
  A packet with the header of the route, whatever its payload: it is relayed along the path, and the last node is left
  with the payload without the layers of all nodes.
\<close>

lemma packet_travels:
  assumes route: "route_ok su hs mapper kps ids relayer_data receiver_data"
    and keys: "new_shared_keys su x (map (su_public su) kps) = Ok keys"
    and pay: "length pay = padded_size P"
  obtains hdr pkts where
    "routing_info_new su hs random ids (sk_secrets keys) relayer_data receiver_data is_reply na = Ok hdr"
    and "length hdr = routing_info_size hs"
    and "pkts 0 = sk_alpha keys @ hdr @ pay"
    and "relayed_along su hs P mapper openers kps (sk_secrets keys) relayer_data pkts"
    and "\<forall>st st' opener plain.
      (if is_reply then openers receiver_data st = (Some opener, st')
         \<and> open_reply su opener receiver_data (fold (apply_prp su) (map (secret_prp su) (sk_secrets keys)) pay) = Ok plain
         \<and> length plain = padded_size P
       else st' = st \<and> plain = fold (apply_prp su) (map (secret_prp su) (sk_secrets keys)) pay) \<longrightarrow>
      into_forwarded su hs P (last kps) mapper openers (pkts (length kps - 1)) st
        = (st', Ok (MetaFinal plain receiver_data (last (sk_secrets keys)) (secret_packet_tag su (last (sk_secrets keys))) na))"
proof -
  let ?s = "sk_secrets keys" and ?n = "length kps"
  have su: "suite_ok su" "header_spec_ok hs" "mac_ok su hs" and km: "mapper_knows su hs mapper kps ids" and ne: "kps \<noteq> []"
    using route by (simp_all add: route_ok_def)
  note inp = route_keys [OF route keys]
  obtain a where a: "a 0 = sk_alpha keys"
    "\<And>i. i < ?n \<Longrightarrow> forward_transform su (a i) (su_scalar_of su (kps ! i)) (su_element_of su (su_public su (kps ! i))) = Ok (a (Suc i), ?s ! i)"
    "\<And>i. 0 < i \<Longrightarrow> i \<le> ?n \<Longrightarrow> length (a i) = gr_alpha_len (su_group su)"
    using shares_secrets_path [OF inp(2)] by blast
  obtain hdr where hdr: "routing_info_new su hs random ids ?s relayer_data receiver_data is_reply na = Ok (hdr 0)"
    "\<And>i. i + 1 < length ?s \<Longrightarrow> forward_header su hs (?s ! i) (hdr i)
        = Ok (HeaderRelayed (hdr (i + 1)) (of_nat (length ?s - i - 1)) (ids ! (i + 1)) (relayer_data ! i))"
    "forward_header su hs (last ?s) (hdr (length ?s - 1)) = Ok (HeaderFinal receiver_data is_reply na)"
    "\<And>i. i < length ?s \<Longrightarrow> length (hdr i) = routing_info_size hs"
    using header_travels [OF su(2,3) inp(1)] by blast
  define pays where "pays = (\<lambda>i. fold (apply_prp su) (map (secret_prp su) (take i ?s)) pay)"
  define pkts where "pkts = (\<lambda>i. a i @ hdr i @ pays i)"
  have la: "length (a i) = gr_alpha_len (su_group su)" if "i \<le> ?n" for i
    using that a(1,3) inp(4) by (cases "i = 0") auto
  have lp: "length (pays i) = padded_size P" for i by (simp add: pays_def pay)
  have step: "apply_prp su (secret_prp su (?s ! i)) (pays i) = pays (Suc i)" if "i < ?n" for i
    using that inp(3) by (simp add: pays_def take_Suc_conv_app_nth)
  have n: "0 < ?n" "?n - 1 < ?n" "last ?s = ?s ! (?n - 1)" "last kps = kps ! (?n - 1)"
    using ne inp(3) by (auto simp: last_conv_nth simp flip: length_greater_0_conv)
  show thesis
  proof (rule that [of "hdr 0" pkts])
    show "routing_info_new su hs random ids ?s relayer_data receiver_data is_reply na = Ok (hdr 0)" by (rule hdr(1))
    show "length (hdr 0) = routing_info_size hs" using hdr(4) n inp(3) by simp
    show "pkts 0 = sk_alpha keys @ hdr 0 @ pay" by (simp add: pkts_def a pays_def)
    show "relayed_along su hs P mapper openers kps ?s relayer_data pkts"
      unfolding relayed_along_def
    proof (intro conjI allI impI)
      show "length (pkts i) = meta_packet_size su hs P" if "i < ?n" for i
        using la [of i] hdr(4) [of i] lp [of i] that inp(3) by (simp add: pkts_def meta_packet_size_def)
    next
      fix i st assume i: "i + 1 < ?n"
      then have i': "i < ?n" "i < length ?s" "i + 1 < length ?s" "i \<le> ?n" using inp(3) by simp_all
      have s: "length (?s ! i) = shared_secret_size" using inp(5) i' by simp
      have "km_id_to_public mapper (ids ! (i + 1)) = Some (su_public su (kps ! (i + 1)))"
        using km i by (simp add: mapper_knows_def)
      from into_forwarded_relayed [OF la [OF i'(4)] hdr(4) [OF i'(2)] lp [of i] a(2) [OF i'(1)] s hdr(2) [OF i'(3)] this, of openers st]
      show "into_forwarded su hs P (kps ! i) mapper openers (pkts i) st
          = (st, Ok (MetaRelayed (pkts (i + 1)) (su_public su (kps ! (i + 1))) (of_nat (?n - i - 1)) (relayer_data ! i) (?s ! i)
              (secret_packet_tag su (?s ! i))))"
        using step [OF i'(1)] inp(3) by (simp add: pkts_def)
    qed
    show "\<forall>st st' opener plain.
      (if is_reply then openers receiver_data st = (Some opener, st')
         \<and> open_reply su opener receiver_data (fold (apply_prp su) (map (secret_prp su) ?s) pay) = Ok plain
         \<and> length plain = padded_size P
       else st' = st \<and> plain = fold (apply_prp su) (map (secret_prp su) ?s) pay) \<longrightarrow>
      into_forwarded su hs P (last kps) mapper openers (pkts (?n - 1)) st
        = (st', Ok (MetaFinal plain receiver_data (last ?s) (secret_packet_tag su (last ?s)) na))"
    proof (intro allI impI)
    fix st st' opener plain
    assume op: "if is_reply then openers receiver_data st = (Some opener, st')
         \<and> open_reply su opener receiver_data (fold (apply_prp su) (map (secret_prp su) ?s) pay) = Ok plain
         \<and> length plain = padded_size P
       else st' = st \<and> plain = fold (apply_prp su) (map (secret_prp su) ?s) pay"
    have all: "apply_prp su (secret_prp su (last ?s)) (pays (?n - 1)) = fold (apply_prp su) (map (secret_prp su) ?s) pay"
      using step [OF n(2)] n inp(3) by (simp add: pays_def)
    have s: "length (last ?s) = shared_secret_size" using inp(5) n inp(3) by simp
    have h: "length (hdr (?n - 1)) = routing_info_size hs" "?n - 1 \<le> ?n" using hdr(4) n inp(3) by simp_all
    have ft: "forward_transform su (a (?n - 1)) (su_scalar_of su (last kps)) (su_element_of su (su_public su (last kps)))
        = Ok (a (Suc (?n - 1)), last ?s)"
      using a(2) [OF n(2)] by (simp only: n(3,4))
    have "into_forwarded su hs P (last kps) mapper openers (a (?n - 1) @ hdr (?n - 1) @ pays (?n - 1)) st
        = (st', Ok (MetaFinal plain receiver_data (last ?s) (secret_packet_tag su (last ?s)) na))"
      by (rule into_forwarded_final [OF la [OF h(2)] h(1) lp ft s]) (use hdr(3) inp(3) op all in auto)
    then show "into_forwarded su hs P (last kps) mapper openers (pkts (?n - 1)) st
        = (st', Ok (MetaFinal plain receiver_data (last ?s) (secret_packet_tag su (last ?s)) na))"
      by (simp add: pkts_def)
    qed
  qed
qed

lemma collect_ids:
  assumes "mapper_knows su hs mapper kps ids"
  shows "collect_res (map (\<lambda>key. ok_or e (km_key_to_id mapper key)) (map (su_public su) kps)) = Ok ids"
proof -
  have "map (\<lambda>key. ok_or e (km_key_to_id mapper key)) (map (su_public su) kps) = map Ok ids"
    using assms by (auto simp: mapper_knows_def list_eq_iff_nth_eq)
  then show ?thesis using collect_res_Ok [of ids Ok "\<lambda>x. x"] by simp
qed

lemma forward_packet_travels:
  assumes route: "route_ok su hs mapper kps ids relayer_data receiver_data"
    and keys: "new_shared_keys su x (map (su_public su) kps) = Ok keys"
    and pay: "length payload = padded_size P"
  shows "\<exists>pp pkts. partial_packet_new su hs random (ForwardPathRouting keys (map (su_public su) kps) relayer_data receiver_data no_ack) mapper = Ok pp
     \<and> into_meta_packet su P pp payload = pkts 0
     \<and> relayed_along su hs P mapper openers kps (sk_secrets keys) relayer_data pkts
     \<and> (\<forall>st. into_forwarded su hs P (last kps) mapper openers (pkts (length kps - 1)) st
          = (st, Ok (MetaFinal payload receiver_data (last (sk_secrets keys)) (secret_packet_tag su (last (sk_secrets keys))) no_ack)))"
proof -
  let ?s = "sk_secrets keys"
  have km: "mapper_knows su hs mapper kps ids" using route by (simp add: route_ok_def)
  note inp = route_keys [OF route keys]
  define pay where "pay = fold (apply_prp su) (map (secret_prp su) (rev ?s)) payload"
  have lp: "length pay = padded_size P" by (simp add: pay_def pay)
  have undo: "fold (apply_prp su) (map (secret_prp su) ?s) pay = payload"
    unfolding pay_def rev_map [symmetric] by (rule prp.fold_crypt_undo)
  obtain hdr pkts where h: "routing_info_new su hs random ids ?s relayer_data receiver_data False no_ack = Ok hdr"
    "length hdr = routing_info_size hs" "pkts 0 = sk_alpha keys @ hdr @ pay" "relayed_along su hs P mapper openers kps ?s relayer_data pkts"
    and fin: "\<forall>st st' opener plain.
      (if False then openers receiver_data st = (Some opener, st')
         \<and> open_reply su opener receiver_data (fold (apply_prp su) (map (secret_prp su) ?s) pay) = Ok plain
         \<and> length plain = padded_size P
       else st' = st \<and> plain = fold (apply_prp su) (map (secret_prp su) ?s) pay) \<longrightarrow>
      into_forwarded su hs P (last kps) mapper openers (pkts (length kps - 1)) st
        = (st', Ok (MetaFinal plain receiver_data (last ?s) (secret_packet_tag su (last ?s)) no_ack))"
    by (rule packet_travels [OF route keys lp, of random False no_ack openers])
  have prps: "collect_res (map (new_prp_init su) (rev ?s)) = Ok (map (secret_prp su) (rev ?s))"
    using inp(5) by (intro collect_res_Ok new_prp_init_Ok) simp
  let ?pp = "\<lparr>pp_alpha = sk_alpha keys, pp_routing_info = hdr, pp_prp_inits = map (secret_prp su) (rev ?s)\<rparr>"
  have "partial_packet_new su hs random (ForwardPathRouting keys (map (su_public su) kps) relayer_data receiver_data no_ack) mapper = Ok ?pp"
    unfolding partial_packet_new_def meta_packet_routing.case collect_ids [OF km] and_then.simps h(1) prps map_fail.simps ..
  moreover have "into_meta_packet su P ?pp payload = pkts 0"
    using lp by (simp add: into_meta_packet_def meta_packet_from_parts_def h(3) pay_def pay)
  moreover have "into_forwarded su hs P (last kps) mapper openers (pkts (length kps - 1)) st
      = (st, Ok (MetaFinal payload receiver_data (last ?s) (secret_packet_tag su (last ?s)) no_ack))" for st
    by (rule fin [rule_format]) (simp add: undo)
  ultimately show ?thesis using h(4) by blast
qed

definition reply_prp :: "('g, 's, 'kp) suite \<Rightarrow> bytes \<Rightarrow> bytes \<Rightarrow> iv_key" where
  "reply_prp su sender_key salt = res_get ([], []) (new_reply_prp_init su sender_key salt)"

lemma new_reply_prp_init_Ok:
  "length sender_key = secret_key16_size \<Longrightarrow> new_reply_prp_init su sender_key salt = Ok (reply_prp su sender_key salt)"
  by (simp add: reply_prp_def new_reply_prp_init_def generate_key_iv_def create_kdf_instance_def secret_key16_size_def)

lemma reply_packet_travels:
  assumes route: "route_ok su hs mapper kps ids relayer_data receiver_data"
    and keys: "new_shared_keys su x (map (su_public su) kps) = Ok keys"
    and sender_key: "length sender_key = secret_key16_size" and info: "length info = hs_surb_receiver_data_size hs"
  shows "\<exists>surb opener. create_surb su hs random sender_key keys ids relayer_data receiver_data info = Ok (surb, opener)
     \<and> surb_valid su hs surb \<and> sb_first_relayer surb = hd ids \<and> sb_additional_data_receiver surb = info
     \<and> (\<forall>P payload. length payload = padded_size P \<longrightarrow>
         (\<exists>pp pkts. partial_packet_new su hs random' (SurbRouting surb receiver_data) mapper = Ok pp
           \<and> into_meta_packet su P pp payload = pkts 0
           \<and> relayed_along su hs P mapper openers kps (sk_secrets keys) relayer_data pkts
           \<and> (\<forall>st st'. openers receiver_data st = (Some opener, st') \<longrightarrow>
                into_forwarded su hs P (last kps) mapper openers (pkts (length kps - 1)) st
                = (st', Ok (MetaFinal payload receiver_data (last (sk_secrets keys))
                     (secret_packet_tag su (last (sk_secrets keys))) False)))))"
proof -
  let ?s = "sk_secrets keys"
  have km: "mapper_knows su hs mapper kps ids" and ne: "kps \<noteq> []" using route by (simp_all add: route_ok_def)
  then obtain id0 ids' where ids: "ids = id0 # ids'" by (cases ids) (auto simp: mapper_knows_def)
  have lid: "length id0 = hs_key_id_size hs" using km ne ids by (force simp: mapper_knows_def)
  note inp = route_keys [OF route keys]
  obtain hdr where h0: "routing_info_new su hs random ids ?s relayer_data receiver_data True False = Ok hdr" "length hdr = routing_info_size hs"
  proof -
    obtain hdr pkts :: "bytes" and pk where "routing_info_new su hs random ids ?s relayer_data receiver_data True False = Ok hdr"
      "length hdr = routing_info_size hs"
      by (rule packet_travels [OF route keys, of "replicate (padded_size 0) 0" 0 random True False openers]) simp_all
    then show thesis by (rule that)
  qed
  define surb where "surb = \<lparr>sb_first_relayer = id0, sb_alpha = sk_alpha keys, sb_header = hdr,
      sb_sender_key = sender_key, sb_additional_data_receiver = info\<rparr>"
  define opener where "opener = \<lparr>ro_sender_key = sender_key, ro_shared_secrets = ?s\<rparr>"
  have create: "create_surb su hs random sender_key keys ids relayer_data receiver_data info = Ok (surb, opener)"
    unfolding create_surb_def h0(1) and_then.simps by (simp add: ids surb_def opener_def)
  have valid: "surb_valid su hs surb" using lid inp(4) h0(2) sender_key info by (simp add: surb_valid_def surb_def)
  have deliver: "\<exists>pp pkts. partial_packet_new su hs random' (SurbRouting surb receiver_data) mapper = Ok pp
           \<and> into_meta_packet su P pp payload = pkts 0
           \<and> relayed_along su hs P mapper openers kps ?s relayer_data pkts
           \<and> (\<forall>st st'. openers receiver_data st = (Some opener, st') \<longrightarrow>
                into_forwarded su hs P (last kps) mapper openers (pkts (length kps - 1)) st
                = (st', Ok (MetaFinal payload receiver_data (last ?s) (secret_packet_tag su (last ?s)) False)))"
    if pl: "length payload = padded_size P" for P payload
  proof -
    let ?r = "reply_prp su sender_key receiver_data"
    define pay where "pay = apply_prp su ?r payload"
    have lp: "length pay = padded_size P" by (simp add: pay_def pl)
    have opened: "open_reply su opener receiver_data (fold (apply_prp su) (map (secret_prp su) ?s) pay) = Ok payload"
    proof -
      have "\<forall>s \<in> set (rev ?s). length s = shared_secret_size" using inp(5) by simp
      note r = reapply_layers_eq [OF this]
      have "fold (apply_prp su) (map (secret_prp su) (rev ?s)) (fold (apply_prp su) (map (secret_prp su) ?s) pay) = pay"
        unfolding rev_map [symmetric] prp.fold_crypt_rev by (rule prp.fold_crypt_twice)
      then show ?thesis
        by (simp add: open_reply_def opener_def r new_reply_prp_init_Ok [OF sender_key] pay_def prp.crypt_crypt)
    qed
    obtain hdr' pkts where h: "routing_info_new su hs random ids ?s relayer_data receiver_data True False = Ok hdr'"
      "length hdr' = routing_info_size hs" "pkts 0 = sk_alpha keys @ hdr' @ pay" "relayed_along su hs P mapper openers kps ?s relayer_data pkts"
      and fin: "\<forall>st st' opener plain.
        (if True then openers receiver_data st = (Some opener, st')
           \<and> open_reply su opener receiver_data (fold (apply_prp su) (map (secret_prp su) ?s) pay) = Ok plain
           \<and> length plain = padded_size P
         else st' = st \<and> plain = fold (apply_prp su) (map (secret_prp su) ?s) pay) \<longrightarrow>
        into_forwarded su hs P (last kps) mapper openers (pkts (length kps - 1)) st
          = (st', Ok (MetaFinal plain receiver_data (last ?s) (secret_packet_tag su (last ?s)) False))"
      by (rule packet_travels [OF route keys lp, of random True False openers])
    have hh: "hdr' = hdr" using h(1) h0(1) by simp
    let ?pp = "\<lparr>pp_alpha = sk_alpha keys, pp_routing_info = hdr, pp_prp_inits = [?r]\<rparr>"
    have "partial_packet_new su hs random' (SurbRouting surb receiver_data) mapper = Ok ?pp"
      by (simp add: partial_packet_new_def surb_def new_reply_prp_init_Ok [OF sender_key])
    moreover have "into_meta_packet su P ?pp payload = pkts 0"
      by (simp add: into_meta_packet_def meta_packet_from_parts_def h(3) hh pay_def pl)
    moreover have "into_forwarded su hs P (last kps) mapper openers (pkts (length kps - 1)) st
        = (st', Ok (MetaFinal payload receiver_data (last ?s) (secret_packet_tag su (last ?s)) False))"
      if "openers receiver_data st = (Some opener, st')" for st st'
      by (rule fin [rule_format, of st opener st' payload]) (simp add: that opened pl)
    ultimately show ?thesis using h(4) by blast
  qed
  have first: "sb_first_relayer surb = hd ids" "sb_additional_data_receiver surb = info" by (simp_all add: surb_def ids)
  show ?thesis
    using create valid first deliver by (intro exI [of _ surb] exI [of _ opener]) blast
qed

end
