(* ===== verification/Proof_Of_Relay.thy ===== *)
theory Proof_Of_Relay
  imports Sphinx_Keys
begin

text \<open>
  Proof of Relay (\<open>crypto/packet/src/por.rs\<close>) and the validation of the ticket of a forwarded packet
  (\<open>crypto/packet/src/validation.rs\<close>).

  The curve is a record of functions: the multiples of the generator, point addition, the
  compressed encoding and the Ethereum address of a point; \<open>cv_sample\<close> derives a half-key from a shared
  secret and a tag. \<open>curve_ok\<close> states the group laws and the encoding laws the code relies on.
\<close>

section \<open>Errors and curve\<close>

record ticket_validation_error =
  tve_reason :: string
  tve_ticket :: ticket

datatype packet_error =
    PacketDecodingError string
  | PacketConstructionError string
  | TagReplay
  | ChannelNotFound string
  | TicketValidation ticket_validation_error
  | AcknowledgementValidation string
  | PoRVerificationError
  | OutOfFunds string
  | LogicError string
  | Retry
  | TransportError string
  | PathPositionMismatch
  | MissingDomainSeparator
  | CryptographicError crypto_error
  | PacketCoreTypesError core_types_error
  | SphinxError sphinx_error
  | OtherPacketError general_error

record 'p curve =
  cv_order :: nat
  cv_base_mul :: "nat \<Rightarrow> 'p"
  cv_add :: "'p \<Rightarrow> 'p \<Rightarrow> 'p"
  cv_identity :: 'p
  cv_compress :: "'p \<Rightarrow> bytes"
  cv_decompress :: "bytes \<Rightarrow> 'p option"
  cv_eth :: "'p \<Rightarrow> eth_challenge"
  cv_sample :: "bytes \<Rightarrow> string \<Rightarrow> half_key"

type_synonym half_key_challenge = bytes  \<comment> \<open>a compressed point, 33 bytes\<close>
type_synonym shared_secret = bytes

definition half_key_challenge_size :: nat where
  "half_key_challenge_size = 33"

definition curve_ok :: "'p curve \<Rightarrow> bool" where
  "curve_ok cv \<longleftrightarrow>
     1 < cv_order cv \<and> cv_order cv \<le> 2 ^ 256
     \<and> (\<forall>a < cv_order cv. \<forall>b < cv_order cv.
          cv_add cv (cv_base_mul cv a) (cv_base_mul cv b) = cv_base_mul cv ((a + b) mod cv_order cv))
     \<and> (\<forall>a < cv_order cv. cv_base_mul cv a = cv_identity cv \<longleftrightarrow> a = 0)
     \<and> (\<forall>a < cv_order cv. a \<noteq> 0 \<longrightarrow> cv_decompress cv (cv_compress cv (cv_base_mul cv a)) = Some (cv_base_mul cv a))
     \<and> (\<forall>p. length (cv_compress cv p) = half_key_challenge_size)
     \<and> (\<forall>p. length (cv_eth cv p) = eth_challenge_size)"

section \<open>Half-keys and challenges\<close>

text \<open>\<open>HalfKey::to_challenge\<close> panics when the key is not a non-zero scalar.\<close>

definition half_key_to_challenge :: "'p curve \<Rightarrow> half_key \<Rightarrow> ('e, half_key_challenge) result" where
  "half_key_to_challenge cv k =
     (case nonzero_scalar (cv_order cv) k of
        Some s \<Rightarrow> Ok (cv_compress cv (cv_base_mul cv s))
      | None \<Rightarrow> Panicked)"

text \<open>
  \<open>Challenge::from_hint_and_share\<close>: the sum of two public keys; \<open>PublicKey::combine\<close> panics when it is the
  identity.
\<close>

definition public_key_try_from :: "'p curve \<Rightarrow> bytes \<Rightarrow> (packet_error, 'p) result" where
  "public_key_try_from cv bs =
     (case cv_decompress cv bs of
        Some p \<Rightarrow> if p = cv_identity cv
                  then Err (CryptographicError (OtherCryptoError (ParseErr ''invalid secp256k1 point'')))
                  else Ok p
      | None \<Rightarrow> Err (CryptographicError (OtherCryptoError (ParseErr ''invalid secp256k1 point''))))"

definition challenge_from_hint_and_share ::
  "'p curve \<Rightarrow> half_key_challenge \<Rightarrow> half_key_challenge \<Rightarrow> (packet_error, 'p) result" where
  "challenge_from_hint_and_share cv own_share hint =
     and_then (public_key_try_from cv own_share) (\<lambda>p.
     and_then (public_key_try_from cv hint) (\<lambda>q.
       let r = cv_add cv p q in if r = cv_identity cv then Panicked else Ok r))"

definition por_response :: "'p curve \<Rightarrow> half_key \<Rightarrow> half_key \<Rightarrow> (packet_error, response) result" where
  "por_response cv first second =
     (case (nonzero_scalar (cv_order cv) first, nonzero_scalar (cv_order cv) second) of
        (Some s1, Some s2) \<Rightarrow> Ok (be_encode 32 ((s1 + s2) mod cv_order cv))
      | _ \<Rightarrow> Err (CryptographicError CalculationError))"

definition por_response_to_eth :: "'p curve \<Rightarrow> response \<Rightarrow> ('e, eth_challenge) result" where
  "por_response_to_eth cv r =
     (case nonzero_scalar (cv_order cv) r of
        Some s \<Rightarrow> Ok (cv_eth cv (cv_base_mul cv s))
      | None \<Rightarrow> Panicked)"

section \<open>Proof-of-Relay values\<close>

definition derive_own_key_share :: "'p curve \<Rightarrow> shared_secret \<Rightarrow> half_key" where
  "derive_own_key_share cv secret = cv_sample cv secret ''HASH_KEY_OWN_KEY''"

definition derive_ack_key_share :: "'p curve \<Rightarrow> shared_secret \<Rightarrow> half_key" where
  "derive_ack_key_share cv secret = cv_sample cv secret ''HASH_KEY_ACK_KEY''"

type_synonym por_values = bytes
type_synonym por_string = bytes
type_synonym surb_receiver_info = bytes

definition por_values_size :: nat where
  "por_values_size = 1 + half_key_challenge_size + eth_challenge_size"

definition pov_new :: "u8 \<Rightarrow> half_key_challenge \<Rightarrow> eth_challenge \<Rightarrow> por_values" where
  "pov_new chain_len ack_challenge ticket_challenge = [chain_len] @ ack_challenge @ ticket_challenge"

definition pov_chain_length :: "por_values \<Rightarrow> u8" where
  "pov_chain_length v = v ! 0"

definition pov_acknowledgement_challenge :: "por_values \<Rightarrow> half_key_challenge" where
  "pov_acknowledgement_challenge v = take half_key_challenge_size (drop 1 v)"

definition pov_ticket_challenge :: "por_values \<Rightarrow> eth_challenge" where
  "pov_ticket_challenge v = drop (1 + half_key_challenge_size) v"

definition pov_try_from :: "bytes \<Rightarrow> (general_error, por_values) result" where
  "pov_try_from value = fixed_bytes por_values_size ''ProofOfRelayValues'' value"

definition surb_info_new :: "por_values \<Rightarrow> bytes \<Rightarrow> surb_receiver_info" where
  "surb_info_new pov share = pov @ share"

definition surb_info_por_values :: "surb_receiver_info \<Rightarrow> ('e, por_values) result" where
  "surb_info_por_values i =
     and_then (slice_range i 0 por_values_size) (\<lambda>b. case pov_try_from b of Inr v \<Rightarrow> Ok v | Inl _ \<Rightarrow> Panicked)"

definition por_string_size :: nat where
  "por_string_size = eth_challenge_size + half_key_challenge_size"

definition pors_new :: "eth_challenge \<Rightarrow> half_key_challenge \<Rightarrow> por_string" where
  "pors_new next_ticket_challenge hint = next_ticket_challenge @ hint"

definition pors_next_ticket_challenge :: "por_string \<Rightarrow> eth_challenge" where
  "pors_next_ticket_challenge s = take eth_challenge_size s"

definition pors_acknowledgement_challenge_or_hint :: "por_string \<Rightarrow> half_key_challenge" where
  "pors_acknowledgement_challenge_or_hint s = drop eth_challenge_size s"

record por_output =
  po_own_key :: half_key
  po_next_ticket_challenge :: eth_challenge
  po_ack_challenge :: half_key_challenge

definition pre_verify ::
  "'p curve \<Rightarrow> shared_secret \<Rightarrow> por_string \<Rightarrow> eth_challenge \<Rightarrow> (packet_error, por_output) result" where
  "pre_verify cv secret pors challenge =
     (let own_key = derive_own_key_share cv secret in
      and_then (half_key_to_challenge cv own_key) (\<lambda>own_share.
      and_then (challenge_from_hint_and_share cv own_share (pors_acknowledgement_challenge_or_hint pors)) (\<lambda>p.
        if cv_eth cv p = challenge
        then Ok \<lparr>po_own_key = own_key, po_next_ticket_challenge = pors_next_ticket_challenge pors,
                 po_ack_challenge = pors_acknowledgement_challenge_or_hint pors\<rparr>
        else Err PoRVerificationError)))"

text \<open>
  The loop of \<open>generate_proof_of_relay\<close>: \<open>prev\<close> is the acknowledgement key share of the previous round. A
  round past the last secret takes its key share from the fresh random secret of that round.
\<close>

fun por_loop ::
  "'p curve \<Rightarrow> (nat \<Rightarrow> shared_secret) \<Rightarrow> nat \<Rightarrow> nat \<Rightarrow> half_key option \<Rightarrow> shared_secret list
     \<Rightarrow> por_string list \<times> por_values option \<Rightarrow> (packet_error, por_string list \<times> por_values option) result" where
  "por_loop cv random len i prev [] acc = Ok acc"
| "por_loop cv random len i prev (secret # rest) (por_strings, por_values) =
     and_then (half_key_to_challenge cv
         (case prev of Some k \<Rightarrow> k | None \<Rightarrow> derive_ack_key_share cv secret)) (\<lambda>hint.
       let s1 = derive_own_key_share cv secret;
           s2 = derive_ack_key_share cv (case rest of s # _ \<Rightarrow> s | [] \<Rightarrow> random i) in
       and_then (por_response cv s1 s2) (\<lambda>response.
       and_then (por_response_to_eth cv response) (\<lambda>next_ticket_challenge.
         por_loop cv random len (i + 1) (Some s2) rest
           (if i > 0 then (por_strings @ [pors_new next_ticket_challenge hint], por_values)
            else (por_strings, Some (pov_new (of_nat len) hint next_ticket_challenge))))))"

definition generate_proof_of_relay ::
  "'p curve \<Rightarrow> (nat \<Rightarrow> shared_secret) \<Rightarrow> shared_secret list \<Rightarrow> (packet_error, por_string list \<times> por_values) result" where
  "generate_proof_of_relay cv random secrets =
     and_then (por_loop cv random (length secrets) 0 None secrets ([], None)) (\<lambda>(por_strings, por_values).
     and_then (ok_or (LogicError ''no shared secrets'') por_values) (\<lambda>v. Ok (por_strings, v)))"

section \<open>Validation of an unacknowledged ticket\<close>

definition validate_unacknowledged_ticket ::
  "('sk, 'vrf, 'rnd) crypto \<Rightarrow> (rat \<Rightarrow> rat \<Rightarrow> bool) \<Rightarrow> ticket \<Rightarrow> channel_entry \<Rightarrow> hopr_balance \<Rightarrow> win_prob
     \<Rightarrow> hopr_balance \<Rightarrow> hash \<Rightarrow> (ticket_validation_error, verified_ticket) result" where
  "validate_unacknowledged_ticket cr approx ticket channel min_ticket_amount required_win_prob
       unrealized_balance domain_separator =
     and_then (map_fail (\<lambda>t. \<lparr>tve_reason = ''ticket signer does not match the sender'', tve_ticket = t\<rparr>)
         (ticket_verify cr ticket (ce_source channel) domain_separator)) (\<lambda>verified_ticket.
       let inner_ticket = vt_ticket verified_ticket;
           invalid = (\<lambda>reason. Err \<lparr>tve_reason = reason, tve_ticket = inner_ticket\<rparr>) in
       if \<not> tk_amount inner_ticket \<ge> min_ticket_amount then invalid ''ticket amount is not at least the minimum''
       else if wp_approx_cmp approx (tk_encoded_win_prob inner_ticket) required_win_prob = Less then
         invalid ''ticket winning probability is lower than required winning probability''
       else if status_eq (ce_status channel) Closed then
         invalid ''payment channel is not opened or pending to close''
       else if ce_channel_epoch channel \<noteq> ucast (tk_channel_epoch inner_ticket) then
         invalid ''ticket was created for a different channel iteration''
       else if tk_amount inner_ticket > unrealized_balance then
         invalid ''ticket value is greater than remaining unrealized balance''
       else Ok verified_ticket)"

section \<open>The chain of challenges\<close>

text \<open>The sampled shares of a secret are non-zero scalars: \<open>share cv f s\<close> is the scalar.\<close>

definition own_scalar :: "'p curve \<Rightarrow> shared_secret \<Rightarrow> nat" where
  "own_scalar cv s = be_decode (derive_own_key_share cv s)"

definition ack_scalar :: "'p curve \<Rightarrow> shared_secret \<Rightarrow> nat" where
  "ack_scalar cv s = be_decode (derive_ack_key_share cv s)"

definition secret_ok :: "'p curve \<Rightarrow> shared_secret \<Rightarrow> bool" where
  "secret_ok cv s \<longleftrightarrow> nonzero_scalar (cv_order cv) (derive_own_key_share cv s) \<noteq> None
     \<and> nonzero_scalar (cv_order cv) (derive_ack_key_share cv s) \<noteq> None"

lemma secret_ok_scalars:
  assumes "secret_ok cv s"
  shows "nonzero_scalar (cv_order cv) (derive_own_key_share cv s) = Some (own_scalar cv s)"
    and "nonzero_scalar (cv_order cv) (derive_ack_key_share cv s) = Some (ack_scalar cv s)"
    and "0 < own_scalar cv s" "own_scalar cv s < cv_order cv" "0 < ack_scalar cv s" "ack_scalar cv s < cv_order cv"
  using assms by (auto simp: secret_ok_def own_scalar_def ack_scalar_def nonzero_scalar_def split: if_splits)

text \<open>The secret of the next node, the random one after the prev; the challenge two neighbouring nodes share.\<close>

definition next_secret :: "(nat \<Rightarrow> shared_secret) \<Rightarrow> shared_secret list \<Rightarrow> nat \<Rightarrow> shared_secret" where
  "next_secret random secrets i = (if i + 1 < length secrets then secrets ! (i + 1) else random i)"

definition pair_scalar :: "'p curve \<Rightarrow> shared_secret \<Rightarrow> shared_secret \<Rightarrow> nat" where
  "pair_scalar cv s s' = (own_scalar cv s + ack_scalar cv s') mod cv_order cv"

definition pair_challenge :: "'p curve \<Rightarrow> shared_secret \<Rightarrow> shared_secret \<Rightarrow> eth_challenge" where
  "pair_challenge cv s s' = cv_eth cv (cv_base_mul cv (pair_scalar cv s s'))"

definition ack_challenge :: "'p curve \<Rightarrow> shared_secret \<Rightarrow> half_key_challenge" where
  "ack_challenge cv s = cv_compress cv (cv_base_mul cv (ack_scalar cv s))"

definition honest_secrets :: "'p curve \<Rightarrow> (nat \<Rightarrow> shared_secret) \<Rightarrow> shared_secret list \<Rightarrow> bool" where
  "honest_secrets cv random secrets \<longleftrightarrow>
     (\<forall>i < length secrets. secret_ok cv (secrets ! i) \<and> secret_ok cv (next_secret random secrets i)
        \<and> pair_scalar cv (secrets ! i) (next_secret random secrets i) \<noteq> 0)"

lemma por_round:
  assumes cv: "curve_ok cv" and s: "secret_ok cv s" and s': "secret_ok cv s'" and p: "pair_scalar cv s s' \<noteq> 0"
  shows "por_response cv (derive_own_key_share cv s) (derive_ack_key_share cv s') = Ok (be_encode 32 (pair_scalar cv s s'))"
    and "por_response_to_eth cv (be_encode 32 (pair_scalar cv s s')) = Ok (pair_challenge cv s s')"
    and "half_key_to_challenge cv (derive_ack_key_share cv s) = Ok (ack_challenge cv s)"
proof -
  show "por_response cv (derive_own_key_share cv s) (derive_ack_key_share cv s') = Ok (be_encode 32 (pair_scalar cv s s'))"
    by (simp add: por_response_def secret_ok_scalars [OF s] secret_ok_scalars [OF s'] pair_scalar_def)
  have "nonzero_scalar (cv_order cv) (be_encode 32 (pair_scalar cv s s')) = Some (pair_scalar cv s s')"
    using cv p by (subst nonzero_scalar_encode) (auto simp: curve_ok_def pair_scalar_def)
  then show "por_response_to_eth cv (be_encode 32 (pair_scalar cv s s')) = Ok (pair_challenge cv s s')"
    by (simp add: por_response_to_eth_def pair_challenge_def)
  show "half_key_to_challenge cv (derive_ack_key_share cv s) = Ok (ack_challenge cv s)"
    by (simp add: half_key_to_challenge_def secret_ok_scalars [OF s] ack_challenge_def)
qed

definition por_string_at :: "'p curve \<Rightarrow> (nat \<Rightarrow> shared_secret) \<Rightarrow> shared_secret list \<Rightarrow> nat \<Rightarrow> por_string" where
  "por_string_at cv random secrets i =
     pors_new (pair_challenge cv (secrets ! i) (next_secret random secrets i)) (ack_challenge cv (secrets ! i))"

lemma por_loop_eq:
  assumes cv: "curve_ok cv" and hon: "honest_secrets cv random secrets"
  shows "secrets = pre @ rest \<Longrightarrow> pre \<noteq> [] \<Longrightarrow>
    prev = Some (derive_ack_key_share cv (next_secret random secrets (length pre - 1))) \<Longrightarrow>
    por_loop cv random n (length pre) prev rest (strs, v)
      = Ok (strs @ map (por_string_at cv random secrets) [length pre..<length secrets], v)"
proof (induction rest arbitrary: pre prev strs)
  case (Cons s rest)
  let ?i = "length pre"
  have i: "?i < length secrets" "secrets ! ?i = s" using Cons.prems(1) by auto
  have nx: "next_secret random secrets ?i = (case rest of s # _ \<Rightarrow> s | [] \<Rightarrow> random ?i)"
    using Cons.prems(1) by (auto simp: next_secret_def nth_append split: list.splits)
  have h: "secret_ok cv s" "secret_ok cv (next_secret random secrets ?i)"
    "pair_scalar cv s (next_secret random secrets ?i) \<noteq> 0"
    using hon i by (auto simp: honest_secrets_def)
  have "next_secret random secrets (?i - 1) = s"
    using Cons.prems(1,2) by (auto simp: next_secret_def)
  then have lst: "prev = Some (derive_ack_key_share cv s)" using Cons.prems(3) by simp
  note r = por_round [OF cv h]
  have "por_loop cv random n (length (pre @ [s])) (Some (derive_ack_key_share cv (next_secret random secrets ?i))) rest
      (strs @ [por_string_at cv random secrets ?i], v)
     = Ok ((strs @ [por_string_at cv random secrets ?i]) @ map (por_string_at cv random secrets) [length (pre @ [s])..<length secrets], v)"
    using Cons.prems by (intro Cons.IH) auto
  then show ?case
    using i Cons.prems(2)
    by (simp add: lst r nx [symmetric] por_string_at_def [of cv random secrets "length pre"] upt_conv_Cons Let_def)
qed simp

lemma generate_por_eq:
  assumes cv: "curve_ok cv" and hon: "honest_secrets cv random secrets" and ne: "secrets \<noteq> []"
  shows "generate_proof_of_relay cv random secrets =
     Ok (map (por_string_at cv random secrets) [1..<length secrets],
         pov_new (of_nat (length secrets)) (ack_challenge cv (secrets ! 0))
           (pair_challenge cv (secrets ! 0) (next_secret random secrets 0)))"
proof -
  obtain s rest where s: "secrets = s # rest" using ne by (cases secrets) auto
  have nx: "next_secret random secrets 0 = (case rest of s # _ \<Rightarrow> s | [] \<Rightarrow> random 0)"
    by (auto simp: next_secret_def s split: list.splits)
  have h: "secret_ok cv s" "secret_ok cv (next_secret random secrets 0)" "pair_scalar cv s (next_secret random secrets 0) \<noteq> 0"
    using hon by (auto simp: honest_secrets_def s)
  note r = por_round [OF cv h]
  have "por_loop cv random (length secrets) (length [s]) (Some (derive_ack_key_share cv (next_secret random secrets 0))) rest
     ([], Some (pov_new (of_nat (length secrets)) (ack_challenge cv s) (pair_challenge cv s (next_secret random secrets 0))))
     = Ok ([] @ map (por_string_at cv random secrets) [length [s]..<length secrets],
        Some (pov_new (of_nat (length secrets)) (ack_challenge cv s) (pair_challenge cv s (next_secret random secrets 0))))"
    by (rule por_loop_eq [OF cv hon]) (auto simp: s)
  then show ?thesis
    by (simp add: generate_proof_of_relay_def s r [unfolded s] nx [unfolded s, symmetric] Let_def del: upt_Suc)
qed


lemma pors_fields:
  assumes "curve_ok cv"
  shows "pors_next_ticket_challenge (por_string_at cv random secrets i)
       = pair_challenge cv (secrets ! i) (next_secret random secrets i)"
    and "pors_acknowledgement_challenge_or_hint (por_string_at cv random secrets i) = ack_challenge cv (secrets ! i)"
    and "pov_ticket_challenge (pov_new n (ack_challenge cv s) ch) = ch"
  using assms
  by (simp_all add: por_string_at_def pors_new_def pors_next_ticket_challenge_def pors_acknowledgement_challenge_or_hint_def
      pov_ticket_challenge_def pov_new_def pair_challenge_def ack_challenge_def curve_ok_def)

lemma pre_verify_pair:
  assumes cv: "curve_ok cv" and s: "secret_ok cv s" and s': "secret_ok cv s'"
    and hint: "pors_acknowledgement_challenge_or_hint pors = ack_challenge cv s'"
  shows "pre_verify cv s pors ch =
     (if pair_scalar cv s s' = 0 then Panicked
      else if pair_challenge cv s s' = ch
        then Ok \<lparr>po_own_key = derive_own_key_share cv s, po_next_ticket_challenge = pors_next_ticket_challenge pors,
                 po_ack_challenge = ack_challenge cv s'\<rparr>
      else Err PoRVerificationError)"
proof -
  note a = secret_ok_scalars [OF s] and b = secret_ok_scalars [OF s']
  have pk: "public_key_try_from cv (cv_compress cv (cv_base_mul cv k)) = Ok (cv_base_mul cv k)"
    if "0 < k" "k < cv_order cv" for k
    using cv that by (auto simp: public_key_try_from_def curve_ok_def)
  have add: "cv_add cv (cv_base_mul cv (own_scalar cv s)) (cv_base_mul cv (ack_scalar cv s')) = cv_base_mul cv (pair_scalar cv s s')"
    using cv a(4) b(6) by (simp add: curve_ok_def pair_scalar_def)
  have "pair_scalar cv s s' < cv_order cv" using cv by (simp add: curve_ok_def pair_scalar_def)
  then have id: "cv_base_mul cv (pair_scalar cv s s') = cv_identity cv \<longleftrightarrow> pair_scalar cv s s' = 0"
    using cv by (auto simp: curve_ok_def)
  show ?thesis
    by (auto simp: pre_verify_def half_key_to_challenge_def challenge_from_hint_and_share_def hint a pk b
        ack_challenge_def Let_def add id pair_challenge_def)
qed

text \<open>C3: the Proof of Relay works along the whole path: with the values the sender generates for its shared
secrets, every relayer accepts its packet (the ticket it got carries the challenge the previous hop was
told to print), is handed the challenge for the next ticket, and once the next node releases its
acknowledgement key, the relayer's two half-keys solve the challenge of its own ticket. There is one string per
relayer.\<close>
theorem proof_of_relay_chain:
  assumes "curve_ok cv" and "honest_secrets cv random secrets" and "secrets \<noteq> []"
    and "cr_order cr = cv_order cv" and "\<forall>s. cr_point_address cr s = cv_eth cv (cv_base_mul cv s)"
  shows "\<exists>strings vals. generate_proof_of_relay cv random secrets = Ok (strings, vals)
     \<and> length strings = length secrets - 1
     \<and> (\<forall>i < length strings.
          let challenge = (if i = 0 then pov_ticket_challenge vals else pors_next_ticket_challenge (strings ! (i - 1))) in
          \<exists>out. pre_verify cv (secrets ! i) (strings ! i) challenge = Ok out
            \<and> po_next_ticket_challenge out = pors_next_ticket_challenge (strings ! i)
            \<and> (\<forall>vt. tk_challenge (vt_ticket vt) = challenge \<longrightarrow>
                 (\<exists>tkt. ut_acknowledge cr (vt_into_unacknowledged vt (po_own_key out))
                          (derive_ack_key_share cv (secrets ! (i + 1))) = Ok tkt \<and> at_ticket tkt = vt)))"
proof -
  note cv = assms(1)
  note gen = generate_por_eq [OF assms(1-3)]
  let ?strings = "map (por_string_at cv random secrets) [1..<length secrets]"
  let ?vals = "pov_new (of_nat (length secrets)) (ack_challenge cv (secrets ! 0)) (pair_challenge cv (secrets ! 0) (next_secret random secrets 0))"
  have "let challenge = (if i = 0 then pov_ticket_challenge ?vals else pors_next_ticket_challenge (?strings ! (i - 1))) in
          \<exists>out. pre_verify cv (secrets ! i) (?strings ! i) challenge = Ok out
            \<and> po_next_ticket_challenge out = pors_next_ticket_challenge (?strings ! i)
            \<and> (\<forall>vt. tk_challenge (vt_ticket vt) = challenge \<longrightarrow>
                 (\<exists>tkt. ut_acknowledge cr (vt_into_unacknowledged vt (po_own_key out))
                          (derive_ack_key_share cv (secrets ! (i + 1))) = Ok tkt \<and> at_ticket tkt = vt))"
    if i: "i < length ?strings" for i
  proof -
    let ?s = "secrets ! i" and ?s' = "secrets ! (i + 1)"
    have lt: "i < length secrets" "i + 1 < length secrets" using i by auto
    have nx: "next_secret random secrets i = ?s'" using lt by (simp add: next_secret_def)
    have "secret_ok cv ?s \<and> secret_ok cv (next_secret random secrets i) \<and> pair_scalar cv ?s (next_secret random secrets i) \<noteq> 0"
      using assms(2) lt(1) unfolding honest_secrets_def by blast
    then have ok: "secret_ok cv ?s" "secret_ok cv ?s'" "pair_scalar cv ?s ?s' \<noteq> 0" by (simp_all add: nx)
    have str: "?strings ! i = por_string_at cv random secrets (i + 1)" using i by simp
    have ch: "(if i = 0 then pov_ticket_challenge ?vals else pors_next_ticket_challenge (?strings ! (i - 1))) = pair_challenge cv ?s ?s'"
      using i nx by (auto simp: pors_fields [OF cv])
    have hint: "pors_acknowledgement_challenge_or_hint (?strings ! i) = ack_challenge cv ?s'"
      by (simp only: str pors_fields(2) [OF cv])
    have out: "pre_verify cv ?s (?strings ! i) (pair_challenge cv ?s ?s') =
        Ok \<lparr>po_own_key = derive_own_key_share cv ?s, po_next_ticket_challenge = pors_next_ticket_challenge (?strings ! i),
            po_ack_challenge = ack_challenge cv ?s'\<rparr>"
      using pre_verify_pair [OF cv ok(1,2) hint] ok(3) by simp
    have "\<exists>tkt. ut_acknowledge cr (vt_into_unacknowledged vt (derive_own_key_share cv ?s)) (derive_ack_key_share cv ?s') = Ok tkt
        \<and> at_ticket tkt = vt" if "tk_challenge (vt_ticket vt) = pair_challenge cv ?s ?s'" for vt
    proof -
      have rh: "response_from_half_keys cr (derive_own_key_share cv ?s) (derive_ack_key_share cv ?s') = Ok (be_encode 32 (pair_scalar cv ?s ?s'))"
        by (simp only: response_from_half_keys_def assms(4) secret_ok_scalars(1) [OF ok(1)] secret_ok_scalars(2) [OF ok(2)]
            pair_scalar_def option.case prod.case)
      have "nonzero_scalar (cv_order cv) (be_encode 32 (pair_scalar cv ?s ?s')) = Some (pair_scalar cv ?s ?s')"
        using cv ok(3) by (subst nonzero_scalar_encode) (auto simp: curve_ok_def pair_scalar_def)
      then show ?thesis using that rh assms(5)
        by (simp add: ut_acknowledge_def vt_into_unacknowledged_def response_to_challenge_def assms(4)
            pair_challenge_def vt_into_acknowledged_def)
    qed
    then show ?thesis unfolding Let_def ch using out by simp
  qed
  then show ?thesis using gen by (intro exI [of _ ?strings] exI [of _ ?vals]) simp
qed

text \<open>Checking a packet whose hint is the negative of the relayer's own share ends in a panic instead of an
error. The sender of the packet knows the share, so it can choose the hint this way.\<close>
lemma pre_verify_panics:
  assumes "curve_ok cv" and "secret_ok cv secret" and "length ntc = eth_challenge_size"
  shows "pre_verify cv secret
       (pors_new ntc (cv_compress cv (cv_base_mul cv (cv_order cv - own_scalar cv secret)))) challenge = Panicked"
proof -
  let ?h = "cv_order cv - own_scalar cv secret"
  note a = secret_ok_scalars [OF assms(2)]
  have h: "0 < ?h" "?h < cv_order cv" using a(3,4) by simp_all
  have pk: "public_key_try_from cv (cv_compress cv (cv_base_mul cv k)) = Ok (cv_base_mul cv k)"
    if "0 < k" "k < cv_order cv" for k
    using assms(1) that by (auto simp: public_key_try_from_def curve_ok_def)
  have "cv_add cv (cv_base_mul cv (own_scalar cv secret)) (cv_base_mul cv ?h) = cv_base_mul cv ((own_scalar cv secret + ?h) mod cv_order cv)"
    using assms(1) a(4) h(2) unfolding curve_ok_def by blast
  also have "\<dots> = cv_identity cv" using assms(1) a(4) by (auto simp: curve_ok_def)
  finally show ?thesis
    using assms(3) by (simp add: pre_verify_def half_key_to_challenge_def challenge_from_hint_and_share_def a pk h Let_def
        pors_new_def pors_acknowledgement_challenge_or_hint_def)
qed


definition example_curve :: "nat curve" where
  "example_curve =
     \<lparr>cv_order = 101, cv_base_mul = (\<lambda>a. a), cv_add = (\<lambda>a b. (a + b) mod 101), cv_identity = 0,
      cv_compress = be_encode 33, cv_decompress = (\<lambda>bs. Some (be_decode bs)), cv_eth = be_encode 20,
      cv_sample = (\<lambda>s tag. be_encode 32 (unat (hd s) + (if tag = ''HASH_KEY_OWN_KEY'' then 0 else 10)))\<rparr>"

lemma example_curve_ok: "curve_ok example_curve"
  by (auto simp: curve_ok_def example_curve_def be_decode_encode half_key_challenge_size_def eth_challenge_size_def)

lemma example_secret_ok:
  assumes "unat (hd s) \<noteq> 0" and "unat (hd s) < 50"
  shows "secret_ok example_curve s" "own_scalar example_curve s = unat (hd s)" "ack_scalar example_curve s = unat (hd s) + 10"
  using assms by (simp_all add: secret_ok_def example_curve_def derive_own_key_share_def derive_ack_key_share_def
      nonzero_scalar_def be_decode_encode own_scalar_def ack_scalar_def)

lemma example_honest: "honest_secrets example_curve (\<lambda>_. [9]) [[3], [4], [5]]"
  by (auto simp: honest_secrets_def less_Suc_eq next_secret_def example_secret_ok pair_scalar_def example_curve_def [THEN arg_cong, of cv_order])

theorem proof_of_relay_chain_witness:
  "\<exists>strings vals. generate_proof_of_relay example_curve (\<lambda>_. [9]) [[3], [4], [5]] = Ok (strings, vals)
     \<and> (\<exists>out. pre_verify example_curve [3] (strings ! 0) (pov_ticket_challenge vals) = Ok out)"
proof -
  let ?cr = "example_crypto\<lparr>cr_point_address := be_encode 20\<rparr>"
  have "cr_order ?cr = cv_order example_curve" "\<forall>s. cr_point_address ?cr s = cv_eth example_curve (cv_base_mul example_curve s)"
    by (simp_all add: example_crypto_def example_curve_def)
  from proof_of_relay_chain [OF example_curve_ok example_honest list.distinct(2) this] show ?thesis
    by (elim exE conjE, simp) (drule spec [of _ 0], auto simp: Let_def)
qed

lemma pre_verify_panics_witness:
  "pre_verify example_curve [3] (pors_new (replicate 20 0) (be_encode 33 98)) [] = Panicked"
proof -
  have "length (replicate 20 (0 :: byte)) = eth_challenge_size" by (simp add: eth_challenge_size_def)
  from pre_verify_panics [OF example_curve_ok example_secret_ok(1) this, of "[3]" "[]"]
  show ?thesis by (simp add: example_secret_ok) (simp add: example_curve_def)
qed

section \<open>Ticket validation\<close>

text \<open>C27: a ticket passes validation exactly when it is signed by the source of the channel, is worth at
least the minimum and at most the unrealized balance, has at least the required winning probability, and
belongs to the current epoch of a channel that is not closed; the error names the ticket.\<close>
theorem ticket_validation_iff:
  "(validate_unacknowledged_ticket cr approx t ch min_amount req_wp unrealized ds = Ok vt \<longleftrightarrow>
     ticket_verify cr t (ce_source ch) ds = Ok vt
     \<and> min_amount \<le> tk_amount t \<and> tk_amount t \<le> unrealized
     \<and> wp_approx_cmp approx (tk_encoded_win_prob t) req_wp \<noteq> Less
     \<and> ce_status ch \<noteq> Closed \<and> ce_channel_epoch ch = ucast (tk_channel_epoch t))
   \<and> (\<forall>e. validate_unacknowledged_ticket cr approx t ch min_amount req_wp unrealized ds = Err e \<longrightarrow> tve_ticket e = t)"
proof -
  have c: "status_eq s Closed \<longleftrightarrow> s = Closed" for s by (cases s) auto
  show ?thesis
  proof (cases "ticket_verify cr t (ce_source ch) ds")
    case (Inl f)
    moreover from this have "f = Panic \<or> f = Fail t"
      by (auto simp: ticket_verify_def Let_def split: option.splits sum.splits failure.splits if_splits)
    ultimately show ?thesis by (auto simp: validate_unacknowledged_ticket_def)
  next
    case (Inr v)
    then have "vt_ticket v = t" by (simp add: ticket_verify_Ok_iff)
    with Inr show ?thesis
      by (auto simp: validate_unacknowledged_ticket_def Let_def c)
  qed
qed

theorem ticket_validation_iff_witness:
  "validate_unacknowledged_ticket example_crypto (\<lambda>a b. a = b) (vt_ticket (ticket_sign example_crypto example_ticket 9 []))
     (ce_new (\<lambda>_. []) (replicate 20 9) [] 500 0 Open 1) 50 wp_never 200 [] = Ok (ticket_sign example_crypto example_ticket 9 [])"
proof -
  let ?vt = "ticket_sign example_crypto example_ticket 9 []"
  let ?ch = "ce_new (\<lambda>_. []) (replicate 20 9) [] 500 0 Open 1"
  have v: "ticket_verify example_crypto (vt_ticket ?vt) (ce_source ?ch) [] = Ok ?vt"
    using ticket_sign_inv [OF example_crypto_ok, of "[]" example_ticket 9]
    by (auto simp: ticket_verify_Ok_iff ce_new_def ticket_sign_def Let_def example_crypto_def)
  have t: "tk_amount (vt_ticket ?vt) = 100" "tk_channel_epoch (vt_ticket ?vt) = 1" "tk_encoded_win_prob (vt_ticket ?vt) = wp_always"
    by (simp_all add: ticket_sign_def Let_def example_ticket_def wp_always_def encoded_win_prob_length_def)
  have "wp_as_f64 wp_never = 0" "wp_as_f64 wp_always = 1" by (simp_all add: wp_f64 wp_special)
  then show ?thesis
    using ticket_validation_iff [of example_crypto "\<lambda>a b. a = b" "vt_ticket ?vt" ?ch 50 wp_never 200 "[]" ?vt] v
    by (simp add: t ce_new_def wp_approx_cmp_def Let_def)
qed

end
