(* ===== verification/Hopr_Packet.thy ===== *)
theory Hopr_Packet
  imports Sphinx_Packet Proof_Of_Relay
begin

text \<open>
  The packets of the HOPR protocol (\<open>crypto/packet/src/packet.rs\<close>, \<open>types.rs\<close>, with the constants of \<open>lib.rs\<close>): Sphinx
  packets whose relayer data are the strings of Proof of Relay, followed by a ticket. A message is preceded by reply
  blocks, the receiver data identify the sender by a pseudonym and the reply block by a number.

  What an operation draws at random is a record of values. The record \<open>packet_env\<close> holds the Sphinx suite, the curve of
  Proof of Relay and the cryptography of tickets.
\<close>

section \<open>Sizes\<close>

definition offchain_public_key_size :: nat where
  "offchain_public_key_size = 32"

definition simple_pseudonym_size :: nat where
  "simple_pseudonym_size = 10"

definition surb_id_size :: nat where
  "surb_id_size = 8"

definition sender_id_size :: nat where
  "sender_id_size = simple_pseudonym_size + surb_id_size"

definition surb_receiver_info_size :: nat where
  "surb_receiver_info_size = por_values_size + 32"

definition hopr_header_spec :: header_spec where
  "hopr_header_spec =
     \<lparr>hs_max_hops = intermediate_hops + 1, hs_key_id_size = 4, hs_tag_size = 16, hs_relayer_data_size = por_string_size,
      hs_receiver_data_size = sender_id_size, hs_pseudonym_size = simple_pseudonym_size,
      hs_surb_receiver_data_size = surb_receiver_info_size\<rparr>"

definition payload_size_int :: nat where
  "payload_size_int = 1000"

section \<open>The sender's identifier\<close>

text \<open>\<open>HoprSenderId::new\<close> overwrites the front of random bytes with the pseudonym.\<close>

type_synonym pseudonym = bytes
type_synonym surb_id = bytes
type_synonym sender_id = bytes

definition sender_id_new :: "bytes \<Rightarrow> pseudonym \<Rightarrow> sender_id" where
  "sender_id_new random pseudonym = pseudonym @ drop simple_pseudonym_size random"

definition sender_id_from :: "pseudonym \<Rightarrow> surb_id \<Rightarrow> sender_id" where
  "sender_id_from pseudonym sid = pseudonym @ sid"

definition sender_id_pseudonym :: "sender_id \<Rightarrow> pseudonym" where
  "sender_id_pseudonym s = take simple_pseudonym_size s"

definition sender_id_surb_id :: "sender_id \<Rightarrow> surb_id" where
  "sender_id_surb_id s = take surb_id_size (drop simple_pseudonym_size s)"

definition sender_id_try_from :: "bytes \<Rightarrow> (general_error, sender_id) result" where
  "sender_id_try_from value = fixed_bytes sender_id_size ''HoprPacketReceiverData.size'' value"

text \<open>\<open>sender_id_sequence hash_create s n\<close> is the \<open>n\<close>-th element of \<open>into_sequence\<close>.\<close>

fun sender_id_sequence :: "(bytes list \<Rightarrow> hash) \<Rightarrow> sender_id \<Rightarrow> nat \<Rightarrow> sender_id" where
  "sender_id_sequence hash_create s 0 = s"
| "sender_id_sequence hash_create s (Suc n) =
     (let prev = sender_id_sequence hash_create s n;
          h = hash_create [u32_to_be (of_nat (Suc n)), prev]
      in sender_id_from (sender_id_pseudonym prev) (take surb_id_size h))"

section \<open>Messages with reply blocks\<close>

definition packet_message_header_len :: nat where
  "packet_message_header_len = 1"

definition packet_message_from_parts ::
  "('g, 's, 'kp) suite \<Rightarrow> header_spec \<Rightarrow> nat \<Rightarrow> surb list \<Rightarrow> bytes \<Rightarrow> (sphinx_error, bytes) result" where
  "packet_message_from_parts su hs P surbs payload =
     (if length surbs > 255 then Err (SphinxGeneralError (ParseErr ''HoprPacketMessage.num_surbs not valid''))
      else if packet_message_header_len + length surbs * surb_size su hs + length payload > P
      then Err (SphinxGeneralError (ParseErr ''HoprPacketMessage.size not valid''))
      else padded_new_from_vec P ([of_nat (length surbs)] @ concat (map surb_encode surbs) @ payload))"

definition packet_message_into_parts ::
  "('g, 's, 'kp) suite \<Rightarrow> header_spec \<Rightarrow> bytes \<Rightarrow> (sphinx_error, surb list \<times> bytes) result" where
  "packet_message_into_parts su hs padded =
     and_then (into_unpadded padded) (\<lambda>data.
     and_then (map_res unat (index_res data 0)) (\<lambda>num_surbs.
       if num_surbs > 0 then
         let surb_end = num_surbs * surb_size su hs in
         if surb_end \<ge> length data then Err (SphinxGeneralError (ParseErr ''HoprPacketMessage.num_surbs not valid''))
         else
           let surb_data = drop 1 (take (surb_end + 1) data) in
           and_then (map_fail SphinxGeneralError
               (collect_res (map (surb_decode su hs) (chunks_exact (surb_size su hs) surb_data)))) (\<lambda>surbs.
             Ok (surbs, drop (surb_end + 1) data))
       else Ok ([], drop 1 data)))"

section \<open>Packets\<close>

record ('g, 's, 'kp, 'p, 'sk, 'vrf, 'rnd) packet_env =
  pe_suite :: "('g, 's, 'kp) suite"
  pe_curve :: "'p curve"
  pe_crypto :: "('sk, 'vrf, 'rnd) crypto"

text \<open>
  The random values of one packet: per path (the forward path is number 0, the return paths follow) the scalar of the
  shared keys, the secrets of Proof of Relay past the last node and the header padding; the random part of the sender's
  identifier, and the keys of the reply blocks.
\<close>

record 's packet_random =
  pr_scalar :: "nat \<Rightarrow> 's"
  pr_secrets :: "nat \<Rightarrow> nat \<Rightarrow> shared_secret"
  pr_padding :: "nat \<Rightarrow> stream"
  pr_sender_id :: bytes
  pr_sender_key :: "nat \<Rightarrow> bytes"

record partial_hopr_packet =
  php_partial_packet :: partial_packet
  php_surbs :: "surb list"
  php_openers :: "(surb_id \<times> reply_opener) list"
  php_ticket :: ticket
  php_next_hop :: bytes
  php_ack_challenge :: half_key_challenge

record hopr_incoming_packet =
  hi_packet_tag :: bytes
  hi_ack_key :: "half_key option"
  hi_previous_hop :: bytes
  hi_plain_text :: bytes
  hi_sender :: pseudonym
  hi_surbs :: "(surb_id \<times> surb) list"

record hopr_outgoing_packet =
  ho_packet :: bytes
  ho_ticket :: ticket
  ho_next_hop :: bytes
  ho_ack_challenge :: half_key_challenge

record hopr_forwarded_packet =
  hf_outgoing :: hopr_outgoing_packet
  hf_packet_tag :: bytes
  hf_ack_key :: half_key
  hf_previous_hop :: bytes
  hf_own_key :: half_key
  hf_next_challenge :: eth_challenge
  hf_path_pos :: u8

datatype hopr_packet =
    FinalPacket hopr_incoming_packet
  | ForwardedPacket hopr_forwarded_packet
  | OutgoingPacket hopr_outgoing_packet

datatype packet_routing =
    ForwardPath "bytes list" "bytes list list"
  | ViaSurb surb_id surb
  | NoAckTo bytes

definition create_surb_for_path ::
  "('g, 's, 'kp, 'p, 'sk, 'vrf, 'rnd) packet_env \<Rightarrow> 's packet_random \<Rightarrow> nat \<Rightarrow> bytes list \<Rightarrow> sender_id \<Rightarrow> key_mapper
     \<Rightarrow> (packet_error, surb \<times> surb_id \<times> reply_opener) result" where
  "create_surb_for_path pe rnd k return_path recv_data mapper =
     and_then (map_fail CryptographicError (new_shared_keys (pe_suite pe) (pr_scalar rnd k) return_path)) (\<lambda>shared_keys.
     and_then (generate_proof_of_relay (pe_curve pe) (pr_secrets rnd k) (sk_secrets shared_keys)) (\<lambda>(por_strings, por_values).
     and_then (collect_res (map (\<lambda>key. ok_or (PacketConstructionError ''failed to map key to id'') (km_key_to_id mapper key))
         return_path)) (\<lambda>ids.
     and_then (map_fail CryptographicError (create_surb (pe_suite pe) hopr_header_spec (pr_padding rnd k) (pr_sender_key rnd k)
         shared_keys ids por_strings recv_data (surb_info_new por_values (replicate 32 0)))) (\<lambda>(s, r).
       Ok (s, sender_id_surb_id recv_data, r)))))"

definition partial_hopr_packet_new ::
  "('g, 's, 'kp, 'p, 'sk, 'vrf, 'rnd) packet_env \<Rightarrow> 's packet_random \<Rightarrow> pseudonym \<Rightarrow> packet_routing \<Rightarrow> 'sk \<Rightarrow> ticket_builder
     \<Rightarrow> key_mapper \<Rightarrow> hash \<Rightarrow> (packet_error, partial_hopr_packet) result" where
  "partial_hopr_packet_new pe rnd pseudonym routing chain_keypair ticket mapper domain_separator =
     (let build = (\<lambda>challenge. map_res vt_leak (map_fail PacketCoreTypesError
            (tb_build_signed (pe_crypto pe) (tb_set_challenge challenge ticket) chain_keypair domain_separator))) in
      case routing of
        ForwardPath forward_path return_paths \<Rightarrow>
          and_then (map_fail CryptographicError (new_shared_keys (pe_suite pe) (pr_scalar rnd 0) forward_path)) (\<lambda>shared_keys.
          and_then (generate_proof_of_relay (pe_curve pe) (pr_secrets rnd 0) (sk_secrets shared_keys)) (\<lambda>(por_strings, por_values).
            let receiver_data = sender_id_new (pr_sender_id rnd) pseudonym in
            and_then (collect_res (map (\<lambda>(i, rp). create_surb_for_path pe rnd (Suc i) rp
                (sender_id_sequence (cr_keccak (pe_crypto pe)) receiver_data i) mapper) (enumerate 0 return_paths))) (\<lambda>pairs.
            and_then (build (pov_ticket_challenge por_values)) (\<lambda>ticket.
            and_then (map_fail SphinxError (partial_packet_new (pe_suite pe) hopr_header_spec (pr_padding rnd 0)
                (ForwardPathRouting shared_keys forward_path por_strings receiver_data False) mapper)) (\<lambda>partial_packet.
            and_then (index_res forward_path 0) (\<lambda>next_hop.
              Ok \<lparr>php_partial_packet = partial_packet, php_surbs = map fst pairs, php_openers = map snd pairs,
                  php_ticket = ticket, php_next_hop = next_hop,
                  php_ack_challenge = pov_acknowledgement_challenge por_values\<rparr>))))))
      | ViaSurb sid surb \<Rightarrow>
          and_then (surb_info_por_values (sb_additional_data_receiver surb)) (\<lambda>por_values.
          and_then (build (pov_ticket_challenge por_values)) (\<lambda>ticket.
          and_then (ok_or (PacketConstructionError ''failed to map key id to public key'')
              (km_id_to_public mapper (sb_first_relayer surb))) (\<lambda>next_hop.
          and_then (map_fail SphinxError (partial_packet_new (pe_suite pe) hopr_header_spec (pr_padding rnd 0)
              (SurbRouting surb (sender_id_from pseudonym sid)) mapper)) (\<lambda>partial_packet.
            Ok \<lparr>php_partial_packet = partial_packet, php_surbs = [], php_openers = [], php_ticket = ticket,
                php_next_hop = next_hop, php_ack_challenge = pov_acknowledgement_challenge por_values\<rparr>))))
      | NoAckTo destination \<Rightarrow>
          and_then (map_fail CryptographicError (new_shared_keys (pe_suite pe) (pr_scalar rnd 0) [destination])) (\<lambda>shared_keys.
          and_then (generate_proof_of_relay (pe_curve pe) (pr_secrets rnd 0) (sk_secrets shared_keys)) (\<lambda>(por_strings, por_values).
          and_then (build (pov_ticket_challenge por_values)) (\<lambda>ticket.
          and_then (map_fail SphinxError (partial_packet_new (pe_suite pe) hopr_header_spec (pr_padding rnd 0)
              (ForwardPathRouting shared_keys [destination] por_strings (sender_id_new (pr_sender_id rnd) pseudonym) True) mapper))
              (\<lambda>partial_packet.
            Ok \<lparr>php_partial_packet = partial_packet, php_surbs = [], php_openers = [], php_ticket = ticket,
                php_next_hop = destination, php_ack_challenge = pov_acknowledgement_challenge por_values\<rparr>)))))"

definition into_hopr_packet ::
  "('g, 's, 'kp, 'p, 'sk, 'vrf, 'rnd) packet_env \<Rightarrow> partial_hopr_packet \<Rightarrow> bytes
     \<Rightarrow> (packet_error, hopr_packet \<times> (surb_id \<times> reply_opener) list) result" where
  "into_hopr_packet pe php msg =
     and_then (map_fail SphinxError (packet_message_from_parts (pe_suite pe) hopr_header_spec payload_size_int (php_surbs php) msg)) (\<lambda>msg.
       Ok (OutgoingPacket
            \<lparr>ho_packet = into_meta_packet (pe_suite pe) payload_size_int (php_partial_packet php) msg,
             ho_ticket = php_ticket php, ho_next_hop = php_next_hop php, ho_ack_challenge = php_ack_challenge php\<rparr>,
           php_openers php))"

definition into_outgoing ::
  "('g, 's, 'kp, 'p, 'sk, 'vrf, 'rnd) packet_env \<Rightarrow> 's packet_random \<Rightarrow> bytes \<Rightarrow> pseudonym \<Rightarrow> packet_routing \<Rightarrow> 'sk \<Rightarrow> ticket_builder
     \<Rightarrow> key_mapper \<Rightarrow> hash \<Rightarrow> (packet_error, hopr_packet \<times> (surb_id \<times> reply_opener) list) result" where
  "into_outgoing pe rnd msg pseudonym routing chain_keypair ticket mapper domain_separator =
     and_then (partial_hopr_packet_new pe rnd pseudonym routing chain_keypair ticket mapper domain_separator) (\<lambda>php.
       into_hopr_packet pe php msg)"

definition hopr_meta_packet_len :: nat where
  "hopr_meta_packet_len = offchain_public_key_size + routing_info_size hopr_header_spec + padded_size payload_size_int"

definition hopr_packet_size :: nat where
  "hopr_packet_size = hopr_meta_packet_len + ticket_size"

definition hopr_payload_size :: nat where
  "hopr_payload_size = payload_size_int - packet_message_header_len"

definition max_surbs_with_message :: "('g, 's, 'kp) suite \<Rightarrow> nat \<Rightarrow> nat" where
  "max_surbs_with_message su msg_len = (hopr_payload_size - msg_len) div surb_size su hopr_header_spec"

definition max_message_with_surbs :: "('g, 's, 'kp) suite \<Rightarrow> nat \<Rightarrow> nat" where
  "max_message_with_surbs su num_surbs = hopr_payload_size - num_surbs * surb_size su hopr_header_spec"

definition from_incoming ::
  "('g, 's, 'kp, 'p, 'sk, 'vrf, 'rnd) packet_env \<Rightarrow> bytes \<Rightarrow> 'kp \<Rightarrow> bytes \<Rightarrow> key_mapper
     \<Rightarrow> (sender_id \<Rightarrow> 'st \<Rightarrow> reply_opener option \<times> 'st) \<Rightarrow> 'st \<Rightarrow> 'st \<times> (packet_error, hopr_packet) result" where
  "from_incoming pe data node_keypair previous_hop mapper reply_openers st =
     (if length data = hopr_packet_size then
        let pre_packet = take hopr_meta_packet_len data; pre_ticket = drop hopr_meta_packet_len data in
        case map_fail OtherPacketError (meta_packet_try_from (pe_suite pe) hopr_header_spec payload_size_int pre_packet) of
          Inl e \<Rightarrow> (st, Inl e)
        | Inr mp \<Rightarrow>
            (let (st, fwd) = into_forwarded (pe_suite pe) hopr_header_spec payload_size_int node_keypair mapper reply_openers mp st in
             (st,
              and_then (map_fail SphinxError fwd) (\<lambda>fwd. case fwd of
                  MetaRelayed packet next_node path_pos additional_info derived_secret packet_tag \<Rightarrow>
                    (let ack_key = derive_ack_key_share (pe_curve pe) derived_secret in
                     and_then (map_fail OtherPacketError (ticket_decode pre_ticket)) (\<lambda>ticket.
                     and_then (pre_verify (pe_curve pe) derived_secret additional_info (tk_challenge ticket)) (\<lambda>out.
                       Ok (ForwardedPacket
                         \<lparr>hf_outgoing = \<lparr>ho_packet = packet, ho_ticket = ticket, ho_next_hop = next_node,
                            ho_ack_challenge = po_ack_challenge out\<rparr>,
                          hf_packet_tag = packet_tag, hf_ack_key = ack_key, hf_previous_hop = previous_hop,
                          hf_own_key = po_own_key out, hf_next_challenge = po_next_ticket_challenge out, hf_path_pos = path_pos\<rparr>))))
                | MetaFinal plain_text receiver_data derived_secret packet_tag no_ack \<Rightarrow>
                    and_then (map_fail SphinxError (packet_message_into_parts (pe_suite pe) hopr_header_spec plain_text)) (\<lambda>(surbs, plain_text).
                      Ok (FinalPacket
                        \<lparr>hi_packet_tag = packet_tag,
                         hi_ack_key = (if \<not> no_ack then Some (derive_ack_key_share (pe_curve pe) derived_secret) else None),
                         hi_previous_hop = previous_hop, hi_plain_text = plain_text,
                         hi_sender = sender_id_pseudonym receiver_data,
                         hi_surbs = map (\<lambda>(i, s). (sender_id_surb_id (sender_id_sequence (cr_keccak (pe_crypto pe)) receiver_data i), s))
                           (enumerate 0 surbs)\<rparr>)))))
      else (st, Err (PacketDecodingError ''packet has invalid size'')))"

section \<open>Messages\<close>

lemma and_then_Panicked_iff: "and_then m k = Panicked \<longleftrightarrow> m = Panicked \<or> (\<exists>x. m = Ok x \<and> k x = Panicked)"
  by (cases m) auto

lemma surb_size_pos: "0 < surb_size su hs"
  by (simp add: surb_size_def secret_key16_size_def)

lemma length_surb_encode: "surb_valid su hs s \<Longrightarrow> length (surb_encode s) = surb_size su hs"
  by (simp add: surb_valid_def surb_encode_def surb_size_def)

lemma length_concat_surbs:
  "\<forall>s \<in> set surbs. surb_valid su hs s \<Longrightarrow> length (concat (map surb_encode surbs)) = length surbs * surb_size su hs"
  by (induction surbs) (auto simp: length_surb_encode)

lemma packet_message_parts:
  assumes valid: "\<forall>s \<in> set surbs. surb_valid su hs s" and n: "length surbs \<le> 255"
    and p: "into_unpadded p = Ok (of_nat (length surbs) # concat (map surb_encode surbs) @ payload)"
  shows "packet_message_into_parts su hs p = Ok (surbs, payload)"
proof -
  let ?S = "surb_size su hs" and ?c = "concat (map surb_encode surbs)"
  have len: "length ?c = length surbs * ?S" by (rule length_concat_surbs [OF valid])
  have un: "unat (of_nat (length surbs) :: byte) = length surbs" using n by (simp add: unat_of_nat)
  have ch: "chunks_exact ?S (concat (map surb_encode surbs) @ []) = map surb_encode surbs"
    using valid length_surb_encode by (intro chunks_exact_concat [OF surb_size_pos]) (auto simp: surb_size_pos)
  have dec: "collect_res (map (surb_decode su hs) (map surb_encode surbs)) = Ok surbs"
    using collect_res_Ok [of surbs "\<lambda>s. surb_decode su hs (surb_encode s)" "\<lambda>s. s"] valid surb_exact.dec_enc
    by (auto simp: o_def)
  show ?thesis
  proof (cases "surbs = []")
    case True
    then show ?thesis using p by (simp add: packet_message_into_parts_def index_res_def)
  next
    case False
    then show ?thesis using p len un ch dec
      by (simp add: packet_message_into_parts_def index_res_def Let_def)
  qed
qed

text \<open>C31: a message with reply blocks that fits into a packet is padded to the payload size, and the receiver takes it
apart into the same reply blocks and the same data, whatever bytes these contain; a message that does not fit is an
error.\<close>
theorem packet_message_roundtrip:
  assumes "\<forall>s \<in> set surbs. surb_valid su hs s"
  shows "if length surbs \<le> 255 \<and> packet_message_header_len + length surbs * surb_size su hs + length payload \<le> P
    then \<exists>p. packet_message_from_parts su hs P surbs payload = Ok p \<and> length p = padded_size P
      \<and> packet_message_into_parts su hs p = Ok (surbs, payload)
    else \<exists>e. packet_message_from_parts su hs P surbs payload = Err e"
proof (cases "length surbs \<le> 255 \<and> packet_message_header_len + length surbs * surb_size su hs + length payload \<le> P")
  case True
  let ?m = "[of_nat (length surbs)] @ concat (map surb_encode surbs) @ payload"
  have "length ?m \<le> P" using True by (simp add: length_concat_surbs [OF assms] packet_message_header_len_def)
  then obtain p where p: "padded_new P ?m = Ok p" using padded_new_eq by blast
  then have "packet_message_from_parts su hs P surbs payload = Ok p"
    using True by (simp add: packet_message_from_parts_def padded_new_from_vec_eq)
  moreover have "packet_message_into_parts su hs p = Ok (surbs, payload)"
    by (rule packet_message_parts [OF assms]) (use True into_unpadded_new(1) [OF p] in simp_all)
  ultimately show ?thesis using True into_unpadded_new(2) [OF p] by simp
qed (auto simp: packet_message_from_parts_def)

text \<open>C32: taking a received message apart panics exactly when the padding tag is the last byte of the payload: the
number of reply blocks is read from an empty message. Everything else that a sender can put into the payload gives the
parts or an error.\<close>
theorem packet_message_panics_iff:
  "packet_message_into_parts su hs p = Panicked \<longleftrightarrow> (\<exists>zeros. p = zeros @ [padding_tag] \<and> padding_tag \<notin> set zeros)"
proof -
  have dec: "surb_decode su hs c \<noteq> Panicked" if "length c = surb_size su hs" for c
    using that by (simp add: surb_decode_def surb_size_def slice_range_def routing_info_try_from_def Let_def)
  have coll: "collect_res (map (surb_decode su hs) cs) \<noteq> Panicked" if "\<forall>c \<in> set cs. length c = surb_size su hs" for cs
    using that
  proof (induction cs)
    case (Cons c cs)
    then show ?case using dec [of c]
      by (cases "surb_decode su hs c"; cases "collect_res (map (surb_decode su hs) cs)") auto
  qed simp
  have ne: "packet_message_into_parts su hs p \<noteq> Panicked" if "into_unpadded p = Ok (b # d)" for b d
  proof -
    have "collect_res (map (surb_decode su hs) (chunks_exact (surb_size su hs) c)) \<noteq> Panicked" for c
      by (rule coll) (simp add: chunks_exact_lengths)
    then show ?thesis using that
      by (simp add: packet_message_into_parts_def index_res_def Let_def and_then_Panicked_iff map_fail_Panic_iff)
  qed
  have panics: "packet_message_into_parts su hs p = Panicked \<longleftrightarrow> into_unpadded p = Ok []"
  proof (cases "into_unpadded p")
    case (Inr data)
    then show ?thesis using ne by (cases data) (auto simp: packet_message_into_parts_def index_res_def)
  qed (auto simp: packet_message_into_parts_def into_unpadded_def split: list.splits)
  have "dropWhile (\<lambda>x. x \<noteq> padding_tag) p = [padding_tag] \<longleftrightarrow> (\<exists>zeros. p = zeros @ [padding_tag] \<and> padding_tag \<notin> set zeros)"
  proof
    assume d: "dropWhile (\<lambda>x. x \<noteq> padding_tag) p = [padding_tag]"
    then have "p = takeWhile (\<lambda>x. x \<noteq> padding_tag) p @ [padding_tag]" by (metis takeWhile_dropWhile_id)
    moreover have "padding_tag \<notin> set (takeWhile (\<lambda>x. x \<noteq> padding_tag) p)" by (auto dest: set_takeWhileD)
    ultimately show "\<exists>zeros. p = zeros @ [padding_tag] \<and> padding_tag \<notin> set zeros" by blast
  next
    assume "\<exists>zeros. p = zeros @ [padding_tag] \<and> padding_tag \<notin> set zeros"
    then show "dropWhile (\<lambda>x. x \<noteq> padding_tag) p = [padding_tag]" by (auto simp: dropWhile_append)
  qed
  moreover have "into_unpadded p = Ok [] \<longleftrightarrow> dropWhile (\<lambda>x. x \<noteq> padding_tag) p = [padding_tag]"
  proof (cases "dropWhile (\<lambda>x. x \<noteq> padding_tag) p")
    case (Cons y ys)
    then have "y = padding_tag" using hd_dropWhile [of "\<lambda>x. x \<noteq> padding_tag" p] by (cases p) (auto split: if_splits)
    then show ?thesis by (simp add: into_unpadded_def Cons)
  next
    case Nil
    show ?thesis unfolding into_unpadded_def Nil by simp
  qed
  ultimately show ?thesis using panics by simp
qed

section \<open>What the generation of Proof of Relay guarantees\<close>

lemma por_round_inv:
  assumes cv: "curve_ok cv"
    and r: "por_response cv (derive_own_key_share cv s) (derive_ack_key_share cv s') = Ok r"
    and ch: "por_response_to_eth cv r = Ok ch"
  shows "nonzero_scalar (cv_order cv) (derive_own_key_share cv s) \<noteq> None"
    and "nonzero_scalar (cv_order cv) (derive_ack_key_share cv s') \<noteq> None"
    and "pair_scalar cv s s' \<noteq> 0" "ch = pair_challenge cv s s'"
proof -
  obtain a b where ab: "nonzero_scalar (cv_order cv) (derive_own_key_share cv s) = Some a"
    "nonzero_scalar (cv_order cv) (derive_ack_key_share cv s') = Some b" "r = be_encode 32 ((a + b) mod cv_order cv)"
    using r by (auto simp: por_response_def split: option.splits)
  then show "nonzero_scalar (cv_order cv) (derive_own_key_share cv s) \<noteq> None"
    "nonzero_scalar (cv_order cv) (derive_ack_key_share cv s') \<noteq> None" by simp_all
  have p: "(a + b) mod cv_order cv = pair_scalar cv s s'"
    using ab by (auto simp: pair_scalar_def own_scalar_def ack_scalar_def nonzero_scalar_def split: if_splits)
  have lt: "pair_scalar cv s s' < 256 ^ 32" "pair_scalar cv s s' < cv_order cv"
    using cv mod_less_divisor [of "cv_order cv" "a + b"] by (auto simp: curve_ok_def p)
  then have d: "be_decode r = pair_scalar cv s s'" by (simp add: ab(3) p be_decode_encode)
  from ch show "pair_scalar cv s s' \<noteq> 0" "ch = pair_challenge cv s s'"
    by (auto simp: por_response_to_eth_def nonzero_scalar_def d pair_challenge_def split: option.splits if_splits)
qed

lemma half_key_to_challenge_inv:
  "half_key_to_challenge cv (derive_ack_key_share cv s) = Ok c \<Longrightarrow>
    c = ack_challenge cv s \<and> nonzero_scalar (cv_order cv) (derive_ack_key_share cv s) \<noteq> None"
  by (auto simp: half_key_to_challenge_def ack_challenge_def ack_scalar_def nonzero_scalar_def split: option.splits if_splits)

definition por_pair_ok :: "'p curve \<Rightarrow> shared_secret \<Rightarrow> shared_secret \<Rightarrow> bool" where
  "por_pair_ok cv s s' \<longleftrightarrow> nonzero_scalar (cv_order cv) (derive_own_key_share cv s) \<noteq> None
     \<and> nonzero_scalar (cv_order cv) (derive_ack_key_share cv s) \<noteq> None
     \<and> nonzero_scalar (cv_order cv) (derive_ack_key_share cv s') \<noteq> None \<and> pair_scalar cv s s' \<noteq> 0"

lemma por_step_inv:
  assumes cv: "curve_ok cv"
    and step: "por_loop cv random n i prev (s # rest) (strs, v) = Ok res"
    and prev: "(case prev of Some k \<Rightarrow> k | None \<Rightarrow> derive_ack_key_share cv s) = derive_ack_key_share cv s"
    and s': "s' = (case rest of t # _ \<Rightarrow> t | [] \<Rightarrow> random i)"
  shows "por_pair_ok cv s s'"
    and "por_loop cv random n (i + 1) (Some (derive_ack_key_share cv s')) rest
      (if i > 0 then (strs @ [pors_new (pair_challenge cv s s') (ack_challenge cv s)], v)
       else (strs, Some (pov_new (of_nat n) (ack_challenge cv s) (pair_challenge cv s s')))) = Ok res"
proof -
  from step obtain hint r ch where h: "half_key_to_challenge cv (derive_ack_key_share cv s) = (Ok hint :: (packet_error, _) result)"
    and r: "por_response cv (derive_own_key_share cv s) (derive_ack_key_share cv s') = Ok r"
    and ch: "por_response_to_eth cv r = (Ok ch :: (packet_error, _) result)"
    and l: "por_loop cv random n (i + 1) (Some (derive_ack_key_share cv s')) rest
      (if i > 0 then (strs @ [pors_new ch hint], v) else (strs, Some (pov_new (of_nat n) hint ch))) = Ok res"
    unfolding por_loop.simps prev Let_def s' [symmetric] by (auto simp: and_then_Inr_iff)
  note hh = half_key_to_challenge_inv [OF h] and rr = por_round_inv [OF cv r ch]
  show "por_pair_ok cv s s'" using hh rr by (simp add: por_pair_ok_def)
  show "por_loop cv random n (i + 1) (Some (derive_ack_key_share cv s')) rest
      (if i > 0 then (strs @ [pors_new (pair_challenge cv s s') (ack_challenge cv s)], v)
       else (strs, Some (pov_new (of_nat n) (ack_challenge cv s) (pair_challenge cv s s')))) = Ok res"
    using l unfolding conjunct1 [OF hh] rr(4) .
qed

lemma por_loop_inv:
  assumes cv: "curve_ok cv"
  shows "secrets = pre @ rest \<Longrightarrow> pre \<noteq> [] \<Longrightarrow>
    prev = Some (derive_ack_key_share cv (next_secret random secrets (length pre - 1))) \<Longrightarrow>
    por_loop cv random n (length pre) prev rest (strs, v) = Ok (strs', v') \<Longrightarrow>
    strs' = strs @ map (por_string_at cv random secrets) [length pre..<length secrets] \<and> v' = v
    \<and> (\<forall>j. length pre \<le> j \<longrightarrow> j < length secrets \<longrightarrow> por_pair_ok cv (secrets ! j) (next_secret random secrets j))"
proof (induction rest arbitrary: pre prev strs)
  case (Cons s rest)
  let ?i = "length pre"
  have i: "?i < length secrets" "secrets ! ?i = s" "?i > 0" using Cons.prems(1,2) by auto
  define s' where "s' = next_secret random secrets ?i"
  have nx: "s' = (case rest of t # _ \<Rightarrow> t | [] \<Rightarrow> random ?i)"
    using Cons.prems(1) by (auto simp: next_secret_def nth_append s'_def split: list.splits)
  have "next_secret random secrets (?i - 1) = s"
    using Cons.prems(1,2) by (auto simp: next_secret_def)
  then have lst: "(case prev of Some k \<Rightarrow> k | None \<Rightarrow> derive_ack_key_share cv s) = derive_ack_key_share cv s"
    using Cons.prems(3) by simp
  note step = por_step_inv [OF cv Cons.prems(4) lst nx]
  have "por_loop cv random n (length (pre @ [s])) (Some (derive_ack_key_share cv (next_secret random secrets (length (pre @ [s]) - 1)))) rest
      (strs @ [por_string_at cv random secrets ?i], v) = Ok (strs', v')"
    using step(2) i by (simp add: por_string_at_def s'_def)
  from Cons.IH [OF _ _ refl this] Cons.prems(1)
  have IH: "strs' = (strs @ [por_string_at cv random secrets ?i]) @ map (por_string_at cv random secrets) [length (pre @ [s])..<length secrets]"
    "v' = v" "\<forall>j. length (pre @ [s]) \<le> j \<longrightarrow> j < length secrets \<longrightarrow> por_pair_ok cv (secrets ! j) (next_secret random secrets j)"
    by auto
  have "por_pair_ok cv (secrets ! j) (next_secret random secrets j)" if "?i \<le> j" "j < length secrets" for j
    using IH(3) step(1) i that by (cases "j = ?i") (auto simp: s'_def)
  moreover have "[?i..<length secrets] = ?i # [length (pre @ [s])..<length secrets]" using i by (simp add: upt_conv_Cons)
  ultimately show ?case using IH(1,2) by simp
qed simp

lemma generate_por_inv:
  assumes cv: "curve_ok cv" and gen: "generate_proof_of_relay cv random secrets = Ok (strings, vals)"
  shows "secrets \<noteq> []" and "strings = map (por_string_at cv random secrets) [1..<length secrets]"
    and "vals = pov_new (of_nat (length secrets)) (ack_challenge cv (secrets ! 0)) (pair_challenge cv (secrets ! 0) (next_secret random secrets 0))"
    and "\<And>j. j < length secrets \<Longrightarrow> por_pair_ok cv (secrets ! j) (next_secret random secrets j)"
proof -
  have loop: "por_loop cv random (length secrets) 0 None secrets ([], None) = Ok (strings, Some vals)"
    using gen by (auto simp: generate_proof_of_relay_def and_then_Inr_iff ok_or_Inr_iff)
  then obtain s rest where s: "secrets = s # rest" by (cases secrets) auto
  then show "secrets \<noteq> []" by simp
  have nx: "next_secret random secrets 0 = (case rest of t # _ \<Rightarrow> t | [] \<Rightarrow> random 0)"
    by (auto simp: next_secret_def s split: list.splits)
  note step = por_step_inv [OF cv loop [unfolded s] _ nx]
  define w where "w = Some (pov_new (of_nat (length secrets)) (ack_challenge cv s) (pair_challenge cv s (next_secret random secrets 0)))"
  have l1: "por_loop cv random (length secrets) (length [s]) (Some (derive_ack_key_share cv (next_secret random secrets (length [s] - 1)))) rest
      ([], w) = Ok (strings, Some vals)"
    using step(2) by (simp add: s w_def)
  note l = por_loop_inv [OF cv _ _ refl l1]
  show "strings = map (por_string_at cv random secrets) [1..<length secrets]"
    "vals = pov_new (of_nat (length secrets)) (ack_challenge cv (secrets ! 0)) (pair_challenge cv (secrets ! 0) (next_secret random secrets 0))"
    using l by (auto simp: s w_def)
  show "por_pair_ok cv (secrets ! j) (next_secret random secrets j)" if "j < length secrets" for j
    using l step(1) that by (cases j) (auto simp: s)
qed

section \<open>Packets travel along their path\<close>

text \<open>
  What the packets rely on: the key exchange, tags of the size of the header's, alpha values of the size of a public key,
  the group laws of the curve, and that tickets are checked on the same curve.
\<close>

definition packet_env_ok :: "('g, 's, 'kp, 'p, 'sk, 'vrf, 'rnd) packet_env \<Rightarrow> bool" where
  "packet_env_ok pe \<longleftrightarrow> suite_ok (pe_suite pe) \<and> mac_ok (pe_suite pe) hopr_header_spec
     \<and> gr_alpha_len (su_group (pe_suite pe)) = offchain_public_key_size \<and> curve_ok (pe_curve pe)
     \<and> cr_order (pe_crypto pe) = cv_order (pe_curve pe)
     \<and> (\<forall>s. cr_point_address (pe_crypto pe) s = cv_eth (pe_curve pe) (cv_base_mul (pe_curve pe) s))
     \<and> (\<forall>xs. length (cr_keccak (pe_crypto pe) xs) = hash_size)"

lemma hopr_header_spec_ok: "header_spec_ok hopr_header_spec"
  by (simp add: header_spec_ok_def hopr_header_spec_def intermediate_hops_def sender_id_size_def simple_pseudonym_size_def
      surb_id_size_def routing_info_len_def header_prefix_size_def)

lemma hopr_sizes:
  "hs_max_hops hopr_header_spec = 4" "hs_relayer_data_size hopr_header_spec = por_string_size"
  "hs_receiver_data_size hopr_header_spec = sender_id_size" "hs_surb_receiver_data_size hopr_header_spec = surb_receiver_info_size"
  by (simp_all add: hopr_header_spec_def intermediate_hops_def)

text \<open>
  A route of key pairs: the relays in order and the destination, each known to the mapper. For its shared secrets, node
  \<open>i\<close> has the challenge of its ticket, its own key and the key it acknowledges with.
\<close>

definition hopr_route :: "('g, 's, 'kp, 'p, 'sk, 'vrf, 'rnd) packet_env \<Rightarrow> key_mapper \<Rightarrow> 'kp list \<Rightarrow> bytes list \<Rightarrow> bool" where
  "hopr_route pe mapper kps ids \<longleftrightarrow> kps \<noteq> [] \<and> length kps \<le> intermediate_hops + 1
     \<and> mapper_knows (pe_suite pe) hopr_header_spec mapper kps ids"

definition hop_challenge :: "('g, 's, 'kp, 'p, 'sk, 'vrf, 'rnd) packet_env \<Rightarrow> (nat \<Rightarrow> shared_secret) \<Rightarrow> bytes list \<Rightarrow> nat \<Rightarrow> eth_challenge" where
  "hop_challenge pe random secrets i = pair_challenge (pe_curve pe) (secrets ! i) (next_secret random secrets i)"

lemma length_por_string: "curve_ok cv \<Longrightarrow> length (por_string_at cv random secrets i) = por_string_size"
  by (simp add: por_string_at_def pors_new_def pair_challenge_def ack_challenge_def curve_ok_def por_string_size_def)

lemma por_secret_ok:
  assumes cv: "curve_ok cv" and ok: "\<And>j. j < length secrets \<Longrightarrow> por_pair_ok cv (secrets ! j) (next_secret random secrets j)"
    and i: "i < length secrets"
  shows "secret_ok cv (secrets ! i)"
  using ok [OF i] by (simp add: por_pair_ok_def secret_ok_def)

lemma relay_pre_verifies:
  assumes cv: "curve_ok (pe_curve pe)"
    and ok: "\<And>j. j < length secrets \<Longrightarrow> por_pair_ok (pe_curve pe) (secrets ! j) (next_secret random secrets j)"
    and i: "i + 1 < length secrets"
  shows "pre_verify (pe_curve pe) (secrets ! i) (map (por_string_at (pe_curve pe) random secrets) [1..<length secrets] ! i)
      (hop_challenge pe random secrets i)
    = Ok \<lparr>po_own_key = derive_own_key_share (pe_curve pe) (secrets ! i),
          po_next_ticket_challenge = hop_challenge pe random secrets (i + 1),
          po_ack_challenge = ack_challenge (pe_curve pe) (secrets ! (i + 1))\<rparr>"
proof -
  let ?cv = "pe_curve pe" and ?str = "map (por_string_at (pe_curve pe) random secrets) [1..<length secrets] ! i"
  have i': "i < length secrets" using i by simp
  have nx: "next_secret random secrets i = secrets ! (i + 1)" using i by (simp add: next_secret_def)
  have str: "?str = por_string_at ?cv random secrets (i + 1)" using i by simp
  have hint: "pors_acknowledgement_challenge_or_hint ?str = ack_challenge ?cv (secrets ! (i + 1))"
    by (simp only: str pors_fields(2) [OF cv])
  have next_ch: "pors_next_ticket_challenge ?str = hop_challenge pe random secrets (i + 1)"
    by (simp only: str pors_fields(1) [OF cv] hop_challenge_def)
  have pair: "pair_scalar ?cv (secrets ! i) (secrets ! (i + 1)) \<noteq> 0" using ok [OF i'] by (simp add: por_pair_ok_def nx)
  show ?thesis
    using pre_verify_pair [OF cv por_secret_ok [OF cv ok i'] por_secret_ok [OF cv ok i] hint] pair
    by (simp only: hop_challenge_def nx if_False if_True next_ch simp_thms)
qed

lemma relay_acknowledged:
  assumes cv: "curve_ok cv" and cr: "cr_order cr = cv_order cv" "\<And>s. cr_point_address cr s = cv_eth cv (cv_base_mul cv s)"
    and ok: "secret_ok cv s" "secret_ok cv s'" "pair_scalar cv s s' \<noteq> 0"
    and ch: "tk_challenge (vt_ticket vt) = pair_challenge cv s s'"
  shows "ut_acknowledge cr (vt_into_unacknowledged vt (derive_own_key_share cv s)) (derive_ack_key_share cv s')
    = Ok (vt_into_acknowledged vt (be_encode 32 (pair_scalar cv s s')))"
proof -
  have rh: "response_from_half_keys cr (derive_own_key_share cv s) (derive_ack_key_share cv s') = Ok (be_encode 32 (pair_scalar cv s s'))"
    by (simp only: response_from_half_keys_def cr(1) secret_ok_scalars(1) [OF ok(1)] secret_ok_scalars(2) [OF ok(2)]
        pair_scalar_def option.case prod.case)
  have "nonzero_scalar (cv_order cv) (be_encode 32 (pair_scalar cv s s')) = Some (pair_scalar cv s s')"
    using cv ok(3) by (subst nonzero_scalar_encode) (auto simp: curve_ok_def pair_scalar_def)
  then show ?thesis using ch rh cr
    by (simp add: ut_acknowledge_def vt_into_unacknowledged_def response_to_challenge_def pair_challenge_def)
qed

lemma from_incoming_relayed:
  assumes len: "length pkt = meta_packet_size (pe_suite pe) hopr_header_spec payload_size_int"
    "gr_alpha_len (su_group (pe_suite pe)) = offchain_public_key_size"
    and t: "ticket_valid t"
    and fwd: "into_forwarded (pe_suite pe) hopr_header_spec payload_size_int kp mapper openers pkt st
      = (st', Ok (MetaRelayed pkt' next_node pos info s tag))"
    and pv: "pre_verify (pe_curve pe) s info (tk_challenge t) = Ok out"
  shows "from_incoming pe (pkt @ ticket_bytes t) kp prev mapper openers st
    = (st', Ok (ForwardedPacket
        \<lparr>hf_outgoing = \<lparr>ho_packet = pkt', ho_ticket = t, ho_next_hop = next_node, ho_ack_challenge = po_ack_challenge out\<rparr>,
         hf_packet_tag = tag, hf_ack_key = derive_ack_key_share (pe_curve pe) s, hf_previous_hop = prev,
         hf_own_key = po_own_key out, hf_next_challenge = po_next_ticket_challenge out, hf_path_pos = pos\<rparr>))"
proof -
  have l: "length pkt = hopr_meta_packet_len" using len by (simp add: hopr_meta_packet_len_def meta_packet_size_def)
  have lt: "length (ticket_bytes t) = ticket_size" using ticket_fixed.enc_size [OF t] by (simp add: ticket_sizes)
  have dec: "ticket_decode (ticket_bytes t) = Ok t" by (rule ticket_exact.dec_enc [OF t])
  show ?thesis
    using l lt len(1) by (simp add: from_incoming_def hopr_packet_size_def meta_packet_try_from_def fwd dec pv Let_def)
qed

lemma from_incoming_final:
  assumes len: "length pkt = meta_packet_size (pe_suite pe) hopr_header_spec payload_size_int"
    "gr_alpha_len (su_group (pe_suite pe)) = offchain_public_key_size" "length tail = ticket_size"
    and fwd: "into_forwarded (pe_suite pe) hopr_header_spec payload_size_int kp mapper openers pkt st
      = (st', Ok (MetaFinal plain recv s tag no_ack))"
    and parts: "packet_message_into_parts (pe_suite pe) hopr_header_spec plain = Ok (surbs, msg)"
  shows "from_incoming pe (pkt @ tail) kp prev mapper openers st
    = (st', Ok (FinalPacket
        \<lparr>hi_packet_tag = tag, hi_ack_key = (if \<not> no_ack then Some (derive_ack_key_share (pe_curve pe) s) else None),
         hi_previous_hop = prev, hi_plain_text = msg, hi_sender = sender_id_pseudonym recv,
         hi_surbs = map (\<lambda>(i, s). (sender_id_surb_id (sender_id_sequence (cr_keccak (pe_crypto pe)) recv i), s)) (enumerate 0 surbs)\<rparr>))"
proof -
  have l: "length pkt = hopr_meta_packet_len" using len by (simp add: hopr_meta_packet_len_def meta_packet_size_def)
  show ?thesis
    using l len(1,3) by (simp add: from_incoming_def hopr_packet_size_def meta_packet_try_from_def fwd parts Let_def)
qed

text \<open>
  Every relay on the way accepts its packet together with a ticket for its challenge: it learns the next hop, its position
  and the challenge of the ticket for the next hop, and the acknowledgement it later gets from the next hop completes the
  response to its own ticket.
\<close>

definition relays_in_turn ::
  "('g, 's, 'kp, 'p, 'sk, 'vrf, 'rnd) packet_env \<Rightarrow> key_mapper \<Rightarrow> (sender_id \<Rightarrow> 'st \<Rightarrow> reply_opener option \<times> 'st) \<Rightarrow> 'kp list
     \<Rightarrow> (nat \<Rightarrow> bytes) \<Rightarrow> (nat \<Rightarrow> eth_challenge) \<Rightarrow> (nat \<Rightarrow> half_key) \<Rightarrow> (nat \<Rightarrow> half_key) \<Rightarrow> bool" where
  "relays_in_turn pe mapper openers kps pkts chal own ack \<longleftrightarrow>
     (\<forall>i. i + 1 < length kps \<longrightarrow>
        (\<forall>t prev st. ticket_valid t \<longrightarrow> tk_challenge t = chal i \<longrightarrow>
          (\<exists>tag ack_ch. half_key_to_challenge (pe_curve pe) (ack (i + 1)) = (Ok ack_ch :: (packet_error, _) result)
            \<and> from_incoming pe (pkts i @ ticket_bytes t) (kps ! i) prev mapper openers st
              = (st, Ok (ForwardedPacket
                  \<lparr>hf_outgoing = \<lparr>ho_packet = pkts (i + 1), ho_ticket = t,
                     ho_next_hop = su_public (pe_suite pe) (kps ! (i + 1)), ho_ack_challenge = ack_ch\<rparr>,
                   hf_packet_tag = tag, hf_ack_key = ack i, hf_previous_hop = prev, hf_own_key = own i,
                   hf_next_challenge = chal (i + 1), hf_path_pos = of_nat (length kps - i - 1)\<rparr>))))
        \<and> (\<forall>vt. tk_challenge (vt_ticket vt) = chal i \<longrightarrow>
             (\<exists>acked. ut_acknowledge (pe_crypto pe) (vt_into_unacknowledged vt (own i)) (ack (i + 1)) = Ok acked \<and> at_ticket acked = vt)))"

lemma chain_of_relays:
  assumes env: "packet_env_ok pe" and len: "length secrets = length kps"
    and along: "relayed_along (pe_suite pe) hopr_header_spec payload_size_int mapper openers kps secrets
      (map (por_string_at (pe_curve pe) random secrets) [1..<length secrets]) pkts"
    and ok: "\<And>j. j < length secrets \<Longrightarrow> por_pair_ok (pe_curve pe) (secrets ! j) (next_secret random secrets j)"
  shows "relays_in_turn pe mapper openers kps pkts (hop_challenge pe random secrets)
    (\<lambda>i. derive_own_key_share (pe_curve pe) (secrets ! i)) (\<lambda>i. derive_ack_key_share (pe_curve pe) (secrets ! i))"
  unfolding relays_in_turn_def
proof (intro allI impI conjI)
  fix i assume i: "i + 1 < length kps"
  let ?cv = "pe_curve pe" and ?s = "secrets ! i" and ?s' = "secrets ! (i + 1)"
  have cv: "curve_ok ?cv" and al: "gr_alpha_len (su_group (pe_suite pe)) = offchain_public_key_size"
    and cr: "cr_order (pe_crypto pe) = cv_order ?cv" "\<And>s. cr_point_address (pe_crypto pe) s = cv_eth ?cv (cv_base_mul ?cv s)"
    using env by (simp_all add: packet_env_ok_def)
  have i': "i < length secrets" "i + 1 < length secrets" "i < length kps" using i len by simp_all
  have nx: "next_secret random secrets i = ?s'" using i' by (simp add: next_secret_def)
  have so: "secret_ok ?cv ?s" "secret_ok ?cv ?s'" "pair_scalar ?cv ?s ?s' \<noteq> 0"
    using por_secret_ok [OF cv ok] i' ok [OF i'(1)] by (auto simp: por_pair_ok_def nx)
  have lp: "length (pkts i) = meta_packet_size (pe_suite pe) hopr_header_spec payload_size_int"
    using along i'(3) by (simp add: relayed_along_def)
  fix t prev st assume t: "ticket_valid t" "tk_challenge t = hop_challenge pe random secrets i"
  have fwd: "into_forwarded (pe_suite pe) hopr_header_spec payload_size_int (kps ! i) mapper openers (pkts i) st
      = (st, Ok (MetaRelayed (pkts (i + 1)) (su_public (pe_suite pe) (kps ! (i + 1))) (of_nat (length kps - i - 1))
          (map (por_string_at ?cv random secrets) [1..<length secrets] ! i) ?s (secret_packet_tag (pe_suite pe) ?s)))"
    using along i unfolding relayed_along_def by blast
  note inc = from_incoming_relayed [OF lp al t(1) fwd relay_pre_verifies [OF cv ok i'(2), folded t(2)], of prev]
  have "half_key_to_challenge ?cv (derive_ack_key_share ?cv ?s') = Ok (ack_challenge ?cv ?s')"
    unfolding half_key_to_challenge_def secret_ok_scalars(2) [OF so(2)] ack_challenge_def by (simp only: option.case)
  then show "\<exists>tag ack_ch. half_key_to_challenge ?cv (derive_ack_key_share ?cv ?s') = Ok ack_ch
      \<and> from_incoming pe (pkts i @ ticket_bytes t) (kps ! i) prev mapper openers st
        = (st, Ok (ForwardedPacket
            \<lparr>hf_outgoing = \<lparr>ho_packet = pkts (i + 1), ho_ticket = t,
               ho_next_hop = su_public (pe_suite pe) (kps ! (i + 1)), ho_ack_challenge = ack_ch\<rparr>,
             hf_packet_tag = tag, hf_ack_key = derive_ack_key_share ?cv ?s, hf_previous_hop = prev,
             hf_own_key = derive_own_key_share ?cv ?s,
             hf_next_challenge = hop_challenge pe random secrets (i + 1), hf_path_pos = of_nat (length kps - i - 1)\<rparr>))"
    using inc by (intro exI conjI) simp_all
next
  fix i and vt :: verified_ticket
  assume i: "i + 1 < length kps" and ch: "tk_challenge (vt_ticket vt) = hop_challenge pe random secrets i"
  let ?cv = "pe_curve pe" and ?s = "secrets ! i" and ?s' = "secrets ! (i + 1)"
  have cv: "curve_ok ?cv"
    and cr: "cr_order (pe_crypto pe) = cv_order ?cv" "\<And>s. cr_point_address (pe_crypto pe) s = cv_eth ?cv (cv_base_mul ?cv s)"
    using env by (simp_all add: packet_env_ok_def)
  have i': "i < length secrets" "i + 1 < length secrets" using i len by simp_all
  have nx: "next_secret random secrets i = ?s'" using i' by (simp add: next_secret_def)
  have so: "secret_ok ?cv ?s" "secret_ok ?cv ?s'" "pair_scalar ?cv ?s ?s' \<noteq> 0"
    using por_secret_ok [OF cv ok] i' ok [OF i'(1)] by (auto simp: por_pair_ok_def nx)
  show "\<exists>acked. ut_acknowledge (pe_crypto pe) (vt_into_unacknowledged vt (derive_own_key_share ?cv ?s)) (derive_ack_key_share ?cv ?s') = Ok acked
      \<and> at_ticket acked = vt"
    using relay_acknowledged [OF cv cr so ch [unfolded hop_challenge_def nx]] by (simp add: vt_into_acknowledged_def)
qed

lemma keys_route_ok:
  assumes env: "packet_env_ok pe" and route: "hopr_route pe mapper kps ids" and recv: "length recv = sender_id_size"
    and keys: "new_shared_keys (pe_suite pe) x (map (su_public (pe_suite pe)) kps) = Ok keys"
    and gen: "generate_proof_of_relay (pe_curve pe) random (sk_secrets keys) = Ok (strings, vals)"
  shows "route_ok (pe_suite pe) hopr_header_spec mapper kps ids strings recv"
    and "length (sk_secrets keys) = length kps"
    and "strings = map (por_string_at (pe_curve pe) random (sk_secrets keys)) [1..<length (sk_secrets keys)]"
proof -
  have cv: "curve_ok (pe_curve pe)" and su: "suite_ok (pe_suite pe)" using env by (simp_all add: packet_env_ok_def)
  note inv = generate_por_inv [OF cv gen]
  show ls: "length (sk_secrets keys) = length kps" by (rule shared_keys_agree [OF su keys])
  show "strings = map (por_string_at (pe_curve pe) random (sk_secrets keys)) [1..<length (sk_secrets keys)]" by (rule inv(2))
  then show "route_ok (pe_suite pe) hopr_header_spec mapper kps ids strings recv"
    using env route recv ls
    by (auto simp: route_ok_def packet_env_ok_def hopr_route_def hopr_header_spec_ok hopr_sizes intermediate_hops_def
        length_por_string [OF cv])
qed

lemma packet_message_from_parts_Ok:
  assumes "\<forall>s \<in> set surbs. surb_valid su hs s" and m: "packet_message_from_parts su hs P surbs payload = Ok p"
  shows "packet_message_into_parts su hs p = Ok (surbs, payload)" "length p = padded_size P"
proof -
  have n: "length surbs \<le> 255" and p: "padded_new P ([of_nat (length surbs)] @ concat (map surb_encode surbs) @ payload) = Ok p"
    using m by (auto simp: packet_message_from_parts_def padded_new_from_vec_eq split: if_splits)
  show "packet_message_into_parts su hs p = Ok (surbs, payload)"
    by (rule packet_message_parts [OF assms(1) n]) (use into_unpadded_new(1) [OF p] in simp)
  show "length p = padded_size P" by (rule into_unpadded_new(2) [OF p])
qed

lemma por_values_parts:
  assumes cv: "curve_ok cv" and v: "vals = pov_new n (ack_challenge cv s) (pair_challenge cv s s')"
  shows "length vals = por_values_size" "pov_ticket_challenge vals = pair_challenge cv s s'"
    "pov_acknowledgement_challenge vals = ack_challenge cv s"
    "surb_info_por_values (surb_info_new vals (replicate 32 0)) = Ok vals"
    "length (surb_info_new vals (replicate 32 0)) = surb_receiver_info_size"
  using cv by (simp_all add: v pov_new_def por_values_size_def pov_ticket_challenge_def pov_acknowledgement_challenge_def
      ack_challenge_def pair_challenge_def curve_ok_def surb_info_por_values_def surb_info_new_def slice_range_def
      pov_try_from_def fixed_bytes_def surb_receiver_info_size_def)

text \<open>The contract of a reply block made for a return path.\<close>

lemma create_surb_for_path_inv:
  assumes env: "packet_env_ok pe" and route: "hopr_route pe mapper kps ids" and recv: "length recv = sender_id_size"
    and sk: "length (pr_sender_key rnd k) = secret_key16_size"
    and create: "create_surb_for_path pe rnd k (map (su_public (pe_suite pe)) kps) recv mapper = Ok (surb, sid, opener)"
  obtains keys strings vals where
    "new_shared_keys (pe_suite pe) (pr_scalar rnd k) (map (su_public (pe_suite pe)) kps) = Ok keys"
    and "generate_proof_of_relay (pe_curve pe) (pr_secrets rnd k) (sk_secrets keys) = Ok (strings, vals)"
    and "create_surb (pe_suite pe) hopr_header_spec (pr_padding rnd k) (pr_sender_key rnd k) keys ids strings recv
      (surb_info_new vals (replicate 32 0)) = Ok (surb, opener)"
    and "surb_valid (pe_suite pe) hopr_header_spec surb" and "sid = sender_id_surb_id recv"
    and "sb_first_relayer surb = hd ids" and "sb_additional_data_receiver surb = surb_info_new vals (replicate 32 0)"
proof -
  have km: "mapper_knows (pe_suite pe) hopr_header_spec mapper kps ids" and cv: "curve_ok (pe_curve pe)"
    using route env by (simp_all add: hopr_route_def packet_env_ok_def)
  obtain keys strings vals where keys: "new_shared_keys (pe_suite pe) (pr_scalar rnd k) (map (su_public (pe_suite pe)) kps) = Ok keys"
    and gen: "generate_proof_of_relay (pe_curve pe) (pr_secrets rnd k) (sk_secrets keys) = Ok (strings, vals)"
    and cs: "create_surb (pe_suite pe) hopr_header_spec (pr_padding rnd k) (pr_sender_key rnd k) keys ids strings recv
      (surb_info_new vals (replicate 32 0)) = Ok (surb, opener)" and sid: "sid = sender_id_surb_id recv"
    using create unfolding create_surb_for_path_def collect_ids [OF km]
    by (auto simp: and_then_Inr_iff map_fail_Inr_iff)
  note rt = keys_route_ok [OF env route recv keys gen]
  note inv = generate_por_inv [OF cv gen]
  have info: "length (surb_info_new vals (replicate 32 0)) = hs_surb_receiver_data_size hopr_header_spec"
    using por_values_parts(5) [OF cv inv(3)] by (simp add: hopr_sizes)
  from reply_packet_travels [OF rt(1) keys sk info, of "pr_padding rnd k" _ "\<lambda>_ s. (None, s)"]
  have "surb_valid (pe_suite pe) hopr_header_spec surb \<and> sb_first_relayer surb = hd ids
      \<and> sb_additional_data_receiver surb = surb_info_new vals (replicate 32 0)"
    using cs by auto
  then show thesis using that keys gen cs sid by blast
qed

lemma length_sender_id_sequence:
  assumes "\<And>xs. length (hash_create xs) = hash_size" and "length s = sender_id_size"
  shows "length (sender_id_sequence hash_create s n) = sender_id_size"
    and "sender_id_pseudonym (sender_id_sequence hash_create s n) = sender_id_pseudonym s"
proof -
  have "length (sender_id_sequence hash_create s n) = sender_id_size
      \<and> sender_id_pseudonym (sender_id_sequence hash_create s n) = sender_id_pseudonym s"
    using assms by (induction n)
      (simp_all add: Let_def sender_id_from_def sender_id_pseudonym_def sender_id_size_def simple_pseudonym_size_def
        surb_id_size_def hash_size_def)
  then show "length (sender_id_sequence hash_create s n) = sender_id_size"
    "sender_id_pseudonym (sender_id_sequence hash_create s n) = sender_id_pseudonym s" by simp_all
qed

lemma sender_id_parts:
  assumes "length pseudonym = simple_pseudonym_size" and "length random = sender_id_size"
  shows "length (sender_id_new random pseudonym) = sender_id_size" "sender_id_pseudonym (sender_id_new random pseudonym) = pseudonym"
  using assms by (simp_all add: sender_id_new_def sender_id_pseudonym_def sender_id_size_def)

lemma sender_id_from_parts:
  "length s = sender_id_size \<Longrightarrow> sender_id_from (sender_id_pseudonym s) (sender_id_surb_id s) = s"
  by (simp add: sender_id_from_def sender_id_pseudonym_def sender_id_surb_id_def sender_id_size_def)

lemma built_ticket_challenge:
  assumes "map_res vt_leak (map_fail PacketCoreTypesError (tb_build_signed cr (tb_set_challenge ch b) sk ds)) = Ok t"
  shows "tk_challenge t = ch"
  using assms by (auto simp: tb_build_signed_def map_res_Inr_iff map_fail_Inr_iff tb_build_Ok_iff vt_leak_def ticket_sign_def Let_def
      tb_set_challenge_def split: if_splits)

lemma collect_res_inv: "collect_res ms = Ok xs \<Longrightarrow> ms = map Ok xs"
proof (induction ms arbitrary: xs)
  case (Cons m ms)
  then obtain y ys where "m = Ok y" "collect_res ms = Ok ys" "xs = y # ys" by (auto simp: and_then_Inr_iff)
  with Cons.IH show ?case by simp
qed simp

lemma zip_surb_ids:
  "n = length xs \<Longrightarrow> map (\<lambda>(i, x). (f i, x)) (enumerate 0 xs) = zip (map f [0..<n]) xs"
  by (rule nth_equalityI) (simp_all add: nth_enumerate_eq)

text \<open>C4: a packet for a path of at most three relays arrives. The sender addresses it to the first node, with a ticket
for that node's challenge. Each relay that gets it together with a ticket for its challenge is told to forward it to its
successor, with its position and the challenge for the next ticket, and the acknowledgement of its successor opens its
ticket. The destination reads the message, the pseudonym of the sender, and the reply blocks that were created for the return paths, under
the identifiers for which the sender keeps their openers.\<close>
theorem packet_delivered:
  assumes env: "packet_env_ok pe" and route: "hopr_route pe mapper kps ids"
    and ps: "length pseudonym = simple_pseudonym_size" "length (pr_sender_id rnd) = sender_id_size"
    and ret: "\<forall>rp \<in> set return_paths. \<exists>rkps rids. rp = map (su_public (pe_suite pe)) rkps \<and> hopr_route pe mapper rkps rids"
    and sks: "\<forall>k. length (pr_sender_key rnd k) = secret_key16_size"
    and out: "into_outgoing pe rnd msg pseudonym (ForwardPath (map (su_public (pe_suite pe)) kps) return_paths) sk ticket mapper ds
      = Ok (OutgoingPacket out, openers)"
  shows "\<exists>pkts chal own ack surbs.
     ho_packet out = pkts 0 \<and> ho_next_hop out = su_public (pe_suite pe) (hd kps) \<and> tk_challenge (ho_ticket out) = chal 0
     \<and> half_key_to_challenge (pe_curve pe) (ack 0) = (Ok (ho_ack_challenge out) :: (packet_error, _) result)
     \<and> relays_in_turn pe mapper lookup kps pkts chal own ack
     \<and> length surbs = length return_paths \<and> length openers = length return_paths
     \<and> (\<forall>i < length return_paths. create_surb_for_path pe rnd (Suc i) (return_paths ! i)
          (sender_id_sequence (cr_keccak (pe_crypto pe)) (sender_id_new (pr_sender_id rnd) pseudonym) i) mapper
            = Ok (surbs ! i, openers ! i))
     \<and> (\<forall>tail prev st. length tail = ticket_size \<longrightarrow>
          (\<exists>tag. from_incoming pe (pkts (length kps - 1) @ tail) (last kps) prev mapper lookup st
            = (st, Ok (FinalPacket \<lparr>hi_packet_tag = tag, hi_ack_key = Some (ack (length kps - 1)), hi_previous_hop = prev,
                hi_plain_text = msg, hi_sender = pseudonym, hi_surbs = zip (map fst openers) surbs\<rparr>))))"
proof -
  let ?su = "pe_suite pe" and ?cv = "pe_curve pe" and ?pubs = "map (su_public (pe_suite pe)) kps"
  let ?hash = "cr_keccak (pe_crypto pe)"
  have cv: "curve_ok ?cv" and al: "gr_alpha_len (su_group ?su) = offchain_public_key_size"
    and hash: "\<And>xs. length (?hash xs) = hash_size" using env by (simp_all add: packet_env_ok_def)
  have ne: "kps \<noteq> []" using route by (simp add: hopr_route_def)
  define recv where "recv = sender_id_new (pr_sender_id rnd) pseudonym"
  have recv: "length recv = sender_id_size" "sender_id_pseudonym recv = pseudonym"
    using sender_id_parts [OF ps] by (simp_all add: recv_def)
  obtain keys strings vals pairs tk pp nh m where
    keys: "new_shared_keys ?su (pr_scalar rnd 0) ?pubs = Ok keys"
    and gen: "generate_proof_of_relay ?cv (pr_secrets rnd 0) (sk_secrets keys) = Ok (strings, vals)"
    and pairs: "collect_res (map (\<lambda>(i, rp). create_surb_for_path pe rnd (Suc i) rp (sender_id_sequence ?hash recv i) mapper)
        (enumerate 0 return_paths)) = Ok pairs"
    and tk: "map_res vt_leak (map_fail PacketCoreTypesError (tb_build_signed (pe_crypto pe) (tb_set_challenge (pov_ticket_challenge vals) ticket) sk ds)) = Ok tk"
    and pp: "partial_packet_new ?su hopr_header_spec (pr_padding rnd 0) (ForwardPathRouting keys ?pubs strings recv False) mapper = Ok pp"
    and nh: "index_res ?pubs 0 = (Ok nh :: (packet_error, _) result)"
    and m: "packet_message_from_parts ?su hopr_header_spec payload_size_int (map fst pairs) msg = Ok m"
    and oo: "out = \<lparr>ho_packet = into_meta_packet ?su payload_size_int pp m, ho_ticket = tk, ho_next_hop = nh,
        ho_ack_challenge = pov_acknowledgement_challenge vals\<rparr>" "openers = map snd pairs"
    using out unfolding into_outgoing_def partial_hopr_packet_new_def into_hopr_packet_def Let_def recv_def [symmetric]
    by (auto simp: and_then_Inr_iff map_fail_Inr_iff)
  note rt = keys_route_ok [OF env route recv(1) keys gen] and inv = generate_por_inv [OF cv gen]
  note vals = por_values_parts [OF cv inv(3)]
  have pr: "pairs ! i \<in> {p. create_surb_for_path pe rnd (Suc i) (return_paths ! i) (sender_id_sequence ?hash recv i) mapper = Ok p}"
    "length pairs = length return_paths" if "i < length return_paths" for i
    using arg_cong [OF collect_res_inv [OF pairs], of "\<lambda>xs. xs ! i"] arg_cong [OF collect_res_inv [OF pairs], of length] that
    by (simp_all add: nth_enumerate_eq)
  have lpairs: "length pairs = length return_paths"
    using arg_cong [OF collect_res_inv [OF pairs], of length] by simp
  have each: "surb_valid ?su hopr_header_spec (fst (pairs ! i)) \<and> fst (snd (pairs ! i)) = sender_id_surb_id (sender_id_sequence ?hash recv i)"
    if i: "i < length return_paths" for i
  proof -
    obtain s sid o' where p: "pairs ! i = (s, sid, o')" by (cases "pairs ! i") auto
    have "return_paths ! i \<in> set return_paths" using i by simp
    then obtain rkps rids where r: "return_paths ! i = map (su_public ?su) rkps" "hopr_route pe mapper rkps rids"
      using ret by blast
    have c: "create_surb_for_path pe rnd (Suc i) (map (su_public ?su) rkps) (sender_id_sequence ?hash recv i) mapper = Ok (s, sid, o')"
      using pr(1) [OF i] by (simp add: p r(1))
    have "length (pr_sender_key rnd (Suc i)) = secret_key16_size" using sks by simp
    from create_surb_for_path_inv [OF env r(2) length_sender_id_sequence(1) [OF hash recv(1)] this c]
    show ?thesis by (auto simp: p)
  qed
  have valid: "\<forall>s \<in> set (map fst pairs). surb_valid ?su hopr_header_spec s"
  proof
    fix s assume "s \<in> set (map fst pairs)"
    then obtain i where i: "i < length return_paths" "s = fst (pairs ! i)" using lpairs unfolding in_set_conv_nth by auto
    then show "surb_valid ?su hopr_header_spec s" using each [OF i(1)] by simp
  qed
  have ids: "map fst openers = map (\<lambda>i. sender_id_surb_id (sender_id_sequence ?hash recv i)) [0..<length pairs]"
    by (rule nth_equalityI) (use each lpairs in \<open>simp_all add: oo(2)\<close>)
  note msg = packet_message_from_parts_Ok [OF valid m]
  from forward_packet_travels [OF rt(1) keys msg(2), of "pr_padding rnd 0" False lookup]
  obtain pkts where pk: "into_meta_packet ?su payload_size_int pp m = pkts 0"
    "relayed_along ?su hopr_header_spec payload_size_int mapper lookup kps (sk_secrets keys) strings pkts"
    "\<And>st. into_forwarded ?su hopr_header_spec payload_size_int (last kps) mapper lookup (pkts (length kps - 1)) st
      = (st, Ok (MetaFinal m recv (last (sk_secrets keys)) (secret_packet_tag ?su (last (sk_secrets keys))) False))"
    using pp by auto
  have n: "length kps - 1 < length kps" "0 < length (sk_secrets keys)" using ne rt(2) by auto
  have lst: "last (sk_secrets keys) = sk_secrets keys ! (length kps - 1)" using n(2) rt(2) by (subst last_conv_nth) auto
  have lp: "length (pkts (length kps - 1)) = meta_packet_size ?su hopr_header_spec payload_size_int"
    using pk(2) n(1) by (simp add: relayed_along_def)
  have chain: "relays_in_turn pe mapper lookup kps pkts (hop_challenge pe (pr_secrets rnd 0) (sk_secrets keys))
      (\<lambda>i. derive_own_key_share ?cv (sk_secrets keys ! i)) (\<lambda>i. derive_ack_key_share ?cv (sk_secrets keys ! i))"
    by (rule chain_of_relays [OF env rt(2) pk(2) [unfolded rt(3)] inv(4)])
  have fin: "from_incoming pe (pkts (length kps - 1) @ tail) (last kps) prev mapper lookup st
      = (st, Ok (FinalPacket \<lparr>hi_packet_tag = secret_packet_tag ?su (last (sk_secrets keys)),
          hi_ack_key = Some (derive_ack_key_share ?cv (sk_secrets keys ! (length kps - 1))), hi_previous_hop = prev,
          hi_plain_text = msg, hi_sender = pseudonym, hi_surbs = zip (map fst openers) (map fst pairs)\<rparr>))"
    if "length tail = ticket_size" for tail prev st
    using from_incoming_final [OF lp al that pk(3) msg(1), of prev st] by (simp add: lst recv(2) ids zip_surb_ids)
  have first: "ho_packet out = pkts 0" "ho_next_hop out = su_public ?su (hd kps)"
    "tk_challenge (ho_ticket out) = hop_challenge pe (pr_secrets rnd 0) (sk_secrets keys) 0"
    using pk(1) nh ne built_ticket_challenge [OF tk] vals(2) by (auto simp: oo(1) index_res_def hd_conv_nth hop_challenge_def)
  have ack: "half_key_to_challenge ?cv (derive_ack_key_share ?cv (sk_secrets keys ! 0)) = (Ok (ho_ack_challenge out) :: (packet_error, _) result)"
    using por_secret_ok [OF cv inv(4) n(2)] vals(3)
    by (simp add: oo(1) half_key_to_challenge_def secret_ok_scalars ack_challenge_def)
  have blocks: "create_surb_for_path pe rnd (Suc i) (return_paths ! i) (sender_id_sequence ?hash recv i) mapper
      = Ok (map fst pairs ! i, openers ! i)" if "i < length return_paths" for i
    using pr(1) [OF that] that lpairs by (simp add: oo(2))
  show ?thesis
    using first ack chain fin lpairs blocks
    by (intro exI [of _ pkts] exI [of _ "hop_challenge pe (pr_secrets rnd 0) (sk_secrets keys)"]
        exI [of _ "\<lambda>i. derive_own_key_share ?cv (sk_secrets keys ! i)"] exI [of _ "\<lambda>i. derive_ack_key_share ?cv (sk_secrets keys ! i)"]
        exI [of _ "map fst pairs"]) (auto simp: oo(2) recv_def)
qed

text \<open>C5: a reply arrives. The receiver of a reply block can send any message that fits into a packet: the relays of
the return path forward it as they forward any other packet, and the creator of the block, who finds the opener it kept,
reads the message.\<close>
theorem reply_delivered:
  assumes env: "packet_env_ok pe" and route: "hopr_route pe mapper kps ids" and recv: "length recv = sender_id_size"
    and sk: "length (pr_sender_key rnd k) = secret_key16_size"
    and create: "create_surb_for_path pe rnd k (map (su_public (pe_suite pe)) kps) recv mapper = Ok (surb, sid, opener)"
    and out: "into_outgoing pe rnd' msg (sender_id_pseudonym recv) (ViaSurb sid surb) chain_key ticket mapper ds
      = Ok (OutgoingPacket out, openers)"
  shows "openers = [] \<and> (\<exists>pkts chal own ack.
     ho_packet out = pkts 0 \<and> ho_next_hop out = su_public (pe_suite pe) (hd kps) \<and> tk_challenge (ho_ticket out) = chal 0
     \<and> half_key_to_challenge (pe_curve pe) (ack 0) = (Ok (ho_ack_challenge out) :: (packet_error, _) result)
     \<and> relays_in_turn pe mapper lookup kps pkts chal own ack
     \<and> (\<forall>tail prev st st'. length tail = ticket_size \<longrightarrow> lookup recv st = (Some opener, st') \<longrightarrow>
          (\<exists>tag. from_incoming pe (pkts (length kps - 1) @ tail) (last kps) prev mapper lookup st
            = (st', Ok (FinalPacket \<lparr>hi_packet_tag = tag, hi_ack_key = Some (ack (length kps - 1)), hi_previous_hop = prev,
                hi_plain_text = msg, hi_sender = sender_id_pseudonym recv, hi_surbs = []\<rparr>)))))"
proof -
  let ?su = "pe_suite pe" and ?cv = "pe_curve pe"
  have cv: "curve_ok ?cv" and al: "gr_alpha_len (su_group ?su) = offchain_public_key_size"
    using env by (simp_all add: packet_env_ok_def)
  have ne: "kps \<noteq> []" and km: "mapper_knows ?su hopr_header_spec mapper kps ids" using route by (simp_all add: hopr_route_def)
  obtain keys strings vals where keys: "new_shared_keys ?su (pr_scalar rnd k) (map (su_public ?su) kps) = Ok keys"
    and gen: "generate_proof_of_relay ?cv (pr_secrets rnd k) (sk_secrets keys) = Ok (strings, vals)"
    and cs: "create_surb ?su hopr_header_spec (pr_padding rnd k) (pr_sender_key rnd k) keys ids strings recv
      (surb_info_new vals (replicate 32 0)) = Ok (surb, opener)"
    and sid: "sid = sender_id_surb_id recv" and sb: "sb_first_relayer surb = hd ids"
    "sb_additional_data_receiver surb = surb_info_new vals (replicate 32 0)"
    by (rule create_surb_for_path_inv [OF env route recv sk create]) blast
  note rt = keys_route_ok [OF env route recv keys gen] and inv = generate_por_inv [OF cv gen]
  note vals = por_values_parts [OF cv inv(3)]
  have sender: "sender_id_from (sender_id_pseudonym recv) sid = recv" unfolding sid by (rule sender_id_from_parts [OF recv])
  have info: "surb_info_por_values (sb_additional_data_receiver surb) = (Ok vals :: (packet_error, _) result)"
    unfolding sb(2) by (rule vals(4))
  obtain tk pp nh m where
    tk: "map_res vt_leak (map_fail PacketCoreTypesError (tb_build_signed (pe_crypto pe) (tb_set_challenge (pov_ticket_challenge vals) ticket) chain_key ds)) = Ok tk"
    and pp: "partial_packet_new ?su hopr_header_spec (pr_padding rnd' 0) (SurbRouting surb recv) mapper = Ok pp"
    and nh: "km_id_to_public mapper (sb_first_relayer surb) = Some nh"
    and m: "packet_message_from_parts ?su hopr_header_spec payload_size_int [] msg = Ok m"
    and oo: "out = \<lparr>ho_packet = into_meta_packet ?su payload_size_int pp m, ho_ticket = tk, ho_next_hop = nh,
        ho_ack_challenge = pov_acknowledgement_challenge vals\<rparr>" "openers = []"
    using out unfolding into_outgoing_def partial_hopr_packet_new_def into_hopr_packet_def Let_def packet_routing.case sender info
    by (auto simp: and_then_Inr_iff map_fail_Inr_iff ok_or_Inr_iff)
  have msg: "packet_message_into_parts ?su hopr_header_spec m = Ok ([], msg)" "length m = padded_size payload_size_int"
    using packet_message_from_parts_Ok [OF _ m] by simp_all
  have inf: "length (surb_info_new vals (replicate 32 0)) = hs_surb_receiver_data_size hopr_header_spec"
    using vals(5) by (simp add: hopr_sizes)
  from reply_packet_travels [OF rt(1) keys sk inf, of "pr_padding rnd k" "pr_padding rnd' 0" lookup] cs
  have "\<forall>P payload. length payload = padded_size P \<longrightarrow>
         (\<exists>pp pkts. partial_packet_new ?su hopr_header_spec (pr_padding rnd' 0) (SurbRouting surb recv) mapper = Ok pp
           \<and> into_meta_packet ?su P pp payload = pkts 0
           \<and> relayed_along ?su hopr_header_spec P mapper lookup kps (sk_secrets keys) strings pkts
           \<and> (\<forall>st st'. lookup recv st = (Some opener, st') \<longrightarrow>
                into_forwarded ?su hopr_header_spec P (last kps) mapper lookup (pkts (length kps - 1)) st
                = (st', Ok (MetaFinal payload recv (last (sk_secrets keys))
                     (secret_packet_tag ?su (last (sk_secrets keys))) False))))"
    by auto
  from this [rule_format, OF msg(2)] obtain pp' pkts
    where pp': "partial_packet_new ?su hopr_header_spec (pr_padding rnd' 0) (SurbRouting surb recv) mapper = Ok pp'"
      and pk': "into_meta_packet ?su payload_size_int pp' m = pkts 0"
      and pk2: "relayed_along ?su hopr_header_spec payload_size_int mapper lookup kps (sk_secrets keys) strings pkts"
      and pk3: "\<forall>st st'. lookup recv st = (Some opener, st') \<longrightarrow>
       into_forwarded ?su hopr_header_spec payload_size_int (last kps) mapper lookup (pkts (length kps - 1)) st
       = (st', Ok (MetaFinal m recv (last (sk_secrets keys)) (secret_packet_tag ?su (last (sk_secrets keys))) False))"
    by (elim exE conjE) (rule that)
  have "pp' = pp" using pp pp' by simp
  note pk = pk' [unfolded this] pk2 pk3
  have n: "length kps - 1 < length kps" "0 < length (sk_secrets keys)" using ne rt(2) by auto
  have lst: "last (sk_secrets keys) = sk_secrets keys ! (length kps - 1)" using n(2) rt(2) by (subst last_conv_nth) auto
  have lp: "length (pkts (length kps - 1)) = meta_packet_size ?su hopr_header_spec payload_size_int"
    using pk(2) n(1) by (simp add: relayed_along_def)
  have chain: "relays_in_turn pe mapper lookup kps pkts (hop_challenge pe (pr_secrets rnd k) (sk_secrets keys))
      (\<lambda>i. derive_own_key_share ?cv (sk_secrets keys ! i)) (\<lambda>i. derive_ack_key_share ?cv (sk_secrets keys ! i))"
    by (rule chain_of_relays [OF env rt(2) pk(2) [unfolded rt(3)] inv(4)])
  have fin: "from_incoming pe (pkts (length kps - 1) @ tail) (last kps) prev mapper lookup st
      = (st', Ok (FinalPacket \<lparr>hi_packet_tag = secret_packet_tag ?su (last (sk_secrets keys)),
          hi_ack_key = Some (derive_ack_key_share ?cv (sk_secrets keys ! (length kps - 1))), hi_previous_hop = prev,
          hi_plain_text = msg, hi_sender = sender_id_pseudonym recv, hi_surbs = []\<rparr>))"
    if "length tail = ticket_size" "lookup recv st = (Some opener, st')" for tail prev st st'
    using from_incoming_final [OF lp al that(1) pk(3) [rule_format, OF that(2)] msg(1), of prev] by (simp add: lst)
  have first: "ho_packet out = pkts 0" "ho_next_hop out = su_public ?su (hd kps)"
    "tk_challenge (ho_ticket out) = hop_challenge pe (pr_secrets rnd k) (sk_secrets keys) 0"
  proof -
    have "ids \<noteq> []" using ne km by (auto simp: mapper_knows_def)
    then have "hd ids = ids ! 0" "hd kps = kps ! 0" using ne by (simp_all add: hd_conv_nth)
    then have "km_id_to_public mapper (hd ids) = Some (su_public ?su (hd kps))" using km ne by (simp add: mapper_knows_def)
    then show "ho_next_hop out = su_public ?su (hd kps)" using nh by (simp add: oo(1) sb(1))
    show "ho_packet out = pkts 0" "tk_challenge (ho_ticket out) = hop_challenge pe (pr_secrets rnd k) (sk_secrets keys) 0"
      using pk(1) built_ticket_challenge [OF tk] vals(2) by (auto simp: oo(1) hop_challenge_def)
  qed
  have ack: "half_key_to_challenge ?cv (derive_ack_key_share ?cv (sk_secrets keys ! 0)) = (Ok (ho_ack_challenge out) :: (packet_error, _) result)"
    using por_secret_ok [OF cv inv(4) n(2)] vals(3)
    by (simp add: oo(1) half_key_to_challenge_def secret_ok_scalars ack_challenge_def)
  show ?thesis
    using first ack chain fin oo(2)
    by (intro conjI exI [of _ pkts] exI [of _ "hop_challenge pe (pr_secrets rnd k) (sk_secrets keys)"]
        exI [of _ "\<lambda>i. derive_own_key_share ?cv (sk_secrets keys ! i)"] exI [of _ "\<lambda>i. derive_ack_key_share ?cv (sk_secrets keys ! i)"]) auto
qed

section \<open>An example\<close>

definition example_suite :: "(byte, byte, byte) suite" where
  "example_suite =
     \<lparr>su_group = \<lparr>gr_alpha_len = 32, gr_to_alpha = (\<lambda>g. replicate 31 0 @ [g]), gr_from_alpha = (\<lambda>bs. Ok (last bs)),
        gr_generate = (\<lambda>s. s), gr_is_valid = (\<lambda>_. True), gr_mul = (*), gr_scalar_mul = (*),
        gr_scalar_from_bytes = (\<lambda>bs. Ok (hd bs))\<rparr>,
      su_scalar_of = (\<lambda>kp. kp), su_public = (\<lambda>kp. replicate 31 0 @ [kp]), su_element_of = last,
      su_kdf = (\<lambda>_ _ _. 3), su_key_stream = (\<lambda>_ _ _. 7), su_key_size = 16, su_iv_size = 16,
      su_mac = (\<lambda>_ _. replicate 16 0), su_mac_key_size = 16\<rparr>"

definition example_env :: "(byte, byte, byte, nat, byte, byte, unit) packet_env" where
  "example_env = \<lparr>pe_suite = example_suite, pe_curve = example_curve,
     pe_crypto = example_crypto\<lparr>cr_point_address := be_encode 20\<rparr>\<rparr>"

definition example_mapper :: key_mapper where
  "example_mapper = \<lparr>km_key_to_id = (\<lambda>key. Some (drop 28 key)), km_id_to_public = (\<lambda>i. Some (replicate 28 0 @ i))\<rparr>"

definition example_random :: "byte packet_random" where
  "example_random = \<lparr>pr_scalar = (\<lambda>_. 5), pr_secrets = (\<lambda>_ _. replicate 32 3), pr_padding = (\<lambda>_ _. 1),
     pr_sender_id = replicate 18 9, pr_sender_key = (\<lambda>_. replicate 16 2)\<rparr>"

definition example_builder :: ticket_builder where
  "example_builder = \<lparr>tb_channel_id = Some (replicate 32 1), tb_amount = Some 100, tb_balance = None, tb_index = 1,
     tb_index_offset = 1, tb_channel_epoch = 1, tb_win_prob = wp_always, tb_challenge = None, tb_signature = None\<rparr>"

lemma example_suite_ok: "suite_ok example_suite"
  by (simp add: suite_ok_def example_suite_def mult.assoc mult.commute)

lemma example_env_parts:
  "pe_suite example_env = example_suite" "pe_curve example_env = example_curve"
  "pe_crypto example_env = example_crypto\<lparr>cr_point_address := be_encode 20\<rparr>"
  by (simp_all add: example_env_def)

lemma example_suite_parts:
  "gr_alpha_len (su_group example_suite) = 32" "su_mac example_suite k m = replicate 16 0"
  "su_public example_suite kp = replicate 31 0 @ [kp]"
  by (simp_all add: example_suite_def)

lemma example_env_ok: "packet_env_ok example_env"
proof -
  have "cr_order example_crypto = 101" "cv_order example_curve = 101" "cv_eth example_curve (cv_base_mul example_curve s) = be_encode 20 s" for s
    by (simp_all add: example_crypto_def example_curve_def)
  then show ?thesis using example_crypto_ok
    by (simp add: packet_env_ok_def example_env_parts example_suite_ok example_curve_ok mac_ok_def hopr_header_spec_def
        offchain_public_key_size_def crypto_ok_def example_suite_parts hash_size_def)
qed

lemma drop_28: "drop 28 (replicate 31 0 @ [k]) = [0, 0, 0, k :: byte]"
  by (simp add: numeral_Bit0 numeral_Bit1)

lemma example_route:
  assumes "kps \<noteq> []" and "length kps \<le> 4"
  shows "hopr_route example_env example_mapper kps (map (\<lambda>k. [0, 0, 0, k]) kps)"
proof -
  have r: "replicate 28 0 @ [0, 0, 0, k] = replicate 31 0 @ [k :: byte]" for k
    by (simp add: numeral_Bit0 numeral_Bit1)
  have "km_key_to_id example_mapper (replicate 31 0 @ [k]) = Some [0, 0, 0, k]"
    "km_id_to_public example_mapper [0, 0, 0, k] = Some (replicate 31 0 @ [k])" for k
    unfolding example_mapper_def by (simp_all only: drop_28 r key_mapper.simps)
  then show ?thesis using assms
    by (simp add: hopr_route_def intermediate_hops_def mapper_knows_def example_env_parts example_suite_parts hopr_header_spec_def)
qed

lemma example_extract: "extract_key example_suite g ctx salt = Ok (replicate 32 3)"
  by (simp add: extract_key_def create_kdf_instance_def example_suite_def stream_fill_def shared_secret_size_def map_replicate_const)

lemma example_loop: "\<exists>ss. shared_keys_loop example_suite a c gs = Ok ss \<and> ss = map (\<lambda>_. replicate 32 3) gs"
proof (induction gs arbitrary: a c)
  case (Cons g gs)
  show ?case using Cons.IH by (auto simp: Let_def example_extract) (auto simp: example_suite_def)
qed simp

lemma example_keys:
  obtains keys where "new_shared_keys example_suite x (map (su_public example_suite) kps) = Ok keys"
    and "sk_secrets keys = map (\<lambda>_. replicate 32 3) kps"
  using example_loop [of "gr_generate (su_group example_suite) x" x "map (su_element_of example_suite) (map (su_public example_suite) kps)"]
  by (auto simp: new_shared_keys_def shared_keys_generate_def Let_def)

lemma example_por:
  assumes "kps \<noteq> []"
  obtains strings vals where
    "generate_proof_of_relay example_curve (\<lambda>_. replicate 32 3) (map (\<lambda>_. replicate 32 3) kps) = Ok (strings, vals)"
proof -
  have s: "secret_ok example_curve (replicate 32 3)" "own_scalar example_curve (replicate 32 3) = 3"
    "ack_scalar example_curve (replicate 32 3) = 13"
    using example_secret_ok [of "replicate 32 3"] by simp_all
  have "honest_secrets example_curve (\<lambda>_. replicate 32 3) (map (\<lambda>_. replicate 32 3) kps)"
    using s by (auto simp: honest_secrets_def next_secret_def pair_scalar_def example_curve_def [THEN arg_cong, of cv_order])
  from generate_por_eq [OF example_curve_ok this] assms that show ?thesis by auto
qed

lemma example_create_surb:
  assumes kps: "kps \<noteq> []" "length kps \<le> 4" and recv: "length recv = sender_id_size"
  obtains surb opener where "create_surb_for_path example_env example_random k (map (su_public example_suite) kps) recv example_mapper
    = Ok (surb, sender_id_surb_id recv, opener)"
proof -
  obtain keys where keys: "new_shared_keys example_suite 5 (map (su_public example_suite) kps) = Ok keys"
    "sk_secrets keys = map (\<lambda>_. replicate 32 3) kps" by (rule example_keys)
  obtain strings vals where gen: "generate_proof_of_relay example_curve (\<lambda>_. replicate 32 3) (sk_secrets keys) = Ok (strings, vals)"
    using example_por [OF kps(1)] keys(2) by metis
  note rt = keys_route_ok [OF example_env_ok example_route [OF kps] recv, unfolded example_env_parts, OF keys(1) gen]
  note inv = generate_por_inv [OF example_curve_ok gen]
  have inf: "length (surb_info_new vals (replicate 32 0)) = hs_surb_receiver_data_size hopr_header_spec"
    using por_values_parts(5) [OF example_curve_ok inv(3)] by (simp add: hopr_sizes)
  have "length (replicate 16 (2 :: byte)) = secret_key16_size" by (simp add: secret_key16_size_def)
  from reply_packet_travels [OF rt(1) keys(1) this inf, of "\<lambda>_. 1"] obtain surb opener where
    cs: "create_surb example_suite hopr_header_spec (\<lambda>_. 1) (replicate 16 2) keys (map (\<lambda>k. [0, 0, 0, k]) kps) strings recv
      (surb_info_new vals (replicate 32 0)) = Ok (surb, opener)" by blast
  have ids: "collect_res (map (\<lambda>key. ok_or (PacketConstructionError ''failed to map key to id'') (km_key_to_id example_mapper key))
      (map (su_public example_suite) kps)) = Ok (map (\<lambda>k. [0, 0, 0, k]) kps)"
    by (induction kps) (simp_all add: example_suite_parts example_mapper_def drop_28 numeral_3_eq_3)
  show ?thesis
    by (rule that [of surb opener])
      (simp add: create_surb_for_path_def example_env_parts example_random_def keys(1) gen ids cs del: map_map)
qed


lemma example_ticket_builds:
  obtains tk where "tb_build_signed (pe_crypto example_env) (tb_set_challenge c example_builder) 7 [] = Ok tk"
proof -
  have "\<exists>t. tb_build (tb_set_challenge c example_builder) = Ok t"
    by (simp add: tb_build_def tb_set_challenge_def example_builder_def max_ticket_amount_def)
  moreover have "tb_signature (tb_set_challenge c example_builder) = None" by (simp add: tb_set_challenge_def example_builder_def)
  ultimately show ?thesis using that by (auto simp: tb_build_signed_def)
qed

lemma example_reply_message:
  obtains m where "packet_message_from_parts example_suite hopr_header_spec payload_size_int [] [1, 2, 3] = Ok m" "length m = padded_size payload_size_int"
  using padded_new_eq [of "[0, 1, 2, 3 :: byte]" payload_size_int]
  by (simp add: packet_message_from_parts_def packet_message_header_len_def payload_size_int_def padded_new_from_vec_eq padded_size_def)

lemma example_outgoing:
  obtains out surb opener where
    "create_surb_for_path example_env example_random 1 (map (su_public example_suite) [6, 4]) (replicate 18 9) example_mapper
      = Ok (surb, replicate 8 9, opener)"
    "into_outgoing example_env example_random [1, 2, 3] (replicate 10 9)
       (ForwardPath (map (su_public example_suite) [4, 6]) [map (su_public example_suite) [6, 4]]) 7 example_builder example_mapper []
      = Ok (OutgoingPacket out, [(replicate 8 9, opener)])"
proof -
  let ?pubs = "map (su_public example_suite) [4, 6]" and ?recv = "replicate 18 9 :: bytes"
  have recv: "length ?recv = sender_id_size" "sender_id_surb_id ?recv = replicate 8 9" "sender_id_new (replicate 18 9) (replicate 10 9) = ?recv"
    by (simp_all add: sender_id_size_def simple_pseudonym_size_def surb_id_size_def sender_id_surb_id_def sender_id_new_def replicate_add [symmetric])
  have kps: "[4, 6 :: byte] \<noteq> []" "length [4, 6 :: byte] \<le> 4" "[6, 4 :: byte] \<noteq> []" "length [6, 4 :: byte] \<le> 4" by simp_all
  obtain surb opener where cs: "create_surb_for_path example_env example_random 1 (map (su_public example_suite) [6, 4]) ?recv example_mapper
      = Ok (surb, replicate 8 9, opener)"
    by (rule example_create_surb [OF kps(3,4) recv(1), of 1, unfolded recv(2)])
  have "length (pr_sender_key example_random 1) = secret_key16_size" by (simp add: example_random_def secret_key16_size_def)
  from create_surb_for_path_inv [OF example_env_ok example_route [OF kps(3,4)] recv(1) this cs [folded example_env_parts(1)]]
  have sv: "surb_valid example_suite hopr_header_spec surb" by (simp add: example_env_parts)
  have "length ([1 :: byte] @ surb_encode surb @ [1, 2, 3]) \<le> payload_size_int"
    using length_surb_encode [OF sv]
    by (simp add: surb_size_def hopr_header_spec_def example_suite_parts routing_info_size_def header_len_def routing_info_len_def
        header_prefix_size_def intermediate_hops_def por_string_size_def half_key_challenge_size_def eth_challenge_size_def
        sender_id_size_def simple_pseudonym_size_def surb_id_size_def surb_receiver_info_size_def por_values_size_def
        secret_key16_size_def payload_size_int_def)
  then obtain m where m: "packet_message_from_parts example_suite hopr_header_spec payload_size_int [surb] [1, 2, 3] = Ok m"
    "length m = padded_size payload_size_int"
    using padded_new_eq [of "[1 :: byte] @ surb_encode surb @ [1, 2, 3]" payload_size_int] length_surb_encode [OF sv]
    by (auto simp: packet_message_from_parts_def packet_message_header_len_def padded_new_from_vec_eq padded_size_def)
  obtain keys where keys: "new_shared_keys example_suite 5 ?pubs = Ok keys" "sk_secrets keys = map (\<lambda>_. replicate 32 3) [4, 6 :: byte]"
    by (rule example_keys)
  obtain strings vals where gen: "generate_proof_of_relay example_curve (\<lambda>_. replicate 32 3) (sk_secrets keys) = Ok (strings, vals)"
    using example_por [OF kps(1)] keys(2) by metis
  note rt = keys_route_ok [OF example_env_ok example_route [OF kps(1,2)] recv(1), unfolded example_env_parts, OF keys(1) gen]
  from forward_packet_travels [OF rt(1) keys(1) m(2), of "\<lambda>_. 1" False] obtain pp where
    pp: "partial_packet_new example_suite hopr_header_spec (\<lambda>_. 1) (ForwardPathRouting keys ?pubs strings ?recv False) example_mapper = Ok pp"
    by blast
  obtain tk where tk: "tb_build_signed (pe_crypto example_env) (tb_set_challenge (pov_ticket_challenge vals) example_builder) 7 [] = Ok tk"
    by (rule example_ticket_builds)
  have rnd: "pr_scalar example_random k = 5" "pr_secrets example_random k = (\<lambda>_. replicate 32 3)" "pr_padding example_random k = (\<lambda>_. 1)"
    "pr_sender_id example_random = ?recv" for k by (simp_all add: example_random_def)
  show ?thesis
    by (rule that [OF cs])
      (use cs pp m keys gen tk in \<open>simp add: into_outgoing_def partial_hopr_packet_new_def into_hopr_packet_def Let_def
        example_env_parts rnd recv(3) index_res_def\<close>)
qed

theorem packet_delivered_witness:
  "\<exists>out surb opener pkts chal own ack tag.
     into_outgoing example_env example_random [1, 2, 3] (replicate 10 9)
       (ForwardPath (map (su_public example_suite) [4, 6]) [map (su_public example_suite) [6, 4]]) 7 example_builder example_mapper []
      = Ok (OutgoingPacket out, [(replicate 8 9, opener)])
     \<and> ho_packet out = pkts 0
     \<and> relays_in_turn example_env example_mapper (\<lambda>_ (st :: unit). (None, st)) [4, 6] pkts chal own ack
     \<and> from_incoming example_env (pkts 1 @ replicate ticket_size 0) 6 [] example_mapper (\<lambda>_ (st :: unit). (None, st)) ()
       = ((), Ok (FinalPacket \<lparr>hi_packet_tag = tag, hi_ack_key = Some (ack 1), hi_previous_hop = [], hi_plain_text = [1, 2, 3],
            hi_sender = replicate 10 9, hi_surbs = [(replicate 8 9, surb)]\<rparr>))"
proof -
  obtain out surb opener where
    o: "into_outgoing example_env example_random [1, 2, 3] (replicate 10 9)
       (ForwardPath (map (su_public (pe_suite example_env)) [4, 6]) [map (su_public example_suite) [6, 4]]) 7 example_builder example_mapper []
      = Ok (OutgoingPacket out, [(replicate 8 9, opener)])"
    unfolding example_env_parts by (rule example_outgoing)
  have len: "length (replicate 10 (9 :: byte)) = simple_pseudonym_size" "length (pr_sender_id example_random) = sender_id_size"
    "\<forall>k. length (pr_sender_key example_random k) = secret_key16_size"
    by (simp_all add: simple_pseudonym_size_def sender_id_size_def surb_id_size_def example_random_def secret_key16_size_def)
  have "hopr_route example_env example_mapper [6, 4] (map (\<lambda>k. [0, 0, 0, k]) [6, 4])" by (rule example_route) simp_all
  then have ret: "\<forall>rp \<in> set [map (su_public example_suite) [6, 4]].
      \<exists>rkps rids. rp = map (su_public (pe_suite example_env)) rkps \<and> hopr_route example_env example_mapper rkps rids"
    unfolding example_env_parts by (auto intro!: exI [of _ "[6, 4]"])
  have "hopr_route example_env example_mapper [4, 6] (map (\<lambda>k. [0, 0, 0, k]) [4, 6])" by (rule example_route) simp_all
  from packet_delivered [OF example_env_ok this len(1,2) ret len(3) o, of "\<lambda>_ (st :: unit). (None, st)"]
  obtain pkts chal own ack surbs where
    a: "ho_packet out = pkts 0" "relays_in_turn example_env example_mapper (\<lambda>_ (st :: unit). (None, st)) [4, 6] pkts chal own ack"
    and s: "length surbs = length [map (su_public example_suite) [6, 4]]"
    and f: "\<forall>tail prev st. length tail = ticket_size \<longrightarrow>
          (\<exists>tag. from_incoming example_env (pkts (length [4, 6 :: byte] - 1) @ tail) (last [4, 6]) prev example_mapper (\<lambda>_ (st :: unit). (None, st)) st
            = (st, Ok (FinalPacket \<lparr>hi_packet_tag = tag, hi_ack_key = Some (ack (length [4, 6 :: byte] - 1)), hi_previous_hop = prev,
                hi_plain_text = [1, 2, 3], hi_sender = replicate 10 9, hi_surbs = zip (map fst [(replicate 8 9, opener)]) surbs\<rparr>)))"
    by (elim exE conjE) (rule that)
  obtain sb where "surbs = [sb]" using s by (auto simp: length_Suc_conv)
  with f [rule_format, of "replicate ticket_size 0" "[]" "()"] obtain tag where
    "from_incoming example_env (pkts 1 @ replicate ticket_size 0) 6 [] example_mapper (\<lambda>_ (st :: unit). (None, st)) ()
       = ((), Ok (FinalPacket \<lparr>hi_packet_tag = tag, hi_ack_key = Some (ack 1), hi_previous_hop = [], hi_plain_text = [1, 2, 3],
            hi_sender = replicate 10 9, hi_surbs = [(replicate 8 9, sb)]\<rparr>))"
    by auto
  then show ?thesis using o a unfolding example_env_parts
    by - (rule exI [of _ out], rule exI [of _ sb], rule exI [of _ opener], rule exI [of _ pkts], rule exI [of _ chal],
        rule exI [of _ own], rule exI [of _ ack], rule exI [of _ tag], intro conjI)
qed

theorem reply_delivered_witness:
  "\<exists>surb opener out pkts tag ack.
     create_surb_for_path example_env example_random 1 (map (su_public example_suite) [6, 4]) (replicate 18 9) example_mapper
       = Ok (surb, replicate 8 9, opener)
     \<and> into_outgoing example_env example_random [1, 2, 3] (replicate 10 9) (ViaSurb (replicate 8 9) surb) 7 example_builder
         example_mapper [] = Ok (OutgoingPacket out, [])
     \<and> ho_packet out = pkts (0 :: nat)
     \<and> from_incoming example_env (pkts 1 @ replicate ticket_size 0) 4 [] example_mapper (\<lambda>_ st. (Some opener, ())) ()
       = ((), Ok (FinalPacket \<lparr>hi_packet_tag = tag, hi_ack_key = Some (ack (1 :: nat)), hi_previous_hop = [], hi_plain_text = [1, 2, 3],
            hi_sender = replicate 10 9, hi_surbs = []\<rparr>))"
proof -
  let ?recv = "replicate 18 9 :: bytes" and ?kps = "[6, 4 :: byte]"
  let ?pubs = "map (su_public (pe_suite example_env)) ?kps"
  have recv: "length ?recv = sender_id_size" "sender_id_surb_id ?recv = replicate 8 9" "sender_id_pseudonym ?recv = replicate 10 9"
    by (simp_all add: sender_id_size_def simple_pseudonym_size_def surb_id_size_def sender_id_surb_id_def sender_id_pseudonym_def)
  have kps: "?kps \<noteq> []" "length ?kps \<le> 4" by simp_all
  note route = example_route [OF kps]
  have sk: "length (pr_sender_key example_random 1) = secret_key16_size" by (simp add: example_random_def secret_key16_size_def)
  obtain surb opener where cs: "create_surb_for_path example_env example_random 1 ?pubs ?recv example_mapper = Ok (surb, replicate 8 9, opener)"
    unfolding example_env_parts by (rule example_create_surb [OF kps recv(1), of 1, unfolded recv(2)])
  obtain keys strings vals where keys: "new_shared_keys (pe_suite example_env) (pr_scalar example_random 1) ?pubs = Ok keys"
    and gen: "generate_proof_of_relay (pe_curve example_env) (pr_secrets example_random 1) (sk_secrets keys) = Ok (strings, vals)"
    and c: "create_surb (pe_suite example_env) hopr_header_spec (pr_padding example_random 1) (pr_sender_key example_random 1) keys
        (map (\<lambda>k. [0, 0, 0, k]) ?kps) strings ?recv (surb_info_new vals (replicate 32 0)) = Ok (surb, opener)"
    and fr: "sb_first_relayer surb = hd (map (\<lambda>k. [0, 0, 0, k]) ?kps)" "sb_additional_data_receiver surb = surb_info_new vals (replicate 32 0)"
    by (rule create_surb_for_path_inv [OF example_env_ok route recv(1) sk cs]) blast
  have cv: "curve_ok (pe_curve example_env)" using example_env_ok by (simp add: packet_env_ok_def)
  note rt = keys_route_ok [OF example_env_ok route recv(1) keys gen] and vals = por_values_parts [OF cv generate_por_inv(3) [OF cv gen]]
  have inf: "length (surb_info_new vals (replicate 32 0)) = hs_surb_receiver_data_size hopr_header_spec"
    using vals(5) by (simp add: hopr_sizes)
  have info: "surb_info_por_values (surb_info_new vals (replicate 32 0)) = (Ok vals :: (packet_error, _) result)" by (rule vals(4))
  have l: "length (replicate (padded_size payload_size_int) 0) = padded_size payload_size_int" by simp
  from reply_packet_travels [OF rt(1) keys sk inf, of "pr_padding example_random 1" "pr_padding example_random 0"] c
  have "\<exists>pp. partial_packet_new (pe_suite example_env) hopr_header_spec (pr_padding example_random 0) (SurbRouting surb ?recv) example_mapper = Ok pp"
    using l by (metis (no_types, lifting) Pair_inject sum.inject(2))
  then obtain pp where pp: "partial_packet_new (pe_suite example_env) hopr_header_spec (pr_padding example_random 0) (SurbRouting surb ?recv) example_mapper = Ok pp" ..
  obtain m where m: "packet_message_from_parts (pe_suite example_env) hopr_header_spec payload_size_int [] [1, 2, 3] = Ok m"
    unfolding example_env_parts by (rule example_reply_message)
  obtain tk where tk: "tb_build_signed (pe_crypto example_env) (tb_set_challenge (pov_ticket_challenge vals) example_builder) 7 [] = Ok tk"
    by (rule example_ticket_builds)
  have "sender_id_from (replicate 10 9) (replicate 8 9) = ?recv" by (simp add: sender_id_from_def replicate_add [symmetric])
  moreover have "km_id_to_public example_mapper [0, 0, 0, 6] = Some (replicate 28 0 @ [0, 0, 0, 6])" by (simp add: example_mapper_def)
  ultimately obtain out where out: "into_outgoing example_env example_random [1, 2, 3] (sender_id_pseudonym ?recv) (ViaSurb (replicate 8 9) surb) 7
      example_builder example_mapper [] = Ok (OutgoingPacket out, [])"
    using fr info pp m tk
    by (simp add: into_outgoing_def partial_hopr_packet_new_def into_hopr_packet_def Let_def recv(3))
  from reply_delivered [OF example_env_ok route recv(1) sk cs out, of "\<lambda>_ st. (Some opener, ())"]
  obtain pkts ack where
    a: "ho_packet out = pkts 0"
    and f: "\<forall>tail prev st st'. length tail = ticket_size \<longrightarrow> (Some opener, ()) = (Some opener, st') \<longrightarrow>
          (\<exists>tag. from_incoming example_env (pkts (length ?kps - 1) @ tail) (last ?kps) prev example_mapper (\<lambda>_ st. (Some opener, ())) st
            = (st', Ok (FinalPacket \<lparr>hi_packet_tag = tag, hi_ack_key = Some (ack (length ?kps - 1)), hi_previous_hop = prev,
                hi_plain_text = [1, 2, 3], hi_sender = sender_id_pseudonym ?recv, hi_surbs = []\<rparr>)))"
    by (elim exE conjE) (rule that)
  from f [rule_format, of "replicate ticket_size 0" "()" "[]" "()"] obtain tag where
    "from_incoming example_env (pkts 1 @ replicate ticket_size 0) 4 [] example_mapper (\<lambda>_ st. (Some opener, ())) ()
       = ((), Ok (FinalPacket \<lparr>hi_packet_tag = tag, hi_ack_key = Some (ack 1), hi_previous_hop = [], hi_plain_text = [1, 2, 3],
            hi_sender = replicate 10 9, hi_surbs = []\<rparr>))"
    unfolding recv(3) by auto
  then show ?thesis using cs out a unfolding example_env_parts recv(3)
    by - (rule exI [of _ surb], rule exI [of _ opener], rule exI [of _ out], rule exI [of _ pkts], rule exI [of _ tag],
        rule exI [of _ ack], intro conjI)
qed

theorem packet_message_roundtrip_witness:
  "\<exists>p. packet_message_from_parts example_suite hopr_header_spec payload_size_int [] [170, 0, 170] = Ok p
     \<and> packet_message_into_parts example_suite hopr_header_spec p = Ok ([], [170, 0, 170])"
  using packet_message_roundtrip [of "[]" example_suite hopr_header_spec "[170, 0, 170]" payload_size_int]
  by (auto simp: packet_message_header_len_def payload_size_int_def)

end
