(* ===== verification/Channel_Graph.thy ===== *)
theory Channel_Graph
  imports Channels "HOL-Library.Log_Nat"
begin

text \<open>
  The graph of payment channels (\<open>logic/path/src/channel_graph.rs\<close>): the nodes with their scores and
  latencies, the channels as weighted edges, and the table from addresses to graph indices.

  The graph structure itself (\<open>StableDiGraph\<close> of the \<open>petgraph\<close> crate) is the argument \<open>P\<close> of the
  operations, a record of the functions the source calls; \<open>petgraph_ok\<close> collects their documented
  behaviour, and \<open>list_graph\<close> at the end is a concrete instance of it. A finite \<open>f64\<close> is the rational
  number it stands for, and the result of an operation on scores is rounded by \<open>f64_round\<close>.
  Durations are numbers of nanoseconds. The Prometheus gauges and the DOT export are not modelled.
\<close>

section \<open>Rounding to double precision\<close>

text \<open>
  Round to nearest, ties to even, with 53 significant bits and the exponent not below that of the smallest
  normal number. Results beyond the largest finite number do not occur in the scores.
\<close>

definition f64_exponent :: "rat \<Rightarrow> int" where
  "f64_exponent x =
     (let (p, q) = quotient_of x; e = bitlen p - bitlen q in
      max (if 2 powi e \<le> x then e else e - 1) (- 1022))"

definition f64_round :: "rat \<Rightarrow> rat" where
  "f64_round x =
     (if x = 0 then 0
      else let y = \<bar>x\<bar>; u = 2 powi (f64_exponent y - 52) in sgn x * (of_int (round_half_even (y / u)) * u))"

section \<open>Nodes and edges\<close>

record channel_edge =
  ed_channel :: channel_entry
  ed_score :: "rat option"

record node =
  nd_address :: address
  nd_score :: rat
  nd_latency :: "nat single_sum_sma"

record graph_config =
  gc_latency_sma_window_length :: nat
  gc_node_score_step_up :: rat
  gc_node_score_decay :: rat
  gc_offline_node_score_threshold :: rat

definition graph_config_default :: graph_config where
  "graph_config_default =
     \<lparr>gc_latency_sma_window_length = 20, gc_node_score_step_up = f64_round (1 / 10), gc_node_score_decay = 4,
      gc_offline_node_score_threshold = f64_round (1 / 10)\<rparr>"

datatype node_score_update = Reachable nat | Unreachable | Initialize nat rat

definition node_new :: "address \<Rightarrow> nat \<Rightarrow> ('e, node) result" where
  "node_new address latency_window_length =
     map_res (\<lambda>l. \<lparr>nd_address = address, nd_score = 0, nd_latency = l\<rparr>) (sma_new latency_window_length)"

fun node_update_score :: "node \<Rightarrow> node_score_update \<Rightarrow> graph_config \<Rightarrow> node" where
  "node_update_score n (Reachable latency) cfg =
     n\<lparr>nd_score := min 1 (f64_round (nd_score n + gc_node_score_step_up cfg)),
       nd_latency := sma_push (nd_latency n) latency\<rparr>"
| "node_update_score n Unreachable cfg =
     (let s = f64_round (nd_score n / gc_node_score_decay cfg) in
      n\<lparr>nd_score := (if s < gc_offline_node_score_threshold cfg then 0 else s),
        nd_latency := sma_clear (nd_latency n)\<rparr>)"
| "node_update_score n (Initialize latency node_score) cfg =
     n\<lparr>nd_latency := sma_push (sma_clear (nd_latency n)) latency,
       nd_score := max 0 (min 1 node_score)\<rparr>"

text \<open>\<open>From<Result<Duration, T>>\<close> for a score update.\<close>

fun score_update_from :: "'t + nat \<Rightarrow> node_score_update" where
  "score_update_from (Inr duration) = Reachable duration"
| "score_update_from (Inl _) = Unreachable"

section \<open>The graph structure of \<open>petgraph\<close>\<close>

text \<open>
  \<open>pg_edge g e\<close> is the pair of end points and the weight of the edge with index \<open>e\<close>. Adding a node or an
  edge panics (\<open>None\<close>) when the indices are used up.
\<close>

record 'g petgraph =
  pg_default :: 'g
  pg_node_weight :: "'g \<Rightarrow> u32 \<Rightarrow> node option"
  pg_edge :: "'g \<Rightarrow> u32 \<Rightarrow> (u32 \<times> u32 \<times> channel_edge) option"
  pg_node_count :: "'g \<Rightarrow> nat"
  pg_edge_count :: "'g \<Rightarrow> nat"
  pg_add_node :: "'g \<Rightarrow> node \<Rightarrow> (u32 \<times> 'g) option"
  pg_set_node :: "'g \<Rightarrow> u32 \<Rightarrow> node \<Rightarrow> 'g"
  pg_remove_node :: "'g \<Rightarrow> u32 \<Rightarrow> 'g"
  pg_add_edge :: "'g \<Rightarrow> u32 \<Rightarrow> u32 \<Rightarrow> channel_edge \<Rightarrow> (u32 \<times> 'g) option"
  pg_set_edge :: "'g \<Rightarrow> u32 \<Rightarrow> channel_edge \<Rightarrow> 'g"
  pg_remove_edge :: "'g \<Rightarrow> u32 \<Rightarrow> 'g"
  pg_edges_connecting :: "'g \<Rightarrow> u32 \<Rightarrow> u32 \<Rightarrow> (u32 \<times> channel_edge) list"
  pg_edges_outgoing :: "'g \<Rightarrow> u32 \<Rightarrow> (u32 \<times> u32 \<times> channel_edge) list"
  pg_neighbors_undirected :: "'g \<Rightarrow> u32 \<Rightarrow> u32 list"
  pg_has_path_connecting :: "(channel_edge \<Rightarrow> bool) \<Rightarrow> 'g \<Rightarrow> u32 \<Rightarrow> u32 \<Rightarrow> bool"

definition pg_arcs :: "'g petgraph \<Rightarrow> (channel_edge \<Rightarrow> bool) \<Rightarrow> 'g \<Rightarrow> (u32 \<times> u32) set" where
  "pg_arcs P f g = {(s, d). \<exists>e w. pg_edge P g e = Some (s, d, w) \<and> f w}"

definition pg_nodes_ok :: "'g petgraph \<Rightarrow> bool" where
  "pg_nodes_ok P \<longleftrightarrow>
     (\<forall>i. pg_node_weight P (pg_default P) i = None)
   \<and> (\<forall>g n. pg_node_count P g < 2 ^ 32 - 1 \<longrightarrow> pg_add_node P g n \<noteq> None)
   \<and> (\<forall>g n i g'. pg_add_node P g n = Some (i, g') \<longrightarrow>
        pg_node_weight P g i = None \<and> pg_node_weight P g' = (pg_node_weight P g)(i \<mapsto> n)
        \<and> pg_edge P g' = pg_edge P g
        \<and> pg_node_count P g' = pg_node_count P g + 1 \<and> pg_edge_count P g' = pg_edge_count P g)
   \<and> (\<forall>g n i. pg_node_weight P g i \<noteq> None \<longrightarrow>
        pg_node_weight P (pg_set_node P g i n) = (pg_node_weight P g)(i \<mapsto> n)
        \<and> pg_edge P (pg_set_node P g i n) = pg_edge P g)
   \<and> (\<forall>g i. pg_node_weight P (pg_remove_node P g i) = (pg_node_weight P g)(i := None)
        \<and> pg_edge P (pg_remove_node P g i)
          = (\<lambda>e. case pg_edge P g e of
                   Some (s, d, w) \<Rightarrow> if s = i \<or> d = i then None else Some (s, d, w)
                 | None \<Rightarrow> None))"

definition pg_edges_ok :: "'g petgraph \<Rightarrow> bool" where
  "pg_edges_ok P \<longleftrightarrow>
     (\<forall>e. pg_edge P (pg_default P) e = None)
   \<and> (\<forall>g s d w. pg_edge_count P g < 2 ^ 32 - 1 \<and> pg_node_weight P g s \<noteq> None \<and> pg_node_weight P g d \<noteq> None \<longrightarrow>
        pg_add_edge P g s d w \<noteq> None)
   \<and> (\<forall>g s d w e g'. pg_add_edge P g s d w = Some (e, g') \<longrightarrow>
        pg_edge P g e = None \<and> pg_edge P g' = (pg_edge P g)(e \<mapsto> (s, d, w))
        \<and> pg_node_weight P g' = pg_node_weight P g)
   \<and> (\<forall>g e s d w w'. pg_edge P g e = Some (s, d, w) \<longrightarrow>
        pg_edge P (pg_set_edge P g e w') = (pg_edge P g)(e \<mapsto> (s, d, w'))
        \<and> pg_node_weight P (pg_set_edge P g e w') = pg_node_weight P g)
   \<and> (\<forall>g e. pg_edge P (pg_remove_edge P g e) = (pg_edge P g)(e := None)
        \<and> pg_node_weight P (pg_remove_edge P g e) = pg_node_weight P g)"

definition pg_queries_ok :: "'g petgraph \<Rightarrow> bool" where
  "pg_queries_ok P \<longleftrightarrow>
     (\<forall>g a b. set (pg_edges_connecting P g a b) = {(e, w). pg_edge P g e = Some (a, b, w)})
   \<and> (\<forall>g a. set (pg_edges_outgoing P g a) = {(e, b, w). pg_edge P g e = Some (a, b, w)}
        \<and> distinct (map fst (pg_edges_outgoing P g a)))
   \<and> (\<forall>g i. set (pg_neighbors_undirected P g i) =
        {j. \<exists>e w. pg_edge P g e = Some (i, j, w) \<or> pg_edge P g e = Some (j, i, w)})
   \<and> (\<forall>f g a b. pg_has_path_connecting P f g a b \<longleftrightarrow> (a, b) \<in> (pg_arcs P f g)\<^sup>*)"

definition petgraph_ok :: "'g petgraph \<Rightarrow> bool" where
  "petgraph_ok P \<longleftrightarrow> pg_nodes_ok P \<and> pg_edges_ok P \<and> pg_queries_ok P"

section \<open>The channel graph\<close>

record 'g channel_graph =
  cg_me :: address
  cg_indices :: "address \<rightharpoonup> u32"
  cg_graph :: 'g
  cg_cfg :: graph_config

definition cg_new :: "'g petgraph \<Rightarrow> address \<Rightarrow> graph_config \<Rightarrow> ('e, 'g channel_graph) result" where
  "cg_new P me cfg =
     and_then (sma_new_with_samples (gc_latency_sma_window_length cfg)
                 (replicate (gc_latency_sma_window_length cfg) 0)) (\<lambda>l.
     case pg_add_node P (pg_default P) \<lparr>nd_address = me, nd_score = 1, nd_latency = l\<rparr> of
       None \<Rightarrow> Panicked
     | Some (i, g) \<Rightarrow> Ok \<lparr>cg_me = me, cg_indices = [me \<mapsto> i], cg_graph = g, cg_cfg = cfg\<rparr>)"

definition cg_count_channels :: "'g petgraph \<Rightarrow> 'g channel_graph \<Rightarrow> nat" where
  "cg_count_channels P cg = pg_edge_count P (cg_graph cg)"

definition cg_count_nodes :: "'g petgraph \<Rightarrow> 'g channel_graph \<Rightarrow> nat" where
  "cg_count_nodes P cg = pg_node_count P (cg_graph cg)"

definition cg_is_own_channel :: "'g channel_graph \<Rightarrow> channel_entry \<Rightarrow> bool" where
  "cg_is_own_channel cg channel \<longleftrightarrow> ce_destination channel = cg_me cg \<or> ce_source channel = cg_me cg"

definition cg_get_edge ::
  "'g petgraph \<Rightarrow> 'g channel_graph \<Rightarrow> address \<Rightarrow> address \<Rightarrow> (u32 \<times> channel_edge) option" where
  "cg_get_edge P cg src dst =
     (case cg_indices cg src of
        None \<Rightarrow> None
      | Some src_idx \<Rightarrow>
          (case cg_indices cg dst of
             None \<Rightarrow> None
           | Some dst_idx \<Rightarrow>
               (case pg_edges_connecting P (cg_graph cg) src_idx dst_idx of
                  [] \<Rightarrow> None
                | e # _ \<Rightarrow> Some e)))"

definition cg_get_channel :: "'g petgraph \<Rightarrow> 'g channel_graph \<Rightarrow> address \<Rightarrow> address \<Rightarrow> channel_entry option" where
  "cg_get_channel P cg source destination =
     map_option (\<lambda>(_, w). ed_channel w) (cg_get_edge P cg source destination)"

definition cg_get_node :: "'g petgraph \<Rightarrow> 'g channel_graph \<Rightarrow> address \<Rightarrow> node option" where
  "cg_get_node P cg address = Option.bind (cg_indices cg address) (pg_node_weight P (cg_graph cg))"

definition is_open :: "channel_edge \<Rightarrow> bool" where
  "is_open w \<longleftrightarrow> status_eq (ce_status (ed_channel w)) Open"

text \<open>A source that is not in the table gets the number of nodes as its index.\<close>

definition cg_open_channels_from ::
  "'g petgraph \<Rightarrow> 'g channel_graph \<Rightarrow> address \<Rightarrow> ('e, (node \<times> channel_edge) list) result" where
  "cg_open_channels_from P cg source =
     (let idx = (case cg_indices cg source of
                   Some i \<Rightarrow> i
                 | None \<Rightarrow> of_nat (pg_node_count P (cg_graph cg))) in
      collect_res (map (\<lambda>(_, t, w). case pg_node_weight P (cg_graph cg) t of
                                      None \<Rightarrow> Panicked
                                    | Some n \<Rightarrow> Ok (n, w))
                     (filter (\<lambda>(_, _, w). is_open w) (pg_edges_outgoing P (cg_graph cg) idx))))"

definition cg_has_path :: "'g petgraph \<Rightarrow> 'g channel_graph \<Rightarrow> address \<Rightarrow> address \<Rightarrow> bool" where
  "cg_has_path P cg source destination =
     (case cg_indices cg source of
        None \<Rightarrow> False
      | Some s \<Rightarrow>
          (case cg_indices cg destination of
             None \<Rightarrow> False
           | Some d \<Rightarrow> pg_has_path_connecting P is_open (cg_graph cg) s d))"

text \<open>\<open>indices.entry(address).or_insert_with(|| graph.add_node(Node::new(..)))\<close>\<close>

definition cg_index_or_insert ::
  "'g petgraph \<Rightarrow> 'g channel_graph \<Rightarrow> address \<Rightarrow> ('e, u32 \<times> 'g channel_graph) result" where
  "cg_index_or_insert P cg address =
     (case cg_indices cg address of
        Some i \<Rightarrow> Ok (i, cg)
      | None \<Rightarrow>
          and_then (node_new address (gc_latency_sma_window_length (cg_cfg cg))) (\<lambda>n.
          case pg_add_node P (cg_graph cg) n of
            None \<Rightarrow> Panicked
          | Some (i, g) \<Rightarrow> Ok (i, cg\<lparr>cg_graph := g, cg_indices := (cg_indices cg)(address \<mapsto> i)\<rparr>)))"

definition cg_update_channel ::
  "'g petgraph \<Rightarrow> 'g channel_graph \<Rightarrow> channel_entry \<Rightarrow> ('e, channel_change list option \<times> 'g channel_graph) result"
where
  "cg_update_channel P cg channel =
     (let maybe_edge = cg_get_edge P cg (ce_source channel) (ce_destination channel) in
      if status_eq (ce_status channel) Closed then
        (case maybe_edge of
           None \<Rightarrow> Ok (None, cg)
         | Some (eid, old) \<Rightarrow>
             map_res (\<lambda>ret. (Some ret, cg\<lparr>cg_graph := pg_remove_edge P (cg_graph cg) eid\<rparr>))
               (diff_channels (ed_channel old) channel))
      else
        (case maybe_edge of
           Some (eid, old) \<Rightarrow>
             map_res (\<lambda>ret. (Some ret,
                       cg\<lparr>cg_graph := pg_set_edge P (cg_graph cg) eid (old\<lparr>ed_channel := channel\<rparr>)\<rparr>))
               (diff_channels (ed_channel old) channel)
         | None \<Rightarrow>
             and_then (cg_index_or_insert P cg (ce_source channel)) (\<lambda>(src, cg).
             and_then (cg_index_or_insert P cg (ce_destination channel)) (\<lambda>(dst, cg).
             case pg_add_edge P (cg_graph cg) src dst \<lparr>ed_channel = channel, ed_score = None\<rparr> of
               None \<Rightarrow> Panicked
             | Some (_, g) \<Rightarrow> Ok (None, cg\<lparr>cg_graph := g\<rparr>)))))"

definition cg_update_node_score ::
  "'g petgraph \<Rightarrow> 'g channel_graph \<Rightarrow> address \<Rightarrow> node_score_update \<Rightarrow> ('e, 'g channel_graph) result" where
  "cg_update_node_score P cg address score_update =
     (if cg_me cg = address then Ok cg
      else
        (case cg_indices cg address of
           Some idx \<Rightarrow>
             if score_update \<noteq> Unreachable \<or> length (pg_neighbors_undirected P (cg_graph cg) idx) > 0 then
               (case pg_node_weight P (cg_graph cg) idx of
                  Some n \<Rightarrow>
                    Ok (cg\<lparr>cg_graph := pg_set_node P (cg_graph cg) idx (node_update_score n score_update (cg_cfg cg))\<rparr>)
                | None \<Rightarrow> Ok (cg\<lparr>cg_indices := (cg_indices cg)(address := None)\<rparr>))
             else
               (case pg_node_weight P (cg_graph cg) idx of
                  None \<Rightarrow> Ok cg
                | Some n \<Rightarrow>
                    let n = node_update_score n score_update (cg_cfg cg);
                        g = pg_set_node P (cg_graph cg) idx n in
                    if nd_score n < gc_offline_node_score_threshold (cg_cfg cg) then
                      Ok (cg\<lparr>cg_graph := pg_remove_node P g idx, cg_indices := (cg_indices cg)(address := None)\<rparr>)
                    else Ok (cg\<lparr>cg_graph := g\<rparr>))
         | None \<Rightarrow>
             if score_update \<noteq> Unreachable then
               and_then (node_new address (gc_latency_sma_window_length (cg_cfg cg))) (\<lambda>n.
               case pg_add_node P (cg_graph cg) (node_update_score n score_update (cg_cfg cg)) of
                 None \<Rightarrow> Panicked
               | Some (i, g) \<Rightarrow> Ok (cg\<lparr>cg_graph := g, cg_indices := (cg_indices cg)(address \<mapsto> i)\<rparr>))
             else Ok cg))"

definition cg_update_channel_score ::
  "'g petgraph \<Rightarrow> 'g channel_graph \<Rightarrow> address \<Rightarrow> address \<Rightarrow> rat \<Rightarrow> ('e, 'g channel_graph) result" where
  "cg_update_channel_score P cg source destination score =
     (if \<not> score \<ge> 0 then Panicked
      else
        (case cg_get_edge P cg source destination of
           None \<Rightarrow> Ok cg
         | Some (eid, w) \<Rightarrow>
             if score \<noteq> (case ed_score w of Some s \<Rightarrow> s | None \<Rightarrow> - 1)
             then Ok (cg\<lparr>cg_graph := pg_set_edge P (cg_graph cg) eid (w\<lparr>ed_score := Some score\<rparr>)\<rparr>)
             else Ok cg))"

definition cg_get_channel_score :: "'g petgraph \<Rightarrow> 'g channel_graph \<Rightarrow> address \<Rightarrow> address \<Rightarrow> rat option" where
  "cg_get_channel_score P cg source destination =
     (case cg_get_edge P cg source destination of
        None \<Rightarrow> None
      | Some (eid, _) \<Rightarrow> (case pg_edge P (cg_graph cg) eid of None \<Rightarrow> None | Some (_, _, w) \<Rightarrow> ed_score w))"

definition cg_contains_channel :: "'g petgraph \<Rightarrow> 'g channel_graph \<Rightarrow> channel_entry \<Rightarrow> bool" where
  "cg_contains_channel P cg channel \<longleftrightarrow>
     cg_get_channel P cg (ce_source channel) (ce_destination channel) \<noteq> None"

definition cg_contains_node :: "'g petgraph \<Rightarrow> 'g channel_graph \<Rightarrow> address \<Rightarrow> bool" where
  "cg_contains_node P cg address \<longleftrightarrow> cg_get_node P cg address \<noteq> None"

section \<open>Scores stay in the unit interval\<close>

lemma round_half_even_le: "x \<le> of_int k \<Longrightarrow> round_half_even x \<le> k"
proof -
  assume "x \<le> of_int k"
  with round_half_even_bounds [of x] have "of_int (round_half_even x) < (of_int (k + 1) :: rat)" by simp
  then show ?thesis by (simp only: of_int_less_iff)
qed

lemma round_half_even_nonneg: "0 \<le> x \<Longrightarrow> 0 \<le> round_half_even x"
proof -
  assume "0 \<le> x"
  with round_half_even_bounds [of x] have "of_int (- 1) < (of_int (round_half_even x) :: rat)" by simp
  then show ?thesis by (simp only: of_int_less_iff)
qed

lemma f64_exponent_unit:
  assumes "0 < x" "x \<le> 1"
  shows "f64_exponent x \<le> 52"
proof (cases "quotient_of x")
  case (Pair p q)
  have q: "0 < q" by (rule quotient_of_denom_pos [OF Pair])
  have "x = of_int p / of_int q" by (rule quotient_of_div [OF Pair])
  with q assms have p: "0 < p" "p \<le> q" by (simp_all add: zero_less_divide_iff divide_le_eq)
  then have "bitlen p \<le> bitlen q" using bitlen_le_iff_power bitlen_nonneg by (metis bitlen_bounds less_le_trans order_le_less_trans q linorder_not_less)
  then show ?thesis by (simp add: f64_exponent_def Pair Let_def)
qed

lemma f64_round_nonneg: "0 \<le> x \<Longrightarrow> 0 \<le> f64_round x"
  by (cases "x = 0") (simp_all add: f64_round_def Let_def round_half_even_nonneg)

lemma f64_round_unit:
  assumes "0 \<le> x" "x \<le> 1"
  shows "f64_round x \<le> 1"
proof (cases "x = 0")
  case False
  define k where "k = nat (52 - f64_exponent x)"
  let ?u = "2 powi (f64_exponent x - 52) :: rat"
  have "f64_exponent x - 52 = - int k" using f64_exponent_unit [of x] assms False by (simp add: k_def)
  then have u: "?u = 1 / 2 ^ k" by (simp only: power_int_minus power_int_of_nat) (simp add: field_simps)
  have "x / ?u \<le> of_int (2 ^ k)" using assms by (simp add: u)
  then have "round_half_even (x / ?u) \<le> 2 ^ k" by (rule round_half_even_le)
  then have "of_int (round_half_even (x / ?u)) \<le> (2 ^ k :: rat)" by (metis of_int_le_iff of_int_numeral of_int_power)
  then have "of_int (round_half_even (x / ?u)) * ?u \<le> 1" unfolding u by simp
  with assms False show ?thesis by (simp add: f64_round_def Let_def)
qed (simp add: f64_round_def)

definition config_ok :: "graph_config \<Rightarrow> bool" where
  "config_ok cfg \<longleftrightarrow>
     gc_latency_sma_window_length cfg > 1 \<and> 0 \<le> gc_node_score_step_up cfg \<and> 1 \<le> gc_node_score_decay cfg"

lemma node_update_score_bounds:
  assumes "config_ok cfg" "0 \<le> nd_score n" "nd_score n \<le> 1"
  shows "0 \<le> nd_score (node_update_score n u cfg)" "nd_score (node_update_score n u cfg) \<le> 1"
    "nd_address (node_update_score n u cfg) = nd_address n"
proof -
  have "nd_score n / gc_node_score_decay cfg \<le> 1" "0 \<le> nd_score n / gc_node_score_decay cfg"
    using assms by (simp_all add: config_ok_def divide_le_eq)
  then have "0 \<le> f64_round (nd_score n / gc_node_score_decay cfg)" "f64_round (nd_score n / gc_node_score_decay cfg) \<le> 1"
    by (simp_all add: f64_round_nonneg f64_round_unit)
  moreover have "0 \<le> f64_round (nd_score n + gc_node_score_step_up cfg)"
    using assms by (simp add: config_ok_def f64_round_nonneg)
  ultimately show "0 \<le> nd_score (node_update_score n u cfg)" "nd_score (node_update_score n u cfg) \<le> 1"
    "nd_address (node_update_score n u cfg) = nd_address n"
    by (cases u; simp add: Let_def)+
qed

section \<open>The laws of the graph structure\<close>

lemma pg_default_ok: "petgraph_ok P \<Longrightarrow> pg_node_weight P (pg_default P) i = None \<and> pg_edge P (pg_default P) e = None"
  by (simp add: petgraph_ok_def pg_nodes_ok_def pg_edges_ok_def)

lemma pg_add_node_total: "petgraph_ok P \<Longrightarrow> pg_node_count P g < 2 ^ 32 - 1 \<Longrightarrow> \<exists>i g'. pg_add_node P g n = Some (i, g')"
  unfolding petgraph_ok_def pg_nodes_ok_def by fast

lemma pg_add_node_ok:
  assumes "petgraph_ok P" "pg_add_node P g n = Some (i, g')"
  shows "pg_node_weight P g i = None" "pg_node_weight P g' = (pg_node_weight P g)(i \<mapsto> n)"
    "pg_edge P g' = pg_edge P g" "pg_node_count P g' = pg_node_count P g + 1" "pg_edge_count P g' = pg_edge_count P g"
  using assms unfolding petgraph_ok_def pg_nodes_ok_def by blast+

lemma pg_set_node_ok:
  assumes "petgraph_ok P" "pg_node_weight P g i = Some n"
  shows "pg_node_weight P (pg_set_node P g i n') = (pg_node_weight P g)(i \<mapsto> n')"
    "pg_edge P (pg_set_node P g i n') = pg_edge P g"
  using assms unfolding petgraph_ok_def pg_nodes_ok_def by blast+

lemma pg_remove_node_ok:
  assumes "petgraph_ok P"
  shows "pg_node_weight P (pg_remove_node P g i) = (pg_node_weight P g)(i := None)"
    "pg_edge P (pg_remove_node P g i)
       = (\<lambda>e. case pg_edge P g e of Some (s, d, w) \<Rightarrow> if s = i \<or> d = i then None else Some (s, d, w) | None \<Rightarrow> None)"
  using assms unfolding petgraph_ok_def pg_nodes_ok_def by blast+

lemma pg_add_edge_total:
  "petgraph_ok P \<Longrightarrow> pg_edge_count P g < 2 ^ 32 - 1 \<Longrightarrow> pg_node_weight P g s = Some n \<Longrightarrow> pg_node_weight P g d = Some m
   \<Longrightarrow> \<exists>e g'. pg_add_edge P g s d w = Some (e, g')"
  unfolding petgraph_ok_def pg_edges_ok_def by (metis not_None_eq option.discI surj_pair)

lemma pg_add_edge_ok:
  assumes "petgraph_ok P" "pg_add_edge P g s d w = Some (e, g')"
  shows "pg_edge P g e = None" "pg_edge P g' = (pg_edge P g)(e \<mapsto> (s, d, w))" "pg_node_weight P g' = pg_node_weight P g"
  using assms unfolding petgraph_ok_def pg_edges_ok_def by blast+

lemma pg_set_edge_ok:
  assumes "petgraph_ok P" "pg_edge P g e = Some (s, d, w)"
  shows "pg_edge P (pg_set_edge P g e w') = (pg_edge P g)(e \<mapsto> (s, d, w'))"
    "pg_node_weight P (pg_set_edge P g e w') = pg_node_weight P g"
  using assms unfolding petgraph_ok_def pg_edges_ok_def by blast+

lemma pg_remove_edge_ok:
  assumes "petgraph_ok P"
  shows "pg_edge P (pg_remove_edge P g e) = (pg_edge P g)(e := None)"
    "pg_node_weight P (pg_remove_edge P g e) = pg_node_weight P g"
  using assms unfolding petgraph_ok_def pg_edges_ok_def by blast+

lemma pg_queries:
  assumes "petgraph_ok P"
  shows "set (pg_edges_connecting P g a b) = {(e, w). pg_edge P g e = Some (a, b, w)}"
    "set (pg_edges_outgoing P g a) = {(e, b, w). pg_edge P g e = Some (a, b, w)}"
    "set (pg_neighbors_undirected P g i) = {j. \<exists>e w. pg_edge P g e = Some (i, j, w) \<or> pg_edge P g e = Some (j, i, w)}"
    "pg_has_path_connecting P f g a b \<longleftrightarrow> (a, b) \<in> (pg_arcs P f g)\<^sup>*"
  using assms unfolding petgraph_ok_def pg_queries_ok_def by blast+

lemma pg_outgoing_distinct: "petgraph_ok P \<Longrightarrow> distinct (map fst (pg_edges_outgoing P g a))"
  by (simp add: petgraph_ok_def pg_queries_ok_def)

section \<open>Invariant of the channel graph\<close>

definition channel_ok :: "(bytes list \<Rightarrow> hash) \<Rightarrow> channel_entry \<Rightarrow> bool" where
  "channel_ok keccak c \<longleftrightarrow>
     ce_id c = generate_channel_id keccak (ce_source c) (ce_destination c)
     \<and> unat (ce_channel_epoch c) < 2 ^ 32 \<and> unat (ce_ticket_index c) < 2 ^ 64"

definition table_ok :: "'g petgraph \<Rightarrow> (address \<rightharpoonup> u32) \<Rightarrow> 'g \<Rightarrow> bool" where
  "table_ok P idx g \<longleftrightarrow>
     (\<forall>a i. idx a = Some i \<longrightarrow> (\<exists>n. pg_node_weight P g i = Some n \<and> nd_address n = a))
     \<and> (\<forall>i n. pg_node_weight P g i = Some n \<longrightarrow> idx (nd_address n) = Some i \<and> 0 \<le> nd_score n \<and> nd_score n \<le> 1)"

definition edges_ok :: "'g petgraph \<Rightarrow> (bytes list \<Rightarrow> hash) \<Rightarrow> (address \<rightharpoonup> u32) \<Rightarrow> 'g \<Rightarrow> bool" where
  "edges_ok P keccak idx g \<longleftrightarrow>
     (\<forall>e s d w. pg_edge P g e = Some (s, d, w) \<longrightarrow>
        idx (ce_source (ed_channel w)) = Some s \<and> idx (ce_destination (ed_channel w)) = Some d
        \<and> channel_ok keccak (ed_channel w) \<and> ce_status (ed_channel w) \<noteq> Closed
        \<and> (\<forall>e' w'. pg_edge P g e' = Some (s, d, w') \<longrightarrow> e' = e))"

definition cg_ok :: "'g petgraph \<Rightarrow> (bytes list \<Rightarrow> hash) \<Rightarrow> 'g channel_graph \<Rightarrow> bool" where
  "cg_ok P keccak cg \<longleftrightarrow>
     config_ok (cg_cfg cg) \<and> table_ok P (cg_indices cg) (cg_graph cg)
     \<and> edges_ok P keccak (cg_indices cg) (cg_graph cg)
     \<and> (\<exists>n. cg_get_node P cg (cg_me cg) = Some n \<and> nd_score n = 1)"

lemma table_okD:
  assumes "table_ok P idx g"
  shows "idx a = Some i \<Longrightarrow> \<exists>n. pg_node_weight P g i = Some n \<and> nd_address n = a"
    "pg_node_weight P g i = Some n \<Longrightarrow> idx (nd_address n) = Some i"
    "pg_node_weight P g i = Some n \<Longrightarrow> 0 \<le> nd_score n \<and> nd_score n \<le> 1"
  using assms by (auto simp: table_ok_def)

lemma table_ok_inj: "table_ok P idx g \<Longrightarrow> idx a = Some i \<Longrightarrow> idx b = Some i \<Longrightarrow> a = b"
  using table_okD(1) [of P idx g a i] table_okD(1) [of P idx g b i] by auto

lemma edges_okD:
  assumes "edges_ok P keccak idx g" "pg_edge P g e = Some (s, d, w)"
  shows "idx (ce_source (ed_channel w)) = Some s" "idx (ce_destination (ed_channel w)) = Some d"
    "channel_ok keccak (ed_channel w)" "ce_status (ed_channel w) \<noteq> Closed"
    "pg_edge P g e' = Some (s, d, w') \<Longrightarrow> e' = e"
  using assms unfolding edges_ok_def by blast+

lemma cg_okD:
  assumes "cg_ok P keccak cg"
  shows "table_ok P (cg_indices cg) (cg_graph cg)" "edges_ok P keccak (cg_indices cg) (cg_graph cg)"
    "config_ok (cg_cfg cg)"
  using assms by (simp_all add: cg_ok_def)

text \<open>Under the invariant a lookup by addresses finds exactly the edge of the channel between them.\<close>

lemma cg_get_edge_iff:
  assumes "petgraph_ok P" "cg_ok P keccak cg"
  shows "cg_get_edge P cg a b = Some (e, w) \<longleftrightarrow>
    (\<exists>s d. pg_edge P (cg_graph cg) e = Some (s, d, w) \<and> ce_source (ed_channel w) = a \<and> ce_destination (ed_channel w) = b)"
    (is "?L \<longleftrightarrow> ?R")
proof
  note q = pg_queries(1) [OF assms(1)]
  assume ?L
  then obtain s d rest where i: "cg_indices cg a = Some s" "cg_indices cg b = Some d"
      and c: "pg_edges_connecting P (cg_graph cg) s d = (e, w) # rest"
    by (auto simp: cg_get_edge_def split: option.splits list.splits)
  then have "pg_edge P (cg_graph cg) e = Some (s, d, w)" using q [of "cg_graph cg" s d] by auto
  moreover from edges_okD(1,2) [OF cg_okD(2) [OF assms(2)] this] i table_ok_inj [OF cg_okD(1) [OF assms(2)]]
  have "ce_source (ed_channel w) = a" "ce_destination (ed_channel w) = b" by blast+
  ultimately show ?R by blast
next
  note q = pg_queries(1) [OF assms(1)]
  assume ?R
  then obtain s d where e: "pg_edge P (cg_graph cg) e = Some (s, d, w)"
      and ab: "ce_source (ed_channel w) = a" "ce_destination (ed_channel w) = b" by blast
  note ok = edges_okD [OF cg_okD(2) [OF assms(2)] e]
  obtain e' w' rest where c: "pg_edges_connecting P (cg_graph cg) s d = (e', w') # rest"
    using q [of "cg_graph cg" s d] e by (cases "pg_edges_connecting P (cg_graph cg) s d") auto
  then have "pg_edge P (cg_graph cg) e' = Some (s, d, w')" using q [of "cg_graph cg" s d] by auto
  with ok(5) e have "e' = e" "w' = w" by fastforce+
  with c ok(1,2) ab show ?L by (simp add: cg_get_edge_def)
qed

lemma cg_get_channel_iff:
  assumes "petgraph_ok P" "cg_ok P keccak cg"
  shows "cg_get_channel P cg a b = Some c \<longleftrightarrow>
    (\<exists>e s d w. pg_edge P (cg_graph cg) e = Some (s, d, w) \<and> ed_channel w = c \<and> ce_source c = a \<and> ce_destination c = b)"
proof -
  have "cg_get_channel P cg a b = Some c \<longleftrightarrow> (\<exists>e w. cg_get_edge P cg a b = Some (e, w) \<and> ed_channel w = c)"
    by (auto simp: cg_get_channel_def)
  then show ?thesis unfolding cg_get_edge_iff [OF assms] by blast
qed

section \<open>Operations keep the invariant\<close>

lemma cg_okI:
  assumes "config_ok (cg_cfg cg)" "table_ok P (cg_indices cg) (cg_graph cg)"
    "edges_ok P keccak (cg_indices cg) (cg_graph cg)"
    "cg_indices cg (cg_me cg) = Some i" "pg_node_weight P (cg_graph cg) i = Some n" "nd_score n = 1"
  shows "cg_ok P keccak cg"
  using assms by (simp add: cg_ok_def cg_get_node_def)

lemma cg_ok_me:
  assumes "cg_ok P keccak cg"
  obtains i n where "cg_indices cg (cg_me cg) = Some i" "pg_node_weight P (cg_graph cg) i = Some n" "nd_score n = 1"
  using assms by (auto simp: cg_ok_def cg_get_node_def bind_eq_Some_conv)

text \<open>A new node with an address that is not in the table.\<close>

lemma table_ok_add:
  assumes "petgraph_ok P" "table_ok P idx g" "pg_add_node P g n = Some (i, g')" "idx (nd_address n) = None"
    "0 \<le> nd_score n" "nd_score n \<le> 1"
  shows "table_ok P (idx(nd_address n \<mapsto> i)) g'"
proof -
  note a = pg_add_node_ok [OF assms(1,3)]
  have "j \<noteq> i" if "idx b = Some j" for b j
    using table_okD(1) [OF assms(2) that] a(1) by auto
  moreover have "nd_address m \<noteq> nd_address n" if "pg_node_weight P g j = Some m" for j m
    using table_okD(2) [OF assms(2) that] assms(4) by auto
  ultimately show ?thesis
    using assms(2,4-6) unfolding table_ok_def a(2) by auto
qed

lemma edges_ok_extend:
  assumes "edges_ok P keccak idx g" "pg_edge P g' = pg_edge P g" "idx \<subseteq>\<^sub>m idx'"
  shows "edges_ok P keccak idx' g'"
proof -
  have "idx' a = Some i" if "idx a = Some i" for a i
    using assms(3) that by (auto simp: map_le_def dom_def)
  then show ?thesis using assms(1) unfolding edges_ok_def assms(2) by blast
qed

lemma cg_ok_add_node:
  assumes "petgraph_ok P" "cg_ok P keccak cg" "cg_indices cg (nd_address n) = None"
    "pg_add_node P (cg_graph cg) n = Some (i, g')" "0 \<le> nd_score n" "nd_score n \<le> 1"
  shows "cg_ok P keccak (cg\<lparr>cg_graph := g', cg_indices := (cg_indices cg)(nd_address n \<mapsto> i)\<rparr>)"
proof -
  note a = pg_add_node_ok [OF assms(1,4)]
  obtain j m where m: "cg_indices cg (cg_me cg) = Some j" "pg_node_weight P (cg_graph cg) j = Some m" "nd_score m = 1"
    by (rule cg_ok_me [OF assms(2)])
  with a(1) have "j \<noteq> i" by auto
  moreover from m assms(3) have "nd_address n \<noteq> cg_me cg" by auto
  ultimately show ?thesis
    using m table_ok_add [OF assms(1) cg_okD(1) [OF assms(2)] assms(4,3,5,6)] cg_okD(3) [OF assms(2)]
    by (intro cg_okI [where i = j and n = m])
      (auto simp: a assms(3) map_le_def intro!: edges_ok_extend [OF cg_okD(2) [OF assms(2)]])
qed

lemma cg_new_ok:
  assumes "petgraph_ok P" "config_ok cfg" "pg_node_count P (pg_default P) < 2 ^ 32 - 1"
  shows "\<exists>cg. cg_new P me cfg = Ok cg \<and> cg_ok P keccak cg \<and> cg_me cg = me \<and> (\<forall>a b. cg_get_channel P cg a b = None)"
proof -
  note d = pg_default_ok [OF assms(1)]
  let ?l = "foldl sma_push \<lparr>sma_window = [], sma_window_size = gc_latency_sma_window_length cfg, sma_sum = 0\<rparr>
    (replicate (gc_latency_sma_window_length cfg) (0 :: nat))"
  let ?n = "\<lparr>nd_address = me, nd_score = 1, nd_latency = ?l\<rparr>"
  obtain i g where a: "pg_add_node P (pg_default P) ?n = Some (i, g)"
    using pg_add_node_total [OF assms(1,3)] by blast
  let ?cg = "\<lparr>cg_me = me, cg_indices = [me \<mapsto> i], cg_graph = g, cg_cfg = cfg\<rparr>"
  have new: "cg_new P me cfg = Ok ?cg"
    using assms(2) a by (simp add: cg_new_def sma_new_with_samples_def sma_new_def config_ok_def)
  note g = pg_add_node_ok [OF assms(1) a]
  have ok: "cg_ok P keccak ?cg"
    using assms(2) d by (intro cg_okI [where i = i and n = ?n]) (auto simp: table_ok_def edges_ok_def g)
  moreover have "cg_get_channel P ?cg a b = None" for a b
    using cg_get_channel_iff [OF assms(1) ok, of a b] d by (cases "cg_get_channel P ?cg a b") (auto simp: g)
  ultimately show ?thesis using new by auto
qed

lemma cg_index_or_insert_ok:
  assumes "petgraph_ok P" "cg_ok P keccak cg" "pg_node_count P (cg_graph cg) < 2 ^ 32 - 1"
  obtains i cg' where "(cg_index_or_insert P cg a :: ('e, _) result) = Ok (i, cg')" "cg_ok P keccak cg'" "cg_indices cg' a = Some i"
    "cg_indices cg \<subseteq>\<^sub>m cg_indices cg'" "pg_edge P (cg_graph cg') = pg_edge P (cg_graph cg)"
    "pg_node_count P (cg_graph cg') \<le> pg_node_count P (cg_graph cg) + 1"
    "pg_edge_count P (cg_graph cg') = pg_edge_count P (cg_graph cg)" "cg_me cg' = cg_me cg"
proof (cases "cg_indices cg a")
  case (Some i)
  with that [of i cg] assms(2) show thesis by (simp add: cg_index_or_insert_def)
next
  case None
  let ?n = "\<lparr>nd_address = a, nd_score = 0,
    nd_latency = \<lparr>sma_window = [], sma_window_size = gc_latency_sma_window_length (cg_cfg cg), sma_sum = 0 :: nat\<rparr>\<rparr>"
  obtain i g where g: "pg_add_node P (cg_graph cg) ?n = Some (i, g)"
    using pg_add_node_total [OF assms(1,3)] by blast
  let ?cg = "cg\<lparr>cg_graph := g, cg_indices := (cg_indices cg)(a \<mapsto> i)\<rparr>"
  have "(cg_index_or_insert P cg a :: ('e, _) result) = Ok (i, ?cg)"
    using None g cg_okD(3) [OF assms(2)]
    by (simp add: cg_index_or_insert_def node_new_def sma_new_def config_ok_def)
  moreover have "cg_ok P keccak ?cg" using cg_ok_add_node [OF assms(1,2) _ g] None by simp
  moreover have "cg_indices cg \<subseteq>\<^sub>m (cg_indices cg)(a \<mapsto> i)" using None by (auto simp: map_le_def)
  ultimately show thesis using that [of i ?cg] pg_add_node_ok [OF assms(1) g] by simp
qed

lemma diff_channels_total:
  assumes "channel_ok keccak a" "channel_ok keccak b" "ce_source a = ce_source b" "ce_destination a = ce_destination b"
  shows "\<exists>ds. diff_channels a b = Ok ds"
  using assms by (auto simp: diff_channels_def channel_ok_def u256_as_u32_def u256_as_u64_def Let_def)

text \<open>The channels of the graph, and how changes of single edges act on them.\<close>

definition pg_channels :: "'g petgraph \<Rightarrow> 'g \<Rightarrow> channel_entry set" where
  "pg_channels P g = {ed_channel w | e s d w. pg_edge P g e = Some (s, d, w)}"

lemma cg_get_channel_iff_channels:
  assumes "petgraph_ok P" "cg_ok P keccak cg"
  shows "cg_get_channel P cg a b = Some c \<longleftrightarrow> c \<in> pg_channels P (cg_graph cg) \<and> ce_source c = a \<and> ce_destination c = b"
  unfolding cg_get_channel_iff [OF assms] pg_channels_def by blast

lemma cg_ok_edges:
  assumes "cg_ok P keccak cg" "pg_node_weight P g' = pg_node_weight P (cg_graph cg)"
    "edges_ok P keccak (cg_indices cg) g'"
  shows "cg_ok P keccak (cg\<lparr>cg_graph := g'\<rparr>)"
  using assms by (simp add: cg_ok_def table_ok_def cg_get_node_def)

lemma edges_ok_remove:
  assumes "edges_ok P keccak idx g" "pg_edge P g' = (pg_edge P g)(e := None)"
  shows "edges_ok P keccak idx g'"
  using assms(1) unfolding edges_ok_def assms(2) by simp blast

lemma edges_ok_put:
  assumes "edges_ok P keccak idx g" "pg_edge P g' = (pg_edge P g)(e \<mapsto> (s, d, w))"
    "idx (ce_source (ed_channel w)) = Some s" "idx (ce_destination (ed_channel w)) = Some d"
    "channel_ok keccak (ed_channel w)" "ce_status (ed_channel w) \<noteq> Closed"
    "\<And>e' w'. pg_edge P g e' = Some (s, d, w') \<Longrightarrow> e' = e"
  shows "edges_ok P keccak idx g'"
  unfolding edges_ok_def
proof (intro allI impI)
  fix e1 s1 d1 w1
  assume e1: "pg_edge P g' e1 = Some (s1, d1, w1)"
  have "e2 = e1" if "pg_edge P g' e2 = Some (s1, d1, w2)" for e2 w2
    using e1 that assms(2,7) edges_okD(5) [OF assms(1)] by (simp split: if_splits)
  moreover have "idx (ce_source (ed_channel w1)) = Some s1 \<and> idx (ce_destination (ed_channel w1)) = Some d1
      \<and> channel_ok keccak (ed_channel w1) \<and> ce_status (ed_channel w1) \<noteq> Closed"
    using e1 assms(2-6) edges_okD(1-4) [OF assms(1)] by (simp split: if_splits)
  ultimately show "idx (ce_source (ed_channel w1)) = Some s1 \<and> idx (ce_destination (ed_channel w1)) = Some d1
      \<and> channel_ok keccak (ed_channel w1) \<and> ce_status (ed_channel w1) \<noteq> Closed
      \<and> (\<forall>e' w'. pg_edge P g' e' = Some (s1, d1, w') \<longrightarrow> e' = e1)" by blast
qed

text \<open>The effect of an update on the channels, as a map from pairs of addresses.\<close>

definition channels_updated ::
  "'g petgraph \<Rightarrow> 'g channel_graph \<Rightarrow> channel_entry \<Rightarrow> 'g channel_graph \<Rightarrow> bool" where
  "channels_updated P cg c cg' \<longleftrightarrow>
     (\<forall>a b. cg_get_channel P cg' a b =
        (if a = ce_source c \<and> b = ce_destination c then if ce_status c = Closed then None else Some c
         else cg_get_channel P cg a b))"

definition other_channels :: "channel_entry \<Rightarrow> channel_entry set \<Rightarrow> channel_entry set" where
  "other_channels c C = {c' \<in> C. \<not> (ce_source c' = ce_source c \<and> ce_destination c' = ce_destination c)}"

lemma channels_updatedI:
  assumes "petgraph_ok P" "cg_ok P keccak cg" "cg_ok P keccak cg'"
    "pg_channels P (cg_graph cg') = other_channels c (pg_channels P (cg_graph cg)) \<union> (if ce_status c = Closed then {} else {c})"
  shows "channels_updated P cg c cg'"
  unfolding channels_updated_def
proof (intro allI option_eq_by_Some)
  fix a b x
  show "cg_get_channel P cg' a b = Some x \<longleftrightarrow>
      (if a = ce_source c \<and> b = ce_destination c then if ce_status c = Closed then None else Some c
         else cg_get_channel P cg a b) = Some x"
    unfolding cg_get_channel_iff_channels [OF assms(1,3)] assms(4)
    using cg_get_channel_iff_channels [OF assms(1,2), of a b x] by (auto simp: other_channels_def)
qed

lemma cg_get_edgeD:
  assumes "petgraph_ok P" "cg_ok P keccak cg" "cg_get_edge P cg a b = Some (e, w)"
  obtains s d where "pg_edge P (cg_graph cg) e = Some (s, d, w)" "ce_source (ed_channel w) = a"
    "ce_destination (ed_channel w) = b"
    "\<forall>e' s' d' w'. pg_edge P (cg_graph cg) e' = Some (s', d', w') \<longrightarrow>
       e' = e \<or> \<not> (ce_source (ed_channel w') = a \<and> ce_destination (ed_channel w') = b)"
proof -
  note i = cg_get_edge_iff [OF assms(1,2)]
  from assms(3) i obtain s d where e: "pg_edge P (cg_graph cg) e = Some (s, d, w)" "ce_source (ed_channel w) = a"
    "ce_destination (ed_channel w) = b" by blast
  have "e' = e \<or> \<not> (ce_source (ed_channel w') = a \<and> ce_destination (ed_channel w') = b)"
    if "pg_edge P (cg_graph cg) e' = Some (s', d', w')" for e' s' d' w'
    using i [of a b e' w'] assms(3) that by auto
  with that e show thesis by blast
qed

lemma other_channels_drop:
  assumes "pg_edge P g e = Some (s, d, w)" "ce_source (ed_channel w) = ce_source c"
    "ce_destination (ed_channel w) = ce_destination c"
    "\<forall>e' s' d' w'. pg_edge P g e' = Some (s', d', w') \<longrightarrow>
       e' = e \<or> \<not> (ce_source (ed_channel w') = ce_source c \<and> ce_destination (ed_channel w') = ce_destination c)"
  shows "other_channels c (pg_channels P g) = {ed_channel w' | e' s' d' w'. pg_edge P g e' = Some (s', d', w') \<and> e' \<noteq> e}"
    (is "_ = ?R")
proof
  show "other_channels c (pg_channels P g) \<subseteq> ?R"
    using assms(1-3) unfolding other_channels_def pg_channels_def by fastforce
  show "?R \<subseteq> other_channels c (pg_channels P g)"
    using assms(4) unfolding other_channels_def pg_channels_def by blast
qed

lemma remove_channel_ok:
  assumes "petgraph_ok P" "cg_ok P keccak cg" "cg_get_edge P cg (ce_source c) (ce_destination c) = Some (e, w)"
    "ce_status c = Closed"
  defines "cg' \<equiv> cg\<lparr>cg_graph := pg_remove_edge P (cg_graph cg) e\<rparr>"
  shows "cg_ok P keccak cg' \<and> channels_updated P cg c cg'"
proof -
  note r = pg_remove_edge_ok [OF assms(1), of "cg_graph cg" e]
  obtain s d where e: "pg_edge P (cg_graph cg) e = Some (s, d, w)" "ce_source (ed_channel w) = ce_source c"
      "ce_destination (ed_channel w) = ce_destination c"
      "\<forall>e' s' d' w'. pg_edge P (cg_graph cg) e' = Some (s', d', w') \<longrightarrow>
       e' = e \<or> \<not> (ce_source (ed_channel w') = ce_source c \<and> ce_destination (ed_channel w') = ce_destination c)"
    by (rule cg_get_edgeD [OF assms(1-3)])
  have ok': "cg_ok P keccak cg'" unfolding cg'_def
    by (rule cg_ok_edges [OF assms(2) r(2) edges_ok_remove [OF cg_okD(2) [OF assms(2)] r(1)]])
  moreover have "pg_channels P (cg_graph cg') = other_channels c (pg_channels P (cg_graph cg))"
    unfolding other_channels_drop [OF e] by (auto simp: cg'_def pg_channels_def r(1) split: if_splits)
  ultimately show ?thesis using channels_updatedI [OF assms(1,2) ok'] assms(4) by simp
qed

lemma replace_channel_ok:
  assumes "petgraph_ok P" "cg_ok P keccak cg" "cg_get_edge P cg (ce_source c) (ce_destination c) = Some (e, w)"
    "ce_status c \<noteq> Closed" "channel_ok keccak c"
  defines "cg' \<equiv> cg\<lparr>cg_graph := pg_set_edge P (cg_graph cg) e (w\<lparr>ed_channel := c\<rparr>)\<rparr>"
  shows "cg_ok P keccak cg' \<and> channels_updated P cg c cg'"
proof -
  obtain s d where e: "pg_edge P (cg_graph cg) e = Some (s, d, w)" "ce_source (ed_channel w) = ce_source c"
      "ce_destination (ed_channel w) = ce_destination c"
      "\<forall>e' s' d' w'. pg_edge P (cg_graph cg) e' = Some (s', d', w') \<longrightarrow>
       e' = e \<or> \<not> (ce_source (ed_channel w') = ce_source c \<and> ce_destination (ed_channel w') = ce_destination c)"
    by (rule cg_get_edgeD [OF assms(1-3)])
  note r = pg_set_edge_ok [OF assms(1) e(1), of "w\<lparr>ed_channel := c\<rparr>"] and ok = edges_okD [OF cg_okD(2) [OF assms(2)] e(1)]
  have "edges_ok P keccak (cg_indices cg) (pg_set_edge P (cg_graph cg) e (w\<lparr>ed_channel := c\<rparr>))"
    by (rule edges_ok_put [OF cg_okD(2) [OF assms(2)] r(1) _ _ _ _ ok(5)]) (use e(2,3) ok(1,2) assms(4,5) in simp_all)
  then have ok': "cg_ok P keccak cg'" unfolding cg'_def by (rule cg_ok_edges [OF assms(2) r(2)])
  moreover have "pg_channels P (cg_graph cg') = insert c (other_channels c (pg_channels P (cg_graph cg)))"
  proof -
    have "pg_channels P (cg_graph cg') =
      insert (ed_channel (w\<lparr>ed_channel := c\<rparr>)) {ed_channel w' | e' s' d' w'. pg_edge P (cg_graph cg) e' = Some (s', d', w') \<and> e' \<noteq> e}"
      unfolding pg_channels_def cg'_def by (auto simp: r(1))
    then show ?thesis unfolding other_channels_drop [OF e] by simp
  qed
  ultimately show ?thesis using channels_updatedI [OF assms(1,2) ok'] assms(4) by simp
qed

lemma insert_channel_ok:
  assumes "petgraph_ok P" "cg_ok P keccak cg" "channel_ok keccak c" "ce_status c \<noteq> Closed"
    "cg_indices cg (ce_source c) = Some s" "cg_indices cg (ce_destination c) = Some d"
    "cg_get_edge P cg (ce_source c) (ce_destination c) = None"
    "pg_add_edge P (cg_graph cg) s d \<lparr>ed_channel = c, ed_score = None\<rparr> = Some (e, g)"
  shows "cg_ok P keccak (cg\<lparr>cg_graph := g\<rparr>) \<and> channels_updated P cg c (cg\<lparr>cg_graph := g\<rparr>)"
proof -
  note r = pg_add_edge_ok [OF assms(1,8)] and ok = edges_okD [OF cg_okD(2) [OF assms(2)]]
  have other: "\<not> (ce_source (ed_channel w') = ce_source c \<and> ce_destination (ed_channel w') = ce_destination c)"
    if "pg_edge P (cg_graph cg) e' = Some (s', d', w')" for e' s' d' w'
    using assms(7) cg_get_edge_iff [OF assms(1,2), of "ce_source c" "ce_destination c" e' w'] that by auto
  have diff: False if "pg_edge P (cg_graph cg) e' = Some (s, d, w')" for e' w'
    using ok(1,2) [OF that] other [OF that] assms(5,6) table_ok_inj [OF cg_okD(1) [OF assms(2)]] by blast
  have "edges_ok P keccak (cg_indices cg) g"
    by (rule edges_ok_put [OF cg_okD(2) [OF assms(2)] r(2)]) (use diff assms(3-6) in auto)
  then have ok': "cg_ok P keccak (cg\<lparr>cg_graph := g\<rparr>)" by (rule cg_ok_edges [OF assms(2) r(3)])
  have "other_channels c (pg_channels P (cg_graph cg)) = pg_channels P (cg_graph cg)"
    using other unfolding other_channels_def pg_channels_def by blast
  moreover have "pg_channels P g = insert c (pg_channels P (cg_graph cg))"
  proof
    show "pg_channels P g \<subseteq> insert c (pg_channels P (cg_graph cg))"
      by (auto simp: pg_channels_def r(2) split: if_splits)
    have "pg_edge P g e' = Some x" if "pg_edge P (cg_graph cg) e' = Some x" for e' x
      using that r(1,2) by auto
    moreover have "pg_edge P g e = Some (s, d, \<lparr>ed_channel = c, ed_score = None\<rparr>)" by (simp add: r(2))
    ultimately show "insert c (pg_channels P (cg_graph cg)) \<subseteq> pg_channels P g"
      unfolding pg_channels_def by (auto, force+)
  qed
  ultimately have "channels_updated P cg c (cg\<lparr>cg_graph := g\<rparr>)"
    using channels_updatedI [OF assms(1,2) ok'] assms(4) by simp
  with ok' show ?thesis by blast
qed

section \<open>The channel graph is a map from pairs of addresses to channels\<close>

lemma cg_update_channel_new:
  assumes "petgraph_ok P" "cg_ok P keccak cg" "channel_ok keccak c" "ce_status c \<noteq> Closed"
    "cg_count_nodes P cg + 2 < 2 ^ 32" "cg_count_channels P cg + 1 < 2 ^ 32"
    "cg_get_edge P cg (ce_source c) (ce_destination c) = None"
  shows "\<exists>cg'. (cg_update_channel P cg c :: ('e, _) result) = Ok (None, cg') \<and> cg_ok P keccak cg' \<and> channels_updated P cg c cg'"
proof -
  have cap: "pg_node_count P (cg_graph cg) + 1 < 2 ^ 32 - 1" "pg_edge_count P (cg_graph cg) < 2 ^ 32 - 1"
    using assms(5,6) by (simp_all add: cg_count_nodes_def cg_count_channels_def)
  then have "pg_node_count P (cg_graph cg) < 2 ^ 32 - 1" by simp
  then obtain s cg1 where 1: "(cg_index_or_insert P cg (ce_source c) :: ('e, _) result) = Ok (s, cg1)" "cg_ok P keccak cg1"
      "cg_indices cg1 (ce_source c) = Some s" "cg_indices cg \<subseteq>\<^sub>m cg_indices cg1"
      "pg_edge P (cg_graph cg1) = pg_edge P (cg_graph cg)"
      "pg_node_count P (cg_graph cg1) \<le> pg_node_count P (cg_graph cg) + 1"
      "pg_edge_count P (cg_graph cg1) = pg_edge_count P (cg_graph cg)" "cg_me cg1 = cg_me cg"
    by (rule cg_index_or_insert_ok [OF assms(1,2)])
  have "pg_node_count P (cg_graph cg1) < 2 ^ 32 - 1" using 1(6) cap(1) by linarith
  then obtain d cg2 where 2: "(cg_index_or_insert P cg1 (ce_destination c) :: ('e, _) result) = Ok (d, cg2)" "cg_ok P keccak cg2"
      "cg_indices cg2 (ce_destination c) = Some d" "cg_indices cg1 \<subseteq>\<^sub>m cg_indices cg2"
      "pg_edge P (cg_graph cg2) = pg_edge P (cg_graph cg1)"
      "pg_node_count P (cg_graph cg2) \<le> pg_node_count P (cg_graph cg1) + 1"
      "pg_edge_count P (cg_graph cg2) = pg_edge_count P (cg_graph cg1)" "cg_me cg2 = cg_me cg1"
    by (rule cg_index_or_insert_ok [OF assms(1) 1(2)])
  have s: "cg_indices cg2 (ce_source c) = Some s"
    using 1(3) 2(4) by (metis domI map_le_def)
  obtain n m where "pg_node_weight P (cg_graph cg2) s = Some n" "pg_node_weight P (cg_graph cg2) d = Some m"
    using table_okD(1) [OF cg_okD(1) [OF 2(2)]] s 2(3) by blast
  then obtain e g where g: "pg_add_edge P (cg_graph cg2) s d \<lparr>ed_channel = c, ed_score = None\<rparr> = Some (e, g)"
    using pg_add_edge_total [OF assms(1)] cap(2) 1(7) 2(7) by metis
  have same: "cg_get_edge P cg2 a b = cg_get_edge P cg a b" for a b
  proof (rule option_eq_by_Some)
    fix x
    show "cg_get_edge P cg2 a b = Some x \<longleftrightarrow> cg_get_edge P cg a b = Some x"
      by (cases x) (simp add: cg_get_edge_iff [OF assms(1,2)] cg_get_edge_iff [OF assms(1) 2(2)] 1(5) 2(5))
  qed
  have "cg_ok P keccak (cg2\<lparr>cg_graph := g\<rparr>) \<and> channels_updated P cg2 c (cg2\<lparr>cg_graph := g\<rparr>)"
    using insert_channel_ok [OF assms(1) 2(2) assms(3,4) s 2(3) _ g] same assms(7) by simp
  moreover have "(cg_update_channel P cg c :: ('e, _) result) = Ok (None, cg2\<lparr>cg_graph := g\<rparr>)"
    using assms(4,7) 1(1) 2(1) g by (cases "ce_status c") (simp_all add: cg_update_channel_def)
  ultimately show ?thesis by (auto simp: channels_updated_def cg_get_channel_def same)
qed

text \<open>C10: the channel graph behaves as a map from pairs of addresses to channels. An update with a closed channel
removes the entry of its end points, any other update sets it, and all other entries stay; the update reports the
changes against the entry that was present, and none if there was none. It keeps the invariant (the index table and
the graph agree, one edge per pair, no closed channel, scores in the unit interval) and does not panic below the
capacity of the index type.\<close>
theorem channel_graph_is_map:
  fixes P :: "'g petgraph"
  assumes "petgraph_ok P" "cg_ok P keccak cg" "channel_ok keccak c"
    "cg_count_nodes P cg + 2 < 2 ^ 32" "cg_count_channels P cg + 1 < 2 ^ 32"
  shows "\<exists>r cg'. (cg_update_channel P cg c :: ('e, _) result) = Ok (r, cg')
     \<and> (case cg_get_channel P cg (ce_source c) (ce_destination c) of
          None \<Rightarrow> r = None
        | Some old \<Rightarrow> \<exists>ds. r = Some ds \<and> (diff_channels old c :: ('e, _) result) = Ok ds)
     \<and> (\<forall>a b. cg_get_channel P cg' a b =
          (if a = ce_source c \<and> b = ce_destination c then if ce_status c = Closed then None else Some c
           else cg_get_channel P cg a b))
     \<and> cg_ok P keccak cg'"
proof (cases "cg_get_edge P cg (ce_source c) (ce_destination c)")
  case None
  then have n: "cg_get_channel P cg (ce_source c) (ce_destination c) = None" by (simp add: cg_get_channel_def)
  show ?thesis
  proof (cases "ce_status c = Closed")
    case True
    with None n assms(2) show ?thesis by (auto simp: cg_update_channel_def)
  next
    case False
    with cg_update_channel_new [OF assms(1-3) _ assms(4,5) None] n show ?thesis
      by (auto simp: channels_updated_def)
  qed
next
  case (Some x)
  obtain e w where x: "x = (e, w)" by (cases x)
  note Some = Some [unfolded x]
  have n: "cg_get_channel P cg (ce_source c) (ce_destination c) = Some (ed_channel w)"
    using Some by (simp add: cg_get_channel_def)
  obtain s d where "pg_edge P (cg_graph cg) e = Some (s, d, w)" "ce_source (ed_channel w) = ce_source c"
      "ce_destination (ed_channel w) = ce_destination c" by (rule cg_get_edgeD [OF assms(1,2) Some])
  then obtain ds where ds: "(diff_channels (ed_channel w) c :: ('e, _) result) = Ok ds"
    using diff_channels_total [OF edges_okD(3) [OF cg_okD(2) [OF assms(2)]] assms(3)] by blast
  show ?thesis
  proof (cases "ce_status c = Closed")
    case True
    with remove_channel_ok [OF assms(1,2) Some] ds n show ?thesis
      by (auto simp: cg_update_channel_def Some channels_updated_def)
  next
    case False
    then have "\<not> status_eq (ce_status c) Closed" by (cases "ce_status c") auto
    with False replace_channel_ok [OF assms(1,2) Some False assms(3)] ds n show ?thesis
      by (auto simp: cg_update_channel_def Some channels_updated_def)
  qed
qed

section \<open>Node scores\<close>

lemma table_ok_set:
  assumes "petgraph_ok P" "table_ok P idx g" "pg_node_weight P g i = Some n" "nd_address n' = nd_address n"
    "0 \<le> nd_score n'" "nd_score n' \<le> 1"
  shows "table_ok P idx (pg_set_node P g i n')"
  unfolding table_ok_def pg_set_node_ok [OF assms(1,3)]
proof (intro conjI allI impI)
  fix a j
  assume "idx a = Some j"
  from table_okD(1) [OF assms(2) this] assms(3,4)
  show "\<exists>m. ((pg_node_weight P g)(i \<mapsto> n')) j = Some m \<and> nd_address m = a" by auto
next
  fix j m
  assume m: "((pg_node_weight P g)(i \<mapsto> n')) j = Some m"
  show "idx (nd_address m) = Some j" "0 \<le> nd_score m" "nd_score m \<le> 1"
    using m assms(4-6) table_okD(2) [OF assms(2,3)] table_okD(2,3) [OF assms(2), of j m]
    by (simp_all split: if_splits)
qed

lemma cg_ok_set_node:
  fixes u :: node_score_update
  assumes "petgraph_ok P" "cg_ok P keccak cg" "cg_indices cg a = Some i" "a \<noteq> cg_me cg"
    "pg_node_weight P (cg_graph cg) i = Some n"
  defines "cg' \<equiv> cg\<lparr>cg_graph := pg_set_node P (cg_graph cg) i (node_update_score n u (cg_cfg cg))\<rparr>"
  shows "cg_ok P keccak cg'" "cg_get_channel P cg' = cg_get_channel P cg"
    "cg_get_node P cg' = (cg_get_node P cg)(a \<mapsto> node_update_score n u (cg_cfg cg))"
proof -
  note s = pg_set_node_ok [OF assms(1,5)] and t = cg_okD(1) [OF assms(2)]
  note b = node_update_score_bounds [OF cg_okD(3) [OF assms(2)]] table_okD(3) [OF t assms(5)]
  obtain j m where m: "cg_indices cg (cg_me cg) = Some j" "pg_node_weight P (cg_graph cg) j = Some m" "nd_score m = 1"
    by (rule cg_ok_me [OF assms(2)])
  have "j \<noteq> i" using table_ok_inj [OF t assms(3)] m(1) assms(4) by auto
  then show ok': "cg_ok P keccak cg'" unfolding cg'_def
    by (intro cg_okI [where i = j and n = m])
      (use m b cg_okD(3) [OF assms(2)] in
        \<open>auto simp: s intro!: table_ok_set [OF assms(1) t assms(5)] edges_ok_extend [OF cg_okD(2) [OF assms(2)]]\<close>)
  have "cg_get_channel P cg' x y = Some c \<longleftrightarrow> cg_get_channel P cg x y = Some c" for x y c
    by (simp add: cg_get_channel_iff [OF assms(1,2)] cg_get_channel_iff [OF assms(1) ok']) (simp add: cg'_def s)
  then show "cg_get_channel P cg' = cg_get_channel P cg" by (intro ext option_eq_by_Some)
  show "cg_get_node P cg' = (cg_get_node P cg)(a \<mapsto> node_update_score n u (cg_cfg cg))"
  proof
    fix y
    show "cg_get_node P cg' y = ((cg_get_node P cg)(a \<mapsto> node_update_score n u (cg_cfg cg))) y"
    proof (cases "y = a")
      case True
      with assms(3) show ?thesis by (simp add: cg_get_node_def cg'_def s)
    next
      case False
      then have "j \<noteq> i" if "cg_indices cg y = Some j" for j using table_ok_inj [OF t assms(3)] that by blast
      with False show ?thesis by (cases "cg_indices cg y") (simp_all add: cg_get_node_def cg'_def s)
    qed
  qed
qed

lemma cg_ok_remove_node:
  assumes "petgraph_ok P" "cg_ok P keccak cg" "cg_indices cg a = Some i" "a \<noteq> cg_me cg"
    "pg_neighbors_undirected P (cg_graph cg) i = []"
  defines "cg' \<equiv> cg\<lparr>cg_graph := pg_remove_node P (cg_graph cg) i, cg_indices := (cg_indices cg)(a := None)\<rparr>"
  shows "cg_ok P keccak cg'" "cg_get_channel P cg' = cg_get_channel P cg" "cg_get_node P cg' = (cg_get_node P cg)(a := None)"
proof -
  note r = pg_remove_node_ok [OF assms(1), of "cg_graph cg" i] and t = cg_okD(1) [OF assms(2)]
    and ed = edges_okD [OF cg_okD(2) [OF assms(2)]]
  have no: "s \<noteq> i" "d \<noteq> i" if "pg_edge P (cg_graph cg) e = Some (s, d, w)" for e s d w
    using pg_queries(3) [OF assms(1), of "cg_graph cg" i] assms(5) that by auto
  then have e': "pg_edge P (pg_remove_node P (cg_graph cg) i) = pg_edge P (cg_graph cg)"
    unfolding r(2) by (auto simp: fun_eq_iff split: option.split)
  have inj: "j \<noteq> i" if "cg_indices cg y = Some j" "y \<noteq> a" for y j
    using table_ok_inj [OF t assms(3)] that by blast
  obtain j m where m: "cg_indices cg (cg_me cg) = Some j" "pg_node_weight P (cg_graph cg) j = Some m" "nd_score m = 1"
    by (rule cg_ok_me [OF assms(2)])
  have "table_ok P ((cg_indices cg)(a := None)) (pg_remove_node P (cg_graph cg) i)"
    unfolding table_ok_def r(1)
  proof (intro conjI allI impI)
    fix b k
    assume "((cg_indices cg)(a := None)) b = Some k"
    with inj table_okD(1) [OF t, of b k]
    show "\<exists>n. ((pg_node_weight P (cg_graph cg))(i := None)) k = Some n \<and> nd_address n = b"
      by (auto split: if_splits)
  next
    fix k n
    assume n: "((pg_node_weight P (cg_graph cg))(i := None)) k = Some n"
    then have "cg_indices cg (nd_address n) = Some k" "k \<noteq> i" "0 \<le> nd_score n" "nd_score n \<le> 1"
      using table_okD(2,3) [OF t, of k n] by (simp_all split: if_splits)
    then show "((cg_indices cg)(a := None)) (nd_address n) = Some k" "0 \<le> nd_score n" "nd_score n \<le> 1"
      using assms(3) by auto
  qed
  moreover have "edges_ok P keccak ((cg_indices cg)(a := None)) (pg_remove_node P (cg_graph cg) i)"
  proof -
    have "ce_source (ed_channel w) \<noteq> a" "ce_destination (ed_channel w) \<noteq> a"
      if "pg_edge P (cg_graph cg) e = Some (s, d, w)" for e s d w
      using ed(1,2) [OF that] no [OF that] assms(3) by auto
    with cg_okD(2) [OF assms(2)] show ?thesis unfolding edges_ok_def e' by simp
  qed
  ultimately show ok': "cg_ok P keccak cg'" unfolding cg'_def
    using m assms(4) inj [OF m(1)] cg_okD(3) [OF assms(2)]
    by (intro cg_okI [where i = j and n = m]) (auto simp: r(1))
  have "cg_get_channel P cg' x y = Some c \<longleftrightarrow> cg_get_channel P cg x y = Some c" for x y c
    by (simp add: cg_get_channel_iff [OF assms(1,2)] cg_get_channel_iff [OF assms(1) ok']) (simp add: cg'_def e')
  then show "cg_get_channel P cg' = cg_get_channel P cg" by (intro ext option_eq_by_Some)
  show "cg_get_node P cg' = (cg_get_node P cg)(a := None)"
  proof
    fix y
    show "cg_get_node P cg' y = ((cg_get_node P cg)(a := None)) y"
      using inj [of y] by (cases "y = a"; cases "cg_indices cg y") (simp_all add: cg_get_node_def cg'_def r(1))
  qed
qed

text \<open>The nodes after a score update, as a map from addresses.\<close>

definition scored_node :: "graph_config \<Rightarrow> address \<Rightarrow> bool \<Rightarrow> node_score_update \<Rightarrow> node option \<Rightarrow> node option" where
  "scored_node cfg a has_channels u old =
     (case old of
        Some n \<Rightarrow>
          let n' = node_update_score n u cfg in
          if u = Unreachable \<and> \<not> has_channels \<and> nd_score n' < gc_offline_node_score_threshold cfg then None else Some n'
      | None \<Rightarrow>
          if u = Unreachable then None
          else Some (node_update_score \<lparr>nd_address = a, nd_score = 0,
                 nd_latency = \<lparr>sma_window = [], sma_window_size = gc_latency_sma_window_length cfg, sma_sum = 0\<rparr>\<rparr> u cfg))"

lemma cg_insert_node_ok:
  assumes "petgraph_ok P" "cg_ok P keccak cg" "cg_indices cg (nd_address n) = None"
    "pg_add_node P (cg_graph cg) n = Some (i, g)" "0 \<le> nd_score n" "nd_score n \<le> 1"
  defines "cg' \<equiv> cg\<lparr>cg_graph := g, cg_indices := (cg_indices cg)(nd_address n \<mapsto> i)\<rparr>"
  shows "cg_ok P keccak cg'" "cg_get_channel P cg' = cg_get_channel P cg"
    "cg_get_node P cg' = (cg_get_node P cg)(nd_address n \<mapsto> n)"
proof -
  note r = pg_add_node_ok [OF assms(1,4)]
  show ok': "cg_ok P keccak cg'" unfolding cg'_def by (rule cg_ok_add_node [OF assms(1-6)])
  have "cg_get_channel P cg' x y = Some c \<longleftrightarrow> cg_get_channel P cg x y = Some c" for x y c
    by (simp add: cg_get_channel_iff [OF assms(1,2)] cg_get_channel_iff [OF assms(1) ok']) (simp add: cg'_def r(3))
  then show "cg_get_channel P cg' = cg_get_channel P cg" by (intro ext option_eq_by_Some)
  show "cg_get_node P cg' = (cg_get_node P cg)(nd_address n \<mapsto> n)"
  proof
    fix y
    have "j \<noteq> i" if "cg_indices cg y = Some j" for j
      using table_okD(1) [OF cg_okD(1) [OF assms(2)] that] r(1) by auto
    then show "cg_get_node P cg' y = ((cg_get_node P cg)(nd_address n \<mapsto> n)) y"
      by (cases "y = nd_address n"; cases "cg_indices cg y") (simp_all add: cg_get_node_def cg'_def r(2))
  qed
qed

lemma cg_neighbors_iff:
  assumes "petgraph_ok P" "cg_ok P keccak cg" "cg_indices cg a = Some i"
  shows "pg_neighbors_undirected P (cg_graph cg) i \<noteq> [] \<longleftrightarrow>
    (\<exists>b. cg_get_channel P cg a b \<noteq> None \<or> cg_get_channel P cg b a \<noteq> None)"
proof -
  note ed = edges_okD(1,2) [OF cg_okD(2) [OF assms(2)]] and inj = table_ok_inj [OF cg_okD(1) [OF assms(2)] assms(3)]
  have "pg_neighbors_undirected P (cg_graph cg) i \<noteq> [] \<longleftrightarrow>
      (\<exists>e j w. pg_edge P (cg_graph cg) e = Some (i, j, w) \<or> pg_edge P (cg_graph cg) e = Some (j, i, w))"
    unfolding set_empty [symmetric] pg_queries(3) [OF assms(1)] by blast
  also have "\<dots> \<longleftrightarrow> (\<exists>c \<in> pg_channels P (cg_graph cg). ce_source c = a \<or> ce_destination c = a)"
  proof
    assume "\<exists>e j w. pg_edge P (cg_graph cg) e = Some (i, j, w) \<or> pg_edge P (cg_graph cg) e = Some (j, i, w)"
    then obtain e s d w where e: "pg_edge P (cg_graph cg) e = Some (s, d, w)" "s = i \<or> d = i" by blast
    with ed [OF e(1)] inj have "ce_source (ed_channel w) = a \<or> ce_destination (ed_channel w) = a" by blast
    with e(1) show "\<exists>c \<in> pg_channels P (cg_graph cg). ce_source c = a \<or> ce_destination c = a"
      unfolding pg_channels_def by blast
  next
    assume "\<exists>c \<in> pg_channels P (cg_graph cg). ce_source c = a \<or> ce_destination c = a"
    then obtain e s d w where e: "pg_edge P (cg_graph cg) e = Some (s, d, w)"
        "ce_source (ed_channel w) = a \<or> ce_destination (ed_channel w) = a" unfolding pg_channels_def by blast
    with ed [OF e(1)] assms(3) have "s = i \<or> d = i" by auto
    with e(1) show "\<exists>e j w. pg_edge P (cg_graph cg) e = Some (i, j, w) \<or> pg_edge P (cg_graph cg) e = Some (j, i, w)" by blast
  qed
  also have "\<dots> \<longleftrightarrow> (\<exists>b. cg_get_channel P cg a b \<noteq> None \<or> cg_get_channel P cg b a \<noteq> None)"
    unfolding not_None_eq cg_get_channel_iff_channels [OF assms(1,2)] by blast
  finally show ?thesis .
qed

lemma cg_get_node_index:
  "cg_ok P keccak cg \<Longrightarrow> cg_indices cg a = Some i \<Longrightarrow> \<exists>n. pg_node_weight P (cg_graph cg) i = Some n \<and> cg_get_node P cg a = Some n"
  using table_okD(1) [OF cg_okD(1), of P keccak cg a i] by (auto simp: cg_get_node_def)

lemma cg_get_node_None: "cg_indices cg a = None \<Longrightarrow> cg_get_node P cg a = None"
  by (simp add: cg_get_node_def)

lemma scored_existing:
  assumes "petgraph_ok P" "cg_ok P keccak cg" "a \<noteq> cg_me cg" "cg_indices cg a = Some i"
    "h \<longleftrightarrow> (\<exists>b. cg_get_channel P cg a b \<noteq> None \<or> cg_get_channel P cg b a \<noteq> None)"
  shows "\<exists>cg'. (cg_update_node_score P cg a u :: ('e, _) result) = Ok cg' \<and> cg_ok P keccak cg'
    \<and> cg_get_channel P cg' = cg_get_channel P cg
    \<and> cg_get_node P cg' = (cg_get_node P cg)(a := scored_node (cg_cfg cg) a h u (cg_get_node P cg a))"
proof -
  obtain n where n: "pg_node_weight P (cg_graph cg) i = Some n" "cg_get_node P cg a = Some n"
    using cg_get_node_index [OF assms(2,4)] by blast
  let ?n' = "node_update_score n u (cg_cfg cg)" and ?g = "pg_set_node P (cg_graph cg) i (node_update_score n u (cg_cfg cg))"
  note s = cg_ok_set_node [OF assms(1,2,4,3) n(1), of u]
  have h: "h \<longleftrightarrow> pg_neighbors_undirected P (cg_graph cg) i \<noteq> []"
    using cg_neighbors_iff [OF assms(1,2,4)] assms(5) by blast
  show ?thesis
  proof (cases "u = Unreachable \<and> \<not> h \<and> nd_score ?n' < gc_offline_node_score_threshold (cg_cfg cg)")
    case True
    have "pg_edge P ?g = pg_edge P (cg_graph cg)" by (rule pg_set_node_ok(2) [OF assms(1) n(1)])
    moreover have "set (pg_neighbors_undirected P (cg_graph cg) i) = {}" using True h by simp
    ultimately have "pg_neighbors_undirected P ?g i = []"
      unfolding set_empty [symmetric] pg_queries(3) [OF assms(1)] by simp
    from cg_ok_remove_node [OF assms(1) s(1) _ _ , of a i] this assms(3,4) s(2,3) True n h show ?thesis
      by (auto simp: cg_update_node_score_def scored_node_def Let_def)
  next
    case False
    then have "(cg_update_node_score P cg a u :: ('e, _) result) = Ok (cg\<lparr>cg_graph := ?g\<rparr>)"
      using assms(3,4) n h by (auto simp: cg_update_node_score_def Let_def)
    with s False n show ?thesis by (auto simp: scored_node_def Let_def)
  qed
qed

text \<open>C35: a score update of another node never changes the channels and keeps the invariant, so every score stays
between 0 and 1 and the own node keeps its full score. It changes the entry of that node only: a known node gets the
updated score and latency and is dropped exactly if it is unreachable, has no channel and its score fell below the
offline threshold; an unknown node is added unless it is unreachable. Updates of the own node are ignored.\<close>
theorem node_score_update_correct:
  fixes P :: "'g petgraph"
  assumes "petgraph_ok P" "cg_ok P keccak cg" "cg_count_nodes P cg + 1 < 2 ^ 32"
  shows "\<exists>cg'. (cg_update_node_score P cg a u :: ('e, _) result) = Ok cg' \<and> cg_ok P keccak cg'
     \<and> cg_get_channel P cg' = cg_get_channel P cg
     \<and> cg_get_node P cg' = (cg_get_node P cg)(a :=
          (if a = cg_me cg then cg_get_node P cg a
           else scored_node (cg_cfg cg) a (\<exists>b. cg_get_channel P cg a b \<noteq> None \<or> cg_get_channel P cg b a \<noteq> None) u
                  (cg_get_node P cg a)))"
proof (cases "a = cg_me cg")
  case True
  with assms(2) show ?thesis by (simp add: cg_update_node_score_def)
next
  case False
  show ?thesis
  proof (cases "cg_indices cg a")
    case (Some i)
    from scored_existing [OF assms(1,2) False Some refl, of u] False show ?thesis by simp
  next
    case None
    note none = cg_get_node_None [OF None, of P]
    show ?thesis
    proof (cases "u = Unreachable")
      case True
      with False None none assms(2) show ?thesis
        by (auto simp: cg_update_node_score_def scored_node_def)
    next
      case u: False
      let ?m = "\<lparr>nd_address = a, nd_score = 0,
        nd_latency = \<lparr>sma_window = [], sma_window_size = gc_latency_sma_window_length (cg_cfg cg), sma_sum = 0 :: nat\<rparr>\<rparr>"
      let ?n = "node_update_score ?m u (cg_cfg cg)"
      have b: "0 \<le> nd_score ?n" "nd_score ?n \<le> 1" "nd_address ?n = a"
        using node_update_score_bounds [OF cg_okD(3) [OF assms(2)], of ?m u] by simp_all
      have "pg_node_count P (cg_graph cg) < 2 ^ 32 - 1" using assms(3) by (simp add: cg_count_nodes_def)
      then obtain i g where g: "pg_add_node P (cg_graph cg) ?n = Some (i, g)"
        using pg_add_node_total [OF assms(1)] by blast
      have "(cg_update_node_score P cg a u :: ('e, _) result)
          = Ok (cg\<lparr>cg_graph := g, cg_indices := (cg_indices cg)(nd_address ?n \<mapsto> i)\<rparr>)"
        using False None u g cg_okD(3) [OF assms(2)] b(3)
        by (simp add: cg_update_node_score_def node_new_def sma_new_def config_ok_def)
      moreover have "cg_indices cg (nd_address ?n) = None" using None b(3) by simp
      note cg_insert_node_ok [OF assms(1,2) this g b(1,2)]
      ultimately show ?thesis using False u none b(3) by (simp add: scored_node_def)
    qed
  qed
qed

section \<open>Channel scores and open channels\<close>

lemma collect_res_lookup:
  assumes "\<And>e t w. (e, t, w) \<in> set xs \<Longrightarrow> \<exists>n. f t = Some n"
  shows "collect_res (map (\<lambda>(_, t, w). case f t of None \<Rightarrow> Panicked | Some n \<Rightarrow> Ok (n, w)) xs)
    = Ok (map (\<lambda>(_, t, w). (the (f t), w)) xs)"
  by (rule collect_res_Ok) (use assms in force)

text \<open>The list of open channels that leave the node with index \<open>i\<close>.\<close>

definition open_list :: "'g petgraph \<Rightarrow> 'g channel_graph \<Rightarrow> u32 \<Rightarrow> (node \<times> channel_edge) list" where
  "open_list P cg i = map (\<lambda>(_, t, w). (the (pg_node_weight P (cg_graph cg) t), w))
     (filter (\<lambda>(_, _, w). is_open w) (pg_edges_outgoing P (cg_graph cg) i))"

lemma open_channels_at:
  assumes "petgraph_ok P" "cg_ok P keccak cg"
  shows "(collect_res (map (\<lambda>(_, t, w). case pg_node_weight P (cg_graph cg) t of None \<Rightarrow> Panicked | Some n \<Rightarrow> Ok (n, w))
      (filter (\<lambda>(_, _, w). is_open w) (pg_edges_outgoing P (cg_graph cg) i))) :: ('e, _) result) = Ok (open_list P cg i)"
    "set (open_list P cg i) =
      {(n, w). \<exists>e d. pg_edge P (cg_graph cg) e = Some (i, d, w) \<and> is_open w
         \<and> cg_get_node P cg (ce_destination (ed_channel w)) = Some n}"
proof -
  note q = pg_queries(2) [OF assms(1), of "cg_graph cg" i] and ed = edges_okD(2) [OF cg_okD(2) [OF assms(2)]]
  have node: "\<exists>n. pg_node_weight P (cg_graph cg) d = Some n \<and> cg_get_node P cg (ce_destination (ed_channel w)) = Some n"
    if "pg_edge P (cg_graph cg) e = Some (i, d, w)" for e d w
    by (rule cg_get_node_index [OF assms(2) ed [OF that]])
  let ?xs = "filter (\<lambda>(_, _, w). is_open w) (pg_edges_outgoing P (cg_graph cg) i)"
  have xs: "(e, t, w) \<in> set ?xs \<longleftrightarrow> is_open w \<and> pg_edge P (cg_graph cg) e = Some (i, t, w)" for e t w
    using q by auto
  have "\<exists>n. pg_node_weight P (cg_graph cg) t = Some n" if "(e, t, w) \<in> set ?xs" for e t w
    using that [unfolded xs] node by blast
  then show "(collect_res (map (\<lambda>(_, t, w). case pg_node_weight P (cg_graph cg) t of None \<Rightarrow> Panicked | Some n \<Rightarrow> Ok (n, w)) ?xs)
      :: ('e, _) result) = Ok (open_list P cg i)" unfolding open_list_def by (rule collect_res_lookup)
  have "(n, w) \<in> set (open_list P cg i) \<longleftrightarrow> (\<exists>e t. (e, t, w) \<in> set ?xs \<and> n = the (pg_node_weight P (cg_graph cg) t))" for n w
    unfolding open_list_def by force
  then show "set (open_list P cg i) =
      {(n, w). \<exists>e d. pg_edge P (cg_graph cg) e = Some (i, d, w) \<and> is_open w
         \<and> cg_get_node P cg (ce_destination (ed_channel w)) = Some n}"
    unfolding xs using node by (auto, force+)
qed

lemma open_list_distinct:
  assumes "petgraph_ok P" "cg_ok P keccak cg"
  shows "distinct (map (\<lambda>(_, w). ce_destination (ed_channel w)) (open_list P cg i))"
proof -
  let ?es = "pg_edges_outgoing P (cg_graph cg) i"
  note q = pg_queries(2) [OF assms(1), of "cg_graph cg" i] and ed = edges_okD [OF cg_okD(2) [OF assms(2)]]
  have "e = e'" if e: "(e, t, w) \<in> set ?es" "(e', t', w') \<in> set ?es" "ce_destination (ed_channel w) = ce_destination (ed_channel w')"
    for e t w e' t' w'
  proof -
    from e q have p: "pg_edge P (cg_graph cg) e = Some (i, t, w)" "pg_edge P (cg_graph cg) e' = Some (i, t', w')" by auto
    with ed(2) [OF p(1)] ed(2) [OF p(2)] e(3) have "t' = t" by simp
    with ed(5) [OF p(1)] p(2) show ?thesis by blast
  qed
  note same = this
  have d: "distinct ?es" "inj_on fst (set ?es)" using pg_outgoing_distinct [OF assms(1)] by (simp_all add: distinct_map)
  have "inj_on (\<lambda>x. ce_destination (ed_channel (snd (snd x)))) (set ?es)"
  proof (rule inj_onI)
    fix x y
    assume m: "x \<in> set ?es" "y \<in> set ?es"
      and eq: "ce_destination (ed_channel (snd (snd x))) = ce_destination (ed_channel (snd (snd y)))"
    have "fst x = fst y" using same [of "fst x" "fst (snd x)" "snd (snd x)" "fst y" "fst (snd y)" "snd (snd y)"] m eq
      by (simp add: case_prod_beta)
    from inj_onD [OF d(2) this m] show "x = y" .
  qed
  with d(1) show ?thesis
    unfolding open_list_def by (auto simp: distinct_map comp_def case_prod_beta intro: inj_on_subset)
qed

definition open_edges_from :: "'g petgraph \<Rightarrow> 'g channel_graph \<Rightarrow> address \<Rightarrow> (node \<times> channel_edge) set" where
  "open_edges_from P cg source =
     {(n, w). (\<exists>e. cg_get_edge P cg source (ce_destination (ed_channel w)) = Some (e, w))
        \<and> ce_status (ed_channel w) = Open \<and> cg_get_node P cg (ce_destination (ed_channel w)) = Some n}"

lemma is_open_iff: "is_open w \<longleftrightarrow> ce_status (ed_channel w) = Open"
  by (cases "ce_status (ed_channel w)") (simp_all add: is_open_def)

lemma open_channels_known:
  assumes "petgraph_ok P" "cg_ok P keccak cg" "cg_indices cg source = Some i"
  shows "\<exists>xs. (cg_open_channels_from P cg source :: ('e, _) result) = Ok xs \<and> set xs = open_edges_from P cg source
    \<and> distinct (map (\<lambda>(_, w). ce_destination (ed_channel w)) xs)"
proof -
  note at = open_channels_at [OF assms(1,2), of i] and ed = edges_okD(1) [OF cg_okD(2) [OF assms(2)]]
  have "pg_edge P (cg_graph cg) e = Some (i, d, w) \<longleftrightarrow>
      pg_edge P (cg_graph cg) e = Some (i, d, w) \<and> ce_source (ed_channel w) = source" for e d w
    using ed [of e i d w] table_ok_inj [OF cg_okD(1) [OF assms(2)] assms(3)] by blast
  moreover have "s = i" if "pg_edge P (cg_graph cg) e = Some (s, d, w)" "ce_source (ed_channel w) = source" for e s d w
    using ed [OF that(1)] that(2) assms(3) by simp
  ultimately have "{(n, w). \<exists>e d. pg_edge P (cg_graph cg) e = Some (i, d, w) \<and> is_open w
         \<and> cg_get_node P cg (ce_destination (ed_channel w)) = Some n} = open_edges_from P cg source"
    unfolding open_edges_from_def is_open_iff cg_get_edge_iff [OF assms(1,2)] by blast
  moreover have "(cg_open_channels_from P cg source :: ('e, _) result) = Ok (open_list P cg i)"
    using assms(3) by (simp add: cg_open_channels_from_def at(1))
  ultimately show ?thesis using at(2) open_list_distinct [OF assms(1,2), of i] by blast
qed

lemma table_ok_eq_iff:
  assumes "table_ok P idx g" "idx x = Some s" "idx a = Some i"
  shows "x = a \<longleftrightarrow> s = i"
  using table_ok_inj [OF assms(1,2), of a] assms(2,3) by auto

text \<open>The outgoing open channels of a node in the graph are exactly its channels with the status Open, each with
the node it leads to; the enumeration never panics. For an address that is not in the graph the code looks up the
number of nodes as an index, which is the index of a live node once nodes have been removed: then the channels of that
unrelated node are returned.\<close>
lemma open_channels_from_correct:
  fixes P :: "'g petgraph"
  assumes "petgraph_ok P" "cg_ok P keccak cg"
  shows "(cg_indices cg source \<noteq> None \<longrightarrow>
        (\<exists>xs. (cg_open_channels_from P cg source :: ('e, _) result) = Ok xs \<and> set xs = open_edges_from P cg source))
    \<and> (cg_indices cg source = None \<longrightarrow>
        (\<forall>other. cg_indices cg other = Some (of_nat (cg_count_nodes P cg)) \<longrightarrow>
           (cg_open_channels_from P cg source :: ('e, _) result) = cg_open_channels_from P cg other)
        \<and> ((\<nexists>other. cg_indices cg other = Some (of_nat (cg_count_nodes P cg))) \<longrightarrow>
           (cg_open_channels_from P cg source :: ('e, _) result) = Ok []))"
proof (intro conjI impI allI)
  show "\<exists>xs. (cg_open_channels_from P cg source :: ('e, _) result) = Ok xs \<and> set xs = open_edges_from P cg source"
    if "cg_indices cg source \<noteq> None"
    using open_channels_known [OF assms] that by blast
next
  fix other
  assume "cg_indices cg source = None" "cg_indices cg other = Some (of_nat (cg_count_nodes P cg))"
  then show "(cg_open_channels_from P cg source :: ('e, _) result) = cg_open_channels_from P cg other"
    by (simp add: cg_open_channels_from_def cg_count_nodes_def)
next
  let ?i = "of_nat (pg_node_count P (cg_graph cg)) :: u32"
  assume s: "cg_indices cg source = None" and no: "\<nexists>other. cg_indices cg other = Some (of_nat (cg_count_nodes P cg))"
  have "pg_edges_outgoing P (cg_graph cg) ?i = []"
    using pg_queries(2) [OF assms(1), of "cg_graph cg" ?i] edges_okD(1) [OF cg_okD(2) [OF assms(2)]] no
    by (cases "pg_edges_outgoing P (cg_graph cg) ?i") (auto simp: cg_count_nodes_def, blast)
  with s show "(cg_open_channels_from P cg source :: ('e, _) result) = Ok []"
    by (simp add: cg_open_channels_from_def)
qed

definition open_channel_rel :: "'g petgraph \<Rightarrow> 'g channel_graph \<Rightarrow> (address \<times> address) set" where
  "open_channel_rel P cg = {(a, b). \<exists>c. cg_get_channel P cg a b = Some c \<and> ce_status c = Open}"

lemma open_arcs_iff:
  assumes "petgraph_ok P" "cg_ok P keccak cg" "cg_indices cg a = Some i" "cg_indices cg b = Some j"
  shows "(i, j) \<in> pg_arcs P is_open (cg_graph cg) \<longleftrightarrow> (a, b) \<in> open_channel_rel P cg"
proof -
  note ed = edges_okD(1,2) [OF cg_okD(2) [OF assms(2)]] and eq = table_ok_eq_iff [OF cg_okD(1) [OF assms(2)]]
  have "pg_edge P (cg_graph cg) e = Some (s, d, w) \<and> ce_source (ed_channel w) = a \<and> ce_destination (ed_channel w) = b
      \<longleftrightarrow> pg_edge P (cg_graph cg) e = Some (s, d, w) \<and> s = i \<and> d = j" for e s d w
  proof (cases "pg_edge P (cg_graph cg) e = Some (s, d, w)")
    case True
    with eq [OF ed(1) [OF True] assms(3)] eq [OF ed(2) [OF True] assms(4)] show ?thesis by blast
  qed blast
  note same = this
  show ?thesis
  proof
    assume "(i, j) \<in> pg_arcs P is_open (cg_graph cg)"
    then obtain e w where e: "pg_edge P (cg_graph cg) e = Some (i, j, w)" "is_open w" by (auto simp: pg_arcs_def)
    with same [of e i j w] have "cg_get_channel P cg a b = Some (ed_channel w)"
      unfolding cg_get_channel_iff [OF assms(1,2)] by blast
    with e(2) show "(a, b) \<in> open_channel_rel P cg" by (simp add: open_channel_rel_def is_open_iff)
  next
    assume "(a, b) \<in> open_channel_rel P cg"
    then obtain e s d w where "pg_edge P (cg_graph cg) e = Some (s, d, w)" "ce_source (ed_channel w) = a"
        "ce_destination (ed_channel w) = b" "ce_status (ed_channel w) = Open"
      unfolding open_channel_rel_def by (auto simp: cg_get_channel_iff [OF assms(1,2)])
    with same [of e s d w] show "(i, j) \<in> pg_arcs P is_open (cg_graph cg)" by (auto simp: pg_arcs_def is_open_iff)
  qed
qed

lemma open_arcs_known:
  assumes "cg_ok P keccak cg" "(i, j) \<in> pg_arcs P f (cg_graph cg)"
  shows "\<exists>a b. cg_indices cg a = Some i \<and> cg_indices cg b = Some j"
  using assms(2) edges_okD(1,2) [OF cg_okD(2) [OF assms(1)]] unfolding pg_arcs_def by blast

lemma open_rel_known:
  assumes "petgraph_ok P" "cg_ok P keccak cg" "(a, b) \<in> open_channel_rel P cg"
  shows "\<exists>i j. cg_indices cg a = Some i \<and> cg_indices cg b = Some j"
  using assms(3) edges_okD(1,2) [OF cg_okD(2) [OF assms(2)]]
  unfolding open_channel_rel_def cg_get_channel_iff [OF assms(1,2)] by blast

text \<open>There is a path between two addresses exactly if both are in the graph and the destination can be reached
from the source through channels with the status Open.\<close>
lemma has_path_iff:
  assumes "petgraph_ok P" "cg_ok P keccak cg"
  shows "cg_has_path P cg a b \<longleftrightarrow>
    cg_contains_node P cg a \<and> cg_contains_node P cg b \<and> (a, b) \<in> (open_channel_rel P cg)\<^sup>*"
proof -
  have node: "cg_contains_node P cg x \<longleftrightarrow> cg_indices cg x \<noteq> None" for x
    using cg_get_node_index [OF assms(2), of x] by (cases "cg_indices cg x") (auto simp: cg_contains_node_def cg_get_node_def)
  have up: "\<exists>b. cg_indices cg b = Some j \<and> (a, b) \<in> (open_channel_rel P cg)\<^sup>*"
    if "(i, j) \<in> (pg_arcs P is_open (cg_graph cg))\<^sup>*" "cg_indices cg a = Some i" for i j
    using that
  proof (induction rule: rtrancl_induct)
    case (step j k)
    then obtain b where b: "cg_indices cg b = Some j" "(a, b) \<in> (open_channel_rel P cg)\<^sup>*" by blast
    obtain c where c: "cg_indices cg c = Some k" using open_arcs_known [OF assms(2) step.hyps(2)] by blast
    with step.hyps(2) open_arcs_iff [OF assms b(1) c] have "(b, c) \<in> open_channel_rel P cg" by blast
    with b(2) c show ?case by (meson rtrancl.rtrancl_into_rtrancl)
  qed blast
  have down: "\<exists>j. cg_indices cg b = Some j \<and> (i, j) \<in> (pg_arcs P is_open (cg_graph cg))\<^sup>*"
    if "(a, b) \<in> (open_channel_rel P cg)\<^sup>*" "cg_indices cg a = Some i" for i
    using that
  proof (induction rule: rtrancl_induct)
    case (step b c)
    then obtain j where b: "cg_indices cg b = Some j" "(i, j) \<in> (pg_arcs P is_open (cg_graph cg))\<^sup>*" by blast
    obtain k where c: "cg_indices cg c = Some k" using open_rel_known [OF assms step.hyps(2)] by blast
    with step.hyps(2) open_arcs_iff [OF assms b(1) c] have "(j, k) \<in> pg_arcs P is_open (cg_graph cg)" by blast
    with b(2) c show ?case by (meson rtrancl.rtrancl_into_rtrancl)
  qed blast
  show ?thesis
  proof (cases "cg_indices cg a = None \<or> cg_indices cg b = None")
    case False
    then obtain i j where ij: "cg_indices cg a = Some i" "cg_indices cg b = Some j" by auto
    have "(i, j) \<in> (pg_arcs P is_open (cg_graph cg))\<^sup>* \<longleftrightarrow> (a, b) \<in> (open_channel_rel P cg)\<^sup>*"
      using up [of i j] down [of i] ij table_ok_inj [OF cg_okD(1) [OF assms(2)] ij(2)] by (metis option.inject)
    with ij show ?thesis unfolding node by (simp add: cg_has_path_def pg_queries(4) [OF assms(1)])
  qed (auto simp: node cg_has_path_def split: option.split)
qed

lemma channel_score_roundtrip:
  assumes "petgraph_ok P" "cg_ok P keccak cg" "cg_get_channel P cg a b = Some c" "0 \<le> score"
  shows "\<exists>cg'. (cg_update_channel_score P cg a b score :: ('e, _) result) = Ok cg'
    \<and> cg_get_channel_score P cg' a b = Some score \<and> cg_get_channel P cg' = cg_get_channel P cg \<and> cg_ok P keccak cg'"
proof -
  obtain e w where e: "cg_get_edge P cg a b = Some (e, w)" "ed_channel w = c"
    using assms(3) by (auto simp: cg_get_channel_def)
  obtain s d where sd: "pg_edge P (cg_graph cg) e = Some (s, d, w)" "ce_source (ed_channel w) = a"
      "ce_destination (ed_channel w) = b" by (rule cg_get_edgeD [OF assms(1,2) e(1)])
  let ?w = "w\<lparr>ed_score := Some score\<rparr>"
  let ?cg = "cg\<lparr>cg_graph := pg_set_edge P (cg_graph cg) e ?w\<rparr>"
  note r = pg_set_edge_ok [OF assms(1) sd(1), of ?w] and ok = edges_okD [OF cg_okD(2) [OF assms(2)] sd(1)]
  have "edges_ok P keccak (cg_indices cg) (pg_set_edge P (cg_graph cg) e ?w)"
    by (rule edges_ok_put [OF cg_okD(2) [OF assms(2)] r(1) _ _ _ _ ok(5)]) (use ok(1-4) in simp_all)
  then have ok': "cg_ok P keccak ?cg" by (rule cg_ok_edges [OF assms(2) r(2)])
  have "cg_get_edge P ?cg a b = Some (e, ?w)"
    unfolding cg_get_edge_iff [OF assms(1) ok'] using r(1) sd by simp
  then have score: "cg_get_channel_score P ?cg a b = Some score" by (simp add: cg_get_channel_score_def r(1))
  have "pg_channels P (cg_graph ?cg) = pg_channels P (cg_graph cg)"
  proof -
    have "\<exists>w'. pg_edge P (cg_graph ?cg) e' = Some (s', d', w') \<and> ed_channel w' = ed_channel v"
      if "pg_edge P (cg_graph cg) e' = Some (s', d', v)" for e' s' d' v
      using that sd(1) r(1) by (cases "e' = e") auto
    moreover have "\<exists>v. pg_edge P (cg_graph cg) e' = Some (s', d', v) \<and> ed_channel v = ed_channel w'"
      if "pg_edge P (cg_graph ?cg) e' = Some (s', d', w')" for e' s' d' w'
      using that sd(1) by (cases "e' = e") (auto simp: r(1))
    ultimately show ?thesis unfolding pg_channels_def by (auto; metis)
  qed
  then have chans: "cg_get_channel P ?cg = cg_get_channel P cg"
    by (intro ext option_eq_by_Some)
      (simp only: cg_get_channel_iff_channels [OF assms(1) ok'] cg_get_channel_iff_channels [OF assms(1,2)])
  show ?thesis
  proof (cases "ed_score w = Some score")
    case True
    then have "(cg_update_channel_score P cg a b score :: ('e, _) result) = Ok cg" "cg_get_channel_score P cg a b = Some score"
      using assms(4) e sd(1) by (simp_all add: cg_update_channel_score_def cg_get_channel_score_def)
    with assms(2) show ?thesis by blast
  next
    case False
    then have "(cg_update_channel_score P cg a b score :: ('e, _) result) = Ok ?cg"
      using assms(4) e by (auto simp: cg_update_channel_score_def split: option.split)
    with ok' score chans show ?thesis by blast
  qed
qed

end
