(* ===== verification/List_Graph.thy ===== *)
theory List_Graph
  imports Channel_Graph
begin

text \<open>
  A concrete graph structure with the laws of \<open>petgraph_ok\<close>: nodes and edges are lists of slots, an index is a
  position, and adding reuses the first free slot. It shows that the laws can hold together, and it is the graph
  on which the witnesses of the path theories run.
\<close>

section \<open>Lists of slots\<close>

definition slot :: "'a option list \<Rightarrow> u32 \<Rightarrow> 'a option" where
  "slot xs i = (if unat i < length xs then xs ! unat i else None)"

definition first_free :: "'a option list \<Rightarrow> nat" where
  "first_free xs = length (takeWhile (\<lambda>x. x \<noteq> None) xs)"

definition slot_put :: "'a option list \<Rightarrow> 'a \<Rightarrow> (u32 \<times> 'a option list) option" where
  "slot_put xs x =
     (let i = first_free xs in
      if i < 2 ^ 32 - 1 then Some (of_nat i, if i < length xs then xs[i := Some x] else xs @ [Some x]) else None)"

definition slot_count :: "'a option list \<Rightarrow> nat" where
  "slot_count xs = length (filter (\<lambda>x. x \<noteq> None) xs)"

definition slot_list :: "'a option list \<Rightarrow> (u32 \<times> 'a) list" where
  "slot_list xs = List.map_filter (\<lambda>i. map_option (\<lambda>x. (of_nat i, x)) (xs ! i)) [0..<min (length xs) (2 ^ 32)]"

lemma unat_of_nat_u32: "k < 2 ^ 32 \<Longrightarrow> unat (of_nat k :: u32) = k"
  by (simp add: unsigned_of_nat take_bit_nat_eq_self)

lemma first_free_le: "first_free xs \<le> length xs"
  by (simp add: first_free_def length_takeWhile_le)

lemma first_free_None: "first_free xs < length xs \<Longrightarrow> xs ! first_free xs = None"
  unfolding first_free_def using nth_length_takeWhile [of "\<lambda>x. x \<noteq> None" xs] by simp

lemma slot_put_iff:
  "slot_put xs x = Some (i, ys) \<longleftrightarrow>
   first_free xs < 2 ^ 32 - 1 \<and> i = of_nat (first_free xs)
   \<and> ys = (if first_free xs < length xs then xs[first_free xs := Some x] else xs @ [Some x])"
  by (auto simp: slot_put_def Let_def)

lemma slot_set: "slot xs i \<noteq> None \<Longrightarrow> slot (xs[unat i := Some x]) = (slot xs)(i \<mapsto> x)"
  by (auto simp: slot_def fun_eq_iff nth_list_update dest: unsigned_word_eqI)

lemma slot_clear: "slot (xs[unat i := None]) = (slot xs)(i := None)"
  by (auto simp: slot_def fun_eq_iff nth_list_update dest: unsigned_word_eqI)

lemma slot_put_ok:
  assumes "slot_put xs x = Some (i, ys)"
  shows "slot xs i = None" "slot ys = (slot xs)(i \<mapsto> x)"
proof -
  let ?k = "first_free xs"
  have k: "?k < 2 ^ 32 - 1" "i = of_nat ?k" and ys: "ys = (if ?k < length xs then xs[?k := Some x] else xs @ [Some x])"
    using assms by (simp_all add: slot_put_iff)
  have u: "unat i = ?k" using k by (simp add: unat_of_nat_u32)
  show "slot xs i = None" using first_free_None [of xs] by (simp add: slot_def u)
  show "slot ys = (slot xs)(i \<mapsto> x)"
  proof
    fix j
    show "slot ys j = ((slot xs)(i \<mapsto> x)) j"
    proof (cases "j = i")
      case True
      then show ?thesis using ys first_free_le [of xs] by (auto simp: slot_def u nth_append)
    next
      case False
      then have "unat j \<noteq> ?k" using u word_unat_eq_iff [of j i] by auto
      with False show ?thesis using ys first_free_le [of xs] by (auto simp: slot_def nth_append)
    qed
  qed
qed

lemma first_free_le_count: "first_free xs \<le> slot_count xs"
  by (induction xs) (auto simp: first_free_def slot_count_def)

lemma slot_put_total: "slot_count xs < 4294967295 \<Longrightarrow> \<exists>i ys. slot_put xs x = Some (i, ys)"
  using first_free_le_count [of xs] by (simp add: slot_put_def Let_def)

lemma count_update:
  "xs ! k = None \<Longrightarrow> k < length xs \<Longrightarrow> slot_count (xs[k := Some x]) = slot_count xs + 1"
  unfolding slot_count_def by (induction xs arbitrary: k) (auto split: nat.splits simp: nth_Cons)

lemma slot_put_count: "slot_put xs x = Some (i, ys) \<Longrightarrow> slot_count ys = slot_count xs + 1"
  using count_update [OF first_free_None, of xs x] by (auto simp: slot_put_iff slot_count_def)

lemma set_slot_list: "set (slot_list xs) = {(i, x). slot xs i = Some x}"
proof
  show "set (slot_list xs) \<subseteq> {(i, x). slot xs i = Some x}"
    by (auto simp: slot_list_def map_filter_def slot_def unat_of_nat_u32)
  show "{(i, x). slot xs i = Some x} \<subseteq> set (slot_list xs)"
  proof (clarify)
    fix i x
    assume "slot xs i = Some x"
    then have "unat i \<in> {0..<min (length xs) (2 ^ 32)}" "xs ! unat i = Some x"
      using unat_bound [of i] by (simp_all add: slot_def split: if_splits)
    then show "(i, x) \<in> set (slot_list xs)"
      unfolding slot_list_def map_filter_def by (auto simp: image_iff intro!: bexI [of _ "unat i"])
  qed
qed

lemma distinct_slot_list: "distinct (map fst (slot_list xs))"
proof -
  have "map fst (slot_list xs) = map of_nat (filter (\<lambda>i. xs ! i \<noteq> None) [0..<min (length xs) (2 ^ 32)])"
    by (auto simp: slot_list_def map_filter_def)
  moreover have "inj_on (of_nat :: nat \<Rightarrow> u32) {0..<2 ^ 32}"
    by (rule inj_on_inverseI [where g = unat]) (simp add: unat_of_nat_u32)
  then have "inj_on (of_nat :: nat \<Rightarrow> u32) (set (filter (\<lambda>i. xs ! i \<noteq> None) [0..<min (length xs) (2 ^ 32)]))"
    by (rule inj_on_subset) auto
  ultimately show ?thesis by (simp add: distinct_map)
qed

section \<open>The graph\<close>

type_synonym list_graph = "node option list \<times> (u32 \<times> u32 \<times> channel_edge) option list"

definition list_petgraph :: "list_graph petgraph" where
  "list_petgraph =
     \<lparr>pg_default = ([], []),
      pg_node_weight = (\<lambda>(ns, es). slot ns),
      pg_edge = (\<lambda>(ns, es). slot es),
      pg_node_count = (\<lambda>(ns, es). slot_count ns),
      pg_edge_count = (\<lambda>(ns, es). slot_count es),
      pg_add_node = (\<lambda>(ns, es) n. map_option (\<lambda>(i, ns). (i, (ns, es))) (slot_put ns n)),
      pg_set_node = (\<lambda>(ns, es) i n. (ns[unat i := Some n], es)),
      pg_remove_node = (\<lambda>(ns, es) i. (ns[unat i := None],
        map (\<lambda>x. case x of Some (s, d, w) \<Rightarrow> if s = i \<or> d = i then None else Some (s, d, w) | None \<Rightarrow> None) es)),
      pg_add_edge = (\<lambda>(ns, es) s d w.
        if slot ns s = None \<or> slot ns d = None then None
        else map_option (\<lambda>(e, es). (e, (ns, es))) (slot_put es (s, d, w))),
      pg_set_edge = (\<lambda>(ns, es) e w.
        case slot es e of None \<Rightarrow> (ns, es) | Some (s, d, _) \<Rightarrow> (ns, es[unat e := Some (s, d, w)])),
      pg_remove_edge = (\<lambda>(ns, es) e. (ns, es[unat e := None])),
      pg_edges_connecting = (\<lambda>(ns, es) a b.
        map (\<lambda>(e, (s, d, w)). (e, w)) (filter (\<lambda>(e, (s, d, w)). s = a \<and> d = b) (slot_list es))),
      pg_edges_outgoing = (\<lambda>(ns, es) a.
        map (\<lambda>(e, (s, d, w)). (e, d, w)) (filter (\<lambda>(e, (s, d, w)). s = a) (slot_list es))),
      pg_neighbors_undirected = (\<lambda>(ns, es) i.
        concat (map (\<lambda>(e, (s, d, w)). (if s = i then [d] else []) @ (if d = i then [s] else [])) (slot_list es))),
      pg_has_path_connecting = (\<lambda>f (ns, es) a b.
        (a, b) \<in> (set (map (\<lambda>(e, (s, d, w)). (s, d)) (filter (\<lambda>(e, (s, d, w)). f w) (slot_list es))))\<^sup>*)\<rparr>"

lemma list_nodes_ok: "pg_nodes_ok list_petgraph"
proof -
  have m: "slot (map (\<lambda>x. case x of Some (s, d, w) \<Rightarrow> if s = i \<or> d = i then None else Some (s, d, w) | None \<Rightarrow> None) es)
     = (\<lambda>e. case slot es e of Some (s, d, w) \<Rightarrow> if s = i \<or> d = i then None else Some (s, d, w) | None \<Rightarrow> None)"
    for i :: u32 and es :: "(u32 \<times> u32 \<times> channel_edge) option list"
    by (auto simp: slot_def fun_eq_iff)
  have e: "slot [] = (\<lambda>_. None)" by (simp add: slot_def fun_eq_iff)
  show ?thesis
    unfolding pg_nodes_ok_def list_petgraph_def
    by (auto simp: e m slot_put_ok slot_put_count slot_set slot_clear dest: slot_put_total)
qed

lemma list_edges_ok: "pg_edges_ok list_petgraph"
proof -
  have e: "slot [] = (\<lambda>_. None)" by (simp add: slot_def fun_eq_iff)
  show ?thesis
    unfolding pg_edges_ok_def list_petgraph_def
    by (auto simp: e slot_put_ok slot_set slot_clear dest: slot_put_total split: option.splits if_splits)
qed

lemma list_queries_ok: "pg_queries_ok list_petgraph"
proof -
  have arcs: "pg_arcs list_petgraph f (ns, es)
      = set (map (\<lambda>(e, (s, d, w)). (s, d)) (filter (\<lambda>(e, (s, d, w)). f w) (slot_list es)))" for f ns es
    unfolding pg_arcs_def list_petgraph_def by (force simp: set_slot_list)
  have "set (pg_edges_connecting list_petgraph (ns, es) a b) = {(e, w). pg_edge list_petgraph (ns, es) e = Some (a, b, w)}"
    for ns es a b by (force simp: list_petgraph_def set_slot_list)
  moreover have "set (pg_edges_outgoing list_petgraph (ns, es) a) = {(e, b, w). pg_edge list_petgraph (ns, es) e = Some (a, b, w)}"
    for ns es a by (force simp: list_petgraph_def set_slot_list)
  moreover have "distinct (map fst (pg_edges_outgoing list_petgraph (ns, es) a))" for ns es a
    using distinct_slot_list [of es]
    by (auto simp: list_petgraph_def distinct_map comp_def case_prod_beta intro: inj_on_subset)
  moreover have "set (pg_neighbors_undirected list_petgraph (ns, es) i) =
      {j. \<exists>e w. pg_edge list_petgraph (ns, es) e = Some (i, j, w) \<or> pg_edge list_petgraph (ns, es) e = Some (j, i, w)}"
    for ns es i by (fastforce simp: list_petgraph_def set_slot_list split: if_splits)
  moreover have "pg_has_path_connecting list_petgraph f (ns, es) a b \<longleftrightarrow> (a, b) \<in> (pg_arcs list_petgraph f (ns, es))\<^sup>*"
    for f ns es a b unfolding arcs by (simp add: list_petgraph_def)
  ultimately show ?thesis unfolding pg_queries_ok_def by auto
qed

lemma list_petgraph_ok: "petgraph_ok list_petgraph"
  by (simp add: petgraph_ok_def list_nodes_ok list_edges_ok list_queries_ok)

section \<open>Witnesses\<close>

definition example_config :: graph_config where
  "example_config =
     \<lparr>gc_latency_sma_window_length = 2, gc_node_score_step_up = 1 / 2, gc_node_score_decay = 4,
      gc_offline_node_score_threshold = 1 / 10\<rparr>"

definition example_keccak :: "bytes list \<Rightarrow> hash" where
  "example_keccak bs = take 32 (concat bs @ replicate 32 0)"

definition example_channel :: "address \<Rightarrow> address \<Rightarrow> channel_entry" where
  "example_channel s d = ce_new example_keccak s d 7 0 Open 1"

definition me_graph :: "list_graph channel_graph" where
  "me_graph =
     \<lparr>cg_me = [0], cg_indices = [[0] \<mapsto> 0],
      cg_graph = ([Some \<lparr>nd_address = [0], nd_score = 1,
                     nd_latency = \<lparr>sma_window = [0, 0], sma_window_size = 2, sma_sum = 0\<rparr>\<rparr>], []),
      cg_cfg = example_config\<rparr>"

lemma replicate_2: "replicate 2 x = [x, x]"
  by (simp add: numeral_2_eq_2)

lemma slot_put_eval:
  "slot_put [] x = Some (0, [Some x])"
  "slot_put [Some a] x = Some (1, [Some a, Some x])"
  "slot_put [Some a, Some b] x = Some (2, [Some a, Some b, Some x])"
  "slot_put [Some a, Some b, Some c] x = Some (3, [Some a, Some b, Some c, Some x])"
  by (simp_all add: slot_put_def first_free_def)

lemma slot_list_eval:
  "slot_list [] = []"
  "slot_list [Some a] = [(0, a)]"
  "slot_list [Some a, Some b] = [(0, a), (1, b)]"
  by (simp_all add: slot_list_def map_filter_def upt_rec)

lemmas list_graph_eval = list_petgraph_def slot_put_eval slot_list_eval slot_def

lemma me_graph_new: "cg_new list_petgraph [0] example_config = Ok me_graph"
  by (simp add: cg_new_def sma_new_with_samples_def sma_new_def sma_push_def sma_is_window_full_def example_config_def
      me_graph_def list_graph_eval replicate_2)

lemma example_config_ok: "config_ok example_config"
  by (simp add: config_ok_def example_config_def)

lemma me_graph_ok: "cg_ok list_petgraph example_keccak me_graph"
proof -
  have "pg_node_count list_petgraph (pg_default list_petgraph) < 2 ^ 32 - 1"
    by (simp add: list_petgraph_def slot_count_def)
  from cg_new_ok [OF list_petgraph_ok example_config_ok this, of "[0]" example_keccak] me_graph_new
  show ?thesis by (metis sum.inject(2))
qed

lemma example_channel_ok: "channel_ok example_keccak (example_channel s d)"
  by (simp add: channel_ok_def example_channel_def ce_new_def)

lemma me_graph_count: "cg_count_nodes list_petgraph me_graph = 1" "cg_count_channels list_petgraph me_graph = 0"
  by (simp_all add: cg_count_nodes_def cg_count_channels_def me_graph_def list_petgraph_def slot_count_def)

lemma me_graph_channel: "cg_get_channel list_petgraph me_graph a b = None"
  by (simp add: cg_get_channel_def cg_get_edge_def me_graph_def list_petgraph_def slot_list_def map_filter_def
      split: option.split)

lemma example_channel_fields [simp]:
  "ce_source (example_channel a b) = a" "ce_destination (example_channel a b) = b"
  "ce_status (example_channel a b) = Open"
  by (simp_all add: example_channel_def ce_new_def)

theorem channel_graph_is_map_witness:
  "\<exists>cg'. (cg_update_channel list_petgraph me_graph (example_channel [1] [2]) :: (unit, _) result) = Ok (None, cg')
     \<and> cg_get_channel list_petgraph cg' [1] [2] = Some (example_channel [1] [2])
     \<and> cg_get_channel list_petgraph cg' [2] [1] = None"
  using channel_graph_is_map [OF list_petgraph_ok me_graph_ok example_channel_ok, of "[1]" "[2]"]
  by (auto simp: me_graph_count me_graph_channel)

theorem node_score_update_correct_witness:
  "\<exists>cg'. (cg_update_node_score list_petgraph me_graph [3] (Initialize 50 (3 / 4)) :: (unit, _) result) = Ok cg'
     \<and> map_option nd_score (cg_get_node list_petgraph cg' [3]) = Some (3 / 4)"
proof -
  have "cg_get_node list_petgraph me_graph [3] = None" "cg_me me_graph = [0]"
    by (simp_all add: cg_get_node_def me_graph_def)
  with node_score_update_correct [OF list_petgraph_ok me_graph_ok, of "[3]" "Initialize 50 (3 / 4)"]
  show ?thesis by (auto simp: me_graph_count scored_node_def)
qed

text \<open>
  A node that was added first and dropped later leaves a hole: three nodes remain, and the index 3 is that of the
  address \<open>[2]\<close>.
\<close>

definition fresh_node :: "address \<Rightarrow> node" where
  "fresh_node a = \<lparr>nd_address = a, nd_score = 0, nd_latency = \<lparr>sma_window = [], sma_window_size = 2, sma_sum = 0\<rparr>\<rparr>"

definition example_edge :: "address \<Rightarrow> address \<Rightarrow> channel_edge" where
  "example_edge a b = \<lparr>ed_channel = example_channel a b, ed_score = None\<rparr>"

definition removal_steps :: "(unit, list_graph channel_graph) result" where
  "removal_steps =
     and_then (cg_update_node_score list_petgraph me_graph [9] (Initialize 50 0)) (\<lambda>cg.
     and_then (cg_update_channel list_petgraph cg (example_channel [1] [2])) (\<lambda>(_, cg).
     and_then (cg_update_channel list_petgraph cg (example_channel [2] [1])) (\<lambda>(_, cg).
     cg_update_node_score list_petgraph cg [9] Unreachable)))"

definition removed_graph :: "list_graph channel_graph" where
  "removed_graph = me_graph\<lparr>cg_indices := [[0] \<mapsto> 0, [1] \<mapsto> 2, [2] \<mapsto> 3],
     cg_graph := ([hd (fst (cg_graph me_graph)), None, Some (fresh_node [1]), Some (fresh_node [2])],
       [Some (2, 3, example_edge [1] [2]), Some (3, 2, example_edge [2] [1])])\<rparr>"

lemma removal_steps_eq: "removal_steps = Ok removed_graph"
  by (simp add: removal_steps_def cg_update_node_score_def cg_update_channel_def cg_get_edge_def cg_index_or_insert_def
      node_new_def sma_new_def me_graph_def example_config_def list_graph_eval removed_graph_def fresh_node_def example_edge_def
      sma_push_def sma_clear_def sma_is_window_full_def f64_round_def fun_eq_iff)

lemma slot_in_list: "slot xs i = Some x \<longleftrightarrow> (i, x) \<in> set (slot_list xs)"
  by (simp add: set_slot_list)

lemma removed_graph_slots:
  "pg_node_weight list_petgraph (cg_graph removed_graph) i = Some n \<longleftrightarrow>
     (i, n) \<in> {(0, the (hd (fst (cg_graph me_graph)))), (2, fresh_node [1]), (3, fresh_node [2])}"
  "pg_edge list_petgraph (cg_graph removed_graph) e = Some x \<longleftrightarrow>
     (e, x) \<in> {(0, (2, 3, example_edge [1] [2])), (1, (3, 2, example_edge [2] [1]))}"
  by (auto simp: removed_graph_def list_petgraph_def me_graph_def slot_in_list slot_list_eval)
    (auto simp: slot_list_def map_filter_def upt_rec)

lemma removed_graph_ok: "cg_ok list_petgraph example_keccak removed_graph"
proof (rule cg_okI)
  show "config_ok (cg_cfg removed_graph)" by (simp add: removed_graph_def me_graph_def example_config_ok)
  show "table_ok list_petgraph (cg_indices removed_graph) (cg_graph removed_graph)"
    unfolding table_ok_def removed_graph_slots
    by (auto simp: fresh_node_def me_graph_def removed_graph_def split: if_splits)
  show "edges_ok list_petgraph example_keccak (cg_indices removed_graph) (cg_graph removed_graph)"
    unfolding edges_ok_def removed_graph_slots
    by (auto simp: example_edge_def example_channel_ok removed_graph_def)
  show "cg_indices removed_graph (cg_me removed_graph) = Some 0" by (simp add: removed_graph_def me_graph_def)
  show "pg_node_weight list_petgraph (cg_graph removed_graph) 0 = Some (the (hd (fst (cg_graph me_graph))))"
    by (simp add: removed_graph_slots)
  show "nd_score (the (hd (fst (cg_graph me_graph)))) = 1" by (simp add: me_graph_def)
qed

theorem open_channels_from_correct_witness:
  "removal_steps = Ok removed_graph \<and> cg_get_node list_petgraph removed_graph [9] = None
   \<and> (cg_open_channels_from list_petgraph removed_graph [9] :: (unit, _) result)
       = cg_open_channels_from list_petgraph removed_graph [2]
   \<and> (cg_open_channels_from list_petgraph removed_graph [2] :: (unit, _) result)
       = Ok [(fresh_node [1], example_edge [2] [1])]"
proof -
  have i: "cg_indices removed_graph [9] = None" "cg_indices removed_graph [2] = Some 3"
    by (simp_all add: removed_graph_def)
  have c: "cg_count_nodes list_petgraph removed_graph = 3"
    by (simp add: cg_count_nodes_def removed_graph_def me_graph_def list_petgraph_def slot_count_def)
  have "(cg_open_channels_from list_petgraph removed_graph [9] :: (unit, _) result)
       = cg_open_channels_from list_petgraph removed_graph [2]"
    using open_channels_from_correct [where ?'e = unit, OF list_petgraph_ok removed_graph_ok, of "[9]"] i c by simp
  moreover have "(cg_open_channels_from list_petgraph removed_graph [2] :: (unit, _) result)
       = Ok [(fresh_node [1], example_edge [2] [1])]"
    using i(2) by (simp add: cg_open_channels_from_def removed_graph_def list_graph_eval is_open_def example_edge_def)
  ultimately show ?thesis using i(1) by (simp add: removal_steps_eq cg_get_node_def)
qed

theorem has_path_iff_witness: "cg_has_path list_petgraph removed_graph [1] [2] \<and> \<not> cg_has_path list_petgraph removed_graph [0] [1]"
proof -
  have n: "cg_contains_node list_petgraph removed_graph [1]" "cg_contains_node list_petgraph removed_graph [2]"
    by (simp_all add: cg_contains_node_def cg_get_node_def removed_graph_def list_graph_eval)
  have "cg_get_channel list_petgraph removed_graph a b = Some c \<longleftrightarrow>
      (a, b, c) \<in> {([1], [2], example_channel [1] [2]), ([2], [1], example_channel [2] [1])}" for a b c
    unfolding cg_get_channel_iff [OF list_petgraph_ok removed_graph_ok] removed_graph_slots
    by (auto simp: example_edge_def) (metis channel_edge.select_convs(1))+
  then have r: "open_channel_rel list_petgraph removed_graph = {([1], [2]), ([2], [1])}"
    by (auto simp: open_channel_rel_def)
  have "([0], [1]) \<notin> (open_channel_rel list_petgraph removed_graph)\<^sup>*"
  proof
    assume "([0], [1]) \<in> (open_channel_rel list_petgraph removed_graph)\<^sup>*"
    then show False by (rule converse_rtranclE) (simp_all add: r)
  qed
  moreover have "([1], [2]) \<in> (open_channel_rel list_petgraph removed_graph)\<^sup>*" using r by blast
  ultimately show ?thesis using n has_path_iff [OF list_petgraph_ok removed_graph_ok] by blast
qed

end
