(* ===== verification/Path_Validation.thy ===== *)
theory Path_Validation
  imports List_Graph
begin

text \<open>
  Paths through the channel graph (\<open>logic/path/src/lib.rs\<close>, \<open>errors.rs\<close>): the chain path and the transport
  path, and the validated path, whose hops are resolved to both kinds of address and whose channels are open.

  The resolver between the kinds of address is the argument \<open>rs\<close>. Errors carry the addresses they print.
\<close>

type_synonym offchain_key = bytes
type_synonym channel_path = "address list"

datatype path_address = Chain address | Transport offchain_key

datatype path_error =
    PathNotValid
  | InvalidPeer path_address
  | UnknownPeer path_address
  | MissingChannel address address
  | ChannelNotOpened address address
  | LoopsNotAllowed address
  | PathNotFound nat address address
  | OtherPathError general_error

section \<open>Chain and transport paths\<close>

datatype transport_path = TransportPath (tp_hops: "offchain_key list")
datatype chain_path = ChainPath (cp_hops: "address list")

definition contains_cycle :: "path_address list \<Rightarrow> bool" where
  "contains_cycle hops \<longleftrightarrow> length (remdups hops) \<noteq> length hops"

definition tp_new :: "offchain_key list \<Rightarrow> (path_error, transport_path) result" where
  "tp_new path = (if path \<noteq> [] then Ok (TransportPath path) else Err PathNotValid)"

definition tp_direct :: "offchain_key \<Rightarrow> transport_path" where
  "tp_direct destination = TransportPath [destination]"

definition tp_invert :: "transport_path \<Rightarrow> transport_path option" where
  "tp_invert p = Some (TransportPath (rev (tp_hops p)))"

definition cp_new :: "address list \<Rightarrow> (path_error, chain_path) result" where
  "cp_new path = (if path \<noteq> [] then Ok (ChainPath path) else Err PathNotValid)"

definition cp_from_channel_path :: "channel_path \<Rightarrow> address \<Rightarrow> chain_path" where
  "cp_from_channel_path path destination = ChainPath (path @ [destination])"

definition cp_direct :: "address \<Rightarrow> chain_path" where
  "cp_direct destination = ChainPath [destination]"

definition cp_into_channel_path :: "chain_path \<Rightarrow> channel_path" where
  "cp_into_channel_path p = butlast (cp_hops p)"

text \<open>\<open>From<ChainPath> for ChannelPath\<close>: the subtraction underflows on an empty path.\<close>

definition channel_path_from :: "chain_path \<Rightarrow> ('e, channel_path) result" where
  "channel_path_from p =
     (if cp_hops p = [] then Panicked else Ok (take (length (cp_hops p) - 1) (cp_hops p)))"

definition cp_invert :: "chain_path \<Rightarrow> chain_path option" where
  "cp_invert p = Some (ChainPath (rev (cp_hops p)))"

definition last_hop :: "'a list \<Rightarrow> ('e, 'a) result" where
  "last_hop hops = (if hops = [] then Panicked else Ok (last hops))"

section \<open>Validated paths\<close>

record resolver =
  rs_transport :: "address \<Rightarrow> (path_error, offchain_key option) result"
  rs_chain :: "offchain_key \<Rightarrow> (path_error, address option) result"

datatype validated_path = ValidatedPath (vp_transport: transport_path) (vp_chain: chain_path)

definition vp_direct :: "offchain_key \<Rightarrow> address \<Rightarrow> validated_path" where
  "vp_direct dst_key dst_address = ValidatedPath (TransportPath [dst_key]) (ChainPath [dst_address])"

definition vp_invert :: "validated_path \<Rightarrow> validated_path option" where
  "vp_invert _ = None"

fun resolve_origin :: "resolver \<Rightarrow> path_address \<Rightarrow> (path_error, address) result" where
  "resolve_origin rs (Chain addr) = Ok addr"
| "resolve_origin rs (Transport key) = and_then (rs_chain rs key) (ok_or (InvalidPeer (Transport key)))"

fun resolve_hop :: "resolver \<Rightarrow> path_address \<Rightarrow> (path_error, offchain_key \<times> address) result" where
  "resolve_hop rs (Chain addr) =
     and_then (rs_transport rs addr) (\<lambda>k.
     and_then (ok_or (InvalidPeer (Chain addr)) k) (\<lambda>key. Ok (key, addr)))"
| "resolve_hop rs (Transport key) =
     and_then (rs_chain rs key) (\<lambda>a.
     and_then (ok_or (InvalidPeer (Transport key)) a) (\<lambda>addr. Ok (key, addr)))"

definition vp_check_channel ::
  "'g petgraph \<Rightarrow> 'g channel_graph \<Rightarrow> address \<Rightarrow> address \<Rightarrow> (path_error, unit) result" where
  "vp_check_channel P cg issuer receiver =
     (case cg_get_channel P cg issuer receiver of
        None \<Rightarrow> Err (MissingChannel issuer receiver)
      | Some channel \<Rightarrow>
          if \<not> status_eq (ce_status channel) Open then Err (ChannelNotOpened issuer receiver) else Ok ())"

fun vp_loop ::
  "'g petgraph \<Rightarrow> 'g channel_graph \<Rightarrow> resolver \<Rightarrow> nat \<Rightarrow> nat \<Rightarrow> address \<Rightarrow> path_address list \<Rightarrow>
   offchain_key list \<Rightarrow> address list \<Rightarrow> (path_error, offchain_key list \<times> address list) result" where
  "vp_loop P cg rs num_hops i ticket_issuer [] keys addrs = Ok (keys, addrs)"
| "vp_loop P cg rs num_hops i ticket_issuer (hop # hops) keys addrs =
     and_then (resolve_hop rs hop) (\<lambda>(key, ticket_receiver).
     if ticket_issuer = ticket_receiver then Err (LoopsNotAllowed ticket_receiver)
     else
       and_then (if i < num_hops - 1 then vp_check_channel P cg ticket_issuer ticket_receiver else Ok ()) (\<lambda>_.
       vp_loop P cg rs num_hops (i + 1) ticket_receiver hops (keys @ [key]) (addrs @ [ticket_receiver])))"

definition vp_new ::
  "'g petgraph \<Rightarrow> path_address \<Rightarrow> path_address list \<Rightarrow> 'g channel_graph \<Rightarrow> resolver \<Rightarrow> (path_error, validated_path) result"
where
  "vp_new P origin path cg rs =
     and_then (resolve_origin rs origin) (\<lambda>ticket_issuer.
     and_then (vp_loop P cg rs (length path) 0 ticket_issuer path [] []) (\<lambda>(keys, addrs).
     Ok (ValidatedPath (TransportPath keys) (ChainPath addrs))))"

section \<open>Properties\<close>

text \<open>Consecutive addresses differ, and all but the last pair are joined by an open channel.\<close>

fun hops_ok :: "'g petgraph \<Rightarrow> 'g channel_graph \<Rightarrow> address \<Rightarrow> address list \<Rightarrow> bool" where
  "hops_ok P cg a [] \<longleftrightarrow> True"
| "hops_ok P cg a (b # bs) \<longleftrightarrow>
     a \<noteq> b \<and> (bs \<noteq> [] \<longrightarrow> (\<exists>c. cg_get_channel P cg a b = Some c \<and> ce_status c = Open)) \<and> hops_ok P cg b bs"

lemma vp_check_channel_Ok:
  "vp_check_channel P cg a b = Ok u \<longleftrightarrow> (\<exists>c. cg_get_channel P cg a b = Some c \<and> ce_status c = Open)"
proof (cases "cg_get_channel P cg a b")
  case (Some c)
  then show ?thesis by (cases "ce_status c") (simp_all add: vp_check_channel_def)
qed (simp add: vp_check_channel_def)

lemma vp_loop_Ok:
  assumes "num_hops = i + length hops"
  shows "vp_loop P cg rs num_hops i a hops keys addrs = Ok (ks, as) \<longleftrightarrow>
    (\<exists>ks' as'. ks = keys @ ks' \<and> as = addrs @ as' \<and> length ks' = length as'
       \<and> list_all2 (\<lambda>h ka. resolve_hop rs h = Ok ka) hops (zip ks' as') \<and> hops_ok P cg a as')"
  using assms
proof (induction hops arbitrary: i a keys addrs)
  case Nil
  then show ?case by auto
next
  case (Cons h hops)
  have last: "i < num_hops - 1 \<longleftrightarrow> hops \<noteq> []" using Cons.prems by auto
  have chk: "(if i < num_hops - 1 then vp_check_channel P cg a b else Ok ()) = Ok () \<longleftrightarrow>
      (hops \<noteq> [] \<longrightarrow> (\<exists>c. cg_get_channel P cg a b = Some c \<and> ce_status c = Open))" for b
    unfolding last by (auto simp: vp_check_channel_Ok)
  have "vp_loop P cg rs num_hops i a (h # hops) keys addrs = Ok (ks, as) \<longleftrightarrow>
      (\<exists>k b. resolve_hop rs h = Ok (k, b) \<and> a \<noteq> b
        \<and> (hops \<noteq> [] \<longrightarrow> (\<exists>c. cg_get_channel P cg a b = Some c \<and> ce_status c = Open))
        \<and> vp_loop P cg rs num_hops (i + 1) b hops (keys @ [k]) (addrs @ [b]) = Ok (ks, as))"
    by (auto simp: and_then_Inr_iff chk simp del: One_nat_def split: if_splits)
  also have "\<dots> \<longleftrightarrow> (\<exists>k b ks' as'. resolve_hop rs h = Ok (k, b) \<and> a \<noteq> b
        \<and> (as' \<noteq> [] \<longrightarrow> (\<exists>c. cg_get_channel P cg a b = Some c \<and> ce_status c = Open))
        \<and> ks = keys @ k # ks' \<and> as = addrs @ b # as' \<and> length ks' = length as'
        \<and> list_all2 (\<lambda>h ka. resolve_hop rs h = Ok ka) hops (zip ks' as') \<and> hops_ok P cg b as')"
    using Cons.prems by (subst Cons.IH) (auto dest: list_all2_lengthD)
  also have "\<dots> \<longleftrightarrow> (\<exists>ks' as'. ks = keys @ ks' \<and> as = addrs @ as' \<and> length ks' = length as'
       \<and> list_all2 (\<lambda>h ka. resolve_hop rs h = Ok ka) (h # hops) (zip ks' as') \<and> hops_ok P cg a as')"
    (is "?L \<longleftrightarrow> ?R")
  proof
    assume ?L
    then obtain k b ks' as' where "resolve_hop rs h = Ok (k, b)" "a \<noteq> b"
        "as' \<noteq> [] \<longrightarrow> (\<exists>c. cg_get_channel P cg a b = Some c \<and> ce_status c = Open)"
        "ks = keys @ k # ks'" "as = addrs @ b # as'" "length ks' = length as'"
        "list_all2 (\<lambda>h ka. resolve_hop rs h = Ok ka) hops (zip ks' as')" "hops_ok P cg b as'" by blast
    then show ?R by (intro exI [of _ "k # ks'"] exI [of _ "b # as'"]) simp
  next
    assume ?R
    then obtain ks' as' where r: "ks = keys @ ks'" "as = addrs @ as'" "length ks' = length as'"
       "list_all2 (\<lambda>h ka. resolve_hop rs h = Ok ka) (h # hops) (zip ks' as')" "hops_ok P cg a as'" by blast
    then show ?L by (cases ks'; cases as') auto
  qed
  finally show ?case .
qed

text \<open>C34: validation of a path succeeds exactly when the origin and every hop resolve, no two consecutive addresses
are equal, and every hop but the last has an open channel from its predecessor (the origin for the first hop); the
result holds the resolved keys and addresses in the order of the path.\<close>
theorem validated_path_iff:
  "vp_new P origin path cg rs = Ok (ValidatedPath (TransportPath ks) (ChainPath as)) \<longleftrightarrow>
    (\<exists>a. resolve_origin rs origin = Ok a \<and> length ks = length as
       \<and> list_all2 (\<lambda>h ka. resolve_hop rs h = Ok ka) path (zip ks as) \<and> hops_ok P cg a as)"
proof -
  have "vp_new P origin path cg rs = Ok (ValidatedPath (TransportPath ks) (ChainPath as)) \<longleftrightarrow>
      (\<exists>a. resolve_origin rs origin = Ok a \<and> vp_loop P cg rs (length path) 0 a path [] [] = Ok (ks, as))"
    by (auto simp: vp_new_def and_then_Inr_iff)
  then show ?thesis by (simp add: vp_loop_Ok)
qed

lemma chain_path_roundtrip:
  "cp_into_channel_path (cp_from_channel_path p d) = p"
  "channel_path_from (cp_from_channel_path p d) = Ok p"
  "cp_hops p' \<noteq> [] \<Longrightarrow> channel_path_from p' = Ok (cp_into_channel_path p')"
  by (simp_all add: cp_into_channel_path_def cp_from_channel_path_def channel_path_from_def butlast_conv_take)

lemma contains_cycle_iff: "contains_cycle hops \<longleftrightarrow> \<not> distinct hops"
  using length_remdups_card_conv [of hops] card_distinct [of hops] distinct_card [of hops]
  by (auto simp: contains_cycle_def)

end
