(* ===== verification/Path_Selection.thy ===== *)
theory Path_Selection
  imports Path_Validation "HOL-Library.Sublist"
begin

text \<open>
  Selection of the relays of a path (\<open>logic/path/src/selectors/dfs.rs\<close>): a best-first search of the channel
  graph for a path with a number of hops in a given range.

  \<open>BinaryHeap::pop\<close> returns a greatest element; which one of several equal ones is the argument \<open>tie\<close>. The weight of
  an edge is the argument \<open>cw\<close> (\<open>EdgeWeighting::calculate_weight\<close>) of the search, which also gets the number of the
  call because the weights are random; \<open>randomized_edge_weight\<close> is the one of the program, with the random numbers as
  its argument. The sum of weights panics on overflow.
\<close>

section \<open>Weighted paths and the queue\<close>

record weighted_path =
  wcp_path :: "address list"
  wcp_weight :: u256
  wcp_fully_explored :: bool

definition wcp_default :: weighted_path where
  "wcp_default = \<lparr>wcp_path = [], wcp_weight = 0, wcp_fully_explored = False\<rparr>"

definition wcp_extend ::
  "(nat \<Rightarrow> channel_edge \<Rightarrow> ('e, u256) result) \<Rightarrow> nat \<Rightarrow> weighted_path \<Rightarrow> channel_edge \<Rightarrow> ('e, weighted_path) result" where
  "wcp_extend cw k p edge =
     (if \<not> wcp_fully_explored p then
        and_then (cw k edge) (\<lambda>w.
        if unat (wcp_weight p) + unat w < 2 ^ 256 then
          Ok (p\<lparr>wcp_path := wcp_path p @ [ce_destination (ed_channel edge)], wcp_weight := wcp_weight p + w\<rparr>)
        else Panicked)
      else Ok p)"

definition wcp_cmp :: "weighted_path \<Rightarrow> weighted_path \<Rightarrow> ordering" where
  "wcp_cmp self other =
     (if wcp_fully_explored other = wcp_fully_explored self then
        (case ord_cmp (length (wcp_path self)) (length (wcp_path other)) of
           Equal \<Rightarrow> ord_cmp (wcp_weight self) (wcp_weight other)
         | ord \<Rightarrow> ord)
      else if wcp_fully_explored other then Greater
      else Less)"

definition heap_max :: "weighted_path list \<Rightarrow> weighted_path list" where
  "heap_max q = filter (\<lambda>x. list_all (\<lambda>y. wcp_cmp y x \<noteq> Greater) q) q"

definition heap_pop :: "(weighted_path list \<Rightarrow> nat) \<Rightarrow> weighted_path list \<Rightarrow> (weighted_path \<times> weighted_path list) option" where
  "heap_pop tie q =
     (if q = [] then None
      else let ms = heap_max q; x = ms ! (tie ms mod length ms) in Some (x, remove1 x q))"

section \<open>Edge weights\<close>

definition randomized_edge_weight :: "(nat \<Rightarrow> rat) \<Rightarrow> nat \<Rightarrow> channel_edge \<Rightarrow> ('e, u256) result" where
  "randomized_edge_weight random_float k edge =
     (case u256_mul_f64 (ce_balance (ed_channel edge)) (Some (random_float k)) of
        Inr w \<Rightarrow> Ok (max w 1)
      | Inl _ \<Rightarrow> Panicked)"

section \<open>The search\<close>

record dfs_config =
  dc_max_iterations :: nat
  dc_node_score_threshold :: rat
  dc_edge_score_threshold :: rat
  dc_max_first_hop_latency :: "nat option"
  dc_allow_zero_edge_weight :: bool

definition dfs_config_default :: dfs_config where
  "dfs_config_default =
     \<lparr>dc_max_iterations = 100, dc_node_score_threshold = 1 / 2, dc_edge_score_threshold = 0,
      dc_max_first_hop_latency = Some (100 * 10 ^ 6), dc_allow_zero_edge_weight = False\<rparr>"

definition duration_div :: "nat \<Rightarrow> u32 \<Rightarrow> nat" where
  "duration_div d n = d div unat n"

definition is_next_hop_usable ::
  "dfs_config \<Rightarrow> node \<Rightarrow> channel_edge \<Rightarrow> address \<Rightarrow> address \<Rightarrow> address list \<Rightarrow> bool" where
  "is_next_hop_usable cfg next_hop edge initial_source final_destination current_path =
     (if nd_address next_hop = initial_source then False
      else if nd_address next_hop = final_destination then False
      else if nd_score next_hop < dc_node_score_threshold cfg then False
      else if (case ed_score edge of Some score \<Rightarrow> score < dc_edge_score_threshold cfg | None \<Rightarrow> False) then False
      else if current_path = []
        \<and> (case dc_max_first_hop_latency cfg of
             Some limit \<Rightarrow>
               (case sma_average duration_div (nd_latency next_hop) of
                  None \<Rightarrow> True
                | Some avg_latency \<Rightarrow> avg_latency > limit)
           | None \<Rightarrow> False) then False
      else if nd_address next_hop \<in> set current_path then False
      else if \<not> dc_allow_zero_edge_weight cfg \<and> bal_is_zero (ce_balance (ed_channel edge)) then False
      else True)"

text \<open>Extending a path by each of the given edges, in order; the number of weight calculations is counted.\<close>

fun extend_all ::
  "(nat \<Rightarrow> channel_edge \<Rightarrow> ('e, u256) result) \<Rightarrow> nat \<Rightarrow> weighted_path \<Rightarrow> (node \<times> channel_edge) list \<Rightarrow>
   ('e, nat \<times> weighted_path list) result" where
  "extend_all cw k p [] = Ok (k, [])"
| "extend_all cw k p ((_, edge) # es) =
     and_then (wcp_extend cw k p edge) (\<lambda>x.
     and_then (extend_all cw (k + 1) p es) (\<lambda>(k, xs). Ok (k, x # xs)))"

function (sequential) select_loop ::
  "'g petgraph \<Rightarrow> 'g channel_graph \<Rightarrow> dfs_config \<Rightarrow> (nat \<Rightarrow> channel_edge \<Rightarrow> (path_error, u256) result) \<Rightarrow>
   (weighted_path list \<Rightarrow> nat) \<Rightarrow> address \<Rightarrow> address \<Rightarrow> nat \<Rightarrow> nat \<Rightarrow> nat \<Rightarrow> nat \<Rightarrow> weighted_path list \<Rightarrow>
   (path_error, channel_path) result" where
  "select_loop P cg cfg cw tie source destination min_hops max_hops k iters queue =
     (case heap_pop tie queue of
        None \<Rightarrow> Err (PathNotFound max_hops source destination)
      | Some (current, queue) \<Rightarrow>
          let current_len = length (wcp_path current) in
          if current_len = max_hops \<or> wcp_fully_explored current \<or> iters > dc_max_iterations cfg then
            (if current_len \<ge> min_hops \<and> current_len \<le> max_hops then Ok (wcp_path current)
             else Err (PathNotFound max_hops source destination))
          else if wcp_path current = [] then Panicked
          else
            and_then (cg_open_channels_from P cg (last (wcp_path current))) (\<lambda>channels.
            let new_channels = filter (\<lambda>(next_hop, edge).
                  is_next_hop_usable cfg next_hop edge source destination (wcp_path current)) channels in
            if new_channels \<noteq> [] then
              and_then (extend_all cw k current new_channels) (\<lambda>(k, new).
              select_loop P cg cfg cw tie source destination min_hops max_hops k (iters + 1) (queue @ new))
            else
              select_loop P cg cfg cw tie source destination min_hops max_hops k (iters + 1)
                (queue @ [current\<lparr>wcp_fully_explored := True\<rparr>])))"
  by pat_completeness auto
termination
  by (relation "measure (\<lambda>(P, cg, cfg, cw, tie, s, d, mn, mx, k, iters, q). Suc (dc_max_iterations cfg) - iters)")
    (auto simp: Let_def)

declare select_loop.simps [simp del]

definition select_path ::
  "'g petgraph \<Rightarrow> 'g channel_graph \<Rightarrow> dfs_config \<Rightarrow> (nat \<Rightarrow> channel_edge \<Rightarrow> (path_error, u256) result) \<Rightarrow>
   (weighted_path list \<Rightarrow> nat) \<Rightarrow> address \<Rightarrow> address \<Rightarrow> nat \<Rightarrow> nat \<Rightarrow> (path_error, channel_path) result" where
  "select_path P cg cfg cw tie source destination min_hops max_hops =
     (if \<not> (1 \<le> max_hops \<and> max_hops \<le> intermediate_hops) \<or> \<not> (1 \<le> min_hops \<and> min_hops \<le> max_hops) then
        Err (OtherPathError InvalidInput)
      else
        and_then (cg_open_channels_from P cg source) (\<lambda>channels.
        and_then (extend_all cw 0 wcp_default
                    (filter (\<lambda>(node, edge). is_next_hop_usable cfg node edge source destination []) channels)) (\<lambda>(k, queue).
        select_loop P cg cfg cw tie source destination min_hops max_hops k 0 queue)))"

definition select_auto_path ::
  "'g petgraph \<Rightarrow> 'g channel_graph \<Rightarrow> dfs_config \<Rightarrow> (nat \<Rightarrow> channel_edge \<Rightarrow> (path_error, u256) result) \<Rightarrow>
   (weighted_path list \<Rightarrow> nat) \<Rightarrow> address \<Rightarrow> address \<Rightarrow> (path_error, channel_path) result" where
  "select_auto_path P cg cfg cw tie source destination =
     select_path P cg cfg cw tie source destination 1 intermediate_hops"

section \<open>The queue\<close>

lemma wcp_cmp_Greater:
  "wcp_cmp y x = Greater \<longleftrightarrow>
     \<not> wcp_fully_explored y \<and> wcp_fully_explored x
     \<or> wcp_fully_explored y = wcp_fully_explored x
       \<and> (length (wcp_path x) < length (wcp_path y)
          \<or> length (wcp_path x) = length (wcp_path y) \<and> wcp_weight x < wcp_weight y)"
  by (auto simp: wcp_cmp_def ord_cmp_def)

lemma wcp_max_exists: "q \<noteq> [] \<Longrightarrow> \<exists>x \<in> set q. \<forall>y \<in> set q. wcp_cmp y x \<noteq> Greater"
proof (induction q rule: list_nonempty_induct)
  case (single x)
  then show ?case by (simp add: wcp_cmp_Greater)
next
  case (cons z q)
  then obtain x where x: "x \<in> set q" "\<forall>y \<in> set q. wcp_cmp y x \<noteq> Greater" by blast
  show ?case
  proof (cases "wcp_cmp z x = Greater")
    case True
    have "wcp_cmp y z \<noteq> Greater" if "wcp_cmp y x \<noteq> Greater" for y
      using True that unfolding wcp_cmp_Greater by (elim disjE conjE) auto
    with x(2) have "\<forall>y \<in> set (z # q). wcp_cmp y z \<noteq> Greater" by (auto simp: wcp_cmp_Greater)
    then show ?thesis by (meson list.set_intros(1))
  next
    case False
    with x show ?thesis by auto
  qed
qed

lemma heap_pop_None [simp]: "heap_pop tie q = None \<longleftrightarrow> q = []"
  by (simp add: heap_pop_def Let_def)

lemma heap_pop_Some:
  assumes "heap_pop tie q = Some (x, rest)"
  shows "x \<in> set q" "rest = remove1 x q" "\<And>y. y \<in> set q \<Longrightarrow> wcp_cmp y x \<noteq> Greater"
proof -
  have q: "q \<noteq> []" using assms by (auto simp: heap_pop_def)
  then have "heap_max q \<noteq> []"
    using wcp_max_exists [OF q] by (auto simp: heap_max_def filter_empty_conv list_all_iff)
  then have "heap_max q ! (tie (heap_max q) mod length (heap_max q)) \<in> set (heap_max q)" by simp
  then have "x \<in> set (heap_max q)" using assms q by (auto simp: heap_pop_def Let_def)
  then show "x \<in> set q" "\<And>y. y \<in> set q \<Longrightarrow> wcp_cmp y x \<noteq> Greater"
    by (auto simp: heap_max_def list_all_iff)
  show "rest = remove1 x q" using assms q by (auto simp: heap_pop_def Let_def)
qed

lemma sorted_wrt_remove1:
  assumes "symp R" "sorted_wrt R q" "x \<in> set q"
  shows "sorted_wrt R (remove1 x q)" "y \<in> set (remove1 x q) \<Longrightarrow> R x y"
proof -
  have "sorted_wrt R (remove1 x q) \<and> (\<forall>y \<in> set (remove1 x q). R x y)"
    using assms(2,3)
  proof (induction q)
    case (Cons z q)
    then show ?case
      using assms(1) by (auto simp: symp_def dest: notin_set_remove1 set_remove1_subset [THEN subsetD])
  qed simp
  then show "sorted_wrt R (remove1 x q)" "y \<in> set (remove1 x q) \<Longrightarrow> R x y" by blast+
qed

section \<open>Usable paths\<close>

text \<open>
  The hop from \<open>a\<close> to \<open>b\<close> after the relays \<open>pre\<close>: an open channel whose destination passes the filter of the
  selector. A usable path consists of such hops, starting at the source.
\<close>

definition hop_usable ::
  "'g petgraph \<Rightarrow> 'g channel_graph \<Rightarrow> dfs_config \<Rightarrow> address \<Rightarrow> address \<Rightarrow> address \<Rightarrow> address list \<Rightarrow> address \<Rightarrow> bool" where
  "hop_usable P cg cfg src dst a pre b \<longleftrightarrow>
     (\<exists>n w. (n, w) \<in> open_edges_from P cg a \<and> ce_destination (ed_channel w) = b
        \<and> is_next_hop_usable cfg n w src dst pre)"

inductive usable_path ::
  "'g petgraph \<Rightarrow> 'g channel_graph \<Rightarrow> dfs_config \<Rightarrow> address \<Rightarrow> address \<Rightarrow> address list \<Rightarrow> bool"
  for P cg cfg src dst where
  usable_Nil: "usable_path P cg cfg src dst []"
| usable_snoc: "usable_path P cg cfg src dst p \<Longrightarrow> hop_usable P cg cfg src dst (last (src # p)) p b
    \<Longrightarrow> usable_path P cg cfg src dst (p @ [b])"

inductive_simps usable_path_snoc: "usable_path P cg cfg src dst (p @ [b])"

lemma usable_path_prefix: "usable_path P cg cfg src dst (p @ q) \<Longrightarrow> usable_path P cg cfg src dst p"
proof (induction q rule: rev_induct)
  case (snoc b q)
  then show ?case by (metis append_assoc usable_path_snoc)
qed simp

lemma hop_usable_facts:
  assumes "cg_ok P keccak cg" "hop_usable P cg cfg src dst a pre b"
  shows "b \<noteq> src" "b \<noteq> dst" "b \<notin> set pre" "\<exists>i. cg_indices cg b = Some i"
    "\<exists>c. cg_get_channel P cg a b = Some c \<and> ce_status c = Open"
    "\<exists>n. cg_get_node P cg b = Some n \<and> dc_node_score_threshold cfg \<le> nd_score n"
proof -
  obtain n w e where nw: "cg_get_edge P cg a b = Some (e, w)" "ce_status (ed_channel w) = Open"
      "cg_get_node P cg b = Some n" "is_next_hop_usable cfg n w src dst pre"
    using assms(2) by (auto simp: hop_usable_def open_edges_from_def)
  then obtain i where i: "cg_indices cg b = Some i" "pg_node_weight P (cg_graph cg) i = Some n"
    by (auto simp: cg_get_node_def bind_eq_Some_conv)
  with table_okD(1) [OF cg_okD(1) [OF assms(1)] i(1)] have "nd_address n = b" by auto
  with nw(4) show "b \<noteq> src" "b \<noteq> dst" "b \<notin> set pre"
    by (auto simp: is_next_hop_usable_def split: if_splits)
  show "\<exists>i. cg_indices cg b = Some i" using i by blast
  show "\<exists>c. cg_get_channel P cg a b = Some c \<and> ce_status c = Open"
    using nw by (auto simp: cg_get_channel_def)
  show "\<exists>n. cg_get_node P cg b = Some n \<and> dc_node_score_threshold cfg \<le> nd_score n"
    using nw(3,4) by (auto simp: is_next_hop_usable_def split: if_splits)
qed

lemma usable_path_facts:
  assumes "cg_ok P keccak cg" "usable_path P cg cfg src dst p"
  shows "distinct p \<and> src \<notin> set p \<and> dst \<notin> set p \<and> set p \<subseteq> dom (cg_indices cg)"
  using assms(2)
proof induction
  case (usable_snoc p b)
  note h = hop_usable_facts(1-4) [OF assms(1) usable_snoc.hyps(2)]
  from usable_snoc.IH h show ?case by auto
qed simp

lemma finite_indices: "table_ok P idx g \<Longrightarrow> finite (dom idx)"
proof -
  assume t: "table_ok P idx g"
  have "inj_on (\<lambda>a. the (idx a)) (dom idx)"
  proof (rule inj_onI)
    fix a b
    assume "a \<in> dom idx" "b \<in> dom idx" "the (idx a) = the (idx b)"
    then obtain i where "idx a = Some i" "idx b = Some i" by auto
    then show "a = b" by (rule table_ok_inj [OF t])
  qed
  moreover have "finite ((\<lambda>a. the (idx a)) ` dom idx)" by (rule finite_subset [OF subset_UNIV]) simp
  ultimately show "finite (dom idx)" by (rule finite_imageD [rotated])
qed

definition short_paths ::
  "'g petgraph \<Rightarrow> 'g channel_graph \<Rightarrow> dfs_config \<Rightarrow> address \<Rightarrow> address \<Rightarrow> nat \<Rightarrow> address list set" where
  "short_paths P cg cfg src dst m = {p. usable_path P cg cfg src dst p \<and> p \<noteq> [] \<and> length p < m}"

lemma finite_short_paths:
  assumes "cg_ok P keccak cg"
  shows "finite (short_paths P cg cfg src dst m)"
proof (rule finite_subset)
  show "short_paths P cg cfg src dst m \<subseteq> {p. set p \<subseteq> dom (cg_indices cg) \<and> length p \<le> m}"
    using usable_path_facts [OF assms] unfolding short_paths_def by (blast intro: less_imp_le)
  show "finite {p. set p \<subseteq> dom (cg_indices cg) \<and> length p \<le> m}"
    by (rule finite_lists_length_le [OF finite_indices [OF cg_okD(1) [OF assms]]])
qed

section \<open>The invariant of the search\<close>

text \<open>The weights of the edges in the graph are so small that the weight of a path does not overflow.\<close>

definition graph_edges :: "'g petgraph \<Rightarrow> 'g channel_graph \<Rightarrow> channel_edge set" where
  "graph_edges P cg = {w. \<exists>e s d. pg_edge P (cg_graph cg) e = Some (s, d, w)}"

definition weights_ok :: "channel_edge set \<Rightarrow> (nat \<Rightarrow> channel_edge \<Rightarrow> (path_error, u256) result) \<Rightarrow> bool" where
  "weights_ok E cw \<longleftrightarrow> (\<forall>k. \<forall>e \<in> E. \<exists>w. cw k e = Ok w \<and> unat w \<le> 2 ^ 254)"

definition apart :: "weighted_path \<Rightarrow> weighted_path \<Rightarrow> bool" where
  "apart x y \<longleftrightarrow> wcp_fully_explored x \<or> wcp_fully_explored y \<or> wcp_path x \<parallel> wcp_path y"

lemma symp_apart: "symp apart"
  by (auto simp: symp_def apart_def)

definition pending ::
  "'g petgraph \<Rightarrow> 'g channel_graph \<Rightarrow> dfs_config \<Rightarrow> address \<Rightarrow> address \<Rightarrow> nat \<Rightarrow> weighted_path list \<Rightarrow> address list set" where
  "pending P cg cfg src dst m q =
     {p \<in> short_paths P cg cfg src dst m. \<exists>x \<in> set q. \<not> wcp_fully_explored x \<and> prefix (wcp_path x) p}"

definition covered :: "weighted_path list \<Rightarrow> address list \<Rightarrow> bool" where
  "covered q p \<longleftrightarrow> (\<exists>x \<in> set q. \<not> wcp_fully_explored x \<and> prefix (wcp_path x) p \<or> prefix p (wcp_path x))"

definition item_ok ::
  "'g petgraph \<Rightarrow> 'g channel_graph \<Rightarrow> dfs_config \<Rightarrow> address \<Rightarrow> address \<Rightarrow> nat \<Rightarrow> weighted_path \<Rightarrow> bool" where
  "item_ok P cg cfg src dst m x \<longleftrightarrow>
     wcp_path x \<noteq> [] \<and> length (wcp_path x) \<le> m \<and> usable_path P cg cfg src dst (wcp_path x)
     \<and> unat (wcp_weight x) \<le> length (wcp_path x) * 2 ^ 254"

text \<open>
  Every item is a usable path; no unexplored path extends another; every usable path is an extension of an
  unexplored item or a prefix of an item; and the iterations and the short paths still to be expanded together are
  at most the number of short usable paths.
\<close>

definition search_inv ::
  "'g petgraph \<Rightarrow> 'g channel_graph \<Rightarrow> dfs_config \<Rightarrow> address \<Rightarrow> address \<Rightarrow> nat \<Rightarrow> nat \<Rightarrow> weighted_path list \<Rightarrow> bool" where
  "search_inv P cg cfg src dst m iters q \<longleftrightarrow>
     (\<forall>x \<in> set q. item_ok P cg cfg src dst m x) \<and> sorted_wrt apart q
     \<and> (\<forall>p. usable_path P cg cfg src dst p \<and> p \<noteq> [] \<longrightarrow> covered q p)
     \<and> iters + card (pending P cg cfg src dst m q) \<le> card (short_paths P cg cfg src dst m)"

text \<open>The usable continuations of a path, as the search computes them.\<close>

lemma continuations:
  assumes "petgraph_ok P" "cg_ok P keccak cg" "cg_indices cg (last (src # p)) \<noteq> None"
  obtains cs where "(cg_open_channels_from P cg (last (src # p)) :: (path_error, _) result) = Ok cs"
    "set (map (\<lambda>(_, w). ce_destination (ed_channel w))
       (filter (\<lambda>(n, w). is_next_hop_usable cfg n w src dst p) cs)) = {b. hop_usable P cg cfg src dst (last (src # p)) p b}"
    "distinct (map (\<lambda>(_, w). ce_destination (ed_channel w)) (filter (\<lambda>(n, w). is_next_hop_usable cfg n w src dst p) cs))"
    "snd ` set cs \<subseteq> graph_edges P cg"
proof -
  obtain i where "cg_indices cg (last (src # p)) = Some i" using assms(3) by blast
  from open_channels_known [OF assms(1,2) this] obtain cs where
    cs: "(cg_open_channels_from P cg (last (src # p)) :: (path_error, _) result) = Ok cs"
      "set cs = open_edges_from P cg (last (src # p))" "distinct (map (\<lambda>(_, w). ce_destination (ed_channel w)) cs)"
    by blast
  moreover have "set (map (\<lambda>(_, w). ce_destination (ed_channel w)) (filter (\<lambda>(n, w). is_next_hop_usable cfg n w src dst p) cs))
      = {b. hop_usable P cg cfg src dst (last (src # p)) p b}"
    using cs(2) by (force simp: hop_usable_def)
  moreover have "distinct (map (\<lambda>(_, w). ce_destination (ed_channel w)) (filter (\<lambda>(n, w). is_next_hop_usable cfg n w src dst p) cs))"
    by (rule distinct_map_filter [OF cs(3)])
  moreover have "snd ` set cs \<subseteq> graph_edges P cg"
    unfolding cs(2) open_edges_from_def graph_edges_def cg_get_edge_iff [OF assms(1,2)] by (auto; blast)
  ultimately show thesis using that by blast
qed

lemma extend_all_Ok:
  assumes "weights_ok E cw" "\<not> wcp_fully_explored p" "unat (wcp_weight p) \<le> length (wcp_path p) * 2 ^ 254" "length (wcp_path p) < 3"
    "snd ` set es \<subseteq> E"
  shows "\<exists>k' new. extend_all cw k p es = Ok (k', new)
    \<and> map wcp_path new = map (\<lambda>(_, w). wcp_path p @ [ce_destination (ed_channel w)]) es
    \<and> (\<forall>x \<in> set new. \<not> wcp_fully_explored x \<and> unat (wcp_weight x) \<le> length (wcp_path x) * 2 ^ 254)"
  using assms(5)
proof (induction es arbitrary: k)
  case (Cons e es)
  obtain n w where e: "e = (n, w)" by (cases e)
  obtain v where v: "cw k w = Ok v" "unat v \<le> 2 ^ 254" using assms(1) Cons.prems unfolding weights_ok_def e by (metis image_subset_iff list.set_intros(1) snd_conv)
  have "unat (wcp_weight p) + unat v \<le> Suc (length (wcp_path p)) * 2 ^ 254" using v(2) assms(3) by simp
  moreover have "Suc (length (wcp_path p)) * 2 ^ 254 \<le> 3 * 2 ^ 254" using assms(4) by (intro mult_right_mono) simp_all
  moreover have "(3 * 2 ^ 254 :: nat) < 2 ^ 256" by simp
  ultimately have b: "unat (wcp_weight p) + unat v < 2 ^ 256"
    "unat (wcp_weight p) + unat v \<le> Suc (length (wcp_path p)) * 2 ^ 254" by linarith+
  then have "unat (wcp_weight p + v) = unat (wcp_weight p) + unat v" by (simp add: unat_word_ariths)
  moreover obtain k' new where "extend_all cw (k + 1) p es = Ok (k', new)"
     "map wcp_path new = map (\<lambda>(_, w). wcp_path p @ [ce_destination (ed_channel w)]) es"
     "\<forall>x \<in> set new. \<not> wcp_fully_explored x \<and> unat (wcp_weight x) \<le> length (wcp_path x) * 2 ^ 254"
  proof -
    have "snd ` set es \<subseteq> E" using Cons.prems by auto
    from Cons.IH [OF this, of "k + 1"] that show thesis by blast
  qed
  ultimately show ?case using b v(1) assms(2) by (simp add: e wcp_extend_def)
qed simp



lemma search_invD:
  assumes "search_inv P cg cfg src dst m iters q"
  shows "x \<in> set q \<Longrightarrow> item_ok P cg cfg src dst m x" "sorted_wrt apart q"
    "usable_path P cg cfg src dst p \<Longrightarrow> p \<noteq> [] \<Longrightarrow> covered q p"
    "iters + card (pending P cg cfg src dst m q) \<le> card (short_paths P cg cfg src dst m)"
  using assms by (simp_all add: search_inv_def)

text \<open>
  Expanding the unexplored short path \<open>x\<close>: whatever replaces it, as long as its unexplored items are proper extensions
  of it, one path less is pending.
\<close>

lemma pending_decreases:
  assumes "cg_ok P keccak cg" "search_inv P cg cfg src dst m iters q" "x \<in> set q" "\<not> wcp_fully_explored x"
    "length (wcp_path x) < m" "\<And>y. y \<in> set new \<Longrightarrow> \<not> wcp_fully_explored y \<Longrightarrow> strict_prefix (wcp_path x) (wcp_path y)"
  shows "Suc iters + card (pending P cg cfg src dst m (remove1 x q @ new)) \<le> card (short_paths P cg cfg src dst m)"
proof -
  let ?old = "pending P cg cfg src dst m q" and ?new = "pending P cg cfg src dst m (remove1 x q @ new)"
  note inv = search_invD [OF assms(2)]
  have fin: "finite ?old" using finite_short_paths [OF assms(1)] by (simp add: pending_def)
  have x: "wcp_path x \<in> ?old"
    using inv(1) [OF assms(3)] assms(3-5) by (auto simp: pending_def short_paths_def item_ok_def)
  have rest: "\<not> prefix (wcp_path y) (wcp_path x)" if "y \<in> set (remove1 x q)" "\<not> wcp_fully_explored y" for y
    using sorted_wrt_remove1(2) [OF symp_apart inv(2) assms(3) that(1)] that(2) assms(4) by (auto simp: apart_def)
  have "?new \<subseteq> ?old - {wcp_path x}"
  proof
    fix p
    assume "p \<in> ?new"
    then obtain y where p: "p \<in> short_paths P cg cfg src dst m" and y: "\<not> wcp_fully_explored y" "prefix (wcp_path y) p"
        and m: "y \<in> set (remove1 x q) \<or> y \<in> set new"
      by (auto simp: pending_def)
    from m show "p \<in> ?old - {wcp_path x}"
    proof
      assume r: "y \<in> set (remove1 x q)"
      then have "y \<in> set q" using set_remove1_subset by fastforce
      with p y rest [OF r y(1)] show ?thesis by (auto simp: pending_def)
    next
      assume "y \<in> set new"
      then have s: "strict_prefix (wcp_path x) (wcp_path y)" using assms(6) y(1) by blast
      then have "prefix (wcp_path x) p" using y(2) by (auto intro: prefix_order.trans)
      moreover have "p \<noteq> wcp_path x" using s y(2) by auto
      ultimately show ?thesis using p assms(3,4) by (auto simp: pending_def)
    qed
  qed
  then have "card ?new \<le> card (?old - {wcp_path x})" using fin by (intro card_mono) auto
  also have "\<dots> < card ?old" using x fin by (intro card_Diff1_less)
  finally show ?thesis using inv(4) by simp
qed

lemma prefix_snoc_cases:
  assumes "prefix p r" "p \<noteq> r"
  obtains b where "prefix (p @ [b]) r"
proof -
  from assms obtain b s where "r = p @ b # s" by (metis append_Nil2 list.exhaust prefixE)
  then have "prefix (p @ [b]) r" by simp
  with that show thesis by blast
qed

lemma search_inv_leaf:
  assumes "cg_ok P keccak cg" "search_inv P cg cfg src dst m iters q" "x \<in> set q" "\<not> wcp_fully_explored x"
    "length (wcp_path x) < m" "\<And>b. \<not> hop_usable P cg cfg src dst (last (src # wcp_path x)) (wcp_path x) b"
  shows "search_inv P cg cfg src dst m (Suc iters) (remove1 x q @ [x\<lparr>wcp_fully_explored := True\<rparr>])"
proof -
  let ?q = "remove1 x q @ [x\<lparr>wcp_fully_explored := True\<rparr>]"
  note inv = search_invD [OF assms(2)]
  have "\<forall>y \<in> set ?q. item_ok P cg cfg src dst m y"
    using inv(1) assms(3) set_remove1_subset [of x q] by (auto simp: item_ok_def)
  moreover have "sorted_wrt apart ?q"
    using sorted_wrt_remove1 [OF symp_apart inv(2) assms(3)] by (auto simp: sorted_wrt_append apart_def)
  moreover have "covered ?q p" if p: "usable_path P cg cfg src dst p" "p \<noteq> []" for p
  proof -
    from inv(3) [OF p] obtain y where y: "y \<in> set q"
        "\<not> wcp_fully_explored y \<and> prefix (wcp_path y) p \<or> prefix p (wcp_path y)" by (auto simp: covered_def)
    show ?thesis
    proof (cases "y = x")
      case False
      with y(1) have "y \<in> set (remove1 x q)" by simp
      with y(2) show ?thesis by (auto simp: covered_def)
    next
      case True
      have "prefix p (wcp_path x)"
      proof (rule ccontr)
        assume "\<not> prefix p (wcp_path x)"
        with y(2) True have "prefix (wcp_path x) p" "wcp_path x \<noteq> p" by auto
        then obtain b where "prefix (wcp_path x @ [b]) p" by (rule prefix_snoc_cases)
        then have "usable_path P cg cfg src dst (wcp_path x @ [b])" using p(1) usable_path_prefix by (metis prefixE)
        with assms(6) show False by (simp add: usable_path_snoc)
      qed
      then show ?thesis by (auto simp: covered_def)
    qed
  qed
  moreover have "Suc iters + card (pending P cg cfg src dst m ?q) \<le> card (short_paths P cg cfg src dst m)"
    by (rule pending_decreases [OF assms(1-5)]) simp
  ultimately show ?thesis by (simp add: search_inv_def)
qed

lemma search_inv_expand:
  assumes "cg_ok P keccak cg" "search_inv P cg cfg src dst m iters q" "x \<in> set q" "\<not> wcp_fully_explored x"
    "length (wcp_path x) < m" "map wcp_path new = map (\<lambda>b. wcp_path x @ [b]) bs" "distinct bs" "bs \<noteq> []"
    "set bs = {b. hop_usable P cg cfg src dst (last (src # wcp_path x)) (wcp_path x) b}"
    "\<And>y. y \<in> set new \<Longrightarrow> \<not> wcp_fully_explored y \<and> unat (wcp_weight y) \<le> length (wcp_path y) * 2 ^ 254"
  shows "search_inv P cg cfg src dst m (Suc iters) (remove1 x q @ new)"
proof -
  let ?q = "remove1 x q @ new"
  note inv = search_invD [OF assms(2)]
  have paths: "wcp_path ` set new = (\<lambda>b. wcp_path x @ [b]) ` set bs" using assms(6) by (metis list.set_map)
  have new: "\<exists>b. wcp_path y = wcp_path x @ [b] \<and> hop_usable P cg cfg src dst (last (src # wcp_path x)) (wcp_path x) b"
    if "y \<in> set new" for y using that paths assms(9) by (metis (no_types, lifting) imageE imageI mem_Collect_eq)
  have "item_ok P cg cfg src dst m y" if "y \<in> set new" for y
    using new [OF that] inv(1) [OF assms(3)] assms(5) assms(10) [OF that] by (auto simp: item_ok_def usable_path_snoc)
  then have "\<forall>y \<in> set ?q. item_ok P cg cfg src dst m y"
    using inv(1) set_remove1_subset [of x q] by auto
  moreover have "sorted_wrt apart ?q"
  proof -
    have "apart y z" if y: "y \<in> set (remove1 x q)" and z: "z \<in> set new" for y z
    proof -
      from sorted_wrt_remove1(2) [OF symp_apart inv(2) assms(3) y] assms(4)
      have "wcp_fully_explored y \<or> wcp_path x \<parallel> wcp_path y" by (auto simp: apart_def)
      moreover obtain b where "wcp_path z = wcp_path x @ [b]" using new [OF z] by blast
      moreover have "wcp_path y \<parallel> wcp_path x @ [b]" if "wcp_path x \<parallel> wcp_path y" for b
        using parallel_append [OF that, of "[b]" "[]"] by (simp add: parallel_commute)
      ultimately show ?thesis by (auto simp: apart_def)
    qed
    moreover have "sorted_wrt apart new"
    proof -
      have "sorted_wrt (\<lambda>p r. p \<parallel> r) (map (\<lambda>b. wcp_path x @ [b]) bs)"
        using assms(7) by (simp add: sorted_wrt_map) (auto simp: sorted_wrt_iff_nth_less nth_eq_iff_index_eq)
      then have "sorted_wrt (\<lambda>y z. wcp_path y \<parallel> wcp_path z) new" unfolding assms(6) [symmetric] by (simp add: sorted_wrt_map)
      then show ?thesis by (rule sorted_wrt_mono_rel [rotated]) (simp add: apart_def)
    qed
    ultimately show ?thesis
      using sorted_wrt_remove1(1) [OF symp_apart inv(2) assms(3)] by (auto simp: sorted_wrt_append)
  qed
  moreover have "covered ?q p" if p: "usable_path P cg cfg src dst p" "p \<noteq> []" for p
  proof -
    from inv(3) [OF p] obtain y where y: "y \<in> set q"
        "\<not> wcp_fully_explored y \<and> prefix (wcp_path y) p \<or> prefix p (wcp_path y)" by (auto simp: covered_def)
    show ?thesis
    proof (cases "y = x")
      case False
      with y(1) have "y \<in> set (remove1 x q)" by simp
      with y(2) show ?thesis by (auto simp: covered_def)
    next
      case True
      show ?thesis
      proof (cases "prefix p (wcp_path x)")
        case True
        obtain b where "b \<in> set bs" using assms(8) by (meson last_in_set)
        then obtain z where "z \<in> set new" "wcp_path z = wcp_path x @ [b]" using paths by (metis (no_types, lifting) imageE imageI)
        moreover from this True have "prefix p (wcp_path z)" by simp
        ultimately show ?thesis unfolding covered_def by (intro bexI [of _ z] disjI2) simp_all
      next
        case False
        with y(2) True have "prefix (wcp_path x) p" "wcp_path x \<noteq> p" by auto
        then obtain b where b: "prefix (wcp_path x @ [b]) p" by (rule prefix_snoc_cases)
        then have "usable_path P cg cfg src dst (wcp_path x @ [b])" using p(1) usable_path_prefix by (metis prefixE)
        then have "b \<in> set bs" using assms(9) by (simp add: usable_path_snoc)
        then obtain z where "z \<in> set new" "wcp_path z = wcp_path x @ [b]" using paths by (metis (no_types, lifting) imageE imageI)
        with b assms(10) show ?thesis unfolding covered_def by (intro bexI [of _ z] disjI1) simp_all
      qed
    qed
  qed
  moreover have "Suc iters + card (pending P cg cfg src dst m ?q) \<le> card (short_paths P cg cfg src dst m)"
  proof (rule pending_decreases [OF assms(1-5)])
    show "strict_prefix (wcp_path x) (wcp_path y)" if "y \<in> set new" for y
      using new [OF that] by (auto simp: strict_prefix_def)
  qed
  ultimately show ?thesis by (simp add: search_inv_def)
qed



section \<open>Correctness of the search\<close>

definition search_result ::
  "'g petgraph \<Rightarrow> 'g channel_graph \<Rightarrow> dfs_config \<Rightarrow> address \<Rightarrow> address \<Rightarrow> nat \<Rightarrow> nat \<Rightarrow>
   (path_error, channel_path) result \<Rightarrow> bool" where
  "search_result P cg cfg src dst min_hops max_hops r \<longleftrightarrow>
     (\<exists>p. r = Ok p \<and> usable_path P cg cfg src dst p \<and> min_hops \<le> length p \<and> length p \<le> max_hops)
   \<or> (r = Err (PathNotFound max_hops src dst)
      \<and> (card (short_paths P cg cfg src dst max_hops) \<le> Suc (dc_max_iterations cfg) \<longrightarrow>
           (\<forall>p. usable_path P cg cfg src dst p \<longrightarrow> length p < min_hops)))"

lemma search_stops:
  assumes "cg_ok P keccak cg" "search_inv P cg cfg src dst max_hops iters q" "heap_pop tie q = Some (x, rest)"
    "length (wcp_path x) = max_hops \<or> wcp_fully_explored x \<or> iters > dc_max_iterations cfg" "min_hops \<le> max_hops"
  shows "search_result P cg cfg src dst min_hops max_hops
    (if length (wcp_path x) \<ge> min_hops \<and> length (wcp_path x) \<le> max_hops then Ok (wcp_path x)
     else Err (PathNotFound max_hops src dst))"
proof -
  note pop = heap_pop_Some [OF assms(3)] and inv = search_invD [OF assms(2)]
  have x: "item_ok P cg cfg src dst max_hops x" by (rule inv(1) [OF pop(1)])
  show ?thesis
  proof (cases "length (wcp_path x) \<ge> min_hops")
    case True
    with x show ?thesis by (simp add: search_result_def item_ok_def)
  next
    case False
    have "length p < min_hops"
      if c: "card (short_paths P cg cfg src dst max_hops) \<le> Suc (dc_max_iterations cfg)" and p: "usable_path P cg cfg src dst p" for p
    proof (cases "wcp_fully_explored x")
      case ex: True
      have top: "wcp_fully_explored y \<and> length (wcp_path y) \<le> length (wcp_path x)" if "y \<in> set q" for y
        using pop(3) [OF that] ex by (auto simp: wcp_cmp_Greater)
      show ?thesis
      proof (cases "p = []")
        case False
        from inv(3) [OF p this] obtain y where "y \<in> set q" "prefix p (wcp_path y)" using top by (auto simp: covered_def)
        with top have "length p \<le> length (wcp_path x)" using prefix_length_le by fastforce
        with \<open>\<not> length (wcp_path x) \<ge> min_hops\<close> show ?thesis by simp
      qed (use False in simp)
    next
      case new: False
      have short: "length (wcp_path x) < max_hops" using False assms(5) by simp
      with new assms(4) have "dc_max_iterations cfg < iters" by simp
      moreover have "wcp_path x \<in> pending P cg cfg src dst max_hops q"
        using x short new pop(1) by (auto simp: pending_def short_paths_def item_ok_def)
      then have "0 < card (pending P cg cfg src dst max_hops q)"
        using finite_short_paths [OF assms(1)] by (auto simp: card_gt_0_iff pending_def)
      ultimately show ?thesis using inv(4) c by simp
    qed
    with False show ?thesis by (simp add: search_result_def)
  qed
qed

lemma select_loop_result:
  assumes "petgraph_ok P" "cg_ok P keccak cg" "weights_ok (graph_edges P cg) cw" "min_hops \<le> max_hops" "max_hops \<le> 3"
    "search_inv P cg cfg src dst max_hops iters q" "q = [] \<Longrightarrow> 1 \<le> min_hops"
  shows "search_result P cg cfg src dst min_hops max_hops
    (select_loop P cg cfg cw tie src dst min_hops max_hops k iters q)"
  using assms(6,7)
proof (induction "Suc (dc_max_iterations cfg) - iters" arbitrary: k iters q rule: less_induct)
  case less
  note inv = search_invD [OF less.prems(1)]
  show ?case
  proof (cases "heap_pop tie q")
    case None
    then have "q = []" by simp
    then have "p = []" if "usable_path P cg cfg src dst p" for p
      using inv(3) [OF that] by (auto simp: covered_def)
    then have "usable_path P cg cfg src dst p \<Longrightarrow> length p < min_hops" for p
      using less.prems(2) [OF \<open>q = []\<close>] by fastforce
    then show ?thesis
      unfolding select_loop.simps [of P cg cfg cw tie src dst min_hops max_hops k iters q] None
      by (simp add: search_result_def)
  next
    case (Some a)
    then obtain x rest where pop: "heap_pop tie q = Some (x, rest)" by (cases a) auto
    note popped = heap_pop_Some [OF pop]
    have x: "item_ok P cg cfg src dst max_hops x" by (rule inv(1) [OF popped(1)])
    show ?thesis
    proof (cases "length (wcp_path x) = max_hops \<or> wcp_fully_explored x \<or> iters > dc_max_iterations cfg")
      case True
      with search_stops [OF assms(2) less.prems(1) pop True assms(4)] show ?thesis
        unfolding select_loop.simps [of P cg cfg cw tie src dst min_hops max_hops k iters q] pop by (simp add: Let_def)
    next
      case False
      then have run: "length (wcp_path x) < max_hops" "\<not> wcp_fully_explored x" "iters \<le> dc_max_iterations cfg"
        using x by (auto simp: item_ok_def)
      have px: "wcp_path x \<noteq> []" "last (src # wcp_path x) = last (wcp_path x)" using x by (auto simp: item_ok_def)
      have "last (wcp_path x) \<in> set (wcp_path x)" using px(1) by (rule last_in_set)
      then have "cg_indices cg (last (src # wcp_path x)) \<noteq> None"
        using x usable_path_facts [OF assms(2), of cfg src dst "wcp_path x"] unfolding item_ok_def px(2) by blast
      then obtain cs where cs: "(cg_open_channels_from P cg (last (wcp_path x)) :: (path_error, _) result) = Ok cs"
          "set (map (\<lambda>(_, w). ce_destination (ed_channel w)) (filter (\<lambda>(n, w). is_next_hop_usable cfg n w src dst (wcp_path x)) cs))
             = {b. hop_usable P cg cfg src dst (last (src # wcp_path x)) (wcp_path x) b}"
          "distinct (map (\<lambda>(_, w). ce_destination (ed_channel w)) (filter (\<lambda>(n, w). is_next_hop_usable cfg n w src dst (wcp_path x)) cs))"
          "snd ` set cs \<subseteq> graph_edges P cg"
        by (rule continuations [OF assms(1,2), where cfg = cfg and dst = dst]) (simp add: px)
      let ?new = "filter (\<lambda>(n, w). is_next_hop_usable cfg n w src dst (wcp_path x)) cs"
      note loop = select_loop.simps [of P cg cfg cw tie src dst min_hops max_hops k iters q]
      have dec: "Suc (dc_max_iterations cfg) - Suc iters < Suc (dc_max_iterations cfg) - iters" using run(3) by simp
      show ?thesis
      proof (cases "?new = []")
        case True
        then have "\<not> hop_usable P cg cfg src dst (last (src # wcp_path x)) (wcp_path x) b" for b using cs(2) by auto
        from less.hyps [OF dec search_inv_leaf [OF assms(2) less.prems(1) popped(1) run(2,1) this], of k]
        show ?thesis using False px cs(1) True popped(2) unfolding loop pop by (simp add: Let_def)
      next
        case new: False
        have "snd ` set ?new \<subseteq> graph_edges P cg" using cs(4) by auto
        moreover have "length (wcp_path x) < 3" using run(1) assms(5) by simp
        ultimately obtain k' ys where ys: "extend_all cw k x ?new = Ok (k', ys)"
            "map wcp_path ys = map (\<lambda>(_, w). wcp_path x @ [ce_destination (ed_channel w)]) ?new"
            "\<forall>y \<in> set ys. \<not> wcp_fully_explored y \<and> unat (wcp_weight y) \<le> length (wcp_path y) * 2 ^ 254"
          using extend_all_Ok [OF assms(3) run(2), of ?new k] x unfolding item_ok_def by blast
        have "map wcp_path ys = map (\<lambda>b. wcp_path x @ [b]) (map (\<lambda>(_, w). ce_destination (ed_channel w)) ?new)"
          unfolding ys(2) by (simp add: case_prod_beta comp_def)
        from search_inv_expand [OF assms(2) less.prems(1) popped(1) run(2,1) this cs(3) _ cs(2)] new ys(3)
        have i: "search_inv P cg cfg src dst max_hops (Suc iters) (remove1 x q @ ys)" by simp
        have "ys \<noteq> []" using ys(2) new by (metis map_is_Nil_conv)
        with less.hyps [OF dec i, of k']
        show ?thesis using False px cs(1) new ys(1) popped(2) unfolding loop pop by (simp add: Let_def)
      qed
    qed
  qed
qed



lemma hop_usable_first: "usable_path P cg cfg src dst [b] \<longleftrightarrow> hop_usable P cg cfg src dst src [] b"
  using usable_path_snoc [of P cg cfg src dst "[]" b] by (simp add: usable_Nil)

lemma search_inv_start:
  assumes "cg_ok P keccak cg" "1 \<le> m" "map wcp_path q = map (\<lambda>b. [b]) bs" "distinct bs"
    "set bs = {b. hop_usable P cg cfg src dst src [] b}"
    "\<And>y. y \<in> set q \<Longrightarrow> \<not> wcp_fully_explored y \<and> unat (wcp_weight y) \<le> length (wcp_path y) * 2 ^ 254"
  shows "search_inv P cg cfg src dst m 0 q"
proof -
  have paths: "wcp_path ` set q = (\<lambda>b. [b]) ` set bs" using assms(3) by (metis list.set_map)
  have "item_ok P cg cfg src dst m y" if "y \<in> set q" for y
  proof -
    from that paths assms(5) obtain b where "wcp_path y = [b]" "hop_usable P cg cfg src dst src [] b"
      by (metis (no_types, lifting) imageE imageI mem_Collect_eq)
    with assms(2) assms(6) [OF that] show ?thesis by (simp add: item_ok_def hop_usable_first)
  qed
  moreover have "sorted_wrt apart q"
  proof -
    have "sorted_wrt (\<lambda>p r. p \<parallel> r) (map (\<lambda>b. [b]) bs)"
      using assms(4) by (simp add: sorted_wrt_map) (auto simp: sorted_wrt_iff_nth_less nth_eq_iff_index_eq)
    then have "sorted_wrt (\<lambda>y z. wcp_path y \<parallel> wcp_path z) q" unfolding assms(3) [symmetric] by (simp add: sorted_wrt_map)
    then show ?thesis by (rule sorted_wrt_mono_rel [rotated]) (simp add: apart_def)
  qed
  moreover have "covered q p" if p: "usable_path P cg cfg src dst p" "p \<noteq> []" for p
  proof -
    obtain b r where r: "p = [b] @ r" using p(2) by (cases p) auto
    with p(1) usable_path_prefix have "hop_usable P cg cfg src dst src [] b" by (metis hop_usable_first)
    then obtain y where "y \<in> set q" "wcp_path y = [b]" using paths assms(5) by (metis (no_types, lifting) imageE imageI mem_Collect_eq)
    with assms(6) r show ?thesis unfolding covered_def by (intro bexI [of _ y] disjI1) simp_all
  qed
  moreover have "card (pending P cg cfg src dst m q) \<le> card (short_paths P cg cfg src dst m)"
    by (rule card_mono [OF finite_short_paths [OF assms(1)]]) (auto simp: pending_def)
  ultimately show ?thesis by (simp add: search_inv_def)
qed

lemma select_path_result:
  assumes "petgraph_ok P" "cg_ok P keccak cg" "weights_ok (graph_edges P cg) cw" "cg_contains_node P cg source"
    "1 \<le> min_hops" "min_hops \<le> max_hops" "max_hops \<le> intermediate_hops"
  shows "search_result P cg cfg source destination min_hops max_hops
    (select_path P cg cfg cw tie source destination min_hops max_hops)"
proof -
  have "cg_indices cg (last (source # [])) \<noteq> None"
    using assms(4) by (auto simp: cg_contains_node_def cg_get_node_def bind_eq_Some_conv)
  then obtain cs where cs: "(cg_open_channels_from P cg source :: (path_error, _) result) = Ok cs"
      "set (map (\<lambda>(_, w). ce_destination (ed_channel w)) (filter (\<lambda>(n, w). is_next_hop_usable cfg n w source destination []) cs))
         = {b. hop_usable P cg cfg source destination source [] b}"
      "distinct (map (\<lambda>(_, w). ce_destination (ed_channel w)) (filter (\<lambda>(n, w). is_next_hop_usable cfg n w source destination []) cs))"
      "snd ` set cs \<subseteq> graph_edges P cg"
    by (rule continuations [OF assms(1,2), where cfg = cfg and dst = destination and p = "[]"]) simp
  let ?new = "filter (\<lambda>(n, w). is_next_hop_usable cfg n w source destination []) cs"
  have "snd ` set ?new \<subseteq> graph_edges P cg" using cs(4) by auto
  then obtain k q where q: "extend_all cw 0 wcp_default ?new = Ok (k, q)"
      "map wcp_path q = map (\<lambda>(_, w). [ce_destination (ed_channel w)]) ?new"
      "\<forall>y \<in> set q. \<not> wcp_fully_explored y \<and> unat (wcp_weight y) \<le> length (wcp_path y) * 2 ^ 254"
    using extend_all_Ok [OF assms(3), of wcp_default ?new 0] by (auto simp: wcp_default_def)
  have "map wcp_path q = map (\<lambda>b. [b]) (map (\<lambda>(_, w). ce_destination (ed_channel w)) ?new)"
    unfolding q(2) by (simp add: case_prod_beta comp_def)
  from search_inv_start [OF assms(2) _ this cs(3,2)] q(3) assms(5,6)
  have "search_inv P cg cfg source destination max_hops 0 q" by simp
  from select_loop_result [OF assms(1-3,6) _ this, of tie k] assms(5,7) cs(1) q(1) assms(6)
  show ?thesis by (simp add: select_path_def intermediate_hops_def)
qed

text \<open>C9: for a source in the graph and a legal range of hops the path selection always ends, without a panic, with a
path or with the error that no path was found. A path it returns has a number of hops in the range, consists of open
channels to nodes that pass the filters of the selector, visits no node twice and contains neither the source nor the
destination. When it finds none although the iterations suffice for all shorter usable paths, there is no usable path
with the required number of hops.\<close>
theorem select_path_correct:
  assumes "petgraph_ok P" "cg_ok P keccak cg" "weights_ok (graph_edges P cg) cw" "cg_contains_node P cg source"
    "1 \<le> min_hops" "min_hops \<le> max_hops" "max_hops \<le> intermediate_hops"
  shows "(\<exists>p. select_path P cg cfg cw tie source destination min_hops max_hops = Ok p
        \<and> usable_path P cg cfg source destination p \<and> min_hops \<le> length p \<and> length p \<le> max_hops
        \<and> distinct (source # p) \<and> destination \<notin> set p)
    \<or> (select_path P cg cfg cw tie source destination min_hops max_hops = Err (PathNotFound max_hops source destination)
        \<and> (card (short_paths P cg cfg source destination max_hops) \<le> Suc (dc_max_iterations cfg) \<longrightarrow>
             (\<forall>p. usable_path P cg cfg source destination p \<longrightarrow> length p < min_hops)))"
  using select_path_result [OF assms, of cfg destination tie] usable_path_facts [OF assms(2), of cfg source destination]
  unfolding search_result_def by auto

section \<open>Selected paths validate\<close>

lemma hops_ok_nth:
  "hops_ok P cg a bs \<longleftrightarrow>
     (\<forall>i < length bs. (a # bs) ! i \<noteq> bs ! i)
     \<and> (\<forall>i. Suc i < length bs \<longrightarrow> (\<exists>c. cg_get_channel P cg ((a # bs) ! i) (bs ! i) = Some c \<and> ce_status c = Open))"
proof (induction bs arbitrary: a)
  case (Cons b bs)
  have "(\<forall>i < length (b # bs). (a # b # bs) ! i \<noteq> (b # bs) ! i) \<longleftrightarrow> a \<noteq> b \<and> (\<forall>i < length bs. (b # bs) ! i \<noteq> bs ! i)"
    by (simp add: All_less_Suc2)
  moreover have "(\<forall>i. Suc i < length (b # bs) \<longrightarrow>
        (\<exists>c. cg_get_channel P cg ((a # b # bs) ! i) ((b # bs) ! i) = Some c \<and> ce_status c = Open)) \<longleftrightarrow>
      (bs \<noteq> [] \<longrightarrow> (\<exists>c. cg_get_channel P cg a b = Some c \<and> ce_status c = Open))
      \<and> (\<forall>i. Suc i < length bs \<longrightarrow> (\<exists>c. cg_get_channel P cg ((b # bs) ! i) (bs ! i) = Some c \<and> ce_status c = Open))"
    by (cases bs) (simp_all add: All_less_Suc2)
  ultimately show ?case unfolding hops_ok.simps Cons.IH by blast
qed simp

lemma nth_hop: "i \<le> length p \<Longrightarrow> (src # p @ [b]) ! i = (src # p) ! i"
  using nth_append [of "src # p" "[b]" i] by simp

lemma usable_path_channels:
  assumes "cg_ok P keccak cg" "usable_path P cg cfg src dst p" "i < length p"
  shows "\<exists>c. cg_get_channel P cg ((src # p) ! i) (p ! i) = Some c \<and> ce_status c = Open"
  using assms(2,3)
proof (induction arbitrary: i)
  case (usable_snoc p b)
  show ?case
  proof (cases "i < length p")
    case True
    with usable_snoc.IH [OF True] show ?thesis by (simp add: nth_append nth_hop)
  next
    case False
    with usable_snoc.prems have i: "i = length p" by simp
    have "(src # p @ [b]) ! length p = last (src # p)" by (simp add: last_conv_nth nth_hop)
    with hop_usable_facts(5) [OF assms(1) usable_snoc.hyps(2)] show ?thesis by (simp add: i nth_append)
  qed
qed simp

lemma usable_path_hops_ok:
  assumes "cg_ok P keccak cg" "usable_path P cg cfg src dst p" "p \<noteq> []"
  shows "hops_ok P cg src (p @ [dst])"
  unfolding hops_ok_nth
proof (intro conjI allI impI)
  note f = usable_path_facts [OF assms(1,2)]
  fix i
  show "\<exists>c. cg_get_channel P cg ((src # p @ [dst]) ! i) ((p @ [dst]) ! i) = Some c \<and> ce_status c = Open"
    if "Suc i < length (p @ [dst])"
    using usable_path_channels [OF assms(1,2), of i] that by (simp add: nth_append nth_hop)
next
  note f = usable_path_facts [OF assms(1,2)]
  fix i
  assume i: "i < length (p @ [dst])"
  show "(src # p @ [dst]) ! i \<noteq> (p @ [dst]) ! i"
  proof (cases "i < length p")
    case True
    have "distinct (src # p)" using f by simp
    then have "(src # p) ! i \<noteq> (src # p) ! Suc i" using True nth_eq_iff_index_eq [of "src # p" i "Suc i"] by simp
    then show ?thesis using True by (simp add: nth_append nth_hop)
  next
    case False
    with i have "i = length p" by simp
    moreover have "(src # p @ [dst]) ! length p = last p" using assms(3) by (simp add: last_conv_nth nth_append nth_Cons')
    moreover have "last p \<noteq> dst" using f assms(3) last_in_set by metis
    ultimately show ?thesis by (simp add: nth_append)
  qed
qed

text \<open>C28: every path that the selector returns, completed by the destination, is accepted by the path validation
against the same graph as soon as the resolver knows a key for each of its addresses; the validated path has these
addresses and keys.\<close>
theorem selected_path_validates:
  assumes "petgraph_ok P" "cg_ok P keccak cg" "weights_ok (graph_edges P cg) cw" "cg_contains_node P cg source"
    "1 \<le> min_hops" "min_hops \<le> max_hops" "max_hops \<le> intermediate_hops"
    "select_path P cg cfg cw tie source destination min_hops max_hops = Ok p"
    "\<And>a. a \<in> set (p @ [destination]) \<Longrightarrow> rs_transport rs a = Ok (Some (key_of a))"
  shows "vp_new P (Chain source) (map Chain (cp_hops (cp_from_channel_path p destination))) cg rs
    = Ok (ValidatedPath (TransportPath (map key_of (p @ [destination]))) (cp_from_channel_path p destination))"
proof -
  from select_path_result [OF assms(1-7), of cfg destination tie] assms(8)
  have "usable_path P cg cfg source destination p" "p \<noteq> []" using assms(5) by (auto simp: search_result_def)
  then have h: "hops_ok P cg source (p @ [destination])" by (rule usable_path_hops_ok [OF assms(2)])
  have "list_all2 (\<lambda>h ka. resolve_hop rs h = Ok ka) (map Chain as) (zip (map key_of as) as)"
    if "set as \<subseteq> set (p @ [destination])" for as
    using that assms(9) by (induction as) auto
  then have "list_all2 (\<lambda>h ka. resolve_hop rs h = Ok ka) (map Chain (p @ [destination]))
      (zip (map key_of (p @ [destination])) (p @ [destination]))" by blast
  with h vp_loop_Ok [of "length (map Chain (p @ [destination]))" 0 "map Chain (p @ [destination])" P cg rs source "[]" "[]"
      "map key_of (p @ [destination])" "p @ [destination]"]
  have "vp_loop P cg rs (length (map Chain (p @ [destination]))) 0 source (map Chain (p @ [destination])) [] []
      = Ok (map key_of (p @ [destination]), p @ [destination])" by simp
  then show ?thesis by (simp add: vp_new_def cp_from_channel_path_def)
qed

lemma unat_of_nat_u256: "k < 2 ^ 256 \<Longrightarrow> unat (of_nat k :: u256) = k"
  by (simp add: unsigned_of_nat take_bit_nat_eq_self)

lemma randomized_weights_ok:
  assumes "\<And>k. 0 \<le> rf k \<and> rf k < 1" "\<And>w. w \<in> E \<Longrightarrow> unat (ce_balance (ed_channel w)) \<le> 10 ^ 25"
  shows "weights_ok E (randomized_edge_weight rf)"
  unfolding weights_ok_def
proof (intro allI ballI)
  fix k w
  assume "w \<in> E"
  let ?v = "ce_balance (ed_channel w)"
  have v: "unat ?v \<le> 10 ^ 25" by (rule assms(2) [OF \<open>w \<in> E\<close>])
  obtain y where y: "u256_mul_f64 ?v (Some (rf k)) = Ok y" "unat y \<le> 10 ^ 25"
  proof (cases "rf k = 0")
    case True
    then show thesis using that by (simp add: u256_mul_f64_def)
  next
    case False
    have f: "mul_factor (rf k) \<le> 2 ^ 52" by (simp add: mul_factor_def)
    then have le: "unat ?v * mul_factor (rf k) \<le> 10 ^ 25 * 2 ^ 52" using v by (rule mult_le_mono [rotated])
    then have lt: "unat ?v * mul_factor (rf k) < 2 ^ 256" by (rule order_le_less_trans) simp
    have d: "unat ?v * mul_factor (rf k) div 2 ^ 52 \<le> 10 ^ 25" using div_le_mono [OF le, of "2 ^ 52"] by simp
    then have "unat ?v * mul_factor (rf k) div 2 ^ 52 < 2 ^ 256" by (rule order_le_less_trans) simp
    then have "unat (of_nat (unat ?v * mul_factor (rf k) div 2 ^ 52) :: u256) = unat ?v * mul_factor (rf k) div 2 ^ 52"
      by (rule unat_of_nat_u256)
    with d u256_mul_f64_eq [of "rf k" ?v] lt False assms(1) [of k] that show thesis by simp
  qed
  have "unat (max y 1) \<le> 2 ^ 254"
  proof (cases "y \<le> 1")
    case False
    then show ?thesis using order_trans [OF y(2), of "2 ^ 254"] by (simp add: max_def)
  qed (simp add: max_def)
  with y(1) show "\<exists>w'. randomized_edge_weight rf k w = Ok w' \<and> unat w' \<le> 2 ^ 254"
    by (simp add: randomized_edge_weight_def)
qed

section \<open>Witnesses\<close>

definition example_dfs :: dfs_config where
  "example_dfs =
     \<lparr>dc_max_iterations = 10, dc_node_score_threshold = 0, dc_edge_score_threshold = 0,
      dc_max_first_hop_latency = None, dc_allow_zero_edge_weight = False\<rparr>"

definition example_resolver :: resolver where
  "example_resolver = \<lparr>rs_transport = (\<lambda>a. Ok (Some (7 # a))), rs_chain = (\<lambda>k. Ok (Some (tl k)))\<rparr>"

lemma example_weights_ok: "weights_ok E (\<lambda>_ _. Ok 1)"
  by (simp add: weights_ok_def)

lemma removed_graph_known: "cg_contains_node list_petgraph removed_graph [1]"
  by (simp add: cg_contains_node_def cg_get_node_def removed_graph_def list_graph_eval)

lemma removed_graph_usable: "usable_path list_petgraph removed_graph example_dfs [1] [5] [[2]]"
proof -
  have "cg_get_edge list_petgraph removed_graph [1] [2] = Some (0, example_edge [1] [2])"
    unfolding cg_get_edge_iff [OF list_petgraph_ok removed_graph_ok] removed_graph_slots
    by (auto simp: example_edge_def)
  moreover have "cg_get_node list_petgraph removed_graph [2] = Some (fresh_node [2])"
    by (simp add: cg_get_node_def removed_graph_def list_graph_eval)
  ultimately have "(fresh_node [2], example_edge [1] [2]) \<in> open_edges_from list_petgraph removed_graph [1]"
    by (auto simp: open_edges_from_def example_edge_def)
  moreover have "is_next_hop_usable example_dfs (fresh_node [2]) (example_edge [1] [2]) [1] [5] []"
    by (simp add: is_next_hop_usable_def fresh_node_def example_edge_def example_dfs_def bal_is_zero_def
        example_channel_def ce_new_def)
  moreover have "ce_destination (ed_channel (example_edge [1] [2])) = [2]" by (simp add: example_edge_def)
  ultimately show ?thesis unfolding hop_usable_first hop_usable_def by blast
qed

lemma short_paths_1: "short_paths P cg cfg src dst (Suc 0) = {}"
  by (auto simp: short_paths_def)

theorem select_path_correct_witness:
  "\<exists>p. select_path list_petgraph removed_graph example_dfs (\<lambda>_ _. Ok 1) (\<lambda>_. 0) [1] [5] 1 1 = Ok p
     \<and> length p = 1 \<and> [1] \<notin> set p \<and> [5] \<notin> set p"
  using select_path_correct [OF list_petgraph_ok removed_graph_ok example_weights_ok removed_graph_known,
      of 1 1 example_dfs "\<lambda>_. 0" "[5]"] removed_graph_usable
  by (fastforce simp: intermediate_hops_def short_paths_1)

lemma example_selection:
  "select_path list_petgraph removed_graph example_dfs (\<lambda>_ _. Ok 1) (\<lambda>_. 0) [1] [5] 1 1 = Ok [[2]]"
  by (simp add: select_path_def intermediate_hops_def cg_open_channels_from_def removed_graph_def list_graph_eval is_open_def
      example_edge_def is_next_hop_usable_def fresh_node_def example_dfs_def bal_is_zero_def example_channel_def ce_new_def
      wcp_extend_def wcp_default_def select_loop.simps heap_pop_def heap_max_def wcp_cmp_def)

theorem selected_path_validates_witness:
  "vp_new list_petgraph (Chain [1]) [Chain [2], Chain [5]] removed_graph example_resolver
   = Ok (ValidatedPath (TransportPath [[7, 2], [7, 5]]) (ChainPath [[2], [5]]))"
  using selected_path_validates [OF list_petgraph_ok removed_graph_ok example_weights_ok removed_graph_known
      _ _ _ example_selection, of example_resolver "\<lambda>a. 7 # a"]
  by (simp add: intermediate_hops_def example_resolver_def cp_from_channel_path_def)

text \<open>
  A source that is not in the graph: after the removal of a node the selector returns the relay that a channel of an
  unrelated node leads to, and the validation then rejects the path.
\<close>

lemma select_path_unknown_source:
  "removal_steps = Ok removed_graph \<and> \<not> cg_contains_node list_petgraph removed_graph [9]
   \<and> select_path list_petgraph removed_graph example_dfs (\<lambda>_ _. Ok 1) (\<lambda>_. 0) [9] [5] 1 1 = Ok [[1]]
   \<and> vp_new list_petgraph (Chain [9]) [Chain [1], Chain [5]] removed_graph example_resolver = Err (MissingChannel [9] [1])"
proof (intro conjI)
  show "removal_steps = Ok removed_graph" by (rule removal_steps_eq)
  show "\<not> cg_contains_node list_petgraph removed_graph [9]"
    by (simp add: cg_contains_node_def cg_get_node_def removed_graph_def)
  have c: "slot_count [Some a, None, Some b, Some c] = 3" for a b c :: node by (simp add: slot_count_def)
  show "select_path list_petgraph removed_graph example_dfs (\<lambda>_ _. Ok 1) (\<lambda>_. 0) [9] [5] 1 1 = Ok [[1]]"
    by (simp add: select_path_def intermediate_hops_def cg_open_channels_from_def removed_graph_def me_graph_def list_graph_eval
        is_open_def example_edge_def is_next_hop_usable_def fresh_node_def example_dfs_def bal_is_zero_def example_channel_def
        ce_new_def c wcp_extend_def wcp_default_def select_loop.simps heap_pop_def heap_max_def wcp_cmp_def)
  show "vp_new list_petgraph (Chain [9]) [Chain [1], Chain [5]] removed_graph example_resolver = Err (MissingChannel [9] [1])"
    by (simp add: vp_new_def example_resolver_def vp_check_channel_def cg_get_channel_def cg_get_edge_def removed_graph_def)
qed

end
