(* ===== verification/Ticket_Store.thy ===== *)
theory Ticket_Store
  imports Tickets
begin

text \<open>
  The store of winning tickets of a node: the selection of tickets (\<open>db/api/src/tickets.rs\<close>), the rows of the
  ticket table (\<open>db/entity/src/conversions/tickets.rs\<close>), the operations on the table, on the statistics and on the
  outgoing ticket indices (\<open>db/sql/src/tickets.rs\<close>), and the queue of tickets to be stored
  (\<open>db/sql/src/ticket_manager.rs\<close>).

  A table is the list of its rows in the order of their row numbers. Columns hold what the code writes into them:
  hexadecimal text and big-endian blobs, which the database compares byte by byte. A transaction that fails is
  rolled back, so an operation that runs in one transaction returns the state after it or an error. Failures of the
  database connection are not modelled; violations of the uniqueness constraints of the schema
  (\<open>db/migration/src\<close>) are. Metrics are not modelled.
\<close>

section \<open>Errors\<close>

datatype db_entity_error =
    ConversionError string
  | EntityTypesError core_types_error
  | EntityCryptoError crypto_error
  | EntityGeneralError general_error

datatype db_error =
    MissingAccount
  | DbChannelNotFound hash
  | MissingFixedTableEntry string
  | DecodingError
  | LogicalError string
  | BackendError string
  | DbCoreTypesError core_types_error
  | DbCryptoError crypto_error
  | EntityError db_entity_error
  | DbNonSpecificError general_error
  | DbTicketValidationError ticket string
  | AcknowledgementValidationError string

section \<open>Hexadecimal text\<close>

text \<open>\<open>ToHex\<close> of \<open>common/primitive-types/src/traits.rs\<close>; the encoding and decoding of digits is that of the \<open>hex\<close> format.\<close>

definition hex_digit :: "nat \<Rightarrow> char" where
  "hex_digit n = (if n < 10 then char_of (48 + n) else char_of (87 + n))"

definition hex_value :: "char \<Rightarrow> nat option" where
  "hex_value c =
     (let n = (of_char c :: nat) in
      if 48 \<le> n \<and> n \<le> 57 then Some (n - 48)
      else if 97 \<le> n \<and> n \<le> 102 then Some (n - 87)
      else if 65 \<le> n \<and> n \<le> 70 then Some (n - 55)
      else None)"

fun hex_encode :: "bytes \<Rightarrow> string" where
  "hex_encode [] = []"
| "hex_encode (b # bs) = hex_digit (unat b div 16) # hex_digit (unat b mod 16) # hex_encode bs"

fun hex_decode :: "string \<Rightarrow> bytes option" where
  "hex_decode [] = Some []"
| "hex_decode [c] = None"
| "hex_decode (c # d # cs) =
     (case (hex_value c, hex_value d, hex_decode cs) of
        (Some x, Some y, Some bs) \<Rightarrow> Some (of_nat (16 * x + y) # bs)
      | _ \<Rightarrow> None)"

definition to_hex :: "bytes \<Rightarrow> string" where
  "to_hex bs = ''0x'' @ hex_encode bs"

definition from_hex :: "(bytes \<Rightarrow> (general_error, 'a) result) \<Rightarrow> string \<Rightarrow> (general_error, 'a) result" where
  "from_hex try_from str =
     (if str \<noteq> [] \<and> even (length str) then
        let data = (if take 2 str = ''0x'' \<or> take 2 str = ''0X'' then drop 2 str else str) in
        and_then (ok_or (ParseErr ''hex'') (hex_decode data)) try_from
      else Err (ParseErr ''invalid hex length''))"

definition hash_from_hex :: "string \<Rightarrow> (general_error, hash) result" where
  "hash_from_hex = from_hex (fixed_bytes hash_size ''Hash'')"

section \<open>Rows of the ticket table\<close>

text \<open>The state is a signed byte and the index offset a signed 32-bit integer, as in the entity of the table.\<close>

record ticket_model =
  tm_id :: nat
  tm_channel_id :: string
  tm_amount :: bytes
  tm_index :: bytes
  tm_index_offset :: int
  tm_winning_probability :: bytes
  tm_channel_epoch :: bytes
  tm_signature :: bytes
  tm_response :: bytes
  tm_state :: int
  tm_hash :: bytes

fun status_code :: "acknowledged_ticket_status \<Rightarrow> int" where
  "status_code Untouched = 0"
| "status_code BeingRedeemed = 1"
| "status_code BeingAggregated = 2"

definition status_try_from :: "u8 \<Rightarrow> acknowledged_ticket_status option" where
  "status_try_from s =
     (if s = 0 then Some Untouched else if s = 1 then Some BeingRedeemed else if s = 2 then Some BeingAggregated else None)"

text \<open>\<open>U256::from_be_bytes\<close> panics on more than 32 bytes.\<close>

definition u256_from_be_bytes :: "bytes \<Rightarrow> ('e, u256) result" where
  "u256_from_be_bytes bs = (if length bs \<le> 32 then Ok (u256_from_be bs) else Panicked)"

definition ticket_model_of :: "acknowledged_ticket \<Rightarrow> ('e, ticket_model) result" where
  "ticket_model_of a =
     (let t = vt_ticket (at_ticket a) in
      case tk_signature t of
        None \<Rightarrow> Panicked
      | Some signature \<Rightarrow>
          Ok \<lparr>tm_id = 0, tm_channel_id = to_hex (tk_channel_id t), tm_amount = u256_to_be (tk_amount t),
              tm_index = u64_to_be (tk_index t), tm_index_offset = sint (tk_index_offset t),
              tm_winning_probability = tk_encoded_win_prob t,
              tm_channel_epoch = u256_to_be (ucast (tk_channel_epoch t)), tm_signature = signature,
              tm_response = at_response a, tm_state = status_code (at_status a), tm_hash = vt_hash (at_ticket a)\<rparr>)"

definition ticket_of_model ::
  "('sk, 'vrf, 'rnd) crypto \<Rightarrow> ticket_model \<Rightarrow> (db_entity_error, acknowledged_ticket) result" where
  "ticket_of_model cr m =
     and_then (map_fail EntityGeneralError (fixed_bytes 32 ''Response'' (tm_response m))) (\<lambda>response.
     and_then (map_fail EntityGeneralError (hash_from_hex (tm_channel_id m))) (\<lambda>channel_id.
     and_then (u256_from_be_bytes (tm_amount m)) (\<lambda>amount.
     and_then (and_then (u256_from_be_bytes (tm_index m)) u256_as_u64) (\<lambda>index.
     and_then (map_fail (\<lambda>_. ConversionError ''invalid winning probability'') (wp_try_from (tm_winning_probability m))) (\<lambda>wp.
     and_then (and_then (u256_from_be_bytes (tm_channel_epoch m)) u256_as_u32) (\<lambda>epoch.
     and_then (response_to_challenge cr response) (\<lambda>challenge.
     and_then (map_fail (\<lambda>_. ConversionError ''invalid signature format'')
         (fixed_bytes signature_size ''Signature'' (tm_signature m))) (\<lambda>signature.
     and_then (map_fail (\<lambda>_. ConversionError ''invalid ticket hash'') (fixed_bytes hash_size ''Hash'' (tm_hash m))) (\<lambda>h.
     and_then (map_fail (\<lambda>_. ConversionError ''invalid ticket in the db'')
         (tb_build_verified cr (tb_set_signature signature (tb_set_challenge challenge (tb_set_channel_epoch epoch
            (tb_set_win_prob wp (tb_set_index_offset (word_of_int (tm_index_offset m)) (tb_set_index index
            (tb_set_amount amount (tb_set_channel_id channel_id tb_default)))))))) h)) (\<lambda>vt.
       let tkt = vt_into_acknowledged vt response in
       case status_try_from (word_of_int (tm_state m)) of
         Some status \<Rightarrow> Ok (tkt\<lparr>at_status := status\<rparr>)
       | None \<Rightarrow> Err (ConversionError ''invalid ticket state'')))))))))))"

section \<open>Selecting tickets\<close>

datatype 'a bound = Included 'a | Excluded 'a | Unbounded

datatype ticket_index_selector =
    NoIndex
  | Single u64
  | Multiple "u64 set"
  | Range "u64 bound \<times> u64 bound"

record ticket_selector =
  sel_channel_identifiers :: "(hash \<times> u256) list"
  sel_index :: ticket_index_selector
  sel_win_prob :: "win_prob bound \<times> win_prob bound"
  sel_amount :: "hopr_balance bound \<times> hopr_balance bound"
  sel_state :: "acknowledged_ticket_status option"
  sel_only_aggregated :: bool

definition sel_new :: "hash \<Rightarrow> u256 \<Rightarrow> ticket_selector" where
  "sel_new channel_id epoch =
     \<lparr>sel_channel_identifiers = [(channel_id, epoch)], sel_index = NoIndex,
      sel_win_prob = (Unbounded, Unbounded), sel_amount = (Unbounded, Unbounded), sel_state = None,
      sel_only_aggregated = False\<rparr>"

definition also_on_channel :: "hash \<Rightarrow> u256 \<Rightarrow> ticket_selector \<Rightarrow> ticket_selector" where
  "also_on_channel channel_id epoch s =
     s\<lparr>sel_index := NoIndex, sel_channel_identifiers := sel_channel_identifiers s @ [(channel_id, epoch)]\<rparr>"

definition just_on_channel :: "hash \<Rightarrow> u256 \<Rightarrow> ticket_selector \<Rightarrow> ticket_selector" where
  "just_on_channel channel_id epoch s = s\<lparr>sel_channel_identifiers := [(channel_id, epoch)]\<rparr>"

definition is_single_channel :: "ticket_selector \<Rightarrow> bool" where
  "is_single_channel s \<longleftrightarrow> length (sel_channel_identifiers s) = 1"

definition is_unique :: "ticket_selector \<Rightarrow> bool" where
  "is_unique s \<longleftrightarrow>
     is_single_channel s
     \<and> (case sel_index s of Single _ \<Rightarrow> True | Multiple indices \<Rightarrow> card indices = 1 | _ \<Rightarrow> False)"

definition with_index :: "u64 \<Rightarrow> ticket_selector \<Rightarrow> ticket_selector" where
  "with_index index s =
     s\<lparr>sel_channel_identifiers := take 1 (sel_channel_identifiers s),
       sel_index :=
         (case sel_index s of
            NoIndex \<Rightarrow> Single index
          | Range _ \<Rightarrow> Single index
          | Single existing \<Rightarrow> Multiple {existing, index}
          | Multiple existing \<Rightarrow> Multiple (insert index existing))\<rparr>"

definition with_index_range :: "u64 bound \<times> u64 bound \<Rightarrow> ticket_selector \<Rightarrow> ticket_selector" where
  "with_index_range index_bound s =
     s\<lparr>sel_channel_identifiers := take 1 (sel_channel_identifiers s), sel_index := Range index_bound\<rparr>"

definition with_state :: "acknowledged_ticket_status \<Rightarrow> ticket_selector \<Rightarrow> ticket_selector" where
  "with_state state s = s\<lparr>sel_state := Some state\<rparr>"

definition with_no_state :: "ticket_selector \<Rightarrow> ticket_selector" where
  "with_no_state s = s\<lparr>sel_state := None\<rparr>"

definition with_aggregated_only :: "bool \<Rightarrow> ticket_selector \<Rightarrow> ticket_selector" where
  "with_aggregated_only only_aggregated s = s\<lparr>sel_only_aggregated := only_aggregated\<rparr>"

definition with_winning_probability :: "win_prob bound \<times> win_prob bound \<Rightarrow> ticket_selector \<Rightarrow> ticket_selector" where
  "with_winning_probability rng s = s\<lparr>sel_win_prob := rng\<rparr>"

definition with_amount :: "hopr_balance bound \<times> hopr_balance bound \<Rightarrow> ticket_selector \<Rightarrow> ticket_selector" where
  "with_amount rng s = s\<lparr>sel_amount := rng\<rparr>"

definition sel_of_acknowledged :: "acknowledged_ticket \<Rightarrow> ticket_selector" where
  "sel_of_acknowledged a =
     (let t = vt_ticket (at_ticket a) in
      \<lparr>sel_channel_identifiers = [(tk_channel_id t, ucast (tk_channel_epoch t))], sel_index = Single (tk_index t),
       sel_win_prob = (Unbounded, Unbounded), sel_amount = (Unbounded, Unbounded),
       sel_state = Some (at_status a), sel_only_aggregated = (tk_index_offset t > 1)\<rparr>)"

definition sel_of_redeemable :: "'vrf redeemable_ticket \<Rightarrow> ticket_selector" where
  "sel_of_redeemable r =
     (let t = vt_ticket (rd_ticket r) in
      \<lparr>sel_channel_identifiers = [(tk_channel_id t, ucast (tk_channel_epoch t))], sel_index = Single (tk_index t),
       sel_win_prob = (Unbounded, Unbounded), sel_amount = (Unbounded, Unbounded),
       sel_state = None, sel_only_aggregated = (tk_index_offset t > 1)\<rparr>)"

definition sel_of_channel :: "channel_entry \<Rightarrow> ticket_selector" where
  "sel_of_channel c =
     \<lparr>sel_channel_identifiers = [(ce_get_id c, ce_channel_epoch c)], sel_index = NoIndex,
      sel_win_prob = (Unbounded, Unbounded), sel_amount = (Unbounded, Unbounded), sel_state = None,
      sel_only_aggregated = False\<rparr>"

datatype ticket_marker = Redeemed | Rejected | Neglected

text \<open>Comparison of blobs in the database: byte by byte, a proper prefix being smaller.\<close>

fun blob_cmp :: "bytes \<Rightarrow> bytes \<Rightarrow> ordering" where
  "blob_cmp [] [] = Equal"
| "blob_cmp [] (_ # _) = Less"
| "blob_cmp (_ # _) [] = Greater"
| "blob_cmp (a # x) (b # y) = (case ord_cmp a b of Equal \<Rightarrow> blob_cmp x y | r \<Rightarrow> r)"

fun above_lower :: "bytes \<Rightarrow> ('a \<Rightarrow> bytes) \<Rightarrow> 'a bound \<Rightarrow> bool" where
  "above_lower col enc (Included gte) = (blob_cmp col (enc gte) \<noteq> Less)"
| "above_lower col enc (Excluded gt) = (blob_cmp col (enc gt) = Greater)"
| "above_lower col enc Unbounded = True"

fun below_upper :: "bytes \<Rightarrow> ('a \<Rightarrow> bytes) \<Rightarrow> 'a bound \<Rightarrow> bool" where
  "below_upper col enc (Included lte) = (blob_cmp col (enc lte) \<noteq> Greater)"
| "below_upper col enc (Excluded lt) = (blob_cmp col (enc lt) = Less)"
| "below_upper col enc Unbounded = True"

definition index_condition :: "ticket_index_selector \<Rightarrow> ticket_model \<Rightarrow> bool" where
  "index_condition sel m =
     (case sel of
        NoIndex \<Rightarrow> True
      | Single idx \<Rightarrow> tm_index m = u64_to_be idx
      | Multiple idxs \<Rightarrow> tm_index m \<in> u64_to_be ` idxs
      | Range (lb, ub) \<Rightarrow> above_lower (tm_index m) u64_to_be lb \<and> below_upper (tm_index m) u64_to_be ub)"

text \<open>
  The condition of a selector. Every selector has a channel identifier (\<open>sel_new\<close> and the conversions give one and the
  modifiers keep it); for an empty list the source asks for an impossible condition.
\<close>

definition into_condition :: "ticket_selector \<Rightarrow> ticket_model \<Rightarrow> bool" where
  "into_condition s m \<longleftrightarrow>
     (\<exists>(channel_id, epoch) \<in> set (sel_channel_identifiers s).
        tm_channel_id m = to_hex channel_id \<and> tm_channel_epoch m = u256_to_be epoch)
     \<and> index_condition (sel_index s) m
     \<and> (case sel_state s of Some state \<Rightarrow> tm_state m = status_code state | None \<Rightarrow> True)
     \<and> (sel_only_aggregated s \<longrightarrow> tm_index_offset m > 1)
     \<and> above_lower (tm_winning_probability m) (\<lambda>w. w) (fst (sel_win_prob s))
     \<and> below_upper (tm_winning_probability m) (\<lambda>w. w) (snd (sel_win_prob s))
     \<and> above_lower (tm_amount m) u256_to_be (fst (sel_amount s))
     \<and> below_upper (tm_amount m) u256_to_be (snd (sel_amount s))"

section \<open>The ticket database\<close>

record ticket_stats =
  st_channel_id :: string
  st_winning_tickets :: int
  st_redeemed_value :: bytes
  st_neglected_value :: bytes
  st_rejected_value :: bytes

record outgoing_index =
  oi_channel_id :: string
  oi_index :: bytes

datatype ticket_operation = Insert acknowledged_ticket | Replace acknowledged_ticket

fun op_ticket :: "ticket_operation \<Rightarrow> acknowledged_ticket" where
  "op_ticket (Insert tkt) = tkt"
| "op_ticket (Replace tkt) = tkt"

text \<open>
  The tables of the ticket database, the caches over them, the queue of the ticket manager (\<open>None\<close> before the
  processing is started) and the tickets handed to the notifier. Entries of the two caches never expire; their
  eviction beyond 10000 channels is not modelled.
\<close>

record ticket_db =
  td_tickets :: "ticket_model list"
  td_next_id :: nat
  td_stats :: "ticket_stats list"
  td_outgoing :: "outgoing_index list"
  td_unrealized :: "hash \<times> u256 \<Rightarrow> hopr_balance option"
  td_ticket_index :: "hash \<Rightarrow> u64 option"
  td_queue :: "ticket_operation list option"
  td_notified :: "acknowledged_ticket list"

definition td_new :: ticket_db where
  "td_new =
     \<lparr>td_tickets = [], td_next_id = 1, td_stats = [], td_outgoing = [], td_unrealized = Map.empty,
      td_ticket_index = Map.empty, td_queue = None, td_notified = []\<rparr>"

text \<open>The columns of the unique index of the ticket table.\<close>

definition tm_key :: "ticket_model \<Rightarrow> string \<times> bytes \<times> bytes" where
  "tm_key m = (tm_channel_id m, tm_channel_epoch m, tm_index m)"

definition insert_row :: "ticket_model \<Rightarrow> ticket_db \<Rightarrow> (db_error, ticket_db) result" where
  "insert_row m db =
     (if tm_key m \<in> tm_key ` set (td_tickets db) then Err (BackendError ''UNIQUE constraint failed'')
      else Ok (db\<lparr>td_tickets := td_tickets db @ [m\<lparr>tm_id := td_next_id db\<rparr>], td_next_id := td_next_id db + 1\<rparr>))"

text \<open>The sum of two \<open>U256\<close> panics when it overflows, that of two balances saturates.\<close>

definition u256_add :: "u256 \<Rightarrow> u256 \<Rightarrow> ('e, u256) result" where
  "u256_add a b = (if unat a + unat b < 2 ^ 256 then Ok (a + b) else Panicked)"

definition default_stats :: "hash \<Rightarrow> ticket_stats" where
  "default_stats channel_id =
     \<lparr>st_channel_id = to_hex channel_id, st_winning_tickets = 0, st_redeemed_value = replicate 12 0,
      st_neglected_value = replicate 12 0, st_rejected_value = replicate 12 0\<rparr>"

definition find_stats :: "hash \<Rightarrow> ticket_db \<Rightarrow> ticket_stats option" where
  "find_stats channel_id db = find (\<lambda>st. st_channel_id st = to_hex channel_id) (td_stats db)"

definition find_stats_for_channel :: "hash \<Rightarrow> ticket_db \<Rightarrow> ticket_stats \<times> ticket_db" where
  "find_stats_for_channel channel_id db =
     (case find_stats channel_id db of
        Some model \<Rightarrow> (model, db)
      | None \<Rightarrow> (default_stats channel_id, db\<lparr>td_stats := td_stats db @ [default_stats channel_id]\<rparr>))"

definition save_stats :: "ticket_stats \<Rightarrow> ticket_db \<Rightarrow> ticket_db" where
  "save_stats st db =
     db\<lparr>td_stats := map (\<lambda>st'. if st_channel_id st' = st_channel_id st then st else st') (td_stats db)\<rparr>"

section \<open>Queries and marking of tickets\<close>

definition get_tickets_value_int :: "ticket_selector \<Rightarrow> ticket_db \<Rightarrow> nat \<times> hopr_balance" where
  "get_tickets_value_int selector db =
     foldl (\<lambda>(count, value) t. (count + 1, bal_add value (bal_from_be (tm_amount t)))) (0, 0)
       (filter (into_condition selector) (td_tickets db))"

definition get_tickets_value :: "ticket_selector \<Rightarrow> ticket_db \<Rightarrow> nat \<times> hopr_balance" where
  "get_tickets_value selector db = get_tickets_value_int selector db"

definition get_all_tickets ::
  "('sk, 'vrf, 'rnd) crypto \<Rightarrow> ticket_db \<Rightarrow> (db_error, acknowledged_ticket list) result" where
  "get_all_tickets cr db = map_fail EntityError (collect_res (map (ticket_of_model cr) (td_tickets db)))"

definition get_tickets ::
  "('sk, 'vrf, 'rnd) crypto \<Rightarrow> ticket_selector \<Rightarrow> ticket_db \<Rightarrow> (db_error, acknowledged_ticket list) result" where
  "get_tickets cr selector db =
     map_fail EntityError (collect_res (map (ticket_of_model cr) (filter (into_condition selector) (td_tickets db))))"

fun add_to_stats :: "ticket_marker \<Rightarrow> u256 \<Rightarrow> ticket_stats \<Rightarrow> ('e, ticket_stats) result" where
  "add_to_stats Redeemed v st =
     and_then (u256_add (u256_from_be (st_redeemed_value st)) v) (\<lambda>x. Ok (st\<lparr>st_redeemed_value := u256_to_be x\<rparr>))"
| "add_to_stats Rejected v st =
     and_then (u256_add (u256_from_be (st_rejected_value st)) v) (\<lambda>x. Ok (st\<lparr>st_rejected_value := u256_to_be x\<rparr>))"
| "add_to_stats Neglected v st =
     and_then (u256_add (u256_from_be (st_neglected_value st)) v) (\<lambda>x. Ok (st\<lparr>st_neglected_value := u256_to_be x\<rparr>))"

fun mark_tickets_loop ::
  "ticket_selector \<Rightarrow> ticket_marker \<Rightarrow> (hash \<times> u256) list \<Rightarrow> nat \<Rightarrow> ticket_db \<Rightarrow> (db_error, ticket_db \<times> nat) result" where
  "mark_tickets_loop selector mark_as [] total_marked_count db = Ok (db, total_marked_count)"
| "mark_tickets_loop selector mark_as ((channel_id, epoch) # rest) total_marked_count db =
     (let channel_selector = just_on_channel channel_id epoch selector;
          (marked_count, marked_value) = get_tickets_value_int channel_selector db in
      if marked_count > 0 then
        let kept = filter (\<lambda>m. \<not> into_condition channel_selector m) (td_tickets db);
            deleted = length (td_tickets db) - length kept;
            db = db\<lparr>td_tickets := kept\<rparr> in
        if deleted = marked_count then
          let (stats, db) = find_stats_for_channel channel_id db in
          and_then (add_to_stats mark_as marked_value stats) (\<lambda>new_stats.
            let db = save_stats new_stats db;
                db = db\<lparr>td_unrealized := (td_unrealized db)((channel_id, epoch) := None)\<rparr> in
            mark_tickets_loop selector mark_as rest (total_marked_count + marked_count) db)
        else Err (LogicalError ''could not mark tickets'')
      else mark_tickets_loop selector mark_as rest total_marked_count db)"

definition mark_tickets_as :: "ticket_selector \<Rightarrow> ticket_marker \<Rightarrow> ticket_db \<Rightarrow> (db_error, ticket_db \<times> nat) result" where
  "mark_tickets_as selector mark_as db =
     mark_tickets_loop selector mark_as (sel_channel_identifiers selector) 0 db"

definition mark_unsaved_ticket_rejected :: "ticket \<Rightarrow> ticket_db \<Rightarrow> (db_error, ticket_db) result" where
  "mark_unsaved_ticket_rejected t db =
     (let (stats, db) = find_stats_for_channel (tk_channel_id t) db in
      and_then (u256_add (u256_from_be (st_rejected_value stats)) (tk_amount t)) (\<lambda>x.
        Ok (save_stats (stats\<lparr>st_rejected_value := u256_to_be x\<rparr>) db)))"

definition update_ticket_states :: "ticket_selector \<Rightarrow> acknowledged_ticket_status \<Rightarrow> ticket_db \<Rightarrow> ticket_db \<times> nat" where
  "update_ticket_states selector new_state db =
     (db\<lparr>td_tickets := map (\<lambda>m. if into_condition selector m then m\<lparr>tm_state := status_code new_state\<rparr> else m) (td_tickets db)\<rparr>,
      length (filter (into_condition selector) (td_tickets db)))"

text \<open>The stream of updated tickets, read to its end; a row that cannot be decoded is skipped, a panic ends the program.\<close>

fun updated_tickets ::
  "('sk, 'vrf, 'rnd) crypto \<Rightarrow> acknowledged_ticket_status \<Rightarrow> ticket_model list \<Rightarrow> ('e, acknowledged_ticket list) result" where
  "updated_tickets cr new_state [] = Ok []"
| "updated_tickets cr new_state (m # ms) =
     (case ticket_of_model cr m of
        Inr tkt \<Rightarrow> and_then (updated_tickets cr new_state ms) (\<lambda>ts. Ok (tkt\<lparr>at_status := new_state\<rparr> # ts))
      | Inl (Fail _) \<Rightarrow> updated_tickets cr new_state ms
      | Inl Panic \<Rightarrow> Panicked)"

definition update_ticket_states_and_fetch ::
  "('sk, 'vrf, 'rnd) crypto \<Rightarrow> ticket_selector \<Rightarrow> acknowledged_ticket_status \<Rightarrow> ticket_db
     \<Rightarrow> ('e, ticket_db \<times> acknowledged_ticket list) result" where
  "update_ticket_states_and_fetch cr selector new_state db =
     map_res (\<lambda>ts. (fst (update_ticket_states selector new_state db), ts))
       (updated_tickets cr new_state (filter (into_condition selector) (td_tickets db)))"

definition reset_ticket_statistics :: "ticket_db \<Rightarrow> ticket_db" where
  "reset_ticket_statistics db = db\<lparr>td_stats := []\<rparr>"

definition upsert_ticket :: "acknowledged_ticket \<Rightarrow> ticket_db \<Rightarrow> (db_error, ticket_db) result" where
  "upsert_ticket acknowledged_ticket db =
     (let t = vt_ticket (at_ticket acknowledged_ticket);
          selector = with_index (tk_index t) (sel_new (tk_channel_id t) (ucast (tk_channel_epoch t))) in
      and_then (ticket_model_of acknowledged_ticket) (\<lambda>model.
        case find (into_condition selector) (td_tickets db) of
          Some row \<Rightarrow>
            Ok (db\<lparr>td_tickets := map (\<lambda>m. if tm_id m = tm_id row then model\<lparr>tm_id := tm_id row\<rparr> else m) (td_tickets db)\<rparr>)
        | None \<Rightarrow> insert_row model db))"

section \<open>Outgoing ticket indices\<close>

definition get_outgoing_ticket_index :: "hash \<Rightarrow> ticket_db \<Rightarrow> (db_error, ticket_db \<times> u64) result" where
  "get_outgoing_ticket_index channel_id db =
     (case td_ticket_index db channel_id of
        Some v \<Rightarrow> Ok (db, v)
      | None \<Rightarrow>
          (case find (\<lambda>oi. oi_channel_id oi = to_hex channel_id) (td_outgoing db) of
             Some model \<Rightarrow>
               and_then (and_then (u256_from_be_bytes (oi_index model)) u256_as_u64) (\<lambda>v.
                 Ok (db\<lparr>td_ticket_index := (td_ticket_index db)(channel_id \<mapsto> v)\<rparr>, v))
           | None \<Rightarrow>
               Ok (db\<lparr>td_outgoing := td_outgoing db @ [\<lparr>oi_channel_id = to_hex channel_id, oi_index = replicate 8 0\<rparr>],
                      td_ticket_index := (td_ticket_index db)(channel_id \<mapsto> 0)\<rparr>, 0)))"

definition with_outgoing_index :: "(u64 \<Rightarrow> u64) \<Rightarrow> hash \<Rightarrow> ticket_db \<Rightarrow> (db_error, ticket_db \<times> u64) result" where
  "with_outgoing_index f channel_id db =
     and_then (get_outgoing_ticket_index channel_id db) (\<lambda>(db, old_value).
       Ok (db\<lparr>td_ticket_index := (td_ticket_index db)(channel_id \<mapsto> f old_value)\<rparr>, old_value))"

definition compare_and_set_outgoing_ticket_index :: "hash \<Rightarrow> u64 \<Rightarrow> ticket_db \<Rightarrow> (db_error, ticket_db \<times> u64) result" where
  "compare_and_set_outgoing_ticket_index channel_id index = with_outgoing_index (\<lambda>v. max v index) channel_id"

definition reset_outgoing_ticket_index :: "hash \<Rightarrow> ticket_db \<Rightarrow> (db_error, ticket_db \<times> u64) result" where
  "reset_outgoing_ticket_index channel_id = with_outgoing_index (\<lambda>_. 0) channel_id"

definition increment_outgoing_ticket_index :: "hash \<Rightarrow> ticket_db \<Rightarrow> (db_error, ticket_db \<times> u64) result" where
  "increment_outgoing_ticket_index channel_id = with_outgoing_index (\<lambda>v. v + 1) channel_id"

text \<open>Every row is saved in a transaction of its own; the error of an undecodable row does not occur for the rows the code writes.\<close>

fun persist_rows ::
  "(hash \<Rightarrow> u64 option) \<Rightarrow> outgoing_index list \<Rightarrow> (db_error, outgoing_index list \<times> nat) result" where
  "persist_rows cache [] = Ok ([], 0)"
| "persist_rows cache (model # rest) =
     and_then (map_fail DbNonSpecificError (hash_from_hex (oi_channel_id model))) (\<lambda>channel_id.
     and_then (and_then (u256_from_be_bytes (oi_index model)) u256_as_u64) (\<lambda>db_index.
     let (model', updated) =
       (case cache channel_id of
          Some cached_index \<Rightarrow>
            if cached_index > db_index then (model\<lparr>oi_index := u64_to_be cached_index\<rparr>, 1) else (model, 0)
        | None \<Rightarrow> (model, 0)) in
     map_res (\<lambda>(rows, n). (model' # rows, updated + n)) (persist_rows cache rest)))"

definition persist_outgoing_ticket_indices :: "ticket_db \<Rightarrow> (db_error, ticket_db \<times> nat) result" where
  "persist_outgoing_ticket_indices db =
     map_res (\<lambda>(rows, updated). (db\<lparr>td_outgoing := rows\<rparr>, updated)) (persist_rows (td_ticket_index db) (td_outgoing db))"

section \<open>The ticket manager\<close>

definition start_ticket_processing :: "ticket_db \<Rightarrow> (db_error, ticket_db) result" where
  "start_ticket_processing db =
     (case td_queue db of
        Some _ \<Rightarrow> Err (LogicalError ''ticket processing already started'')
      | None \<Rightarrow> Ok (db\<lparr>td_queue := Some []\<rparr>))"

text \<open>
  \<open>try_send\<close> on a fresh clone of the sender always finds the slot that is guaranteed to each sender, and the receiver
  lives as long as the process, so a send after the start does not fail.
\<close>

definition enqueue_operation :: "ticket_operation \<Rightarrow> ticket_db \<Rightarrow> (db_error, ticket_db) result" where
  "enqueue_operation ticket_op db =
     (case td_queue db of
        None \<Rightarrow> Err (LogicalError ''ticket processing not started'')
      | Some q \<Rightarrow> Ok (db\<lparr>td_queue := Some (q @ [ticket_op])\<rparr>))"

definition unrealized_value :: "ticket_selector \<Rightarrow> ticket_db \<Rightarrow> (db_error, ticket_db \<times> hopr_balance) result" where
  "unrealized_value selector db =
     (if \<not> is_single_channel selector then Err (LogicalError ''selector must represent a single channel'')
      else
        let k = hd (sel_channel_identifiers selector) in
        case td_unrealized db k of
          Some v \<Rightarrow> Ok (db, v)
        | None \<Rightarrow>
            let v = foldl (\<lambda>value t. bal_add value (bal_from_be (tm_amount t))) 0
                      (filter (into_condition selector) (td_tickets db))
            in Ok (db\<lparr>td_unrealized := (td_unrealized db)(k \<mapsto> v)\<rparr>, v))"

text \<open>
  The insertion of a ticket sends it to the queue and then adds its value to the cached unrealized value. The task
  that empties the queue may run between the two.
\<close>

definition account_unrealized :: "acknowledged_ticket \<Rightarrow> ticket_db \<Rightarrow> (db_error, ticket_db) result" where
  "account_unrealized tkt db =
     (let t = vt_ticket (at_ticket tkt); channel = tk_channel_id t; epoch = ucast (tk_channel_epoch t) in
      and_then (unrealized_value (sel_new channel epoch) db) (\<lambda>(db, v).
        Ok (db\<lparr>td_unrealized := (td_unrealized db)((channel, epoch) \<mapsto> bal_add v (tk_amount t))\<rparr>)))"

definition insert_ticket :: "acknowledged_ticket \<Rightarrow> ticket_db \<Rightarrow> (db_error, ticket_db) result" where
  "insert_ticket tkt db = and_then (enqueue_operation (Insert tkt) db) (account_unrealized tkt)"

definition replace_tickets :: "acknowledged_ticket \<Rightarrow> ticket_db \<Rightarrow> (db_error, ticket_db) result" where
  "replace_tickets tkt db = enqueue_operation (Replace tkt) db"

text \<open>Addition on a signed 32-bit integer in a release build.\<close>

definition i32_wrap :: "int \<Rightarrow> int" where
  "i32_wrap x = sint (word_of_int x :: 32 word)"

fun run_operation :: "ticket_operation \<Rightarrow> ticket_db \<Rightarrow> (db_error, ticket_db) result" where
  "run_operation (Insert ack_ticket) db =
     (let channel_id = tk_channel_id (vt_ticket (at_ticket ack_ticket)) in
      and_then (ticket_model_of ack_ticket) (\<lambda>row.
      and_then (insert_row row db) (\<lambda>db.
        case find_stats channel_id db of
          Some model \<Rightarrow> Ok (save_stats (model\<lparr>st_winning_tickets := i32_wrap (st_winning_tickets model + 1)\<rparr>) db)
        | None \<Rightarrow> Ok (db\<lparr>td_stats := td_stats db @ [(default_stats channel_id)\<lparr>st_winning_tickets := 1\<rparr>]\<rparr>))))"
| "run_operation (Replace ack_ticket) db =
     (let t = vt_ticket (at_ticket ack_ticket); start_idx = tk_index t; offset = ucast (tk_index_offset t);
          selector = with_state BeingAggregated
            (with_index_range (Included start_idx, Excluded (start_idx + offset))
              (sel_new (tk_channel_id t) (ucast (tk_channel_epoch t))));
          kept = filter (\<lambda>m. \<not> into_condition selector m) (td_tickets db);
          deleted = length (td_tickets db) - length kept in
      if deleted > unat offset then Err (LogicalError ''deleted ticket count must not be more than the ticket index offset'')
      else and_then (ticket_model_of ack_ticket) (\<lambda>row. insert_row row (db\<lparr>td_tickets := kept\<rparr>)))"

text \<open>One round of the task that empties the queue; it waits when the queue is empty. A failed operation is logged.\<close>

definition process_ticket :: "ticket_db \<Rightarrow> (db_error, ticket_db) result" where
  "process_ticket db =
     (case td_queue db of
        Some (ticket_op # q) \<Rightarrow>
          let db = db\<lparr>td_queue := Some q\<rparr> in
          (case run_operation ticket_op db of
             Inr db' \<Rightarrow> Ok (db'\<lparr>td_notified := td_notified db' @ [op_ticket ticket_op]\<rparr>)
           | Inl (Fail _) \<Rightarrow> Ok db
           | Inl Panic \<Rightarrow> Panicked)
      | _ \<Rightarrow> Ok db)"

section \<open>Tickets that can be aggregated\<close>

record aggregation_prerequisites =
  min_ticket_count :: "nat option"
  min_unaggregated_ratio :: "rat option option"

fun take_satisfying ::
  "(rat \<Rightarrow> rat \<Rightarrow> bool) \<Rightarrow> hopr_balance \<Rightarrow> win_prob \<Rightarrow> ticket_model list \<Rightarrow> hopr_balance
     \<Rightarrow> (db_error, ticket_model list \<times> hopr_balance) result" where
  "take_satisfying approx balance min_win_prob [] total_balance = Ok ([], total_balance)"
| "take_satisfying approx balance min_win_prob (m # ms) total_balance =
     and_then (map_fail (\<lambda>_. DecodingError) (wp_try_from (tm_winning_probability m))) (\<lambda>ticket_wp.
       if wp_approx_cmp approx ticket_wp min_win_prob = Less then
         take_satisfying approx balance min_win_prob ms total_balance
       else
         let to_add = bal_from_be (tm_amount m); total = bal_add total_balance to_add in
         if total > balance then Ok ([], bal_sub total to_add)
         else map_res (\<lambda>(to_be_aggregated, b). (m # to_be_aggregated, b))
                (take_satisfying approx balance min_win_prob ms total))"

definition filter_satisfying_ticket_models ::
  "(rat \<Rightarrow> rat \<Rightarrow> bool) \<Rightarrow> aggregation_prerequisites \<Rightarrow> ticket_model list \<Rightarrow> channel_entry \<Rightarrow> win_prob
     \<Rightarrow> (db_error, ticket_model list) result" where
  "filter_satisfying_ticket_models approx prerequisites models channel_entry min_win_prob =
     and_then (take_satisfying approx (ce_balance channel_entry) min_win_prob models 0) (\<lambda>(to_be_aggregated, total_balance).
       if min_ticket_count prerequisites = None \<and> min_unaggregated_ratio prerequisites = None then Ok to_be_aggregated
       else
         let to_be_agg_count = length to_be_aggregated in
         if (case min_ticket_count prerequisites of Some agg_threshold \<Rightarrow> to_be_agg_count \<ge> agg_threshold | None \<Rightarrow> False)
         then Ok to_be_aggregated
         else
           (case min_unaggregated_ratio prerequisites of
              Some unrealized_threshold \<Rightarrow>
                and_then (map_fail DbNonSpecificError (u256_mul_f64 (ce_balance channel_entry) unrealized_threshold)) (\<lambda>diminished_balance.
                  if total_balance \<ge> diminished_balance \<and> to_be_agg_count > 1 then Ok to_be_aggregated else Ok [])
            | None \<Rightarrow> Ok []))"

section \<open>Hexadecimal text and blobs\<close>

lemma hex_value_digit: "n < 16 \<Longrightarrow> hex_value (hex_digit n) = Some n"
  by (auto simp: hex_value_def hex_digit_def Let_def)

lemma byte_nibbles: "of_nat (16 * (unat b div 16) + unat b mod 16) = (b :: byte)"
  by (metis mult.commute div_mult_mod_eq of_nat_unat ucast_id)

lemma hex_decode_encode [simp]: "hex_decode (hex_encode bs) = Some bs"
proof (induction bs)
  case (Cons b bs)
  have "unat b div 16 < 16" using unat_bound [of b] by simp
  then show ?case using Cons by (simp add: hex_value_digit byte_nibbles del: of_nat_add of_nat_mult)
qed simp

lemma length_hex_encode [simp]: "length (hex_encode bs) = 2 * length bs"
  by (induction bs) auto

lemma from_hex_to_hex [simp]: "from_hex try_from (to_hex bs) = try_from bs"
  by (simp add: from_hex_def to_hex_def Let_def)

lemma to_hex_inj [simp]: "to_hex a = to_hex b \<longleftrightarrow> a = b"
  by (metis hex_decode_encode option.inject same_append_eq to_hex_def)

lemma hash_from_hex_to_hex: "length h = hash_size \<Longrightarrow> hash_from_hex (to_hex h) = Ok h"
  by (simp add: hash_from_hex_def fixed_bytes_def)

text \<open>Blobs of the same length compare like the numbers they encode.\<close>

lemma be_decode_Cons: "be_decode (b # bs) = unat b * 256 ^ length bs + be_decode bs"
proof (induction bs rule: rev_induct)
  case (snoc c bs)
  then show ?case by (simp flip: append_Cons add: algebra_simps)
qed (simp add: be_decode_def)

lemma blob_cmp_be_decode: "length x = length y \<Longrightarrow> blob_cmp x y = ord_cmp (be_decode x) (be_decode y)"
proof (induction x y rule: blob_cmp.induct)
  case (4 a x b y)
  have bx: "be_decode x < 256 ^ length y" and by': "be_decode y < 256 ^ length y"
    using 4(2) be_decode_bound [of x] be_decode_bound [of y] by simp_all
  have lt: "unat c * 256 ^ n + v < unat d * 256 ^ n + w" if "c < d" "v < 256 ^ n" for c d :: byte and n v w
  proof -
    have "unat c + 1 \<le> unat d" using that(1) by (simp add: word_less_nat_alt)
    then have "(unat c + 1) * 256 ^ n \<le> unat d * 256 ^ n" by (rule mult_le_mono1)
    with that(2) show ?thesis by simp
  qed
  note ord = ord_cmp_def [of a b] ord_cmp_def [of "be_decode (a # x)" "be_decode (b # y)"]
  consider "a < b" | "b < a" | "a = b" by (meson linorder_less_linear)
  then show ?case
  proof cases
    case 1
    then have "be_decode (a # x) < be_decode (b # y)" using lt [OF 1 bx] 4(2) by (simp add: be_decode_Cons)
    with 1 show ?thesis by (simp add: ord)
  next
    case 2
    then have "be_decode (b # y) < be_decode (a # x)" using lt [OF 2 by'] 4(2) by (simp add: be_decode_Cons)
    with 2 show ?thesis by (auto simp: ord)
  next
    case 3
    then have "ord_cmp (be_decode (a # x)) (be_decode (b # y)) = ord_cmp (be_decode x) (be_decode y)"
      using 4(2) by (simp add: be_decode_Cons ord_cmp_def)
    then show ?thesis using 3 4 by simp
  qed
qed (auto simp: ord_cmp_def)

lemma ord_cmp_unat: "ord_cmp (unat a) (unat b) = ord_cmp a b"
  by (simp add: ord_cmp_def word_less_nat_alt word_unat_eq_iff)

lemma unat_ucast_u256 [simp]: "unat (ucast (i :: u64) :: u256) = unat i" "unat (ucast (e :: u32) :: u256) = unat e"
  using unat_bound [of i] unat_bound [of e] by (simp_all add: unsigned_ucast_eq take_bit_nat_eq_self)

lemma ucast_u256 [simp]: "ucast (ucast (i :: u64) :: u256) = i" "ucast (ucast (e :: u32) :: u256) = e"
  by (simp_all add: ucast_up_ucast_id is_up)

lemma blob_cmp_u64: "blob_cmp (u64_to_be a) (u64_to_be b) = ord_cmp a b"
proof -
  have "be_decode (u64_to_be c) = unat c" for c
    using unat_bound [of c] by (simp add: u64_to_be_def be_decode_encode)
  then show ?thesis by (simp add: blob_cmp_be_decode ord_cmp_unat)
qed

lemma be_decode_u256_to_be [simp]: "be_decode (u256_to_be c) = unat c"
  using unat_bound [of c] by (simp add: u256_to_be_def be_decode_encode)

lemma blob_cmp_u256: "blob_cmp (u256_to_be a) (u256_to_be b) = ord_cmp a b"
  by (simp add: blob_cmp_be_decode ord_cmp_unat)

lemma to_be_inj [simp]: "u64_to_be a = u64_to_be b \<longleftrightarrow> a = b" "u256_to_be c = u256_to_be d \<longleftrightarrow> c = d"
  by (metis u64_from_to_be, metis u256_from_to_be)

text \<open>A winning probability is compared as the luck value it stands for.\<close>

lemma unat_wp_as_luck: "length w = encoded_win_prob_length \<Longrightarrow> unat (wp_as_luck w) = be_decode w"
  using be_decode_bound [of w]
  by (simp add: wp_as_luck_def u64_from_be_def be_decode_Cons encoded_win_prob_length_def unat_of_nat)

lemma blob_cmp_win_prob:
  "length v = encoded_win_prob_length \<Longrightarrow> length w = encoded_win_prob_length
   \<Longrightarrow> blob_cmp v w = ord_cmp (wp_as_luck v) (wp_as_luck w)"
  by (simp add: blob_cmp_be_decode unat_wp_as_luck flip: ord_cmp_unat)

section \<open>Rows and selection\<close>

text \<open>A verified ticket is within the limits of the builder and the challenge is the one of the response.\<close>

definition at_storable :: "('sk, 'vrf, 'rnd) crypto \<Rightarrow> acknowledged_ticket \<Rightarrow> bool" where
  "at_storable cr a \<longleftrightarrow>
     (let vt = at_ticket a; t = vt_ticket vt in
      ticket_wf t \<and> length (vt_hash vt) = hash_size \<and> length (at_response a) = 32
      \<and> tk_index t \<le> push_bit 48 1 \<and> tk_channel_epoch t \<le> push_bit 24 1
      \<and> (\<exists>s. tk_signature t = Some s \<and> cr_recover cr (vt_hash vt) s = Ok (vt_issuer vt))
      \<and> response_to_challenge cr (at_response a) = (Ok (tk_challenge t) :: (unit, eth_challenge) result))"

lemma response_to_challenge_any:
  "response_to_challenge cr r = (Ok c :: (unit, eth_challenge) result)
   \<Longrightarrow> response_to_challenge cr r = (Ok c :: ('e, eth_challenge) result)"
  by (auto simp: response_to_challenge_def split: option.splits)

lemma status_roundtrip: "status_try_from (word_of_int (status_code s)) = Some s"
  by (cases s) (simp_all add: status_try_from_def)

lemma ticket_row_read:
  assumes "at_storable cr a"
  shows "\<exists>m. ticket_model_of a = (Ok m :: (db_entity_error, ticket_model) result) \<and> ticket_of_model cr (m\<lparr>tm_id := i\<rparr>) = Ok a"
proof -
  let ?vt = "at_ticket a" let ?t = "vt_ticket ?vt"
  obtain s where s: "tk_signature ?t = Some s" "cr_recover cr (vt_hash ?vt) s = Ok (vt_issuer ?vt)"
    using assms by (auto simp: at_storable_def Let_def)
  have wf: "ticket_wf ?t" and h: "length (vt_hash ?vt) = hash_size" "length (at_response a) = 32"
    and lim: "tk_index ?t \<le> push_bit 48 1" "tk_channel_epoch ?t \<le> push_bit 24 1"
    and ch: "response_to_challenge cr (at_response a) = (Ok (tk_challenge ?t) :: (unit, eth_challenge) result)"
    using assms by (simp_all add: at_storable_def Let_def)
  note ch' = response_to_challenge_any [OF ch]
  have len: "length (tk_channel_id ?t) = hash_size" "length s = signature_size"
    "length (tk_encoded_win_prob ?t) = encoded_win_prob_length"
    and am: "tk_amount ?t < max_ticket_amount" and off: "0 < tk_index_offset ?t"
    using wf s by (simp_all add: ticket_wf_def)
  have ix: "u256_from_be (u64_to_be i) = ucast i" for i :: u64
    using unat_bound [of i] by (simp add: u256_from_be_def u64_to_be_def be_decode_encode unsigned_ucast_eq)
  have u: "u256_as_u64 (ucast i) = Ok i" "u256_as_u32 (ucast e) = Ok e" for i :: u64 and e :: u32
    using unat_bound [of i] unat_bound [of e] by (simp_all add: u256_as_u64_def u256_as_u32_def)
  let ?b = "tb_set_signature s (tb_set_challenge (tk_challenge ?t) (tb_set_channel_epoch (tk_channel_epoch ?t)
            (tb_set_win_prob (tk_encoded_win_prob ?t) (tb_set_index_offset (tk_index_offset ?t) (tb_set_index (tk_index ?t)
            (tb_set_amount (tk_amount ?t) (tb_set_channel_id (tk_channel_id ?t) tb_default)))))))"
  have "tb_build ?b = Ok ?t"
    unfolding tb_build_Ok_iff using s lim am off
    by (simp add: tb_wanted_amount_def tb_set_signature_def tb_set_challenge_def tb_set_win_prob_def
        tb_set_channel_epoch_def tb_set_index_offset_def tb_set_index_def tb_set_amount_def tb_set_channel_id_def
        tb_default_def del: push_bit_of_1)
  moreover have "tb_signature ?b = Some s" by (simp add: tb_set_signature_def)
  ultimately have "tb_build_verified cr ?b (vt_hash ?vt) = Ok ?vt" using s by (simp add: tb_build_verified_def)
  then show ?thesis
    using s len h
    by (simp add: ticket_model_of_def Let_def ticket_of_model_def fixed_bytes_def hash_from_hex_to_hex u256_from_be_bytes_def
        ix u wp_try_from_def ch' status_roundtrip vt_into_acknowledged_def)
qed

text \<open>C26: an acknowledged ticket that is written to the table is read back unchanged, whatever its row number.\<close>
theorem ticket_row_roundtrip:
  "at_storable cr a \<Longrightarrow>
   \<exists>m. ticket_model_of a = (Ok m :: (db_entity_error, ticket_model) result) \<and> ticket_of_model cr (m\<lparr>tm_id := i\<rparr>) = Ok a"
  by (rule ticket_row_read)

text \<open>What a selector means on tickets: comparisons of numbers, and of winning probabilities as luck values.\<close>

fun in_bounds :: "'a::linorder bound \<times> 'a bound \<Rightarrow> 'a \<Rightarrow> bool" where
  "in_bounds (lb, ub) x \<longleftrightarrow>
     (case lb of Included a \<Rightarrow> a \<le> x | Excluded a \<Rightarrow> a < x | Unbounded \<Rightarrow> True)
     \<and> (case ub of Included b \<Rightarrow> x \<le> b | Excluded b \<Rightarrow> x < b | Unbounded \<Rightarrow> True)"

definition selects :: "ticket_selector \<Rightarrow> acknowledged_ticket \<Rightarrow> bool" where
  "selects s a \<longleftrightarrow>
     (let t = vt_ticket (at_ticket a) in
      (tk_channel_id t, ucast (tk_channel_epoch t)) \<in> set (sel_channel_identifiers s)
      \<and> (case sel_index s of
           NoIndex \<Rightarrow> True | Single i \<Rightarrow> tk_index t = i | Multiple is \<Rightarrow> tk_index t \<in> is
         | Range b \<Rightarrow> in_bounds b (tk_index t))
      \<and> (case sel_state s of Some st \<Rightarrow> at_status a = st | None \<Rightarrow> True)
      \<and> (if sel_only_aggregated s then ticket_is_aggregated t else True)
      \<and> in_bounds (map_prod (map_bound wp_as_luck) (map_bound wp_as_luck) (sel_win_prob s)) (wp_as_luck (tk_encoded_win_prob t))
      \<and> in_bounds (sel_amount s) (tk_amount t))"

lemma bounds_iff:
  assumes "\<And>x y. p x \<Longrightarrow> p y \<Longrightarrow> blob_cmp (enc x) (enc y) = ord_cmp (f x) (f y)" and "p x"
    and "\<forall>y \<in> set_bound lb. p y" and "\<forall>y \<in> set_bound ub. p y"
  shows "above_lower (enc x) enc lb \<and> below_upper (enc x) enc ub \<longleftrightarrow> in_bounds (map_bound f lb, map_bound f ub) (f x)"
  using assms(2-) by (cases lb; cases ub) (auto simp: assms(1) not_less)

definition sel_wf :: "ticket_selector \<Rightarrow> bool" where
  "sel_wf s \<longleftrightarrow>
     (\<forall>w \<in> set_bound (fst (sel_win_prob s)) \<union> set_bound (snd (sel_win_prob s)). length w = encoded_win_prob_length)"

lemma status_code_inj [simp]: "status_code s = status_code t \<longleftrightarrow> s = t"
  by (cases s; cases t) auto

lemma aggregated_column:
  assumes "unat o' < 2 ^ 31"
  shows "sint (o' :: u32) > 1 \<longleftrightarrow> o' > 1"
proof -
  have "sint o' = uint o'"
  proof -
    have "int (unat o') < int (2 ^ 31)" using assms by (simp only: of_nat_less_iff)
    then have "uint o' < 2 ^ 31" by simp
    moreover have "- (2 ^ 31) \<le> uint o'" by (rule order_trans [OF _ uint_ge_0]) simp
    ultimately have "signed_take_bit 31 (uint o') = uint o'" by (simp only: signed_take_bit_int_eq_self_iff)
    then show ?thesis by (simp add: sint_uint)
  qed
  then show ?thesis by (simp add: word_less_def)
qed

lemma index_condition_id [simp]: "index_condition x (m\<lparr>tm_id := i\<rparr>) = index_condition x m"
  by (cases x) (auto simp: index_condition_def)

lemma into_condition_id [simp]: "into_condition s (m\<lparr>tm_id := i\<rparr>) = into_condition s m"
  by (cases "sel_state s") (simp_all add: into_condition_def)

lemma into_condition_selects:
  assumes m: "ticket_model_of a = (Ok m :: (unit, ticket_model) result)" and wf: "ticket_wf (vt_ticket (at_ticket a))"
    and off: "unat (tk_index_offset (vt_ticket (at_ticket a))) < 2 ^ 31" and s: "sel_wf s"
  shows "into_condition s (m\<lparr>tm_id := i\<rparr>) \<longleftrightarrow> selects s a"
proof -
  let ?t = "vt_ticket (at_ticket a)"
  have cols: "tm_channel_id m = to_hex (tk_channel_id ?t)" "tm_amount m = u256_to_be (tk_amount ?t)"
    "tm_index m = u64_to_be (tk_index ?t)" "tm_index_offset m = sint (tk_index_offset ?t)"
    "tm_winning_probability m = tk_encoded_win_prob ?t" "tm_channel_epoch m = u256_to_be (ucast (tk_channel_epoch ?t))"
    "tm_state m = status_code (at_status a)"
    using m by (auto simp: ticket_model_of_def Let_def split: option.splits)
  have lw: "length (tk_encoded_win_prob ?t) = encoded_win_prob_length" using wf by (simp add: ticket_wf_def)
  obtain wl wu where w: "sel_win_prob s = (wl, wu)" by fastforce
  obtain al au where am: "sel_amount s = (al, au)" by fastforce
  have ids: "(\<exists>(c, e) \<in> set (sel_channel_identifiers s). tm_channel_id m = to_hex c \<and> tm_channel_epoch m = u256_to_be e)
      \<longleftrightarrow> (tk_channel_id ?t, ucast (tk_channel_epoch ?t)) \<in> set (sel_channel_identifiers s)"
    by (auto simp: cols)
  have wp: "above_lower (tk_encoded_win_prob ?t) (\<lambda>w. w) wl \<and> below_upper (tk_encoded_win_prob ?t) (\<lambda>w. w) wu
      \<longleftrightarrow> in_bounds (map_bound wp_as_luck wl, map_bound wp_as_luck wu) (wp_as_luck (tk_encoded_win_prob ?t))"
    by (rule bounds_iff [where p = "\<lambda>w. length w = encoded_win_prob_length" and enc = "\<lambda>w. w" and f = wp_as_luck, OF blob_cmp_win_prob]) (use s lw in \<open>auto simp: sel_wf_def w\<close>)
  have amt: "above_lower (u256_to_be (tk_amount ?t)) u256_to_be al \<and> below_upper (u256_to_be (tk_amount ?t)) u256_to_be au
      \<longleftrightarrow> in_bounds (al, au) (tk_amount ?t)"
    using bounds_iff [where p = "\<lambda>_. True" and enc = u256_to_be and f = "\<lambda>x. x" and x = "tk_amount ?t" and lb = al and ub = au, OF blob_cmp_u256]
    unfolding bound.map_ident by blast
  have ix: "index_condition (sel_index s) m \<longleftrightarrow>
      (case sel_index s of
         NoIndex \<Rightarrow> True | Single i \<Rightarrow> tk_index ?t = i | Multiple is \<Rightarrow> tk_index ?t \<in> is
       | Range b \<Rightarrow> in_bounds b (tk_index ?t))"
  proof (cases "sel_index s")
    case (Range b)
    obtain lb ub where b: "b = (lb, ub)" by fastforce
    show ?thesis
      using bounds_iff [where p = "\<lambda>_. True" and enc = u64_to_be and f = "\<lambda>x. x" and x = "tk_index ?t" and lb = lb and ub = ub, OF blob_cmp_u64]
      unfolding bound.map_ident index_condition_def Range b cols ticket_index_selector.case prod.case by blast
  qed (auto simp: index_condition_def cols)
  have agg: "(sel_only_aggregated s \<longrightarrow> tm_index_offset m > 1) \<longleftrightarrow> (if sel_only_aggregated s then ticket_is_aggregated ?t else True)"
    by (simp add: cols aggregated_column [OF off] ticket_is_aggregated_def)
  have "into_condition s m \<longleftrightarrow> selects s a"
    unfolding into_condition_def ids ix agg selects_def Let_def w am map_prod_simp fst_conv snd_conv wp [symmetric] amt [symmetric]
      cols(2,5,7) status_code_inj by (auto split: option.splits)
  then show ?thesis by simp
qed

text \<open>C24: the condition that the database evaluates on the text and blob columns selects exactly the tickets whose
numbers satisfy the selector.\<close>
theorem selector_is_numeric:
  assumes m: "ticket_model_of a = (Ok m :: (unit, ticket_model) result)" and wf: "ticket_wf (vt_ticket (at_ticket a))"
    and off: "unat (tk_index_offset (vt_ticket (at_ticket a))) < 2 ^ 31" and s: "sel_wf s"
  shows "into_condition s (m\<lparr>tm_id := i\<rparr>) \<longleftrightarrow> selects s a"
  using assms by (rule into_condition_selects)

end
