(* ===== verification/Ticket_Accounting.thy ===== *)
theory Ticket_Accounting
  imports Ticket_Store
begin

text \<open>
  Properties of the ticket store: what marking tickets does to the table and the statistics, which tickets are
  offered for aggregation, the outgoing ticket indices as a map, the cached unrealized values, and the invariant
  of the store over all its operations.
\<close>

section \<open>Marking tickets\<close>

definition row_value :: "ticket_model \<Rightarrow> nat" where
  "row_value m = unat (bal_from_be (tm_amount m))"

definition rows_value :: "ticket_model list \<Rightarrow> nat" where
  "rows_value ms = sum_list (map row_value ms)"

fun stat_column :: "ticket_marker \<Rightarrow> ticket_stats \<Rightarrow> nat" where
  "stat_column Redeemed st = unat (u256_from_be (st_redeemed_value st))"
| "stat_column Rejected st = unat (u256_from_be (st_rejected_value st))"
| "stat_column Neglected st = unat (u256_from_be (st_neglected_value st))"

definition stat_value :: "ticket_marker \<Rightarrow> hash \<Rightarrow> ticket_db \<Rightarrow> nat" where
  "stat_value mk channel_id db = (case find_stats channel_id db of Some st \<Rightarrow> stat_column mk st | None \<Rightarrow> 0)"

text \<open>No sum of a statistic and the stored tickets exceeds 256 bits; all amounts together stay below the supply of the token.\<close>

definition marks_fit :: "ticket_marker \<Rightarrow> ticket_db \<Rightarrow> bool" where
  "marks_fit mk db \<longleftrightarrow> (\<forall>channel_id. stat_value mk channel_id db + rows_value (td_tickets db) < 2 ^ 256)"

definition other_tables :: "ticket_db \<Rightarrow> ticket_db" where
  "other_tables db = db\<lparr>td_tickets := [], td_stats := [], td_unrealized := Map.empty\<rparr>"

lemma other_tables_update [simp]:
  "other_tables (db\<lparr>td_tickets := ts\<rparr>) = other_tables db" "other_tables (db\<lparr>td_stats := st\<rparr>) = other_tables db"
  "other_tables (db\<lparr>td_unrealized := u\<rparr>) = other_tables db" "other_tables (save_stats s db) = other_tables db"
  by (simp_all add: other_tables_def save_stats_def)

lemma rows_value_simps [simp]:
  "rows_value [] = 0" "rows_value (m # ms) = row_value m + rows_value ms"
  "rows_value (ms @ ns) = rows_value ms + rows_value ns"
  by (simp_all add: rows_value_def)

lemma rows_value_filter: "rows_value (filter P ms) + rows_value (filter (\<lambda>m. \<not> P m) ms) = rows_value ms"
  by (induction ms) auto

lemma value_fold:
  "unat v + rows_value ms < 2 ^ 256 \<Longrightarrow>
   foldl (\<lambda>(count, value) t. (count + 1, bal_add value (bal_from_be (tm_amount t)))) (n, v) ms
     = (n + length ms, of_nat (unat v + rows_value ms))"
proof (induction ms arbitrary: n v)
  case (Cons m ms)
  have b: "bal_add v (bal_from_be (tm_amount m)) = v + of_nat (row_value m)"
    and u: "unat (v + of_nat (row_value m)) = unat v + row_value m"
    using Cons.prems by (simp_all add: row_value_def bal_add_def unat_word_ariths)
  have "unat (v + of_nat (row_value m)) + rows_value ms < 2 ^ 256" using Cons.prems by (simp add: u)
  from Cons.IH [OF this] show ?case by (simp add: b add.assoc)
qed simp

lemma get_tickets_value_int_eq:
  "rows_value (td_tickets db) < 2 ^ 256 \<Longrightarrow>
   get_tickets_value_int s db
     = (length (filter (into_condition s) (td_tickets db)), of_nat (rows_value (filter (into_condition s) (td_tickets db))))"
  using value_fold [of 0 "filter (into_condition s) (td_tickets db)" 0]
    rows_value_filter [of "into_condition s" "td_tickets db"]
  by (simp add: get_tickets_value_int_def)

lemma all_marker: "(\<forall>mk. P mk) \<longleftrightarrow> P Redeemed \<and> P Rejected \<and> P Neglected"
  by (metis ticket_marker.exhaust)

lemma add_to_stats_Ok:
  assumes "stat_column mk st + unat v < 2 ^ 256"
  shows "\<exists>st'. add_to_stats mk v st = Ok st' \<and> st_channel_id st' = st_channel_id st
     \<and> (\<forall>mk'. stat_column mk' st' = stat_column mk' st + (if mk' = mk then unat v else 0))
     \<and> st_winning_tickets st' = st_winning_tickets st"
proof -
  have sm: "unat (a + v) = unat a + unat v" if "unat a + unat v < 2 ^ 256" for a :: u256
    using that by (simp add: unat_word_ariths)
  show ?thesis
    using assms sm by (cases mk) (auto simp: u256_add_def all_marker)
qed

lemma find_map_key:
  "find (\<lambda>x. f x = k) (map (\<lambda>x. if f x = f y then y else x) xs)
     = (if k = f y then (if find (\<lambda>x. f x = k) xs = None then None else Some y) else find (\<lambda>x. f x = k) xs)"
  by (induction xs) auto

lemma find_append: "find P (xs @ ys) = (case find P xs of Some x \<Rightarrow> Some x | None \<Rightarrow> find P ys)"
  by (induction xs) auto

lemma find_None_iff_key: "find (\<lambda>x. f x = k) xs = None \<longleftrightarrow> k \<notin> f ` set xs"
  by (induction xs) auto

lemma find_stats_save:
  "find_stats c (save_stats st db)
     = (if to_hex c = st_channel_id st then (if find_stats c db = None then None else Some st) else find_stats c db)"
  unfolding find_stats_def save_stats_def by (simp add: find_map_key)

lemma find_stats_for_channel_props:
  assumes "find_stats_for_channel cid db = (st, db1)"
  shows "st_channel_id st = to_hex cid" and "find_stats c db1 = (if c = cid then Some st else find_stats c db)"
    and "stat_column mk st = stat_value mk cid db" and "td_tickets db1 = td_tickets db"
    and "td_unrealized db1 = td_unrealized db" and "other_tables db1 = other_tables db"
proof -
  have z: "u256_from_be (replicate 12 0) = 0"
    by (simp add: u256_from_be_def be_decode_def eval_nat_numeral)
  show "st_channel_id st = to_hex cid"
    using assms by (auto simp: find_stats_for_channel_def find_stats_def default_stats_def find_Some_iff split: option.splits)
  show "find_stats c db1 = (if c = cid then Some st else find_stats c db)"
    using assms by (auto simp: find_stats_for_channel_def find_stats_def default_stats_def find_append split: option.splits)
  show "stat_column mk st = stat_value mk cid db"
    using assms by (cases mk) (auto simp: find_stats_for_channel_def stat_value_def default_stats_def z split: option.splits)
  show "td_tickets db1 = td_tickets db" "td_unrealized db1 = td_unrealized db" "other_tables db1 = other_tables db"
    using assms by (auto simp: find_stats_for_channel_def split: option.splits)
qed

definition on_channel :: "hash \<Rightarrow> ticket_model \<Rightarrow> bool" where
  "on_channel channel_id m \<longleftrightarrow> tm_channel_id m = to_hex channel_id"

abbreviation sel_ids :: "(hash \<times> u256) list \<Rightarrow> ticket_selector \<Rightarrow> ticket_selector" where
  "sel_ids ids s \<equiv> s\<lparr>sel_channel_identifiers := ids\<rparr>"

lemma into_condition_ids:
  "into_condition (sel_ids [] s) m \<longleftrightarrow> False"
  "into_condition (sel_ids (k # ids) s) m \<longleftrightarrow> into_condition (sel_ids [k] s) m \<or> into_condition (sel_ids ids s) m"
  by (auto simp: into_condition_def)

lemma into_condition_channel: "into_condition (sel_ids [(c, e)] s) m \<Longrightarrow> on_channel c m"
  by (simp add: into_condition_def on_channel_def)

lemma on_channel_unique: "on_channel c m \<Longrightarrow> on_channel d m \<longleftrightarrow> d = c"
  by (auto simp: on_channel_def)

lemma rows_value_or:
  "rows_value (filter (\<lambda>m. (P m \<or> Q m) \<and> R m) ms)
     = rows_value (filter (\<lambda>m. P m \<and> R m) ms) + rows_value (filter (\<lambda>m. Q m \<and> R m) (filter (\<lambda>m. \<not> P m) ms))"
  by (induction ms) auto

lemma length_or: "length (filter (\<lambda>m. P m \<or> Q m) ms) = length (filter P ms) + length (filter Q (filter (\<lambda>m. \<not> P m) ms))"
  by (induction ms) auto

text \<open>What one marking changes, for the tickets that satisfy \<open>P\<close>.\<close>

definition marked :: "ticket_marker \<Rightarrow> (ticket_model \<Rightarrow> bool) \<Rightarrow> ticket_db \<Rightarrow> ticket_db \<Rightarrow> bool" where
  "marked mk P db db' \<longleftrightarrow>
     td_tickets db' = filter (\<lambda>m. \<not> P m) (td_tickets db)
     \<and> (\<forall>c. stat_value mk c db' = stat_value mk c db + rows_value (filter (\<lambda>m. P m \<and> on_channel c m) (td_tickets db)))
     \<and> (\<forall>mk' c. mk' \<noteq> mk \<longrightarrow> stat_value mk' c db' = stat_value mk' c db)
     \<and> other_tables db' = other_tables db"

lemma marked_none: "(\<And>m. m \<in> set (td_tickets db) \<Longrightarrow> \<not> P m) \<Longrightarrow> marked mk P db db"
  by (auto simp: marked_def filter_empty_conv filter_id_conv intro!: filter_True [symmetric])

lemma marked_trans:
  assumes "marked mk P db db1" and "marked mk Q db1 db2"
  shows "marked mk (\<lambda>m. P m \<or> Q m) db db2"
  using assms unfolding marked_def by (auto simp: rows_value_or)

lemma marked_fit:
  assumes "marked mk P db db'" and "marks_fit mk db"
  shows "marks_fit mk db'"
  unfolding marks_fit_def
proof
  fix c
  let ?ts = "td_tickets db"
  have "rows_value (filter (\<lambda>m. P m \<and> on_channel c m) ms) \<le> rows_value (filter P ms)" for ms
    by (induction ms) auto
  from this [of ?ts]
  have "stat_value mk c db + rows_value (filter (\<lambda>m. P m \<and> on_channel c m) ?ts) + rows_value (filter (\<lambda>m. \<not> P m) ?ts)
    \<le> stat_value mk c db + rows_value ?ts"
    using rows_value_filter [of P ?ts] by simp
  then show "stat_value mk c db' + rows_value (td_tickets db') < 2 ^ 256"
    using assms unfolding marked_def marks_fit_def by (metis order_le_less_trans)
qed

lemma into_condition_key:
  "into_condition (sel_ids [k] s) m \<Longrightarrow> into_condition (sel_ids [k'] s') m \<Longrightarrow> k = k'"
  by (cases k; cases k') (auto simp: into_condition_def)

lemma just_on_channel_ids: "just_on_channel c e s = sel_ids [(c, e)] s"
  by (simp add: just_on_channel_def)

text \<open>One round of the loop on a channel with matching tickets.\<close>

lemma mark_one_channel:
  fixes s :: ticket_selector
  assumes fit: "marks_fit mk db" and st: "find_stats_for_channel c (db\<lparr>td_tickets := filter (\<lambda>m. \<not> P m) (td_tickets db)\<rparr>) = (st, db1)"
    and P: "\<And>m. P m \<Longrightarrow> on_channel c m"
  defines "v \<equiv> of_nat (rows_value (filter P (td_tickets db))) :: u256"
  shows "\<exists>st'. add_to_stats mk v st = (Ok st' :: ('e, ticket_stats) result)
     \<and> marked mk P db ((save_stats st' db1)\<lparr>td_unrealized := u\<rparr>)"
proof -
  let ?db = "db\<lparr>td_tickets := filter (\<lambda>m. \<not> P m) (td_tickets db)\<rparr>"
  note fs = find_stats_for_channel_props [OF st]
  have fs_db: "find_stats d ?db = find_stats d db" for d by (simp add: find_stats_def)
  then have sv_db: "stat_value mk' d ?db = stat_value mk' d db" for mk' d by (simp add: stat_value_def)
  have sum: "stat_value mk c db + rows_value (filter P (td_tickets db)) < 2 ^ 256"
    using fit rows_value_filter [of P "td_tickets db"] unfolding marks_fit_def by (metis add.assoc add_lessD1)
  then have v: "unat v = rows_value (filter P (td_tickets db))"
    by (simp add: v_def unat_of_nat)
  obtain st' where st': "add_to_stats mk v st = (Ok st' :: ('e, ticket_stats) result)" "st_channel_id st' = to_hex c"
    "\<And>mk'. stat_column mk' st' = stat_column mk' st + (if mk' = mk then unat v else 0)"
    using add_to_stats_Ok [of mk st v] sum fs(1) fs(3) [of mk] v sv_db by auto
  have find': "find_stats d ((save_stats st' db1)\<lparr>td_unrealized := u\<rparr>) = (if d = c then Some st' else find_stats d db)" for d
    using find_stats_save [of d st' db1] fs(2) [of d] st'(2) fs_db by (auto simp: find_stats_def)
  have others: "filter (\<lambda>m. P m \<and> on_channel d m) ms = (if d = c then filter P ms else [])" for d ms
    using P on_channel_unique by (induction ms) auto
  have "stat_value mk' d ((save_stats st' db1)\<lparr>td_unrealized := u\<rparr>)
      = stat_value mk' d db + (if mk' = mk \<and> d = c then unat v else 0)" for mk' d
    unfolding stat_value_def find' using st'(3) [of mk'] fs(3) [of mk'] sv_db by (auto simp: stat_value_def)
  then have "marked mk P db ((save_stats st' db1)\<lparr>td_unrealized := u\<rparr>)"
    unfolding marked_def others using v fs(4,6) by (simp add: save_stats_def)
  with st'(1) show ?thesis by blast
qed

lemma deleted_count: "length ms - length (filter (\<lambda>m. \<not> P m) ms) = length (filter P ms)"
  using sum_length_filter_compl [of P ms] by simp

text \<open>The loop over the channels of a selector.\<close>

definition cache_cleared :: "ticket_selector \<Rightarrow> (hash \<times> u256) list \<Rightarrow> ticket_db \<Rightarrow> ticket_db \<Rightarrow> bool" where
  "cache_cleared s ids db db' \<longleftrightarrow>
     (\<forall>k. td_unrealized db' k
        = (if k \<in> set ids \<and> (\<exists>m \<in> set (td_tickets db). into_condition (sel_ids [k] s) m) then None else td_unrealized db k))"

lemma mark_tickets_loop_marked:
  "marks_fit mk db \<Longrightarrow>
   \<exists>db'. mark_tickets_loop s mk ids n db
       = Ok (db', n + length (filter (into_condition (sel_ids ids s)) (td_tickets db)))
     \<and> marked mk (into_condition (sel_ids ids s)) db db' \<and> cache_cleared s ids db db'"
proof (induction ids arbitrary: n db)
  case Nil
  have e: "into_condition (sel_ids [] s) = (\<lambda>m. False)" by (rule ext) (simp add: into_condition_ids)
  have "marked mk (\<lambda>m. False) db db" by (rule marked_none) simp
  then show ?case unfolding e by (simp add: cache_cleared_def)
next
  case (Cons k ids)
  obtain c e where k: "k = (c, e)" by fastforce
  let ?P = "into_condition (sel_ids [k] s)" and ?Q = "into_condition (sel_ids ids s)"
  let ?ts = "td_tickets db"
  have fit: "rows_value ?ts < 2 ^ 256" using Cons.prems order_le_less_trans [OF le_add2] unfolding marks_fit_def by blast
  have PQ: "into_condition (sel_ids (k # ids) s) = (\<lambda>m. ?P m \<or> ?Q m)" by (rule ext) (rule into_condition_ids(2))
  have gv: "get_tickets_value_int (just_on_channel c e s) db = (length (filter ?P ?ts), of_nat (rows_value (filter ?P ?ts)))"
    unfolding just_on_channel_ids k by (rule get_tickets_value_int_eq [OF fit])
  show ?case
  proof (cases "filter ?P ?ts = []")
    case True
    then have none: "\<And>m. m \<in> set ?ts \<Longrightarrow> \<not> ?P m" by (auto simp: filter_empty_conv)
    obtain db' where db': "mark_tickets_loop s mk ids n db = Ok (db', n + length (filter ?Q ?ts))"
      "marked mk ?Q db db'" "cache_cleared s ids db db'" using Cons.IH [OF Cons.prems] by blast
    have "mark_tickets_loop s mk (k # ids) n db = Ok (db', n + length (filter ?Q ?ts))"
      using db'(1) gv True by (simp add: k Let_def)
    moreover have "length (filter (\<lambda>m. ?P m \<or> ?Q m) ?ts) = length (filter ?Q ?ts)"
      by (rule arg_cong [of _ _ length], rule filter_cong) (use none in auto)
    moreover have "marked mk (\<lambda>m. ?P m \<or> ?Q m) db db'" by (rule marked_trans [OF marked_none db'(2)]) (rule none)
    moreover have "cache_cleared s (k # ids) db db'" using db'(3) none by (auto simp: cache_cleared_def)
    ultimately show ?thesis unfolding PQ by auto
  next
    case False
    then obtain m0 where m0: "m0 \<in> set ?ts" "?P m0" by (auto simp: filter_empty_conv)
    let ?db0 = "db\<lparr>td_tickets := filter (\<lambda>m. \<not> ?P m) ?ts\<rparr>"
    obtain st db1 where st: "find_stats_for_channel c ?db0 = (st, db1)" by fastforce
    have on: "\<And>m. ?P m \<Longrightarrow> on_channel c m" using into_condition_channel k by simp
    let ?u = "(td_unrealized db1)(k := None)"
    obtain st' where st': "add_to_stats mk (of_nat (rows_value (filter ?P ?ts))) st = (Ok st' :: (db_error, ticket_stats) result)"
      "marked mk ?P db ((save_stats st' db1)\<lparr>td_unrealized := ?u\<rparr>)"
      using mark_one_channel [OF Cons.prems st on] by blast
    let ?db2 = "(save_stats st' db1)\<lparr>td_unrealized := ?u\<rparr>"
    have u1: "td_unrealized db1 = td_unrealized db"
      using find_stats_for_channel_props(5) [OF st] by simp
    have ts2: "td_tickets ?db2 = filter (\<lambda>m. \<not> ?P m) ?ts" using st'(2) by (simp add: marked_def)
    obtain db' where db': "mark_tickets_loop s mk ids (n + length (filter ?P ?ts)) ?db2
        = Ok (db', n + length (filter ?P ?ts) + length (filter ?Q (td_tickets ?db2)))"
      "marked mk ?Q ?db2 db'" "cache_cleared s ids ?db2 db'"
      using Cons.IH [OF marked_fit [OF st'(2) Cons.prems], of "n + length (filter ?P ?ts)"] by blast
    have "mark_tickets_loop s mk (k # ids) n db = mark_tickets_loop s mk ids (n + length (filter ?P ?ts)) ?db2"
      using gv False st st'(1) deleted_count [of ?ts ?P]
      by (simp add: k Let_def just_on_channel_ids) (simp add: save_stats_def)
    moreover have "n + length (filter (\<lambda>m. ?P m \<or> ?Q m) ?ts) = n + length (filter ?P ?ts) + length (filter ?Q (td_tickets ?db2))"
      unfolding ts2 length_or by simp
    moreover have "marked mk (\<lambda>m. ?P m \<or> ?Q m) db db'" by (rule marked_trans [OF st'(2) db'(2)])
    moreover have "cache_cleared s (k # ids) db db'"
    proof -
      have "(\<exists>m \<in> set (td_tickets ?db2). into_condition (sel_ids [k'] s) m)
          \<longleftrightarrow> k' \<noteq> k \<and> (\<exists>m \<in> set ?ts. into_condition (sel_ids [k'] s) m)" for k'
        unfolding ts2 set_filter using into_condition_key [of k s _ k' s] by blast
      then show ?thesis using db'(3) m0 by (auto simp: cache_cleared_def u1)
    qed
    ultimately show ?thesis using db'(1) unfolding PQ by auto
  qed
qed

text \<open>C18: marking tickets removes exactly the tickets that match the selector, returns their number, adds their value to the
one statistic of their channel that the marker names, and leaves every other statistic and table alone; of the cached
unrealized values it drops those of the channels that lost tickets. The value a channel ever earned, the unredeemed tickets
and the statistics together, is conserved.\<close>
theorem mark_tickets_conserves:
  assumes "marks_fit mk db"
  shows "\<exists>db'. mark_tickets_as s mk db = Ok (db', length (filter (into_condition s) (td_tickets db)))
     \<and> marked mk (into_condition s) db db' \<and> cache_cleared s (sel_channel_identifiers s) db db'
     \<and> (\<forall>c. rows_value (filter (on_channel c) (td_tickets db')) + stat_value Redeemed c db' + stat_value Rejected c db'
              + stat_value Neglected c db'
            = rows_value (filter (on_channel c) (td_tickets db)) + stat_value Redeemed c db + stat_value Rejected c db
              + stat_value Neglected c db)"
proof -
  have s: "sel_ids (sel_channel_identifiers s) s = s" by simp
  obtain db' where db': "mark_tickets_as s mk db = Ok (db', length (filter (into_condition s) (td_tickets db)))"
    "marked mk (into_condition s) db db'" "cache_cleared s (sel_channel_identifiers s) db db'"
    using mark_tickets_loop_marked [OF assms, of s "sel_channel_identifiers s" 0] unfolding s mark_tickets_as_def by auto
  have split: "rows_value (filter R ms) = rows_value (filter (\<lambda>m. P m \<and> R m) ms) + rows_value (filter R (filter (\<lambda>m. \<not> P m) ms))"
    for P R ms by (induction ms) auto
  have "rows_value (filter (on_channel c) (td_tickets db')) + stat_value Redeemed c db' + stat_value Rejected c db'
              + stat_value Neglected c db'
            = rows_value (filter (on_channel c) (td_tickets db)) + stat_value Redeemed c db + stat_value Rejected c db
              + stat_value Neglected c db" for c
  proof -
    have ts: "td_tickets db' = filter (\<lambda>m. \<not> into_condition s m) (td_tickets db)"
      and mk: "stat_value mk c db' = stat_value mk c db + rows_value (filter (\<lambda>m. into_condition s m \<and> on_channel c m) (td_tickets db))"
      and other: "\<And>mk'. mk' \<noteq> mk \<Longrightarrow> stat_value mk' c db' = stat_value mk' c db"
      using db'(2) by (simp_all add: marked_def)
    show ?thesis
      unfolding split [of "on_channel c" "td_tickets db" "into_condition s"] ts using mk other by (cases mk) auto
  qed
  with db' show ?thesis by blast
qed

section \<open>The tickets to aggregate\<close>

definition wins_enough :: "(rat \<Rightarrow> rat \<Rightarrow> bool) \<Rightarrow> win_prob \<Rightarrow> ticket_model \<Rightarrow> bool" where
  "wins_enough approx min_win_prob m \<longleftrightarrow> wp_approx_cmp approx (tm_winning_probability m) min_win_prob \<noteq> Less"

lemma take_satisfying_prefix:
  assumes "\<forall>m \<in> set ms. length (tm_winning_probability m) = encoded_win_prob_length"
    and "unat sofar + rows_value ms < 2 ^ 256"
  shows "\<exists>taken rest. filter (wins_enough approx w) ms = taken @ rest
     \<and> take_satisfying approx balance w ms sofar = Ok (taken, of_nat (unat sofar + rows_value taken))
     \<and> (unat sofar \<le> unat balance \<longrightarrow> unat sofar + rows_value taken \<le> unat balance)
     \<and> (rest \<noteq> [] \<longrightarrow> unat balance < unat sofar + rows_value taken + row_value (hd rest))"
  using assms
proof (induction ms arbitrary: sofar)
  case (Cons m ms)
  have wp: "wp_try_from (tm_winning_probability m) = Ok (tm_winning_probability m)"
    using Cons.prems by (simp add: wp_try_from_def)
  let ?add = "bal_from_be (tm_amount m)"
  have b: "unat (bal_add sofar ?add) = unat sofar + row_value m" using Cons.prems(2) by (simp add: row_value_def)
  have bs: "bal_sub (bal_add sofar ?add) ?add = sofar"
    by (rule word_unat_eq_iff [THEN iffD2]) (simp only: unat_bal_sub b, simp add: row_value_def)
  consider "\<not> wins_enough approx w m" | "wins_enough approx w m" "bal_add sofar ?add > balance"
    | "wins_enough approx w m" "\<not> bal_add sofar ?add > balance" by blast
  then show ?case
  proof cases
    case 1
    moreover have "unat sofar + rows_value ms < 2 ^ 256" using Cons.prems(2) by simp
    ultimately show ?thesis using Cons.IH [of sofar] Cons.prems(1) wp by (simp add: wins_enough_def)
  next
    case 2
    then have "take_satisfying approx balance w (m # ms) sofar = Ok ([], sofar)"
      using wp bs by (simp add: wins_enough_def Let_def)
    moreover have "unat balance < unat sofar + row_value m" using 2(2) unfolding word_less_nat_alt b .
    ultimately show ?thesis using 2(1) by (intro exI [of _ "[]"] exI [of _ "m # filter (wins_enough approx w) ms"]) simp
  next
    case 3
    have "unat (bal_add sofar ?add) + rows_value ms < 2 ^ 256" using Cons.prems(2) unfolding b by simp
    then obtain taken rest where IH: "filter (wins_enough approx w) ms = taken @ rest"
      "take_satisfying approx balance w ms (bal_add sofar ?add) = Ok (taken, of_nat (unat sofar + row_value m + rows_value taken))"
      "unat sofar + row_value m \<le> unat balance \<longrightarrow> unat sofar + row_value m + rows_value taken \<le> unat balance"
      "rest \<noteq> [] \<longrightarrow> unat balance < unat sofar + row_value m + rows_value taken + row_value (hd rest)"
      using Cons.IH [of "bal_add sofar ?add"] Cons.prems(1) unfolding b by auto
    have le: "unat sofar + row_value m \<le> unat balance" using 3(2) unfolding word_less_nat_alt b by simp
    have "take_satisfying approx balance w (m # ms) sofar = Ok (m # taken, of_nat (unat sofar + rows_value (m # taken)))"
      using 3 IH(2) wp by (simp add: wins_enough_def Let_def add.assoc)
    moreover have "filter (wins_enough approx w) (m # ms) = (m # taken) @ rest" using 3(1) IH(1) by simp
    ultimately show ?thesis using IH(3,4) le by (intro exI [of _ "m # taken"] exI [of _ rest]) (simp add: add.assoc)
  qed
qed simp

text \<open>C25: of the tickets that win often enough, the longest run from the first whose total does not exceed the balance of the
channel is offered for aggregation. It is returned if no prerequisite is given, if it has at least the wanted number of tickets,
or if it has at least two and its total is at least the wanted share of the balance; otherwise nothing is returned. The docs of
the prerequisites say that the number and the share are to be exceeded; the code accepts equality.\<close>
theorem aggregation_filter_correct:
  assumes "\<forall>m \<in> set models. length (tm_winning_probability m) = encoded_win_prob_length"
    and "rows_value models < 2 ^ 256"
  shows "\<exists>taken rest. filter (wins_enough approx w) models = taken @ rest
     \<and> rows_value taken \<le> unat (ce_balance channel)
     \<and> (rest \<noteq> [] \<longrightarrow> unat (ce_balance channel) < rows_value taken + row_value (hd rest))
     \<and> filter_satisfying_ticket_models approx pre models channel w =
         (if min_ticket_count pre = None \<and> min_unaggregated_ratio pre = None
             \<or> (\<exists>n. min_ticket_count pre = Some n \<and> n \<le> length taken) then Ok taken
          else case min_unaggregated_ratio pre of
            None \<Rightarrow> Ok []
          | Some r \<Rightarrow> map_res (\<lambda>d. if unat d \<le> rows_value taken \<and> 1 < length taken then taken else [])
                        (map_fail DbNonSpecificError (u256_mul_f64 (ce_balance channel) r)))"
proof -
  obtain taken rest where t: "filter (wins_enough approx w) models = taken @ rest"
    "take_satisfying approx (ce_balance channel) w models 0 = Ok (taken, of_nat (rows_value taken))"
    "rows_value taken \<le> unat (ce_balance channel)"
    "rest \<noteq> [] \<longrightarrow> unat (ce_balance channel) < rows_value taken + row_value (hd rest)"
    using take_satisfying_prefix [OF assms(1), of 0 approx w "ce_balance channel"] assms(2) by auto
  have u: "unat (of_nat (rows_value taken) :: u256) = rows_value taken"
    using order_le_less_trans [OF t(3) unat_bound] by (simp add: unat_of_nat)
  have le: "of_nat (rows_value taken) \<ge> d \<longleftrightarrow> unat d \<le> rows_value taken" for d :: u256
    unfolding word_le_nat_alt u ..
  have mr: "and_then x (\<lambda>d. if P d then Ok a else Ok b) = map_res (\<lambda>d. if P d then a else b) x" for x P a b
    by (cases x) auto
  have "filter_satisfying_ticket_models approx pre models channel w =
         (if min_ticket_count pre = None \<and> min_unaggregated_ratio pre = None
             \<or> (\<exists>n. min_ticket_count pre = Some n \<and> n \<le> length taken) then Ok taken
          else case min_unaggregated_ratio pre of
            None \<Rightarrow> Ok []
          | Some r \<Rightarrow> map_res (\<lambda>d. if unat d \<le> rows_value taken \<and> 1 < length taken then taken else [])
                        (map_fail DbNonSpecificError (u256_mul_f64 (ce_balance channel) r)))"
    unfolding filter_satisfying_ticket_models_def t(2)
    by (cases "min_ticket_count pre"; cases "min_unaggregated_ratio pre") (simp_all add: Let_def le mr)
  with t(1,3,4) show ?thesis by blast
qed

section \<open>Outgoing ticket indices as a map\<close>

text \<open>
  The abstract state: the next ticket index of every channel, 0 for an unknown channel. The caches are lost when the
  process restarts.
\<close>

definition stored_index :: "ticket_db \<Rightarrow> hash \<Rightarrow> u64" where
  "stored_index db c =
     (case find (\<lambda>oi. oi_channel_id oi = to_hex c) (td_outgoing db) of Some oi \<Rightarrow> u64_from_be (oi_index oi) | None \<Rightarrow> 0)"

definition current_index :: "ticket_db \<Rightarrow> hash \<Rightarrow> u64" where
  "current_index db c = (case td_ticket_index db c of Some v \<Rightarrow> v | None \<Rightarrow> stored_index db c)"

definition td_restart :: "ticket_db \<Rightarrow> ticket_db" where
  "td_restart db = db\<lparr>td_unrealized := Map.empty, td_ticket_index := Map.empty, td_queue := None\<rparr>"

definition outgoing_ok :: "ticket_db \<Rightarrow> bool" where
  "outgoing_ok db \<longleftrightarrow>
     (\<forall>oi \<in> set (td_outgoing db). length (oi_index oi) = 8 \<and> (\<exists>h. length h = hash_size \<and> oi_channel_id oi = to_hex h))
     \<and> distinct (map oi_channel_id (td_outgoing db))
     \<and> (\<forall>c. td_ticket_index db c \<noteq> None \<longrightarrow> to_hex c \<in> oi_channel_id ` set (td_outgoing db))"

lemma stored_index_frame [simp]: "stored_index (db\<lparr>td_ticket_index := f\<rparr>) = stored_index db"
  by (rule ext) (simp add: stored_index_def)

lemma read_index:
  assumes "length bs = 8"
  shows "and_then (u256_from_be_bytes bs) u256_as_u64 = Ok (u64_from_be bs)"
proof -
  have b: "be_decode bs < 2 ^ 64" using be_decode_less [of bs 8 "2 ^ 64"] assms by simp
  then have u: "unat (u256_from_be bs) = be_decode bs" by (simp add: u256_from_be_def unat_of_nat)
  have "ucast (u256_from_be bs) = u64_from_be bs"
    using b by (simp add: u256_from_be_def u64_from_be_def word_unat_eq_iff unsigned_ucast_eq unat_of_nat take_bit_nat_eq_self)
  with b u assms show ?thesis by (simp add: u256_from_be_bytes_def u256_as_u64_def)
qed

lemma u64_to_from_be: "length bs = 8 \<Longrightarrow> u64_to_be (u64_from_be bs) = bs"
  using be_decode_less [of bs 8 "2 ^ 64"] by (simp add: u64_to_be_def u64_from_be_def unat_of_nat be_encode_decode)

lemma get_outgoing_index:
  assumes "outgoing_ok db" and "length c = hash_size"
  shows "\<exists>db'. get_outgoing_ticket_index c db = Ok (db', current_index db c) \<and> outgoing_ok db'
     \<and> td_ticket_index db' = (td_ticket_index db)(c \<mapsto> current_index db c)
     \<and> stored_index db' = stored_index db"
proof (cases "td_ticket_index db c")
  case (Some v)
  then show ?thesis using assms by (auto simp: get_outgoing_ticket_index_def current_index_def fun_upd_idem)
next
  case None
  show ?thesis
  proof (cases "find (\<lambda>oi. oi_channel_id oi = to_hex c) (td_outgoing db)")
    case (Some oi)
    then have oi: "oi \<in> set (td_outgoing db)" "oi_channel_id oi = to_hex c" by (auto simp: find_Some_iff)
    then have "length (oi_index oi) = 8" using assms(1) by (auto simp: outgoing_ok_def)
    moreover have "to_hex c \<in> oi_channel_id ` set (td_outgoing db)" using oi by force
    ultimately show ?thesis using assms(1) None Some
      by (auto simp: get_outgoing_ticket_index_def current_index_def stored_index_def read_index outgoing_ok_def)
  next
    case find: None
    then have new: "to_hex c \<notin> oi_channel_id ` set (td_outgoing db)" unfolding find_None_iff_key .
    have z: "u64_from_be (replicate 8 0) = 0" by (simp add: u64_from_be_def be_decode_def eval_nat_numeral)
    show ?thesis using assms None find new
      by (auto simp: get_outgoing_ticket_index_def current_index_def stored_index_def outgoing_ok_def find_append z
          split: option.splits)
  qed
qed

lemma with_outgoing_index_refines:
  assumes "outgoing_ok db" and "length c = hash_size"
  shows "\<exists>db'. with_outgoing_index f c db = Ok (db', current_index db c) \<and> outgoing_ok db'
     \<and> current_index db' = (current_index db)(c := f (current_index db c)) \<and> stored_index db' = stored_index db"
proof -
  obtain db1 where db1: "get_outgoing_ticket_index c db = Ok (db1, current_index db c)" "outgoing_ok db1"
    "td_ticket_index db1 = (td_ticket_index db)(c \<mapsto> current_index db c)" "stored_index db1 = stored_index db"
    using get_outgoing_index [OF assms] by blast
  let ?db2 = "db1\<lparr>td_ticket_index := (td_ticket_index db1)(c \<mapsto> f (current_index db c))\<rparr>"
  have "with_outgoing_index f c db = Ok (?db2, current_index db c)" using db1(1) by (simp add: with_outgoing_index_def)
  moreover have "outgoing_ok ?db2" using db1(2,3) by (auto simp: outgoing_ok_def)
  moreover have st: "stored_index ?db2 = stored_index db" using db1(4) by simp
  moreover have "current_index ?db2 = (current_index db)(c := f (current_index db c))"
  proof
    fix x
    show "current_index ?db2 x = ((current_index db)(c := f (current_index db c))) x"
      using db1(3,4) by (cases "td_ticket_index db x") (simp_all add: current_index_def)
  qed
  ultimately show ?thesis by blast
qed

lemma persist_rows_eq:
  assumes "\<forall>oi \<in> set rows. length (oi_index oi) = 8 \<and> (\<exists>h. length h = hash_size \<and> oi_channel_id oi = to_hex h)"
  shows "\<exists>rows' n. persist_rows cache rows = Ok (rows', n) \<and> map oi_channel_id rows' = map oi_channel_id rows
     \<and> (\<forall>oi \<in> set rows'. length (oi_index oi) = 8)
     \<and> (\<forall>c. find (\<lambda>oi. oi_channel_id oi = to_hex c) rows' =
          map_option (\<lambda>oi. oi\<lparr>oi_index := u64_to_be (case cache c of Some v \<Rightarrow> max v (u64_from_be (oi_index oi)) | None \<Rightarrow> u64_from_be (oi_index oi))\<rparr>)
            (find (\<lambda>oi. oi_channel_id oi = to_hex c) rows))"
  using assms
proof (induction rows)
  case (Cons oi rows)
  obtain h where h: "length h = hash_size" "oi_channel_id oi = to_hex h" and l: "length (oi_index oi) = 8"
    using Cons.prems by auto
  obtain rows' n where IH: "persist_rows cache rows = Ok (rows', n)" "map oi_channel_id rows' = map oi_channel_id rows"
     "\<forall>oi \<in> set rows'. length (oi_index oi) = 8"
     "\<And>c. find (\<lambda>oi. oi_channel_id oi = to_hex c) rows' =
          map_option (\<lambda>oi. oi\<lparr>oi_index := u64_to_be (case cache c of Some v \<Rightarrow> max v (u64_from_be (oi_index oi)) | None \<Rightarrow> u64_from_be (oi_index oi))\<rparr>)
            (find (\<lambda>oi. oi_channel_id oi = to_hex c) rows)"
    using Cons by auto
  let ?new = "oi\<lparr>oi_index := u64_to_be (case cache h of Some v \<Rightarrow> max v (u64_from_be (oi_index oi)) | None \<Rightarrow> u64_from_be (oi_index oi))\<rparr>"
  have same: "oi\<lparr>oi_index := oi_index oi\<rparr> = oi" by simp
  have "(case cache h of Some v \<Rightarrow> if v > u64_from_be (oi_index oi) then (oi\<lparr>oi_index := u64_to_be v\<rparr>, 1) else (oi, 0)
        | None \<Rightarrow> (oi, 0 :: nat)) = (?new, case cache h of Some v \<Rightarrow> if v > u64_from_be (oi_index oi) then 1 else 0 | None \<Rightarrow> 0)"
    using same by (auto simp: u64_to_from_be [OF l] max_def not_less split: option.splits)
  then obtain k where k: "persist_rows cache (oi # rows) = Ok (?new # rows', k)"
    using IH(1) h by (simp add: hash_from_hex_to_hex read_index [OF l] Let_def)
  have "find (\<lambda>oi. oi_channel_id oi = to_hex c) (?new # rows') =
      map_option (\<lambda>oi. oi\<lparr>oi_index := u64_to_be (case cache c of Some v \<Rightarrow> max v (u64_from_be (oi_index oi)) | None \<Rightarrow> u64_from_be (oi_index oi))\<rparr>)
        (find (\<lambda>oi. oi_channel_id oi = to_hex c) (oi # rows))" for c
    using IH(4) h(2) by auto
  then show ?case using k IH(2,3) by (intro exI [of _ "?new # rows'"] exI [of _ k] conjI) (simp, simp, simp, blast)
qed simp

lemma persist_refines:
  assumes "outgoing_ok db"
  shows "\<exists>db' n. persist_outgoing_ticket_indices db = Ok (db', n) \<and> outgoing_ok db' \<and> current_index db' = current_index db
     \<and> stored_index db' = (\<lambda>c. max (stored_index db c) (current_index db c))"
proof -
  let ?key = "\<lambda>c oi. oi_channel_id oi = to_hex c"
  obtain rows n where r: "persist_rows (td_ticket_index db) (td_outgoing db) = Ok (rows, n)"
    "map oi_channel_id rows = map oi_channel_id (td_outgoing db)" "\<forall>oi \<in> set rows. length (oi_index oi) = 8"
    "\<And>c. find (?key c) rows =
          map_option (\<lambda>oi. oi\<lparr>oi_index := u64_to_be (case td_ticket_index db c of Some v \<Rightarrow> max v (u64_from_be (oi_index oi)) | None \<Rightarrow> u64_from_be (oi_index oi))\<rparr>)
            (find (?key c) (td_outgoing db))"
    using persist_rows_eq [of "td_outgoing db" "td_ticket_index db"] assms unfolding outgoing_ok_def by blast
  let ?db' = "db\<lparr>td_outgoing := rows\<rparr>"
  have keys: "oi_channel_id ` set rows = oi_channel_id ` set (td_outgoing db)" using r(2) by (metis set_map)
  have ok: "outgoing_ok ?db'"
  proof -
    have "\<exists>h. length h = hash_size \<and> oi_channel_id oi = to_hex h" if "oi \<in> set rows" for oi
    proof -
      have "oi_channel_id oi \<in> oi_channel_id ` set (td_outgoing db)" using that unfolding keys [symmetric] by (rule imageI)
      then obtain oi' where "oi' \<in> set (td_outgoing db)" "oi_channel_id oi = oi_channel_id oi'" by (rule imageE)
      then show ?thesis using assms by (simp add: outgoing_ok_def)
    qed
    then show ?thesis using assms r(2,3) unfolding outgoing_ok_def keys [symmetric] by simp
  qed
  have cached: "find (?key c) (td_outgoing db) \<noteq> None" if "td_ticket_index db c \<noteq> None" for c
    using that assms unfolding find_None_iff_key by (auto simp: outgoing_ok_def)
  have st: "stored_index ?db' c = max (stored_index db c) (current_index db c)" for c
    using r(4) [of c] cached [of c]
    by (cases "td_ticket_index db c"; cases "find (?key c) (td_outgoing db)")
       (auto simp: stored_index_def current_index_def max.commute)
  have "current_index ?db' c = current_index db c" for c
    using st [of c] by (cases "td_ticket_index db c") (simp_all add: current_index_def)
  then have "current_index ?db' = current_index db" by blast
  moreover have "persist_outgoing_ticket_indices db = Ok (?db', n)"
    by (simp add: persist_outgoing_ticket_indices_def r(1))
  ultimately show ?thesis using ok st by blast
qed

lemma restart_index: "current_index (td_restart db) = stored_index db"
  by (rule ext) (simp add: current_index_def td_restart_def stored_index_def)

text \<open>C23: the operations on outgoing ticket indices implement a map from channels to the next index: compare-and-set takes the
maximum, incrementing adds one and returns the value before, resetting sets 0, and each leaves the other channels alone.
Persisting does not change the map, and after it a restart keeps, for every channel, the larger one of the current and the
previously stored index.\<close>
theorem outgoing_index_refines:
  assumes "outgoing_ok db" and "length c = hash_size"
  shows "(\<exists>db'. compare_and_set_outgoing_ticket_index c i db = Ok (db', current_index db c) \<and> outgoing_ok db'
            \<and> current_index db' = (current_index db)(c := max (current_index db c) i))
     \<and> (\<exists>db'. increment_outgoing_ticket_index c db = Ok (db', current_index db c) \<and> outgoing_ok db'
            \<and> current_index db' = (current_index db)(c := current_index db c + 1))
     \<and> (\<exists>db'. reset_outgoing_ticket_index c db = Ok (db', current_index db c) \<and> outgoing_ok db'
            \<and> current_index db' = (current_index db)(c := 0))
     \<and> (\<exists>db' n. persist_outgoing_ticket_indices db = Ok (db', n) \<and> outgoing_ok db' \<and> current_index db' = current_index db
            \<and> current_index (td_restart db') = (\<lambda>d. max (stored_index db d) (current_index db d)))"
  using with_outgoing_index_refines [OF assms, of "\<lambda>v. max v i"] with_outgoing_index_refines [OF assms, of "\<lambda>v. v + 1"]
    with_outgoing_index_refines [OF assms, of "\<lambda>_. 0"] persist_refines [OF assms(1)]
  unfolding compare_and_set_outgoing_ticket_index_def increment_outgoing_ticket_index_def
    reset_outgoing_ticket_index_def restart_index by metis

text \<open>A reset is lost in a restart: persisting keeps the larger index stored before it.\<close>

lemma reset_index_not_persisted:
  assumes "outgoing_ok db" and "length c = hash_size"
  shows "\<exists>db1 v db2 n. reset_outgoing_ticket_index c db = Ok (db1, v) \<and> current_index db1 c = 0
     \<and> persist_outgoing_ticket_indices db1 = Ok (db2, n) \<and> current_index (td_restart db2) c = stored_index db c"
proof -
  obtain db1 where db1: "reset_outgoing_ticket_index c db = Ok (db1, current_index db c)" "outgoing_ok db1"
    "current_index db1 = (current_index db)(c := 0)" "stored_index db1 = stored_index db"
    using with_outgoing_index_refines [OF assms, of "\<lambda>_. 0"] unfolding reset_outgoing_ticket_index_def by auto
  obtain db2 n where "persist_outgoing_ticket_indices db1 = Ok (db2, n)"
    "stored_index db2 = (\<lambda>d. max (stored_index db1 d) (current_index db1 d))"
    using persist_refines [OF db1(2)] by blast
  with db1 show ?thesis by (auto simp: restart_index)
qed

section \<open>The unrealized value of a channel\<close>

definition ticket_key :: "acknowledged_ticket \<Rightarrow> hash \<times> u256" where
  "ticket_key a = (tk_channel_id (vt_ticket (at_ticket a)), ucast (tk_channel_epoch (vt_ticket (at_ticket a))))"

definition ticket_value :: "acknowledged_ticket \<Rightarrow> nat" where
  "ticket_value a = unat (tk_amount (vt_ticket (at_ticket a)))"

definition stored_value :: "ticket_db \<Rightarrow> hash \<times> u256 \<Rightarrow> nat" where
  "stored_value db k = rows_value (filter (into_condition (sel_new (fst k) (snd k))) (td_tickets db))"

fun queued_op_value :: "hash \<times> u256 \<Rightarrow> ticket_operation \<Rightarrow> nat" where
  "queued_op_value k (Insert a) = (if ticket_key a = k then ticket_value a else 0)"
| "queued_op_value k (Replace a) = 0"

definition queued_value :: "ticket_db \<Rightarrow> hash \<times> u256 \<Rightarrow> nat" where
  "queued_value db k = (case td_queue db of Some q \<Rightarrow> sum_list (map (queued_op_value k) q) | None \<Rightarrow> 0)"

text \<open>A cached value is the value of the stored and the queued tickets; nothing is queued for a channel without a cached value.\<close>

definition unrealized_ok :: "ticket_db \<Rightarrow> bool" where
  "unrealized_ok db \<longleftrightarrow>
     (\<forall>k. case td_unrealized db k of Some v \<Rightarrow> unat v = stored_value db k + queued_value db k | None \<Rightarrow> queued_value db k = 0)"

lemma into_condition_sel_new:
  "into_condition (sel_new c e) m \<longleftrightarrow> tm_channel_id m = to_hex c \<and> tm_channel_epoch m = u256_to_be e"
  by (simp add: into_condition_def sel_new_def index_condition_def)

lemma unrealized_fold:
  "unat v + rows_value ms < 2 ^ 256 \<Longrightarrow>
   unat (foldl (\<lambda>value t. bal_add value (bal_from_be (tm_amount t))) v ms) = unat v + rows_value ms"
proof (induction ms arbitrary: v)
  case (Cons m ms)
  have "unat (bal_add v (bal_from_be (tm_amount m))) = unat v + row_value m"
    using Cons.prems by (simp add: row_value_def)
  with Cons show ?case by (simp add: add.assoc del: unat_bal_add)
qed simp

definition unrealized_now :: "ticket_db \<Rightarrow> hash \<times> u256 \<Rightarrow> hopr_balance" where
  "unrealized_now db k = (case td_unrealized db k of Some v \<Rightarrow> v | None \<Rightarrow> of_nat (stored_value db k))"

lemma unrealized_value_Ok:
  assumes "stored_value db (c, e) < 2 ^ 256"
  shows "unrealized_value (sel_new c e) db
     = Ok (db\<lparr>td_unrealized := (td_unrealized db)((c, e) \<mapsto> unrealized_now db (c, e))\<rparr>, unrealized_now db (c, e))"
proof -
  let ?ms = "filter (into_condition (sel_new c e)) (td_tickets db)"
  have single: "is_single_channel (sel_new c e)" "hd (sel_channel_identifiers (sel_new c e)) = (c, e)"
    by (simp_all add: is_single_channel_def sel_new_def)
  have "foldl (\<lambda>value t. bal_add value (bal_from_be (tm_amount t))) 0 ?ms = of_nat (stored_value db (c, e))"
    using unrealized_fold [of 0 ?ms] assms by (simp add: word_unat_eq_iff stored_value_def unat_of_nat)
  then show ?thesis
    by (cases "td_unrealized db (c, e)")
       (simp_all add: unrealized_value_def single unrealized_now_def Let_def fun_upd_idem)
qed

lemma account_unrealized_Ok:
  assumes "stored_value db (ticket_key a) < 2 ^ 256"
  shows "account_unrealized a db
     = Ok (db\<lparr>td_unrealized := (td_unrealized db)(ticket_key a \<mapsto> bal_add (unrealized_now db (ticket_key a)) (tk_amount (vt_ticket (at_ticket a))))\<rparr>)"
  using unrealized_value_Ok [OF assms [unfolded ticket_key_def]]
  by (simp add: account_unrealized_def ticket_key_def Let_def)

lemma stored_value_append:
  assumes "ticket_model_of a = (Ok m :: ('e, ticket_model) result)"
  shows "rows_value (filter (into_condition (sel_new c e)) [m\<lparr>tm_id := i\<rparr>]) = (if ticket_key a = (c, e) then ticket_value a else 0)"
  using assms
  by (auto simp: ticket_model_of_def Let_def ticket_key_def ticket_value_def row_value_def into_condition_sel_new bal_from_be_def
      split: option.splits)

lemma run_insert:
  assumes m: "ticket_model_of a = (Ok m :: (db_error, ticket_model) result)" and new: "tm_key m \<notin> tm_key ` set (td_tickets db)"
  shows "\<exists>db'. run_operation (Insert a) db = Ok db' \<and> td_unrealized db' = td_unrealized db \<and> td_queue db' = td_queue db
     \<and> (\<forall>k. stored_value db' k = stored_value db k + (if ticket_key a = k then ticket_value a else 0))"
proof -
  have v: "stored_value db'' k = stored_value db k + (if ticket_key a = k then ticket_value a else 0)"
    if "td_tickets db'' = td_tickets db @ [m\<lparr>tm_id := td_next_id db\<rparr>]" for db'' k
    using that stored_value_append [OF m, of "fst k" "snd k" "td_next_id db"] by (simp add: stored_value_def)
  show ?thesis
    using m new v
    by (auto simp: insert_row_def Let_def save_stats_def split: option.splits)
qed

text \<open>In a state in which the cached unrealized value of each channel is the value of its stored and queued tickets, the
insertion of a ticket as one step adds its value, and storing a queued new ticket changes nothing. Marking with tickets in the
queue, replacing tickets and the interleaving of \<open>unrealized_value_counted_twice\<close> are not covered: they break the equation.\<close>
lemma unrealized_value_tracks:
  assumes ok: "unrealized_ok db" and q: "td_queue db = Some q"
  shows "(stored_value db (ticket_key a) + queued_value db (ticket_key a) + ticket_value a < 2 ^ 256
          \<longrightarrow> (\<exists>db'. insert_ticket a db = Ok db' \<and> unrealized_ok db' \<and> td_queue db' = Some (q @ [Insert a])))
     \<and> (q = Insert a # rest \<and> ticket_model_of a = (Ok m :: (db_error, ticket_model) result) \<and> tm_key m \<notin> tm_key ` set (td_tickets db)
          \<longrightarrow> (\<exists>db'. process_ticket db = Ok db' \<and> unrealized_ok db' \<and> td_queue db' = Some rest \<and> td_notified db' = td_notified db @ [a]))"
proof (intro conjI impI)
  let ?k = "ticket_key a"
  assume sm: "stored_value db ?k + queued_value db ?k + ticket_value a < 2 ^ 256"
  let ?db1 = "db\<lparr>td_queue := Some (q @ [Insert a])\<rparr>"
  let ?amount = "tk_amount (vt_ticket (at_ticket a))"
  define db2 where "db2 = ?db1\<lparr>td_unrealized := (td_unrealized db)(?k \<mapsto> bal_add (unrealized_now db ?k) ?amount)\<rparr>"
  have sv: "stored_value ?db1 k = stored_value db k" "stored_value db2 k = stored_value db k" for k
    by (simp_all add: stored_value_def db2_def)
  have qv: "queued_value db2 k = queued_value db k + (if ?k = k then ticket_value a else 0)" for k
    by (simp add: queued_value_def q db2_def)
  have "unrealized_now ?db1 ?k = unrealized_now db ?k" by (cases "td_unrealized db ?k") (simp_all add: unrealized_now_def sv)
  then have ins: "insert_ticket a db = Ok db2"
    using account_unrealized_Ok [of ?db1 a] sm sv by (simp add: insert_ticket_def enqueue_operation_def q db2_def)
  have "unat (unrealized_now db ?k) = stored_value db ?k + queued_value db ?k"
    using ok [unfolded unrealized_ok_def, rule_format, of ?k] sm
    by (cases "td_unrealized db ?k") (simp_all add: unrealized_now_def unat_of_nat)
  then have uv: "unat (bal_add (unrealized_now db ?k) ?amount) = stored_value db ?k + queued_value db ?k + ticket_value a"
    using sm by (simp add: ticket_value_def)
  have "unrealized_ok db2"
    unfolding unrealized_ok_def
  proof
    fix k
    show "case td_unrealized db2 k of Some v \<Rightarrow> unat v = stored_value db2 k + queued_value db2 k | None \<Rightarrow> queued_value db2 k = 0"
      unfolding sv qv using uv ok [unfolded unrealized_ok_def, rule_format, of k]
      by (cases "k = ?k"; cases "td_unrealized db k") (simp_all add: db2_def del: unat_bal_add)
  qed
  with ins show "\<exists>db'. insert_ticket a db = Ok db' \<and> unrealized_ok db' \<and> td_queue db' = Some (q @ [Insert a])"
    by (simp add: db2_def)
next
  assume asm: "q = Insert a # rest \<and> ticket_model_of a = (Ok m :: (db_error, ticket_model) result) \<and> tm_key m \<notin> tm_key ` set (td_tickets db)"
  let ?db1 = "db\<lparr>td_queue := Some rest\<rparr>"
  obtain db2 where db2: "run_operation (Insert a) ?db1 = Ok db2" "td_unrealized db2 = td_unrealized db" "td_queue db2 = Some rest"
    "\<And>k. stored_value db2 k = stored_value db k + (if ticket_key a = k then ticket_value a else 0)"
    using run_insert [of a m ?db1] asm by (auto simp: stored_value_def)
  have nt: "td_notified db2 = td_notified db"
    using db2(1) by (auto simp: insert_row_def Let_def save_stats_def and_then_Inr_iff split: option.splits if_splits)
  let ?db3 = "db2\<lparr>td_notified := td_notified db2 @ [a]\<rparr>"
  have "process_ticket db = Ok ?db3" using db2(1) asm by (simp add: process_ticket_def q)
  moreover have "unrealized_ok ?db3"
    unfolding unrealized_ok_def
  proof
    fix k
    have "queued_value db k = (if ticket_key a = k then ticket_value a else 0) + queued_value ?db3 k"
      using asm q db2(3) by (simp add: queued_value_def)
    moreover have "stored_value ?db3 k = stored_value db k + (if ticket_key a = k then ticket_value a else 0)"
      using db2(4) [of k] by (simp add: stored_value_def)
    ultimately show "case td_unrealized ?db3 k of Some v \<Rightarrow> unat v = stored_value ?db3 k + queued_value ?db3 k
        | None \<Rightarrow> queued_value ?db3 k = 0"
      using ok [unfolded unrealized_ok_def, rule_format, of k] db2(2) by (cases "td_unrealized db k") simp_all
  qed
  ultimately show "\<exists>db'. process_ticket db = Ok db' \<and> unrealized_ok db' \<and> td_queue db' = Some rest \<and> td_notified db' = td_notified db @ [a]"
    using db2(3) nt by simp
qed

text \<open>
  When the task stores the ticket between the send and the accounting of \<open>insert_ticket\<close>, and no value was cached, the ticket is
  counted twice.
\<close>

lemma unrealized_value_counted_twice:
  assumes q: "td_queue db = Some []" and none: "td_unrealized db (ticket_key a) = None"
    and m: "ticket_model_of a = (Ok m :: (db_error, ticket_model) result)" and new: "tm_key m \<notin> tm_key ` set (td_tickets db)"
    and sm: "stored_value db (ticket_key a) + 2 * ticket_value a < 2 ^ 256"
  shows "\<exists>db1 db2 db3 v. enqueue_operation (Insert a) db = Ok db1 \<and> process_ticket db1 = Ok db2
     \<and> account_unrealized a db2 = Ok db3 \<and> td_queue db3 = Some [] \<and> td_unrealized db3 (ticket_key a) = Some v
     \<and> unat v = stored_value db3 (ticket_key a) + ticket_value a"
proof -
  let ?k = "ticket_key a" and ?amount = "tk_amount (vt_ticket (at_ticket a))"
  let ?db1 = "db\<lparr>td_queue := Some [Insert a]\<rparr>"
  obtain r where r: "run_operation (Insert a) (db\<lparr>td_queue := Some []\<rparr>) = Ok r" "td_unrealized r = td_unrealized db"
    "td_queue r = Some []" "stored_value r ?k = stored_value db ?k + ticket_value a"
    using run_insert [of a m "db\<lparr>td_queue := Some []\<rparr>"] m new by (auto simp: stored_value_def)
  let ?db2 = "r\<lparr>td_notified := td_notified r @ [a]\<rparr>"
  have p: "process_ticket ?db1 = Ok ?db2" using r(1) by (simp add: process_ticket_def)
  have sv: "stored_value ?db2 ?k = stored_value db ?k + ticket_value a" using r(4) by (simp add: stored_value_def)
  let ?v = "bal_add (unrealized_now ?db2 ?k) ?amount"
  have "unat (unrealized_now ?db2 ?k) = stored_value db ?k + ticket_value a"
    using sm none r(2) unfolding unrealized_now_def sv by (simp add: unat_of_nat del: of_nat_add)
  then have uv: "unat ?v = stored_value db ?k + 2 * ticket_value a"
    using sm by (simp add: ticket_value_def)
  have "account_unrealized a ?db2 = Ok (?db2\<lparr>td_unrealized := (td_unrealized db)(?k \<mapsto> ?v)\<rparr>)"
    using account_unrealized_Ok [of ?db2 a] sm sv r(2) by simp
  moreover have "stored_value (?db2\<lparr>td_unrealized := u\<rparr>) ?k = stored_value db ?k + ticket_value a" for u
    using sv by (simp add: stored_value_def)
  ultimately show ?thesis using p uv r(3)
    by (intro exI [of _ ?db1] exI [of _ ?db2] exI [of _ "?db2\<lparr>td_unrealized := (td_unrealized db)(?k \<mapsto> ?v)\<rparr>"] exI [of _ ?v])
       (simp add: enqueue_operation_def q del: unat_bal_add)
qed

section \<open>The invariant of the ticket store\<close>

definition row_of :: "('sk, 'vrf, 'rnd) crypto \<Rightarrow> ticket_model \<Rightarrow> acknowledged_ticket \<Rightarrow> bool" where
  "row_of cr m a \<longleftrightarrow> at_storable cr a \<and> ticket_model_of a = (Ok (m\<lparr>tm_id := 0\<rparr>) :: (unit, ticket_model) result)"

definition td_inv :: "('sk, 'vrf, 'rnd) crypto \<Rightarrow> ticket_db \<Rightarrow> bool" where
  "td_inv cr db \<longleftrightarrow>
     distinct (map tm_key (td_tickets db)) \<and> distinct (map tm_id (td_tickets db))
     \<and> (\<forall>m \<in> set (td_tickets db). tm_id m < td_next_id db \<and> (\<exists>a. row_of cr m a))
     \<and> (\<forall>q. td_queue db = Some q \<longrightarrow> (\<forall>ticket_op \<in> set q. at_storable cr (op_ticket ticket_op)))
     \<and> distinct (map st_channel_id (td_stats db))"

lemma ticket_model_of_any:
  "ticket_model_of a = (Ok m :: ('e, ticket_model) result) \<Longrightarrow> ticket_model_of a = (Ok m :: ('f, ticket_model) result)"
  by (auto simp: ticket_model_of_def Let_def split: option.splits)

lemma ticket_model_of_storable:
  "at_storable cr a \<Longrightarrow> \<exists>m. ticket_model_of a = (Ok m :: ('e, ticket_model) result) \<and> tm_id m = 0 \<and> (\<forall>i. row_of cr (m\<lparr>tm_id := i\<rparr>) a)"
  unfolding row_of_def by (auto simp: at_storable_def ticket_model_of_def Let_def)

lemma row_of_state: "row_of cr m a \<Longrightarrow> row_of cr (m\<lparr>tm_state := status_code st\<rparr>) (a\<lparr>at_status := st\<rparr>)"
  unfolding row_of_def by (cases m) (auto simp: at_storable_def ticket_model_of_def Let_def split: option.splits)

lemma td_inv_filter: "td_inv cr db \<Longrightarrow> td_inv cr (db\<lparr>td_tickets := filter P (td_tickets db)\<rparr>)"
  unfolding td_inv_def by (auto simp: distinct_map_filter)

lemma td_inv_insert_row:
  assumes "td_inv cr db" and "insert_row m db = Ok db'" and "row_of cr m a"
  shows "td_inv cr db'"
proof -
  have "row_of cr (m\<lparr>tm_id := i\<rparr>) a" for i using assms(3) by (simp add: row_of_def)
  moreover have "tm_key (m\<lparr>tm_id := i\<rparr>) = tm_key m" for i by (simp add: tm_key_def)
  moreover have "tm_key m \<notin> tm_key ` set (td_tickets db)"
    "db' = db\<lparr>td_tickets := td_tickets db @ [m\<lparr>tm_id := td_next_id db\<rparr>], td_next_id := td_next_id db + 1\<rparr>"
    using assms(2) by (auto simp: insert_row_def split: if_splits)
  ultimately show ?thesis using assms(1) unfolding td_inv_def by (fastforce simp: less_Suc_eq)
qed

lemma map_keys_save: "map st_channel_id (td_stats (save_stats st db)) = map st_channel_id (td_stats db)"
  by (auto simp: save_stats_def)

lemma td_inv_save_stats [simp]: "td_inv cr (save_stats st db) = td_inv cr db"
  unfolding td_inv_def map_keys_save by (simp add: save_stats_def)

lemma td_inv_add_stats:
  "td_inv cr db \<Longrightarrow> find_stats c db = None \<Longrightarrow> st_channel_id st = to_hex c \<Longrightarrow> td_inv cr (db\<lparr>td_stats := td_stats db @ [st]\<rparr>)"
  unfolding td_inv_def find_stats_def find_None_iff_key by auto

lemma td_inv_find_stats: "td_inv cr db \<Longrightarrow> find_stats_for_channel c db = (st, db') \<Longrightarrow> td_inv cr db'"
  using td_inv_add_stats [of cr db c "default_stats c"]
  by (auto simp: find_stats_for_channel_def default_stats_def split: option.splits)

lemma td_inv_frame [simp]:
  "td_inv cr (db\<lparr>td_unrealized := u\<rparr>) = td_inv cr db" "td_inv cr (db\<lparr>td_ticket_index := x\<rparr>) = td_inv cr db"
  "td_inv cr (db\<lparr>td_outgoing := y\<rparr>) = td_inv cr db" "td_inv cr (db\<lparr>td_notified := n\<rparr>) = td_inv cr db"
  by (simp_all add: td_inv_def)

lemma td_inv_mark_loop: "mark_tickets_loop s mk ids n db = Ok (db', k) \<Longrightarrow> td_inv cr db \<Longrightarrow> td_inv cr db'"
proof (induction ids arbitrary: n db)
  case (Cons i ids)
  obtain c e where i: "i = (c, e)" by fastforce
  obtain cnt v where g: "get_tickets_value_int (just_on_channel c e s) db = (cnt, v)" by fastforce
  show ?case
  proof (cases "0 < cnt")
    case False
    then show ?thesis using Cons g by (simp add: i Let_def)
  next
    case True
    let ?db0 = "db\<lparr>td_tickets := filter (\<lambda>m. \<not> into_condition (just_on_channel c e s) m) (td_tickets db)\<rparr>"
    obtain st db1 where st: "find_stats_for_channel c ?db0 = (st, db1)" by fastforce
    have "td_inv cr db1" by (rule td_inv_find_stats [OF td_inv_filter [OF Cons.prems(2)] st])
    then have "td_inv cr ((save_stats st' db1)\<lparr>td_unrealized := u\<rparr>)" for st' u by simp
    then show ?thesis
      using Cons.prems(1) Cons.IH True g st by (auto simp: i Let_def and_then_Inr_iff split: if_splits)
  qed
qed simp

lemma td_inv_run_operation:
  assumes "td_inv cr db" and "run_operation ticket_op db = Ok db'" and "at_storable cr (op_ticket ticket_op)"
  shows "td_inv cr db'"
proof (cases ticket_op)
  case (Insert a)
  obtain m where m: "ticket_model_of a = (Ok m :: (db_error, ticket_model) result)" "row_of cr m a"
    using ticket_model_of_storable [of cr a] assms(3) Insert by (metis op_ticket.simps(1) ticket_model.surjective ticket_model.update_convs(1) ticket_model.select_convs(1))
  obtain db1 where db1: "insert_row m db = Ok db1" using assms(2) m by (auto simp: Insert and_then_Inr_iff Let_def)
  have "td_inv cr db1" by (rule td_inv_insert_row [OF assms(1) db1 m(2)])
  then show ?thesis
    using assms(2) m db1 td_inv_add_stats [of cr db1 "tk_channel_id (vt_ticket (at_ticket a))"]
    by (auto simp: Insert Let_def default_stats_def split: option.splits)
next
  case (Replace a)
  obtain m where m: "ticket_model_of a = (Ok m :: (db_error, ticket_model) result)" "row_of cr m a"
    using ticket_model_of_storable [of cr a] assms(3) Replace by (metis op_ticket.simps(2) ticket_model.surjective ticket_model.update_convs(1) ticket_model.select_convs(1))
  show ?thesis
    using assms(2) m(1) td_inv_insert_row [OF td_inv_filter [OF assms(1)] _ m(2)]
    by (auto simp: Replace Let_def split: if_splits)
qed

lemma td_inv_process:
  assumes "td_inv cr db" and "process_ticket db = Ok db'"
  shows "td_inv cr db'"
proof (cases "\<exists>ticket_op q. td_queue db = Some (ticket_op # q)")
  case True
  then obtain ticket_op q where q: "td_queue db = Some (ticket_op # q)" by blast
  have inv: "td_inv cr (db\<lparr>td_queue := Some q\<rparr>)" and op_ok: "at_storable cr (op_ticket ticket_op)"
    using assms(1) q by (auto simp: td_inv_def)
  show ?thesis
    using assms(2) inv td_inv_run_operation [OF inv _ op_ok]
    by (auto simp: process_ticket_def q Let_def split: sum.splits failure.splits)
next
  case False
  then show ?thesis using assms by (auto simp: process_ticket_def split: option.splits list.splits)
qed

lemma td_inv_map:
  assumes inv: "td_inv cr db"
    and f: "\<And>m. m \<in> set (td_tickets db) \<Longrightarrow> tm_key (f m) = tm_key m \<and> tm_id (f m) = tm_id m \<and> (\<exists>a. row_of cr (f m) a)"
  shows "td_inv cr (db\<lparr>td_tickets := map f (td_tickets db)\<rparr>)"
proof -
  have gen: "td_inv cr (db\<lparr>td_tickets := ts\<rparr>)"
    if "map tm_key ts = map tm_key (td_tickets db)" "map tm_id ts = map tm_id (td_tickets db)"
      "\<forall>m \<in> set ts. tm_id m < td_next_id db \<and> (\<exists>a. row_of cr m a)" for ts
    using inv that by (simp add: td_inv_def)
  show ?thesis by (rule gen) (use inv f in \<open>simp_all add: td_inv_def\<close>)
qed

lemma td_inv_update_states: "td_inv cr db \<Longrightarrow> td_inv cr (fst (update_ticket_states s st db))"
  unfolding update_ticket_states_def fst_conv
proof (rule td_inv_map)
  fix m
  assume "td_inv cr db" and "m \<in> set (td_tickets db)"
  then obtain a where a: "row_of cr m a" by (auto simp: td_inv_def)
  show "tm_key (if into_condition s m then m\<lparr>tm_state := status_code st\<rparr> else m) = tm_key m
      \<and> tm_id (if into_condition s m then m\<lparr>tm_state := status_code st\<rparr> else m) = tm_id m
      \<and> (\<exists>a. row_of cr (if into_condition s m then m\<lparr>tm_state := status_code st\<rparr> else m) a)"
    using a row_of_state [OF a, of st] by (cases "into_condition s m") (auto simp: tm_key_def)
qed

lemma td_inv_upsert:
  assumes "td_inv cr db" and "at_storable cr a" and "upsert_ticket a db = Ok db'"
  shows "td_inv cr db'"
proof -
  obtain m where m: "ticket_model_of a = (Ok m :: (db_error, ticket_model) result)" "\<And>i. row_of cr (m\<lparr>tm_id := i\<rparr>) a"
    and "tm_id m = 0" using ticket_model_of_storable [OF assms(2)] by blast
  then have m0: "row_of cr m a" by (metis ticket_model.surjective ticket_model.update_convs(1))
  let ?t = "vt_ticket (at_ticket a)"
  let ?s = "with_index (tk_index ?t) (sel_new (tk_channel_id ?t) (ucast (tk_channel_epoch ?t)))"
  have key: "tm_key m = (to_hex (tk_channel_id ?t), u256_to_be (ucast (tk_channel_epoch ?t)), u64_to_be (tk_index ?t))"
    using m(1) by (auto simp: tm_key_def ticket_model_of_def Let_def split: option.splits)
  have cond: "into_condition ?s x \<longleftrightarrow> tm_key x = tm_key m" for x
    unfolding key by (auto simp: with_index_def sel_new_def into_condition_def index_condition_def tm_key_def)
  show ?thesis
  proof (cases "find (into_condition ?s) (td_tickets db)")
    case None
    then show ?thesis using assms(3) m(1) td_inv_insert_row [OF assms(1) _ m0] by (simp add: upsert_ticket_def Let_def)
  next
    case (Some row)
    then have row: "row \<in> set (td_tickets db)" "tm_key row = tm_key m" by (auto simp: find_Some_iff cond)
    let ?f = "\<lambda>x. if tm_id x = tm_id row then m\<lparr>tm_id := tm_id row\<rparr> else x"
    have same: "x = row" if "x \<in> set (td_tickets db)" "tm_id x = tm_id row" for x
      using that row(1) assms(1) unfolding td_inv_def distinct_map by (meson inj_onD)
    have "tm_key (?f x) = tm_key x \<and> tm_id (?f x) = tm_id x \<and> (\<exists>b. row_of cr (?f x) b)" if x: "x \<in> set (td_tickets db)" for x
    proof (cases "tm_id x = tm_id row")
      case True
      then have "x = row" by (rule same [OF x])
      then show ?thesis using row(2) m(2) [of "tm_id row"] by (auto simp: tm_key_def)
    next
      case False
      then show ?thesis using x assms(1) by (auto simp: td_inv_def)
    qed
    from td_inv_map [OF assms(1) this] show ?thesis using assms(3) m(1) Some by (simp add: upsert_ticket_def Let_def)
  qed
qed

text \<open>The operations on the store; the tickets handed to it are acknowledged tickets of the node.\<close>

inductive td_step :: "('sk, 'vrf, 'rnd) crypto \<Rightarrow> ticket_db \<Rightarrow> ticket_db \<Rightarrow> bool" for cr where
  td_start: "start_ticket_processing db = Ok db' \<Longrightarrow> td_step cr db db'"
| td_insert: "at_storable cr a \<Longrightarrow> insert_ticket a db = Ok db' \<Longrightarrow> td_step cr db db'"
| td_replace: "at_storable cr a \<Longrightarrow> replace_tickets a db = Ok db' \<Longrightarrow> td_step cr db db'"
| td_process: "process_ticket db = Ok db' \<Longrightarrow> td_step cr db db'"
| td_mark: "mark_tickets_as s mk db = Ok (db', n) \<Longrightarrow> td_step cr db db'"
| td_unsaved: "mark_unsaved_ticket_rejected t db = Ok db' \<Longrightarrow> td_step cr db db'"
| td_update: "td_step cr db (fst (update_ticket_states s st db))"
| td_upsert: "at_storable cr a \<Longrightarrow> upsert_ticket a db = Ok db' \<Longrightarrow> td_step cr db db'"
| td_value: "unrealized_value s db = Ok (db', v) \<Longrightarrow> td_step cr db db'"
| td_reset_stats: "td_step cr db (reset_ticket_statistics db)"
| td_index: "with_outgoing_index f c db = Ok (db', i) \<Longrightarrow> td_step cr db db'"
| td_persist: "persist_outgoing_ticket_indices db = Ok (db', n) \<Longrightarrow> td_step cr db db'"

lemma td_inv_enqueue: "td_inv cr db \<Longrightarrow> at_storable cr (op_ticket ticket_op) \<Longrightarrow> enqueue_operation ticket_op db = Ok db' \<Longrightarrow> td_inv cr db'"
  by (auto simp: enqueue_operation_def td_inv_def split: option.splits)

lemma td_inv_value: "unrealized_value s db = Ok (db', v) \<Longrightarrow> td_inv cr db \<Longrightarrow> td_inv cr db'"
  by (auto simp: unrealized_value_def Let_def split: if_splits option.splits)

lemma td_inv_insert: "td_inv cr db \<Longrightarrow> at_storable cr a \<Longrightarrow> insert_ticket a db = Ok db' \<Longrightarrow> td_inv cr db'"
  using td_inv_enqueue [of cr db "Insert a"] td_inv_value [of _ _ _ _ cr]
  by (fastforce simp: insert_ticket_def account_unrealized_def Let_def and_then_Inr_iff)

lemma td_inv_index: "with_outgoing_index f c db = Ok (db', i) \<Longrightarrow> td_inv cr db \<Longrightarrow> td_inv cr db'"
  by (auto simp: with_outgoing_index_def get_outgoing_ticket_index_def and_then_Inr_iff split: option.splits)

lemma td_inv_start: "start_ticket_processing db = Ok db' \<Longrightarrow> td_inv cr db \<Longrightarrow> td_inv cr db'"
  by (auto simp: start_ticket_processing_def td_inv_def split: option.splits)

lemma td_inv_reset: "td_inv cr db \<Longrightarrow> td_inv cr (reset_ticket_statistics db)"
  by (simp add: reset_ticket_statistics_def td_inv_def)

lemma td_inv_unsaved: "mark_unsaved_ticket_rejected t db = Ok db' \<Longrightarrow> td_inv cr db \<Longrightarrow> td_inv cr db'"
  using td_inv_find_stats by (auto simp: mark_unsaved_ticket_rejected_def and_then_Inr_iff split: prod.splits)

lemma td_inv_replace: "at_storable cr a \<Longrightarrow> replace_tickets a db = Ok db' \<Longrightarrow> td_inv cr db \<Longrightarrow> td_inv cr db'"
  using td_inv_enqueue [of cr db "Replace a"] by (simp add: replace_tickets_def)

lemma td_inv_mark: "mark_tickets_as s mk db = Ok (db', n) \<Longrightarrow> td_inv cr db \<Longrightarrow> td_inv cr db'"
  unfolding mark_tickets_as_def by (rule td_inv_mark_loop)

lemma td_inv_persist: "persist_outgoing_ticket_indices db = Ok (db', n) \<Longrightarrow> td_inv cr db \<Longrightarrow> td_inv cr db'"
  by (auto simp: persist_outgoing_ticket_indices_def map_res_Inr_iff)

lemmas td_inv_ops = td_inv_start td_inv_insert td_inv_replace td_inv_process td_inv_mark td_inv_unsaved td_inv_update_states
  td_inv_upsert td_inv_value td_inv_reset td_inv_index td_inv_persist

lemma td_step_inv: "td_step cr db db' \<Longrightarrow> td_inv cr db \<Longrightarrow> td_inv cr db'"
  by (induction rule: td_step.induct) (erule (2) td_inv_ops | erule (1) td_inv_ops | erule td_inv_ops)+

interpretation ticket_store: inductive_invariant "\<lambda>db. db = td_new" "td_step cr" "td_inv cr"
proof
  show "db = td_new \<Longrightarrow> td_inv cr db" for db by (simp add: td_new_def td_inv_def)
qed (rule td_step_inv)

lemma row_of_read:
  assumes "row_of cr m a"
  shows "ticket_of_model cr m = Ok a"
    and "tm_key m = (to_hex (fst (ticket_key a)), u256_to_be (snd (ticket_key a)), u64_to_be (tk_index (vt_ticket (at_ticket a))))"
proof -
  note r = assms [unfolded row_of_def]
  obtain m' where "ticket_model_of a = (Ok m' :: (db_entity_error, ticket_model) result)"
    "ticket_of_model cr (m'\<lparr>tm_id := tm_id m\<rparr>) = Ok a"
    using ticket_row_read [of cr a "tm_id m"] r by blast
  moreover from this(1) have "m' = m\<lparr>tm_id := 0\<rparr>" using r ticket_model_of_any by (metis sum.inject(2))
  ultimately show "ticket_of_model cr m = Ok a" by simp
  show "tm_key m = (to_hex (fst (ticket_key a)), u256_to_be (snd (ticket_key a)), u64_to_be (tk_index (vt_ticket (at_ticket a))))"
    using r by (cases m) (auto simp: tm_key_def ticket_model_of_def ticket_key_def Let_def split: option.splits)
qed

text \<open>C19: in every database reached from the empty one by the operations of the store, all rows can be read back as acknowledged
tickets, and no two of them have the same channel, epoch and index.\<close>
theorem ticket_store_consistent:
  assumes "reachable (\<lambda>db. db = td_new) (td_step cr) db"
  shows "\<exists>as. get_all_tickets cr db = Ok as \<and> length as = length (td_tickets db)
     \<and> (\<forall>a \<in> set as. at_storable cr a)
     \<and> distinct (map (\<lambda>a. (ticket_key a, tk_index (vt_ticket (at_ticket a)))) as)"
proof -
  have inv: "td_inv cr db" using ticket_store.inv_reachable [OF assms] .
  then have "\<forall>m. m \<in> set (td_tickets db) \<longrightarrow> (\<exists>a. row_of cr m a)" by (simp add: td_inv_def)
  then obtain f where f: "\<And>m. m \<in> set (td_tickets db) \<Longrightarrow> row_of cr m (f m)" by metis
  note dec = row_of_read(1) [OF f] and key = row_of_read(2) [OF f]
  have "get_all_tickets cr db = Ok (map f (td_tickets db))"
    unfolding get_all_tickets_def by (simp add: collect_res_Ok [OF dec])
  moreover have "distinct (map (\<lambda>a. (ticket_key a, tk_index (vt_ticket (at_ticket a)))) (map f (td_tickets db)))"
  proof -
    have "distinct (map tm_key (td_tickets db))" using inv by (simp add: td_inv_def)
    then show ?thesis unfolding distinct_map map_map using key by (auto simp: inj_on_def distinct_map)
  qed
  ultimately show ?thesis using f by (intro exI [of _ "map f (td_tickets db)"]) (simp add: row_of_def)
qed

definition example_acked :: acknowledged_ticket where
  "example_acked =
     \<lparr>at_status = Untouched,
      at_ticket = ticket_sign example_crypto (example_ticket\<lparr>tk_challenge := replicate 20 5, tk_index := 7\<rparr>) 9 [],
      at_response = be_encode 32 5\<rparr>"

definition example_row :: ticket_model where
  "example_row = res_get undefined (ticket_model_of example_acked :: (unit, ticket_model) result)"

lemma example_acked_storable: "at_storable example_crypto example_acked"
proof -
  have "length (ticket_get_hash example_crypto t ds) = 32" for t ds
    using example_crypto_ok by (simp add: ticket_get_hash_def Let_def crypto_ok_def)
  moreover have "cr_recover example_crypto h (cr_sign_hash example_crypto h 9) = Ok (cr_address example_crypto 9)" for h
    using example_crypto_ok by (simp add: crypto_ok_def)
  moreover have "length (cr_sign_hash example_crypto h 9) = 64" for h using example_crypto_ok by (simp add: crypto_ok_def)
  moreover have "response_to_challenge example_crypto (be_encode 32 5) = (Ok (replicate 20 5) :: (unit, eth_challenge) result)"
    by (simp add: response_to_challenge_def nonzero_scalar_def be_decode_encode example_crypto_def)
  ultimately show ?thesis
    by (simp add: at_storable_def Let_def example_acked_def ticket_sign_def example_ticket_def ticket_wf_def ticket_sizes max_ticket_amount_def)
qed

lemma example_row: "ticket_model_of example_acked = (Ok example_row :: ('e, ticket_model) result)"
  by (simp add: example_row_def ticket_model_of_def example_acked_def ticket_sign_def Let_def)

lemma example_row_columns:
  "tm_channel_id example_row = to_hex (replicate 32 1)" "tm_channel_epoch example_row = u256_to_be 1"
  "bal_from_be (tm_amount example_row) = 100" "tm_winning_probability example_row = replicate 7 255"
  "tm_index example_row = u64_to_be 7"
  by (simp_all add: example_row_def ticket_model_of_def example_acked_def ticket_sign_def Let_def example_ticket_def bal_from_be_def)

lemma example_acked_fields:
  "ticket_key example_acked = (replicate 32 1, 1)" "ticket_value example_acked = 100"
  "tk_index (vt_ticket (at_ticket example_acked)) = 7" "tk_index_offset (vt_ticket (at_ticket example_acked)) = 1"
  "tk_encoded_win_prob (vt_ticket (at_ticket example_acked)) = replicate 7 255"
  "tk_amount (vt_ticket (at_ticket example_acked)) = 100" "at_status example_acked = Untouched"
  by (simp_all add: example_acked_def ticket_sign_def Let_def example_ticket_def ticket_key_def ticket_value_def)

theorem ticket_row_roundtrip_witness:
  "\<exists>m. ticket_model_of example_acked = (Ok m :: (db_entity_error, ticket_model) result)
     \<and> ticket_of_model example_crypto (m\<lparr>tm_id := 3\<rparr>) = Ok example_acked"
  using ticket_row_roundtrip [OF example_acked_storable] .

theorem selector_is_numeric_witness:
  "into_condition (with_index_range (Unbounded, Excluded 8) (sel_new (replicate 32 1) 1)) (example_row\<lparr>tm_id := 3\<rparr>)
   \<and> \<not> into_condition (with_index_range (Unbounded, Excluded 7) (sel_new (replicate 32 1) 1)) (example_row\<lparr>tm_id := 3\<rparr>)"
proof -
  have wf: "ticket_wf (vt_ticket (at_ticket example_acked))"
    using example_acked_storable by (simp add: at_storable_def Let_def)
  have off: "unat (tk_index_offset (vt_ticket (at_ticket example_acked))) < 2 ^ 31" by (simp add: example_acked_fields)
  have s: "sel_wf (with_index_range b (sel_new c e))" for b c e by (simp add: sel_wf_def with_index_range_def sel_new_def)
  have k: "tk_channel_id (vt_ticket (at_ticket example_acked)) = replicate 32 1"
    "ucast (tk_channel_epoch (vt_ticket (at_ticket example_acked))) = (1 :: u256)"
    using example_acked_fields(1) unfolding ticket_key_def prod.inject by blast+
  have "selects (with_index_range (Unbounded, Excluded b) (sel_new (replicate 32 1) 1)) example_acked \<longleftrightarrow> 7 < b" for b
    unfolding selects_def Let_def k example_acked_fields(3-7) by (simp add: with_index_range_def sel_new_def)
  then show ?thesis
    using selector_is_numeric [OF example_row wf off s, where i = 3] by (simp del: into_condition_id)
qed

definition example_db :: ticket_db where
  "example_db = td_new\<lparr>td_tickets := [example_row], td_queue := Some []\<rparr>"

lemma example_db_values:
  "row_value example_row = 100" "stat_value mk c example_db = 0" "on_channel (replicate 32 1) example_row"
  "into_condition (sel_new (replicate 32 1) 1) example_row"
  by (simp_all add: row_value_def example_row_columns stat_value_def find_stats_def example_db_def td_new_def on_channel_def into_condition_sel_new)

theorem mark_tickets_conserves_witness:
  "\<exists>db'. mark_tickets_as (sel_new (replicate 32 1) 1) Neglected example_db = Ok (db', 1) \<and> td_tickets db' = []
     \<and> stat_value Neglected (replicate 32 1) db' = 100"
proof -
  have "marks_fit Neglected example_db"
    unfolding marks_fit_def example_db_values by (simp add: example_db_def example_db_values)
  from mark_tickets_conserves [OF this, of "sel_new (replicate 32 1) 1"] show ?thesis
    unfolding marked_def example_db_values by (auto simp: example_db_def example_db_values)
qed

theorem aggregation_filter_correct_witness:
  "\<exists>taken rest. [example_row, example_row] = taken @ rest \<and> rows_value taken \<le> 120 \<and> rest \<noteq> []
     \<and> filter_satisfying_ticket_models (=) \<lparr>min_ticket_count = None, min_unaggregated_ratio = None\<rparr> [example_row, example_row]
         (ce_new concat [1] [2] 120 0 Open 1) (replicate 7 0) = Ok taken"
proof -
  have w: "wp_approx_cmp (=) (replicate 7 255) (replicate 7 0) = Greater"
    by (simp add: wp_approx_cmp_def Let_def wp_as_f64_def wp_always_def wp_never_def encoded_win_prob_length_def)
  have f: "filter (wins_enough (=) (replicate 7 0)) [example_row, example_row] = [example_row, example_row]"
    by (simp add: wins_enough_def example_row_columns w)
  have "\<forall>m \<in> set [example_row, example_row]. length (tm_winning_probability m) = encoded_win_prob_length"
    "rows_value [example_row, example_row] < 2 ^ 256"
    by (simp_all add: example_row_columns encoded_win_prob_length_def example_db_values)
  note this' = aggregation_filter_correct [OF this, of "(=)" "replicate 7 0" "ce_new concat [1] [2] 120 0 Open 1"
      "\<lparr>min_ticket_count = None, min_unaggregated_ratio = None\<rparr>", unfolded f]
  have bal: "unat (ce_balance (ce_new concat [1] [2] 120 0 Open 1)) = 120" by (simp add: ce_new_def)
  from this' obtain taken rest where t: "[example_row, example_row] = taken @ rest" "rows_value taken \<le> 120"
    "filter_satisfying_ticket_models (=) \<lparr>min_ticket_count = None, min_unaggregated_ratio = None\<rparr> [example_row, example_row]
         (ce_new concat [1] [2] 120 0 Open 1) (replicate 7 0) = Ok taken"
    unfolding bal aggregation_prerequisites.simps simp_thms if_True by (elim exE conjE)
  have "rest \<noteq> []"
  proof
    assume "rest = []"
    then have "taken = [example_row, example_row]" using t(1) by simp
    with t(2) example_db_values(1) show False by simp
  qed
  with t show ?thesis by blast
qed

theorem outgoing_index_refines_witness:
  "\<exists>db'. increment_outgoing_ticket_index (replicate 32 1) td_new = Ok (db', 0) \<and> current_index db' (replicate 32 1) = 1"
proof -
  have "outgoing_ok td_new" "length (replicate 32 (1 :: byte)) = hash_size"
    by (simp_all add: outgoing_ok_def td_new_def hash_size_def)
  moreover have "current_index td_new (replicate 32 1) = 0"
    by (simp add: current_index_def stored_index_def td_new_def)
  ultimately show ?thesis using outgoing_index_refines [of td_new "replicate 32 1" 0] by fastforce
qed

lemma unrealized_value_tracks_witness:
  "\<exists>db'. insert_ticket example_acked (td_new\<lparr>td_queue := Some []\<rparr>) = Ok db' \<and> unrealized_ok db'"
proof -
  have "unrealized_ok (td_new\<lparr>td_queue := Some []\<rparr>)" "td_queue (td_new\<lparr>td_queue := Some []\<rparr>) = Some []"
    by (simp_all add: unrealized_ok_def td_new_def queued_value_def)
  moreover have "stored_value (td_new\<lparr>td_queue := Some []\<rparr>) k = 0" "queued_value (td_new\<lparr>td_queue := Some []\<rparr>) k = 0" for k
    by (simp_all add: stored_value_def queued_value_def td_new_def)
  ultimately show ?thesis
    using unrealized_value_tracks [of "td_new\<lparr>td_queue := Some []\<rparr>" "[]" example_acked] by (auto simp: example_acked_fields)
qed

theorem ticket_store_consistent_witness:
  "\<exists>db as. upsert_ticket example_acked td_new = Ok db \<and> get_all_tickets example_crypto db = Ok as \<and> length as = 1"
proof -
  let ?db = "td_new\<lparr>td_tickets := [example_row\<lparr>tm_id := 1\<rparr>], td_next_id := 2\<rparr>"
  have u: "upsert_ticket example_acked td_new = Ok ?db"
    by (simp add: upsert_ticket_def Let_def example_row insert_row_def td_new_def)
  have "reachable (\<lambda>db. db = td_new) (td_step example_crypto) ?db"
    by (rule reachable_step [OF reachable_init]) (rule refl, rule td_upsert [OF example_acked_storable u])
  from ticket_store_consistent [OF this] u show ?thesis by fastforce
qed

end
