(* ===== verification/Channel_Table.thy ===== *)
theory Channel_Table
  imports Ticket_Store
begin

text \<open>
  The table of payment channels in the index database (\<open>db/sql/src/channels.rs\<close>, with the conversions of rows in
  \<open>db/entity/src/conversions/channels.rs\<close>): editing, insertion and the queries by identifier, parties and direction.
  Closure times are numbers of nanoseconds; \<open>keccak\<close> is the hash function behind the channel identifiers.
\<close>

section \<open>Rows\<close>

record channel_model =
  cm_id :: nat
  cm_channel_id :: string
  cm_source :: string
  cm_destination :: string
  cm_balance :: bytes
  cm_status :: int
  cm_epoch :: bytes
  cm_ticket_index :: bytes
  cm_closure_time :: "nat option"

definition address_size :: nat where
  "address_size = 20"

definition address_from_hex :: "string \<Rightarrow> (general_error, address) result" where
  "address_from_hex = from_hex (fixed_bytes address_size ''Address'')"

definition set_status :: "channel_status \<Rightarrow> channel_model \<Rightarrow> channel_model" where
  "set_status new_status m =
     (let m = m\<lparr>cm_status := status_to_i8 new_status\<rparr> in
      case new_status of PendingToClose t \<Rightarrow> m\<lparr>cm_closure_time := Some t\<rparr> | _ \<Rightarrow> m)"

definition status_of_model :: "channel_model \<Rightarrow> (db_entity_error, channel_status) result" where
  "status_of_model m =
     (if cm_status m = 0 then Ok Closed
      else if cm_status m = 1 then Ok Open
      else if cm_status m = 2 then
        map_res PendingToClose
          (ok_or (ConversionError ''channel is pending to close but without closure time'') (cm_closure_time m))
      else Err (ConversionError ''invalid channel status value''))"

definition entry_of_model :: "(bytes list \<Rightarrow> hash) \<Rightarrow> channel_model \<Rightarrow> (db_entity_error, channel_entry) result" where
  "entry_of_model keccak m =
     and_then (status_of_model m) (\<lambda>status.
     and_then (map_fail EntityGeneralError (address_from_hex (cm_source m))) (\<lambda>source.
     and_then (map_fail EntityGeneralError (address_from_hex (cm_destination m))) (\<lambda>destination.
     and_then (u256_from_be_bytes (cm_balance m)) (\<lambda>balance.
     and_then (u256_from_be_bytes (cm_ticket_index m)) (\<lambda>ticket_index.
     and_then (u256_from_be_bytes (cm_epoch m)) (\<lambda>epoch.
       Ok (ce_new keccak source destination balance ticket_index status epoch)))))))"

definition model_of_entry :: "channel_entry \<Rightarrow> channel_model" where
  "model_of_entry c =
     set_status (ce_status c)
       \<lparr>cm_id = 0, cm_channel_id = to_hex (ce_get_id c), cm_source = to_hex (ce_source c),
        cm_destination = to_hex (ce_destination c), cm_balance = u256_to_be (ce_balance c), cm_status = 0,
        cm_epoch = u256_to_be (ce_channel_epoch c), cm_ticket_index = u256_to_be (ce_ticket_index c),
        cm_closure_time = None\<rparr>"

section \<open>Editing\<close>

record channel_editor =
  ed_orig :: channel_entry
  ed_model :: channel_model
  ed_delete :: bool

definition ed_entry :: "channel_editor \<Rightarrow> channel_entry" where
  "ed_entry e = ed_orig e"

definition change_balance :: "hopr_balance \<Rightarrow> channel_editor \<Rightarrow> channel_editor" where
  "change_balance balance e = e\<lparr>ed_model := (ed_model e)\<lparr>cm_balance := u256_to_be balance\<rparr>\<rparr>"

definition change_status :: "channel_status \<Rightarrow> channel_editor \<Rightarrow> channel_editor" where
  "change_status status e = e\<lparr>ed_model := set_status status (ed_model e)\<rparr>"

definition change_ticket_index :: "u256 \<Rightarrow> channel_editor \<Rightarrow> channel_editor" where
  "change_ticket_index index e = e\<lparr>ed_model := (ed_model e)\<lparr>cm_ticket_index := u256_to_be index\<rparr>\<rparr>"

definition change_epoch :: "u256 \<Rightarrow> channel_editor \<Rightarrow> channel_editor" where
  "change_epoch epoch e = e\<lparr>ed_model := (ed_model e)\<lparr>cm_epoch := u256_to_be epoch\<rparr>\<rparr>"

definition ed_mark_delete :: "channel_editor \<Rightarrow> channel_editor" where
  "ed_mark_delete e = e\<lparr>ed_delete := True\<rparr>"

section \<open>The table\<close>

text \<open>
  The rows of the table, the next row number and the cache from the parties to the channel.
\<close>

record channel_table =
  ct_rows :: "channel_model list"
  ct_next_id :: nat
  ct_cache :: "address \<times> address \<Rightarrow> channel_entry option option"

definition ct_new :: channel_table where
  "ct_new = \<lparr>ct_rows = [], ct_next_id = 1, ct_cache = Map.empty\<rparr>"

definition find_channel :: "hash \<Rightarrow> channel_table \<Rightarrow> channel_model option" where
  "find_channel i tbl = find (\<lambda>m. cm_channel_id m = to_hex i) (ct_rows tbl)"

definition get_channel_by_id ::
  "(bytes list \<Rightarrow> hash) \<Rightarrow> hash \<Rightarrow> channel_table \<Rightarrow> (db_error, channel_entry option) result" where
  "get_channel_by_id keccak i tbl =
     (case find_channel i tbl of
        Some model \<Rightarrow> map_res Some (map_fail EntityError (entry_of_model keccak model))
      | None \<Rightarrow> Ok None)"

definition begin_channel_update ::
  "(bytes list \<Rightarrow> hash) \<Rightarrow> hash \<Rightarrow> channel_table \<Rightarrow> (db_error, channel_editor option) result" where
  "begin_channel_update keccak i tbl =
     (case find_channel i tbl of
        Some model \<Rightarrow>
          map_res (\<lambda>orig. Some \<lparr>ed_orig = orig, ed_model = model, ed_delete = False\<rparr>)
            (map_fail EntityError (entry_of_model keccak model))
      | None \<Rightarrow> Ok None)"

text \<open>
  The update writes the edited row back under its row number. Besides the table and the entry it returns the key that
  is dropped from the cache of unrealized values.
\<close>

definition finish_channel_update ::
  "(bytes list \<Rightarrow> hash) \<Rightarrow> channel_editor \<Rightarrow> channel_table \<Rightarrow> (db_error, channel_table \<times> channel_entry \<times> (hash \<times> u256)) result" where
  "finish_channel_update keccak editor tbl =
     (let epoch = u256_from_be (cm_epoch (ed_model editor));
          parties = (ce_source (ed_orig editor), ce_destination (ed_orig editor)) in
      and_then
        (if \<not> ed_delete editor then
           if cm_id (ed_model editor) \<in> cm_id ` set (ct_rows tbl) then
             map_res
               (\<lambda>c. (tbl\<lparr>ct_rows := map (\<lambda>m. if cm_id m = cm_id (ed_model editor) then ed_model editor else m) (ct_rows tbl)\<rparr>, c))
               (map_fail EntityError (entry_of_model keccak (ed_model editor)))
           else Err (BackendError ''None of the records are updated'')
         else Ok (tbl\<lparr>ct_rows := filter (\<lambda>m. cm_id m \<noteq> cm_id (ed_model editor)) (ct_rows tbl)\<rparr>, ed_orig editor)) (\<lambda>(tbl, ret).
      let tbl = tbl\<lparr>ct_cache := (ct_cache tbl)(parties := None)\<rparr> in
      Ok (tbl, ret, (ce_get_id (ed_orig editor), epoch))))"

definition get_channel_by_parties ::
  "(bytes list \<Rightarrow> hash) \<Rightarrow> address \<Rightarrow> address \<Rightarrow> bool \<Rightarrow> channel_table \<Rightarrow> (db_error, channel_table \<times> channel_entry option) result" where
  "get_channel_by_parties keccak src dst use_cache tbl =
     (let fetch_channel =
        (case find (\<lambda>m. cm_source m = to_hex src \<and> cm_destination m = to_hex dst) (ct_rows tbl) of
           Some model \<Rightarrow> map_res Some (map_fail EntityError (entry_of_model keccak model))
         | None \<Rightarrow> Ok None) in
      if use_cache then
        (case ct_cache tbl (src, dst) of
           Some c \<Rightarrow> Ok (tbl, c)
         | None \<Rightarrow> map_res (\<lambda>c. (tbl\<lparr>ct_cache := (ct_cache tbl)((src, dst) \<mapsto> c)\<rparr>, c)) fetch_channel)
      else map_res (\<lambda>c. (tbl, c)) fetch_channel)"

definition get_channels_via ::
  "(bytes list \<Rightarrow> hash) \<Rightarrow> channel_direction \<Rightarrow> address \<Rightarrow> channel_table \<Rightarrow> (db_error, channel_entry list) result" where
  "get_channels_via keccak direction target tbl =
     map_fail EntityError (collect_res (map (entry_of_model keccak)
       (filter (\<lambda>m. case direction of Incoming \<Rightarrow> cm_destination m = to_hex target | Outgoing \<Rightarrow> cm_source m = to_hex target)
         (ct_rows tbl))))"

definition get_incoming_channels ::
  "(bytes list \<Rightarrow> hash) \<Rightarrow> address \<Rightarrow> channel_table \<Rightarrow> (db_error, channel_entry list) result" where
  "get_incoming_channels keccak me_onchain tbl = get_channels_via keccak Incoming me_onchain tbl"

definition get_outgoing_channels ::
  "(bytes list \<Rightarrow> hash) \<Rightarrow> address \<Rightarrow> channel_table \<Rightarrow> (db_error, channel_entry list) result" where
  "get_outgoing_channels keccak me_onchain tbl = get_channels_via keccak Outgoing me_onchain tbl"

definition get_all_channels :: "(bytes list \<Rightarrow> hash) \<Rightarrow> channel_table \<Rightarrow> (db_error, channel_entry list) result" where
  "get_all_channels keccak tbl = map_fail EntityError (collect_res (map (entry_of_model keccak) (ct_rows tbl)))"

text \<open>The stream read to its end; \<open>now\<close> is the time of the query.\<close>

definition stream_active_channels ::
  "(bytes list \<Rightarrow> hash) \<Rightarrow> nat \<Rightarrow> channel_table \<Rightarrow> (db_error, channel_entry list) result" where
  "stream_active_channels keccak now tbl =
     map_fail EntityError (collect_res (map (entry_of_model keccak)
       (filter (\<lambda>m. cm_status m = status_to_i8 Open
                  \<or> cm_status m = status_to_i8 (PendingToClose now) \<and> (case cm_closure_time m of Some t \<Rightarrow> t > now | None \<Rightarrow> False))
         (ct_rows tbl))))"

text \<open>
  A new channel gets the next row number; a known one keeps its own. Columns that the conversion of an entry leaves
  unset keep their value, which is the closure time of a channel that is not about to close.
\<close>

definition upsert_channel :: "channel_entry \<Rightarrow> channel_table \<Rightarrow> (db_error, channel_table \<times> (hash \<times> u256)) result" where
  "upsert_channel channel_entry tbl =
     (let parties = (ce_source channel_entry, ce_destination channel_entry);
          model = model_of_entry channel_entry in
      and_then
        (case find_channel (ce_get_id channel_entry) tbl of
           Some old \<Rightarrow>
             let model = model\<lparr>cm_id := cm_id old, cm_closure_time :=
                   (case ce_status channel_entry of PendingToClose t \<Rightarrow> Some t | _ \<Rightarrow> cm_closure_time old)\<rparr> in
             Ok (tbl\<lparr>ct_rows := map (\<lambda>m. if cm_id m = cm_id old then model else m) (ct_rows tbl)\<rparr>)
         | None \<Rightarrow>
             if (cm_source model, cm_destination model) \<in> (\<lambda>m. (cm_source m, cm_destination m)) ` set (ct_rows tbl)
             then Err (BackendError ''UNIQUE constraint failed'')
             else Ok (tbl\<lparr>ct_rows := ct_rows tbl @ [model\<lparr>cm_id := ct_next_id tbl\<rparr>], ct_next_id := ct_next_id tbl + 1\<rparr>)) (\<lambda>tbl.
      Ok (tbl\<lparr>ct_cache := (ct_cache tbl)(parties := None)\<rparr>,
          (ce_get_id channel_entry, ce_channel_epoch channel_entry))))"

section \<open>The table as a map from identifiers to channels\<close>

definition model_ok :: "(bytes list \<Rightarrow> hash) \<Rightarrow> channel_model \<Rightarrow> channel_entry \<Rightarrow> bool" where
  "model_ok keccak m c \<longleftrightarrow>
     entry_of_model keccak m = Ok c \<and> cm_channel_id m = to_hex (ce_id c)
     \<and> cm_source m = to_hex (ce_source c) \<and> cm_destination m = to_hex (ce_destination c)"

definition chan :: "(bytes list \<Rightarrow> hash) \<Rightarrow> channel_table \<Rightarrow> hash \<Rightarrow> channel_entry option" where
  "chan keccak tbl i =
     (case find_channel i tbl of
        Some m \<Rightarrow> (case entry_of_model keccak m of Inr c \<Rightarrow> Some c | Inl _ \<Rightarrow> None)
      | None \<Rightarrow> None)"

definition parties_of :: "channel_entry \<Rightarrow> address \<times> address" where
  "parties_of c = (ce_source c, ce_destination c)"

definition ct_ok :: "(bytes list \<Rightarrow> hash) \<Rightarrow> channel_table \<Rightarrow> bool" where
  "ct_ok keccak tbl \<longleftrightarrow>
     distinct (map cm_id (ct_rows tbl)) \<and> distinct (map cm_channel_id (ct_rows tbl))
     \<and> (\<forall>m \<in> set (ct_rows tbl). cm_id m < ct_next_id tbl \<and> (\<exists>c. model_ok keccak m c))
     \<and> (\<forall>p r. ct_cache tbl p = Some r \<longrightarrow> (\<forall>c. r = Some c \<longleftrightarrow> chan keccak tbl (ce_id c) = Some c \<and> parties_of c = p))"

text \<open>An entry as the constructor makes it: addresses of 20 bytes and the identifier of the parties.\<close>

definition ce_wf :: "(bytes list \<Rightarrow> hash) \<Rightarrow> channel_entry \<Rightarrow> bool" where
  "ce_wf keccak c \<longleftrightarrow>
     length (ce_source c) = address_size \<and> length (ce_destination c) = address_size
     \<and> ce_id c = generate_channel_id keccak (ce_source c) (ce_destination c)"

lemma status_of_set_status [simp]: "status_of_model (set_status st m) = Ok st"
  by (cases st) (simp_all add: set_status_def status_of_model_def Let_def)

lemma set_status_columns [simp]:
  "cm_id (set_status st m) = cm_id m" "cm_channel_id (set_status st m) = cm_channel_id m"
  "cm_source (set_status st m) = cm_source m" "cm_destination (set_status st m) = cm_destination m"
  "cm_balance (set_status st m) = cm_balance m" "cm_epoch (set_status st m) = cm_epoch m"
  "cm_ticket_index (set_status st m) = cm_ticket_index m"
  by (cases st; simp add: set_status_def Let_def)+

lemma u256_blob [simp]: "u256_from_be_bytes (u256_to_be x) = Ok x"
  by (simp add: u256_from_be_bytes_def)

lemma address_from_hex_to_hex: "length a = address_size \<Longrightarrow> address_from_hex (to_hex a) = Ok a"
  by (simp add: address_from_hex_def fixed_bytes_def)

lemma address_from_hex_length: "address_from_hex (to_hex a) = Ok b \<Longrightarrow> length a = address_size \<and> b = a"
  by (auto simp: address_from_hex_def fixed_bytes_def split: if_splits)

lemma entry_of_model_Ok_iff:
  "entry_of_model keccak m = Ok c \<longleftrightarrow>
     (\<exists>st s d. status_of_model m = Ok st \<and> address_from_hex (cm_source m) = Ok s \<and> address_from_hex (cm_destination m) = Ok d
        \<and> length (cm_balance m) \<le> 32 \<and> length (cm_ticket_index m) \<le> 32 \<and> length (cm_epoch m) \<le> 32
        \<and> c = ce_new keccak s d (u256_from_be (cm_balance m)) (u256_from_be (cm_ticket_index m)) st (u256_from_be (cm_epoch m)))"
  by (auto simp: entry_of_model_def and_then_Inr_iff map_fail_Inr_iff u256_from_be_bytes_def split: if_splits)

lemma model_ok_wf: "model_ok keccak m c \<Longrightarrow> ce_wf keccak c"
  unfolding model_ok_def entry_of_model_Ok_iff ce_wf_def using address_from_hex_length by (fastforce simp: ce_new_def)

lemma model_ok_unique: "model_ok keccak m c \<Longrightarrow> model_ok keccak m d \<Longrightarrow> c = d"
  by (auto simp: model_ok_def)

lemma model_of_entry_ok: "ce_wf keccak c \<Longrightarrow> model_ok keccak (model_of_entry c) c"
  unfolding model_ok_def entry_of_model_Ok_iff ce_wf_def
  by (auto simp: model_of_entry_def address_from_hex_to_hex ce_new_def ce_get_id_def)

lemma model_ok_id [simp]: "model_ok keccak (m\<lparr>cm_id := i\<rparr>) c = model_ok keccak m c"
  by (simp add: model_ok_def entry_of_model_def status_of_model_def)

lemma status_of_model_columns [simp]:
  "status_of_model (m\<lparr>cm_balance := b\<rparr>) = status_of_model m" "status_of_model (m\<lparr>cm_ticket_index := b\<rparr>) = status_of_model m"
  "status_of_model (m\<lparr>cm_epoch := b\<rparr>) = status_of_model m"
  by (simp_all add: status_of_model_def)

text \<open>What the editing functions do to the entry of a row.\<close>

lemma model_ok_edits:
  assumes "model_ok keccak m c"
  shows "model_ok keccak (m\<lparr>cm_balance := u256_to_be b\<rparr>) (c\<lparr>ce_balance := b\<rparr>)"
    and "model_ok keccak (m\<lparr>cm_ticket_index := u256_to_be i\<rparr>) (c\<lparr>ce_ticket_index := i\<rparr>)"
    and "model_ok keccak (m\<lparr>cm_epoch := u256_to_be e\<rparr>) (c\<lparr>ce_channel_epoch := e\<rparr>)"
    and "model_ok keccak (set_status st m) (c\<lparr>ce_status := st\<rparr>)"
  using assms unfolding model_ok_def entry_of_model_Ok_iff
  by (auto simp: ce_new_def)

section \<open>Lookups\<close>

lemma find_channel_row:
  assumes "ct_ok keccak tbl"
  shows "find_channel i tbl = Some m \<longleftrightarrow> m \<in> set (ct_rows tbl) \<and> cm_channel_id m = to_hex i"
proof
  assume m: "m \<in> set (ct_rows tbl) \<and> cm_channel_id m = to_hex i"
  then obtain m' where m': "find_channel i tbl = Some m'"
    unfolding find_channel_def by (meson find_None_iff not_None_eq)
  then have "m' \<in> set (ct_rows tbl)" "cm_channel_id m' = to_hex i" by (auto simp: find_channel_def find_Some_iff)
  with m m' assms show "find_channel i tbl = Some m" unfolding ct_ok_def distinct_map by (metis inj_onD)
qed (auto simp: find_channel_def find_Some_iff)

lemma chan_Some_iff:
  assumes "ct_ok keccak tbl"
  shows "chan keccak tbl i = Some c \<longleftrightarrow> (\<exists>m \<in> set (ct_rows tbl). model_ok keccak m c \<and> ce_id c = i)"
proof -
  have ok: "\<exists>c. model_ok keccak m c" if "m \<in> set (ct_rows tbl)" for m using assms that by (auto simp: ct_ok_def)
  show ?thesis
  proof
    assume "chan keccak tbl i = Some c"
    then obtain m where m: "find_channel i tbl = Some m" "entry_of_model keccak m = Ok c"
      by (auto simp: chan_def split: option.splits sum.splits)
    then have "m \<in> set (ct_rows tbl)" "cm_channel_id m = to_hex i" using find_channel_row [OF assms] by auto
    with ok m(2) show "\<exists>m \<in> set (ct_rows tbl). model_ok keccak m c \<and> ce_id c = i" by (fastforce simp: model_ok_def)
  next
    assume "\<exists>m \<in> set (ct_rows tbl). model_ok keccak m c \<and> ce_id c = i"
    then obtain m where m: "m \<in> set (ct_rows tbl)" "model_ok keccak m c" "ce_id c = i" by blast
    then have "find_channel i tbl = Some m" unfolding find_channel_row [OF assms] by (simp add: model_ok_def)
    with m(2) show "chan keccak tbl i = Some c" by (simp add: chan_def model_ok_def)
  qed
qed

lemma chan_id: "ct_ok keccak tbl \<Longrightarrow> chan keccak tbl i = Some c \<Longrightarrow> ce_id c = i \<and> ce_wf keccak c"
  using chan_Some_iff model_ok_wf by blast

lemma get_channel_by_id_eq:
  assumes "ct_ok keccak tbl"
  shows "get_channel_by_id keccak i tbl = Ok (chan keccak tbl i)"
proof (cases "find_channel i tbl")
  case (Some m)
  then obtain c where "model_ok keccak m c" using assms find_channel_row [OF assms] by (auto simp: ct_ok_def)
  with Some show ?thesis by (simp add: get_channel_by_id_def chan_def model_ok_def)
qed (simp add: get_channel_by_id_def chan_def)

lemma chan_parties_unique:
  assumes "ct_ok keccak tbl" "chan keccak tbl i = Some c" "chan keccak tbl j = Some d" "parties_of c = parties_of d"
  shows "c = d"
proof -
  have wf: "ce_wf keccak c" "ce_wf keccak d" and i: "ce_id c = i" "ce_id d = j"
    using chan_id [OF assms(1,2)] chan_id [OF assms(1,3)] by blast+
  have "ce_source c = ce_source d" "ce_destination c = ce_destination d" using assms(4) by (simp_all add: parties_of_def)
  then have "i = j" using wf unfolding ce_wf_def i [symmetric] by simp
  then show ?thesis using assms(2,3) by simp
qed

lemma find_parties:
  assumes "ct_ok keccak tbl"
  shows "\<exists>r. (case find (\<lambda>m. cm_source m = to_hex s \<and> cm_destination m = to_hex d) (ct_rows tbl) of
            Some model \<Rightarrow> map_res Some (map_fail EntityError (entry_of_model keccak model)) | None \<Rightarrow> Ok None) = (Ok r :: (db_error, channel_entry option) result)
     \<and> (\<forall>c. r = Some c \<longleftrightarrow> chan keccak tbl (ce_id c) = Some c \<and> parties_of c = (s, d))"
proof (cases "find (\<lambda>m. cm_source m = to_hex s \<and> cm_destination m = to_hex d) (ct_rows tbl)")
  case None
  have "\<not> (chan keccak tbl (ce_id c) = Some c \<and> parties_of c = (s, d))" for c
    using None unfolding chan_Some_iff [OF assms] find_None_iff by (auto simp: model_ok_def parties_of_def)
  with None show ?thesis by simp
next
  case (Some m)
  then have m: "m \<in> set (ct_rows tbl)" "cm_source m = to_hex s" "cm_destination m = to_hex d" by (auto simp: find_Some_iff)
  obtain c where c: "model_ok keccak m c" using assms m(1) by (auto simp: ct_ok_def)
  then have p: "parties_of c = (s, d)" and e: "entry_of_model keccak m = Ok c" using m by (auto simp: model_ok_def parties_of_def)
  have ch: "chan keccak tbl (ce_id c) = Some c" using c m(1) chan_Some_iff [OF assms] by blast
  have "Some c = Some c' \<longleftrightarrow> chan keccak tbl (ce_id c') = Some c' \<and> parties_of c' = (s, d)" for c'
  proof
    assume "chan keccak tbl (ce_id c') = Some c' \<and> parties_of c' = (s, d)"
    then show "Some c = Some c'" using chan_parties_unique [OF assms ch, of "ce_id c'" c'] p by simp
  qed (use ch p in simp)
  with Some e show ?thesis by (intro exI [of _ "Some c"]) simp
qed

lemma get_channel_by_parties_eq:
  assumes "ct_ok keccak tbl"
  shows "\<exists>tbl' r. get_channel_by_parties keccak s d use_cache tbl = Ok (tbl', r) \<and> ct_ok keccak tbl' \<and> ct_rows tbl' = ct_rows tbl
     \<and> (\<forall>c. r = Some c \<longleftrightarrow> chan keccak tbl (ce_id c) = Some c \<and> parties_of c = (s, d))"
proof -
  obtain r where r: "(case find (\<lambda>m. cm_source m = to_hex s \<and> cm_destination m = to_hex d) (ct_rows tbl) of
            Some model \<Rightarrow> map_res Some (map_fail EntityError (entry_of_model keccak model)) | None \<Rightarrow> Ok None) = (Ok r :: (db_error, channel_entry option) result)"
     "\<forall>c. r = Some c \<longleftrightarrow> chan keccak tbl (ce_id c) = Some c \<and> parties_of c = (s, d)"
    using find_parties [OF assms] by blast
  have ch: "chan keccak (tbl\<lparr>ct_cache := x\<rparr>) = chan keccak tbl" for x
    by (rule ext) (simp add: chan_def find_channel_def)
  have ok: "ct_ok keccak (tbl\<lparr>ct_cache := (ct_cache tbl)((s, d) \<mapsto> r)\<rparr>)"
    using assms r(2) by (simp add: ct_ok_def ch)
  show ?thesis
  proof (cases "use_cache \<and> ct_cache tbl (s, d) \<noteq> None")
    case True
    then obtain c where c: "ct_cache tbl (s, d) = Some c" by blast
    then show ?thesis using True assms by (auto simp: get_channel_by_parties_def Let_def ct_ok_def)
  next
    case False
    then show ?thesis using r ok assms by (auto simp: get_channel_by_parties_def Let_def)
  qed
qed

section \<open>Updates\<close>

text \<open>\<open>e\<close> edits the channel \<open>i\<close>, whose entry will be \<open>c\<close>.\<close>

definition editing :: "(bytes list \<Rightarrow> hash) \<Rightarrow> channel_table \<Rightarrow> hash \<Rightarrow> channel_editor \<Rightarrow> channel_entry \<Rightarrow> bool" where
  "editing keccak tbl i e c \<longleftrightarrow>
     chan keccak tbl i = Some (ed_orig e) \<and> model_ok keccak (ed_model e) c \<and> parties_of c = parties_of (ed_orig e)
     \<and> (\<exists>m \<in> set (ct_rows tbl). model_ok keccak m (ed_orig e) \<and> cm_id m = cm_id (ed_model e))"

lemma begin_channel_update_eq:
  assumes "ct_ok keccak tbl"
  shows "case chan keccak tbl i of
      None \<Rightarrow> begin_channel_update keccak i tbl = Ok None
    | Some c \<Rightarrow> (\<exists>e. begin_channel_update keccak i tbl = Ok (Some e) \<and> ed_entry e = c \<and> \<not> ed_delete e \<and> editing keccak tbl i e c)"
proof (cases "chan keccak tbl i")
  case None
  have "find_channel i tbl = None"
  proof (cases "find_channel i tbl")
    case (Some m)
    then obtain c where "model_ok keccak m c" using assms find_channel_row [OF assms] by (auto simp: ct_ok_def)
    with Some None show ?thesis by (simp add: chan_def model_ok_def)
  qed
  with None show ?thesis by (simp add: begin_channel_update_def)
next
  case (Some c)
  then obtain m where m: "m \<in> set (ct_rows tbl)" "model_ok keccak m c" "ce_id c = i" using chan_Some_iff [OF assms] by blast
  then have "find_channel i tbl = Some m" unfolding find_channel_row [OF assms] by (simp add: model_ok_def)
  with Some m show ?thesis by (auto simp: begin_channel_update_def ed_entry_def editing_def model_ok_def)
qed

lemma editing_edits:
  assumes "editing keccak tbl i e c"
  shows "editing keccak tbl i (change_balance b e) (c\<lparr>ce_balance := b\<rparr>)"
    and "editing keccak tbl i (change_ticket_index x e) (c\<lparr>ce_ticket_index := x\<rparr>)"
    and "editing keccak tbl i (change_epoch ep e) (c\<lparr>ce_channel_epoch := ep\<rparr>)"
    and "editing keccak tbl i (change_status st e) (c\<lparr>ce_status := st\<rparr>)"
    and "editing keccak tbl i (ed_mark_delete e) c"
  using assms model_ok_edits [of keccak "ed_model e" c]
  by (auto simp: editing_def change_balance_def change_ticket_index_def change_epoch_def change_status_def
      ed_mark_delete_def parties_of_def)

lemma ed_delete_edits [simp]:
  "ed_delete (change_balance b e) = ed_delete e" "ed_delete (change_ticket_index x e) = ed_delete e"
  "ed_delete (change_epoch ep e) = ed_delete e" "ed_delete (change_status st e) = ed_delete e" "ed_delete (ed_mark_delete e)"
  "ed_orig (change_balance b e) = ed_orig e" "ed_orig (change_ticket_index x e) = ed_orig e"
  "ed_orig (change_epoch ep e) = ed_orig e" "ed_orig (change_status st e) = ed_orig e" "ed_orig (ed_mark_delete e) = ed_orig e"
  by (simp_all add: change_balance_def change_ticket_index_def change_epoch_def change_status_def ed_mark_delete_def)

text \<open>A table whose rows and cache are right is determined by its map.\<close>

lemma ct_okI:
  assumes "distinct (map cm_id rows)" "distinct (map cm_channel_id rows)"
    and "\<And>m. m \<in> set rows \<Longrightarrow> cm_id m < n \<and> (\<exists>c. model_ok keccak m c)"
    and "\<And>p r c. cache p = Some r \<Longrightarrow> r = Some c \<longleftrightarrow> f (ce_id c) = Some c \<and> parties_of c = p"
    and "\<And>i c. f i = Some c \<longleftrightarrow> (\<exists>m \<in> set rows. model_ok keccak m c \<and> ce_id c = i)"
  shows "ct_ok keccak \<lparr>ct_rows = rows, ct_next_id = n, ct_cache = cache\<rparr>
     \<and> chan keccak \<lparr>ct_rows = rows, ct_next_id = n, ct_cache = cache\<rparr> = f"
proof -
  let ?empty = "\<lparr>ct_rows = rows, ct_next_id = n, ct_cache = Map.empty\<rparr>"
  let ?t = "\<lparr>ct_rows = rows, ct_next_id = n, ct_cache = cache\<rparr>"
  have same: "chan keccak ?t = chan keccak ?empty" by (rule ext) (simp add: chan_def find_channel_def)
  have "ct_ok keccak ?empty" using assms(1-3) by (simp add: ct_ok_def)
  then have "chan keccak ?empty i = Some c \<longleftrightarrow> f i = Some c" for i c
    using chan_Some_iff [of keccak ?empty i c] assms(5) by simp
  then have f: "chan keccak ?empty = f" by (intro ext option_eq_by_Some) simp
  with same have ft: "chan keccak ?t = f" by (rule trans)
  have "\<forall>p r. ct_cache ?t p = Some r \<longrightarrow> (\<forall>c. r = Some c \<longleftrightarrow> chan keccak ?t (ce_id c) = Some c \<and> parties_of c = p)"
    unfolding ft channel_table.simps using assms(4) by blast
  moreover have "distinct (map cm_id (ct_rows ?t))" "distinct (map cm_channel_id (ct_rows ?t))"
    "\<forall>m \<in> set (ct_rows ?t). cm_id m < ct_next_id ?t \<and> (\<exists>c. model_ok keccak m c)"
    using assms(1-3) by simp_all
  ultimately have "ct_ok keccak ?t" unfolding ct_ok_def by blast
  with ft show ?thesis by simp
qed

lemma ct_ok_cache:
  "ct_ok keccak tbl \<Longrightarrow> ct_cache tbl p = Some r \<Longrightarrow> r = Some c \<longleftrightarrow> chan keccak tbl (ce_id c) = Some c \<and> parties_of c = p"
  unfolding ct_ok_def by blast

lemma ct_rows_ids:
  assumes "ct_ok keccak tbl" "m \<in> set (ct_rows tbl)" "m' \<in> set (ct_rows tbl)" "cm_id m = cm_id m'"
  shows "m = m'"
  using assms unfolding ct_ok_def distinct_map by (meson inj_onD)

lemma finish_channel_update_edit:
  assumes ok: "ct_ok keccak tbl" and e: "editing keccak tbl i e c" and nd: "\<not> ed_delete e"
  shows "\<exists>tbl'. finish_channel_update keccak e tbl = Ok (tbl', c, (i, ce_channel_epoch c)) \<and> ct_ok keccak tbl'
     \<and> chan keccak tbl' = (chan keccak tbl)(i \<mapsto> c)"
proof -
  obtain m where m: "m \<in> set (ct_rows tbl)" "model_ok keccak m (ed_orig e)" "cm_id m = cm_id (ed_model e)"
    and ch: "chan keccak tbl i = Some (ed_orig e)" and mo: "model_ok keccak (ed_model e) c"
    and p: "parties_of c = parties_of (ed_orig e)" using e by (auto simp: editing_def)
  have "ce_id (ed_orig e) = i" using chan_id [OF ok ch] by simp
  moreover have "ce_id c = ce_id (ed_orig e)"
    using chan_id [OF ok ch] model_ok_wf [OF mo] p unfolding ce_wf_def parties_of_def by (metis prod.inject)
  ultimately have ids: "ce_id (ed_orig e) = i" "ce_id c = i" by metis+
  have cid: "cm_channel_id (ed_model e) = cm_channel_id m" using mo m(2) ids by (simp add: model_ok_def)
  let ?f = "\<lambda>x. if cm_id x = cm_id (ed_model e) then ed_model e else x"
  have fm: "?f x = (if x = m then ed_model e else x)" if "x \<in> set (ct_rows tbl)" for x
  proof (cases "x = m")
    case False
    then have "cm_id x \<noteq> cm_id (ed_model e)" using ct_rows_ids [OF ok that m(1)] m(3) by metis
    with False show ?thesis by simp
  qed (simp add: m(3))
  define rows where "rows = map ?f (ct_rows tbl)"
  have keys: "map cm_id rows = map cm_id (ct_rows tbl)" "map cm_channel_id rows = map cm_channel_id (ct_rows tbl)"
    using fm cid m(3) by (simp_all add: rows_def)
  have mem: "x \<in> set rows \<longleftrightarrow> x = ed_model e \<or> (x \<in> set (ct_rows tbl) \<and> x \<noteq> m)" for x
  proof -
    have "set rows = (\<lambda>x. if x = m then ed_model e else x) ` set (ct_rows tbl)" unfolding rows_def set_map by (rule image_cong [OF refl fm])
    then show ?thesis using m(1) by auto
  qed
  let ?cache = "(ct_cache tbl)(parties_of (ed_orig e) := None)"
  have "ct_ok keccak \<lparr>ct_rows = rows, ct_next_id = ct_next_id tbl, ct_cache = ?cache\<rparr>
     \<and> chan keccak \<lparr>ct_rows = rows, ct_next_id = ct_next_id tbl, ct_cache = ?cache\<rparr> = (chan keccak tbl)(i \<mapsto> c)"
  proof (rule ct_okI)
    show "distinct (map cm_id rows)" "distinct (map cm_channel_id rows)" unfolding keys using ok by (simp_all add: ct_ok_def)
    show "cm_id x < ct_next_id tbl \<and> (\<exists>c. model_ok keccak x c)" if "x \<in> set rows" for x
      using that mo m ok unfolding mem by (auto simp: ct_ok_def)
    show "r = Some d \<longleftrightarrow> ((chan keccak tbl)(i \<mapsto> c)) (ce_id d) = Some d \<and> parties_of d = pp"
      if "?cache pp = Some r" for pp r d
    proof -
      from that have np: "pp \<noteq> parties_of (ed_orig e)" and c0: "ct_cache tbl pp = Some r" by (auto split: if_splits)
      note r = ct_ok_cache [OF ok c0, of d]
      show ?thesis
      proof (cases "ce_id d = i")
        case True
        then show ?thesis using r np p ch by auto
      qed (use r in simp)
    qed
    show "((chan keccak tbl)(i \<mapsto> c)) j = Some d \<longleftrightarrow> (\<exists>x \<in> set rows. model_ok keccak x d \<and> ce_id d = j)" for j d
    proof (cases "j = i")
      case True
      have "x = ed_model e" if "x \<in> set rows" "model_ok keccak x d" "ce_id d = i" for x
      proof (rule ccontr)
        assume "x \<noteq> ed_model e"
        then have "x \<in> set (ct_rows tbl)" "x \<noteq> m" using that(1) unfolding mem by blast+
        moreover have "cm_channel_id x = cm_channel_id m" using that(2,3) m(2) ids by (simp add: model_ok_def)
        ultimately show False using ok m(1) unfolding ct_ok_def distinct_map by (meson inj_onD)
      qed
      then have "(\<exists>x \<in> set rows. model_ok keccak x d \<and> ce_id d = i) \<longleftrightarrow> d = c"
        using mo ids(2) mem model_ok_unique by metis
      then show ?thesis using True by auto
    next
      case False
      have "(\<exists>x \<in> set rows. model_ok keccak x d \<and> ce_id d = j) \<longleftrightarrow> (\<exists>x \<in> set (ct_rows tbl). model_ok keccak x d \<and> ce_id d = j)"
        unfolding Bex_def mem using False m mo ids model_ok_unique by metis
      then show ?thesis using False chan_Some_iff [OF ok, of j d] by simp
    qed
  qed
  moreover have "finish_channel_update keccak e tbl
      = Ok (\<lparr>ct_rows = rows, ct_next_id = ct_next_id tbl, ct_cache = ?cache\<rparr>, c, (i, ce_channel_epoch c))"
  proof -
    have "cm_id (ed_model e) \<in> cm_id ` set (ct_rows tbl)" using m(1,3) by (metis imageI)
    moreover have "u256_from_be (cm_epoch (ed_model e)) = ce_channel_epoch c"
      using mo by (auto simp: model_ok_def entry_of_model_Ok_iff ce_new_def)
    moreover have "entry_of_model keccak (ed_model e) = Ok c" using mo by (simp add: model_ok_def)
    ultimately show ?thesis using nd ids by (simp add: finish_channel_update_def Let_def parties_of_def ce_get_id_def rows_def)
  qed
  ultimately show ?thesis by blast
qed

text \<open>Adding and removing a row.\<close>

lemma ct_row_ok: "ct_ok keccak tbl \<Longrightarrow> m \<in> set (ct_rows tbl) \<Longrightarrow> \<exists>c. model_ok keccak m c"
  unfolding ct_ok_def by blast

lemma chan_None_row:
  assumes ok: "ct_ok keccak tbl" and n: "chan keccak tbl i = None" and m: "m \<in> set (ct_rows tbl)"
  shows "cm_channel_id m \<noteq> to_hex i"
proof
  assume h: "cm_channel_id m = to_hex i"
  obtain c where c: "model_ok keccak m c" using ct_row_ok [OF ok m] by blast
  then have "ce_id c = i" using h by (simp add: model_ok_def)
  then have "chan keccak tbl i = Some c" using c m chan_Some_iff [OF ok, of i c] by blast
  with n show False by simp
qed

lemma finish_channel_update_delete:
  assumes ok: "ct_ok keccak tbl" and e: "editing keccak tbl i e c" and d: "ed_delete e"
  shows "\<exists>tbl'. finish_channel_update keccak e tbl = Ok (tbl', ed_orig e, (i, ce_channel_epoch c)) \<and> ct_ok keccak tbl'
     \<and> chan keccak tbl' = (chan keccak tbl)(i := None)"
proof -
  obtain m where m: "m \<in> set (ct_rows tbl)" "model_ok keccak m (ed_orig e)" "cm_id m = cm_id (ed_model e)"
    and ch: "chan keccak tbl i = Some (ed_orig e)" and mo: "model_ok keccak (ed_model e) c" using e by (auto simp: editing_def)
  have ids: "ce_id (ed_orig e) = i" using chan_id [OF ok ch] by simp
  define rows where "rows = filter (\<lambda>x. cm_id x \<noteq> cm_id (ed_model e)) (ct_rows tbl)"
  have mem: "x \<in> set rows \<longleftrightarrow> x \<in> set (ct_rows tbl) \<and> x \<noteq> m" for x
  proof (cases "x = m \<or> x \<notin> set (ct_rows tbl)")
    case True
    then show ?thesis using m(1,3) by (auto simp: rows_def)
  next
    case False
    then have "cm_id x \<noteq> cm_id m" using ct_rows_ids [OF ok _ m(1), of x] by blast
    with False show ?thesis by (simp add: rows_def m(3) [symmetric])
  qed
  let ?cache = "(ct_cache tbl)(parties_of (ed_orig e) := None)"
  have "ct_ok keccak \<lparr>ct_rows = rows, ct_next_id = ct_next_id tbl, ct_cache = ?cache\<rparr>
     \<and> chan keccak \<lparr>ct_rows = rows, ct_next_id = ct_next_id tbl, ct_cache = ?cache\<rparr> = (chan keccak tbl)(i := None)"
  proof (rule ct_okI)
    show "distinct (map cm_id rows)" "distinct (map cm_channel_id rows)"
      using ok by (simp_all add: ct_ok_def rows_def distinct_map_filter)
    show "cm_id x < ct_next_id tbl \<and> (\<exists>c. model_ok keccak x c)" if "x \<in> set rows" for x
      using that ok unfolding mem ct_ok_def by blast
    show "r = Some d \<longleftrightarrow> ((chan keccak tbl)(i := None)) (ce_id d) = Some d \<and> parties_of d = pp"
      if "?cache pp = Some r" for pp r d
    proof -
      from that have np: "pp \<noteq> parties_of (ed_orig e)" and c0: "ct_cache tbl pp = Some r" by (auto split: if_splits)
      show ?thesis using ct_ok_cache [OF ok c0, of d] np ch by auto
    qed
    show "((chan keccak tbl)(i := None)) j = Some d \<longleftrightarrow> (\<exists>x \<in> set rows. model_ok keccak x d \<and> ce_id d = j)" for j d
    proof (cases "j = i")
      case True
      have False if "x \<in> set rows" "model_ok keccak x d" "ce_id d = i" for x
      proof -
        have "x \<in> set (ct_rows tbl)" "x \<noteq> m" using that(1) unfolding mem by blast+
        moreover have "cm_channel_id x = cm_channel_id m" using that(2,3) m(2) ids by (simp add: model_ok_def)
        ultimately show False using ok m(1) unfolding ct_ok_def distinct_map by (meson inj_onD)
      qed
      then show ?thesis using True by auto
    next
      case False
      have "(\<exists>x \<in> set rows. model_ok keccak x d \<and> ce_id d = j) \<longleftrightarrow> (\<exists>x \<in> set (ct_rows tbl). model_ok keccak x d \<and> ce_id d = j)"
        unfolding Bex_def mem using False m(1,2) ids model_ok_unique by metis
      then show ?thesis using False chan_Some_iff [OF ok, of j d] by simp
    qed
  qed
  moreover have "finish_channel_update keccak e tbl
      = Ok (\<lparr>ct_rows = rows, ct_next_id = ct_next_id tbl, ct_cache = ?cache\<rparr>, ed_orig e, (i, ce_channel_epoch c))"
  proof -
    have "u256_from_be (cm_epoch (ed_model e)) = ce_channel_epoch c"
      using mo by (auto simp: model_ok_def entry_of_model_Ok_iff ce_new_def)
    then show ?thesis using d ids by (simp add: finish_channel_update_def Let_def parties_of_def ce_get_id_def rows_def)
  qed
  ultimately show ?thesis by blast
qed

lemma upsert_new_channel:
  assumes ok: "ct_ok keccak tbl" and c: "ce_wf keccak c" and new: "chan keccak tbl (ce_id c) = None"
  shows "\<exists>tbl'. upsert_channel c tbl = Ok (tbl', (ce_id c, ce_channel_epoch c)) \<and> ct_ok keccak tbl'
     \<and> chan keccak tbl' = (chan keccak tbl)(ce_id c \<mapsto> c)"
proof -
  have none: "cm_channel_id m \<noteq> to_hex (ce_id c)" if "m \<in> set (ct_rows tbl)" for m
    by (rule chan_None_row [OF ok new that])
  then have f: "find_channel (ce_id c) tbl = None" by (simp add: find_channel_def find_None_iff)
  let ?m = "(model_of_entry c)\<lparr>cm_id := ct_next_id tbl\<rparr>"
  have mo: "model_ok keccak ?m c" using model_of_entry_ok [OF c] by simp
  have "(cm_source (model_of_entry c), cm_destination (model_of_entry c)) \<noteq> (cm_source m, cm_destination m)"
    if row: "m \<in> set (ct_rows tbl)" for m
  proof
    assume eq: "(cm_source (model_of_entry c), cm_destination (model_of_entry c)) = (cm_source m, cm_destination m)"
    obtain d where d: "model_ok keccak m d" using ct_row_ok [OF ok row] by blast
    have "ce_source d = ce_source c" "ce_destination d = ce_destination c"
      using eq d mo unfolding model_ok_def by simp_all
    then have "ce_id d = ce_id c" using c model_ok_wf [OF d] by (simp add: ce_wf_def)
    then show False using d none [OF row] by (simp add: model_ok_def)
  qed
  then have uniq: "(cm_source (model_of_entry c), cm_destination (model_of_entry c)) \<notin> (\<lambda>m. (cm_source m, cm_destination m)) ` set (ct_rows tbl)"
    by blast
  let ?cache = "(ct_cache tbl)(parties_of c := None)"
  have "ct_ok keccak \<lparr>ct_rows = ct_rows tbl @ [?m], ct_next_id = ct_next_id tbl + 1, ct_cache = ?cache\<rparr>
     \<and> chan keccak \<lparr>ct_rows = ct_rows tbl @ [?m], ct_next_id = ct_next_id tbl + 1, ct_cache = ?cache\<rparr> = (chan keccak tbl)(ce_id c \<mapsto> c)"
  proof (rule ct_okI)
    show "distinct (map cm_id (ct_rows tbl @ [?m]))" using ok by (auto simp: ct_ok_def)
    show "distinct (map cm_channel_id (ct_rows tbl @ [?m]))" using ok none mo by (auto simp: ct_ok_def model_ok_def)
    show "cm_id x < ct_next_id tbl + 1 \<and> (\<exists>c. model_ok keccak x c)" if "x \<in> set (ct_rows tbl @ [?m])" for x
      using that ok mo unfolding ct_ok_def by auto
    show "r = Some d \<longleftrightarrow> ((chan keccak tbl)(ce_id c \<mapsto> c)) (ce_id d) = Some d \<and> parties_of d = pp"
      if "?cache pp = Some r" for pp r d
    proof -
      from that have np: "pp \<noteq> parties_of c" and c0: "ct_cache tbl pp = Some r" by (auto split: if_splits)
      show ?thesis using ct_ok_cache [OF ok c0, of d] np new by auto
    qed
    show "((chan keccak tbl)(ce_id c \<mapsto> c)) j = Some d \<longleftrightarrow> (\<exists>x \<in> set (ct_rows tbl @ [?m]). model_ok keccak x d \<and> ce_id d = j)" for j d
    proof (cases "j = ce_id c")
      case True
      have False if "x \<in> set (ct_rows tbl)" "model_ok keccak x d" "ce_id d = ce_id c" for x
        using none [OF that(1)] that(2,3) by (simp add: model_ok_def)
      then show ?thesis using True mo model_ok_unique [OF mo] by auto
    next
      case False
      then show ?thesis using chan_Some_iff [OF ok, of j d] model_ok_unique [OF mo] by auto
    qed
  qed
  moreover have "upsert_channel c tbl
      = Ok (\<lparr>ct_rows = ct_rows tbl @ [?m], ct_next_id = ct_next_id tbl + 1, ct_cache = ?cache\<rparr>, (ce_id c, ce_channel_epoch c))"
    using uniq f by (simp add: upsert_channel_def Let_def ce_get_id_def parties_of_def)
  ultimately show ?thesis by blast
qed

text \<open>A row that is overwritten in place.\<close>

lemma model_ok_closure_time:
  "ce_wf keccak c \<Longrightarrow> model_ok keccak ((model_of_entry c)\<lparr>cm_id := i, cm_closure_time :=
      (case ce_status c of PendingToClose t \<Rightarrow> Some t | _ \<Rightarrow> old)\<rparr>) c"
  unfolding model_ok_def entry_of_model_Ok_iff ce_wf_def
  by (cases "ce_status c")
    (auto simp: model_of_entry_def address_from_hex_to_hex ce_new_def ce_get_id_def set_status_def status_of_model_def Let_def)

lemma upsert_known_channel:
  assumes ok: "ct_ok keccak tbl" and c: "ce_wf keccak c" and old: "chan keccak tbl (ce_id c) = Some c0"
    and p: "parties_of c = parties_of c0"
  shows "\<exists>tbl'. upsert_channel c tbl = Ok (tbl', (ce_id c, ce_channel_epoch c)) \<and> ct_ok keccak tbl'
     \<and> chan keccak tbl' = (chan keccak tbl)(ce_id c \<mapsto> c)"
proof -
  obtain m where m: "m \<in> set (ct_rows tbl)" "model_ok keccak m c0" "ce_id c0 = ce_id c"
    using old chan_Some_iff [OF ok, of "ce_id c" c0] by blast
  define m' where "m' = (model_of_entry c)\<lparr>cm_id := cm_id m, cm_closure_time :=
      (case ce_status c of PendingToClose t \<Rightarrow> Some t | _ \<Rightarrow> cm_closure_time m)\<rparr>"
  define e where "e = \<lparr>ed_orig = c0, ed_model = m', ed_delete = False\<rparr>"
  have f: "find_channel (ce_id c) tbl = Some m" unfolding find_channel_row [OF ok] using m by (simp add: model_ok_def)
  have mo: "model_ok keccak m' c" unfolding m'_def by (rule model_ok_closure_time [OF c])
  have id: "cm_id m' = cm_id m" by (simp add: m'_def)
  have "editing keccak tbl (ce_id c) e c"
    unfolding editing_def e_def using old mo p m(1,2) id by (metis channel_editor.select_convs(1,2))
  from finish_channel_update_edit [OF ok this] obtain tbl' where
    tbl': "finish_channel_update keccak e tbl = Ok (tbl', c, (ce_id c, ce_channel_epoch c))" "ct_ok keccak tbl'"
      "chan keccak tbl' = (chan keccak tbl)(ce_id c \<mapsto> c)" by (auto simp: e_def)
  have "cm_id m \<in> cm_id ` set (ct_rows tbl)" using m(1) by (rule imageI)
  moreover have "entry_of_model keccak m' = Ok c" using mo by (simp add: model_ok_def)
  ultimately have "tbl' = tbl\<lparr>ct_rows := map (\<lambda>x. if cm_id x = cm_id m then m' else x) (ct_rows tbl),
      ct_cache := (ct_cache tbl)(parties_of c := None)\<rparr>"
    using tbl'(1) p id by (simp add: finish_channel_update_def Let_def e_def parties_of_def cong: if_cong)
  then have "upsert_channel c tbl = Ok (tbl', (ce_id c, ce_channel_epoch c))"
    using f by (simp add: upsert_channel_def Let_def ce_get_id_def parties_of_def m'_def [symmetric])
  with tbl'(2,3) show ?thesis by blast
qed

section \<open>Queries\<close>

lemma query_rows:
  assumes ok: "ct_ok keccak tbl" and P: "\<And>m c. m \<in> set (ct_rows tbl) \<Longrightarrow> model_ok keccak m c \<Longrightarrow> P m \<longleftrightarrow> Q c"
  shows "\<exists>cs. (map_fail EntityError (collect_res (map (entry_of_model keccak) (filter P (ct_rows tbl))))
            :: (db_error, channel_entry list) result) = Ok cs
     \<and> distinct cs \<and> set cs = {c \<in> ran (chan keccak tbl). Q c}"
proof -
  define rows where "rows = filter P (ct_rows tbl)"
  define f where "f m = (THE c. model_ok keccak m c)" for m
  have f: "model_ok keccak m (f m)" if row: "m \<in> set (ct_rows tbl)" for m
  proof -
    obtain c where "model_ok keccak m c" using ct_row_ok [OF ok row] by blast
    then show ?thesis unfolding f_def by (rule theI) (rule model_ok_unique [OF _ \<open>model_ok keccak m c\<close>])
  qed
  have rows: "m \<in> set (ct_rows tbl)" if "m \<in> set rows" for m using that by (simp add: rows_def)
  have "collect_res (map (entry_of_model keccak) ms) = Ok (map f ms)" if "set ms \<subseteq> set (ct_rows tbl)" for ms
    using that by (induction ms) (use f in \<open>auto simp: model_ok_def\<close>)
  then have "collect_res (map (entry_of_model keccak) rows) = Ok (map f rows)" using rows by blast
  moreover have "distinct (map f rows)"
  proof -
    have "distinct (map cm_channel_id rows)" using ok by (simp add: ct_ok_def rows_def distinct_map_filter)
    moreover have "map cm_channel_id rows = map (to_hex \<circ> ce_id) (map f rows)" using f rows by (simp add: model_ok_def)
    ultimately show ?thesis using distinct_map by metis
  qed
  moreover have "set (map f rows) = {c \<in> ran (chan keccak tbl). Q c}"
  proof (rule set_eqI)
    fix c
    have "c \<in> ran (chan keccak tbl) \<longleftrightarrow> (\<exists>m \<in> set (ct_rows tbl). model_ok keccak m c)"
      unfolding ran_def using chan_Some_iff [OF ok] by auto
    moreover have "model_ok keccak m c \<longleftrightarrow> f m = c" if "m \<in> set (ct_rows tbl)" for m
      using f [OF that] model_ok_unique by blast
    ultimately show "c \<in> set (map f rows) \<longleftrightarrow> c \<in> {c \<in> ran (chan keccak tbl). Q c}"
      unfolding rows_def set_map set_filter using P [OF _ f] by blast
  qed
  ultimately show ?thesis unfolding rows_def by simp
qed

definition on_side :: "channel_direction \<Rightarrow> address \<Rightarrow> channel_entry \<Rightarrow> bool" where
  "on_side direction target c = (case direction of Incoming \<Rightarrow> ce_destination c = target | Outgoing \<Rightarrow> ce_source c = target)"

definition usable_at :: "nat \<Rightarrow> channel_entry \<Rightarrow> bool" where
  "usable_at now c = (case ce_status c of Closed \<Rightarrow> False | Open \<Rightarrow> True | PendingToClose t \<Rightarrow> now < t)"

lemma model_ok_status:
  assumes "model_ok keccak m c"
  shows "cm_status m = status_to_i8 Open \<or> cm_status m = status_to_i8 (PendingToClose now)
        \<and> (case cm_closure_time m of Some t \<Rightarrow> t > now | None \<Rightarrow> False) \<longleftrightarrow> usable_at now c"
proof -
  have "status_of_model m = Ok (ce_status c)" using assms by (auto simp: model_ok_def entry_of_model_Ok_iff ce_new_def)
  then show ?thesis
    by (cases "ce_status c"; cases "cm_closure_time m") (auto simp: status_of_model_def usable_at_def split: if_splits)
qed

lemma queries_eq:
  assumes ok: "ct_ok keccak tbl"
  shows "\<exists>cs. get_channels_via keccak dir a tbl = Ok cs \<and> distinct cs \<and> set cs = {c \<in> ran (chan keccak tbl). on_side dir a c}"
    and "\<exists>cs. get_all_channels keccak tbl = Ok cs \<and> distinct cs \<and> set cs = ran (chan keccak tbl)"
    and "\<exists>cs. stream_active_channels keccak now tbl = Ok cs \<and> distinct cs
        \<and> set cs = {c \<in> ran (chan keccak tbl). usable_at now c}"
proof -
  show "\<exists>cs. get_channels_via keccak dir a tbl = Ok cs \<and> distinct cs \<and> set cs = {c \<in> ran (chan keccak tbl). on_side dir a c}"
    unfolding get_channels_via_def
    by (rule query_rows [OF ok]) (auto simp: model_ok_def on_side_def split: channel_direction.splits)
  have "\<exists>cs. (map_fail EntityError (collect_res (map (entry_of_model keccak) (filter (\<lambda>_. True) (ct_rows tbl))))
            :: (db_error, channel_entry list) result) = Ok cs
     \<and> distinct cs \<and> set cs = {c \<in> ran (chan keccak tbl). True}" by (rule query_rows [OF ok]) simp
  then show "\<exists>cs. get_all_channels keccak tbl = Ok cs \<and> distinct cs \<and> set cs = ran (chan keccak tbl)"
    by (simp add: get_all_channels_def)
  show "\<exists>cs. stream_active_channels keccak now tbl = Ok cs \<and> distinct cs
        \<and> set cs = {c \<in> ran (chan keccak tbl). usable_at now c}"
    unfolding stream_active_channels_def by (rule query_rows [OF ok model_ok_status])
qed

section \<open>The table implements a map\<close>

text \<open>The edits of a channel, the operations on the table and what they do to the map.\<close>

datatype channel_edit = Edit_balance hopr_balance | Edit_ticket_index u256 | Edit_epoch u256 | Edit_status channel_status

fun apply_edit :: "channel_edit \<Rightarrow> channel_editor \<Rightarrow> channel_editor" where
  "apply_edit (Edit_balance b) = change_balance b"
| "apply_edit (Edit_ticket_index i) = change_ticket_index i"
| "apply_edit (Edit_epoch e) = change_epoch e"
| "apply_edit (Edit_status s) = change_status s"

fun edit_entry :: "channel_edit \<Rightarrow> channel_entry \<Rightarrow> channel_entry" where
  "edit_entry (Edit_balance b) c = c\<lparr>ce_balance := b\<rparr>"
| "edit_entry (Edit_ticket_index i) c = c\<lparr>ce_ticket_index := i\<rparr>"
| "edit_entry (Edit_epoch e) c = c\<lparr>ce_channel_epoch := e\<rparr>"
| "edit_entry (Edit_status s) c = c\<lparr>ce_status := s\<rparr>"

datatype table_op =
    Upsert channel_entry
  | Update hash "channel_edit list"
  | Remove hash
  | Lookup address address bool

fun run_table_op :: "(bytes list \<Rightarrow> hash) \<Rightarrow> table_op \<Rightarrow> channel_table \<Rightarrow> (db_error, channel_table) result" where
  "run_table_op keccak (Upsert c) tbl = map_res fst (upsert_channel c tbl)"
| "run_table_op keccak (Update i edits) tbl =
     and_then (begin_channel_update keccak i tbl) (\<lambda>editor.
       case editor of None \<Rightarrow> Ok tbl | Some e \<Rightarrow> map_res fst (finish_channel_update keccak (fold apply_edit edits e) tbl))"
| "run_table_op keccak (Remove i) tbl =
     and_then (begin_channel_update keccak i tbl) (\<lambda>editor.
       case editor of None \<Rightarrow> Ok tbl | Some e \<Rightarrow> map_res fst (finish_channel_update keccak (ed_mark_delete e) tbl))"
| "run_table_op keccak (Lookup s d use_cache) tbl = map_res fst (get_channel_by_parties keccak s d use_cache tbl)"

fun run_table_ops :: "(bytes list \<Rightarrow> hash) \<Rightarrow> table_op list \<Rightarrow> channel_table \<Rightarrow> (db_error, channel_table) result" where
  "run_table_ops keccak [] tbl = Ok tbl"
| "run_table_ops keccak (op # ops) tbl = and_then (run_table_op keccak op tbl) (run_table_ops keccak ops)"

fun map_op :: "table_op \<Rightarrow> (hash \<Rightarrow> channel_entry option) \<Rightarrow> hash \<Rightarrow> channel_entry option" where
  "map_op (Upsert c) M = M(ce_id c \<mapsto> c)"
| "map_op (Update i edits) M = (case M i of None \<Rightarrow> M | Some c \<Rightarrow> M(i \<mapsto> fold edit_entry edits c))"
| "map_op (Remove i) M = M(i := None)"
| "map_op (Lookup s d use_cache) M = M"

definition chan_in :: "(bytes list \<Rightarrow> hash) \<Rightarrow> (address \<times> address) set \<Rightarrow> channel_table \<Rightarrow> bool" where
  "chan_in keccak P tbl \<longleftrightarrow> ct_ok keccak tbl \<and> (\<forall>c \<in> ran (chan keccak tbl). parties_of c \<in> P)"

definition op_in :: "(bytes list \<Rightarrow> hash) \<Rightarrow> (address \<times> address) set \<Rightarrow> table_op \<Rightarrow> bool" where
  "op_in keccak P op = (case op of Upsert c \<Rightarrow> ce_wf keccak c \<and> parties_of c \<in> P | _ \<Rightarrow> True)"

lemma editing_fold:
  "editing keccak tbl i e c \<Longrightarrow> editing keccak tbl i (fold apply_edit edits e) (fold edit_entry edits c)"
proof (induction edits arbitrary: e c)
  case (Cons x edits)
  have "editing keccak tbl i (apply_edit x e) (edit_entry x c)" using editing_edits [OF Cons.prems] by (cases x) simp_all
  from Cons.IH [OF this] show ?case by simp
qed simp

lemma fold_edit_fields [simp]:
  "ed_delete (fold apply_edit edits e) = ed_delete e"
  "ed_orig (fold apply_edit edits e) = ed_orig e"
proof -
  have "ed_delete (apply_edit x e) = ed_delete e" "ed_orig (apply_edit x e) = ed_orig e" for x e by (cases x; simp)+
  then show "ed_delete (fold apply_edit edits e) = ed_delete e" "ed_orig (fold apply_edit edits e) = ed_orig e"
    by (induction edits arbitrary: e) simp_all
qed

lemma fold_edit_parties: "parties_of (fold edit_entry edits c) = parties_of c"
proof (induction edits arbitrary: c)
  case (Cons x edits)
  have "parties_of (edit_entry x c) = parties_of c" by (cases x) (simp_all add: parties_of_def)
  with Cons.IH show ?case by simp
qed simp

lemma chan_in_upd:
  assumes "\<forall>c \<in> ran (chan keccak tbl). parties_of c \<in> P" "parties_of c \<in> P"
  shows "\<forall>d \<in> ran ((chan keccak tbl)(i \<mapsto> c)). parties_of d \<in> P"
  using assms by (auto simp: ran_def)

lemma run_table_op_refines:
  assumes inj: "inj_on (\<lambda>(s, d). generate_channel_id keccak s d) P"
    and t: "chan_in keccak P tbl" and o: "op_in keccak P op"
  shows "\<exists>tbl'. run_table_op keccak op tbl = Ok tbl' \<and> chan_in keccak P tbl' \<and> chan keccak tbl' = map_op op (chan keccak tbl)"
proof -
  have ok: "ct_ok keccak tbl" and P: "\<forall>c \<in> ran (chan keccak tbl). parties_of c \<in> P" using t by (auto simp: chan_in_def)
  show ?thesis
  proof (cases op)
    case (Upsert c)
    have c: "ce_wf keccak c" "parties_of c \<in> P" using o Upsert by (auto simp: op_in_def)
    have "\<exists>tbl'. upsert_channel c tbl = Ok (tbl', (ce_id c, ce_channel_epoch c)) \<and> ct_ok keccak tbl'
       \<and> chan keccak tbl' = (chan keccak tbl)(ce_id c \<mapsto> c)"
    proof (cases "chan keccak tbl (ce_id c)")
      case None
      then show ?thesis by (rule upsert_new_channel [OF ok c(1)])
    next
      case (Some c0)
      have wf: "ce_wf keccak c0" "ce_id c0 = ce_id c" using chan_id [OF ok Some] by simp_all
      have "parties_of c0 \<in> P" using P Some by (auto simp: ran_def)
      then have "parties_of c = parties_of c0"
        using inj_onD [OF inj, of "parties_of c" "parties_of c0"] c wf by (simp add: ce_wf_def parties_of_def)
      then show ?thesis by (rule upsert_known_channel [OF ok c(1) Some])
    qed
    then show ?thesis using Upsert chan_in_upd [OF P c(2)] by (auto simp: chan_in_def)
  next
    case (Update i edits)
    show ?thesis
    proof (cases "chan keccak tbl i")
      case None
      then show ?thesis using begin_channel_update_eq [OF ok, of i] Update t by simp
    next
      case (Some c)
      obtain e where e: "begin_channel_update keccak i tbl = Ok (Some e)" "\<not> ed_delete e" "editing keccak tbl i e c"
        using begin_channel_update_eq [OF ok, of i] Some by auto
      have "\<not> ed_delete (fold apply_edit edits e)" using e(2) by simp
      from finish_channel_update_edit [OF ok editing_fold [OF e(3)] this] obtain tbl' where
        tbl': "finish_channel_update keccak (fold apply_edit edits e) tbl
            = Ok (tbl', fold edit_entry edits c, (i, ce_channel_epoch (fold edit_entry edits c)))" "ct_ok keccak tbl'"
          "chan keccak tbl' = (chan keccak tbl)(i \<mapsto> fold edit_entry edits c)" by blast
      have "parties_of (fold edit_entry edits c) \<in> P" unfolding fold_edit_parties using P Some by (auto simp: ran_def)
      from chan_in_upd [OF P this] show ?thesis using Update e(1) tbl' Some by (simp add: chan_in_def)
    qed
  next
    case (Remove i)
    show ?thesis
    proof (cases "chan keccak tbl i")
      case None
      then show ?thesis using begin_channel_update_eq [OF ok, of i] Remove t by (simp add: fun_upd_idem)
    next
      case (Some c)
      obtain e where e: "begin_channel_update keccak i tbl = Ok (Some e)" "editing keccak tbl i e c"
        using begin_channel_update_eq [OF ok, of i] Some by auto
      from finish_channel_update_delete [OF ok editing_edits(5) [OF e(2)]] obtain tbl' where
        tbl': "finish_channel_update keccak (ed_mark_delete e) tbl = Ok (tbl', ed_orig e, (i, ce_channel_epoch c))"
          "ct_ok keccak tbl'" "chan keccak tbl' = (chan keccak tbl)(i := None)" by auto
      have "\<forall>d \<in> ran ((chan keccak tbl)(i := None)). parties_of d \<in> P" using P by (auto simp: ran_def)
      then show ?thesis using Remove e(1) tbl' Some by (simp add: chan_in_def)
    qed
  next
    case (Lookup s d u)
    obtain tbl' r where "get_channel_by_parties keccak s d u tbl = Ok (tbl', r)" "ct_ok keccak tbl'" "ct_rows tbl' = ct_rows tbl"
      using get_channel_by_parties_eq [OF ok] by blast
    moreover from this(3) have "chan keccak tbl' = chan keccak tbl" by (intro ext) (simp add: chan_def find_channel_def)
    ultimately show ?thesis using Lookup P by (auto simp: chan_in_def)
  qed
qed

lemma run_table_ops_refine:
  assumes inj: "inj_on (\<lambda>(s, d). generate_channel_id keccak s d) P"
  shows "chan_in keccak P tbl \<Longrightarrow> \<forall>op \<in> set ops. op_in keccak P op \<Longrightarrow>
    \<exists>tbl'. run_table_ops keccak ops tbl = Ok tbl' \<and> chan_in keccak P tbl' \<and> chan keccak tbl' = fold map_op ops (chan keccak tbl)"
proof (induction ops arbitrary: tbl)
  case (Cons op ops)
  have "op_in keccak P op" using Cons.prems by simp
  from run_table_op_refines [OF inj Cons.prems(1) this] obtain tbl' where
    "run_table_op keccak op tbl = Ok tbl'" "chan_in keccak P tbl'" "chan keccak tbl' = map_op op (chan keccak tbl)" by blast
  with Cons.IH [of tbl'] Cons.prems(2) show ?case by auto
qed simp

text \<open>C20: the channel table implements a map from channel identifiers to channels. Run any sequence of insertions, edits
  (balance, ticket index, epoch, status), removals and cached or uncached lookups on an empty table, where the
  identifiers of the channels involved do not collide: every operation succeeds, the lookup by identifier returns what
  the map says, the lookup by parties returns the channel of the parties whether it is answered from the cache or from
  the rows, and the queries by direction, the query of all channels and the stream of active ones list exactly the
  channels of the map that qualify, each once.
\<close>

theorem channel_table_is_map:
  assumes "inj_on (\<lambda>(s, d). generate_channel_id keccak s d) P"
    and "\<And>op c. op \<in> set ops \<Longrightarrow> op = Upsert c \<Longrightarrow> ce_wf keccak c \<and> parties_of c \<in> P"
  shows "\<exists>tbl. run_table_ops keccak ops ct_new = Ok tbl
    \<and> (let M = fold map_op ops Map.empty in
         (\<forall>i. get_channel_by_id keccak i tbl = Ok (M i))
       \<and> (\<forall>s d use_cache. \<exists>tbl' r. get_channel_by_parties keccak s d use_cache tbl = Ok (tbl', r)
            \<and> (\<forall>c. r = Some c \<longleftrightarrow> M (ce_id c) = Some c \<and> parties_of c = (s, d)))
       \<and> (\<forall>a. \<exists>cs. get_incoming_channels keccak a tbl = Ok cs \<and> distinct cs \<and> set cs = {c \<in> ran M. ce_destination c = a})
       \<and> (\<forall>a. \<exists>cs. get_outgoing_channels keccak a tbl = Ok cs \<and> distinct cs \<and> set cs = {c \<in> ran M. ce_source c = a})
       \<and> (\<exists>cs. get_all_channels keccak tbl = Ok cs \<and> distinct cs \<and> set cs = ran M)
       \<and> (\<forall>now. \<exists>cs. stream_active_channels keccak now tbl = Ok cs \<and> distinct cs \<and> set cs = {c \<in> ran M. usable_at now c}))"
proof -
  have empty: "chan keccak ct_new = Map.empty" by (rule ext) (simp add: chan_def find_channel_def ct_new_def)
  have "ct_ok keccak ct_new" by (simp add: ct_ok_def ct_new_def)
  then have "chan_in keccak P ct_new" by (simp add: chan_in_def empty)
  moreover have "\<forall>op \<in> set ops. op_in keccak P op" using assms(2) by (auto simp: op_in_def split: table_op.splits)
  ultimately obtain tbl where tbl: "run_table_ops keccak ops ct_new = Ok tbl" "ct_ok keccak tbl"
    and M: "chan keccak tbl = fold map_op ops Map.empty"
    using run_table_ops_refine [OF assms(1)] empty by (fastforce simp: chan_in_def)
  have side: "\<exists>cs. get_incoming_channels keccak a tbl = Ok cs \<and> distinct cs \<and> set cs = {c \<in> ran (chan keccak tbl). ce_destination c = a}"
    "\<exists>cs. get_outgoing_channels keccak a tbl = Ok cs \<and> distinct cs \<and> set cs = {c \<in> ran (chan keccak tbl). ce_source c = a}" for a
    using queries_eq(1) [OF tbl(2), of Incoming a] queries_eq(1) [OF tbl(2), of Outgoing a]
    by (simp_all add: get_incoming_channels_def get_outgoing_channels_def on_side_def)
  have parties: "\<exists>tbl' r. get_channel_by_parties keccak s d use_cache tbl = Ok (tbl', r)
      \<and> (\<forall>c. r = Some c \<longleftrightarrow> chan keccak tbl (ce_id c) = Some c \<and> parties_of c = (s, d))" for s d use_cache
    using get_channel_by_parties_eq [OF tbl(2), of s d use_cache] by blast
  show ?thesis unfolding Let_def M [symmetric]
    using tbl(1) get_channel_by_id_eq [OF tbl(2)] side parties queries_eq(2) [OF tbl(2)] queries_eq(3) [OF tbl(2)] by blast
qed

text \<open>Two channels in opposite directions, one of them edited: the table at work with an injective identifier function.\<close>

theorem channel_table_is_map_witness:
  "\<exists>tbl. run_table_ops concat
      [Upsert (ce_new concat (replicate 20 1) (replicate 20 2) 10 0 Open 1), Lookup (replicate 20 1) (replicate 20 2) True,
       Upsert (ce_new concat (replicate 20 2) (replicate 20 1) 20 0 Open 1),
       Update (replicate 20 1 @ replicate 20 2) [Edit_balance 7, Edit_status (PendingToClose 100)]] ct_new = Ok tbl
     \<and> get_channel_by_id concat (replicate 20 1 @ replicate 20 2) tbl
        = Ok (Some (ce_new concat (replicate 20 1) (replicate 20 2) 7 0 (PendingToClose 100) 1))"
proof -
  let ?P = "{(replicate 20 1, replicate 20 2), (replicate 20 2, replicate 20 1 :: bytes)}"
  have inj: "inj_on (\<lambda>(s, d). generate_channel_id concat s d) ?P" by (auto simp: inj_on_def generate_channel_id_def)
  let ?ops = "[Upsert (ce_new concat (replicate 20 1) (replicate 20 2) 10 0 Open 1),
     Lookup (replicate 20 1) (replicate 20 2) True, Upsert (ce_new concat (replicate 20 2) (replicate 20 1) 20 0 Open 1),
     Update (replicate 20 1 @ replicate 20 2) [Edit_balance 7, Edit_status (PendingToClose 100)]]"
  have wf: "ce_wf concat c \<and> parties_of c \<in> ?P" if "op \<in> set ?ops" "op = Upsert c" for op c
    using that by (auto simp: ce_new_def ce_wf_def parties_of_def address_size_def)
  have "fold map_op ?ops Map.empty (replicate 20 1 @ replicate 20 2)
      = Some (ce_new concat (replicate 20 1) (replicate 20 2) 7 0 (PendingToClose 100) 1)"
  proof -
    have "replicate 20 1 @ replicate 20 2 \<noteq> replicate 20 2 @ replicate 20 (1 :: 8 word)"
      by (simp add: append_eq_append_conv)
    then show ?thesis by (simp add: ce_new_def generate_channel_id_def)
  qed
  moreover obtain tbl where "run_table_ops concat ?ops ct_new = Ok tbl"
    "\<forall>i. get_channel_by_id concat i tbl = Ok (fold map_op ?ops Map.empty i)"
  proof -
    note t = channel_table_is_map [of concat ?P ?ops, OF inj]
    show thesis by (rule exE [OF t]) (erule (1) wf, unfold Let_def, elim conjE, rule that)
  qed
  ultimately show ?thesis by (intro exI [of _ tbl] conjI) (assumption, simp only:)
qed

end
