(* ===== verification/Node_Accounts.thy ===== *)
theory Node_Accounts
  imports Channel_Table Path_Validation
begin

text \<open>
  Accounts and their on-chain announcements in the index database (\<open>db/sql/src/accounts.rs\<close>, with the key identifiers
  of \<open>db/sql/src/cache.rs\<close>, the entries of \<open>common/internal-types/src/account.rs\<close> and the signed key bindings of
  \<open>announcement.rs\<close>). The code of other packages is the argument \<open>ae\<close>: the hash function, the decompression of
  Edwards points, multiaddresses with their parser and printer, and the verification of Ed25519 signatures.
\<close>

section \<open>Account entries\<close>

record 'ma account_env =
  ae_hash :: "bytes list \<Rightarrow> hash"
  ae_valid_point :: "bytes \<Rightarrow> bool"
  ae_parse :: "string \<Rightarrow> 'ma option"
  ae_show :: "'ma \<Rightarrow> string"
  ae_protocol_stack :: "'ma \<Rightarrow> string list"
  ae_verify_message :: "bytes \<Rightarrow> offchain_key \<Rightarrow> bytes \<Rightarrow> bool"

datatype 'ma account_type = NotAnnounced | Announced 'ma u32

record 'ma account_entry =
  ac_public_key :: offchain_key
  ac_chain_addr :: address
  ac_entry_type :: "'ma account_type"
  ac_published_at :: u32

definition ac_updated_at :: "'ma account_entry \<Rightarrow> u32 option" where
  "ac_updated_at a = (case ac_entry_type a of NotAnnounced \<Rightarrow> None | Announced _ updated_block \<Rightarrow> Some updated_block)"

definition ac_key_id :: "'ma account_env \<Rightarrow> 'ma account_entry \<Rightarrow> u32" where
  "ac_key_id ae a =
     (let id_hash = ae_hash ae [ac_public_key a, ac_chain_addr a, u32_to_be (ac_published_at a)] in
      u32_from_be (take 4 id_hash))"

definition ac_has_announced :: "'ma account_entry \<Rightarrow> bool" where
  "ac_has_announced a = (case ac_entry_type a of Announced _ _ \<Rightarrow> True | NotAnnounced \<Rightarrow> False)"

definition ac_contains_routing_info :: "'ma account_env \<Rightarrow> 'ma account_entry \<Rightarrow> bool" where
  "ac_contains_routing_info ae a =
     (case ac_entry_type a of
        NotAnnounced \<Rightarrow> False
      | Announced multiaddr _ \<Rightarrow>
          (\<exists>p \<in> set (ae_protocol_stack ae multiaddr). p = ''ip4'' \<or> p = ''dns4'')
          \<and> (\<exists>p \<in> set (ae_protocol_stack ae multiaddr). p = ''tcp''))"

definition ac_get_multiaddr :: "'ma account_entry \<Rightarrow> 'ma option" where
  "ac_get_multiaddr a = (case ac_entry_type a of NotAnnounced \<Rightarrow> None | Announced multiaddr _ \<Rightarrow> Some multiaddr)"

definition ac_update :: "'ma account_type \<Rightarrow> 'ma account_entry \<Rightarrow> 'ma account_entry" where
  "ac_update new_entry_type a = a\<lparr>ac_entry_type := new_entry_type\<rparr>"

section \<open>Key bindings\<close>

record key_binding =
  kb_chain_key :: address
  kb_packet_key :: offchain_key
  kb_signature :: bytes

definition kb_prepare_for_signing :: "address \<Rightarrow> offchain_key \<Rightarrow> bytes" where
  "kb_prepare_for_signing chain_key packet_key = map (\<lambda>c. of_nat (of_char c)) ''HOPR_KEY_BINDING'' @ chain_key @ packet_key"

definition kb_from_parts ::
  "'ma account_env \<Rightarrow> address \<Rightarrow> offchain_key \<Rightarrow> bytes \<Rightarrow> (crypto_error, key_binding) result" where
  "kb_from_parts ae chain_key packet_key signature =
     (let to_verify = kb_prepare_for_signing chain_key packet_key in
      if ae_verify_message ae to_verify packet_key signature then
        Ok \<lparr>kb_chain_key = chain_key, kb_packet_key = packet_key, kb_signature = signature\<rparr>
      else Err SignatureVerification)"

section \<open>Identifiers of packet keys\<close>

record key_id_mapper =
  km_ids :: "u32 \<Rightarrow> offchain_key option"
  km_keys :: "offchain_key \<Rightarrow> u32 option"

definition km_new :: key_id_mapper where
  "km_new = \<lparr>km_ids = Map.empty, km_keys = Map.empty\<rparr>"

definition update_key_id_binding ::
  "'ma account_env \<Rightarrow> 'ma account_entry \<Rightarrow> key_id_mapper \<Rightarrow> (db_error, key_id_mapper) result" where
  "update_key_id_binding ae account km =
     (let i = ac_key_id ae account; k = ac_public_key account in
      case (km_ids km i, km_keys km k) of
        (None, None) \<Rightarrow> Ok \<lparr>km_ids = (km_ids km)(i \<mapsto> k), km_keys = (km_keys km)(k \<mapsto> i)\<rparr>
      | (Some k', Some _) \<Rightarrow>
          if k' \<noteq> k then Err (LogicalError ''attempt to insert key with key-id that already exists'') else Ok km
      | _ \<Rightarrow> Err (LogicalError ''inconsistent key-id binding''))"

definition map_key_to_id :: "key_id_mapper \<Rightarrow> offchain_key \<Rightarrow> u32 option" where
  "map_key_to_id km key = km_keys km key"

definition map_id_to_public :: "key_id_mapper \<Rightarrow> u32 \<Rightarrow> offchain_key option" where
  "map_id_to_public km i = km_ids km i"

section \<open>Tables and caches\<close>

record account_model =
  am_id :: nat
  am_chain_key :: string
  am_packet_key :: string
  am_published_at :: int

record announcement_model =
  an_id :: nat
  an_account_id :: nat
  an_multiaddress :: string
  an_at_block :: int

datatype chain_or_packet_key = ChainKey address | PacketKey offchain_key

fun key_condition :: "chain_or_packet_key \<Rightarrow> account_model \<Rightarrow> bool" where
  "key_condition (ChainKey chain_key) m = (am_chain_key m = to_hex chain_key)"
| "key_condition (PacketKey packet_key) m = (am_packet_key m = to_hex packet_key)"

fun packet_key_try_from :: "chain_or_packet_key \<Rightarrow> (general_error, offchain_key) result" where
  "packet_key_try_from (ChainKey _) = Err InvalidInput"
| "packet_key_try_from (PacketKey k) = Ok k"

fun chain_key_try_from :: "chain_or_packet_key \<Rightarrow> (general_error, address) result" where
  "chain_key_try_from (ChainKey k) = Ok k"
| "chain_key_try_from (PacketKey _) = Err InvalidInput"

text \<open>The tables in the order of their row numbers, the two translation caches and the key identifiers.\<close>

record account_db =
  ad_accounts :: "account_model list"
  ad_next_account :: nat
  ad_announcements :: "announcement_model list"
  ad_next_announcement :: nat
  ad_chain_to_offchain :: "address \<Rightarrow> offchain_key option option"
  ad_offchain_to_chain :: "offchain_key \<Rightarrow> address option option"
  ad_key_ids :: key_id_mapper

definition ad_new :: account_db where
  "ad_new =
     \<lparr>ad_accounts = [], ad_next_account = 1, ad_announcements = [], ad_next_announcement = 1,
      ad_chain_to_offchain = Map.empty, ad_offchain_to_chain = Map.empty, ad_key_ids = km_new\<rparr>"

definition offchain_key_from_hex :: "'ma account_env \<Rightarrow> string \<Rightarrow> (general_error, offchain_key) result" where
  "offchain_key_from_hex ae = from_hex (\<lambda>bs.
     and_then (fixed_bytes 32 ''OffchainPublicKey'' bs) (\<lambda>bs.
       if ae_valid_point ae bs then Ok bs else Err (ParseErr ''OffchainPublicKey.decompress'')))"

definition u32_as_i32 :: "u32 \<Rightarrow> int" where
  "u32_as_i32 x = sint x"

definition i32_as_u32 :: "int \<Rightarrow> u32" where
  "i32_as_u32 x = word_of_int x"

definition model_to_account_entry ::
  "'ma account_env \<Rightarrow> account_model \<Rightarrow> announcement_model list \<Rightarrow> (db_error, 'ma account_entry) result" where
  "model_to_account_entry ae account announcements =
     and_then (map_fail DbNonSpecificError (offchain_key_from_hex ae (am_packet_key account))) (\<lambda>public_key.
     and_then (map_fail DbNonSpecificError (address_from_hex (am_chain_key account))) (\<lambda>chain_addr.
     and_then
       (case announcements of
          [] \<Rightarrow> Ok NotAnnounced
        | a # _ \<Rightarrow> map_res (\<lambda>multiaddr. Announced multiaddr (i32_as_u32 (an_at_block a)))
                    (ok_or DecodingError (ae_parse ae (an_multiaddress a)))) (\<lambda>entry_type.
       Ok \<lparr>ac_public_key = public_key, ac_chain_addr = chain_addr, ac_entry_type = entry_type,
           ac_published_at = i32_as_u32 (am_published_at account)\<rparr>)))"

text \<open>
  The announcements that belong to an account, the latest first. Announcements of the same block, whose order the
  query leaves open, come in the order of their rows.
\<close>

definition announcements_of :: "account_db \<Rightarrow> account_model \<Rightarrow> announcement_model list" where
  "announcements_of ad m = sort_key (\<lambda>a. - an_at_block a) (filter (\<lambda>a. an_account_id a = am_id m) (ad_announcements ad))"

definition find_with_related :: "chain_or_packet_key \<Rightarrow> account_db \<Rightarrow> (account_model \<times> announcement_model list) list" where
  "find_with_related cpk ad = map (\<lambda>m. (m, announcements_of ad m)) (filter (key_condition cpk) (ad_accounts ad))"

section \<open>Operations\<close>

definition get_account ::
  "'ma account_env \<Rightarrow> chain_or_packet_key \<Rightarrow> account_db \<Rightarrow> (db_error, 'ma account_entry option) result" where
  "get_account ae cpk ad =
     (case find_with_related cpk ad of
        [] \<Rightarrow> Ok None
      | found \<Rightarrow> (let (account, announcements) = List.last found in
                 map_res Some (model_to_account_entry ae account announcements)))"

definition get_self_account :: "'ma account_env \<Rightarrow> address \<Rightarrow> account_db \<Rightarrow> (db_error, 'ma account_entry) result" where
  "get_self_account ae me_onchain ad =
     and_then (get_account ae (ChainKey me_onchain) ad) (\<lambda>a. ok_or MissingAccount a)"

definition get_accounts :: "'ma account_env \<Rightarrow> bool \<Rightarrow> account_db \<Rightarrow> (db_error, 'ma account_entry list) result" where
  "get_accounts ae public_only ad =
     (if public_only then
        collect_res (map (\<lambda>(m, as). model_to_account_entry ae m as)
          (filter (\<lambda>(m, as). as \<noteq> [])
            (map (\<lambda>m. (m, filter (\<lambda>a. an_multiaddress a \<noteq> '''') (announcements_of ad m))) (ad_accounts ad))))
      else collect_res (map (\<lambda>m. model_to_account_entry ae m (announcements_of ad m)) (ad_accounts ad)))"

fun update_first :: "('a \<Rightarrow> bool) \<Rightarrow> ('a \<Rightarrow> 'a) \<Rightarrow> 'a list \<Rightarrow> 'a list" where
  "update_first P f [] = []"
| "update_first P f (x # xs) = (if P x then f x # xs else x # update_first P f xs)"

definition insert_announcement ::
  "'ma account_env \<Rightarrow> chain_or_packet_key \<Rightarrow> 'ma \<Rightarrow> u32 \<Rightarrow> account_db \<Rightarrow> (db_error, account_db \<times> 'ma account_entry) result" where
  "insert_announcement ae cpk multiaddr at_block ad =
     (case find_with_related cpk ad of
        [] \<Rightarrow> Err MissingAccount
      | found \<Rightarrow>
         (let (existing_account, existing_announcements) = List.last found in
          case find (\<lambda>a. an_multiaddress a = ae_show ae multiaddr) existing_announcements of
            Some existing_announcement \<Rightarrow>
              let updated = existing_announcement\<lparr>an_at_block := u32_as_i32 at_block\<rparr>;
                  existing_announcements = update_first (\<lambda>a. an_multiaddress a = ae_show ae multiaddr) (\<lambda>_. updated) existing_announcements;
                  ad = ad\<lparr>ad_announcements := map (\<lambda>a. if an_id a = an_id updated then updated else a) (ad_announcements ad)\<rparr> in
              map_res (\<lambda>e. (ad, e)) (model_to_account_entry ae existing_account existing_announcements)
          | None \<Rightarrow>
              let new_announcement = \<lparr>an_id = ad_next_announcement ad, an_account_id = am_id existing_account,
                    an_multiaddress = ae_show ae multiaddr, an_at_block = u32_as_i32 at_block\<rparr>;
                  ad = ad\<lparr>ad_announcements := ad_announcements ad @ [new_announcement], ad_next_announcement := ad_next_announcement ad + 1\<rparr> in
              map_res (\<lambda>e. (ad, e)) (model_to_account_entry ae existing_account (new_announcement # existing_announcements))))"

text \<open>
  The insertion of an account runs in a transaction that is rolled back on an error; the caches keep what was written
  to them before the error.
\<close>

definition insert_account :: "'ma account_env \<Rightarrow> 'ma account_entry \<Rightarrow> account_db \<Rightarrow> account_db \<times> (db_error, unit) result" where
  "insert_account ae account ad =
     (let known = (\<exists>m \<in> set (ad_accounts ad).
            am_chain_key m = to_hex (ac_chain_addr account) \<and> am_packet_key m = to_hex (ac_public_key account));
          cached = ad\<lparr>ad_chain_to_offchain := (ad_chain_to_offchain ad)(ac_chain_addr account \<mapsto> Some (ac_public_key account)),
                      ad_offchain_to_chain := (ad_offchain_to_chain ad)(ac_public_key account \<mapsto> Some (ac_chain_addr account))\<rparr>;
          inserted = (if known then cached else
            cached\<lparr>ad_accounts := ad_accounts ad @ [\<lparr>am_id = ad_next_account ad, am_chain_key = to_hex (ac_chain_addr account),
                      am_packet_key = to_hex (ac_public_key account), am_published_at = u32_as_i32 (ac_published_at account)\<rparr>],
                   ad_next_account := ad_next_account ad + 1\<rparr>) in
      case update_key_id_binding ae account (ad_key_ids ad) of
        Inl e \<Rightarrow> (cached, Inl e)
      | Inr km \<Rightarrow>
          (case ac_entry_type account of
             NotAnnounced \<Rightarrow> (inserted\<lparr>ad_key_ids := km\<rparr>, Ok ())
           | Announced multiaddr updated_block \<Rightarrow>
               (case insert_announcement ae (ChainKey (ac_chain_addr account)) multiaddr updated_block inserted of
                  Inl e \<Rightarrow> (cached\<lparr>ad_key_ids := km\<rparr>, Inl e)
                | Inr (announced, _) \<Rightarrow> (announced\<lparr>ad_key_ids := km\<rparr>, Ok ()))))"

definition delete_all_announcements :: "chain_or_packet_key \<Rightarrow> account_db \<Rightarrow> (db_error, account_db) result" where
  "delete_all_announcements cpk ad =
     (let to_delete = concat (map (\<lambda>m. map an_id (filter (\<lambda>a. an_account_id a = am_id m) (ad_announcements ad)))
            (filter (key_condition cpk) (ad_accounts ad))) in
      if to_delete \<noteq> [] then Ok (ad\<lparr>ad_announcements := filter (\<lambda>a. an_id a \<notin> set to_delete) (ad_announcements ad)\<rparr>)
      else Err MissingAccount)"

definition delete_account :: "'ma account_env \<Rightarrow> chain_or_packet_key \<Rightarrow> account_db \<Rightarrow> (db_error, account_db) result" where
  "delete_account ae cpk ad =
     (case find (key_condition cpk) (ad_accounts ad) of
        Some entry \<Rightarrow>
          map_res (\<lambda>account_entry.
            ad\<lparr>ad_accounts := filter (\<lambda>m. am_id m \<noteq> am_id entry) (ad_accounts ad),
               ad_announcements := filter (\<lambda>a. an_account_id a \<noteq> am_id entry) (ad_announcements ad),
               ad_chain_to_offchain := (ad_chain_to_offchain ad)(ac_chain_addr account_entry := None),
               ad_offchain_to_chain := (ad_offchain_to_chain ad)(ac_public_key account_entry := None)\<rparr>)
            (model_to_account_entry ae entry [])
      | None \<Rightarrow> Err MissingAccount)"

text \<open>
  A translation that is not in the cache is read from the first matching row and cached; entries of the cache that
  are dropped after ten minutes without use are read again.
\<close>

definition translate_key ::
  "'ma account_env \<Rightarrow> chain_or_packet_key \<Rightarrow> account_db \<Rightarrow> (db_error, account_db \<times> chain_or_packet_key option) result" where
  "translate_key ae key ad =
     (case key of
        ChainKey chain_key \<Rightarrow>
          map_res (\<lambda>(ad, k). (ad, map_option PacketKey k))
            (case ad_chain_to_offchain ad chain_key of
               Some k \<Rightarrow> Ok (ad, k)
             | None \<Rightarrow>
                 map_res (\<lambda>k. (ad\<lparr>ad_chain_to_offchain := (ad_chain_to_offchain ad)(chain_key \<mapsto> k)\<rparr>, k))
                   (case find (\<lambda>m. am_chain_key m = to_hex chain_key) (ad_accounts ad) of
                      Some m \<Rightarrow> map_res Some (map_fail DbNonSpecificError (offchain_key_from_hex ae (am_packet_key m)))
                    | None \<Rightarrow> Ok None))
      | PacketKey packet_key \<Rightarrow>
          map_res (\<lambda>(ad, k). (ad, map_option ChainKey k))
            (case ad_offchain_to_chain ad packet_key of
               Some k \<Rightarrow> Ok (ad, k)
             | None \<Rightarrow>
                 map_res (\<lambda>k. (ad\<lparr>ad_offchain_to_chain := (ad_offchain_to_chain ad)(packet_key \<mapsto> k)\<rparr>, k))
                   (case find (\<lambda>m. am_packet_key m = to_hex packet_key) (ad_accounts ad) of
                      Some m \<Rightarrow> map_res Some (map_fail DbNonSpecificError (address_from_hex (am_chain_key m)))
                    | None \<Rightarrow> Ok None)))"

end
