(* ===== verification/Account_Table.thy ===== *)
theory Account_Table
  imports Node_Accounts
begin

text \<open>
  The account tables as a map: lookups, the effect of every operation on rows and caches, the refinement of a map from
  chain keys to entries, and examples where the code returns stale entries.
\<close>




section \<open>Rows and entries\<close>

definition acc_row :: "account_model \<Rightarrow> 'ma account_entry \<Rightarrow> bool" where
  "acc_row m e \<longleftrightarrow> am_chain_key m = to_hex (ac_chain_addr e) \<and> am_packet_key m = to_hex (ac_public_key e)
     \<and> am_published_at m = u32_as_i32 (ac_published_at e)"

text \<open>The bindings of chain and packet keys that may be made: valid keys, and no key and no identifier used twice.\<close>

definition bindings_ok :: "'ma account_env \<Rightarrow> 'ma account_entry set \<Rightarrow> bool" where
  "bindings_ok ae B \<longleftrightarrow>
     (\<forall>e \<in> B. length (ac_chain_addr e) = address_size \<and> length (ac_public_key e) = 32 \<and> ae_valid_point ae (ac_public_key e)
        \<and> ac_entry_type e = NotAnnounced)
     \<and> (\<forall>e \<in> B. \<forall>f \<in> B. ac_chain_addr e = ac_chain_addr f \<or> ac_public_key e = ac_public_key f \<or> ac_key_id ae e = ac_key_id ae f
          \<longrightarrow> e = f)"

definition type_of_announcements :: "'ma account_env \<Rightarrow> announcement_model list \<Rightarrow> 'ma account_type" where
  "type_of_announcements ae as =
     (case as of [] \<Rightarrow> NotAnnounced
      | a # _ \<Rightarrow> Announced (the (ae_parse ae (an_multiaddress a))) (i32_as_u32 (an_at_block a)))"

definition account_entry_at :: "'ma account_env \<Rightarrow> 'ma account_entry set \<Rightarrow> account_db \<Rightarrow> address \<Rightarrow> 'ma account_entry option" where
  "account_entry_at ae B ad c =
     map_option (\<lambda>m. (THE e. e \<in> B \<and> acc_row m e)\<lparr>ac_entry_type := type_of_announcements ae (announcements_of ad m)\<rparr>)
       (find (key_condition (ChainKey c)) (ad_accounts ad))"

definition announcement_ok :: "'ma account_env \<Rightarrow> announcement_model \<Rightarrow> bool" where
  "announcement_ok ae a \<longleftrightarrow> (\<exists>ma. ae_parse ae (an_multiaddress a) = Some ma)"

text \<open>The bound \<open>b c\<close> is the block of the last announcement of the chain key \<open>c\<close>.\<close>

definition blocks_ok :: "'ma account_entry set \<Rightarrow> (address \<Rightarrow> int) \<Rightarrow> account_db \<Rightarrow> bool" where
  "blocks_ok B b ad \<longleftrightarrow>
     (\<forall>m \<in> set (ad_accounts ad). \<forall>e \<in> B. acc_row m e \<longrightarrow>
        (\<forall>a \<in> set (ad_announcements ad). an_account_id a = am_id m \<longrightarrow> an_at_block a \<le> b (ac_chain_addr e)))"

definition rows_ok :: "'ma account_env \<Rightarrow> 'ma account_entry set \<Rightarrow> (address \<Rightarrow> int) \<Rightarrow> account_db \<Rightarrow> bool" where
  "rows_ok ae B b ad \<longleftrightarrow> blocks_ok B b ad \<and>
     distinct (map am_id (ad_accounts ad)) \<and> distinct (map am_chain_key (ad_accounts ad))
     \<and> (\<forall>m \<in> set (ad_accounts ad). am_id m < ad_next_account ad \<and> (\<exists>e \<in> B. acc_row m e))
     \<and> distinct (map an_id (ad_announcements ad))
     \<and> (\<forall>a \<in> set (ad_announcements ad). an_id a < ad_next_announcement ad \<and> an_account_id a < ad_next_account ad \<and> announcement_ok ae a)"

text \<open>The texts that the row of a chain key announces.\<close>

definition announced_texts :: "account_db \<Rightarrow> address \<Rightarrow> string set" where
  "announced_texts ad c =
     (\<Union>m \<in> {m \<in> set (ad_accounts ad). am_chain_key m = to_hex c}. an_multiaddress ` set (announcements_of ad m))"

definition bound_entry :: "account_db \<Rightarrow> 'ma account_entry \<Rightarrow> bool" where
  "bound_entry ad e \<longleftrightarrow> (\<exists>m \<in> set (ad_accounts ad). acc_row m e)"

definition caches_ok :: "'ma account_env \<Rightarrow> 'ma account_entry set \<Rightarrow> account_db \<Rightarrow> bool" where
  "caches_ok ae B ad \<longleftrightarrow>
     (\<forall>c r k. ad_chain_to_offchain ad c = Some r \<longrightarrow>
        (r = Some k \<longleftrightarrow> (\<exists>e \<in> B. bound_entry ad e \<and> ac_chain_addr e = c \<and> ac_public_key e = k)))
     \<and> (\<forall>k r c. ad_offchain_to_chain ad k = Some r \<longrightarrow>
        (r = Some c \<longleftrightarrow> (\<exists>e \<in> B. bound_entry ad e \<and> ac_chain_addr e = c \<and> ac_public_key e = k)))
     \<and> (\<forall>i k. km_ids (ad_key_ids ad) i = Some k \<longleftrightarrow> (\<exists>e \<in> B. bound_entry ad e \<and> ac_key_id ae e = i \<and> ac_public_key e = k))
     \<and> (\<forall>i k. km_keys (ad_key_ids ad) k = Some i \<longleftrightarrow> (\<exists>e \<in> B. bound_entry ad e \<and> ac_key_id ae e = i \<and> ac_public_key e = k))"

lemma i32_u32 [simp]: "i32_as_u32 (u32_as_i32 x) = x"
  by (simp add: i32_as_u32_def u32_as_i32_def)

lemma offchain_key_from_hex_to_hex: "length k = 32 \<Longrightarrow> ae_valid_point ae k \<Longrightarrow> offchain_key_from_hex ae (to_hex k) = Ok k"
  by (simp add: offchain_key_from_hex_def fixed_bytes_def)

lemma bindings_unique:
  assumes "bindings_ok ae B" "e \<in> B" "f \<in> B"
  shows "ac_chain_addr e = ac_chain_addr f \<Longrightarrow> e = f" and "ac_public_key e = ac_public_key f \<Longrightarrow> e = f"
    and "ac_key_id ae e = ac_key_id ae f \<Longrightarrow> e = f"
  using assms unfolding bindings_ok_def by blast+

lemma acc_row_unique:
  assumes "bindings_ok ae B" "e \<in> B" "acc_row m e"
  shows "(THE e. e \<in> B \<and> acc_row m e) = e"
proof (rule the_equality)
  show "f = e" if "f \<in> B \<and> acc_row m f" for f
    using that bindings_unique(1) [OF assms(1)] assms(2,3) by (auto simp: acc_row_def)
qed (use assms in simp)

lemma entry_of_row:
  assumes B: "bindings_ok ae B" and e: "e \<in> B" "acc_row m e" and as: "\<And>a. a \<in> set as \<Longrightarrow> announcement_ok ae a"
  shows "model_to_account_entry ae m as = Ok (e\<lparr>ac_entry_type := type_of_announcements ae as\<rparr>)"
proof -
  have k: "length (ac_chain_addr e) = address_size" "length (ac_public_key e) = 32" "ae_valid_point ae (ac_public_key e)"
    using B e(1) by (auto simp: bindings_ok_def)
  show ?thesis
  proof (cases as)
    case Nil
    then show ?thesis using k e(2)
      by (simp add: model_to_account_entry_def acc_row_def offchain_key_from_hex_to_hex address_from_hex_to_hex type_of_announcements_def)
  next
    case (Cons a as')
    then obtain ma where "ae_parse ae (an_multiaddress a) = Some ma" using as [of a] by (auto simp: announcement_ok_def)
    with Cons show ?thesis using k e(2)
      by (simp add: model_to_account_entry_def acc_row_def offchain_key_from_hex_to_hex address_from_hex_to_hex type_of_announcements_def)
  qed
qed

lemma set_announcements_of: "set (announcements_of ad m) = {a \<in> set (ad_announcements ad). an_account_id a = am_id m}"
  by (auto simp: announcements_of_def)

section \<open>Lookups\<close>

lemma filter_unique:
  assumes "distinct (map f xs)" "x \<in> set xs" "\<And>y. y \<in> set xs \<Longrightarrow> P y \<longleftrightarrow> f y = f x"
  shows "filter P xs = [x] \<and> find P xs = Some x"
  using assms
proof (induction xs)
  case (Cons y xs)
  show ?case
  proof (cases "y = x")
    case True
    have "\<not> P z" if "z \<in> set xs" for z using Cons.prems(1) Cons.prems(3) [of z] that True by (auto simp: image_iff)
    then have "filter P xs = []" by (simp add: filter_empty_conv)
    then show ?thesis using True Cons.prems(3) [of y] by simp
  next
    case False
    then have x: "x \<in> set xs" using Cons.prems(2) by simp
    then have "\<not> P y" using Cons.prems(1) Cons.prems(3) [of y] by (metis distinct.simps(2) image_eqI list.set_intros(1) list.set_map list.simps(9))
    then show ?thesis using Cons.IH x Cons.prems(1,3) by simp
  qed
qed simp

lemma row_binding: "rows_ok ae B b ad \<Longrightarrow> m \<in> set (ad_accounts ad) \<Longrightarrow> \<exists>e \<in> B. acc_row m e"
  unfolding rows_ok_def by blast

lemma find_with_related_eq:
  assumes "bindings_ok ae B" "rows_ok ae B b ad" and m: "m \<in> set (ad_accounts ad)" and e: "e \<in> B" "acc_row m e"
  shows "find_with_related (ChainKey (ac_chain_addr e)) ad = [(m, announcements_of ad m)]"
    and "find_with_related (PacketKey (ac_public_key e)) ad = [(m, announcements_of ad m)]"
    and "find (key_condition (ChainKey (ac_chain_addr e))) (ad_accounts ad) = Some m"
    and "find (key_condition (PacketKey (ac_public_key e))) (ad_accounts ad) = Some m"
proof -
  have d: "distinct (map am_chain_key (ad_accounts ad))" using assms(2) by (simp add: rows_ok_def)
  have c: "key_condition (ChainKey (ac_chain_addr e)) m' \<longleftrightarrow> am_chain_key m' = am_chain_key m" for m'
    using e(2) by (simp add: acc_row_def)
  have p: "key_condition (PacketKey (ac_public_key e)) m' \<longleftrightarrow> am_chain_key m' = am_chain_key m"
    if row: "m' \<in> set (ad_accounts ad)" for m'
  proof -
    obtain e' where e': "e' \<in> B" "acc_row m' e'" using row_binding [OF assms(2) row] by (elim bexE)
    have "ac_public_key e' = ac_public_key e \<longleftrightarrow> ac_chain_addr e' = ac_chain_addr e"
      using bindings_unique(1) [OF assms(1) e'(1) e(1)] bindings_unique(2) [OF assms(1) e'(1) e(1)] by metis
    then show ?thesis using e(2) e'(2) by (simp add: acc_row_def)
  qed
  note uc = filter_unique [OF d m c]
  have up: "filter (key_condition (PacketKey (ac_public_key e))) (ad_accounts ad) = [m]
      \<and> find (key_condition (PacketKey (ac_public_key e))) (ad_accounts ad) = Some m" by (rule filter_unique [OF d m p])
  show "find_with_related (ChainKey (ac_chain_addr e)) ad = [(m, announcements_of ad m)]"
    and "find_with_related (PacketKey (ac_public_key e)) ad = [(m, announcements_of ad m)]"
    unfolding find_with_related_def conjunct1 [OF uc] conjunct1 [OF up] by simp_all
  show "find (key_condition (ChainKey (ac_chain_addr e))) (ad_accounts ad) = Some m"
    "find (key_condition (PacketKey (ac_public_key e))) (ad_accounts ad) = Some m"
    by (rule conjunct2 [OF uc], rule conjunct2 [OF up])
qed

lemma find_with_related_None:
  assumes "rows_ok ae B b ad"
  shows "(\<And>e. e \<in> B \<Longrightarrow> bound_entry ad e \<Longrightarrow> ac_chain_addr e \<noteq> c) \<Longrightarrow> find_with_related (ChainKey c) ad = []
      \<and> find (key_condition (ChainKey c)) (ad_accounts ad) = None"
    and "(\<And>e. e \<in> B \<Longrightarrow> bound_entry ad e \<Longrightarrow> ac_public_key e \<noteq> k) \<Longrightarrow> find_with_related (PacketKey k) ad = []
      \<and> find (key_condition (PacketKey k)) (ad_accounts ad) = None"
proof -
  have rows: "\<exists>e \<in> B. bound_entry ad e \<and> acc_row m e" if "m \<in> set (ad_accounts ad)" for m
    using assms that unfolding rows_ok_def bound_entry_def by blast
  show "find_with_related (ChainKey c) ad = [] \<and> find (key_condition (ChainKey c)) (ad_accounts ad) = None"
    if "\<And>e. e \<in> B \<Longrightarrow> bound_entry ad e \<Longrightarrow> ac_chain_addr e \<noteq> c"
    using that rows unfolding find_with_related_def acc_row_def by (force simp: filter_empty_conv find_None_iff)
  show "find_with_related (PacketKey k) ad = [] \<and> find (key_condition (PacketKey k)) (ad_accounts ad) = None"
    if "\<And>e. e \<in> B \<Longrightarrow> bound_entry ad e \<Longrightarrow> ac_public_key e \<noteq> k"
    using that rows unfolding find_with_related_def acc_row_def by (force simp: filter_empty_conv find_None_iff)
qed

lemma entry_at:
  assumes B: "bindings_ok ae B" and ad: "rows_ok ae B b ad"
  shows "m \<in> set (ad_accounts ad) \<Longrightarrow> e \<in> B \<Longrightarrow> acc_row m e \<Longrightarrow>
      account_entry_at ae B ad (ac_chain_addr e) = Some (e\<lparr>ac_entry_type := type_of_announcements ae (announcements_of ad m)\<rparr>)"
    and "(\<And>e. e \<in> B \<Longrightarrow> bound_entry ad e \<Longrightarrow> ac_chain_addr e \<noteq> c) \<Longrightarrow> account_entry_at ae B ad c = None"
proof -
  assume m: "m \<in> set (ad_accounts ad)" and e: "e \<in> B" "acc_row m e"
  show "account_entry_at ae B ad (ac_chain_addr e) = Some (e\<lparr>ac_entry_type := type_of_announcements ae (announcements_of ad m)\<rparr>)"
    unfolding account_entry_at_def find_with_related_eq(3) [OF B ad m e] option.map acc_row_unique [OF B e] by (rule refl)
next
  assume "\<And>e. e \<in> B \<Longrightarrow> bound_entry ad e \<Longrightarrow> ac_chain_addr e \<noteq> c"
  from conjunct2 [OF find_with_related_None(1) [OF ad this]] show "account_entry_at ae B ad c = None"
    unfolding account_entry_at_def by simp
qed

lemma announcements_ok: "rows_ok ae B b ad \<Longrightarrow> a \<in> set (announcements_of ad m) \<Longrightarrow> announcement_ok ae a"
  by (auto simp: set_announcements_of rows_ok_def)

lemma get_account_eq:
  assumes B: "bindings_ok ae B" and ad: "rows_ok ae B b ad"
  shows "get_account ae (ChainKey c) ad = Ok (account_entry_at ae B ad c)"
    and "\<exists>r. get_account ae (PacketKey k) ad = Ok r
      \<and> (\<forall>e. r = Some e \<longleftrightarrow> account_entry_at ae B ad (ac_chain_addr e) = Some e \<and> ac_public_key e = k)"
proof -
  have known: "get_account ae (ChainKey (ac_chain_addr e)) ad = Ok (account_entry_at ae B ad (ac_chain_addr e))"
      "get_account ae (PacketKey (ac_public_key e)) ad = Ok (account_entry_at ae B ad (ac_chain_addr e))"
    if e: "e \<in> B" "bound_entry ad e" for e
  proof -
    obtain m where m: "m \<in> set (ad_accounts ad)" "acc_row m e" using e by (auto simp: bound_entry_def)
    note entry_of_row [OF B e(1) m(2) announcements_ok [OF ad]]
    then show "get_account ae (ChainKey (ac_chain_addr e)) ad = Ok (account_entry_at ae B ad (ac_chain_addr e))"
      "get_account ae (PacketKey (ac_public_key e)) ad = Ok (account_entry_at ae B ad (ac_chain_addr e))"
      unfolding get_account_def find_with_related_eq [OF B ad m(1) e(1) m(2)] entry_at(1) [OF B ad m(1) e(1) m(2)] by simp_all
  qed
  show "get_account ae (ChainKey c) ad = Ok (account_entry_at ae B ad c)"
  proof (cases "\<exists>e \<in> B. bound_entry ad e \<and> ac_chain_addr e = c")
    case False
    then have no: "ac_chain_addr e \<noteq> c" if "e \<in> B" "bound_entry ad e" for e using that by blast
    show ?thesis using conjunct1 [OF find_with_related_None(1) [OF ad no]] entry_at(2) [OF B ad no]
      by (simp add: get_account_def)
  qed (use known in blast)
  have some: "\<exists>f \<in> B. bound_entry ad f \<and> ac_chain_addr f = ac_chain_addr e \<and> ac_public_key f = ac_public_key e"
    if at: "account_entry_at ae B ad (ac_chain_addr e) = Some e" for e
  proof (cases "\<exists>f \<in> B. bound_entry ad f \<and> ac_chain_addr f = ac_chain_addr e")
    case True
    then obtain f where f: "f \<in> B" "bound_entry ad f" "ac_chain_addr f = ac_chain_addr e" by blast
    then obtain m where m: "m \<in> set (ad_accounts ad)" "acc_row m f" by (auto simp: bound_entry_def)
    have "e = f\<lparr>ac_entry_type := type_of_announcements ae (announcements_of ad m)\<rparr>"
      using entry_at(1) [OF B ad m(1) f(1) m(2)] unfolding f(3) at option.inject .
    then have "ac_public_key f = ac_public_key e" by simp
    with f show ?thesis by blast
  next
    case False
    then have no: "ac_chain_addr f \<noteq> ac_chain_addr e" if "f \<in> B" "bound_entry ad f" for f using that by blast
    from entry_at(2) [OF B ad no] at show ?thesis by simp
  qed
  show "\<exists>r. get_account ae (PacketKey k) ad = Ok r
      \<and> (\<forall>e. r = Some e \<longleftrightarrow> account_entry_at ae B ad (ac_chain_addr e) = Some e \<and> ac_public_key e = k)"
  proof (cases "\<exists>e \<in> B. bound_entry ad e \<and> ac_public_key e = k")
    case True
    then obtain e where e: "e \<in> B" "bound_entry ad e" "ac_public_key e = k" by blast
    have "account_entry_at ae B ad (ac_chain_addr e) = Some f
        \<longleftrightarrow> account_entry_at ae B ad (ac_chain_addr f) = Some f \<and> ac_public_key f = k" for f
    proof
      assume at: "account_entry_at ae B ad (ac_chain_addr e) = Some f"
      obtain m where m: "m \<in> set (ad_accounts ad)" "acc_row m e" using e by (auto simp: bound_entry_def)
      have "f = e\<lparr>ac_entry_type := type_of_announcements ae (announcements_of ad m)\<rparr>"
        using entry_at(1) [OF B ad m(1) e(1) m(2)] at by simp
      then show "account_entry_at ae B ad (ac_chain_addr f) = Some f \<and> ac_public_key f = k" using at e(3) by simp
    next
      assume f: "account_entry_at ae B ad (ac_chain_addr f) = Some f \<and> ac_public_key f = k"
      then obtain g where "g \<in> B" "ac_chain_addr g = ac_chain_addr f" "ac_public_key g = k" using some by blast
      with e bindings_unique(2) [OF B, of g e] f show "account_entry_at ae B ad (ac_chain_addr e) = Some f" by simp
    qed
    with known(2) [OF e(1,2)] e(3) show ?thesis by (intro exI [of _ "account_entry_at ae B ad (ac_chain_addr e)"]) blast
  next
    case False
    then have no: "ac_public_key e \<noteq> k" if "e \<in> B" "bound_entry ad e" for e using that by blast
    have "get_account ae (PacketKey k) ad = Ok None"
      using conjunct1 [OF find_with_related_None(2) [OF ad no]] by (simp add: get_account_def)
    moreover have "\<not> (account_entry_at ae B ad (ac_chain_addr e) = Some e \<and> ac_public_key e = k)" for e
    proof
      assume at: "account_entry_at ae B ad (ac_chain_addr e) = Some e \<and> ac_public_key e = k"
      from some [OF conjunct1 [OF at]] obtain f where "f \<in> B" "bound_entry ad f" "ac_public_key f = ac_public_key e" by (elim bexE conjE)
      with at have "\<exists>e \<in> B. bound_entry ad e \<and> ac_public_key e = k" by (intro bexI [of _ f]) simp_all
      with False show False by (rule notE)
    qed
    ultimately show ?thesis by simp
  qed
qed

section \<open>The effect of the operations\<close>

lemma announcements_head:
  assumes x: "x \<in> set (ad_announcements ad)" "an_account_id x = am_id m"
    and less: "\<And>y. y \<in> set (ad_announcements ad) \<Longrightarrow> an_account_id y = am_id m \<Longrightarrow> y \<noteq> x \<Longrightarrow> an_at_block y < an_at_block x"
  shows "\<exists>r. announcements_of ad m = x # r"
proof (cases "announcements_of ad m")
  case Nil
  then show ?thesis using x set_announcements_of [of ad m] by auto
next
  case (Cons y r)
  have "y \<in> set (announcements_of ad m)" using Cons by simp
  then have y: "y \<in> set (ad_announcements ad)" "an_account_id y = am_id m" by (auto simp: set_announcements_of)
  have "sorted (map (\<lambda>a. - an_at_block a) (y # r))" unfolding Cons [symmetric] announcements_of_def by (rule sorted_sort_key)
  moreover have "x \<in> set (y # r)" unfolding Cons [symmetric] set_announcements_of using x by simp
  ultimately have "y = x \<or> an_at_block x \<le> an_at_block y" by auto
  then have "y = x" using less [OF y] by fastforce
  with Cons show ?thesis by blast
qed

lemma type_of_head:
  "announcements_of ad m = x # r \<Longrightarrow> ae_parse ae (an_multiaddress x) = Some ma \<Longrightarrow>
   type_of_announcements ae (announcements_of ad m) = Announced ma (i32_as_u32 (an_at_block x))"
  by (simp add: type_of_announcements_def)

lemma announcements_of_cong:
  "filter (\<lambda>a. an_account_id a = am_id m) (ad_announcements ad') = filter (\<lambda>a. an_account_id a = am_id m) (ad_announcements ad)
   \<Longrightarrow> announcements_of ad' m = announcements_of ad m"
  by (simp add: announcements_of_def)

lemma filter_map_outside:
  "(\<And>x. x \<in> set xs \<Longrightarrow> P (g x) \<longleftrightarrow> P x) \<Longrightarrow> (\<And>x. x \<in> set xs \<Longrightarrow> P x \<Longrightarrow> g x = x) \<Longrightarrow> filter P (map g xs) = filter P xs"
  by (induction xs) auto

lemma caches_ok_cong:
  "ad_accounts ad' = ad_accounts ad \<Longrightarrow> ad_chain_to_offchain ad' = ad_chain_to_offchain ad \<Longrightarrow> ad_offchain_to_chain ad' = ad_offchain_to_chain ad
   \<Longrightarrow> ad_key_ids ad' = ad_key_ids ad \<Longrightarrow> caches_ok ae B ad' \<longleftrightarrow> caches_ok ae B ad"
  by (simp add: caches_ok_def bound_entry_def)

definition same_accounts :: "account_db \<Rightarrow> account_db \<Rightarrow> bool" where
  "same_accounts ad ad' \<longleftrightarrow>
     ad_accounts ad' = ad_accounts ad \<and> ad_next_account ad' = ad_next_account ad
     \<and> ad_chain_to_offchain ad' = ad_chain_to_offchain ad
     \<and> ad_offchain_to_chain ad' = ad_offchain_to_chain ad \<and> ad_key_ids ad' = ad_key_ids ad"

lemma blocks_ok_mono: "blocks_ok B b ad \<Longrightarrow> (\<And>c. b c \<le> b' c) \<Longrightarrow> blocks_ok B b' ad"
  unfolding blocks_ok_def by (meson order_trans)

lemma rows_ok_announcements:
  assumes "rows_ok ae B b ad" "same_accounts ad ad'" "distinct (map an_id (ad_announcements ad'))" "blocks_ok B b' ad'"
    and "\<And>a. a \<in> set (ad_announcements ad') \<Longrightarrow>
      an_id a < ad_next_announcement ad' \<and> an_account_id a < ad_next_account ad \<and> announcement_ok ae a"
  shows "rows_ok ae B b' ad'"
  using assms unfolding rows_ok_def same_accounts_def by simp

lemma row_announcement:
  "rows_ok ae B b ad \<Longrightarrow> a \<in> set (ad_announcements ad) \<Longrightarrow>
   an_id a < ad_next_announcement ad \<and> an_account_id a < ad_next_account ad \<and> announcement_ok ae a"
  unfolding rows_ok_def by blast

lemma row_block:
  "rows_ok ae B b ad \<Longrightarrow> m \<in> set (ad_accounts ad) \<Longrightarrow> e \<in> B \<Longrightarrow> acc_row m e \<Longrightarrow> a \<in> set (ad_announcements ad) \<Longrightarrow>
   an_account_id a = am_id m \<Longrightarrow> an_at_block a \<le> b (ac_chain_addr e)"
  unfolding rows_ok_def blocks_ok_def by blast

lemma blocks_ok_frame:
  "blocks_ok B b ad \<Longrightarrow> ad_accounts ad' = ad_accounts ad \<Longrightarrow> set (ad_announcements ad') \<subseteq> set (ad_announcements ad) \<Longrightarrow> blocks_ok B b ad'"
  unfolding blocks_ok_def by auto

lemma row_ids:
  "rows_ok ae B b ad \<Longrightarrow> m \<in> set (ad_accounts ad) \<Longrightarrow> m' \<in> set (ad_accounts ad) \<Longrightarrow> am_id m = am_id m' \<Longrightarrow> m = m'"
  unfolding rows_ok_def distinct_map by (meson inj_onD)

lemma insert_announcement_effect:
  assumes B: "bindings_ok ae B" and ad: "rows_ok ae B b ad" and m: "m \<in> set (ad_accounts ad)" and e: "e \<in> B" "acc_row m e"
    and b: "b (ac_chain_addr e) < u32_as_i32 bl" and ma: "ae_parse ae (ae_show ae ma) = Some ma"
  shows "\<exists>ad' r. insert_announcement ae (ChainKey (ac_chain_addr e)) ma bl ad = Ok (ad', r)
     \<and> ac_public_key r = ac_public_key e \<and> ac_chain_addr r = ac_chain_addr e
     \<and> ac_get_multiaddr r = Some (if ae_show ae ma \<in> an_multiaddress ` set (announcements_of ad m)
         then the (ae_parse ae (an_multiaddress (hd (announcements_of ad m)))) else ma)
     \<and> an_multiaddress ` set (announcements_of ad' m) = insert (ae_show ae ma) (an_multiaddress ` set (announcements_of ad m))
     \<and> rows_ok ae B (b(ac_chain_addr e := u32_as_i32 bl)) ad' \<and> same_accounts ad ad'
     \<and> type_of_announcements ae (announcements_of ad' m) = Announced ma bl
     \<and> (\<forall>m' \<in> set (ad_accounts ad). m' \<noteq> m \<longrightarrow> announcements_of ad' m' = announcements_of ad m')"
proof -
  note fr = find_with_related_eq(1) [OF B ad m e]
  have old: "announcement_ok ae a" if "a \<in> set (announcements_of ad m)" for a using announcements_ok [OF ad that] .
  have blk: "an_at_block a < u32_as_i32 bl" if "a \<in> set (ad_announcements ad)" "an_account_id a = am_id m" for a
    using row_block [OF ad m e that] b by simp
  let ?b = "b(ac_chain_addr e := u32_as_i32 bl)"
  have blocks: "blocks_ok B ?b ad'" if acc: "ad_accounts ad' = ad_accounts ad"
    and new: "\<And>a. a \<in> set (ad_announcements ad') \<Longrightarrow> a \<in> set (ad_announcements ad) \<or> an_account_id a = am_id m \<and> an_at_block a = u32_as_i32 bl" for ad'
    unfolding blocks_ok_def acc
  proof (intro ballI impI)
    fix m' f a
    assume m': "m' \<in> set (ad_accounts ad)" and f: "f \<in> B" "acc_row m' f" and a: "a \<in> set (ad_announcements ad')" "an_account_id a = am_id m'"
    from new [OF a(1)] show "an_at_block a \<le> ?b (ac_chain_addr f)"
    proof (elim disjE conjE)
      assume "a \<in> set (ad_announcements ad)"
      from row_block [OF ad m' f this a(2)] show ?thesis using b by auto
    next
      assume "an_account_id a = am_id m" and blk: "an_at_block a = u32_as_i32 bl"
      then have "m' = m" using row_ids [OF ad m' m] a(2) by simp
      then have "ac_chain_addr f = ac_chain_addr e" using e(2) f(2) by (simp add: acc_row_def)
      with blk show ?thesis by simp
    qed
  qed
  have kind_old: "type_of_announcements ae as = Announced (the (ae_parse ae (an_multiaddress (hd as)))) (i32_as_u32 (an_at_block (hd as)))"
    if "as \<noteq> []" for as using that by (cases as) (simp_all add: type_of_announcements_def)
  have others: "am_id m' \<noteq> am_id m" if "m' \<in> set (ad_accounts ad)" "m' \<noteq> m" for m' using row_ids [OF ad that(1) m] that(2) by blast
  show ?thesis
  proof (cases "find (\<lambda>a. an_multiaddress a = ae_show ae ma) (announcements_of ad m)")
    case (Some a0)
    then have "a0 \<in> set (announcements_of ad m)" and ma0: "an_multiaddress a0 = ae_show ae ma" by (auto simp: find_Some_iff)
    then have a0: "a0 \<in> set (ad_announcements ad)" "an_account_id a0 = am_id m" by (auto simp: set_announcements_of)
    define a1 where "a1 = a0\<lparr>an_at_block := u32_as_i32 bl\<rparr>"
    define g where "g a = (if an_id a = an_id a1 then a1 else a)" for a
    define ad' where "ad' = ad\<lparr>ad_announcements := map g (ad_announcements ad)\<rparr>"
    have fields: "an_id a1 = an_id a0" "an_account_id a1 = an_account_id a0" "an_multiaddress a1 = an_multiaddress a0"
      "an_at_block a1 = u32_as_i32 bl" by (simp_all add: a1_def)
    have g: "g a = (if a = a0 then a1 else a)" if "a \<in> set (ad_announcements ad)" for a
    proof -
      have "inj_on an_id (set (ad_announcements ad))" using ad by (simp add: rows_ok_def distinct_map)
      then have "an_id a = an_id a0 \<longleftrightarrow> a = a0" using inj_onD that a0(1) by fastforce
      then show ?thesis by (simp add: g_def fields)
    qed
    have ok1: "announcement_ok ae a1" using ma ma0 by (simp add: announcement_ok_def fields)
    have mem: "a \<in> set (ad_announcements ad') \<longleftrightarrow> a = a1 \<or> (a \<in> set (ad_announcements ad) \<and> a \<noteq> a0)" for a
      using g a0(1) unfolding ad'_def by (auto simp: image_iff)
    have "map an_id (ad_announcements ad') = map an_id (ad_announcements ad)"
      using g fields by (auto simp: ad'_def)
    then have dist: "distinct (map an_id (ad_announcements ad'))" using ad by (simp add: rows_ok_def)
    have rows: "rows_ok ae B ?b ad'"
    proof (rule rows_ok_announcements [OF ad _ dist])
      show "same_accounts ad ad'" by (simp add: same_accounts_def ad'_def)
      show "blocks_ok B ?b ad'" by (rule blocks) (use mem fields a0 in \<open>auto simp: ad'_def\<close>)
      show "an_id a < ad_next_announcement ad' \<and> an_account_id a < ad_next_account ad \<and> announcement_ok ae a"
        if "a \<in> set (ad_announcements ad')" for a
      proof (cases "a = a1")
        case True
        then show ?thesis using ok1 row_announcement [OF ad a0(1)] by (simp add: fields ad'_def)
      next
        case False
        then have "a \<in> set (ad_announcements ad)" using that mem by blast
        from row_announcement [OF ad this] show ?thesis by (simp add: ad'_def)
      qed
    qed
    have head: "\<exists>r. announcements_of ad' m = a1 # r"
    proof (rule announcements_head)
      show "a1 \<in> set (ad_announcements ad')" "an_account_id a1 = am_id m" using mem fields a0 by auto
      show "an_at_block y < an_at_block a1" if "y \<in> set (ad_announcements ad')" "an_account_id y = am_id m" "y \<noteq> a1" for y
        using that blk fields unfolding mem by auto
    qed
    have other: "announcements_of ad' m' = announcements_of ad m'" if "m' \<in> set (ad_accounts ad)" "m' \<noteq> m" for m'
    proof (rule announcements_of_cong)
      have "filter (\<lambda>a. an_account_id a = am_id m') (map g (ad_announcements ad)) = filter (\<lambda>a. an_account_id a = am_id m') (ad_announcements ad)"
        by (rule filter_map_outside) (use g fields a0 others [OF that] in \<open>auto split: if_splits\<close>)
      then show "filter (\<lambda>a. an_account_id a = am_id m') (ad_announcements ad') = filter (\<lambda>a. an_account_id a = am_id m') (ad_announcements ad)"
        by (simp add: ad'_def)
    qed
    have upd: "announcement_ok ae a"
      if "a \<in> set (update_first (\<lambda>a. an_multiaddress a = ae_show ae ma) (\<lambda>_. a1) (announcements_of ad m))" for a
    proof -
      have "set (update_first P (\<lambda>_. a1) xs) \<subseteq> insert a1 (set xs)" for P xs by (induction xs) auto
      with that have "a = a1 \<or> a \<in> set (announcements_of ad m)" by blast
      then show ?thesis using ok1 old by fastforce
    qed
    have ins0: "insert_announcement ae (ChainKey (ac_chain_addr e)) ma bl ad = map_res (\<lambda>x. (ad', x))
        (model_to_account_entry ae m (update_first (\<lambda>a. an_multiaddress a = ae_show ae ma) (\<lambda>_. a1) (announcements_of ad m)))"
      unfolding insert_announcement_def fr using Some
      by (simp add: Let_def ad'_def g_def [abs_def] a1_def [symmetric] cong: if_cong)
    have ins: "insert_announcement ae (ChainKey (ac_chain_addr e)) ma bl ad = Ok (ad',
        e\<lparr>ac_entry_type := type_of_announcements ae (update_first (\<lambda>a. an_multiaddress a = ae_show ae ma) (\<lambda>_. a1) (announcements_of ad m))\<rparr>)"
    proof -
      have "model_to_account_entry ae m (update_first (\<lambda>a. an_multiaddress a = ae_show ae ma) (\<lambda>_. a1) (announcements_of ad m)) = Ok (e\<lparr>ac_entry_type := type_of_announcements ae (update_first (\<lambda>a. an_multiaddress a = ae_show ae ma) (\<lambda>_. a1) (announcements_of ad m))\<rparr>)"
        by (rule entry_of_row [OF B e upd])
      with ins0 show ?thesis by simp
    qed
    have kind: "type_of_announcements ae (announcements_of ad' m) = Announced ma bl"
      using head type_of_head [of ad' m a1 _ ae ma] ma ma0 fields by auto
    have texts: "an_multiaddress ` set (announcements_of ad' m) = insert (ae_show ae ma) (an_multiaddress ` set (announcements_of ad m))"
    proof -
      have "set (announcements_of ad' m) = insert a1 (set (announcements_of ad m) - {a0})"
        unfolding set_announcements_of using mem a0 fields by auto
      moreover have "a0 \<in> set (announcements_of ad m)" using a0 by (simp add: set_announcements_of)
      ultimately show ?thesis using ma0 fields by (auto simp: image_iff)
    qed
    have known: "ae_show ae ma \<in> an_multiaddress ` set (announcements_of ad m)" "announcements_of ad m \<noteq> []"
      using \<open>a0 \<in> set (announcements_of ad m)\<close> ma0 by force+
    have hd_upd: "an_multiaddress (hd (update_first (\<lambda>a. an_multiaddress a = ae_show ae ma) (\<lambda>_. a1) as)) = an_multiaddress (hd as)"
      "update_first (\<lambda>a. an_multiaddress a = ae_show ae ma) (\<lambda>_. a1) as \<noteq> []" if "as \<noteq> []" for as
      using that ma0 fields by (cases as; simp)+
    have "ac_get_multiaddr (e\<lparr>ac_entry_type := type_of_announcements ae
          (update_first (\<lambda>a. an_multiaddress a = ae_show ae ma) (\<lambda>_. a1) (announcements_of ad m))\<rparr>)
        = Some (the (ae_parse ae (an_multiaddress (hd (announcements_of ad m)))))"
      unfolding kind_old [OF hd_upd(2) [OF known(2)]] hd_upd(1) [OF known(2)] by (simp add: ac_get_multiaddr_def)
    then show ?thesis
      using ins rows kind other texts known(1) by (intro exI [of _ ad'] exI conjI ballI impI) (assumption | simp add: same_accounts_def ad'_def)+
  next
    case None
    define a1 where "a1 = \<lparr>an_id = ad_next_announcement ad, an_account_id = am_id m, an_multiaddress = ae_show ae ma, an_at_block = u32_as_i32 bl\<rparr>"
    define ad' where "ad' = ad\<lparr>ad_announcements := ad_announcements ad @ [a1], ad_next_announcement := ad_next_announcement ad + 1\<rparr>"
    have ok1: "announcement_ok ae a1" using ma by (simp add: announcement_ok_def a1_def)
    have "an_id a1 \<notin> an_id ` set (ad_announcements ad)"
      using row_announcement [OF ad] by (fastforce simp: a1_def)
    then have dist: "distinct (map an_id (ad_announcements ad'))" using ad by (simp add: rows_ok_def ad'_def)
    have rows: "rows_ok ae B ?b ad'"
    proof (rule rows_ok_announcements [OF ad _ dist])
      show "same_accounts ad ad'" by (simp add: same_accounts_def ad'_def)
      show "blocks_ok B ?b ad'" by (rule blocks) (auto simp: ad'_def a1_def)
      show "an_id a < ad_next_announcement ad' \<and> an_account_id a < ad_next_account ad \<and> announcement_ok ae a"
        if "a \<in> set (ad_announcements ad')" for a
      proof (cases "a = a1")
        case True
        then show ?thesis using ok1 ad m by (simp add: a1_def ad'_def rows_ok_def)
      next
        case False
        then have "a \<in> set (ad_announcements ad)" using that by (simp add: ad'_def)
        from row_announcement [OF ad this] show ?thesis by (simp add: ad'_def)
      qed
    qed
    have head: "\<exists>r. announcements_of ad' m = a1 # r"
    proof (rule announcements_head)
      show "a1 \<in> set (ad_announcements ad')" "an_account_id a1 = am_id m" by (simp_all add: ad'_def a1_def)
      show "an_at_block y < an_at_block a1" if "y \<in> set (ad_announcements ad')" "an_account_id y = am_id m" "y \<noteq> a1" for y
        using that blk by (auto simp: ad'_def a1_def)
    qed
    have other: "announcements_of ad' m' = announcements_of ad m'" if "m' \<in> set (ad_accounts ad)" "m' \<noteq> m" for m'
      by (rule announcements_of_cong) (use others [OF that] in \<open>simp add: ad'_def a1_def\<close>)
    have upd: "announcement_ok ae a" if "a \<in> set (a1 # announcements_of ad m)" for a
      using that ok1 old by auto
    have ins0: "insert_announcement ae (ChainKey (ac_chain_addr e)) ma bl ad
        = map_res (\<lambda>x. (ad', x)) (model_to_account_entry ae m (a1 # announcements_of ad m))"
      unfolding insert_announcement_def fr using None by (simp add: Let_def ad'_def a1_def)
    have ins: "insert_announcement ae (ChainKey (ac_chain_addr e)) ma bl ad
        = Ok (ad', e\<lparr>ac_entry_type := type_of_announcements ae (a1 # announcements_of ad m)\<rparr>)"
    proof -
      have "model_to_account_entry ae m (a1 # announcements_of ad m) = Ok (e\<lparr>ac_entry_type := type_of_announcements ae (a1 # announcements_of ad m)\<rparr>)"
        by (rule entry_of_row [OF B e upd])
      with ins0 show ?thesis by simp
    qed
    have kind: "type_of_announcements ae (announcements_of ad' m) = Announced ma bl"
      using head type_of_head [of ad' m a1 _ ae ma] ma by (auto simp: a1_def)
    have texts: "an_multiaddress ` set (announcements_of ad' m) = insert (ae_show ae ma) (an_multiaddress ` set (announcements_of ad m))"
    proof -
      have "set (announcements_of ad' m) = insert a1 (set (announcements_of ad m))"
        unfolding set_announcements_of by (auto simp: ad'_def a1_def)
      then show ?thesis by (simp add: a1_def)
    qed
    have new: "ae_show ae ma \<notin> an_multiaddress ` set (announcements_of ad m)" using None by (auto simp: find_None_iff)
    have "ac_get_multiaddr (e\<lparr>ac_entry_type := type_of_announcements ae (a1 # announcements_of ad m)\<rparr>) = Some ma"
      using ma by (simp add: type_of_announcements_def a1_def ac_get_multiaddr_def)
    then show ?thesis
      using ins rows kind other texts new by (intro exI [of _ ad'] exI conjI ballI impI) (assumption | simp add: same_accounts_def ad'_def)+
  qed
qed

lemma delete_all_announcements_effect:
  assumes B: "bindings_ok ae B" and ad: "rows_ok ae B b ad" and m: "m \<in> set (ad_accounts ad)" and e: "e \<in> B" "acc_row m e"
  shows "if announcements_of ad m = [] then delete_all_announcements (ChainKey (ac_chain_addr e)) ad = Err MissingAccount
     else \<exists>ad'. delete_all_announcements (ChainKey (ac_chain_addr e)) ad = Ok ad'
        \<and> rows_ok ae B b ad' \<and> same_accounts ad ad' \<and> announcements_of ad' m = []
        \<and> (\<forall>m' \<in> set (ad_accounts ad). m' \<noteq> m \<longrightarrow> announcements_of ad' m' = announcements_of ad m')"
proof -
  define d where "d = map an_id (filter (\<lambda>a. an_account_id a = am_id m) (ad_announcements ad))"
  have fm: "filter (key_condition (ChainKey (ac_chain_addr e))) (ad_accounts ad) = [m]"
    using find_with_related_eq(1) [OF B ad m e] by (auto simp: find_with_related_def)
  have nil: "d = [] \<longleftrightarrow> announcements_of ad m = []"
    using set_announcements_of [of ad m] unfolding d_def by (auto simp: filter_empty_conv simp flip: set_empty)
  have del: "delete_all_announcements (ChainKey (ac_chain_addr e)) ad =
      (if d \<noteq> [] then Ok (ad\<lparr>ad_announcements := filter (\<lambda>a. an_id a \<notin> set d) (ad_announcements ad)\<rparr>) else Err MissingAccount)"
    unfolding delete_all_announcements_def fm d_def by simp
  have inj: "inj_on an_id (set (ad_announcements ad))" using ad by (simp add: rows_ok_def distinct_map)
  have ind: "an_id a \<in> set d \<longleftrightarrow> an_account_id a = am_id m" if "a \<in> set (ad_announcements ad)" for a
    using inj_onD [OF inj] that unfolding d_def by fastforce
  define ad' where "ad' = ad\<lparr>ad_announcements := filter (\<lambda>a. an_account_id a \<noteq> am_id m) (ad_announcements ad)\<rparr>"
  have "filter (\<lambda>a. an_id a \<notin> set d) (ad_announcements ad) = filter (\<lambda>a. an_account_id a \<noteq> am_id m) (ad_announcements ad)"
    by (rule filter_cong [OF refl]) (simp add: ind)
  then have del': "delete_all_announcements (ChainKey (ac_chain_addr e)) ad = (if d \<noteq> [] then Ok ad' else Err MissingAccount)"
    unfolding del ad'_def by simp
  have rows: "rows_ok ae B b ad'"
    using ad blocks_ok_frame [of B b ad ad'] unfolding rows_ok_def ad'_def by (auto simp: distinct_map_filter)
  have own: "announcements_of ad' m = []" by (auto simp: announcements_of_def ad'_def filter_empty_conv)
  have other: "announcements_of ad' m' = announcements_of ad m'" if "m' \<in> set (ad_accounts ad)" "m' \<noteq> m" for m'
  proof (rule announcements_of_cong)
    have "am_id m' \<noteq> am_id m" using row_ids [OF ad that(1) m] that(2) by blast
    then have "filter (\<lambda>a. an_account_id a = am_id m' \<and> an_account_id a \<noteq> am_id m) (ad_announcements ad)
        = filter (\<lambda>a. an_account_id a = am_id m') (ad_announcements ad)" by (intro filter_cong refl) auto
    then show "filter (\<lambda>a. an_account_id a = am_id m') (ad_announcements ad') = filter (\<lambda>a. an_account_id a = am_id m') (ad_announcements ad)"
      by (simp add: ad'_def conj_commute)
  qed
  have same: "same_accounts ad ad'" by (simp add: same_accounts_def ad'_def)
  show ?thesis using del' nil rows own other same by auto
qed

lemma find_snoc: "find P (xs @ [x]) = (case find P xs of None \<Rightarrow> if P x then Some x else None | r \<Rightarrow> r)"
  by (induction xs) auto

lemma insert_account_effect:
  assumes B: "bindings_ok ae B" and ad: "rows_ok ae B b ad" and ca: "caches_ok ae B ad" and e: "e \<in> B"
  shows "\<exists>ad'. insert_account ae e ad = (ad', Ok ()) \<and> rows_ok ae B b ad' \<and> caches_ok ae B ad'
     \<and> account_entry_at ae B ad' = (if bound_entry ad e then account_entry_at ae B ad else (account_entry_at ae B ad)(ac_chain_addr e \<mapsto> e))"
proof -
  have na: "ac_entry_type e = NotAnnounced" using B e by (auto simp: bindings_ok_def)
  define km where "km = ad_key_ids ad"
  define known where "known \<longleftrightarrow> (\<exists>m \<in> set (ad_accounts ad).
      am_chain_key m = to_hex (ac_chain_addr e) \<and> am_packet_key m = to_hex (ac_public_key e))"
  have known: "known \<longleftrightarrow> bound_entry ad e"
  proof
    assume known
    then obtain m where m: "m \<in> set (ad_accounts ad)" "am_chain_key m = to_hex (ac_chain_addr e)" by (auto simp: known_def)
    obtain f where f: "f \<in> B" "acc_row m f" using row_binding [OF ad m(1)] by (elim bexE)
    then have "ac_chain_addr f = ac_chain_addr e" using m(2) by (simp add: acc_row_def)
    then have "f = e" by (rule bindings_unique(1) [OF B f(1) e])
    with f m show "bound_entry ad e" by (auto simp: bound_entry_def)
  qed (auto simp: known_def bound_entry_def acc_row_def)
  have ids: "km_ids km i = Some k \<longleftrightarrow> (\<exists>f \<in> B. bound_entry ad f \<and> ac_key_id ae f = i \<and> ac_public_key f = k)"
    "km_keys km k = Some i \<longleftrightarrow> (\<exists>f \<in> B. bound_entry ad f \<and> ac_key_id ae f = i \<and> ac_public_key f = k)" for i k
    using ca by (simp_all add: caches_ok_def km_def)
  define m' where "m' = \<lparr>am_id = ad_next_account ad, am_chain_key = to_hex (ac_chain_addr e),
      am_packet_key = to_hex (ac_public_key e), am_published_at = u32_as_i32 (ac_published_at e)\<rparr>"
  define km' where "km' = (if bound_entry ad e then km else \<lparr>km_ids = (km_ids km)(ac_key_id ae e \<mapsto> ac_public_key e),
      km_keys = (km_keys km)(ac_public_key e \<mapsto> ac_key_id ae e)\<rparr>)"
  have upd: "update_key_id_binding ae e km = Ok km'"
  proof (cases "bound_entry ad e")
    case True
    then have "km_ids km (ac_key_id ae e) = Some (ac_public_key e)" "km_keys km (ac_public_key e) = Some (ac_key_id ae e)"
      using e ids by blast+
    then show ?thesis using True by (simp add: update_key_id_binding_def km'_def Let_def)
  next
    case False
    have "km_ids km (ac_key_id ae e) = None"
    proof (rule ccontr)
      assume "km_ids km (ac_key_id ae e) \<noteq> None"
      then obtain f where "f \<in> B" "bound_entry ad f" "ac_key_id ae f = ac_key_id ae e" using ids(1) by blast
      then show False using bindings_unique(3) [OF B _ e] False by blast
    qed
    moreover have "km_keys km (ac_public_key e) = None"
    proof (rule ccontr)
      assume "km_keys km (ac_public_key e) \<noteq> None"
      then obtain f where "f \<in> B" "bound_entry ad f" "ac_public_key f = ac_public_key e" using ids(2) by blast
      then show False using bindings_unique(2) [OF B _ e] False by blast
    qed
    ultimately show ?thesis using False by (simp add: update_key_id_binding_def km'_def Let_def)
  qed
  define ad' where "ad' = ad\<lparr>ad_accounts := (if bound_entry ad e then ad_accounts ad else ad_accounts ad @ [m']),
      ad_next_account := (if bound_entry ad e then ad_next_account ad else ad_next_account ad + 1),
      ad_chain_to_offchain := (ad_chain_to_offchain ad)(ac_chain_addr e \<mapsto> Some (ac_public_key e)),
      ad_offchain_to_chain := (ad_offchain_to_chain ad)(ac_public_key e \<mapsto> Some (ac_chain_addr e)), ad_key_ids := km'\<rparr>"
  have ins: "insert_account ae e ad = (ad', Ok ())"
    unfolding insert_account_def known_def [symmetric] known km_def [symmetric] upd
    by (simp add: Let_def na ad'_def m'_def)
  have m'e: "acc_row m' e" by (simp add: acc_row_def m'_def)
  have bound': "bound_entry ad' f \<longleftrightarrow> bound_entry ad f \<or> f = e" if f: "f \<in> B" for f
  proof -
    have "acc_row m' f \<longleftrightarrow> f = e" using bindings_unique(1) [OF B f e] m'e by (auto simp: acc_row_def m'_def)
    then show ?thesis by (auto simp: bound_entry_def ad'_def)
  qed
  have "rows_ok ae B b ad'"
  proof (cases "bound_entry ad e")
    case True
    then show ?thesis using ad blocks_ok_frame [of B b ad ad'] by (simp add: rows_ok_def ad'_def)
  next
    case False
    have "am_id m' \<notin> am_id ` set (ad_accounts ad)" using ad by (auto simp: rows_ok_def m'_def)
    moreover have "am_chain_key m' \<notin> am_chain_key ` set (ad_accounts ad)"
    proof
      assume "am_chain_key m' \<in> am_chain_key ` set (ad_accounts ad)"
      then obtain m where m: "m \<in> set (ad_accounts ad)" "am_chain_key m = am_chain_key m'" by auto
      obtain f where f: "f \<in> B" "acc_row m f" using row_binding [OF ad m(1)] by (elim bexE)
      then have "ac_chain_addr f = ac_chain_addr e" using m(2) m'e by (simp add: acc_row_def)
      then have "f = e" by (rule bindings_unique(1) [OF B f(1) e])
      then show False using f(2) m(1) False by (auto simp: bound_entry_def)
    qed
    moreover have "\<exists>f \<in> B. acc_row m' f" using e m'e by blast
    moreover have m'_id: "am_id m' = ad_next_account ad" by (simp add: m'_def)
    moreover have "blocks_ok B b ad'"
    proof -
      have "an_account_id a \<noteq> am_id m'" if "a \<in> set (ad_announcements ad)" for a using row_announcement [OF ad that] m'_id by simp
      then show ?thesis using ad False unfolding rows_ok_def blocks_ok_def ad'_def by auto
    qed
    ultimately show ?thesis using ad False unfolding rows_ok_def by (auto simp: less_Suc_eq ad'_def)
  qed
  moreover have "caches_ok ae B ad'"
  proof -
    have c: "((ad_chain_to_offchain ad)(ac_chain_addr e \<mapsto> Some (ac_public_key e))) c = Some r \<Longrightarrow>
        r = Some k \<longleftrightarrow> (\<exists>f \<in> B. bound_entry ad' f \<and> ac_chain_addr f = c \<and> ac_public_key f = k)" for c r k
    proof -
      assume r: "((ad_chain_to_offchain ad)(ac_chain_addr e \<mapsto> Some (ac_public_key e))) c = Some r"
      show "r = Some k \<longleftrightarrow> (\<exists>f \<in> B. bound_entry ad' f \<and> ac_chain_addr f = c \<and> ac_public_key f = k)"
      proof (cases "c = ac_chain_addr e")
        case True
        have "(\<exists>f \<in> B. bound_entry ad' f \<and> ac_chain_addr f = c \<and> ac_public_key f = k) \<longleftrightarrow> ac_public_key e = k"
          using True e bound' bindings_unique(1) [OF B _ e] by blast
        with r True show ?thesis by auto
      next
        case False
        then have "r = Some k \<longleftrightarrow> (\<exists>f \<in> B. bound_entry ad f \<and> ac_chain_addr f = c \<and> ac_public_key f = k)"
          using ca r unfolding caches_ok_def by (simp add: fun_upd_other)
        then show ?thesis using False bound' by blast
      qed
    qed
    have k: "((ad_offchain_to_chain ad)(ac_public_key e \<mapsto> Some (ac_chain_addr e))) k = Some r \<Longrightarrow>
        r = Some c \<longleftrightarrow> (\<exists>f \<in> B. bound_entry ad' f \<and> ac_chain_addr f = c \<and> ac_public_key f = k)" for c r k
    proof -
      assume r: "((ad_offchain_to_chain ad)(ac_public_key e \<mapsto> Some (ac_chain_addr e))) k = Some r"
      show "r = Some c \<longleftrightarrow> (\<exists>f \<in> B. bound_entry ad' f \<and> ac_chain_addr f = c \<and> ac_public_key f = k)"
      proof (cases "k = ac_public_key e")
        case True
        have "(\<exists>f \<in> B. bound_entry ad' f \<and> ac_chain_addr f = c \<and> ac_public_key f = k) \<longleftrightarrow> ac_chain_addr e = c"
          using True e bound' bindings_unique(2) [OF B _ e] by blast
        with r True show ?thesis by auto
      next
        case False
        then have "r = Some c \<longleftrightarrow> (\<exists>f \<in> B. bound_entry ad f \<and> ac_chain_addr f = c \<and> ac_public_key f = k)"
          using ca r unfolding caches_ok_def by (simp add: fun_upd_other)
        then show ?thesis using False bound' by blast
      qed
    qed
    have i: "km_ids km' i = Some k \<longleftrightarrow> (\<exists>f \<in> B. bound_entry ad' f \<and> ac_key_id ae f = i \<and> ac_public_key f = k)" for i k
    proof (cases "bound_entry ad e \<or> i \<noteq> ac_key_id ae e")
      case True
      then show ?thesis using ids(1) [of i k] bound' by (auto simp: km'_def)
    next
      case False
      then show ?thesis using e bound' bindings_unique(3) [OF B _ e] by (auto simp: km'_def)
    qed
    have j: "km_keys km' k = Some i \<longleftrightarrow> (\<exists>f \<in> B. bound_entry ad' f \<and> ac_key_id ae f = i \<and> ac_public_key f = k)" for i k
    proof (cases "bound_entry ad e \<or> k \<noteq> ac_public_key e")
      case True
      then show ?thesis using ids(2) [where i = i and k = k] bound' by (auto simp: km'_def)
    next
      case False
      then show ?thesis using e bound' bindings_unique(2) [OF B _ e] by (auto simp: km'_def)
    qed
    show ?thesis unfolding caches_ok_def using c k i j by (simp add: ad'_def)
  qed
  moreover have "account_entry_at ae B ad' = (if bound_entry ad e then account_entry_at ae B ad else (account_entry_at ae B ad)(ac_chain_addr e \<mapsto> e))"
  proof (cases "bound_entry ad e")
    case True
    have "announcements_of ad' = announcements_of ad" by (rule ext) (simp add: announcements_of_def ad'_def)
    then show ?thesis using True by (simp add: account_entry_at_def ad'_def fun_eq_iff)
  next
    case False
    have no: "ac_chain_addr f \<noteq> ac_chain_addr e" if "f \<in> B" "bound_entry ad f" for f
      using bindings_unique(1) [OF B that(1) e] that(2) False by blast
    have "find (key_condition (ChainKey (ac_chain_addr e))) (ad_accounts ad) = None"
      using conjunct2 [OF find_with_related_None(1) [OF ad no]] .
    then have f: "find (key_condition (ChainKey c)) (ad_accounts ad')
        = (if c = ac_chain_addr e then Some m' else find (key_condition (ChainKey c)) (ad_accounts ad))" for c
      using False by (auto simp: ad'_def m'_def find_snoc split: option.splits)
    have new: "announcements_of ad' m' = []"
    proof -
      have "an_account_id a \<noteq> ad_next_account ad" if "a \<in> set (ad_announcements ad)" for a
        using row_announcement [OF ad that] by simp
      then show ?thesis by (simp add: announcements_of_def ad'_def m'_def filter_empty_conv)
    qed
    have "announcements_of ad' m = announcements_of ad m" for m by (simp add: announcements_of_def ad'_def)
    then show ?thesis using False new acc_row_unique [OF B e m'e] na
      by (auto simp: account_entry_at_def f fun_eq_iff type_of_announcements_def)
  qed
  ultimately show ?thesis using ins by blast
qed

lemma account_entry_at_update:
  assumes B: "bindings_ok ae B" and ad: "rows_ok ae B b ad" and ad': "rows_ok ae B b' ad'" and m: "m \<in> set (ad_accounts ad)"
    and e: "e \<in> B" "acc_row m e"
    and same: "same_accounts ad ad'" and others: "\<forall>m' \<in> set (ad_accounts ad). m' \<noteq> m \<longrightarrow> announcements_of ad' m' = announcements_of ad m'"
  shows "account_entry_at ae B ad' = (account_entry_at ae B ad)(ac_chain_addr e \<mapsto>
      e\<lparr>ac_entry_type := type_of_announcements ae (announcements_of ad' m)\<rparr>)"
proof (rule ext)
  fix c
  have acc: "ad_accounts ad' = ad_accounts ad" using same by (simp add: same_accounts_def)
  show "account_entry_at ae B ad' c = ((account_entry_at ae B ad)(ac_chain_addr e \<mapsto>
      e\<lparr>ac_entry_type := type_of_announcements ae (announcements_of ad' m)\<rparr>)) c"
  proof (cases "c = ac_chain_addr e")
    case True
    have "m \<in> set (ad_accounts ad')" using m acc by simp
    from entry_at(1) [OF B ad' this e] True show ?thesis by simp
  next
    case False
    have "announcements_of ad' m' = announcements_of ad m'" if f: "find (key_condition (ChainKey c)) (ad_accounts ad) = Some m'" for m'
    proof -
      have "m' \<in> set (ad_accounts ad)" "am_chain_key m' = to_hex c" using f by (auto simp: find_Some_iff)
      moreover from this have "m' \<noteq> m" using e(2) False by (auto simp: acc_row_def)
      ultimately show ?thesis using others by blast
    qed
    then show ?thesis using False by (auto simp: account_entry_at_def acc split: option.splits intro!: option.map_cong)
  qed
qed

lemma bound_entry_at:
  assumes B: "bindings_ok ae B" and ad: "rows_ok ae B b ad"
  shows "(\<exists>e \<in> B. bound_entry ad e \<and> ac_chain_addr e = c \<and> ac_public_key e = k)
     \<longleftrightarrow> (\<exists>f. account_entry_at ae B ad c = Some f \<and> ac_public_key f = k)"
proof
  assume "\<exists>e \<in> B. bound_entry ad e \<and> ac_chain_addr e = c \<and> ac_public_key e = k"
  then obtain e m where e: "e \<in> B" "m \<in> set (ad_accounts ad)" "acc_row m e" "ac_chain_addr e = c" "ac_public_key e = k"
    by (auto simp: bound_entry_def)
  from entry_at(1) [OF B ad e(2) e(1) e(3)] e(4,5) show "\<exists>f. account_entry_at ae B ad c = Some f \<and> ac_public_key f = k" by simp
next
  assume "\<exists>f. account_entry_at ae B ad c = Some f \<and> ac_public_key f = k"
  then obtain f where f: "account_entry_at ae B ad c = Some f" "ac_public_key f = k" by blast
  show "\<exists>e \<in> B. bound_entry ad e \<and> ac_chain_addr e = c \<and> ac_public_key e = k"
  proof (rule ccontr)
    assume n: "\<not> ?thesis"
    show False
    proof (cases "\<exists>e \<in> B. bound_entry ad e \<and> ac_chain_addr e = c")
      case True
      then obtain e m where e: "e \<in> B" "m \<in> set (ad_accounts ad)" "acc_row m e" "ac_chain_addr e = c" by (auto simp: bound_entry_def)
      from entry_at(1) [OF B ad e(2) e(1) e(3)] e(4) f have "ac_public_key e = k" by auto
      with e n show False by (auto simp: bound_entry_def)
    next
      case False
      then have no: "ac_chain_addr e \<noteq> c" if "e \<in> B" "bound_entry ad e" for e using that by blast
      from entry_at(2) [OF B ad no] f show False by simp
    qed
  qed
qed

lemma cached_key: "caches_ok ae B ad \<Longrightarrow> ad_chain_to_offchain ad c = Some r \<Longrightarrow>
    r = Some k \<longleftrightarrow> (\<exists>e \<in> B. bound_entry ad e \<and> ac_chain_addr e = c \<and> ac_public_key e = k)"
  and cached_chain: "caches_ok ae B ad \<Longrightarrow> ad_offchain_to_chain ad k = Some r' \<Longrightarrow>
    r' = Some c \<longleftrightarrow> (\<exists>e \<in> B. bound_entry ad e \<and> ac_chain_addr e = c \<and> ac_public_key e = k)"
  unfolding caches_ok_def by simp_all

lemma translate_key_effect:
  assumes B: "bindings_ok ae B" and ad: "rows_ok ae B b ad" and ca: "caches_ok ae B ad"
  shows "\<exists>ad' r. translate_key ae key ad = Ok (ad', r) \<and> rows_ok ae B b ad' \<and> caches_ok ae B ad'
     \<and> account_entry_at ae B ad' = account_entry_at ae B ad
     \<and> (case key of
          ChainKey c \<Rightarrow> r = map_option (\<lambda>e. PacketKey (ac_public_key e)) (account_entry_at ae B ad c)
        | PacketKey k \<Rightarrow> (\<forall>x. r = Some x \<longleftrightarrow> (\<exists>c e. x = ChainKey c \<and> account_entry_at ae B ad c = Some e \<and> ac_public_key e = k)))"
proof (cases key)
  case (ChainKey c)
  define r where "r = map_option ac_public_key (account_entry_at ae B ad c)"
  have r: "r = Some k \<longleftrightarrow> (\<exists>e \<in> B. bound_entry ad e \<and> ac_chain_addr e = c \<and> ac_public_key e = k)" for k
    unfolding bound_entry_at [OF B ad] r_def by auto
  have read: "(case find (\<lambda>m. am_chain_key m = to_hex c) (ad_accounts ad) of
      Some m \<Rightarrow> map_res Some (map_fail DbNonSpecificError (offchain_key_from_hex ae (am_packet_key m)))
    | None \<Rightarrow> Ok None) = (Ok r :: (db_error, offchain_key option) result)"
  proof (cases "find (\<lambda>m. am_chain_key m = to_hex c) (ad_accounts ad)")
    case None
    have "r \<noteq> Some k" for k unfolding r using None by (auto simp: find_None_iff bound_entry_def acc_row_def)
    then have "r = None" by blast
    with None show ?thesis by simp
  next
    case (Some m)
    then have m: "m \<in> set (ad_accounts ad)" "am_chain_key m = to_hex c" by (auto simp: find_Some_iff)
    obtain e where e: "e \<in> B" "acc_row m e" using row_binding [OF ad m(1)] by (elim bexE)
    then have "ac_chain_addr e = c" "am_packet_key m = to_hex (ac_public_key e)" using m by (auto simp: acc_row_def)
    moreover have "length (ac_public_key e) = 32" "ae_valid_point ae (ac_public_key e)" using B e(1) by (auto simp: bindings_ok_def)
    moreover have "r = Some (ac_public_key e)" unfolding r using e m calculation(1) by (auto simp: bound_entry_def)
    ultimately show ?thesis using Some by (simp add: offchain_key_from_hex_to_hex)
  qed
  have out: "map_option PacketKey r = map_option (\<lambda>e. PacketKey (ac_public_key e)) (account_entry_at ae B ad c)"
    by (simp add: r_def option.map_comp comp_def)
  show ?thesis
  proof (cases "ad_chain_to_offchain ad c")
    case None
    define ad' where "ad' = ad\<lparr>ad_chain_to_offchain := (ad_chain_to_offchain ad)(c \<mapsto> r)\<rparr>"
    have "translate_key ae key ad = Ok (ad', map_option PacketKey r)"
      using None read ChainKey by (simp add: translate_key_def ad'_def)
    moreover have "rows_ok ae B b ad'" using ad blocks_ok_frame [of B b ad ad'] by (simp add: rows_ok_def ad'_def)
    moreover have "caches_ok ae B ad'" using ca r unfolding caches_ok_def bound_entry_def by (simp add: ad'_def)
    moreover have "account_entry_at ae B ad' = account_entry_at ae B ad"
      by (simp add: account_entry_at_def announcements_of_def ad'_def fun_eq_iff)
    ultimately show ?thesis using ChainKey out by simp
  next
    case (Some r')
    have "r' = r"
    proof (rule option_eq_by_Some)
      show "r' = Some k \<longleftrightarrow> r = Some k" for k unfolding r by (rule cached_key [OF ca Some])
    qed
    then show ?thesis using Some ChainKey ad ca out by (simp add: translate_key_def)
  qed
next
  case (PacketKey k)
  have u: "c = c'" if at: "account_entry_at ae B ad c = Some e" "ac_public_key e = k" "account_entry_at ae B ad c' = Some e'" "ac_public_key e' = k"
    for c c' e e'
  proof -
    note bound = iffD2 [OF bound_entry_at [OF B ad], OF exI, OF conjI]
    obtain f where f: "f \<in> B" "ac_chain_addr f = c" "ac_public_key f = k" using bound [OF at(1,2)] by (elim bexE conjE)
    obtain g where g: "g \<in> B" "ac_chain_addr g = c'" "ac_public_key g = k" using bound [OF at(3,4)] by (elim bexE conjE)
    have "f = g" by (rule bindings_unique(2) [OF B f(1) g(1)]) (simp add: f g)
    then show ?thesis using f g by simp
  qed
  define r where "r = (if \<exists>c e. account_entry_at ae B ad c = Some e \<and> ac_public_key e = k
      then Some (THE c. \<exists>e. account_entry_at ae B ad c = Some e \<and> ac_public_key e = k) else None)"
  have rr: "r = Some c \<longleftrightarrow> (\<exists>e. account_entry_at ae B ad c = Some e \<and> ac_public_key e = k)" for c
  proof -
    have the: "(THE c. \<exists>e. account_entry_at ae B ad c = Some e \<and> ac_public_key e = k) = c'"
      if at: "account_entry_at ae B ad c' = Some e" "ac_public_key e = k" for c' e
    proof (rule the_equality)
      show "d = c'" if "\<exists>f. account_entry_at ae B ad d = Some f \<and> ac_public_key f = k" for d
        using that at u by (elim exE conjE)
    qed (use at in blast)
    show ?thesis
    proof (cases "\<exists>c e. account_entry_at ae B ad c = Some e \<and> ac_public_key e = k")
      case True
      then obtain d f where d: "account_entry_at ae B ad d = Some f" "ac_public_key f = k" by blast
      have "r = Some d" using True the [OF d] by (simp add: r_def)
      show ?thesis
      proof
        assume "r = Some c"
        then have "c = d" using \<open>r = Some d\<close> by simp
        with d show "\<exists>e. account_entry_at ae B ad c = Some e \<and> ac_public_key e = k" by blast
      next
        assume "\<exists>e. account_entry_at ae B ad c = Some e \<and> ac_public_key e = k"
        then have "d = c" using u [OF d] by (elim exE conjE)
        then show "r = Some c" using \<open>r = Some d\<close> by simp
      qed
    next
      case False
      then have "r = None" by (simp add: r_def)
      with False show ?thesis by blast
    qed
  qed
  have r: "r = Some c \<longleftrightarrow> (\<exists>e \<in> B. bound_entry ad e \<and> ac_chain_addr e = c \<and> ac_public_key e = k)" for c
    unfolding rr bound_entry_at [OF B ad] by (rule refl)
  have read: "(case find (\<lambda>m. am_packet_key m = to_hex k) (ad_accounts ad) of
      Some m \<Rightarrow> map_res Some (map_fail DbNonSpecificError (address_from_hex (am_chain_key m)))
    | None \<Rightarrow> Ok None) = (Ok r :: (db_error, address option) result)"
  proof (cases "find (\<lambda>m. am_packet_key m = to_hex k) (ad_accounts ad)")
    case None
    have "r \<noteq> Some c" for c unfolding r using None by (auto simp: find_None_iff bound_entry_def acc_row_def)
    then have "r = None" by blast
    with None show ?thesis by simp
  next
    case (Some m)
    then have m: "m \<in> set (ad_accounts ad)" "am_packet_key m = to_hex k" by (auto simp: find_Some_iff)
    obtain e where e: "e \<in> B" "acc_row m e" using row_binding [OF ad m(1)] by (elim bexE)
    then have "ac_public_key e = k" "am_chain_key m = to_hex (ac_chain_addr e)" using m by (auto simp: acc_row_def)
    moreover have "length (ac_chain_addr e) = address_size" using B e(1) by (auto simp: bindings_ok_def)
    moreover have "r = Some (ac_chain_addr e)" unfolding r using e m calculation(1) by (auto simp: bound_entry_def)
    ultimately show ?thesis using Some by (simp add: address_from_hex_to_hex)
  qed
  have out: "map_option ChainKey r = Some x \<longleftrightarrow> (\<exists>c e. x = ChainKey c \<and> account_entry_at ae B ad c = Some e \<and> ac_public_key e = k)" for x
    using rr by auto
  show ?thesis
  proof (cases "ad_offchain_to_chain ad k")
    case None
    define ad' where "ad' = ad\<lparr>ad_offchain_to_chain := (ad_offchain_to_chain ad)(k \<mapsto> r)\<rparr>"
    have "translate_key ae key ad = Ok (ad', map_option ChainKey r)"
      using None read PacketKey by (simp add: translate_key_def ad'_def)
    moreover have "rows_ok ae B b ad'" using ad blocks_ok_frame [of B b ad ad'] by (simp add: rows_ok_def ad'_def)
    moreover have "caches_ok ae B ad'" using ca r unfolding caches_ok_def bound_entry_def by (simp add: ad'_def)
    moreover have "account_entry_at ae B ad' = account_entry_at ae B ad"
      by (simp add: account_entry_at_def announcements_of_def ad'_def fun_eq_iff)
    ultimately show ?thesis using PacketKey out by simp
  next
    case (Some r')
    have "r' = r"
    proof (rule option_eq_by_Some)
      show "r' = Some c \<longleftrightarrow> r = Some c" for c unfolding r by (rule cached_chain [OF ca Some])
    qed
    then show ?thesis using Some PacketKey ad ca out by (simp add: translate_key_def)
  qed
qed

section \<open>The accounts as a map\<close>

text \<open>
  A history of the accounts: bindings, announcements, revocations and translations, and what they do to a map from
  chain keys to entries. An operation that fails leaves the tables as they are.
\<close>

datatype 'ma account_op =
    Bind "'ma account_entry"
  | Announce address 'ma u32
  | Revoke address
  | Translate chain_or_packet_key

fun run_account_op :: "'ma account_env \<Rightarrow> 'ma account_op \<Rightarrow> account_db \<Rightarrow> account_db" where
  "run_account_op ae (Bind e) ad = fst (insert_account ae e ad)"
| "run_account_op ae (Announce c ma bl) ad =
     (case insert_announcement ae (ChainKey c) ma bl ad of Inr (ad', _) \<Rightarrow> ad' | Inl _ \<Rightarrow> ad)"
| "run_account_op ae (Revoke c) ad = (case delete_all_announcements (ChainKey c) ad of Inr ad' \<Rightarrow> ad' | Inl _ \<Rightarrow> ad)"
| "run_account_op ae (Translate k) ad = (case translate_key ae k ad of Inr (ad', _) \<Rightarrow> ad' | Inl _ \<Rightarrow> ad)"

fun account_map_op :: "'ma account_op \<Rightarrow> (address \<Rightarrow> 'ma account_entry option) \<Rightarrow> address \<Rightarrow> 'ma account_entry option" where
  "account_map_op (Bind e) M = (if M (ac_chain_addr e) = None then M(ac_chain_addr e \<mapsto> e) else M)"
| "account_map_op (Announce c ma bl) M =
     (case M c of None \<Rightarrow> M | Some e \<Rightarrow> M(c \<mapsto> ac_update (Announced ma bl) e))"
| "account_map_op (Revoke c) M = (case M c of None \<Rightarrow> M | Some e \<Rightarrow> M(c \<mapsto> ac_update NotAnnounced e))"
| "account_map_op (Translate k) M = M"

fun account_history_ok :: "'ma account_env \<Rightarrow> 'ma account_entry set \<Rightarrow> (address \<Rightarrow> int) \<Rightarrow> 'ma account_op list \<Rightarrow> bool" where
  "account_history_ok ae B b [] \<longleftrightarrow> True"
| "account_history_ok ae B b (Bind e # ops) \<longleftrightarrow> e \<in> B \<and> account_history_ok ae B b ops"
| "account_history_ok ae B b (Announce c ma bl # ops) \<longleftrightarrow>
     b c < u32_as_i32 bl \<and> ae_parse ae (ae_show ae ma) = Some ma \<and> account_history_ok ae B (b(c := u32_as_i32 bl)) ops"
| "account_history_ok ae B b (_ # ops) \<longleftrightarrow> account_history_ok ae B b ops"

definition accounts_inv :: "'ma account_env \<Rightarrow> 'ma account_entry set \<Rightarrow> (address \<Rightarrow> int) \<Rightarrow> account_db \<Rightarrow> bool" where
  "accounts_inv ae B b ad \<longleftrightarrow> rows_ok ae B b ad \<and> caches_ok ae B ad"

lemma accounts_inv_mono: "accounts_inv ae B b ad \<Longrightarrow> (\<And>c. b c \<le> b' c) \<Longrightarrow> accounts_inv ae B b' ad"
  using blocks_ok_mono [of B b ad b'] unfolding accounts_inv_def rows_ok_def by blast

lemma bound_at:
  assumes B: "bindings_ok ae B" and ad: "rows_ok ae B b ad"
  shows "account_entry_at ae B ad c = Some f \<Longrightarrow> \<exists>e m. e \<in> B \<and> m \<in> set (ad_accounts ad) \<and> acc_row m e \<and> ac_chain_addr e = c
      \<and> f = ac_update (type_of_announcements ae (announcements_of ad m)) e"
    and "account_entry_at ae B ad c = None \<Longrightarrow> find_with_related (ChainKey c) ad = []
      \<and> filter (key_condition (ChainKey c)) (ad_accounts ad) = []"
proof -
  show "\<exists>e m. e \<in> B \<and> m \<in> set (ad_accounts ad) \<and> acc_row m e \<and> ac_chain_addr e = c
      \<and> f = ac_update (type_of_announcements ae (announcements_of ad m)) e" if f: "account_entry_at ae B ad c = Some f"
  proof -
    have "\<exists>e \<in> B. bound_entry ad e \<and> ac_chain_addr e = c \<and> ac_public_key e = ac_public_key f"
      using f unfolding bound_entry_at [OF B ad] by blast
    then obtain e m where e: "e \<in> B" "m \<in> set (ad_accounts ad)" "acc_row m e" "ac_chain_addr e = c"
      unfolding bound_entry_def by (elim bexE conjE)
    from entry_at(1) [OF B ad e(2) e(1) e(3)] f e(4) have "f = ac_update (type_of_announcements ae (announcements_of ad m)) e"
      by (simp add: ac_update_def)
    with e show ?thesis by blast
  qed
  assume n: "account_entry_at ae B ad c = None"
  then have "find (key_condition (ChainKey c)) (ad_accounts ad) = None" by (simp add: account_entry_at_def)
  then have "filter (key_condition (ChainKey c)) (ad_accounts ad) = []" unfolding find_None_iff filter_empty_conv by blast
  then show "find_with_related (ChainKey c) ad = [] \<and> filter (key_condition (ChainKey c)) (ad_accounts ad) = []"
    by (simp add: find_with_related_def)
qed

text \<open>What one operation does.\<close>

definition last_block :: "(address \<Rightarrow> int) \<Rightarrow> 'ma account_op \<Rightarrow> address \<Rightarrow> int" where
  "last_block b op = (case op of Announce c _ bl \<Rightarrow> b(c := u32_as_i32 bl) | _ \<Rightarrow> b)"

text \<open>What an operation does to the texts that are announced, where \<open>M\<close> is the map before it.\<close>

fun account_texts_op ::
  "'ma account_env \<Rightarrow> 'ma account_op \<Rightarrow> (address \<Rightarrow> 'ma account_entry option) \<Rightarrow> (address \<Rightarrow> string set) \<Rightarrow> address \<Rightarrow> string set" where
  "account_texts_op ae (Announce c ma bl) M T = (if M c = None then T else T(c := insert (ae_show ae ma) (T c)))"
| "account_texts_op ae (Revoke c) M T = T(c := {})"
| "account_texts_op ae _ M T = T"

lemma announced_texts_row:
  assumes ad: "rows_ok ae B b ad" and m: "m \<in> set (ad_accounts ad)" and e: "acc_row m e"
  shows "announced_texts ad (ac_chain_addr e) = an_multiaddress ` set (announcements_of ad m)"
proof -
  have inj: "inj_on am_chain_key (set (ad_accounts ad))" using ad by (simp add: rows_ok_def distinct_map)
  have key: "am_chain_key m = to_hex (ac_chain_addr e)" using e by (simp add: acc_row_def)
  have "m' = m" if "m' \<in> set (ad_accounts ad)" "am_chain_key m' = to_hex (ac_chain_addr e)" for m'
    by (rule inj_onD [OF inj _ that(1) m]) (simp only: that(2) key)
  then have "{m' \<in> set (ad_accounts ad). am_chain_key m' = to_hex (ac_chain_addr e)} = {m}" using m key by blast
  then show ?thesis by (simp add: announced_texts_def)
qed

lemma announced_texts_none:
  assumes B: "bindings_ok ae B" and ad: "rows_ok ae B b ad" and "account_entry_at ae B ad c = None"
  shows "announced_texts ad c = {}"
proof -
  have "find (key_condition (ChainKey c)) (ad_accounts ad) = None" using assms(3) by (simp add: account_entry_at_def)
  then show ?thesis by (auto simp: announced_texts_def find_None_iff)
qed

lemma announced_texts_update:
  assumes B: "bindings_ok ae B" and ad: "rows_ok ae B b ad" and ad': "rows_ok ae B b' ad'" and m: "m \<in> set (ad_accounts ad)"
    and e: "e \<in> B" "acc_row m e"
    and same: "same_accounts ad ad'" and others: "\<forall>m' \<in> set (ad_accounts ad). m' \<noteq> m \<longrightarrow> announcements_of ad' m' = announcements_of ad m'"
  shows "announced_texts ad' = (announced_texts ad)(ac_chain_addr e := an_multiaddress ` set (announcements_of ad' m))"
proof (rule ext)
  fix c
  have acc: "ad_accounts ad' = ad_accounts ad" using same by (simp add: same_accounts_def)
  show "announced_texts ad' c = ((announced_texts ad)(ac_chain_addr e := an_multiaddress ` set (announcements_of ad' m))) c"
  proof (cases "c = ac_chain_addr e")
    case True
    then show ?thesis using announced_texts_row [OF ad' _ e(2)] m acc by simp
  next
    case False
    have "m' \<noteq> m" if "am_chain_key m' = to_hex c" for m' using that e(2) False by (auto simp: acc_row_def)
    then have "announced_texts ad' c = announced_texts ad c"
      unfolding announced_texts_def acc using others by (intro SUP_cong refl) simp
    then show ?thesis using False by simp
  qed
qed

lemma announced_texts_bind:
  assumes B: "bindings_ok ae B" and ad: "rows_ok ae B b ad" and e: "e \<in> B"
  shows "announced_texts (fst (insert_account ae e ad)) = announced_texts ad"
proof -
  have na: "ac_entry_type e = NotAnnounced" using B e by (auto simp: bindings_ok_def)
  define ad' where "ad' = fst (insert_account ae e ad)"
  define m' where "m' = \<lparr>am_id = ad_next_account ad, am_chain_key = to_hex (ac_chain_addr e),
      am_packet_key = to_hex (ac_public_key e), am_published_at = u32_as_i32 (ac_published_at e)\<rparr>"
  have an: "ad_announcements ad' = ad_announcements ad"
    and acc: "ad_accounts ad' = ad_accounts ad \<or> ad_accounts ad' = ad_accounts ad @ [m']"
    unfolding ad'_def insert_account_def by (auto simp: Let_def na m'_def split: sum.splits)
  have "announcements_of ad' m = announcements_of ad m" for m by (simp add: announcements_of_def an)
  moreover have "announcements_of ad m' = []"
  proof -
    have "an_account_id a \<noteq> am_id m'" if "a \<in> set (ad_announcements ad)" for a using row_announcement [OF ad that] by (simp add: m'_def)
    then show ?thesis by (simp add: announcements_of_def filter_empty_conv)
  qed
  ultimately have "announced_texts ad' c = announced_texts ad c" for c
    using acc by (elim disjE) (auto simp: announced_texts_def)
  then show ?thesis unfolding ad'_def [symmetric] by (rule ext)
qed

lemma announced_texts_translate:
  "translate_key ae k ad = Ok (ad', r) \<Longrightarrow> announced_texts ad' = announced_texts ad"
proof -
  assume "translate_key ae k ad = Ok (ad', r)"
  then have "ad_accounts ad' = ad_accounts ad" "ad_announcements ad' = ad_announcements ad"
    unfolding translate_key_def by (auto simp: res_simps split: chain_or_packet_key.splits option.splits)
  then show ?thesis by (simp add: announced_texts_def announcements_of_def fun_eq_iff)
qed

lemma run_account_op_refines:
  assumes B: "bindings_ok ae B" and inv: "accounts_inv ae B b ad" and ok: "account_history_ok ae B b [op]"
  shows "\<exists>b'. b' = last_block b op \<and> (\<forall>ops. account_history_ok ae B b (op # ops) \<longrightarrow> account_history_ok ae B b' ops)
     \<and> accounts_inv ae B b' (run_account_op ae op ad)
     \<and> account_entry_at ae B (run_account_op ae op ad) = account_map_op op (account_entry_at ae B ad)
     \<and> announced_texts (run_account_op ae op ad) = account_texts_op ae op (account_entry_at ae B ad) (announced_texts ad)"
proof (cases op)
  case (Bind e)
  have ad: "rows_ok ae B b ad" and ca: "caches_ok ae B ad" and e: "e \<in> B" using inv ok Bind by (auto simp: accounts_inv_def)
  obtain ad' where ad': "insert_account ae e ad = (ad', Ok ())" "rows_ok ae B b ad'" "caches_ok ae B ad'"
    "account_entry_at ae B ad' = (if bound_entry ad e then account_entry_at ae B ad else (account_entry_at ae B ad)(ac_chain_addr e \<mapsto> e))"
    using insert_account_effect [OF B ad ca e] by blast
  have "account_entry_at ae B ad (ac_chain_addr e) = None \<longleftrightarrow> \<not> bound_entry ad e"
  proof
    assume n: "account_entry_at ae B ad (ac_chain_addr e) = None"
    show "\<not> bound_entry ad e"
    proof
      assume "bound_entry ad e"
      then obtain m where "m \<in> set (ad_accounts ad)" "acc_row m e" by (auto simp: bound_entry_def)
      from entry_at(1) [OF B ad this(1) e this(2)] n show False by simp
    qed
  next
    assume n: "\<not> bound_entry ad e"
    show "account_entry_at ae B ad (ac_chain_addr e) = None"
    proof (rule entry_at(2) [OF B ad])
      show "ac_chain_addr f \<noteq> ac_chain_addr e" if "f \<in> B" "bound_entry ad f" for f
        using bindings_unique(1) [OF B that(1) e] that(2) n by blast
    qed
  qed
  then show ?thesis using ad' Bind announced_texts_bind [OF B ad e] by (intro exI [of _ b]) (auto simp: accounts_inv_def last_block_def)
next
  case (Announce c ma bl)
  have ad: "rows_ok ae B b ad" and ca: "caches_ok ae B ad" and b: "b c < u32_as_i32 bl" and ma: "ae_parse ae (ae_show ae ma) = Some ma"
    using inv ok Announce by (auto simp: accounts_inv_def)
  let ?b = "b(c := u32_as_i32 bl)"
  have hist: "\<forall>ops. account_history_ok ae B b (op # ops) \<longrightarrow> account_history_ok ae B ?b ops" using Announce by simp
  show ?thesis
  proof (cases "account_entry_at ae B ad c")
    case None
    then have "insert_announcement ae (ChainKey c) ma bl ad = Err MissingAccount"
      using bound_at(2) [OF B ad] by (simp add: insert_announcement_def)
    moreover have "accounts_inv ae B ?b ad" by (rule accounts_inv_mono [OF inv]) (use b in simp)
    ultimately show ?thesis using hist Announce None by (intro exI [of _ ?b]) (simp add: last_block_def)
  next
    case (Some f)
    obtain e m where e: "e \<in> B" "m \<in> set (ad_accounts ad)" "acc_row m e" "ac_chain_addr e = c"
      "f = ac_update (type_of_announcements ae (announcements_of ad m)) e" using bound_at(1) [OF B ad Some] by (elim exE conjE)
    have b': "b (ac_chain_addr e) < u32_as_i32 bl" using b e(4) by simp
    obtain ad' r where ad': "insert_announcement ae (ChainKey c) ma bl ad = Ok (ad', r)"
      "rows_ok ae B ?b ad'" "same_accounts ad ad'"
      "type_of_announcements ae (announcements_of ad' m) = Announced ma bl"
      "\<forall>m' \<in> set (ad_accounts ad). m' \<noteq> m \<longrightarrow> announcements_of ad' m' = announcements_of ad m'"
      and texts: "an_multiaddress ` set (announcements_of ad' m) = insert (ae_show ae ma) (an_multiaddress ` set (announcements_of ad m))"
      using insert_announcement_effect [OF B ad e(2) e(1) e(3) b' ma] unfolding e(4) by (elim exE conjE)
    have "account_entry_at ae B ad' = (account_entry_at ae B ad)(c \<mapsto> ac_update (Announced ma bl) f)"
      using account_entry_at_update [OF B ad ad'(2) e(2) e(1) e(3) ad'(3,5)] ad'(4) e(4,5) by (simp add: ac_update_def)
    moreover have "caches_ok ae B ad'" using ca caches_ok_cong [of ad' ad ae B] ad'(3) unfolding same_accounts_def by blast
    moreover have "run_account_op ae op ad = ad'" using ad'(1) Announce e(4) by simp
    moreover have "announced_texts ad' = (announced_texts ad)(c := insert (ae_show ae ma) (announced_texts ad c))"
      using announced_texts_update [OF B ad ad'(2) e(2) e(1) e(3) ad'(3,5)] announced_texts_row [OF ad e(2,3)] texts e(4) by simp
    ultimately show ?thesis using hist ad'(2) Announce Some
      by (intro exI [of _ ?b]) (simp add: accounts_inv_def last_block_def)
  qed
next
  case (Revoke c)
  have ad: "rows_ok ae B b ad" and ca: "caches_ok ae B ad" using inv by (auto simp: accounts_inv_def)
  have hist: "\<forall>ops. account_history_ok ae B b (op # ops) \<longrightarrow> account_history_ok ae B b ops" using Revoke by simp
  show ?thesis
  proof (cases "account_entry_at ae B ad c")
    case None
    then have "delete_all_announcements (ChainKey c) ad = Err MissingAccount"
      using bound_at(2) [OF B ad] by (simp add: delete_all_announcements_def)
    moreover have "(announced_texts ad)(c := {}) = announced_texts ad" using announced_texts_none [OF B ad None] by (simp add: fun_upd_idem)
    ultimately show ?thesis using hist Revoke None inv by (intro exI [of _ b]) (simp add: last_block_def)
  next
    case (Some f)
    obtain e m where e: "e \<in> B" "m \<in> set (ad_accounts ad)" "acc_row m e" "ac_chain_addr e = c"
      "f = ac_update (type_of_announcements ae (announcements_of ad m)) e" using bound_at(1) [OF B ad Some] by (elim exE conjE)
    note del = delete_all_announcements_effect [OF B ad e(2) e(1) e(3)]
    show ?thesis
    proof (cases "announcements_of ad m = []")
      case True
      then have "f = ac_update NotAnnounced f" using e(5) by (simp add: type_of_announcements_def ac_update_def)
      then have "(account_entry_at ae B ad)(c \<mapsto> ac_update NotAnnounced f) = account_entry_at ae B ad" using Some by auto
      moreover have "(announced_texts ad)(c := {}) = announced_texts ad"
        using announced_texts_row [OF ad e(2,3)] True e(4) by (simp add: fun_upd_idem)
      ultimately show ?thesis using del True e(4) Revoke Some hist inv by (intro exI [of _ b]) (simp add: last_block_def)
    next
      case False
      then obtain ad' where ad': "delete_all_announcements (ChainKey (ac_chain_addr e)) ad = Ok ad'" "rows_ok ae B b ad'"
        "same_accounts ad ad'" "announcements_of ad' m = []"
        "\<forall>m' \<in> set (ad_accounts ad). m' \<noteq> m \<longrightarrow> announcements_of ad' m' = announcements_of ad m'"
        using del by auto
      have "account_entry_at ae B ad' = (account_entry_at ae B ad)(c \<mapsto> ac_update NotAnnounced f)"
        using account_entry_at_update [OF B ad ad'(2) e(2) e(1) e(3) ad'(3,5)] ad'(4) e(4,5)
        by (simp add: ac_update_def type_of_announcements_def)
      moreover have "caches_ok ae B ad'" using ca caches_ok_cong [of ad' ad ae B] ad'(3) unfolding same_accounts_def by blast
      moreover have "run_account_op ae op ad = ad'" using ad'(1) Revoke e(4) by simp
      moreover have "announced_texts ad' = (announced_texts ad)(c := {})"
        using announced_texts_update [OF B ad ad'(2) e(2) e(1) e(3) ad'(3,5)] ad'(4) e(4) by simp
      ultimately show ?thesis using hist ad'(2) Revoke Some by (intro exI [of _ b]) (simp add: accounts_inv_def last_block_def)
    qed
  qed
next
  case (Translate k)
  have ad: "rows_ok ae B b ad" and ca: "caches_ok ae B ad" using inv by (auto simp: accounts_inv_def)
  obtain ad' r where "translate_key ae k ad = Ok (ad', r)" "rows_ok ae B b ad'" "caches_ok ae B ad'"
    "account_entry_at ae B ad' = account_entry_at ae B ad" using translate_key_effect [OF B ad ca, of k] by (elim exE conjE)
  moreover from this(1) have "announced_texts ad' = announced_texts ad" by (rule announced_texts_translate)
  ultimately show ?thesis using Translate by (intro exI [of _ b]) (simp add: accounts_inv_def last_block_def)
qed

lemma account_op_refines:
  assumes "bindings_ok ae B" and "accounts_inv ae B b ad" and "account_history_ok ae B b [op]"
  shows "accounts_inv ae B (last_block b op) (run_account_op ae op ad)"
    and "account_entry_at ae B (run_account_op ae op ad) = account_map_op op (account_entry_at ae B ad)"
    and "announced_texts (run_account_op ae op ad) = account_texts_op ae op (account_entry_at ae B ad) (announced_texts ad)"
  using run_account_op_refines [OF assms] by blast+

lemma run_account_ops_refine:
  assumes B: "bindings_ok ae B"
  shows "accounts_inv ae B b ad \<Longrightarrow> account_history_ok ae B b ops \<Longrightarrow>
    (\<exists>b'. accounts_inv ae B b' (fold (run_account_op ae) ops ad))
    \<and> account_entry_at ae B (fold (run_account_op ae) ops ad) = fold account_map_op ops (account_entry_at ae B ad)"
proof (induction ops arbitrary: b ad)
  case (Cons op ops)
  have "account_history_ok ae B b [op]" using Cons.prems(2) by (cases op) simp_all
  from run_account_op_refines [OF B Cons.prems(1) this] obtain b' where
    "b' = last_block b op" "\<forall>ops. account_history_ok ae B b (op # ops) \<longrightarrow> account_history_ok ae B b' ops"
    "accounts_inv ae B b' (run_account_op ae op ad)"
    "account_entry_at ae B (run_account_op ae op ad) = account_map_op op (account_entry_at ae B ad)" by (elim exE conjE)
  then show ?case using Cons.IH [of b' "run_account_op ae op ad"] Cons.prems(2) by simp
qed auto

lemma accounts_new:
  "accounts_inv ae B (\<lambda>_. - 1) ad_new" "account_entry_at ae B ad_new = Map.empty" "announced_texts ad_new = (\<lambda>_. {})"
  by (simp_all add: announced_texts_def blocks_ok_def accounts_inv_def rows_ok_def caches_ok_def bound_entry_def ad_new_def km_new_def account_entry_at_def fun_eq_iff)

text \<open>C21: the account tables with their caches implement a map from chain keys to account entries. After any history of key
bindings (over a set in which no chain key, packet key or key identifier is used twice), announcements (those of one chain
key in later and later blocks, those of different keys in any), revocations and translations, the lookup by either key returns the entry of the map, whose announcement is
the one made last; the translation of a chain key is the packet key of its entry and back, whether it comes from the cache
or the table; and the identifier of a bound packet key is the one computed from its entry, in both directions.\<close>

theorem account_table_is_map:
  assumes "bindings_ok ae B" and "account_history_ok ae B (\<lambda>_. - 1) ops"
  shows "let ad = fold (run_account_op ae) ops ad_new; M = fold account_map_op ops Map.empty in
      (\<forall>c. get_account ae (ChainKey c) ad = Ok (M c))
    \<and> (\<forall>k. \<exists>r. get_account ae (PacketKey k) ad = Ok r
          \<and> (\<forall>e. r = Some e \<longleftrightarrow> M (ac_chain_addr e) = Some e \<and> ac_public_key e = k))
    \<and> (\<forall>c. \<exists>ad'. translate_key ae (ChainKey c) ad = Ok (ad', map_option (\<lambda>e. PacketKey (ac_public_key e)) (M c)))
    \<and> (\<forall>k. \<exists>ad' r. translate_key ae (PacketKey k) ad = Ok (ad', r)
          \<and> (\<forall>x. r = Some x \<longleftrightarrow> (\<exists>c e. x = ChainKey c \<and> M c = Some e \<and> ac_public_key e = k)))
    \<and> (\<forall>c e. M c = Some e \<longrightarrow> map_key_to_id (ad_key_ids ad) (ac_public_key e) = Some (ac_key_id ae e)
          \<and> map_id_to_public (ad_key_ids ad) (ac_key_id ae e) = Some (ac_public_key e))"
proof -
  define ad where "ad = fold (run_account_op ae) ops ad_new"
  note empty = accounts_new(2) [of ae B]
  from run_account_ops_refine [OF assms(1) accounts_new(1) assms(2)] obtain b where inv: "rows_ok ae B b ad" "caches_ok ae B ad"
    and M: "account_entry_at ae B ad = fold account_map_op ops Map.empty" by (auto simp: ad_def empty accounts_inv_def)
  note t = translate_key_effect [OF assms(1) inv]
  have chain: "\<exists>ad'. translate_key ae (ChainKey c) ad = Ok (ad', map_option (\<lambda>e. PacketKey (ac_public_key e)) (account_entry_at ae B ad c))" for c
    using t [of "ChainKey c"] by auto
  have packet: "\<exists>ad' r. translate_key ae (PacketKey k) ad = Ok (ad', r)
      \<and> (\<forall>x. r = Some x \<longleftrightarrow> (\<exists>c e. x = ChainKey c \<and> account_entry_at ae B ad c = Some e \<and> ac_public_key e = k))" for k
    using t [of "PacketKey k"] by (elim exE conjE) (simp only: chain_or_packet_key.case, blast)
  have ids: "map_key_to_id (ad_key_ids ad) (ac_public_key f) = Some (ac_key_id ae f)
      \<and> map_id_to_public (ad_key_ids ad) (ac_key_id ae f) = Some (ac_public_key f)" if f: "account_entry_at ae B ad c = Some f" for c f
  proof -
    obtain e m where e: "e \<in> B" "m \<in> set (ad_accounts ad)" "acc_row m e" "f = ac_update (type_of_announcements ae (announcements_of ad m)) e"
      using bound_at(1) [OF assms(1) inv(1) f] by (elim exE conjE)
    have k: "ac_key_id ae f = ac_key_id ae e" "ac_public_key f = ac_public_key e" using e(4) by (simp_all add: ac_key_id_def ac_update_def)
    have "bound_entry ad e" using e by (auto simp: bound_entry_def)
    then have "km_ids (ad_key_ids ad) (ac_key_id ae e) = Some (ac_public_key e)"
      "km_keys (ad_key_ids ad) (ac_public_key e) = Some (ac_key_id ae e)"
      using inv(2) e(1) unfolding caches_ok_def by simp_all blast+
    then show ?thesis unfolding k by (simp add: map_key_to_id_def map_id_to_public_def)
  qed
  show ?thesis
    unfolding Let_def ad_def [symmetric] M [symmetric]
    using get_account_eq [OF assms(1) inv(1)] chain packet ids by blast
qed

section \<open>Examples\<close>

text \<open>Multiaddresses as their text, every point valid, and identifiers taken from the chain key.\<close>

definition example_env :: "string account_env" where
  "example_env = \<lparr>ae_hash = (\<lambda>l. l ! 1), ae_valid_point = (\<lambda>_. True), ae_parse = Some, ae_show = (\<lambda>m. m),
     ae_protocol_stack = (\<lambda>_. []), ae_verify_message = (\<lambda>_ _ _. True)\<rparr>"

definition example_account :: "byte \<Rightarrow> byte \<Rightarrow> string account_entry" where
  "example_account c k = \<lparr>ac_public_key = replicate 32 k, ac_chain_addr = replicate 20 c, ac_entry_type = NotAnnounced, ac_published_at = 5\<rparr>"

lemma example_ids:
  "ac_key_id example_env (example_account 1 7) = 0x01010101" "ac_key_id example_env (example_account 2 8) = 0x02020202"
  by code_simp+

lemma example_bindings: "bindings_ok example_env {example_account 1 7, example_account 2 8}"
proof -
  have "ac_chain_addr (example_account 1 k) \<noteq> ac_chain_addr (example_account 2 k')"
    "ac_public_key (example_account c 7) \<noteq> ac_public_key (example_account c' 8)"
    "ac_chain_addr (example_account 2 k) \<noteq> ac_chain_addr (example_account 1 k')"
    "ac_public_key (example_account c 8) \<noteq> ac_public_key (example_account c' 7)" for k k' c c'
    by (simp_all add: example_account_def)
  moreover have "length (ac_chain_addr (example_account c k)) = address_size" "length (ac_public_key (example_account c k)) = 32"
    "ae_valid_point example_env (ac_public_key (example_account c k))" "ac_entry_type (example_account c k) = NotAnnounced" for c k
    by (simp_all add: example_account_def example_env_def address_size_def)
  ultimately show ?thesis unfolding bindings_ok_def by (auto simp: example_ids)
qed

theorem account_table_is_map_witness:
  "let ad = fold (run_account_op example_env) [Bind (example_account 1 7), Bind (example_account 2 8), Announce (replicate 20 1) ''a'' 6,
        Announce (replicate 20 2) ''c'' 6, Announce (replicate 20 1) ''b'' 7, Announce (replicate 20 1) ''a'' 8] ad_new in
     get_account example_env (ChainKey (replicate 20 1)) ad
       = Ok (Some (ac_update (Announced ''a'' 8) (example_account 1 7)))"
proof -
  let ?ops = "[Bind (example_account 1 7), Bind (example_account 2 8), Announce (replicate 20 1) ''a'' 6,
      Announce (replicate 20 2) ''c'' 6, Announce (replicate 20 1) ''b'' 7, Announce (replicate 20 1) ''a'' 8]"
  have "account_history_ok example_env {example_account 1 7, example_account 2 8} (\<lambda>_. - 1) ?ops"
    by (simp add: u32_as_i32_def example_env_def)
  note t = account_table_is_map [OF example_bindings this]
  have "fold account_map_op ?ops Map.empty (replicate 20 1) = Some (ac_update (Announced ''a'' 8) (example_account 1 7))"
    by (simp add: example_account_def ac_update_def)
  with t show ?thesis unfolding Let_def by (metis (no_types))
qed

text \<open>
  An older announcement that is repeated becomes the latest one in the table, but the entry that is returned, and
  with it the event that the indexer emits, has the announcement that was the latest before.
\<close>

lemma announcement_returns_stale:
  "let ad = fold (run_account_op example_env) [Bind (example_account 1 7), Announce (replicate 20 1) ''a'' 6,
        Announce (replicate 20 1) ''b'' 7] ad_new in
     case insert_announcement example_env (ChainKey (replicate 20 1)) ''a'' 8 ad of
       Inl _ \<Rightarrow> False
     | Inr (ad', e) \<Rightarrow> ac_get_multiaddr e = Some ''b''
         \<and> get_account example_env (ChainKey (replicate 20 1)) ad' = Ok (Some (ac_update (Announced ''a'' 8) (example_account 1 7)))"
  by code_simp

text \<open>An account that has no announcement reports a revocation as one before the binding of its keys.\<close>

lemma revocation_needs_announcement:
  assumes "bindings_ok ae B" "rows_ok ae B b ad" "account_entry_at ae B ad c = Some e" "ac_entry_type e = NotAnnounced"
  shows "delete_all_announcements (ChainKey c) ad = Err MissingAccount"
proof -
  obtain f m where f: "f \<in> B" "m \<in> set (ad_accounts ad)" "acc_row m f" "ac_chain_addr f = c"
    "e = ac_update (type_of_announcements ae (announcements_of ad m)) f" using bound_at(1) [OF assms(1-3)] by (elim exE conjE)
  have "announcements_of ad m = []"
    using assms(4) f(5) by (auto simp: ac_update_def type_of_announcements_def split: list.splits)
  then show ?thesis using delete_all_announcements_effect [OF assms(1,2) f(2,1,3)] f(4) by simp
qed

text \<open>
  A packet key that is bound again, to another chain key or in a later block, is refused by the identifiers, and the
  transaction that inserted the account is rolled back. The translation caches keep the refused binding.
\<close>

lemma refused_binding_stays_cached:
  "let ad = fst (insert_account example_env (example_account 1 7) ad_new);
       (ad', r) = insert_account example_env (example_account 2 7) ad in
     r = Err (LogicalError ''inconsistent key-id binding'')
   \<and> get_account example_env (ChainKey (replicate 20 2)) ad' = Ok None
   \<and> map_res snd (translate_key example_env (PacketKey (replicate 32 7)) ad') = Ok (Some (ChainKey (replicate 20 2)))
   \<and> map_res snd (translate_key example_env (PacketKey (replicate 32 7)) (ad'\<lparr>ad_offchain_to_chain := Map.empty\<rparr>))
       = Ok (Some (ChainKey (replicate 20 1)))"
  by code_simp

end
