(* ===== verification/Node_Info.thy ===== *)
theory Node_Info
  imports Channel_Table
begin

text \<open>
  The single-row tables of the index database with their cache, the network registry and the settings
  (\<open>db/sql/src/info.rs\<close>, \<open>db/sql/src/registry.rs\<close>, \<open>db/api/src/info.rs\<close>). The minimum winning probability is stored as a
  single-precision float. \<open>approx\<close> is the approximate comparison of floats.
\<close>

section \<open>Single-precision floats\<close>

text \<open>
  The conversion of a double of the interval [0, 1] that is zero or at least \<open>2 ^ -126\<close>: 24 significant bits, rounded
  to nearest, ties to even.
\<close>

fun f32_shift :: "nat \<Rightarrow> rat \<Rightarrow> nat" where
  "f32_shift 0 r = 0"
| "f32_shift (Suc n) r = (if r \<ge> 1 then 0 else Suc (f32_shift n (2 * r)))"

definition f64_as_f32 :: "rat \<Rightarrow> rat" where
  "f64_as_f32 r = (let scale = 2 ^ (23 + f32_shift 126 r) in of_int (round_half_even (r * scale)) / scale)"

section \<open>Tables\<close>

record node_info_row =
  ni_safe_balance :: bytes
  ni_safe_allowance :: bytes
  ni_safe_address :: "string option"
  ni_module_address :: "string option"

record chain_info_row =
  ci_last_indexed_block :: int
  ci_ticket_price :: "bytes option"
  ci_channels_dst :: "bytes option"
  ci_ledger_dst :: "bytes option"
  ci_safe_registry_dst :: "bytes option"
  ci_network_registry_enabled :: bool
  ci_min_incoming_ticket_win_prob :: rat

definition initial_node_info :: node_info_row where
  "initial_node_info = \<lparr>ni_safe_balance = replicate 12 0, ni_safe_allowance = replicate 12 0, ni_safe_address = None, ni_module_address = None\<rparr>"

definition initial_chain_info :: chain_info_row where
  "initial_chain_info =
     \<lparr>ci_last_indexed_block = 0, ci_ticket_price = None, ci_channels_dst = None, ci_ledger_dst = None, ci_safe_registry_dst = None,
      ci_network_registry_enabled = False, ci_min_incoming_ticket_win_prob = 1\<rparr>"

datatype domain_separator = Ledger | SafeRegistry | ChannelDst

record indexer_data =
  id_ledger_dst :: "hash option"
  id_safe_registry_dst :: "hash option"
  id_channels_dst :: "hash option"
  id_ticket_price :: "hopr_balance option"
  id_min_win_prob :: win_prob
  id_nr_enabled :: bool

definition id_domain_separator :: "domain_separator \<Rightarrow> indexer_data \<Rightarrow> hash option" where
  "id_domain_separator dst_type d =
     (case dst_type of Ledger \<Rightarrow> id_ledger_dst d | SafeRegistry \<Rightarrow> id_safe_registry_dst d | ChannelDst \<Rightarrow> id_channels_dst d)"

record safe_info =
  si_safe_address :: address
  si_module_address :: address

text \<open>
  The two fixed rows, the two cached single values, the network registry, the eligible safes and the settings.
\<close>

record info_db =
  nf_node_info :: "node_info_row option"
  nf_chain_info :: "chain_info_row option"
  nf_indexer_cache :: "indexer_data option"
  nf_safe_cache :: "safe_info option option"
  nf_registry :: "string list"
  nf_eligible :: "string list"
  nf_settings :: "(string \<times> bytes) list"

definition nf_new :: info_db where
  "nf_new =
     \<lparr>nf_node_info = Some initial_node_info, nf_chain_info = Some initial_chain_info, nf_indexer_cache = None,
      nf_safe_cache = None, nf_registry = [], nf_eligible = [], nf_settings = []\<rparr>"

section \<open>Node information\<close>

definition node_info_get :: "info_db \<Rightarrow> (db_error, node_info_row) result" where
  "node_info_get nf = ok_or (MissingFixedTableEntry ''node_info'') (nf_node_info nf)"

definition node_info_update :: "(node_info_row \<Rightarrow> node_info_row) \<Rightarrow> info_db \<Rightarrow> (db_error, info_db) result" where
  "node_info_update f nf =
     (case nf_node_info nf of
        Some m \<Rightarrow> Ok (nf\<lparr>nf_node_info := Some (f m)\<rparr>)
      | None \<Rightarrow> Err (BackendError ''None of the records are updated''))"

definition get_safe_hopr_balance :: "info_db \<Rightarrow> (db_error, hopr_balance) result" where
  "get_safe_hopr_balance nf = map_res (\<lambda>m. bal_from_be (ni_safe_balance m)) (node_info_get nf)"

definition set_safe_hopr_balance :: "hopr_balance \<Rightarrow> info_db \<Rightarrow> (db_error, info_db) result" where
  "set_safe_hopr_balance new_balance = node_info_update (\<lambda>m. m\<lparr>ni_safe_balance := bal_to_be new_balance\<rparr>)"

definition get_safe_hopr_allowance :: "info_db \<Rightarrow> (db_error, hopr_balance) result" where
  "get_safe_hopr_allowance nf = map_res (\<lambda>m. bal_from_be (ni_safe_allowance m)) (node_info_get nf)"

definition set_safe_hopr_allowance :: "hopr_balance \<Rightarrow> info_db \<Rightarrow> (db_error, info_db) result" where
  "set_safe_hopr_allowance new_allowance = node_info_update (\<lambda>m. m\<lparr>ni_safe_allowance := u256_to_be new_allowance\<rparr>)"

definition get_safe_info :: "info_db \<Rightarrow> (db_error, info_db \<times> safe_info option) result" where
  "get_safe_info nf =
     (case nf_safe_cache nf of
        Some v \<Rightarrow> Ok (nf, v)
      | None \<Rightarrow>
          and_then (node_info_get nf) (\<lambda>info.
          and_then
            (case (ni_safe_address info, ni_module_address info) of
               (Some safe_address, Some module_address) \<Rightarrow>
                 and_then (map_fail DbNonSpecificError (address_from_hex safe_address)) (\<lambda>s.
                 and_then (map_fail DbNonSpecificError (address_from_hex module_address)) (\<lambda>m.
                   Ok (Some \<lparr>si_safe_address = s, si_module_address = m\<rparr>)))
             | _ \<Rightarrow> Ok None) (\<lambda>v.
          Ok (nf\<lparr>nf_safe_cache := Some v\<rparr>, v))))"

definition set_safe_info :: "safe_info \<Rightarrow> info_db \<Rightarrow> (db_error, info_db) result" where
  "set_safe_info safe_info nf =
     map_res (\<lambda>nf. nf\<lparr>nf_safe_cache := Some (Some safe_info)\<rparr>)
       (node_info_update (\<lambda>m. m\<lparr>ni_safe_address := Some (to_hex (si_safe_address safe_info)),
          ni_module_address := Some (to_hex (si_module_address safe_info))\<rparr>) nf)"

section \<open>Chain information\<close>

definition chain_info_get :: "info_db \<Rightarrow> (db_error, chain_info_row) result" where
  "chain_info_get nf = ok_or (MissingFixedTableEntry ''chain_info'') (nf_chain_info nf)"

definition chain_info_update :: "(chain_info_row \<Rightarrow> chain_info_row) \<Rightarrow> info_db \<Rightarrow> (db_error, info_db) result" where
  "chain_info_update f nf =
     (case nf_chain_info nf of
        Some m \<Rightarrow> Ok (nf\<lparr>nf_chain_info := Some (f m)\<rparr>)
      | None \<Rightarrow> Err (BackendError ''None of the records are updated''))"

definition invalidate_indexer_data :: "info_db \<Rightarrow> info_db" where
  "invalidate_indexer_data nf = nf\<lparr>nf_indexer_cache := None\<rparr>"

definition hash_column :: "bytes option \<Rightarrow> (db_error, hash option) result" where
  "hash_column col =
     (case col of
        Some b \<Rightarrow> map_res Some (map_fail DbNonSpecificError (fixed_bytes hash_size ''Hash'' b))
      | None \<Rightarrow> Ok None)"

definition get_indexer_data :: "(rat \<Rightarrow> rat \<Rightarrow> bool) \<Rightarrow> info_db \<Rightarrow> (db_error, info_db \<times> indexer_data) result" where
  "get_indexer_data approx nf =
     (case nf_indexer_cache nf of
        Some d \<Rightarrow> Ok (nf, d)
      | None \<Rightarrow>
          and_then (chain_info_get nf) (\<lambda>model.
          and_then (hash_column (ci_ledger_dst model)) (\<lambda>ledger_dst.
          and_then (hash_column (ci_safe_registry_dst model)) (\<lambda>safe_registry_dst.
          and_then (hash_column (ci_channels_dst model)) (\<lambda>channels_dst.
          and_then (map_fail DbCoreTypesError (wp_try_from_f64 approx (Some (ci_min_incoming_ticket_win_prob model)))) (\<lambda>win_prob.
          let d = \<lparr>id_ledger_dst = ledger_dst, id_safe_registry_dst = safe_registry_dst, id_channels_dst = channels_dst,
                   id_ticket_price = map_option bal_from_be (ci_ticket_price model), id_min_win_prob = win_prob,
                   id_nr_enabled = ci_network_registry_enabled model\<rparr> in
          Ok (nf\<lparr>nf_indexer_cache := Some d\<rparr>, d)))))))"

definition set_domain_separator :: "domain_separator \<Rightarrow> hash \<Rightarrow> info_db \<Rightarrow> (db_error, info_db) result" where
  "set_domain_separator dst_type value nf =
     map_res invalidate_indexer_data (chain_info_update (\<lambda>m.
       case dst_type of
         Ledger \<Rightarrow> m\<lparr>ci_ledger_dst := Some value\<rparr>
       | SafeRegistry \<Rightarrow> m\<lparr>ci_safe_registry_dst := Some value\<rparr>
       | ChannelDst \<Rightarrow> m\<lparr>ci_channels_dst := Some value\<rparr>) nf)"

definition set_minimum_incoming_ticket_win_prob :: "win_prob \<Rightarrow> info_db \<Rightarrow> (db_error, info_db) result" where
  "set_minimum_incoming_ticket_win_prob win_prob nf =
     map_res invalidate_indexer_data
       (chain_info_update (\<lambda>m. m\<lparr>ci_min_incoming_ticket_win_prob := f64_as_f32 (wp_as_f64 win_prob)\<rparr>) nf)"

definition update_ticket_price :: "hopr_balance \<Rightarrow> info_db \<Rightarrow> (db_error, info_db) result" where
  "update_ticket_price price nf =
     map_res invalidate_indexer_data (chain_info_update (\<lambda>m. m\<lparr>ci_ticket_price := Some (bal_to_be price)\<rparr>) nf)"

definition set_network_registry_enabled :: "bool \<Rightarrow> info_db \<Rightarrow> (db_error, info_db) result" where
  "set_network_registry_enabled enabled nf =
     map_res invalidate_indexer_data (chain_info_update (\<lambda>m. m\<lparr>ci_network_registry_enabled := enabled\<rparr>) nf)"

record indexer_state_info =
  is_latest_block_number :: u32
  is_latest_log_block_number :: u32
  is_latest_log_checksum :: hash

definition get_indexer_state_info :: "info_db \<Rightarrow> (db_error, indexer_state_info) result" where
  "get_indexer_state_info nf =
     map_res (\<lambda>m. \<lparr>is_latest_block_number = word_of_int (ci_last_indexed_block m), is_latest_log_block_number = 0,
         is_latest_log_checksum = replicate hash_size 0\<rparr>) (chain_info_get nf)"

definition set_indexer_state_info :: "u32 \<Rightarrow> info_db \<Rightarrow> (db_error, info_db) result" where
  "set_indexer_state_info block_num nf =
     and_then (chain_info_get nf) (\<lambda>_. chain_info_update (\<lambda>m. m\<lparr>ci_last_indexed_block := sint block_num\<rparr>) nf)"

section \<open>The network registry and the settings\<close>

definition insert_unique :: "'a \<Rightarrow> 'a list \<Rightarrow> 'a list" where
  "insert_unique x xs = (if x \<in> set xs then xs else xs @ [x])"

definition set_access_in_network_registry :: "address \<Rightarrow> bool \<Rightarrow> info_db \<Rightarrow> info_db" where
  "set_access_in_network_registry address allowed nf =
     (if allowed then nf\<lparr>nf_registry := insert_unique (to_hex address) (nf_registry nf)\<rparr>
      else nf\<lparr>nf_registry := filter (\<lambda>a. a \<noteq> to_hex address) (nf_registry nf)\<rparr>)"

definition is_allowed_in_network_registry :: "address \<Rightarrow> info_db \<Rightarrow> bool" where
  "is_allowed_in_network_registry address nf \<longleftrightarrow> to_hex address \<in> set (nf_registry nf)"

definition set_safe_eligibility :: "address \<Rightarrow> bool \<Rightarrow> info_db \<Rightarrow> info_db" where
  "set_safe_eligibility address eligible nf =
     (if eligible then nf\<lparr>nf_eligible := insert_unique (to_hex address) (nf_eligible nf)\<rparr>
      else nf\<lparr>nf_eligible := filter (\<lambda>a. a \<noteq> to_hex address) (nf_eligible nf)\<rparr>)"

definition is_safe_eligible :: "address \<Rightarrow> info_db \<Rightarrow> bool" where
  "is_safe_eligible address nf \<longleftrightarrow> to_hex address \<in> set (nf_eligible nf)"

definition get_global_setting :: "string \<Rightarrow> info_db \<Rightarrow> bytes option" where
  "get_global_setting key nf = map_of (nf_settings nf) key"

definition set_global_setting :: "string \<Rightarrow> bytes option \<Rightarrow> info_db \<Rightarrow> info_db" where
  "set_global_setting key value nf =
     (case value of
        Some v \<Rightarrow>
          if key \<in> fst ` set (nf_settings nf)
          then nf\<lparr>nf_settings := map (\<lambda>(k, w). if k = key then (k, v) else (k, w)) (nf_settings nf)\<rparr>
          else nf\<lparr>nf_settings := nf_settings nf @ [(key, v)]\<rparr>
      | None \<Rightarrow> nf\<lparr>nf_settings := filter (\<lambda>(k, _). k \<noteq> key) (nf_settings nf)\<rparr>)"

section \<open>The precision of the stored winning probability\<close>

lemma f64_as_f32_error:
  assumes "0 \<le> r" and "r \<le> 1"
  shows "\<bar>f64_as_f32 r - r\<bar> \<le> 1 / 2 ^ 24 \<and> 0 \<le> f64_as_f32 r \<and> f64_as_f32 r \<le> 1"
proof -
  define n where "n = 23 + f32_shift 126 r"
  define k where "k = round_half_even (r * 2 ^ n)"
  have v: "f64_as_f32 r = of_int k / 2 ^ n" by (simp add: f64_as_f32_def Let_def n_def k_def)
  have k: "of_int k - 1 / 2 \<le> r * 2 ^ n" "r * 2 ^ n \<le> of_int k + 1 / 2"
    using round_half_even_bounds [of "r * 2 ^ n"] by (simp_all add: k_def)
  have "r * 2 ^ n \<le> 1 * 2 ^ n" by (rule mult_right_mono [OF assms(2)]) simp
  then have "of_int k \<le> (2 ^ n :: rat) + 1 / 2" using k(1) by linarith
  then have "(of_int k :: rat) < of_int (2 ^ n + 1)" by simp
  then have "k \<le> 2 ^ n" unfolding of_int_less_iff by simp
  then have hi: "(of_int k :: rat) \<le> 2 ^ n" using of_int_le_iff [of k "2 ^ n", where ?'a = rat] by simp
  have "(0 :: rat) \<le> r * 2 ^ n" using assms(1) by simp
  then have "(of_int (- 1) :: rat) < of_int k" using k(2) by simp
  then have lo: "(0 :: rat) \<le> of_int k" unfolding of_int_less_iff by simp
  have "\<bar>of_int k - r * 2 ^ n\<bar> \<le> 1 / 2" using k by linarith
  moreover have "of_int k / 2 ^ n - r = (of_int k - r * 2 ^ n) / 2 ^ n" by (simp add: field_simps)
  moreover have "\<bar>(of_int k - r * 2 ^ n) / 2 ^ n\<bar> = \<bar>of_int k - r * 2 ^ n\<bar> / 2 ^ n" by (simp add: abs_divide)
  ultimately have "\<bar>of_int k / 2 ^ n - r\<bar> \<le> (1 / 2) / (2 ^ n :: rat)" by (simp only: divide_right_mono zero_le_power zero_le_numeral)
  also have "\<dots> \<le> (1 / 2) / 2 ^ 23"
  proof -
    have "(2 :: rat) ^ 23 \<le> 2 ^ n" by (rule power_increasing) (simp_all add: n_def)
    then show ?thesis by (intro divide_left_mono) simp_all
  qed
  also have "\<dots> = 1 / 2 ^ 24" by simp
  finally show ?thesis using hi lo unfolding v by simp
qed

definition stored_win_prob :: "(rat \<Rightarrow> rat \<Rightarrow> bool) \<Rightarrow> win_prob \<Rightarrow> win_prob" where
  "stored_win_prob approx w = res_get wp_never (wp_try_from_f64 approx (Some (f64_as_f32 (wp_as_f64 w))))"

lemma wp_as_f64_range:
  assumes "length w = encoded_win_prob_length"
  shows "0 \<le> wp_as_f64 w" and "wp_as_f64 w \<le> 1"
proof -
  have "be_decode w < 2 ^ 56" using be_decode_bound [of w] assms by (simp add: encoded_win_prob_length_def)
  then have "(be_decode w + 1) div 16 \<le> 2 ^ 56 div 16" by (intro div_le_mono) simp
  then have "(be_decode w + 1) div 16 \<le> 2 ^ 52" by simp
  then have "(of_nat ((be_decode w + 1) div 16) :: rat) \<le> of_nat (2 ^ 52)" by (simp only: of_nat_le_iff)
  then show "0 \<le> wp_as_f64 w" "wp_as_f64 w \<le> 1" using assms by (simp_all add: wp_f64 encoded_win_prob_length_def)
qed

lemma stored_win_prob:
  assumes "approx_ok approx" and "length w = encoded_win_prob_length"
  shows "wp_try_from_f64 approx (Some (f64_as_f32 (wp_as_f64 w))) = Ok (stored_win_prob approx w)
     \<and> \<bar>wp_as_f64 (stored_win_prob approx w) - wp_as_f64 w\<bar> \<le> 1 / 2 ^ 23"
proof -
  let ?p = "f64_as_f32 (wp_as_f64 w)"
  have e: "\<bar>?p - wp_as_f64 w\<bar> \<le> 1 / 2 ^ 24" "0 \<le> ?p" "?p \<le> 1"
    using f64_as_f32_error [OF wp_as_f64_range [OF assms(2)]] by simp_all
  then obtain v where v: "wp_try_from_f64 approx (Some ?p) = Ok v" "\<bar>wp_as_f64 v - ?p\<bar> \<le> 1 / 2 ^ 26"
    using win_prob_roundtrip [OF assms(1), of ?p] by blast
  have "\<bar>wp_as_f64 v - wp_as_f64 w\<bar> \<le> 1 / 2 ^ 26 + 1 / 2 ^ 24" using e(1) v(2) by linarith
  also have "\<dots> \<le> (1 :: rat) / 2 ^ 23" by simp
  finally show ?thesis using v(1) by (simp add: stored_win_prob_def)
qed

section \<open>The information that is kept\<close>

datatype info_op =
    SetDomainSeparator domain_separator hash
  | SetMinWinProb win_prob
  | SetTicketPrice hopr_balance
  | SetRegistryEnabled bool
  | SetSafeBalance hopr_balance
  | SetSafeAllowance hopr_balance
  | SetSafeInfo safe_info
  | SetIndexedBlock u32
  | SetAccess address bool
  | SetEligible address bool
  | SetSetting string "bytes option"
  | ReadIndexerData
  | ReadSafeInfo

fun run_info_op :: "(rat \<Rightarrow> rat \<Rightarrow> bool) \<Rightarrow> info_op \<Rightarrow> info_db \<Rightarrow> (db_error, info_db) result" where
  "run_info_op approx (SetDomainSeparator ds h) nf = set_domain_separator ds h nf"
| "run_info_op approx (SetMinWinProb w) nf = set_minimum_incoming_ticket_win_prob w nf"
| "run_info_op approx (SetTicketPrice p) nf = update_ticket_price p nf"
| "run_info_op approx (SetRegistryEnabled b) nf = set_network_registry_enabled b nf"
| "run_info_op approx (SetSafeBalance v) nf = set_safe_hopr_balance v nf"
| "run_info_op approx (SetSafeAllowance v) nf = set_safe_hopr_allowance v nf"
| "run_info_op approx (SetSafeInfo si) nf = set_safe_info si nf"
| "run_info_op approx (SetIndexedBlock bl) nf = set_indexer_state_info bl nf"
| "run_info_op approx (SetAccess a b) nf = Ok (set_access_in_network_registry a b nf)"
| "run_info_op approx (SetEligible a b) nf = Ok (set_safe_eligibility a b nf)"
| "run_info_op approx (SetSetting k v) nf = Ok (set_global_setting k v nf)"
| "run_info_op approx ReadIndexerData nf = map_res fst (get_indexer_data approx nf)"
| "run_info_op approx ReadSafeInfo nf = map_res fst (get_safe_info nf)"

fun run_info_ops :: "(rat \<Rightarrow> rat \<Rightarrow> bool) \<Rightarrow> info_op list \<Rightarrow> info_db \<Rightarrow> (db_error, info_db) result" where
  "run_info_ops approx [] nf = Ok nf"
| "run_info_ops approx (op # ops) nf = and_then (run_info_op approx op nf) (run_info_ops approx ops)"

record info_state =
  is_domain_separators :: "domain_separator \<Rightarrow> hash option"
  is_win_prob :: win_prob
  is_ticket_price :: "hopr_balance option"
  is_registry_enabled :: bool
  is_balance :: hopr_balance
  is_allowance :: hopr_balance
  is_safe_info :: "safe_info option"
  is_block :: u32
  is_allowed :: "address set"
  is_eligible :: "address set"
  is_settings :: "string \<Rightarrow> bytes option"

definition info_initial :: info_state where
  "info_initial =
     \<lparr>is_domain_separators = Map.empty, is_win_prob = wp_always, is_ticket_price = None, is_registry_enabled = False, is_balance = 0,
      is_allowance = 0, is_safe_info = None, is_block = 0, is_allowed = {}, is_eligible = {}, is_settings = Map.empty\<rparr>"

fun info_state_op :: "info_op \<Rightarrow> info_state \<Rightarrow> info_state" where
  "info_state_op (SetDomainSeparator ds h) s = s\<lparr>is_domain_separators := (is_domain_separators s)(ds \<mapsto> h)\<rparr>"
| "info_state_op (SetMinWinProb w) s = s\<lparr>is_win_prob := w\<rparr>"
| "info_state_op (SetTicketPrice p) s = s\<lparr>is_ticket_price := Some p\<rparr>"
| "info_state_op (SetRegistryEnabled b) s = s\<lparr>is_registry_enabled := b\<rparr>"
| "info_state_op (SetSafeBalance v) s = s\<lparr>is_balance := v\<rparr>"
| "info_state_op (SetSafeAllowance v) s = s\<lparr>is_allowance := v\<rparr>"
| "info_state_op (SetSafeInfo si) s = s\<lparr>is_safe_info := Some si\<rparr>"
| "info_state_op (SetIndexedBlock bl) s = s\<lparr>is_block := bl\<rparr>"
| "info_state_op (SetAccess a b) s = s\<lparr>is_allowed := (if b then insert a (is_allowed s) else is_allowed s - {a})\<rparr>"
| "info_state_op (SetEligible a b) s = s\<lparr>is_eligible := (if b then insert a (is_eligible s) else is_eligible s - {a})\<rparr>"
| "info_state_op (SetSetting k v) s = s\<lparr>is_settings := (is_settings s)(k := v)\<rparr>"
| "info_state_op ReadIndexerData s = s"
| "info_state_op ReadSafeInfo s = s"

definition info_op_ok :: "info_op \<Rightarrow> bool" where
  "info_op_ok op =
     (case op of
        SetDomainSeparator ds h \<Rightarrow> length h = hash_size
      | SetMinWinProb w \<Rightarrow> length w = encoded_win_prob_length
      | SetSafeInfo si \<Rightarrow> length (si_safe_address si) = address_size \<and> length (si_module_address si) = address_size
      | _ \<Rightarrow> True)"

definition data_of :: "(rat \<Rightarrow> rat \<Rightarrow> bool) \<Rightarrow> info_state \<Rightarrow> indexer_data" where
  "data_of approx s =
     \<lparr>id_ledger_dst = is_domain_separators s Ledger, id_safe_registry_dst = is_domain_separators s SafeRegistry,
      id_channels_dst = is_domain_separators s ChannelDst, id_ticket_price = is_ticket_price s,
      id_min_win_prob = stored_win_prob approx (is_win_prob s), id_nr_enabled = is_registry_enabled s\<rparr>"

definition chain_row_ok :: "info_state \<Rightarrow> chain_info_row \<Rightarrow> bool" where
  "chain_row_ok s m \<longleftrightarrow>
     ci_ledger_dst m = is_domain_separators s Ledger \<and> ci_safe_registry_dst m = is_domain_separators s SafeRegistry
     \<and> ci_channels_dst m = is_domain_separators s ChannelDst \<and> ci_ticket_price m = map_option bal_to_be (is_ticket_price s)
     \<and> ci_min_incoming_ticket_win_prob m = f64_as_f32 (wp_as_f64 (is_win_prob s))
     \<and> ci_network_registry_enabled m = is_registry_enabled s \<and> ci_last_indexed_block m = sint (is_block s)"

definition node_row_ok :: "info_state \<Rightarrow> node_info_row \<Rightarrow> bool" where
  "node_row_ok s m \<longleftrightarrow>
     bal_from_be (ni_safe_balance m) = is_balance s \<and> bal_from_be (ni_safe_allowance m) = is_allowance s
     \<and> ni_safe_address m = map_option (\<lambda>si. to_hex (si_safe_address si)) (is_safe_info s)
     \<and> ni_module_address m = map_option (\<lambda>si. to_hex (si_module_address si)) (is_safe_info s)"

definition info_state_wf :: "info_state \<Rightarrow> bool" where
  "info_state_wf s \<longleftrightarrow>
     (\<forall>ds h. is_domain_separators s ds = Some h \<longrightarrow> length h = hash_size) \<and> length (is_win_prob s) = encoded_win_prob_length
     \<and> (\<forall>si. is_safe_info s = Some si \<longrightarrow> length (si_safe_address si) = address_size \<and> length (si_module_address si) = address_size)"

definition info_refines :: "(rat \<Rightarrow> rat \<Rightarrow> bool) \<Rightarrow> info_state \<Rightarrow> info_db \<Rightarrow> bool" where
  "info_refines approx s nf \<longleftrightarrow>
     info_state_wf s
     \<and> (\<exists>m. nf_chain_info nf = Some m \<and> chain_row_ok s m) \<and> (\<exists>m. nf_node_info nf = Some m \<and> node_row_ok s m)
     \<and> (\<forall>d. nf_indexer_cache nf = Some d \<longrightarrow> d = data_of approx s) \<and> (\<forall>v. nf_safe_cache nf = Some v \<longrightarrow> v = is_safe_info s)
     \<and> set (nf_registry nf) = to_hex ` is_allowed s \<and> set (nf_eligible nf) = to_hex ` is_eligible s
     \<and> map_of (nf_settings nf) = is_settings s \<and> distinct (map fst (nf_settings nf))"

lemma hash_column: "(\<And>h. col = Some h \<Longrightarrow> length h = hash_size) \<Longrightarrow> hash_column col = Ok col"
  by (cases col) (simp_all add: hash_column_def fixed_bytes_def)

lemma get_indexer_data_eq:
  assumes a: "approx_ok approx" and r: "info_refines approx s nf"
  shows "\<exists>nf'. get_indexer_data approx nf = Ok (nf', data_of approx s) \<and> info_refines approx s nf'"
proof (cases "nf_indexer_cache nf")
  case None
  obtain m where m: "nf_chain_info nf = Some m" "chain_row_ok s m" using r by (auto simp: info_refines_def)
  have wf: "info_state_wf s" using r by (simp add: info_refines_def)
  then have h: "hash_column (is_domain_separators s ds) = Ok (is_domain_separators s ds)" for ds
    by (intro hash_column) (auto simp: info_state_wf_def)
  have p: "map_option bal_from_be (map_option bal_to_be x) = x" for x :: "u256 option"
    by (cases x) (simp_all add: bal_from_be_def bal_to_be_def)
  have w: "wp_try_from_f64 approx (Some (f64_as_f32 (wp_as_f64 (is_win_prob s)))) = Ok (stored_win_prob approx (is_win_prob s))"
    using stored_win_prob [OF a] wf by (simp add: info_state_wf_def)
  have "get_indexer_data approx nf = Ok (nf\<lparr>nf_indexer_cache := Some (data_of approx s)\<rparr>, data_of approx s)"
    using None m h w by (simp add: get_indexer_data_def chain_info_get_def chain_row_ok_def p data_of_def Let_def)
  moreover have "info_refines approx s (nf\<lparr>nf_indexer_cache := Some (data_of approx s)\<rparr>)" using r by (simp add: info_refines_def)
  ultimately show ?thesis by blast
next
  case (Some d)
  then show ?thesis using r by (auto simp: get_indexer_data_def info_refines_def)
qed

lemma get_safe_info_eq:
  assumes r: "info_refines approx s nf"
  shows "\<exists>nf'. get_safe_info nf = Ok (nf', is_safe_info s) \<and> info_refines approx s nf'"
proof (cases "nf_safe_cache nf")
  case None
  obtain m where m: "nf_node_info nf = Some m" "node_row_ok s m" using r by (auto simp: info_refines_def)
  have "get_safe_info nf = Ok (nf\<lparr>nf_safe_cache := Some (is_safe_info s)\<rparr>, is_safe_info s)"
  proof (cases "is_safe_info s")
    case (Some si)
    then have "length (si_safe_address si) = address_size" "length (si_module_address si) = address_size"
      using r by (auto simp: info_refines_def info_state_wf_def)
    then show ?thesis using None m Some by (simp add: get_safe_info_def node_info_get_def node_row_ok_def address_from_hex_to_hex)
  qed (use None m in \<open>simp add: get_safe_info_def node_info_get_def node_row_ok_def\<close>)
  moreover have "info_refines approx s (nf\<lparr>nf_safe_cache := Some (is_safe_info s)\<rparr>)" using r by (simp add: info_refines_def)
  ultimately show ?thesis by blast
next
  case (Some d)
  then show ?thesis using r by (auto simp: get_safe_info_def info_refines_def)
qed

lemma set_insert_unique: "set (insert_unique x xs) = insert x (set xs)"
  by (auto simp: insert_unique_def)

lemma settings_update:
  assumes "distinct (map fst l)"
  shows "k \<in> fst ` set l \<Longrightarrow> map_of (map (\<lambda>(k', w). if k' = k then (k', v) else (k', w)) l) = (map_of l)(k \<mapsto> v)"
    and "k \<notin> fst ` set l \<Longrightarrow> map_of (l @ [(k, v)]) = (map_of l)(k \<mapsto> v)"
    and "map_of (filter (\<lambda>(k', _). k' \<noteq> k) l) = (map_of l)(k := None)"
    and "distinct (map fst (filter (\<lambda>(k', _). k' \<noteq> k) l))"
proof -
  have "map_of (map (\<lambda>(k', w). if k' = k then (k', v) else (k', w)) l) x = (if x = k \<and> k \<in> fst ` set l then Some v else map_of l x)" for x
  proof (induction l)
    case (Cons p l)
    obtain k' w where "p = (k', w)" by fastforce
    with Cons show ?case by (cases "k' = k"; cases "x = k'") simp_all
  qed simp
  then show "k \<in> fst ` set l \<Longrightarrow> map_of (map (\<lambda>(k', w). if k' = k then (k', v) else (k', w)) l) = (map_of l)(k \<mapsto> v)"
    by (auto simp: fun_eq_iff)
  show "map_of (l @ [(k, v)]) = (map_of l)(k \<mapsto> v)" if "k \<notin> fst ` set l"
    using that by (induction l) (simp_all add: fun_eq_iff split: prod.splits)
  show "map_of (filter (\<lambda>(k', _). k' \<noteq> k) l) = (map_of l)(k := None)" 
  proof (induction l)
    case (Cons p l)
    obtain k' w where "p = (k', w)" by fastforce
    with Cons show ?case by (cases "k' = k") (auto simp: fun_eq_iff)
  qed simp
  show "distinct (map fst (filter (\<lambda>(k', _). k' \<noteq> k) l))" by (rule distinct_map_filter [OF assms])
qed

lemma run_info_op_refines:
  assumes a: "approx_ok approx" and r: "info_refines approx s nf" and ok: "info_op_ok op"
  shows "\<exists>nf'. run_info_op approx op nf = Ok nf' \<and> info_refines approx (info_state_op op s) nf'"
proof -
  obtain m where m: "nf_chain_info nf = Some m" "chain_row_ok s m" using r by (auto simp: info_refines_def)
  obtain n where n: "nf_node_info nf = Some n" "node_row_ok s n" using r by (auto simp: info_refines_def)
  note [simp] = set_domain_separator_def set_minimum_incoming_ticket_win_prob_def update_ticket_price_def
    set_network_registry_enabled_def set_safe_hopr_balance_def set_safe_hopr_allowance_def set_safe_info_def
    set_indexer_state_info_def chain_info_update_def chain_info_get_def node_info_update_def invalidate_indexer_data_def
  note defs = info_refines_def info_state_wf_def chain_row_ok_def node_row_ok_def info_op_ok_def bal_from_be_def bal_to_be_def
  show ?thesis
  proof (cases op)
    case (SetDomainSeparator ds h)
    then show ?thesis using r m n ok by (cases ds) (auto simp: defs)
  next
    case (SetSetting k v)
    have d: "distinct (map fst (nf_settings nf))" and mo: "map_of (nf_settings nf) = is_settings s" using r by (simp_all add: info_refines_def)
    have keys: "map fst (map (\<lambda>(k', w'). if k' = k then (k', w) else (k', w')) l) = map fst l" for w and l :: "(string \<times> bytes) list" by (induction l) auto
    have "map_of (nf_settings (set_global_setting k v nf)) = (is_settings s)(k := v) \<and> distinct (map fst (nf_settings (set_global_setting k v nf)))"
      using settings_update [OF d, of k] keys d unfolding mo [symmetric]
      by (auto simp: set_global_setting_def simp del: map_map split: option.split)
    moreover have "\<exists>l. set_global_setting k v nf = nf\<lparr>nf_settings := l\<rparr>" by (auto simp: set_global_setting_def split: option.split)
    ultimately show ?thesis using r SetSetting by (auto simp: info_refines_def info_state_wf_def chain_row_ok_def node_row_ok_def data_of_def)
  next
    case (SetAccess c b)
    have "set (nf_registry (set_access_in_network_registry c b nf)) = to_hex ` (if b then insert c (is_allowed s) else is_allowed s - {c})"
      using r by (auto simp: set_access_in_network_registry_def set_insert_unique info_refines_def)
    moreover have "\<exists>l. set_access_in_network_registry c b nf = nf\<lparr>nf_registry := l\<rparr>" by (auto simp: set_access_in_network_registry_def)
    ultimately show ?thesis using r SetAccess by (auto simp: info_refines_def info_state_wf_def chain_row_ok_def node_row_ok_def data_of_def)
  next
    case (SetEligible c b)
    have "set (nf_eligible (set_safe_eligibility c b nf)) = to_hex ` (if b then insert c (is_eligible s) else is_eligible s - {c})"
      using r by (auto simp: set_safe_eligibility_def set_insert_unique info_refines_def)
    moreover have "\<exists>l. set_safe_eligibility c b nf = nf\<lparr>nf_eligible := l\<rparr>" by (auto simp: set_safe_eligibility_def)
    ultimately show ?thesis using r SetEligible by (auto simp: info_refines_def info_state_wf_def chain_row_ok_def node_row_ok_def data_of_def)
  next
    case ReadIndexerData
    then show ?thesis using get_indexer_data_eq [OF a r] by auto
  next
    case ReadSafeInfo
    then show ?thesis using get_safe_info_eq [OF r] by auto
  qed (use r m n ok in \<open>auto simp: defs data_of_def\<close>)
qed

lemma info_refines_new: "info_refines approx info_initial nf_new"
proof -
  have a1: "wp_as_f64 wp_always = 1" by (simp add: wp_f64 wp_special)
  have "f64_as_f32 1 = 1" by (simp add: f64_as_f32_def round_half_even_def numeral_eq_Suc)
  moreover have "bal_from_be (replicate 12 0) = 0" by (simp add: bal_from_be_def u256_from_be_def be_decode_def numeral_eq_Suc)
  ultimately show ?thesis
    by (simp add: info_refines_def info_initial_def nf_new_def info_state_wf_def chain_row_ok_def node_row_ok_def
        initial_chain_info_def initial_node_info_def a1 wp_special encoded_win_prob_length_def)
qed

lemma info_refines_reads:
  assumes "approx_ok approx" and r: "info_refines approx s nf"
  shows "(\<exists>nf' d. get_indexer_data approx nf = Ok (nf', d)
            \<and> (\<forall>ds. id_domain_separator ds d = is_domain_separators s ds) \<and> id_ticket_price d = is_ticket_price s
            \<and> id_nr_enabled d = is_registry_enabled s \<and> \<bar>wp_as_f64 (id_min_win_prob d) - wp_as_f64 (is_win_prob s)\<bar> \<le> 1 / 2 ^ 23)
       \<and> (\<exists>nf'. get_safe_info nf = Ok (nf', is_safe_info s))
       \<and> get_safe_hopr_balance nf = Ok (is_balance s) \<and> get_safe_hopr_allowance nf = Ok (is_allowance s)
       \<and> map_res is_latest_block_number (get_indexer_state_info nf) = Ok (is_block s)
       \<and> (\<forall>a. is_allowed_in_network_registry a nf \<longleftrightarrow> a \<in> is_allowed s)
       \<and> (\<forall>a. is_safe_eligible a nf \<longleftrightarrow> a \<in> is_eligible s)
       \<and> (\<forall>k. get_global_setting k nf = is_settings s k)"
proof -
  obtain nf1 where d: "get_indexer_data approx nf = Ok (nf1, data_of approx s)" using get_indexer_data_eq [OF assms(1) r] by blast
  obtain nf2 where si: "get_safe_info nf = Ok (nf2, is_safe_info s)" using get_safe_info_eq [OF r] by blast
  have "length (is_win_prob s) = encoded_win_prob_length" using r by (simp add: info_refines_def info_state_wf_def)
  then have wp: "\<bar>wp_as_f64 (id_min_win_prob (data_of approx s)) - wp_as_f64 (is_win_prob s)\<bar> \<le> 1 / 2 ^ 23"
    using stored_win_prob [OF assms(1)] by (simp add: data_of_def)
  have ds: "id_domain_separator ds (data_of approx s) = is_domain_separators s ds" for ds
    by (cases ds) (simp_all add: id_domain_separator_def data_of_def)
  have rest: "get_safe_hopr_balance nf = Ok (is_balance s)" "get_safe_hopr_allowance nf = Ok (is_allowance s)"
    "map_res is_latest_block_number (get_indexer_state_info nf) = Ok (is_block s)"
    "is_allowed_in_network_registry a nf \<longleftrightarrow> a \<in> is_allowed s" "is_safe_eligible a nf \<longleftrightarrow> a \<in> is_eligible s"
    "get_global_setting k nf = is_settings s k" for a k
    using r unfolding info_refines_def
    by (auto simp: get_safe_hopr_balance_def get_safe_hopr_allowance_def node_info_get_def node_row_ok_def get_indexer_state_info_def
        chain_info_get_def chain_row_ok_def is_allowed_in_network_registry_def is_safe_eligible_def get_global_setting_def)
  have price: "id_ticket_price (data_of approx s) = is_ticket_price s" "id_nr_enabled (data_of approx s) = is_registry_enabled s"
    by (simp_all add: data_of_def)
  show ?thesis
  proof (intro conjI)
    show "\<exists>nf' d. get_indexer_data approx nf = Ok (nf', d)
            \<and> (\<forall>ds. id_domain_separator ds d = is_domain_separators s ds) \<and> id_ticket_price d = is_ticket_price s
            \<and> id_nr_enabled d = is_registry_enabled s \<and> \<bar>wp_as_f64 (id_min_win_prob d) - wp_as_f64 (is_win_prob s)\<bar> \<le> 1 / 2 ^ 23"
      using d ds price wp by blast
  qed (use si rest in blast)+
qed

text \<open>C22: the node information, except the minimum winning probability, is what was set last. After any sequence of updates and reads of the fixed rows, the network
registry, the eligible safes and the settings, nothing has failed, the indexer data are read as the values set last whether
they come from the cache or the row, the safe, its balance and its allowance too, the registry and the eligible safes are the
sets of the addresses that were added and not removed, and the settings are a map. Only the minimum winning probability, which
is stored as a single-precision float, is read with an error, of at most \<open>2 ^ -23\<close>.\<close>

theorem node_info_refines:
  assumes "approx_ok approx" and "\<And>op. op \<in> set ops \<Longrightarrow> info_op_ok op"
  shows "\<exists>nf. run_info_ops approx ops nf_new = Ok nf
    \<and> (let s = fold info_state_op ops info_initial in
         (\<exists>nf' d. get_indexer_data approx nf = Ok (nf', d)
            \<and> (\<forall>ds. id_domain_separator ds d = is_domain_separators s ds) \<and> id_ticket_price d = is_ticket_price s
            \<and> id_nr_enabled d = is_registry_enabled s \<and> \<bar>wp_as_f64 (id_min_win_prob d) - wp_as_f64 (is_win_prob s)\<bar> \<le> 1 / 2 ^ 23)
       \<and> (\<exists>nf'. get_safe_info nf = Ok (nf', is_safe_info s))
       \<and> get_safe_hopr_balance nf = Ok (is_balance s) \<and> get_safe_hopr_allowance nf = Ok (is_allowance s)
       \<and> map_res is_latest_block_number (get_indexer_state_info nf) = Ok (is_block s)
       \<and> (\<forall>a. is_allowed_in_network_registry a nf \<longleftrightarrow> a \<in> is_allowed s)
       \<and> (\<forall>a. is_safe_eligible a nf \<longleftrightarrow> a \<in> is_eligible s)
       \<and> (\<forall>k. get_global_setting k nf = is_settings s k))"
proof -
  have run: "info_refines approx s nf \<Longrightarrow> \<forall>op \<in> set ops. info_op_ok op \<Longrightarrow>
      \<exists>nf'. run_info_ops approx ops nf = Ok nf' \<and> info_refines approx (fold info_state_op ops s) nf'" for s nf
  proof (induction ops arbitrary: s nf)
    case (Cons op ops)
    have "info_op_ok op" using Cons.prems by simp
    from run_info_op_refines [OF assms(1) Cons.prems(1) this] obtain nf' where
      "run_info_op approx op nf = Ok nf'" "info_refines approx (info_state_op op s) nf'" by blast
    with Cons.IH [of "info_state_op op s" nf'] Cons.prems(2) show ?case by simp
  qed simp
  from run [OF info_refines_new] assms(2) obtain nf where nf: "run_info_ops approx ops nf_new = Ok nf"
    "info_refines approx (fold info_state_op ops info_initial) nf" by blast
  show ?thesis unfolding Let_def using nf(1) info_refines_reads [OF assms(1) nf(2)] by blast
qed

section \<open>Examples\<close>

theorem node_info_refines_witness:
  "\<exists>nf. run_info_ops (\<lambda>a b. \<bar>a - b\<bar> \<le> 1 / 10 ^ 8)
       [SetMinWinProb wp_always, ReadIndexerData, SetDomainSeparator Ledger (replicate 32 3), SetSafeBalance 5, SetAccess (replicate 20 1) True] nf_new = Ok nf
     \<and> get_safe_hopr_balance nf = Ok 5 \<and> is_allowed_in_network_registry (replicate 20 1) nf"
proof -
  let ?ops = "[SetMinWinProb wp_always, ReadIndexerData, SetDomainSeparator Ledger (replicate 32 3), SetSafeBalance 5, SetAccess (replicate 20 1) True]"
  have a: "approx_ok (\<lambda>a b. \<bar>a - b\<bar> \<le> 1 / 10 ^ 8)" by (auto simp: approx_ok_def)
  have ok: "info_op_ok op" if "op \<in> set ?ops" for op
    using that by (auto simp: info_op_ok_def wp_special encoded_win_prob_length_def hash_size_def)
  from node_info_refines [OF a ok, of ?ops] show ?thesis unfolding Let_def by auto
qed

text \<open>
  A minimum winning probability of 0.8 is read back as a larger one, by more than the tolerance of comparisons, so a
  ticket with exactly the minimum counts as one below it.
\<close>

definition four_fifths :: win_prob where
  "four_fifths = be_encode 7 (16 * 3602879701896397 - 1)"

lemma min_win_prob_rounds_up:
  assumes "\<And>a b. approx a b \<longleftrightarrow> \<bar>a - b\<bar> \<le> 1 / 10 ^ 8"
  shows "\<exists>nf nf' d. set_minimum_incoming_ticket_win_prob four_fifths nf_new = Ok nf \<and> get_indexer_data approx nf = Ok (nf', d)
     \<and> wp_approx_cmp approx four_fifths (id_min_win_prob d) = Less"
proof -
  have a: "approx_ok approx" using assms by (auto simp: approx_ok_def)
  have l: "length four_fifths = 7" by (simp add: four_fifths_def)
  have v: "wp_as_f64 four_fifths = 3602879701896397 / 2 ^ 52"
    using wp_f64 [OF l] by (simp add: four_fifths_def be_decode_encode)
  have f: "f64_as_f32 (3602879701896397 / 2 ^ 52) = 13421773 / 2 ^ 24"
  proof -
    have "f32_shift (Suc (Suc 124)) (3602879701896397 / 2 ^ 52) = 1" unfolding f32_shift.simps by simp
    moreover have "Suc (Suc 124) = (126 :: nat)" by simp
    ultimately have "f32_shift 126 (3602879701896397 / 2 ^ 52) = 1" by (simp only:)
    moreover have "\<lfloor>(3602879701896397 / 2 ^ 52 :: rat) * 2 ^ 24\<rfloor> = 13421772"
      by (rule floor_unique) simp_all
    ultimately show ?thesis by (simp add: f64_as_f32_def round_half_even_def Let_def)
  qed
  have "\<not> approx 0 (13421773 / 2 ^ 24)" "\<not> approx 1 (13421773 / 2 ^ 24)" by (simp_all add: assms)
  from wp_try_from_regular [OF a _ _ this] obtain w where w: "wp_try_from_f64 approx (Some (13421773 / 2 ^ 24)) = Ok w"
    "wp_as_f64 w = of_nat (f64_one_plus (13421773 / 2 ^ 24)) / 2 ^ 52" by auto
  have "f64_one_plus (13421773 / 2 ^ 24) = 13421773 * 2 ^ 28" by (simp add: f64_one_plus_def round_half_even_def)
  then have "wp_as_f64 w = 13421773 / 2 ^ 24" using w(2) by simp
  then have c: "wp_approx_cmp approx four_fifths w = Less" by (simp add: wp_approx_cmp_def v assms ord_cmp_def)
  have "wp_try_from_f64 approx (Some (f64_as_f32 (wp_as_f64 four_fifths))) = Ok w" unfolding v f by (rule w(1))
  with c show ?thesis
    by (simp add: set_minimum_incoming_ticket_win_prob_def chain_info_update_def nf_new_def invalidate_indexer_data_def initial_chain_info_def
        get_indexer_data_def chain_info_get_def hash_column_def Let_def)
qed

end
