(* ===== verification/Chain_Events.thy ===== *)
theory Chain_Events
  imports Node_Accounts Node_Info
begin

text \<open>
  The handling of contract events by the indexer (\<open>chain/indexer/src/handlers.rs\<close>, \<open>errors.rs\<close>, with the events of
  \<open>chain/types/src/chain_events.rs\<close>): how the logs of a block change the accounts, the channels, the node information and
  the tickets of the node, and which events they are reported as. The decoding of a log by the generated contract
  bindings is part of the environment.

  All the logs of a block are processed in one transaction of the index database. The transaction is committed although
  the processing of some logs failed, so what a failing log changed before its error stays. A handler therefore returns
  the state it leaves together with its result.
\<close>

section \<open>Errors and events\<close>

datatype indexer_error =
    ProcessError string
  | DbApiError db_error
  | IndexerDbError string
  | IndexerDbEntityError db_entity_error
  | AbiError
  | SolTypeError
  | IndexerGeneralError general_error
  | ValidationError string
  | AnnounceBeforeKeyBinding
  | AnnounceEmptyMultiaddr
  | UnsupportedKeyRebinding
  | RevocationBeforeKeyBinding
  | AccountEntrySignatureVerification
  | ChannelDoesNotExist
  | MFAModuleDoesNotExist
  | UnknownContract address
  | MultiaddrParseError
  | IndexerRpcError

datatype network_registry_status = Allowed | Denied

datatype 'ma chain_event =
    EvAnnouncement offchain_key address "'ma list"
  | EvChannelOpened channel_entry
  | EvChannelClosureInitiated channel_entry
  | EvChannelClosed channel_entry
  | EvChannelBalanceIncreased channel_entry hopr_balance
  | EvChannelBalanceDecreased channel_entry hopr_balance
  | EvTicketRedeemed channel_entry "acknowledged_ticket option"
  | EvNodeSafeRegistered address
  | EvNetworkRegistryUpdate address network_registry_status

record 'ma significant_chain_event =
  se_tx_hash :: hash
  se_event_type :: "'ma chain_event"

text \<open>The decoded contract events with the arguments that the handlers read; \<open>Other\<close> events are ignored by them.\<close>

datatype announcements_event =
    AddressAnnouncement address string
  | KeyBinding bytes bytes bytes address
  | RevokeAnnouncement address

datatype channels_event =
    ChannelBalanceDecreased hash "96 word"
  | ChannelBalanceIncreased hash "96 word"
  | ChannelClosed hash
  | ChannelOpened address address
  | TicketRedeemed hash "48 word"
  | OutgoingChannelClosureInitiated hash u32
  | ChannelsDomainSeparatorUpdated hash
  | LedgerDomainSeparatorUpdated hash

datatype token_event = Transfer address address u256 | Approval address address u256 | OtherTokenEvent

datatype network_registry_event =
    DeregisteredByManager address
  | Deregistered address
  | RegisteredByManager address
  | Registered address
  | EligibilityUpdated address bool
  | NetworkRegistryStatusUpdated bool
  | OtherNetworkRegistryEvent

datatype safe_registry_event =
    RegisteredNodeSafe address address
  | DergisteredNodeSafe address address
  | SafeRegistryDomainSeparatorUpdated hash

datatype win_prob_oracle_event = WinProbUpdated win_prob win_prob | OtherWinProbOracleEvent

datatype price_oracle_event = TicketPriceUpdated u256 u256 | OwnershipTransferred

section \<open>Logs, addresses and the environment\<close>

record serializable_log =
  sl_address :: address
  sl_topics :: "hash list"
  sl_data :: bytes
  sl_block_number :: u64
  sl_tx_hash :: hash

record contract_addresses =
  ca_token :: address
  ca_channels :: address
  ca_announcements :: address
  ca_network_registry :: address
  ca_safe_registry :: address
  ca_price_oracle :: address
  ca_win_prob_oracle :: address
  ca_module_implementation :: address

text \<open>The decoders of the bindings take the topics and the data of a log; a log with other topics is not decoded.\<close>

record log_decoders =
  ld_announcements :: "hash list \<Rightarrow> bytes \<Rightarrow> announcements_event option"
  ld_channels :: "hash list \<Rightarrow> bytes \<Rightarrow> channels_event option"
  ld_network_registry :: "hash list \<Rightarrow> bytes \<Rightarrow> network_registry_event option"
  ld_token :: "hash list \<Rightarrow> bytes \<Rightarrow> token_event option"
  ld_safe_registry :: "hash list \<Rightarrow> bytes \<Rightarrow> safe_registry_event option"
  ld_module :: "hash list \<Rightarrow> bytes \<Rightarrow> unit option"
  ld_price_oracle :: "hash list \<Rightarrow> bytes \<Rightarrow> price_oracle_event option"
  ld_win_prob_oracle :: "hash list \<Rightarrow> bytes \<Rightarrow> win_prob_oracle_event option"

record ('ma, 'sk, 'vrf, 'rnd) handlers =
  eh_addresses :: contract_addresses
  eh_safe_address :: address
  eh_me :: address
  eh_crypto :: "('sk, 'vrf, 'rnd) crypto"
  eh_accounts :: "'ma account_env"
  eh_approx :: "rat \<Rightarrow> rat \<Rightarrow> bool"
  eh_decoders :: log_decoders

record chain_state =
  cs_accounts :: account_db
  cs_channels :: channel_table
  cs_info :: info_db
  cs_tickets :: ticket_db

section \<open>Steps\<close>

text \<open>An action leaves a state together with its result; a step of the indexer is an action with the errors of the indexer.\<close>

type_synonym ('s, 'e, 'a) state_action = "'s \<Rightarrow> 's \<times> ('e, 'a) result"
type_synonym ('e, 'a) action = "(chain_state, 'e, 'a) state_action"
type_synonym 'a step = "(indexer_error, 'a) action"

definition act_return :: "'a \<Rightarrow> ('s, 'e, 'a) state_action" where
  "act_return x = (\<lambda>s. (s, Ok x))"

definition act_fail :: "'e \<Rightarrow> ('s, 'e, 'a) state_action" where
  "act_fail e = (\<lambda>s. (s, Err e))"

definition act_bind :: "('s, 'e, 'a) state_action \<Rightarrow> ('a \<Rightarrow> ('s, 'e, 'b) state_action) \<Rightarrow> ('s, 'e, 'b) state_action" where
  "act_bind m k = (\<lambda>s. case m s of (s', Inl e) \<Rightarrow> (s', Inl e) | (s', Inr x) \<Rightarrow> k x s')"

definition db_read :: "(chain_state \<Rightarrow> (db_error, 'a) result) \<Rightarrow> 'a step" where
  "db_read q = (\<lambda>s. (s, map_fail DbApiError (q s)))"

definition db_write :: "(chain_state \<Rightarrow> (db_error, chain_state \<times> 'a) result) \<Rightarrow> 'a step" where
  "db_write u = (\<lambda>s. case u s of Inl e \<Rightarrow> (s, map_fail DbApiError (Inl e)) | Inr (s', x) \<Rightarrow> (s', Ok x))"

definition on_info :: "(info_db \<Rightarrow> (db_error, info_db) result) \<Rightarrow> unit step" where
  "on_info f = db_write (\<lambda>s. map_res (\<lambda>nf. (s\<lparr>cs_info := nf\<rparr>, ())) (f (cs_info s)))"

definition on_tickets :: "(ticket_db \<Rightarrow> (db_error, ticket_db \<times> 'a) result) \<Rightarrow> 'a step" where
  "on_tickets f = db_write (\<lambda>s. map_res (\<lambda>(td, x). (s\<lparr>cs_tickets := td\<rparr>, x)) (f (cs_tickets s)))"

text \<open>A finished update of a channel also drops the unrealized value of its epoch from the cache.\<close>

definition forget_unrealized :: "hash \<times> u256 \<Rightarrow> chain_state \<Rightarrow> chain_state" where
  "forget_unrealized k s = s\<lparr>cs_tickets := (cs_tickets s)\<lparr>td_unrealized := (td_unrealized (cs_tickets s))(k := None)\<rparr>\<rparr>"

definition begin_update :: "('ma, 'sk, 'vrf, 'rnd) handlers \<Rightarrow> hash \<Rightarrow> channel_editor option step" where
  "begin_update eh i = db_read (\<lambda>s. begin_channel_update (cr_keccak (eh_crypto eh)) i (cs_channels s))"

definition finish_update :: "('ma, 'sk, 'vrf, 'rnd) handlers \<Rightarrow> channel_editor \<Rightarrow> channel_entry step" where
  "finish_update eh editor = db_write (\<lambda>s.
     map_res (\<lambda>(tbl, c, k). (forget_unrealized k (s\<lparr>cs_channels := tbl\<rparr>), c))
       (finish_channel_update (cr_keccak (eh_crypto eh)) editor (cs_channels s)))"

definition insert_channel :: "channel_entry \<Rightarrow> unit step" where
  "insert_channel c = db_write (\<lambda>s.
     map_res (\<lambda>(tbl, k). (forget_unrealized k (s\<lparr>cs_channels := tbl\<rparr>), ())) (upsert_channel c (cs_channels s)))"

section \<open>Announcements\<close>

definition on_announcement_event ::
  "('ma, 'sk, 'vrf, 'rnd) handlers \<Rightarrow> announcements_event \<Rightarrow> u32 \<Rightarrow> 'ma chain_event option step" where
  "on_announcement_event eh event block_number = (\<lambda>s.
     let ae = eh_accounts eh in
     case event of
       AddressAnnouncement node base_multiaddr \<Rightarrow>
         if base_multiaddr = '''' then (s, Ok None)
         else
           (case ae_parse ae base_multiaddr of
              None \<Rightarrow> (s, Err MultiaddrParseError)
            | Some multiaddr \<Rightarrow>
                (case insert_announcement ae (ChainKey node) multiaddr block_number (cs_accounts s) of
                   Inr (ad, account) \<Rightarrow>
                     (s\<lparr>cs_accounts := ad\<rparr>,
                      (case ac_get_multiaddr account of
                         Some m \<Rightarrow> Ok (Some (EvAnnouncement (ac_public_key account) (ac_chain_addr account) [m]))
                       | None \<Rightarrow> Panicked))
                 | Inl (Fail MissingAccount) \<Rightarrow> (s, Err AnnounceBeforeKeyBinding)
                 | Inl e \<Rightarrow> (s, map_fail DbApiError (Inl e))))
     | KeyBinding ed25519_sig_0 ed25519_sig_1 ed25519_pub_key chain_key \<Rightarrow>
         if \<not> ae_valid_point ae ed25519_pub_key then (s, Err (IndexerGeneralError (ParseErr ''OffchainPublicKey.decompress'')))
         else
           (case kb_from_parts ae chain_key ed25519_pub_key (ed25519_sig_0 @ ed25519_sig_1) of
              Inr binding \<Rightarrow>
                (case insert_account ae
                    \<lparr>ac_public_key = kb_packet_key binding, ac_chain_addr = kb_chain_key binding, ac_entry_type = NotAnnounced,
                     ac_published_at = block_number\<rparr> (cs_accounts s) of
                   (ad, Inr _) \<Rightarrow> (s\<lparr>cs_accounts := ad\<rparr>, Ok None)
                 | (ad, Inl e) \<Rightarrow> (s\<lparr>cs_accounts := ad\<rparr>, map_fail DbApiError (Inl e)))
            | Inl (Fail _) \<Rightarrow> (s, Ok None)
            | Inl Panic \<Rightarrow> (s, Panicked))
     | RevokeAnnouncement node \<Rightarrow>
         (case delete_all_announcements (ChainKey node) (cs_accounts s) of
            Inr ad \<Rightarrow> (s\<lparr>cs_accounts := ad\<rparr>, Ok None)
          | Inl (Fail MissingAccount) \<Rightarrow> (s, Err RevocationBeforeKeyBinding)
          | Inl e \<Rightarrow> (s, map_fail DbApiError (Inl e))))"

section \<open>Channels\<close>

definition on_balance_decreased :: "('ma, 'sk, 'vrf, 'rnd) handlers \<Rightarrow> hash \<Rightarrow> 96 word \<Rightarrow> 'ma chain_event option step" where
  "on_balance_decreased eh channel_id new_balance =
     act_bind (begin_update eh channel_id) (\<lambda>maybe_channel.
       case maybe_channel of
         Some channel_edits \<Rightarrow>
           let new_balance = ucast new_balance;
               diff = bal_sub (ce_balance (ed_entry channel_edits)) new_balance in
           act_bind (finish_update eh (change_balance new_balance channel_edits)) (\<lambda>updated_channel.
             act_return (Some (EvChannelBalanceDecreased updated_channel diff)))
       | None \<Rightarrow> act_fail ChannelDoesNotExist)"

definition on_balance_increased :: "('ma, 'sk, 'vrf, 'rnd) handlers \<Rightarrow> hash \<Rightarrow> 96 word \<Rightarrow> 'ma chain_event option step" where
  "on_balance_increased eh channel_id new_balance =
     act_bind (begin_update eh channel_id) (\<lambda>maybe_channel.
       case maybe_channel of
         Some channel_edits \<Rightarrow>
           let new_balance = ucast new_balance;
               diff = bal_sub new_balance (ce_balance (ed_entry channel_edits)) in
           act_bind (finish_update eh (change_balance new_balance channel_edits)) (\<lambda>updated_channel.
             act_return (Some (EvChannelBalanceIncreased updated_channel diff)))
       | None \<Rightarrow> act_fail ChannelDoesNotExist)"

definition on_channel_closed :: "('ma, 'sk, 'vrf, 'rnd) handlers \<Rightarrow> hash \<Rightarrow> 'ma chain_event option step" where
  "on_channel_closed eh channel_id =
     act_bind (begin_update eh channel_id) (\<lambda>maybe_channel.
       case maybe_channel of
         Some channel_edits \<Rightarrow>
           let channel_id = ce_get_id (ed_entry channel_edits) in
           act_bind
             (case ce_orientation (ed_entry channel_edits) (eh_me eh) of
                Some (direction, _) \<Rightarrow>
                  act_bind (finish_update eh (change_ticket_index 0 (change_balance 0 (change_status Closed channel_edits)))) (\<lambda>updated_channel.
                  act_bind
                    (case direction of
                       Incoming \<Rightarrow> act_bind (on_tickets (mark_tickets_as (sel_of_channel updated_channel) Neglected)) (\<lambda>_. act_return ())
                     | Outgoing \<Rightarrow> act_bind (on_tickets (reset_outgoing_ticket_index channel_id)) (\<lambda>_. act_return ())) (\<lambda>_.
                  act_return updated_channel))
              | None \<Rightarrow> finish_update eh (ed_mark_delete channel_edits)) (\<lambda>updated_channel.
           act_return (Some (EvChannelClosed updated_channel)))
       | None \<Rightarrow> act_fail ChannelDoesNotExist)"

definition on_channel_opened :: "('ma, 'sk, 'vrf, 'rnd) handlers \<Rightarrow> address \<Rightarrow> address \<Rightarrow> 'ma chain_event option step" where
  "on_channel_opened eh source destination =
     (let channel_id = generate_channel_id (cr_keccak (eh_crypto eh)) source destination in
      act_bind (begin_update eh channel_id) (\<lambda>maybe_channel.
      act_bind
        (case maybe_channel of
           Some channel_edits \<Rightarrow>
             if \<not> status_eq (ce_status (ed_entry channel_edits)) Closed then
               act_fail (ProcessError ''trying to re-open channel which is not closed'')
             else
               let current_epoch = ce_channel_epoch (ed_entry channel_edits) in
               act_bind
                 (if source = eh_me eh \<or> destination = eh_me eh then
                    act_bind (on_tickets (mark_tickets_as (sel_new channel_id current_epoch) Neglected)) (\<lambda>_.
                    act_bind (on_tickets (reset_outgoing_ticket_index channel_id)) (\<lambda>_.
                    act_return ()))
                  else act_return ()) (\<lambda>_.
               act_bind (\<lambda>s. (s, u256_add current_epoch 1)) (\<lambda>next_epoch.
               finish_update eh (change_status Open (change_epoch next_epoch (change_ticket_index 0 channel_edits)))))
         | None \<Rightarrow>
             let new_channel = ce_new (cr_keccak (eh_crypto eh)) source destination 0 0 Open 1 in
             act_bind (insert_channel new_channel) (\<lambda>_. act_return new_channel)) (\<lambda>channel.
      act_return (Some (EvChannelOpened channel)))))"

text \<open>
  The ticket that a redemption on an own incoming channel concerns: the ticket being redeemed whose index and offset add
  up to the new ticket index. When there is none, the code only logs an error; the predecessor of the index in the log
  line has no effect on the result (it wraps at 0, as release builds do) and is not modelled.
\<close>

definition redeemed_ticket ::
  "('ma, 'sk, 'vrf, 'rnd) handlers \<Rightarrow> channel_entry \<Rightarrow> 48 word \<Rightarrow> acknowledged_ticket option step" where
  "redeemed_ticket eh entry new_ticket_index =
     act_bind (db_read (\<lambda>s. get_tickets (eh_crypto eh) (with_state BeingRedeemed (sel_of_channel entry)) (cs_tickets s))) (\<lambda>tickets.
     let matching_tickets = filter (\<lambda>t.
           let ticket_idx = tk_index (vt_ticket (at_ticket t));
               ticket_off = ucast (tk_index_offset (vt_ticket (at_ticket t))) in
           ticket_idx + ticket_off = ucast new_ticket_index) tickets in
     case matching_tickets of
       [ack_ticket] \<Rightarrow>
         act_bind (on_tickets (mark_tickets_as (sel_of_acknowledged ack_ticket) Redeemed)) (\<lambda>_. act_return (Some ack_ticket))
     | [] \<Rightarrow> act_return None
     | _ \<Rightarrow> act_fail (ProcessError ''multiple tickets matching''))"

definition on_ticket_redeemed :: "('ma, 'sk, 'vrf, 'rnd) handlers \<Rightarrow> hash \<Rightarrow> 48 word \<Rightarrow> 'ma chain_event option step" where
  "on_ticket_redeemed eh channel_id new_ticket_index =
     act_bind (begin_update eh channel_id) (\<lambda>maybe_channel.
       case maybe_channel of
         Some channel_edits \<Rightarrow>
           act_bind
             (case ce_direction (ed_entry channel_edits) (eh_me eh) of
                Some Incoming \<Rightarrow> redeemed_ticket eh (ed_entry channel_edits) new_ticket_index
              | Some Outgoing \<Rightarrow>
                  act_bind
                    (on_tickets (compare_and_set_outgoing_ticket_index (ce_get_id (ed_entry channel_edits)) (ucast new_ticket_index)))
                    (\<lambda>_. act_return None)
              | None \<Rightarrow> act_return None) (\<lambda>ack_ticket.
           act_bind (finish_update eh (change_ticket_index (ucast new_ticket_index) channel_edits)) (\<lambda>channel.
           act_bind
             (on_tickets (mark_tickets_as (with_index_range (Unbounded, Excluded (ucast new_ticket_index)) (sel_of_channel channel)) Neglected))
             (\<lambda>_. act_return (Some (EvTicketRedeemed channel ack_ticket)))))
       | None \<Rightarrow> act_fail ChannelDoesNotExist)"

text \<open>The closure time is given in seconds since the epoch; times are counted in nanoseconds.\<close>

definition on_closure_initiated :: "('ma, 'sk, 'vrf, 'rnd) handlers \<Rightarrow> hash \<Rightarrow> u32 \<Rightarrow> 'ma chain_event option step" where
  "on_closure_initiated eh channel_id closure_time =
     act_bind (begin_update eh channel_id) (\<lambda>maybe_channel.
       case maybe_channel of
         Some channel_edits \<Rightarrow>
           let new_status = PendingToClose (unat closure_time * 10 ^ 9) in
           act_bind (finish_update eh (change_status new_status channel_edits)) (\<lambda>channel.
             act_return (Some (EvChannelClosureInitiated channel)))
       | None \<Rightarrow> act_fail ChannelDoesNotExist)"

fun on_channel_event :: "('ma, 'sk, 'vrf, 'rnd) handlers \<Rightarrow> channels_event \<Rightarrow> 'ma chain_event option step" where
  "on_channel_event eh (ChannelBalanceDecreased channel_id new_balance) = on_balance_decreased eh channel_id new_balance"
| "on_channel_event eh (ChannelBalanceIncreased channel_id new_balance) = on_balance_increased eh channel_id new_balance"
| "on_channel_event eh (ChannelClosed channel_id) = on_channel_closed eh channel_id"
| "on_channel_event eh (ChannelOpened source destination) = on_channel_opened eh source destination"
| "on_channel_event eh (TicketRedeemed channel_id new_ticket_index) = on_ticket_redeemed eh channel_id new_ticket_index"
| "on_channel_event eh (OutgoingChannelClosureInitiated channel_id closure_time) = on_closure_initiated eh channel_id closure_time"
| "on_channel_event eh (ChannelsDomainSeparatorUpdated domain_separator) =
     act_bind (on_info (set_domain_separator ChannelDst domain_separator)) (\<lambda>_. act_return None)"
| "on_channel_event eh (LedgerDomainSeparatorUpdated domain_separator) =
     act_bind (on_info (set_domain_separator Ledger domain_separator)) (\<lambda>_. act_return None)"

section \<open>The other contracts\<close>

definition on_token_event :: "('ma, 'sk, 'vrf, 'rnd) handlers \<Rightarrow> token_event \<Rightarrow> 'ma chain_event option step" where
  "on_token_event eh event =
     (case event of
        Transfer from_address to_address transferred_value \<Rightarrow>
          act_bind (db_read (\<lambda>s. get_safe_hopr_balance (cs_info s))) (\<lambda>current_balance.
            if to_address \<noteq> eh_safe_address eh \<and> from_address \<noteq> eh_safe_address eh then act_return None
            else
              let current_balance =
                (if to_address = eh_safe_address eh then bal_add current_balance transferred_value
                 else if from_address = eh_safe_address eh then bal_sub current_balance transferred_value
                 else current_balance) in
              act_bind (on_info (set_safe_hopr_balance current_balance)) (\<lambda>_. act_return None))
      | Approval owner spender approved_value \<Rightarrow>
          if owner = eh_safe_address eh \<and> spender = ca_channels (eh_addresses eh) then
            act_bind (on_info (set_safe_hopr_allowance approved_value)) (\<lambda>_. act_return None)
          else act_return None
      | OtherTokenEvent \<Rightarrow> act_return None)"

definition on_network_registry_event :: "('ma, 'sk, 'vrf, 'rnd) handlers \<Rightarrow> network_registry_event \<Rightarrow> 'ma chain_event option step" where
  "on_network_registry_event eh event =
     (let set_access = (\<lambda>node_address allowed.
        act_bind (on_info (\<lambda>nf. Ok (set_access_in_network_registry node_address allowed nf))) (\<lambda>_.
        act_return (Some (EvNetworkRegistryUpdate node_address (if allowed then Allowed else Denied))))) in
      case event of
        DeregisteredByManager node_address \<Rightarrow> set_access node_address False
      | Deregistered node_address \<Rightarrow> set_access node_address False
      | RegisteredByManager node_address \<Rightarrow> set_access node_address True
      | Registered node_address \<Rightarrow> set_access node_address True
      | EligibilityUpdated account eligibility \<Rightarrow>
          act_bind (on_info (\<lambda>nf. Ok (set_safe_eligibility account eligibility nf))) (\<lambda>_. act_return None)
      | NetworkRegistryStatusUpdated is_enabled \<Rightarrow>
          act_bind (on_info (set_network_registry_enabled is_enabled)) (\<lambda>_. act_return None)
      | OtherNetworkRegistryEvent \<Rightarrow> act_return None)"

definition on_node_safe_registry_event :: "('ma, 'sk, 'vrf, 'rnd) handlers \<Rightarrow> safe_registry_event \<Rightarrow> 'ma chain_event option step" where
  "on_node_safe_registry_event eh event =
     (case event of
        RegisteredNodeSafe safe_address node_address \<Rightarrow>
          if eh_me eh = node_address then act_return (Some (EvNodeSafeRegistered safe_address)) else act_return None
      | DergisteredNodeSafe _ _ \<Rightarrow> act_return None
      | SafeRegistryDomainSeparatorUpdated domain_separator \<Rightarrow>
          act_bind (on_info (set_domain_separator SafeRegistry domain_separator)) (\<lambda>_. act_return None))"

text \<open>The selector of the tickets in all the incoming channels.\<close>

definition incoming_selector :: "channel_entry list \<Rightarrow> ticket_selector option" where
  "incoming_selector cs =
     foldl (\<lambda>selector channel.
        case selector of
          Some s \<Rightarrow> Some (also_on_channel (ce_get_id channel) (ce_channel_epoch channel) s)
        | None \<Rightarrow> Some (sel_of_channel channel)) None cs"

definition on_win_prob_oracle_event :: "('ma, 'sk, 'vrf, 'rnd) handlers \<Rightarrow> win_prob_oracle_event \<Rightarrow> 'ma chain_event option step" where
  "on_win_prob_oracle_event eh event =
     (case event of
        WinProbUpdated old_minimum_win_prob new_minimum_win_prob \<Rightarrow>
          act_bind (on_info (set_minimum_incoming_ticket_win_prob new_minimum_win_prob)) (\<lambda>_.
            if wp_approx_cmp (eh_approx eh) old_minimum_win_prob new_minimum_win_prob = Less then
              act_bind (db_read (\<lambda>s. get_incoming_channels (cr_keccak (eh_crypto eh)) (eh_me eh) (cs_channels s))) (\<lambda>channels.
                case incoming_selector channels of
                  Some selector \<Rightarrow>
                    act_bind (on_tickets (mark_tickets_as (with_winning_probability (Unbounded, Excluded new_minimum_win_prob) selector) Rejected))
                      (\<lambda>_. act_return None)
                | None \<Rightarrow> act_return None)
            else act_return None)
      | OtherWinProbOracleEvent \<Rightarrow> act_return None)"

definition on_price_oracle_event :: "('ma, 'sk, 'vrf, 'rnd) handlers \<Rightarrow> price_oracle_event \<Rightarrow> 'ma chain_event option step" where
  "on_price_oracle_event eh event =
     (case event of
        TicketPriceUpdated _ new_price \<Rightarrow> act_bind (on_info (update_ticket_price new_price)) (\<lambda>_. act_return None)
      | OwnershipTransferred \<Rightarrow> act_return None)"

section \<open>Logs and blocks\<close>

text \<open>A log with more than four topics is not a valid one.\<close>

definition decode_log :: "(hash list \<Rightarrow> bytes \<Rightarrow> 'e option) \<Rightarrow> serializable_log \<Rightarrow> 'e step" where
  "decode_log decode slog =
     (case decode (sl_topics slog) (sl_data slog) of Some event \<Rightarrow> act_return event | None \<Rightarrow> act_fail SolTypeError)"

definition process_log_event :: "('ma, 'sk, 'vrf, 'rnd) handlers \<Rightarrow> serializable_log \<Rightarrow> 'ma chain_event option step" where
  "process_log_event eh slog =
     (let ca = eh_addresses eh; ld = eh_decoders eh; address = sl_address slog in
      if length (sl_topics slog) > 4 then act_fail (ProcessError ''failed to convert log to primitive log'')
      else if address = ca_announcements ca then
        act_bind (decode_log (ld_announcements ld) slog) (\<lambda>event. on_announcement_event eh event (ucast (sl_block_number slog)))
      else if address = ca_channels ca then act_bind (decode_log (ld_channels ld) slog) (on_channel_event eh)
      else if address = ca_network_registry ca then act_bind (decode_log (ld_network_registry ld) slog) (on_network_registry_event eh)
      else if address = ca_token ca then act_bind (decode_log (ld_token ld) slog) (on_token_event eh)
      else if address = ca_safe_registry ca then act_bind (decode_log (ld_safe_registry ld) slog) (on_node_safe_registry_event eh)
      else if address = ca_module_implementation ca then act_bind (decode_log (ld_module ld) slog) (\<lambda>_. act_return None)
      else if address = ca_price_oracle ca then act_bind (decode_log (ld_price_oracle ld) slog) (on_price_oracle_event eh)
      else if address = ca_win_prob_oracle ca then act_bind (decode_log (ld_win_prob_oracle ld) slog) (on_win_prob_oracle_event eh)
      else act_fail (UnknownContract address))"

text \<open>A failing log is skipped, a panic ends the program.\<close>

fun collect_block_events ::
  "('ma, 'sk, 'vrf, 'rnd) handlers \<Rightarrow> serializable_log list \<Rightarrow> chain_state
     \<Rightarrow> (indexer_error, chain_state \<times> 'ma significant_chain_event list) result" where
  "collect_block_events eh [] s = Ok (s, [])"
| "collect_block_events eh (slog # logs) s =
     (case process_log_event eh slog s of
        (s', Inr (Some event_type)) \<Rightarrow>
          map_res (\<lambda>(s'', evs). (s'', \<lparr>se_tx_hash = sl_tx_hash slog, se_event_type = event_type\<rparr> # evs)) (collect_block_events eh logs s')
      | (s', Inr None) \<Rightarrow> collect_block_events eh logs s'
      | (s', Inl (Fail _)) \<Rightarrow> collect_block_events eh logs s'
      | (s', Inl Panic) \<Rightarrow> Panicked)"

definition handled_contracts :: "('ma, 'sk, 'vrf, 'rnd) handlers \<Rightarrow> address list" where
  "handled_contracts eh =
     (let ca = eh_addresses eh in
      [ca_announcements ca, ca_channels ca, ca_module_implementation ca, ca_network_registry ca, ca_price_oracle ca,
       ca_win_prob_oracle ca, ca_safe_registry ca, ca_token ca])"

end
