(* ===== verification/Chain_Ledger.thy ===== *)
theory Chain_Ledger
  imports Chain_Events Ticket_Accounting Account_Table
begin

text \<open>
  What the handlers of \<open>Chain_Events\<close> do to the state of the node, as an abstract ledger: maps of accounts, channels and
  outgoing ticket indices, the list of stored tickets with the values settled per channel, and the node information. The
  rows, caches and editors of the databases refine it.
\<close>

section \<open>The ledger\<close>

record 'ma ledger =
  lg_accounts :: "address \<Rightarrow> 'ma account_entry option"
  lg_announced :: "address \<Rightarrow> string set"
  lg_channels :: "hash \<Rightarrow> channel_entry option"
  lg_tickets :: "acknowledged_ticket list"
  lg_settled :: "ticket_marker \<Rightarrow> hash \<Rightarrow> nat"
  lg_indices :: "hash \<Rightarrow> u64"
  lg_info :: info_state

type_synonym 'ma outcome = "(indexer_error, 'ma chain_event option) result"

definition tickets_value :: "acknowledged_ticket list \<Rightarrow> nat" where
  "tickets_value as = sum_list (map ticket_value as)"

definition in_epoch :: "hash \<Rightarrow> u256 \<Rightarrow> acknowledged_ticket \<Rightarrow> bool" where
  "in_epoch i e a \<longleftrightarrow> ticket_key a = (i, e)"

text \<open>Marking removes tickets and adds their value to what was settled with the marker in their channels.\<close>

definition ledger_mark :: "ticket_marker \<Rightarrow> (acknowledged_ticket \<Rightarrow> bool) \<Rightarrow> 'ma ledger \<Rightarrow> 'ma ledger" where
  "ledger_mark mk P l =
     l\<lparr>lg_tickets := filter (\<lambda>a. \<not> P a) (lg_tickets l),
       lg_settled := (lg_settled l)(mk := (\<lambda>i. lg_settled l mk i + tickets_value (filter (\<lambda>a. P a \<and> fst (ticket_key a) = i) (lg_tickets l))))\<rparr>"

definition ledger_set :: "channel_entry \<Rightarrow> 'ma ledger \<Rightarrow> 'ma ledger" where
  "ledger_set c l = l\<lparr>lg_channels := (lg_channels l)(ce_id c \<mapsto> c)\<rparr>"

definition ledger_index :: "hash \<Rightarrow> u64 \<Rightarrow> 'ma ledger \<Rightarrow> 'ma ledger" where
  "ledger_index i v l = l\<lparr>lg_indices := (lg_indices l)(i := v)\<rparr>"

definition ledger_info :: "info_op \<Rightarrow> 'ma ledger \<Rightarrow> 'ma ledger" where
  "ledger_info op l = l\<lparr>lg_info := info_state_op op (lg_info l)\<rparr>"

definition ledger_channel_closed :: "address \<Rightarrow> channel_entry \<Rightarrow> 'ma ledger \<Rightarrow> 'ma ledger \<times> 'ma outcome" where
  "ledger_channel_closed me c l =
     (let c' = c\<lparr>ce_balance := 0, ce_ticket_index := 0, ce_status := Closed\<rparr> in
      if ce_source c = me then (ledger_index (ce_id c) 0 (ledger_set c' l), Ok (Some (EvChannelClosed c')))
      else if ce_destination c = me then
        (ledger_mark Neglected (in_epoch (ce_id c) (ce_channel_epoch c)) (ledger_set c' l), Ok (Some (EvChannelClosed c')))
      else (l\<lparr>lg_channels := (lg_channels l)(ce_id c := None)\<rparr>, Ok (Some (EvChannelClosed c))))"

definition ledger_channel_opened ::
  "(bytes list \<Rightarrow> hash) \<Rightarrow> address \<Rightarrow> address \<Rightarrow> address \<Rightarrow> 'ma ledger \<Rightarrow> 'ma ledger \<times> 'ma outcome" where
  "ledger_channel_opened keccak me source destination l =
     (let i = generate_channel_id keccak source destination in
      case lg_channels l i of
        None \<Rightarrow> (let c = ce_new keccak source destination 0 0 Open 1 in (ledger_set c l, Ok (Some (EvChannelOpened c))))
      | Some c \<Rightarrow>
          if ce_status c \<noteq> Closed then (l, Err (ProcessError ''trying to re-open channel which is not closed''))
          else
            let l = (if source = me \<or> destination = me
                     then ledger_index i 0 (ledger_mark Neglected (in_epoch i (ce_channel_epoch c)) l) else l);
                c' = c\<lparr>ce_ticket_index := 0, ce_channel_epoch := ce_channel_epoch c + 1, ce_status := Open\<rparr> in
            if unat (ce_channel_epoch c) + 1 < 2 ^ 256 then (ledger_set c' l, Ok (Some (EvChannelOpened c')))
            else (l, Panicked))"

definition ledger_ticket_redeemed :: "address \<Rightarrow> channel_entry \<Rightarrow> 48 word \<Rightarrow> 'ma ledger \<Rightarrow> 'ma ledger \<times> 'ma outcome" where
  "ledger_ticket_redeemed me c n l =
     (let c' = c\<lparr>ce_ticket_index := ucast n\<rparr>;
          redeemed = filter (\<lambda>a. in_epoch (ce_id c) (ce_channel_epoch c) a \<and> at_status a = BeingRedeemed
            \<and> tk_index (vt_ticket (at_ticket a)) + ucast (tk_index_offset (vt_ticket (at_ticket a))) = ucast n) (lg_tickets l);
          settle = (\<lambda>l a. (ledger_mark Neglected (\<lambda>a. in_epoch (ce_id c) (ce_channel_epoch c) a \<and> tk_index (vt_ticket (at_ticket a)) < ucast n)
            (ledger_set c' l), Ok (Some (EvTicketRedeemed c' a)))) in
      if ce_source c = me then settle (ledger_index (ce_id c) (max (lg_indices l (ce_id c)) (ucast n)) l) None
      else if ce_destination c = me then
        (case redeemed of
           [] \<Rightarrow> settle l None
         | [a] \<Rightarrow> settle (ledger_mark Redeemed (\<lambda>b. b = a) l) (Some a)
         | _ \<Rightarrow> (l, Err (ProcessError ''multiple tickets matching'')))
      else settle l None)"

definition ledger_channel ::
  "('ma, 'sk, 'vrf, 'rnd) handlers \<Rightarrow> channels_event \<Rightarrow> 'ma ledger \<Rightarrow> 'ma ledger \<times> 'ma outcome" where
  "ledger_channel eh event l =
     (let known = (\<lambda>i f. case lg_channels l i of None \<Rightarrow> (l, Err ChannelDoesNotExist) | Some c \<Rightarrow> f c) in
      case event of
        ChannelBalanceDecreased i b \<Rightarrow>
          known i (\<lambda>c. let c' = c\<lparr>ce_balance := ucast b\<rparr> in
            (ledger_set c' l, Ok (Some (EvChannelBalanceDecreased c' (bal_sub (ce_balance c) (ucast b))))))
      | ChannelBalanceIncreased i b \<Rightarrow>
          known i (\<lambda>c. let c' = c\<lparr>ce_balance := ucast b\<rparr> in
            (ledger_set c' l, Ok (Some (EvChannelBalanceIncreased c' (bal_sub (ucast b) (ce_balance c))))))
      | ChannelClosed i \<Rightarrow> known i (\<lambda>c. ledger_channel_closed (eh_me eh) c l)
      | ChannelOpened source destination \<Rightarrow>
          ledger_channel_opened (cr_keccak (eh_crypto eh)) (eh_me eh) source destination l
      | TicketRedeemed i n \<Rightarrow> known i (\<lambda>c. ledger_ticket_redeemed (eh_me eh) c n l)
      | OutgoingChannelClosureInitiated i t \<Rightarrow>
          known i (\<lambda>c. let c' = c\<lparr>ce_status := PendingToClose (unat t * 10 ^ 9)\<rparr> in
            (ledger_set c' l, Ok (Some (EvChannelClosureInitiated c'))))
      | ChannelsDomainSeparatorUpdated h \<Rightarrow> (ledger_info (SetDomainSeparator ChannelDst h) l, Ok None)
      | LedgerDomainSeparatorUpdated h \<Rightarrow> (ledger_info (SetDomainSeparator Ledger h) l, Ok None))"

section \<open>Refinement\<close>

definition represents ::
  "('ma, 'sk, 'vrf, 'rnd) handlers \<Rightarrow> 'ma account_entry set \<Rightarrow> (address \<Rightarrow> int) \<Rightarrow> chain_state \<Rightarrow> 'ma ledger \<Rightarrow> bool" where
  "represents eh B b s l \<longleftrightarrow>
     (let td = cs_tickets s; tbl = cs_channels s; keccak = cr_keccak (eh_crypto eh) in
      accounts_inv (eh_accounts eh) B b (cs_accounts s) \<and> lg_accounts l = account_entry_at (eh_accounts eh) B (cs_accounts s)
      \<and> lg_announced l = announced_texts (cs_accounts s)
      \<and> ct_ok keccak tbl \<and> lg_channels l = chan keccak tbl
      \<and> td_inv (eh_crypto eh) td \<and> list_all2 (row_of (eh_crypto eh)) (td_tickets td) (lg_tickets l)
      \<and> (\<forall>a \<in> set (lg_tickets l). unat (tk_index_offset (vt_ticket (at_ticket a))) < 2 ^ 31)
      \<and> (\<forall>mk. marks_fit mk td) \<and> lg_settled l = (\<lambda>mk i. stat_value mk i td)
      \<and> outgoing_ok td \<and> lg_indices l = current_index td
      \<and> info_refines (eh_approx eh) (lg_info l) (cs_info s))"

lemma list_all2_filter:
  "list_all2 R xs ys \<Longrightarrow> (\<And>x y. R x y \<Longrightarrow> P x = Q y) \<Longrightarrow> list_all2 R (filter P xs) (filter Q ys)"
  by (induction rule: list_all2_induct) auto

lemma rows_tickets_value:
  assumes "list_all2 (row_of cr) ms as"
  shows "rows_value ms = tickets_value as"
  using assms
proof (induction rule: list_all2_induct)
  case (Cons m ms a as)
  have "row_value m = ticket_value a"
    using Cons(1) by (cases m) (auto simp: row_of_def ticket_model_of_def Let_def row_value_def ticket_value_def bal_from_be_def split: option.splits)
  then show ?case using Cons by (simp add: tickets_value_def)
qed (simp add: tickets_value_def)

lemma row_of_selects:
  assumes "row_of cr m a" and "unat (tk_index_offset (vt_ticket (at_ticket a))) < 2 ^ 31" and "sel_wf s"
  shows "into_condition s m \<longleftrightarrow> selects s a"
proof -
  have "into_condition s ((m\<lparr>tm_id := 0\<rparr>)\<lparr>tm_id := tm_id m\<rparr>) \<longleftrightarrow> selects s a"
    by (rule into_condition_selects [OF _ _ assms(2,3)])
      (use assms(1) in \<open>auto simp: row_of_def at_storable_def Let_def\<close>)
  then show ?thesis by simp
qed

lemma row_of_channel: "row_of cr m a \<Longrightarrow> on_channel i m \<longleftrightarrow> fst (ticket_key a) = i"
  using row_of_read(2) [of cr m a] by (auto simp: tm_key_def on_channel_def)

lemma marks_fit_all_marked:
  assumes "\<forall>mk. marks_fit mk db" and "marked mk P db db'"
  shows "\<forall>mk. marks_fit mk db'"
proof
  fix mk'
  show "marks_fit mk' db'"
  proof (cases "mk' = mk")
    case True
    then show ?thesis using marked_fit assms by blast
  next
    case False
    then have "stat_value mk' c db' = stat_value mk' c db" for c using assms(2) by (simp add: marked_def)
    moreover have "rows_value (td_tickets db') \<le> rows_value (td_tickets db)"
      using assms(2) rows_value_filter [of P "td_tickets db"] by (simp add: marked_def)
    ultimately show ?thesis using assms(1) unfolding marks_fit_def by (metis add_le_cancel_left order_le_less_trans)
  qed
qed

lemma other_tablesD:
  assumes "other_tables db' = other_tables db"
  shows "td_outgoing db' = td_outgoing db" and "td_ticket_index db' = td_ticket_index db"
proof -
  have "td_outgoing (other_tables db') = td_outgoing (other_tables db)" "td_ticket_index (other_tables db') = td_ticket_index (other_tables db)"
    using assms by simp_all
  then show "td_outgoing db' = td_outgoing db" "td_ticket_index db' = td_ticket_index db" by (simp_all add: other_tables_def)
qed

lemma current_index_cong: "td_outgoing db' = td_outgoing db \<Longrightarrow> td_ticket_index db' = td_ticket_index db \<Longrightarrow> current_index db' = current_index db"
  by (rule ext) (simp add: current_index_def stored_index_def cong: option.case_cong)

lemma outgoing_ok_cong: "td_outgoing db' = td_outgoing db \<Longrightarrow> td_ticket_index db' = td_ticket_index db \<Longrightarrow> outgoing_ok db' = outgoing_ok db"
  by (simp add: outgoing_ok_def)

lemma mark_step:
  assumes r: "represents eh B b s l" and sel: "sel_wf sel"
  shows "\<exists>s' n. on_tickets (mark_tickets_as sel mk) s = (s', Ok n) \<and> represents eh B b s' (ledger_mark mk (selects sel) l)
     \<and> cs_channels s' = cs_channels s \<and> cs_accounts s' = cs_accounts s \<and> cs_info s' = cs_info s"
proof -
  let ?db = "cs_tickets s"
  have inv: "td_inv (eh_crypto eh) ?db" and rows: "list_all2 (row_of (eh_crypto eh)) (td_tickets ?db) (lg_tickets l)"
    and off: "\<forall>a \<in> set (lg_tickets l). unat (tk_index_offset (vt_ticket (at_ticket a))) < 2 ^ 31"
    and fit: "\<forall>mk. marks_fit mk ?db" and st: "lg_settled l = (\<lambda>mk i. stat_value mk i ?db)"
    using r by (simp_all add: represents_def Let_def)
  have ids: "sel_ids (sel_channel_identifiers sel) sel = sel" by simp
  obtain db' where db': "mark_tickets_as sel mk ?db = Ok (db', length (filter (into_condition sel) (td_tickets ?db)))"
    "marked mk (into_condition sel) ?db db'"
    using mark_tickets_loop_marked [of mk ?db sel "sel_channel_identifiers sel" 0] fit unfolding mark_tickets_as_def ids by auto
  have rows': "list_all2 (\<lambda>m a. row_of (eh_crypto eh) m a \<and> (into_condition sel m \<longleftrightarrow> selects sel a)) (td_tickets ?db) (lg_tickets l)"
    using rows off unfolding list_all2_conv_all_nth by (metis nth_mem row_of_selects sel)
  have f: "list_all2 (row_of (eh_crypto eh)) (filter P (td_tickets ?db)) (filter Q (lg_tickets l))"
    if "\<And>m a. row_of (eh_crypto eh) m a \<Longrightarrow> into_condition sel m = selects sel a \<Longrightarrow> P m = Q a" for P Q
    by (rule list_all2_mono [OF list_all2_filter [OF rows']]) (use that in auto)
  have kept: "list_all2 (row_of (eh_crypto eh)) (td_tickets db') (filter (\<lambda>a. \<not> selects sel a) (lg_tickets l))"
    using db'(2) f [of "\<lambda>m. \<not> into_condition sel m" "\<lambda>a. \<not> selects sel a"] by (simp add: marked_def)
  have vals: "rows_value (filter (\<lambda>m. into_condition sel m \<and> on_channel i m) (td_tickets ?db))
      = tickets_value (filter (\<lambda>a. selects sel a \<and> fst (ticket_key a) = i) (lg_tickets l))" for i
    by (rule rows_tickets_value [OF f]) (use row_of_channel in blast)
  have settled: "(\<lambda>mk i. stat_value mk i db') = lg_settled (ledger_mark mk (selects sel) l)"
    using db'(2) by (intro ext) (auto simp: marked_def ledger_mark_def st vals)
  have oth: "other_tables db' = other_tables ?db" using db'(2) by (simp add: marked_def)
  note oth' = other_tablesD [OF oth]
  have "td_inv (eh_crypto eh) db'" by (rule td_inv_mark [OF db'(1) inv])
  then have "represents eh B b (s\<lparr>cs_tickets := db'\<rparr>) (ledger_mark mk (selects sel) l)"
    using r kept off marks_fit_all_marked [OF fit db'(2)] settled current_index_cong [OF oth'] outgoing_ok_cong [OF oth']
    by (simp add: represents_def Let_def ledger_mark_def)
  moreover have "on_tickets (mark_tickets_as sel mk) s
      = (s\<lparr>cs_tickets := db'\<rparr>, Ok (length (filter (into_condition sel) (td_tickets ?db))))"
    by (simp add: on_tickets_def db_write_def db'(1))
  ultimately show ?thesis by (intro exI conjI) (assumption | simp)+
qed

lemma with_index_step:
  assumes r: "represents eh B b s l" and i: "length i = hash_size"
  shows "\<exists>s' v. on_tickets (with_outgoing_index f i) s = (s', Ok v) \<and> represents eh B b s' (ledger_index i (f (lg_indices l i)) l)
     \<and> cs_channels s' = cs_channels s \<and> cs_accounts s' = cs_accounts s \<and> cs_info s' = cs_info s"
proof -
  let ?db = "cs_tickets s"
  have out: "outgoing_ok ?db" and ix: "lg_indices l = current_index ?db" using r by (simp_all add: represents_def Let_def)
  obtain db' where db': "with_outgoing_index f i ?db = Ok (db', current_index ?db i)" "outgoing_ok db'"
    "current_index db' = (current_index ?db)(i := f (current_index ?db i))" using with_outgoing_index_refines [OF out i] by blast
  have frame: "td_tickets db' = td_tickets ?db" "td_stats db' = td_stats ?db"
    using db'(1) by (auto simp: with_outgoing_index_def get_outgoing_ticket_index_def res_simps split: option.splits)
  have st: "stat_value mk c db' = stat_value mk c ?db" for mk c using frame(2) by (simp add: stat_value_def find_stats_def)
  have "td_inv (eh_crypto eh) ?db" using r by (simp add: represents_def Let_def)
  then have "td_inv (eh_crypto eh) db'" by (rule td_inv_index [OF db'(1)])
  then have "represents eh B b (s\<lparr>cs_tickets := db'\<rparr>) (ledger_index i (f (lg_indices l i)) l)"
    using r frame db'(2,3) ix st by (simp add: represents_def Let_def ledger_index_def marks_fit_def)
  moreover have "on_tickets (with_outgoing_index f i) s = (s\<lparr>cs_tickets := db'\<rparr>, Ok (current_index ?db i))"
    by (simp add: on_tickets_def db_write_def db'(1))
  ultimately show ?thesis by (intro exI conjI) (assumption | simp)+
qed

lemma info_step:
  assumes "approx_ok (eh_approx eh)" and r: "represents eh B b s l" and ok: "info_op_ok op"
    and f: "\<And>nf. f nf = run_info_op (eh_approx eh) op nf"
  shows "\<exists>s'. on_info f s = (s', Ok ()) \<and> represents eh B b s' (ledger_info op l)
    \<and> cs_channels s' = cs_channels s \<and> cs_tickets s' = cs_tickets s"
proof -
  have "info_refines (eh_approx eh) (lg_info l) (cs_info s)" using r by (simp add: represents_def Let_def)
  from run_info_op_refines [OF assms(1) this ok] obtain nf where "run_info_op (eh_approx eh) op (cs_info s) = Ok nf"
    "info_refines (eh_approx eh) (info_state_op op (lg_info l)) nf" by blast
  moreover from this have "represents eh B b (s\<lparr>cs_info := nf\<rparr>) (ledger_info op l)"
    using r by (simp add: represents_def Let_def ledger_info_def)
  ultimately show ?thesis by (intro exI [of _ "s\<lparr>cs_info := nf\<rparr>"]) (simp add: on_info_def db_write_def f)
qed

lemma forget_represents [simp]: "represents eh B b (forget_unrealized k s) l = represents eh B b s l"
proof -
  have [simp]: "td_inv cr (db\<lparr>td_unrealized := u\<rparr>) = td_inv cr db" "stat_value mk i (db\<lparr>td_unrealized := u\<rparr>) = stat_value mk i db"
    "marks_fit mk (db\<lparr>td_unrealized := u\<rparr>) = marks_fit mk db" "outgoing_ok (db\<lparr>td_unrealized := u\<rparr>) = outgoing_ok db"
    "current_index (db\<lparr>td_unrealized := u\<rparr>) = current_index db" for cr db u mk i
    by (simp_all add: td_inv_def stat_value_def marks_fit_def find_stats_def outgoing_ok_def fun_eq_iff current_index_def stored_index_def cong: option.case_cong)
  show ?thesis by (simp add: represents_def Let_def forget_unrealized_def)
qed

lemma represents_channel:
  assumes "represents eh B b s l" and "lg_channels l i = Some c"
  shows "ce_id c = i" and "ce_wf (cr_keccak (eh_crypto eh)) c"
  using assms chan_id [of "cr_keccak (eh_crypto eh)" "cs_channels s" i c] by (simp_all add: represents_def Let_def)

lemma begin_step:
  assumes r: "represents eh B b s l"
  shows "lg_channels l i = None \<Longrightarrow> begin_update eh i s = (s, Ok None)"
    and "lg_channels l i = Some c \<Longrightarrow> \<exists>e. begin_update eh i s = (s, Ok (Some e)) \<and> ed_entry e = c \<and> \<not> ed_delete e
       \<and> editing (cr_keccak (eh_crypto eh)) (cs_channels s) i e c"
proof -
  have ok: "ct_ok (cr_keccak (eh_crypto eh)) (cs_channels s)" and m: "lg_channels l = chan (cr_keccak (eh_crypto eh)) (cs_channels s)"
    using r by (simp_all add: represents_def Let_def)
  show "lg_channels l i = None \<Longrightarrow> begin_update eh i s = (s, Ok None)"
    using begin_channel_update_eq [OF ok, of i] by (simp add: begin_update_def db_read_def m)
  assume "lg_channels l i = Some c"
  then show "\<exists>e. begin_update eh i s = (s, Ok (Some e)) \<and> ed_entry e = c \<and> \<not> ed_delete e
       \<and> editing (cr_keccak (eh_crypto eh)) (cs_channels s) i e c"
    using begin_channel_update_eq [OF ok, of i] by (auto simp: begin_update_def db_read_def m)
qed

lemma finish_step:
  assumes r: "represents eh B b s l" and e: "editing (cr_keccak (eh_crypto eh)) (cs_channels s) i e c" and nd: "\<not> ed_delete e"
    and i: "ce_id c = i"
  shows "\<exists>s'. finish_update eh e s = (s', Ok c) \<and> represents eh B b s' (ledger_set c l)"
proof -
  have ok: "ct_ok (cr_keccak (eh_crypto eh)) (cs_channels s)" and m: "lg_channels l = chan (cr_keccak (eh_crypto eh)) (cs_channels s)"
    using r by (simp_all add: represents_def Let_def)
  obtain tbl where tbl: "finish_channel_update (cr_keccak (eh_crypto eh)) e (cs_channels s) = Ok (tbl, c, (i, ce_channel_epoch c))"
    "ct_ok (cr_keccak (eh_crypto eh)) tbl" "chan (cr_keccak (eh_crypto eh)) tbl = (chan (cr_keccak (eh_crypto eh)) (cs_channels s))(i \<mapsto> c)"
    using finish_channel_update_edit [OF ok e nd] by blast
  have "represents eh B b (s\<lparr>cs_channels := tbl\<rparr>) (ledger_set c l)"
    using r tbl(2,3) m i by (simp add: represents_def Let_def ledger_set_def)
  then show ?thesis
    by (intro exI [of _ "forget_unrealized (i, ce_channel_epoch c) (s\<lparr>cs_channels := tbl\<rparr>)"])
      (simp add: finish_update_def db_write_def tbl(1))
qed

lemma finish_delete_step:
  assumes r: "represents eh B b s l" and e: "editing (cr_keccak (eh_crypto eh)) (cs_channels s) i e c" and d: "ed_delete e"
    and i: "ce_id c = i"
  shows "\<exists>s'. finish_update eh e s = (s', Ok (ed_orig e)) \<and> represents eh B b s' (l\<lparr>lg_channels := (lg_channels l)(i := None)\<rparr>)"
proof -
  have ok: "ct_ok (cr_keccak (eh_crypto eh)) (cs_channels s)" and m: "lg_channels l = chan (cr_keccak (eh_crypto eh)) (cs_channels s)"
    using r by (simp_all add: represents_def Let_def)
  obtain tbl where tbl: "finish_channel_update (cr_keccak (eh_crypto eh)) e (cs_channels s) = Ok (tbl, ed_orig e, (i, ce_channel_epoch c))"
    "ct_ok (cr_keccak (eh_crypto eh)) tbl" "chan (cr_keccak (eh_crypto eh)) tbl = (chan (cr_keccak (eh_crypto eh)) (cs_channels s))(i := None)"
    using finish_channel_update_delete [OF ok e d] by blast
  have "represents eh B b (s\<lparr>cs_channels := tbl\<rparr>) (l\<lparr>lg_channels := (lg_channels l)(i := None)\<rparr>)"
    using r tbl(2,3) m i by (simp add: represents_def Let_def)
  then show ?thesis
    by (intro exI [of _ "forget_unrealized (i, ce_channel_epoch c) (s\<lparr>cs_channels := tbl\<rparr>)"])
      (simp add: finish_update_def db_write_def tbl(1))
qed

lemma insert_step:
  assumes r: "represents eh B b s l" and c: "ce_wf (cr_keccak (eh_crypto eh)) c" and new: "lg_channels l (ce_id c) = None"
  shows "\<exists>s'. insert_channel c s = (s', Ok ()) \<and> represents eh B b s' (ledger_set c l)"
proof -
  have ok: "ct_ok (cr_keccak (eh_crypto eh)) (cs_channels s)" and m: "lg_channels l = chan (cr_keccak (eh_crypto eh)) (cs_channels s)"
    using r by (simp_all add: represents_def Let_def)
  obtain tbl where tbl: "upsert_channel c (cs_channels s) = Ok (tbl, (ce_id c, ce_channel_epoch c))"
    "ct_ok (cr_keccak (eh_crypto eh)) tbl" "chan (cr_keccak (eh_crypto eh)) tbl = (chan (cr_keccak (eh_crypto eh)) (cs_channels s))(ce_id c \<mapsto> c)"
    using upsert_new_channel [OF ok c] new m by auto
  have "represents eh B b (s\<lparr>cs_channels := tbl\<rparr>) (ledger_set c l)"
    using r tbl(2,3) m by (simp add: represents_def Let_def ledger_set_def)
  then show ?thesis
    by (intro exI [of _ "forget_unrealized (ce_id c, ce_channel_epoch c) (s\<lparr>cs_channels := tbl\<rparr>)"])
      (simp add: insert_channel_def db_write_def tbl(1))
qed

definition handlers_ok :: "('ma, 'sk, 'vrf, 'rnd) handlers \<Rightarrow> bool" where
  "handlers_ok eh \<longleftrightarrow> approx_ok (eh_approx eh) \<and> (\<forall>x. length (cr_keccak (eh_crypto eh) x) = hash_size)"

definition channels_event_ok :: "channels_event \<Rightarrow> bool" where
  "channels_event_ok event =
     (case event of
        ChannelOpened source destination \<Rightarrow> length source = address_size \<and> length destination = address_size
      | ChannelsDomainSeparatorUpdated h \<Rightarrow> length h = hash_size
      | LedgerDomainSeparatorUpdated h \<Rightarrow> length h = hash_size
      | _ \<Rightarrow> True)"

text \<open>A handler that does to the databases what the abstract step does to the ledger, with the same result.\<close>

definition refines_step ::
  "('ma, 'sk, 'vrf, 'rnd) handlers \<Rightarrow> 'ma account_entry set \<Rightarrow> (address \<Rightarrow> int) \<Rightarrow> chain_state \<Rightarrow> 'ma chain_event option step
     \<Rightarrow> 'ma ledger \<times> 'ma outcome \<Rightarrow> bool" where
  "refines_step eh B b s m a \<longleftrightarrow> (\<exists>s'. m s = (s', snd a) \<and> represents eh B b s' (fst a))"

lemma return_step: "represents eh B b s l \<Longrightarrow> refines_step eh B b s (act_return x) (l, Ok x)"
  by (simp add: refines_step_def act_return_def)

lemma act_simps [simp]:
  "act_return x s = (s, Ok x)" "act_fail e s = (s, Err e)"
  "m s = (s', Ok x) \<Longrightarrow> act_bind m k s = k x s'" "m s = (s', Inl f) \<Longrightarrow> act_bind m k s = (s', Inl f)"
  by (simp_all add: act_return_def act_fail_def act_bind_def)

lemma info_event_refines:
  assumes eh: "handlers_ok eh" and r: "represents eh B b s l" and ok: "info_op_ok op"
    and f: "\<And>nf. f nf = run_info_op (eh_approx eh) op nf"
  shows "refines_step eh B b s (act_bind (on_info f) (\<lambda>_. act_return x)) (ledger_info op l, Ok x)"
  using info_step [OF _ r ok f] eh by (auto simp: refines_step_def handlers_ok_def)

lemma selects_in_epoch [simp]:
  "selects (sel_of_channel c) = in_epoch (ce_id c) (ce_channel_epoch c)" "selects (sel_new i e) = in_epoch i e"
  by (auto simp: fun_eq_iff selects_def sel_of_channel_def sel_new_def Let_def in_epoch_def ticket_key_def ce_get_id_def)

lemma selects_epoch_state: "selects (with_state st (sel_of_channel c)) = (\<lambda>a. in_epoch (ce_id c) (ce_channel_epoch c) a \<and> at_status a = st)"
  by (auto simp: fun_eq_iff selects_def sel_of_channel_def with_state_def Let_def in_epoch_def ticket_key_def ce_get_id_def)

lemma selects_epoch_below:
  "selects (with_index_range (Unbounded, Excluded n) (sel_of_channel c)) = (\<lambda>a. in_epoch (ce_id c) (ce_channel_epoch c) a \<and> tk_index (vt_ticket (at_ticket a)) < n)"
  by (auto simp: fun_eq_iff selects_def sel_of_channel_def with_index_range_def Let_def in_epoch_def ticket_key_def ce_get_id_def)

lemma sel_wf_simps [simp]:
  "sel_wf (sel_of_channel c)" "sel_wf (sel_new i e)" "sel_wf (with_index_range r s) = sel_wf s" "sel_wf (sel_of_acknowledged a)"
  "sel_wf (with_state st s) = sel_wf s"
  by (simp_all add: sel_wf_def sel_of_channel_def sel_new_def with_index_range_def sel_of_acknowledged_def with_state_def Let_def)

lemma ledger_mark_cong:
  assumes "\<And>a. a \<in> set (lg_tickets l) \<Longrightarrow> P a = Q a"
  shows "ledger_mark mk P l = ledger_mark mk Q l"
proof -
  have "filter (\<lambda>a. \<not> P a) (lg_tickets l) = filter (\<lambda>a. \<not> Q a) (lg_tickets l)" by (rule filter_cong) (use assms in auto)
  moreover have "filter (\<lambda>a. P a \<and> R a) (lg_tickets l) = filter (\<lambda>a. Q a \<and> R a) (lg_tickets l)" for R
    by (rule filter_cong) (use assms in auto)
  ultimately show ?thesis by (simp add: ledger_mark_def)
qed

lemma edited_refines:
  assumes r: "represents eh B b s l"
    and g: "\<And>tbl e c. editing (cr_keccak (eh_crypto eh)) tbl i e c \<Longrightarrow> editing (cr_keccak (eh_crypto eh)) tbl i (g e) (h c)"
      "\<And>e. ed_delete (g e) = ed_delete e" "\<And>c. ce_id (h c) = ce_id c"
  shows "refines_step eh B b s
      (act_bind (begin_update eh i) (\<lambda>m. case m of
         Some e \<Rightarrow> act_bind (finish_update eh (g e)) (\<lambda>u. act_return (Some (ev (ed_entry e) u)))
       | None \<Rightarrow> act_fail ChannelDoesNotExist))
      (case lg_channels l i of None \<Rightarrow> (l, Err ChannelDoesNotExist) | Some c \<Rightarrow> (ledger_set (h c) l, Ok (Some (ev c (h c)))))"
proof (cases "lg_channels l i")
  case None
  then show ?thesis using begin_step(1) [OF r None] r by (simp add: refines_step_def)
next
  case (Some c)
  obtain e where e: "begin_update eh i s = (s, Ok (Some e))" "ed_entry e = c" "\<not> ed_delete e"
    "editing (cr_keccak (eh_crypto eh)) (cs_channels s) i e c" using begin_step(2) [OF r Some] by blast
  have "ce_id (h c) = i" using represents_channel(1) [OF r Some] g(3) by simp
  from finish_step [OF r g(1) [OF e(4)] _ this] obtain s' where
    "finish_update eh (g e) s = (s', Ok (h c))" "represents eh B b s' (ledger_set (h c) l)" using e(3) g(2) by auto
  then show ?thesis using e(1,2) Some by (simp add: refines_step_def)
qed

lemma balance_refines:
  assumes r: "represents eh B b s l"
  shows "refines_step eh B b s (on_balance_decreased eh i v) (ledger_channel eh (ChannelBalanceDecreased i v) l)"
    and "refines_step eh B b s (on_balance_increased eh i v) (ledger_channel eh (ChannelBalanceIncreased i v) l)"
    and "refines_step eh B b s (on_closure_initiated eh i t) (ledger_channel eh (OutgoingChannelClosureInitiated i t) l)"
proof -
  let ?b = "change_balance (ucast v)" let ?cb = "\<lambda>c. c\<lparr>ce_balance := ucast v\<rparr>"
  let ?st = "PendingToClose (unat t * 10 ^ 9)" let ?cs = "\<lambda>c. c\<lparr>ce_status := PendingToClose (unat t * 10 ^ 9)\<rparr>"
  show "refines_step eh B b s (on_balance_decreased eh i v) (ledger_channel eh (ChannelBalanceDecreased i v) l)"
    unfolding on_balance_decreased_def ledger_channel_def Let_def channels_event.case
    using edited_refines [OF r, where g = ?b and h = ?cb and ev = "\<lambda>c u. EvChannelBalanceDecreased u (bal_sub (ce_balance c) (ucast v))"]
      editing_edits(1) by simp
  show "refines_step eh B b s (on_balance_increased eh i v) (ledger_channel eh (ChannelBalanceIncreased i v) l)"
    unfolding on_balance_increased_def ledger_channel_def Let_def channels_event.case
    using edited_refines [OF r, where g = ?b and h = ?cb and ev = "\<lambda>c u. EvChannelBalanceIncreased u (bal_sub (ucast v) (ce_balance c))"]
      editing_edits(1) by simp
  show "refines_step eh B b s (on_closure_initiated eh i t) (ledger_channel eh (OutgoingChannelClosureInitiated i t) l)"
    unfolding on_closure_initiated_def ledger_channel_def Let_def channels_event.case
    using edited_refines [OF r, where g = "change_status ?st" and h = ?cs and ev = "\<lambda>c u. EvChannelClosureInitiated u"]
      editing_edits(4) by simp
qed

lemma represents_id_length:
  assumes "handlers_ok eh" and "represents eh B b s l" and "lg_channels l i = Some c"
  shows "length i = hash_size"
  using represents_channel [OF assms(2,3)] assms(1) by (auto simp: ce_wf_def generate_channel_id_def handlers_ok_def)

lemma closed_refines:
  assumes eh: "handlers_ok eh" and r: "represents eh B b s l"
  shows "refines_step eh B b s (on_channel_closed eh i) (ledger_channel eh (ChannelClosed i) l)"
proof (cases "lg_channels l i")
  case None
  then show ?thesis using begin_step(1) [OF r None] r by (simp add: refines_step_def on_channel_closed_def ledger_channel_def)
next
  case (Some c)
  obtain e where e: "begin_update eh i s = (s, Ok (Some e))" "ed_entry e = c" "\<not> ed_delete e"
    and ed: "editing (cr_keccak (eh_crypto eh)) (cs_channels s) i e c" using begin_step(2) [OF r Some] by blast
  have i: "ce_id c = i" by (rule represents_channel(1) [OF r Some])
  define c' where "c' = c\<lparr>ce_balance := 0, ce_ticket_index := 0, ce_status := Closed\<rparr>"
  define e' where "e' = change_ticket_index 0 (change_balance 0 (change_status Closed e))"
  have "editing (cr_keccak (eh_crypto eh)) (cs_channels s) i e' (c\<lparr>ce_status := Closed, ce_balance := 0, ce_ticket_index := 0\<rparr>)"
    unfolding e'_def by (intro editing_edits ed)
  also have "c\<lparr>ce_status := Closed, ce_balance := 0, ce_ticket_index := 0\<rparr> = c'" by (simp add: c'_def)
  finally have ed': "editing (cr_keccak (eh_crypto eh)) (cs_channels s) i e' c'" .
  have "\<not> ed_delete e'" "ce_id c' = i" using e(3) i by (simp_all add: e'_def c'_def)
  from finish_step [OF r ed' this] obtain s1 where s1: "finish_update eh e' s = (s1, Ok c')" "represents eh B b s1 (ledger_set c' l)" by blast
  obtain s2 n where s2: "on_tickets (mark_tickets_as (sel_of_channel c') Neglected) s1 = (s2, Ok n)"
    "represents eh B b s2 (ledger_mark Neglected (selects (sel_of_channel c')) (ledger_set c' l))"
    using mark_step [OF s1(2), of "sel_of_channel c'" Neglected] by auto
  obtain s3 v where s3: "on_tickets (reset_outgoing_ticket_index i) s1 = (s3, Ok v)" "represents eh B b s3 (ledger_index i 0 (ledger_set c' l))"
    using with_index_step [OF s1(2) represents_id_length [OF eh r Some], of "\<lambda>_. 0"] unfolding reset_outgoing_ticket_index_def by auto
  obtain s4 where s4: "finish_update eh (ed_mark_delete e) s = (s4, Ok c)" "represents eh B b s4 (l\<lparr>lg_channels := (lg_channels l)(i := None)\<rparr>)"
    using finish_delete_step [OF r editing_edits(5) [OF ed] _ i] e(2) by (auto simp: ed_entry_def)
  have ep: "ce_id c' = i" "ce_channel_epoch c' = ce_channel_epoch c" by (simp_all add: c'_def i)
  have closed: "ledger_channel eh (ChannelClosed i) l = ledger_channel_closed (eh_me eh) c l" using Some by (simp add: ledger_channel_def)
  show ?thesis
    unfolding closed ledger_channel_closed_def Let_def c'_def [symmetric] i refines_step_def on_channel_closed_def
    using e s1 s2 s3 s4 ep by (simp add: e'_def [symmetric] ce_orientation_def ce_get_id_def i)
qed

lemma opened_refines:
  assumes eh: "handlers_ok eh" and r: "represents eh B b s l" and ok: "channels_event_ok (ChannelOpened source destination)"
  shows "refines_step eh B b s (on_channel_opened eh source destination) (ledger_channel eh (ChannelOpened source destination) l)"
proof -
  define i where "i = generate_channel_id (cr_keccak (eh_crypto eh)) source destination"
  note unf = refines_step_def on_channel_opened_def ledger_channel_def ledger_channel_opened_def Let_def channels_event.case i_def [symmetric]
  show ?thesis
  proof (cases "lg_channels l i")
    case None
    define c where "c = ce_new (cr_keccak (eh_crypto eh)) source destination 0 0 Open 1"
    have c: "ce_wf (cr_keccak (eh_crypto eh)) c" "ce_id c = i"
      using ok by (simp_all add: c_def ce_new_def ce_wf_def channels_event_ok_def i_def)
    obtain s1 where "insert_channel c s = (s1, Ok ())" "represents eh B b s1 (ledger_set c l)"
      using insert_step [OF r c(1)] None c(2) by auto
    then show ?thesis unfolding unf None using begin_step(1) [OF r None] by (simp add: c_def [symmetric])
  next
    case (Some c)
    obtain e where e: "begin_update eh i s = (s, Ok (Some e))" "ed_entry e = c" "\<not> ed_delete e"
      and ed: "editing (cr_keccak (eh_crypto eh)) (cs_channels s) i e c" using begin_step(2) [OF r Some] by blast
    have i: "ce_id c = i" by (rule represents_channel(1) [OF r Some])
    have li: "length i = hash_size" by (rule represents_id_length [OF eh r Some])
    have closed: "status_eq (ce_status c) Closed \<longleftrightarrow> ce_status c = Closed" by (cases "ce_status c") simp_all
    show ?thesis
    proof (cases "ce_status c = Closed")
      case False
      then show ?thesis unfolding unf Some using e r closed by simp
    next
      case st: True
      define l1 where "l1 = (if source = eh_me eh \<or> destination = eh_me eh
          then ledger_index i 0 (ledger_mark Neglected (in_epoch i (ce_channel_epoch c)) l) else l)"
      define own where "own = (if source = eh_me eh \<or> destination = eh_me eh then
            act_bind (on_tickets (mark_tickets_as (sel_new i (ce_channel_epoch c)) Neglected)) (\<lambda>_.
            act_bind (on_tickets (reset_outgoing_ticket_index i)) (\<lambda>_. act_return ()))
          else act_return ())"
      have "\<exists>s1. own s = (s1, Ok ()) \<and> represents eh B b s1 l1 \<and> cs_channels s1 = cs_channels s"
      proof (cases "source = eh_me eh \<or> destination = eh_me eh")
        case True
        obtain s1 n where s1: "on_tickets (mark_tickets_as (sel_new i (ce_channel_epoch c)) Neglected) s = (s1, Ok n)"
          "represents eh B b s1 (ledger_mark Neglected (in_epoch i (ce_channel_epoch c)) l)" "cs_channels s1 = cs_channels s"
          using mark_step [OF r, of "sel_new i (ce_channel_epoch c)" Neglected] by auto
        with with_index_step [OF s1(2) li, of "\<lambda>_. 0"] True show ?thesis
          by (auto simp: own_def l1_def reset_outgoing_ticket_index_def)
      qed (simp add: own_def l1_def r)
      then obtain s1 where s1: "own s = (s1, Ok ())" "represents eh B b s1 l1" "cs_channels s1 = cs_channels s" by blast
      define c' where "c' = c\<lparr>ce_ticket_index := 0, ce_channel_epoch := ce_channel_epoch c + 1, ce_status := Open\<rparr>"
      define e' where "e' = change_status Open (change_epoch (ce_channel_epoch c + 1) (change_ticket_index 0 e))"
      have ed': "editing (cr_keccak (eh_crypto eh)) (cs_channels s1) i e' c'"
        unfolding e'_def c'_def s1(3) by (intro editing_edits ed)
      have "\<not> ed_delete e'" "ce_id c' = i" using e(3) i by (simp_all add: e'_def c'_def)
      from finish_step [OF s1(2) ed' this] obtain s2 where "finish_update eh e' s1 = (s2, Ok c')" "represents eh B b s2 (ledger_set c' l1)"
        by blast
      moreover have "on_channel_opened eh source destination s = act_bind (act_bind own (\<lambda>_.
          act_bind (\<lambda>s. (s, u256_add (ce_channel_epoch c) 1)) (\<lambda>next_epoch.
          finish_update eh (change_status Open (change_epoch next_epoch (change_ticket_index 0 e))))))
          (\<lambda>channel. act_return (Some (EvChannelOpened channel))) s"
        using e closed st by (simp add: on_channel_opened_def Let_def i_def [symmetric] own_def)
      moreover have "ledger_channel eh (ChannelOpened source destination) l
          = (if unat (ce_channel_epoch c) + 1 < 2 ^ 256 then (ledger_set c' l1, Ok (Some (EvChannelOpened c'))) else (l1, Panicked))"
        using st Some by (simp add: ledger_channel_def ledger_channel_opened_def Let_def i_def [symmetric] l1_def c'_def)
      ultimately show ?thesis
        using s1(1,2) by (simp add: refines_step_def e'_def [symmetric] u256_add_def)
    qed
  qed
qed

lemma collect_rows:
  "list_all2 (\<lambda>m a. row_of cr m a \<and> Q m a) ms as \<Longrightarrow> collect_res (map (ticket_of_model cr) ms) = Ok as"
  by (induction rule: list_all2_induct) (auto dest!: row_of_read(1))

lemma get_tickets_eq:
  assumes r: "represents eh B b s l" and sel: "sel_wf sel"
  shows "get_tickets (eh_crypto eh) sel (cs_tickets s) = Ok (filter (selects sel) (lg_tickets l))"
proof -
  have rows: "list_all2 (row_of (eh_crypto eh)) (td_tickets (cs_tickets s)) (lg_tickets l)"
    and off: "\<forall>a \<in> set (lg_tickets l). unat (tk_index_offset (vt_ticket (at_ticket a))) < 2 ^ 31"
    using r by (simp_all add: represents_def Let_def)
  have "list_all2 (\<lambda>m a. row_of (eh_crypto eh) m a \<and> (into_condition sel m \<longleftrightarrow> selects sel a)) (td_tickets (cs_tickets s)) (lg_tickets l)"
    using rows off unfolding list_all2_conv_all_nth by (metis nth_mem row_of_selects sel)
  then have "list_all2 (\<lambda>m a. row_of (eh_crypto eh) m a \<and> (into_condition sel m \<longleftrightarrow> selects sel a))
      (filter (into_condition sel) (td_tickets (cs_tickets s))) (filter (selects sel) (lg_tickets l))"
    by (rule list_all2_filter) simp
  then show ?thesis by (simp add: get_tickets_def collect_rows)
qed

lemma ticket_keys_distinct:
  assumes r: "represents eh B b s l"
  shows "distinct (map (\<lambda>a. (ticket_key a, tk_index (vt_ticket (at_ticket a)))) (lg_tickets l))"
proof -
  have inv: "td_inv (eh_crypto eh) (cs_tickets s)" and rows: "list_all2 (row_of (eh_crypto eh)) (td_tickets (cs_tickets s)) (lg_tickets l)"
    using r by (simp_all add: represents_def Let_def)
  have "list_all2 (row_of cr) ms as \<Longrightarrow>
      map tm_key ms = map (\<lambda>((c, e), i). (to_hex c, u256_to_be e, u64_to_be i)) (map (\<lambda>a. (ticket_key a, tk_index (vt_ticket (at_ticket a)))) as)"
    for cr ms as by (induction rule: list_all2_induct) (auto dest!: row_of_read(2) split: prod.split)
  from this [OF rows] inv have "distinct (map (\<lambda>((c, e), i). (to_hex c, u256_to_be e, u64_to_be i))
      (map (\<lambda>a. (ticket_key a, tk_index (vt_ticket (at_ticket a)))) (lg_tickets l)))" unfolding td_inv_def by (simp only:)
  then show ?thesis by (subst (asm) distinct_map) (rule conjunct1)
qed

lemma selects_acknowledged:
  assumes r: "represents eh B b s l" and a: "a \<in> set (lg_tickets l)" and x: "x \<in> set (lg_tickets l)"
  shows "selects (sel_of_acknowledged a) x \<longleftrightarrow> x = a"
proof
  assume "selects (sel_of_acknowledged a) x"
  then have "(ticket_key x, tk_index (vt_ticket (at_ticket x))) = (ticket_key a, tk_index (vt_ticket (at_ticket a)))"
    by (simp add: selects_def sel_of_acknowledged_def Let_def ticket_key_def)
  then show "x = a" using ticket_keys_distinct [OF r] a x unfolding distinct_map by (meson inj_onD)
next
  assume "x = a"
  then show "selects (sel_of_acknowledged a) x"
    by (simp add: selects_def sel_of_acknowledged_def Let_def ticket_key_def ticket_is_aggregated_def)
qed

lemma redeemed_refines:
  fixes eh :: "('ma, 'sk, 'vrf, 'rnd) handlers"
  assumes eh: "handlers_ok eh" and r: "represents eh B b s l"
  shows "refines_step eh B b s (on_ticket_redeemed eh i n) (ledger_channel eh (TicketRedeemed i n) l)"
proof (cases "lg_channels l i")
  case None
  then show ?thesis using begin_step(1) [OF r None] r by (simp add: refines_step_def on_ticket_redeemed_def ledger_channel_def)
next
  case (Some c)
  obtain e where e: "begin_update eh i s = (s, Ok (Some e))" "ed_entry e = c" "\<not> ed_delete e"
    and ed: "editing (cr_keccak (eh_crypto eh)) (cs_channels s) i e c" using begin_step(2) [OF r Some] by blast
  have i: "ce_id c = i" by (rule represents_channel(1) [OF r Some])
  define c' where "c' = c\<lparr>ce_ticket_index := ucast n\<rparr>"
  define below where "below = (\<lambda>a. in_epoch i (ce_channel_epoch c) a \<and> tk_index (vt_ticket (at_ticket a)) < ucast n)"
  define settle where "settle = (\<lambda>ack_ticket.
      act_bind (finish_update eh (change_ticket_index (ucast n) e)) (\<lambda>channel.
      act_bind (on_tickets (mark_tickets_as (with_index_range (Unbounded, Excluded (ucast n)) (sel_of_channel channel)) Neglected))
        (\<lambda>_. act_return (Some (EvTicketRedeemed channel ack_ticket :: 'ma chain_event)))))"
  have settle: "refines_step eh B b s1 (settle x) (ledger_mark Neglected below (ledger_set c' l1), Ok (Some (EvTicketRedeemed c' x)))"
    if r1: "represents eh B b s1 l1" and ch: "cs_channels s1 = cs_channels s" for s1 l1 x
  proof -
    have ed': "editing (cr_keccak (eh_crypto eh)) (cs_channels s1) i (change_ticket_index (ucast n) e) c'"
      unfolding c'_def ch by (intro editing_edits ed)
    have "\<not> ed_delete (change_ticket_index (ucast n) e)" "ce_id c' = i" using e(3) i by (simp_all add: c'_def)
    from finish_step [OF r1 ed' this] obtain s2 where s2: "finish_update eh (change_ticket_index (ucast n) e) s1 = (s2, Ok c')"
      "represents eh B b s2 (ledger_set c' l1)" by blast
    have "selects (with_index_range (Unbounded, Excluded (ucast n)) (sel_of_channel c')) = below"
      by (simp add: selects_epoch_below below_def c'_def i)
    then obtain s3 k where "on_tickets (mark_tickets_as (with_index_range (Unbounded, Excluded (ucast n)) (sel_of_channel c')) Neglected) s2 = (s3, Ok k)"
      "represents eh B b s3 (ledger_mark Neglected below (ledger_set c' l1))"
      using mark_step [OF s2(2), of "with_index_range (Unbounded, Excluded (ucast n)) (sel_of_channel c')" Neglected] by auto
    then show ?thesis using s2(1) by (simp add: refines_step_def settle_def)
  qed
  define matches where "matches = (\<lambda>a :: acknowledged_ticket. tk_index (vt_ticket (at_ticket a)) + ucast (tk_index_offset (vt_ticket (at_ticket a))) = (ucast n :: u64))"
  define found where "found = filter (\<lambda>a. in_epoch i (ce_channel_epoch c) a \<and> at_status a = BeingRedeemed
      \<and> tk_index (vt_ticket (at_ticket a)) + ucast (tk_index_offset (vt_ticket (at_ticket a))) = ucast n) (lg_tickets l)"
  have handler: "on_ticket_redeemed eh i n s = act_bind
      (case ce_direction c (eh_me eh) of
         Some Incoming \<Rightarrow> redeemed_ticket eh c n
       | Some Outgoing \<Rightarrow> act_bind (on_tickets (compare_and_set_outgoing_ticket_index i (ucast n))) (\<lambda>_. act_return None)
       | None \<Rightarrow> act_return None) settle s"
    using e by (simp add: on_ticket_redeemed_def settle_def ce_get_id_def i cong: option.case_cong channel_direction.case_cong)
  have ledger: "ledger_channel eh (TicketRedeemed i n) l = ledger_ticket_redeemed (eh_me eh) c n l"
    using Some by (simp add: ledger_channel_def)
  note abs = ledger ledger_ticket_redeemed_def Let_def i c'_def [symmetric] below_def [symmetric] found_def [symmetric]
  consider "ce_source c = eh_me eh" | "ce_source c \<noteq> eh_me eh" "ce_destination c = eh_me eh" | "ce_source c \<noteq> eh_me eh" "ce_destination c \<noteq> eh_me eh"
    by blast
  then show ?thesis
  proof cases
    case 1
    obtain s1 v where s1: "on_tickets (compare_and_set_outgoing_ticket_index i (ucast n)) s = (s1, Ok v)"
      "represents eh B b s1 (ledger_index i (max (lg_indices l i) (ucast n)) l)" "cs_channels s1 = cs_channels s"
      using with_index_step [OF r represents_id_length [OF eh r Some], of "\<lambda>v. max v (ucast n)"]
      unfolding compare_and_set_outgoing_ticket_index_def by auto
    from settle [OF s1(2,3), of None] show ?thesis unfolding abs using 1 s1(1) by (simp add: refines_step_def handler ce_direction_def)
  next
    case 2
    have q: "get_tickets (eh_crypto eh) (with_state BeingRedeemed (sel_of_channel c)) (cs_tickets s)
        = Ok (filter (\<lambda>a. in_epoch i (ce_channel_epoch c) a \<and> at_status a = BeingRedeemed) (lg_tickets l))"
      using get_tickets_eq [OF r, of "with_state BeingRedeemed (sel_of_channel c)"] by (simp add: selects_epoch_state i)
    have "filter matches (filter (\<lambda>a. in_epoch i (ce_channel_epoch c) a \<and> at_status a = BeingRedeemed) (lg_tickets l)) = found"
      unfolding found_def filter_filter matches_def by (rule filter_cong) auto
    then have rt: "redeemed_ticket eh c n s = (case found of
         [ack_ticket] \<Rightarrow> act_bind (on_tickets (mark_tickets_as (sel_of_acknowledged ack_ticket) Redeemed)) (\<lambda>_. act_return (Some ack_ticket))
       | [] \<Rightarrow> act_return None
       | _ \<Rightarrow> act_fail (ProcessError ''multiple tickets matching'')) s"
      by (simp add: redeemed_ticket_def db_read_def q Let_def matches_def [symmetric])
    have dir: "ce_direction c (eh_me eh) = Some Incoming" using 2 by (simp add: ce_direction_def)
    show ?thesis
    proof (cases found)
      case Nil
      then have "redeemed_ticket eh c n s = (s, Ok None)" using rt by simp
      with settle [OF r, of None] show ?thesis unfolding abs using 2 \<open>found = []\<close> by (simp add: refines_step_def handler dir)
    next
      case (Cons a rest)
      have a: "a \<in> set (lg_tickets l)"
      proof -
        have "a \<in> set found" using Cons by simp
        then show ?thesis by (simp add: found_def)
      qed
      show ?thesis
      proof (cases rest)
        case Nil
        obtain s1 k where s1: "on_tickets (mark_tickets_as (sel_of_acknowledged a) Redeemed) s = (s1, Ok k)"
          "represents eh B b s1 (ledger_mark Redeemed (selects (sel_of_acknowledged a)) l)" "cs_channels s1 = cs_channels s"
          using mark_step [OF r, of "sel_of_acknowledged a" Redeemed] by auto
        have "ledger_mark Redeemed (selects (sel_of_acknowledged a)) l = ledger_mark Redeemed (\<lambda>x. x = a) l"
          by (rule ledger_mark_cong) (use selects_acknowledged [OF r a] in blast)
        with s1(2) have s1': "represents eh B b s1 (ledger_mark Redeemed (\<lambda>x. x = a) l)" by simp
        have "redeemed_ticket eh c n s = (s1, Ok (Some a))" using rt Cons Nil s1(1) by simp
        with settle [OF s1' s1(3), of "Some a"] show ?thesis unfolding abs using 2 Cons Nil by (simp add: refines_step_def handler dir)
      next
        case c2: (Cons a2 rest2)
        then have "redeemed_ticket eh c n s = (s, Err (ProcessError ''multiple tickets matching''))" using rt Cons by simp
        then show ?thesis unfolding abs using 2 Cons c2 r by (simp add: refines_step_def handler dir)
      qed
    qed
  next
    case 3
    from settle [OF r, of None] show ?thesis unfolding abs using 3 by (simp add: refines_step_def handler ce_direction_def)
  qed
qed

lemma channel_event_refines:
  assumes eh: "handlers_ok eh" and r: "represents eh B b s l" and ok: "channels_event_ok event"
  shows "refines_step eh B b s (on_channel_event eh event) (ledger_channel eh event l)"
proof (cases event)
  case (ChannelsDomainSeparatorUpdated h)
  then show ?thesis
    using info_event_refines [OF eh r, where f = "set_domain_separator ChannelDst h" and op = "SetDomainSeparator ChannelDst h"] ok
    by (simp add: ledger_channel_def info_op_ok_def channels_event_ok_def)
next
  case (LedgerDomainSeparatorUpdated h)
  then show ?thesis
    using info_event_refines [OF eh r, where f = "set_domain_separator Ledger h" and op = "SetDomainSeparator Ledger h"] ok
    by (simp add: ledger_channel_def info_op_ok_def channels_event_ok_def)
qed (use balance_refines [OF r] closed_refines [OF eh r] opened_refines [OF eh r] redeemed_refines [OF eh r] ok in auto)

section \<open>The other contracts\<close>

text \<open>
  The ledger keeps, beside the latest announcement of an account, the texts announced since the last revocation: an
  address that is announced again becomes the latest one, but the event that is reported has the one that was the
  latest before.
\<close>

definition ledger_announcement ::
  "('ma, 'sk, 'vrf, 'rnd) handlers \<Rightarrow> u32 \<Rightarrow> announcements_event \<Rightarrow> 'ma ledger \<Rightarrow> 'ma ledger \<times> 'ma outcome" where
  "ledger_announcement eh block event l =
     (let ae = eh_accounts eh in
      case event of
        AddressAnnouncement node base_multiaddr \<Rightarrow>
          if base_multiaddr = '''' then (l, Ok None)
          else
            (case ae_parse ae base_multiaddr of
               None \<Rightarrow> (l, Err MultiaddrParseError)
             | Some ma \<Rightarrow>
                 (case lg_accounts l node of
                    None \<Rightarrow> (l, Err AnnounceBeforeKeyBinding)
                  | Some e \<Rightarrow>
                      (l\<lparr>lg_accounts := (lg_accounts l)(node \<mapsto> ac_update (Announced ma block) e),
                         lg_announced := (lg_announced l)(node := insert (ae_show ae ma) (lg_announced l node))\<rparr>,
                       Ok (Some (EvAnnouncement (ac_public_key e) (ac_chain_addr e)
                         [if ae_show ae ma \<in> lg_announced l node then the (ac_get_multiaddr e) else ma])))))
      | KeyBinding sig_0 sig_1 packet_key chain_key \<Rightarrow>
          if \<not> ae_valid_point ae packet_key then (l, Err (IndexerGeneralError (ParseErr ''OffchainPublicKey.decompress'')))
          else if ae_verify_message ae (kb_prepare_for_signing chain_key packet_key) packet_key (sig_0 @ sig_1) \<and> lg_accounts l chain_key = None
          then (l\<lparr>lg_accounts := (lg_accounts l)(chain_key \<mapsto>
                 \<lparr>ac_public_key = packet_key, ac_chain_addr = chain_key, ac_entry_type = NotAnnounced, ac_published_at = block\<rparr>)\<rparr>, Ok None)
          else (l, Ok None)
      | RevokeAnnouncement node \<Rightarrow>
          (case lg_accounts l node of
             None \<Rightarrow> (l, Err RevocationBeforeKeyBinding)
           | Some e \<Rightarrow>
               if ac_entry_type e = NotAnnounced then (l, Err RevocationBeforeKeyBinding)
               else (l\<lparr>lg_accounts := (lg_accounts l)(node \<mapsto> ac_update NotAnnounced e), lg_announced := (lg_announced l)(node := {})\<rparr>, Ok None)))"

definition ledger_token :: "('ma, 'sk, 'vrf, 'rnd) handlers \<Rightarrow> token_event \<Rightarrow> 'ma ledger \<Rightarrow> 'ma ledger \<times> 'ma outcome" where
  "ledger_token eh event l =
     (let safe = eh_safe_address eh; balance = is_balance (lg_info l) in
      (case event of
         Transfer from_address to_address v \<Rightarrow>
           if to_address = safe then ledger_info (SetSafeBalance (bal_add balance v)) l
           else if from_address = safe then ledger_info (SetSafeBalance (bal_sub balance v)) l
           else l
       | Approval owner spender v \<Rightarrow>
           if owner = safe \<and> spender = ca_channels (eh_addresses eh) then ledger_info (SetSafeAllowance v) l else l
       | OtherTokenEvent \<Rightarrow> l, Ok None))"

definition ledger_network_registry :: "network_registry_event \<Rightarrow> 'ma ledger \<Rightarrow> 'ma ledger \<times> 'ma outcome" where
  "ledger_network_registry event l =
     (let registered = (\<lambda>a. (ledger_info (SetAccess a True) l, Ok (Some (EvNetworkRegistryUpdate a Allowed))));
          deregistered = (\<lambda>a. (ledger_info (SetAccess a False) l, Ok (Some (EvNetworkRegistryUpdate a Denied)))) in
      case event of
        DeregisteredByManager a \<Rightarrow> deregistered a
      | Deregistered a \<Rightarrow> deregistered a
      | RegisteredByManager a \<Rightarrow> registered a
      | Registered a \<Rightarrow> registered a
      | EligibilityUpdated a e \<Rightarrow> (ledger_info (SetEligible a e) l, Ok None)
      | NetworkRegistryStatusUpdated e \<Rightarrow> (ledger_info (SetRegistryEnabled e) l, Ok None)
      | OtherNetworkRegistryEvent \<Rightarrow> (l, Ok None))"

definition ledger_safe_registry :: "('ma, 'sk, 'vrf, 'rnd) handlers \<Rightarrow> safe_registry_event \<Rightarrow> 'ma ledger \<Rightarrow> 'ma ledger \<times> 'ma outcome" where
  "ledger_safe_registry eh event l =
     (case event of
        RegisteredNodeSafe safe node \<Rightarrow> (l, Ok (if node = eh_me eh then Some (EvNodeSafeRegistered safe) else None))
      | DergisteredNodeSafe _ _ \<Rightarrow> (l, Ok None)
      | SafeRegistryDomainSeparatorUpdated h \<Rightarrow> (ledger_info (SetDomainSeparator SafeRegistry h) l, Ok None))"

definition ledger_win_prob :: "('ma, 'sk, 'vrf, 'rnd) handlers \<Rightarrow> win_prob_oracle_event \<Rightarrow> 'ma ledger \<Rightarrow> 'ma ledger \<times> 'ma outcome" where
  "ledger_win_prob eh event l =
     (case event of
        WinProbUpdated old new \<Rightarrow>
          (let l = ledger_info (SetMinWinProb new) l in
           if wp_approx_cmp (eh_approx eh) old new = Less then
             ledger_mark Rejected (\<lambda>a.
               (\<exists>c \<in> ran (lg_channels l). ce_destination c = eh_me eh \<and> in_epoch (ce_id c) (ce_channel_epoch c) a)
               \<and> wp_as_luck (tk_encoded_win_prob (vt_ticket (at_ticket a))) < wp_as_luck new) l
           else l, Ok None)
      | OtherWinProbOracleEvent \<Rightarrow> (l, Ok None))"

definition ledger_price :: "price_oracle_event \<Rightarrow> 'ma ledger \<Rightarrow> 'ma ledger \<times> 'ma outcome" where
  "ledger_price event l =
     (case event of TicketPriceUpdated _ p \<Rightarrow> (ledger_info (SetTicketPrice p) l, Ok None) | OwnershipTransferred \<Rightarrow> (l, Ok None))"

lemma token_refines:
  assumes eh: "handlers_ok eh" and r: "represents eh B b s l"
  shows "refines_step eh B b s (on_token_event eh event) (ledger_token eh event l)"
proof (cases event)
  case (Transfer from_address to_address v)
  have "info_refines (eh_approx eh) (lg_info l) (cs_info s)" using r by (simp add: represents_def Let_def)
  then have bal: "get_safe_hopr_balance (cs_info s) = Ok (is_balance (lg_info l))"
    by (auto simp: info_refines_def node_row_ok_def get_safe_hopr_balance_def node_info_get_def)
  note set = info_event_refines [OF eh r, where f = "set_safe_hopr_balance v'" and op = "SetSafeBalance v'" for v']
  show ?thesis
    using set [of "bal_add (is_balance (lg_info l)) v" None] set [of "bal_sub (is_balance (lg_info l)) v" None] r Transfer
    by (auto simp: on_token_event_def ledger_token_def Let_def refines_step_def db_read_def bal info_op_ok_def act_bind_def)
next
  case (Approval owner spender v)
  then show ?thesis
    using info_event_refines [OF eh r, where f = "set_safe_hopr_allowance v" and op = "SetSafeAllowance v" and x = None] r
    by (auto simp: on_token_event_def ledger_token_def Let_def refines_step_def info_op_ok_def)
qed (simp add: on_token_event_def ledger_token_def refines_step_def Let_def r)

lemma network_registry_refines:
  assumes eh: "handlers_ok eh" and r: "represents eh B b s l"
  shows "refines_step eh B b s (on_network_registry_event eh event) (ledger_network_registry event l)"
proof -
  note set = info_event_refines [OF eh r, where f = "\<lambda>nf. Ok (set_access_in_network_registry a x nf)" and op = "SetAccess a x" for a x]
  note elig = info_event_refines [OF eh r, where f = "\<lambda>nf. Ok (set_safe_eligibility a x nf)" and op = "SetEligible a x" for a x]
  note enabled = info_event_refines [OF eh r, where f = "set_network_registry_enabled x" and op = "SetRegistryEnabled x" for x]
  show ?thesis
    by (cases event) (simp_all add: on_network_registry_event_def ledger_network_registry_def Let_def set elig enabled info_op_ok_def
        return_step r)
qed

lemma safe_registry_refines:
  assumes eh: "handlers_ok eh" and r: "represents eh B b s l"
    and ok: "\<And>h. event = SafeRegistryDomainSeparatorUpdated h \<Longrightarrow> length h = hash_size"
  shows "refines_step eh B b s (on_node_safe_registry_event eh event) (ledger_safe_registry eh event l)"
proof (cases event)
  case (SafeRegistryDomainSeparatorUpdated h)
  then show ?thesis
    using info_event_refines [OF eh r, where f = "set_domain_separator SafeRegistry h" and op = "SetDomainSeparator SafeRegistry h"] ok
    by (simp add: on_node_safe_registry_event_def ledger_safe_registry_def info_op_ok_def)
qed (auto simp: on_node_safe_registry_event_def ledger_safe_registry_def return_step r)

lemma price_refines:
  assumes eh: "handlers_ok eh" and r: "represents eh B b s l"
  shows "refines_step eh B b s (on_price_oracle_event eh event) (ledger_price event l)"
proof (cases event)
  case (TicketPriceUpdated p q)
  then show ?thesis
    using info_event_refines [OF eh r, where f = "update_ticket_price q" and op = "SetTicketPrice q"]
    by (simp add: on_price_oracle_event_def ledger_price_def info_op_ok_def)
qed (simp add: on_price_oracle_event_def ledger_price_def return_step r)

lemma ledger_mark_none: "(\<And>a. a \<in> set (lg_tickets l) \<Longrightarrow> \<not> P a) \<Longrightarrow> ledger_mark mk P l = l"
proof -
  assume n: "\<And>a. a \<in> set (lg_tickets l) \<Longrightarrow> \<not> P a"
  have "ledger_mark mk P l = ledger_mark mk (\<lambda>_. False) l" by (rule ledger_mark_cong) (use n in simp)
  also have "\<dots> = l" by (simp add: ledger_mark_def tickets_value_def)
  finally show ?thesis .
qed

lemma incoming_selector_fold:
  "foldl (\<lambda>selector channel. case selector of
        Some s \<Rightarrow> Some (also_on_channel (ce_get_id channel) (ce_channel_epoch channel) s)
      | None \<Rightarrow> Some (sel_of_channel channel)) (Some s) cs
    = Some (s\<lparr>sel_index := (if cs = [] then sel_index s else NoIndex),
        sel_channel_identifiers := sel_channel_identifiers s @ map (\<lambda>c. (ce_id c, ce_channel_epoch c)) cs\<rparr>)"
  by (induction cs arbitrary: s) (simp_all add: also_on_channel_def ce_get_id_def)

lemma incoming_selector_eq:
  "incoming_selector cs = (if cs = [] then None else
     Some ((sel_of_channel (hd cs))\<lparr>sel_channel_identifiers := map (\<lambda>c. (ce_id c, ce_channel_epoch c)) cs\<rparr>))"
proof (cases cs)
  case (Cons c rest)
  then show ?thesis using incoming_selector_fold [of "sel_of_channel c" rest]
    by (simp add: incoming_selector_def sel_of_channel_def ce_get_id_def)
qed (simp add: incoming_selector_def)

lemma win_prob_refines:
  assumes eh: "handlers_ok eh" and r: "represents eh B b s l"
    and ok: "\<And>old new. event = WinProbUpdated old new \<Longrightarrow> length new = encoded_win_prob_length"
  shows "refines_step eh B b s (on_win_prob_oracle_event eh event) (ledger_win_prob eh event l)"
proof (cases event)
  case (WinProbUpdated old new)
  let ?l1 = "ledger_info (SetMinWinProb new) l"
  have len: "length new = encoded_win_prob_length" using ok WinProbUpdated .
  obtain s1 where s1: "on_info (set_minimum_incoming_ticket_win_prob new) s = (s1, Ok ())" "represents eh B b s1 ?l1"
    using info_step [OF _ r, of "SetMinWinProb new" "set_minimum_incoming_ticket_win_prob new"] eh len
    by (auto simp: handlers_ok_def info_op_ok_def)
  show ?thesis
  proof (cases "wp_approx_cmp (eh_approx eh) old new = Less")
    case False
    then show ?thesis using WinProbUpdated s1
      by (simp add: on_win_prob_oracle_event_def ledger_win_prob_def refines_step_def Let_def)
  next
    case True
    have ok1: "ct_ok (cr_keccak (eh_crypto eh)) (cs_channels s1)"
      and ch: "chan (cr_keccak (eh_crypto eh)) (cs_channels s1) = lg_channels l"
      using s1(2) by (simp_all add: represents_def Let_def ledger_info_def)
    obtain cs where cs: "get_incoming_channels (cr_keccak (eh_crypto eh)) (eh_me eh) (cs_channels s1) = Ok cs"
      "set cs = {c \<in> ran (lg_channels l). ce_destination c = eh_me eh}"
      using queries_eq(1) [OF ok1, of Incoming "eh_me eh"] unfolding get_incoming_channels_def by (auto simp: ch on_side_def)
    define P where "P = (\<lambda>a. (\<exists>c \<in> ran (lg_channels l). ce_destination c = eh_me eh \<and> in_epoch (ce_id c) (ce_channel_epoch c) a)
        \<and> wp_as_luck (tk_encoded_win_prob (vt_ticket (at_ticket a))) < wp_as_luck new)"
    have goal: "ledger_win_prob eh event l = (ledger_mark Rejected P ?l1, Ok None)"
      using WinProbUpdated True by (simp add: ledger_win_prob_def P_def Let_def ledger_info_def)
    have query: "db_read (\<lambda>s. get_incoming_channels (cr_keccak (eh_crypto eh)) (eh_me eh) (cs_channels s)) s1 = (s1, Ok cs)"
      by (simp add: db_read_def cs(1))
    show ?thesis
    proof (cases "cs = []")
      case True
      then have "ran (lg_channels l) \<inter> {c. ce_destination c = eh_me eh} = {}" using cs(2) by auto
      then have "ledger_mark Rejected P ?l1 = ?l1" by (intro ledger_mark_none) (auto simp: P_def)
      then show ?thesis unfolding goal using WinProbUpdated s1 query True \<open>wp_approx_cmp (eh_approx eh) old new = Less\<close>
        by (simp add: on_win_prob_oracle_event_def refines_step_def incoming_selector_eq)
    next
      case False
      define sel where "sel = with_winning_probability (Unbounded, Excluded new)
          ((sel_of_channel (hd cs))\<lparr>sel_channel_identifiers := map (\<lambda>c. (ce_id c, ce_channel_epoch c)) cs\<rparr>)"
      have selP: "selects sel = P"
      proof
        fix a
        have "(tk_channel_id (vt_ticket (at_ticket a)), ucast (tk_channel_epoch (vt_ticket (at_ticket a)))) \<in> (\<lambda>c. (ce_id c, ce_channel_epoch c)) ` set cs
          \<longleftrightarrow> (\<exists>c \<in> ran (lg_channels l). ce_destination c = eh_me eh \<and> in_epoch (ce_id c) (ce_channel_epoch c) a)"
          by (auto simp: cs(2) in_epoch_def ticket_key_def)
        then show "selects sel a = P a"
          by (simp add: sel_def selects_def with_winning_probability_def sel_of_channel_def P_def Let_def)
      qed
      have wf: "sel_wf sel" using len by (simp add: sel_def sel_wf_def with_winning_probability_def sel_of_channel_def)
      obtain s2 n where "on_tickets (mark_tickets_as sel Rejected) s1 = (s2, Ok n)" "represents eh B b s2 (ledger_mark Rejected P ?l1)"
        using mark_step [OF s1(2) wf, of Rejected] unfolding selP by auto
      then show ?thesis unfolding goal using WinProbUpdated s1(1) query False \<open>wp_approx_cmp (eh_approx eh) old new = Less\<close>
        by (simp add: on_win_prob_oracle_event_def refines_step_def incoming_selector_eq sel_def)
    qed
  qed
qed (simp add: on_win_prob_oracle_event_def ledger_win_prob_def return_step r)

section \<open>Announcements\<close>

text \<open>
  What the account tables need of an announcement event: the announcements of one account are in later and later blocks,
  with multiaddresses that are printed as they are parsed, and the key bindings are among those that may be made.
\<close>

definition announcements_event_ok ::
  "('ma, 'sk, 'vrf, 'rnd) handlers \<Rightarrow> 'ma account_entry set \<Rightarrow> (address \<Rightarrow> int) \<Rightarrow> u32 \<Rightarrow> announcements_event \<Rightarrow> bool" where
  "announcements_event_ok eh B b block event =
     (let ae = eh_accounts eh in
      case event of
        AddressAnnouncement node base_multiaddr \<Rightarrow>
          (\<forall>ma. base_multiaddr \<noteq> '''' \<and> ae_parse ae base_multiaddr = Some ma
             \<longrightarrow> b node < u32_as_i32 block \<and> ae_parse ae (ae_show ae ma) = Some ma)
      | KeyBinding sig_0 sig_1 packet_key chain_key \<Rightarrow>
          ae_valid_point ae packet_key \<and> ae_verify_message ae (kb_prepare_for_signing chain_key packet_key) packet_key (sig_0 @ sig_1)
            \<longrightarrow> \<lparr>ac_public_key = packet_key, ac_chain_addr = chain_key, ac_entry_type = NotAnnounced, ac_published_at = block\<rparr> \<in> B
      | RevokeAnnouncement _ \<Rightarrow> True)"

definition announced_block ::
  "('ma, 'sk, 'vrf, 'rnd) handlers \<Rightarrow> (address \<Rightarrow> int) \<Rightarrow> u32 \<Rightarrow> announcements_event \<Rightarrow> address \<Rightarrow> int" where
  "announced_block eh b block event =
     (case event of
        AddressAnnouncement node base_multiaddr \<Rightarrow>
          if base_multiaddr = '''' \<or> ae_parse (eh_accounts eh) base_multiaddr = None then b else b(node := u32_as_i32 block)
      | _ \<Rightarrow> b)"

lemma accounts_represents:
  assumes "represents eh B b s l" and "accounts_inv (eh_accounts eh) B b' ad"
    and "account_entry_at (eh_accounts eh) B ad = M" and "announced_texts ad = T"
  shows "represents eh B b' (s\<lparr>cs_accounts := ad\<rparr>) (l\<lparr>lg_accounts := M, lg_announced := T\<rparr>)"
  using assms by (simp add: represents_def Let_def)

lemma represents_mono: "represents eh B b s l \<Longrightarrow> (\<And>c. b c \<le> b' c) \<Longrightarrow> represents eh B b' s l"
  using accounts_inv_mono [of "eh_accounts eh" B b "cs_accounts s" b'] by (simp add: represents_def Let_def)

lemma same_ledger [simp]:
  "l\<lparr>lg_accounts := M, lg_announced := lg_announced l\<rparr> = l\<lparr>lg_accounts := M\<rparr>" "l\<lparr>lg_accounts := lg_accounts l\<rparr> = l"
  by simp_all

lemma announcement_refines:
  assumes B: "bindings_ok (eh_accounts eh) B" and r: "represents eh B b s l" and ok: "announcements_event_ok eh B b block event"
  shows "refines_step eh B (announced_block eh b block event) s (on_announcement_event eh event block) (ledger_announcement eh block event l)"
proof -
  let ?ae = "eh_accounts eh" and ?ad = "cs_accounts s"
  have inv: "accounts_inv ?ae B b ?ad" and M: "account_entry_at ?ae B ?ad = lg_accounts l" and T: "announced_texts ?ad = lg_announced l"
    using r by (simp_all add: represents_def Let_def)
  then have rows: "rows_ok ?ae B b ?ad" and ca: "caches_ok ?ae B ?ad" by (simp_all add: accounts_inv_def)
  note op = account_op_refines [OF B inv, unfolded M T]
  note unf = refines_step_def on_announcement_event_def ledger_announcement_def Let_def announced_block_def
  show ?thesis
  proof (cases event)
    case (AddressAnnouncement node base)
    show ?thesis
    proof (cases "base = '''' \<or> ae_parse ?ae base = None")
      case True
      then show ?thesis unfolding unf AddressAnnouncement using r by (cases "base = ''''") auto
    next
      case False
      then obtain ma where ma: "ae_parse ?ae base = Some ma" "base \<noteq> ''''" by blast
      have blk: "b node < u32_as_i32 block" "ae_parse ?ae (ae_show ?ae ma) = Some ma"
        using ok ma AddressAnnouncement by (auto simp: announcements_event_ok_def Let_def)
      then have ok': "account_history_ok ?ae B b [Announce node ma block]" by simp
      let ?b = "b(node := u32_as_i32 block)"
      have hist: "accounts_inv ?ae B ?b (run_account_op ?ae (Announce node ma block) ?ad)"
        using op(1) [OF ok'] by (simp add: last_block_def)
      show ?thesis
      proof (cases "lg_accounts l node")
        case None
        then have "insert_announcement ?ae (ChainKey node) ma block ?ad = Err MissingAccount"
          using bound_at(2) [OF B rows] M by (simp add: insert_announcement_def)
        moreover have "represents eh B ?b s l" by (rule represents_mono [OF r]) (use blk(1) in simp)
        ultimately show ?thesis unfolding unf AddressAnnouncement using None ma by simp
      next
        case (Some f)
        obtain e m where e: "e \<in> B" "m \<in> set (ad_accounts ?ad)" "acc_row m e" "ac_chain_addr e = node"
          "f = ac_update (type_of_announcements ?ae (announcements_of ?ad m)) e" using bound_at(1) [OF B rows] Some M by (metis (no_types))
        have blk': "b (ac_chain_addr e) < u32_as_i32 block" using blk(1) e(4) by simp
        obtain ad' r' where ad': "insert_announcement ?ae (ChainKey node) ma block ?ad = Ok (ad', r')"
            "ac_public_key r' = ac_public_key e" "ac_chain_addr r' = node"
          and addr: "ac_get_multiaddr r' = Some (if ae_show ?ae ma \<in> an_multiaddress ` set (announcements_of ?ad m)
              then the (ae_parse ?ae (an_multiaddress (hd (announcements_of ?ad m)))) else ma)"
          using insert_announcement_effect [OF B rows e(2) e(1) e(3) blk' blk(2)] unfolding e(4) by (elim exE conjE)
        have texts: "lg_announced l node = an_multiaddress ` set (announcements_of ?ad m)"
          using announced_texts_row [OF rows e(2,3)] T e(4) by simp
        have "the (ac_get_multiaddr f) = the (ae_parse ?ae (an_multiaddress (hd (announcements_of ?ad m))))"
          if "ae_show ?ae ma \<in> lg_announced l node"
          using that e(5) unfolding texts
          by (cases "announcements_of ?ad m") (simp_all add: ac_update_def type_of_announcements_def ac_get_multiaddr_def)
        then have addr': "ac_get_multiaddr r' = Some (if ae_show ?ae ma \<in> lg_announced l node then the (ac_get_multiaddr f) else ma)"
          using addr unfolding texts by simp
        have "represents eh B ?b (s\<lparr>cs_accounts := ad'\<rparr>)
            (l\<lparr>lg_accounts := (lg_accounts l)(node \<mapsto> ac_update (Announced ma block) f),
               lg_announced := (lg_announced l)(node := insert (ae_show ?ae ma) (lg_announced l node))\<rparr>)"
          using accounts_represents [OF r hist op(2) [OF ok'] op(3) [OF ok']] ad'(1) Some by simp
        moreover have "ac_public_key f = ac_public_key e" "ac_chain_addr f = node" using e(4,5) by (simp_all add: ac_update_def)
        ultimately show ?thesis unfolding unf AddressAnnouncement using ad' addr' ma Some by simp
      qed
    qed
  next
    case (KeyBinding sig_0 sig_1 packet_key chain_key)
    let ?e = "\<lparr>ac_public_key = packet_key, ac_chain_addr = chain_key, ac_entry_type = NotAnnounced, ac_published_at = block\<rparr>"
    show ?thesis
    proof (cases "ae_valid_point ?ae packet_key \<and> ae_verify_message ?ae (kb_prepare_for_signing chain_key packet_key) packet_key (sig_0 @ sig_1)")
      case False
      then show ?thesis unfolding unf KeyBinding using r by (auto simp: kb_from_parts_def Let_def)
    next
      case True
      then have e: "?e \<in> B" using ok KeyBinding by (simp add: announcements_event_ok_def Let_def)
      obtain ad' where ad': "insert_account ?ae ?e ?ad = (ad', Ok ())" using insert_account_effect [OF B rows ca e] by blast
      have h: "account_history_ok ?ae B b [Bind ?e]" using e by simp
      have "represents eh B b (s\<lparr>cs_accounts := ad'\<rparr>) (l\<lparr>lg_accounts := account_map_op (Bind ?e) (lg_accounts l)\<rparr>)"
        using accounts_represents [OF r op(1) [OF h] op(2) [OF h] op(3) [OF h]] ad' by (simp add: last_block_def)
      then show ?thesis
        unfolding unf KeyBinding using True ad' by (auto simp: kb_from_parts_def Let_def)
    qed
  next
    case (RevokeAnnouncement node)
    have h: "account_history_ok ?ae B b [Revoke node]" by simp
    show ?thesis
    proof (cases "lg_accounts l node")
      case None
      then have "delete_all_announcements (ChainKey node) ?ad = Err MissingAccount"
        using bound_at(2) [OF B rows] M by (simp add: delete_all_announcements_def)
      then show ?thesis unfolding unf RevokeAnnouncement using None r by simp
    next
      case (Some f)
      obtain e m where e: "e \<in> B" "m \<in> set (ad_accounts ?ad)" "acc_row m e" "ac_chain_addr e = node"
        "f = ac_update (type_of_announcements ?ae (announcements_of ?ad m)) e" using bound_at(1) [OF B rows] Some M by (metis (no_types))
      note del = delete_all_announcements_effect [OF B rows e(2) e(1) e(3)]
      show ?thesis
      proof (cases "announcements_of ?ad m = []")
        case True
        then have "ac_entry_type f = NotAnnounced" using e(5) by (simp add: type_of_announcements_def ac_update_def)
        then show ?thesis unfolding unf RevokeAnnouncement using del True e(4) Some r by simp
      next
        case False
        then have n: "ac_entry_type f \<noteq> NotAnnounced" using e(5) by (simp add: type_of_announcements_def ac_update_def split: list.splits)
        obtain ad' where ad': "delete_all_announcements (ChainKey node) ?ad = Ok ad'" using del False e(4) by auto
        have "represents eh B b (s\<lparr>cs_accounts := ad'\<rparr>)
            (l\<lparr>lg_accounts := (lg_accounts l)(node \<mapsto> ac_update NotAnnounced f), lg_announced := (lg_announced l)(node := {})\<rparr>)"
          using accounts_represents [OF r op(1) [OF h] op(2) [OF h] op(3) [OF h]] ad' Some by (simp add: last_block_def)
        then show ?thesis unfolding unf RevokeAnnouncement using n ad' Some by simp
      qed
    qed
  qed
qed

end
