(* ===== verification/Chain_Blocks.thy ===== *)
theory Chain_Blocks
  imports Chain_Ledger
begin

text \<open>
  Whole blocks of logs: the dispatch of logs to the handlers, the refinement of the ledger of \<open>Chain_Ledger\<close> by the
  processing of blocks, and what it means for a node that starts from empty index tables.
\<close>

section \<open>Logs and blocks\<close>

datatype contract_event =
    AnnouncementsEvent announcements_event
  | ChannelsEvent channels_event
  | NetworkRegistryEvent network_registry_event
  | TokenEvent token_event
  | SafeRegistryEvent safe_registry_event
  | ModuleEvent
  | PriceOracleEvent price_oracle_event
  | WinProbOracleEvent win_prob_oracle_event

text \<open>The event of a log: by the contract it comes from, and by the decoder of that contract.\<close>

definition log_event :: "('ma, 'sk, 'vrf, 'rnd) handlers \<Rightarrow> serializable_log \<Rightarrow> (indexer_error, contract_event) result" where
  "log_event eh slog =
     (let ca = eh_addresses eh; ld = eh_decoders eh in
      if length (sl_topics slog) > 4 then Err (ProcessError ''failed to convert log to primitive log'')
      else if sl_address slog = ca_announcements ca then
        ok_or SolTypeError (map_option AnnouncementsEvent (ld_announcements ld (sl_topics slog) (sl_data slog)))
      else if sl_address slog = ca_channels ca then
        ok_or SolTypeError (map_option ChannelsEvent (ld_channels ld (sl_topics slog) (sl_data slog)))
      else if sl_address slog = ca_network_registry ca then
        ok_or SolTypeError (map_option NetworkRegistryEvent (ld_network_registry ld (sl_topics slog) (sl_data slog)))
      else if sl_address slog = ca_token ca then
        ok_or SolTypeError (map_option TokenEvent (ld_token ld (sl_topics slog) (sl_data slog)))
      else if sl_address slog = ca_safe_registry ca then
        ok_or SolTypeError (map_option SafeRegistryEvent (ld_safe_registry ld (sl_topics slog) (sl_data slog)))
      else if sl_address slog = ca_module_implementation ca then
        ok_or SolTypeError (map_option (\<lambda>_. ModuleEvent) (ld_module ld (sl_topics slog) (sl_data slog)))
      else if sl_address slog = ca_price_oracle ca then
        ok_or SolTypeError (map_option PriceOracleEvent (ld_price_oracle ld (sl_topics slog) (sl_data slog)))
      else if sl_address slog = ca_win_prob_oracle ca then
        ok_or SolTypeError (map_option WinProbOracleEvent (ld_win_prob_oracle ld (sl_topics slog) (sl_data slog)))
      else Err (UnknownContract (sl_address slog)))"

definition ledger_event ::
  "('ma, 'sk, 'vrf, 'rnd) handlers \<Rightarrow> u32 \<Rightarrow> contract_event \<Rightarrow> 'ma ledger \<Rightarrow> 'ma ledger \<times> 'ma outcome" where
  "ledger_event eh block event l =
     (case event of
        AnnouncementsEvent ev \<Rightarrow> ledger_announcement eh block ev l
      | ChannelsEvent ev \<Rightarrow> ledger_channel eh ev l
      | NetworkRegistryEvent ev \<Rightarrow> ledger_network_registry ev l
      | TokenEvent ev \<Rightarrow> ledger_token eh ev l
      | SafeRegistryEvent ev \<Rightarrow> ledger_safe_registry eh ev l
      | ModuleEvent \<Rightarrow> (l, Ok None)
      | PriceOracleEvent ev \<Rightarrow> ledger_price ev l
      | WinProbOracleEvent ev \<Rightarrow> ledger_win_prob eh ev l)"

definition ledger_log :: "('ma, 'sk, 'vrf, 'rnd) handlers \<Rightarrow> serializable_log \<Rightarrow> 'ma ledger \<Rightarrow> 'ma ledger \<times> 'ma outcome" where
  "ledger_log eh slog l =
     (case log_event eh slog of Inl e \<Rightarrow> (l, Inl e) | Inr ev \<Rightarrow> ledger_event eh (ucast (sl_block_number slog)) ev l)"

fun ledger_block ::
  "('ma, 'sk, 'vrf, 'rnd) handlers \<Rightarrow> serializable_log list \<Rightarrow> 'ma ledger
     \<Rightarrow> (indexer_error, 'ma ledger \<times> 'ma significant_chain_event list) result" where
  "ledger_block eh [] l = Ok (l, [])"
| "ledger_block eh (slog # logs) l =
     (case ledger_log eh slog l of
        (l', Inr (Some ev)) \<Rightarrow>
          map_res (\<lambda>(l'', evs). (l'', \<lparr>se_tx_hash = sl_tx_hash slog, se_event_type = ev\<rparr> # evs)) (ledger_block eh logs l')
      | (l', Inl Panic) \<Rightarrow> Panicked
      | (l', _) \<Rightarrow> ledger_block eh logs l')"

text \<open>The arguments of a decoded event have the lengths of their types.\<close>

definition format_ok :: "contract_event \<Rightarrow> bool" where
  "format_ok event =
     (case event of
        ChannelsEvent ev \<Rightarrow> channels_event_ok ev
      | SafeRegistryEvent (SafeRegistryDomainSeparatorUpdated h) \<Rightarrow> length h = hash_size
      | WinProbOracleEvent (WinProbUpdated old new) \<Rightarrow> length new = encoded_win_prob_length
      | _ \<Rightarrow> True)"

definition formats_ok :: "('ma, 'sk, 'vrf, 'rnd) handlers \<Rightarrow> serializable_log list \<Rightarrow> bool" where
  "formats_ok eh logs \<longleftrightarrow> (\<forall>slog \<in> set logs. case log_event eh slog of Inl _ \<Rightarrow> True | Inr ev \<Rightarrow> format_ok ev)"

text \<open>The format of the decoded arguments, and the hypotheses on announcements.\<close>

definition event_ok :: "('ma, 'sk, 'vrf, 'rnd) handlers \<Rightarrow> 'ma account_entry set \<Rightarrow> (address \<Rightarrow> int) \<Rightarrow> u32 \<Rightarrow> contract_event \<Rightarrow> bool" where
  "event_ok eh B b block event =
     (case event of
        AnnouncementsEvent ev \<Rightarrow> announcements_event_ok eh B b block ev
      | _ \<Rightarrow> format_ok event)"

definition event_block :: "('ma, 'sk, 'vrf, 'rnd) handlers \<Rightarrow> (address \<Rightarrow> int) \<Rightarrow> u32 \<Rightarrow> contract_event \<Rightarrow> address \<Rightarrow> int" where
  "event_block eh b block event = (case event of AnnouncementsEvent ev \<Rightarrow> announced_block eh b block ev | _ \<Rightarrow> b)"

fun logs_ok :: "('ma, 'sk, 'vrf, 'rnd) handlers \<Rightarrow> 'ma account_entry set \<Rightarrow> (address \<Rightarrow> int) \<Rightarrow> serializable_log list \<Rightarrow> bool" where
  "logs_ok eh B b [] \<longleftrightarrow> True"
| "logs_ok eh B b (slog # logs) \<longleftrightarrow>
     (case log_event eh slog of
        Inl _ \<Rightarrow> logs_ok eh B b logs
      | Inr ev \<Rightarrow> event_ok eh B b (ucast (sl_block_number slog)) ev \<and> logs_ok eh B (event_block eh b (ucast (sl_block_number slog)) ev) logs)"

definition handle_event :: "('ma, 'sk, 'vrf, 'rnd) handlers \<Rightarrow> u32 \<Rightarrow> contract_event \<Rightarrow> 'ma chain_event option step" where
  "handle_event eh block event =
     (case event of
        AnnouncementsEvent ev \<Rightarrow> on_announcement_event eh ev block
      | ChannelsEvent ev \<Rightarrow> on_channel_event eh ev
      | NetworkRegistryEvent ev \<Rightarrow> on_network_registry_event eh ev
      | TokenEvent ev \<Rightarrow> on_token_event eh ev
      | SafeRegistryEvent ev \<Rightarrow> on_node_safe_registry_event eh ev
      | ModuleEvent \<Rightarrow> act_return None
      | PriceOracleEvent ev \<Rightarrow> on_price_oracle_event eh ev
      | WinProbOracleEvent ev \<Rightarrow> on_win_prob_oracle_event eh ev)"

lemma decode_bind:
  "act_bind (decode_log d slog) h s = (case d (sl_topics slog) (sl_data slog) of None \<Rightarrow> (s, Err SolTypeError) | Some ev \<Rightarrow> h ev s)"
  by (simp add: decode_log_def split: option.split)

lemma process_log_event_eq:
  "process_log_event eh slog s =
     (case log_event eh slog of Inl e \<Rightarrow> (s, Inl e) | Inr ev \<Rightarrow> handle_event eh (ucast (sl_block_number slog)) ev s)"
  unfolding process_log_event_def log_event_def Let_def
  by (simp add: decode_bind handle_event_def split: option.split)

lemma handle_event_refines:
  assumes eh: "handlers_ok eh" and B: "bindings_ok (eh_accounts eh) B" and r: "represents eh B b s l" and ok: "event_ok eh B b block event"
  shows "refines_step eh B (event_block eh b block event) s (handle_event eh block event) (ledger_event eh block event l)"
proof (cases event)
  case (AnnouncementsEvent ev)
  then show ?thesis using announcement_refines [OF B r, of block ev] ok by (simp add: event_ok_def format_ok_def event_block_def handle_event_def ledger_event_def)
next
  case (ChannelsEvent ev)
  then show ?thesis using channel_event_refines [OF eh r] ok
    by (simp add: event_ok_def format_ok_def event_block_def handle_event_def ledger_event_def)
next
  case (NetworkRegistryEvent ev)
  then show ?thesis using network_registry_refines [OF eh r]
    by (simp add: event_block_def handle_event_def ledger_event_def)
next
  case (TokenEvent ev)
  then show ?thesis using token_refines [OF eh r]
    by (simp add: event_block_def handle_event_def ledger_event_def)
next
  case (SafeRegistryEvent ev)
  have "length h = hash_size" if "ev = SafeRegistryDomainSeparatorUpdated h" for h using ok that SafeRegistryEvent by (simp add: event_ok_def format_ok_def)
  from safe_registry_refines [OF eh r this] show ?thesis
    using SafeRegistryEvent by (simp add: event_block_def handle_event_def ledger_event_def)
next
  case ModuleEvent
  then show ?thesis using r by (simp add: refines_step_def event_block_def handle_event_def ledger_event_def)
next
  case (PriceOracleEvent ev)
  then show ?thesis using price_refines [OF eh r]
    by (simp add: event_block_def handle_event_def ledger_event_def)
next
  case (WinProbOracleEvent ev)
  have "length new = encoded_win_prob_length" if "ev = WinProbUpdated old new" for old new using ok that WinProbOracleEvent
    by (simp add: event_ok_def format_ok_def)
  from win_prob_refines [OF eh r this] show ?thesis
    using WinProbOracleEvent by (simp add: event_block_def handle_event_def ledger_event_def)
qed

lemma process_log_refines:
  assumes eh: "handlers_ok eh" and B: "bindings_ok (eh_accounts eh) B" and r: "represents eh B b s l" and ok: "logs_ok eh B b (slog # logs)"
  shows "\<exists>b' s' x. process_log_event eh slog s = (s', x) \<and> x = snd (ledger_log eh slog l)
     \<and> represents eh B b' s' (fst (ledger_log eh slog l)) \<and> logs_ok eh B b' logs"
proof (cases "log_event eh slog")
  case (Inl e)
  then show ?thesis using r ok by (intro exI [of _ b]) (simp add: process_log_event_eq ledger_log_def)
next
  case (Inr ev)
  then have "event_ok eh B b (ucast (sl_block_number slog)) ev" using ok by simp
  from handle_event_refines [OF eh B r this] show ?thesis
    using Inr ok by (intro exI [of _ "event_block eh b (ucast (sl_block_number slog)) ev"])
      (auto simp: refines_step_def process_log_event_eq ledger_log_def)
qed

lemma collect_block_refines:
  assumes eh: "handlers_ok eh" and B: "bindings_ok (eh_accounts eh) B"
  shows "represents eh B b s l \<Longrightarrow> logs_ok eh B b logs \<Longrightarrow>
    (case ledger_block eh logs l of
       Inl e \<Rightarrow> collect_block_events eh logs s = Inl e
     | Inr (l', evs) \<Rightarrow> (\<exists>s' b'. collect_block_events eh logs s = Ok (s', evs) \<and> represents eh B b' s' l'))"
proof (induction logs arbitrary: b s l)
  case (Cons slog logs)
  obtain b' s' x where step: "process_log_event eh slog s = (s', x)" "x = snd (ledger_log eh slog l)"
    "represents eh B b' s' (fst (ledger_log eh slog l))" "logs_ok eh B b' logs" using process_log_refines [OF eh B Cons.prems] by blast
  obtain l1 y where y: "ledger_log eh slog l = (l1, y)" by fastforce
  note IH = Cons.IH [OF step(3,4), unfolded y fst_conv]
  show ?case
  proof (cases x)
    case (Inl f)
    show ?thesis
    proof (cases f)
      case (Fail e)
      then have "collect_block_events eh (slog # logs) s = collect_block_events eh logs s'" "ledger_block eh (slog # logs) l = ledger_block eh logs l1"
        using step(1,2) y Inl by auto
      then show ?thesis using IH by (simp only:)
    next
      case Panic
      then show ?thesis using step(1,2) y Inl by auto
    qed
  next
    case x: (Inr o')
    show ?thesis
    proof (cases o')
      case None
      then have "collect_block_events eh (slog # logs) s = collect_block_events eh logs s'" "ledger_block eh (slog # logs) l = ledger_block eh logs l1"
        using step(1,2) y x by auto
      then show ?thesis using IH by (simp only:)
    next
      case (Some ev)
      then have y': "y = Ok (Some (ev))" using step(2) y x by simp
      show ?thesis
      proof (cases "ledger_block eh logs l1")
        case (Inl e)
        then show ?thesis using step(1) y y' x Some IH by simp
      next
        case (Inr p)
        obtain l' evs where p: "p = (l', evs)" by fastforce
        from IH Inr p obtain s'' b'' where "collect_block_events eh logs s' = Ok (s'', evs)"
          "represents eh B b'' s'' l'" by auto
        then show ?thesis using step(1) y y' x Some Inr p by auto
      qed
    qed
  qed
qed auto

section \<open>The state of a node that follows the chain\<close>

text \<open>
  A node starts with empty index tables and whatever tickets it has; consecutive blocks are processed as the
  concatenation of their logs.
\<close>

definition chain_start :: "ticket_db \<Rightarrow> chain_state" where
  "chain_start td = \<lparr>cs_accounts = ad_new, cs_channels = ct_new, cs_info = nf_new, cs_tickets = td\<rparr>"

definition tickets_ok :: "('sk, 'vrf, 'rnd) crypto \<Rightarrow> ticket_db \<Rightarrow> acknowledged_ticket list \<Rightarrow> bool" where
  "tickets_ok cr td as \<longleftrightarrow>
     td_inv cr td \<and> list_all2 (row_of cr) (td_tickets td) as
     \<and> (\<forall>a \<in> set as. unat (tk_index_offset (vt_ticket (at_ticket a))) < 2 ^ 31)
     \<and> (\<forall>mk. marks_fit mk td) \<and> outgoing_ok td"

definition ledger_start :: "ticket_db \<Rightarrow> acknowledged_ticket list \<Rightarrow> 'ma ledger" where
  "ledger_start td as =
     \<lparr>lg_accounts = Map.empty, lg_announced = (\<lambda>_. {}), lg_channels = Map.empty, lg_tickets = as, lg_settled = (\<lambda>mk i. stat_value mk i td),
      lg_indices = current_index td, lg_info = info_initial\<rparr>"

lemma map_res_and_then: "map_res f (and_then m k) = and_then m (\<lambda>x. map_res f (k x))"
  by (cases m) simp_all

lemma and_then_map_res: "and_then (map_res g m) k = and_then m (\<lambda>x. k (g x))"
  by (cases m) simp_all

lemma map_res_map_res: "map_res f (map_res g m) = map_res (\<lambda>x. f (g x)) m"
  by (cases m) simp_all

lemma collect_block_events_append:
  "collect_block_events eh (xs @ ys) s =
     and_then (collect_block_events eh xs s) (\<lambda>(s', evs). map_res (\<lambda>(s'', evs'). (s'', evs @ evs')) (collect_block_events eh ys s'))"
proof (induction xs arbitrary: s)
  case Nil
  then show ?case by (cases "collect_block_events eh ys s") auto
next
  case (Cons x xs)
  then show ?case
    by (auto simp: map_res_and_then and_then_map_res map_res_map_res case_prod_beta split: prod.splits sum.splits option.splits failure.splits)
qed

lemma represents_start:
  assumes "tickets_ok (eh_crypto eh) td as"
  shows "represents eh B (\<lambda>_. - 1) (chain_start td) (ledger_start td as)"
  using assms accounts_new(1,2) [of "eh_accounts eh" B] accounts_new(3) info_refines_new
  by (auto simp: represents_def Let_def chain_start_def ledger_start_def tickets_ok_def ct_ok_def ct_new_def chan_def find_channel_def)

lemma represents_queries:
  assumes eh: "handlers_ok eh" and B: "bindings_ok (eh_accounts eh) B" and r: "represents eh B b s l"
  shows "get_account (eh_accounts eh) (ChainKey c) (cs_accounts s) = Ok (lg_accounts l c)"
    and "get_channel_by_id (cr_keccak (eh_crypto eh)) i (cs_channels s) = Ok (lg_channels l i)"
    and "get_all_tickets (eh_crypto eh) (cs_tickets s) = Ok (lg_tickets l)"
    and "stat_value mk i (cs_tickets s) = lg_settled l mk i"
    and "length i = hash_size \<Longrightarrow> \<exists>td. get_outgoing_ticket_index i (cs_tickets s) = Ok (td, lg_indices l i)"
proof -
  show "get_account (eh_accounts eh) (ChainKey c) (cs_accounts s) = Ok (lg_accounts l c)"
    using get_account_eq(1) [OF B] r by (auto simp: represents_def Let_def accounts_inv_def)
  show "get_channel_by_id (cr_keccak (eh_crypto eh)) i (cs_channels s) = Ok (lg_channels l i)"
    using get_channel_by_id_eq r by (auto simp: represents_def Let_def)
  have "list_all2 (row_of (eh_crypto eh)) (td_tickets (cs_tickets s)) (lg_tickets l)" using r by (simp add: represents_def Let_def)
  then have "list_all2 (\<lambda>m a. row_of (eh_crypto eh) m a \<and> True) (td_tickets (cs_tickets s)) (lg_tickets l)" by simp
  then show "get_all_tickets (eh_crypto eh) (cs_tickets s) = Ok (lg_tickets l)"
    unfolding get_all_tickets_def by (subst collect_rows [where Q = "\<lambda>_ _. True"]) simp_all
  show "stat_value mk i (cs_tickets s) = lg_settled l mk i" using r by (simp add: represents_def Let_def)
  show "\<exists>td. get_outgoing_ticket_index i (cs_tickets s) = Ok (td, lg_indices l i)" if "length i = hash_size"
    using get_outgoing_index [OF _ that, of "cs_tickets s"] r by (auto simp: represents_def Let_def)
qed

text \<open>C1: the node follows the chain. From empty index tables and any consistent ticket store, processing the logs of any number of
blocks gives a state whose accounts, channels, tickets, settled values, outgoing ticket indices and node information are
those of the ledger that the contract events describe (the minimum winning probability within the precision of its column),
and exactly the events of the ledger are reported, in the same order; failing logs are skipped by both, and a log that cannot
be processed without a panic (only the re-opening of a channel with the largest possible epoch) ends both. An announcement
event has the announced address, except that of an address announced before and not revoked since, which has the one that
was the latest until then. The announcements of one account are in increasing blocks (other accounts may announce in the same
block), and no two key bindings share a key or an identifier.\<close>

theorem node_follows_chain:
  assumes "handlers_ok eh" and "bindings_ok (eh_accounts eh) B" and "tickets_ok (eh_crypto eh) td as" and "logs_ok eh B (\<lambda>_. - 1) logs"
  shows "case ledger_block eh logs (ledger_start td as) of
      Inl e \<Rightarrow> collect_block_events eh logs (chain_start td) = Inl e
    | Inr (l, evs) \<Rightarrow> \<exists>s. collect_block_events eh logs (chain_start td) = Ok (s, evs)
        \<and> (\<forall>c. get_account (eh_accounts eh) (ChainKey c) (cs_accounts s) = Ok (lg_accounts l c))
        \<and> (\<forall>i. get_channel_by_id (cr_keccak (eh_crypto eh)) i (cs_channels s) = Ok (lg_channels l i))
        \<and> get_all_tickets (eh_crypto eh) (cs_tickets s) = Ok (lg_tickets l)
        \<and> (\<forall>mk i. stat_value mk i (cs_tickets s) = lg_settled l mk i)
        \<and> (\<forall>i. length i = hash_size \<longrightarrow> (\<exists>td'. get_outgoing_ticket_index i (cs_tickets s) = Ok (td', lg_indices l i)))
        \<and> get_safe_hopr_balance (cs_info s) = Ok (is_balance (lg_info l))
        \<and> get_safe_hopr_allowance (cs_info s) = Ok (is_allowance (lg_info l))
        \<and> (\<forall>a. is_allowed_in_network_registry a (cs_info s) \<longleftrightarrow> a \<in> is_allowed (lg_info l))
        \<and> (\<forall>a. is_safe_eligible a (cs_info s) \<longleftrightarrow> a \<in> is_eligible (lg_info l))
        \<and> (\<exists>nf d. get_indexer_data (eh_approx eh) (cs_info s) = Ok (nf, d)
             \<and> (\<forall>ds. id_domain_separator ds d = is_domain_separators (lg_info l) ds) \<and> id_ticket_price d = is_ticket_price (lg_info l)
             \<and> id_nr_enabled d = is_registry_enabled (lg_info l)
             \<and> \<bar>wp_as_f64 (id_min_win_prob d) - wp_as_f64 (is_win_prob (lg_info l))\<bar> \<le> 1 / 2 ^ 23)"
proof -
  note c = collect_block_refines [OF assms(1,2) represents_start [OF assms(3)] assms(4)]
  show ?thesis
  proof (cases "ledger_block eh logs (ledger_start td as)")
    case (Inl e)
    then show ?thesis using c by simp
  next
    case (Inr p)
    obtain l evs where p: "p = (l, evs)" by fastforce
    obtain s b where s: "collect_block_events eh logs (chain_start td) = Ok (s, evs)" "represents eh B b s l"
      using c Inr p by auto
    note q = represents_queries [OF assms(1,2) s(2)]
    have i: "info_refines (eh_approx eh) (lg_info l) (cs_info s)" and a: "approx_ok (eh_approx eh)"
      using s(2) assms(1) by (simp_all add: represents_def Let_def handlers_ok_def)
    show ?thesis unfolding Inr p sum.case prod.case
      using s(1) q info_refines_reads [OF a i] by (intro exI [of _ s] conjI) blast+
  qed
qed

section \<open>No ticket value is lost\<close>

definition ledger_value :: "'ma ledger \<Rightarrow> hash \<Rightarrow> nat" where
  "ledger_value l i =
     tickets_value (filter (\<lambda>a. fst (ticket_key a) = i) (lg_tickets l))
     + lg_settled l Redeemed i + lg_settled l Rejected i + lg_settled l Neglected i"

lemma tickets_value_filter:
  "tickets_value (filter (\<lambda>a. Q a \<and> \<not> P a) as) + tickets_value (filter (\<lambda>a. P a \<and> Q a) as) = tickets_value (filter Q as)"
  by (induction as) (auto simp: tickets_value_def)

lemma ledger_value_mark [simp]: "ledger_value (ledger_mark mk P l) = ledger_value l"
proof
  fix i
  have "tickets_value (filter (\<lambda>a. fst (ticket_key a) = i \<and> \<not> P a) (lg_tickets l))
      + tickets_value (filter (\<lambda>a. P a \<and> fst (ticket_key a) = i) (lg_tickets l))
      = tickets_value (filter (\<lambda>a. fst (ticket_key a) = i) (lg_tickets l))" by (rule tickets_value_filter)
  then show "ledger_value (ledger_mark mk P l) i = ledger_value l i"
    by (cases mk) (simp_all add: ledger_value_def ledger_mark_def conj_commute)
qed

lemma ledger_value_frame [simp]:
  "ledger_value (ledger_set c l) = ledger_value l" "ledger_value (ledger_index i v l) = ledger_value l"
  "ledger_value (ledger_info op l) = ledger_value l" "ledger_value (l\<lparr>lg_accounts := M\<rparr>) = ledger_value l"
  "ledger_value (l\<lparr>lg_channels := C\<rparr>) = ledger_value l" "ledger_value (l\<lparr>lg_announced := T\<rparr>) = ledger_value l"
  by (simp_all add: fun_eq_iff ledger_value_def ledger_set_def ledger_index_def ledger_info_def)

lemma ledger_channel_value: "ledger_value (fst (ledger_channel eh ev l)) = ledger_value l"
  by (cases ev) (auto simp: ledger_channel_def ledger_channel_closed_def ledger_channel_opened_def ledger_ticket_redeemed_def Let_def
      split: option.splits list.splits)

lemma ledger_log_value: "ledger_value (fst (ledger_log eh slog l)) = ledger_value l"
proof (cases "log_event eh slog")
  case (Inr ev)
  then show ?thesis
  proof (cases ev)
    case (AnnouncementsEvent x)
    with Inr show ?thesis by (auto simp: ledger_log_def ledger_event_def ledger_announcement_def Let_def split: announcements_event.splits option.splits)
  next
    case (NetworkRegistryEvent x)
    with Inr show ?thesis by (cases x) (auto simp: ledger_log_def ledger_event_def ledger_network_registry_def Let_def)
  next
    case (SafeRegistryEvent x)
    with Inr show ?thesis by (cases x) (auto simp: ledger_log_def ledger_event_def ledger_safe_registry_def)
  next
    case (TokenEvent x)
    with Inr show ?thesis by (cases x) (auto simp: ledger_log_def ledger_event_def ledger_token_def Let_def)
  next
    case (PriceOracleEvent x)
    with Inr show ?thesis by (cases x) (auto simp: ledger_log_def ledger_event_def ledger_price_def)
  next
    case (WinProbOracleEvent x)
    with Inr show ?thesis by (cases x) (auto simp: ledger_log_def ledger_event_def ledger_win_prob_def Let_def)
  qed (simp_all add: ledger_log_def ledger_event_def ledger_channel_value)
qed (simp add: ledger_log_def)

lemma represents_value:
  assumes "represents eh B b s l"
  shows "ledger_value l i = rows_value (filter (on_channel i) (td_tickets (cs_tickets s)))
    + stat_value Redeemed i (cs_tickets s) + stat_value Rejected i (cs_tickets s) + stat_value Neglected i (cs_tickets s)"
proof -
  have "list_all2 (row_of (eh_crypto eh)) (td_tickets (cs_tickets s)) (lg_tickets l)"
    and st: "lg_settled l = (\<lambda>mk i. stat_value mk i (cs_tickets s))" using assms by (simp_all add: represents_def Let_def)
  then have "rows_value (filter (on_channel i) (td_tickets (cs_tickets s))) = tickets_value (filter (\<lambda>a. fst (ticket_key a) = i) (lg_tickets l))"
    by (intro rows_tickets_value list_all2_filter) (use row_of_channel in blast)+
  then show ?thesis by (simp add: ledger_value_def st)
qed

text \<open>
  Only the announcement handlers read or change the account tables: the other ones commute with a change of them.
\<close>

named_theorems ignores

definition ignores_accounts :: "'a step \<Rightarrow> bool" where
  "ignores_accounts m \<longleftrightarrow> (\<forall>s ad. m (s\<lparr>cs_accounts := ad\<rparr>) = map_prod (cs_accounts_update (\<lambda>_. ad)) (\<lambda>x. x) (m s))"

lemma ignores_write:
  "(\<And>s ad. u (s\<lparr>cs_accounts := ad\<rparr>) = map_res (map_prod (cs_accounts_update (\<lambda>_. ad)) (\<lambda>x. x)) (u s)) \<Longrightarrow> ignores_accounts (db_write u)"
  by (auto simp: ignores_accounts_def db_write_def split: sum.split)

lemma ignores_steps [ignores]:
  "ignores_accounts (act_return x)" "ignores_accounts (act_fail e)" "ignores_accounts (\<lambda>s. (s, y))"
  "ignores_accounts (on_info f)" "ignores_accounts (on_tickets g)" "ignores_accounts (begin_update eh i)"
  "ignores_accounts (finish_update eh ed)" "ignores_accounts (insert_channel c)"
  "ignores_accounts (db_read (\<lambda>s. q (cs_channels s)))" "ignores_accounts (db_read (\<lambda>s. q' (cs_info s)))"
  "ignores_accounts (db_read (\<lambda>s. q'' (cs_tickets s)))"
  unfolding on_info_def on_tickets_def finish_update_def insert_channel_def
  by (rule ignores_write, simp add: map_res_map_res case_prod_beta' forget_unrealized_def,
      rule arg_cong [of _ _ "\<lambda>f. map_res f _"], simp add: fun_eq_iff
    | simp add: ignores_accounts_def act_return_def act_fail_def begin_update_def db_read_def; fail)+

lemma ignores_bind [ignores]: "ignores_accounts m \<Longrightarrow> (\<And>x. ignores_accounts (k x)) \<Longrightarrow> ignores_accounts (act_bind m k)"
  by (simp add: ignores_accounts_def act_bind_def split: prod.splits sum.splits)

lemma ignores_cases [ignores]:
  "(b \<Longrightarrow> ignores_accounts m) \<Longrightarrow> (\<not> b \<Longrightarrow> ignores_accounts n) \<Longrightarrow> ignores_accounts (if b then m else n)"
  "ignores_accounts n \<Longrightarrow> (\<And>x. ignores_accounts (k x)) \<Longrightarrow> ignores_accounts (case o' of None \<Rightarrow> n | Some x \<Rightarrow> k x)"
  "(\<And>x y. ignores_accounts (h x y)) \<Longrightarrow> ignores_accounts (case p of (x, y) \<Rightarrow> h x y)"
  "ignores_accounts i \<Longrightarrow> ignores_accounts j \<Longrightarrow> ignores_accounts (case d of Incoming \<Rightarrow> i | Outgoing \<Rightarrow> j)"
  "ignores_accounts n \<Longrightarrow> (\<And>t ts. ignores_accounts (l t ts)) \<Longrightarrow> ignores_accounts (case xs of [] \<Rightarrow> n | t # ts \<Rightarrow> l t ts)"
  by (auto split: option.split prod.split channel_direction.split list.split)

lemma channel_event_ignores: "ignores_accounts (on_channel_event eh ev)"
  by (cases ev)
    (simp_all only: on_channel_event.simps on_balance_decreased_def on_balance_increased_def on_channel_closed_def on_channel_opened_def
      on_ticket_redeemed_def redeemed_ticket_def on_closure_initiated_def Let_def, (intro ignores allI impI)+)

lemma handle_event_ignores: "\<forall>ev. event \<noteq> AnnouncementsEvent ev \<Longrightarrow> ignores_accounts (handle_event eh block event)"
proof (cases event)
  case (NetworkRegistryEvent ev)
  then show ?thesis by (cases ev) (simp_all add: handle_event_def on_network_registry_event_def Let_def ignores)
next
  case (TokenEvent ev)
  then show ?thesis by (cases ev) (simp_all add: handle_event_def on_token_event_def Let_def ignores)
next
  case (SafeRegistryEvent ev)
  then show ?thesis by (cases ev) (simp_all add: handle_event_def on_node_safe_registry_event_def ignores)
next
  case (PriceOracleEvent ev)
  then show ?thesis by (cases ev) (simp_all add: handle_event_def on_price_oracle_event_def ignores)
next
  case (WinProbOracleEvent ev)
  then show ?thesis by (cases ev) (simp_all add: handle_event_def on_win_prob_oracle_event_def ignores)
qed (simp_all add: handle_event_def channel_event_ignores ignores_steps)

lemma announcement_keeps: "fst (on_announcement_event eh ev block s) = s\<lparr>cs_accounts := cs_accounts (fst (on_announcement_event eh ev block s))\<rparr>"
  unfolding on_announcement_event_def
  by (auto simp: Let_def split: announcements_event.splits option.splits sum.splits failure.splits prod.splits db_error.splits)

text \<open>A ledger without accounts follows the rest of the state, whatever is announced.\<close>

abbreviation represents_rest where
  "represents_rest eh s l \<equiv> represents eh {} (\<lambda>_. - 1) (s\<lparr>cs_accounts := ad_new\<rparr>) l"

lemma process_log_keeps_value:
  assumes eh: "handlers_ok eh" and r: "represents_rest eh s l" and ok: "case log_event eh slog of Inl _ \<Rightarrow> True | Inr ev \<Rightarrow> format_ok ev"
    and run: "process_log_event eh slog s = (s', x)"
  shows "\<exists>l'. represents_rest eh s' l' \<and> ledger_value l' = ledger_value l"
proof (cases "log_event eh slog")
  case (Inl e)
  then show ?thesis using r run by (auto simp: process_log_event_eq)
next
  case (Inr ev)
  then have h: "handle_event eh (ucast (sl_block_number slog)) ev s = (s', x)" using run by (simp add: process_log_event_eq)
  show ?thesis
  proof (cases "\<exists>a. ev = AnnouncementsEvent a")
    case True
    then obtain a where "on_announcement_event eh a (ucast (sl_block_number slog)) s = (s', x)" using h by (auto simp: handle_event_def)
    from announcement_keeps [of eh a "ucast (sl_block_number slog)" s, unfolded this] have "s' = s\<lparr>cs_accounts := cs_accounts s'\<rparr>" by simp
    then have "s'\<lparr>cs_accounts := ad_new\<rparr> = s\<lparr>cs_accounts := ad_new\<rparr>" by (metis chain_state.surjective chain_state.update_convs(1))
    then show ?thesis using r by auto
  next
    case False
    then have "event_ok eh {} (\<lambda>_. - 1) (ucast (sl_block_number slog)) ev" "event_block eh (\<lambda>_. - 1) (ucast (sl_block_number slog)) ev = (\<lambda>_. - 1)"
      using False ok Inr by (cases ev; simp add: event_ok_def event_block_def)+
    with handle_event_refines [OF eh _ r, of "ucast (sl_block_number slog)" ev] obtain t where
      t: "handle_event eh (ucast (sl_block_number slog)) ev (s\<lparr>cs_accounts := ad_new\<rparr>)
        = (t, snd (ledger_event eh (ucast (sl_block_number slog)) ev l))"
      "represents eh {} (\<lambda>_. - 1) t (fst (ledger_event eh (ucast (sl_block_number slog)) ev l))"
      by (auto simp: refines_step_def bindings_ok_def)
    have "t = s'\<lparr>cs_accounts := ad_new\<rparr>"
      using handle_event_ignores [of ev eh "ucast (sl_block_number slog)"] False h t(1) by (auto simp: ignores_accounts_def)
    then show ?thesis using t(2) Inr ledger_log_value [of eh slog l] by (auto simp: ledger_log_def)
  qed
qed

lemma collect_keeps_value:
  assumes eh: "handlers_ok eh"
  shows "represents_rest eh s l \<Longrightarrow> formats_ok eh logs \<Longrightarrow> collect_block_events eh logs s = Ok (s', evs) \<Longrightarrow>
    \<exists>l'. represents_rest eh s' l' \<and> ledger_value l' = ledger_value l"
proof (induction logs arbitrary: s l evs)
  case (Cons slog logs)
  obtain s1 x where x: "process_log_event eh slog s = (s1, x)" by fastforce
  have ok: "case log_event eh slog of Inl _ \<Rightarrow> True | Inr ev \<Rightarrow> format_ok ev" "formats_ok eh logs"
    using Cons.prems(2) by (simp_all add: formats_ok_def)
  obtain l1 where l1: "represents_rest eh s1 l1" "ledger_value l1 = ledger_value l"
    using process_log_keeps_value [OF eh Cons.prems(1) ok(1) x] by (elim exE conjE)
  have "\<exists>evs'. collect_block_events eh logs s1 = Ok (s', evs')"
  proof (cases x)
    case (Inl f)
    then show ?thesis using Cons.prems(3) x by (cases f) simp_all
  next
    case (Inr o')
    then show ?thesis using Cons.prems(3) x by (cases o') (auto simp: map_res_Inr_iff)
  qed
  then obtain evs' where "collect_block_events eh logs s1 = Ok (s', evs')" ..
  from Cons.IH [OF l1(1) ok(2) this] show ?case unfolding l1(2) .
next
  case Nil
  then show ?case by (intro exI [of _ l]) simp
qed

text \<open>C13: following the chain loses no ticket: whatever contract events are processed, announcements and key bindings of any
kind and in any order included, for every channel the value of the stored tickets and of those settled as redeemed, rejected
or neglected together stays the same. The only condition on the events is that their arguments have the lengths of their
types; the tickets of the store are consistent, with settled values that do not overflow.\<close>

theorem chain_conserves_tickets:
  fixes eh :: "('ma, 'sk, 'vrf, 'rnd) handlers"
  assumes "handlers_ok eh" and "tickets_ok (eh_crypto eh) td as" and "formats_ok eh logs"
    and "collect_block_events eh logs (chain_start td) = Ok (s, evs)"
  shows "rows_value (filter (on_channel i) (td_tickets (cs_tickets s))) + stat_value Redeemed i (cs_tickets s)
       + stat_value Rejected i (cs_tickets s) + stat_value Neglected i (cs_tickets s)
     = rows_value (filter (on_channel i) (td_tickets td)) + stat_value Redeemed i td + stat_value Rejected i td + stat_value Neglected i td"
proof -
  note r = represents_start [OF assms(2), of "{}"]
  have "represents_rest eh (chain_start td) (ledger_start td as)" using r by (simp add: chain_start_def)
  from collect_keeps_value [OF assms(1) this assms(3,4)] obtain l where
    l: "represents_rest eh s l" "ledger_value l = ledger_value (ledger_start td as :: 'ma ledger)" by (elim exE conjE) (rule that)
  have t: "cs_tickets (s\<lparr>cs_accounts := ad_new\<rparr>) = cs_tickets s" "cs_tickets (chain_start td) = td" by (simp_all add: chain_start_def)
  show ?thesis by (rule trans [OF represents_value [OF l(1), of i, unfolded t, symmetric] represents_value [OF r, of i, unfolded t, folded l(2)]])
qed

text \<open>A transfer of the safe to itself is taken for an increase.\<close>

lemma self_transfer_increases:
  assumes eh: "handlers_ok eh" and r: "represents eh B b s l"
  shows "\<exists>s'. on_token_event eh (Transfer (eh_safe_address eh) (eh_safe_address eh) v) s = (s', Ok None)
    \<and> get_safe_hopr_balance (cs_info s') = map_res (\<lambda>x. bal_add x v) (get_safe_hopr_balance (cs_info s))"
proof -
  obtain s' where s': "on_token_event eh (Transfer (eh_safe_address eh) (eh_safe_address eh) v) s = (s', Ok None)"
    "represents eh B b s' (ledger_info (SetSafeBalance (bal_add (is_balance (lg_info l)) v)) l)"
    using token_refines [OF eh r, of "Transfer (eh_safe_address eh) (eh_safe_address eh) v"]
    by (auto simp: refines_step_def ledger_token_def Let_def)
  have "get_safe_hopr_balance (cs_info t) = Ok (is_balance (lg_info k))" if "represents eh B b t k" for t and k :: "'a ledger"
    using info_refines_reads [of "eh_approx eh" "lg_info k" "cs_info t"] that eh by (simp add: represents_def Let_def handlers_ok_def)
  from this [OF r] this [OF s'(2)] s'(1) show ?thesis by (simp add: ledger_info_def)
qed

section \<open>Examples\<close>

text \<open>
  A node 1 whose channels contract is 9; the logs of this contract are decoded from their first data byte. The node has
  a ticket in the channel that the first log opens, and the second log redeems the tickets below index 8 in it.
\<close>

definition example_id :: hash where
  "example_id = replicate 32 1"

definition example_decoders :: log_decoders where
  "example_decoders =
     \<lparr>ld_announcements = (\<lambda>_ _. None),
      ld_channels = (\<lambda>_ d. if d = [0] then Some (ChannelOpened (replicate 20 1) (replicate 20 1))
         else if d = [1] then Some (TicketRedeemed example_id 8) else None),
      ld_network_registry = (\<lambda>_ _. None), ld_token = (\<lambda>_ _. None), ld_safe_registry = (\<lambda>_ _. None), ld_module = (\<lambda>_ _. None),
      ld_price_oracle = (\<lambda>_ _. None), ld_win_prob_oracle = (\<lambda>_ _. None)\<rparr>"

definition example_handlers :: "(string, byte, byte, unit) handlers" where
  "example_handlers =
     \<lparr>eh_addresses = \<lparr>ca_token = [8], ca_channels = [9], ca_announcements = [10], ca_network_registry = [11], ca_safe_registry = [12],
        ca_price_oracle = [13], ca_win_prob_oracle = [14], ca_module_implementation = [15]\<rparr>,
      eh_safe_address = [7], eh_me = replicate 20 1, eh_crypto = example_crypto, eh_accounts = example_env,
      eh_approx = (\<lambda>a b. \<bar>a - b\<bar> \<le> 1 / 10 ^ 8), eh_decoders = example_decoders\<rparr>"

definition example_log :: "byte \<Rightarrow> serializable_log" where
  "example_log d = \<lparr>sl_address = [9], sl_topics = [], sl_data = [d], sl_block_number = 5, sl_tx_hash = replicate 32 d\<rparr>"

abbreviation example_logs :: "serializable_log list" where
  "example_logs \<equiv> [example_log 2, example_log 0, example_log 1]"

lemma example_handlers_fields:
  "eh_crypto example_handlers = example_crypto" "eh_me example_handlers = replicate 20 1" "eh_accounts example_handlers = example_env"
  by (simp_all add: example_handlers_def)

lemma example_handlers_ok: "handlers_ok example_handlers"
  by (auto simp: handlers_ok_def example_handlers_def approx_ok_def example_crypto_def hash_size_def)

lemma example_channel_id: "generate_channel_id (cr_keccak example_crypto) (replicate 20 1) (replicate 20 1) = example_id"
  by (simp add: generate_channel_id_def example_crypto_def example_id_def numeral_eq_Suc)

lemma example_tickets_ok: "tickets_ok (eh_crypto example_handlers) example_db [example_acked]"
proof -
  have i: "tm_id example_row = 0" by (simp add: example_row_def ticket_model_of_def example_acked_def ticket_sign_def Let_def)
  have "example_row\<lparr>tm_id := tm_id example_row\<rparr> = example_row" by (cases example_row) simp
  then have "example_row\<lparr>tm_id := 0\<rparr> = example_row" unfolding i .
  then have "row_of example_crypto example_row example_acked"
    unfolding row_of_def using example_acked_storable example_row by (simp only:)
  moreover have "marks_fit mk example_db" for mk
    unfolding marks_fit_def example_db_values by (simp add: example_db_def example_db_values)
  moreover note i
  ultimately show ?thesis
    by (auto simp: tickets_ok_def td_inv_def example_handlers_fields example_db_def td_new_def outgoing_ok_def example_acked_fields)
qed

lemma example_events:
  "log_event example_handlers (example_log 0) = Ok (ChannelsEvent (ChannelOpened (replicate 20 1) (replicate 20 1)))"
  "log_event example_handlers (example_log 1) = Ok (ChannelsEvent (TicketRedeemed example_id 8))"
  "log_event example_handlers (example_log 2) = Err SolTypeError"
  by (simp_all add: log_event_def example_handlers_def example_log_def example_decoders_def)

lemma example_logs_ok: "logs_ok example_handlers {} (\<lambda>_. - 1) example_logs"
  by (simp add: example_events event_ok_def format_ok_def event_block_def channels_event_ok_def address_size_def)

lemma example_formats_ok: "formats_ok example_handlers example_logs"
  by (simp add: formats_ok_def example_events format_ok_def channels_event_ok_def address_size_def)

lemma example_bindings_none: "bindings_ok ae {}"
  by (simp add: bindings_ok_def)

lemma example_ledger:
  "\<exists>l evs c. ledger_block example_handlers example_logs (ledger_start example_db [example_acked]) = Ok (l, evs) \<and> length evs = 2
     \<and> lg_channels l example_id = Some c \<and> ce_ticket_index c = 8 \<and> lg_tickets l = [] \<and> lg_settled l Neglected example_id = 100"
proof -
  have e: "in_epoch example_id 1 example_acked" "fst (ticket_key example_acked) = example_id"
    by (simp_all add: in_epoch_def example_acked_fields example_id_def)
  show ?thesis
    by (simp add: ledger_log_def example_events ledger_event_def ledger_channel_def ledger_channel_opened_def ledger_ticket_redeemed_def
        ledger_start_def ledger_set_def ledger_index_def ledger_mark_def ce_new_def example_handlers_fields example_channel_id e
        Let_def example_acked_fields example_db_values tickets_value_def example_id_def [symmetric])
qed

theorem node_follows_chain_witness:
  "\<exists>s evs c. collect_block_events example_handlers example_logs (chain_start example_db) = Ok (s, evs) \<and> length evs = 2
     \<and> get_channel_by_id (cr_keccak example_crypto) example_id (cs_channels s) = Ok (Some c) \<and> ce_ticket_index c = 8
     \<and> get_all_tickets example_crypto (cs_tickets s) = Ok [] \<and> stat_value Neglected example_id (cs_tickets s) = 100"
proof -
  obtain l evs c where l: "ledger_block example_handlers example_logs (ledger_start example_db [example_acked]) = Ok (l, evs)" "length evs = 2"
    "lg_channels l example_id = Some c" "ce_ticket_index c = 8" "lg_tickets l = []" "lg_settled l Neglected example_id = 100"
    using example_ledger by blast
  from node_follows_chain [OF example_handlers_ok example_bindings_none example_tickets_ok example_logs_ok,
      unfolded l(1) sum.case prod.case example_handlers_fields]
  obtain s where s: "collect_block_events example_handlers example_logs (chain_start example_db) = Ok (s, evs)"
    "get_channel_by_id (cr_keccak example_crypto) example_id (cs_channels s) = Ok (lg_channels l example_id)"
    "get_all_tickets example_crypto (cs_tickets s) = Ok (lg_tickets l)"
    "stat_value Neglected example_id (cs_tickets s) = lg_settled l Neglected example_id" by blast
  then show ?thesis using l by (intro exI [of _ s] exI [of _ evs] exI [of _ c]) simp
qed

theorem chain_conserves_tickets_witness:
  "\<exists>s evs. collect_block_events example_handlers example_logs (chain_start example_db) = Ok (s, evs)
     \<and> rows_value (filter (on_channel example_id) (td_tickets (cs_tickets s))) + stat_value Redeemed example_id (cs_tickets s)
       + stat_value Rejected example_id (cs_tickets s) + stat_value Neglected example_id (cs_tickets s) = 100"
proof -
  obtain l evs where "ledger_block example_handlers example_logs (ledger_start example_db [example_acked]) = Ok (l, evs)"
    using example_ledger by blast
  then obtain s evs' where s: "collect_block_events example_handlers example_logs (chain_start example_db) = Ok (s, evs')"
    using collect_block_refines [OF example_handlers_ok example_bindings_none represents_start [OF example_tickets_ok] example_logs_ok] by auto
  have "on_channel example_id example_row" using example_db_values(3) by (simp add: example_id_def)
  with chain_conserves_tickets [OF example_handlers_ok example_tickets_ok example_formats_ok s, of example_id] s
  show ?thesis by (simp add: example_db_values) (simp add: example_db_def example_db_values)
qed

end
