(* ===== verification/Ticket_Aggregation.thy ===== *)
theory Ticket_Aggregation
  imports Chain_Ledger "HOL-Library.Multiset"
begin

text \<open>
  The aggregation of tickets (\<open>db/sql/src/tickets.rs\<close>, \<open>db/sql/src/resolver.rs\<close>): the receiver of the tickets of a channel
  marks a run of them and sends them to the issuer, the issuer checks them and signs one ticket over their range, and the
  receiver replaces them by it. The database is that of \<open>Chain_Events\<close>; the randomness of the VRF parameters made for a
  ticket is given per row.
\<close>

section \<open>Stable sorting and consecutive duplicates\<close>

fun insert_by :: "('a \<Rightarrow> 'a \<Rightarrow> ordering) \<Rightarrow> 'a \<Rightarrow> 'a list \<Rightarrow> 'a list" where
  "insert_by cmp x [] = [x]"
| "insert_by cmp x (y # ys) = (if cmp x y = Greater then y # insert_by cmp x ys else x # y # ys)"

definition sort_by :: "('a \<Rightarrow> 'a \<Rightarrow> ordering) \<Rightarrow> 'a list \<Rightarrow> 'a list" where
  "sort_by cmp xs = foldr (insert_by cmp) xs []"

fun dedup_by :: "('a \<Rightarrow> 'a \<Rightarrow> bool) \<Rightarrow> 'a list \<Rightarrow> 'a list" where
  "dedup_by eq (x # y # ys) = (if eq y x then dedup_by eq (x # ys) else x # dedup_by eq (y # ys))"
| "dedup_by eq xs = xs"

section \<open>The node and its database\<close>

record ('ma, 'sk, 'vrf, 'rnd) node_db =
  nd_chain_key :: 'sk
  nd_crypto :: "('sk, 'vrf, 'rnd) crypto"
  nd_accounts :: "'ma account_env"
  nd_approx :: "rat \<Rightarrow> rat \<Rightarrow> bool"

definition nd_me_onchain :: "('ma, 'sk, 'vrf, 'rnd) node_db \<Rightarrow> address" where
  "nd_me_onchain nd = cr_address (nd_crypto nd) (nd_chain_key nd)"

definition act_lift :: "('e, 'a) result \<Rightarrow> ('s, 'e, 'a) state_action" where
  "act_lift r = (\<lambda>s. (s, r))"

definition db_query :: "(chain_state \<Rightarrow> ('e, 'a) result) \<Rightarrow> ('e, 'a) action" where
  "db_query q = (\<lambda>s. (s, q s))"

definition ticket_tx :: "(ticket_db \<Rightarrow> ('e, ticket_db \<times> 'a) result) \<Rightarrow> ('e, 'a) action" where
  "ticket_tx f = (\<lambda>s. case f (cs_tickets s) of Inl e \<Rightarrow> (s, Inl e) | Inr (td, x) \<Rightarrow> (s\<lparr>cs_tickets := td\<rparr>, Ok x))"

text \<open>The translation of keys and the indexer data are read through caches.\<close>

definition translated_key :: "('ma, 'sk, 'vrf, 'rnd) node_db \<Rightarrow> chain_or_packet_key \<Rightarrow> (db_error, chain_or_packet_key option) action" where
  "translated_key nd key = (\<lambda>s.
     case translate_key (nd_accounts nd) key (cs_accounts s) of
       Inl e \<Rightarrow> (s, Inl e) | Inr (ad, k) \<Rightarrow> (s\<lparr>cs_accounts := ad\<rparr>, Ok k))"

definition indexer_data_of :: "('ma, 'sk, 'vrf, 'rnd) node_db \<Rightarrow> (db_error, indexer_data) action" where
  "indexer_data_of nd = (\<lambda>s.
     case get_indexer_data (nd_approx nd) (cs_info s) of
       Inl e \<Rightarrow> (s, Inl e) | Inr (nf, d) \<Rightarrow> (s\<lparr>cs_info := nf\<rparr>, Ok d))"

definition resolve_packet_key :: "('ma, 'sk, 'vrf, 'rnd) node_db \<Rightarrow> address \<Rightarrow> (db_error, offchain_key option) action" where
  "resolve_packet_key nd onchain_key =
     act_bind (translated_key nd (ChainKey onchain_key)) (\<lambda>k.
       case k of
         None \<Rightarrow> act_return None
       | Some k \<Rightarrow> act_lift (map_res Some (map_fail (\<lambda>_. LogicalError ''failed to transpose the translated key'') (packet_key_try_from k))))"

definition resolve_chain_key :: "('ma, 'sk, 'vrf, 'rnd) node_db \<Rightarrow> offchain_key \<Rightarrow> (db_error, address option) action" where
  "resolve_chain_key nd offchain_key =
     act_bind (translated_key nd (PacketKey offchain_key)) (\<lambda>k.
       case k of
         None \<Rightarrow> act_return None
       | Some k \<Rightarrow> act_lift (map_res Some (map_fail (\<lambda>_. LogicalError ''failed to transpose the translated key'') (chain_key_try_from k))))"

definition incoming_channel :: "('ma, 'sk, 'vrf, 'rnd) node_db \<Rightarrow> hash \<Rightarrow> (db_error, channel_entry) action" where
  "incoming_channel nd channel_id =
     act_bind (db_query (\<lambda>s. get_channel_by_id (cr_keccak (nd_crypto nd)) channel_id (cs_channels s))) (\<lambda>c.
       case c of
         None \<Rightarrow> act_fail (DbChannelNotFound channel_id)
       | Some entry \<Rightarrow>
           if status_eq (ce_status entry) Closed then act_fail (LogicalError ''channel is closed'')
           else if ce_direction entry (nd_me_onchain nd) \<noteq> Some Incoming then act_fail (LogicalError ''channel is not incoming'')
           else act_return entry)"

definition channels_domain_separator :: "indexer_data \<Rightarrow> (db_error, hash) action" where
  "channels_domain_separator d = act_lift (ok_or (LogicalError ''domain separator missing'') (id_channels_dst d))"

section \<open>Preparing tickets\<close>

definition max_tickets_to_aggregate_batch :: nat where
  "max_tickets_to_aggregate_batch = 500"

text \<open>The addition of 1 wraps in a release build.\<close>

definition first_idx_to_take :: "channel_entry \<Rightarrow> ticket_db \<Rightarrow> (db_error, u64) result" where
  "first_idx_to_take entry db =
     (let being_redeemed = sort_by (\<lambda>a b. blob_cmp (tm_index b) (tm_index a))
            (filter (into_condition (with_state BeingRedeemed (sel_of_channel entry))) (td_tickets db)) in
      and_then
        (case being_redeemed of
           m # _ \<Rightarrow> map_res (\<lambda>i. i + 1) (and_then (u256_from_be_bytes (tm_index m)) u256_as_u64)
         | [] \<Rightarrow> Ok 0) (\<lambda>idx.
      map_res (max idx) (u256_as_u64 (ce_ticket_index entry))))"

definition tickets_to_aggregate :: "channel_entry \<Rightarrow> u64 \<Rightarrow> ticket_db \<Rightarrow> ticket_model list" where
  "tickets_to_aggregate entry first_idx db =
     take max_tickets_to_aggregate_batch
       (sort_by (\<lambda>a b. blob_cmp (tm_index a) (tm_index b))
         (filter (\<lambda>m. into_condition (sel_of_channel entry) m \<and> blob_cmp (tm_index m) (u64_to_be first_idx) \<noteq> Less
            \<and> tm_state m \<noteq> status_code BeingAggregated) (td_tickets db)))"

definition transferable_of_model ::
  "('ma, 'sk, 'vrf, 'rnd) node_db \<Rightarrow> (ticket_model \<Rightarrow> 'rnd) \<Rightarrow> hash \<Rightarrow> ticket_model \<Rightarrow> (db_error, 'vrf transferable_ticket) result" where
  "transferable_of_model nd rnd domain_separator model =
     and_then (map_fail EntityError (ticket_of_model (nd_crypto nd) model)) (\<lambda>ack.
       map_fail DbCoreTypesError (at_into_transferable (nd_crypto nd) (rnd model) ack (nd_chain_key nd) domain_separator))"

text \<open>The loop that drops tickets whose index lies in the range of the first one.\<close>

fun drop_covered :: "u64 \<Rightarrow> u64 \<Rightarrow> 'vrf transferable_ticket list \<Rightarrow> 'vrf transferable_ticket list \<times> u64 list" where
  "drop_covered lo hi [] = ([], [])"
| "drop_covered lo hi (t # ts) =
     (let current_idx = tk_index (tr_ticket t); (kept, neglected_idxs) = drop_covered lo hi ts in
      if lo \<le> current_idx \<and> current_idx < hi then (kept, current_idx # neglected_idxs) else (t # kept, neglected_idxs))"

definition mark_being_aggregated ::
  "channel_entry \<Rightarrow> 'vrf transferable_ticket list \<Rightarrow> ticket_db \<Rightarrow> (db_error, ticket_db) result" where
  "mark_being_aggregated entry to_be_aggregated db =
     (let idxs = map (\<lambda>t. u64_to_be (tk_index (tr_ticket t))) to_be_aggregated;
          marked = (\<lambda>m. into_condition (sel_of_channel entry) m \<and> tm_index m \<in> set idxs \<and> tm_state m \<noteq> status_code BeingAggregated) in
      if length (filter marked (td_tickets db)) \<noteq> length to_be_aggregated then Err (LogicalError ''expected to mark'')
      else Ok (db\<lparr>td_tickets := map (\<lambda>m. if marked m then m\<lparr>tm_state := status_code BeingAggregated\<rparr> else m) (td_tickets db)\<rparr>))"

definition take_for_aggregation ::
  "('ma, 'sk, 'vrf, 'rnd) node_db \<Rightarrow> (ticket_model \<Rightarrow> 'rnd) \<Rightarrow> aggregation_prerequisites \<Rightarrow> channel_entry \<Rightarrow> hash \<Rightarrow> win_prob
     \<Rightarrow> ticket_db \<Rightarrow> (db_error, ticket_db \<times> 'vrf transferable_ticket list) result" where
  "take_for_aggregation nd rnd prerequisites entry domain_separator min_win_prob db =
     (if \<exists>m \<in> set (td_tickets db). into_condition (with_state BeingAggregated (sel_of_channel entry)) m
      then Err (LogicalError ''channel is already being aggregated'')
      else
        and_then (first_idx_to_take entry db) (\<lambda>first_idx.
        and_then (filter_satisfying_ticket_models (nd_approx nd) prerequisites (tickets_to_aggregate entry first_idx db) entry min_win_prob)
          (\<lambda>models.
        and_then (collect_res (map (transferable_of_model nd rnd domain_separator) models)) (\<lambda>to_be_aggregated.
          case to_be_aggregated of
            [] \<Rightarrow> Ok (db, [])
          | t # ts \<Rightarrow>
              let first_ticket = tr_ticket t;
                  to_be_aggregated = t # fst (drop_covered (tk_index first_ticket)
                    (tk_index first_ticket + ucast (tk_index_offset first_ticket)) ts) in
              map_res (\<lambda>db. (db, to_be_aggregated)) (mark_being_aggregated entry to_be_aggregated db)))))"

definition prepare_aggregation_in_channel ::
  "('ma, 'sk, 'vrf, 'rnd) node_db \<Rightarrow> (ticket_model \<Rightarrow> 'rnd) \<Rightarrow> hash \<Rightarrow> aggregation_prerequisites
     \<Rightarrow> (db_error, (offchain_key \<times> 'vrf transferable_ticket list \<times> hash) option) action" where
  "prepare_aggregation_in_channel nd rnd channel prerequisites =
     act_bind (incoming_channel nd channel) (\<lambda>entry.
     act_bind (resolve_packet_key nd (ce_source entry)) (\<lambda>pk.
     act_bind (act_lift (ok_or (LogicalError ''peer has no offchain key record'') pk)) (\<lambda>peer.
     act_bind (indexer_data_of nd) (\<lambda>d.
     act_bind (channels_domain_separator d) (\<lambda>domain_separator.
     act_bind (ticket_tx (take_for_aggregation nd rnd prerequisites entry domain_separator (id_min_win_prob d))) (\<lambda>tickets.
       act_return (if tickets = [] then None else Some (peer, tickets, domain_separator))))))))"

definition rollback_aggregation_in_channel :: "('ma, 'sk, 'vrf, 'rnd) node_db \<Rightarrow> hash \<Rightarrow> (db_error, unit) action" where
  "rollback_aggregation_in_channel nd channel =
     act_bind (db_query (\<lambda>s. get_channel_by_id (cr_keccak (nd_crypto nd)) channel (cs_channels s))) (\<lambda>c.
       case c of
         None \<Rightarrow> act_fail (DbChannelNotFound channel)
       | Some entry \<Rightarrow>
           ticket_tx (\<lambda>td. Ok (fst (update_ticket_states (with_state BeingAggregated (sel_of_channel entry)) Untouched td), ())))"

section \<open>Aggregating tickets\<close>

definition tr_eq :: "'vrf transferable_ticket \<Rightarrow> 'vrf transferable_ticket \<Rightarrow> bool" where
  "tr_eq a b \<longleftrightarrow> tr_ticket a = tr_ticket b \<and> tr_signer a = tr_signer b \<and> tr_response a = tr_response b"

definition tr_cmp :: "'vrf transferable_ticket \<Rightarrow> 'vrf transferable_ticket \<Rightarrow> ordering" where
  "tr_cmp a b = ticket_cmp (tr_ticket a) (tr_ticket b)"

text \<open>The checks on the tickets in their order, with the value collected so far.\<close>

fun check_aggregated ::
  "(rat \<Rightarrow> rat \<Rightarrow> bool) \<Rightarrow> hash \<Rightarrow> u32 \<Rightarrow> hopr_balance \<Rightarrow> win_prob \<Rightarrow> 'vrf redeemable_ticket list \<Rightarrow> hopr_balance
     \<Rightarrow> (db_error, hopr_balance) result" where
  "check_aggregated approx channel_id channel_epoch channel_balance min_win_prob [] final_value = Ok final_value"
| "check_aggregated approx channel_id channel_epoch channel_balance min_win_prob (r # rs) final_value =
     (let t = vt_ticket (rd_ticket r) in
      if channel_id \<noteq> tk_channel_id t then Err (LogicalError ''ticket for aggregation has an invalid channel id'')
      else if tk_channel_epoch t \<noteq> channel_epoch then Err (LogicalError ''channel epochs do not match'')
      else if (case rs of n # _ \<Rightarrow> tk_index t + ucast (tk_index_offset t) > tk_index (vt_ticket (rd_ticket n)) | [] \<Rightarrow> False)
      then Err (LogicalError ''tickets with overlapping index intervals'')
      else if wp_approx_cmp approx (tk_encoded_win_prob t) min_win_prob = Less
      then Err (LogicalError ''cannot aggregate ticket with lower than minimum winning probability in network'')
      else
        let final_value = bal_add final_value (tk_amount t) in
        if final_value > channel_balance then Err (LogicalError ''ticket amount to aggregate is greater than the balance'')
        else check_aggregated approx channel_id channel_epoch channel_balance min_win_prob rs final_value)"

definition outgoing_channel_to :: "('ma, 'sk, 'vrf, 'rnd) node_db \<Rightarrow> address \<Rightarrow> (db_error, channel_entry) action" where
  "outgoing_channel_to nd address =
     act_bind (\<lambda>s. case get_channel_by_parties (cr_keccak (nd_crypto nd)) (nd_me_onchain nd) address False (cs_channels s) of
                     Inl e \<Rightarrow> (s, Inl e) | Inr (tbl, c) \<Rightarrow> (s\<lparr>cs_channels := tbl\<rparr>, Ok c)) (\<lambda>c.
       case c of
         None \<Rightarrow> act_fail (DbChannelNotFound (generate_channel_id (cr_keccak (nd_crypto nd)) (nd_me_onchain nd) address))
       | Some entry \<Rightarrow>
           if status_eq (ce_status entry) Closed then act_fail (LogicalError ''channel is closed'')
           else if ce_direction entry (nd_me_onchain nd) \<noteq> Some Outgoing then act_fail (LogicalError ''channel is not outgoing'')
           else act_return entry)"

text \<open>The ticket over the range of the given verified tickets.\<close>

definition aggregated_ticket ::
  "('ma, 'sk, 'vrf, 'rnd) node_db \<Rightarrow> address \<Rightarrow> u32 \<Rightarrow> hopr_balance \<Rightarrow> ticket \<Rightarrow> ticket \<Rightarrow> 'sk \<Rightarrow> hash
     \<Rightarrow> (db_error, verified_ticket) result" where
  "aggregated_ticket nd destination channel_epoch final_value first_ticket last_ticket me domain_separator =
     map_fail DbCoreTypesError
       (tb_build_signed (nd_crypto nd)
         (tb_set_challenge (tk_challenge first_ticket) (tb_set_channel_epoch channel_epoch (tb_set_win_prob wp_always
           (tb_set_index_offset (ucast (tk_index last_ticket - tk_index first_ticket + 1)) (tb_set_index (tk_index first_ticket)
           (tb_set_balance final_value (tb_set_direction (nd_crypto nd) (nd_me_onchain nd) destination tb_default)))))))
         me domain_separator)"

definition aggregate_many ::
  "('ma, 'sk, 'vrf, 'rnd) node_db \<Rightarrow> offchain_key \<Rightarrow> 'vrf transferable_ticket list \<Rightarrow> 'sk \<Rightarrow> hash
     \<Rightarrow> (db_error, verified_ticket) action" where
  "aggregate_many nd destination acked_tickets me domain_separator =
     (let acked_tickets = dedup_by tr_eq (sort_by tr_cmp acked_tickets) in
      act_bind (resolve_chain_key nd destination) (\<lambda>a.
      act_bind (act_lift (ok_or (LogicalError ''peer has no chain key record'') a)) (\<lambda>address.
      act_bind (outgoing_channel_to nd address) (\<lambda>channel_entry.
      act_bind (indexer_data_of nd) (\<lambda>d.
      act_bind (act_lift (u256_as_u32 (ce_channel_epoch channel_entry))) (\<lambda>channel_epoch.
      act_bind (act_lift (map_fail (\<lambda>_. LogicalError ''trying to aggregate an invalid or a non-winning ticket'')
          (collect_res (map (\<lambda>t. tr_into_redeemable (nd_crypto nd) t (nd_me_onchain nd) domain_separator) acked_tickets))))
        (\<lambda>verified_tickets.
      act_bind (act_lift (check_aggregated (nd_approx nd) (ce_get_id channel_entry) channel_epoch (ce_balance channel_entry)
          (id_min_win_prob d) verified_tickets 0)) (\<lambda>final_value.
      let first_ticket = vt_ticket (rd_ticket (hd verified_tickets)); last_ticket = vt_ticket (rd_ticket (List.last verified_tickets)) in
      act_bind (ticket_tx (compare_and_set_outgoing_ticket_index (ce_get_id channel_entry) (tk_index last_ticket + 1))) (\<lambda>_.
      act_lift (aggregated_ticket nd address channel_epoch final_value first_ticket last_ticket me domain_separator))))))))))"

definition aggregate_tickets ::
  "('ma, 'sk, 'vrf, 'rnd) node_db \<Rightarrow> offchain_key \<Rightarrow> 'vrf transferable_ticket list \<Rightarrow> 'sk \<Rightarrow> (db_error, verified_ticket) action" where
  "aggregate_tickets nd destination acked_tickets me =
     (if cr_address (nd_crypto nd) me \<noteq> nd_me_onchain nd
      then act_fail (LogicalError ''chain key for ticket aggregation does not match the DB public address'')
      else
        act_bind (indexer_data_of nd) (\<lambda>d.
        act_bind (channels_domain_separator d) (\<lambda>domain_separator.
          case acked_tickets of
            [] \<Rightarrow> act_fail (LogicalError ''at least one ticket required for aggregation'')
          | [t] \<Rightarrow>
              act_bind (act_lift (map_fail DbCoreTypesError (tr_into_redeemable (nd_crypto nd) t (nd_me_onchain nd) domain_separator))) (\<lambda>single.
              act_bind (ticket_tx (compare_and_set_outgoing_ticket_index (tk_channel_id (vt_ticket (rd_ticket single)))
                  (tk_index (vt_ticket (rd_ticket single)) + 1))) (\<lambda>_.
              act_return (rd_ticket single)))
          | _ \<Rightarrow> aggregate_many nd destination acked_tickets me domain_separator)))"

section \<open>Receiving the aggregated ticket\<close>

definition process_received_aggregated_ticket ::
  "('ma, 'sk, 'vrf, 'rnd) node_db \<Rightarrow> ticket \<Rightarrow> 'sk \<Rightarrow> (db_error, acknowledged_ticket) action" where
  "process_received_aggregated_ticket nd received chain_keypair =
     (if cr_address (nd_crypto nd) chain_keypair \<noteq> nd_me_onchain nd
      then act_fail (LogicalError ''chain key for ticket aggregation does not match the DB public address'')
      else
        act_bind (incoming_channel nd (tk_channel_id received)) (\<lambda>entry.
        act_bind (indexer_data_of nd) (\<lambda>d.
        act_bind (channels_domain_separator d) (\<lambda>domain_separator.
        act_bind (act_lift (map_fail (\<lambda>_. LogicalError ''failed to verify received aggregated ticket'')
            (ticket_verify (nd_crypto nd) received (ce_source entry) domain_separator))) (\<lambda>aggregated.
        if \<not> wp_approx_eq (nd_approx nd) (tk_encoded_win_prob (vt_ticket aggregated)) wp_always
        then act_fail (LogicalError ''Aggregated tickets must have 100% win probability'')
        else
          act_bind (db_query (\<lambda>s. Ok (filter (into_condition (with_state BeingAggregated (sel_of_channel entry))) (td_tickets (cs_tickets s)))))
            (\<lambda>models.
          if models = [] then act_fail (LogicalError ''failed insert aggregated ticket, because no tickets seem to be aggregated'')
          else
            let stored_value = foldl (\<lambda>v m. bal_add v (bal_from_be (tm_amount m))) 0 models in
            if tk_amount (vt_ticket aggregated) < stored_value
            then act_fail (LogicalError ''Value of received aggregated ticket is too low'')
            else
              act_bind (act_lift (map_fail EntityError (collect_res (map (ticket_of_model (nd_crypto nd)) models)))) (\<lambda>acknowledged_tickets.
              let acked_aggregated_ticket = vt_into_acknowledged aggregated (at_response (hd acknowledged_tickets)) in
              act_bind (ticket_tx (\<lambda>td. map_res (\<lambda>td. (td, ())) (replace_tickets acked_aggregated_ticket td))) (\<lambda>_.
              act_return acked_aggregated_ticket))))))))"

section \<open>Out-of-sync tickets and statistics\<close>

text \<open>The tickets that are being redeemed at the next index of an incoming channel become redeemable again.\<close>

fun fix_next_tickets ::
  "('ma, 'sk, 'vrf, 'rnd) node_db \<Rightarrow> channel_entry list \<Rightarrow> (db_error, unit) action" where
  "fix_next_tickets nd [] = act_return ()"
| "fix_next_tickets nd (channel # channels) =
     act_bind (act_lift (u256_as_u64 (ce_ticket_index channel))) (\<lambda>next_index.
     act_bind (ticket_tx (update_ticket_states_and_fetch (nd_crypto nd)
         (with_index next_index (with_state BeingRedeemed (sel_of_channel channel))) Untouched)) (\<lambda>_.
     fix_next_tickets nd channels))"

definition fix_channels_next_ticket_state :: "('ma, 'sk, 'vrf, 'rnd) node_db \<Rightarrow> (db_error, unit) action" where
  "fix_channels_next_ticket_state nd =
     act_bind (db_query (\<lambda>s. get_incoming_channels (cr_keccak (nd_crypto nd)) (nd_me_onchain nd) (cs_channels s))) (fix_next_tickets nd)"

record channel_ticket_statistics =
  cts_winning_tickets :: "128 word"
  cts_neglected_value :: hopr_balance
  cts_redeemed_value :: hopr_balance
  cts_unredeemed_value :: hopr_balance
  cts_rejected_value :: hopr_balance

fun add_amounts :: "u256 \<Rightarrow> ticket_model list \<Rightarrow> ('e, u256) result" where
  "add_amounts amount [] = Ok amount"
| "add_amounts amount (m # ms) = and_then (u256_from_be_bytes (tm_amount m)) (\<lambda>v. and_then (u256_add amount v) (\<lambda>a. add_amounts a ms))"

definition add_statistics :: "channel_ticket_statistics \<Rightarrow> ticket_stats \<Rightarrow> channel_ticket_statistics" where
  "add_statistics acc stats =
     \<lparr>cts_winning_tickets = cts_winning_tickets acc + word_of_int (st_winning_tickets stats),
      cts_neglected_value = bal_add (cts_neglected_value acc) (bal_from_be (st_neglected_value stats)),
      cts_redeemed_value = bal_add (cts_redeemed_value acc) (bal_from_be (st_redeemed_value stats)),
      cts_unredeemed_value = cts_unredeemed_value acc,
      cts_rejected_value = bal_add (cts_rejected_value acc) (bal_from_be (st_rejected_value stats))\<rparr>"

definition get_ticket_statistics ::
  "('ma, 'sk, 'vrf, 'rnd) node_db \<Rightarrow> hash option \<Rightarrow> (db_error, channel_ticket_statistics) action" where
  "get_ticket_statistics nd channel_id =
     (case channel_id of
        None \<Rightarrow>
          db_query (\<lambda>s.
            map_res (\<lambda>unredeemed.
                (foldl add_statistics \<lparr>cts_winning_tickets = 0, cts_neglected_value = 0, cts_redeemed_value = 0,
                     cts_unredeemed_value = 0, cts_rejected_value = 0\<rparr> (td_stats (cs_tickets s)))\<lparr>cts_unredeemed_value := unredeemed\<rparr>)
              (add_amounts 0 (td_tickets (cs_tickets s))))
      | Some channel \<Rightarrow>
          act_bind (db_query (\<lambda>s. get_channel_by_id (cr_keccak (nd_crypto nd)) channel (cs_channels s))) (\<lambda>c.
            if c = None then act_fail (DbChannelNotFound channel)
            else
              ticket_tx (\<lambda>td.
                let (stats, td') = find_stats_for_channel channel td in
                map_res (\<lambda>unredeemed.
                    (td', \<lparr>cts_winning_tickets = word_of_int (st_winning_tickets stats),
                           cts_neglected_value = bal_from_be (st_neglected_value stats),
                           cts_redeemed_value = bal_from_be (st_redeemed_value stats),
                           cts_unredeemed_value = unredeemed,
                           cts_rejected_value = bal_from_be (st_rejected_value stats)\<rparr>))
                  (add_amounts 0 (filter (on_channel channel) (td_tickets td))))))"

section \<open>Sorting\<close>

lemma mset_insert_by [simp]: "mset (insert_by cmp x ys) = add_mset x (mset ys)"
  by (induction ys) auto

lemma sort_by_Cons: "sort_by cmp [] = []" "sort_by cmp (x # xs) = insert_by cmp x (sort_by cmp xs)"
  by (simp_all add: sort_by_def)

lemma mset_sort_by [simp]: "mset (sort_by cmp xs) = mset xs"
  by (induction xs) (simp_all add: sort_by_Cons)

lemma set_sort_by [simp]: "set (sort_by cmp xs) = set xs"
  by (rule mset_eq_setD) simp

lemma distinct_sort_by [simp]: "distinct (sort_by cmp xs) = distinct xs"
  by (rule mset_eq_imp_distinct_iff) simp

text \<open>A comparison that agrees with a numeric key sorts by that key.\<close>

lemma sorted_insert_by:
  fixes f :: "'a \<Rightarrow> 'b::linorder"
  assumes "\<And>y. y \<in> set ys \<Longrightarrow> cmp x y = ord_cmp (f x) (f y)" and "sorted (map f ys)"
  shows "sorted (map f (insert_by cmp x ys))"
  using assms
proof (induction ys)
  case (Cons y ys)
  have s: "set (insert_by cmp x ys) = insert x (set ys)" by (metis mset_insert_by set_mset_add_mset_insert set_mset_mset)
  show ?case using Cons s by (auto simp: ord_cmp_def split: if_splits)
qed simp

lemma sorted_sort_by:
  fixes f :: "'a \<Rightarrow> 'b::linorder"
  assumes "\<And>x y. x \<in> set xs \<Longrightarrow> y \<in> set xs \<Longrightarrow> cmp x y = ord_cmp (f x) (f y)"
  shows "sorted (map f (sort_by cmp xs))"
  using assms
  by (induction xs) (auto simp: sort_by_Cons intro!: sorted_insert_by)

lemma sort_by_sorted: "sorted_wrt (\<lambda>x y. cmp x y \<noteq> Greater) xs \<Longrightarrow> sort_by cmp xs = xs"
proof (induction xs)
  case (Cons x xs)
  then show ?case by (cases xs) (simp_all add: sort_by_Cons)
qed (simp add: sort_by_Cons)

lemma dedup_by_id: "sorted_wrt (\<lambda>x y. \<not> eq y x) xs \<Longrightarrow> dedup_by eq xs = xs"
  by (induction eq xs rule: dedup_by.induct) auto

lemma dedup_by_set: "set (dedup_by eq xs) \<subseteq> set xs"
  by (induction eq xs rule: dedup_by.induct) auto

lemma dedup_by_Nil [simp]: "dedup_by eq xs = [] \<longleftrightarrow> xs = []"
  by (induction eq xs rule: dedup_by.induct) auto

section \<open>What is prepared\<close>

lemma drop_covered_filter:
  "fst (drop_covered lo hi ts) = filter (\<lambda>t. \<not> (lo \<le> tk_index (tr_ticket t) \<and> tk_index (tr_ticket t) < hi)) ts"
  by (induction ts) (auto split: prod.splits)

abbreviation row_ticket :: "ticket_model \<Rightarrow> ticket \<Rightarrow> bool" where
  "row_ticket m t \<equiv> tm_index m = u64_to_be (tk_index t) \<and> row_value m = unat (tk_amount t)"

abbreviation row_index :: "ticket_model \<Rightarrow> nat" where
  "row_index m \<equiv> be_decode (tm_index m)"

lemma be_decode_u64 [simp]: "be_decode (u64_to_be i) = unat i"
  using unat_bound [of i] by (simp add: u64_to_be_def be_decode_encode)

lemma u64_to_be_inj [simp]: "u64_to_be i = u64_to_be j \<longleftrightarrow> i = j"
  by (metis be_decode_u64 word_unat_eq_iff)

lemma row_of_columns:
  assumes "row_of cr m a"
  shows "tm_index m = u64_to_be (tk_index (vt_ticket (at_ticket a)))"
    and "row_value m = unat (tk_amount (vt_ticket (at_ticket a)))"
    and "tm_channel_id m = to_hex (tk_channel_id (vt_ticket (at_ticket a)))"
    and "tm_channel_epoch m = u256_to_be (ucast (tk_channel_epoch (vt_ticket (at_ticket a))))"
    and "tm_state m = status_code (at_status a)"
    and "tm_winning_probability m = tk_encoded_win_prob (vt_ticket (at_ticket a))"
  using assms
  by (cases m; auto simp: row_of_def ticket_model_of_def Let_def row_value_def bal_from_be_def split: option.splits)+

lemma rows_value_mset: "mset xs = mset ys \<Longrightarrow> rows_value xs = rows_value ys"
  unfolding rows_value_def by (metis mset_map sum_mset_sum_list)

lemma rows_value_take: "rows_value (take n ms) \<le> rows_value ms"
  using rows_value_simps(3) [of "take n ms" "drop n ms"] by simp

lemma rows_value_filter_le: "rows_value (filter P ms) \<le> rows_value ms"
  using rows_value_filter [of P ms] by simp

lemma into_condition_channel_key:
  "into_condition (sel_of_channel c) m \<longleftrightarrow> tm_channel_id m = to_hex (ce_get_id c) \<and> tm_channel_epoch m = u256_to_be (ce_channel_epoch c)"
  by (auto simp: into_condition_def sel_of_channel_def index_condition_def)

lemma into_condition_channel_state:
  "into_condition (with_state st (sel_of_channel c)) m \<longleftrightarrow> into_condition (sel_of_channel c) m \<and> tm_state m = status_code st"
  by (auto simp: into_condition_def sel_of_channel_def index_condition_def with_state_def)

lemma td_inv_key_inj:
  assumes "td_inv cr db" and "m \<in> set (td_tickets db)" and "n \<in> set (td_tickets db)" and "tm_key m = tm_key n"
  shows "m = n"
  using assms by (auto simp: td_inv_def distinct_map dest: inj_onD)

lemma transferable_of_row:
  assumes "row_of (nd_crypto nd) m a" and "transferable_of_model nd rnd ds m = Ok t"
  shows "tr_ticket t = vt_ticket (at_ticket a)" and "tr_signer t = vt_issuer (at_ticket a)" and "tr_response t = at_response a"
  using assms(2) row_of_read(1) [OF assms(1)]
  by (auto simp: transferable_of_model_def at_into_transferable_def and_then_Inr_iff map_fail_Inr_iff map_res_Inr_iff
      tr_from_redeemable_def vt_leak_def dest!: at_into_redeemable_Ok)

lemma filter_satisfying_sub:
  assumes "\<forall>m \<in> set ms. length (tm_winning_probability m) = encoded_win_prob_length"
    and "rows_value ms < 2 ^ 256" and "filter_satisfying_ticket_models approx pre ms c w = Ok xs"
  shows "\<exists>rest. filter (wins_enough approx w) ms = xs @ rest" and "rows_value xs \<le> unat (ce_balance c)"
proof -
  obtain taken rest where t: "filter (wins_enough approx w) ms = taken @ rest"
    "take_satisfying approx (ce_balance c) w ms 0 = Ok (taken, of_nat (rows_value taken))"
    "rows_value taken \<le> unat (ce_balance c)"
    using take_satisfying_prefix [OF assms(1), of 0 approx w "ce_balance c"] assms(2) by auto
  have "xs = taken \<or> xs = []"
    using assms(3) t(2) by (auto simp: filter_satisfying_ticket_models_def Let_def and_then_Inr_iff split: if_splits option.splits)
  then show "\<exists>rest. filter (wins_enough approx w) ms = xs @ rest" "rows_value xs \<le> unat (ce_balance c)"
    using t(1,3) by auto
qed

lemma collect_res_list_all2: "collect_res (map f xs) = Ok ys \<Longrightarrow> list_all2 (\<lambda>x y. f x = Ok y) xs ys"
proof (induction xs arbitrary: ys)
  case (Cons x xs)
  then show ?case by (auto simp: and_then_Inr_iff map_res_Inr_iff)
qed simp

lemma sorted_candidates:
  assumes inv: "td_inv cr db"
  shows "sorted_wrt (<) (map row_index (tickets_to_aggregate c i db))"
proof -
  let ?P = "\<lambda>m. into_condition (sel_of_channel c) m \<and> blob_cmp (tm_index m) (u64_to_be i) \<noteq> Less \<and> tm_state m \<noteq> status_code BeingAggregated"
  let ?ms = "filter ?P (td_tickets db)"
  let ?s = "sort_by (\<lambda>a b. blob_cmp (tm_index a) (tm_index b)) ?ms"
  have ex: "\<exists>a. row_of cr m a" if "m \<in> set ?ms" for m using inv that by (auto simp: td_inv_def)
  have "blob_cmp (tm_index m) (tm_index n) = ord_cmp (row_index m) (row_index n)" if mn: "m \<in> set ?ms" "n \<in> set ?ms" for m n
  proof (rule blob_cmp_be_decode)
    obtain a b where "row_of cr m a" "row_of cr n b" using ex mn by blast
    then show "length (tm_index m) = length (tm_index n)" by (simp add: row_of_columns)
  qed
  then have srt: "sorted (map row_index ?s)" by (rule sorted_sort_by)
  have "inj_on row_index (set ?s)"
  proof (rule inj_onI)
    fix m n assume mn: "m \<in> set ?s" "n \<in> set ?s" "row_index m = row_index n"
    obtain a b where "row_of cr m a" "row_of cr n b" using ex [of m] ex [of n] mn(1,2) unfolding set_sort_by by blast
    then have "tm_index m = tm_index n" using mn(3) by (simp add: row_of_columns word_unat_eq_iff)
    with mn have "tm_key m = tm_key n" by (simp add: tm_key_def into_condition_channel_key)
    with mn inv show "m = n" by (auto intro: td_inv_key_inj)
  qed
  moreover have "distinct ?s" using inv by (simp add: td_inv_def distinct_map)
  ultimately have "distinct (map row_index ?s)" by (simp add: distinct_map)
  with srt have "sorted_wrt (<) (map row_index ?s)" by (simp add: strict_sorted_iff)
  then show ?thesis unfolding tickets_to_aggregate_def by (simp only: take_map [symmetric] sorted_wrt_take)
qed

text \<open>What is prepared: the rows \<open>ms\<close> of the returned tickets.\<close>

definition prepared ::
  "('ma, 'sk, 'vrf, 'rnd) node_db \<Rightarrow> channel_entry \<Rightarrow> ticket_db \<Rightarrow> ticket_model list \<Rightarrow> 'vrf transferable_ticket list \<Rightarrow> bool" where
  "prepared nd c db ms ts \<longleftrightarrow>
     set ms \<subseteq> set (td_tickets db) \<and> sorted_wrt (<) (map row_index ms)
     \<and> (\<forall>m \<in> set ms. into_condition (sel_of_channel c) m \<and> tm_state m \<noteq> status_code BeingAggregated)
     \<and> (\<forall>m \<in> set (td_tickets db). \<not> into_condition (with_state BeingAggregated (sel_of_channel c)) m)
     \<and> list_all2 (\<lambda>m t. \<exists>a. row_of (nd_crypto nd) m a \<and> tr_ticket t = vt_ticket (at_ticket a)
          \<and> tr_signer t = vt_issuer (at_ticket a) \<and> tr_response t = at_response a) ms ts"

definition set_aggregated :: "ticket_model list \<Rightarrow> ticket_db \<Rightarrow> ticket_db" where
  "set_aggregated ms db =
     db\<lparr>td_tickets := map (\<lambda>m. if m \<in> set ms then m\<lparr>tm_state := status_code BeingAggregated\<rparr> else m) (td_tickets db)\<rparr>"

lemma prepared_distinct: "prepared nd c db ms ts \<Longrightarrow> distinct ms"
  unfolding prepared_def by (metis distinct_map strict_sorted_iff)

lemma mark_being_aggregated_prepared:
  assumes inv: "td_inv (nd_crypto nd) db" and p: "prepared nd c db ms ts"
  shows "mark_being_aggregated c ts db = Ok (set_aggregated ms db)"
proof -
  let ?idxs = "map (\<lambda>t. u64_to_be (tk_index (tr_ticket t))) ts"
  let ?marked = "\<lambda>m. into_condition (sel_of_channel c) m \<and> tm_index m \<in> set ?idxs \<and> tm_state m \<noteq> status_code BeingAggregated"
  have all2: "list_all2 (\<lambda>m t. tm_index m = u64_to_be (tk_index (tr_ticket t))) ms ts"
    using p unfolding prepared_def by (auto elim!: list_all2_mono simp: row_of_columns)
  then have idxs: "?idxs = map tm_index ms" by (induction rule: list_all2_induct) auto
  have sub: "set ms \<subseteq> set (td_tickets db)" and ch: "\<And>m. m \<in> set ms \<Longrightarrow> into_condition (sel_of_channel c) m \<and> tm_state m \<noteq> status_code BeingAggregated"
    using p by (auto simp: prepared_def)
  have eq: "?marked m \<longleftrightarrow> m \<in> set ms" if m: "m \<in> set (td_tickets db)" for m
  proof
    assume mk: "?marked m"
    then obtain n where n: "n \<in> set ms" "tm_index m = tm_index n" unfolding idxs by auto
    then have "tm_key m = tm_key n" using mk ch [OF n(1)] by (simp add: tm_key_def into_condition_channel_key)
    then have "m = n" by (rule td_inv_key_inj [OF inv m subsetD [OF sub n(1)]])
    with n show "m \<in> set ms" by simp
  qed (use ch in \<open>auto simp: idxs\<close>)
  have f: "filter ?marked (td_tickets db) = filter (\<lambda>m. m \<in> set ms) (td_tickets db)" using eq by (intro filter_cong) auto
  have "distinct (td_tickets db)" using inv by (simp add: td_inv_def distinct_map)
  then have "mset (filter (\<lambda>m. m \<in> set ms) (td_tickets db)) = mset ms"
    using sub prepared_distinct [OF p] by (intro set_eq_iff_mset_eq_distinct [THEN iffD1]) auto
  then have len: "length (filter ?marked (td_tickets db)) = length ts"
    using list_all2_lengthD [OF all2] unfolding f by (metis size_mset)
  have "map (\<lambda>m. if ?marked m then m\<lparr>tm_state := status_code BeingAggregated\<rparr> else m) (td_tickets db)
      = map (\<lambda>m. if m \<in> set ms then m\<lparr>tm_state := status_code BeingAggregated\<rparr> else m) (td_tickets db)"
    using eq by (intro map_cong) auto
  then show ?thesis using len unfolding mark_being_aggregated_def Let_def set_aggregated_def by simp
qed

lemma prepared_rows_value: "prepared nd c db ms ts \<Longrightarrow> rows_value ms = sum_list (map (\<lambda>t. unat (tk_amount (tr_ticket t))) ts)"
proof -
  assume "prepared nd c db ms ts"
  then have "list_all2 (\<lambda>m t. row_value m = unat (tk_amount (tr_ticket t))) ms ts"
    unfolding prepared_def by (auto elim!: list_all2_mono simp: row_of_columns)
  then show ?thesis by (induction rule: list_all2_induct) auto
qed

lemma list_all2_setD2: "list_all2 R xs ys \<Longrightarrow> y \<in> set ys \<Longrightarrow> \<exists>x \<in> set xs. R x y"
  by (induction rule: list_all2_induct) auto

text \<open>The rows after the first one whose index is below the end of its range are left out.\<close>

fun without_covered :: "nat \<Rightarrow> ticket_model list \<Rightarrow> ticket_model list" where
  "without_covered hi [] = []"
| "without_covered hi (m # ms) = m # filter (\<lambda>n. \<not> row_index n < hi) ms"

lemma take_for_aggregation_Ok:
  assumes inv: "td_inv (nd_crypto nd) db" and fits: "rows_value (td_tickets db) < 2 ^ 256"
    and res: "take_for_aggregation nd rnd pre c ds w db = Ok (db', ts)"
  shows "\<exists>ms i. prepared nd c db ms ts \<and> db' = set_aggregated ms db
     \<and> rows_value ms \<le> unat (ce_balance c) \<and> length ms \<le> 500
     \<and> first_idx_to_take c db = Ok i \<and> (\<forall>m \<in> set ms. unat i \<le> row_index m \<and> wins_enough (nd_approx nd) w m)
     \<and> (\<forall>t us. ts = t # us \<longrightarrow> (\<forall>u \<in> set us. tk_index (tr_ticket t) + ucast (tk_index_offset (tr_ticket t)) \<le> tk_index (tr_ticket u)))
     \<and> (\<exists>xs. filter_satisfying_ticket_models (nd_approx nd) pre (tickets_to_aggregate c i db) c w = Ok xs
          \<and> ms = without_covered (unat (tk_index (tr_ticket (hd ts)) + ucast (tk_index_offset (tr_ticket (hd ts))))) xs)"
proof -
  let ?R = "\<lambda>m t. \<exists>a. row_of (nd_crypto nd) m a \<and> tr_ticket t = vt_ticket (at_ticket a)
          \<and> tr_signer t = vt_issuer (at_ticket a) \<and> tr_response t = at_response a"
  have none: "\<forall>m \<in> set (td_tickets db). \<not> into_condition (with_state BeingAggregated (sel_of_channel c)) m"
    using res by (auto simp: take_for_aggregation_def split: if_splits)
  obtain i xs us where i: "first_idx_to_take c db = Ok i"
    and xs: "filter_satisfying_ticket_models (nd_approx nd) pre (tickets_to_aggregate c i db) c w = Ok xs"
    and us: "collect_res (map (transferable_of_model nd rnd ds) xs) = Ok us"
    and rest: "(case us of [] \<Rightarrow> Ok (db, [])
          | t # ts \<Rightarrow>
              let first_ticket = tr_ticket t;
                  to_be_aggregated = t # fst (drop_covered (tk_index first_ticket)
                    (tk_index first_ticket + ucast (tk_index_offset first_ticket)) ts) in
              map_res (\<lambda>db. (db, to_be_aggregated)) (mark_being_aggregated c to_be_aggregated db)) = Ok (db', ts)"
    using res none unfolding take_for_aggregation_def by (auto simp: and_then_Inr_iff)
  let ?cs = "tickets_to_aggregate c i db"
  have cand: "m \<in> set (td_tickets db)" "into_condition (sel_of_channel c) m" "tm_state m \<noteq> status_code BeingAggregated"
    "blob_cmp (tm_index m) (u64_to_be i) \<noteq> Less" if "m \<in> set ?cs" for m
    using that unfolding tickets_to_aggregate_def by (auto dest!: in_set_takeD)
  have row: "\<exists>a. row_of (nd_crypto nd) m a" if "m \<in> set (td_tickets db)" for m using inv that by (simp add: td_inv_def)
  have wl: "\<forall>m \<in> set ?cs. length (tm_winning_probability m) = encoded_win_prob_length"
  proof
    fix m assume "m \<in> set ?cs"
    then obtain a where "row_of (nd_crypto nd) m a" using row cand(1) by blast
    then show "length (tm_winning_probability m) = encoded_win_prob_length"
      by (auto simp: row_of_columns(6)) (auto simp: row_of_def at_storable_def Let_def ticket_wf_def)
  qed
  have le: "rows_value ?cs \<le> rows_value (td_tickets db)"
    unfolding tickets_to_aggregate_def
    by (rule order_trans [OF rows_value_take]) (simp only: rows_value_mset [OF mset_sort_by] rows_value_filter_le)
  note sat = filter_satisfying_sub [OF wl order_le_less_trans [OF le fits] xs]
  obtain r where r: "filter (wins_enough (nd_approx nd) w) ?cs = xs @ r" using sat(1) by blast
  have "sorted_wrt (<) (map row_index (xs @ r))"
    unfolding r [symmetric] using sorted_candidates [OF inv, of c i] by (simp add: sorted_wrt_map sorted_wrt_filter)
  then have srt: "sorted_wrt (\<lambda>m n. row_index m < row_index n) xs" by (simp add: sorted_wrt_append sorted_wrt_map)
  have xs_sub: "m \<in> set ?cs \<and> wins_enough (nd_approx nd) w m" if "m \<in> set xs" for m
    using that arg_cong [OF r, of set] by auto
  have all2: "list_all2 ?R xs us"
    using collect_res_list_all2 [OF us]
  proof (rule list.rel_mono_strong)
    fix m t assume "m \<in> set xs" "transferable_of_model nd rnd ds m = Ok t"
    then show "?R m t" using row xs_sub cand(1) transferable_of_row by metis
  qed
  have low: "unat i \<le> row_index m" if m: "m \<in> set xs" for m
  proof -
    obtain a where "row_of (nd_crypto nd) m a" using row xs_sub [OF m] cand(1) by blast
    then show ?thesis using cand(4) [of m] xs_sub [OF m]
      by (auto simp: row_of_columns(1) blob_cmp_u64 ord_cmp_def word_le_nat_alt word_less_nat_alt not_less split: if_splits)
  qed
  have len: "length xs \<le> 500"
  proof -
    have "length (xs @ r) \<le> length ?cs" unfolding r [symmetric] by (rule length_filter_le)
    also have "\<dots> \<le> 500" by (simp add: tickets_to_aggregate_def max_tickets_to_aggregate_batch_def)
    finally show ?thesis by simp
  qed
  show ?thesis
  proof (cases us)
    case Nil
    then have "db' = db" "ts = []" using rest by simp_all
    moreover have "xs = []" using all2 Nil by simp
    ultimately show ?thesis using none i xs
      by (intro exI [of _ "[]"] exI [of _ i]) (simp add: prepared_def set_aggregated_def)
  next
    case (Cons t ts0)
    let ?lo = "tk_index (tr_ticket t)" let ?hi = "tk_index (tr_ticket t) + ucast (tk_index_offset (tr_ticket t))"
    obtain m ms0 where m: "xs = m # ms0" "?R m t" "list_all2 ?R ms0 ts0" using all2 Cons by (cases xs) auto
    let ?Q = "\<lambda>n. \<not> (unat ?lo \<le> row_index n \<and> row_index n < unat ?hi)"
    let ?Q' = "\<lambda>u. \<not> (?lo \<le> tk_index (tr_ticket u) \<and> tk_index (tr_ticket u) < ?hi)"
    define ms where "ms = m # filter ?Q ms0"
    have kept: "list_all2 ?R (filter ?Q ms0) (filter ?Q' ts0)"
    proof (rule list_all2_filter [OF m(3)])
      fix n u assume "?R n u"
      then have "row_index n = unat (tk_index (tr_ticket u))" by (auto simp: row_of_columns(1))
      then show "?Q n = ?Q' u" by (simp add: word_le_nat_alt word_less_nat_alt)
    qed
    have sub: "set ms \<subseteq> set xs" by (auto simp: ms_def m(1))
    have srt': "sorted_wrt (\<lambda>m n. row_index m < row_index n) ms" using srt by (simp add: ms_def m(1) sorted_wrt_filter)
    have ts: "ts = t # filter ?Q' ts0" and mk: "mark_being_aggregated c (t # filter ?Q' ts0) db = Ok db'"
      using rest unfolding Cons list.case Let_def drop_covered_filter map_res_Inr_iff by auto
    have p: "prepared nd c db ms ts"
      unfolding prepared_def ts ms_def using none m(2) kept srt' sub xs_sub cand by (auto simp: sorted_wrt_map ms_def)
    have "db' = set_aggregated ms db" using mark_being_aggregated_prepared [OF inv p] mk unfolding ts by simp
    moreover have "rows_value ms \<le> unat (ce_balance c)"
      using sat(2) rows_value_filter_le [of ?Q ms0] by (simp add: ms_def m(1))
    moreover have "length ms \<le> 500" using len length_filter_le [of ?Q ms0] by (simp add: ms_def m(1) del: length_filter_le)
    moreover have "\<forall>m \<in> set ms. unat i \<le> row_index m \<and> wins_enough (nd_approx nd) w m"
      using sub low xs_sub by blast
    moreover have "?hi \<le> tk_index (tr_ticket u)" if u: "u \<in> set (filter ?Q' ts0)" for u
    proof -
      obtain n where n: "n \<in> set (filter ?Q ms0)" "?R n u"
        using list_all2_setD2 [OF kept u] by blast
      have "row_index m < row_index n" using srt' n(1) by (simp add: ms_def)
      then have "?lo < tk_index (tr_ticket u)" using m(2) n(2) by (auto simp: row_of_columns(1) word_less_nat_alt)
      then show ?thesis using u by (auto simp: not_less)
    qed
    moreover have "ms = without_covered (unat ?hi) xs"
    proof -
      have "row_index m < row_index n" if "n \<in> set ms0" for n using srt that by (simp add: m(1))
      moreover have "row_index m = unat ?lo" using m(2) by (auto simp: row_of_columns(1))
      ultimately have "filter ?Q ms0 = filter (\<lambda>n. \<not> row_index n < unat ?hi) ms0" by (intro filter_cong) (auto simp: less_imp_le)
      then show ?thesis by (simp add: ms_def m(1))
    qed
    ultimately show ?thesis using p i xs unfolding ts by (intro exI [of _ ms] exI [of _ i]) auto
  qed
qed

section \<open>What is aggregated\<close>

lemma act_Ok_iff:
  "act_bind m k s = (s', Ok y) \<longleftrightarrow> (\<exists>s1 x. m s = (s1, Ok x) \<and> k x s1 = (s', Ok y))"
  "act_lift r s = (s', Ok x) \<longleftrightarrow> s' = s \<and> r = Ok x"
  "db_query q s = (s', Ok x) \<longleftrightarrow> s' = s \<and> q s = Ok x"
  "ticket_tx f s = (s', Ok x) \<longleftrightarrow> (\<exists>td. f (cs_tickets s) = Ok (td, x) \<and> s' = s\<lparr>cs_tickets := td\<rparr>)"
  "act_return z s = (s', Ok x) \<longleftrightarrow> s' = s \<and> z = x"
  "act_fail e s \<noteq> (s', Ok x)"
  by (auto simp: act_bind_def act_lift_def db_query_def ticket_tx_def act_return_def act_fail_def split: prod.splits sum.splits)

lemma translated_key_frame:
  "translated_key nd k s = (s', r) \<Longrightarrow> cs_channels s' = cs_channels s \<and> cs_info s' = cs_info s \<and> cs_tickets s' = cs_tickets s"
  by (auto simp: translated_key_def split: sum.splits)

lemma resolve_frame:
  "resolve_chain_key nd k s = (s', r) \<Longrightarrow> cs_channels s' = cs_channels s \<and> cs_info s' = cs_info s \<and> cs_tickets s' = cs_tickets s"
  "resolve_packet_key nd a s = (s', r') \<Longrightarrow> cs_channels s' = cs_channels s \<and> cs_info s' = cs_info s \<and> cs_tickets s' = cs_tickets s"
  unfolding resolve_chain_key_def resolve_packet_key_def act_bind_def
  by (auto split: prod.splits sum.splits option.splits simp: act_lift_def act_return_def dest!: translated_key_frame)

lemma indexer_data_frame:
  assumes "indexer_data_of nd s = (s', Ok d)"
  shows "cs_channels s' = cs_channels s \<and> cs_tickets s' = cs_tickets s \<and> cs_accounts s' = cs_accounts s
     \<and> get_indexer_data (nd_approx nd) (cs_info s) = Ok (cs_info s', d)
     \<and> get_indexer_data (nd_approx nd) (cs_info s') = Ok (cs_info s', d)"
  using assms
  by (auto simp: indexer_data_of_def get_indexer_data_def and_then_Inr_iff Let_def split: sum.splits option.splits)

lemma incoming_channel_Ok:
  "ct_ok (cr_keccak (nd_crypto nd)) (cs_channels s) \<Longrightarrow> incoming_channel nd i s = (s', Ok c) \<longleftrightarrow>
     s' = s \<and> chan (cr_keccak (nd_crypto nd)) (cs_channels s) i = Some c \<and> \<not> status_eq (ce_status c) Closed
     \<and> ce_direction c (nd_me_onchain nd) = Some Incoming"
  unfolding incoming_channel_def act_Ok_iff get_channel_by_id_eq
  by (auto simp: act_Ok_iff split: option.splits if_splits)

lemma outgoing_channel_Ok:
  assumes ok: "ct_ok (cr_keccak (nd_crypto nd)) (cs_channels s)" and res: "outgoing_channel_to nd a s = (s', Ok c)"
  shows "cs_tickets s' = cs_tickets s" "cs_info s' = cs_info s"
    "chan (cr_keccak (nd_crypto nd)) (cs_channels s) (ce_get_id c) = Some c" "parties_of c = (nd_me_onchain nd, a)"
    "\<not> status_eq (ce_status c) Closed"
proof -
  obtain tbl r where r: "get_channel_by_parties (cr_keccak (nd_crypto nd)) (nd_me_onchain nd) a False (cs_channels s) = Ok (tbl, r)"
    "\<forall>c. r = Some c \<longleftrightarrow> chan (cr_keccak (nd_crypto nd)) (cs_channels s) (ce_id c) = Some c \<and> parties_of c = (nd_me_onchain nd, a)"
    using get_channel_by_parties_eq [OF ok, of "nd_me_onchain nd" a False] by blast
  have "r = Some c \<and> s' = s\<lparr>cs_channels := tbl\<rparr> \<and> \<not> status_eq (ce_status c) Closed"
    using res r(1) by (auto simp: outgoing_channel_to_def act_Ok_iff split: option.splits if_splits)
  with r(2) [rule_format, of c] show "cs_tickets s' = cs_tickets s" "cs_info s' = cs_info s"
    "chan (cr_keccak (nd_crypto nd)) (cs_channels s) (ce_get_id c) = Some c" "parties_of c = (nd_me_onchain nd, a)"
    "\<not> status_eq (ce_status c) Closed" by (simp_all add: ce_get_id_def)
qed

abbreviation rd_tkt :: "'vrf redeemable_ticket \<Rightarrow> ticket" where
  "rd_tkt r \<equiv> vt_ticket (rd_ticket r)"

text \<open>Neighbours do not overlap; the sum of index and offset is that of the machine.\<close>

fun no_overlap :: "ticket list \<Rightarrow> bool" where
  "no_overlap (t # u # ts) \<longleftrightarrow> tk_index t + ucast (tk_index_offset t) \<le> tk_index u \<and> no_overlap (u # ts)"
| "no_overlap _ \<longleftrightarrow> True"

lemma check_aggregated_Ok:
  "check_aggregated approx i e b w rs v = Ok v' \<Longrightarrow>
     v' = foldl bal_add v (map (\<lambda>r. tk_amount (rd_tkt r)) rs) \<and> no_overlap (map rd_tkt rs)
     \<and> (rs \<noteq> [] \<longrightarrow> v' \<le> b)
     \<and> (\<forall>r \<in> set rs. tk_channel_id (rd_tkt r) = i \<and> tk_channel_epoch (rd_tkt r) = e
          \<and> wp_approx_cmp approx (tk_encoded_win_prob (rd_tkt r)) w \<noteq> Less)"
proof (induction rs arbitrary: v)
  case (Cons r rs)
  have h: "tk_channel_id (rd_tkt r) = i" "tk_channel_epoch (rd_tkt r) = e"
    "wp_approx_cmp approx (tk_encoded_win_prob (rd_tkt r)) w \<noteq> Less" "bal_add v (tk_amount (rd_tkt r)) \<le> b"
    "check_aggregated approx i e b w rs (bal_add v (tk_amount (rd_tkt r))) = Ok v'"
    using Cons.prems by (simp_all add: Let_def not_less split: if_splits)
  have o: "no_overlap (map rd_tkt (r # rs)) \<longleftrightarrow> no_overlap (map rd_tkt rs)"
    using Cons.prems by (cases rs) (simp_all add: Let_def not_less split: if_splits)
  show ?case using Cons.IH [OF h(5)] h(1-4) o by (cases "rs = []") (auto simp del: no_overlap.simps)
qed simp

lemma aggregated_ticket_Ok:
  assumes "crypto_ok (nd_crypto nd)" and "aggregated_ticket nd a e v t0 t1 me ds = Ok vt"
  shows "tk_channel_id (vt_ticket vt) = generate_channel_id (cr_keccak (nd_crypto nd)) (nd_me_onchain nd) a"
    and "tk_amount (vt_ticket vt) = v" and "v < max_ticket_amount"
    and "tk_index (vt_ticket vt) = tk_index t0" and "tk_index_offset (vt_ticket vt) = ucast (tk_index t1 - tk_index t0 + 1)"
    and "tk_index_offset (vt_ticket vt) \<noteq> 0"
    and "tk_encoded_win_prob (vt_ticket vt) = wp_always" and "tk_channel_epoch (vt_ticket vt) = e"
    and "tk_challenge (vt_ticket vt) = tk_challenge t0"
    and "vt_inv (nd_crypto nd) ds vt" and "vt_issuer vt = cr_address (nd_crypto nd) me"
proof -
  let ?b = "tb_set_challenge (tk_challenge t0) (tb_set_channel_epoch e (tb_set_win_prob wp_always
           (tb_set_index_offset (ucast (tk_index t1 - tk_index t0 + 1)) (tb_set_index (tk_index t0)
           (tb_set_balance v (tb_set_direction (nd_crypto nd) (nd_me_onchain nd) a tb_default))))))"
  obtain t where t: "tb_build ?b = Ok t" "vt = ticket_sign (nd_crypto nd) t me ds"
    using assms(2) by (auto simp: aggregated_ticket_def tb_build_signed_def map_fail_Inr_iff map_res_Inr_iff split: if_splits)
  note b = tb_set_challenge_def tb_set_channel_epoch_def tb_set_win_prob_def tb_set_index_offset_def tb_set_index_def
    tb_set_balance_def tb_set_direction_def tb_default_def tb_wanted_amount_def
  note t' = t(1) [unfolded tb_build_Ok_iff]
  show "tk_channel_id (vt_ticket vt) = generate_channel_id (cr_keccak (nd_crypto nd)) (nd_me_onchain nd) a"
    "tk_amount (vt_ticket vt) = v" "v < max_ticket_amount" "tk_index (vt_ticket vt) = tk_index t0"
    "tk_index_offset (vt_ticket vt) = ucast (tk_index t1 - tk_index t0 + 1)" "tk_index_offset (vt_ticket vt) \<noteq> 0"
    "tk_encoded_win_prob (vt_ticket vt) = wp_always" "tk_channel_epoch (vt_ticket vt) = e"
    "tk_challenge (vt_ticket vt) = tk_challenge t0"
    using t' by (auto simp: b t(2) ticket_sign_def Let_def)
  show "vt_inv (nd_crypto nd) ds vt" unfolding t(2) by (rule ticket_sign_inv [OF assms(1)])
  show "vt_issuer vt = cr_address (nd_crypto nd) me" unfolding t(2) by (simp add: ticket_sign_def Let_def)
qed

text \<open>\<open>t\<close> is an aggregate of the tickets \<open>ts\<close> in the channel \<open>c\<close>, where tickets win with at least the probability \<open>w\<close>.\<close>

definition aggregate_of :: "(rat \<Rightarrow> rat \<Rightarrow> bool) \<Rightarrow> channel_entry \<Rightarrow> win_prob \<Rightarrow> ticket list \<Rightarrow> ticket \<Rightarrow> bool" where
  "aggregate_of approx c w ts t \<longleftrightarrow>
     ts \<noteq> [] \<and> no_overlap ts
     \<and> (\<forall>u \<in> set ts. tk_channel_id u = tk_channel_id t \<and> tk_channel_epoch u = tk_channel_epoch t
          \<and> wp_approx_cmp approx (tk_encoded_win_prob u) w \<noteq> Less)
     \<and> tk_channel_id t = ce_get_id c \<and> ucast (tk_channel_epoch t) = ce_channel_epoch c
     \<and> unat (tk_amount t) = sum_list (map (\<lambda>u. unat (tk_amount u)) ts) \<and> tk_amount t \<le> ce_balance c
     \<and> tk_index t = tk_index (hd ts) \<and> tk_index_offset t = ucast (tk_index (List.last ts) - tk_index (hd ts) + 1)
     \<and> tk_encoded_win_prob t = wp_always \<and> tk_challenge t = tk_challenge (hd ts)"

lemma tr_into_redeemable_ticket: "tr_into_redeemable cr t a ds = Ok r \<Longrightarrow> rd_tkt r = tr_ticket t"
  by (simp add: tr_into_redeemable_Ok_iff)

lemma redeemed_tickets:
  "collect_res (map (\<lambda>t. tr_into_redeemable cr t a ds) us) = Ok rs \<Longrightarrow> map rd_tkt rs = map tr_ticket us"
proof (drule collect_res_list_all2)
  assume "list_all2 (\<lambda>t r. tr_into_redeemable cr t a ds = Ok r) us rs"
  then show ?thesis by (induction rule: list_all2_induct) (simp_all add: tr_into_redeemable_ticket)
qed

lemma aggregate_many_Ok:
  assumes cr: "crypto_ok (nd_crypto nd)" and ok: "ct_ok (cr_keccak (nd_crypto nd)) (cs_channels s)"
    and res: "aggregate_many nd dest ts me ds s = (s', Ok vt)" and ne: "ts \<noteq> []"
  defines "us \<equiv> dedup_by tr_eq (sort_by tr_cmp ts)"
  shows "\<exists>c a d td n rs. chan (cr_keccak (nd_crypto nd)) (cs_channels s) (ce_get_id c) = Some c \<and> parties_of c = (nd_me_onchain nd, a)
     \<and> get_indexer_data (nd_approx nd) (cs_info s) = Ok (cs_info s', d)
     \<and> collect_res (map (\<lambda>t. tr_into_redeemable (nd_crypto nd) t (nd_me_onchain nd) ds) us) = Ok rs
     \<and> aggregate_of (nd_approx nd) c (id_min_win_prob d) (map tr_ticket us) (vt_ticket vt)
     \<and> tk_amount (vt_ticket vt) < max_ticket_amount \<and> tk_index_offset (vt_ticket vt) \<noteq> 0
     \<and> vt_inv (nd_crypto nd) ds vt \<and> vt_issuer vt = cr_address (nd_crypto nd) me
     \<and> compare_and_set_outgoing_ticket_index (ce_get_id c) (tk_index (tr_ticket (List.last us)) + 1) (cs_tickets s) = Ok (td, n)
     \<and> cs_tickets s' = td"
proof -
  obtain s1 a s2 c s3 d e rs v td n where s1: "resolve_chain_key nd dest s = (s1, Ok (Some a))"
    and s2: "outgoing_channel_to nd a s1 = (s2, Ok c)" and s3: "indexer_data_of nd s2 = (s3, Ok d)"
    and e: "u256_as_u32 (ce_channel_epoch c) = (Ok e :: (db_error, u32) result)"
    and rs: "collect_res (map (\<lambda>t. tr_into_redeemable (nd_crypto nd) t (nd_me_onchain nd) ds) us) = Ok rs"
    and v: "check_aggregated (nd_approx nd) (ce_get_id c) e (ce_balance c) (id_min_win_prob d) rs 0 = Ok v"
    and td: "compare_and_set_outgoing_ticket_index (ce_get_id c) (tk_index (rd_tkt (List.last rs)) + 1) (cs_tickets s3) = Ok (td, n)"
    and vt: "aggregated_ticket nd a e v (rd_tkt (hd rs)) (rd_tkt (List.last rs)) me ds = Ok vt"
    and s': "s' = s3\<lparr>cs_tickets := td\<rparr>"
    using res unfolding aggregate_many_def Let_def us_def [symmetric]
    by (auto simp: act_Ok_iff ok_or_Inr_iff map_fail_Inr_iff)
  have fr: "cs_channels s1 = cs_channels s" "cs_info s1 = cs_info s" "cs_tickets s1 = cs_tickets s"
    using resolve_frame(1) [OF s1] by simp_all
  note out = outgoing_channel_Ok [OF _ s2, unfolded fr, OF ok]
  have inf: "get_indexer_data (nd_approx nd) (cs_info s) = Ok (cs_info s3, d)" "cs_tickets s3 = cs_tickets s"
    using indexer_data_frame [OF s3] out(1,2) by simp_all
  have ts: "map rd_tkt rs = map tr_ticket us" by (rule redeemed_tickets [OF rs])
  have us: "us \<noteq> []" using ne unfolding us_def by (metis dedup_by_Nil mset_sort_by mset_zero_iff)
  with ts have rs_ne: "rs \<noteq> []" by auto
  have hdl: "rd_tkt (hd rs) = tr_ticket (hd us)" "rd_tkt (List.last rs) = tr_ticket (List.last us)"
    using ts us rs_ne by (metis list.map_sel(1), metis last_map)
  note chk = check_aggregated_Ok [OF v]
  note vt' = aggregated_ticket_Ok [OF cr vt]
  have amt: "map (\<lambda>r. tk_amount (rd_tkt r)) rs = map tk_amount (map tr_ticket us)" unfolding ts [symmetric] by simp
  have "unat v = min (sum_list (map unat (map tk_amount (map tr_ticket us)))) (2 ^ 256 - 1)"
    using chk unfolding amt by (simp add: unat_foldl_bal_add)
  moreover have "unat v < 10 ^ 25" using vt'(3) by (simp add: max_ticket_amount_def word_less_nat_alt)
  ultimately have sum: "unat v = sum_list (map (\<lambda>u. unat (tk_amount u)) (map tr_ticket us))"
    by (simp add: min_def comp_def split: if_splits)
  have "ce_wf (cr_keccak (nd_crypto nd)) c" using chan_id [OF ok out(3)] by blast
  then have id: "generate_channel_id (cr_keccak (nd_crypto nd)) (nd_me_onchain nd) a = ce_get_id c"
    using out(4) by (simp add: ce_wf_def parties_of_def ce_get_id_def)
  have ep: "ucast e = ce_channel_epoch c"
    using e by (auto simp: u256_as_u32_def word_unat_eq_iff unsigned_ucast_eq take_bit_nat_eq_self split: if_splits)
  have all: "\<forall>u \<in> set (map tr_ticket us). tk_channel_id u = ce_get_id c \<and> tk_channel_epoch u = e
      \<and> wp_approx_cmp (nd_approx nd) (tk_encoded_win_prob u) (id_min_win_prob d) \<noteq> Less"
    unfolding ts [symmetric] using chk by auto
  have le: "v \<le> ce_balance c" "no_overlap (map tr_ticket us)" using chk rs_ne unfolding ts by blast+
  have "aggregate_of (nd_approx nd) c (id_min_win_prob d) (map tr_ticket us) (vt_ticket vt)"
    unfolding aggregate_of_def vt'(1,2,4,5,7,8,9) id hdl
    using us all ep sum le by (simp add: hd_map last_map)
  then show ?thesis
    using out(3,4) inf rs vt'(2,3,6,10,11) td s' unfolding hdl
    by (intro exI [of _ c] exI [of _ a] exI [of _ d] exI [of _ td] exI [of _ n] exI [of _ rs]) simp
qed

lemma prepared_value: "prepared nd c db ms ts \<Longrightarrow> rows_value ms = sum_list (map (\<lambda>u. unat (tk_amount u)) (map tr_ticket ts))"
  using prepared_rows_value [of nd c db ms ts] by (simp add: comp_def)

lemma prepared_tickets:
  assumes "prepared nd c db ms ts"
  shows "map tm_index ms = map (\<lambda>u. u64_to_be (tk_index u)) (map tr_ticket ts)" and "length ts = length ms"
proof -
  have "list_all2 (\<lambda>m t. tm_index m = u64_to_be (tk_index (tr_ticket t))) ms ts"
    using assms unfolding prepared_def by (auto elim!: list_all2_mono simp: row_of_columns)
  then show "map tm_index ms = map (\<lambda>u. u64_to_be (tk_index u)) (map tr_ticket ts)" "length ts = length ms"
    by (induction rule: list_all2_induct) auto
qed

lemma prepared_index: "prepared nd c db ms ts \<Longrightarrow> map row_index ms = map (\<lambda>t. unat (tk_index (tr_ticket t))) ts"
  using arg_cong [OF prepared_tickets(1) [of nd c db ms ts], of "map be_decode"] unfolding map_map comp_def be_decode_u64 .

lemma prepared_sorted:
  assumes "prepared nd c db ms ts"
  shows "sorted_wrt (\<lambda>t u. tk_index (tr_ticket t) < tk_index (tr_ticket u)) ts"
proof -
  have "map row_index ms = map (\<lambda>t. unat (tk_index (tr_ticket t))) ts"
    by (rule prepared_index [OF assms])
  then show ?thesis using assms by (simp add: prepared_def sorted_wrt_map word_less_nat_alt)
qed

text \<open>The tickets that are prepared are already in the order in which the issuer sorts them.\<close>

lemma prepared_sort_dedup:
  assumes p: "prepared nd c db ms ts" and ch: "\<forall>t \<in> set ts. tk_channel_id (tr_ticket t) = i \<and> tk_channel_epoch (tr_ticket t) = e"
  shows "dedup_by tr_eq (sort_by tr_cmp ts) = ts"
proof -
  have srt: "sorted_wrt (\<lambda>t u. tk_index (tr_ticket t) < tk_index (tr_ticket u)) ts" by (rule prepared_sorted [OF p])
  have "sorted_wrt (\<lambda>t u. tr_cmp t u \<noteq> Greater) ts"
    by (rule sorted_wrt_mono_rel [OF _ srt]) (use ch in \<open>auto simp: tr_cmp_def ticket_cmp_def ord_cmp_def\<close>)
  moreover have "sorted_wrt (\<lambda>t u. \<not> tr_eq u t) ts"
    by (rule sorted_wrt_mono_rel [OF _ srt]) (auto simp: tr_eq_def)
  ultimately show ?thesis by (simp add: sort_by_sorted dedup_by_id)
qed

lemma prepared_channel:
  assumes p: "prepared nd c db ms ts" and t: "t \<in> set ts"
  shows "tk_channel_id (tr_ticket t) = ce_get_id c" and "ucast (tk_channel_epoch (tr_ticket t)) = ce_channel_epoch c"
    and "tk_index (tr_ticket t) \<le> push_bit 48 1"
proof -
  obtain m a where m: "m \<in> set ms" "row_of (nd_crypto nd) m a" "tr_ticket t = vt_ticket (at_ticket a)"
    using p t unfolding prepared_def by (auto dest: list_all2_setD2)
  then have "into_condition (sel_of_channel c) m" using p by (simp add: prepared_def)
  then show "tk_channel_id (tr_ticket t) = ce_get_id c" "ucast (tk_channel_epoch (tr_ticket t)) = ce_channel_epoch c"
    using m(2,3) by (auto simp: into_condition_channel_key row_of_columns)
  show "tk_index (tr_ticket t) \<le> push_bit 48 1" using m(2,3) by (simp add: row_of_def at_storable_def Let_def)
qed

lemma strict_list_span:
  "sorted_wrt (<) ns \<Longrightarrow> ns \<noteq> [] \<Longrightarrow> length ns \<le> Suc (List.last ns) - hd (ns :: nat list) \<and> hd ns \<le> List.last ns
     \<and> (\<forall>n \<in> set ns. hd ns \<le> n \<and> n \<le> List.last ns)"
proof (induction ns)
  case (Cons n ns)
  show ?case
  proof (cases ns)
    case (Cons k ks)
    then have "n < k" "length ns \<le> Suc (List.last ns) - hd ns" "hd ns \<le> List.last ns" "\<forall>j \<in> set ns. hd ns \<le> j \<and> j \<le> List.last ns"
      using Cons.IH Cons.prems by auto
    then show ?thesis using Cons by fastforce
  qed simp
qed simp

text \<open>The range of an aggregated ticket in the table, when it does not exceed 32 bits.\<close>

lemma aggregate_range:
  assumes p: "prepared nd c db ms ts" and agg: "aggregate_of approx c' w (map tr_ticket ts) t"
    and span: "unat (tk_index (tr_ticket (List.last ts))) - unat (tk_index (tr_ticket (hd ts))) < 2 ^ 32 - 1"
  shows "unat (tk_index_offset t) = Suc (unat (tk_index (tr_ticket (List.last ts)))) - unat (tk_index (tr_ticket (hd ts)))"
    and "length ms \<le> unat (tk_index_offset t)"
    and "unat (tk_index t + ucast (tk_index_offset t)) = Suc (unat (tk_index (tr_ticket (List.last ts))))"
    and "m \<in> set ms \<Longrightarrow> unat (tk_index t) \<le> row_index m \<and> row_index m \<le> unat (tk_index (tr_ticket (List.last ts)))"
proof -
  let ?f = "tk_index (tr_ticket (hd ts))" let ?l = "tk_index (tr_ticket (List.last ts))"
  have ne: "ts \<noteq> []" and ix: "tk_index t = ?f" and off: "tk_index_offset t = ucast (?l - ?f + 1)"
    using agg by (auto simp: aggregate_of_def hd_map last_map)
  have idx: "map row_index ms = map (\<lambda>t. unat (tk_index (tr_ticket t))) ts"
    by (rule prepared_index [OF p])
  have ms: "ms \<noteq> []" using ne prepared_tickets(2) [OF p] by auto
  have "sorted_wrt (<) (map row_index ms)" using p by (simp add: prepared_def)
  note span' = strict_list_span [OF this, unfolded map_is_Nil_conv, OF ms]
  have hl: "hd (map row_index ms) = unat ?f" "List.last (map row_index ms) = unat ?l"
    unfolding idx using ne by (simp_all add: hd_map last_map)
  have sp: "length ms \<le> Suc (unat ?l) - unat ?f" "unat ?f \<le> unat ?l" "\<And>m. m \<in> set ms \<Longrightarrow> unat ?f \<le> row_index m \<and> row_index m \<le> unat ?l"
    using span' unfolding hl length_map set_map by blast+
  have l48: "unat ?l \<le> 2 ^ 48" using prepared_channel(3) [OF p last_in_set [OF ne]] by (simp add: word_le_nat_alt)
  have "unat (?l - ?f) = unat ?l - unat ?f" using sp(2) by (simp add: unat_sub word_le_nat_alt)
  then have "unat (?l - ?f + 1) = unat ?l - unat ?f + 1" using l48 by (simp add: unat_word_ariths)
  then show u: "unat (tk_index_offset t) = Suc (unat ?l) - unat ?f"
    using span sp(2) unfolding off by (simp add: unsigned_ucast_eq take_bit_nat_eq_self)
  show "length ms \<le> unat (tk_index_offset t)" using sp(1) u by simp
  have "unat (ucast (tk_index_offset t) :: u64) = unat (tk_index_offset t)"
    using unat_bound [of "tk_index_offset t"] by (simp add: unsigned_ucast_eq take_bit_nat_eq_self)
  then show "unat (tk_index t + ucast (tk_index_offset t)) = Suc (unat ?l)"
    using l48 sp(2) u unfolding ix by (simp add: unat_word_ariths)
  show "m \<in> set ms \<Longrightarrow> unat (tk_index t) \<le> row_index m \<and> row_index m \<le> unat ?l" using sp(3) ix by simp
qed

section \<open>Replacing the prepared tickets\<close>

abbreviation aggregated_row :: "ticket_model \<Rightarrow> ticket_model" where
  "aggregated_row m \<equiv> m\<lparr>tm_state := status_code BeingAggregated\<rparr>"

lemma aggregated_row_columns [simp]:
  "row_value (m\<lparr>tm_state := x\<rparr>) = row_value m" "tm_key (m\<lparr>tm_state := x\<rparr>) = tm_key m"
  "into_condition (sel_of_channel c) (m\<lparr>tm_state := x\<rparr>) = into_condition (sel_of_channel c) m"
  by (simp_all add: row_value_def tm_key_def into_condition_channel_key)

lemma filter_marked:
  assumes "\<And>m. m \<in> set xs \<Longrightarrow> Q (if m \<in> M then f m else m) \<longleftrightarrow> m \<in> M"
  shows "filter Q (map (\<lambda>m. if m \<in> M then f m else m) xs) = map f (filter (\<lambda>m. m \<in> M) xs)"
    and "filter (\<lambda>m. \<not> Q m) (map (\<lambda>m. if m \<in> M then f m else m) xs) = filter (\<lambda>m. m \<notin> M) xs"
  using assms by (induction xs) auto

lemma set_aggregated_marked:
  assumes p: "prepared nd c db ms ts"
  shows "filter (into_condition (with_state BeingAggregated (sel_of_channel c))) (td_tickets (set_aggregated ms db))
     = map aggregated_row (filter (\<lambda>m. m \<in> set ms) (td_tickets db))"
proof -
  have rows: "td_tickets (set_aggregated ms db) = map (\<lambda>m. if m \<in> set ms then aggregated_row m else m) (td_tickets db)"
    by (simp add: set_aggregated_def)
  have "into_condition (with_state BeingAggregated (sel_of_channel c)) (if m \<in> set ms then aggregated_row m else m) \<longleftrightarrow> m \<in> set ms"
    if "m \<in> set (td_tickets db)" for m
    using p that by (auto simp: prepared_def into_condition_channel_state)
  then show ?thesis unfolding rows by (rule filter_marked(1))
qed

lemma prepared_mset:
  assumes "td_inv cr db" and "prepared nd c db ms ts"
  shows "mset (filter (\<lambda>m. m \<in> set ms) (td_tickets db)) = mset ms"
  using assms prepared_distinct [OF assms(2)]
  by (intro set_eq_iff_mset_eq_distinct [THEN iffD1]) (auto simp: td_inv_def distinct_map prepared_def)

lemma into_condition_replaced:
  "into_condition (with_state st (with_index_range (Included lo, Excluded hi) (sel_new i e))) m \<longleftrightarrow>
     tm_channel_id m = to_hex i \<and> tm_channel_epoch m = u256_to_be e \<and> tm_state m = status_code st
     \<and> blob_cmp (tm_index m) (u64_to_be lo) \<noteq> Less \<and> blob_cmp (tm_index m) (u64_to_be hi) = Less"
  by (auto simp: into_condition_def with_state_def with_index_range_def sel_new_def index_condition_def)

lemma blob_cmp_row:
  "tm_index m = u64_to_be j \<Longrightarrow> blob_cmp (tm_index m) (u64_to_be i) = ord_cmp (row_index m) (unat i)"
  by (simp add: blob_cmp_u64 ord_cmp_def word_less_nat_alt word_unat_eq_iff)

lemma replaced_rows:
  assumes inv: "td_inv cr db" and p: "prepared nd c db ms ts" and agg: "aggregate_of approx c' w (map tr_ticket ts) t"
    and span: "unat (tk_index (tr_ticket (List.last ts))) - unat (tk_index (tr_ticket (hd ts))) < 2 ^ 32 - 1"
    and ch: "tk_channel_id t = ce_get_id c" "ucast (tk_channel_epoch t) = ce_channel_epoch c"
    and m: "m \<in> set (td_tickets db)"
  shows "into_condition (with_state BeingAggregated
      (with_index_range (Included (tk_index t), Excluded (tk_index t + ucast (tk_index_offset t)))
        (sel_new (tk_channel_id t) (ucast (tk_channel_epoch t))))) (if m \<in> set ms then aggregated_row m else m) \<longleftrightarrow> m \<in> set ms"
proof -
  note range = aggregate_range [OF p agg span]
  obtain a where a: "row_of cr m a" using inv m by (auto simp: td_inv_def)
  note cmp = blob_cmp_row [OF row_of_columns(1) [OF a]]
  show ?thesis
  proof (cases "m \<in> set ms")
    case True
    then have "into_condition (sel_of_channel c) m" using p by (simp add: prepared_def)
    then have "tm_channel_id m = to_hex (ce_get_id c)" "tm_channel_epoch m = u256_to_be (ce_channel_epoch c)"
      unfolding into_condition_channel_key by simp_all
    moreover have "ord_cmp (row_index m) (unat (tk_index t)) \<noteq> Less"
      "ord_cmp (row_index m) (unat (tk_index t + ucast (tk_index_offset t))) = Less"
      using range(4) [OF True] unfolding range(3) ord_cmp_def by auto
    ultimately show ?thesis using True unfolding into_condition_replaced ch by (simp add: cmp)
  next
    case False
    have "\<not> into_condition (with_state BeingAggregated (sel_of_channel c)) m" using p m by (simp add: prepared_def)
    then have "\<not> (tm_channel_id m = to_hex (ce_get_id c) \<and> tm_channel_epoch m = u256_to_be (ce_channel_epoch c) \<and> tm_state m = status_code BeingAggregated)"
      unfolding into_condition_channel_state into_condition_channel_key by blast
    then show ?thesis using False unfolding into_condition_replaced ch by auto
  qed
qed

lemma replace_prepared:
  assumes inv: "td_inv cr db" and p: "prepared nd c db ms ts" and agg: "aggregate_of approx c' w (map tr_ticket ts) t"
    and span: "unat (tk_index (tr_ticket (List.last ts))) - unat (tk_index (tr_ticket (hd ts))) < 2 ^ 32 - 1"
    and ch: "tk_channel_id t = ce_get_id c" "ucast (tk_channel_epoch t) = ce_channel_epoch c"
    and a: "vt_ticket (at_ticket a) = t" "ticket_model_of a = (Ok row :: (db_error, ticket_model) result)"
    and db: "td_tickets db' = td_tickets (set_aggregated ms db)" "td_queue db' = Some [Replace a]"
  shows "process_ticket db' = Ok (db'\<lparr>td_tickets := filter (\<lambda>m. m \<notin> set ms) (td_tickets db) @ [row\<lparr>tm_id := td_next_id db'\<rparr>],
     td_next_id := td_next_id db' + 1, td_queue := Some [], td_notified := td_notified db' @ [a]\<rparr>)"
proof -
  let ?sel = "with_state BeingAggregated
      (with_index_range (Included (tk_index t), Excluded (tk_index t + ucast (tk_index_offset t)))
        (sel_new (tk_channel_id t) (ucast (tk_channel_epoch t))))"
  let ?f = "\<lambda>m. if m \<in> set ms then aggregated_row m else m"
  have rows: "td_tickets (set_aggregated ms db) = map ?f (td_tickets db)" by (simp add: set_aggregated_def)
  have kept: "filter (\<lambda>m. \<not> into_condition ?sel m) (td_tickets db') = filter (\<lambda>m. m \<notin> set ms) (td_tickets db)"
    unfolding db(1) rows by (rule filter_marked(2)) (rule replaced_rows [OF inv p agg span ch])
  have "length (filter (\<lambda>m. m \<in> set ms) (td_tickets db)) = length ms"
    using prepared_mset [OF inv p] by (metis size_mset)
  then have "length (td_tickets db) - length (filter (\<lambda>m. m \<notin> set ms) (td_tickets db)) = length ms"
    unfolding deleted_count by simp
  then have del: "length (td_tickets db') - length (filter (\<lambda>m. m \<notin> set ms) (td_tickets db)) = length ms"
    by (simp add: db(1) rows)
  have le: "\<not> unat (ucast (tk_index_offset t) :: u64) < length ms"
    using aggregate_range(2) [OF p agg span] unat_bound [of "tk_index_offset t"] by (simp add: unsigned_ucast_eq take_bit_nat_eq_self)
  have ne: "ts \<noteq> []" using agg by (simp add: aggregate_of_def)
  then have ms: "ms \<noteq> []" using prepared_tickets(2) [OF p] by auto
  have "tm_key row = tm_key (hd ms)"
  proof -
    have "hd (map tm_index ms) = hd (map (\<lambda>u. u64_to_be (tk_index u)) (map tr_ticket ts))"
      by (rule arg_cong [OF prepared_tickets(1) [OF p]])
    then have "tm_index (hd ms) = u64_to_be (tk_index t)" using ms ne agg by (simp add: hd_map aggregate_of_def)
    moreover have "into_condition (sel_of_channel c) (hd ms)" using p hd_in_set [OF ms] by (simp add: prepared_def)
    ultimately show ?thesis
      using a ch by (auto simp: tm_key_def into_condition_channel_key ticket_model_of_def Let_def split: option.splits)
  qed
  moreover have "hd ms \<in> set (td_tickets db)" using p hd_in_set [OF ms] by (auto simp: prepared_def)
  ultimately have "tm_key row \<notin> tm_key ` set (filter (\<lambda>m. m \<notin> set ms) (td_tickets db))"
    using td_inv_key_inj [OF inv] hd_in_set [OF ms] by fastforce
  then have "run_operation (Replace a) (db'\<lparr>td_queue := Some []\<rparr>)
      = Ok (db'\<lparr>td_queue := Some [], td_tickets := filter (\<lambda>m. m \<notin> set ms) (td_tickets db) @ [row\<lparr>tm_id := td_next_id db'\<rparr>],
           td_next_id := td_next_id db' + 1\<rparr>)"
    using le a by (simp add: kept del Let_def insert_row_def)
  then show ?thesis by (simp add: process_ticket_def db(2) Let_def del: run_operation.simps)
qed

lemma wp_approx_eq_refl: "approx_ok approx \<Longrightarrow> wp_approx_eq approx w w"
  by (simp add: wp_approx_eq_def wp_approx_cmp_def Let_def approx_ok_def)

lemma stored_sum:
  assumes "rows_value ms < 2 ^ 256"
  shows "unat (foldl (\<lambda>v m. bal_add v (bal_from_be (tm_amount m))) 0 ms) = rows_value ms"
proof -
  have "foldl (\<lambda>v m. bal_add v (bal_from_be (tm_amount m))) x ms = foldl bal_add x (map (\<lambda>m. bal_from_be (tm_amount m)) ms)" for x
    by (induction ms arbitrary: x) auto
  then have "unat (foldl (\<lambda>v m. bal_add v (bal_from_be (tm_amount m))) 0 ms) = min (rows_value ms) (2 ^ 256 - 1)"
    by (simp add: unat_foldl_bal_add rows_value_def row_value_def [abs_def] comp_def)
  with assms show ?thesis by simp
qed

lemma rows_value_aggregated: "rows_value (map (\<lambda>m. m\<lparr>tm_state := x\<rparr>) ms) = rows_value ms"
  by (induction ms) simp_all

lemma process_received_Ok:
  assumes ok: "ct_ok (cr_keccak (nd_crypto nd)) (cs_channels s)" and a: "approx_ok (nd_approx nd)"
    and c: "chan (cr_keccak (nd_crypto nd)) (cs_channels s) (tk_channel_id (vt_ticket vt)) = Some c"
      "\<not> status_eq (ce_status c) Closed" "ce_direction c (nd_me_onchain nd) = Some Incoming"
    and d: "get_indexer_data (nd_approx nd) (cs_info s) = Ok (nf, d)" "id_channels_dst d = Some ds"
    and vt: "vt_inv (nd_crypto nd) ds vt" "vt_issuer vt = ce_source c" "tk_encoded_win_prob (vt_ticket vt) = wp_always"
    and db: "cs_tickets s = set_aggregated ms db" "td_queue db = Some []" "td_inv (nd_crypto nd) db"
    and p: "prepared nd c db ms ts" "ms \<noteq> []" "rows_value ms = unat (tk_amount (vt_ticket vt))"
  shows "\<exists>resp. process_received_aggregated_ticket nd (vt_ticket vt) (nd_chain_key nd) s
     = (s\<lparr>cs_info := nf, cs_tickets := (set_aggregated ms db)\<lparr>td_queue := Some [Replace (vt_into_acknowledged vt resp)]\<rparr>\<rparr>,
        Ok (vt_into_acknowledged vt resp))"
proof -
  let ?rows = "filter (\<lambda>m. m \<in> set ms) (td_tickets db)"
  define mrows where "mrows = map aggregated_row ?rows"
  have marked_rows: "filter (into_condition (with_state BeingAggregated (sel_of_channel c))) (td_tickets (set_aggregated ms db)) = mrows"
    unfolding mrows_def by (rule set_aggregated_marked [OF p(1)])
  note ms = prepared_mset [OF db(3) p(1)]
  have "?rows \<noteq> []" using ms p(2) by (metis mset_zero_iff)
  then have ne: "mrows \<noteq> []" by (simp add: mrows_def)
  have val: "rows_value mrows = unat (tk_amount (vt_ticket vt))"
    using rows_value_mset [OF ms] p(3) by (simp add: mrows_def rows_value_aggregated)
  have sum: "foldl (\<lambda>v m. bal_add v (bal_from_be (tm_amount m))) 0 mrows = tk_amount (vt_ticket vt)"
    using stored_sum [of mrows] unat_bound [of "tk_amount (vt_ticket vt)"] unfolding val
    by (simp add: word_unat_eq_iff)
  have "\<exists>as. collect_res (map (ticket_of_model (nd_crypto nd)) mrows) = Ok as"
  proof -
    have "\<forall>m. m \<in> set mrows \<longrightarrow> (\<exists>a. ticket_of_model (nd_crypto nd) m = Ok a)"
    proof (intro allI impI)
      fix m assume "m \<in> set mrows"
      then obtain n where n: "m = aggregated_row n" "n \<in> set (td_tickets db)" by (auto simp: mrows_def)
      then obtain a where "row_of (nd_crypto nd) n a" using db(3) by (auto simp: td_inv_def)
      from row_of_read(1) [OF row_of_state [OF this, of BeingAggregated]] show "\<exists>a. ticket_of_model (nd_crypto nd) m = Ok a"
        unfolding n(1) by blast
    qed
    then obtain f where "\<And>m. m \<in> set mrows \<Longrightarrow> ticket_of_model (nd_crypto nd) m = Ok (f m)" by metis
    then show ?thesis using collect_res_Ok by blast
  qed
  then obtain as where as: "collect_res (map (ticket_of_model (nd_crypto nd)) mrows) = Ok as" by blast
  have inc: "incoming_channel nd (tk_channel_id (vt_ticket vt)) s = (s, Ok c)" using incoming_channel_Ok [OF ok] c by blast
  have dat: "indexer_data_of nd s = (s\<lparr>cs_info := nf\<rparr>, Ok d)" by (simp add: indexer_data_of_def d)
  have ver: "ticket_verify (nd_crypto nd) (vt_ticket vt) (ce_source c) ds = Ok vt" using vt by (simp add: ticket_verify_Ok_iff)
  have q: "td_queue (set_aggregated ms db) = Some []" using db(2) by (simp add: set_aggregated_def)
  have key: "cr_address (nd_crypto nd) (nd_chain_key nd) = nd_me_onchain nd" by (simp add: nd_me_onchain_def)
  show ?thesis
  proof (rule exI [of _ "at_response (hd as)"])
    show "process_received_aggregated_ticket nd (vt_ticket vt) (nd_chain_key nd) s
     = (s\<lparr>cs_info := nf, cs_tickets := (set_aggregated ms db)\<lparr>td_queue := Some [Replace (vt_into_acknowledged vt (at_response (hd as)))]\<rparr>\<rparr>,
        Ok (vt_into_acknowledged vt (at_response (hd as))))"
      unfolding process_received_aggregated_ticket_def key
      by (simp add: act_bind_def inc dat channels_domain_separator_def act_lift_def d(2) ver vt(3) wp_approx_eq_refl [OF a] db_query_def
          db(1) marked_rows ne sum as replace_tickets_def enqueue_operation_def q ticket_tx_def act_return_def
          Let_def del: map_map)
  qed
qed

lemma ord_cmp_neg: "ord_cmp (- int m) (- int n) = ord_cmp n m"
  by (auto simp: ord_cmp_def)

lemma first_idx_past_redeemed:
  assumes inv: "td_inv cr db" and i: "first_idx_to_take c db = Ok i" and m: "m \<in> set (td_tickets db)"
    and st: "into_condition (with_state BeingRedeemed (sel_of_channel c)) m"
  shows "row_index m < unat i"
proof -
  let ?ms = "filter (into_condition (with_state BeingRedeemed (sel_of_channel c))) (td_tickets db)"
  let ?s = "sort_by (\<lambda>a b. blob_cmp (tm_index b) (tm_index a)) ?ms"
  have row: "\<exists>a. row_of cr x a" if "x \<in> set ?ms" for x using inv that by (auto simp: td_inv_def)
  have "sorted (map (\<lambda>m. - int (row_index m)) ?s)"
  proof (rule sorted_sort_by)
    fix x y assume "x \<in> set ?ms" "y \<in> set ?ms"
    then obtain a b where "row_of cr x a" "row_of cr y b" using row by blast
    then show "blob_cmp (tm_index y) (tm_index x) = ord_cmp (- int (row_index x)) (- int (row_index y))"
      unfolding ord_cmp_neg by (intro blob_cmp_be_decode) (simp add: row_of_columns(1))
  qed
  moreover have "m \<in> set ?s" using m st by simp
  ultimately obtain n ns where n: "?s = n # ns" "row_index m \<le> row_index n" by (cases ?s) auto
  then have "n \<in> set ?ms" by (metis list.set_intros(1) set_sort_by)
  then obtain a where a: "row_of cr n a" using row by blast
  then have "tk_index (vt_ticket (at_ticket a)) \<le> push_bit 48 1" by (simp add: row_of_def at_storable_def Let_def)
  then have "row_index n \<le> 2 ^ 48" by (simp add: row_of_columns(1) [OF a] word_le_nat_alt)
  moreover have "unat (tk_index (vt_ticket (at_ticket a)) + 1) \<le> unat i"
  proof -
    have r: "u256_from_be (u64_to_be j) = ucast j" "u256_as_u64 (ucast j :: u256) = (Ok j :: (db_error, u64) result)" for j :: u64
      using unat_bound [of j]
      by (simp_all add: u256_from_be_def u64_to_be_def be_decode_encode unsigned_ucast_eq u256_as_u64_def take_bit_nat_eq_self word_unat_eq_iff)
    show ?thesis
      using i n(1) by (auto simp: first_idx_to_take_def row_of_columns(1) [OF a] u256_from_be_bytes_def r map_res_Inr_iff word_le_nat_alt [symmetric])
  qed
  ultimately show ?thesis using n(2) by (simp add: row_of_columns(1) [OF a] unat_word_ariths)
qed

section \<open>Which tickets are prepared\<close>

text \<open>
  What a preparation selects, without the columns and their encodings: the candidates by increasing index, the longest
  affordable run of those that win often enough, and whether the prerequisites are met.
\<close>

definition aggregation_candidates :: "channel_entry \<Rightarrow> ticket_db \<Rightarrow> ticket_model list" where
  "aggregation_candidates c db =
     take 500 (sort_key row_index (filter (\<lambda>m. into_condition (sel_of_channel c) m \<and> unat (ce_ticket_index c) \<le> row_index m
       \<and> (\<forall>r \<in> set (td_tickets db). into_condition (with_state BeingRedeemed (sel_of_channel c)) r \<longrightarrow> row_index r < row_index m))
       (td_tickets db)))"

fun affordable :: "nat \<Rightarrow> ticket_model list \<Rightarrow> ticket_model list" where
  "affordable b [] = []"
| "affordable b (m # ms) = (if row_value m \<le> b then m # affordable (b - row_value m) ms else [])"

definition worth_aggregating :: "aggregation_prerequisites \<Rightarrow> channel_entry \<Rightarrow> ticket_model list \<Rightarrow> bool" where
  "worth_aggregating pre c ms \<longleftrightarrow>
     min_ticket_count pre = None \<and> min_unaggregated_ratio pre = None
     \<or> (case min_ticket_count pre of Some n \<Rightarrow> n \<le> length ms | None \<Rightarrow> False)
     \<or> (case min_unaggregated_ratio pre of
          Some r \<Rightarrow> (case u256_mul_f64 (ce_balance c) r of Inr d \<Rightarrow> unat d \<le> rows_value ms \<and> 1 < length ms | Inl _ \<Rightarrow> False)
        | None \<Rightarrow> False)"

definition offered_for_aggregation ::
  "(rat \<Rightarrow> rat \<Rightarrow> bool) \<Rightarrow> aggregation_prerequisites \<Rightarrow> channel_entry \<Rightarrow> win_prob \<Rightarrow> ticket_model list \<Rightarrow> ticket_model list" where
  "offered_for_aggregation approx pre c w ms =
     (let taken = affordable (unat (ce_balance c)) (filter (wins_enough approx w) ms) in
      if worth_aggregating pre c taken then taken else [])"

lemma affordable_append:
  "rows_value taken \<le> b \<Longrightarrow> (rest \<noteq> [] \<longrightarrow> b < rows_value taken + row_value (hd rest)) \<Longrightarrow> affordable b (taken @ rest) = taken"
proof (induction taken arbitrary: b)
  case Nil
  then show ?case by (cases rest) simp_all
next
  case (Cons m taken)
  have "affordable (b - row_value m) (taken @ rest) = taken"
  proof (rule Cons.IH)
    show "rows_value taken \<le> b - row_value m" using Cons.prems(1) by simp
    show "rest \<noteq> [] \<longrightarrow> b - row_value m < rows_value taken + row_value (hd rest)" using Cons.prems by fastforce
  qed
  then show ?case using Cons.prems(1) by simp
qed

lemma filter_satisfying_offered:
  assumes "\<forall>m \<in> set ms. length (tm_winning_probability m) = encoded_win_prob_length"
    and "rows_value ms < 2 ^ 256" and xs: "filter_satisfying_ticket_models approx pre ms c w = Ok xs"
  shows "xs = offered_for_aggregation approx pre c w ms"
proof -
  obtain taken rest where t: "filter (wins_enough approx w) ms = taken @ rest"
    "take_satisfying approx (ce_balance c) w ms 0 = Ok (taken, of_nat (rows_value taken))"
    "rows_value taken \<le> unat (ce_balance c)"
    "rest \<noteq> [] \<longrightarrow> unat (ce_balance c) < rows_value taken + row_value (hd rest)"
    using take_satisfying_prefix [OF assms(1), of 0 approx w "ce_balance c"] assms(2) by auto
  have a: "affordable (unat (ce_balance c)) (filter (wins_enough approx w) ms) = taken"
    unfolding t(1) by (rule affordable_append [OF t(3,4)])
  have u: "unat (of_nat (rows_value taken) :: u256) = rows_value taken"
    using order_le_less_trans [OF t(3) unat_bound] by (simp add: unat_of_nat)
  have le: "d \<le> of_nat (rows_value taken) \<longleftrightarrow> unat d \<le> rows_value taken" for d :: u256
    unfolding word_le_nat_alt u ..
  show ?thesis
    using xs t(2) unfolding offered_for_aggregation_def a Let_def worth_aggregating_def filter_satisfying_ticket_models_def
    by (auto simp: and_then_Inr_iff map_fail_Inr_iff le split: if_splits option.splits sum.splits)
qed

lemma sort_by_sort_key:
  fixes f :: "'a \<Rightarrow> 'b::linorder"
  assumes "\<And>x y. x \<in> set xs \<Longrightarrow> y \<in> set xs \<Longrightarrow> cmp x y = ord_cmp (f x) (f y)"
  shows "sort_by cmp xs = sort_key f xs"
proof -
  have ins: "insert_by cmp x ys = insort_key f x ys" if "\<And>y. y \<in> set ys \<Longrightarrow> cmp x y = ord_cmp (f x) (f y)" for x ys
    using that by (induction ys) (auto simp: ord_cmp_def)
  show ?thesis using assms
  proof (induction xs)
    case (Cons x xs)
    then have "sort_by cmp xs = sort_key f xs" by simp
    moreover have "insert_by cmp x (sort_key f xs) = insort_key f x (sort_key f xs)" by (rule ins) (use Cons.prems in simp)
    ultimately show ?case by (simp add: sort_by_Cons)
  qed (simp add: sort_by_Cons)
qed

lemma first_idx_value:
  assumes inv: "td_inv cr db" and i: "first_idx_to_take c db = Ok i"
  shows "unat i \<le> k \<longleftrightarrow> unat (ce_ticket_index c) \<le> k
     \<and> (\<forall>r \<in> set (td_tickets db). into_condition (with_state BeingRedeemed (sel_of_channel c)) r \<longrightarrow> row_index r < k)"
proof
  assume le: "unat i \<le> k"
  have "\<exists>x y. u256_as_u64 (ce_ticket_index c) = (Ok x :: (db_error, u64) result) \<and> i = max y x"
    using i by (auto simp: first_idx_to_take_def Let_def and_then_Inr_iff map_res_Inr_iff)
  then have "unat (ce_ticket_index c) \<le> unat i"
    by (auto simp: u256_as_u64_def unsigned_ucast_eq take_bit_nat_eq_self max_def word_le_nat_alt split: if_splits)
  then show "unat (ce_ticket_index c) \<le> k
     \<and> (\<forall>r \<in> set (td_tickets db). into_condition (with_state BeingRedeemed (sel_of_channel c)) r \<longrightarrow> row_index r < k)"
    using le first_idx_past_redeemed [OF inv i] by fastforce
next
  assume k: "unat (ce_ticket_index c) \<le> k
     \<and> (\<forall>r \<in> set (td_tickets db). into_condition (with_state BeingRedeemed (sel_of_channel c)) r \<longrightarrow> row_index r < k)"
  let ?ms = "filter (into_condition (with_state BeingRedeemed (sel_of_channel c))) (td_tickets db)"
  let ?s = "sort_by (\<lambda>a b. blob_cmp (tm_index b) (tm_index a)) ?ms"
  have ix: "unat x \<le> k" if "u256_as_u64 (ce_ticket_index c) = (Ok x :: (db_error, u64) result)" for x
    using that k by (auto simp: u256_as_u64_def unsigned_ucast_eq take_bit_nat_eq_self split: if_splits)
  show "unat i \<le> k"
  proof (cases ?s)
    case Nil
    then show ?thesis using i ix by (auto simp: first_idx_to_take_def map_res_Inr_iff max_def)
  next
    case (Cons n ns)
    then have n: "n \<in> set ?ms" by (metis list.set_intros(1) set_sort_by)
    then obtain a where a: "row_of cr n a" using inv by (auto simp: td_inv_def)
    let ?j = "tk_index (vt_ticket (at_ticket a))"
    have "row_index n < k" using k n by simp
    then have "unat ?j + 1 \<le> k" by (simp add: row_of_columns(1) [OF a])
    moreover have "unat (?j + 1) \<le> unat ?j + 1" by (simp add: unat_word_ariths)
    ultimately have "unat (?j + 1) \<le> k" by (rule order_trans [rotated])
    moreover have "u256_from_be (u64_to_be j) = ucast j" "u256_as_u64 (ucast j :: u256) = (Ok j :: (db_error, u64) result)" for j :: u64
      using unat_bound [of j]
      by (simp_all add: u256_from_be_def u64_to_be_def be_decode_encode unsigned_ucast_eq u256_as_u64_def take_bit_nat_eq_self word_unat_eq_iff)
    ultimately show ?thesis
      using i ix Cons by (auto simp: first_idx_to_take_def row_of_columns(1) [OF a] u256_from_be_bytes_def map_res_Inr_iff max_def)
  qed
qed

lemma candidates_eq:
  assumes inv: "td_inv cr db" and i: "first_idx_to_take c db = Ok i"
    and none: "\<forall>m \<in> set (td_tickets db). \<not> into_condition (with_state BeingAggregated (sel_of_channel c)) m"
  shows "tickets_to_aggregate c i db = aggregation_candidates c db"
proof -
  let ?P = "\<lambda>m. into_condition (sel_of_channel c) m \<and> blob_cmp (tm_index m) (u64_to_be i) \<noteq> Less \<and> tm_state m \<noteq> status_code BeingAggregated"
  have row: "\<exists>a. row_of cr m a" if "m \<in> set (td_tickets db)" for m using inv that by (simp add: td_inv_def)
  have f: "filter ?P (td_tickets db) = filter (\<lambda>m. into_condition (sel_of_channel c) m \<and> unat (ce_ticket_index c) \<le> row_index m
       \<and> (\<forall>r \<in> set (td_tickets db). into_condition (with_state BeingRedeemed (sel_of_channel c)) r \<longrightarrow> row_index r < row_index m)) (td_tickets db)"
  proof (rule filter_cong [OF refl])
    fix m assume m: "m \<in> set (td_tickets db)"
    then obtain a where "row_of cr m a" using row by blast
    then have "blob_cmp (tm_index m) (u64_to_be i) \<noteq> Less \<longleftrightarrow> unat i \<le> row_index m"
      by (auto simp: row_of_columns(1) blob_cmp_u64 ord_cmp_def word_le_nat_alt word_less_nat_alt not_less)
    then show "?P m = (into_condition (sel_of_channel c) m \<and> unat (ce_ticket_index c) \<le> row_index m
       \<and> (\<forall>r \<in> set (td_tickets db). into_condition (with_state BeingRedeemed (sel_of_channel c)) r \<longrightarrow> row_index r < row_index m))"
      using none m first_idx_value [OF inv i, of "row_index m"] unfolding into_condition_channel_state by blast
  qed
  have "sort_by (\<lambda>a b. blob_cmp (tm_index a) (tm_index b)) (filter ?P (td_tickets db)) = sort_key row_index (filter ?P (td_tickets db))"
  proof (rule sort_by_sort_key)
    fix m n assume "m \<in> set (filter ?P (td_tickets db))" "n \<in> set (filter ?P (td_tickets db))"
    then have "m \<in> set (td_tickets db)" "n \<in> set (td_tickets db)" by simp_all
    then obtain a b where "row_of cr m a" "row_of cr n b" using row by meson
    then show "blob_cmp (tm_index m) (tm_index n) = ord_cmp (row_index m) (row_index n)"
      by (intro blob_cmp_be_decode) (simp add: row_of_columns(1))
  qed
  then show ?thesis unfolding tickets_to_aggregate_def aggregation_candidates_def max_tickets_to_aggregate_batch_def f by simp
qed

lemma candidates_ok:
  assumes inv: "td_inv cr db"
  shows "\<forall>m \<in> set (tickets_to_aggregate c i db). length (tm_winning_probability m) = encoded_win_prob_length"
    and "rows_value (tickets_to_aggregate c i db) \<le> rows_value (td_tickets db)"
proof -
  show "\<forall>m \<in> set (tickets_to_aggregate c i db). length (tm_winning_probability m) = encoded_win_prob_length"
  proof
    fix m assume "m \<in> set (tickets_to_aggregate c i db)"
    then have "m \<in> set (td_tickets db)" by (auto simp: tickets_to_aggregate_def dest!: in_set_takeD)
    moreover have "\<forall>m \<in> set (td_tickets db). \<exists>a. row_of cr m a" using inv by (simp add: td_inv_def)
    ultimately obtain a where "row_of cr m a" by blast
    then show "length (tm_winning_probability m) = encoded_win_prob_length"
      by (auto simp: row_of_columns(6)) (auto simp: row_of_def at_storable_def Let_def ticket_wf_def)
  qed
  show "rows_value (tickets_to_aggregate c i db) \<le> rows_value (td_tickets db)"
    unfolding tickets_to_aggregate_def
    by (rule order_trans [OF rows_value_take]) (simp only: rows_value_mset [OF mset_sort_by] rows_value_filter_le)
qed

lemma take_for_aggregation_exact:
  assumes inv: "td_inv (nd_crypto nd) db" and fits: "rows_value (td_tickets db) < 2 ^ 256"
    and res: "take_for_aggregation nd rnd pre c ds w db = Ok (db', ts)"
  shows "\<exists>ms. prepared nd c db ms ts \<and> db' = set_aggregated ms db
     \<and> ms = without_covered (unat (tk_index (tr_ticket (hd ts)) + ucast (tk_index_offset (tr_ticket (hd ts)))))
         (offered_for_aggregation (nd_approx nd) pre c w (aggregation_candidates c db))"
proof -
  obtain ms i xs where p: "prepared nd c db ms ts" "db' = set_aggregated ms db" "first_idx_to_take c db = Ok i"
    and xs: "filter_satisfying_ticket_models (nd_approx nd) pre (tickets_to_aggregate c i db) c w = Ok xs"
    and ms: "ms = without_covered (unat (tk_index (tr_ticket (hd ts)) + ucast (tk_index_offset (tr_ticket (hd ts))))) xs"
    using take_for_aggregation_Ok [OF assms] by (elim exE conjE) (rule that)
  have none: "\<forall>m \<in> set (td_tickets db). \<not> into_condition (with_state BeingAggregated (sel_of_channel c)) m"
    using p(1) by (simp add: prepared_def)
  have "xs = offered_for_aggregation (nd_approx nd) pre c w (aggregation_candidates c db)"
    using filter_satisfying_offered [OF candidates_ok(1) [OF inv] order_le_less_trans [OF candidates_ok(2) [OF inv] fits] xs]
    unfolding candidates_eq [OF inv p(3) none] .
  with p(1,2) ms show ?thesis by blast
qed

end
