(* ===== verification/Aggregation_Round.thy ===== *)
theory Aggregation_Round
  imports Ticket_Aggregation
begin

text \<open>
  Properties of the aggregation of tickets: what a preparation marks and a roll-back restores, what the issuer signs, and
  that a round between the two nodes of a channel replaces the prepared tickets by one ticket of the same value.
\<close>

section \<open>Properties\<close>

lemma prepare_Ok:
  assumes ok: "ct_ok (cr_keccak (nd_crypto nd)) (cs_channels s)"
    and res: "prepare_aggregation_in_channel nd rnd i pre s = (s', Ok (Some (pk, ts, ds)))"
  shows "\<exists>c d. chan (cr_keccak (nd_crypto nd)) (cs_channels s) i = Some c \<and> \<not> status_eq (ce_status c) Closed
     \<and> ce_direction c (nd_me_onchain nd) = Some Incoming \<and> ts \<noteq> []
     \<and> get_indexer_data (nd_approx nd) (cs_info s) = Ok (cs_info s', d)
     \<and> get_indexer_data (nd_approx nd) (cs_info s') = Ok (cs_info s', d) \<and> id_channels_dst d = Some ds
     \<and> take_for_aggregation nd rnd pre c ds (id_min_win_prob d) (cs_tickets s) = Ok (cs_tickets s', ts)
     \<and> cs_channels s' = cs_channels s"
proof -
  obtain c s1 s2 d td where c: "incoming_channel nd i s = (s, Ok c)"
    and s1: "resolve_packet_key nd (ce_source c) s = (s1, Ok (Some pk))"
    and s2: "indexer_data_of nd s1 = (s2, Ok d)" and ds: "id_channels_dst d = Some ds"
    and td: "take_for_aggregation nd rnd pre c ds (id_min_win_prob d) (cs_tickets s2) = Ok (td, ts)"
    and s': "s' = s2\<lparr>cs_tickets := td\<rparr>" and ne: "ts \<noteq> []"
    using res unfolding prepare_aggregation_in_channel_def channels_domain_separator_def
    by (auto simp: act_Ok_iff ok_or_Inr_iff incoming_channel_Ok [OF ok] split: if_splits)
  then show ?thesis
    using c [unfolded incoming_channel_Ok [OF ok]] resolve_frame(2) [OF s1] indexer_data_frame [OF s2] td s' ne ds
    by (intro exI [of _ c] exI [of _ d]) simp
qed

lemma prepare_prepared:
  assumes ok: "ct_ok (cr_keccak (nd_crypto nd)) (cs_channels s)" and inv: "td_inv (nd_crypto nd) (cs_tickets s)"
    and fits: "rows_value (td_tickets (cs_tickets s)) < 2 ^ 256"
    and res: "prepare_aggregation_in_channel nd rnd i pre s = (s', Ok (Some (pk, ts, ds)))"
    and c: "chan (cr_keccak (nd_crypto nd)) (cs_channels s) i = Some c"
  shows "\<exists>ms. prepared nd c (cs_tickets s) ms ts \<and> cs_tickets s' = set_aggregated ms (cs_tickets s)
     \<and> rows_value ms \<le> unat (ce_balance c) \<and> length ms \<le> 500 \<and> ms \<noteq> []
     \<and> (\<forall>t \<in> set ts. unat (ce_ticket_index c) \<le> unat (tk_index (tr_ticket t)))
     \<and> (\<forall>t \<in> set (tl ts). tk_index (tr_ticket (hd ts)) + ucast (tk_index_offset (tr_ticket (hd ts))) \<le> tk_index (tr_ticket t))
     \<and> (\<forall>m \<in> set (td_tickets (cs_tickets s)). into_condition (with_state BeingRedeemed (sel_of_channel c)) m
          \<longrightarrow> (\<forall>n \<in> set ms. row_index m < row_index n))"
proof -
  obtain d :: indexer_data where d: "take_for_aggregation nd rnd pre c ds (id_min_win_prob d) (cs_tickets s) = Ok (cs_tickets s', ts)" "ts \<noteq> []"
    using prepare_Ok [OF ok res] unfolding c option.inject by blast
  from take_for_aggregation_Ok [OF inv fits d(1)] obtain ms j where p: "prepared nd c (cs_tickets s) ms ts"
    and st: "cs_tickets s' = set_aggregated ms (cs_tickets s)" "rows_value ms \<le> unat (ce_balance c)" "length ms \<le> 500"
    and j: "first_idx_to_take c (cs_tickets s) = Ok j" "\<forall>m \<in> set ms. unat j \<le> row_index m"
    and rest: "\<forall>t us. ts = t # us \<longrightarrow> (\<forall>u \<in> set us. tk_index (tr_ticket t) + ucast (tk_index_offset (tr_ticket t)) \<le> tk_index (tr_ticket u))"
    by blast
  have ne: "ms \<noteq> []" using prepared_tickets(2) [OF p] d(2) by auto
  have "\<exists>x y. u256_as_u64 (ce_ticket_index c) = (Ok x :: (db_error, u64) result) \<and> j = max y x"
    using j(1) by (auto simp: first_idx_to_take_def Let_def and_then_Inr_iff map_res_Inr_iff)
  then have cj: "unat (ce_ticket_index c) \<le> unat j"
    by (auto simp: u256_as_u64_def unsigned_ucast_eq take_bit_nat_eq_self max_def word_le_nat_alt split: if_splits)
  have "unat (ce_ticket_index c) \<le> unat (tk_index (tr_ticket t))" if t: "t \<in> set ts" for t
  proof -
    have "unat (tk_index (tr_ticket t)) \<in> row_index ` set ms"
      using t prepared_index [OF p] by (metis image_eqI image_set)
    then show ?thesis using cj j(2) by fastforce
  qed
  moreover have "row_index m < row_index n"
    if "m \<in> set (td_tickets (cs_tickets s))" "into_condition (with_state BeingRedeemed (sel_of_channel c)) m" "n \<in> set ms" for m n
    using first_idx_past_redeemed [OF inv j(1) that(1,2)] j(2) that(3) by fastforce
  moreover have "\<forall>t \<in> set (tl ts). tk_index (tr_ticket (hd ts)) + ucast (tk_index_offset (tr_ticket (hd ts))) \<le> tk_index (tr_ticket t)"
    using rest d(2) by (cases ts) simp_all
  ultimately show ?thesis using p st ne by (intro exI [of _ ms]) simp
qed

lemma prepare_cases:
  assumes ok: "ct_ok (cr_keccak (nd_crypto nd)) (cs_channels s)"
    and res: "prepare_aggregation_in_channel nd rnd i pre s = (s', Ok r)"
  shows "\<exists>c nf d ds pk ts. chan (cr_keccak (nd_crypto nd)) (cs_channels s) i = Some c \<and> \<not> status_eq (ce_status c) Closed
     \<and> ce_direction c (nd_me_onchain nd) = Some Incoming
     \<and> get_indexer_data (nd_approx nd) (cs_info s) = Ok (nf, d) \<and> id_channels_dst d = Some ds
     \<and> take_for_aggregation nd rnd pre c ds (id_min_win_prob d) (cs_tickets s) = Ok (cs_tickets s', ts)
     \<and> r = (if ts = [] then None else Some (pk, ts, ds))"
proof -
  obtain c s1 s2 d td pk ts ds where c: "incoming_channel nd i s = (s, Ok c)"
    and s1: "resolve_packet_key nd (ce_source c) s = (s1, Ok (Some pk))"
    and s2: "indexer_data_of nd s1 = (s2, Ok d)" and ds: "id_channels_dst d = Some ds"
    and td: "take_for_aggregation nd rnd pre c ds (id_min_win_prob d) (cs_tickets s2) = Ok (td, ts)"
    and s': "s' = s2\<lparr>cs_tickets := td\<rparr>" and r: "r = (if ts = [] then None else Some (pk, ts, ds))"
    using res unfolding prepare_aggregation_in_channel_def channels_domain_separator_def
    by (auto simp: act_Ok_iff ok_or_Inr_iff incoming_channel_Ok [OF ok] split: if_splits)
  then show ?thesis
    using c [unfolded incoming_channel_Ok [OF ok]] resolve_frame(2) [OF s1] indexer_data_frame [OF s2] td s' ds
    by (intro exI [of _ c] exI [of _ "cs_info s2"] exI [of _ d] exI [of _ ds] exI [of _ pk] exI [of _ ts]) simp
qed

text \<open>C16: exactly which tickets a successful preparation of an aggregation selects. The channel is an open incoming one. Candidates are
the stored tickets of its epoch from the ticket index of the channel on and past every ticket being redeemed, by increasing
index, at most 500; of those with enough winning probability the longest run from the first that the balance of the channel
affords is taken, if the prerequisites are met (those of C23); and of this run the tickets after the first whose index lies in
the range of the first are left out. If nothing is selected, the tickets stay as they are; otherwise the returned tickets are
those of the selected rows, no aggregation was running in the channel, and exactly the selected rows change, by becoming
marked as being aggregated.\<close>
theorem aggregation_preparation_correct:
  assumes "ct_ok (cr_keccak (nd_crypto nd)) (cs_channels s)" and "td_inv (nd_crypto nd) (cs_tickets s)"
    and "rows_value (td_tickets (cs_tickets s)) < 2 ^ 256"
    and "prepare_aggregation_in_channel nd rnd i pre s = (s', Ok r)"
  shows "\<exists>c nf d. chan (cr_keccak (nd_crypto nd)) (cs_channels s) i = Some c \<and> \<not> status_eq (ce_status c) Closed
     \<and> ce_direction c (nd_me_onchain nd) = Some Incoming \<and> get_indexer_data (nd_approx nd) (cs_info s) = Ok (nf, d)
     \<and> (let offered = offered_for_aggregation (nd_approx nd) pre c (id_min_win_prob d) (aggregation_candidates c (cs_tickets s)) in
          case r of
            None \<Rightarrow> offered = [] \<and> cs_tickets s' = cs_tickets s
          | Some (pk, ts, ds) \<Rightarrow>
              let first = tr_ticket (hd ts);
                  ms = without_covered (unat (tk_index first + ucast (tk_index_offset first))) offered in
              ms \<noteq> [] \<and> id_channels_dst d = Some ds \<and> prepared nd c (cs_tickets s) ms ts
              \<and> cs_tickets s' = set_aggregated ms (cs_tickets s) \<and> rows_value ms \<le> unat (ce_balance c))"
proof -
  obtain c nf d ds pk ts where c: "chan (cr_keccak (nd_crypto nd)) (cs_channels s) i = Some c" "\<not> status_eq (ce_status c) Closed"
      "ce_direction c (nd_me_onchain nd) = Some Incoming" "get_indexer_data (nd_approx nd) (cs_info s) = Ok (nf, d)" "id_channels_dst d = Some ds"
    and t: "take_for_aggregation nd rnd pre c ds (id_min_win_prob d) (cs_tickets s) = Ok (cs_tickets s', ts)"
    and r: "r = (if ts = [] then None else Some (pk, ts, ds))" using prepare_cases [OF assms(1,4)] by (elim exE conjE) (rule that)
  define sel where "sel = offered_for_aggregation (nd_approx nd) pre c (id_min_win_prob d) (aggregation_candidates c (cs_tickets s))"
  obtain ms where p: "prepared nd c (cs_tickets s) ms ts" "cs_tickets s' = set_aggregated ms (cs_tickets s)"
    and ms: "ms = without_covered (unat (tk_index (tr_ticket (hd ts)) + ucast (tk_index_offset (tr_ticket (hd ts))))) sel"
    using take_for_aggregation_exact [OF assms(2,3) t, folded sel_def] by (elim exE conjE) (rule that)
  obtain ms' where "prepared nd c (cs_tickets s) ms' ts" "rows_value ms' \<le> unat (ce_balance c)"
    using take_for_aggregation_Ok [OF assms(2,3) t] by (elim exE conjE) (rule that)
  then have bal: "rows_value ms \<le> unat (ce_balance c)" using prepared_rows_value p(1) by metis
  show ?thesis
  proof (cases ts)
    case Nil
    then have "ms = []" using prepared_tickets(2) [OF p(1)] by simp
    then have "sel = []" using ms by (cases sel) simp_all
    moreover have "cs_tickets s' = cs_tickets s" using p(2) \<open>ms = []\<close> by (simp add: set_aggregated_def)
    ultimately show ?thesis using c r Nil
      by (intro exI [of _ c] exI [of _ nf] exI [of _ d]) (simp add: sel_def)
  next
    case (Cons t us)
    then have "ms \<noteq> []" using prepared_tickets(2) [OF p(1)] by auto
    then show ?thesis using c r Cons p bal ms
      by (intro exI [of _ c] exI [of _ nf] exI [of _ d]) (simp add: sel_def Let_def)
  qed
qed

text \<open>C17: rolling back a prepared aggregation succeeds and gives back the ticket database as it was before the preparation.\<close>
theorem aggregation_rollback_restores:
  assumes "ct_ok (cr_keccak (nd_crypto nd)) (cs_channels s)" and "td_inv (nd_crypto nd) (cs_tickets s)"
    and "rows_value (td_tickets (cs_tickets s)) < 2 ^ 256"
    and "prepare_aggregation_in_channel nd rnd i pre s = (s', Ok (Some (pk, ts, ds)))"
  shows "\<exists>s''. rollback_aggregation_in_channel nd i s' = (s'', Ok ()) \<and> cs_tickets s'' = cs_tickets s"
proof -
  obtain c d where c: "chan (cr_keccak (nd_crypto nd)) (cs_channels s) i = Some c" "cs_channels s' = cs_channels s"
    using prepare_Ok [OF assms(1,4)] by blast
  obtain ms where p: "prepared nd c (cs_tickets s) ms ts" and st: "cs_tickets s' = set_aggregated ms (cs_tickets s)"
    and red: "\<forall>m \<in> set (td_tickets (cs_tickets s)). into_condition (with_state BeingRedeemed (sel_of_channel c)) m
          \<longrightarrow> (\<forall>n \<in> set ms. row_index m < row_index n)"
    using prepare_prepared [OF assms c(1)] by blast
  let ?f = "\<lambda>m. if m \<in> set ms then aggregated_row m else m"
  let ?g = "\<lambda>m. if into_condition (with_state BeingAggregated (sel_of_channel c)) m then m\<lparr>tm_state := status_code Untouched\<rparr> else m"
  have "?g (?f m) = m" if m: "m \<in> set (td_tickets (cs_tickets s))" for m
  proof (cases "m \<in> set ms")
    case True
    have ch: "into_condition (sel_of_channel c) m" "tm_state m \<noteq> status_code BeingAggregated" using p True by (auto simp: prepared_def)
    have "tm_state m \<noteq> status_code BeingRedeemed"
      using red m True ch(1) unfolding into_condition_channel_state by blast
    moreover obtain a where "row_of (nd_crypto nd) m a" using assms(2) m by (auto simp: td_inv_def)
    then have "tm_state m = status_code (at_status a)" by (rule row_of_columns)
    ultimately have "tm_state m = status_code Untouched" using ch(2) by (cases "at_status a") simp_all
    then show ?thesis using True ch(1) unfolding into_condition_channel_state by simp
  next
    case False
    then show ?thesis using p m by (simp add: prepared_def)
  qed
  then have "map ?g (td_tickets (set_aggregated ms (cs_tickets s))) = td_tickets (cs_tickets s)"
    by (simp add: set_aggregated_def map_idI)
  then have "fst (update_ticket_states (with_state BeingAggregated (sel_of_channel c)) Untouched (cs_tickets s')) = cs_tickets s"
    by (simp add: update_ticket_states_def st set_aggregated_def)
  then show ?thesis
    using get_channel_by_id_eq [OF assms(1)] c
    by (intro exI [of _ "s'\<lparr>cs_tickets := cs_tickets s\<rparr>"])
      (simp add: rollback_aggregation_in_channel_def act_bind_def db_query_def ticket_tx_def)
qed

lemma list_all2_setD1: "list_all2 R xs ys \<Longrightarrow> x \<in> set xs \<Longrightarrow> \<exists>y. R x y"
  by (induction rule: list_all2_induct) auto

lemma aggregate_tickets_many:
  assumes "aggregate_tickets nd dest ts me s = (s', Ok vt)" and "2 \<le> length ts"
  shows "\<exists>s1 d ds. indexer_data_of nd s = (s1, Ok d) \<and> id_channels_dst d = Some ds \<and> cr_address (nd_crypto nd) me = nd_me_onchain nd
     \<and> aggregate_many nd dest ts me ds s1 = (s', Ok vt)"
proof -
  obtain t u us where "ts = t # u # us" using assms(2) by (cases ts rule: remdups_adj.cases) auto
  then show ?thesis
    using assms(1) unfolding aggregate_tickets_def channels_domain_separator_def
    by (auto simp: act_Ok_iff ok_or_Inr_iff split: if_splits)
qed

lemma aggregate_tickets_Ok:
  assumes cr: "crypto_ok (nd_crypto nd)" and ok: "ct_ok (cr_keccak (nd_crypto nd)) (cs_channels s)"
    and res: "aggregate_tickets nd dest ts me s = (s', Ok vt)" and len: "2 \<le> length ts"
  defines "us \<equiv> dedup_by tr_eq (sort_by tr_cmp ts)"
  shows "\<exists>c a nf d ds rs. chan (cr_keccak (nd_crypto nd)) (cs_channels s) (ce_get_id c) = Some c \<and> parties_of c = (nd_me_onchain nd, a)
     \<and> get_indexer_data (nd_approx nd) (cs_info s) = Ok (nf, d) \<and> id_channels_dst d = Some ds
     \<and> collect_res (map (\<lambda>t. tr_into_redeemable (nd_crypto nd) t (nd_me_onchain nd) ds) us) = Ok rs
     \<and> aggregate_of (nd_approx nd) c (id_min_win_prob d) (map tr_ticket us) (vt_ticket vt)
     \<and> tk_amount (vt_ticket vt) < max_ticket_amount
     \<and> vt_inv (nd_crypto nd) ds vt \<and> vt_issuer vt = nd_me_onchain nd
     \<and> (\<exists>n. compare_and_set_outgoing_ticket_index (ce_get_id c) (tk_index (tr_ticket (List.last us)) + 1) (cs_tickets s) = Ok (cs_tickets s', n))"
proof -
  obtain s1 d ds where s1: "indexer_data_of nd s = (s1, Ok d)" and ds: "id_channels_dst d = Some ds"
    and key: "cr_address (nd_crypto nd) me = nd_me_onchain nd" and many: "aggregate_many nd dest ts me ds s1 = (s', Ok vt)"
    using aggregate_tickets_many [OF res len] by blast
  note fr = indexer_data_frame [OF s1]
  have ok1: "ct_ok (cr_keccak (nd_crypto nd)) (cs_channels s1)" using ok fr by simp
  have "ts \<noteq> []" using len by auto
  from aggregate_many_Ok [OF cr ok1 many this, folded us_def] obtain c a d' td n rs where
    m: "chan (cr_keccak (nd_crypto nd)) (cs_channels s1) (ce_get_id c) = Some c" "parties_of c = (nd_me_onchain nd, a)"
      "get_indexer_data (nd_approx nd) (cs_info s1) = Ok (cs_info s', d')"
      "collect_res (map (\<lambda>t. tr_into_redeemable (nd_crypto nd) t (nd_me_onchain nd) ds) us) = Ok rs"
      "aggregate_of (nd_approx nd) c (id_min_win_prob d') (map tr_ticket us) (vt_ticket vt)"
      "tk_amount (vt_ticket vt) < max_ticket_amount"
      "vt_inv (nd_crypto nd) ds vt" "vt_issuer vt = cr_address (nd_crypto nd) me"
      "compare_and_set_outgoing_ticket_index (ce_get_id c) (tk_index (tr_ticket (List.last us)) + 1) (cs_tickets s1) = Ok (td, n)"
      "cs_tickets s' = td" by blast
  have "d' = d" using m(3) fr by simp
  then show ?thesis
    using m fr ds key
    by (intro exI [of _ c] exI [of _ a] exI [of _ "cs_info s1"] exI [of _ d] exI [of _ ds] exI [of _ rs]) simp
qed

text \<open>C15: if the issuer of a channel aggregates at least two tickets, every ticket, without duplicates and by increasing index, is a
verified winning ticket of the issuer in the same channel and epoch, with enough winning probability and no overlap of
neighbouring ranges; the new ticket has their exact total, which is within the balance of the channel, covers the indices from
the first to the last, wins always and verifies for the issuer; and the next outgoing index is past the last ticket.\<close>
theorem aggregated_ticket_sound:
  assumes "crypto_ok (nd_crypto nd)" and "ct_ok (cr_keccak (nd_crypto nd)) (cs_channels s)" and "outgoing_ok (cs_tickets s)"
    and "aggregate_tickets nd dest ts me s = (s', Ok vt)" and "2 \<le> length ts"
    and us: "us = dedup_by tr_eq (sort_by tr_cmp ts)"
  shows "\<exists>c d ds. chan (cr_keccak (nd_crypto nd)) (cs_channels s) (ce_get_id c) = Some c \<and> ce_source c = nd_me_onchain nd
     \<and> map_res snd (get_indexer_data (nd_approx nd) (cs_info s)) = Ok d \<and> id_channels_dst d = Some ds
     \<and> (\<forall>u \<in> set us. \<exists>r. tr_into_redeemable (nd_crypto nd) u (nd_me_onchain nd) ds = Ok r)
     \<and> aggregate_of (nd_approx nd) c (id_min_win_prob d) (map tr_ticket us) (vt_ticket vt)
     \<and> ticket_verify (nd_crypto nd) (vt_ticket vt) (nd_me_onchain nd) ds = Ok vt
     \<and> tk_index (tr_ticket (List.last us)) + 1 \<le> current_index (cs_tickets s') (ce_get_id c)"
proof -
  from aggregate_tickets_Ok [OF assms(1,2,4,5), folded us] obtain c a nf d ds rs n where
    m: "chan (cr_keccak (nd_crypto nd)) (cs_channels s) (ce_get_id c) = Some c" "parties_of c = (nd_me_onchain nd, a)"
      "get_indexer_data (nd_approx nd) (cs_info s) = Ok (nf, d)" "id_channels_dst d = Some ds"
      "collect_res (map (\<lambda>t. tr_into_redeemable (nd_crypto nd) t (nd_me_onchain nd) ds) us) = Ok rs"
      "aggregate_of (nd_approx nd) c (id_min_win_prob d) (map tr_ticket us) (vt_ticket vt)"
      "vt_inv (nd_crypto nd) ds vt" "vt_issuer vt = nd_me_onchain nd"
      "compare_and_set_outgoing_ticket_index (ce_get_id c) (tk_index (tr_ticket (List.last us)) + 1) (cs_tickets s) = Ok (cs_tickets s', n)"
    by blast
  have "length (ce_get_id c) = hash_size"
    using chan_id [OF assms(2) m(1)] assms(1) by (simp add: ce_get_id_def ce_wf_def generate_channel_id_def crypto_ok_def hash_size_def)
  from with_outgoing_index_refines [OF assms(3) this, of "\<lambda>v. max v (tk_index (tr_ticket (List.last us)) + 1)"]
  have "tk_index (tr_ticket (List.last us)) + 1 \<le> current_index (cs_tickets s') (ce_get_id c)"
    using m(9) unfolding compare_and_set_outgoing_ticket_index_def by auto
  moreover have "\<forall>u \<in> set us. \<exists>r. tr_into_redeemable (nd_crypto nd) u (nd_me_onchain nd) ds = Ok r"
    using list_all2_setD1 [OF collect_res_list_all2 [OF m(5)]] by blast
  moreover have "ce_source c = nd_me_onchain nd" "map_res snd (get_indexer_data (nd_approx nd) (cs_info s)) = Ok d"
    using m(2,3) by (simp_all add: parties_of_def)
  moreover have "ticket_verify (nd_crypto nd) (vt_ticket vt) (nd_me_onchain nd) ds = Ok vt"
    using m(7,8) by (simp add: ticket_verify_Ok_iff)
  ultimately show ?thesis using m(1,4,6) by blast
qed

lemma rows_value_split_set:
  assumes "td_inv cr db" and "prepared nd c db ms ts"
  shows "rows_value (filter (\<lambda>m. m \<notin> set ms) (filter P (td_tickets db))) + rows_value (filter P ms) = rows_value (filter P (td_tickets db))"
proof -
  have "filter (\<lambda>m. m \<in> set ms) (filter P (td_tickets db)) = filter P (filter (\<lambda>m. m \<in> set ms) (td_tickets db))"
    by (simp add: conj_commute)
  then have "mset (filter (\<lambda>m. m \<in> set ms) (filter P (td_tickets db))) = mset (filter P ms)"
    using arg_cong [OF prepared_mset [OF assms], of "filter_mset P"] by (metis mset_filter)
  then show ?thesis
    using rows_value_filter [of "\<lambda>m. m \<in> set ms" "filter P (td_tickets db)"] rows_value_mset by fastforce
qed

lemma row_of_aggregate:
  assumes "ticket_model_of a = (Ok row :: ('e, ticket_model) result)"
  shows "row_value (row\<lparr>tm_id := n\<rparr>) = unat (tk_amount (vt_ticket (at_ticket a)))"
    and "into_condition (sel_new i e) (row\<lparr>tm_id := n\<rparr>)
      \<longleftrightarrow> tk_channel_id (vt_ticket (at_ticket a)) = i \<and> ucast (tk_channel_epoch (vt_ticket (at_ticket a))) = e"
    and "tm_state row = status_code (at_status a)"
  using assms
  by (auto simp: ticket_model_of_def Let_def row_value_def bal_from_be_def into_condition_sel_new split: option.splits)

text \<open>C14: the exchange of prepared tickets for an aggregated one conserves value: if the receiver of a channel prepared at least two
tickets over a range of less than \<open>2 ^ 32\<close> indices and their issuer, with the same domain separator, aggregated them, both
without an error, then the receiver accepts the aggregated ticket, and after the queue has been run the prepared rows are replaced by the row of that ticket, the other rows are
unchanged, the stored value of the channel is what it was and no ticket of the channel is being aggregated.\<close>
theorem aggregation_round_conserves:
  assumes cr: "crypto_ok (nd_crypto nb)" "nd_crypto na = nd_crypto nb" "approx_ok (nd_approx nb)"
    and okb: "ct_ok (cr_keccak (nd_crypto nb)) (cs_channels sb)" and oka: "ct_ok (cr_keccak (nd_crypto na)) (cs_channels sa)"
    and inv: "td_inv (nd_crypto nb) (cs_tickets sb)" and fits: "rows_value (td_tickets (cs_tickets sb)) < 2 ^ 256"
    and queue: "td_queue (cs_tickets sb) = Some []"
    and prep: "prepare_aggregation_in_channel nb rnd i pre sb = (sb', Ok (Some (pk, ts, ds)))" and len: "2 \<le> length ts"
    and c: "chan (cr_keccak (nd_crypto nb)) (cs_channels sb) i = Some c" "ce_source c = nd_me_onchain na"
    and dst: "get_indexer_data (nd_approx na) (cs_info sa) = Ok (nf, da)" "id_channels_dst da = Some ds"
    and agg: "aggregate_tickets na dest ts (nd_chain_key na) sa = (sa', Ok vt)"
    and span: "unat (tk_index (tr_ticket (List.last ts))) - unat (tk_index (tr_ticket (hd ts))) < 2 ^ 32 - 1"
  shows "\<exists>sb'' acked db ms row. process_received_aggregated_ticket nb (vt_leak vt) (nd_chain_key nb) sb' = (sb'', Ok acked)
     \<and> process_ticket (cs_tickets sb'') = Ok db
     \<and> prepared nb c (cs_tickets sb) ms ts
     \<and> td_tickets db = filter (\<lambda>m. m \<notin> set ms) (td_tickets (cs_tickets sb)) @ [row] \<and> at_ticket acked = vt
     \<and> map_res (\<lambda>r. r\<lparr>tm_id := tm_id row\<rparr>) (ticket_model_of acked) = (Ok row :: (db_error, ticket_model) result)
     \<and> stored_value db (i, ce_channel_epoch c) = stored_value (cs_tickets sb) (i, ce_channel_epoch c)
     \<and> filter (into_condition (with_state BeingAggregated (sel_of_channel c))) (td_tickets db) = []"
proof -
  let ?db = "cs_tickets sb"
  obtain d where pr: "\<not> status_eq (ce_status c) Closed" "ce_direction c (nd_me_onchain nb) = Some Incoming"
    "get_indexer_data (nd_approx nb) (cs_info sb') = Ok (cs_info sb', d)" "id_channels_dst d = Some ds" "cs_channels sb' = cs_channels sb"
    using prepare_Ok [OF okb prep] unfolding c(1) option.inject by blast
  obtain ms where p: "prepared nb c ?db ms ts" "cs_tickets sb' = set_aggregated ms ?db" "ms \<noteq> []"
    using prepare_prepared [OF okb inv fits prep c(1)] by blast
  have id: "ce_get_id c = i" using chan_id [OF okb c(1)] by (simp add: ce_get_id_def)
  have ep: "tk_channel_epoch (tr_ticket t) = ucast (ce_channel_epoch c)" if "t \<in> set ts" for t
    using prepared_channel(2) [OF p(1) that] by (simp flip: prepared_channel(2) [OF p(1) that] add: unsigned_ucast_eq word_unat_eq_iff take_bit_nat_eq_self)
  then have us: "dedup_by tr_eq (sort_by tr_cmp ts) = ts"
    using prepared_channel(1) [OF p(1)] by (intro prepared_sort_dedup [OF p(1), of "ce_get_id c" "ucast (ce_channel_epoch c)"]) blast
  obtain c' w where ag: "aggregate_of (nd_approx na) c' w (map tr_ticket ts) (vt_ticket vt)"
    and vt: "vt_inv (nd_crypto nb) ds vt" "vt_issuer vt = ce_source c"
    using aggregate_tickets_Ok [OF _ oka agg len] cr dst unfolding us c(2) by auto
  have ne: "ts \<noteq> []" using len by auto
  have tk: "tk_channel_id (vt_ticket vt) = ce_get_id c" "ucast (tk_channel_epoch (vt_ticket vt)) = ce_channel_epoch c"
    using ag prepared_channel(1,2) [OF p(1) hd_in_set [OF ne]] hd_in_set [OF ne] unfolding aggregate_of_def by (metis list.set_map imageI)+
  have val: "rows_value ms = unat (tk_amount (vt_ticket vt))" using prepared_value [OF p(1)] ag by (simp add: aggregate_of_def)
  have wp: "tk_encoded_win_prob (vt_ticket vt) = wp_always" using ag by (simp add: aggregate_of_def)
  from process_received_Ok [OF _ cr(3) _ pr(1,2) pr(3,4) vt wp p(2) queue inv p(1,3) val, unfolded pr(5) tk(1) id, OF okb c(1)]
  obtain resp where rec: "process_received_aggregated_ticket nb (vt_ticket vt) (nd_chain_key nb) sb'
     = (sb'\<lparr>cs_info := cs_info sb', cs_tickets := (set_aggregated ms ?db)\<lparr>td_queue := Some [Replace (vt_into_acknowledged vt resp)]\<rparr>\<rparr>,
        Ok (vt_into_acknowledged vt resp))" by blast
  let ?a = "vt_into_acknowledged vt resp"
  have at: "at_ticket ?a = vt" "at_status ?a = Untouched" by (simp_all add: vt_into_acknowledged_def)
  obtain row where row: "ticket_model_of ?a = (Ok row :: (db_error, ticket_model) result)"
    using vt(1) by (auto simp: vt_inv_def ticket_model_of_def at Let_def)
  let ?db1 = "(set_aggregated ms ?db)\<lparr>td_queue := Some [Replace ?a]\<rparr>"
  let ?row = "row\<lparr>tm_id := td_next_id ?db1\<rparr>"
  have pt: "process_ticket ?db1 = Ok (?db1\<lparr>td_tickets := filter (\<lambda>m. m \<notin> set ms) (td_tickets ?db) @ [?row],
     td_next_id := td_next_id ?db1 + 1, td_queue := Some [], td_notified := td_notified ?db1 @ [?a]\<rparr>)"
    by (rule replace_prepared [OF inv p(1) ag span tk _ row]) (simp_all add: at)
  let ?db2 = "?db1\<lparr>td_tickets := filter (\<lambda>m. m \<notin> set ms) (td_tickets ?db) @ [?row],
     td_next_id := td_next_id ?db1 + 1, td_queue := Some [], td_notified := td_notified ?db1 @ [?a]\<rparr>"
  have new: "row_value ?row = rows_value ms" "into_condition (sel_new i (ce_channel_epoch c)) ?row" "tm_state ?row \<noteq> status_code BeingAggregated"
    using row_of_aggregate [OF row] val tk id by (simp_all add: at)
  have "filter (into_condition (sel_new i (ce_channel_epoch c))) ms = ms"
    using p(1) id by (auto simp: filter_id_conv prepared_def into_condition_channel_key into_condition_sel_new)
  with rows_value_split_set [OF inv p(1), of "into_condition (sel_new i (ce_channel_epoch c))"]
  have "stored_value ?db2 (i, ce_channel_epoch c) = stored_value ?db (i, ce_channel_epoch c)"
    using new by (simp add: stored_value_def conj_commute)
  moreover have "filter (into_condition (with_state BeingAggregated (sel_of_channel c))) (td_tickets ?db2) = []"
    using p(1) new(3) by (auto simp: prepared_def filter_empty_conv into_condition_channel_state)
  moreover have "map_res (\<lambda>r. r\<lparr>tm_id := tm_id ?row\<rparr>) (ticket_model_of ?a) = (Ok ?row :: (db_error, ticket_model) result)"
    using row by simp
  ultimately show ?thesis
    using rec pt p(1) at
    by (intro exI [of _ "sb'\<lparr>cs_info := cs_info sb', cs_tickets := ?db1\<rparr>"] exI [of _ ?a] exI [of _ ?db2] exI [of _ ms] exI [of _ ?row])
      (simp add: vt_leak_def)
qed

text \<open>
  A single ticket is not aggregated but handed back by its issuer, and the receiver rejects it unless it wins always: the
  round of one ticket with a smaller winning probability ends with an error, and the ticket stays marked.
\<close>

lemma single_ticket_round_fails:
  assumes okb: "ct_ok (cr_keccak (nd_crypto nb)) (cs_channels sb)"
    and inv: "td_inv (nd_crypto nb) (cs_tickets sb)" and fits: "rows_value (td_tickets (cs_tickets sb)) < 2 ^ 256"
    and prep: "prepare_aggregation_in_channel nb rnd i pre sb = (sb', Ok (Some (pk, [t], ds)))"
    and c: "chan (cr_keccak (nd_crypto nb)) (cs_channels sb) i = Some c"
    and agg: "aggregate_tickets na dest [t] key sa = (sa', Ok vt)"
    and ver: "ticket_verify (nd_crypto nb) (vt_ticket vt) (ce_source c) ds = Ok vt"
    and wp: "\<not> wp_approx_eq (nd_approx nb) (tk_encoded_win_prob (tr_ticket t)) wp_always"
  shows "process_received_aggregated_ticket nb (vt_ticket vt) (nd_chain_key nb) sb'
     = (sb', Err (LogicalError ''Aggregated tickets must have 100% win probability''))"
proof -
  have vt: "vt_ticket vt = tr_ticket t"
    using agg by (auto simp: aggregate_tickets_def act_Ok_iff act_return_def tr_into_redeemable_def and_then_Inr_iff map_fail_Inr_iff
        map_res_Inr_iff ticket_verify_Ok_iff Let_def split: if_splits)
  obtain d where pr: "\<not> status_eq (ce_status c) Closed" "ce_direction c (nd_me_onchain nb) = Some Incoming"
    "get_indexer_data (nd_approx nb) (cs_info sb') = Ok (cs_info sb', d)" "id_channels_dst d = Some ds" "cs_channels sb' = cs_channels sb"
    using prepare_Ok [OF okb prep] unfolding c option.inject by blast
  obtain ms where p: "prepared nb c (cs_tickets sb) ms [t]" using prepare_prepared [OF okb inv fits prep c] by blast
  have i: "tk_channel_id (tr_ticket t) = i"
    using prepared_channel(1) [OF p, of t] chan_id [OF okb c] by (simp add: ce_get_id_def)
  have inc: "incoming_channel nb i sb' = (sb', Ok c)" using incoming_channel_Ok [of nb sb' i sb' c] okb c pr by simp
  have dat: "indexer_data_of nb sb' = (sb', Ok d)" by (simp add: indexer_data_of_def pr(3))
  have key: "cr_address (nd_crypto nb) (nd_chain_key nb) = nd_me_onchain nb" by (simp add: nd_me_onchain_def)
  show ?thesis
    unfolding process_received_aggregated_ticket_def vt i using ver wp
    by (simp add: key act_bind_def inc dat channels_domain_separator_def act_lift_def pr(4) act_fail_def vt)
qed

section \<open>Examples\<close>

text \<open>
  Node 9 has a channel to node 1, which holds two tickets in it. Both nodes see the same channel and the same domain
  separator.
\<close>

definition pair_node :: "byte \<Rightarrow> (string, byte, byte, unit) node_db" where
  "pair_node k = \<lparr>nd_chain_key = k, nd_crypto = example_crypto, nd_accounts = example_env, nd_approx = (\<lambda>a b. \<bar>a - b\<bar> \<le> 1 / 10 ^ 8)\<rparr>"

definition pair_channel :: channel_entry where
  "pair_channel = ce_new (cr_keccak example_crypto) (replicate 20 9) (replicate 20 1) 1000 0 Open 1"

definition pair_id :: hash where
  "pair_id = replicate 20 9 @ replicate 12 1"

definition pair_table :: channel_table where
  "pair_table = fst (res_get undefined (upsert_channel pair_channel ct_new))"

definition pair_ticket :: "u64 \<Rightarrow> acknowledged_ticket" where
  "pair_ticket n =
     \<lparr>at_status = Untouched,
      at_ticket = ticket_sign example_crypto
        (example_ticket\<lparr>tk_channel_id := pair_id, tk_challenge := replicate 20 5, tk_index := n\<rparr>) 9 (replicate 32 0),
      at_response = be_encode 32 5\<rparr>"

definition pair_row :: "u64 \<Rightarrow> ticket_model" where
  "pair_row n = (res_get undefined (ticket_model_of (pair_ticket n) :: (unit, ticket_model) result))\<lparr>tm_id := unat n\<rparr>"

definition pair_db :: ticket_db where
  "pair_db = td_new\<lparr>td_tickets := [pair_row 7, pair_row 8], td_next_id := 9, td_queue := Some []\<rparr>"

definition pair_data :: indexer_data where
  "pair_data = \<lparr>id_ledger_dst = None, id_safe_registry_dst = None, id_channels_dst = Some (replicate 32 0), id_ticket_price = None,
     id_min_win_prob = replicate 7 255, id_nr_enabled = False\<rparr>"

definition pair_state :: "ticket_db \<Rightarrow> chain_state" where
  "pair_state td =
     \<lparr>cs_accounts = ad_new\<lparr>ad_chain_to_offchain := [replicate 20 9 \<mapsto> Some (replicate 32 7)],
        ad_offchain_to_chain := [replicate 32 5 \<mapsto> Some (replicate 20 1)]\<rparr>,
      cs_channels = pair_table, cs_info = nf_new\<lparr>nf_indexer_cache := Some pair_data\<rparr>, cs_tickets = td\<rparr>"

definition pair_transferable :: "u64 \<Rightarrow> byte transferable_ticket" where
  "pair_transferable n =
     \<lparr>tr_ticket = vt_ticket (at_ticket (pair_ticket n)), tr_response = be_encode 32 5, tr_vrf_params = 1, tr_signer = replicate 20 9\<rparr>"

abbreviation no_prerequisites :: aggregation_prerequisites where
  "no_prerequisites \<equiv> \<lparr>min_ticket_count = None, min_unaggregated_ratio = None\<rparr>"

lemma pair_node_fields [simp]:
  "nd_chain_key (pair_node k) = k" "nd_crypto (pair_node k) = example_crypto" "nd_accounts (pair_node k) = example_env"
  "nd_me_onchain (pair_node k) = replicate 20 k" "approx_ok (nd_approx (pair_node k))"
  by (auto simp: pair_node_def nd_me_onchain_def example_crypto_def approx_ok_def)

lemma pair_channel_id: "generate_channel_id (cr_keccak example_crypto) (replicate 20 9) (replicate 20 1) = pair_id"
  by (simp add: generate_channel_id_def example_crypto_def pair_id_def numeral_eq_Suc)

lemma pair_channel_fields [simp]:
  "ce_source pair_channel = replicate 20 9" "ce_destination pair_channel = replicate 20 1" "ce_balance pair_channel = 1000"
  "ce_ticket_index pair_channel = 0" "ce_status pair_channel = Open" "ce_channel_epoch pair_channel = 1" "ce_id pair_channel = pair_id"
  by (simp_all add: pair_channel_def ce_new_def pair_channel_id)

lemma pair_table_ok:
  "ct_ok (cr_keccak example_crypto) pair_table" "chan (cr_keccak example_crypto) pair_table pair_id = Some pair_channel"
proof -
  have "ce_wf (cr_keccak example_crypto) pair_channel" by (simp add: ce_wf_def address_size_def pair_channel_id)
  moreover have "ct_ok (cr_keccak example_crypto) ct_new" "chan (cr_keccak example_crypto) ct_new i = None" for i
    by (simp_all add: ct_ok_def ct_new_def chan_def find_channel_def)
  ultimately obtain tbl where "upsert_channel pair_channel ct_new = Ok (tbl, (ce_id pair_channel, ce_channel_epoch pair_channel))"
    "ct_ok (cr_keccak example_crypto) tbl" "chan (cr_keccak example_crypto) tbl = (chan (cr_keccak example_crypto) ct_new)(ce_id pair_channel \<mapsto> pair_channel)"
    using upsert_new_channel by blast
  then show "ct_ok (cr_keccak example_crypto) pair_table" "chan (cr_keccak example_crypto) pair_table pair_id = Some pair_channel"
    by (simp_all add: pair_table_def)
qed

lemma pair_ticket_fields [simp]:
  "at_status (pair_ticket n) = Untouched" "at_response (pair_ticket n) = be_encode 32 5"
  "vt_issuer (at_ticket (pair_ticket n)) = replicate 20 9"
  "tk_channel_id (vt_ticket (at_ticket (pair_ticket n))) = pair_id" "tk_index (vt_ticket (at_ticket (pair_ticket n))) = n"
  "tk_amount (vt_ticket (at_ticket (pair_ticket n))) = 100" "tk_index_offset (vt_ticket (at_ticket (pair_ticket n))) = 1"
  "tk_channel_epoch (vt_ticket (at_ticket (pair_ticket n))) = 1" "tk_encoded_win_prob (vt_ticket (at_ticket (pair_ticket n))) = replicate 7 255"
  "tk_challenge (vt_ticket (at_ticket (pair_ticket n))) = replicate 20 5"
  "tk_signature (vt_ticket (at_ticket (pair_ticket n))) = Some (replicate 64 9)"
  by (simp_all add: pair_ticket_def ticket_sign_def Let_def example_ticket_def example_crypto_def)

lemma pair_ticket_storable: "n \<le> 8 \<Longrightarrow> at_storable example_crypto (pair_ticket n)"
proof -
  assume "n \<le> 8"
  then have "unat n \<le> 8" by (simp add: word_le_nat_alt)
  then have "n \<le> push_bit 48 1" by (simp add: word_le_nat_alt)
  moreover have "length (vt_hash (at_ticket (pair_ticket n))) = 32"
    using example_crypto_ok by (simp add: pair_ticket_def ticket_sign_def Let_def ticket_get_hash_def crypto_ok_def)
  moreover have "response_to_challenge example_crypto (be_encode 32 5) = (Ok (replicate 20 5) :: (unit, eth_challenge) result)"
    by (simp add: response_to_challenge_def nonzero_scalar_def be_decode_encode example_crypto_def)
  moreover have "cr_recover example_crypto h (replicate 64 9) = Ok (replicate 20 9)" for h by (simp add: example_crypto_def)
  ultimately show ?thesis
    by (simp add: at_storable_def Let_def ticket_wf_def ticket_sizes max_ticket_amount_def pair_id_def)
qed

lemma pair_row: "n \<le> 8 \<Longrightarrow> row_of example_crypto (pair_row n) (pair_ticket n)"
proof -
  assume "n \<le> 8"
  from ticket_model_of_storable [OF pair_ticket_storable [OF this]] obtain m
    where "ticket_model_of (pair_ticket n) = (Ok m :: (unit, ticket_model) result)" "row_of example_crypto (m\<lparr>tm_id := unat n\<rparr>) (pair_ticket n)" by blast
  then show ?thesis by (simp add: pair_row_def)
qed

lemmas pair_rows = pair_row [of 7, simplified] pair_row [of 8, simplified]

lemma pair_row_columns [simp]:
  "tm_index (pair_row 7) = u64_to_be 7" "tm_index (pair_row 8) = u64_to_be 8" "row_value (pair_row 7) = 100" "row_value (pair_row 8) = 100"
  "tm_state (pair_row 7) = 0" "tm_state (pair_row 8) = 0" "tm_winning_probability (pair_row 7) = replicate 7 255"
  "tm_winning_probability (pair_row 8) = replicate 7 255" "tm_id (pair_row 7) = 7" "tm_id (pair_row 8) = 8"
  "into_condition (sel_of_channel pair_channel) (pair_row 7)" "into_condition (sel_of_channel pair_channel) (pair_row 8)"
  using row_of_columns [OF pair_rows(1)] row_of_columns [OF pair_rows(2)]
  by (simp_all add: into_condition_channel_key ce_get_id_def pair_row_def)

lemma pair_db_ok: "td_inv example_crypto pair_db" "rows_value (td_tickets pair_db) = 200"
  using pair_rows by (auto simp: td_inv_def pair_db_def td_new_def tm_key_def)

lemma pair_state_fields [simp]:
  "cs_channels (pair_state td) = pair_table" "cs_tickets (pair_state td) = td"
  "get_indexer_data approx (cs_info (pair_state td)) = Ok (cs_info (pair_state td), pair_data)"
  by (simp_all add: pair_state_def get_indexer_data_def)

lemma pair_data_fields [simp]: "id_channels_dst pair_data = Some (replicate 32 0)" "id_min_win_prob pair_data = replicate 7 255"
  by (simp_all add: pair_data_def)

lemma pair_incoming: "incoming_channel (pair_node 1) pair_id (pair_state td) = (pair_state td, Ok pair_channel)"
  using pair_table_ok by (simp add: incoming_channel_Ok ce_direction_def status_eq.simps)

lemma pair_read: "n = 7 \<or> n = 8 \<Longrightarrow> transferable_of_model (pair_node 1) rnd (replicate 32 0) (pair_row n) = Ok (pair_transferable n)"
  using row_of_read(1) [OF pair_rows(1)] row_of_read(1) [OF pair_rows(2)]
  by (auto simp: transferable_of_model_def at_into_transferable_def at_into_redeemable_def tr_from_redeemable_def vt_leak_def
      pair_transferable_def example_crypto_def)

lemma pair_candidates: "tickets_to_aggregate pair_channel 0 pair_db = [pair_row 7, pair_row 8]"
  by (simp add: tickets_to_aggregate_def pair_db_def td_new_def max_tickets_to_aggregate_batch_def sort_by_Cons blob_cmp_u64 ord_cmp_def)

lemma pair_satisfying:
  "filter_satisfying_ticket_models (nd_approx (pair_node 1)) no_prerequisites [pair_row 7, pair_row 8] pair_channel (replicate 7 255)
     = Ok [pair_row 7, pair_row 8]"
proof -
  have w: "wp_approx_cmp (nd_approx (pair_node 1)) v v = Equal" for v
    using wp_approx_eq_refl [of "nd_approx (pair_node 1)"] by (simp add: wp_approx_eq_def)
  have t: "wp_try_from (replicate 7 255) = Ok (replicate 7 255)" by (simp add: wp_try_from_def encoded_win_prob_length_def)
  have b: "bal_from_be (tm_amount (pair_row 7)) = 100" "bal_from_be (tm_amount (pair_row 8)) = 100"
    using pair_row_columns(3,4) by (simp_all add: row_value_def word_unat_eq_iff)
  show ?thesis by (simp add: filter_satisfying_ticket_models_def w t b Let_def bal_add_def)
qed

lemma pair_take:
  "\<exists>td. take_for_aggregation (pair_node 1) rnd no_prerequisites pair_channel (replicate 32 0) (replicate 7 255) pair_db
     = Ok (td, [pair_transferable 7, pair_transferable 8])"
proof -
  have rows: "td_tickets pair_db = [pair_row 7, pair_row 8]" by (simp add: pair_db_def)
  have none: "\<not> into_condition (with_state st (sel_of_channel pair_channel)) (pair_row 7)"
    "\<not> into_condition (with_state st (sel_of_channel pair_channel)) (pair_row 8)" if "status_code st \<noteq> 0" for st
    using that by (simp_all add: into_condition_channel_state)
  have i: "first_idx_to_take pair_channel pair_db = Ok 0"
    by (simp add: first_idx_to_take_def rows none Let_def sort_by_Cons u256_as_u64_def)
  have d: "drop_covered (7 :: u64) 8 [pair_transferable 8] = ([pair_transferable 8], [])"
    by (simp add: pair_transferable_def)
  have ix: "tk_index (tr_ticket (pair_transferable n)) = n" "tk_index_offset (tr_ticket (pair_transferable n)) = 1" for n
    by (simp_all add: pair_transferable_def)
  show ?thesis
    by (simp add: take_for_aggregation_def rows none i pair_candidates pair_satisfying pair_read ix d Let_def mark_being_aggregated_def)
qed

lemma pair_prepare:
  "\<exists>s. prepare_aggregation_in_channel (pair_node 1) rnd pair_id no_prerequisites (pair_state pair_db)
     = (s, Ok (Some (replicate 32 7, [pair_transferable 7, pair_transferable 8], replicate 32 0)))"
proof -
  obtain td where td: "take_for_aggregation (pair_node 1) rnd no_prerequisites pair_channel (replicate 32 0) (replicate 7 255) pair_db
     = Ok (td, [pair_transferable 7, pair_transferable 8])" using pair_take by blast
  have k: "resolve_packet_key (pair_node 1) (replicate 20 9) (pair_state td) = (pair_state td, Ok (Some (replicate 32 7)))" for td
    by (simp add: resolve_packet_key_def translated_key_def translate_key_def pair_state_def act_bind_def act_lift_def)
  have d: "indexer_data_of (pair_node 1) (pair_state td) = (pair_state td, Ok pair_data)" for td
    by (simp add: indexer_data_of_def)
  show ?thesis
    by (simp add: prepare_aggregation_in_channel_def act_bind_def pair_incoming k act_lift_def d channels_domain_separator_def
        ticket_tx_def td act_return_def)
qed

lemma pair_redeemable:
  "\<exists>r. tr_into_redeemable example_crypto (pair_transferable n) (replicate 20 9) (replicate 32 0) = Ok r"
proof -
  have i: "vt_inv example_crypto (replicate 32 0) (at_ticket (pair_ticket n))"
    unfolding pair_ticket_def acknowledged_ticket.select_convs by (rule ticket_sign_inv [OF example_crypto_ok])
  have k: "length (cr_keccak example_crypto xs) = 32" for xs using example_crypto_ok by (simp add: crypto_ok_def)
  have "length (take 7 (cr_keccak example_crypto xs)) = 7" for xs by (simp add: k)
  then have "check_ticket_win example_crypto h (replicate 64 9) wp_always resp 1" for h resp
    using wp_luck [of "take 7 (cr_keccak example_crypto [h, drop 1 (cr_vrf_v example_crypto 1), resp, replicate 64 9])"]
      wp_luck(1) [of wp_always]
    by (simp add: check_ticket_win_def wp_as_luck_def word_le_nat_alt wp_special)
  then have "check_ticket_win example_crypto h (replicate 64 9) (replicate 7 255) resp 1" for h resp
    by (simp add: wp_always_def encoded_win_prob_length_def)
  then have "tr_into_redeemable example_crypto (pair_transferable n) (replicate 20 9) (replicate 32 0)
     = Ok \<lparr>rd_ticket = at_ticket (pair_ticket n), rd_response = be_encode 32 5, rd_vrf_params = 1, rd_channel_dst = replicate 32 0\<rparr>"
    unfolding tr_into_redeemable_Ok_iff using i by (simp add: pair_transferable_def)
  then show ?thesis by blast
qed

lemma pair_aggregate:
  "\<exists>s vt. aggregate_tickets (pair_node 9) (replicate 32 5) [pair_transferable 7, pair_transferable 8] 9 (pair_state td_new) = (s, Ok vt)"
proof -
  let ?ts = "[pair_transferable 7, pair_transferable 8]"
  have ix: "tk_index (tr_ticket (pair_transferable n)) = n" for n by (simp add: pair_transferable_def)
  have "vt_ticket (at_ticket (pair_ticket 8)) \<noteq> vt_ticket (at_ticket (pair_ticket 7))"
    using pair_ticket_fields(5) [of 7] by (auto dest: arg_cong [where f = tk_index])
  then have us: "dedup_by tr_eq (sort_by tr_cmp ?ts) = ?ts"
    by (simp add: sort_by_Cons tr_cmp_def ticket_cmp_def ord_cmp_def pair_transferable_def tr_eq_def)
  obtain r7 r8 where r: "tr_into_redeemable example_crypto (pair_transferable 7) (replicate 20 9) (replicate 32 0) = Ok r7"
    "tr_into_redeemable example_crypto (pair_transferable 8) (replicate 20 9) (replicate 32 0) = Ok r8"
    using pair_redeemable by blast
  have t: "rd_tkt r7 = vt_ticket (at_ticket (pair_ticket 7))" "rd_tkt r8 = vt_ticket (at_ticket (pair_ticket 8))"
    using r by (simp_all add: tr_into_redeemable_Ok_iff pair_transferable_def)
  have k: "resolve_chain_key (pair_node 9) (replicate 32 5) (pair_state td) = (pair_state td, Ok (Some (replicate 20 1)))" for td
    by (simp add: resolve_chain_key_def translated_key_def translate_key_def pair_state_def act_bind_def act_lift_def)
  have d: "indexer_data_of (pair_node k) (pair_state td) = (pair_state td, Ok pair_data)" for td k
    by (simp add: indexer_data_of_def)
  obtain tbl where out: "outgoing_channel_to (pair_node 9) (replicate 20 1) (pair_state td_new) = ((pair_state td_new)\<lparr>cs_channels := tbl\<rparr>, Ok pair_channel)"
  proof -
    obtain tbl r where "get_channel_by_parties (cr_keccak example_crypto) (replicate 20 9) (replicate 20 1) False pair_table = Ok (tbl, r)"
      "\<forall>c. r = Some c \<longleftrightarrow> chan (cr_keccak example_crypto) pair_table (ce_id c) = Some c \<and> parties_of c = (replicate 20 9, replicate 20 1)"
      using get_channel_by_parties_eq [OF pair_table_ok(1), of "replicate 20 9" "replicate 20 1" False] by blast
    moreover from this(2) have "r = Some pair_channel" using pair_table_ok(2) by (simp add: parties_of_def)
    ultimately have "outgoing_channel_to (pair_node 9) (replicate 20 1) (pair_state td_new) = ((pair_state td_new)\<lparr>cs_channels := tbl\<rparr>, Ok pair_channel)"
      by (simp add: outgoing_channel_to_def act_bind_def ce_direction_def status_eq.simps act_return_def)
    then show thesis by (rule that)
  qed
  have d': "indexer_data_of (pair_node 9) ((pair_state td_new)\<lparr>cs_channels := tbl\<rparr>) = ((pair_state td_new)\<lparr>cs_channels := tbl\<rparr>, Ok pair_data)"
    by (simp add: indexer_data_of_def get_indexer_data_def pair_state_def)
  have w: "wp_approx_cmp (nd_approx (pair_node 9)) v v = Equal" for v
    using wp_approx_eq_refl [of "nd_approx (pair_node 9)"] by (simp add: wp_approx_eq_def)
  have chk: "check_aggregated (nd_approx (pair_node 9)) pair_id 1 1000 (replicate 7 255) [r7, r8] 0 = Ok 200"
    by (simp add: t w Let_def bal_add_def)
  have cas: "\<exists>td n. compare_and_set_outgoing_ticket_index pair_id 9 td_new = Ok (td, n)"
    by (simp add: compare_and_set_outgoing_ticket_index_def with_outgoing_index_def get_outgoing_ticket_index_def td_new_def)
  have agg: "\<exists>vt. aggregated_ticket (pair_node 9) (replicate 20 1) 1 200 (rd_tkt r7) (rd_tkt r8) 9 (replicate 32 0) = Ok vt"
    by (simp add: aggregated_ticket_def tb_build_signed_def tb_build_def t tb_set_challenge_def tb_set_channel_epoch_def tb_set_win_prob_def
        tb_set_index_offset_def tb_set_index_def tb_set_balance_def tb_set_direction_def tb_default_def max_ticket_amount_def)
  obtain td n vt where fin: "compare_and_set_outgoing_ticket_index pair_id 9 td_new = Ok (td, n)"
    "aggregated_ticket (pair_node 9) (replicate 20 1) 1 200 (rd_tkt r7) (rd_tkt r8) 9 (replicate 32 0) = Ok vt"
    using cas agg by blast
  have "aggregate_many (pair_node 9) (replicate 32 5) ?ts 9 (replicate 32 0) (pair_state td_new)
      = ((pair_state td_new)\<lparr>cs_channels := tbl, cs_tickets := td\<rparr>, Ok vt)"
    unfolding aggregate_many_def Let_def us
    by (simp add: act_bind_def k act_lift_def out d' u256_as_u32_def r chk ce_get_id_def ticket_tx_def t fin [unfolded t]
        del: check_aggregated.simps)
  moreover have "cr_address example_crypto 9 = replicate 20 9" by (simp add: example_crypto_def)
  ultimately show ?thesis
    by (simp add: aggregate_tickets_def act_bind_def d channels_domain_separator_def act_lift_def)
qed

theorem aggregation_preparation_correct_witness:
  "\<exists>s' ms. prepare_aggregation_in_channel (pair_node 1) (\<lambda>_. ()) pair_id no_prerequisites (pair_state pair_db)
       = (s', Ok (Some (replicate 32 7, [pair_transferable 7, pair_transferable 8], replicate 32 0)))
     \<and> cs_tickets s' = set_aggregated ms pair_db \<and> length ms = 2"
proof -
  obtain s' where s': "prepare_aggregation_in_channel (pair_node 1) (\<lambda>_. ()) pair_id no_prerequisites (pair_state pair_db)
       = (s', Ok (Some (replicate 32 7, [pair_transferable 7, pair_transferable 8], replicate 32 0)))" using pair_prepare by blast
  from aggregation_preparation_correct [OF _ _ _ s'] pair_table_ok(1) pair_db_ok
  obtain c ms where "prepared (pair_node 1) c pair_db ms [pair_transferable 7, pair_transferable 8]" "cs_tickets s' = set_aggregated ms pair_db"
    by (auto simp: Let_def)
  with prepared_tickets(2) s' show ?thesis by (intro exI [of _ s'] exI [of _ ms]) fastforce
qed

theorem aggregation_rollback_restores_witness:
  "\<exists>s' s''. prepare_aggregation_in_channel (pair_node 1) (\<lambda>_. ()) pair_id no_prerequisites (pair_state pair_db)
       = (s', Ok (Some (replicate 32 7, [pair_transferable 7, pair_transferable 8], replicate 32 0)))
     \<and> rollback_aggregation_in_channel (pair_node 1) pair_id s' = (s'', Ok ()) \<and> cs_tickets s'' = pair_db"
proof -
  obtain s' where s': "prepare_aggregation_in_channel (pair_node 1) (\<lambda>_. ()) pair_id no_prerequisites (pair_state pair_db)
       = (s', Ok (Some (replicate 32 7, [pair_transferable 7, pair_transferable 8], replicate 32 0)))" using pair_prepare by blast
  from aggregation_rollback_restores [OF _ _ _ s'] pair_table_ok(1) pair_db_ok s' show ?thesis by auto
qed

theorem aggregated_ticket_sound_witness:
  "\<exists>s vt. aggregate_tickets (pair_node 9) (replicate 32 5) [pair_transferable 7, pair_transferable 8] 9 (pair_state td_new) = (s, Ok vt)
     \<and> ticket_verify example_crypto (vt_ticket vt) (replicate 20 9) (replicate 32 0) = Ok vt"
proof -
  obtain s vt where s: "aggregate_tickets (pair_node 9) (replicate 32 5) [pair_transferable 7, pair_transferable 8] 9 (pair_state td_new) = (s, Ok vt)"
    using pair_aggregate by blast
  have "outgoing_ok td_new" by (simp add: outgoing_ok_def td_new_def)
  with aggregated_ticket_sound [OF _ _ _ s _ refl] example_crypto_ok pair_table_ok(1) s show ?thesis by auto
qed

theorem aggregation_round_conserves_witness:
  "\<exists>sb' vt sb'' acked db. prepare_aggregation_in_channel (pair_node 1) (\<lambda>_. ()) pair_id no_prerequisites (pair_state pair_db)
       = (sb', Ok (Some (replicate 32 7, [pair_transferable 7, pair_transferable 8], replicate 32 0)))
     \<and> process_received_aggregated_ticket (pair_node 1) (vt_leak vt) 1 sb' = (sb'', Ok acked)
     \<and> process_ticket (cs_tickets sb'') = Ok db \<and> stored_value db (pair_id, 1) = stored_value pair_db (pair_id, 1)"
proof -
  obtain sb' where sb': "prepare_aggregation_in_channel (pair_node 1) (\<lambda>_. ()) pair_id no_prerequisites (pair_state pair_db)
       = (sb', Ok (Some (replicate 32 7, [pair_transferable 7, pair_transferable 8], replicate 32 0)))" using pair_prepare by blast
  obtain sa' vt where sa': "aggregate_tickets (pair_node 9) (replicate 32 5) [pair_transferable 7, pair_transferable 8] 9 (pair_state td_new) = (sa', Ok vt)"
    using pair_aggregate by blast
  have q: "td_queue pair_db = Some []" by (simp add: pair_db_def)
  have "tk_index (tr_ticket (pair_transferable n)) = n" for n by (simp add: pair_transferable_def)
  with aggregation_round_conserves [where nb = "pair_node 1" and na = "pair_node 9" and c = pair_channel, OF _ _ _ _ _ _ _ _ sb', of "pair_state td_new"]
    example_crypto_ok pair_table_ok pair_db_ok q sa' sb'
  show ?thesis by fastforce
qed

end
