(* ===== verification/Packet_Relay.thy ===== *)
theory Packet_Relay
  imports Hopr_Packet Ticket_Aggregation
begin

text \<open>
  The processing of packets and acknowledgements in the node database (\<open>db/sql/src/protocol.rs\<close>, the caches of
  \<open>db/sql/src/cache.rs\<close> that it uses, and \<open>Acknowledgement\<close> of \<open>common/internal-types/src/protocol.rs\<close>): a packet
  becomes data for the application or a packet for the next hop with a ticket of its own, and an acknowledgement turns
  the ticket that waits for it into one that can be redeemed.

  The state is the index and ticket database with three more caches: tickets that wait for an acknowledgement, the
  openers of the own reply blocks, and the reply blocks of others in a ring buffer per pseudonym. Ed25519 signatures and
  the ring buffer are arguments; the entries of the caches do not expire by themselves (the lemmas about a later use of an
  entry assume that it is still there). Metrics and the parts of messages computed for them are left out.
\<close>

section \<open>Acknowledgements\<close>

definition half_key_size :: nat where
  "half_key_size = 32"

definition offchain_signature_size :: nat where
  "offchain_signature_size = 64"

definition acknowledgement_size :: nat where
  "acknowledgement_size = half_key_size + offchain_signature_size"

record acknowledgement =
  ak_data :: bytes
  ak_validated :: bool

definition ak_try_from :: "bytes \<Rightarrow> (general_error, acknowledgement) result" where
  "ak_try_from value =
     (if length value = acknowledgement_size then Ok \<lparr>ak_data = value, ak_validated = False\<rparr>
      else Err (ParseErr ''Acknowledgement''))"

definition ak_new :: "(bytes \<Rightarrow> 'kp \<Rightarrow> bytes) \<Rightarrow> half_key \<Rightarrow> 'kp \<Rightarrow> acknowledgement" where
  "ak_new sign ack_key_share node_keypair =
     \<lparr>ak_data = ack_key_share @ sign ack_key_share node_keypair, ak_validated = True\<rparr>"

definition ak_validate ::
  "(bytes \<Rightarrow> offchain_key \<Rightarrow> bytes \<Rightarrow> bool) \<Rightarrow> acknowledgement \<Rightarrow> offchain_key \<Rightarrow> (core_types_error, acknowledgement) result" where
  "ak_validate verify ack sender_node_key =
     (if \<not> ak_validated ack then
        if verify (take half_key_size (ak_data ack)) sender_node_key (drop half_key_size (ak_data ack))
        then Ok (ack\<lparr>ak_validated := True\<rparr>)
        else Err InvalidAcknowledgement
      else Ok ack)"

definition ak_key_share :: "acknowledgement \<Rightarrow> (core_types_error, half_key) result" where
  "ak_key_share ack = (if ak_validated ack then Ok (take half_key_size (ak_data ack)) else Err InvalidAcknowledgement)"

definition ak_challenge :: "'p curve \<Rightarrow> acknowledgement \<Rightarrow> (core_types_error, half_key_challenge) result" where
  "ak_challenge cv ack = and_then (ak_key_share ack) (half_key_to_challenge cv)"

datatype pending_acknowledgement = WaitingAsSender | WaitingAsRelayer unacknowledged_ticket

datatype resolved_acknowledgement = AckSending acknowledgement | RelayingWin acknowledged_ticket | RelayingLoss hash

section \<open>Ring buffers of reply blocks\<close>

record 'rb surb_ring =
  sr_new :: "nat \<Rightarrow> 'rb"
  sr_push :: "surb_id \<times> surb \<Rightarrow> 'rb \<Rightarrow> 'rb"
  sr_dequeue :: "'rb \<Rightarrow> (surb_id \<times> surb) option \<times> 'rb"
  sr_peek :: "'rb \<Rightarrow> (surb_id \<times> surb) option"

definition surb_ring_default :: "'rb surb_ring \<Rightarrow> 'rb" where
  "surb_ring_default R = sr_new R 10000"

definition push_surbs :: "'rb surb_ring \<Rightarrow> (surb_id \<times> surb) list \<Rightarrow> 'rb \<Rightarrow> 'rb" where
  "push_surbs R surbs rb = fold (sr_push R) surbs rb"

text \<open>The errors of the interface; the message of \<open>General\<close> is that of the error of the database.\<close>

datatype api_error =
    General db_error
  | ApiMissingLogStatus
  | ApiMissingLog
  | ApiInconsistentLogs
  | ApiMissingAccount
  | ApiChannelNotFound hash
  | NoSurbAvailable string
  | TicketAggregationError string
  | ApiTicketValidationError ticket string
  | ApiLogicalError string

definition pop_one :: "'rb surb_ring \<Rightarrow> 'rb \<Rightarrow> 'rb \<times> (api_error, surb_id \<times> surb) result" where
  "pop_one R rb = (let (x, rb) = sr_dequeue R rb in (rb, ok_or (NoSurbAvailable ''no more surbs'') x))"

definition pop_one_if_has_id :: "'rb surb_ring \<Rightarrow> surb_id \<Rightarrow> 'rb \<Rightarrow> 'rb \<times> (api_error, surb_id \<times> surb) result" where
  "pop_one_if_has_id R sid rb =
     (case sr_peek R rb of
        Some (surb_id, _) \<Rightarrow>
          if surb_id = sid then pop_one R rb
          else (rb, Err (NoSurbAvailable ''surb does not match the given id''))
      | None \<Rightarrow> (rb, Err (NoSurbAvailable ''surb does not match the given id'')))"

section \<open>State and actions\<close>

record 'rb relay_state =
  rl_chain :: chain_state
  rl_unacked :: "half_key_challenge \<Rightarrow> pending_acknowledgement option"
  rl_openers :: "sender_id \<Rightarrow> reply_opener option"
  rl_surbs :: "pseudonym \<Rightarrow> 'rb option"

record ('ma, 'g, 's, 'kp, 'p, 'sk, 'vrf, 'rnd, 'rb) relay_env =
  re_node :: "('ma, 'sk, 'vrf, 'rnd) node_db"
  re_packets :: "('g, 's, 'kp, 'p, 'sk, 'vrf, 'rnd) packet_env"
  re_sign :: "bytes \<Rightarrow> 'kp \<Rightarrow> bytes"
  re_ring :: "'rb surb_ring"

type_synonym ('rb, 'e, 'a) relay_action = "('rb relay_state, 'e, 'a) state_action"

definition on_chain :: "('e, 'a) action \<Rightarrow> ('rb, 'e, 'a) relay_action" where
  "on_chain m = (\<lambda>s. let (c, r) = m (rl_chain s) in (s\<lparr>rl_chain := c\<rparr>, r))"

definition as_api :: "('rb, db_error, 'a) relay_action \<Rightarrow> ('rb, api_error, 'a) relay_action" where
  "as_api m = (\<lambda>s. let (s, r) = m s in (s, map_fail General r))"

definition insert_unacked :: "half_key_challenge \<Rightarrow> pending_acknowledgement \<Rightarrow> ('rb, 'e, unit) relay_action" where
  "insert_unacked ch p = (\<lambda>s. (s\<lparr>rl_unacked := (rl_unacked s)(ch \<mapsto> p)\<rparr>, Ok ()))"

definition remove_unacked :: "half_key_challenge \<Rightarrow> ('rb, 'e, pending_acknowledgement option) relay_action" where
  "remove_unacked ch = (\<lambda>s. (s\<lparr>rl_unacked := (rl_unacked s)(ch := None)\<rparr>, Ok (rl_unacked s ch)))"

definition insert_openers :: "pseudonym \<Rightarrow> (surb_id \<times> reply_opener) list \<Rightarrow> ('rb, 'e, unit) relay_action" where
  "insert_openers pseudonym openers = (\<lambda>s.
     (s\<lparr>rl_openers := fold (\<lambda>(sid, opener) m. m(sender_id_from pseudonym sid \<mapsto> opener)) openers (rl_openers s)\<rparr>, Ok ()))"

definition remove_opener :: "sender_id \<Rightarrow> 'rb relay_state \<Rightarrow> reply_opener option \<times> 'rb relay_state" where
  "remove_opener p s = (rl_openers s p, s\<lparr>rl_openers := (rl_openers s)(p := None)\<rparr>)"

definition store_surbs :: "'rb surb_ring \<Rightarrow> pseudonym \<Rightarrow> (surb_id \<times> surb) list \<Rightarrow> ('rb, 'e, unit) relay_action" where
  "store_surbs R pseudonym surbs = (\<lambda>s.
     let rb = (case rl_surbs s pseudonym of Some rb \<Rightarrow> rb | None \<Rightarrow> surb_ring_default R) in
     (s\<lparr>rl_surbs := (rl_surbs s)(pseudonym \<mapsto> push_surbs R surbs rb)\<rparr>, Ok ()))"

text \<open>The identifiers of packet keys of \<open>Node_Accounts\<close> are those of the packets, written as four bytes.\<close>

definition mapper_of :: "'rb relay_state \<Rightarrow> key_mapper" where
  "mapper_of s =
     (let km = ad_key_ids (cs_accounts (rl_chain s)) in
      \<lparr>km_key_to_id = (\<lambda>key. map_option u32_to_be (map_key_to_id km key)),
       km_id_to_public = (\<lambda>i. map_id_to_public km (u32_from_be i))\<rparr>)"

definition channel_between ::
  "('ma, 'sk, 'vrf, 'rnd) node_db \<Rightarrow> address \<Rightarrow> address \<Rightarrow> (db_error, channel_entry option) action" where
  "channel_between nd src dst = (\<lambda>s.
     case get_channel_by_parties (cr_keccak (nd_crypto nd)) src dst True (cs_channels s) of
       Inl e \<Rightarrow> (s, Inl e) | Inr (tbl, c) \<Rightarrow> (s\<lparr>cs_channels := tbl\<rparr>, Ok c))"

section \<open>Tickets for the next hop\<close>

definition u256_mul :: "u256 \<Rightarrow> u256 \<Rightarrow> ('e, u256) result" where
  "u256_mul a b = (if unat a * unat b < 2 ^ 256 then Ok (a * b) else Panicked)"

definition multihop_amount :: "hopr_balance \<Rightarrow> u8 \<Rightarrow> win_prob \<Rightarrow> (db_error, hopr_balance) result" where
  "multihop_amount ticket_price current_path_pos winning_prob =
     and_then (u256_mul ticket_price (ucast (current_path_pos - 1))) (\<lambda>x.
       map_fail (\<lambda>_. LogicalError ''winning probability outside of the allowed interval (0.0, 1.0]'')
         (u256_div_f64 x (Some (wp_as_f64 winning_prob))))"

definition create_multihop_ticket ::
  "('ma, 'sk, 'vrf, 'rnd) node_db \<Rightarrow> channel_entry \<Rightarrow> address \<Rightarrow> address \<Rightarrow> u8 \<Rightarrow> win_prob \<Rightarrow> hopr_balance
     \<Rightarrow> (db_error, ticket_builder) action" where
  "create_multihop_ticket nd channel me_onchain destination current_path_pos winning_prob ticket_price =
     act_bind (act_lift (multihop_amount ticket_price current_path_pos winning_prob)) (\<lambda>amount.
       if ce_balance channel < amount then act_fail (LogicalError ''out of funds'')
       else
         act_bind (ticket_tx (increment_outgoing_ticket_index (ce_get_id channel))) (\<lambda>index.
         act_bind (act_lift (u256_as_u32 (ce_channel_epoch channel))) (\<lambda>epoch.
           act_return (tb_set_channel_epoch epoch (tb_set_win_prob winning_prob (tb_set_index_offset 1 (tb_set_index index
             (tb_set_balance amount (tb_set_direction (nd_crypto nd) me_onchain destination tb_default)))))))))"

definition zero_hop_ticket :: "('ma, 'sk, 'vrf, 'rnd) node_db \<Rightarrow> address \<Rightarrow> ticket_builder" where
  "zero_hop_ticket nd next_peer = tb_set_direction (nd_crypto nd) (nd_me_onchain nd) next_peer tb_zero_hop"

definition chain_key_of ::
  "('ma, 'sk, 'vrf, 'rnd) node_db \<Rightarrow> string \<Rightarrow> offchain_key \<Rightarrow> (db_error, address) action" where
  "chain_key_of nd msg key =
     act_bind (resolve_chain_key nd key) (\<lambda>a. act_lift (ok_or (LogicalError msg) a))"

definition channel_or :: "('ma, 'sk, 'vrf, 'rnd) node_db \<Rightarrow> string \<Rightarrow> address \<Rightarrow> address \<Rightarrow> (db_error, channel_entry) action" where
  "channel_or nd msg src dst =
     act_bind (channel_between nd src dst) (\<lambda>c. act_lift (ok_or (LogicalError msg) c))"

definition domain_separator_of :: "('ma, 'sk, 'vrf, 'rnd) node_db \<Rightarrow> (db_error, hash) action" where
  "domain_separator_of nd =
     act_bind (indexer_data_of nd) (\<lambda>d.
       act_lift (ok_or (LogicalError ''failed to fetch the domain separator'') (id_channels_dst d)))"

definition next_hop_ticket ::
  "('ma, 'sk, 'vrf, 'rnd) node_db \<Rightarrow> address \<Rightarrow> nat \<Rightarrow> u8 \<Rightarrow> win_prob \<Rightarrow> hopr_balance \<Rightarrow> (db_error, ticket_builder) action" where
  "next_hop_ticket nd next_addr hops pos winning_prob ticket_price =
     (if hops > 1 then
        act_bind (channel_or nd ''channel not found'' (nd_me_onchain nd) next_addr) (\<lambda>channel.
          create_multihop_ticket nd channel (nd_me_onchain nd) next_addr pos winning_prob ticket_price)
      else act_return (zero_hop_ticket nd next_addr))"

text \<open>The checks of the ticket of the previous hop: the verified ticket, with the domain separator.\<close>

definition validate_incoming_ticket ::
  "('ma, 'sk, 'vrf, 'rnd) node_db \<Rightarrow> hopr_forwarded_packet \<Rightarrow> (db_error, address \<times> verified_ticket \<times> hash) action" where
  "validate_incoming_ticket nd fwd =
     (let tkt = ho_ticket (hf_outgoing fwd) in
      act_bind (chain_key_of nd ''failed to find channel key for packet key on previous hop'' (hf_previous_hop fwd)) (\<lambda>previous_hop_addr.
      act_bind (chain_key_of nd ''failed to find channel key for packet key on next hop'' (ho_next_hop (hf_outgoing fwd))) (\<lambda>next_hop_addr.
      act_bind (channel_or nd ''no channel found for previous hop address'' previous_hop_addr (nd_me_onchain nd)) (\<lambda>incoming_channel.
        if tk_channel_id tkt \<noteq> ce_get_id incoming_channel then act_fail (LogicalError ''invalid ticket for channel'')
        else
          act_bind (indexer_data_of nd) (\<lambda>chain_data.
          act_bind (act_lift (ok_or (LogicalError ''failed to fetch the domain separator'') (id_channels_dst chain_data))) (\<lambda>ds.
          act_bind (act_lift (ok_or (LogicalError ''failed to fetch the ticket price'') (id_ticket_price chain_data))) (\<lambda>price.
          act_bind (ticket_tx (unrealized_value (sel_of_channel incoming_channel))) (\<lambda>unrealized.
          act_bind (act_lift (map_fail (\<lambda>e. DbTicketValidationError (tve_ticket e) (tve_reason e))
              (validate_unacknowledged_ticket (nd_crypto nd) (nd_approx nd) tkt incoming_channel
                (bal_mul price (ucast (hf_path_pos fwd))) (id_min_win_prob chain_data)
                (bal_sub (ce_balance incoming_channel) unrealized) ds))) (\<lambda>verified.
            act_return (next_hop_addr, verified, ds))))))))))"

definition validate_and_replace_ticket ::
  "('ma, 'sk, 'vrf, 'rnd) node_db \<Rightarrow> hopr_forwarded_packet \<Rightarrow> win_prob \<Rightarrow> hopr_balance
     \<Rightarrow> ('rb, db_error, hopr_forwarded_packet) relay_action" where
  "validate_and_replace_ticket nd fwd outgoing_ticket_win_prob outgoing_ticket_price =
     act_bind (on_chain (validate_incoming_ticket nd fwd)) (\<lambda>(next_hop_addr, verified, ds).
       let win_prob = wp_max (nd_approx nd) outgoing_ticket_win_prob (tk_encoded_win_prob (vt_ticket verified)) in
       act_bind (insert_unacked (ho_ack_challenge (hf_outgoing fwd))
           (WaitingAsRelayer (vt_into_unacknowledged verified (hf_own_key fwd)))) (\<lambda>_.
       act_bind (on_chain (next_hop_ticket nd next_hop_addr (unat (hf_path_pos fwd)) (hf_path_pos fwd) win_prob outgoing_ticket_price))
         (\<lambda>ticket_builder.
       act_bind (act_lift (map_fail DbCoreTypesError (tb_build_signed (nd_crypto nd)
           (tb_set_challenge (hf_next_challenge fwd) ticket_builder) (nd_chain_key nd) ds))) (\<lambda>vt.
         act_return (fwd\<lparr>hf_outgoing := (hf_outgoing fwd)\<lparr>ho_ticket := vt_leak vt\<rparr>\<rparr>)))))"

section \<open>Acknowledgements of the next hop\<close>

definition epoch_matches :: "unacknowledged_ticket \<Rightarrow> channel_entry option \<Rightarrow> ('e, bool) result" where
  "epoch_matches ut c =
     (case c of
        None \<Rightarrow> Ok False
      | Some c \<Rightarrow> map_res (\<lambda>e. e = tk_channel_epoch (vt_ticket (ut_ticket ut))) (u256_as_u32 (ce_channel_epoch c)))"

definition resolve_as_relayer ::
  "('ma, 'sk, 'vrf, 'rnd) node_db \<Rightarrow> 'rnd \<Rightarrow> acknowledgement \<Rightarrow> unacknowledged_ticket
     \<Rightarrow> (db_error, resolved_acknowledgement) action" where
  "resolve_as_relayer nd rnd ack unacknowledged =
     act_bind (channel_between nd (vt_issuer (ut_ticket unacknowledged)) (nd_me_onchain nd)) (\<lambda>c.
     act_bind (act_lift (epoch_matches unacknowledged c)) (\<lambda>ok.
       if ok then
         act_bind (indexer_data_of nd) (\<lambda>d.
         act_bind (channels_domain_separator d) (\<lambda>ds.
         act_bind (act_lift (map_fail DbCoreTypesError (and_then (ak_key_share ack) (ut_acknowledge (nd_crypto nd) unacknowledged)))) (\<lambda>tkt.
         act_bind (act_lift (at_is_winning (nd_crypto nd) rnd tkt (nd_chain_key nd) ds)) (\<lambda>win.
           act_return (if win then RelayingWin tkt else RelayingLoss (tk_channel_id (vt_ticket (at_ticket tkt))))))))
       else act_fail (LogicalError ''no channel found for address with a matching epoch'')))"

definition validate_acknowledgement ::
  "('ma, 'sk, 'vrf, 'rnd) node_db \<Rightarrow> 'p curve \<Rightarrow> 'rnd \<Rightarrow> acknowledgement \<Rightarrow> ('rb, db_error, resolved_acknowledgement) relay_action" where
  "validate_acknowledgement nd cv rnd ack =
     act_bind (act_lift (map_fail DbCoreTypesError (ak_challenge cv ack))) (\<lambda>ch.
     act_bind (remove_unacked ch) (\<lambda>pending.
       case pending of
         None \<Rightarrow> act_fail (AcknowledgementValidationError ''received unexpected acknowledgement for half key challenge'')
       | Some WaitingAsSender \<Rightarrow> act_return (AckSending ack)
       | Some (WaitingAsRelayer unacknowledged) \<Rightarrow> on_chain (resolve_as_relayer nd rnd ack unacknowledged)))"

definition handle_acknowledgement ::
  "('ma, 'sk, 'vrf, 'rnd) node_db \<Rightarrow> 'p curve \<Rightarrow> 'rnd \<Rightarrow> acknowledgement \<Rightarrow> ('rb, api_error, unit) relay_action" where
  "handle_acknowledgement nd cv rnd ack =
     act_bind (as_api (validate_acknowledgement nd cv rnd ack)) (\<lambda>r.
       case r of
         RelayingWin ack_ticket \<Rightarrow>
           as_api (on_chain (ticket_tx (\<lambda>db. map_res (\<lambda>db. (db, ())) (insert_ticket ack_ticket db))))
       | _ \<Rightarrow> act_return ())"

definition get_network_winning_probability ::
  "('ma, 'sk, 'vrf, 'rnd) node_db \<Rightarrow> ('rb, api_error, win_prob) relay_action" where
  "get_network_winning_probability nd =
     as_api (act_bind (on_chain (indexer_data_of nd)) (\<lambda>d. act_return (id_min_win_prob d)))"

definition get_network_ticket_price ::
  "('ma, 'sk, 'vrf, 'rnd) node_db \<Rightarrow> ('rb, api_error, hopr_balance) relay_action" where
  "get_network_ticket_price nd =
     as_api (act_bind (on_chain (indexer_data_of nd)) (\<lambda>d.
       act_lift (ok_or (LogicalError ''missing ticket price'') (id_ticket_price d))))"

section \<open>Finding a reply block\<close>

datatype surb_matcher = MatchExact sender_id | MatchPseudonym pseudonym

fun matcher_pseudonym :: "surb_matcher \<Rightarrow> pseudonym" where
  "matcher_pseudonym (MatchExact i) = sender_id_pseudonym i"
| "matcher_pseudonym (MatchPseudonym p) = p"

definition find_surb :: "'rb surb_ring \<Rightarrow> surb_matcher \<Rightarrow> ('rb, api_error, sender_id \<times> surb) relay_action" where
  "find_surb R matcher = (\<lambda>s.
     let pseudonym = matcher_pseudonym matcher in
     case rl_surbs s pseudonym of
       None \<Rightarrow> (s, Err (NoSurbAvailable ''pseudonym not found''))
     | Some rb \<Rightarrow>
         (let (rb, r) = (case matcher of MatchPseudonym _ \<Rightarrow> pop_one R rb | MatchExact i \<Rightarrow> pop_one_if_has_id R (sender_id_surb_id i) rb) in
          (s\<lparr>rl_surbs := (rl_surbs s)(pseudonym \<mapsto> rb)\<rparr>, map_res (\<lambda>(sid, surb). (sender_id_from pseudonym sid, surb)) r)))"

section \<open>Sending\<close>

record outgoing_packet =
  op_next_hop :: bytes
  op_ack_challenge :: half_key_challenge
  op_data :: bytes

datatype resolved_transport_routing =
    RouteForward pseudonym "bytes list" "bytes list list"
  | RouteReturn sender_id surb

text \<open>The packet as it is sent: the Sphinx packet and the encoded ticket.\<close>

definition transport_payload :: "hopr_outgoing_packet \<Rightarrow> ('e, bytes) result" where
  "transport_payload out = map_res (\<lambda>t. ho_packet out @ t) (ticket_encode (ho_ticket out))"

definition build_outgoing ::
  "('ma, 'g, 's, 'kp, 'p, 'sk, 'vrf, 'rnd, 'rb) relay_env \<Rightarrow> 's packet_random \<Rightarrow> bytes \<Rightarrow> pseudonym \<Rightarrow> packet_routing \<Rightarrow> ticket_builder
     \<Rightarrow> ('rb, db_error, hopr_packet \<times> (surb_id \<times> reply_opener) list) relay_action" where
  "build_outgoing re rnd msg pseudonym routing next_ticket =
     act_bind (on_chain (domain_separator_of (re_node re))) (\<lambda>ds s.
       (s, map_fail (\<lambda>_. LogicalError ''failed to construct chain components for a packet'')
         (into_outgoing (re_packets re) rnd msg pseudonym routing (nd_chain_key (re_node re)) next_ticket (mapper_of s) ds)))"

definition outgoing_of :: "hopr_packet \<Rightarrow> ('e, hopr_outgoing_packet) result \<Rightarrow> ('e, hopr_outgoing_packet) result" where
  "outgoing_of packet e = (case packet of OutgoingPacket out \<Rightarrow> Ok out | _ \<Rightarrow> e)"

definition to_send_no_ack ::
  "('ma, 'g, 's, 'kp, 'p, 'sk, 'vrf, 'rnd, 'rb) relay_env \<Rightarrow> 's packet_random \<Rightarrow> pseudonym \<Rightarrow> bytes \<Rightarrow> offchain_key
     \<Rightarrow> ('rb, api_error, outgoing_packet) relay_action" where
  "to_send_no_ack re rnd pseudonym msg destination =
     as_api (
     act_bind (on_chain (chain_key_of (re_node re) ''failed to find chain key for packet key on previous hop'' destination)) (\<lambda>next_peer.
     act_bind (build_outgoing re rnd msg pseudonym (NoAckTo destination) (zero_hop_ticket (re_node re) next_peer)) (\<lambda>(packet, _).
     act_bind (act_lift (outgoing_of packet (Err (LogicalError ''must be an outgoing packet'')))) (\<lambda>out.
     act_bind (act_lift (transport_payload out)) (\<lambda>payload.
       act_return \<lparr>op_next_hop = ho_next_hop out, op_ack_challenge = ho_ack_challenge out, op_data = payload\<rparr>)))))"

definition routing_values ::
  "resolved_transport_routing \<Rightarrow> ('rb, db_error, offchain_key \<times> nat \<times> pseudonym \<times> packet_routing) relay_action" where
  "routing_values routing = (\<lambda>s.
     case routing of
       RouteForward pseudonym forward_path return_paths \<Rightarrow>
         (s, map_res (\<lambda>nxt. (nxt, length forward_path, pseudonym, ForwardPath forward_path return_paths)) (index_res forward_path 0))
     | RouteReturn sid surb \<Rightarrow>
         (s, and_then (ok_or MissingAccount (km_id_to_public (mapper_of s) (sb_first_relayer surb))) (\<lambda>nxt.
              map_res (\<lambda>values. (nxt, unat (pov_chain_length values), sender_id_pseudonym sid, ViaSurb (sender_id_surb_id sid) surb))
                (surb_info_por_values (sb_additional_data_receiver surb)))))"

definition to_send ::
  "('ma, 'g, 's, 'kp, 'p, 'sk, 'vrf, 'rnd, 'rb) relay_env \<Rightarrow> 's packet_random \<Rightarrow> bytes \<Rightarrow> resolved_transport_routing
     \<Rightarrow> win_prob \<Rightarrow> hopr_balance \<Rightarrow> ('rb, api_error, outgoing_packet) relay_action" where
  "to_send re rnd msg routing outgoing_ticket_win_prob outgoing_ticket_price =
     as_api (
     act_bind (routing_values routing) (\<lambda>(next_key, num_hops, pseudonym, routing).
     act_bind (on_chain (chain_key_of (re_node re) ''failed to find chain key for packet key on previous hop'' next_key)) (\<lambda>next_peer.
     act_bind (on_chain (next_hop_ticket (re_node re) next_peer num_hops (of_nat num_hops) outgoing_ticket_win_prob outgoing_ticket_price))
       (\<lambda>next_ticket.
     act_bind (build_outgoing re rnd msg pseudonym routing next_ticket) (\<lambda>(packet, openers).
     act_bind (insert_openers pseudonym openers) (\<lambda>_.
     act_bind (act_lift (outgoing_of packet (Err (LogicalError ''must be an outgoing packet'')))) (\<lambda>out.
     act_bind (insert_unacked (ho_ack_challenge out) WaitingAsSender) (\<lambda>_.
     act_bind (act_lift (transport_payload out)) (\<lambda>payload.
       act_return \<lparr>op_next_hop = ho_next_hop out, op_ack_challenge = ho_ack_challenge out, op_data = payload\<rparr>)))))))))"

section \<open>Receiving\<close>

datatype incoming_packet =
    IncomingFinal (ip_packet_tag: bytes) (ip_previous_hop: bytes) (ip_sender: pseudonym) (ip_plain_text: bytes) (ip_ack_key: half_key)
  | IncomingForwarded (ip_packet_tag: bytes) (ip_previous_hop: bytes) (ip_next_hop: bytes) (ip_data: bytes) (ip_ack: acknowledgement)

definition receive_final ::
  "('ma, 'g, 's, 'kp, 'p, 'sk, 'vrf, 'rnd, 'rb) relay_env \<Rightarrow> 'rnd \<Rightarrow> hopr_incoming_packet
     \<Rightarrow> ('rb, api_error, incoming_packet option) relay_action" where
  "receive_final re vrf_rnd incoming =
     act_bind (if hi_surbs incoming \<noteq> [] then store_surbs (re_ring re) (hi_sender incoming) (hi_surbs incoming) else act_return ()) (\<lambda>_.
       case hi_ack_key incoming of
         Some ack_key \<Rightarrow>
           act_return (Some (IncomingFinal (hi_packet_tag incoming) (hi_previous_hop incoming) (hi_sender incoming)
             (hi_plain_text incoming) ack_key))
       | None \<Rightarrow>
           act_bind (as_api (act_lift (map_fail (\<lambda>_. DecodingError) (ak_try_from (hi_plain_text incoming))))) (\<lambda>ack.
           act_bind (as_api (act_lift (map_fail (\<lambda>_. AcknowledgementValidationError ''invalid'')
               (ak_validate (\<lambda>m k sig. ae_verify_message (nd_accounts (re_node re)) m k sig) ack (hi_previous_hop incoming))))) (\<lambda>ack.
           act_bind (handle_acknowledgement (re_node re) (pe_curve (re_packets re)) vrf_rnd ack) (\<lambda>_.
             act_return None))))"

text \<open>A ticket that is refused is counted among the rejected ones of its channel.\<close>

definition reject_unsaved :: "ticket \<Rightarrow> string \<Rightarrow> ('rb, db_error, 'a) relay_action" where
  "reject_unsaved rejected_ticket error =
     act_bind (\<lambda>s. let (s, r) = on_chain (ticket_tx (\<lambda>db. map_res (\<lambda>db. (db, ())) (mark_unsaved_ticket_rejected rejected_ticket db))) s in
         (s, map_fail (\<lambda>_ :: db_error. DbTicketValidationError rejected_ticket ''during validation error update another error occurred'') r)) (\<lambda>_.
       act_fail (DbTicketValidationError rejected_ticket error))"

definition receive_forwarded ::
  "('ma, 'g, 's, 'kp, 'p, 'sk, 'vrf, 'rnd, 'rb) relay_env \<Rightarrow> 'kp \<Rightarrow> win_prob \<Rightarrow> hopr_balance \<Rightarrow> hopr_forwarded_packet
     \<Rightarrow> ('rb, api_error, incoming_packet option) relay_action" where
  "receive_forwarded re pkt_keypair outgoing_ticket_win_prob outgoing_ticket_price fwd = as_api (\<lambda>s.
     case validate_and_replace_ticket (re_node re) fwd outgoing_ticket_win_prob outgoing_ticket_price s of
       (s, Inr fwd) \<Rightarrow>
         (s, map_res (\<lambda>payload. Some (IncomingForwarded (hf_packet_tag fwd) (hf_previous_hop fwd) (ho_next_hop (hf_outgoing fwd)) payload
              (ak_new (re_sign re) (hf_ack_key fwd) pkt_keypair))) (transport_payload (hf_outgoing fwd)))
     | (s, Inl (Fail (DbTicketValidationError rejected_ticket error))) \<Rightarrow> reject_unsaved rejected_ticket error s
     | (s, Inl e) \<Rightarrow> (s, Inl e))"

definition from_recv ::
  "('ma, 'g, 's, 'kp, 'p, 'sk, 'vrf, 'rnd, 'rb) relay_env \<Rightarrow> 'rnd \<Rightarrow> bytes \<Rightarrow> 'kp \<Rightarrow> offchain_key \<Rightarrow> win_prob \<Rightarrow> hopr_balance
     \<Rightarrow> ('rb, api_error, incoming_packet option) relay_action" where
  "from_recv re vrf_rnd payload pkt_keypair sender outgoing_ticket_win_prob outgoing_ticket_price =
     act_bind
       (as_api (\<lambda>s. let (s, r) = from_incoming (re_packets re) payload pkt_keypair sender (mapper_of s) remove_opener s in
          (s, map_fail (\<lambda>_. LogicalError ''failed to construct an incoming packet'') r)))
       (\<lambda>packet. case packet of
          FinalPacket incoming \<Rightarrow> receive_final re vrf_rnd incoming
        | ForwardedPacket fwd \<Rightarrow> receive_forwarded re pkt_keypair outgoing_ticket_win_prob outgoing_ticket_price fwd
        | OutgoingPacket _ \<Rightarrow> act_fail (General (LogicalError ''cannot receive an outgoing packet'')))"

section \<open>What actions leave alone\<close>

definition keeps :: "('s \<Rightarrow> 'v) \<Rightarrow> ('s, 'e, 'a) state_action \<Rightarrow> bool" where
  "keeps f m \<longleftrightarrow> (\<forall>s. f (fst (m s)) = f s)"

named_theorems keeping

lemma keepsD: "keeps f m \<Longrightarrow> m s = (s', r) \<Longrightarrow> f s' = f s"
  by (metis fst_conv keeps_def)

lemma keeps_basic [keeping]: "keeps f (act_return x)" "keeps f (act_fail e)" "keeps f (act_lift r)" "keeps f (db_query q)"
  by (simp_all add: keeps_def act_lift_def db_query_def)

lemma keeps_bind [keeping]:
  assumes "keeps f m" and "\<And>x. keeps f (k x)"
  shows "keeps f (act_bind m k)"
  using assms by (auto simp: keeps_def act_bind_def split: prod.splits sum.splits) (metis fst_conv)+

lemma keeps_if [keeping]: "keeps f m \<Longrightarrow> keeps f n \<Longrightarrow> keeps f (if b then m else n)"
  by simp

lemma keeps_caches [keeping]:
  "keeps cs_tickets (channel_between nd a b)" "keeps cs_tickets (indexer_data_of nd)" "keeps cs_tickets (translated_key nd k)"
  by (auto simp: keeps_def channel_between_def indexer_data_of_def translated_key_def split: sum.splits prod.splits)

lemma keeps_on_chain [keeping]:
  "keeps rl_unacked (on_chain m)" "keeps rl_openers (on_chain m)" "keeps rl_surbs (on_chain m)"
  "keeps cs_tickets m \<Longrightarrow> keeps (\<lambda>s. cs_tickets (rl_chain s)) (on_chain m)"
  by (auto simp: keeps_def on_chain_def split: prod.splits) (metis fst_conv)

lemma keeps_as_api [keeping]: "keeps f m \<Longrightarrow> keeps f (as_api m)"
  by (auto simp: keeps_def as_api_def split: prod.splits) (metis fst_conv)

lemma keeps_unacked [keeping]:
  "keeps rl_chain (insert_unacked ch p)" "keeps rl_openers (insert_unacked ch p)" "keeps rl_surbs (insert_unacked ch p)"
  "keeps rl_chain (remove_unacked ch)" "keeps rl_openers (remove_unacked ch)" "keeps rl_surbs (remove_unacked ch)"
  by (simp_all add: keeps_def insert_unacked_def remove_unacked_def)

lemma keeps_resolve_as_relayer: "keeps cs_tickets (resolve_as_relayer nd rnd ack ut)"
  unfolding resolve_as_relayer_def channels_domain_separator_def by (intro keeping)

lemma relay_Ok_iff:
  "on_chain m s = (s', Ok x) \<longleftrightarrow> (\<exists>c. m (rl_chain s) = (c, Ok x) \<and> s' = s\<lparr>rl_chain := c\<rparr>)"
  "as_api m' s = (s', Ok y) \<longleftrightarrow> m' s = (s', Ok y)"
  by (auto simp: on_chain_def as_api_def map_fail_Inr_iff split: prod.splits)

text \<open>Every error of the database becomes a general one, that of a refused ticket included.\<close>

lemma as_api_errors_general: "as_api m s = (s', Err e) \<Longrightarrow> \<exists>d. e = General d"
  by (auto simp: as_api_def split: prod.splits elim!: map_fail.elims)

lemma validate_acknowledgement_known:
  assumes "ak_challenge cv ack = Ok ch"
  shows "validate_acknowledgement nd cv rnd ack s =
    (case rl_unacked s ch of
       None \<Rightarrow> (s, Err (AcknowledgementValidationError ''received unexpected acknowledgement for half key challenge''))
     | Some WaitingAsSender \<Rightarrow> (s\<lparr>rl_unacked := (rl_unacked s)(ch := None)\<rparr>, Ok (AckSending ack))
     | Some (WaitingAsRelayer ut) \<Rightarrow> on_chain (resolve_as_relayer nd rnd ack ut) (s\<lparr>rl_unacked := (rl_unacked s)(ch := None)\<rparr>))"
  using assms
  by (auto simp: validate_acknowledgement_def act_bind_def act_lift_def remove_unacked_def fun_upd_idem
      split: option.splits pending_acknowledgement.splits)

section \<open>What a relay does with a packet\<close>

lemma into_forwarded_relayed_state:
  assumes "into_forwarded su hs P kp mapper openers pkt st = (st', Ok (MetaRelayed p n pos info s tag))"
  shows "st' = st"
  using assms by (auto simp: into_forwarded_def Let_def and_then_Inr_iff map_fail_Inr_iff ok_or_Inr_iff
      split: sum.splits prod.splits forwarded_header.splits if_splits)

lemma from_incoming_forwarded:
  assumes "from_incoming pe payload kp prev mapper openers st = (st', Ok (ForwardedPacket fwd))"
  shows "st' = st \<and> hf_previous_hop fwd = prev"
proof -
  have len: "length payload = hopr_packet_size" using assms by (auto simp: from_incoming_def split: if_splits)
  obtain mp where mp: "meta_packet_try_from (pe_suite pe) hopr_header_spec payload_size_int (take hopr_meta_packet_len payload) = Ok mp"
    using assms len by (auto simp: from_incoming_def meta_packet_try_from_def split: if_splits)
  obtain st1 r where f: "into_forwarded (pe_suite pe) hopr_header_spec payload_size_int kp mapper openers mp st = (st1, r)" by force
  obtain x where r: "r = Ok x" using assms len mp f by (auto simp: from_incoming_def and_then_Inr_iff map_fail_Inr_iff)
  show ?thesis
  proof (cases x)
    case (MetaRelayed p n pos info s tag)
    then have "st1 = st" using f r into_forwarded_relayed_state by metis
    then show ?thesis using assms len mp f r MetaRelayed
      by (auto simp: from_incoming_def Let_def and_then_Inr_iff map_fail_Inr_iff)
  next
    case MetaFinal
    then show ?thesis using assms len mp f r by (auto simp: from_incoming_def and_then_Inr_iff)
  qed
qed

text \<open>
  The checks of an incoming ticket, in terms of the database: the channel from the previous hop is the ticket's, the
  ticket is signed by its source, is worth at least the price for the remaining hops and at most what is left of the
  balance, has the required winning probability and belongs to the current epoch of a channel that is not closed.
\<close>

definition ticket_accepted ::
  "('ma, 'sk, 'vrf, 'rnd) node_db \<Rightarrow> chain_state \<Rightarrow> offchain_key \<Rightarrow> u8 \<Rightarrow> ticket \<Rightarrow> verified_ticket \<Rightarrow> hash \<Rightarrow> bool" where
  "ticket_accepted nd cs prev pos t verified ds \<longleftrightarrow>
     (\<exists>ad prev_addr tbl ch nf d price td unrealized.
        translate_key (nd_accounts nd) (PacketKey prev) (cs_accounts cs) = Ok (ad, Some (ChainKey prev_addr))
        \<and> get_channel_by_parties (cr_keccak (nd_crypto nd)) prev_addr (nd_me_onchain nd) True (cs_channels cs) = Ok (tbl, Some ch)
        \<and> tk_channel_id t = ce_get_id ch
        \<and> get_indexer_data (nd_approx nd) (cs_info cs) = Ok (nf, d) \<and> id_channels_dst d = Some ds \<and> id_ticket_price d = Some price
        \<and> unrealized_value (sel_of_channel ch) (cs_tickets cs) = Ok (td, unrealized)
        \<and> vt_ticket verified = t \<and> vt_issuer verified = ce_source ch \<and> vt_inv (nd_crypto nd) ds verified
        \<and> bal_mul price (ucast pos) \<le> tk_amount t \<and> tk_amount t \<le> bal_sub (ce_balance ch) unrealized
        \<and> wp_approx_cmp (nd_approx nd) (tk_encoded_win_prob t) (id_min_win_prob d) \<noteq> Less
        \<and> ce_status ch \<noteq> Closed \<and> ce_channel_epoch ch = ucast (tk_channel_epoch t))"

lemma validate_unacknowledged_Ok:
  assumes "validate_unacknowledged_ticket cr approx t ch min_amount req_wp unrealized ds = Ok vt"
  shows "vt_ticket vt = t \<and> vt_issuer vt = ce_source ch \<and> vt_inv cr ds vt \<and> min_amount \<le> tk_amount t \<and> tk_amount t \<le> unrealized
     \<and> wp_approx_cmp approx (tk_encoded_win_prob t) req_wp \<noteq> Less \<and> ce_status ch \<noteq> Closed \<and> ce_channel_epoch ch = ucast (tk_channel_epoch t)"
proof -
  have c: "status_eq s Closed \<longleftrightarrow> s = Closed" for s by (cases s) auto
  show ?thesis using assms
    by (auto simp: validate_unacknowledged_ticket_def and_then_Inr_iff map_fail_Inr_iff Let_def ticket_verify_Ok_iff c split: if_splits)
qed

lemma chain_key_of_Ok:
  assumes "chain_key_of nd msg key cs = (cs', Ok a)"
  obtains ad where "translate_key (nd_accounts nd) (PacketKey key) (cs_accounts cs) = Ok (ad, Some (ChainKey a))"
    and "cs' = cs\<lparr>cs_accounts := ad\<rparr>"
proof -
  obtain k ad where "translate_key (nd_accounts nd) (PacketKey key) (cs_accounts cs) = Ok (ad, Some k)"
    "chain_key_try_from k = Ok a" "cs' = cs\<lparr>cs_accounts := ad\<rparr>"
    using assms
    by (auto simp: chain_key_of_def resolve_chain_key_def translated_key_def act_Ok_iff ok_or_Inr_iff map_res_Inr_iff map_fail_Inr_iff
        split: option.splits sum.splits)
  then show ?thesis using that by (cases k) auto
qed

lemma validate_incoming_ticket_Ok:
  assumes "validate_incoming_ticket nd fwd cs = (cs', Ok (next_addr, verified, ds))"
  shows "ticket_accepted nd cs (hf_previous_hop fwd) (hf_path_pos fwd) (ho_ticket (hf_outgoing fwd)) verified ds"
  using assms
  unfolding validate_incoming_ticket_def Let_def channel_or_def channel_between_def indexer_data_of_def
  by (auto simp: act_Ok_iff ok_or_Inr_iff map_fail_Inr_iff ticket_accepted_def split: if_splits sum.splits prod.splits
      elim!: chain_key_of_Ok dest!: validate_unacknowledged_Ok)

text \<open>The data that the tables and the ticket manager hold, without the caches of what can be read again.\<close>

definition stored_data :: "chain_state \<Rightarrow> _" where
  "stored_data cs = (ct_rows (cs_channels cs), ad_accounts (cs_accounts cs), td_tickets (cs_tickets cs), td_stats (cs_tickets cs),
     td_ticket_index (cs_tickets cs), td_outgoing (cs_tickets cs), td_queue (cs_tickets cs))"

lemma translate_key_rows: "translate_key ae k ad = Ok (ad', r) \<Longrightarrow> ad_accounts ad' = ad_accounts ad"
  by (auto simp: translate_key_def map_res_Inr_iff split: chain_or_packet_key.splits option.splits prod.splits)

lemma get_channel_by_parties_rows: "get_channel_by_parties keccak a b c tbl = Ok (tbl', r) \<Longrightarrow> ct_rows tbl' = ct_rows tbl"
  by (auto simp: get_channel_by_parties_def Let_def map_res_Inr_iff split: if_splits option.splits)

lemma unrealized_value_stored:
  "unrealized_value sel db = Ok (db', v) \<Longrightarrow> td_tickets db' = td_tickets db \<and> td_stats db' = td_stats db
     \<and> td_ticket_index db' = td_ticket_index db \<and> td_outgoing db' = td_outgoing db \<and> td_queue db' = td_queue db"
  by (auto simp: unrealized_value_def Let_def split: if_splits option.splits)

lemma keeps_stored [keeping]:
  "keeps stored_data (channel_between nd a b)" "keeps stored_data (indexer_data_of nd)" "keeps stored_data (translated_key nd k)"
  "keeps stored_data (ticket_tx (unrealized_value sel))"
  by (auto simp: keeps_def stored_data_def channel_between_def indexer_data_of_def translated_key_def ticket_tx_def
      split: sum.splits prod.splits dest!: translate_key_rows get_channel_by_parties_rows unrealized_value_stored)

lemma keeps_option [keeping]:
  "keeps f m \<Longrightarrow> (\<And>x. keeps f (k x)) \<Longrightarrow> keeps f (case y of None \<Rightarrow> m | Some x \<Rightarrow> k x)"
  by (cases y) simp_all

lemma keeps_chain_key_of [keeping]:
  "keeps cs_tickets (chain_key_of nd msg k)" "keeps stored_data (chain_key_of nd msg k)"
  unfolding chain_key_of_def resolve_chain_key_def by (intro keeping)+

lemma keeps_channel_or [keeping]: "keeps cs_tickets (channel_or nd msg a b)" "keeps stored_data (channel_or nd msg a b)"
  unfolding channel_or_def by (intro keeping)+

lemma keeps_validate_incoming: "keeps stored_data (validate_incoming_ticket nd fwd)"
  unfolding validate_incoming_ticket_def Let_def by (intro keeping)

text \<open>
  The ticket for the next hop: over the channel to it, worth the price for the hops that remain divided by the winning
  probability, covered by the balance, with the next index of the channel. The last hop gets a ticket of no value.
\<close>

definition pays_next_hop ::
  "('ma, 'sk, 'vrf, 'rnd) node_db \<Rightarrow> chain_state \<Rightarrow> address \<Rightarrow> nat \<Rightarrow> u8 \<Rightarrow> win_prob \<Rightarrow> hopr_balance \<Rightarrow> ticket \<Rightarrow> chain_state \<Rightarrow> bool" where
  "pays_next_hop nd cs next_addr hops pos wp price t cs' \<longleftrightarrow>
     tk_channel_id t = generate_channel_id (cr_keccak (nd_crypto nd)) (nd_me_onchain nd) next_addr \<and> tk_index_offset t = 1
     \<and> (if hops > 1 then
          \<exists>tbl c. get_channel_by_parties (cr_keccak (nd_crypto nd)) (nd_me_onchain nd) next_addr True (cs_channels cs) = Ok (tbl, Some c)
            \<and> multihop_amount price pos wp = Ok (tk_amount t) \<and> tk_amount t \<le> ce_balance c \<and> tk_encoded_win_prob t = wp
            \<and> ce_channel_epoch c = ucast (tk_channel_epoch t)
            \<and> increment_outgoing_ticket_index (ce_get_id c) (cs_tickets cs) = Ok (cs_tickets cs', tk_index t)
        else tk_amount t = 0 \<and> tk_index t = 0 \<and> tk_channel_epoch t = 0 \<and> tk_encoded_win_prob t = wp_never
          \<and> cs_tickets cs' = cs_tickets cs)"

lemma u256_as_u32_Ok:
  assumes "u256_as_u32 x = Ok e"
  shows "x = ucast e"
proof -
  have "unat x < 2 ^ 32" and e: "e = ucast x" using assms by (auto simp: u256_as_u32_def split: if_splits)
  then have "unat (ucast (ucast x :: u32) :: u256) = unat x" by (simp add: unsigned_ucast_eq unsigned_take_bit_eq take_bit_nat_eq_self)
  then show ?thesis unfolding e by (metis word_unat_eq_iff)
qed

lemma next_hop_ticket_signed:
  assumes n: "next_hop_ticket nd next_addr hops pos wp price cs = (cs', Ok b)"
    and sg: "tb_build_signed (nd_crypto nd) (tb_set_challenge ch b) key ds = Ok vt"
  shows "pays_next_hop nd cs next_addr hops pos wp price (vt_ticket vt) cs' \<and> tk_challenge (vt_ticket vt) = ch
    \<and> (\<exists>t. vt = ticket_sign (nd_crypto nd) t key ds)"
proof (cases "hops > 1")
  case True
  then obtain c1 c amount c2 index epoch where
    c: "channel_or nd ''channel not found'' (nd_me_onchain nd) next_addr cs = (c1, Ok c)"
    and am: "multihop_amount price pos wp = Ok amount" "amount \<le> ce_balance c"
    and ix: "ticket_tx (increment_outgoing_ticket_index (ce_get_id c)) c1 = (c2, Ok index)" and cs': "cs' = c2"
    and ep: "u256_as_u32 (ce_channel_epoch c) = (Ok epoch :: (db_error, u32) result)"
    and b: "b = tb_set_channel_epoch epoch (tb_set_win_prob wp (tb_set_index_offset 1 (tb_set_index index
        (tb_set_balance amount (tb_set_direction (nd_crypto nd) (nd_me_onchain nd) next_addr tb_default)))))"
    using n by (auto simp: next_hop_ticket_def create_multihop_ticket_def act_Ok_iff not_less split: if_splits)
  obtain tbl where tbl: "get_channel_by_parties (cr_keccak (nd_crypto nd)) (nd_me_onchain nd) next_addr True (cs_channels cs) = Ok (tbl, Some c)"
    "c1 = cs\<lparr>cs_channels := tbl\<rparr>"
    using c by (auto simp: channel_or_def channel_between_def act_Ok_iff ok_or_Inr_iff split: sum.splits prod.splits)
  have ix': "increment_outgoing_ticket_index (ce_get_id c) (cs_tickets cs) = Ok (cs_tickets cs', index)"
    using ix tbl(2) cs' by (auto simp: act_Ok_iff)
  obtain t where t: "tb_build (tb_set_challenge ch b) = Ok t" and vt: "vt = ticket_sign (nd_crypto nd) t key ds"
    using sg by (auto simp: tb_build_signed_def map_res_Inr_iff split: if_splits)
  have f: "tk_channel_id t = generate_channel_id (cr_keccak (nd_crypto nd)) (nd_me_onchain nd) next_addr" "tk_amount t = amount"
    "tk_index t = index" "tk_index_offset t = 1" "tk_encoded_win_prob t = wp" "tk_channel_epoch t = epoch" "tk_challenge t = ch"
    using t unfolding tb_build_Ok_iff
    by (auto simp: b tb_set_challenge_def tb_set_direction_def tb_default_def tb_set_channel_epoch_def tb_set_win_prob_def
        tb_set_index_offset_def tb_set_index_def tb_set_balance_def tb_wanted_amount_def)
  show ?thesis
    using True tbl(1) am ix' u256_as_u32_Ok [OF ep] f vt
    by (auto simp: pays_next_hop_def ticket_sign_def Let_def)
next
  case False
  then show ?thesis using assms
    by (auto simp: next_hop_ticket_def act_Ok_iff zero_hop_ticket_def tb_build_signed_def map_res_Inr_iff tb_build_Ok_iff
        tb_set_challenge_def tb_set_direction_def tb_zero_hop_def pays_next_hop_def ticket_sign_def Let_def tb_default_def
        tb_wanted_amount_def split: if_splits)
qed

end
