(* ===== verification/Relay_Delivery.thy ===== *)
theory Relay_Delivery
  imports Packet_Relay Aggregation_Round "HOL-Library.Sublist"
begin

text \<open>
  What the processing of packets and acknowledgements achieves: an acknowledgement settles the ticket that waits for it, a
  relay pays the next hop and is paid by the previous one, acknowledgements reach the previous hop, and reply blocks are
  used once.
\<close>

section \<open>Acknowledgements settle tickets\<close>

text \<open>
  What the acknowledgement of a ticket leads to: the ticket was issued over a channel of the current epoch, the two key
  shares open its challenge, and it wins or not.
\<close>

definition acknowledged_as ::
  "('ma, 'sk, 'vrf, 'rnd) node_db \<Rightarrow> 'rnd \<Rightarrow> half_key \<Rightarrow> unacknowledged_ticket \<Rightarrow> chain_state \<Rightarrow> acknowledged_ticket \<Rightarrow> bool \<Rightarrow> bool" where
  "acknowledged_as nd rnd share ut cs tkt win \<longleftrightarrow>
     ut_acknowledge (nd_crypto nd) ut share = Ok tkt
     \<and> (\<exists>tbl c. get_channel_by_parties (cr_keccak (nd_crypto nd)) (vt_issuer (ut_ticket ut)) (nd_me_onchain nd) True (cs_channels cs)
            = Ok (tbl, Some c)
          \<and> u256_as_u32 (ce_channel_epoch c) = (Ok (tk_channel_epoch (vt_ticket (ut_ticket ut))) :: (db_error, u32) result))
     \<and> (\<exists>nf d ds. get_indexer_data (nd_approx nd) (cs_info cs) = Ok (nf, d) \<and> id_channels_dst d = Some ds
          \<and> at_is_winning (nd_crypto nd) rnd tkt (nd_chain_key nd) ds = (Ok win :: (db_error, bool) result))"

lemma resolve_as_relayer_iff:
  assumes "ak_validated ack"
  shows "(\<exists>cs'. resolve_as_relayer nd rnd ack ut cs = (cs', Ok r)) \<longleftrightarrow>
    (\<exists>tkt win. acknowledged_as nd rnd (take half_key_size (ak_data ack)) ut cs tkt win
       \<and> r = (if win then RelayingWin tkt else RelayingLoss (tk_channel_id (vt_ticket (at_ticket tkt)))))"
  (is "?L \<longleftrightarrow> ?R")
proof
  assume ?L
  then show ?R
    by (auto simp: resolve_as_relayer_def act_Ok_iff channels_domain_separator_def map_fail_Inr_iff and_then_Inr_iff ok_or_Inr_iff
        ak_key_share_def epoch_matches_def map_res_Inr_iff acknowledged_as_def channel_between_def indexer_data_of_def
        split: if_splits option.splits sum.splits prod.splits)
next
  assume ?R
  then obtain tkt win tbl c nf d ds where
    u: "ut_acknowledge (nd_crypto nd) ut (take half_key_size (ak_data ack)) = Ok tkt"
    and c: "get_channel_by_parties (cr_keccak (nd_crypto nd)) (vt_issuer (ut_ticket ut)) (nd_me_onchain nd) True (cs_channels cs) = Ok (tbl, Some c)"
    "u256_as_u32 (ce_channel_epoch c) = (Ok (tk_channel_epoch (vt_ticket (ut_ticket ut))) :: (db_error, u32) result)"
    and d: "get_indexer_data (nd_approx nd) (cs_info cs) = Ok (nf, d)" "id_channels_dst d = Some ds"
    and w: "at_is_winning (nd_crypto nd) rnd tkt (nd_chain_key nd) ds = (Ok win :: (db_error, bool) result)"
    and r: "r = (if win then RelayingWin tkt else RelayingLoss (tk_channel_id (vt_ticket (at_ticket tkt))))"
    unfolding acknowledged_as_def by blast
  have "resolve_as_relayer nd rnd ack ut cs = (cs\<lparr>cs_channels := tbl, cs_info := nf\<rparr>, Ok r)"
    using assms u c d w r
    by (simp add: resolve_as_relayer_def act_bind_def act_lift_def act_return_def channel_between_def epoch_matches_def
        indexer_data_of_def channels_domain_separator_def ak_key_share_def)
  then show ?L by blast
qed

lemma insert_ticket_Ok_iff:
  "insert_ticket tkt db = Ok db' \<longleftrightarrow> (\<exists>q. td_queue db = Some q \<and> account_unrealized tkt (db\<lparr>td_queue := Some (q @ [Insert tkt])\<rparr>) = Ok db')"
  by (auto simp: insert_ticket_def enqueue_operation_def and_then_Inr_iff split: option.splits)

lemma account_unrealized_queue: "account_unrealized tkt db = Ok db' \<Longrightarrow> td_queue db' = td_queue db \<and> td_tickets db' = td_tickets db"
  by (auto simp: account_unrealized_def unrealized_value_def Let_def and_then_Inr_iff split: option.splits if_splits)


text \<open>A peer that signs and sends an acknowledgement whose key share is not a valid secret (zero, for instance) makes
the node panic: the share is turned into a challenge before anything else is checked.\<close>
lemma acknowledgement_panics:
  assumes "hi_ack_key incoming = None" and "hi_surbs incoming = []"
    and "hi_plain_text incoming = share @ signature" and "length share = half_key_size" "length signature = offchain_signature_size"
    and "ae_verify_message (nd_accounts (re_node re)) share (hi_previous_hop incoming) signature"
    and "nonzero_scalar (cv_order (pe_curve (re_packets re))) share = None"
  shows "receive_final re vrf_rnd incoming s = (s, Panicked)"
  using assms
  by (simp add: receive_final_def act_bind_def act_return_def act_lift_def as_api_def ak_try_from_def acknowledgement_size_def
      ak_validate_def handle_acknowledgement_def validate_acknowledgement_def ak_challenge_def ak_key_share_def
      half_key_to_challenge_def)

section \<open>Relays pay the next hop\<close>

lemma steps_Ok_iff:
  "act_bind m k s = (s', Ok y) \<longleftrightarrow> (\<exists>s1 x. m s = (s1, Ok x) \<and> k x s1 = (s', Ok y))"
  "act_return x s = (s', Ok y) \<longleftrightarrow> s' = s \<and> y = x"
  "act_fail e s = (s', Ok y) \<longleftrightarrow> False"
  "act_lift r s = (s', Ok y) \<longleftrightarrow> s' = s \<and> r = Ok y"
  by (auto simp: act_bind_def act_return_def act_fail_def act_lift_def split: prod.splits sum.splits)

text \<open>The chain key of a packet key, as the accounts table gives it; its cache may have been filled in the meantime.\<close>

definition resolves_to :: "('ma, 'sk, 'vrf, 'rnd) node_db \<Rightarrow> chain_state \<Rightarrow> offchain_key \<Rightarrow> address \<Rightarrow> bool" where
  "resolves_to nd cs key a \<longleftrightarrow>
     (\<exists>cs1 ad. stored_data cs1 = stored_data cs
        \<and> translate_key (nd_accounts nd) (PacketKey key) (cs_accounts cs1) = Ok (ad, Some (ChainKey a)))"

lemma chain_key_of_resolves:
  assumes "chain_key_of nd msg key cs1 = (cs2, Ok a)" and "stored_data cs1 = stored_data cs"
  shows "resolves_to nd cs key a"
  using assms(1) by (rule chain_key_of_Ok) (use assms(2) in \<open>auto simp: resolves_to_def\<close>)

lemma validate_incoming_next_hop:
  assumes "validate_incoming_ticket nd fwd cs = (cs', Ok (next_addr, verified, ds))"
  shows "resolves_to nd cs (ho_next_hop (hf_outgoing fwd)) next_addr"
proof -
  obtain m m' k1 cs1 cs2 where "chain_key_of nd m k1 cs = (cs1, Ok m')"
    and n: "chain_key_of nd ''failed to find channel key for packet key on next hop'' (ho_next_hop (hf_outgoing fwd)) cs1 = (cs2, Ok next_addr)"
    using assms unfolding validate_incoming_ticket_def Let_def by (auto simp: steps_Ok_iff split: if_splits)
  then have "stored_data cs1 = stored_data cs" using keepsD [OF keeps_chain_key_of(2)] by blast
  then show ?thesis by (rule chain_key_of_resolves [OF n])
qed

lemma validate_and_replace_ticket_Ok:
  assumes "validate_and_replace_ticket nd fwd wp price s = (s', Ok fwd')"
  obtains cs1 next_addr verified ds vt where
    "ticket_accepted nd (rl_chain s) (hf_previous_hop fwd) (hf_path_pos fwd) (ho_ticket (hf_outgoing fwd)) verified ds"
    and "stored_data cs1 = stored_data (rl_chain s)" and "resolves_to nd (rl_chain s) (ho_next_hop (hf_outgoing fwd)) next_addr"
    and "pays_next_hop nd cs1 next_addr (unat (hf_path_pos fwd)) (hf_path_pos fwd)
      (wp_max (nd_approx nd) wp (tk_encoded_win_prob (vt_ticket verified))) price (vt_ticket vt) (rl_chain s')"
    and "tk_challenge (vt_ticket vt) = hf_next_challenge fwd" and "\<exists>t. vt = ticket_sign (nd_crypto nd) t (nd_chain_key nd) ds"
    and "fwd' = fwd\<lparr>hf_outgoing := (hf_outgoing fwd)\<lparr>ho_ticket := vt_ticket vt\<rparr>\<rparr>"
    and "rl_unacked s' = (rl_unacked s)(ho_ack_challenge (hf_outgoing fwd) \<mapsto> WaitingAsRelayer (vt_into_unacknowledged verified (hf_own_key fwd)))"
    and "rl_openers s' = rl_openers s" and "rl_surbs s' = rl_surbs s"
proof -
  let ?wp = "\<lambda>verified. wp_max (nd_approx nd) wp (tk_encoded_win_prob (vt_ticket verified))"
  obtain cs1 next_addr verified ds cs2 b vt where
    v: "validate_incoming_ticket nd fwd (rl_chain s) = (cs1, Ok (next_addr, verified, ds))"
    and n: "next_hop_ticket nd next_addr (unat (hf_path_pos fwd)) (hf_path_pos fwd) (?wp verified) price cs1 = (cs2, Ok b)"
    and sg: "tb_build_signed (nd_crypto nd) (tb_set_challenge (hf_next_challenge fwd) b) (nd_chain_key nd) ds = Ok vt"
    and f: "fwd' = fwd\<lparr>hf_outgoing := (hf_outgoing fwd)\<lparr>ho_ticket := vt_ticket vt\<rparr>\<rparr>"
    and s': "s' = s\<lparr>rl_chain := cs2, rl_unacked := (rl_unacked s)(ho_ack_challenge (hf_outgoing fwd) \<mapsto>
        WaitingAsRelayer (vt_into_unacknowledged verified (hf_own_key fwd)))\<rparr>"
    using assms
    by (auto simp: validate_and_replace_ticket_def steps_Ok_iff relay_Ok_iff insert_unacked_def Let_def map_fail_Inr_iff vt_leak_def)
  note nh = next_hop_ticket_signed [OF n sg]
  show ?thesis
    by (rule that [of verified ds cs1 next_addr vt])
      (use validate_incoming_ticket_Ok [OF v] validate_incoming_next_hop [OF v] keepsD [OF keeps_validate_incoming v] nh f s' in simp_all)
qed

lemma receive_forwarded_Ok:
  assumes "receive_forwarded re kp wp price fwd s = (s', Ok y)"
  obtains fwd' payload where "validate_and_replace_ticket (re_node re) fwd wp price s = (s', Ok fwd')"
    and "transport_payload (hf_outgoing fwd') = (Ok payload :: (db_error, _) result)"
    and "y = Some (IncomingForwarded (hf_packet_tag fwd') (hf_previous_hop fwd') (ho_next_hop (hf_outgoing fwd')) payload
      (ak_new (re_sign re) (hf_ack_key fwd') kp))"
proof -
  obtain s1 r where v: "validate_and_replace_ticket (re_node re) fwd wp price s = (s1, r)" by force
  show ?thesis
  proof (cases r)
    case (Inl e)
    then have False using assms v
      by (auto simp: receive_forwarded_def relay_Ok_iff reject_unsaved_def steps_Ok_iff split: failure.splits db_error.splits)
    then show ?thesis ..
  next
    case (Inr fwd')
    then show ?thesis using assms v
      by (auto simp: receive_forwarded_def relay_Ok_iff map_res_Inr_iff intro: that)
  qed
qed


section \<open>Relays are paid\<close>

lemma u256_as_u32_ucast: "u256_as_u32 (ucast (e :: u32)) = Ok e"
  using unsigned_less [of e] by (simp add: u256_as_u32_def unsigned_ucast_eq unsigned_take_bit_eq take_bit_nat_eq_self)

lemma insert_ticket_succeeds:
  assumes "td_queue db = Some q"
  obtains db' where "insert_ticket tkt db = Ok db'" and "td_queue db' = Some (q @ [Insert tkt])" "td_tickets db' = td_tickets db"
proof -
  have "\<exists>db'. account_unrealized tkt d = Ok db'" for d
    by (auto simp: account_unrealized_def unrealized_value_def Let_def is_single_channel_def sel_new_def split: option.splits)
  then obtain db' where a: "account_unrealized tkt (db\<lparr>td_queue := Some (q @ [Insert tkt])\<rparr>) = Ok db'" by blast
  have "insert_ticket tkt db = Ok db'" using assms a by (simp add: insert_ticket_Ok_iff)
  then show ?thesis using account_unrealized_queue [OF a] that by simp
qed

lemma acknowledgement_succeeds:
  assumes v: "ak_validated ack" and ch: "ak_challenge cv ack = Ok ch" and p: "rl_unacked s ch = Some (WaitingAsRelayer ut)"
    and as: "acknowledged_as nd rnd (take half_key_size (ak_data ack)) ut (rl_chain s) tkt win"
    and q: "td_queue (cs_tickets (rl_chain s)) = Some q"
  shows "\<exists>s'. handle_acknowledgement nd cv rnd ack s = (s', Ok ()) \<and> rl_unacked s' = (rl_unacked s)(ch := None)
    \<and> td_queue (cs_tickets (rl_chain s')) = Some (if win then q @ [Insert tkt] else q)"
proof -
  let ?r = "if win then RelayingWin tkt else RelayingLoss (tk_channel_id (vt_ticket (at_ticket tkt)))"
  let ?s0 = "s\<lparr>rl_unacked := (rl_unacked s)(ch := None)\<rparr>"
  obtain cs1 where res: "resolve_as_relayer nd rnd ack ut (rl_chain s) = (cs1, Ok ?r)"
    using resolve_as_relayer_iff [OF v, of nd rnd ut "rl_chain s" ?r] as by blast
  have cs1: "cs_tickets cs1 = cs_tickets (rl_chain s)" using keepsD [OF keeps_resolve_as_relayer res] .
  have va: "as_api (validate_acknowledgement nd cv rnd ack) s = (?s0\<lparr>rl_chain := cs1\<rparr>, Ok ?r)"
    using p res by (simp add: as_api_def validate_acknowledgement_known [OF ch] on_chain_def)
  obtain db where db: "insert_ticket tkt (cs_tickets (rl_chain s)) = Ok db" "td_queue db = Some (q @ [Insert tkt])"
    by (rule insert_ticket_succeeds [OF q])
  show ?thesis
    using va db cs1 q by (cases win) (simp_all add: handle_acknowledgement_def act_bind_def act_return_def as_api_def on_chain_def ticket_tx_def)
qed

text \<open>C6: a relay is paid for what it forwards. When it forwards a packet of a path with the ticket \<open>t\<close> of the previous
hop, the packet goes to the next node of the path with a ticket for that node's challenge, and the acknowledgement of the
previous hop carries the key share of this node. When the acknowledgement of the next node comes back, while the
pending entry still waits and the channel is still in the epoch of the ticket, the acknowledgement is accepted and the ticket \<open>t\<close>, with a response
that opens its challenge, goes to the queue of tickets to be stored if it wins.\<close>
theorem relay_is_paid:
  assumes relays: "relays_in_turn (re_packets re) (mapper_of s) (remove_opener :: _ \<Rightarrow> 'rb relay_state \<Rightarrow> _) kps pkts chal own ack" and i: "i + 1 < length kps"
    and t: "ticket_valid t" "tk_challenge t = chal i" and cr: "nd_crypto (re_node re) = pe_crypto (re_packets re)"
    and fwd: "from_recv re vrf_rnd (pkts i @ ticket_bytes t) (kps ! i) sender wp price (s :: 'rb relay_state) = (s', Ok (Some p))"
  shows "\<exists>new a tag verified acked ch.
     p = IncomingForwarded tag sender (su_public (pe_suite (re_packets re)) (kps ! (i + 1))) (pkts (i + 1) @ ticket_bytes new) a
     \<and> tk_challenge new = chal (i + 1) \<and> a = ak_new (re_sign re) (ack i) (kps ! i)
     \<and> half_key_to_challenge (pe_curve (re_packets re)) (ack (i + 1)) = (Ok ch :: (core_types_error, _) result)
     \<and> vt_ticket verified = t \<and> at_ticket acked = verified
     \<and> rl_unacked s' = (rl_unacked s)(ch \<mapsto> WaitingAsRelayer (vt_into_unacknowledged verified (own i)))
     \<and> (\<forall>s2 a2 rnd tbl c nf d ds win q.
          rl_unacked (s2 :: 'rb relay_state) ch = rl_unacked s' ch \<longrightarrow> ak_validated a2 \<longrightarrow> take half_key_size (ak_data a2) = ack (i + 1) \<longrightarrow>
          get_channel_by_parties (cr_keccak (nd_crypto (re_node re))) (vt_issuer verified) (nd_me_onchain (re_node re)) True
            (cs_channels (rl_chain s2)) = Ok (tbl, Some c) \<longrightarrow>
          ce_channel_epoch c = ucast (tk_channel_epoch t) \<longrightarrow>
          get_indexer_data (nd_approx (re_node re)) (cs_info (rl_chain s2)) = Ok (nf, d) \<longrightarrow> id_channels_dst d = Some ds \<longrightarrow>
          at_is_winning (nd_crypto (re_node re)) rnd acked (nd_chain_key (re_node re)) ds = (Ok win :: (db_error, _) result) \<longrightarrow>
          td_queue (cs_tickets (rl_chain s2)) = Some q \<longrightarrow>
          (\<exists>s3. handle_acknowledgement (re_node re) (pe_curve (re_packets re)) rnd a2 s2 = (s3, Ok ())
             \<and> rl_unacked s3 = (rl_unacked s2)(ch := None)
             \<and> td_queue (cs_tickets (rl_chain s3)) = Some (if win then q @ [Insert acked] else q)))"
proof -
  let ?pe = "re_packets re" and ?nd = "re_node re"
  note relay = relays [unfolded relays_in_turn_def, THEN spec, THEN mp, OF i]
  note got = conjunct2 [OF relay, rule_format]
  from conjunct1 [OF relay, rule_format, OF t, of sender s] obtain tag ch where hk: "half_key_to_challenge (pe_curve ?pe) (ack (i + 1)) = (Ok ch :: (packet_error, _) result)"
    and inc: "from_incoming ?pe (pkts i @ ticket_bytes t) (kps ! i) sender (mapper_of s) remove_opener s
        = (s, Ok (ForwardedPacket
            \<lparr>hf_outgoing = \<lparr>ho_packet = pkts (i + 1), ho_ticket = t,
               ho_next_hop = su_public (pe_suite ?pe) (kps ! (i + 1)), ho_ack_challenge = ch\<rparr>,
             hf_packet_tag = tag, hf_ack_key = ack i, hf_previous_hop = sender, hf_own_key = own i,
             hf_next_challenge = chal (i + 1), hf_path_pos = of_nat (length kps - i - 1)\<rparr>))"
    by (elim exE conjE) (rule that)
  have hk': "half_key_to_challenge (pe_curve ?pe) (ack (i + 1)) = (Ok ch :: (core_types_error, _) result)"
    using hk by (simp add: half_key_to_challenge_def split: option.splits)
  have "receive_forwarded re (kps ! i) wp price
      \<lparr>hf_outgoing = \<lparr>ho_packet = pkts (i + 1), ho_ticket = t,
         ho_next_hop = su_public (pe_suite ?pe) (kps ! (i + 1)), ho_ack_challenge = ch\<rparr>,
       hf_packet_tag = tag, hf_ack_key = ack i, hf_previous_hop = sender, hf_own_key = own i,
       hf_next_challenge = chal (i + 1), hf_path_pos = of_nat (length kps - i - 1)\<rparr> s = (s', Ok (Some p))"
    using fwd inc by (simp add: from_recv_def act_bind_def as_api_def)
  then obtain fwd' payload where v: "validate_and_replace_ticket ?nd
      \<lparr>hf_outgoing = \<lparr>ho_packet = pkts (i + 1), ho_ticket = t,
         ho_next_hop = su_public (pe_suite ?pe) (kps ! (i + 1)), ho_ack_challenge = ch\<rparr>,
       hf_packet_tag = tag, hf_ack_key = ack i, hf_previous_hop = sender, hf_own_key = own i,
       hf_next_challenge = chal (i + 1), hf_path_pos = of_nat (length kps - i - 1)\<rparr> wp price s = (s', Ok fwd')"
    and pl: "transport_payload (hf_outgoing fwd') = (Ok payload :: (db_error, _) result)"
    and y: "Some p = Some (IncomingForwarded (hf_packet_tag fwd') (hf_previous_hop fwd') (ho_next_hop (hf_outgoing fwd')) payload
      (ak_new (re_sign re) (hf_ack_key fwd') (kps ! i)))"
    by (rule receive_forwarded_Ok)
  from v obtain verified ds vt where
    acc: "ticket_accepted ?nd (rl_chain s) sender (of_nat (length kps - i - 1)) t verified ds"
    and nch: "tk_challenge (vt_ticket vt) = chal (i + 1)" and sg: "\<exists>t. vt = ticket_sign (nd_crypto ?nd) t (nd_chain_key ?nd) ds"
    and f: "hf_outgoing fwd' = \<lparr>ho_packet = pkts (i + 1), ho_ticket = vt_ticket vt,
         ho_next_hop = su_public (pe_suite ?pe) (kps ! (i + 1)), ho_ack_challenge = ch\<rparr>" "hf_packet_tag fwd' = tag"
      "hf_previous_hop fwd' = sender" "hf_ack_key fwd' = ack i"
    and un: "rl_unacked s' = (rl_unacked s)(ch \<mapsto> WaitingAsRelayer (vt_into_unacknowledged verified (own i)))"
    by (rule validate_and_replace_ticket_Ok) simp
  have vt: "vt_ticket verified = t" using acc by (auto simp: ticket_accepted_def)
  obtain acked where acked: "ut_acknowledge (nd_crypto ?nd) (vt_into_unacknowledged verified (own i)) (ack (i + 1)) = Ok acked" "at_ticket acked = verified"
    using got [of verified] vt t(2) cr by auto
  have pay: "payload = pkts (i + 1) @ ticket_bytes (vt_ticket vt)"
    using pl f(1) sg by (auto simp: transport_payload_def map_res_Inr_iff ticket_encode_def ticket_bytes_def ticket_sign_def Let_def
        split: option.splits)
  have later: "\<exists>s3. handle_acknowledgement ?nd (pe_curve ?pe) rnd a2 s2 = (s3, Ok ()) \<and> rl_unacked s3 = (rl_unacked s2)(ch := None)
        \<and> td_queue (cs_tickets (rl_chain s3)) = Some (if win then q @ [Insert acked] else q)"
    if s2: "rl_unacked (s2 :: 'rb relay_state) ch = rl_unacked s' ch" and a2: "ak_validated a2" "take half_key_size (ak_data a2) = ack (i + 1)"
      and c: "get_channel_by_parties (cr_keccak (nd_crypto ?nd)) (vt_issuer verified) (nd_me_onchain ?nd) True (cs_channels (rl_chain s2)) = Ok (tbl, Some c)"
        "ce_channel_epoch c = ucast (tk_channel_epoch t)"
      and d: "get_indexer_data (nd_approx ?nd) (cs_info (rl_chain s2)) = Ok (nf, d)" "id_channels_dst d = Some ds2"
      and w: "at_is_winning (nd_crypto ?nd) rnd acked (nd_chain_key ?nd) ds2 = (Ok win :: (db_error, _) result)"
      and q: "td_queue (cs_tickets (rl_chain s2)) = Some q" for s2 a2 rnd tbl c nf d ds2 win q
  proof (rule acknowledgement_succeeds [OF a2(1) _ _ _ q])
    show "ak_challenge (pe_curve ?pe) a2 = Ok ch" using a2 hk' by (simp add: ak_challenge_def ak_key_share_def)
    show "rl_unacked s2 ch = Some (WaitingAsRelayer (vt_into_unacknowledged verified (own i)))" using s2 un by simp
    show "acknowledged_as ?nd rnd (take half_key_size (ak_data a2)) (vt_into_unacknowledged verified (own i)) (rl_chain s2) acked win"
      using a2 acked c d w vt by (simp add: acknowledged_as_def vt_into_unacknowledged_def u256_as_u32_ucast)
  qed
  have p: "p = IncomingForwarded tag sender (su_public (pe_suite ?pe) (kps ! (i + 1))) (pkts (i + 1) @ ticket_bytes (vt_ticket vt))
      (ak_new (re_sign re) (ack i) (kps ! i))"
    using y f pay by simp
  show ?thesis
    by (rule exI [of _ "vt_ticket vt"], rule exI [of _ "ak_new (re_sign re) (ack i) (kps ! i)"], rule exI [of _ tag],
        rule exI [of _ verified], rule exI [of _ acked], rule exI [of _ ch])
      (intro conjI allI impI p nch hk' vt acked(2) un refl later)
qed

section \<open>Acknowledgements travel to the previous hop\<close>

text \<open>The last node of a packet does not ask the mapper.\<close>

lemma into_forwarded_final_mapper:
  assumes "into_forwarded su hs P kp mapper openers pkt st = (st', Ok (MetaFinal plain recv sec tag no_ack))"
  shows "into_forwarded su hs P kp mapper' openers pkt st = (st', Ok (MetaFinal plain recv sec tag no_ack))"
  using assms
  by (auto simp: into_forwarded_def Let_def and_then_Inr_iff map_fail_Inr_iff ok_or_Inr_iff
      split: sum.splits prod.splits forwarded_header.splits if_splits)

lemma no_ack_packet_arrives:
  assumes env: "packet_env_ok pe" and route: "hopr_route pe mapper [kp] [kid]"
    and ps: "length pseudonym = simple_pseudonym_size" and sid: "length (pr_sender_id rnd) = sender_id_size"
    and out: "into_outgoing pe rnd msg pseudonym (NoAckTo (su_public (pe_suite pe) kp)) sk ticket mapper ds = Ok (OutgoingPacket out, openers)"
  shows "ho_next_hop out = su_public (pe_suite pe) kp"
    and "length tail = ticket_size \<Longrightarrow> \<exists>tag. from_incoming pe (ho_packet out @ tail) kp prev mapper' lookup st
        = (st, Ok (FinalPacket \<lparr>hi_packet_tag = tag, hi_ack_key = None, hi_previous_hop = prev,
            hi_plain_text = msg, hi_sender = pseudonym, hi_surbs = []\<rparr>))"
    and "\<exists>ch. length ch = eth_challenge_size \<and> map_res vt_leak (tb_build_signed (pe_crypto pe) (tb_set_challenge ch ticket) sk ds) = Ok (ho_ticket out)"
proof -
  let ?su = "pe_suite pe" and ?cv = "pe_curve pe" and ?pubs = "map (su_public (pe_suite pe)) [kp]"
  have cv: "curve_ok ?cv" and al: "gr_alpha_len (su_group ?su) = offchain_public_key_size" using env by (simp_all add: packet_env_ok_def)
  define recv where "recv = sender_id_new (pr_sender_id rnd) pseudonym"
  have recv: "length recv = sender_id_size" "sender_id_pseudonym recv = pseudonym"
    using sender_id_parts [OF ps sid] by (simp_all add: recv_def)
  obtain keys strings vals tk pp m where
    keys: "new_shared_keys ?su (pr_scalar rnd 0) ?pubs = Ok keys"
    and gen: "generate_proof_of_relay ?cv (pr_secrets rnd 0) (sk_secrets keys) = Ok (strings, vals)"
    and tk: "map_res vt_leak (map_fail PacketCoreTypesError (tb_build_signed (pe_crypto pe) (tb_set_challenge (pov_ticket_challenge vals) ticket) sk ds)) = Ok tk"
    and pp: "partial_packet_new ?su hopr_header_spec (pr_padding rnd 0) (ForwardPathRouting keys ?pubs strings recv True) mapper = Ok pp"
    and m: "packet_message_from_parts ?su hopr_header_spec payload_size_int [] msg = Ok m"
    and oo: "out = \<lparr>ho_packet = into_meta_packet ?su payload_size_int pp m, ho_ticket = tk, ho_next_hop = su_public ?su kp,
        ho_ack_challenge = pov_acknowledgement_challenge vals\<rparr>"
    using out unfolding into_outgoing_def partial_hopr_packet_new_def into_hopr_packet_def Let_def recv_def [symmetric]
    by (auto simp: and_then_Inr_iff map_fail_Inr_iff)
  note rt = keys_route_ok [OF env route recv(1) keys gen] and vals = por_values_parts [OF cv generate_por_inv(3) [OF cv gen]]
  have msg: "packet_message_into_parts ?su hopr_header_spec m = Ok ([], msg)" "length m = padded_size payload_size_int"
    using packet_message_from_parts_Ok [OF _ m] by simp_all
  from forward_packet_travels [OF rt(1) keys msg(2), of "pr_padding rnd 0" True lookup] pp
  obtain pkts where pk: "into_meta_packet ?su payload_size_int pp m = pkts 0"
    "relayed_along ?su hopr_header_spec payload_size_int mapper lookup [kp] (sk_secrets keys) strings pkts"
    "\<forall>st. into_forwarded ?su hopr_header_spec payload_size_int (last [kp]) mapper lookup (pkts (length [kp] - 1)) st
      = (st, Ok (MetaFinal m recv (last (sk_secrets keys)) (secret_packet_tag ?su (last (sk_secrets keys))) True))"
    by auto
  have lp: "length (pkts 0) = meta_packet_size ?su hopr_header_spec payload_size_int"
    using pk(2) by (simp add: relayed_along_def)
  have e: "last [kp] = kp" "length [kp] - 1 = 0" by simp_all
  have f: "into_forwarded ?su hopr_header_spec payload_size_int kp mapper' lookup (pkts 0) st
      = (st, Ok (MetaFinal m recv (last (sk_secrets keys)) (secret_packet_tag ?su (last (sk_secrets keys))) True))"
    by (rule into_forwarded_final_mapper [OF spec [OF pk(3) [unfolded e]]])
  show "ho_next_hop out = su_public (pe_suite pe) kp" by (simp add: oo)
  have "length (pov_ticket_challenge vals) = eth_challenge_size"
    using cv by (simp add: vals(2) pair_challenge_def curve_ok_def)
  moreover have "map_res vt_leak (tb_build_signed (pe_crypto pe) (tb_set_challenge (pov_ticket_challenge vals) ticket) sk ds) = Ok (ho_ticket out)"
    using tk by (auto simp: map_res_Inr_iff map_fail_Inr_iff oo)
  ultimately show "\<exists>ch. length ch = eth_challenge_size \<and> map_res vt_leak (tb_build_signed (pe_crypto pe) (tb_set_challenge ch ticket) sk ds) = Ok (ho_ticket out)"
    by blast
  assume tail: "length tail = ticket_size"
  have "from_incoming pe (pkts 0 @ tail) kp prev mapper' lookup st
      = (st, Ok (FinalPacket \<lparr>hi_packet_tag = secret_packet_tag ?su (last (sk_secrets keys)), hi_ack_key = None, hi_previous_hop = prev,
            hi_plain_text = msg, hi_sender = pseudonym, hi_surbs = []\<rparr>))"
    using from_incoming_final [OF lp al tail f msg(1), of prev] by (simp add: recv(2))
  then show "\<exists>tag. from_incoming pe (ho_packet out @ tail) kp prev mapper' lookup st
      = (st, Ok (FinalPacket \<lparr>hi_packet_tag = tag, hi_ack_key = None, hi_previous_hop = prev,
            hi_plain_text = msg, hi_sender = pseudonym, hi_surbs = []\<rparr>))"
    by (simp only: oo pk(1) hopr_outgoing_packet.simps) blast
qed

lemma signed_zero_hop_valid:
  assumes cr: "crypto_ok cr" and ch: "length ch = eth_challenge_size"
    and t: "map_res vt_leak (tb_build_signed cr (tb_set_challenge ch (tb_set_direction cr a b tb_zero_hop)) sk ds) = (Ok t :: (core_types_error, _) result)"
  shows "ticket_valid t"
proof -
  have k: "length (cr_keccak cr xs) = 32" "length (cr_sign_hash cr h sk) = 64" for xs h using cr by (simp_all add: crypto_ok_def)
  have "(0 :: u256) < max_ticket_amount" by (simp add: max_ticket_amount_def)
  then show ?thesis using t ch
    by (auto simp: map_res_Inr_iff vt_leak_def tb_build_signed_def tb_build_Ok_iff tb_wanted_amount_def tb_set_challenge_def
        tb_set_direction_def tb_zero_hop_def tb_default_def generate_channel_id_def ticket_sign_def Let_def ticket_valid_def
        ticket_wf_def k hash_size_def signature_size_def wp_never_def encoded_win_prob_length_def eth_challenge_size_def split: if_splits)
qed

lemma translate_key_ids: "translate_key ae k ad = Ok (ad', r) \<Longrightarrow> ad_key_ids ad' = ad_key_ids ad"
  by (auto simp: translate_key_def map_res_Inr_iff split: chain_or_packet_key.splits option.splits prod.splits)

lemma keeps_key_ids [keeping]:
  "keeps (\<lambda>cs. ad_key_ids (cs_accounts cs)) (translated_key nd k)" "keeps (\<lambda>cs. ad_key_ids (cs_accounts cs)) (indexer_data_of nd)"
  by (auto simp: keeps_def indexer_data_of_def translated_key_def split: sum.splits prod.splits dest!: translate_key_ids)

lemma keeps_sending: "keeps (\<lambda>cs. ad_key_ids (cs_accounts cs)) (chain_key_of nd msg k)"
  "keeps (\<lambda>cs. ad_key_ids (cs_accounts cs)) (domain_separator_of nd)"
  unfolding chain_key_of_def resolve_chain_key_def domain_separator_of_def by (intro keeping)+

lemma to_send_no_ack_Ok:
  assumes "to_send_no_ack re rnd pseudonym msg destination s = (s', Ok pkt)"
  obtains s1 next_peer ds out openers payload where
    "into_outgoing (re_packets re) rnd msg pseudonym (NoAckTo destination) (nd_chain_key (re_node re))
        (zero_hop_ticket (re_node re) next_peer) (mapper_of s) ds = Ok (OutgoingPacket out, openers)"
    and "transport_payload out = (Ok payload :: (db_error, _) result)"
    and "pkt = \<lparr>op_next_hop = ho_next_hop out, op_ack_challenge = ho_ack_challenge out, op_data = payload\<rparr>"
proof -
  obtain cs1 next_peer cs2 ds packet openers out payload where
    k: "chain_key_of (re_node re) ''failed to find chain key for packet key on previous hop'' destination (rl_chain s) = (cs1, Ok next_peer)"
    and d: "domain_separator_of (re_node re) cs1 = (cs2, Ok ds)"
    and o1: "into_outgoing (re_packets re) rnd msg pseudonym (NoAckTo destination) (nd_chain_key (re_node re))
        (zero_hop_ticket (re_node re) next_peer) (mapper_of (s\<lparr>rl_chain := cs2\<rparr>)) ds = Ok (packet, openers)"
    and p: "outgoing_of packet (Err (LogicalError ''must be an outgoing packet'')) = Ok out"
    and pl: "transport_payload out = (Ok payload :: (db_error, _) result)"
    and pk: "pkt = \<lparr>op_next_hop = ho_next_hop out, op_ack_challenge = ho_ack_challenge out, op_data = payload\<rparr>"
    using assms by (auto simp: to_send_no_ack_def build_outgoing_def steps_Ok_iff relay_Ok_iff map_fail_Inr_iff)
  have "packet = OutgoingPacket out" using p by (auto simp: outgoing_of_def split: hopr_packet.splits)
  moreover have "mapper_of (s\<lparr>rl_chain := cs2\<rparr>) = mapper_of s"
    using keepsD [OF keeps_sending(1) k] keepsD [OF keeps_sending(2) d] by (simp add: mapper_of_def)
  ultimately show ?thesis using that o1 pl pk by simp
qed

text \<open>An acknowledgement reaches the previous hop. The packet that carries it goes straight to that node, and the
node that receives it checks the signature and settles the ticket that waits for it.\<close>
lemma acknowledgement_delivered:
  assumes env: "packet_env_ok (re_packets re)" and cr: "crypto_ok (nd_crypto (re_node re))" "nd_crypto (re_node re) = pe_crypto (re_packets re)"
    and route: "hopr_route (re_packets re) (mapper_of s) [kp] [kid]"
    and ps: "length pseudonym = simple_pseudonym_size" and sid: "length (pr_sender_id rnd) = sender_id_size"
    and share: "length share = half_key_size" "\<And>m k. length (re_sign re m k) = offchain_signature_size"
    and out: "to_send_no_ack re rnd pseudonym (ak_data (ak_new (re_sign re) share own_kp)) (su_public (pe_suite (re_packets re)) kp) s
      = (s', Ok pkt)"
    and peer: "re_packets re' = re_packets re"
      "ae_verify_message (nd_accounts (re_node re')) share sender (re_sign re share own_kp)"
  shows "op_next_hop pkt = su_public (pe_suite (re_packets re)) kp
    \<and> from_recv re' vrf_rnd (op_data pkt) kp sender wp price
      = act_bind (handle_acknowledgement (re_node re') (pe_curve (re_packets re')) vrf_rnd (ak_new (re_sign re) share own_kp))
          (\<lambda>_. act_return None)"
proof -
  let ?dest = "su_public (pe_suite (re_packets re)) kp" and ?ack = "ak_new (re_sign re) share own_kp"
  obtain next_peer ds out openers payload where
    o1: "into_outgoing (re_packets re) rnd (ak_data ?ack) pseudonym (NoAckTo ?dest) (nd_chain_key (re_node re))
        (zero_hop_ticket (re_node re) next_peer) (mapper_of s) ds = Ok (OutgoingPacket out, openers)"
    and pl: "transport_payload out = (Ok payload :: (db_error, _) result)"
    and pk: "pkt = \<lparr>op_next_hop = ho_next_hop out, op_ack_challenge = ho_ack_challenge out, op_data = payload\<rparr>"
    by (rule to_send_no_ack_Ok [OF out])
  obtain tail where tail: "ticket_encode (ho_ticket out) = (Ok tail :: (db_error, _) result)" "payload = ho_packet out @ tail"
    using pl by (auto simp: transport_payload_def map_res_Inr_iff)
  note arrives = no_ack_packet_arrives [OF env route ps sid o1]
  obtain ch where "length ch = eth_challenge_size"
    "map_res vt_leak (tb_build_signed (nd_crypto (re_node re)) (tb_set_challenge ch (zero_hop_ticket (re_node re) next_peer))
       (nd_chain_key (re_node re)) ds) = (Ok (ho_ticket out) :: (core_types_error, _) result)"
    using arrives(3) cr(2) by auto
  then have v: "ticket_valid (ho_ticket out)" unfolding zero_hop_ticket_def by (rule signed_zero_hop_valid [OF cr(1)])
  then have "tail = ticket_bytes (ho_ticket out)"
    using tail(1) by (auto simp: ticket_valid_def ticket_bytes_def ticket_encode_def split: option.splits)
  then have len: "length tail = ticket_size" using ticket_fixed.enc_size [OF v] by (simp add: ticket_sizes)
  have "from_recv re' vrf_rnd (op_data pkt) kp sender wp price t
      = act_bind (handle_acknowledgement (re_node re') (pe_curve (re_packets re')) vrf_rnd ?ack) (\<lambda>_. act_return None) t" for t
  proof -
    obtain tag where "from_incoming (re_packets re) (ho_packet out @ tail) kp sender (mapper_of t) remove_opener t
        = (t, Ok (FinalPacket \<lparr>hi_packet_tag = tag, hi_ack_key = None, hi_previous_hop = sender,
            hi_plain_text = ak_data ?ack, hi_sender = pseudonym, hi_surbs = []\<rparr>))"
      by (rule exE [OF arrives(2) [OF len]])
    then show ?thesis using share peer
      by (simp add: from_recv_def pk tail(2) act_bind_def act_lift_def act_return_def as_api_def receive_final_def
        ak_try_from_def acknowledgement_size_def ak_validate_def ak_new_def)
  qed
  then show ?thesis using arrives(1) pk by auto
qed

section \<open>Reply blocks are used once, in order\<close>

text \<open>
  What the ring buffer is documented to do, in terms of the list of its elements and its capacity: a full buffer drops its
  oldest element when one is added, and elements are taken out oldest first.
\<close>

definition ring_ok :: "'rb surb_ring \<Rightarrow> ('rb \<Rightarrow> (surb_id \<times> surb) list) \<Rightarrow> ('rb \<Rightarrow> nat) \<Rightarrow> bool" where
  "ring_ok R items cap \<longleftrightarrow>
     (\<forall>n > 0. items (sr_new R n) = [] \<and> cap (sr_new R n) = n)
     \<and> (\<forall>x rb. items (sr_push R x rb) = drop (Suc (length (items rb)) - cap rb) (items rb @ [x]) \<and> cap (sr_push R x rb) = cap rb)
     \<and> (\<forall>rb. cap (snd (sr_dequeue R rb)) = cap rb \<and>
          (case items rb of [] \<Rightarrow> fst (sr_dequeue R rb) = None \<and> items (snd (sr_dequeue R rb)) = []
           | x # xs \<Rightarrow> fst (sr_dequeue R rb) = Some x \<and> items (snd (sr_dequeue R rb)) = xs))
     \<and> (\<forall>rb. sr_peek R rb = (case items rb of [] \<Rightarrow> None | x # _ \<Rightarrow> Some x))"

definition blocks_of :: "('rb \<Rightarrow> (surb_id \<times> surb) list) \<Rightarrow> 'rb relay_state \<Rightarrow> pseudonym \<Rightarrow> (surb_id \<times> surb) list" where
  "blocks_of items s p = (case rl_surbs s p of Some rb \<Rightarrow> items rb | None \<Rightarrow> [])"

lemma push_surbs_items:
  assumes "ring_ok R items cap" and "length (items rb) \<le> cap rb"
  shows "items (push_surbs R bs rb) = drop (length (items rb) + length bs - cap rb) (items rb @ bs)
    \<and> cap (push_surbs R bs rb) = cap rb"
  using assms(2)
proof (induction bs arbitrary: rb)
  case Nil
  then show ?case by (simp add: push_surbs_def)
next
  case (Cons b bs)
  have i: "items (sr_push R b rb) = drop (Suc (length (items rb)) - cap rb) (items rb @ [b])" "cap (sr_push R b rb) = cap rb"
    using assms(1) unfolding ring_ok_def by blast+
  have "length (items (sr_push R b rb)) \<le> cap (sr_push R b rb)" using i Cons.prems by simp
  from Cons.IH [OF this]
  have IH: "items (push_surbs R bs (sr_push R b rb)) = drop (length (items (sr_push R b rb)) + length bs - cap rb) (items (sr_push R b rb) @ bs)
      \<and> cap (push_surbs R bs (sr_push R b rb)) = cap rb" by (simp add: i(2))
  have "push_surbs R (b # bs) rb = push_surbs R bs (sr_push R b rb)" by (simp add: push_surbs_def)
  moreover have "items (push_surbs R bs (sr_push R b rb)) = drop (length (items rb) + length (b # bs) - cap rb) (items rb @ b # bs)"
  proof (cases "length (items rb) < cap rb")
    case True
    then have "items (sr_push R b rb) = items rb @ [b]" by (simp add: i(1))
    then show ?thesis using IH by simp
  next
    case False
    then have e: "length (items rb) = cap rb" using Cons.prems by simp
    show ?thesis
    proof (cases "cap rb")
      case 0
      then show ?thesis using IH e i by simp
    next
      case (Suc c)
      then have "items (sr_push R b rb) = drop 1 (items rb @ [b])" "length (items (sr_push R b rb)) = cap rb"
        using e by (simp_all add: i(1))
      moreover obtain y ys where "items rb = y # ys" using e Suc by (cases "items rb") auto
      ultimately show ?thesis using IH e Suc by simp
    qed
  qed
  ultimately show ?case using IH by simp
qed

text \<open>Adding reply blocks and looking for one, as operations; what a search returns is its result.\<close>

datatype surb_op = StoreSurbs pseudonym "(surb_id \<times> surb) list" | FindSurb surb_matcher

fun run_surb_op :: "'rb surb_ring \<Rightarrow> surb_op \<Rightarrow> 'rb relay_state \<Rightarrow> 'rb relay_state \<times> (sender_id \<times> surb) list" where
  "run_surb_op R (StoreSurbs p bs) s = (fst (store_surbs R p bs s :: _ \<times> (api_error, _) result), [])"
| "run_surb_op R (FindSurb m) s = (let (s, r) = find_surb R m s in (s, case r of Inr x \<Rightarrow> [x] | Inl _ \<Rightarrow> []))"

fun run_surb_ops :: "'rb surb_ring \<Rightarrow> surb_op list \<Rightarrow> 'rb relay_state \<Rightarrow> 'rb relay_state \<times> (sender_id \<times> surb) list" where
  "run_surb_ops R [] s = (s, [])"
| "run_surb_ops R (op # ops) s = (let (s, xs) = run_surb_op R op s; (s, ys) = run_surb_ops R ops s in (s, xs @ ys))"

fun op_pseudonym :: "surb_op \<Rightarrow> pseudonym" where
  "op_pseudonym (StoreSurbs p bs) = p"
| "op_pseudonym (FindSurb m) = matcher_pseudonym m"

fun op_blocks :: "surb_op \<Rightarrow> (surb_id \<times> surb) list" where
  "op_blocks (StoreSurbs p bs) = bs"
| "op_blocks (FindSurb m) = []"

fun matches :: "surb_matcher \<Rightarrow> (surb_id \<times> surb) list \<Rightarrow> bool" where
  "matches (MatchPseudonym _) bs \<longleftrightarrow> bs \<noteq> []"
| "matches (MatchExact i) bs \<longleftrightarrow> bs \<noteq> [] \<and> fst (hd bs) = sender_id_surb_id i"

definition rings_inv :: "('rb \<Rightarrow> (surb_id \<times> surb) list) \<Rightarrow> ('rb \<Rightarrow> nat) \<Rightarrow> 'rb relay_state \<Rightarrow> bool" where
  "rings_inv items cap s \<longleftrightarrow> (\<forall>p rb. rl_surbs s p = Some rb \<longrightarrow> cap rb = 10000 \<and> length (items rb) \<le> 10000)"

text \<open>A search takes the oldest block of the pseudonym, and one for an identifier only if the oldest block has it.\<close>

lemma find_surb_effect:
  assumes R: "ring_ok R items cap" and inv: "rings_inv items cap s" and f: "find_surb R m s = (s', r)"
  shows "rings_inv items cap s'
    \<and> (if matches m (blocks_of items s (matcher_pseudonym m)) then
         \<exists>sid b rest. blocks_of items s (matcher_pseudonym m) = (sid, b) # rest \<and> r = Ok (sender_id_from (matcher_pseudonym m) sid, b)
           \<and> blocks_of items s' = (blocks_of items s)(matcher_pseudonym m := rest)
       else (\<exists>msg. r = Err (NoSurbAvailable msg)) \<and> blocks_of items s' = blocks_of items s)"
proof (cases "rl_surbs s (matcher_pseudonym m)")
  case None
  have "\<not> matches m []" by (cases m) simp_all
  then show ?thesis using None inv f by (auto simp: find_surb_def blocks_of_def)
next
  case (Some rb)
  let ?p = "matcher_pseudonym m"
  have cap: "cap rb = 10000" "length (items rb) \<le> 10000" using inv Some by (simp_all add: rings_inv_def)
  obtain x rb1 where dq: "sr_dequeue R rb = (x, rb1)" by force
  have pk: "sr_peek R rb = (case items rb of [] \<Rightarrow> None | x # _ \<Rightarrow> Some x)" using R by (simp add: ring_ok_def)
  have c1: "cap rb1 = 10000" and i1: "case items rb of [] \<Rightarrow> x = None \<and> items rb1 = [] | y # ys \<Rightarrow> x = Some y \<and> items rb1 = ys"
    using R cap dq unfolding ring_ok_def by (metis fst_conv snd_conv)+
  have set: "rings_inv items cap (s\<lparr>rl_surbs := (rl_surbs s)(?p \<mapsto> rb')\<rparr>)
      \<and> blocks_of items (s\<lparr>rl_surbs := (rl_surbs s)(?p \<mapsto> rb')\<rparr>) = (blocks_of items s)(?p := items rb')"
    if "cap rb' = 10000" "length (items rb') \<le> 10000" for rb'
    using inv that by (auto simp: rings_inv_def blocks_of_def)
  have b: "blocks_of items s ?p = items rb" by (simp add: blocks_of_def Some)
  have same: "(blocks_of items s)(?p := items rb) = blocks_of items s" using b by auto
  show ?thesis
  proof (cases "items rb")
    case Nil
    then have n: "x = None" "items rb1 = []" using i1 by simp_all
    have m: "\<not> matches m []" by (cases m) simp_all
    have "\<exists>msg rb'. (rb' = rb \<or> rb' = rb1) \<and> s' = s\<lparr>rl_surbs := (rl_surbs s)(?p \<mapsto> rb')\<rparr> \<and> r = Err (NoSurbAvailable msg)"
      using f Nil n pk Some by (cases m) (auto simp: Let_def find_surb_def pop_one_def pop_one_if_has_id_def dq)
    then show ?thesis using set [OF cap] set [OF c1] same m b Nil n by auto
  next
    case (Cons y ys)
    then have n: "x = Some y" "items rb1 = ys" "length (items rb1) \<le> 10000" using i1 cap by simp_all
    show ?thesis
    proof (cases "matches m (y # ys)")
      case True
      then have "s' = s\<lparr>rl_surbs := (rl_surbs s)(?p \<mapsto> rb1)\<rparr> \<and> r = Ok (sender_id_from ?p (fst y), snd y)"
        using f Cons n pk Some True by (cases m; cases y) (auto simp: Let_def find_surb_def pop_one_def pop_one_if_has_id_def dq)
      then show ?thesis using set [OF c1 n(3)] True b Cons n by (cases y) auto
    next
      case False
      then have "s' = s\<lparr>rl_surbs := (rl_surbs s)(?p \<mapsto> rb)\<rparr> \<and> (\<exists>msg. r = Err (NoSurbAvailable msg))"
        using f Cons n pk Some False by (cases m; cases y) (auto simp: Let_def find_surb_def pop_one_def pop_one_if_has_id_def dq)
      then show ?thesis using set [OF cap] same False b Cons by auto
    qed
  qed
qed

lemma store_surbs_effect:
  assumes R: "ring_ok R items cap" and inv: "rings_inv items cap s" and st: "store_surbs R p bs s = (s', r)"
  shows "rings_inv items cap s' \<and> blocks_of items s'
    = (blocks_of items s)(p := drop (length (blocks_of items s p) + length bs - 10000) (blocks_of items s p @ bs))"
proof -
  define rb where "rb = (case rl_surbs s p of Some rb \<Rightarrow> rb | None \<Rightarrow> surb_ring_default R)"
  have rb: "cap rb = 10000" "length (items rb) \<le> 10000" "items rb = blocks_of items s p"
    using R inv by (auto simp: rb_def rings_inv_def blocks_of_def surb_ring_default_def ring_ok_def split: option.splits)
  have p: "items (push_surbs R bs rb) = drop (length (items rb) + length bs - 10000) (items rb @ bs)" "cap (push_surbs R bs rb) = 10000"
    using push_surbs_items [OF R, of rb bs] rb by auto
  have "s' = s\<lparr>rl_surbs := (rl_surbs s)(p \<mapsto> push_surbs R bs rb)\<rparr>" using st by (auto simp: store_surbs_def rb_def Let_def)
  then show ?thesis using inv rb p by (auto simp: rings_inv_def blocks_of_def)
qed

lemma run_surb_op_subseq:
  assumes R: "ring_ok R items cap" and inv: "rings_inv items cap s" and run: "run_surb_op R op s = (s', xs)"
  shows "rings_inv items cap s'"
    and "p \<noteq> op_pseudonym op \<Longrightarrow> blocks_of items s' p = blocks_of items s p"
    and "p = op_pseudonym op \<Longrightarrow> \<exists>ys. xs = map (\<lambda>(i, b). (sender_id_from p i, b)) ys
      \<and> subseq (ys @ blocks_of items s' p) (blocks_of items s p @ op_blocks op)"
proof -
  have "rings_inv items cap s' \<and> (p \<noteq> op_pseudonym op \<longrightarrow> blocks_of items s' p = blocks_of items s p)
    \<and> (p = op_pseudonym op \<longrightarrow> (\<exists>ys. xs = map (\<lambda>(i, b). (sender_id_from p i, b)) ys
      \<and> subseq (ys @ blocks_of items s' p) (blocks_of items s p @ op_blocks op)))"
  proof (cases op)
    case (StoreSurbs q bs)
    obtain r :: "(api_error, unit) result" where "store_surbs R q bs s = (s', r)" and xs: "xs = []"
      using run StoreSurbs by (cases "store_surbs R q bs s :: _ \<times> (api_error, unit) result") auto
    from store_surbs_effect [OF R inv this(1)] xs StoreSurbs show ?thesis by (auto intro: list_emb_append_mono suffix_imp_subseq suffix_drop)
  next
    case (FindSurb m)
    obtain r where f: "find_surb R m s = (s', r)" and xs: "xs = (case r of Inr x \<Rightarrow> [x] | Inl _ \<Rightarrow> [])"
      using run FindSurb by (auto split: prod.splits)
    note e = find_surb_effect [OF R inv f]
    show ?thesis
    proof (cases "matches m (blocks_of items s (matcher_pseudonym m))")
      case True
      then obtain sid b rest where "blocks_of items s (matcher_pseudonym m) = (sid, b) # rest" "r = Ok (sender_id_from (matcher_pseudonym m) sid, b)"
        "blocks_of items s' = (blocks_of items s)(matcher_pseudonym m := rest)" using e by auto
      then show ?thesis using e xs FindSurb by (auto intro!: exI [of _ "[(sid, b)]"])
    next
      case False
      then show ?thesis using e xs FindSurb by auto
    qed
  qed
  then show "rings_inv items cap s'" "p \<noteq> op_pseudonym op \<Longrightarrow> blocks_of items s' p = blocks_of items s p"
    "p = op_pseudonym op \<Longrightarrow> \<exists>ys. xs = map (\<lambda>(i, b). (sender_id_from p i, b)) ys
      \<and> subseq (ys @ blocks_of items s' p) (blocks_of items s p @ op_blocks op)" by auto
qed

text \<open>A reply block is used at most once and reply blocks are used in the order in which they arrived. Whatever blocks
of a pseudonym arrive and are asked for, the blocks handed out followed by those still kept are a subsequence of the blocks
that were there and arrived; never more than ten thousand blocks of a pseudonym are kept.\<close>
lemma reply_blocks_used_once:
  assumes R: "ring_ok R items cap" and inv: "rings_inv items cap s"
    and run: "run_surb_ops R ops s = (s', used)" and ops: "\<forall>op \<in> set ops. op_pseudonym op = p"
  shows "\<exists>taken. used = map (\<lambda>(i, b). (sender_id_from p i, b)) taken
    \<and> subseq (taken @ blocks_of items s' p) (blocks_of items s p @ concat (map op_blocks ops))
    \<and> length (blocks_of items s' p) \<le> 10000 \<and> (\<forall>q. q \<noteq> p \<longrightarrow> blocks_of items s' q = blocks_of items s q)"
  using inv run ops
proof (induction ops arbitrary: s used)
  case Nil
  then show ?case by (auto simp: rings_inv_def blocks_of_def split: option.splits)
next
  case (Cons op ops)
  obtain s1 xs ys where r: "run_surb_op R op s = (s1, xs)" "run_surb_ops R ops s1 = (s', ys)" and u: "used = xs @ ys"
    using Cons.prems(2) by (auto split: prod.splits)
  have p: "p = op_pseudonym op" "\<forall>op \<in> set ops. op_pseudonym op = p" using Cons.prems(3) by simp_all
  note one = run_surb_op_subseq [OF R Cons.prems(1) r(1)]
  obtain t1 where t1: "xs = map (\<lambda>(i, b). (sender_id_from p i, b)) t1"
    "subseq (t1 @ blocks_of items s1 p) (blocks_of items s p @ op_blocks op)" using one(3) [OF p(1)] by blast
  from Cons.IH [OF one(1) r(2) p(2)] obtain t2 where t2: "ys = map (\<lambda>(i, b). (sender_id_from p i, b)) t2"
    "subseq (t2 @ blocks_of items s' p) (blocks_of items s1 p @ concat (map op_blocks ops))"
    "length (blocks_of items s' p) \<le> 10000" "\<forall>q. q \<noteq> p \<longrightarrow> blocks_of items s' q = blocks_of items s1 q" by blast
  have "subseq (t1 @ (t2 @ blocks_of items s' p)) (t1 @ (blocks_of items s1 p @ concat (map op_blocks ops)))"
    by (rule list_emb_append_mono [OF subseq_order.order_refl t2(2)])
  also have "subseq \<dots> ((blocks_of items s p @ op_blocks op) @ concat (map op_blocks ops))"
    using list_emb_append_mono [OF t1(2) subseq_order.order_refl, of "concat (map op_blocks ops)"] by simp
  finally have "subseq ((t1 @ t2) @ blocks_of items s' p) (blocks_of items s p @ concat (map op_blocks (op # ops)))" by simp
  moreover have "used = map (\<lambda>(i, b). (sender_id_from p i, b)) (t1 @ t2)" using u t1(1) t2(1) by simp
  moreover have "\<forall>q. q \<noteq> p \<longrightarrow> blocks_of items s' q = blocks_of items s q" using t2(4) one(2) p(1) by simp
  ultimately show ?case using t2(3) by blast
qed

section \<open>Examples\<close>

text \<open>
  Node 1 relays for node 9, which has a channel to it, to the node with packet key 6. The packet keys of the previous and
  the next hop are known, as are the price and the domain separator.
\<close>

definition relay_node :: "(string, byte, byte, unit) node_db" where
  "relay_node = (pair_node 1)\<lparr>nd_crypto := pe_crypto Hopr_Packet.example_env\<rparr>"

definition list_ring :: "(nat \<times> (surb_id \<times> surb) list) surb_ring" where
  "list_ring = \<lparr>sr_new = (\<lambda>n. (n, [])), sr_push = (\<lambda>x rb. (fst rb, drop (Suc (length (snd rb)) - fst rb) (snd rb @ [x]))),
     sr_dequeue = (\<lambda>rb. case snd rb of [] \<Rightarrow> (None, rb) | x # xs \<Rightarrow> (Some x, (fst rb, xs))),
     sr_peek = (\<lambda>rb. case snd rb of [] \<Rightarrow> None | x # _ \<Rightarrow> Some x)\<rparr>"

definition relay_env1 :: "(string, byte, byte, byte, nat, byte, byte, unit, nat \<times> (surb_id \<times> surb) list) relay_env" where
  "relay_env1 = \<lparr>re_node = relay_node, re_packets = Hopr_Packet.example_env, re_sign = (\<lambda>_ k. replicate 64 k),
     re_ring = list_ring\<rparr>"

definition relay_key :: "byte \<Rightarrow> offchain_key" where
  "relay_key k = replicate 31 0 @ [k]"

definition relay_chain :: chain_state where
  "relay_chain = \<lparr>cs_accounts = ad_new\<lparr>ad_offchain_to_chain := [relay_key 2 \<mapsto> Some (replicate 20 9), relay_key 6 \<mapsto> Some (replicate 20 6)],
       ad_key_ids := \<lparr>km_ids = (\<lambda>i. Some (replicate 28 0 @ u32_to_be i)), km_keys = (\<lambda>key. Some (u32_from_be (drop 28 key)))\<rparr>\<rparr>,
     cs_channels = pair_table\<lparr>ct_cache := [(replicate 20 9, replicate 20 1) \<mapsto> Some pair_channel]\<rparr>,
     cs_info = nf_new\<lparr>nf_indexer_cache := Some (pair_data\<lparr>id_ticket_price := Some 10\<rparr>)\<rparr>,
     cs_tickets = td_new\<lparr>td_queue := Some [], td_unrealized := [(pair_id, 1) \<mapsto> 0]\<rparr>\<rparr>"

definition relay_start :: "(nat \<times> (surb_id \<times> surb) list) relay_state" where
  "relay_start = \<lparr>rl_chain = relay_chain, rl_unacked = Map.empty, rl_openers = Map.empty, rl_surbs = Map.empty\<rparr>"

definition relay_ticket :: "eth_challenge \<Rightarrow> verified_ticket" where
  "relay_ticket ch = ticket_sign (pe_crypto Hopr_Packet.example_env)
     (example_ticket\<lparr>tk_channel_id := pair_id, tk_challenge := ch, tk_index := 7\<rparr>) 9 (replicate 32 0)"

lemma relay_node_fields [simp]:
  "nd_chain_key relay_node = 1" "nd_crypto relay_node = example_crypto\<lparr>cr_point_address := be_encode 20\<rparr>"
  "nd_accounts relay_node = Account_Table.example_env" "nd_me_onchain relay_node = replicate 20 1" "approx_ok (nd_approx relay_node)"
  using pair_node_fields(5) [of 1]
  by (simp_all add: relay_node_def nd_me_onchain_def Hopr_Packet.example_env_def example_crypto_def pair_node_def)

lemma relay_env1_fields [simp]:
  "re_node relay_env1 = relay_node" "re_packets relay_env1 = Hopr_Packet.example_env" "re_sign relay_env1 = (\<lambda>_ k. replicate 64 k)"
  by (simp_all add: relay_env1_def)

lemma relay_mapper: "hopr_route Hopr_Packet.example_env (mapper_of relay_start) kps (map (\<lambda>k. [0, 0, 0, k]) kps)"
  if "kps \<noteq> []" "length kps \<le> 4" for kps
proof -
  have r: "replicate 28 0 @ [0, 0, 0, k] = replicate 31 0 @ [k :: byte]" for k
    by (simp add: numeral_Bit0 numeral_Bit1)
  have m: "mapper_of relay_start = \<lparr>km_key_to_id = (\<lambda>key. Some (u32_to_be (u32_from_be (drop 28 key)))),
      km_id_to_public = (\<lambda>i. Some (replicate 28 0 @ u32_to_be (u32_from_be i)))\<rparr>"
    by (simp add: mapper_of_def relay_start_def relay_chain_def Let_def map_key_to_id_def map_id_to_public_def)
  have u: "u32_to_be (u32_from_be [0, 0, 0, k]) = [0, 0, 0, k]" for k by (simp add: u32_to_from_be)
  have "km_key_to_id (mapper_of relay_start) (replicate 31 0 @ [k]) = Some [0, 0, 0, k]"
    "km_id_to_public (mapper_of relay_start) [0, 0, 0, k] = Some (replicate 31 0 @ [k])" for k
    unfolding m by (simp_all only: drop_28 u r key_mapper.simps)
  then show ?thesis using that
    by (simp add: hopr_route_def intermediate_hops_def mapper_knows_def example_env_parts example_suite_parts hopr_header_spec_def)
qed

lemma example_chain:
  obtains pkts chal own ack where
    "relays_in_turn Hopr_Packet.example_env (mapper_of relay_start) lookup [4, 6] pkts chal own ack"
    and "length (chal 0) = eth_challenge_size" and "length (ack 1) = half_key_size"
proof -
  let ?kps = "[4, 6 :: byte]" and ?recv = "replicate 18 9 :: bytes"
  have kps: "?kps \<noteq> []" "length ?kps \<le> 4" by simp_all
  have recv: "length ?recv = sender_id_size" by (simp add: sender_id_size_def simple_pseudonym_size_def surb_id_size_def)
  obtain keys where keys: "new_shared_keys example_suite 5 (map (su_public example_suite) ?kps) = Ok keys"
    "sk_secrets keys = map (\<lambda>_. replicate 32 3) ?kps" by (rule example_keys)
  obtain strings vals where gen: "generate_proof_of_relay example_curve (\<lambda>_. replicate 32 3) (sk_secrets keys) = Ok (strings, vals)"
    using example_por [OF kps(1)] keys(2) by metis
  note rt = keys_route_ok [OF example_env_ok relay_mapper [OF kps] recv, unfolded example_env_parts, OF keys(1) gen]
  note inv = generate_por_inv [OF example_curve_ok gen]
  have l: "length (replicate (padded_size payload_size_int) (0 :: byte)) = padded_size payload_size_int" by simp
  from forward_packet_travels [OF rt(1) keys(1) l, of "\<lambda>_. 1" False lookup] obtain pkts where
    "relayed_along example_suite hopr_header_spec payload_size_int (mapper_of relay_start) lookup ?kps (sk_secrets keys) strings pkts"
    by blast
  then have "relays_in_turn Hopr_Packet.example_env (mapper_of relay_start) lookup ?kps pkts
      (hop_challenge Hopr_Packet.example_env (\<lambda>_. replicate 32 3) (sk_secrets keys))
      (\<lambda>i. derive_own_key_share example_curve (sk_secrets keys ! i)) (\<lambda>i. derive_ack_key_share example_curve (sk_secrets keys ! i))"
    using chain_of_relays [OF example_env_ok rt(2), unfolded example_env_parts] inv(4) unfolding rt(3) by blast
  moreover have "length (hop_challenge Hopr_Packet.example_env (\<lambda>_. replicate 32 3) (sk_secrets keys) 0) = eth_challenge_size"
    using example_curve_ok by (simp add: hop_challenge_def pair_challenge_def example_env_parts curve_ok_def)
  moreover have "length (derive_ack_key_share example_curve (sk_secrets keys ! 1)) = half_key_size"
    by (simp add: derive_ack_key_share_def example_curve_def half_key_size_def)
  ultimately show ?thesis by (rule that)
qed

lemma relay_ticket_fields [simp]:
  "vt_issuer (relay_ticket ch) = replicate 20 9" "tk_channel_id (vt_ticket (relay_ticket ch)) = pair_id"
  "tk_amount (vt_ticket (relay_ticket ch)) = 100" "tk_challenge (vt_ticket (relay_ticket ch)) = ch"
  "tk_channel_epoch (vt_ticket (relay_ticket ch)) = 1" "tk_encoded_win_prob (vt_ticket (relay_ticket ch)) = replicate 7 255"
  "tk_signature (vt_ticket (relay_ticket ch)) = Some (replicate 64 9)"
  by (simp_all add: relay_ticket_def ticket_sign_def Let_def example_ticket_def example_env_parts example_crypto_def)

lemma relay_ticket_valid: "length ch = eth_challenge_size \<Longrightarrow> ticket_valid (vt_ticket (relay_ticket ch))"
  by (simp add: relay_ticket_def ticket_valid_def ticket_wf_def ticket_sign_def Let_def example_ticket_def example_env_parts example_crypto_def
      pair_id_def max_ticket_amount_def ticket_sizes)

lemma relay_chain_reads:
  "resolve_chain_key relay_node (relay_key 2) relay_chain = (relay_chain, Ok (Some (replicate 20 9)))"
  "resolve_chain_key relay_node (relay_key 6) relay_chain = (relay_chain, Ok (Some (replicate 20 6)))"
  "channel_between relay_node (replicate 20 9) (replicate 20 1) relay_chain = (relay_chain, Ok (Some pair_channel))"
  "indexer_data_of relay_node relay_chain = (relay_chain, Ok (pair_data\<lparr>id_ticket_price := Some 10\<rparr>))"
  "ticket_tx (unrealized_value (sel_of_channel pair_channel)) relay_chain = (relay_chain, Ok 0)"
proof -
  have "relay_key 2 \<noteq> relay_key 6" by (simp add: relay_key_def)
  then show "resolve_chain_key relay_node (relay_key 2) relay_chain = (relay_chain, Ok (Some (replicate 20 9)))"
    "resolve_chain_key relay_node (relay_key 6) relay_chain = (relay_chain, Ok (Some (replicate 20 6)))"
    by (simp_all add: resolve_chain_key_def translated_key_def translate_key_def act_bind_def act_lift_def relay_chain_def)
  show "channel_between relay_node (replicate 20 9) (replicate 20 1) relay_chain = (relay_chain, Ok (Some pair_channel))"
    by (simp add: channel_between_def get_channel_by_parties_def relay_chain_def)
  show "indexer_data_of relay_node relay_chain = (relay_chain, Ok (pair_data\<lparr>id_ticket_price := Some 10\<rparr>))"
    by (simp add: indexer_data_of_def get_indexer_data_def relay_chain_def)
  show "ticket_tx (unrealized_value (sel_of_channel pair_channel)) relay_chain = (relay_chain, Ok 0)"
    by (simp add: ticket_tx_def unrealized_value_def sel_of_channel_def ce_get_id_def is_single_channel_def relay_chain_def)
qed

lemma relay_ticket_passes:
  "validate_unacknowledged_ticket (nd_crypto relay_node) (nd_approx relay_node) (vt_ticket (relay_ticket ch)) pair_channel
     10 (replicate 7 255) 1000 (replicate 32 0) = Ok (relay_ticket ch)"
proof -
  have c: "crypto_ok (nd_crypto relay_node)" using example_crypto_ok by (simp add: crypto_ok_def)
  have "vt_inv (nd_crypto relay_node) (replicate 32 0) (relay_ticket ch)"
    using ticket_sign_inv [OF c] by (simp add: relay_ticket_def example_env_parts)
  then have "ticket_verify (nd_crypto relay_node) (vt_ticket (relay_ticket ch)) (replicate 20 9) (replicate 32 0) = Ok (relay_ticket ch)"
    by (simp add: ticket_verify_Ok_iff)
  moreover have "wp_approx_cmp (nd_approx relay_node) v v = Equal" for v
    using wp_approx_eq_refl [of "nd_approx relay_node"] by (simp add: wp_approx_eq_def)
  ultimately show ?thesis by (simp add: validate_unacknowledged_ticket_def Let_def status_eq.simps)
qed

lemma relay_validates:
  assumes "hf_previous_hop fwd = relay_key 2" and "ho_next_hop (hf_outgoing fwd) = relay_key 6"
    and "ho_ticket (hf_outgoing fwd) = vt_ticket (relay_ticket ch)" and "hf_path_pos fwd = 1"
  shows "validate_incoming_ticket relay_node fwd relay_chain = (relay_chain, Ok (replicate 20 6, relay_ticket ch, replicate 32 0))"
  using assms relay_ticket_passes [of ch]
  by (simp add: validate_incoming_ticket_def Let_def chain_key_of_def channel_or_def act_bind_def act_lift_def act_return_def
      relay_chain_reads ce_get_id_def bal_mul_def bal_sub_def pair_data_def)

lemma relay_zero_hop:
  obtains vt where "tb_build_signed (nd_crypto relay_node) (tb_set_challenge ch (zero_hop_ticket relay_node a)) sk ds
      = (Ok vt :: (core_types_error, _) result)"
    and "transport_payload \<lparr>ho_packet = p, ho_ticket = vt_leak vt, ho_next_hop = n, ho_ack_challenge = c\<rparr>
      = (Ok (p @ ticket_bytes (vt_ticket vt)) :: (db_error, _) result)"
proof -
  obtain t where "tb_build (tb_set_challenge ch (zero_hop_ticket relay_node a)) = (Ok t :: (core_types_error, _) result)"
    by (auto simp: tb_build_Ok_iff zero_hop_ticket_def tb_set_challenge_def tb_set_direction_def tb_zero_hop_def tb_default_def
        tb_wanted_amount_def max_ticket_amount_def)
  then have "tb_build_signed (nd_crypto relay_node) (tb_set_challenge ch (zero_hop_ticket relay_node a)) sk ds
      = (Ok (ticket_sign (nd_crypto relay_node) t sk ds) :: (core_types_error, _) result)"
    by (simp add: tb_build_signed_def zero_hop_ticket_def tb_set_challenge_def tb_set_direction_def tb_zero_hop_def tb_default_def)
  then show ?thesis by (rule that) (simp add: transport_payload_def ticket_encode_def ticket_bytes_def ticket_sign_def Let_def vt_leak_def)
qed

lemma relay_example:
  obtains pkts chal own ack s' tag new a ch where
    "relays_in_turn Hopr_Packet.example_env (mapper_of relay_start) (remove_opener :: _ \<Rightarrow> (nat \<times> (surb_id \<times> surb) list) relay_state \<Rightarrow> _)
       [4, 6] pkts chal own ack"
    and "length (chal 0) = eth_challenge_size" and "length (ack 1) = half_key_size"
    and "from_recv relay_env1 () (pkts 0 @ ticket_bytes (vt_ticket (relay_ticket (chal 0)))) 4 (relay_key 2) wp price relay_start
      = (s', Ok (Some (IncomingForwarded tag (relay_key 2) (relay_key 6) (pkts 1 @ ticket_bytes new) a)))"
    and "s' = relay_start\<lparr>rl_unacked := [ch \<mapsto> WaitingAsRelayer (vt_into_unacknowledged (relay_ticket (chal 0)) (own 0))]\<rparr>"
    and "half_key_to_challenge example_curve (ack 1) = (Ok ch :: (core_types_error, _) result)"
proof -
  obtain pkts chal own ack where rel: "relays_in_turn Hopr_Packet.example_env (mapper_of relay_start)
      (remove_opener :: _ \<Rightarrow> (nat \<times> (surb_id \<times> surb) list) relay_state \<Rightarrow> _) [4, 6] pkts chal own ack"
    and len: "length (chal 0) = eth_challenge_size" "length (ack 1) = half_key_size"
    by (rule example_chain)
  let ?t = "relay_ticket (chal 0)"
  have "0 + 1 < length [4, 6 :: byte]" by simp
  note relay = rel [unfolded relays_in_turn_def, THEN spec, THEN mp, OF this]
  obtain tag ch where hk: "half_key_to_challenge (pe_curve Hopr_Packet.example_env) (ack 1) = (Ok ch :: (packet_error, _) result)"
    and inc: "from_incoming Hopr_Packet.example_env (pkts 0 @ ticket_bytes (vt_ticket ?t)) 4 (relay_key 2) (mapper_of relay_start)
        remove_opener relay_start
      = (relay_start, Ok (ForwardedPacket
            \<lparr>hf_outgoing = \<lparr>ho_packet = pkts 1, ho_ticket = vt_ticket ?t, ho_next_hop = relay_key 6, ho_ack_challenge = ch\<rparr>,
             hf_packet_tag = tag, hf_ack_key = ack 0, hf_previous_hop = relay_key 2, hf_own_key = own 0,
             hf_next_challenge = chal 1, hf_path_pos = 1\<rparr>))"
    using conjunct1 [OF relay, rule_format, OF relay_ticket_valid [OF len(1)], of "relay_key 2" relay_start]
    by (auto simp: example_env_parts example_suite_parts relay_key_def)
  let ?fwd = "\<lparr>hf_outgoing = \<lparr>ho_packet = pkts 1, ho_ticket = vt_ticket ?t, ho_next_hop = relay_key 6, ho_ack_challenge = ch\<rparr>,
             hf_packet_tag = tag, hf_ack_key = ack 0, hf_previous_hop = relay_key 2, hf_own_key = own 0,
             hf_next_challenge = chal 1, hf_path_pos = 1\<rparr>"
  have v: "validate_incoming_ticket relay_node ?fwd relay_chain = (relay_chain, Ok (replicate 20 6, ?t, replicate 32 0))"
    by (rule relay_validates) simp_all
  obtain vt where vt: "tb_build_signed (nd_crypto relay_node) (tb_set_challenge (chal 1) (zero_hop_ticket relay_node (replicate 20 6))) 1 (replicate 32 0)
      = (Ok vt :: (core_types_error, _) result)"
    "transport_payload \<lparr>ho_packet = pkts 1, ho_ticket = vt_leak vt, ho_next_hop = relay_key 6, ho_ack_challenge = ch\<rparr>
      = (Ok (pkts 1 @ ticket_bytes (vt_ticket vt)) :: (db_error, _) result)" by (rule relay_zero_hop)
  let ?s' = "relay_start\<lparr>rl_unacked := [ch \<mapsto> WaitingAsRelayer (vt_into_unacknowledged ?t (own 0))]\<rparr>"
  let ?fwd' = "?fwd\<lparr>hf_outgoing := \<lparr>ho_packet = pkts 1, ho_ticket = vt_leak vt, ho_next_hop = relay_key 6, ho_ack_challenge = ch\<rparr>\<rparr>"
  have st: "rl_chain relay_start = relay_chain" "rl_unacked relay_start = Map.empty" "rl_chain ?s' = relay_chain"
    by (simp_all add: relay_start_def)
  have "validate_and_replace_ticket relay_node ?fwd wp price relay_start = (?s', Ok ?fwd')"
    using v vt(1)
    by (simp add: validate_and_replace_ticket_def act_bind_def on_chain_def insert_unacked_def act_lift_def act_return_def
        next_hop_ticket_def Let_def st relay_start_def)
  then have "receive_forwarded relay_env1 4 wp price ?fwd relay_start
      = (?s', Ok (Some (IncomingForwarded tag (relay_key 2) (relay_key 6) (pkts 1 @ ticket_bytes (vt_ticket vt))
           (ak_new (re_sign relay_env1) (ack 0) 4))))"
    using vt(2) by (simp add: receive_forwarded_def as_api_def)
  then have "from_recv relay_env1 () (pkts 0 @ ticket_bytes (vt_ticket ?t)) 4 (relay_key 2) wp price relay_start
      = (?s', Ok (Some (IncomingForwarded tag (relay_key 2) (relay_key 6) (pkts 1 @ ticket_bytes (vt_ticket vt))
           (ak_new (re_sign relay_env1) (ack 0) 4))))"
    using inc by (simp add: from_recv_def act_bind_def as_api_def)
  moreover have "half_key_to_challenge example_curve (ack 1) = (Ok ch :: (core_types_error, _) result)"
    using hk by (simp add: half_key_to_challenge_def example_env_parts split: option.splits)
  ultimately show ?thesis using that rel len by blast
qed

lemma list_ring_ok: "ring_ok list_ring snd fst"
  unfolding ring_ok_def by (auto simp: list_ring_def split: list.splits)

text \<open>The relay's ticket wins, and the acknowledgement of the next hop settles it.\<close>

lemma relay_ticket_wins:
  assumes "at_ticket acked = relay_ticket ch"
  shows "at_is_winning (nd_crypto relay_node) () acked sk ds = (Ok True :: (db_error, bool) result)"
proof -
  have k: "length (cr_keccak (nd_crypto relay_node) xs) = 32" for xs using example_crypto_ok by (simp add: crypto_ok_def)
  have w: "replicate 7 255 = wp_always" by (simp add: wp_always_def encoded_win_prob_length_def)
  have "length wp_always = 7" by (simp add: wp_always_def encoded_win_prob_length_def)
  note win = ticket_win_characterised [OF k this this refl, THEN conjunct2, THEN conjunct1]
  have "cr_derive_vrf (nd_crypto relay_node) () h sk d = Ok sk" for h sk d by (simp add: example_crypto_def)
  then show ?thesis
    using assms by (simp add: at_is_winning_def vt_is_winning_def vt_verified_signature_def w win del: relay_node_fields(2))
qed

lemma relay_ticket_acknowledged:
  assumes "relays_in_turn Hopr_Packet.example_env mapper (lookup :: sender_id \<Rightarrow> 'st \<Rightarrow> _) [4, 6] pkts chal own ack"
  obtains acked where "ut_acknowledge (nd_crypto relay_node) (vt_into_unacknowledged (relay_ticket (chal 0)) (own 0)) (ack 1) = Ok acked"
    and "at_ticket acked = relay_ticket (chal 0)"
proof -
  have "0 + 1 < length [4, 6 :: byte]" by simp
  note relay = assms [unfolded relays_in_turn_def, THEN spec, THEN mp, OF this]
  show ?thesis
    using conjunct2 [OF relay, rule_format, of "relay_ticket (chal 0)"] that by (auto simp: example_env_parts)
qed

lemma relay_chain_state:
  "get_channel_by_parties k (replicate 20 9) (replicate 20 1) True (cs_channels relay_chain) = Ok (cs_channels relay_chain, Some pair_channel)"
  "get_indexer_data p (cs_info relay_chain) = Ok (cs_info relay_chain, pair_data\<lparr>id_ticket_price := Some 10\<rparr>)"
  "td_queue (cs_tickets relay_chain) = Some []"
  "id_channels_dst (pair_data\<lparr>id_ticket_price := Some 10\<rparr>) = Some (replicate 32 0)"
  by (simp_all add: get_channel_by_parties_def get_indexer_data_def relay_chain_def pair_data_def td_new_def)

lemma relay_acknowledged_as:
  assumes "relays_in_turn Hopr_Packet.example_env mapper (lookup :: sender_id \<Rightarrow> 'st \<Rightarrow> _) [4, 6] pkts chal own ack"
  obtains acked where "acknowledged_as relay_node () (ack 1) (vt_into_unacknowledged (relay_ticket (chal 0)) (own 0)) relay_chain acked True"
    and "at_ticket acked = relay_ticket (chal 0)"
proof -
  obtain acked where a: "ut_acknowledge (nd_crypto relay_node) (vt_into_unacknowledged (relay_ticket (chal 0)) (own 0)) (ack 1) = Ok acked"
    "at_ticket acked = relay_ticket (chal 0)" by (rule relay_ticket_acknowledged [OF assms])
  have "u256_as_u32 1 = (Ok 1 :: (db_error, u32) result)" by (simp add: u256_as_u32_def)
  then have "acknowledged_as relay_node () (ack 1) (vt_into_unacknowledged (relay_ticket (chal 0)) (own 0)) relay_chain acked True"
    using a relay_chain_state relay_ticket_wins [OF a(2)] by (simp add: acknowledged_as_def vt_into_unacknowledged_def pair_channel_def ce_new_def)
  then show ?thesis using a(2) by (rule that)
qed


lemma acknowledgement_panics_witness:
  "receive_final relay_env1 () \<lparr>hi_packet_tag = [], hi_ack_key = None, hi_previous_hop = relay_key 2,
      hi_plain_text = replicate 32 0 @ replicate 64 2, hi_sender = [], hi_surbs = []\<rparr> relay_start = (relay_start, Panicked)"
proof (rule acknowledgement_panics)
  have "be_decode (replicate 32 0 :: bytes) = 0" by code_simp
  then show "nonzero_scalar (cv_order (pe_curve (re_packets relay_env1))) (replicate 32 0) = None"
    by (simp add: nonzero_scalar_def)
  show "ae_verify_message (nd_accounts (re_node relay_env1)) (replicate 32 0)
      (hi_previous_hop \<lparr>hi_packet_tag = [], hi_ack_key = None, hi_previous_hop = relay_key 2,
      hi_plain_text = replicate 32 0 @ replicate 64 2, hi_sender = [], hi_surbs = []\<rparr>) (replicate 64 2)"
    by (simp add: Account_Table.example_env_def)
qed (simp_all add: half_key_size_def offchain_signature_size_def)


lemma reply_blocks_used_once_witness:
  "\<exists>s' used taken. run_surb_ops list_ring [StoreSurbs [7] [([1], b), ([2], b')], FindSurb (MatchPseudonym [7])] relay_start = (s', used)
     \<and> used = map (\<lambda>(i, b). (sender_id_from [7] i, b)) taken
     \<and> subseq (taken @ blocks_of snd s' [7]) [([1], b), ([2], b')]"
proof -
  let ?ops = "[StoreSurbs [7] [([1], b), ([2], b')], FindSurb (MatchPseudonym [7])]"
  obtain s' used where r: "run_surb_ops list_ring ?ops relay_start = (s', used)" by force
  have "rings_inv snd fst relay_start" "\<forall>op \<in> set ?ops. op_pseudonym op = [7]" "blocks_of snd relay_start [7] = []"
    by (simp_all add: rings_inv_def relay_start_def blocks_of_def)
  from reply_blocks_used_once [OF list_ring_ok this(1) r this(2)] this(3) r show ?thesis by auto
qed

theorem relay_is_paid_witness:
  "\<exists>payload s' tag new a ack2 s3 t acked.
     from_recv relay_env1 () (payload @ ticket_bytes t) 4 (relay_key 2) wp_always 10 relay_start
       = (s', Ok (Some (IncomingForwarded tag (relay_key 2) (relay_key 6) new a)))
     \<and> handle_acknowledgement relay_node example_curve () ack2 s' = (s3, Ok ())
     \<and> td_queue (cs_tickets (rl_chain s3)) = Some [Insert acked] \<and> vt_ticket (at_ticket acked) = t"
proof -
  obtain pkts chal own ack s' tag new a ch where
    rel: "relays_in_turn Hopr_Packet.example_env (mapper_of relay_start) (remove_opener :: _ \<Rightarrow> (nat \<times> (surb_id \<times> surb) list) relay_state \<Rightarrow> _)
       [4, 6] pkts chal own ack"
    and len: "length (chal 0) = eth_challenge_size" "length (ack 1) = half_key_size"
    and f: "from_recv relay_env1 () (pkts 0 @ ticket_bytes (vt_ticket (relay_ticket (chal 0)))) 4 (relay_key 2) wp_always 10 relay_start
      = (s', Ok (Some (IncomingForwarded tag (relay_key 2) (relay_key 6) (pkts 1 @ ticket_bytes new) a)))"
    and s: "s' = relay_start\<lparr>rl_unacked := [ch \<mapsto> WaitingAsRelayer (vt_into_unacknowledged (relay_ticket (chal 0)) (own 0))]\<rparr>"
    and hk: "half_key_to_challenge example_curve (ack 1) = (Ok ch :: (core_types_error, _) result)"
    by (rule relay_example)
  let ?t = "relay_ticket (chal 0)"
  have e: "re_packets relay_env1 = Hopr_Packet.example_env" "re_node relay_env1 = relay_node" by simp_all
  have rel': "relays_in_turn (re_packets relay_env1) (mapper_of relay_start)
      (remove_opener :: _ \<Rightarrow> (nat \<times> (surb_id \<times> surb) list) relay_state \<Rightarrow> _) [4, 6] pkts chal own ack" using rel by simp
  have i: "0 + 1 < length [4, 6 :: byte]" by simp
  have t: "ticket_valid (vt_ticket ?t)" "tk_challenge (vt_ticket ?t) = chal 0" using relay_ticket_valid len by simp_all
  have cr: "nd_crypto (re_node relay_env1) = pe_crypto (re_packets relay_env1)" by (simp add: example_env_parts)
  have f': "from_recv relay_env1 () (pkts 0 @ ticket_bytes (vt_ticket ?t)) ([4, 6] ! 0) (relay_key 2) wp_always 10 relay_start
      = (s', Ok (Some (IncomingForwarded tag (relay_key 2) (relay_key 6) (pkts 1 @ ticket_bytes new) a)))" using f by simp
  from relay_is_paid [OF rel' i t cr f'] obtain verified acked' ch' where
    hk': "half_key_to_challenge example_curve (ack (0 + 1)) = (Ok ch' :: (core_types_error, _) result)"
    and v: "at_ticket acked' = verified" "rl_unacked s' = (rl_unacked relay_start)(ch' \<mapsto> WaitingAsRelayer (vt_into_unacknowledged verified (own 0)))"
    and later: "\<forall>s2 a2 rnd tbl c nf d ds win q.
          rl_unacked (s2 :: (nat \<times> (surb_id \<times> surb) list) relay_state) ch' = rl_unacked s' ch' \<longrightarrow> ak_validated a2
          \<longrightarrow> take half_key_size (ak_data a2) = ack (0 + 1) \<longrightarrow>
          get_channel_by_parties (cr_keccak (nd_crypto relay_node)) (vt_issuer verified) (nd_me_onchain relay_node) True
            (cs_channels (rl_chain s2)) = Ok (tbl, Some c) \<longrightarrow>
          ce_channel_epoch c = ucast (tk_channel_epoch (vt_ticket ?t)) \<longrightarrow>
          get_indexer_data (nd_approx relay_node) (cs_info (rl_chain s2)) = Ok (nf, d) \<longrightarrow> id_channels_dst d = Some ds \<longrightarrow>
          at_is_winning (nd_crypto relay_node) rnd acked' (nd_chain_key relay_node) ds = (Ok win :: (db_error, _) result) \<longrightarrow>
          td_queue (cs_tickets (rl_chain s2)) = Some q \<longrightarrow>
          (\<exists>s3. handle_acknowledgement relay_node example_curve rnd a2 s2 = (s3, Ok ())
             \<and> rl_unacked s3 = (rl_unacked s2)(ch' := None)
             \<and> td_queue (cs_tickets (rl_chain s3)) = Some (if win then q @ [Insert acked'] else q))"
    unfolding e example_env_parts by (elim exE conjE) (rule that)
  have "ch' = ch" using hk hk' by simp
  then have ver: "verified = ?t" using v(2) s by (auto simp: relay_start_def vt_into_unacknowledged_def dest: fun_cong [of _ _ ch])
  have c: "rl_chain s' = relay_chain" by (simp add: s relay_start_def)
  let ?a2 = "\<lparr>ak_data = ack 1 @ replicate 64 6, ak_validated = True\<rparr>"
  have a2: "ak_validated ?a2" "take half_key_size (ak_data ?a2) = ack (0 + 1)" using len by simp_all
  have reads: "get_channel_by_parties (cr_keccak (nd_crypto relay_node)) (vt_issuer verified) (nd_me_onchain relay_node) True
      (cs_channels (rl_chain s')) = Ok (cs_channels relay_chain, Some pair_channel)"
    "ce_channel_epoch pair_channel = ucast (tk_channel_epoch (vt_ticket ?t))"
    "get_indexer_data (nd_approx relay_node) (cs_info (rl_chain s')) = Ok (cs_info relay_chain, pair_data\<lparr>id_ticket_price := Some 10\<rparr>)"
    "td_queue (cs_tickets (rl_chain s')) = Some []"
    using relay_chain_state by (simp_all add: c ver pair_channel_def ce_new_def)
  have "at_is_winning (nd_crypto relay_node) () acked' (nd_chain_key relay_node) (replicate 32 0) = (Ok True :: (db_error, bool) result)"
    by (rule relay_ticket_wins) (simp add: v(1) ver)
  from later [rule_format, OF refl a2 reads(1,2,3) relay_chain_state(4) this reads(4)] obtain s3 where
    "handle_acknowledgement relay_node example_curve () ?a2 s' = (s3, Ok ())"
    "td_queue (cs_tickets (rl_chain s3)) = Some [Insert acked']" by auto
  moreover have "vt_ticket (at_ticket acked') = vt_ticket ?t" by (simp add: v(1) ver)
  ultimately show ?thesis using f by blast
qed

lemma relay_key_public: "su_public example_suite k = relay_key k"
  by (simp add: example_suite_parts relay_key_def)

lemma relay_no_ack_packet:
  assumes msg: "length msg < 200"
  obtains out where "into_outgoing Hopr_Packet.example_env Hopr_Packet.example_random msg (replicate 10 9) (NoAckTo (relay_key 2)) 1
      (zero_hop_ticket relay_node a) (mapper_of relay_start) ds = Ok (OutgoingPacket out, [])"
    and "\<exists>payload. transport_payload out = (Ok payload :: (db_error, _) result)"
proof -
  let ?pubs = "map (su_public example_suite) [2]" and ?recv = "replicate 18 9 :: bytes"
  have recv: "length ?recv = sender_id_size" "sender_id_new ?recv (replicate 10 9) = ?recv"
    by (simp_all add: sender_id_size_def simple_pseudonym_size_def surb_id_size_def sender_id_surb_id_def sender_id_new_def replicate_add [symmetric])
  have kps: "[2 :: byte] \<noteq> []" "length [2 :: byte] \<le> 4" by simp_all
  obtain m where m: "packet_message_from_parts example_suite hopr_header_spec payload_size_int [] msg = Ok m" "length m = padded_size payload_size_int"
    using padded_new_eq [of "0 # msg" payload_size_int] msg
    by (auto simp: packet_message_from_parts_def packet_message_header_len_def payload_size_int_def padded_new_from_vec_eq padded_size_def)
  obtain keys where keys: "new_shared_keys example_suite 5 ?pubs = Ok keys" "sk_secrets keys = map (\<lambda>_. replicate 32 3) [2 :: byte]"
    by (rule example_keys)
  obtain strings vals where gen: "generate_proof_of_relay example_curve (\<lambda>_. replicate 32 3) (sk_secrets keys) = Ok (strings, vals)"
    using example_por [OF kps(1)] keys(2) by metis
  note rt = keys_route_ok [OF example_env_ok relay_mapper [OF kps] recv(1), unfolded example_env_parts, OF keys(1) gen]
  from forward_packet_travels [OF rt(1) keys(1) m(2), of "\<lambda>_. 1" True] obtain pp where
    pp: "partial_packet_new example_suite hopr_header_spec (\<lambda>_. 1) (ForwardPathRouting keys ?pubs strings ?recv True) (mapper_of relay_start) = Ok pp"
    by blast
  let ?out = "\<lambda>vt. \<lparr>ho_packet = into_meta_packet example_suite payload_size_int pp m, ho_ticket = vt_leak vt, ho_next_hop = relay_key 2,
      ho_ack_challenge = pov_acknowledgement_challenge vals\<rparr>"
  obtain vt where vt: "tb_build_signed (nd_crypto relay_node) (tb_set_challenge (pov_ticket_challenge vals) (zero_hop_ticket relay_node a)) 1 ds
      = (Ok vt :: (core_types_error, _) result)"
    "transport_payload (?out vt) = (Ok (into_meta_packet example_suite payload_size_int pp m @ ticket_bytes (vt_ticket vt)) :: (db_error, _) result)"
    by (rule relay_zero_hop)
  have rnd: "pr_scalar Hopr_Packet.example_random k = 5" "pr_secrets Hopr_Packet.example_random k = (\<lambda>_. replicate 32 3)"
    "pr_padding Hopr_Packet.example_random k = (\<lambda>_. 1)" "pr_sender_id Hopr_Packet.example_random = ?recv" for k
    by (simp_all add: Hopr_Packet.example_random_def)
  have "into_outgoing Hopr_Packet.example_env Hopr_Packet.example_random msg (replicate 10 9) (NoAckTo (relay_key 2)) 1
      (zero_hop_ticket relay_node a) (mapper_of relay_start) ds = Ok (OutgoingPacket (?out vt), [])"
    using pp m keys(1) gen vt(1)
    by (simp add: into_outgoing_def partial_hopr_packet_new_def into_hopr_packet_def Let_def example_env_parts rnd recv(2) relay_key_public)
  then show ?thesis by (rule that) (use vt(2) in blast)
qed

lemma acknowledgement_delivered_witness:
  "\<exists>s' pkt ch. to_send_no_ack relay_env1 Hopr_Packet.example_random (replicate 10 9)
       (ak_data (ak_new (re_sign relay_env1) (replicate 31 0 @ [13]) 4)) (relay_key 2) relay_start = (s', Ok pkt)
     \<and> op_next_hop pkt = relay_key 2
     \<and> from_recv relay_env1 () (op_data pkt) 2 (relay_key 4) wp_always 10 (relay_start\<lparr>rl_unacked := [ch \<mapsto> WaitingAsSender]\<rparr>)
       = (relay_start, Ok None)"
proof -
  let ?share = "replicate 31 0 @ [13] :: bytes"
  let ?ack = "ak_new (re_sign relay_env1) ?share 4"
  have pub: "relay_key 2 = su_public (pe_suite (re_packets relay_env1)) 2" by (simp add: example_env_parts relay_key_public)
  have "length (ak_data ?ack) < 200" by (simp add: ak_new_def)
  from relay_no_ack_packet [OF this, of "replicate 20 9" "replicate 32 0"] obtain out payload where
    o1: "into_outgoing Hopr_Packet.example_env Hopr_Packet.example_random (ak_data ?ack) (replicate 10 9) (NoAckTo (relay_key 2)) 1
      (zero_hop_ticket relay_node (replicate 20 9)) (mapper_of relay_start) (replicate 32 0) = Ok (OutgoingPacket out, [])"
    and pl: "transport_payload out = (Ok payload :: (db_error, _) result)" by blast
  have st: "relay_start\<lparr>rl_chain := relay_chain\<rparr> = relay_start" "rl_chain relay_start = relay_chain" by (simp_all add: relay_start_def)
  have out: "to_send_no_ack relay_env1 Hopr_Packet.example_random (replicate 10 9) (ak_data ?ack) (relay_key 2) relay_start
      = (relay_start, Ok \<lparr>op_next_hop = ho_next_hop out, op_ack_challenge = ho_ack_challenge out, op_data = payload\<rparr>)"
    using o1 pl
    by (simp add: to_send_no_ack_def as_api_def act_bind_def on_chain_def chain_key_of_def act_lift_def act_return_def build_outgoing_def
        domain_separator_of_def relay_chain_reads st outgoing_of_def relay_chain_state(4))
  have env: "packet_env_ok (re_packets relay_env1)" "crypto_ok (nd_crypto (re_node relay_env1))"
    "nd_crypto (re_node relay_env1) = pe_crypto (re_packets relay_env1)"
    using example_env_ok example_crypto_ok by (simp_all add: crypto_ok_def example_env_parts)
  have route: "hopr_route (re_packets relay_env1) (mapper_of relay_start) [2] [[0, 0, 0, 2]]"
    using relay_mapper [of "[2]"] by simp
  have len: "length (replicate 10 (9 :: byte)) = simple_pseudonym_size" "length (pr_sender_id Hopr_Packet.example_random) = sender_id_size"
    "length ?share = half_key_size" "length (re_sign relay_env1 m k) = offchain_signature_size" for m k
    by (simp_all add: simple_pseudonym_size_def sender_id_size_def surb_id_size_def Hopr_Packet.example_random_def half_key_size_def
        offchain_signature_size_def)
  have "ae_verify_message (nd_accounts (re_node relay_env1)) ?share (relay_key 4) (re_sign relay_env1 ?share 4)"
    by (simp add: Account_Table.example_env_def)
  from acknowledgement_delivered [OF env route len out [unfolded pub] refl this, of "()" wp_always 10]
  have d: "ho_next_hop out = relay_key 2"
    "from_recv relay_env1 () payload 2 (relay_key 4) wp_always 10
      = act_bind (handle_acknowledgement relay_node example_curve () ?ack) (\<lambda>_. act_return None)"
    by (simp_all add: relay_key_public example_env_parts)
  have "be_decode ?share = 13" by code_simp
  then have hk: "\<exists>ch. half_key_to_challenge example_curve ?share = (Ok ch :: (core_types_error, _) result)"
    by (simp add: half_key_to_challenge_def nonzero_scalar_def example_curve_def)
  then obtain ch where ch: "ak_challenge example_curve ?ack = Ok ch"
    by (auto simp: ak_challenge_def ak_key_share_def ak_new_def half_key_size_def)
  have "validate_acknowledgement relay_node example_curve () ?ack (relay_start\<lparr>rl_unacked := [ch \<mapsto> WaitingAsSender]\<rparr>)
      = (relay_start, Ok (AckSending ?ack))"
    by (subst validate_acknowledgement_known [OF ch]) (simp add: relay_start_def)
  then have "handle_acknowledgement relay_node example_curve () ?ack (relay_start\<lparr>rl_unacked := [ch \<mapsto> WaitingAsSender]\<rparr>) = (relay_start, Ok ())"
    by (simp add: handle_acknowledgement_def act_bind_def as_api_def act_return_def)
  then have "from_recv relay_env1 () payload 2 (relay_key 4) wp_always 10 (relay_start\<lparr>rl_unacked := [ch \<mapsto> WaitingAsSender]\<rparr>)
      = (relay_start, Ok None)" by (simp add: d(2) act_bind_def act_return_def)
  then show ?thesis using out d(1) by fastforce
qed

end
