(* ===== verification/Spec2Isabelle.thy ===== *)
theory Spec2Isabelle
  imports Session_State Hopr_Packet Path_Selection Ticket_Accounting Channel_Table Account_Table Node_Info Chain_Blocks Aggregation_Round Relay_Delivery
begin

text \<open>
  Verification development for the HOPR node (\<open>hoprnet\<close>): the payment layer of a mixnet node and the Session protocol
  that runs over it.

  \<^bold>\<open>The program.\<close> A node forwards packets for others and is paid by probabilistic tickets. A path through the graph of
  payment channels is selected (\<open>logic/path\<close>); the packet carries, for every relay, the values of Proof of Relay and a
  ticket of the previous hop (\<open>crypto/packet\<close>). A relay validates the ticket against the channel, forwards the packet,
  and when the next hop acknowledges it, the two key shares open the challenge of the ticket
  (\<open>common/internal-types\<close>). Winning tickets are stored (\<open>db/sql\<close>), aggregated with the issuer of the channel or redeemed
  on chain. The indexer (\<open>chain/indexer\<close>) follows the contract events and keeps accounts, channels, tickets and node
  information up to date; it feeds the channel graph. The Session protocol (\<open>common/network-types\<close>) splits the data of
  an application into frames and segments, each the payload of a packet, and makes their delivery reliable.

  \<^bold>\<open>The theories.\<close>
  \<^item> \<open>Prelude\<close>: results with errors and panics, fixed-width integers, big-endian codecs, chunking, the lemma collections.
  \<^item> \<open>Ord_Map\<close>, \<open>Wire_Codec\<close>, \<open>Transition\<close>: the interfaces. \<open>kv_store\<close> is the contract of the ordered and hashed maps of
    the program, \<open>wire_codec\<close> (with \<open>exact_codec\<close> and \<open>fixed_codec\<close>) that of a wire format, \<open>inductive_invariant\<close> that
    of a stateful component. Each is interpreted on the definitions of the components that provide it.
  \<^item> \<open>Session_Frame\<close>, \<open>Session_Reassembler\<close> (\<open>session/frame.rs\<close>), \<open>Session_Protocol\<close> (\<open>session/protocol.rs\<close>),
    \<open>Session_State\<close> (\<open>session/state.rs\<close>, \<open>session/utils.rs\<close>): segmentation and the frame builder, in-order reassembly
    with eviction, the messages and their parser, and the state machine with its socket. \<open>Session_Delivery\<close> shows what
    the reassembler outputs for the segments of a sender, however they are reordered, lost and repeated.
  \<^item> \<open>Primitives\<close> (\<open>common/primitive-types\<close>): saturating balances, products and quotients with floats, bounded
    sizes, moving averages.
  \<^item> \<open>Channels\<close>, \<open>Tickets\<close> (\<open>channels.rs\<close>, \<open>tickets.rs\<close> of \<open>common/internal-types\<close>): channel entries, and tickets from the
    builder through signing and acknowledgement to the redeemable ticket.
  \<^item> \<open>Proof_Of_Relay\<close> (\<open>crypto/packet/src/por.rs\<close>, \<open>validation.rs\<close>): key shares, challenges and the checks of a ticket.
  \<^item> \<open>Channel_Graph\<close>, \<open>List_Graph\<close>, \<open>Path_Validation\<close>, \<open>Path_Selection\<close> (\<open>logic/path\<close>): the graph with scores, a concrete
    graph structure, the validation of paths, and the best-first search of the selector.
  \<^item> \<open>Ticket_Store\<close>, \<open>Ticket_Accounting\<close> (\<open>db/sql/src/tickets.rs\<close>, \<open>ticket_manager.rs\<close>, \<open>db/api/src/tickets.rs\<close>): the
    ticket table, selectors, statistics, outgoing indices, the queue; and their properties.
  \<^item> \<open>Channel_Table\<close>, \<open>Node_Accounts\<close>, \<open>Account_Table\<close>, \<open>Node_Info\<close> (\<open>channels.rs\<close>, \<open>accounts.rs\<close>, \<open>cache.rs\<close>, \<open>info.rs\<close>,
    \<open>registry.rs\<close> of \<open>db/sql\<close>): the tables of the index database with their caches.
  \<^item> \<open>Chain_Events\<close>, \<open>Chain_Ledger\<close>, \<open>Chain_Blocks\<close> (\<open>chain/indexer/src/handlers.rs\<close>): the handlers of contract events, an
    abstract ledger of what the contracts decided, and the refinement of the ledger by the processing of blocks.
  \<^item> \<open>Sphinx_Keys\<close>, \<open>Sphinx_Header\<close>, \<open>Sphinx_Packet\<close> (\<open>crypto/sphinx\<close>): key derivation and the secrets that a sender shares
    with the nodes of a path, the layered header, padding, reply blocks, and the removal of a layer by a node. The
    interface \<open>layered_cipher\<close> states when layers that are put on in one order can be removed in another.
  \<^item> \<open>Hopr_Packet\<close> (\<open>crypto/packet/src/packet.rs\<close>, \<open>types.rs\<close>): Sphinx packets that carry Proof of Relay, a ticket and reply
    blocks; a packet, and a reply to it, arrive through honest relays whose tickets can be redeemed.
  \<^item> \<open>Ticket_Aggregation\<close>, \<open>Aggregation_Round\<close> (\<open>db/sql/src/tickets.rs\<close>, \<open>resolver.rs\<close>): the exchange of tickets of a
    channel for one ticket of their total, on both sides, and the round as a whole.
  \<^item> \<open>Packet_Relay\<close>, \<open>Relay_Delivery\<close> (\<open>db/sql/src/protocol.rs\<close>, \<open>cache.rs\<close>): sending, receiving and forwarding packets with the
    tickets for the next hop, and acknowledgements; that they settle the tickets that wait for them, that a relay pays and
    is paid, that acknowledgements arrive, and that reply blocks are used once.

  \<^bold>\<open>State and operations.\<close> A struct is a record with the fields of the source behind a short prefix, an enum a datatype with
  the source's constructors, and an operation a function of the name of the source's, prefixed by its type where names
  collide (\<open>fr_push_segment\<close> is \<open>FrameReassembler::push_segment\<close>). Fallible code returns \<open>('e, 'a) result\<close>: \<open>Ok\<close>, \<open>Err\<close> with
  the error of the source, or \<open>Panicked\<close>. An operation that changes state returns the state it leaves; one that leaves
  changes behind when it fails (the handlers of a block, the Session state) returns the state together with its result,
  one that runs in a transaction of its own returns no state with an error. Integers are words of their width; a finite
  \<open>f64\<close> is the rational number it stands for, with the rounding of the operations written out where the code depends on
  it. Tables are lists of rows in the order of row numbers, with columns as the code writes them.

  \<^bold>\<open>What the lemmas show.\<close> For every component: a well-formedness invariant and that each operation keeps it; the result
  of each operation on every branch; round trips of the wire and row formats; for the graph, the tables, the outgoing
  indices and the node information a refinement of a map; for the Session and the reassembler, invariants over all runs.
  Across components: the processing of blocks refines the ledger and conserves the value of tickets, a path that the
  selector returns passes validation, the values that a sender puts into a packet satisfy every relay on the path, written
  frames arrive unchanged over an unreliable lower layer, a relay that forwards a packet is paid when the next hop
  acknowledges it, and a round of aggregation conserves value.

  \<^bold>\<open>Arguments and hypotheses.\<close> Code outside the repository is an argument of the definitions that use it, and what a
  theorem relies on is a hypothesis of it: \<open>crypto\<close> (Keccak-256, ECDSA signing and recovery, VRF parameters;
  \<open>crypto_ok\<close>), \<open>curve\<close> (secp256k1; \<open>curve_ok\<close>), \<open>suite\<close> (the group, extendable hash, key stream and authenticator of
  Sphinx; \<open>suite_ok\<close>, \<open>mac_ok\<close>), \<open>key_mapper\<close> (the identifiers of public keys; \<open>hopr_route\<close>), \<open>petgraph\<close> (\<open>petgraph_ok\<close>, satisfied by \<open>list_graph\<close>), the address resolver of path
  validation, the edge weights and the choice among equal entries of a heap in path selection, \<open>account_env\<close> (hash, point
  decompression, multiaddresses, Ed25519), the ring buffer of reply blocks (\<open>ring_ok\<close>), the decoders of contract logs in \<open>handlers\<close> (\<open>handlers_ok\<close>, \<open>bindings_ok\<close>,
  \<open>logs_ok\<close>, \<open>formats_ok\<close>), the approximate comparison of floats (\<open>approx\<close>), and random values. Every property with a hypothesis
  has a witness in which it holds on concrete functions and data.

  \<^bold>\<open>Bounds and fuel.\<close> Recursions are structural or have a measure. The search for a path stops after the configured
  number of iterations as in the code; completeness is stated for a number that suffices. Message sizes, buffer
  capacities and index widths are those of the source.

  \<^bold>\<open>Not modelled.\<close> Concurrency inside one operation (operations of shared structures are atomic steps), the connection to
  the database and its failures, metrics and logging, serialisation by serde, the cryptographic primitives themselves,
  generated contract bindings and the contracts, the RPC client, the block stream and the transaction queue, the
  transport over libp2p with its mixer, heartbeats and Session manager, strategies, the REST interface and the command
  line tools: these are input and output, asynchronous glue, or third-party code around the parts that are modelled. Of
  the parts above, what is left out is said in the text of their theories.
\<close>

end
